(* ===== verification/Eden_Prelude.thy ===== *)
theory Eden_Prelude
  imports Main
begin

text \<open>
  Shared vocabulary of the development: the exceptions the library throws, the result type
  of fallible operations, the named theorem collections, and the generic list functions
  (splitting at separators, joining with a separator, searching from either end) on which
  the path components, the path map and the socket protocol rest.

  An exception is represented by its class; the text of its message is not modelled.
  An operation that may throw returns \<open>Inl e\<close> for the exception \<open>e\<close> and \<open>Inr v\<close> for
  a normal return with value \<open>v\<close>.  \<open>CheckFailed\<close> is a failed \<open>XCHECK\<close> or \<open>EDEN_BUG\<close>.
\<close>

section \<open>Exceptions and results\<close>

datatype exn =
    PathComponentValidationError
  | PathComponentContainsDirectorySeparator
  | PathComponentNotUtf8
  | DomainError
  | RuntimeError
  | LogicError
  | OutOfRange
  | SystemError nat
  | CheckFailed

type_synonym 'a result = "exn + 'a"

definition is_ok :: "'a result \<Rightarrow> bool" where
  "is_ok r = (case r of Inl _ \<Rightarrow> False | Inr _ \<Rightarrow> True)"

section \<open>Splitting and joining\<close>

text \<open>
  \<open>split_on P xs\<close> is the list of the maximal runs of \<open>xs\<close> between elements that satisfy
  \<open>P\<close>; it is never empty.  \<open>join sep xss\<close> is what \<open>fmt::join\<close> and \<open>folly::join\<close> print.
\<close>

fun split_on :: "('a \<Rightarrow> bool) \<Rightarrow> 'a list \<Rightarrow> 'a list list" where
  "split_on P [] = [[]]"
| "split_on P (x # xs) =
     (if P x then [] # split_on P xs
      else (x # hd (split_on P xs)) # tl (split_on P xs))"

fun join :: "'a list \<Rightarrow> 'a list list \<Rightarrow> 'a list" where
  "join sep [] = []"
| "join sep [x] = x"
| "join sep (x # y # ys) = x @ sep @ join sep (y # ys)"

text \<open>
  \<open>find_index P start xs\<close> is the first index from \<open>start\<close> on whose element satisfies
  \<open>P\<close> (\<open>std::string_view::find\<close>), \<open>rfind_index P xs\<close> the last one (\<open>rfind\<close>); \<open>None\<close>
  is \<open>npos\<close>.
\<close>

fun find_from :: "('a \<Rightarrow> bool) \<Rightarrow> nat \<Rightarrow> 'a list \<Rightarrow> nat option" where
  "find_from P i [] = None"
| "find_from P i (x # xs) = (if P x then Some i else find_from P (Suc i) xs)"

definition find_index :: "('a \<Rightarrow> bool) \<Rightarrow> nat \<Rightarrow> 'a list \<Rightarrow> nat option" where
  "find_index P start xs = find_from P start (drop start xs)"

fun rfind_index :: "('a \<Rightarrow> bool) \<Rightarrow> 'a list \<Rightarrow> nat option" where
  "rfind_index P [] = None"
| "rfind_index P (x # xs) =
     (case rfind_index P xs of Some i \<Rightarrow> Some (Suc i)
      | None \<Rightarrow> if P x then Some 0 else None)"

named_theorems split_join
named_theorems result_simps

lemma is_ok_simps [simp, result_simps]:
  "is_ok (Inr v)" "\<not> is_ok (Inl e)"
  by (simp_all add: is_ok_def)

lemma is_ok_iff: "is_ok r \<longleftrightarrow> (\<exists>v. r = Inr v)"
  by (cases r) auto

lemma is_ok_unit: "is_ok r \<longleftrightarrow> r = Inr ()"
  by (cases r) auto

subsection \<open>Laws of splitting and joining\<close>

lemma split_on_not_Nil [simp]: "split_on P xs \<noteq> []"
  by (induction xs) auto

lemma split_on_hd_tl [simp]: "hd (split_on P xs) # tl (split_on P xs) = split_on P xs"
  by simp

lemma split_on_id [split_join]: "\<forall>x \<in> set xs. \<not> P x \<Longrightarrow> split_on P xs = [xs]"
  by (induction xs) auto

lemma split_on_sep [split_join]: "P d \<Longrightarrow> split_on P (xs @ d # ys) = split_on P xs @ split_on P ys"
  by (induction xs) (auto simp: hd_append)

lemma split_on_Cons_cases:
  obtains y ys where "split_on P xs = y # ys"
  by (cases "split_on P xs") auto

lemma split_on_free: "s \<in> set (split_on P xs) \<Longrightarrow> c \<in> set s \<Longrightarrow> \<not> P c"
proof (induction xs arbitrary: s)
  case Nil
  then show ?case by simp
next
  case (Cons x xs)
  obtain y ys where "split_on P xs = y # ys" by (rule split_on_Cons_cases)
  with Cons show ?case by (fastforce split: if_splits)
qed

lemma split_on_set: "s \<in> set (split_on P xs) \<Longrightarrow> set s \<subseteq> set xs"
proof (induction xs arbitrary: s)
  case Nil
  then show ?case by simp
next
  case (Cons x xs)
  obtain y ys where "split_on P xs = y # ys" by (rule split_on_Cons_cases)
  with Cons show ?case by (fastforce split: if_splits)
qed

lemma split_on_cong: "(\<And>x. x \<in> set xs \<Longrightarrow> P x = Q x) \<Longrightarrow> split_on P xs = split_on Q xs"
  by (induction xs) auto

lemma join_Cons [split_join]: "yss \<noteq> [] \<Longrightarrow> join sep (x # yss) = x @ sep @ join sep yss"
  by (cases yss) auto

lemma join_append [split_join]:
  "xss \<noteq> [] \<Longrightarrow> yss \<noteq> [] \<Longrightarrow> join sep (xss @ yss) = join sep xss @ sep @ join sep yss"
proof (induction xss)
  case (Cons x xss)
  then show ?case by (cases "xss = []") (simp_all add: join_Cons)
qed simp

lemma join_Cons_hd: "join sep ((x # y) # ys) = x # join sep (y # ys)"
  by (cases ys) auto

lemma join_split_on [split_join, simp]: "join [d] (split_on ((=) d) xs) = xs"
proof (induction xs)
  case Nil
  then show ?case by simp
next
  case (Cons x xs)
  then show ?case
    by (cases "d = x") (simp_all add: join_Cons join_Cons_hd)
qed

lemma split_on_join [split_join]:
  assumes "xss \<noteq> []" and "\<forall>s \<in> set xss. \<forall>c \<in> set s. \<not> P c" and "P d"
  shows "split_on P (join [d] xss) = xss"
  using assms(1,2)
proof (induction xss)
  case Nil
  then show ?case by simp
next
  case (Cons x xss)
  show ?case
  proof (cases "xss = []")
    case True
    with Cons.prems show ?thesis by (simp add: split_on_id)
  next
    case False
    then have "split_on P (join [d] (x # xss)) = split_on P x @ split_on P (join [d] xss)"
      by (simp add: join_Cons split_on_sep assms(3))
    with False Cons show ?thesis by (simp add: split_on_id)
  qed
qed

lemma split_on_takeWhile:
  "split_on P xs = takeWhile (\<lambda>c. \<not> P c) xs #
     (case dropWhile (\<lambda>c. \<not> P c) xs of [] \<Rightarrow> [] | _ # ys \<Rightarrow> split_on P ys)"
  by (induction xs) auto

lemma set_join: "set (join sep xss) \<subseteq> (\<Union>s \<in> set xss. set s) \<union> set sep"
  by (induction sep xss rule: join.induct) auto

subsection \<open>Laws of searching\<close>

lemma find_from_shift: "find_from P (n + i) xs = map_option ((+) n) (find_from P i xs)"
  by (induction xs arbitrary: i) (auto simp flip: add_Suc_right)

lemma find_from_None: "find_from P i xs = None \<longleftrightarrow> (\<forall>x \<in> set xs. \<not> P x)"
  by (induction xs arbitrary: i) auto

lemma find_from_eq:
  "find_from P i xs = (if \<exists>x \<in> set xs. P x then Some (i + length (takeWhile (\<lambda>x. \<not> P x) xs)) else None)"
  by (induction xs arbitrary: i) auto

lemma rfind_index_None: "rfind_index P xs = None \<longleftrightarrow> (\<forall>x \<in> set xs. \<not> P x)"
  by (induction xs) (auto split: option.splits)

lemma rfind_index_Some:
  "rfind_index P xs = Some i \<longleftrightarrow>
     i < length xs \<and> P (xs ! i) \<and> (\<forall>x \<in> set (drop (Suc i) xs). \<not> P x)"
proof (induction xs arbitrary: i)
  case Nil
  then show ?case by simp
next
  case (Cons x xs)
  show ?case
  proof (cases "rfind_index P xs")
    case None
    then have "\<forall>x \<in> set xs. \<not> P x" by (simp add: rfind_index_None)
    with None show ?thesis by (cases i) auto
  next
    case (Some j)
    then have "\<exists>x \<in> set xs. P x"
      by (metis option.distinct(1) rfind_index_None)
    show ?thesis
    proof (cases i)
      case 0
      with Some \<open>\<exists>x \<in> set xs. P x\<close> show ?thesis by simp
    next
      case (Suc k)
      with Some have "rfind_index P (x # xs) = Some i \<longleftrightarrow> rfind_index P xs = Some k" by simp
      with Suc show ?thesis using Cons.IH [of k] by simp
    qed
  qed
qed

lemma rfind_index_append:
  "\<forall>x \<in> set ys. \<not> P x \<Longrightarrow> P d \<Longrightarrow> rfind_index P (xs @ d # ys) = Some (length xs)"
  by (simp add: rfind_index_Some)

lemma find_from_bounds: "find_from P i xs = Some j \<Longrightarrow> i \<le> j \<and> j < i + length xs"
  by (induction xs arbitrary: i) (fastforce split: if_splits)+

lemma find_index_Some: "find_index P start xs = Some i \<Longrightarrow> start \<le> i \<and> i < length xs"
  by (auto simp: find_index_def dest!: find_from_bounds)

lemma find_index_None: "find_index P start xs = None \<longleftrightarrow> (\<forall>x \<in> set (drop start xs). \<not> P x)"
  by (simp add: find_index_def find_from_None)

lemma find_index_split:
  assumes "find_index P start xs = Some i"
  shows "drop start xs = take (i - start) (drop start xs) @ xs ! i # drop (i + 1) xs"
    and "P (xs ! i)" and "\<forall>c \<in> set (take (i - start) (drop start xs)). \<not> P c"
proof -
  define ys where "ys = drop start xs"
  have ex: "\<exists>x \<in> set ys. P x" and i: "i = start + length (takeWhile (\<lambda>x. \<not> P x) ys)"
    using assms by (auto simp: find_index_def find_from_eq ys_def split: if_splits)
  then have lt: "i - start < length ys"
    by (metis add_diff_cancel_left' length_takeWhile_le nat_less_le takeWhile_eq_all_conv takeWhile_eq_take take_all_iff)
  have nth: "ys ! (i - start) = xs ! i" using lt i by (simp add: ys_def)
  show "drop start xs = take (i - start) (drop start xs) @ xs ! i # drop (i + 1) xs"
    using id_take_nth_drop [OF lt] i unfolding nth by (simp add: ys_def add.commute)
  show "P (xs ! i)" using nth nth_length_takeWhile [of "\<lambda>x. \<not> P x" ys] lt i by simp
  show "\<forall>c \<in> set (take (i - start) (drop start xs)). \<not> P c"
    using i by (auto simp: ys_def [symmetric] takeWhile_eq_take [symmetric] dest: set_takeWhileD)
qed

text \<open>Searching for either of two characters is the nearer of the two searches.\<close>

lemma find_from_disj:
  "find_from (\<lambda>c. P c \<or> Q c) i xs =
     (case find_from Q i xs of
        Some w \<Rightarrow> (case find_from P i xs of None \<Rightarrow> Some w | Some j \<Rightarrow> Some (min j w))
      | None \<Rightarrow> find_from P i xs)"
proof (induction xs arbitrary: i)
  case Nil
  then show ?case by simp
next
  case (Cons c xs)
  have ge: "find_from R (Suc i) xs = Some j \<Longrightarrow> min i j = i \<and> min j i = i" for R j
    using find_from_bounds [of R "Suc i" xs j] by simp
  show ?case
    by (cases "P c"; cases "Q c"; simp add: Cons split: option.split) (auto dest: ge)
qed

lemma rfind_index_disj:
  "rfind_index (\<lambda>c. P c \<or> Q c) xs =
     (case rfind_index Q xs of
        Some w \<Rightarrow> (case rfind_index P xs of None \<Rightarrow> Some w | Some j \<Rightarrow> Some (max j w))
      | None \<Rightarrow> rfind_index P xs)"
  by (induction xs) (simp_all split: option.split)

section \<open>64-bit arithmetic on natural numbers\<close>

text \<open>
  \<open>uint64_t\<close> and \<open>size_t\<close> values that are counted rather than masked are natural numbers,
  with the reduction modulo \<open>2 ^ 64\<close> written where the code may wrap around.
\<close>

definition u64 :: "nat \<Rightarrow> nat" where
  "u64 n = n mod 2 ^ 64"

definition u64_sub :: "nat \<Rightarrow> nat \<Rightarrow> nat" where
  "u64_sub a b = (a + (2 ^ 64 - b mod 2 ^ 64)) mod 2 ^ 64"

lemma u64_id [simp]: "n < 2 ^ 64 \<Longrightarrow> u64 n = n"
  by (simp add: u64_def)

lemma u64_sub_id [simp]:
  assumes "b \<le> a" "a < 2 ^ 64"
  shows "u64_sub a b = a - b"
proof -
  have "a + (2 ^ 64 - b mod 2 ^ 64) = (a - b) + 2 ^ 64" using assms by simp
  then have "u64_sub a b = ((a - b) + 2 ^ 64) mod 2 ^ 64" unfolding u64_sub_def by metis
  also have "\<dots> = a - b" using assms by (simp del: add_diff_assoc2)
  finally show ?thesis .
qed

section \<open>Decimal numbers\<close>

text \<open>The decimal digits of a number, as \<open>std::to_string\<close>, \<open>folly::to\<close> and \<open>fmt::format\<close> write them.\<close>

fun decimal :: "nat \<Rightarrow> string" where
  "decimal n = (if n < 10 then [char_of (48 + n)] else decimal (n div 10) @ [char_of (48 + n mod 10)])"

declare decimal.simps [simp del]

end
