(* ===== verification/Utf8.thy ===== *)
theory Utf8
  imports Eden_Prelude "HOL-Library.Word"
begin

text \<open>
  The UTF-8 validity test of \<open>eden/common/utils/Utf8.h\<close>.

  The C++ code walks raw pointers, and its bound check for continuation bytes compares
  \<open>begin + num - 1\<close> with \<open>end\<close>, so it may read the byte \<^emph>\<open>at\<close> \<open>end\<close>.  The model
  therefore works on the memory that holds the view: \<open>mem\<close> is the byte sequence that may
  be read, the view is the index range from \<open>b\<close> to \<open>e\<close>, and a read outside \<open>mem\<close>
  gives \<open>None\<close> (undefined behaviour).

  The lemmas show that the loop decides exactly the concatenations of UTF-8 encodings of
  code points below \<open>2 ^ 21\<close> whenever the byte at \<open>e\<close> is readable and is no
  continuation byte (a NUL-terminated string, a view that a path separator ends), and that
  the result is wrong, and may even be undefined, without that condition.
\<close>

unbundle bit_operations_syntax

section \<open>Definitions\<close>

definition isBitSet :: "char \<Rightarrow> nat \<Rightarrow> bool" where
  "isBitSet c n = ((of_char c :: 32 word) AND push_bit n 1 = push_bit n 1)"

definition isValidContinuation :: "char \<Rightarrow> bool" where
  "isValidContinuation c = (isBitSet c 7 \<and> \<not> isBitSet c 6)"

definition clearContinuationBit :: "char \<Rightarrow> 8 word" where
  "clearContinuationBit c = ucast ((of_char c :: 32 word) AND NOT (push_bit 7 1))"

text \<open>
  The \<open>for\<close> loop of the four-argument \<open>isValidContinuation\<close>: it returns whether the
  bytes were continuation bytes, the advanced \<open>begin\<close> and the code point.
\<close>

fun continuation_loop :: "char list \<Rightarrow> nat \<Rightarrow> nat \<Rightarrow> 32 word \<Rightarrow> (bool \<times> nat \<times> 32 word) option" where
  "continuation_loop mem b 0 cp = Some (True, b, cp)"
| "continuation_loop mem b (Suc num) cp =
     (if b < length mem then
        (if \<not> isValidContinuation (mem ! b) then Some (False, Suc b, cp)
         else continuation_loop mem (Suc b) num
                (push_bit 6 cp OR ucast (clearContinuationBit (mem ! b))))
      else None)"

definition isValidContinuations ::
  "char list \<Rightarrow> nat \<Rightarrow> nat \<Rightarrow> nat \<Rightarrow> 32 word \<Rightarrow> (bool \<times> nat \<times> 32 word) option" where
  "isValidContinuations mem b e num cp =
     (if b + num - 1 > e then Some (False, b, cp) else continuation_loop mem b num cp)"

lemma continuation_loop_mono:
  "continuation_loop mem b num cp = Some (ok, b', cp') \<Longrightarrow> b \<le> b'"
  by (induction mem b num cp rule: continuation_loop.induct) (auto split: if_splits)

lemma isValidContinuations_mono:
  "isValidContinuations mem b e num cp = Some (ok, b', cp') \<Longrightarrow> b \<le> b'"
  by (auto simp: isValidContinuations_def dest: continuation_loop_mono split: if_splits)

text \<open>The \<open>while (begin != end)\<close> loop of \<open>isValidUtf8\<close>.\<close>

function utf8_loop :: "char list \<Rightarrow> nat \<Rightarrow> nat \<Rightarrow> bool option" where
  "utf8_loop mem b e =
     (if b = e then Some True
      else if \<not> b < length mem then None
      else if \<not> isBitSet (mem ! b) 7 then utf8_loop mem (Suc b) e
      else if \<not> isBitSet (mem ! b) 6 then Some False
      else if \<not> isBitSet (mem ! b) 5 then
        (case isValidContinuations mem (Suc b) e 1 (of_char (mem ! b) AND 0x1F) of
           None \<Rightarrow> None
         | Some (ok, b', cp) \<Rightarrow>
             if \<not> ok then Some False
             else if cp < 0x80 then Some False
             else utf8_loop mem b' e)
      else if \<not> isBitSet (mem ! b) 4 then
        (case isValidContinuations mem (Suc b) e 2 (of_char (mem ! b) AND 0xF) of
           None \<Rightarrow> None
         | Some (ok, b', cp) \<Rightarrow>
             if \<not> ok then Some False
             else if cp < 0x800 then Some False
             else utf8_loop mem b' e)
      else if \<not> isBitSet (mem ! b) 3 then
        (case isValidContinuations mem (Suc b) e 3 (of_char (mem ! b) AND 0x7) of
           None \<Rightarrow> None
         | Some (ok, b', cp) \<Rightarrow>
             if \<not> ok then Some False
             else if cp < 0x10000 then Some False
             else utf8_loop mem b' e)
      else Some False)"
  by pat_completeness auto
termination
  by (relation "measure (\<lambda>(mem, b, e). length mem - b)")
     (auto dest!: isValidContinuations_mono)

declare utf8_loop.simps [simp del]

definition isValidUtf8_view :: "char list \<Rightarrow> nat \<Rightarrow> nat \<Rightarrow> bool option" where
  "isValidUtf8_view mem b e = utf8_loop mem b e"

text \<open>The test on a string whose storage is followed by a NUL byte, as in \<open>std::string\<close>.\<close>

definition isValidUtf8 :: "string \<Rightarrow> bool" where
  "isValidUtf8 s = (isValidUtf8_view (s @ [CHR 0x00]) 0 (length s) = Some True)"

section \<open>Specification\<close>

text \<open>The encoding of one code point, and the byte strings made of such encodings.\<close>

definition utf8_encode :: "nat \<Rightarrow> string" where
  "utf8_encode cp =
     (if cp < 0x80 then [char_of cp]
      else if cp < 0x800 then [char_of (0xC0 + cp div 64), char_of (0x80 + cp mod 64)]
      else if cp < 0x10000 then
        [char_of (0xE0 + cp div 4096), char_of (0x80 + cp div 64 mod 64), char_of (0x80 + cp mod 64)]
      else
        [char_of (0xF0 + cp div 262144), char_of (0x80 + cp div 4096 mod 64),
         char_of (0x80 + cp div 64 mod 64), char_of (0x80 + cp mod 64)])"

definition utf8_encoded :: "string \<Rightarrow> bool" where
  "utf8_encoded s \<longleftrightarrow> (\<exists>cps. (\<forall>cp \<in> set cps. cp < 2 ^ 21) \<and> s = concat (map utf8_encode cps))"

section \<open>Bytes and bits\<close>

lemma and_push_bit_1: "(w :: 32 word) AND push_bit n 1 = push_bit n 1 \<longleftrightarrow> n < 32 \<longrightarrow> bit w n"
proof
  assume a: "w AND push_bit n 1 = push_bit n 1"
  show "n < 32 \<longrightarrow> bit w n"
  proof
    assume "n < 32"
    then have "bit (push_bit n 1 :: 32 word) n" by (simp add: bit_simps)
    with a have "bit (w AND push_bit n 1) n" by simp
    then show "bit w n" by (simp add: bit_and_iff)
  qed
next
  assume "n < 32 \<longrightarrow> bit w n"
  then show "w AND push_bit n 1 = push_bit n 1"
    by (intro bit_word_eqI) (auto simp: bit_simps)
qed

lemma isBitSet_bit: "n < 8 \<Longrightarrow> isBitSet c n \<longleftrightarrow> bit (of_char c :: nat) n"
proof -
  assume n: "n < 8"
  have "bit (of_char c :: 32 word) n = bit (of_nat (of_char c) :: 32 word) n"
    by (simp only: of_nat_of_char)
  also have "\<dots> = bit (of_char c :: nat) n" using n by (simp add: bit_simps)
  finally show ?thesis using n unfolding isBitSet_def and_push_bit_1 by simp
qed

lemma byte_classes:
  "\<not> isBitSet c 7 \<longleftrightarrow> (of_char c :: nat) < 128"
  "isBitSet c 7 \<and> \<not> isBitSet c 6 \<longleftrightarrow> (of_char c :: nat) \<in> {128..<192}"
  "isBitSet c 7 \<and> isBitSet c 6 \<and> \<not> isBitSet c 5 \<longleftrightarrow> (of_char c :: nat) \<in> {192..<224}"
  "isBitSet c 7 \<and> isBitSet c 6 \<and> isBitSet c 5 \<and> \<not> isBitSet c 4 \<longleftrightarrow> (of_char c :: nat) \<in> {224..<240}"
  "isBitSet c 7 \<and> isBitSet c 6 \<and> isBitSet c 5 \<and> isBitSet c 4 \<and> \<not> isBitSet c 3
     \<longleftrightarrow> (of_char c :: nat) \<in> {240..<248}"
  by (cases c; simp add: isBitSet_bit, simp add: bit_nat_def; force)+

lemma byte_bad:
  assumes "(of_char c :: nat) \<in> {128..<192} \<or> 248 \<le> (of_char c :: nat)"
  shows "isBitSet c 7 \<and> (isBitSet c 6 \<longrightarrow> isBitSet c 5 \<and> isBitSet c 4 \<and> isBitSet c 3)"
proof -
  have "isBitSet c 7" using assms byte_classes(1) [of c] by auto
  moreover have "(of_char c :: nat) \<notin> {192..<224}" "(of_char c :: nat) \<notin> {224..<240}"
    "(of_char c :: nat) \<notin> {240..<248}" using assms by auto
  ultimately show ?thesis using byte_classes(3-5) [of c] by blast
qed

lemma continuation_range: "isValidContinuation c \<longleftrightarrow> (of_char c :: nat) \<in> {128..<192}"
  unfolding isValidContinuation_def by (rule byte_classes)

lemma unat_of_char: "unat (of_char c :: 32 word) = of_char c"
proof -
  have "(of_char c :: nat) < 2 ^ 32" by (rule less_trans [of _ 256]) simp_all
  then have "unat (of_nat (of_char c) :: 32 word) = of_char c" by (simp add: unat_of_nat)
  then show ?thesis by (simp only: of_nat_of_char)
qed

lemma unat_of_char_masked:
  "unat ((of_char c :: 32 word) AND 0x1F) = of_char c mod 32"
  "unat ((of_char c :: 32 word) AND 0xF) = of_char c mod 16"
  "unat ((of_char c :: 32 word) AND 0x7) = of_char c mod 8"
proof -
  have "unat ((of_char c :: 32 word) AND mask n) = take_bit n (of_char c)" for n
    by (simp only: take_bit_eq_mask [symmetric] unsigned_take_bit_eq unat_of_char)
  then have "unat ((of_char c :: 32 word) AND mask n) = of_char c mod 2 ^ n" for n
    by (simp only: take_bit_eq_mod)
  from this [of 5] this [of 4] this [of 3] show
    "unat ((of_char c :: 32 word) AND 0x1F) = of_char c mod 32"
    "unat ((of_char c :: 32 word) AND 0xF) = of_char c mod 16"
    "unat ((of_char c :: 32 word) AND 0x7) = of_char c mod 8"
    by (simp_all add: mask_eq_exp_minus_1)
qed

lemma unat_clearContinuationBit:
  "unat (clearContinuationBit c) = of_char c mod 128"
proof -
  have "clearContinuationBit c = take_bit 7 (ucast (of_char c :: 32 word))"
  proof -
    define m where "m = push_bit 7 (1 :: 32 word)"
    have "bit m n \<longleftrightarrow> n = 7" for n
      unfolding m_def by (simp only: bit_push_bit_iff bit_1_iff) auto
    then have "bit (clearContinuationBit c) n \<longleftrightarrow> n < 7 \<and> bit (of_char c :: 32 word) n" if "n < 8" for n
      unfolding clearContinuationBit_def m_def [symmetric] using that
      by (simp add: bit_simps) linarith
    then show ?thesis
      by (intro bit_word_eqI) (simp add: bit_simps)
  qed
  then have "unat (clearContinuationBit c) = take_bit 7 (unat (ucast (of_char c :: 32 word) :: 8 word))"
    by (simp only: unsigned_take_bit_eq)
  then show ?thesis
    by (simp add: unsigned_ucast_eq unat_of_char take_bit_eq_mod mod_mod_cancel)
qed

lemma unat_append_continuation:
  assumes "unat (cp :: 32 word) < 2 ^ 20" and "isValidContinuation c"
  shows "unat (push_bit 6 cp OR ucast (clearContinuationBit c)) = unat cp * 64 + of_char c mod 64"
proof -
  define x where "x = (ucast (clearContinuationBit c) :: 32 word)"
  have x: "unat x = of_char c mod 64"
  proof -
    have "unat x = of_char c mod 128"
      by (simp add: x_def unsigned_ucast_eq unat_clearContinuationBit take_bit_eq_mod)
    moreover have "(of_char c :: nat) \<in> {128..<192}"
      using assms(2) by (simp add: continuation_range)
    moreover have "k \<in> {128..<192} \<Longrightarrow> k mod 128 = k mod 64" for k :: nat
    proof -
      assume "k \<in> {128..<192}"
      then have j: "k = 128 + (k - 128)" "k - 128 < 64" by auto
      define j where "j = k - 128"
      have "(64 + (64 + j)) mod 64 = j" using j(2) by (simp only: mod_add_self1 mod_less j_def)
      moreover have "(128 + j) mod 128 = j" using j(2) by (simp add: j_def)
      ultimately show ?thesis using j(1) by (simp add: j_def [symmetric])
    qed
    ultimately show ?thesis by simp
  qed
  have hi: "\<not> bit x n" if "6 \<le> n" for n
  proof -
    have "unat x < 64" by (simp add: x)
    then have "unat x < 2 ^ n"
      using power_increasing [OF that, of "2::nat"] by simp
    then have "\<not> bit (unat x) n" by (simp add: bit_nat_def)
    then show ?thesis by (simp add: bit_unsigned_iff)
  qed
  have "push_bit 6 cp AND x = 0"
    by (intro bit_word_eqI) (use hi in \<open>auto simp: bit_simps\<close>)
  then have "push_bit 6 cp OR x = push_bit 6 cp + x" by (simp add: disjunctive_add_eq_or)
  moreover have "unat (push_bit 6 cp) = unat cp * 64"
    using assms(1) by (simp add: push_bit_eq_mult unat_mult_lem [THEN iffD1])
  ultimately have "unat (push_bit 6 cp OR x) = unat cp * 64 + unat x"
    using assms(1) x by (simp add: unat_add_lem [THEN iffD1])
  then show ?thesis using x by (simp add: x_def)
qed

section \<open>The continuation loop\<close>

definition cval :: "nat \<Rightarrow> string \<Rightarrow> nat" where
  "cval a cs = foldl (\<lambda>a c. a * 64 + of_char c mod 64) a cs"

lemma continuation_loop_spec:
  assumes "e < length mem" and "\<not> isValidContinuation (mem ! e)"
  shows "b \<le> e \<Longrightarrow> (unat cp + 1) * 64 ^ num \<le> 2 ^ 26 \<Longrightarrow>
    \<exists>ok b' cp'. continuation_loop mem b num cp = Some (ok, b', cp') \<and>
      (ok \<longleftrightarrow> b + num \<le> e \<and> (\<forall>c \<in> set (take num (drop b mem)). isValidContinuation c)) \<and>
      (ok \<longrightarrow> b' = b + num \<and> unat cp' = cval (unat cp) (take num (drop b mem)))"
proof (induction num arbitrary: b cp)
  case 0
  then show ?case by (intro exI [of _ True]) (simp add: cval_def)
next
  case (Suc num)
  have b: "b < length mem" using Suc.prems(1) assms(1) by simp
  then have dr: "drop b mem = mem ! b # drop (Suc b) mem" by (simp add: Cons_nth_drop_Suc)
  show ?case
  proof (cases "isValidContinuation (mem ! b)")
    case False
    with b dr show ?thesis by (intro exI [of _ False]) simp
  next
    case True
    define cp1 where "cp1 = push_bit 6 cp OR ucast (clearContinuationBit (mem ! b))"
    have small: "unat cp < 2 ^ 20"
    proof -
      have "(unat cp + 1) * 64 \<le> (unat cp + 1) * 64 ^ Suc num" by (rule mult_le_mono2) simp
      also note Suc.prems(2)
      finally have "(unat cp + 1) * 64 \<le> 2 ^ 26" .
      then show ?thesis by simp
    qed
    have cp1: "unat cp1 = unat cp * 64 + of_char (mem ! b) mod 64"
      unfolding cp1_def by (rule unat_append_continuation [OF small True])
    have "b \<noteq> e" using True assms(2) by auto
    with Suc.prems(1) have be: "Suc b \<le> e" by simp
    have bnd: "(unat cp1 + 1) * 64 ^ num \<le> 2 ^ 26"
    proof -
      have "of_char (mem ! b) mod 64 < (64 :: nat)" by simp
      then have "unat cp1 + 1 \<le> (unat cp + 1) * 64" using cp1 by simp
      then have "(unat cp1 + 1) * 64 ^ num \<le> (unat cp + 1) * 64 * 64 ^ num"
        by (rule mult_right_mono) simp
      with Suc.prems(2) show ?thesis by (simp add: algebra_simps)
    qed
    from Suc.IH [OF be bnd] obtain ok b' cp' where
      "continuation_loop mem (Suc b) num cp1 = Some (ok, b', cp')"
      "ok \<longleftrightarrow> Suc b + num \<le> e \<and> (\<forall>c \<in> set (take num (drop (Suc b) mem)). isValidContinuation c)"
      "ok \<longrightarrow> b' = Suc b + num \<and> unat cp' = cval (unat cp1) (take num (drop (Suc b) mem))"
      by (elim exE conjE)
    moreover have "continuation_loop mem b (Suc num) cp = continuation_loop mem (Suc b) num cp1"
      using True b by (simp add: cp1_def)
    moreover have "take (Suc num) (drop b mem) = mem ! b # take num (drop (Suc b) mem)"
      using dr by simp
    moreover have "cval (unat cp) (mem ! b # cs) = cval (unat cp1) cs" for cs
      by (simp add: cval_def cp1)
    ultimately show ?thesis using True by (intro exI [of _ ok] exI [of _ b'] exI [of _ cp']) simp
  qed
qed

lemma isValidContinuations_spec:
  assumes "e < length mem" and "\<not> isValidContinuation (mem ! e)"
    and "b \<le> e" and "0 < num" and "(unat cp + 1) * 64 ^ num \<le> 2 ^ 26"
  obtains ok b' cp' where "isValidContinuations mem b e num cp = Some (ok, b', cp')"
    and "ok \<longleftrightarrow> b + num \<le> e \<and> (\<forall>c \<in> set (take num (drop b mem)). isValidContinuation c)"
    and "ok \<Longrightarrow> b' = b + num" and "ok \<Longrightarrow> unat cp' = cval (unat cp) (take num (drop b mem))"
proof (cases "b + num - 1 > e")
  case True
  then show ?thesis using that [of False] by (auto simp: isValidContinuations_def)
next
  case False
  with continuation_loop_spec [OF assms(1,2,3,5)] that show ?thesis
    by (auto simp: isValidContinuations_def)
qed

section \<open>Encodings by their first byte\<close>

lemma utf8_encoded_Nil [simp]: "utf8_encoded []"
  by (auto simp: utf8_encoded_def intro: exI [of _ "[]"])

lemma utf8_encoded_append: "cp < 2 ^ 21 \<Longrightarrow> utf8_encoded t \<Longrightarrow> utf8_encoded (utf8_encode cp @ t)"
proof -
  assume cp: "cp < 2 ^ 21" and "utf8_encoded t"
  then obtain cps where "\<forall>cp \<in> set cps. cp < 2 ^ 21" "t = concat (map utf8_encode cps)"
    by (auto simp: utf8_encoded_def)
  with cp show ?thesis
    unfolding utf8_encoded_def by (intro exI [of _ "cp # cps"]) simp
qed

lemma utf8_encoded_Cons:
  "utf8_encoded (x # s) \<longleftrightarrow> (\<exists>cp t. cp < 2 ^ 21 \<and> x # s = utf8_encode cp @ t \<and> utf8_encoded t)"
proof
  assume "utf8_encoded (x # s)"
  then obtain cps where *: "\<forall>cp \<in> set cps. cp < 2 ^ 21" "x # s = concat (map utf8_encode cps)"
    by (auto simp: utf8_encoded_def)
  then obtain cp cps' where "cps = cp # cps'" by (cases cps) auto
  with * show "\<exists>cp t. cp < 2 ^ 21 \<and> x # s = utf8_encode cp @ t \<and> utf8_encoded t"
    by (intro exI [of _ cp] exI [of _ "concat (map utf8_encode cps')"]) (auto simp: utf8_encoded_def)
qed (metis utf8_encoded_append)

lemma char_eqI: "(of_char c :: nat) = n \<Longrightarrow> c = char_of n"
  by (metis char_of_char)

lemma utf8_encoded_1: "(of_char x :: nat) < 128 \<Longrightarrow> utf8_encoded (x # s) \<longleftrightarrow> utf8_encoded s"
proof
  assume x: "(of_char x :: nat) < 128" and "utf8_encoded (x # s)"
  then obtain cp t where *: "cp < 2 ^ 21" "x # s = utf8_encode cp @ t" "utf8_encoded t"
    by (auto simp: utf8_encoded_Cons)
  then have "cp < 0x80" using x by (auto simp: utf8_encode_def split: if_splits)
  with * show "utf8_encoded s" by (auto simp: utf8_encode_def)
next
  assume x: "(of_char x :: nat) < 128" and s: "utf8_encoded s"
  have "utf8_encode (of_char x) = [x]" using x by (simp add: utf8_encode_def)
  with utf8_encoded_append [OF _ s, of "of_char x"] x show "utf8_encoded (x # s)" by simp
qed

lemma utf8_encoded_bad:
  assumes "(of_char x :: nat) \<in> {128..<192} \<or> 248 \<le> (of_char x :: nat)"
  shows "\<not> utf8_encoded (x # s)"
proof
  assume "utf8_encoded (x # s)"
  then obtain cp t where "cp < 2 ^ 21" "x # s = utf8_encode cp @ t"
    by (auto simp: utf8_encoded_Cons)
  with assms show False by (auto simp: utf8_encode_def split: if_splits)
qed

lemma lead_mod:
  fixes k :: nat
  shows "k < 32 \<Longrightarrow> (192 + k) mod 32 = k" "k < 16 \<Longrightarrow> (224 + k) mod 16 = k"
    "k < 8 \<Longrightarrow> (240 + k) mod 8 = k" "k < 64 \<Longrightarrow> (128 + k) mod 64 = k"
  using mod_mult_self3 [of 6 32 k] mod_mult_self3 [of 14 16 k] mod_mult_self3 [of 30 8 k]
    mod_mult_self3 [of 2 64 k] by simp_all

lemma lead_split:
  fixes n :: nat
  shows "n \<in> {192..<224} \<Longrightarrow> n = 192 + n mod 32" "n \<in> {224..<240} \<Longrightarrow> n = 224 + n mod 16"
    "n \<in> {240..<248} \<Longrightarrow> n = 240 + n mod 8" "n \<in> {128..<192} \<Longrightarrow> n = 128 + n mod 64"
  using lead_mod(1) [of "n - 192"] lead_mod(2) [of "n - 224"] lead_mod(3) [of "n - 240"]
    lead_mod(4) [of "n - 128"] by auto

lemma cont_split: "isValidContinuation c \<Longrightarrow> (of_char c :: nat) = 128 + of_char c mod 64"
  by (rule lead_split) (simp add: continuation_range)

lemma cval_simps:
  "cval a [c] = a * 64 + of_char c mod 64"
  "cval a [c, d] = a * 4096 + of_char c mod 64 * 64 + of_char d mod 64"
  "cval a [c, d, e] = a * 262144 + of_char c mod 64 * 4096 + of_char d mod 64 * 64 + of_char e mod 64"
  by (simp_all add: cval_def algebra_simps)

text \<open>The digits of a code point in base 64.\<close>

lemma div_64_chain:
  fixes n :: nat
  shows "n div 4096 = n div 64 div 64" "n div 262144 = n div 64 div 64 div 64"
  by (simp_all flip: div_mult2_eq)

lemma base_64: "(r :: nat) < 64 \<Longrightarrow> (q * 64 + r) div 64 = q \<and> (q * 64 + r) mod 64 = r"
  by simp

lemma horner_64:
  fixes a b c d :: nat
  shows "a * 4096 + b * 64 + c = (a * 64 + b) * 64 + c"
    "a * 262144 + b * 4096 + c * 64 + d = ((a * 64 + b) * 64 + c) * 64 + d"
  by simp_all

lemma digits_2:
  fixes a b :: nat
  assumes "b < 64"
  shows "(a * 64 + b) div 64 = a" "(a * 64 + b) mod 64 = b"
  using base_64 [OF assms] by blast+

lemma digits_3:
  fixes a b c :: nat
  assumes "b < 64" "c < 64"
  shows "(a * 4096 + b * 64 + c) div 4096 = a" "(a * 4096 + b * 64 + c) div 64 mod 64 = b"
    "(a * 4096 + b * 64 + c) mod 64 = c"
  unfolding horner_64 div_64_chain by (simp_all only: digits_2 assms)

lemma digits_4:
  fixes a b c d :: nat
  assumes "b < 64" "c < 64" "d < 64"
  shows "(a * 262144 + b * 4096 + c * 64 + d) div 262144 = a"
    "(a * 262144 + b * 4096 + c * 64 + d) div 4096 mod 64 = b"
    "(a * 262144 + b * 4096 + c * 64 + d) div 64 mod 64 = c"
    "(a * 262144 + b * 4096 + c * 64 + d) mod 64 = d"
  unfolding horner_64 div_64_chain by (simp_all only: digits_2 assms)

lemma digits_64_sum:
  fixes n :: nat
  shows "n div 64 * 64 + n mod 64 = n"
    "n div 4096 * 4096 + n div 64 mod 64 * 64 + n mod 64 = n"
    "n div 262144 * 262144 + n div 4096 mod 64 * 4096 + n div 64 mod 64 * 64 + n mod 64 = n"
  unfolding horner_64 div_64_chain by (simp_all only: div_mult_mod_eq)

lemma utf8_encoded_2:
  assumes x: "(of_char x :: nat) \<in> {192..<224}"
  shows "utf8_encoded (x # s) \<longleftrightarrow> 1 \<le> length s \<and> (\<forall>c \<in> set (take 1 s). isValidContinuation c) \<and>
    0x80 \<le> cval (of_char x mod 32) (take 1 s) \<and> utf8_encoded (drop 1 s)" (is "_ = ?R")
proof
  assume "utf8_encoded (x # s)"
  then obtain cp t where *: "cp < 2 ^ 21" "x # s = utf8_encode cp @ t" "utf8_encoded t"
    by (auto simp: utf8_encoded_Cons)
  then have cp: "0x80 \<le> cp" "cp < 0x800" using x by (auto simp: utf8_encode_def split: if_splits)
  then have "cp div 64 < 32" by auto
  with cp * show ?R
    by (auto simp: utf8_encode_def continuation_range cval_simps lead_mod digits_64_sum)
next
  assume ?R
  then obtain c t where s: "s = c # t" and c: "isValidContinuation c"
    and cv: "0x80 \<le> cval (of_char x mod 32) [c]" and t: "utf8_encoded t"
    by (cases s) auto
  define cp where "cp = cval (of_char x mod 32) [c]"
  have "of_char x mod 32 < (32::nat)" "of_char c mod 64 < (64::nat)" by simp_all
  then have cp: "cp < 0x800" "0x80 \<le> cp" using cv by (simp_all add: cp_def cval_simps)
  have dig: "cp div 64 = of_char x mod 32" "cp mod 64 = of_char c mod 64"
    unfolding cp_def cval_simps by (rule digits_2, simp)+
  have ex: "x = char_of (192 + cp div 64)"
    unfolding dig by (rule char_eqI [OF lead_split(1) [OF x]])
  have ec: "c = char_of (128 + cp mod 64)"
    unfolding dig by (rule char_eqI [OF cont_split [OF c]])
  from cp have "utf8_encode cp = [x, c]" 
    unfolding utf8_encode_def ex [symmetric] ec [symmetric] by simp
  with utf8_encoded_append [OF _ t, of cp] cp s show "utf8_encoded (x # s)" by simp
qed

lemma utf8_encoded_3:
  assumes x: "(of_char x :: nat) \<in> {224..<240}"
  shows "utf8_encoded (x # s) \<longleftrightarrow> 2 \<le> length s \<and> (\<forall>c \<in> set (take 2 s). isValidContinuation c) \<and>
    0x800 \<le> cval (of_char x mod 16) (take 2 s) \<and> utf8_encoded (drop 2 s)" (is "_ = ?R")
proof
  assume "utf8_encoded (x # s)"
  then obtain cp t where *: "cp < 2 ^ 21" "x # s = utf8_encode cp @ t" "utf8_encoded t"
    by (auto simp: utf8_encoded_Cons)
  then have cp: "0x800 \<le> cp" "cp < 0x10000" using x by (auto simp: utf8_encode_def split: if_splits)
  then have "cp div 4096 < 16" by auto
  with cp * show ?R
    by (auto simp: utf8_encode_def continuation_range cval_simps lead_mod digits_64_sum)
next
  assume ?R
  then obtain c d t where s: "s = c # d # t" and c: "isValidContinuation c" and d: "isValidContinuation d"
    and cv: "0x800 \<le> cval (of_char x mod 16) [c, d]" and t: "utf8_encoded t"
    by (auto simp: numeral_2_eq_2 Suc_le_length_iff)
  define cp where "cp = cval (of_char x mod 16) [c, d]"
  have "of_char x mod 16 < (16::nat)" "of_char c mod 64 < (64::nat)" "of_char d mod 64 < (64::nat)" by simp_all
  then have cp: "cp < 0x10000" "0x800 \<le> cp" using cv by (simp_all add: cp_def cval_simps)
  have dig: "cp div 4096 = of_char x mod 16" "cp div 64 mod 64 = of_char c mod 64" "cp mod 64 = of_char d mod 64"
    unfolding cp_def cval_simps by (rule digits_3; simp)+
  have ex: "x = char_of (224 + cp div 4096)"
    unfolding dig by (rule char_eqI [OF lead_split(2) [OF x]])
  have ec: "c = char_of (128 + cp div 64 mod 64)"
    unfolding dig by (rule char_eqI [OF cont_split [OF c]])
  have ed: "d = char_of (128 + cp mod 64)"
    unfolding dig by (rule char_eqI [OF cont_split [OF d]])
  from cp have "utf8_encode cp = [x, c, d]" 
    unfolding utf8_encode_def ex [symmetric] ec [symmetric] ed [symmetric] by simp
  with utf8_encoded_append [OF _ t, of cp] cp s show "utf8_encoded (x # s)" by simp
qed

lemma utf8_encoded_4:
  assumes x: "(of_char x :: nat) \<in> {240..<248}"
  shows "utf8_encoded (x # s) \<longleftrightarrow> 3 \<le> length s \<and> (\<forall>c \<in> set (take 3 s). isValidContinuation c) \<and>
    0x10000 \<le> cval (of_char x mod 8) (take 3 s) \<and> utf8_encoded (drop 3 s)" (is "_ = ?R")
proof
  assume "utf8_encoded (x # s)"
  then obtain cp t where *: "cp < 2 ^ 21" "x # s = utf8_encode cp @ t" "utf8_encoded t"
    by (auto simp: utf8_encoded_Cons)
  then have cp: "0x10000 \<le> cp" "cp < 2 ^ 21" using x by (auto simp: utf8_encode_def split: if_splits)
  then have "cp div 262144 < 8" by auto
  with cp * show ?R
    by (auto simp: utf8_encode_def continuation_range cval_simps lead_mod digits_64_sum)
next
  assume ?R
  then obtain c d e t where s: "s = c # d # e # t" and c: "isValidContinuation c"
    and d: "isValidContinuation d" and e: "isValidContinuation e"
    and cv: "0x10000 \<le> cval (of_char x mod 8) [c, d, e]" and t: "utf8_encoded t"
    by (auto simp: numeral_3_eq_3 Suc_le_length_iff)
  define cp where "cp = cval (of_char x mod 8) [c, d, e]"
  have "of_char x mod 8 < (8::nat)" "of_char c mod 64 < (64::nat)" "of_char d mod 64 < (64::nat)"
    "of_char e mod 64 < (64::nat)" by simp_all
  then have cp: "cp < 2 ^ 21" "0x10000 \<le> cp" using cv by (simp_all add: cp_def cval_simps)
  have dig: "cp div 262144 = of_char x mod 8" "cp div 4096 mod 64 = of_char c mod 64"
    "cp div 64 mod 64 = of_char d mod 64" "cp mod 64 = of_char e mod 64"
    unfolding cp_def cval_simps by (rule digits_4; simp)+
  have ex: "x = char_of (240 + cp div 262144)"
    unfolding dig by (rule char_eqI [OF lead_split(3) [OF x]])
  have ec: "c = char_of (128 + cp div 4096 mod 64)"
    unfolding dig by (rule char_eqI [OF cont_split [OF c]])
  have ed: "d = char_of (128 + cp div 64 mod 64)"
    unfolding dig by (rule char_eqI [OF cont_split [OF d]])
  have ee: "e = char_of (128 + cp mod 64)"
    unfolding dig by (rule char_eqI [OF cont_split [OF e]])
  from cp have "utf8_encode cp = [x, c, d, e]" 
    unfolding utf8_encode_def ex [symmetric] ec [symmetric] ed [symmetric] ee [symmetric] by simp
  with utf8_encoded_append [OF _ t, of cp] cp s show "utf8_encoded (x # s)" by simp
qed

section \<open>Correctness of the validity test\<close>

text \<open>One round of the loop at a multi-byte lead, once its class is known.\<close>

lemma drop_nth_view: "b < e \<Longrightarrow> e \<le> length mem \<Longrightarrow>
  take (e - b) (drop b mem) = mem ! b # take (e - Suc b) (drop (Suc b) mem)"
  by (simp add: Cons_nth_drop_Suc [symmetric] take_Cons' Suc_diff_Suc)

lemma continuation_view:
  assumes "e < length mem" and "\<not> isValidContinuation (mem ! e)"
    and "b < e" and "0 < num" and "(unat cp + 1) * 64 ^ num \<le> 2 ^ 26"
  defines "s \<equiv> take (e - Suc b) (drop (Suc b) mem)"
  obtains ok b' cp' where "isValidContinuations mem (Suc b) e num cp = Some (ok, b', cp')"
    and "ok \<longleftrightarrow> num \<le> length s \<and> (\<forall>c \<in> set (take num s). isValidContinuation c)"
    and "ok \<Longrightarrow> b' = Suc b + num \<and> b' \<le> e \<and> take (e - b') (drop b' mem) = drop num s"
    and "ok \<Longrightarrow> unat cp' = cval (unat cp) (take num s)"
proof -
  obtain ok b' cp' where r: "isValidContinuations mem (Suc b) e num cp = Some (ok, b', cp')"
    and ok: "ok \<longleftrightarrow> Suc b + num \<le> e \<and> (\<forall>c \<in> set (take num (drop (Suc b) mem)). isValidContinuation c)"
    and b': "ok \<Longrightarrow> b' = Suc b + num"
    and cp': "ok \<Longrightarrow> unat cp' = cval (unat cp) (take num (drop (Suc b) mem))"
    using assms by (elim isValidContinuations_spec [where b = "Suc b"]) auto
  have len: "length s = e - Suc b" using assms(1) by (simp add: s_def)
  have tk: "Suc b + num \<le> e \<Longrightarrow> take num s = take num (drop (Suc b) mem)"
    by (simp add: s_def min_def)
  show thesis
  proof (rule that [OF r])
    show "ok \<longleftrightarrow> num \<le> length s \<and> (\<forall>c \<in> set (take num s). isValidContinuation c)"
      using ok tk len assms(3) by auto
    assume ok
    with ok b' have "b' = Suc b + num" "Suc b + num \<le> e" by auto
    then show "b' = Suc b + num \<and> b' \<le> e \<and> take (e - b') (drop b' mem) = drop num s"
      by (auto simp: s_def drop_take add.commute)
    show "unat cp' = cval (unat cp) (take num s)"
      using cp' [OF \<open>ok\<close>] tk \<open>Suc b + num \<le> e\<close> by simp
  qed
qed

lemma utf8_loop_lead:
  assumes mem: "e < length mem" "\<not> isValidContinuation (mem ! e)" and be: "b < e"
  defines "s \<equiv> take (e - Suc b) (drop (Suc b) mem)"
  assumes loop: "utf8_loop mem b e =
      (case isValidContinuations mem (Suc b) e num cp of
         None \<Rightarrow> None
       | Some (ok, b', cp') \<Rightarrow>
           if \<not> ok then Some False else if cp' < lim then Some False else utf8_loop mem b' e)"
    and IH: "\<And>b'. Suc b \<le> b' \<Longrightarrow> b' \<le> e \<Longrightarrow>
      utf8_loop mem b' e = Some (utf8_encoded (take (e - b') (drop b' mem)))"
    and num: "0 < num" and cp: "(unat cp + 1) * 64 ^ num \<le> 2 ^ 26"
    and enc: "utf8_encoded (x # s) \<longleftrightarrow> num \<le> length s \<and> (\<forall>c \<in> set (take num s). isValidContinuation c) \<and>
      unat lim \<le> cval (unat cp) (take num s) \<and> utf8_encoded (drop num s)"
  shows "utf8_loop mem b e = Some (utf8_encoded (x # s))"
proof -
  from continuation_view [OF mem be num cp, folded s_def] obtain ok b' cp' where
    r: "isValidContinuations mem (Suc b) e num cp = Some (ok, b', cp')"
    and ok: "ok \<longleftrightarrow> num \<le> length s \<and> (\<forall>c \<in> set (take num s). isValidContinuation c)"
    and b': "ok \<Longrightarrow> b' = Suc b + num \<and> b' \<le> e \<and> take (e - b') (drop b' mem) = drop num s"
    and cp': "ok \<Longrightarrow> unat cp' = cval (unat cp) (take num s)"
    by blast
  show ?thesis
  proof (cases ok)
    case True
    with ok cp' enc have "utf8_encoded (x # s) \<longleftrightarrow> \<not> cp' < lim \<and> utf8_encoded (drop num s)"
      by (simp add: word_less_nat_alt not_less)
    moreover have "utf8_loop mem b' e = Some (utf8_encoded (drop num s))"
      using IH [of b'] b' [OF True] by (metis le_add1)
    ultimately show ?thesis using True loop r by simp
  next
    case False
    with loop r ok enc show ?thesis by simp
  qed
qed

lemma utf8_loop_spec:
  assumes mem: "e < length mem" "\<not> isValidContinuation (mem ! e)"
  shows "b \<le> e \<Longrightarrow> utf8_loop mem b e = Some (utf8_encoded (take (e - b) (drop b mem)))"
proof (induction "e - b" arbitrary: b rule: less_induct)
  case less
  show ?case
  proof (cases "b = e")
    case True
    then show ?thesis by (simp add: utf8_loop.simps)
  next
    case False
    with less.prems have be: "b < e" by simp
    with mem(1) have bl: "b < length mem" by simp
    define x where "x = mem ! b"
    define s where "s = take (e - Suc b) (drop (Suc b) mem)"
    have view: "take (e - b) (drop b mem) = x # s"
      unfolding x_def s_def by (rule drop_nth_view [OF be]) (use mem(1) in simp)
    have IH: "Suc b \<le> b' \<Longrightarrow> b' \<le> e \<Longrightarrow>
        utf8_loop mem b' e = Some (utf8_encoded (take (e - b') (drop b' mem)))" for b'
      using less.hyps [of b'] be by simp
    note unf = utf8_loop.simps [of mem b e, folded x_def]
    note lead = utf8_loop_lead [OF mem be _ IH, folded s_def]
    consider "(of_char x :: nat) < 128" | "(of_char x :: nat) \<in> {128..<192} \<or> 248 \<le> (of_char x :: nat)"
      | "(of_char x :: nat) \<in> {192..<224}" | "(of_char x :: nat) \<in> {224..<240}" | "(of_char x :: nat) \<in> {240..<248}"
      by fastforce
    then have "utf8_loop mem b e = Some (utf8_encoded (x # s))"
    proof cases
      case 1
      then have "utf8_loop mem b e = utf8_loop mem (Suc b) e"
        using False bl byte_classes(1) [of x] by (subst unf) simp
      also have "\<dots> = Some (utf8_encoded s)" using IH [of "Suc b"] be by (simp add: s_def)
      finally show ?thesis using utf8_encoded_1 [OF 1] by simp
    next
      case 2
      then have "utf8_loop mem b e = Some False"
        using False bl byte_bad [OF 2] by (subst unf) auto
      with utf8_encoded_bad [OF 2] show ?thesis by simp
    next
      case 3
      have "of_char x mod 32 \<le> (31 :: nat)" using mod_less_divisor [of 32 "of_char x :: nat"] by linarith
      with 3 False bl byte_classes(3) [of x] utf8_encoded_2 [OF 3, of s] show ?thesis
        by (intro lead [where num = 1 and lim = "0x80"]) (subst unf, auto simp: unat_of_char_masked)
    next
      case 4
      have "of_char x mod 16 \<le> (15 :: nat)" using mod_less_divisor [of 16 "of_char x :: nat"] by linarith
      with 4 False bl byte_classes(4) [of x] utf8_encoded_3 [OF 4, of s] show ?thesis
        by (intro lead [where num = 2 and lim = "0x800"]) (subst unf, auto simp: unat_of_char_masked)
    next
      case 5
      have "of_char x mod 8 \<le> (7 :: nat)" using mod_less_divisor [of 8 "of_char x :: nat"] by linarith
      with 5 False bl byte_classes(5) [of x] utf8_encoded_4 [OF 5, of s] show ?thesis
        by (intro lead [where num = 3 and lim = "0x10000"]) (subst unf, auto simp: unat_of_char_masked)
    qed
    then show ?thesis by (simp add: view)
  qed
qed

lemma isValidUtf8_iff: "isValidUtf8 s \<longleftrightarrow> utf8_encoded s"
proof -
  have "\<not> isValidContinuation CHR 0x00" by (simp add: continuation_range)
  then have "utf8_loop (s @ [CHR 0x00]) 0 (length s) = Some (utf8_encoded s)"
    by (subst utf8_loop_spec) simp_all
  then show ?thesis by (simp add: isValidUtf8_def isValidUtf8_view_def)
qed

lemma utf8_ascii: "\<forall>c \<in> set s. (of_char c :: nat) < 128 \<Longrightarrow> utf8_encoded s"
  by (induction s) (simp_all add: utf8_encoded_1)

lemma isValidUtf8_ascii: "\<forall>c \<in> set s. (of_char c :: nat) < 128 \<Longrightarrow> isValidUtf8 s"
  by (simp add: isValidUtf8_iff utf8_ascii)

lemma utf8_encoded_appendI: "utf8_encoded s \<Longrightarrow> utf8_encoded t \<Longrightarrow> utf8_encoded (s @ t)"
proof -
  assume "utf8_encoded s" "utf8_encoded t"
  then obtain xs ys where "\<forall>cp \<in> set xs. cp < 2 ^ 21" "s = concat (map utf8_encode xs)"
    "\<forall>cp \<in> set ys. cp < 2 ^ 21" "t = concat (map utf8_encode ys)"
    by (auto simp: utf8_encoded_def)
  then show ?thesis unfolding utf8_encoded_def by (intro exI [of _ "xs @ ys"]) auto
qed

text \<open>Past its end the loop only stops at an invalid byte or outside the memory.\<close>

lemma utf8_loop_past_end:
  assumes "\<forall>c \<in> set (drop b mem). (of_char c :: nat) < 128" and "e < b"
  shows "utf8_loop mem b e = None"
  using assms
proof (induction "length mem - b" arbitrary: b)
  case 0
  then show ?case by (subst utf8_loop.simps) simp
next
  case (Suc n)
  then have b: "b < length mem" by simp
  then have "drop b mem = mem ! b # drop (Suc b) mem" by (simp add: Cons_nth_drop_Suc)
  with Suc.prems(1) have "(of_char (mem ! b) :: nat) < 128"
    and tl: "\<forall>c \<in> set (drop (Suc b) mem). (of_char c :: nat) < 128" by auto
  then have "\<not> isBitSet (mem ! b) 7" by (simp add: byte_classes(1))
  then have "utf8_loop mem b e = utf8_loop mem (Suc b) e"
    using b Suc.prems(2) by (subst utf8_loop.simps) simp
  also have "\<dots> = None" using Suc.hyps(2) b tl Suc.prems(2) by (intro Suc.hyps(1)) auto
  finally show ?case .
qed

section \<open>Properties\<close>

text \<open>
  On a view whose end is followed by a readable byte that is no continuation byte (the
  terminating NUL of a \<open>std::string\<close>, a path separator), \<open>isValidUtf8\<close> returns
  without undefined behaviour and answers exactly whether the view is a concatenation of
  UTF-8 encodings, without overlong forms, of numbers below \<open>2 ^ 21\<close>.
\<close>

theorem isValidUtf8_view_correct:
  assumes "b \<le> e" and "e < length mem" and "\<not> isValidContinuation (mem ! e)"
  shows "isValidUtf8_view mem b e = Some (utf8_encoded (take (e - b) (drop b mem)))"
  unfolding isValidUtf8_view_def by (rule utf8_loop_spec [OF assms(2,3,1)])

theorem isValidUtf8_view_correct_witness:
  "isValidUtf8_view [CHR ''/'', CHR 0xC3, CHR 0xA9, CHR 0x00] 1 3 =
     Some (utf8_encoded [CHR 0xC3, CHR 0xA9])"
  using isValidUtf8_view_correct [of 1 3 "[CHR ''/'', CHR 0xC3, CHR 0xA9, CHR 0x00]"]
  by (simp add: continuation_range eval_nat_numeral)

text \<open>
  The bound check admits a lead byte at the very end of the view.  If the byte after
  the view happens to be a continuation byte the loop consumes it, steps over \<open>end\<close> and
  never meets it again: with only ASCII after it, the walk leaves the memory.
\<close>

theorem isValidUtf8_overread:
  assumes "(of_char x :: nat) \<in> {194..<224}" and "isValidContinuation y"
    and "\<forall>c \<in> set t. (of_char c :: nat) < 128"
  shows "isValidUtf8_view (x # y # t) 0 1 = None"
proof -
  have bits: "isBitSet x 7" "isBitSet x 6" "\<not> isBitSet x 5"
    using assms(1) byte_classes(3) [of x] by auto
  define cp where "cp = push_bit 6 (of_char x AND 0x1F :: 32 word) OR ucast (clearContinuationBit y)"
  have "of_char x mod 32 < (32::nat)" by simp
  then have small: "unat (of_char x AND 0x1F :: 32 word) < 2 ^ 20" by (simp add: unat_of_char_masked)
  have "unat cp = of_char x mod 32 * 64 + of_char y mod 64"
    unfolding cp_def unat_append_continuation [OF small assms(2)] unat_of_char_masked ..
  moreover have "2 \<le> (of_char x :: nat) mod 32"
    using lead_split(1) [of "of_char x"] assms(1) by auto
  ultimately have "\<not> cp < 0x80" by (simp add: word_less_nat_alt)
  moreover have "isValidContinuations (x # y # t) 1 1 1 (of_char x AND 0x1F) = Some (True, 2, cp)"
    using assms(2) by (simp add: isValidContinuations_def cp_def numeral_2_eq_2)
  ultimately have "utf8_loop (x # y # t) 0 1 = utf8_loop (x # y # t) 2 1"
    using bits by (subst utf8_loop.simps) simp
  also have "\<dots> = None" using assms(3) by (intro utf8_loop_past_end) simp_all
  finally show ?thesis by (simp add: isValidUtf8_view_def)
qed

theorem isValidUtf8_overread_witness:
  "isValidUtf8_view [CHR 0xC3, CHR 0xA9] 0 1 = None \<and> \<not> utf8_encoded [CHR 0xC3]"
  using isValidUtf8_overread [of "CHR 0xC3" "CHR 0xA9" "[]"]
  by (simp add: continuation_range utf8_encoded_2)

end
