(* ===== verification/Path_Syntax.thy ===== *)
theory Path_Syntax
  imports Utf8
begin

text \<open>
  The string level of \<open>PathFuncs.h\<close> and \<open>PathFuncs.cpp\<close>: separators, \<open>basename\<close>,
  \<open>dirname\<close>, and the sanity checks that every checked constructor of \<open>PathComponent\<close>,
  \<open>RelativePath\<close> and \<open>AbsolutePath\<close> runs.

  A path object holds one string, so the three classes are represented by that string.
  The compile-time constant \<open>folly::kIsWindows\<close> is the first argument \<open>win\<close> of every
  definition that depends on it, and the theorems hold for both platforms unless they
  say otherwise.
  The lemmas characterise the strings each sanity check accepts.
\<close>

section \<open>Separators\<close>

definition kDirSeparator :: char where
  "kDirSeparator = CHR ''/''"

definition kWinDirSeparator :: char where
  "kWinDirSeparator = CHR 0x5C"

definition kAbsDirSeparator :: "bool \<Rightarrow> char" where
  "kAbsDirSeparator win = (if win then kWinDirSeparator else kDirSeparator)"

definition kUNCPrefix :: string where
  "kUNCPrefix = [CHR 0x5C, CHR 0x5C, CHR ''?'', CHR 0x5C]"

definition kRootStr :: "bool \<Rightarrow> string" where
  "kRootStr win = (if win then kUNCPrefix else [kDirSeparator])"

definition isDirSeparator :: "bool \<Rightarrow> char \<Rightarrow> bool" where
  "isDirSeparator win c = (c = kDirSeparator \<or> (win \<and> c = kWinDirSeparator))"

definition isDirSeparator_str :: "bool \<Rightarrow> string \<Rightarrow> bool" where
  "isDirSeparator_str win s = (length s = 1 \<and> isDirSeparator win (s ! 0))"

definition isAbsoluteRoot :: "bool \<Rightarrow> string \<Rightarrow> bool" where
  "isAbsoluteRoot win path = (path = kRootStr win)"

definition findPathSeparator :: "bool \<Rightarrow> string \<Rightarrow> nat \<Rightarrow> nat option" where
  "findPathSeparator win str start =
     (let index = find_index ((=) kDirSeparator) start str in
      if win then
        (case find_index ((=) kWinDirSeparator) start str of
           Some winIndex \<Rightarrow>
             (case index of None \<Rightarrow> Some winIndex | Some i \<Rightarrow> Some (min i winIndex))
         | None \<Rightarrow> index)
      else index)"

definition rfindPathSeparator :: "bool \<Rightarrow> string \<Rightarrow> nat option" where
  "rfindPathSeparator win str =
     (let index = rfind_index ((=) kDirSeparator) str in
      if win then
        (case rfind_index ((=) kWinDirSeparator) str of
           Some winIndex \<Rightarrow>
             (case index of None \<Rightarrow> Some winIndex | Some i \<Rightarrow> Some (max i winIndex))
         | None \<Rightarrow> index)
      else index)"

definition dirname :: "bool \<Rightarrow> string \<Rightarrow> string" where
  "dirname win path =
     (case rfindPathSeparator win path of Some i \<Rightarrow> take i path | None \<Rightarrow> [])"

definition basename :: "bool \<Rightarrow> string \<Rightarrow> string" where
  "basename win path =
     (case rfindPathSeparator win path of Some i \<Rightarrow> drop (i + 1) path | None \<Rightarrow> path)"

section \<open>Sanity checks\<close>

fun component_char_check :: "bool \<Rightarrow> string \<Rightarrow> unit result" where
  "component_char_check win [] = Inr ()"
| "component_char_check win (c # cs) =
     (if isDirSeparator win c then Inl PathComponentContainsDirectorySeparator
      else if c = CHR 0x00 then Inl PathComponentValidationError
      else component_char_check win cs)"

definition PathComponentSanityCheck :: "bool \<Rightarrow> string \<Rightarrow> unit result" where
  "PathComponentSanityCheck win val =
     (case component_char_check win val of
        Inl e \<Rightarrow> Inl e
      | Inr _ \<Rightarrow>
          if length val = 0 then Inl PathComponentValidationError
          else if length val = 1 \<and> val ! 0 = CHR ''.'' then Inl PathComponentValidationError
          else if length val = 2 \<and> val ! 0 = CHR ''.'' \<and> val ! 1 = CHR ''.''
            then Inl PathComponentValidationError
          else if \<not> isValidUtf8 val then Inl PathComponentNotUtf8
          else Inr ())"

definition nextSeparator :: "bool \<Rightarrow> string \<Rightarrow> nat \<Rightarrow> char option \<Rightarrow> nat option" where
  "nextSeparator win val start pathSeparator =
     find_index (\<lambda>c. case pathSeparator of Some p \<Rightarrow> c = p | None \<Rightarrow> isDirSeparator win c) start val"

function ComposedPathSanityCheck_loop :: "bool \<Rightarrow> string \<Rightarrow> char option \<Rightarrow> nat \<Rightarrow> unit result" where
  "ComposedPathSanityCheck_loop win val pathSeparator start =
     (case nextSeparator win val start pathSeparator of
        None \<Rightarrow> PathComponentSanityCheck win (drop start val)
      | Some nxt \<Rightarrow>
          (case PathComponentSanityCheck win (take (nxt - start) (drop start val)) of
             Inl e \<Rightarrow> Inl e
           | Inr _ \<Rightarrow> ComposedPathSanityCheck_loop win val pathSeparator (nxt + 1)))"
  by pat_completeness auto
termination
  by (relation "measure (\<lambda>(win, val, sep, start). length val - start)")
     (auto simp: nextSeparator_def dest!: find_index_Some)

declare ComposedPathSanityCheck_loop.simps [simp del]

definition ComposedPathSanityCheck :: "bool \<Rightarrow> string \<Rightarrow> char option \<Rightarrow> unit result" where
  "ComposedPathSanityCheck win val pathSeparator = ComposedPathSanityCheck_loop win val pathSeparator 0"

definition RelativePathSanityCheck :: "bool \<Rightarrow> string \<Rightarrow> unit result" where
  "RelativePathSanityCheck win val =
     (if val \<noteq> [] then
        (if isDirSeparator win (val ! 0) then Inl DomainError
         else if isDirSeparator win (val ! (length val - 1)) then Inl DomainError
         else ComposedPathSanityCheck win val None)
      else Inr ())"

definition starts_with :: "string \<Rightarrow> string \<Rightarrow> bool" where
  "starts_with s p = (take (length p) s = p)"

definition AbsolutePathSanityCheck :: "bool \<Rightarrow> string \<Rightarrow> unit result" where
  "AbsolutePathSanityCheck win val =
     (if \<not> starts_with val (kRootStr win) then Inl DomainError
      else if length val > 1 \<and> last val = kDirSeparator then Inl DomainError
      else if length val > length (kRootStr win) then
        ComposedPathSanityCheck win (drop (length (kRootStr win)) val) (Some (kAbsDirSeparator win))
      else Inr ())"

section \<open>Specification: well-formed components and paths\<close>

definition component_ok :: "bool \<Rightarrow> string \<Rightarrow> bool" where
  "component_ok win s \<longleftrightarrow>
     s \<noteq> [] \<and> s \<noteq> ''.'' \<and> s \<noteq> ''..'' \<and> (\<forall>c \<in> set s. \<not> isDirSeparator win c \<and> c \<noteq> CHR 0x00) \<and>
     utf8_encoded s"

abbreviation comps :: "bool \<Rightarrow> string \<Rightarrow> string list" where
  "comps win \<equiv> split_on (isDirSeparator win)"

definition rel_ok :: "bool \<Rightarrow> string \<Rightarrow> bool" where
  "rel_ok win p \<longleftrightarrow> p = [] \<or> (\<forall>c \<in> set (comps win p). component_ok win c)"

definition abs_path :: "bool \<Rightarrow> string list \<Rightarrow> string" where
  "abs_path win cs = kRootStr win @ join [kAbsDirSeparator win] cs"

definition abs_ok :: "bool \<Rightarrow> string \<Rightarrow> bool" where
  "abs_ok win p \<longleftrightarrow> (\<exists>cs. (\<forall>c \<in> set cs. component_ok win c) \<and> p = abs_path win cs)"

section \<open>Separators and searching\<close>

lemmas sep_defs = kDirSeparator_def kWinDirSeparator_def kAbsDirSeparator_def kUNCPrefix_def
  kRootStr_def isDirSeparator_def

lemma isDirSeparator_abs [simp]: "isDirSeparator win (kAbsDirSeparator win)"
  by (simp add: sep_defs)

lemma isDirSeparator_slash [simp]: "isDirSeparator win kDirSeparator"
  by (simp add: sep_defs)

lemma isDirSeparator_fun:
  "isDirSeparator False = (=) kDirSeparator"
  "isDirSeparator True = (\<lambda>c. kDirSeparator = c \<or> kWinDirSeparator = c)"
  by (auto simp: isDirSeparator_def)

lemma rfindPathSeparator_eq: "rfindPathSeparator win str = rfind_index (isDirSeparator win) str"
  by (cases win) (simp_all add: rfindPathSeparator_def Let_def isDirSeparator_fun rfind_index_disj)

lemma findPathSeparator_eq: "findPathSeparator win str start = find_index (isDirSeparator win) start str"
  by (cases win)
    (simp_all add: findPathSeparator_def Let_def isDirSeparator_fun find_index_def find_from_disj)

section \<open>Components, \<open>basename\<close> and \<open>dirname\<close>\<close>

lemma split_at_last_separator:
  assumes "rfindPathSeparator win p = Some i"
  shows "p = dirname win p @ p ! i # basename win p" and "isDirSeparator win (p ! i)"
    and "comps win p = comps win (dirname win p) @ [basename win p]"
proof -
  have i: "i < length p" "isDirSeparator win (p ! i)"
    "\<forall>x \<in> set (drop (Suc i) p). \<not> isDirSeparator win x"
    using assms by (simp_all add: rfindPathSeparator_eq rfind_index_Some)
  show eq: "p = dirname win p @ p ! i # basename win p"
    using assms id_take_nth_drop [OF i(1)] by (simp add: dirname_def basename_def)
  show "isDirSeparator win (p ! i)" by (rule i)
  have "comps win (basename win p) = [basename win p]"
    using i(3) assms by (simp add: basename_def split_on_id)
  then show "comps win p = comps win (dirname win p) @ [basename win p]"
    by (subst eq) (simp add: split_on_sep i(2))
qed

lemma no_separator:
  assumes "rfindPathSeparator win p = None"
  shows "comps win p = [p]" and "basename win p = p" and "dirname win p = []"
  using assms rfind_index_None [of "isDirSeparator win" p]
  by (simp_all add: rfindPathSeparator_eq split_on_id basename_def dirname_def)

lemma basename_comps: "basename win p = last (comps win p)"
  by (cases "rfindPathSeparator win p") (simp_all add: no_separator split_at_last_separator(3))

lemma comps_dirname:
  "comps win p = (if \<exists>c \<in> set p. isDirSeparator win c then comps win (dirname win p) @ [basename win p] else [p])"
  by (cases "rfindPathSeparator win p")
    (auto simp: split_at_last_separator(3) split_on_id,
     auto simp: rfindPathSeparator_eq rfind_index_None, metis option.distinct(1) rfind_index_None)

section \<open>What the checks accept\<close>

lemma component_char_check_iff:
  "component_char_check win s = Inr () \<longleftrightarrow> (\<forall>c \<in> set s. \<not> isDirSeparator win c \<and> c \<noteq> CHR 0x00)"
  by (induction s) auto

lemma PathComponentSanityCheck_iff: "PathComponentSanityCheck win s = Inr () \<longleftrightarrow> component_ok win s"
proof -
  have d1: "s = ''.'' \<longleftrightarrow> length s = 1 \<and> s ! 0 = CHR ''.''"
    by (cases s) auto
  have d2: "s = ''..'' \<longleftrightarrow> length s = 2 \<and> s ! 0 = CHR ''.'' \<and> s ! 1 = CHR ''.''"
    by (cases s; cases "tl s") auto
  show ?thesis
    unfolding PathComponentSanityCheck_def component_ok_def component_char_check_iff [symmetric]
      isValidUtf8_iff [symmetric] d1 d2
    by (cases "component_char_check win s") auto
qed

lemma ComposedPathSanityCheck_loop_iff:
  defines "P win sep \<equiv> (\<lambda>c. case sep of Some p \<Rightarrow> c = p | None \<Rightarrow> isDirSeparator win c)"
  shows "ComposedPathSanityCheck_loop win val sep start = Inr () \<longleftrightarrow>
    (\<forall>s \<in> set (split_on (P win sep) (drop start val)). component_ok win s)"
proof (induction win val sep start rule: ComposedPathSanityCheck_loop.induct)
  case (1 win val sep start)
  show ?case
  proof (cases "nextSeparator win val start sep")
    case None
    then have "split_on (P win sep) (drop start val) = [drop start val]"
      by (intro split_on_id) (simp add: nextSeparator_def find_index_None P_def)
    with None show ?thesis
      by (simp add: ComposedPathSanityCheck_loop.simps [of win val sep start] PathComponentSanityCheck_iff)
  next
    case (Some i)
    define s where "s = take (i - start) (drop start val)"
    note f = find_index_split [OF Some [unfolded nextSeparator_def, folded P_def], folded s_def]
    have "split_on (P win sep) (drop start val) = s # split_on (P win sep) (drop (i + 1) val)"
      by (subst f(1)) (simp add: split_on_sep f(2) split_on_id f(3))
    with 1 [OF Some] Some show ?thesis
      by (cases "PathComponentSanityCheck win s")
        (auto simp: ComposedPathSanityCheck_loop.simps [of win val sep start] s_def [symmetric]
          PathComponentSanityCheck_iff [symmetric])
  qed
qed

lemma ComposedPathSanityCheck_None:
  "ComposedPathSanityCheck win val None = Inr () \<longleftrightarrow> (\<forall>s \<in> set (comps win val). component_ok win s)"
  by (simp add: ComposedPathSanityCheck_def ComposedPathSanityCheck_loop_iff)

lemma ComposedPathSanityCheck_Some:
  "ComposedPathSanityCheck win val (Some p) = Inr () \<longleftrightarrow>
    (\<forall>s \<in> set (split_on ((=) p) val). component_ok win s)"
proof -
  have "(\<lambda>c. c = p) = (=) p" by auto
  then show ?thesis by (simp add: ComposedPathSanityCheck_def ComposedPathSanityCheck_loop_iff)
qed

lemma component_ok_free: "component_ok win c \<Longrightarrow> \<forall>x \<in> set c. \<not> isDirSeparator win x"
  and component_ok_not_Nil: "component_ok win c \<Longrightarrow> c \<noteq> []"
  by (simp_all add: component_ok_def)

lemma not_component_ok_Nil [simp]: "\<not> component_ok win []"
  by (simp add: component_ok_def)

lemma comps_component_ok: "component_ok win c \<Longrightarrow> comps win c = [c]"
  by (rule split_on_id) (rule component_ok_free)

lemma rel_ok_Nil [simp]: "rel_ok win []"
  by (simp add: rel_ok_def)

lemma rel_ok_component: "component_ok win c \<Longrightarrow> rel_ok win c"
  by (simp add: rel_ok_def comps_component_ok)

lemma RelativePathSanityCheck_rel_ok: "RelativePathSanityCheck win p = Inr () \<longleftrightarrow> rel_ok win p"
proof (cases "p = []")
  case True
  then show ?thesis by (simp add: RelativePathSanityCheck_def)
next
  case False
  have "\<not> isDirSeparator win (p ! 0)" if "rel_ok win p"
    using that False by (cases p) (auto simp: rel_ok_def)
  moreover have "\<not> isDirSeparator win (p ! (length p - 1))" if ok: "rel_ok win p"
  proof
    assume sep: "isDirSeparator win (p ! (length p - 1))"
    obtain q d where q: "p = q @ [d]" using False by (cases p rule: rev_cases) auto
    with sep have "isDirSeparator win d" by simp
    with q have "[] \<in> set (comps win p)" by (simp add: split_on_sep)
    with ok False show False by (auto simp: rel_ok_def)
  qed
  ultimately show ?thesis
    using False by (auto simp: RelativePathSanityCheck_def ComposedPathSanityCheck_None rel_ok_def)
qed

lemma join_components:
  assumes "\<forall>c \<in> set cs. component_ok win c" and "isDirSeparator win d"
  shows "cs \<noteq> [] \<Longrightarrow> comps win (join [d] cs) = cs"
    and "cs \<noteq> [] \<Longrightarrow> split_on ((=) d) (join [d] cs) = cs"
    and "join [d] cs = [] \<longleftrightarrow> cs = []"
proof -
  show "cs \<noteq> [] \<Longrightarrow> comps win (join [d] cs) = cs"
    using assms by (intro split_on_join) (auto dest: component_ok_free)
  show *: "cs \<noteq> [] \<Longrightarrow> split_on ((=) d) (join [d] cs) = cs"
    using assms by (intro split_on_join) (auto dest: component_ok_free)
  show "join [d] cs = [] \<longleftrightarrow> cs = []"
    using * assms(1) by (cases cs) (fastforce dest: component_ok_not_Nil)+
qed

lemma last_join_component:
  assumes "\<forall>c \<in> set cs. component_ok win c" and "cs \<noteq> []"
  shows "join [d] cs \<noteq> []" and "\<not> isDirSeparator win (last (join [d] cs))"
proof -
  obtain bs c where cs: "cs = bs @ [c]" using assms(2) by (cases cs rule: rev_cases) auto
  then have c: "c \<noteq> []" "\<not> isDirSeparator win (last c)"
    using assms(1) by (auto simp: component_ok_def)
  have "join [d] cs = (if bs = [] then c else join [d] bs @ [d] @ c)"
    by (simp add: cs join_append)
  with c show "join [d] cs \<noteq> []" "\<not> isDirSeparator win (last (join [d] cs))" by auto
qed

lemma AbsolutePathSanityCheck_abs_ok: "AbsolutePathSanityCheck win p = Inr () \<longleftrightarrow> abs_ok win p"
proof
  assume ok: "AbsolutePathSanityCheck win p = Inr ()"
  then have "take (length (kRootStr win)) p = kRootStr win"
    by (auto simp: AbsolutePathSanityCheck_def starts_with_def split: if_splits)
  then obtain r where p: "p = kRootStr win @ r" by (metis append_take_drop_id)
  show "abs_ok win p"
  proof (cases "r = []")
    case True
    with p show ?thesis unfolding abs_ok_def abs_path_def by (intro exI [of _ "[]"]) simp
  next
    case False
    with ok p have "\<forall>s \<in> set (split_on ((=) (kAbsDirSeparator win)) r). component_ok win s"
      by (auto simp: AbsolutePathSanityCheck_def ComposedPathSanityCheck_Some split: if_splits)
    with p show ?thesis unfolding abs_ok_def abs_path_def
      by (intro exI [of _ "split_on ((=) (kAbsDirSeparator win)) r"]) simp
  qed
next
  assume "abs_ok win p"
  then obtain cs where cs: "\<forall>c \<in> set cs. component_ok win c"
    and p: "p = kRootStr win @ join [kAbsDirSeparator win] cs"
    by (auto simp: abs_ok_def abs_path_def)
  show "AbsolutePathSanityCheck win p = Inr ()"
  proof (cases "cs = []")
    case True
    with p show ?thesis by (simp add: AbsolutePathSanityCheck_def starts_with_def sep_defs)
  next
    case False
    note l = last_join_component [OF cs False, of "kAbsDirSeparator win"]
    then have "last p \<noteq> kDirSeparator" using p by (auto simp: isDirSeparator_def)
    with p cs False l(1) show ?thesis
      by (auto simp: AbsolutePathSanityCheck_def starts_with_def ComposedPathSanityCheck_Some join_components(2))
  qed
qed

lemma abs_path_inj:
  assumes "\<forall>c \<in> set cs. component_ok win c" and "\<forall>c \<in> set ds. component_ok win c"
    and "abs_path win cs = abs_path win ds"
  shows "cs = ds"
proof -
  have eq: "join [kAbsDirSeparator win] cs = join [kAbsDirSeparator win] ds"
    using assms(3) by (simp add: abs_path_def)
  show ?thesis
  proof (cases "cs = []")
    case True
    with eq join_components(3) [OF assms(2) isDirSeparator_abs] show ?thesis by simp
  next
    case False
    with eq join_components(3) [OF assms(1) isDirSeparator_abs] have "ds \<noteq> []" by auto
    with False eq join_components(2) [OF assms(1) isDirSeparator_abs]
      join_components(2) [OF assms(2) isDirSeparator_abs] show ?thesis by metis
  qed
qed

text \<open>The directory of an absolute path of at least two components; below the root.\<close>

lemma dirname_snoc:
  assumes "isDirSeparator win d" and "\<forall>x \<in> set c. \<not> isDirSeparator win x"
  shows "dirname win (p @ d # c) = p" and "basename win (p @ d # c) = c"
  using rfind_index_append [of c "isDirSeparator win" d p] assms
  by (simp_all add: dirname_def basename_def rfindPathSeparator_eq)

lemma abs_path_snoc: "cs \<noteq> [] \<Longrightarrow> abs_path win (cs @ [c]) = abs_path win cs @ kAbsDirSeparator win # c"
  by (simp add: abs_path_def join_append)

lemma abs_path_single: "abs_path win [c] = butlast (kRootStr win) @ kAbsDirSeparator win # c"
  by (simp add: abs_path_def sep_defs)

section \<open>Properties\<close>

text \<open>
  The sanity check of \<open>RelativePath\<close> accepts exactly the empty string and the strings
  all of whose components are well formed: not empty, not \<open>.\<close> or \<open>..\<close>, without NUL
  and valid UTF-8.
\<close>

theorem RelativePathSanityCheck_iff:
  "RelativePathSanityCheck win p = Inr () \<longleftrightarrow>
     p = [] \<or> (\<forall>c \<in> set (split_on (isDirSeparator win) p). PathComponentSanityCheck win c = Inr ())"
  by (simp add: RelativePathSanityCheck_rel_ok rel_ok_def PathComponentSanityCheck_iff)

theorem RelativePathSanityCheck_iff_witness:
  "RelativePathSanityCheck False ''a/b'' = Inr () \<and> RelativePathSanityCheck False ''a//b'' \<noteq> Inr ()"
  using RelativePathSanityCheck_iff [of False "''a/b''"] RelativePathSanityCheck_iff [of False "''a//b''"]
  by (auto simp: PathComponentSanityCheck_iff component_ok_def isDirSeparator_def kDirSeparator_def
      utf8_ascii)

text \<open>
  The sanity check of \<open>AbsolutePath\<close> accepts exactly the strings that consist of the
  platform's root prefix followed by well-formed components joined by the platform's
  separator.
\<close>

theorem AbsolutePathSanityCheck_iff:
  "AbsolutePathSanityCheck win p = Inr () \<longleftrightarrow>
     (\<exists>cs. list_all (\<lambda>c. PathComponentSanityCheck win c = Inr ()) cs \<and>
        p = kRootStr win @ join [kAbsDirSeparator win] cs)"
  by (simp add: AbsolutePathSanityCheck_abs_ok abs_ok_def abs_path_def PathComponentSanityCheck_iff list_all_iff)

text \<open>
  On a well-formed non-empty relative path, \<open>basename\<close> is the last component,
  \<open>dirname\<close> is again a well-formed relative path, and it is the empty path or holds
  exactly the other components, in order.
\<close>

theorem dirname_basename_relative:
  assumes "RelativePathSanityCheck win p = Inr ()" and "p \<noteq> []"
  shows "PathComponentSanityCheck win (basename win p) = Inr () \<and>
    RelativePathSanityCheck win (dirname win p) = Inr () \<and>
    split_on (isDirSeparator win) p =
      (if dirname win p = [] then [] else split_on (isDirSeparator win) (dirname win p)) @ [basename win p]"
proof (cases "rfindPathSeparator win p")
  case None
  with assms no_separator [OF None] show ?thesis
    by (simp add: RelativePathSanityCheck_rel_ok PathComponentSanityCheck_iff rel_ok_def)
next
  case (Some i)
  note s = split_at_last_separator(3) [OF Some]
  have "dirname win p \<noteq> []"
    using assms s by (auto simp: RelativePathSanityCheck_rel_ok rel_ok_def)
  with assms s show ?thesis
    by (auto simp: RelativePathSanityCheck_rel_ok PathComponentSanityCheck_iff rel_ok_def)
qed

theorem dirname_basename_relative_witness:
  "basename True ''a/b'' = ''b'' \<and>
    split_on (isDirSeparator True) ''a/b'' =
      (if dirname True ''a/b'' = [] then [] else split_on (isDirSeparator True) (dirname True ''a/b''))
        @ [basename True ''a/b'']"
proof -
  have "RelativePathSanityCheck True ''a/b'' = Inr ()"
    by (simp add: RelativePathSanityCheck_rel_ok rel_ok_def component_ok_def sep_defs utf8_ascii)
  from dirname_basename_relative [OF this] show ?thesis
    by (simp add: basename_def rfindPathSeparator_eq sep_defs)
qed

text \<open>
  \<open>AbsolutePath::dirname\<close> drops the last component of an absolute path with at
  least two components, but for a path directly below the root it returns a string that
  is no absolute path (the empty string on POSIX systems), although it is wrapped in an
  \<open>AbsolutePathPiece\<close> without a check.
\<close>

theorem dirname_absolute:
  assumes "list_all (\<lambda>c. PathComponentSanityCheck win c = Inr ()) cs"
    and "PathComponentSanityCheck win c = Inr ()"
  shows "basename win (kRootStr win @ join [kAbsDirSeparator win] (cs @ [c])) = c \<and>
    (cs \<noteq> [] \<longrightarrow> dirname win (kRootStr win @ join [kAbsDirSeparator win] (cs @ [c])) =
       kRootStr win @ join [kAbsDirSeparator win] cs) \<and>
    (cs = [] \<longrightarrow> AbsolutePathSanityCheck win
       (dirname win (kRootStr win @ join [kAbsDirSeparator win] (cs @ [c]))) = Inl DomainError)"
proof -
  have c: "\<forall>x \<in> set c. \<not> isDirSeparator win x"
    using assms(2) by (auto simp: PathComponentSanityCheck_iff dest: component_ok_free)
  note d = dirname_snoc [OF isDirSeparator_abs c]
  have "AbsolutePathSanityCheck win (butlast (kRootStr win)) = Inl DomainError"
    by (simp add: AbsolutePathSanityCheck_def starts_with_def sep_defs)
  with d show ?thesis
    unfolding abs_path_def [symmetric]
    by (cases "cs = []") (simp_all add: abs_path_snoc abs_path_single)
qed

theorem dirname_absolute_witness:
  "dirname False ''/usr/lib'' = ''/usr'' \<and>
   AbsolutePathSanityCheck False (dirname False ''/usr'') = Inl DomainError"
proof -
  have ok: "PathComponentSanityCheck False ''usr'' = Inr ()" "PathComponentSanityCheck False ''lib'' = Inr ()"
    by (simp_all add: PathComponentSanityCheck_iff component_ok_def sep_defs utf8_ascii)
  from dirname_absolute [of False "[''usr'']" "''lib''"] dirname_absolute [of False "[]" "''usr''"] ok
  show ?thesis by (simp add: sep_defs)
qed

end
