(* ===== verification/Path_Iterators.thy ===== *)
theory Path_Iterators
  imports Path_Syntax
begin

text \<open>
  The iterators of \<open>PathFuncs.h\<close>: \<open>ComposedPathIterator\<close> over path prefixes,
  \<open>PathComponentIterator\<close> over components and \<open>PathSuffixIterator\<close> over suffixes, each
  forwards and backwards, and the ranges (\<open>paths\<close>, \<open>allPaths\<close>, \<open>rpaths\<close>,
  \<open>rallPaths\<close>, \<open>components\<close>, \<open>rcomponents\<close>, \<open>suffixes\<close>, \<open>rsuffixes\<close>) built
  from them.

  A \<open>const char*\<close> position is an index into the path, \<open>nullptr\<close> and \<open>npos\<close> are
  \<open>None\<close>.  A failing \<open>XCHECK\<close> is \<open>Inl CheckFailed\<close>; the debug-only \<open>XDCHECK\<close>s are
  not part of the model, except where a release build would read outside the path
  (moving a reverse suffix iterator beyond its end), which is \<open>Inl CheckFailed\<close> too.
  \<open>range_list\<close> is a range-based \<open>for\<close> loop that collects what
  it visits; it needs fuel because a wrong iterator need not reach its end, and the
  lemmas show that \<open>length path + 2\<close> steps always suffice.
\<close>

section \<open>Range-based loops\<close>

fun range_list :: "nat \<Rightarrow> ('it \<Rightarrow> 'it result) \<Rightarrow> ('it \<Rightarrow> 'a result) \<Rightarrow> 'it \<Rightarrow> 'it \<Rightarrow> 'a list option" where
  "range_list 0 incr deref it fin = None"
| "range_list (Suc fuel) incr deref it fin =
     (if it = fin then Some []
      else (case deref it of
              Inl _ \<Rightarrow> None
            | Inr v \<Rightarrow>
                (case incr it of
                   Inl _ \<Rightarrow> None
                 | Inr it' \<Rightarrow> map_option ((#) v) (range_list fuel incr deref it' fin))))"

section \<open>ComposedPathIterator\<close>

function seek_forward :: "bool \<Rightarrow> string \<Rightarrow> nat \<Rightarrow> nat" where
  "seek_forward win path pos =
     (if pos < length path \<and> \<not> isDirSeparator win (path ! pos)
      then seek_forward win path (pos + 1) else pos)"
  by pat_completeness auto
termination by (relation "measure (\<lambda>(win, path, pos). length path - pos)") auto

function seek_backward :: "bool \<Rightarrow> string \<Rightarrow> nat \<Rightarrow> nat \<Rightarrow> nat" where
  "seek_backward win path stopPos pos =
     (if pos > stopPos \<and> \<not> isDirSeparator win (path ! pos)
      then seek_backward win path stopPos (pos - 1) else pos)"
  by pat_completeness auto
termination by (relation "measure (\<lambda>(win, path, stopPos, pos). pos)") auto

declare seek_forward.simps [simp del] seek_backward.simps [simp del]

text \<open>
  The template parameter \<open>Piece\<close> is the argument \<open>isAbs\<close> (is it \<open>AbsolutePathPiece\<close>?),
  \<open>IsReverse\<close> is \<open>isRev\<close>.
\<close>

record composed_iter =
  cpi_path :: string
  cpi_pos :: "nat option"

definition cpi_pathBegin :: "bool \<Rightarrow> bool \<Rightarrow> nat" where
  "cpi_pathBegin win isAbs = (if isAbs then length (kRootStr win) else 0)"

definition cpi_make :: "bool \<Rightarrow> bool \<Rightarrow> string \<Rightarrow> composed_iter" where
  "cpi_make win isAbs path = \<lparr>cpi_path = path, cpi_pos = Some (cpi_pathBegin win isAbs)\<rparr>"

definition cpi_make_at :: "string \<Rightarrow> nat option \<Rightarrow> composed_iter" where
  "cpi_make_at path pos = \<lparr>cpi_path = path, cpi_pos = pos\<rparr>"

definition cpi_advance :: "bool \<Rightarrow> bool \<Rightarrow> bool \<Rightarrow> composed_iter \<Rightarrow> composed_iter result" where
  "cpi_advance win isAbs isRev it =
     (let move = (\<lambda>p. Inr (it\<lparr>cpi_pos := Some (seek_forward win (cpi_path it) (p + 1))\<rparr>)) in
      if isRev then
        (case cpi_pos it of
           None \<Rightarrow> Inr (it\<lparr>cpi_pos := Some (cpi_pathBegin win isAbs)\<rparr>)
         | Some p \<Rightarrow> if p = length (cpi_path it) then Inl CheckFailed else move p)
      else
        (case cpi_pos it of
           None \<Rightarrow> Inl CheckFailed
         | Some p \<Rightarrow> if p = length (cpi_path it) then Inr (it\<lparr>cpi_pos := None\<rparr>) else move p))"

definition cpi_retreat :: "bool \<Rightarrow> bool \<Rightarrow> bool \<Rightarrow> composed_iter \<Rightarrow> composed_iter result" where
  "cpi_retreat win isAbs isRev it =
     (let stopPos = cpi_pathBegin win isAbs;
          move = (\<lambda>p. Inr (it\<lparr>cpi_pos := Some (seek_backward win (cpi_path it) stopPos (p - 1))\<rparr>)) in
      if isRev then
        (case cpi_pos it of
           None \<Rightarrow> Inl CheckFailed
         | Some p \<Rightarrow> if p \<le> stopPos then Inr (it\<lparr>cpi_pos := None\<rparr>) else move p)
      else
        (case cpi_pos it of
           None \<Rightarrow> Inr (it\<lparr>cpi_pos := Some (length (cpi_path it))\<rparr>)
         | Some p \<Rightarrow> if p = stopPos then Inl CheckFailed else move p))"

definition cpi_incr :: "bool \<Rightarrow> bool \<Rightarrow> bool \<Rightarrow> composed_iter \<Rightarrow> composed_iter result" where
  "cpi_incr win isAbs isRev it = (if isRev then cpi_retreat win isAbs isRev it else cpi_advance win isAbs isRev it)"

definition cpi_decr :: "bool \<Rightarrow> bool \<Rightarrow> bool \<Rightarrow> composed_iter \<Rightarrow> composed_iter result" where
  "cpi_decr win isAbs isRev it = (if isRev then cpi_advance win isAbs isRev it else cpi_retreat win isAbs isRev it)"

definition cpi_piece :: "composed_iter \<Rightarrow> string result" where
  "cpi_piece it = (case cpi_pos it of None \<Rightarrow> Inl CheckFailed | Some p \<Rightarrow> Inr (take p (cpi_path it)))"

definition cpi_remainder :: "composed_iter \<Rightarrow> string result" where
  "cpi_remainder it =
     (case cpi_pos it of
        None \<Rightarrow> Inl CheckFailed
      | Some p \<Rightarrow> if p < length (cpi_path it) then Inr (drop (p + 1) (cpi_path it)) else Inr [])"

definition walk_prefixes :: "bool \<Rightarrow> bool \<Rightarrow> bool \<Rightarrow> composed_iter \<Rightarrow> composed_iter \<Rightarrow> string list option" where
  "walk_prefixes win isAbs isRev b e =
     range_list (length (cpi_path b) + 2) (cpi_incr win isAbs isRev) cpi_piece b e"

text \<open>The ranges of \<open>RelativePathBase\<close> and \<open>AbsolutePathBase\<close>.\<close>

definition rel_paths :: "bool \<Rightarrow> string \<Rightarrow> string list option" where
  "rel_paths win p =
     (case cpi_incr win False False (cpi_make win False p) of
        Inl _ \<Rightarrow> None
      | Inr b \<Rightarrow> walk_prefixes win False False b (cpi_make_at p None))"

definition rel_allPaths :: "bool \<Rightarrow> string \<Rightarrow> string list option" where
  "rel_allPaths win p = walk_prefixes win False False (cpi_make win False p) (cpi_make_at p None)"

definition rel_rpaths :: "bool \<Rightarrow> string \<Rightarrow> string list option" where
  "rel_rpaths win p =
     walk_prefixes win False True (cpi_make_at p (Some (length p))) (cpi_make_at p (Some 0))"

definition rel_rallPaths :: "bool \<Rightarrow> string \<Rightarrow> string list option" where
  "rel_rallPaths win p =
     walk_prefixes win False True (cpi_make_at p (Some (length p))) (cpi_make_at p None)"

definition abs_paths :: "bool \<Rightarrow> string \<Rightarrow> string list option" where
  "abs_paths win p = walk_prefixes win True False (cpi_make win True p) (cpi_make_at p None)"

definition abs_rpaths :: "bool \<Rightarrow> string \<Rightarrow> string list option" where
  "abs_rpaths win p =
     walk_prefixes win True True (cpi_make_at p (Some (length p))) (cpi_make_at p None)"

section \<open>PathComponentIterator\<close>

record component_iter =
  pci_path :: string
  pci_pathBegin :: nat
  pci_pathEnd :: nat
  pci_start :: nat
  pci_end :: nat

function component_start :: "bool \<Rightarrow> string \<Rightarrow> nat \<Rightarrow> nat \<Rightarrow> nat" where
  "component_start win path pathBegin start =
     (if start > pathBegin \<and> \<not> isDirSeparator win (path ! (start - 1))
      then component_start win path pathBegin (start - 1) else start)"
  by pat_completeness auto
termination by (relation "measure (\<lambda>(win, path, pathBegin, start). start)") auto

declare component_start.simps [simp del]

definition pci_make :: "bool \<Rightarrow> bool \<Rightarrow> bool \<Rightarrow> string \<Rightarrow> component_iter" where
  "pci_make win isAbs isRev path =
     (let b = (if isAbs then length (kRootStr win) else 0); n = length path in
      if isRev then \<lparr>pci_path = path, pci_pathBegin = b, pci_pathEnd = n,
                   pci_start = component_start win path b n, pci_end = n\<rparr>
      else \<lparr>pci_path = path, pci_pathBegin = b, pci_pathEnd = n,
             pci_start = b, pci_end = seek_forward win path b\<rparr>)"

definition pci_make_END :: "bool \<Rightarrow> bool \<Rightarrow> bool \<Rightarrow> string \<Rightarrow> component_iter" where
  "pci_make_END win isAbs isRev path =
     (let b = (if isAbs then length (kRootStr win) else 0); n = length path;
          q = (if isRev then b else n) in
      \<lparr>pci_path = path, pci_pathBegin = b, pci_pathEnd = n, pci_start = q, pci_end = q\<rparr>)"

definition pci_advance :: "bool \<Rightarrow> component_iter \<Rightarrow> component_iter result" where
  "pci_advance win it =
     Inr (if pci_end it = pci_pathEnd it then it\<lparr>pci_start := pci_end it\<rparr>
          else it\<lparr>pci_start := pci_end it + 1,
                  pci_end := seek_forward win (pci_path it) (pci_end it + 1)\<rparr>)"

definition pci_retreat :: "bool \<Rightarrow> component_iter \<Rightarrow> component_iter result" where
  "pci_retreat win it =
     Inr (if pci_start it = pci_pathBegin it then it\<lparr>pci_end := pci_pathBegin it\<rparr>
          else it\<lparr>pci_end := pci_start it - 1,
                  pci_start := component_start win (pci_path it) (pci_pathBegin it) (pci_start it - 1)\<rparr>)"

definition pci_incr :: "bool \<Rightarrow> bool \<Rightarrow> component_iter \<Rightarrow> component_iter result" where
  "pci_incr win isRev it = (if isRev then pci_retreat win it else pci_advance win it)"

definition pci_decr :: "bool \<Rightarrow> bool \<Rightarrow> component_iter \<Rightarrow> component_iter result" where
  "pci_decr win isRev it = (if isRev then pci_advance win it else pci_retreat win it)"

definition pci_piece :: "component_iter \<Rightarrow> string result" where
  "pci_piece it = Inr (take (pci_end it - pci_start it) (drop (pci_start it) (pci_path it)))"

definition components :: "bool \<Rightarrow> bool \<Rightarrow> string \<Rightarrow> string list option" where
  "components win isAbs p =
     range_list (length p + 2) (pci_incr win False) pci_piece
       (pci_make win isAbs False p) (pci_make_END win isAbs False p)"

definition rcomponents :: "bool \<Rightarrow> bool \<Rightarrow> string \<Rightarrow> string list option" where
  "rcomponents win isAbs p =
     range_list (length p + 2) (pci_incr win True) pci_piece
       (pci_make win isAbs True p) (pci_make_END win isAbs True p)"

section \<open>PathSuffixIterator\<close>

record suffix_iter =
  psi_path :: string
  psi_start :: "nat option"

definition psi_advance :: "bool \<Rightarrow> suffix_iter \<Rightarrow> suffix_iter result" where
  "psi_advance win it =
     (case psi_start it of
        None \<Rightarrow> Inr (it\<lparr>psi_start := Some 0\<rparr>)
      | Some start \<Rightarrow>
          (case findPathSeparator win (psi_path it) (start + 1) of
             None \<Rightarrow> Inr (it\<lparr>psi_start := Some (length (psi_path it))\<rparr>)
           | Some nxt \<Rightarrow> Inr (it\<lparr>psi_start := Some (nxt + 1)\<rparr>)))"

definition psi_retreat :: "bool \<Rightarrow> suffix_iter \<Rightarrow> suffix_iter result" where
  "psi_retreat win it =
     (case psi_start it of
        None \<Rightarrow> Inl CheckFailed
      | Some start \<Rightarrow>
          if start = 0 then Inr (it\<lparr>psi_start := None\<rparr>)
          else (case rfindPathSeparator win (take (start - 1) (psi_path it)) of
                  None \<Rightarrow> Inr (it\<lparr>psi_start := Some 0\<rparr>)
                | Some nxt \<Rightarrow> Inr (it\<lparr>psi_start := Some (nxt + 1)\<rparr>)))"

definition psi_incr :: "bool \<Rightarrow> bool \<Rightarrow> suffix_iter \<Rightarrow> suffix_iter result" where
  "psi_incr win isRev it = (if isRev then psi_retreat win it else psi_advance win it)"

definition psi_decr :: "bool \<Rightarrow> bool \<Rightarrow> suffix_iter \<Rightarrow> suffix_iter result" where
  "psi_decr win isRev it = (if isRev then psi_advance win it else psi_retreat win it)"

text \<open>\<open>path_.substr(start_)\<close> throws \<open>std::out_of_range\<close> beyond the end of the path.\<close>

definition psi_piece :: "suffix_iter \<Rightarrow> string result" where
  "psi_piece it =
     (case psi_start it of
        None \<Rightarrow> Inl OutOfRange
      | Some start \<Rightarrow>
          if start \<le> length (psi_path it) then Inr (drop start (psi_path it)) else Inl OutOfRange)"

definition createRange :: "bool \<Rightarrow> bool \<Rightarrow> string \<Rightarrow> (suffix_iter \<times> suffix_iter) result" where
  "createRange win isRev p =
     (if isRev then
        (case psi_incr win True \<lparr>psi_path = p, psi_start = Some (length p)\<rparr> of
           Inl e \<Rightarrow> Inl e
         | Inr b \<Rightarrow> Inr (b, \<lparr>psi_path = p, psi_start = None\<rparr>))
      else Inr (\<lparr>psi_path = p, psi_start = Some 0\<rparr>, \<lparr>psi_path = p, psi_start = Some (length p)\<rparr>))"

definition walk_suffixes :: "bool \<Rightarrow> bool \<Rightarrow> string \<Rightarrow> string list option" where
  "walk_suffixes win isRev p =
     (case createRange win isRev p of
        Inl _ \<Rightarrow> None
      | Inr (b, e) \<Rightarrow> range_list (length p + 2) (psi_incr win isRev) psi_piece b e)"

definition rel_suffixes :: "bool \<Rightarrow> string \<Rightarrow> string list option" where
  "rel_suffixes win p = walk_suffixes win False p"

definition rel_rsuffixes :: "bool \<Rightarrow> string \<Rightarrow> string list option" where
  "rel_rsuffixes win p = walk_suffixes win True p"

definition abs_suffixes :: "bool \<Rightarrow> string \<Rightarrow> string list option" where
  "abs_suffixes win p = walk_suffixes win False (drop (length (kRootStr win)) p)"

definition abs_rsuffixes :: "bool \<Rightarrow> string \<Rightarrow> string list option" where
  "abs_rsuffixes win p = walk_suffixes win True (drop (length (kRootStr win)) p)"

section \<open>Positions and components\<close>

text \<open>The first and the last component of a string, and the rest around their separators.\<close>

lemma comps_Cons:
  assumes "comps win x = c # cs"
  shows "\<forall>a \<in> set c. \<not> isDirSeparator win a"
    and "cs = [] \<and> x = c \<or> (\<exists>d y. cs \<noteq> [] \<and> x = c @ d # y \<and> isDirSeparator win d \<and> comps win y = cs)"
proof -
  let ?N = "\<lambda>a. \<not> isDirSeparator win a"
  have c: "c = takeWhile ?N x"
    and cs: "cs = (case dropWhile ?N x of [] \<Rightarrow> [] | _ # ys \<Rightarrow> comps win ys)"
    using assms split_on_takeWhile [of "isDirSeparator win" x] by auto
  show "\<forall>a \<in> set c. \<not> isDirSeparator win a" by (auto simp: c dest: set_takeWhileD)
  show "cs = [] \<and> x = c \<or> (\<exists>d y. cs \<noteq> [] \<and> x = c @ d # y \<and> isDirSeparator win d \<and> comps win y = cs)"
  proof (cases "dropWhile ?N x")
    case Nil
    with c cs show ?thesis by (metis append_Nil2 list.simps(4) takeWhile_dropWhile_id)
  next
    case (Cons d y)
    then have "isDirSeparator win d" by (metis hd_dropWhile list.distinct(1) list.sel(1))
    moreover have "x = c @ d # y" using c Cons by (metis takeWhile_dropWhile_id)
    ultimately show ?thesis using cs Cons by auto
  qed
qed

lemma comps_snoc:
  assumes "comps win x = cs @ [c]"
  shows "\<forall>a \<in> set c. \<not> isDirSeparator win a"
    and "cs = [] \<and> x = c \<or> (\<exists>d y. cs \<noteq> [] \<and> x = y @ d # c \<and> isDirSeparator win d \<and> comps win y = cs)"
proof -
  show "\<forall>a \<in> set c. \<not> isDirSeparator win a"
    using split_on_free [of c "isDirSeparator win" x] assms by auto
  show "cs = [] \<and> x = c \<or> (\<exists>d y. cs \<noteq> [] \<and> x = y @ d # c \<and> isDirSeparator win d \<and> comps win y = cs)"
  proof (cases "rfindPathSeparator win x")
    case None
    with no_separator(1) [OF None] assms show ?thesis by auto
  next
    case (Some i)
    with split_at_last_separator [OF Some] assms show ?thesis by (metis append1_eq_conv split_on_not_Nil)
  qed
qed

lemma length_comps: "length (comps win p) \<le> length p + 1"
  by (induction p) (auto simp: Suc_le_eq)

lemma seek_forward_eq:
  "seek_forward win path pos = pos + length (takeWhile (\<lambda>c. \<not> isDirSeparator win c) (drop pos path))"
proof (induction win path pos rule: seek_forward.induct)
  case (1 win path pos)
  show ?case
  proof (cases "pos < length path")
    case True
    then have "drop pos path = path ! pos # drop (pos + 1) path" by (simp add: Cons_nth_drop_Suc)
    with 1 True show ?thesis by (auto simp: seek_forward.simps [of win path pos])
  next
    case False
    then show ?thesis by (simp add: seek_forward.simps [of win path pos])
  qed
qed

lemma seek_forward_comp:
  "comps win (drop st path) = c # cs \<Longrightarrow> seek_forward win path st = st + length c"
  using split_on_takeWhile [of "isDirSeparator win" "drop st path"] by (simp add: seek_forward_eq)

text \<open>A forward position: the component that starts at \<open>st\<close> and what follows it.\<close>

lemma forward_position:
  assumes "comps win (drop st path) = c # cs" and "st \<le> length path"
  shows "take (length c) (drop st path) = c" and "st + length c \<le> length path"
    and "cs = [] \<Longrightarrow> st + length c = length path"
    and "cs \<noteq> [] \<Longrightarrow> st + length c < length path \<and> isDirSeparator win (path ! (st + length c)) \<and>
           comps win (drop (st + length c + 1) path) = cs"
proof -
  from comps_Cons(2) [OF assms(1)]
  consider "cs = []" "drop st path = c"
    | d y where "cs \<noteq> []" "drop st path = c @ d # y" "isDirSeparator win d" "comps win y = cs" by blast
  then have "take (length c) (drop st path) = c \<and> st + length c \<le> length path \<and>
    (cs = [] \<longrightarrow> st + length c = length path) \<and>
    (cs \<noteq> [] \<longrightarrow> st + length c < length path \<and> isDirSeparator win (path ! (st + length c)) \<and>
       comps win (drop (st + length c + 1) path) = cs)"
  proof cases
    case 1
    then have "st + length c = length path" using assms(2) by (metis le_add_diff_inverse length_drop)
    with 1 show ?thesis by simp
  next
    case 2
    have len: "length path - st = length c + 1 + length y"
      using arg_cong [OF 2(2), of length] by simp
    have "drop (st + length c + 1) path = drop (length c + 1) (drop st path)" by (simp add: add.commute)
    also have "\<dots> = y" by (simp add: 2)
    finally have y: "drop (st + length c + 1) path = y" .
    have "path ! (st + length c) = drop st path ! length c" using assms(2) by simp
    also have "\<dots> = d" by (simp add: 2)
    finally have "path ! (st + length c) = d" .
    moreover have "st + length c < length path" using len assms(2) by simp
    ultimately show ?thesis using 2 y by simp
  qed
  then show "take (length c) (drop st path) = c" and "st + length c \<le> length path"
    and "cs = [] \<Longrightarrow> st + length c = length path"
    and "cs \<noteq> [] \<Longrightarrow> st + length c < length path \<and> isDirSeparator win (path ! (st + length c)) \<and>
           comps win (drop (st + length c + 1) path) = cs" by blast+
qed

lemma component_start_refl [simp]: "component_start win path b b = b"
  by (simp add: component_start.simps)

lemma component_start_eq:
  assumes "b \<le> q" and "q \<le> length path"
  shows "component_start win path b q =
    q - length (takeWhile (\<lambda>c. \<not> isDirSeparator win c) (rev (drop b (take q path))))"
  using assms
proof (induction win path b q rule: component_start.induct)
  case (1 win path b q)
  show ?case
  proof (cases "b < q")
    case True
    then obtain k where k: "q = Suc k" by (cases q) auto
    then have "drop b (take q path) = drop b (take k path) @ [path ! k]"
      using True 1 by (simp add: take_Suc_conv_app_nth)
    with 1 True k show ?thesis
      by (auto simp: component_start.simps [of win path b "Suc k"])
  next
    case False
    with 1 have "b = q" by simp
    then show ?thesis by (simp add: component_start.simps [of win path q q])
  qed
qed

lemma seek_backward_eq:
  assumes "b \<le> pos" and "pos < length path"
  shows "seek_backward win path b pos =
    (if component_start win path b (pos + 1) = b then b else component_start win path b (pos + 1) - 1)"
  using assms
proof (induction win path b pos rule: seek_backward.induct)
  case (1 win path b pos)
  show ?case
  proof (cases "b < pos \<and> \<not> isDirSeparator win (path ! pos)")
    case True
    then have "pos - 1 + 1 = pos" by simp
    with 1 True have "seek_backward win path b (pos - 1) =
      (if component_start win path b pos = b then b else component_start win path b pos - 1)"
      by (metis Suc_leI Suc_eq_plus1 Suc_le_mono less_imp_diff_less)
    with True show ?thesis
      by (simp add: seek_backward.simps [of win path b pos] component_start.simps [of win path b "Suc pos"])
  next
    case False
    with 1 show ?thesis
      by (auto simp: seek_backward.simps [of win path b pos] component_start.simps [of win path b "Suc pos"]
        component_start.simps [of win path b b])
  qed
qed

text \<open>A backward position: the component that ends at \<open>q\<close>, above the stop position \<open>b\<close>.\<close>

lemma backward_position:
  assumes "comps win (drop b (take q path)) = cs @ [c]" and "b \<le> q" and "q \<le> length path"
  shows "component_start win path b q = q - length c" and "b + length c \<le> q"
    and "take (length c) (drop (q - length c) path) = c"
    and "cs = [] \<Longrightarrow> q - length c = b"
    and "cs \<noteq> [] \<Longrightarrow> b < q - length c \<and> comps win (drop b (take (q - length c - 1) path)) = cs"
proof -
  define x where "x = drop b (take q path)"
  have lx: "length x = q - b" using assms(3) by (simp add: x_def)
  have free: "\<forall>a \<in> set c. \<not> isDirSeparator win a"
    using comps_snoc(1) assms(1) by blast
  from comps_snoc(2) [OF assms(1), folded x_def]
  consider "cs = []" "x = c"
    | d y where "cs \<noteq> []" "x = y @ d # c" "isDirSeparator win d" "comps win y = cs" by blast
  then have *: "takeWhile (\<lambda>c. \<not> isDirSeparator win c) (rev x) = rev c \<and> b + length c \<le> q \<and>
    drop (q - b - length c) x = c \<and> (cs = [] \<longrightarrow> q - length c = b) \<and>
    (cs \<noteq> [] \<longrightarrow> b < q - length c \<and> comps win (drop b (take (q - length c - 1) path)) = cs)"
  proof cases
    case 1
    then show ?thesis using free lx assms(2) by (simp add: takeWhile_eq_all_conv)
  next
    case 2
    then have l: "length x = length y + 1 + length c" by simp
    have "q - length c - 1 - b = length y" "min (length y) (q - b) = length y"
      using l lx assms(2) by simp_all
    then have "drop b (take (q - length c - 1) path) = take (length y) x"
      unfolding x_def drop_take take_take by simp
    also have "\<dots> = y" by (simp add: 2)
    finally have "drop b (take (q - length c - 1) path) = y" .
    moreover have "q - b - length c = length y + 1" "b < q - length c" using l lx assms(2) by auto
    moreover have "takeWhile (\<lambda>c. \<not> isDirSeparator win c) (rev c @ d # rev y) = rev c"
      using free 2 by (subst takeWhile_append2) auto
    ultimately show ?thesis using 2 by simp
  qed
  then show "component_start win path b q = q - length c"
    using component_start_eq [OF assms(2,3), of win] by (simp add: x_def)
  from * show "b + length c \<le> q" by blast
  from * have "c = drop (q - b - length c) x" and n: "q - b - length c + b = q - length c" by simp_all
  then have "c = drop (q - length c) (take q path)" by (simp add: x_def)
  also have "\<dots> = take (length c) (drop (q - length c) path)"
    using * by (simp add: drop_take)
  finally show "take (length c) (drop (q - length c) path) = c" by simp
  from * show "cs = [] \<Longrightarrow> q - length c = b"
    and "cs \<noteq> [] \<Longrightarrow> b < q - length c \<and> comps win (drop b (take (q - length c - 1) path)) = cs"
    by blast+
qed

section \<open>Walking the components\<close>

lemma walk_components:
  assumes "comps win (drop st path) = c # cs" and "st \<le> length path"
    and "\<forall>c \<in> set (c # cs). c \<noteq> []" and "length cs + 1 < fuel"
  shows "range_list fuel (pci_incr win False) pci_piece
      \<lparr>pci_path = path, pci_pathBegin = b, pci_pathEnd = length path, pci_start = st, pci_end = st + length c\<rparr>
      \<lparr>pci_path = path, pci_pathBegin = b, pci_pathEnd = length path, pci_start = length path, pci_end = length path\<rparr>
    = Some (c # cs)"
  using assms
proof (induction cs arbitrary: st c fuel)
  case Nil
  note f = forward_position [OF Nil.prems(1,2)]
  obtain k where "fuel = Suc (Suc k)" using Nil.prems(4) by (cases fuel; cases "fuel - 1") auto
  with f Nil.prems(3) show ?case
    by (auto simp: pci_piece_def pci_incr_def pci_advance_def)
next
  case (Cons d cs)
  note f = forward_position [OF Cons.prems(1,2)]
  obtain k where k: "fuel = Suc k" "length cs + 1 < k" using Cons.prems(4) by (cases fuel) auto
  have nxt: "comps win (drop (st + length c + 1) path) = d # cs" using f(4) by simp
  note IH = Cons.IH [OF nxt _ _ k(2)]
  have "seek_forward win path (st + length c + 1) = st + length c + 1 + length d"
    by (rule seek_forward_comp [OF nxt])
  with f IH k(1) Cons.prems(3) show ?case
    by (auto simp: pci_piece_def pci_incr_def pci_advance_def)
qed

lemma walk_rcomponents:
  assumes "comps win (drop b (take q path)) = cs @ [c]" and "b \<le> q" and "q \<le> length path"
    and "\<forall>c \<in> set (cs @ [c]). c \<noteq> []" and "length cs + 1 < fuel"
  shows "range_list fuel (pci_incr win True) pci_piece
      \<lparr>pci_path = path, pci_pathBegin = b, pci_pathEnd = n, pci_start = q - length c, pci_end = q\<rparr>
      \<lparr>pci_path = path, pci_pathBegin = b, pci_pathEnd = n, pci_start = b, pci_end = b\<rparr>
    = Some (c # rev cs)"
  using assms
proof (induction cs arbitrary: q c fuel rule: rev_induct)
  case Nil
  note f = backward_position [OF Nil.prems(1-3)]
  obtain k where "fuel = Suc (Suc k)" using Nil.prems(5) by (cases fuel; cases "fuel - 1") auto
  with f Nil.prems(2,4) show ?case
    by (auto simp: pci_piece_def pci_incr_def pci_retreat_def)
next
  case (snoc d cs)
  note f = backward_position [OF snoc.prems(1-3)]
  obtain k where k: "fuel = Suc k" "length cs + 1 < k" using snoc.prems(5) by (cases fuel) auto
  have b: "b < q - length c"
    and nxt: "comps win (drop b (take (q - length c - 1) path)) = cs @ [d]" using f(5) by simp_all
  then have le: "b \<le> q - length c - 1" "q - length c - 1 \<le> length path" using snoc.prems(3) by auto
  note IH = snoc.IH [OF nxt le _ k(2)]
  note st = backward_position(1) [OF nxt le]
  with f(2,3) b IH k(1) snoc.prems(4) show ?case
    by (auto simp: pci_piece_def pci_incr_def pci_retreat_def)
qed

lemma components_spec:
  assumes "\<forall>c \<in> set (comps win x). c \<noteq> []" and "p = r @ x"
    and "length r = (if isAbs then length (kRootStr win) else 0)"
  shows "components win isAbs p = Some (comps win x)"
    and "rcomponents win isAbs p = Some (rev (comps win x))"
proof -
  have r: "length r \<le> length p" and x: "drop (length r) p = x" using assms(2) by auto
  have fuel: "length (comps win x) < length p + 2"
    using length_comps [of win x] assms(2) by simp
  obtain c cs where cs: "comps win x = c # cs" by (rule split_on_Cons_cases)
  have "comps win (drop (length r) p) = c # cs" by (simp add: x cs)
  from walk_components [OF this r, of "length p + 2" "length r"] seek_forward_comp [OF this]
  show "components win isAbs p = Some (comps win x)"
    using assms cs fuel by (simp add: components_def pci_make_def pci_make_END_def Let_def)
  obtain ds d where ds: "comps win x = ds @ [d]" by (cases "comps win x" rule: rev_cases) auto
  have "comps win (drop (length r) (take (length p) p)) = ds @ [d]" by (simp add: x ds)
  from walk_rcomponents [OF this r, of "length p + 2" "length p"] backward_position(1) [OF this r]
  show "rcomponents win isAbs p = Some (rev (comps win x))"
    using assms ds fuel by (simp add: rcomponents_def pci_make_def pci_make_END_def Let_def)
qed

lemma components_Nil:
  assumes "length p = (if isAbs then length (kRootStr win) else 0)"
  shows "components win isAbs p = Some []" and "rcomponents win isAbs p = Some []"
proof -
  show "components win isAbs p = Some []"
    unfolding components_def pci_make_def pci_make_END_def Let_def assms [symmetric]
    by (simp add: seek_forward.simps [of win p "length p"])
  show "rcomponents win isAbs p = Some []"
    unfolding rcomponents_def pci_make_def pci_make_END_def Let_def assms [symmetric] by simp
qed

lemma components_rel: "rel_ok win p \<Longrightarrow> components win False p = Some (if p = [] then [] else comps win p)"
  and rcomponents_rel:
    "rel_ok win p \<Longrightarrow> rcomponents win False p = Some (rev (if p = [] then [] else comps win p))"
  using components_spec [of win p p "[]" False] components_Nil [of p False win]
  by (auto simp: rel_ok_def dest: component_ok_not_Nil)

lemma components_abs: "\<forall>c \<in> set cs. component_ok win c \<Longrightarrow> components win True (abs_path win cs) = Some cs"
  and rcomponents_abs:
    "\<forall>c \<in> set cs. component_ok win c \<Longrightarrow> rcomponents win True (abs_path win cs) = Some (rev cs)"
proof -
  assume ok: "\<forall>c \<in> set cs. component_ok win c"
  show "components win True (abs_path win cs) = Some cs"
    and "rcomponents win True (abs_path win cs) = Some (rev cs)"
    using ok components_spec [of win "join [kAbsDirSeparator win] cs" "abs_path win cs" "kRootStr win" True]
      components_Nil [of "abs_path win cs" True win] join_components(1) [OF ok isDirSeparator_abs]
    by (cases "cs = []"; auto simp: abs_path_def dest: component_ok_not_Nil)+
qed

section \<open>Walking the prefixes\<close>

text \<open>The end positions and the start positions of components laid out from \<open>st\<close> on.\<close>

fun ends :: "nat \<Rightarrow> string list \<Rightarrow> nat list" where
  "ends st [] = []"
| "ends st (c # cs) = (st + length c) # ends (st + length c + 1) cs"

fun starts :: "nat \<Rightarrow> string list \<Rightarrow> nat list" where
  "starts st [] = []"
| "starts st (c # cs) = st # starts (st + length c + 1) cs"

lemma ends_snoc: "ends st (cs @ [c]) = ends st cs @ [st + sum_list (map (\<lambda>c. length c + 1) cs) + length c]"
  by (induction cs arbitrary: st) auto

lemma starts_snoc: "starts st (cs @ [c]) = starts st cs @ [st + sum_list (map (\<lambda>c. length c + 1) cs)]"
  by (induction cs arbitrary: st) auto

lemma sum_comps: "sum_list (map (\<lambda>c. length c + 1) (comps win x)) = length x + 1"
proof (induction x)
  case (Cons a x)
  obtain y ys where "comps win x = y # ys" by (rule split_on_Cons_cases)
  with Cons show ?case by auto
qed simp

lemma sum_comps_snoc:
  "comps win x = cs @ [c] \<Longrightarrow> sum_list (map (\<lambda>c. length c + 1) cs) + length c = length x"
  using sum_comps [of win x] by simp

lemma length_comps_nonempty:
  assumes "\<forall>c \<in> set (comps win p). c \<noteq> []"
  shows "length (comps win p) \<le> length p"
proof -
  have "2 * length cs \<le> sum_list (map (\<lambda>c. length c + 1) cs)" if "\<forall>c \<in> set cs. c \<noteq> []" for cs :: "string list"
    using that
  proof (induction cs)
    case (Cons c cs)
    then have "2 * length cs \<le> sum_list (map (\<lambda>c. length c + 1) cs)" "1 \<le> length c"
      by (simp_all add: Suc_le_eq)
    then show ?case by simp
  qed simp
  from this [OF assms] have "2 * length (comps win p) \<le> length p + 1" by (simp only: sum_comps)
  moreover have "0 < length (comps win p)" by simp
  ultimately show ?thesis by linarith
qed

lemma seek_forward_skip:
  assumes "comps win (drop st path) = c # cs" and "c \<noteq> []" and "st \<le> length path"
  shows "seek_forward win path (st + 1) = st + length c"
proof -
  have "st < length path" using forward_position(2) [OF assms(1,3)] assms(2)
    by (cases c) auto
  moreover have "\<not> isDirSeparator win (path ! st)"
  proof -
    have "path ! st = c ! 0"
      using forward_position(1) [OF assms(1,3)] assms(2)
      by (metis add_0_right assms(3) length_greater_0_conv nth_drop nth_take)
    then show ?thesis using comps_Cons(1) [OF assms(1)] assms(2) by simp
  qed
  ultimately have "seek_forward win path st = seek_forward win path (st + 1)"
    by (simp add: seek_forward.simps [of win path st])
  with seek_forward_comp [OF assms(1)] show ?thesis by simp
qed

lemma walk_prefixes_forward:
  assumes "comps win (drop st path) = c # cs" and "st \<le> length path" and "length cs + 1 < fuel"
  shows "range_list fuel (cpi_incr win isAbs False) cpi_piece
      \<lparr>cpi_path = path, cpi_pos = Some (st + length c)\<rparr> \<lparr>cpi_path = path, cpi_pos = None\<rparr>
    = Some (map (\<lambda>i. take i path) (ends st (c # cs)))"
  using assms
proof (induction cs arbitrary: st c fuel)
  case Nil
  note f = forward_position [OF Nil.prems(1,2)]
  obtain k where "fuel = Suc (Suc k)" using Nil.prems(3) by (cases fuel; cases "fuel - 1") auto
  with f show ?case by (simp add: cpi_piece_def cpi_incr_def cpi_advance_def)
next
  case (Cons d cs)
  note f = forward_position [OF Cons.prems(1,2)]
  obtain k where k: "fuel = Suc k" "length cs + 1 < k" using Cons.prems(3) by (cases fuel) auto
  have nxt: "comps win (drop (st + length c + 1) path) = d # cs" using f(4) by simp
  from f(4) Cons.IH [OF nxt _ k(2)] seek_forward_comp [OF nxt] k(1) show ?case
    by (auto simp: cpi_piece_def cpi_incr_def cpi_advance_def)
qed

lemma walk_prefixes_backward:
  assumes "comps win (drop b (take q path)) = cs @ [c]" and "b \<le> q" and "q \<le> length path"
    and "\<forall>c \<in> set (cs @ [c]). c \<noteq> []" and "length cs + 2 < fuel" and "b = cpi_pathBegin win isAbs"
  shows "range_list fuel (cpi_incr win isAbs True) cpi_piece
      \<lparr>cpi_path = path, cpi_pos = Some q\<rparr> \<lparr>cpi_path = path, cpi_pos = None\<rparr>
    = Some (rev (map (\<lambda>i. take i path) (b # ends b (cs @ [c]))))" (is ?all)
    and "range_list fuel (cpi_incr win isAbs True) cpi_piece
      \<lparr>cpi_path = path, cpi_pos = Some q\<rparr> \<lparr>cpi_path = path, cpi_pos = Some b\<rparr>
    = Some (rev (map (\<lambda>i. take i path) (ends b (cs @ [c]))))" (is ?part)
proof -
  have "?all \<and> ?part"
    using assms(1-5)
  proof (induction cs arbitrary: q c fuel rule: rev_induct)
    case Nil
    note f = backward_position [OF Nil.prems(1-3)]
    obtain k where k: "fuel = Suc (Suc (Suc k))" using Nil.prems(5)
      by (metis add_2_eq_Suc' add_Suc_right add.commute less_iff_Suc_add list.size(3) plus_nat.add_0)
    have cl: "c \<noteq> []" "b < q" using Nil.prems(4) f(2) by (cases c; auto)+
    then have "q - 1 + 1 = q" by simp
    with seek_backward_eq [of b "q - 1" path win] f cl Nil.prems(3)
    have "seek_backward win path b (q - 1) = b" by auto
    moreover have "q = b + length c" using f(2,4) by simp
    ultimately show ?case using k f cl assms(6)
      by (auto simp: cpi_piece_def cpi_incr_def cpi_retreat_def Let_def)
  next
    case (snoc d cs)
    note f = backward_position [OF snoc.prems(1-3)]
    obtain k where k: "fuel = Suc k" "length cs + 2 < k" using snoc.prems(5) by (cases fuel) auto
    have b: "b < q - length c"
      and nxt: "comps win (drop b (take (q - length c - 1) path)) = cs @ [d]" using f(5) by simp_all
    then have le: "b \<le> q - length c - 1" "q - length c - 1 \<le> length path" using snoc.prems(3) by auto
    have cl: "c \<noteq> []" "b < q" "q - 1 + 1 = q" using snoc.prems(4) b by auto
    have "seek_backward win path b (q - 1) = q - length c - 1"
      using seek_backward_eq [of b "q - 1" path win] f(1) b cl snoc.prems(3) by auto
    moreover have "b + sum_list (map (\<lambda>c. length c + 1) (cs @ [d])) + length c = q"
      using sum_comps_snoc [OF snoc.prems(1)] snoc.prems(2,3) by simp
    then have e: "ends b ((cs @ [d]) @ [c]) = ends b (cs @ [d]) @ [q]" by (simp only: ends_snoc)
    ultimately show ?case unfolding e
      using snoc.IH [OF nxt le _ k(2)] k(1) b cl assms(6) snoc.prems(4)
      by (auto simp: cpi_piece_def cpi_incr_def cpi_retreat_def Let_def)
  qed
  then show ?all and ?part by blast+
qed

lemma drop_take_split:
  assumes "take (length c) (drop st path) = c" and "st + length c < length path" and "st + length c < i"
  shows "drop st (take i path) = c @ path ! (st + length c) # drop (st + length c + 1) (take i path)"
proof -
  define x where "x = drop st (take i path)"
  have lt: "length c < length x" using assms(2,3) by (simp add: x_def)
  have "take (length c) x = c"
    using assms(1,3) by (simp add: x_def drop_take min_absorb1)
  moreover have "x ! length c = path ! (st + length c)" using assms(2,3) by (simp add: x_def)
  moreover have "drop (Suc (length c)) x = drop (st + length c + 1) (take i path)"
    by (simp add: x_def add.commute)
  ultimately show ?thesis using id_take_nth_drop [OF lt] by (simp add: x_def)
qed

lemma ends_comps:
  assumes "comps win (drop st path) = cs" and "st \<le> length path"
  shows "map (\<lambda>i. comps win (drop st (take i path))) (ends st cs) = map (\<lambda>k. take (Suc k) cs) [0..<length cs]"
  using assms
proof (induction cs arbitrary: st)
  case Nil
  then show ?case by simp
next
  case (Cons c cs)
  note f = forward_position [OF Cons.prems]
  have c: "comps win (drop st (take (st + length c) path)) = [c]"
    using f(1) comps_Cons(1) [OF Cons.prems(1)] by (simp add: drop_take split_on_id)
  show ?case
  proof (cases "cs = []")
    case True
    with c show ?thesis by simp
  next
    case False
    let ?n = "st + length c + 1"
    have nxt: "comps win (drop ?n path) = cs" and le: "?n \<le> length path"
      and sep: "isDirSeparator win (path ! (st + length c))" using f(4) [OF False] by auto
    have ge: "i \<in> set (ends m cs) \<Longrightarrow> m \<le> i" for i m cs
      by (induction cs arbitrary: m) fastforce+
    have "comps win (drop st (take i path)) = c # comps win (drop ?n (take i path))"
      if "i \<in> set (ends ?n cs)" for i
    proof -
      have "?n \<le> i" by (rule ge [OF that])
      then have "drop st (take i path) = c @ path ! (st + length c) # drop ?n (take i path)"
        using f(1) f(4) [OF False] by (intro drop_take_split) auto
      then show ?thesis
        using comps_Cons(1) [OF Cons.prems(1)] by (simp add: split_on_sep sep split_on_id)
    qed
    then have "map (\<lambda>i. comps win (drop st (take i path))) (ends ?n cs) =
        map ((#) c) (map (\<lambda>i. comps win (drop ?n (take i path))) (ends ?n cs))"
      by simp
    also have "\<dots> = map (\<lambda>k. take (Suc (Suc k)) (c # cs)) [0..<length cs]"
      using Cons.IH [OF nxt le] by (simp add: comp_def)
    finally show ?thesis using c by (simp add: upt_conv_Cons map_Suc_upt [symmetric] del: upt_Suc)
  qed
qed

lemma ends_join:
  "map (\<lambda>i. take i (r @ join [d] cs)) (ends (length r) cs) = map (\<lambda>k. r @ join [d] (take (Suc k) cs)) [0..<length cs]"
proof (induction cs arbitrary: r)
  case (Cons c cs)
  show ?case
  proof (cases "cs = []")
    case False
    have "map (\<lambda>i. take i (r @ join [d] (c # cs))) (ends (length r + length c + 1) cs) =
      map (\<lambda>k. (r @ c @ [d]) @ join [d] (take (Suc k) cs)) [0..<length cs]"
      using Cons [of "r @ c @ [d]"] False by (simp add: join_Cons add.assoc)
    also have "\<dots> = map (\<lambda>k. r @ join [d] (take (Suc (Suc k)) (c # cs))) [0..<length cs]"
      using False by (auto simp: join_Cons)
    finally show ?thesis
      using False by (simp add: join_Cons upt_conv_Cons map_Suc_upt [symmetric] del: upt_Suc)
  qed simp
qed simp

lemma rel_paths_ends:
  assumes "rel_ok win p"
  defines "cs \<equiv> (if p = [] then [] else comps win p)"
  shows "rel_paths win p = Some (map (\<lambda>i. take i p) (ends 0 cs))"
    and "rel_allPaths win p = Some (map (\<lambda>i. take i p) (0 # ends 0 cs))"
    and "rel_rpaths win p = Some (rev (map (\<lambda>i. take i p) (ends 0 cs)))"
    and "rel_rallPaths win p = Some (rev (map (\<lambda>i. take i p) (0 # ends 0 cs)))"
proof -
  note defs = rel_paths_def rel_allPaths_def rel_rpaths_def rel_rallPaths_def walk_prefixes_def
    cpi_make_def cpi_make_at_def cpi_pathBegin_def
  have "rel_paths win p = Some (map (\<lambda>i. take i p) (ends 0 cs)) \<and>
    rel_allPaths win p = Some (map (\<lambda>i. take i p) (0 # ends 0 cs)) \<and>
    rel_rpaths win p = Some (rev (map (\<lambda>i. take i p) (ends 0 cs))) \<and>
    rel_rallPaths win p = Some (rev (map (\<lambda>i. take i p) (0 # ends 0 cs)))"
  proof (cases "p = []")
    case True
    then show ?thesis
      by (simp add: defs cs_def cpi_incr_def cpi_advance_def cpi_retreat_def cpi_piece_def numeral_2_eq_2)
  next
    case False
    obtain d ds where ds: "comps win p = d # ds" by (rule split_on_Cons_cases)
    obtain es e where es: "comps win p = es @ [e]" by (cases "comps win p" rule: rev_cases) auto
    have ne: "\<forall>c \<in> set (comps win p). c \<noteq> []"
      using assms False by (auto simp: rel_ok_def dest: component_ok_not_Nil)
    have "length (comps win p) = length ds + 1" "length (comps win p) = length es + 1"
      by (simp add: ds, simp add: es)
    with length_comps_nonempty [OF ne]
    have len: "length ds + 1 < length p + 2" "length es + 2 < length p + 2" "length ds + 1 < length p + 1"
      by simp_all
    have first: "cpi_incr win False False \<lparr>cpi_path = p, cpi_pos = Some 0\<rparr> =
        Inr \<lparr>cpi_path = p, cpi_pos = Some (length d)\<rparr>"
      using seek_forward_skip [of win 0 p d ds] ds ne False
      by (simp add: cpi_incr_def cpi_advance_def)
    have "comps win (drop 0 p) = d # ds" by (simp add: ds)
    note fwd = walk_prefixes_forward [OF this _ len(1), of False, simplified]
    have fwd': "range_list (length p + 1) (cpi_incr win False False) cpi_piece
        \<lparr>cpi_path = p, cpi_pos = Some (length d)\<rparr> \<lparr>cpi_path = p, cpi_pos = None\<rparr>
      = Some (map (\<lambda>i. take i p) (ends 0 (d # ds)))"
      using walk_prefixes_forward [of win 0 p d ds "length p + 1" False] ds len(3) by simp
    have "comps win (drop 0 (take (length p) p)) = es @ [e]" by (simp add: es)
    note bwd = walk_prefixes_backward [OF this, of "length p + 2" False, folded es, unfolded cpi_pathBegin_def]
    have "rel_rallPaths win p = Some (rev (map (\<lambda>i. take i p) (0 # ends 0 (comps win p))))"
      unfolding defs using bwd(1) ne len(2) by simp
    moreover have "rel_rpaths win p = Some (rev (map (\<lambda>i. take i p) (ends 0 (comps win p))))"
      unfolding defs using bwd(2) ne len(2) by simp
    moreover have "rel_paths win p = Some (map (\<lambda>i. take i p) (ends 0 (comps win p)))"
      unfolding defs using fwd first ds by simp
    moreover have "rel_allPaths win p = Some (map (\<lambda>i. take i p) (0 # ends 0 (comps win p)))"
      unfolding defs using fwd' first ds by (simp add: cpi_piece_def)
    ultimately show ?thesis using False by (simp add: cs_def)
  qed
  then show "rel_paths win p = Some (map (\<lambda>i. take i p) (ends 0 cs))"
    and "rel_allPaths win p = Some (map (\<lambda>i. take i p) (0 # ends 0 cs))"
    and "rel_rpaths win p = Some (rev (map (\<lambda>i. take i p) (ends 0 cs)))"
    and "rel_rallPaths win p = Some (rev (map (\<lambda>i. take i p) (0 # ends 0 cs)))" by blast+
qed

lemma abs_paths_ends:
  assumes ok: "\<forall>c \<in> set cs. component_ok win c"
  shows "abs_paths win (abs_path win cs) =
      Some (map (\<lambda>i. take i (abs_path win cs)) (length (kRootStr win) # ends (length (kRootStr win)) cs))"
    and "abs_rpaths win (abs_path win cs) =
      Some (rev (map (\<lambda>i. take i (abs_path win cs)) (length (kRootStr win) # ends (length (kRootStr win)) cs)))"
proof -
  note defs = abs_paths_def abs_rpaths_def walk_prefixes_def cpi_make_def cpi_make_at_def cpi_pathBegin_def
  let ?p = "abs_path win cs" and ?r = "length (kRootStr win)" and ?x = "join [kAbsDirSeparator win] cs"
  have p: "length ?p = ?r + length ?x" "drop ?r ?p = ?x" by (simp_all add: abs_path_def)
  have "abs_paths win ?p = Some (map (\<lambda>i. take i ?p) (?r # ends ?r cs)) \<and>
    abs_rpaths win ?p = Some (rev (map (\<lambda>i. take i ?p) (?r # ends ?r cs)))"
  proof (cases "cs = []")
    case True
    then show ?thesis
      by (simp add: defs abs_path_def cpi_incr_def cpi_advance_def cpi_retreat_def cpi_piece_def)
  next
    case False
    have cs: "comps win ?x = cs" and ne: "\<forall>c \<in> set cs. c \<noteq> []"
      using False join_components(1) [OF ok isDirSeparator_abs] ok by (auto dest: component_ok_not_Nil)
    obtain d ds where ds: "cs = d # ds" using False by (cases cs) auto
    obtain es e where es: "cs = es @ [e]" using False by (cases cs rule: rev_cases) auto
    have "length cs = length ds + 1" "length cs = length es + 1" "length cs \<le> length ?x"
      using length_comps_nonempty [of win ?x] cs ne by (simp add: ds, simp add: es, simp)
    then have len: "length ds + 1 < length ?p + 1" "length es + 2 < length ?p + 2"
      unfolding p by simp_all
    have x: "?x \<noteq> []" using join_components(3) [OF ok isDirSeparator_abs] False by simp
    have fd: "comps win (drop ?r ?p) = d # ds" using cs ds unfolding p by simp
    have first: "cpi_incr win True False \<lparr>cpi_path = ?p, cpi_pos = Some ?r\<rparr> =
        Inr \<lparr>cpi_path = ?p, cpi_pos = Some (?r + length d)\<rparr>"
      using seek_forward_skip [OF fd] ne ds p x by (simp add: cpi_incr_def cpi_advance_def)
    note fwd = walk_prefixes_forward [OF fd _ len(1), of True]
    have "comps win (drop ?r (take (length ?p) ?p)) = es @ [e]" using cs es p by simp
    note bwd = walk_prefixes_backward(1) [OF this, of "length ?p + 2" True, folded es, unfolded cpi_pathBegin_def]
    have "abs_rpaths win ?p = Some (rev (map (\<lambda>i. take i ?p) (?r # ends ?r cs)))"
      unfolding defs using bwd ne len(2) p(1) by simp
    moreover have "abs_paths win ?p = Some (map (\<lambda>i. take i ?p) (?r # ends ?r cs))"
      unfolding defs using fwd [folded ds] first p(1) by (simp add: cpi_piece_def)
    ultimately show ?thesis by blast
  qed
  then show "abs_paths win ?p = Some (map (\<lambda>i. take i ?p) (?r # ends ?r cs))"
    and "abs_rpaths win ?p = Some (rev (map (\<lambda>i. take i ?p) (?r # ends ?r cs)))" by blast+
qed

lemma abs_paths_eq:
  assumes "\<forall>c \<in> set cs. component_ok win c"
  shows "abs_paths win (abs_path win cs) = Some (map (\<lambda>k. abs_path win (take k cs)) [0..<length cs + 1])"
proof -
  have "map (\<lambda>i. take i (abs_path win cs)) (length (kRootStr win) # ends (length (kRootStr win)) cs) =
    map (\<lambda>k. abs_path win (take k cs)) [0..<length cs + 1]"
    using ends_join [of "kRootStr win" "kAbsDirSeparator win" cs]
    by (simp add: abs_path_def upt_conv_Cons map_Suc_upt [symmetric] comp_def del: upt_Suc)
  with abs_paths_ends(1) [OF assms] show ?thesis by simp
qed

section \<open>Walking the suffixes\<close>

lemma rfind_comps:
  "comps win x = cs @ [c] \<Longrightarrow>
    rfindPathSeparator win x = (if cs = [] then None else Some (length x - length c - 1))"
proof -
  assume a: "comps win x = cs @ [c]"
  note free = comps_snoc(1) [OF a]
  from comps_snoc(2) [OF a]
  consider "cs = []" "x = c" | d y where "cs \<noteq> []" "x = y @ d # c" "isDirSeparator win d" by blast
  then show ?thesis
  proof cases
    case 1
    then show ?thesis using free by (simp add: rfindPathSeparator_eq rfind_index_None)
  next
    case 2
    then show ?thesis using free by (simp add: rfindPathSeparator_eq rfind_index_append)
  qed
qed

lemma comps_butlast:
  assumes "comps win x = cs @ [c]" and "c \<noteq> []"
  shows "comps win (butlast x) = cs @ [butlast c]"
proof -
  have free: "\<forall>a \<in> set (butlast c). \<not> isDirSeparator win a"
    using comps_snoc(1) [OF assms(1)] by (auto dest: in_set_butlastD)
  from comps_snoc(2) [OF assms(1)]
  consider "cs = []" "x = c"
    | d y where "cs \<noteq> []" "x = y @ d # c" "isDirSeparator win d" "comps win y = cs" by blast
  then show ?thesis
    by cases (use free assms(2) in \<open>simp_all add: split_on_id butlast_append split_on_sep\<close>)
qed

lemma findPathSeparator_seek:
  "findPathSeparator win path i =
    (if seek_forward win path i < length path then Some (seek_forward win path i) else None)"
proof -
  let ?N = "\<lambda>c. \<not> isDirSeparator win c"
  have "(\<exists>c \<in> set (drop i path). isDirSeparator win c) \<longleftrightarrow>
      length (takeWhile ?N (drop i path)) < length (drop i path)"
    by (metis length_takeWhile_le nat_less_le takeWhile_eq_all_conv takeWhile_eq_take take_all_iff order_refl)
  then show ?thesis by (auto simp: findPathSeparator_eq find_index_def find_from_eq seek_forward_eq)
qed

lemma walk_suffixes_forward:
  assumes "comps win (drop st path) = c # cs" and "st \<le> length path"
    and "\<forall>c \<in> set (c # cs). c \<noteq> []" and "length cs + 1 < fuel"
  shows "range_list fuel (psi_incr win False) psi_piece
      \<lparr>psi_path = path, psi_start = Some st\<rparr> \<lparr>psi_path = path, psi_start = Some (length path)\<rparr>
    = Some (map (\<lambda>i. drop i path) (starts st (c # cs)))"
  using assms
proof (induction cs arbitrary: st c fuel)
  case Nil
  note f = forward_position [OF Nil.prems(1,2)]
  obtain k where k: "fuel = Suc (Suc k)" using Nil.prems(4) by (cases fuel; cases "fuel - 1") auto
  have "seek_forward win path (st + 1) = st + length c"
    using Nil.prems(3) by (intro seek_forward_skip [OF Nil.prems(1) _ Nil.prems(2)]) simp
  with f k Nil.prems(3) show ?case
    by (auto simp: psi_piece_def psi_incr_def psi_advance_def findPathSeparator_seek)
next
  case (Cons d cs)
  note f = forward_position [OF Cons.prems(1,2)]
  obtain k where k: "fuel = Suc k" "length cs + 1 < k" using Cons.prems(4) by (cases fuel) auto
  have nxt: "comps win (drop (st + length c + 1) path) = d # cs" using f(4) by simp
  have "seek_forward win path (st + 1) = st + length c"
    using Cons.prems(3) by (intro seek_forward_skip [OF Cons.prems(1) _ Cons.prems(2)]) simp
  with f nxt Cons.IH [OF nxt _ _ k(2)] k(1) Cons.prems(3) show ?case
    by (auto simp: psi_piece_def psi_incr_def psi_advance_def findPathSeparator_seek)
qed

lemma walk_suffixes_backward:
  assumes "comps win (take q path) = cs @ [c]" and "q \<le> length path" and "length cs + 1 < fuel"
  shows "range_list fuel (psi_incr win True) psi_piece
      \<lparr>psi_path = path, psi_start = Some (q - length c)\<rparr> \<lparr>psi_path = path, psi_start = None\<rparr>
    = Some (rev (map (\<lambda>i. drop i path) (starts 0 (cs @ [c]))))"
  using assms
proof (induction cs arbitrary: q c fuel rule: rev_induct)
  case Nil
  then have "comps win (drop 0 (take q path)) = [] @ [c]" by simp
  from backward_position(4) [OF this _ Nil.prems(2)] have "q - length c = 0" by simp
  moreover obtain k where "fuel = Suc (Suc k)" using Nil.prems(3) by (cases fuel; cases "fuel - 1") auto
  ultimately show ?case by (simp add: psi_piece_def psi_incr_def psi_retreat_def)
next
  case (snoc d cs)
  let ?s = "q - length c"
  obtain k where k: "fuel = Suc k" "length cs + 1 < k" using snoc.prems(3) by (cases fuel) auto
  have "comps win (drop 0 (take q path)) = (cs @ [d]) @ [c]" using snoc.prems(1) by simp
  from backward_position(5) [OF this _ snoc.prems(2)]
  have s: "0 < ?s" and nxt: "comps win (take (?s - 1) path) = cs @ [d]" by simp_all
  have "comps win (drop 0 (take (?s - 1) path)) = cs @ [d]" using nxt by simp
  note b = backward_position [OF this]
  have "?s - 1 \<le> length path" using snoc.prems(2) by simp
  note b = b(4,5) [OF _ this] and IH = snoc.IH [OF nxt this k(2)] and rf = rfind_comps [OF nxt]
  have "psi_incr win True \<lparr>psi_path = path, psi_start = Some ?s\<rparr> =
      Inr \<lparr>psi_path = path, psi_start = Some (?s - 1 - length d)\<rparr>"
    using s rf b snoc.prems(2)
    by (cases "cs = []") (auto simp: psi_incr_def psi_retreat_def min_absorb2 split: option.split)
  moreover have "0 + sum_list (map (\<lambda>c. length c + 1) (cs @ [d])) = ?s"
    using sum_comps_snoc [OF snoc.prems(1)] snoc.prems(2) by simp
  then have "starts 0 ((cs @ [d]) @ [c]) = starts 0 (cs @ [d]) @ [?s]" by (simp only: starts_snoc)
  ultimately show ?case using IH k(1) snoc.prems(2) by (simp add: psi_piece_def)
qed

lemma starts_comps:
  assumes "comps win (drop st path) = cs" and "st \<le> length path"
  shows "map (\<lambda>i. comps win (drop i path)) (starts st cs) = map (\<lambda>k. drop k cs) [0..<length cs]"
  using assms
proof (induction cs arbitrary: st)
  case (Cons c cs)
  note f = forward_position [OF Cons.prems]
  show ?case
  proof (cases "cs = []")
    case True
    with Cons.prems show ?thesis by simp
  next
    case False
    with f(4) Cons.IH [of "st + length c + 1"] Cons.prems show ?thesis
      by (simp add: upt_conv_Cons map_Suc_upt [symmetric] comp_def del: upt_Suc)
  qed
qed simp

lemma walk_suffixes_starts:
  assumes "rel_ok win p"
  defines "cs \<equiv> (if p = [] then [] else comps win p)"
  shows "walk_suffixes win False p = Some (map (\<lambda>i. drop i p) (starts 0 cs))"
    and "walk_suffixes win True p = Some (rev (map (\<lambda>i. drop i p) (starts 0 cs)))"
proof -
  have "walk_suffixes win False p = Some (map (\<lambda>i. drop i p) (starts 0 cs)) \<and>
    walk_suffixes win True p = Some (rev (map (\<lambda>i. drop i p) (starts 0 cs)))"
  proof (cases "p = []")
    case True
    then show ?thesis
      by (simp add: walk_suffixes_def createRange_def cs_def psi_incr_def psi_retreat_def)
  next
    case False
    have ne: "\<forall>c \<in> set (comps win p). c \<noteq> []"
      using assms False by (auto simp: rel_ok_def dest: component_ok_not_Nil)
    obtain d ds where ds: "comps win p = d # ds" by (rule split_on_Cons_cases)
    obtain es e where es: "comps win p = es @ [e]" by (cases "comps win p" rule: rev_cases) auto
    have "length (comps win p) = length ds + 1" "length (comps win p) = length es + 1"
      by (simp add: ds, simp add: es)
    with length_comps [of win p] have len: "length ds + 1 < length p + 2" "length es + 1 < length p + 2"
      by simp_all
    have "walk_suffixes win False p = Some (map (\<lambda>i. drop i p) (starts 0 cs))"
      using walk_suffixes_forward [of win 0 p d ds "length p + 2"] ds ne len False
      by (simp add: walk_suffixes_def createRange_def cs_def)
    moreover have "e \<noteq> []" using ne es by simp
    note bl = comps_butlast [OF es this, THEN rfind_comps]
    have "comps win (drop 0 (take (length p) p)) = es @ [e]" by (simp add: es)
    note b = backward_position(2,4,5) [OF this, simplified]
    have "psi_incr win True \<lparr>psi_path = p, psi_start = Some (length p)\<rparr> =
        Inr \<lparr>psi_path = p, psi_start = Some (length p - length e)\<rparr>"
      using bl b \<open>e \<noteq> []\<close> False
      by (cases "es = []"; cases e) (auto simp: psi_incr_def psi_retreat_def butlast_conv_take Suc_diff_Suc)
    with walk_suffixes_backward [of win "length p" p es e "length p + 2"] es len False
    have "walk_suffixes win True p = Some (rev (map (\<lambda>i. drop i p) (starts 0 cs)))"
      by (simp add: walk_suffixes_def createRange_def cs_def)
    ultimately show ?thesis by blast
  qed
  then show "walk_suffixes win False p = Some (map (\<lambda>i. drop i p) (starts 0 cs))"
    and "walk_suffixes win True p = Some (rev (map (\<lambda>i. drop i p) (starts 0 cs)))" by blast+
qed

lemma rel_ok_join: "\<forall>c \<in> set cs. component_ok win c \<Longrightarrow> isDirSeparator win d \<Longrightarrow> rel_ok win (join [d] cs)"
  using join_components(1) [of cs win d] by (cases "cs = []") (auto simp: rel_ok_def)

lemma suffixes_comps:
  assumes "rel_ok win p"
  shows "\<exists>ss. walk_suffixes win False p = Some ss \<and> walk_suffixes win True p = Some (rev ss) \<and>
    (\<forall>s \<in> set ss. s \<noteq> [] \<and> (\<exists>r. p = r @ s)) \<and>
    map (comps win) ss = (let cs = if p = [] then [] else comps win p in map (\<lambda>k. drop k cs) [0..<length cs])"
proof (cases "p = []")
  case True
  with walk_suffixes_starts [OF assms] show ?thesis by simp
next
  case False
  let ?ss = "map (\<lambda>i. drop i p) (starts 0 (comps win p))"
  have eq: "map (comps win) ?ss = map (\<lambda>k. drop k (comps win p)) [0..<length (comps win p)]"
    using starts_comps [of win 0 p "comps win p"] by (simp add: comp_def)
  have "s \<noteq> []" if s: "s \<in> set ?ss" for s
  proof
    assume "s = []"
    with s have "comps win [] \<in> set (map (comps win) ?ss)" by force
    then obtain k where k: "k < length (comps win p)" "drop k (comps win p) = [[]]"
      unfolding eq by auto
    then have "[] \<in> set (comps win p)" by (metis in_set_dropD list.set_intros(1))
    with assms False show False by (auto simp: rel_ok_def)
  qed
  moreover have "\<exists>r. p = r @ s" if "s \<in> set ?ss" for s
    using that by (auto intro: append_take_drop_id [symmetric])
  ultimately show ?thesis using walk_suffixes_starts [OF assms] eq False by (auto simp: Let_def)
qed

section \<open>Properties\<close>

text \<open>
  Iterating \<open>components()\<close> of a valid relative path ends and yields exactly the pieces
  between the separators, in order, the empty path none; \<open>rcomponents()\<close> yields the same
  pieces in reverse.
\<close>

theorem components_relative:
  assumes "RelativePathSanityCheck win p = Inr ()"
  shows "components win False p = Some (if p = [] then [] else split_on (isDirSeparator win) p) \<and>
    rcomponents win False p = Some (rev (if p = [] then [] else split_on (isDirSeparator win) p))"
  using assms by (simp add: RelativePathSanityCheck_rel_ok components_rel rcomponents_rel)

theorem components_relative_witness:
  "components False False ''foo/bar'' = Some [''foo'', ''bar''] \<and>
   rcomponents False False ''foo/bar'' = Some [''bar'', ''foo'']"
proof -
  have "RelativePathSanityCheck False ''foo/bar'' = Inr ()"
    by (simp add: RelativePathSanityCheck_rel_ok rel_ok_def component_ok_def sep_defs utf8_ascii)
  from components_relative [OF this] show ?thesis by (simp add: sep_defs)
qed

text \<open>
  Iterating \<open>components()\<close> of an absolute path made of the root and well-formed
  components yields exactly these components, without the root; \<open>rcomponents()\<close> yields
  them in reverse, and \<open>paths()\<close> yields the root and then one absolute path per
  component, each one component longer than the one before, ending in the path itself;
  \<open>rpaths()\<close> is the reverse of \<open>paths()\<close>.
\<close>

theorem iterate_absolute:
  assumes "list_all (\<lambda>c. PathComponentSanityCheck win c = Inr ()) cs"
  defines "path \<equiv> (\<lambda>ds. kRootStr win @ join [kAbsDirSeparator win] ds)"
  shows "components win True (path cs) = Some cs \<and> rcomponents win True (path cs) = Some (rev cs) \<and>
    abs_paths win (path cs) = Some (map (\<lambda>k. path (take k cs)) [0..<length cs + 1]) \<and>
    abs_rpaths win (path cs) = Some (rev (map (\<lambda>k. path (take k cs)) [0..<length cs + 1]))"
proof -
  have ok: "\<forall>c \<in> set cs. component_ok win c"
    using assms(1) by (simp add: PathComponentSanityCheck_iff list_all_iff)
  have "path = abs_path win" by (auto simp: path_def abs_path_def)
  with components_abs [OF ok] rcomponents_abs [OF ok] abs_paths_eq [OF ok] abs_paths_ends [OF ok]
  show ?thesis by simp
qed

theorem iterate_absolute_witness:
  "components False True ''/foo/bar'' = Some [''foo'', ''bar''] \<and>
   abs_paths False ''/foo/bar'' = Some [''/'', ''/foo'', ''/foo/bar'']"
proof -
  have "list_all (\<lambda>c. PathComponentSanityCheck False c = Inr ()) [''foo'', ''bar'']"
    by (simp add: PathComponentSanityCheck_iff component_ok_def sep_defs utf8_ascii)
  from iterate_absolute [OF this] show ?thesis by (simp add: sep_defs numeral_3_eq_3)
qed

text \<open>
  Iterating \<open>paths()\<close> of a valid relative path ends and yields, for every \<open>k\<close> from
  one to the number of components, the prefix of the path that consists of its first \<open>k\<close>
  components; \<open>allPaths()\<close> yields the empty path before these, and \<open>rpaths()\<close> and
  \<open>rallPaths()\<close> yield the same in reverse.
\<close>

theorem paths_relative:
  assumes "RelativePathSanityCheck win p = Inr ()"
  shows "\<exists>ps. rel_paths win p = Some ps \<and> rel_allPaths win p = Some ([] # ps) \<and>
    rel_rpaths win p = Some (rev ps) \<and> rel_rallPaths win p = Some (rev ps @ [[]]) \<and>
    (\<forall>q \<in> set ps. \<exists>s. p = q @ s) \<and>
    map (split_on (isDirSeparator win)) ps =
      (let cs = if p = [] then [] else split_on (isDirSeparator win) p
       in map (\<lambda>k. take k cs) [1..<length cs + 1])"
proof -
  define cs where "cs = (if p = [] then [] else comps win p)"
  let ?ps = "map (\<lambda>i. take i p) (ends 0 cs)"
  have ok: "rel_ok win p" using assms by (simp add: RelativePathSanityCheck_rel_ok)
  have "\<forall>q \<in> set ?ps. \<exists>s. p = q @ s" by (auto intro: append_take_drop_id [symmetric])
  moreover have "map (comps win) ?ps = map (\<lambda>k. take k cs) [1..<length cs + 1]"
    using ends_comps [of win 0 p "comps win p"]
    by (simp add: cs_def comp_def map_Suc_upt [symmetric] del: upt_Suc)
  ultimately show ?thesis
    using rel_paths_ends [OF ok, folded cs_def]
    by (intro exI [of _ ?ps]) (simp add: Let_def cs_def del: upt_Suc)
qed

theorem paths_relative_witness:
  "\<exists>ps. rel_paths False ''foo/bar'' = Some ps \<and> rel_rallPaths False ''foo/bar'' = Some (rev ps @ [[]]) \<and>
    map (split_on (isDirSeparator False)) ps = [[''foo''], [''foo'', ''bar'']]"
proof -
  have "RelativePathSanityCheck False ''foo/bar'' = Inr ()"
    by (simp add: RelativePathSanityCheck_rel_ok rel_ok_def component_ok_def sep_defs utf8_ascii)
  from paths_relative [OF this] show ?thesis by (auto simp: sep_defs upt_rec numeral_2_eq_2)
qed

text \<open>
  Iterating \<open>suffixes()\<close> of a valid relative path, or of an absolute path whose part
  below the root is that relative path, ends and yields the path without its first \<open>k\<close>
  components, for every \<open>k\<close> below the number of components, every one a non-empty suffix
  of the path; \<open>rsuffixes()\<close> yields the same in reverse.
\<close>

theorem suffixes_relative:
  assumes "RelativePathSanityCheck win p = Inr ()"
  shows "\<exists>ss. rel_suffixes win p = Some ss \<and> rel_rsuffixes win p = Some (rev ss) \<and>
    abs_suffixes win (kRootStr win @ p) = Some ss \<and> abs_rsuffixes win (kRootStr win @ p) = Some (rev ss) \<and>
    (\<forall>s \<in> set ss. s \<noteq> [] \<and> (\<exists>r. p = r @ s)) \<and>
    map (split_on (isDirSeparator win)) ss =
      (let cs = if p = [] then [] else split_on (isDirSeparator win) p
       in map (\<lambda>k. drop k cs) [0..<length cs])"
proof -
  have "rel_ok win p" using assms by (simp add: RelativePathSanityCheck_rel_ok)
  from suffixes_comps [OF this] show ?thesis
    unfolding rel_suffixes_def rel_rsuffixes_def abs_suffixes_def abs_rsuffixes_def
    by (auto intro: exI)
qed

theorem suffixes_relative_witness:
  "\<exists>ss. rel_suffixes False ''foo/bar'' = Some ss \<and> abs_rsuffixes False ''/foo/bar'' = Some (rev ss) \<and>
    map (split_on (isDirSeparator False)) ss = [[''foo'', ''bar''], [''bar'']]"
proof -
  have "RelativePathSanityCheck False ''foo/bar'' = Inr ()"
    by (simp add: RelativePathSanityCheck_rel_ok rel_ok_def component_ok_def sep_defs utf8_ascii)
  from suffixes_relative [OF this] show ?thesis by (auto simp: sep_defs upt_rec)
qed

end
