(* ===== verification/Std_Algorithms.thy ===== *)
theory Std_Algorithms
  imports Eden_Prelude "HOL-Library.Multiset"
begin

text \<open>
  The algorithms of the C++ standard library that the path map relies on, each in the
  shape its specification gives it: \<open>std::lexicographical_compare\<close>, \<open>std::lower_bound\<close>
  (the halving loop over a random access range), \<open>std::stable_sort\<close>, \<open>std::unique\<close> and
  \<open>std::inplace_merge\<close>.

  The locale \<open>strict_weak_order\<close> is the contract the standard puts on a comparator; the
  facts about the algorithms are proved once inside it and reach the path map through the
  interpretations for the path comparators.
\<close>

section \<open>Algorithms\<close>

fun lexicographical_compare :: "('a \<Rightarrow> 'a \<Rightarrow> bool) \<Rightarrow> 'a list \<Rightarrow> 'a list \<Rightarrow> bool" where
  "lexicographical_compare lt xs [] = False"
| "lexicographical_compare lt [] (y # ys) = True"
| "lexicographical_compare lt (x # xs) (y # ys) =
     (lt x y \<or> (\<not> lt y x \<and> lexicographical_compare lt xs ys))"

text \<open>
  \<open>lower_bound before xs first len\<close> searches the \<open>len\<close> elements from index \<open>first\<close>
  on; \<open>before\<close> tells whether an element is ordered before the key.
\<close>

function lower_bound :: "('a \<Rightarrow> bool) \<Rightarrow> 'a list \<Rightarrow> nat \<Rightarrow> nat \<Rightarrow> nat" where
  "lower_bound before xs first len =
     (if len = 0 then first
      else let step = len div 2 in
        if before (xs ! (first + step)) then lower_bound before xs (first + step + 1) (len - (step + 1))
        else lower_bound before xs first step)"
  by pat_completeness auto
termination by (relation "measure (\<lambda>(before, xs, first, len). len)") auto

declare lower_bound.simps [simp del]

fun insert_stable :: "('a \<Rightarrow> 'a \<Rightarrow> bool) \<Rightarrow> 'a \<Rightarrow> 'a list \<Rightarrow> 'a list" where
  "insert_stable lt x [] = [x]"
| "insert_stable lt x (y # ys) =
     (if lt y x then y # insert_stable lt x ys else x # y # ys)"

definition stable_sort :: "('a \<Rightarrow> 'a \<Rightarrow> bool) \<Rightarrow> 'a list \<Rightarrow> 'a list" where
  "stable_sort lt xs = foldr (insert_stable lt) xs []"

fun std_unique :: "('a \<Rightarrow> 'a \<Rightarrow> bool) \<Rightarrow> 'a list \<Rightarrow> 'a list" where
  "std_unique eq [] = []"
| "std_unique eq [x] = [x]"
| "std_unique eq (x # y # ys) =
     (if eq x y then std_unique eq (x # ys) else x # std_unique eq (y # ys))"

fun std_merge :: "('a \<Rightarrow> 'a \<Rightarrow> bool) \<Rightarrow> 'a list \<Rightarrow> 'a list \<Rightarrow> 'a list" where
  "std_merge lt [] ys = ys"
| "std_merge lt xs [] = xs"
| "std_merge lt (x # xs) (y # ys) =
     (if lt y x then y # std_merge lt (x # xs) ys else x # std_merge lt xs (y # ys))"

section \<open>Searching a partitioned range\<close>

text \<open>On a range whose first \<open>k\<close> elements are exactly those before the key, the search finds \<open>k\<close>.\<close>

lemma lower_bound_partition:
  assumes "\<And>i. first \<le> i \<Longrightarrow> i < first + len \<Longrightarrow> before (xs ! i) \<longleftrightarrow> i < k"
    and "first \<le> k" and "k \<le> first + len"
  shows "lower_bound before xs first len = k"
  using assms
proof (induction before xs first len rule: lower_bound.induct)
  case (1 before xs first len)
  define step where "step = len div 2"
  show ?case
  proof (cases "len = 0")
    case True
    with 1 show ?thesis by (simp add: lower_bound.simps [of _ _ _ 0])
  next
    case False
    then have step: "step < len" by (simp add: step_def)
    show ?thesis
    proof (cases "before (xs ! (first + step))")
      case True
      with 1(3) [of "first + step"] step have "first + step < k" by simp
      with 1(1) [OF False step_def True] 1(3-5) step True False show ?thesis
        by (simp add: lower_bound.simps [of before xs first len] step_def [symmetric])
    next
      case nb: False
      with 1(3) [of "first + step"] step have "k \<le> first + step" by simp
      with 1(2) [OF False step_def nb] 1(3-5) step nb False show ?thesis
        by (simp add: lower_bound.simps [of before xs first len] step_def [symmetric])
    qed
  qed
qed

lemma lower_bound_bounds: "first \<le> lower_bound before xs first len \<and> lower_bound before xs first len \<le> first + len"
proof (induction before xs first len rule: lower_bound.induct)
  case (1 before xs first len)
  then show ?case
    by (subst (1 2) lower_bound.simps) (auto simp: Let_def split: if_splits)
qed

lemma nth_partition:
  "sorted_wrt (\<lambda>x y. before y \<longrightarrow> before x) xs \<Longrightarrow> i < length xs \<Longrightarrow>
    before (xs ! i) \<longleftrightarrow> i < length (takeWhile before xs)"
proof (induction xs arbitrary: i)
  case (Cons x xs)
  then show ?case by (cases i) auto
qed simp

lemma lower_bound_takeWhile:
  assumes "sorted_wrt (\<lambda>x y. before y \<longrightarrow> before x) xs"
  shows "lower_bound before xs 0 (length xs) = length (takeWhile before xs)"
  using nth_partition [OF assms] length_takeWhile_le [of before xs]
  by (intro lower_bound_partition) auto

text \<open>The search of a part of a vector only looks at that part.\<close>

lemma lower_bound_part:
  assumes "length ps = first" and "len = length xs"
  shows "lower_bound before (ps @ xs @ qs) first len = first + lower_bound before xs 0 len"
proof -
  have "lower_bound before (ps @ xs @ qs) (length ps + i) n = length ps + lower_bound before xs i n"
    if "i + n \<le> length xs" for i n
    using that
  proof (induction before xs i n rule: lower_bound.induct)
    case (1 before xs i n)
    have nth: "(ps @ xs @ qs) ! (length ps + i + n div 2) = xs ! (i + n div 2)" if "n \<noteq> 0"
    proof -
      have "i + n div 2 < length xs" using 1(3) that div_less_dividend [of 2 n] by linarith
      then show ?thesis by (simp add: nth_append add.assoc)
    qed
    show ?case
      using 1 nth
      by (subst (1 2) lower_bound.simps) (auto simp: Let_def add.assoc)
  qed
  from this [of 0 "length xs"] assms show ?thesis by simp
qed

section \<open>Comparators\<close>

locale strict_weak_order =
  fixes lt :: "'a \<Rightarrow> 'a \<Rightarrow> bool"
  assumes asym: "lt x y \<Longrightarrow> \<not> lt y x"
    and cotrans: "lt x z \<Longrightarrow> lt x y \<or> lt y z"
begin

lemma irrefl: "\<not> lt x x"
  using asym by blast

lemma trans: "lt x y \<Longrightarrow> lt y z \<Longrightarrow> lt x z"
  using asym cotrans by blast

lemma eqv_less:
  assumes "\<not> lt x y" and "\<not> lt y x"
  shows "lt x z \<longleftrightarrow> lt y z" and "lt z x \<longleftrightarrow> lt z y"
  using assms cotrans by blast+

lemma not_less_trans: "\<not> lt y x \<Longrightarrow> \<not> lt z y \<Longrightarrow> \<not> lt z x"
  using cotrans by blast

lemma sorted_partition: "sorted_wrt (\<lambda>x y. \<not> lt y x) xs \<Longrightarrow> sorted_wrt (\<lambda>x y. lt y k \<longrightarrow> lt x k) xs"
  by (erule sorted_wrt_mono_rel [rotated]) (metis cotrans)

lemma sorted_strict: "sorted_wrt lt xs \<Longrightarrow> sorted_wrt (\<lambda>x y. \<not> lt y x) xs"
  by (erule sorted_wrt_mono_rel [rotated]) (rule asym)

lemma insert_stable_set: "set (insert_stable lt x xs) = insert x (set xs)"
  by (induction xs) auto

lemma insert_stable_mset: "mset (insert_stable lt x xs) = add_mset x (mset xs)"
  by (induction xs) auto

lemma insert_stable_sorted:
  "sorted_wrt (\<lambda>x y. \<not> lt y x) xs \<Longrightarrow> sorted_wrt (\<lambda>x y. \<not> lt y x) (insert_stable lt x xs)"
proof (induction xs)
  case (Cons y ys)
  show ?case
  proof (cases "lt y x")
    case True
    with Cons asym [OF True] show ?thesis by (auto simp: insert_stable_set)
  next
    case False
    with Cons show ?thesis by (auto dest: not_less_trans)
  qed
qed simp

lemma stable_sort_sorted: "sorted_wrt (\<lambda>x y. \<not> lt y x) (stable_sort lt xs)"
  unfolding stable_sort_def by (induction xs) (simp_all add: insert_stable_sorted)

lemma stable_sort_mset: "mset (stable_sort lt xs) = mset xs"
  unfolding stable_sort_def by (induction xs) (simp_all add: insert_stable_mset)

text \<open>Stability: the elements equivalent to a given one keep their order.\<close>

lemma insert_stable_filter:
  assumes "sorted_wrt (\<lambda>x y. \<not> lt y x) xs"
  shows "filter (\<lambda>y. \<not> lt y k \<and> \<not> lt k y) (insert_stable lt x xs) =
    (if \<not> lt x k \<and> \<not> lt k x then [x] else []) @ filter (\<lambda>y. \<not> lt y k \<and> \<not> lt k y) xs"
  using assms
proof (induction xs)
  case (Cons y ys)
  have "lt y x \<Longrightarrow> \<not> lt x k \<Longrightarrow> \<not> lt k x \<Longrightarrow> lt y k" using eqv_less(2) [of x k y] by blast
  with Cons show ?case by auto
qed simp

lemma stable_sort_filter:
  "filter (\<lambda>y. \<not> lt y k \<and> \<not> lt k y) (stable_sort lt xs) = filter (\<lambda>y. \<not> lt y k \<and> \<not> lt k y) xs"
proof (induction xs)
  case (Cons x xs)
  have "stable_sort lt (x # xs) = insert_stable lt x (stable_sort lt xs)"
    by (simp add: stable_sort_def)
  with Cons show ?case by (simp add: insert_stable_filter [OF stable_sort_sorted])
qed (simp add: stable_sort_def)

text \<open>Removing the neighbours that are equivalent to their predecessor.\<close>

lemma std_unique_subset: "set (std_unique eq xs) \<subseteq> set xs"
  by (induction eq xs rule: std_unique.induct) auto

lemma std_unique_sorted:
  assumes "eq = (\<lambda>x y. \<not> lt x y \<and> \<not> lt y x)" and "sorted_wrt (\<lambda>x y. \<not> lt y x) xs"
  shows "sorted_wrt lt (std_unique eq xs)"
  using assms
proof (induction eq xs rule: std_unique.induct)
  case (3 eq x y ys)
  show ?case
  proof (cases "eq x y")
    case True
    with 3 show ?thesis by simp
  next
    case False
    with 3 have xy: "lt x y" by auto
    have "lt x z" if "z \<in> set (y # ys)" for z
      using that 3(4) xy by (auto dest: not_less_trans cotrans)
    with std_unique_subset [of eq "y # ys"] 3 False show ?thesis by auto
  qed
qed simp_all

lemma std_unique_find:
  assumes "eq = (\<lambda>x y. \<not> lt x y \<and> \<not> lt y x)"
  shows "find (\<lambda>y. \<not> lt y k \<and> \<not> lt k y) (std_unique eq xs) =
    find (\<lambda>y. \<not> lt y k \<and> \<not> lt k y) xs"
  using assms
proof (induction eq xs rule: std_unique.induct)
  case (3 eq x y ys)
  show ?case
  proof (cases "eq x y")
    case True
    with 3 have "(\<not> lt x k \<and> \<not> lt k x) = (\<not> lt y k \<and> \<not> lt k y)"
      using eqv_less [of x y k] by auto
    with True 3 show ?thesis by simp
  next
    case False
    then show ?thesis using 3(2) [OF False 3(3)] by simp
  qed
qed simp_all

lemma std_merge_mset: "mset (std_merge lt xs ys) = mset xs + mset ys"
  by (induction lt xs ys rule: std_merge.induct) auto

lemma std_merge_set: "set (std_merge lt xs ys) = set xs \<union> set ys"
  using std_merge_mset [of xs ys] by (metis set_mset_mset set_mset_union)

lemma std_merge_sorted:
  assumes "sorted_wrt lt xs" and "sorted_wrt lt ys"
    and "\<And>x y. x \<in> set xs \<Longrightarrow> y \<in> set ys \<Longrightarrow> lt x y \<or> lt y x"
  shows "sorted_wrt lt (std_merge lt xs ys)"
  using assms
proof (induction xs arbitrary: ys)
  case (Cons x xs)
  note outer_IH = Cons.IH
  show ?case
    using Cons.prems
  proof (induction ys)
    case (Cons y ys)
    show ?case
    proof (cases "lt y x")
      case True
      with Cons have "lt y z" if "z \<in> set (x # xs) \<union> set ys" for z
        using that by (auto intro: trans)
      with True Cons show ?thesis by (auto simp: std_merge_set)
    next
      case False
      with Cons.prems have "lt x y" by auto
      with Cons.prems have "lt x z" if "z \<in> set xs \<union> set (y # ys)" for z
        using that by (auto intro: trans)
      with False Cons.prems outer_IH [of "y # ys"] show ?thesis by (auto simp: std_merge_set)
    qed
  qed simp
qed simp

end

lemma lexicographical_compare_Nil: "lexicographical_compare lt [] ys \<longleftrightarrow> ys \<noteq> []"
  by (cases ys) auto

text \<open>Comparing sequences with a strict weak order is a strict weak order again.\<close>

lemma lexicographical_compare_strict_weak_order:
  assumes "strict_weak_order lt"
  shows "strict_weak_order (lexicographical_compare lt)"
proof
  note order = strict_weak_order.asym [OF assms] strict_weak_order.cotrans [OF assms]
  show "\<not> lexicographical_compare lt ys xs" if "lexicographical_compare lt xs ys" for xs ys
    using that
  proof (induction xs arbitrary: ys)
    case (Cons x xs)
    then show ?case by (cases ys) (auto dest: order(1))
  qed (auto simp: lexicographical_compare_Nil)
  show "lexicographical_compare lt xs ys \<or> lexicographical_compare lt ys zs"
    if "lexicographical_compare lt xs zs" for xs ys zs
    using that
  proof (induction xs arbitrary: ys zs)
    case Nil
    then show ?case by (cases ys) (auto simp: lexicographical_compare_Nil)
  next
    case (Cons x xs)
    obtain z zs' where z: "zs = z # zs'" using Cons.prems by (cases zs) auto
    show ?case
    proof (cases ys)
      case Nil
      then show ?thesis by (simp add: z)
    next
      case y: (Cons y ys')
      have tails: "lexicographical_compare lt xs ys' \<or> lexicographical_compare lt ys' zs'" if "\<not> lt x z"
        using Cons z that by auto
      have "lt y x \<Longrightarrow> lt y z \<or> lt z x" "lt z y \<Longrightarrow> lt z x \<or> lt x y" "lt x z \<Longrightarrow> lt x y \<or> lt y z"
        by (rule order(2); assumption)+
      with tails Cons.prems show ?thesis unfolding y z lexicographical_compare.simps
        using order(1) by blast
    qed
  qed
qed

lemma strict_weak_order_map:
  "strict_weak_order lt \<Longrightarrow> strict_weak_order (\<lambda>x y. lt (f x) (f y))"
  by (simp add: strict_weak_order_def)

lemma lexicographical_compare_eqv:
  "(\<not> lexicographical_compare lt xs ys \<and> \<not> lexicographical_compare lt ys xs) =
    list_all2 (\<lambda>x y. \<not> lt x y \<and> \<not> lt y x) xs ys"
  by (induction lt xs ys rule: lexicographical_compare.induct) (auto simp: lexicographical_compare_Nil)

section \<open>Sorted association vectors\<close>

text \<open>
  The entry of an association vector whose key is equivalent to \<open>k\<close>, and the order a
  vector that represents a map is kept in.
\<close>

definition entry_at :: "('k \<Rightarrow> 'k \<Rightarrow> bool) \<Rightarrow> ('k \<times> 'v) list \<Rightarrow> 'k \<Rightarrow> ('k \<times> 'v) option" where
  "entry_at lt es k = find (\<lambda>e. \<not> lt (fst e) k \<and> \<not> lt k (fst e)) es"

definition keys_sorted :: "('k \<Rightarrow> 'k \<Rightarrow> bool) \<Rightarrow> ('k \<times> 'v) list \<Rightarrow> bool" where
  "keys_sorted lt es = sorted_wrt lt (map fst es)"

context strict_weak_order
begin

lemma entry_at_SomeD:
  "entry_at lt es k = Some e \<Longrightarrow> e \<in> set es \<and> \<not> lt (fst e) k \<and> \<not> lt k (fst e)"
  by (auto simp: entry_at_def find_Some_iff)

lemma entry_at_None:
  "entry_at lt es k = None \<longleftrightarrow> (\<forall>e \<in> set es. lt (fst e) k \<or> lt k (fst e))"
  by (auto simp: entry_at_def find_None_iff)

lemma keys_sorted_unique:
  assumes "keys_sorted lt es" and "e \<in> set es" and "e' \<in> set es"
    and "\<not> lt (fst e) (fst e')" and "\<not> lt (fst e') (fst e)"
  shows "e = e'"
  using assms by (induction es) (auto simp: keys_sorted_def)

lemma entry_at_Some:
  assumes "keys_sorted lt es"
  shows "entry_at lt es k = Some e \<longleftrightarrow> e \<in> set es \<and> \<not> lt (fst e) k \<and> \<not> lt k (fst e)"
proof
  assume e: "e \<in> set es \<and> \<not> lt (fst e) k \<and> \<not> lt k (fst e)"
  then obtain e' where e': "entry_at lt es k = Some e'"
    using entry_at_None [of es k] by (cases "entry_at lt es k") auto
  note d = entry_at_SomeD [OF e']
  have "\<not> lt (fst e) (fst e')" "\<not> lt (fst e') (fst e)"
    using e d cotrans by blast+
  with keys_sorted_unique [OF assms] e d e' show "entry_at lt es k = Some e" by blast
qed (rule entry_at_SomeD)

lemma entry_at_cong: "\<not> lt k k' \<Longrightarrow> \<not> lt k' k \<Longrightarrow> entry_at lt es k = entry_at lt es k'"
  unfolding entry_at_def using eqv_less by metis

text \<open>Two sorted vectors with the same entries are the same vector.\<close>

lemma keys_sorted_eq:
  "keys_sorted lt xs \<Longrightarrow> keys_sorted lt ys \<Longrightarrow> set xs = set ys \<Longrightarrow> xs = ys"
proof (induction xs arbitrary: ys)
  case (Cons x xs)
  obtain y ys' where ys: "ys = y # ys'" using Cons.prems(3) by (cases ys) auto
  have "x = y"
  proof (rule ccontr)
    assume "x \<noteq> y"
    with Cons.prems ys have "lt (fst x) (fst y)" "lt (fst y) (fst x)"
      by (auto simp: keys_sorted_def)
    then show False using asym by blast
  qed
  moreover have "x \<notin> set xs" "y \<notin> set ys'"
    using Cons.prems ys irrefl by (auto simp: keys_sorted_def)
  moreover have "set xs = set ys'" using calculation Cons.prems(3) ys by (simp add: insert_ident)
  ultimately show ?case using Cons ys by (auto simp: keys_sorted_def)
qed simp

lemma entry_at_ext:
  assumes "keys_sorted lt xs" and "keys_sorted lt ys" and "entry_at lt xs = entry_at lt ys"
  shows "xs = ys"
proof (rule keys_sorted_eq [OF assms(1,2)])
  have "e \<in> set xs \<longleftrightarrow> e \<in> set ys" for e
    using entry_at_Some [OF assms(1), of "fst e" e] entry_at_Some [OF assms(2), of "fst e" e] assms(3) irrefl
    by simp
  then show "set xs = set ys" by blast
qed

text \<open>Where the search stops, and what it has found.\<close>

lemma lower_bound_keys:
  assumes "keys_sorted lt es"
  shows "lower_bound (\<lambda>e. lt (fst e) k) es 0 (length es) = length (takeWhile (\<lambda>e. lt (fst e) k) es)"
proof (rule lower_bound_takeWhile)
  show "sorted_wrt (\<lambda>x y. lt (fst y) k \<longrightarrow> lt (fst x) k) es"
    using sorted_partition [OF sorted_strict, of "map fst es" k] assms
    by (simp add: keys_sorted_def sorted_wrt_map)
qed

lemma entry_at_lower_bound:
  fixes k :: 'a and es :: "('a \<times> 'v) list"
  assumes "keys_sorted lt es"
  defines "i \<equiv> lower_bound (\<lambda>e. lt (fst e) k) es 0 (length es)"
  shows "entry_at lt es k = (if i < length es \<and> \<not> lt k (fst (es ! i)) then Some (es ! i) else None)"
proof -
  define i' where "i' = length (takeWhile (\<lambda>e. lt (fst e) k) es)"
  have "entry_at lt es k = (if i' < length es \<and> \<not> lt k (fst (es ! i')) then Some (es ! i') else None)"
    unfolding i'_def using assms(1)
  proof (induction es)
    case (Cons e es)
    show ?case
    proof (cases "lt (fst e) k")
      case True
      with Cons show ?thesis by (simp add: entry_at_def keys_sorted_def)
    next
      case False
      have "entry_at lt es k = None" if "lt k (fst e)"
        using Cons.prems that by (auto simp: entry_at_None keys_sorted_def intro: trans)
      with False show ?thesis by (auto simp: entry_at_def)
    qed
  qed (simp add: entry_at_def)
  then show ?thesis by (simp add: i_def i'_def lower_bound_keys [OF assms(1)])
qed

lemma keys_sorted_insert:
  fixes e :: "'a \<times> 'v" and es :: "('a \<times> 'v) list"
  assumes "keys_sorted lt es" and "entry_at lt es (fst e) = None"
  defines "i \<equiv> lower_bound (\<lambda>d. lt (fst d) (fst e)) es 0 (length es)"
  shows "keys_sorted lt (take i es @ e # drop i es)"
proof -
  let ?b = "\<lambda>d. lt (fst d) (fst e)"
  have i: "take i es = takeWhile ?b es" "drop i es = dropWhile ?b es"
    unfolding i_def lower_bound_keys [OF assms(1)]
    by (simp_all add: takeWhile_eq_take [symmetric] dropWhile_eq_drop [symmetric])
  have "keys_sorted lt (takeWhile ?b es @ e # dropWhile ?b es)"
    using assms(1,2)
  proof (induction es)
    case (Cons d es)
    show ?case
    proof (cases "?b d")
      case True
      have "set (takeWhile ?b es) \<union> set (dropWhile ?b es) = set es"
        by (metis set_append takeWhile_dropWhile_id)
      with True Cons show ?thesis by (auto simp: keys_sorted_def entry_at_def)
    next
      case False
      with Cons.prems have "lt (fst e) (fst d)" by (auto simp: entry_at_None)
      with False Cons.prems show ?thesis by (auto simp: keys_sorted_def intro: trans)
    qed
  qed (simp add: keys_sorted_def)
  then show ?thesis by (simp add: i)
qed

lemma keys_sorted_remove:
  assumes "keys_sorted lt es"
  shows "keys_sorted lt (take i es @ drop (Suc i) es)"
proof -
  have "sorted_wrt lt (map fst (take i es) @ map fst (drop i es))"
    using assms by (simp only: keys_sorted_def append_take_drop_id flip: map_append)
  moreover have "set (drop (Suc i) es) \<subseteq> set (drop i es)" by (rule set_drop_subset_set_drop) simp
  moreover have "sorted_wrt lt (drop 1 (map fst (drop i es)))"
    using calculation(1) by (intro sorted_wrt_drop) (simp add: sorted_wrt_append)
  ultimately show ?thesis
    by (auto simp: keys_sorted_def sorted_wrt_append drop_map)
qed

end

end
