(* ===== verification/Path_Compare.thy ===== *)
theory Path_Compare
  imports Path_Iterators Std_Algorithms
begin

text \<open>
  The comparison of paths: \<open>CaseSensitivity\<close>, \<open>AsciiLessThanCaseInsensitive\<close>, and
  \<open>isPathPieceLess\<close>, \<open>isPathPieceEqual\<close> and \<open>comparePathPiece\<close> of
  \<open>PathOperators\<close>.  The template argument \<open>IsComposed\<close> selects between the
  \<open>_component\<close> definitions (for \<open>PathComponent\<close>) and the \<open>_composed\<close> ones (for
  \<open>RelativePath\<close> and \<open>AbsolutePath\<close>), which compare component by component on
  Windows.  These iterate over components and so return an option, \<open>None\<close> standing for
  an iteration that does not end; on valid paths it is never \<open>None\<close>.

  Whether \<open>char\<close> is signed depends on the compiler and is the argument \<open>csg\<close>.
  \<open>folly::AsciiCaseInsensitive\<close> is not part of the repository and is the argument
  \<open>aci\<close>; the code relies on it to identify the characters that differ at most in the
  case of an ASCII letter, the law \<open>ascii_case_insensitive\<close>.

  The comparators are interpretations of \<open>strict_weak_order\<close>, for every combination of
  case sensitivity and signedness of \<open>char\<close>.
\<close>

section \<open>Definitions\<close>

datatype CaseSensitivity = Insensitive | Sensitive

definition kPathMapDefaultCaseSensitive :: "bool \<Rightarrow> CaseSensitivity" where
  "kPathMapDefaultCaseSensitive isLinux = (if isLinux then Sensitive else Insensitive)"

datatype CompareResult = EQUAL | BEFORE | AFTER

text \<open>The numeric value of a \<open>char\<close>.\<close>

definition char_value :: "bool \<Rightarrow> char \<Rightarrow> int" where
  "char_value csg c = (if csg \<and> (of_char c :: int) \<ge> 128 then of_char c - 256 else of_char c)"

definition toLower :: "bool \<Rightarrow> char \<Rightarrow> char" where
  "toLower csg c =
     (if char_value csg c \<ge> char_value csg CHR ''A'' \<and> char_value csg c \<le> char_value csg CHR ''Z''
      then char_of ((of_char c :: int) + (char_value csg CHR ''a'' - char_value csg CHR ''A'')) else c)"

definition AsciiLessThanCaseInsensitive :: "bool \<Rightarrow> char \<Rightarrow> char \<Rightarrow> bool" where
  "AsciiLessThanCaseInsensitive csg lhs rhs = (char_value csg (toLower csg lhs) < char_value csg (toLower csg rhs))"

text \<open>\<open>operator<\<close> of \<open>std::string_view\<close> compares bytes as unsigned numbers.\<close>

definition string_view_less :: "string \<Rightarrow> string \<Rightarrow> bool" where
  "string_view_less = lexicographical_compare (\<lambda>a b. (of_char a :: int) < of_char b)"

definition isPathPieceLess_component :: "bool \<Rightarrow> CaseSensitivity \<Rightarrow> string \<Rightarrow> string \<Rightarrow> bool" where
  "isPathPieceLess_component csg caseSensitive left right =
     (if caseSensitive = Sensitive then string_view_less left right
      else lexicographical_compare (AsciiLessThanCaseInsensitive csg) left right)"

definition isPathPieceEqual_component ::
  "(char \<Rightarrow> char \<Rightarrow> bool) \<Rightarrow> CaseSensitivity \<Rightarrow> string \<Rightarrow> string \<Rightarrow> bool" where
  "isPathPieceEqual_component aci caseSensitive left right =
     (if caseSensitive = Sensitive then left = right else list_all2 aci left right)"

definition isPathPieceLess_composed ::
  "bool \<Rightarrow> bool \<Rightarrow> bool \<Rightarrow> CaseSensitivity \<Rightarrow> string \<Rightarrow> string \<Rightarrow> bool option" where
  "isPathPieceLess_composed win csg isAbs caseSensitive left right =
     (if win then
        (case (components win isAbs left, components win isAbs right) of
           (Some leftComponents, Some rightComponents) \<Rightarrow>
             Some (lexicographical_compare (isPathPieceLess_component csg caseSensitive)
                     leftComponents rightComponents)
         | _ \<Rightarrow> None)
      else Some (isPathPieceLess_component csg caseSensitive left right))"

definition isPathPieceEqual_composed ::
  "bool \<Rightarrow> (char \<Rightarrow> char \<Rightarrow> bool) \<Rightarrow> bool \<Rightarrow> CaseSensitivity \<Rightarrow> string \<Rightarrow> string \<Rightarrow> bool option" where
  "isPathPieceEqual_composed win aci isAbs caseSensitive left right =
     (if win then
        (case (components win isAbs left, components win isAbs right) of
           (Some leftComponents, Some rightComponents) \<Rightarrow>
             Some (list_all2 (isPathPieceEqual_component aci caseSensitive)
                     leftComponents rightComponents)
         | _ \<Rightarrow> None)
      else Some (isPathPieceEqual_component aci caseSensitive left right))"

definition comparePathPiece_component ::
  "(char \<Rightarrow> char \<Rightarrow> bool) \<Rightarrow> bool \<Rightarrow> CaseSensitivity \<Rightarrow> string \<Rightarrow> string \<Rightarrow> CompareResult" where
  "comparePathPiece_component aci csg caseSensitive left right =
     (if isPathPieceEqual_component aci caseSensitive left right then EQUAL
      else if isPathPieceLess_component csg caseSensitive left right then BEFORE
      else AFTER)"

definition comparePathPiece_composed ::
  "bool \<Rightarrow> (char \<Rightarrow> char \<Rightarrow> bool) \<Rightarrow> bool \<Rightarrow> bool \<Rightarrow> CaseSensitivity \<Rightarrow> string \<Rightarrow> string \<Rightarrow> CompareResult option" where
  "comparePathPiece_composed win aci csg isAbs caseSensitive left right =
     (case isPathPieceEqual_composed win aci isAbs caseSensitive left right of
        None \<Rightarrow> None
      | Some True \<Rightarrow> Some EQUAL
      | Some False \<Rightarrow>
          (case isPathPieceLess_composed win csg isAbs caseSensitive left right of
             None \<Rightarrow> None
           | Some True \<Rightarrow> Some BEFORE
           | Some False \<Rightarrow> Some AFTER))"

text \<open>
  \<open>operator<\<close> and \<open>operator==\<close> of two paths are case sensitive, so that the
  comparison of characters up to case is not consulted.
\<close>

definition path_less :: "bool \<Rightarrow> bool \<Rightarrow> bool \<Rightarrow> string \<Rightarrow> string \<Rightarrow> bool option" where
  "path_less win csg isAbs a b = isPathPieceLess_composed win csg isAbs Sensitive a b"

definition path_equal :: "bool \<Rightarrow> bool \<Rightarrow> string \<Rightarrow> string \<Rightarrow> bool option" where
  "path_equal win isAbs a b = isPathPieceEqual_composed win (=) isAbs Sensitive a b"

text \<open>What the code relies on of \<open>folly::AsciiCaseInsensitive\<close>.\<close>

definition ascii_lower :: "char \<Rightarrow> char" where
  "ascii_lower c = (if of_char c \<in> {65..90 :: nat} then char_of (of_char c + 32 :: nat) else c)"

definition ascii_case_insensitive :: "(char \<Rightarrow> char \<Rightarrow> bool) \<Rightarrow> bool" where
  "ascii_case_insensitive aci = (\<forall>x y. aci x y \<longleftrightarrow> ascii_lower x = ascii_lower y)"

section \<open>Characters\<close>

lemma of_char_int: "(of_char c :: int) = int (of_char c)"
  by (simp add: of_nat_of_char)

lemma of_char_bounds: "(of_char c :: int) \<ge> 0" "(of_char c :: int) < 256"
  using nat_of_char_less_256 [of c] by (simp_all add: of_char_int)

lemma char_value_inj: "char_value csg a = char_value csg b \<longleftrightarrow> a = b"
  using of_char_bounds [of a] of_char_bounds [of b] of_char_eq_iff [where ?'a = int, of a b]
  by (auto simp: char_value_def split: if_splits)

lemma char_value_letters [simp]:
  "char_value csg CHR ''A'' = 65" "char_value csg CHR ''Z'' = 90" "char_value csg CHR ''a'' = 97"
  by (simp_all add: char_value_def)

lemma toLower_ascii: "toLower csg c = ascii_lower c"
proof -
  define n :: nat where "n = of_char c"
  have "n < 256" "char_value csg c = (if csg \<and> n \<ge> 128 then int n - 256 else int n)"
    by (simp_all add: n_def char_value_def of_char_int)
  then have "char_value csg c \<ge> 65 \<and> char_value csg c \<le> 90 \<longleftrightarrow> of_char c \<in> {65..90 :: nat}"
    unfolding n_def [symmetric] by (cases csg) auto
  moreover have "char_of ((of_char c :: int) + 32) = char_of (of_char c + 32 :: nat)"
  proof (rule of_char_eqI [where ?'a = int])
    have "(of_char (char_of (of_char c + 32 :: nat)) :: int) = int ((of_char c + 32) mod 256)"
      by (subst of_char_int) (simp only: of_char_of)
    then show "(of_char (char_of ((of_char c :: int) + 32)) :: int) = of_char (char_of (of_char c + 32 :: nat))"
      by (simp add: of_char_of zmod_int of_nat_of_char)
  qed
  ultimately show ?thesis by (simp add: toLower_def ascii_lower_def)
qed

section \<open>The comparators are strict weak orders\<close>

lemma component_less_eq:
  "isPathPieceLess_component csg caseSensitive =
    (if caseSensitive = Sensitive then lexicographical_compare (\<lambda>a b. (of_char a :: int) < of_char b)
     else lexicographical_compare (AsciiLessThanCaseInsensitive csg))"
  by (auto simp: isPathPieceLess_component_def string_view_less_def fun_eq_iff)

interpretation piece_order: strict_weak_order "isPathPieceLess_component csg caseSensitive"
  for csg :: bool and caseSensitive :: CaseSensitivity
proof -
  have "strict_weak_order (\<lambda>a b. (of_char a :: int) < of_char b)"
    "strict_weak_order (AsciiLessThanCaseInsensitive csg)"
    by (unfold_locales; force simp: AsciiLessThanCaseInsensitive_def)+
  then show "strict_weak_order (isPathPieceLess_component csg caseSensitive)"
    by (simp add: component_less_eq lexicographical_compare_strict_weak_order)
qed

text \<open>The order and the equality of pieces agree.\<close>

lemma list_all2_eq_list: "list_all2 (\<lambda>x y. x = y) xs ys \<longleftrightarrow> xs = ys"
  using list.rel_eq [where ?'a = 'a] by metis

lemma isPathPieceEqual_component_iff:
  assumes "ascii_case_insensitive aci"
  shows "isPathPieceEqual_component aci caseSensitive left right \<longleftrightarrow>
    \<not> isPathPieceLess_component csg caseSensitive left right \<and>
    \<not> isPathPieceLess_component csg caseSensitive right left"
proof (cases caseSensitive)
  case Sensitive
  have "(\<lambda>x y. \<not> (of_char x :: int) < of_char y \<and> \<not> (of_char y :: int) < of_char x) = (\<lambda>x y. x = y)"
    using of_char_eq_iff [where ?'a = int] by (auto simp: fun_eq_iff not_less)
  then show ?thesis
    using Sensitive
    by (simp add: isPathPieceEqual_component_def component_less_eq lexicographical_compare_eqv list_all2_eq_list)
next
  case Insensitive
  have "(\<lambda>x y. \<not> AsciiLessThanCaseInsensitive csg x y \<and> \<not> AsciiLessThanCaseInsensitive csg y x) = aci"
    using assms by (auto simp: fun_eq_iff AsciiLessThanCaseInsensitive_def ascii_case_insensitive_def
        toLower_ascii not_less char_value_inj [symmetric, of _ _ csg])
  then show ?thesis
    using Insensitive
    by (simp add: isPathPieceEqual_component_def component_less_eq lexicographical_compare_eqv)
qed

lemma list_all2_map_eq: "list_all2 (\<lambda>x y. f x = f y) xs ys \<longleftrightarrow> map f xs = map f ys"
  by (induction xs ys rule: list_induct2') auto

lemma component_equal_lower:
  assumes "ascii_case_insensitive aci"
  shows "isPathPieceEqual_component aci caseSensitive left right \<longleftrightarrow>
    (case caseSensitive of Sensitive \<Rightarrow> left = right | Insensitive \<Rightarrow> map ascii_lower left = map ascii_lower right)"
proof -
  have "aci = (\<lambda>x y. ascii_lower x = ascii_lower y)"
    using assms by (auto simp: ascii_case_insensitive_def fun_eq_iff)
  then have "list_all2 aci left right \<longleftrightarrow> map ascii_lower left = map ascii_lower right"
    by (simp add: list_all2_map_eq)
  then show ?thesis by (cases caseSensitive) (auto simp: isPathPieceEqual_component_def)
qed

lemmas piece_equal_iff = isPathPieceEqual_component_iff
lemmas piece_compare_defs = comparePathPiece_component_def comparePathPiece_composed_def

text \<open>The same, for sequences of components.\<close>

interpretation components_order:
  strict_weak_order "lexicographical_compare (isPathPieceLess_component csg caseSensitive)"
  for csg :: bool and caseSensitive :: CaseSensitivity
  by (rule lexicographical_compare_strict_weak_order) (rule piece_order.strict_weak_order_axioms)

lemma components_equal_iff:
  assumes "ascii_case_insensitive aci"
  shows "list_all2 (isPathPieceEqual_component aci caseSensitive) xs ys \<longleftrightarrow>
    \<not> lexicographical_compare (isPathPieceLess_component csg caseSensitive) xs ys \<and>
    \<not> lexicographical_compare (isPathPieceLess_component csg caseSensitive) ys xs"
proof -
  have "isPathPieceEqual_component aci caseSensitive =
    (\<lambda>x y. \<not> isPathPieceLess_component csg caseSensitive x y \<and> \<not> isPathPieceLess_component csg caseSensitive y x)"
    using piece_equal_iff [OF assms] by blast
  then show ?thesis by (simp add: lexicographical_compare_eqv)
qed

section \<open>Properties\<close>

text \<open>
  C28: \<open>comparePathPiece\<close> on path components is a total preorder for either case
  sensitivity: it reports \<open>EQUAL\<close> exactly for names that are the same, or the same up to
  the case of ASCII letters; swapping the arguments exchanges \<open>BEFORE\<close> and \<open>AFTER\<close>;
  \<open>BEFORE\<close> is transitive; and equal names compare the same with every other name.
\<close>

theorem comparePathPiece_component_order:
  fixes csg :: bool and caseSensitive :: CaseSensitivity
  assumes "ascii_case_insensitive aci"
  defines "compare \<equiv> comparePathPiece_component aci csg caseSensitive"
  shows "(compare a b = EQUAL \<longleftrightarrow>
      (case caseSensitive of Sensitive \<Rightarrow> a = b | Insensitive \<Rightarrow> map ascii_lower a = map ascii_lower b)) \<and>
    (compare a b = BEFORE \<longleftrightarrow> compare b a = AFTER) \<and>
    (compare a b = BEFORE \<longrightarrow> compare b c = BEFORE \<longrightarrow> compare a c = BEFORE) \<and>
    (compare a b = EQUAL \<longrightarrow> compare a c = compare b c)"
proof -
  let ?lt = "isPathPieceLess_component csg caseSensitive"
  note eq = piece_equal_iff [OF assms(1), of caseSensitive _ _ csg]
  note lower = component_equal_lower [OF assms(1), of caseSensitive a b]
  have c: "compare x y = (if \<not> ?lt x y \<and> \<not> ?lt y x then EQUAL else if ?lt x y then BEFORE else AFTER)" for x y
    by (simp add: compare_def comparePathPiece_component_def eq)
  have "compare a b = EQUAL \<longleftrightarrow> isPathPieceEqual_component aci caseSensitive a b"
    by (simp add: compare_def comparePathPiece_component_def)
  moreover have "compare a b = BEFORE \<longleftrightarrow> compare b a = AFTER"
    unfolding c using piece_order.asym by auto
  moreover have "compare a b = BEFORE \<longrightarrow> compare b c = BEFORE \<longrightarrow> compare a c = BEFORE"
    unfolding c using piece_order.trans [of csg caseSensitive a b c] by auto
  moreover have "compare a b = EQUAL \<longrightarrow> compare a c = compare b c"
    unfolding c using piece_order.eqv_less [of csg caseSensitive a b c] by auto
  ultimately show ?thesis by (simp add: lower)
qed

lemma ascii_case_insensitive_lower: "ascii_case_insensitive (\<lambda>x y. ascii_lower x = ascii_lower y)"
  by (simp add: ascii_case_insensitive_def)

theorem comparePathPiece_component_order_witness:
  "comparePathPiece_component (\<lambda>x y. ascii_lower x = ascii_lower y) True Insensitive ''Foo'' ''fOO'' = EQUAL \<and>
   comparePathPiece_component (\<lambda>x y. ascii_lower x = ascii_lower y) True Sensitive ''Foo'' ''fOO'' \<noteq> EQUAL"
proof -
  have "map ascii_lower ''Foo'' = ''foo''" "map ascii_lower ''fOO'' = ''foo''"
    by code_simp+
  then show ?thesis
    using comparePathPiece_component_order [OF ascii_case_insensitive_lower, of True Insensitive "''Foo''" "''fOO''",
        THEN conjunct1]
      comparePathPiece_component_order [OF ascii_case_insensitive_lower, of True Sensitive "''Foo''" "''fOO''",
        THEN conjunct1]
    by simp
qed

text \<open>
  Comparing two valid relative paths always ends.  On POSIX systems the whole strings
  are compared; on Windows the paths are equal exactly if their components are, so that
  the two separators are interchangeable, and the order is the lexicographic order of the
  components.  In all cases swapping the arguments exchanges \<open>BEFORE\<close> and \<open>AFTER\<close>.
\<close>

theorem comparePathPiece_relative:
  assumes "ascii_case_insensitive aci"
    and "RelativePathSanityCheck win a = Inr ()" and "RelativePathSanityCheck win b = Inr ()"
  shows "\<exists>r. comparePathPiece_composed win aci csg False caseSensitive a b = Some r \<and>
    (r = EQUAL \<longleftrightarrow>
       (let same = (\<lambda>x y. case caseSensitive of Sensitive \<Rightarrow> x = y
                          | Insensitive \<Rightarrow> map ascii_lower x = map ascii_lower y);
            parts = (\<lambda>p. if p = [] then [] else split_on (isDirSeparator win) p)
        in if win then list_all2 same (parts a) (parts b) else same a b)) \<and>
    (r = BEFORE \<longleftrightarrow> comparePathPiece_composed win aci csg False caseSensitive b a = Some AFTER)"
proof -
  define xs where "xs = (if a = [] then [] else comps win a)"
  define ys where "ys = (if b = [] then [] else comps win b)"
  have parts: "components win False a = Some xs" "components win False b = Some ys"
    using assms by (simp_all add: RelativePathSanityCheck_rel_ok components_rel xs_def ys_def)
  have same: "isPathPieceEqual_component aci caseSensitive = (\<lambda>x y. case caseSensitive of Sensitive \<Rightarrow> x = y
      | Insensitive \<Rightarrow> map ascii_lower x = map ascii_lower y)"
    using component_equal_lower [OF assms(1)] by blast
  show ?thesis
  proof (cases win)
    case True
    note eq = components_equal_iff [OF assms(1), of caseSensitive xs ys csg]
      components_equal_iff [OF assms(1), of caseSensitive ys xs csg]
    show ?thesis
      using eq components_order.asym [of csg caseSensitive xs ys] parts True
      unfolding piece_compare_defs isPathPieceEqual_composed_def isPathPieceLess_composed_def
        same [symmetric] Let_def xs_def [symmetric] ys_def [symmetric]
      by (auto split: bool.split)
  next
    case False
    note eq = piece_equal_iff [OF assms(1), of caseSensitive a b csg] piece_equal_iff [OF assms(1), of caseSensitive b a csg]
    show ?thesis
      using eq piece_order.asym [of csg caseSensitive a b] False
      unfolding piece_compare_defs isPathPieceEqual_composed_def isPathPieceLess_composed_def
        same [symmetric] Let_def
      by (auto split: bool.split)
  qed
qed

theorem comparePathPiece_relative_witness:
  "comparePathPiece_composed True (\<lambda>x y. ascii_lower x = ascii_lower y) True False Sensitive
     ''a/b'' [CHR ''a'', CHR 0x5C, CHR ''b''] = Some EQUAL"
proof -
  have "RelativePathSanityCheck True ''a/b'' = Inr ()"
    "RelativePathSanityCheck True [CHR ''a'', CHR 0x5C, CHR ''b''] = Inr ()"
    by (simp_all add: RelativePathSanityCheck_rel_ok rel_ok_def component_ok_def sep_defs utf8_ascii)
  from comparePathPiece_relative [OF ascii_case_insensitive_lower this, of True Sensitive]
  show ?thesis by (auto simp: sep_defs)
qed

end
