(* ===== verification/Path_Compose.thy ===== *)
theory Path_Compose
  imports Path_Compare
begin

text \<open>
  The operations of \<open>RelativePath\<close> and \<open>AbsolutePath\<close> in \<open>PathFuncs.h\<close> and
  \<open>PathFuncs.cpp\<close> that build, take apart and relate paths: \<open>operator+\<close>, the
  construction from components, \<open>findParent\<close>, \<open>isSubDirOf\<close>, \<open>isParentDirOf\<close>,
  \<open>substr\<close>, \<open>filename\<close>, \<open>stem\<close>, \<open>relativize\<close>, \<open>viewWithoutUNC\<close>, \<open>splitFirst\<close> and
  \<open>validatePathComponentLength\<close>.

  \<open>checked_component\<close> and \<open>checked_relative\<close> are the constructors that run the
  sanity check.  An operation that loops over a path iterator returns an option whose
  \<open>None\<close> means that the loop did not end within \<open>length path + 2\<close> rounds; the lemmas
  show that this does not happen on valid paths.
\<close>

section \<open>Definitions\<close>

definition checked_component :: "bool \<Rightarrow> string \<Rightarrow> string result" where
  "checked_component win s = (case PathComponentSanityCheck win s of Inl e \<Rightarrow> Inl e | Inr _ \<Rightarrow> Inr s)"

definition checked_relative :: "bool \<Rightarrow> string \<Rightarrow> string result" where
  "checked_relative win s = (case RelativePathSanityCheck win s of Inl e \<Rightarrow> Inl e | Inr _ \<Rightarrow> Inr s)"

definition findParent :: "bool \<Rightarrow> string \<Rightarrow> string \<Rightarrow> composed_iter" where
  "findParent win path parent =
     (if length path \<le> length parent then cpi_make_at path None
      else if parent = [] then cpi_make win False path
      else if \<not> isDirSeparator win (path ! length parent) then cpi_make_at path None
      else if take (length parent) path \<noteq> parent then cpi_make_at path None
      else cpi_make_at path (Some (length parent)))"

definition isSubDirOf :: "bool \<Rightarrow> string \<Rightarrow> string \<Rightarrow> bool" where
  "isSubDirOf win path other = (findParent win path other \<noteq> cpi_make_at path None)"

definition isParentDirOf :: "bool \<Rightarrow> string \<Rightarrow> string \<Rightarrow> bool" where
  "isParentDirOf win path other = (findParent win other path \<noteq> cpi_make_at other None)"

text \<open>\<open>RelativePath(begin, end)\<close>, for strings and for \<open>PathComponent\<close>s.\<close>

fun check_components :: "bool \<Rightarrow> string list \<Rightarrow> string list result" where
  "check_components win [] = Inr []"
| "check_components win (c # cs) =
     (case checked_component win c of
        Inl e \<Rightarrow> Inl e
      | Inr v \<Rightarrow> (case check_components win cs of Inl e \<Rightarrow> Inl e | Inr vs \<Rightarrow> Inr (v # vs)))"

definition RelativePath_of_strings :: "bool \<Rightarrow> string list \<Rightarrow> string result" where
  "RelativePath_of_strings win cs =
     (case check_components win cs of Inl e \<Rightarrow> Inl e | Inr vs \<Rightarrow> Inr (join [kDirSeparator] vs))"

definition RelativePath_of_components :: "string list \<Rightarrow> string" where
  "RelativePath_of_components cs = join [kDirSeparator] cs"

definition relative_substr :: "bool \<Rightarrow> string \<Rightarrow> nat \<Rightarrow> string result" where
  "relative_substr win path pos =
     (if pos > length path then Inl OutOfRange
      else let substr_result = drop pos path in
        if length substr_result > 0 \<and> isDirSeparator win (substr_result ! 0)
        then checked_relative win (drop 1 substr_result)
        else checked_relative win substr_result)"

definition filename :: "bool \<Rightarrow> string \<Rightarrow> string result" where
  "filename win path =
     (if path = [] then Inr path
      else (case createRange win True path of Inl e \<Rightarrow> Inl e | Inr (b, _) \<Rightarrow> psi_piece b))"

definition stem :: "bool \<Rightarrow> string \<Rightarrow> string result" where
  "stem win path =
     (case filename win path of
        Inl e \<Rightarrow> Inl e
      | Inr name \<Rightarrow>
          (case rfind_index ((=) CHR ''.'') name of
             Some last_period \<Rightarrow>
               if last_period = 0 then checked_relative win name
               else checked_relative win (take last_period name)
           | None \<Rightarrow> checked_relative win name))"

fun relativize_loop :: "nat \<Rightarrow> bool \<Rightarrow> composed_iter \<Rightarrow> composed_iter \<Rightarrow> string result option" where
  "relativize_loop 0 win myIter childIter = None"
| "relativize_loop (Suc fuel) win myIter childIter =
     (if childIter = cpi_make_at (cpi_path childIter) None then Some (Inl RuntimeError)
      else (case (cpi_piece myIter, cpi_piece childIter) of
              (Inr a, Inr b) \<Rightarrow>
                (case path_equal win True a b of
                   None \<Rightarrow> None
                 | Some False \<Rightarrow> Some (Inl RuntimeError)
                 | Some True \<Rightarrow>
                     (case cpi_incr win True False myIter of
                        Inl e \<Rightarrow> Some (Inl e)
                      | Inr myIter' \<Rightarrow>
                          if myIter' \<noteq> cpi_make_at (cpi_path myIter') None then
                            (case cpi_incr win True False childIter of
                               Inl e \<Rightarrow> Some (Inl e)
                             | Inr childIter' \<Rightarrow> relativize_loop fuel win myIter' childIter')
                          else Some (cpi_remainder childIter)))
            | (Inl e, _) \<Rightarrow> Some (Inl e)
            | (_, Inl e) \<Rightarrow> Some (Inl e)))"

definition relativize :: "bool \<Rightarrow> string \<Rightarrow> string \<Rightarrow> string result option" where
  "relativize win path child =
     relativize_loop (length path + 2) win (cpi_make win True path) (cpi_make win True child)"

text \<open>\<open>string_view::substr\<close> throws if the view is shorter than the prefix.\<close>

definition viewWithoutUNC :: "bool \<Rightarrow> string \<Rightarrow> string result" where
  "viewWithoutUNC win path =
     (if win then
        (if length kUNCPrefix > length path then Inl OutOfRange else Inr (drop (length kUNCPrefix) path))
      else Inr path)"

definition component_plus_component :: "string \<Rightarrow> string \<Rightarrow> string" where
  "component_plus_component a b = a @ [kDirSeparator] @ b"

definition relative_plus_relative :: "string \<Rightarrow> string \<Rightarrow> string" where
  "relative_plus_relative a b =
     (if a = [] then b else if b = [] then a else a @ [kDirSeparator] @ b)"

definition relative_plus_component :: "string \<Rightarrow> string \<Rightarrow> string" where
  "relative_plus_component a b = relative_plus_relative a b"

definition absolute_plus_relative :: "bool \<Rightarrow> string \<Rightarrow> string \<Rightarrow> string option" where
  "absolute_plus_relative win a b =
     (if b = [] then Some a
      else if isAbsoluteRoot win a then Some (a @ b)
      else (case components win False b of
              None \<Rightarrow> None
            | Some cs \<Rightarrow> Some (a @ [kAbsDirSeparator win] @ join [kAbsDirSeparator win] cs)))"

definition absolute_plus_component :: "bool \<Rightarrow> string \<Rightarrow> string \<Rightarrow> string option" where
  "absolute_plus_component win a b = absolute_plus_relative win a b"

definition splitFirst :: "bool \<Rightarrow> string \<Rightarrow> (string \<times> string) result" where
  "splitFirst win path =
     (case findPathSeparator win path 0 of
        Some dirSeparator \<Rightarrow>
          (case checked_component win (take dirSeparator path) of
             Inl e \<Rightarrow> Inl e
           | Inr c \<Rightarrow> (case checked_relative win (drop (dirSeparator + 1) path) of
                         Inl e \<Rightarrow> Inl e
                       | Inr r \<Rightarrow> Inr (c, r)))
      | None \<Rightarrow> (case checked_component win path of Inl e \<Rightarrow> Inl e | Inr c \<Rightarrow> Inr (c, [])))"

definition kMaxPathComponentLength :: nat where
  "kMaxPathComponentLength = 255"

definition ENAMETOOLONG :: nat where
  "ENAMETOOLONG = 36"

definition validatePathComponentLength :: "string \<Rightarrow> unit result" where
  "validatePathComponentLength name =
     (if length name > kMaxPathComponentLength then Inl (SystemError ENAMETOOLONG) else Inr ())"

section \<open>Checked construction\<close>

lemma checked_component_iff: "checked_component win s = Inr v \<longleftrightarrow> component_ok win s \<and> v = s"
  unfolding checked_component_def
  by (cases "PathComponentSanityCheck win s") (auto simp: PathComponentSanityCheck_iff [symmetric])

lemma checked_relative_iff: "checked_relative win s = Inr v \<longleftrightarrow> rel_ok win s \<and> v = s"
  unfolding checked_relative_def
  by (cases "RelativePathSanityCheck win s") (auto simp: RelativePathSanityCheck_rel_ok [symmetric])

lemma check_components_iff: "check_components win cs = Inr vs \<longleftrightarrow> (\<forall>c \<in> set cs. component_ok win c) \<and> vs = cs"
proof (induction cs arbitrary: vs)
  case (Cons c cs)
  show ?case
  proof (cases "checked_component win c")
    case (Inl e)
    then have "\<not> component_ok win c" using checked_component_iff [of win c c] by auto
    with Inl show ?thesis by simp
  next
    case (Inr v)
    then have "component_ok win c" "v = c" by (simp_all add: checked_component_iff)
    with Inr Cons show ?thesis by (cases "check_components win cs") auto
  qed
qed auto

text \<open>The components of a relative path; the empty path has none.\<close>

abbreviation parts :: "bool \<Rightarrow> string \<Rightarrow> string list" where
  "parts win p \<equiv> (if p = [] then [] else split_on (isDirSeparator win) p)"

lemma rel_ok_parts: "rel_ok win p \<longleftrightarrow> (\<forall>c \<in> set (parts win p). component_ok win c)"
  by (auto simp: rel_ok_def)

lemma parts_plus: "parts win (relative_plus_relative a b) = parts win a @ parts win b"
  by (auto simp: relative_plus_relative_def split_on_sep isDirSeparator_def)

lemma parts_join:
  assumes "\<forall>c \<in> set cs. component_ok win c" and "isDirSeparator win d"
  shows "parts win (join [d] cs) = cs"
  using join_components [OF assms] by auto

section \<open>Parents\<close>

lemma isDirSeparator_posix: "isDirSeparator False = (=) kDirSeparator"
  by (auto simp: isDirSeparator_def fun_eq_iff)

lemma join_parts_posix: "join [kDirSeparator] (parts False p) = p"
  by (simp add: isDirSeparator_posix)

lemma isSubDirOf_string:
  "isSubDirOf win p q \<longleftrightarrow> (if q = [] then p \<noteq> [] else (\<exists>d rest. p = q @ d # rest \<and> isDirSeparator win d))"
proof (cases "q = []")
  case True
  then show ?thesis by (simp add: isSubDirOf_def findParent_def cpi_make_at_def cpi_make_def)
next
  case False
  have "(\<exists>d rest. p = q @ d # rest \<and> isDirSeparator win d) \<longleftrightarrow>
    length q < length p \<and> isDirSeparator win (p ! length q) \<and> take (length q) p = q" (is "?l \<longleftrightarrow> ?r")
  proof
    assume r: ?r
    then have "p = q @ p ! length q # drop (Suc (length q)) p" using id_take_nth_drop [of "length q" p] by simp
    with r show ?l by blast
  qed auto
  with False show ?thesis by (auto simp: isSubDirOf_def findParent_def cpi_make_at_def)
qed

section \<open>Positions on absolute paths\<close>

lemma abs_path_split:
  assumes "k \<le> length cs"
  shows "abs_path win cs = abs_path win (take k cs) @
    (if k = length cs then [] else if k = 0 then join [kAbsDirSeparator win] cs
     else kAbsDirSeparator win # join [kAbsDirSeparator win] (drop k cs))"
proof (cases "k = length cs \<or> k = 0")
  case True
  then show ?thesis by (auto simp: abs_path_def)
next
  case False
  then have "take k cs \<noteq> []" "drop k cs \<noteq> []" using assms by auto
  then have "join [kAbsDirSeparator win] (take k cs @ drop k cs) =
    join [kAbsDirSeparator win] (take k cs) @ [kAbsDirSeparator win] @ join [kAbsDirSeparator win] (drop k cs)"
    by (rule join_append)
  with False show ?thesis by (simp add: abs_path_def)
qed

definition abs_at :: "bool \<Rightarrow> string list \<Rightarrow> nat \<Rightarrow> composed_iter" where
  "abs_at win cs k = cpi_make_at (abs_path win cs)
     (if k \<le> length cs then Some (length (abs_path win (take k cs))) else None)"

lemma abs_at_piece: "k \<le> length cs \<Longrightarrow> cpi_piece (abs_at win cs k) = Inr (abs_path win (take k cs))"
  using abs_path_split [of k cs win] by (simp add: abs_at_def cpi_piece_def cpi_make_at_def)

lemma abs_at_incr:
  assumes ok: "\<forall>c \<in> set cs. component_ok win c" and k: "k \<le> length cs"
  shows "cpi_incr win True False (abs_at win cs k) = Inr (abs_at win cs (Suc k))"
proof (cases "k = length cs")
  case True
  then show ?thesis by (simp add: abs_at_def cpi_incr_def cpi_advance_def cpi_make_at_def)
next
  case False
  let ?p = "abs_path win cs" and ?n = "length (abs_path win (take k cs))" and ?d = "kAbsDirSeparator win"
  have lt: "k < length cs" using False k by simp
  define c rest where "c = cs ! k" and "rest = drop (Suc k) cs"
  have dr: "drop k cs = c # rest" using lt by (simp add: c_def rest_def Cons_nth_drop_Suc)
  have ok': "\<forall>x \<in> set (c # rest). component_ok win x" using ok dr by (metis in_set_dropD)
  have join: "comps win (join [?d] (c # rest)) = c # rest"
    by (rule join_components(1) [OF ok' isDirSeparator_abs]) simp
  have ne: "c \<noteq> []" using ok' by (auto dest: component_ok_not_Nil)
  have seek: "seek_forward win ?p (?n + 1) = ?n + (if k = 0 then 0 else 1) + length c"
  proof (cases "k = 0")
    case True
    then have "comps win (drop ?n ?p) = c # rest" using abs_path_split [OF k, of win] False dr join by simp
    from seek_forward_skip [OF this ne] True show ?thesis using abs_path_split [OF k, of win] by simp
  next
    case pos: False
    then have "comps win (drop (?n + 1) ?p) = c # rest" using abs_path_split [OF k, of win] False dr join by simp
    from seek_forward_comp [OF this] pos show ?thesis by simp
  qed
  have "take (Suc k) cs = take k cs @ [c]" using lt by (simp add: c_def take_Suc_conv_app_nth)
  then have len: "length (abs_path win (take (Suc k) cs)) = ?n + (if k = 0 then 0 else 1) + length c"
    using lt abs_path_snoc [of "take k cs" win c] by (cases "k = 0"; cases cs) (auto simp: abs_path_def)
  have "length (join [?d] (c # rest)) > 0" using join_components(3) [OF ok' isDirSeparator_abs] by simp
  then have "?n < length ?p" using abs_path_split [OF k, of win] False dr by (cases "k = 0") auto
  with seek len lt show ?thesis
    by (simp add: abs_at_def cpi_incr_def cpi_advance_def cpi_make_at_def)
qed

lemma path_equal_abs:
  assumes "\<forall>c \<in> set cs. component_ok win c" and "\<forall>c \<in> set ds. component_ok win c"
  shows "path_equal win True (abs_path win cs) (abs_path win ds) = Some (cs = ds)"
proof -
  have "isPathPieceEqual_component (=) Sensitive = (=)"
    by (auto simp: isPathPieceEqual_component_def fun_eq_iff)
  then have "list_all2 (isPathPieceEqual_component (=) Sensitive) cs ds \<longleftrightarrow> cs = ds" by (simp add: list.rel_eq)
  with components_abs [OF assms(1)] components_abs [OF assms(2)] abs_path_inj [OF assms]
  show ?thesis
    by (auto simp: path_equal_def isPathPieceEqual_composed_def isPathPieceEqual_component_def)
qed

lemma relativize_loop_spec:
  assumes cs: "\<forall>c \<in> set cs. component_ok win c" and ds: "\<forall>c \<in> set ds. component_ok win c"
    and k: "k \<le> length cs" and "length cs - k < fuel"
  shows "relativize_loop fuel win (abs_at win cs k) (abs_at win ds k) =
    Some (if length cs \<le> length ds \<and> take (length cs) ds = cs then cpi_remainder (abs_at win ds (length cs))
          else Inl RuntimeError)"
  using k assms(4)
proof (induction fuel arbitrary: k)
  case (Suc fuel)
  show ?case
  proof (cases "k \<le> length ds")
    case False
    with Suc.prems have "\<not> length cs \<le> length ds" by simp
    with False show ?thesis by (simp add: abs_at_def cpi_make_at_def)
  next
    case True
    then have nend: "abs_at win ds k \<noteq> cpi_make_at (cpi_path (abs_at win ds k)) None"
      by (simp add: abs_at_def cpi_make_at_def)
    have "\<forall>c \<in> set (take k cs). component_ok win c" "\<forall>c \<in> set (take k ds). component_ok win c"
      using cs ds by (auto dest: in_set_takeD)
    note eq = path_equal_abs [OF this]
    show ?thesis
    proof (cases "take k cs = take k ds")
      case ne: False
      then have "\<not> take (length cs) ds = cs" using Suc.prems(1) by (metis min_def take_take)
      with ne nend eq show ?thesis using Suc.prems(1) True by (simp add: abs_at_piece)
    next
      case same: True
      note inc = abs_at_incr [OF cs Suc.prems(1)] abs_at_incr [OF ds True]
      show ?thesis
      proof (cases "k = length cs")
        case last: True
        then have "abs_at win cs (Suc k) = cpi_make_at (cpi_path (abs_at win cs (Suc k))) None"
          by (simp add: abs_at_def cpi_make_at_def)
        moreover have "take (length cs) ds = cs" using same last by simp
        ultimately show ?thesis
          using last nend eq same inc Suc.prems(1) True by (simp add: abs_at_piece)
      next
        case more: False
        then have "abs_at win cs (Suc k) \<noteq> cpi_make_at (cpi_path (abs_at win cs (Suc k))) None"
          using Suc.prems by (simp add: abs_at_def cpi_make_at_def)
        moreover have "Suc k \<le> length cs" "length cs - Suc k < fuel" using more Suc.prems by auto
        note Suc.IH [OF this]
        ultimately show ?thesis
          using nend eq same inc Suc.prems(1) True by (simp add: abs_at_piece)
      qed
    qed
  qed
qed simp

lemma length_comps_abs: "\<forall>c \<in> set cs. component_ok win c \<Longrightarrow> length cs < length (abs_path win cs)"
proof (cases "cs = []")
  case True
  then show ?thesis by (simp add: abs_path_def sep_defs)
next
  case False
  assume ok: "\<forall>c \<in> set cs. component_ok win c"
  with False have "comps win (join [kAbsDirSeparator win] cs) = cs"
    using join_components(1) [OF ok isDirSeparator_abs] by simp
  with length_comps_nonempty [of win "join [kAbsDirSeparator win] cs"] ok
  have "length cs \<le> length (join [kAbsDirSeparator win] cs)" by (auto dest: component_ok_not_Nil)
  moreover have "0 < length (kRootStr win)" by (simp add: sep_defs)
  ultimately show ?thesis unfolding abs_path_def length_append by linarith
qed

lemma relativize_spec:
  assumes "\<forall>c \<in> set cs. component_ok win c" and "\<forall>c \<in> set ds. component_ok win c"
  shows "relativize win (abs_path win cs) (abs_path win ds) =
    Some (if length cs \<le> length ds \<and> take (length cs) ds = cs
          then Inr (let rest = join [kAbsDirSeparator win] (drop (length cs) ds)
                    in if cs = [] then drop 1 rest else rest)
          else Inl RuntimeError)"
proof -
  have start: "cpi_make win True (abs_path win xs) = abs_at win xs 0" for xs
    by (simp add: abs_at_def cpi_make_def cpi_make_at_def cpi_pathBegin_def abs_path_def)
  have "cpi_remainder (abs_at win ds (length cs)) =
      Inr (let rest = join [kAbsDirSeparator win] (drop (length cs) ds) in if cs = [] then drop 1 rest else rest)"
    if "length cs \<le> length ds"
    using abs_path_split [OF that, of win] that
    by (auto simp: abs_at_def cpi_remainder_def cpi_make_at_def Let_def split: if_splits)
  with relativize_loop_spec [OF assms, of 0 "length (abs_path win cs) + 2"] length_comps_abs [OF assms(1)]
  show ?thesis unfolding relativize_def start by simp
qed

section \<open>Composition\<close>

lemma isDirSeparator_kDirSeparator: "isDirSeparator win kDirSeparator"
  by (simp add: isDirSeparator_def)

lemma absolute_plus_spec:
  assumes cs: "\<forall>c \<in> set cs. component_ok win c" and b: "rel_ok win b"
  shows "absolute_plus_relative win (abs_path win cs) b =
    Some (if cs = [] then kRootStr win @ b else abs_path win (cs @ parts win b))"
proof (cases "cs = []")
  case True
  then show ?thesis by (simp add: absolute_plus_relative_def abs_path_def isAbsoluteRoot_def)
next
  case False
  have "join [kAbsDirSeparator win] cs \<noteq> []" using join_components(3) [OF cs isDirSeparator_abs] False by simp
  then have "\<not> isAbsoluteRoot win (abs_path win cs)" by (simp add: isAbsoluteRoot_def abs_path_def)
  with False b show ?thesis
    by (simp add: absolute_plus_relative_def components_rel abs_path_def join_append)
qed

lemma abs_ok_root_plus:
  assumes b: "rel_ok win b"
  shows "abs_ok win (kRootStr win @ b) \<longleftrightarrow> \<not> win \<or> kDirSeparator \<notin> set b"
proof
  assume "abs_ok win (kRootStr win @ b)"
  then obtain ds where ds: "\<forall>c \<in> set ds. component_ok win c" "b = join [kAbsDirSeparator win] ds"
    by (auto simp: abs_ok_def abs_path_def)
  then have "set b \<subseteq> (\<Union>c \<in> set ds. set c) \<union> {kAbsDirSeparator win}"
    using set_join [of "[kAbsDirSeparator win]" ds] by simp
  moreover have "kDirSeparator \<notin> set c" if "c \<in> set ds" for c
    using ds(1) that isDirSeparator_kDirSeparator component_ok_free by blast
  moreover have "win \<Longrightarrow> kDirSeparator \<noteq> kAbsDirSeparator win" by (simp add: sep_defs)
  ultimately show "\<not> win \<or> kDirSeparator \<notin> set b" by auto
next
  assume "\<not> win \<or> kDirSeparator \<notin> set b"
  then have "parts win b = (if b = [] then [] else split_on ((=) (kAbsDirSeparator win)) b)"
    by (auto simp: isDirSeparator_def kAbsDirSeparator_def intro!: split_on_cong)
  then have "b = join [kAbsDirSeparator win] (parts win b)" by simp
  then have "kRootStr win @ b = abs_path win (parts win b)" unfolding abs_path_def by (rule arg_cong)
  with b show "abs_ok win (kRootStr win @ b)" unfolding abs_ok_def rel_ok_parts by blast
qed

lemma splitFirst_spec:
  assumes "rel_ok win p" and "p \<noteq> []"
  shows "\<exists>c r. splitFirst win p = Inr (c, r) \<and> rel_ok win r \<and> component_ok win c \<and> parts win p = c # parts win r"
proof (cases "findPathSeparator win p 0")
  case None
  then have p: "comps win p = [p]" by (simp add: findPathSeparator_eq find_index_None split_on_id)
  with assms have ok: "component_ok win p" by (simp add: rel_ok_def)
  then have "checked_component win p = Inr p" by (simp add: checked_component_iff)
  with None have "splitFirst win p = Inr (p, [])" by (simp add: splitFirst_def)
  with p ok assms(2) show ?thesis by simp
next
  case (Some i)
  then have f: "find_index (isDirSeparator win) 0 p = Some i" by (simp add: findPathSeparator_eq)
  have p: "p = take i p @ p ! i # drop (i + 1) p" using find_index_split(1) [OF f] by simp
  have "comps win p = comps win (take i p) @ comps win (drop (i + 1) p)"
    by (subst p) (simp add: split_on_sep find_index_split(2) [OF f])
  moreover have "comps win (take i p) = [take i p]"
    using find_index_split(3) [OF f] by (intro split_on_id) simp
  ultimately have c: "comps win p = take i p # comps win (drop (i + 1) p)" by simp
  have ne: "drop (i + 1) p \<noteq> []" using c assms by (auto simp: rel_ok_def)
  then have ok: "component_ok win (take i p)" "rel_ok win (drop (i + 1) p)" using c assms by (auto simp: rel_ok_def)
  then have "checked_component win (take i p) = Inr (take i p)"
    "checked_relative win (drop (i + 1) p) = Inr (drop (i + 1) p)"
    by (simp_all add: checked_component_iff checked_relative_iff)
  with Some ok c ne assms(2) show ?thesis by (simp add: splitFirst_def)
qed

lemma filename_spec:
  assumes "rel_ok win p" and "p \<noteq> []"
  shows "filename win p = Inr (last (comps win p))"
proof -
  obtain es e where es: "comps win p = es @ [e]" by (cases "comps win p" rule: rev_cases) auto
  then have "e \<noteq> []" using assms by (auto simp: rel_ok_def)
  note bl = comps_butlast [OF es this, THEN rfind_comps]
  have "comps win (drop 0 (take (length p) p)) = es @ [e]" by (simp add: es)
  note b = backward_position(2-5) [OF this, simplified]
  have "psi_incr win True \<lparr>psi_path = p, psi_start = Some (length p)\<rparr> =
      Inr \<lparr>psi_path = p, psi_start = Some (length p - length e)\<rparr>"
    using bl b \<open>e \<noteq> []\<close> assms(2)
    by (cases "es = []"; cases e) (auto simp: psi_incr_def psi_retreat_def butlast_conv_take Suc_diff_Suc)
  with b es assms(2) show ?thesis by (simp add: filename_def createRange_def psi_piece_def)
qed

section \<open>Properties\<close>

text \<open>
  Composing valid relative paths yields a valid relative path whose components are
  those of the first path followed by those of the second; composition is associative and
  the empty path is neutral.
\<close>

theorem relative_plus_valid:
  assumes "RelativePathSanityCheck win a = Inr ()" and "RelativePathSanityCheck win b = Inr ()"
    and "RelativePathSanityCheck win c = Inr ()"
  shows "RelativePathSanityCheck win (relative_plus_relative a b) = Inr () \<and>
    components win False (relative_plus_relative a b) =
      Some (the (components win False a) @ the (components win False b)) \<and>
    relative_plus_relative (relative_plus_relative a b) c = relative_plus_relative a (relative_plus_relative b c) \<and>
    relative_plus_relative a [] = a \<and> relative_plus_relative [] b = b"
proof -
  have ok: "rel_ok win a" "rel_ok win b" using assms by (simp_all add: RelativePathSanityCheck_rel_ok)
  then have "rel_ok win (relative_plus_relative a b)" unfolding rel_ok_parts parts_plus by auto
  moreover from this have "components win False (relative_plus_relative a b) = Some (parts win a @ parts win b)"
    by (simp only: components_rel parts_plus)
  moreover have "relative_plus_relative (relative_plus_relative a b) c =
    relative_plus_relative a (relative_plus_relative b c)" by (simp add: relative_plus_relative_def)
  ultimately show ?thesis
    using ok components_rel by (simp add: RelativePathSanityCheck_rel_ok relative_plus_relative_def)
qed

theorem relative_plus_valid_witness:
  "RelativePathSanityCheck False (relative_plus_relative ''a'' ''b/c'') = Inr ()"
proof -
  have "RelativePathSanityCheck False ''a'' = Inr ()" "RelativePathSanityCheck False ''b/c'' = Inr ()"
    by (simp_all add: RelativePathSanityCheck_rel_ok rel_ok_def component_ok_def sep_defs utf8_ascii)
  from relative_plus_valid [OF this this(1)] show ?thesis by blast
qed

text \<open>
  Composing an absolute path with a valid relative path yields the absolute path with
  the components of both, except that on Windows the root with a relative path that uses a
  forward slash yields a string that is no valid absolute path, because the relative path
  is appended to the root as it is.
\<close>

theorem absolute_plus_valid:
  assumes "list_all (\<lambda>c. PathComponentSanityCheck win c = Inr ()) cs" and "RelativePathSanityCheck win b = Inr ()"
  defines "path \<equiv> (\<lambda>ds. kRootStr win @ join [kAbsDirSeparator win] ds)"
  shows "\<exists>r. absolute_plus_relative win (path cs) b = Some r \<and>
    (cs \<noteq> [] \<or> \<not> win \<or> kDirSeparator \<notin> set b \<longrightarrow>
       AbsolutePathSanityCheck win r = Inr () \<and>
       components win True r = Some (cs @ the (components win False b))) \<and>
    (cs = [] \<and> win \<and> kDirSeparator \<in> set b \<longrightarrow> AbsolutePathSanityCheck win r \<noteq> Inr ())"
proof -
  have cs: "\<forall>c \<in> set cs. component_ok win c"
    using assms(1) by (simp add: PathComponentSanityCheck_iff list_all_iff)
  have b: "rel_ok win b" using assms(2) by (simp add: RelativePathSanityCheck_rel_ok)
  have path: "path = abs_path win" by (auto simp: path_def abs_path_def)
  note plus = absolute_plus_spec [OF cs b]
  show ?thesis
  proof (cases "cs = []")
    case True
    have "components win True (kRootStr win @ b) = Some (parts win b)"
      using components_spec(1) [of win b "kRootStr win @ b" "kRootStr win" True]
        components_Nil(1) [of "kRootStr win @ b" True win] b
      by (cases "b = []") (auto simp: rel_ok_def dest: component_ok_not_Nil)
    with True plus abs_ok_root_plus [OF b] components_rel [OF b] show ?thesis
      unfolding path AbsolutePathSanityCheck_abs_ok by auto
  next
    case False
    have ok: "\<forall>c \<in> set (cs @ parts win b). component_ok win c" using cs b rel_ok_parts by auto
    then have "abs_ok win (abs_path win (cs @ parts win b))" unfolding abs_ok_def by blast
    with False plus components_abs [OF ok] components_rel [OF b] show ?thesis
      by (simp add: path AbsolutePathSanityCheck_abs_ok)
  qed
qed

theorem absolute_plus_valid_witness:
  "(\<exists>r. absolute_plus_relative False ''/a'' ''b/c'' = Some r \<and> components False True r = Some [''a'', ''b'', ''c'']) \<and>
   (\<exists>r. absolute_plus_relative True kUNCPrefix ''b/c'' = Some r \<and> AbsolutePathSanityCheck True r \<noteq> Inr ())"
proof -
  have ok: "list_all (\<lambda>c. PathComponentSanityCheck False c = Inr ()) [''a'']"
    by (simp add: PathComponentSanityCheck_iff component_ok_def sep_defs utf8_ascii)
  have rel: "RelativePathSanityCheck win ''b/c'' = Inr ()" for win
    by (simp add: RelativePathSanityCheck_rel_ok rel_ok_def component_ok_def sep_defs utf8_ascii)
  then have "components False False ''b/c'' = Some [''b'', ''c'']"
    by (simp add: RelativePathSanityCheck_rel_ok components_rel sep_defs)
  with absolute_plus_valid [OF ok rel] absolute_plus_valid [of True "[]" "''b/c''"] rel [of True]
  show ?thesis by (auto simp: kRootStr_def kAbsDirSeparator_def kDirSeparator_def)
qed

text \<open>
  \<open>relativize\<close> always ends.  It throws exactly if the path is no ancestor of the
  child; otherwise, unless the path is the root, it returns the relative path made of the
  remaining components.  Relative to the root, the first character of the child's first
  component is lost, because \<open>remainder\<close> skips a separator that is not there.
\<close>

theorem relativize_correct:
  assumes "list_all (\<lambda>c. PathComponentSanityCheck win c = Inr ()) cs"
    and "list_all (\<lambda>c. PathComponentSanityCheck win c = Inr ()) ds"
  defines "path \<equiv> (\<lambda>ds. kRootStr win @ join [kAbsDirSeparator win] ds)"
  shows "(\<forall>rest. ds = cs @ rest \<longrightarrow> cs \<noteq> [] \<longrightarrow>
       relativize win (path cs) (path ds) = Some (Inr (join [kAbsDirSeparator win] rest))) \<and>
    ((\<nexists>rest. ds = cs @ rest) \<longrightarrow> relativize win (path cs) (path ds) = Some (Inl RuntimeError)) \<and>
    (cs = [] \<longrightarrow> relativize win (path cs) (path ds) = Some (Inr (drop 1 (join [kAbsDirSeparator win] ds))))"
proof -
  have "\<forall>c \<in> set cs. component_ok win c" "\<forall>c \<in> set ds. component_ok win c"
    using assms(1,2) by (simp_all add: PathComponentSanityCheck_iff list_all_iff)
  note spec = relativize_spec [OF this]
  have "path = abs_path win" by (auto simp: path_def abs_path_def)
  moreover have "length cs \<le> length ds \<and> take (length cs) ds = cs \<longleftrightarrow> (\<exists>rest. ds = cs @ rest)"
    by (metis append_eq_conv_conj append_take_drop_id length_append le_add1)
  ultimately show ?thesis using spec by (auto simp: Let_def)
qed

theorem relativize_correct_witness:
  "relativize False ''/a'' ''/a/bc'' = Some (Inr ''bc'') \<and> relativize False ''/a'' ''/bc'' = Some (Inl RuntimeError) \<and>
   relativize False ''/'' ''/bc'' = Some (Inr ''c'')"
proof -
  have ok: "list_all (\<lambda>c. PathComponentSanityCheck False c = Inr ()) [''a'']"
    "list_all (\<lambda>c. PathComponentSanityCheck False c = Inr ()) [''a'', ''bc'']"
    "list_all (\<lambda>c. PathComponentSanityCheck False c = Inr ()) [''bc'']"
    "list_all (\<lambda>c. PathComponentSanityCheck False c = Inr ()) []"
    by (simp_all add: PathComponentSanityCheck_iff component_ok_def sep_defs utf8_ascii)
  from relativize_correct [OF ok(1,2)] relativize_correct [OF ok(1,3)] relativize_correct [OF ok(4,3)]
  show ?thesis by (simp add: sep_defs)
qed

text \<open>
  For valid relative paths, \<open>isSubDirOf\<close> implies that the components of the other
  path are a proper prefix of the components of this path, and on POSIX systems the converse
  holds as well; \<open>isParentDirOf\<close> is the converse relation.
\<close>

theorem isSubDirOf_correct:
  assumes "RelativePathSanityCheck win p = Inr ()" and "RelativePathSanityCheck win q = Inr ()"
  defines "below \<equiv> (\<exists>rest. rest \<noteq> [] \<and> components win False p = Some (the (components win False q) @ rest))"
  shows "(isSubDirOf win p q \<longrightarrow> below) \<and> (\<not> win \<and> below \<longrightarrow> isSubDirOf win p q) \<and>
    isParentDirOf win q p = isSubDirOf win p q"
proof -
  have below: "below \<longleftrightarrow> (\<exists>rest. rest \<noteq> [] \<and> parts win p = parts win q @ rest)"
    using assms components_rel by (simp add: RelativePathSanityCheck_rel_ok below_def)
  have "below" if "isSubDirOf win p q"
    unfolding below using that
    by (auto simp: isSubDirOf_string split_on_sep split: if_splits intro: exI [of _ "comps win p"])
  moreover have "isSubDirOf win p q" if w: "\<not> win" and below
  proof -
    from w have win: "win = False" by simp
    obtain rest where r: "rest \<noteq> []" "parts False p = parts False q @ rest"
      using \<open>below\<close> unfolding below win by blast
    have "p = join [kDirSeparator] (parts False q @ rest)" using r(2) join_parts_posix [of p] by simp
    then have "p = (if q = [] then join [kDirSeparator] rest else q @ kDirSeparator # join [kDirSeparator] rest)"
      using join_parts_posix [of q] r(1) by (auto simp: join_append simp del: split_on.simps)
    moreover have "p \<noteq> []" using r by auto
    ultimately show ?thesis
      using win by (auto simp: isSubDirOf_string isDirSeparator_kDirSeparator split: if_splits)
  qed
  ultimately show ?thesis by (auto simp: isParentDirOf_def isSubDirOf_def)
qed

theorem isSubDirOf_correct_witness:
  "isSubDirOf False ''a/b'' ''a'' \<and> \<not> isSubDirOf False ''ab'' ''a''"
proof -
  have ok: "RelativePathSanityCheck False ''a/b'' = Inr ()" "RelativePathSanityCheck False ''a'' = Inr ()"
    "RelativePathSanityCheck False ''ab'' = Inr ()"
    by (simp_all add: RelativePathSanityCheck_rel_ok rel_ok_def component_ok_def sep_defs utf8_ascii)
  then have "components False False ''a/b'' = Some [''a'', ''b'']" "components False False ''a'' = Some [''a'']"
    "components False False ''ab'' = Some [''ab'']"
    by (simp_all add: RelativePathSanityCheck_rel_ok components_rel sep_defs)
  with isSubDirOf_correct [OF ok(1,2)] isSubDirOf_correct [OF ok(3,2)] show ?thesis by auto
qed

text \<open>
  \<open>splitFirst\<close> of a valid non-empty relative path returns its first component and a
  valid relative path with the others, and putting the two together again with
  \<open>operator+\<close> gives a path with the same components; on the empty path it throws.
  \<open>filename\<close> returns the last component.
\<close>

theorem splitFirst_correct:
  assumes "RelativePathSanityCheck win p = Inr ()" and "p \<noteq> []"
  shows "(\<exists>c r. splitFirst win p = Inr (c, r) \<and> PathComponentSanityCheck win c = Inr () \<and>
      RelativePathSanityCheck win r = Inr () \<and> components win False p = Some (c # the (components win False r)) \<and>
      components win False (relative_plus_relative c r) = components win False p) \<and>
    splitFirst win [] = Inl PathComponentValidationError \<and>
    filename win p = Inr (last (the (components win False p)))"
proof -
  have ok: "rel_ok win p" using assms by (simp add: RelativePathSanityCheck_rel_ok)
  from splitFirst_spec [OF ok assms(2)] obtain c r where
    s: "splitFirst win p = Inr (c, r)" "rel_ok win r" "component_ok win c" "parts win p = c # parts win r"
    by blast
  have "rel_ok win (relative_plus_relative c r)"
    using s(2,3) unfolding rel_ok_parts parts_plus by (auto simp: comps_component_ok)
  moreover have "parts win c = [c]" using s(3) by (auto simp: comps_component_ok)
  ultimately have "components win False (relative_plus_relative c r) = Some (parts win p)"
    using s(4) by (simp only: components_rel parts_plus) simp
  moreover have "splitFirst win [] = Inl PathComponentValidationError"
    by (simp add: splitFirst_def findPathSeparator_eq find_index_def checked_component_def
        PathComponentSanityCheck_def)
  ultimately show ?thesis
    using s components_rel [OF ok] components_rel [OF s(2)] filename_spec [OF ok assms(2)] assms(2)
    by (simp add: RelativePathSanityCheck_rel_ok PathComponentSanityCheck_iff)
qed

theorem splitFirst_correct_witness:
  "(\<exists>c r. splitFirst False ''a/b'' = Inr (c, r)) \<and> filename False ''a/b'' = Inr ''b''"
proof -
  have ok: "RelativePathSanityCheck False ''a/b'' = Inr ()"
    by (simp add: RelativePathSanityCheck_rel_ok rel_ok_def component_ok_def sep_defs utf8_ascii)
  then have "components False False ''a/b'' = Some [''a'', ''b'']"
    by (simp add: RelativePathSanityCheck_rel_ok components_rel sep_defs)
  with splitFirst_correct [OF ok] show ?thesis by auto
qed

end
