(* ===== verification/Path_Canonical.thy ===== *)
theory Path_Canonical
  imports Path_Compose
begin

text \<open>
  Path canonicalisation in \<open>PathFuncs.cpp\<close>: \<open>canonicalPathData\<close>,
  \<open>canonicalPathImpl\<close>, \<open>canonicalPath\<close>, \<open>getcwd\<close>, \<open>joinAndNormalize\<close>,
  \<open>realpath\<close>, \<open>realpathExpected\<close>, \<open>normalizeBestEffort\<close> and \<open>expandUser\<close>.

  The system calls are arguments: \<open>os_cwd\<close> is what \<open>::getcwd\<close> returns (an \<open>errno\<close> or
  a string) and \<open>os_realpath\<close> is \<open>::realpath\<close>.  \<open>canonicalPathImpl\<close> calls
  \<open>getcwd\<close>, which calls \<open>canonicalPath\<close> on the string the system returned; this
  recursion ends only because that string is absolute, so the definition is a
  \<open>partial_function\<close> whose value \<open>None\<close> is a recursion without end, and the theorems
  show that it returns.

  \<open>normal\<close> is the reference: it reads the pieces between separators from left to right
  and returns how often the path climbs above its start, and the components below.
\<close>

section \<open>Definitions\<close>

record CanonicalData =
  cd_components :: "string list"
  cd_isAbsolute :: bool

definition startsWithUNC :: "bool \<Rightarrow> string \<Rightarrow> bool" where
  "startsWithUNC win path = (win \<and> starts_with path kUNCPrefix)"

text \<open>\<open>std::isalpha\<close> in the \<open>C\<close> locale.\<close>

definition isalpha :: "char \<Rightarrow> bool" where
  "isalpha c = (let n = of_char c :: nat in (65 \<le> n \<and> n \<le> 90) \<or> (97 \<le> n \<and> n \<le> 122))"

definition processComponent :: "bool \<Rightarrow> bool \<Rightarrow> CanonicalData \<Rightarrow> string \<Rightarrow> CanonicalData" where
  "processComponent win atStart data component =
     (if component = [] then
        (if atStart then data\<lparr>cd_isAbsolute := True\<rparr> else data)
      else if component = ''.'' then data
      else if component = ''..'' then
        (if cd_components data = [] then
           (if \<not> cd_isAbsolute data then data\<lparr>cd_components := [component]\<rparr> else data)
         else if last (cd_components data) \<noteq> ''..'' then
           data\<lparr>cd_components := butlast (cd_components data)\<rparr>
         else data)
      else
        (let data' = (if win \<and> atStart \<and> length component = 2 \<and> isalpha (component ! 0) \<and>
                         component ! 1 = CHR '':''
                      then data\<lparr>cd_isAbsolute := True\<rparr> else data)
         in data'\<lparr>cd_components := cd_components data' @ [component]\<rparr>))"

text \<open>A component begins where the path begins exactly if it starts at index 0.\<close>

definition processSlash :: "bool \<Rightarrow> string \<Rightarrow> nat \<Rightarrow> nat \<Rightarrow> CanonicalData \<Rightarrow> CanonicalData" where
  "processSlash win path componentStart fin data =
     processComponent win (componentStart = 0) data (take (fin - componentStart) (drop componentStart path))"

function canonical_loop :: "bool \<Rightarrow> string \<Rightarrow> nat \<Rightarrow> nat \<Rightarrow> CanonicalData \<Rightarrow> nat \<times> CanonicalData" where
  "canonical_loop win path p componentStart data =
     (if p \<ge> length path then (componentStart, data)
      else if isDirSeparator win (path ! p)
      then canonical_loop win path (p + 1) (p + 1) (processSlash win path componentStart p data)
      else canonical_loop win path (p + 1) componentStart data)"
  by pat_completeness auto
termination by (relation "measure (\<lambda>(win, path, p, componentStart, data). length path - p)") auto

declare canonical_loop.simps [simp del]

definition canonicalPathData :: "bool \<Rightarrow> string \<Rightarrow> CanonicalData" where
  "canonicalPathData win path0 =
     (let path = (if startsWithUNC win path0 then drop (length kUNCPrefix) path0 else path0);
          data = \<lparr>cd_components = [], cd_isAbsolute = startsWithUNC win path0\<rparr>;
          (componentStart, data') = canonical_loop win path 0 0 data
      in if componentStart \<noteq> length path then processSlash win path componentStart (length path) data'
         else data')"

definition makeAbsolutePath :: "bool \<Rightarrow> string list \<Rightarrow> string result" where
  "makeAbsolutePath win ps =
     (if ps = [] then Inr (kRootStr win)
      else (let value = kRootStr win @ join [kAbsDirSeparator win] ps in
            case AbsolutePathSanityCheck win value of Inl e \<Rightarrow> Inl e | Inr _ \<Rightarrow> Inr value))"

fun append_canonical :: "string list \<Rightarrow> string list \<Rightarrow> string list" where
  "append_canonical base [] = base"
| "append_canonical base (c # cs) =
     (if c = ''..'' then append_canonical (if base \<noteq> [] then butlast base else base) cs
      else base @ c # cs)"

partial_function (option) canonicalPathImpl ::
  "bool \<Rightarrow> nat + string \<Rightarrow> string \<Rightarrow> string option \<Rightarrow> string result option" where
  "canonicalPathImpl win os_cwd path base =
     (let canon = canonicalPathData win path in
      if cd_isAbsolute canon then Some (makeAbsolutePath win (cd_components canon))
      else
        (case base of
           None \<Rightarrow>
             (case os_cwd of
                Inl errno \<Rightarrow> Some (Inl (SystemError errno))
              | Inr cwd \<Rightarrow>
                  Option.bind (canonicalPathImpl win os_cwd cwd None)
                    (\<lambda>r. case r of
                           Inl e \<Rightarrow> Some (Inl e)
                         | Inr b \<Rightarrow>
                             Some (makeAbsolutePath win
                               (append_canonical (cd_components (canonicalPathData win b)) (cd_components canon)))))
         | Some b \<Rightarrow>
             Some (makeAbsolutePath win
               (append_canonical (cd_components (canonicalPathData win b)) (cd_components canon)))))"

definition canonicalPath :: "bool \<Rightarrow> nat + string \<Rightarrow> string \<Rightarrow> string result option" where
  "canonicalPath win os_cwd path = canonicalPathImpl win os_cwd path None"

definition canonicalPath_base :: "bool \<Rightarrow> nat + string \<Rightarrow> string \<Rightarrow> string \<Rightarrow> string result option" where
  "canonicalPath_base win os_cwd path base = canonicalPathImpl win os_cwd path (Some base)"

definition getcwd :: "bool \<Rightarrow> nat + string \<Rightarrow> string result option" where
  "getcwd win os_cwd =
     (case os_cwd of Inl errno \<Rightarrow> Some (Inl (SystemError errno)) | Inr cwd \<Rightarrow> canonicalPath win os_cwd cwd)"

definition EPERM :: nat where
  "EPERM = 1"

definition EXDEV :: nat where
  "EXDEV = 18"

text \<open>The value is a \<open>folly::Expected<RelativePath, int>\<close>; constructing the path may throw.\<close>

definition joinAndNormalize :: "bool \<Rightarrow> string \<Rightarrow> string \<Rightarrow> (nat + string) result" where
  "joinAndNormalize win base path =
     (if starts_with path [kDirSeparator] then Inr (Inl EPERM)
      else
        (let joined = (if base = [] then path else if path = [] then base else base @ [kDirSeparator] @ path);
             ps = cd_components (canonicalPathData win joined)
         in if ps \<noteq> [] \<and> hd ps = ''..'' then Inr (Inl EXDEV)
            else (case RelativePath_of_strings win ps of Inl e \<Rightarrow> Inl e | Inr r \<Rightarrow> Inr (Inr r))))"

text \<open>A \<open>const char*\<close> ends at the first NUL.\<close>

definition c_str :: "string \<Rightarrow> string" where
  "c_str s = takeWhile (\<lambda>c. c \<noteq> CHR 0x00) s"

definition realpathExpected ::
  "bool \<Rightarrow> (string \<Rightarrow> nat + string) \<Rightarrow> nat + string \<Rightarrow> string \<Rightarrow> (nat + string) result option" where
  "realpathExpected win os_realpath os_cwd path =
     (case os_realpath path of
        Inl errno \<Rightarrow> Some (Inr (Inl errno))
      | Inr pathBuffer \<Rightarrow> map_option (map_sum id Inr) (canonicalPath win os_cwd pathBuffer))"

definition realpath ::
  "bool \<Rightarrow> (string \<Rightarrow> nat + string) \<Rightarrow> nat + string \<Rightarrow> string \<Rightarrow> string result option" where
  "realpath win os_realpath os_cwd path =
     map_option (\<lambda>r. case r of Inl e \<Rightarrow> Inl e | Inr (Inl errno) \<Rightarrow> Inl (SystemError errno) | Inr (Inr p) \<Rightarrow> Inr p)
       (realpathExpected win os_realpath os_cwd path)"

definition realpath_view ::
  "bool \<Rightarrow> (string \<Rightarrow> nat + string) \<Rightarrow> nat + string \<Rightarrow> string \<Rightarrow> string result option" where
  "realpath_view win os_realpath os_cwd path = realpath win os_realpath os_cwd (c_str path)"

text \<open>The overload for \<open>string_view\<close> calls \<open>realpath\<close>, not \<open>realpathExpected\<close>.\<close>

definition realpathExpected_view ::
  "bool \<Rightarrow> (string \<Rightarrow> nat + string) \<Rightarrow> nat + string \<Rightarrow> string \<Rightarrow> (nat + string) result option" where
  "realpathExpected_view win os_realpath os_cwd path =
     map_option (map_sum id Inr) (realpath win os_realpath os_cwd (c_str path))"

definition normalizeBestEffort ::
  "bool \<Rightarrow> (string \<Rightarrow> nat + string) \<Rightarrow> nat + string \<Rightarrow> string \<Rightarrow> string result option" where
  "normalizeBestEffort win os_realpath os_cwd path =
     Option.bind (realpathExpected win os_realpath os_cwd path)
       (\<lambda>r. case r of
              Inl e \<Rightarrow> Some (Inl e)
            | Inr (Inr p) \<Rightarrow> Some (Inr p)
            | Inr (Inl _) \<Rightarrow> canonicalPathImpl win os_cwd path None)"

definition expandUser :: "bool \<Rightarrow> nat + string \<Rightarrow> string \<Rightarrow> string option \<Rightarrow> string result option" where
  "expandUser win os_cwd path homeDir =
     (if \<not> starts_with path ''~'' then canonicalPath win os_cwd path
      else if length path > 1 \<and> \<not> starts_with path ''~/'' then Some (Inl RuntimeError)
      else (case homeDir of
              None \<Rightarrow> Some (Inl RuntimeError)
            | Some home \<Rightarrow>
                if home = [] then Some (Inl RuntimeError)
                else if path = ''~'' then canonicalPath win os_cwd home
                else canonicalPath win os_cwd (home @ [kDirSeparator] @ drop 2 path)))"

definition absolutePathFromThrift :: "bool \<Rightarrow> nat + string \<Rightarrow> string \<Rightarrow> string result option" where
  "absolutePathFromThrift win os_cwd path = canonicalPath win os_cwd path"

definition absolutePathToThrift :: "bool \<Rightarrow> string \<Rightarrow> string result" where
  "absolutePathToThrift win path = viewWithoutUNC win path"

section \<open>Reference normalisation\<close>

definition normal_step :: "nat \<times> string list \<Rightarrow> string \<Rightarrow> nat \<times> string list" where
  "normal_step s c =
     (case s of (ups, cs) \<Rightarrow>
        if c = [] \<or> c = ''.'' then (ups, cs)
        else if c = ''..'' then (if cs = [] then (ups + 1, cs) else (ups, butlast cs))
        else (ups, cs @ [c]))"

definition normal :: "string list \<Rightarrow> nat \<times> string list" where
  "normal ps = foldl normal_step (0, []) ps"

text \<open>The components the code keeps for a relative path: at most one \<open>..\<close> in front.\<close>

definition kept :: "nat \<times> string list \<Rightarrow> string list" where
  "kept s = (if fst s > 0 then [''..''] else []) @ snd s"

section \<open>The loop over the path\<close>

lemma processComponent_Nil [simp]: "processComponent win False data [] = data"
  by (simp add: processComponent_def)

lemma canonical_loop_pieces:
  assumes "st \<le> p" and "p \<le> length path" and "\<forall>c \<in> set (take (p - st) (drop st path)). \<not> isDirSeparator win c"
    and "path \<noteq> []"
  shows "(case canonical_loop win path p st data of (st', data') \<Rightarrow>
      if st' \<noteq> length path then processSlash win path st' (length path) data' else data') =
    foldl (processComponent win False) (processComponent win (st = 0) data (hd (comps win (drop st path))))
      (tl (comps win (drop st path)))"
  using assms(1-3)
proof (induction "length path - p" arbitrary: p st data)
  case 0
  then have p: "p = length path" by simp
  with 0 have "comps win (drop st path) = [drop st path]" by (intro split_on_id) simp
  with p 0 assms(4) show ?case
    by (auto simp: canonical_loop.simps [of win path "length path"] processSlash_def)
next
  case (Suc n)
  then have lt: "p < length path" by simp
  have piece: "take (Suc p - st) (drop st path) = take (p - st) (drop st path) @ [path ! p]"
    using lt Suc.prems(1) by (simp add: Suc_diff_le take_Suc_conv_app_nth)
  show ?case
  proof (cases "isDirSeparator win (path ! p)")
    case False
    with Suc.hyps(1) [of "Suc p" st data] Suc lt piece show ?thesis
      by (auto simp: canonical_loop.simps [of win path p])
  next
    case True
    have "drop st path = take (p - st) (drop st path) @ path ! p # drop (Suc p) path"
      using id_take_nth_drop [of "p - st" "drop st path"] lt Suc.prems(1) by simp
    then have "comps win (drop st path) = comps win (take (p - st) (drop st path)) @ comps win (drop (Suc p) path)"
      using split_on_sep [of "isDirSeparator win" "path ! p" "take (p - st) (drop st path)"] True by metis
    then have "comps win (drop st path) = take (p - st) (drop st path) # comps win (drop (Suc p) path)"
      using Suc.prems(3) by (simp add: split_on_id)
    with Suc.hyps(1) [of "Suc p" "Suc p" "processSlash win path st p data"] Suc.hyps(2) lt True show ?thesis
      by (simp add: canonical_loop.simps [of win path p] processSlash_def foldl_Cons [symmetric] del: foldl_Cons)
  qed
qed

text \<open>The pieces of a path after the prefix, and whether the first one makes it absolute.\<close>

definition stripped :: "bool \<Rightarrow> string \<Rightarrow> string" where
  "stripped win path = (if startsWithUNC win path then drop (length kUNCPrefix) path else path)"

definition drive_piece :: "bool \<Rightarrow> string \<Rightarrow> bool" where
  "drive_piece win c = (win \<and> length c = 2 \<and> isalpha (c ! 0) \<and> c ! 1 = CHR '':'')"

definition absolute_string :: "bool \<Rightarrow> string \<Rightarrow> bool" where
  "absolute_string win path =
     (startsWithUNC win path \<or>
      (path \<noteq> [] \<and> (hd (split_on (isDirSeparator win) path) = [] \<or> drive_piece win (hd (split_on (isDirSeparator win) path)))))"

lemma normal_snoc: "normal (ps @ [c]) = normal_step (normal ps) c"
  by (simp add: normal_def)

lemma normal_set: "c \<in> set (snd (normal ps)) \<Longrightarrow> c \<in> set ps \<and> c \<noteq> [] \<and> c \<noteq> ''.'' \<and> c \<noteq> ''..''"
proof (induction ps rule: rev_induct)
  case Nil
  then show ?case by (simp add: normal_def)
next
  case (snoc p ps)
  then show ?case
    by (cases "normal ps") (auto simp: normal_snoc normal_step_def dest: in_set_butlastD split: if_splits)
qed

lemma processComponent_normal:
  fixes win :: bool and c :: string
  assumes "cd_components data = (if cd_isAbsolute data then snd s else kept s)" and "''..'' \<notin> set (snd s)"
  defines "data' \<equiv> processComponent win False data c"
  shows "cd_isAbsolute data' = cd_isAbsolute data \<and>
    cd_components data' = (if cd_isAbsolute data then snd (normal_step s c) else kept (normal_step s c))"
proof (cases s)
  case (Pair ups cs)
  have "cs \<noteq> [] \<Longrightarrow> last cs \<noteq> ''..''" using assms(2) Pair last_in_set [of cs] by fastforce
  with assms Pair show ?thesis
    by (auto simp: data'_def processComponent_def normal_step_def kept_def Let_def butlast_append)
qed

lemma foldl_processComponent:
  fixes win :: bool and qs :: "string list"
  assumes "cd_components data = (if cd_isAbsolute data then snd (normal ps) else kept (normal ps))"
  defines "data' \<equiv> foldl (processComponent win False) data qs"
  shows "cd_isAbsolute data' = cd_isAbsolute data \<and>
    cd_components data' = (if cd_isAbsolute data then snd (normal (ps @ qs)) else kept (normal (ps @ qs)))"
  unfolding data'_def using assms(1)
proof (induction qs arbitrary: data ps)
  case (Cons q qs)
  have "''..'' \<notin> set (snd (normal ps))" using normal_set by blast
  note step = processComponent_normal [OF Cons.prems this, of win q, folded normal_snoc]
  with Cons.IH [of "processComponent win False data q" "ps @ [q]"] show ?case by simp
qed simp

abbreviation path_pieces :: "bool \<Rightarrow> string \<Rightarrow> string list" where
  "path_pieces win path \<equiv> parts win (stripped win path)"

lemma canonicalPathData_normal:
  "cd_isAbsolute (canonicalPathData win path) = absolute_string win path \<and>
    cd_components (canonicalPathData win path) =
      (if absolute_string win path then snd (normal (path_pieces win path)) else kept (normal (path_pieces win path)))"
proof (cases "stripped win path = []")
  case True
  then show ?thesis
    by (auto simp: canonicalPathData_def Let_def stripped_def [symmetric] canonical_loop.simps
        absolute_string_def normal_def kept_def) (auto simp: stripped_def split: if_splits)
next
  case False
  let ?p = "stripped win path" and ?init = "\<lparr>cd_components = [], cd_isAbsolute = startsWithUNC win path\<rparr>"
  obtain c cs where cs: "comps win ?p = c # cs" by (rule split_on_Cons_cases)
  define data where "data = processComponent win True ?init c"
  have "canonicalPathData win path = foldl (processComponent win False) data cs"
    using canonical_loop_pieces [of 0 0 ?p win ?init] False cs
    by (simp add: canonicalPathData_def Let_def stripped_def [symmetric] data_def)
  moreover have "cd_isAbsolute data = absolute_string win path"
  proof (cases "startsWithUNC win path")
    case True
    then show ?thesis by (simp add: data_def absolute_string_def processComponent_def Let_def)
  next
    case noUNC: False
    then have "?p = path" by (simp add: stripped_def)
    with noUNC False cs show ?thesis
      by (auto simp: data_def absolute_string_def drive_piece_def processComponent_def Let_def)
  qed
  moreover have "cd_components data = (if cd_isAbsolute data then snd (normal [c]) else kept (normal [c]))"
    by (auto simp: data_def processComponent_def Let_def normal_def normal_step_def kept_def)
  note foldl_processComponent [OF this, of win cs]
  ultimately show ?thesis using False cs by simp
qed

section \<open>The constructed paths\<close>

lemma normal_pieces_free:
  "c \<in> set (snd (normal (path_pieces win path))) \<Longrightarrow> c \<noteq> [] \<and> (\<forall>x \<in> set c. \<not> isDirSeparator win x)"
  using normal_set [of c "path_pieces win path"] split_on_free [of c "isDirSeparator win" "stripped win path"]
  by (auto split: if_splits)

lemma makeAbsolutePath_iff:
  assumes "\<forall>c \<in> set cs. c \<noteq> [] \<and> (\<forall>x \<in> set c. \<not> isDirSeparator win x)"
  shows "makeAbsolutePath win cs = Inr r \<longleftrightarrow> (\<forall>c \<in> set cs. component_ok win c) \<and> r = abs_path win cs"
proof (cases "cs = []")
  case True
  then show ?thesis by (auto simp: makeAbsolutePath_def abs_path_def)
next
  case False
  have "cs = ds" if ds: "\<forall>c \<in> set ds. component_ok win c" and eq: "abs_path win cs = abs_path win ds" for ds
  proof -
    have j: "join [kAbsDirSeparator win] cs = join [kAbsDirSeparator win] ds" using eq by (simp add: abs_path_def)
    have c: "comps win (join [kAbsDirSeparator win] cs) = cs"
      using False assms by (intro split_on_join) (auto simp: isDirSeparator_abs)
    have "ds \<noteq> []"
    proof
      assume "ds = []"
      with c j have "cs = [[]]" by simp
      with assms show False by simp
    qed
    from join_components(1) [OF ds isDirSeparator_abs this] c [unfolded j] show ?thesis by (rule trans [OF sym, rotated])
  qed
  then have "abs_ok win (abs_path win cs) \<longleftrightarrow> (\<forall>c \<in> set cs. component_ok win c)"
    unfolding abs_ok_def by blast
  then have "AbsolutePathSanityCheck win (abs_path win cs) = Inr () \<longleftrightarrow> (\<forall>c \<in> set cs. component_ok win c)"
    by (simp add: AbsolutePathSanityCheck_abs_ok)
  moreover have "makeAbsolutePath win cs = (case AbsolutePathSanityCheck win (abs_path win cs) of
      Inl e \<Rightarrow> Inl e | Inr _ \<Rightarrow> Inr (abs_path win cs))"
    using False unfolding makeAbsolutePath_def abs_path_def Let_def by simp
  ultimately show ?thesis
    by (cases "AbsolutePathSanityCheck win (abs_path win cs)") auto
qed

lemma makeAbsolutePath_cases:
  assumes "\<forall>c \<in> set cs. c \<noteq> [] \<and> (\<forall>x \<in> set c. \<not> isDirSeparator win x)"
  shows "case makeAbsolutePath win cs of
      Inr p \<Rightarrow> list_all (\<lambda>c. PathComponentSanityCheck win c = Inr ()) cs \<and> AbsolutePathSanityCheck win p = Inr () \<and>
        p = abs_path win cs
    | Inl e \<Rightarrow> \<not> list_all (\<lambda>c. PathComponentSanityCheck win c = Inr ()) cs"
proof (cases "makeAbsolutePath win cs")
  case (Inl e)
  then show ?thesis
    using makeAbsolutePath_iff [OF assms, of "abs_path win cs"] by (auto simp: list_all_iff PathComponentSanityCheck_iff)
next
  case (Inr p)
  then have "\<forall>c \<in> set cs. component_ok win c" "p = abs_path win cs" using makeAbsolutePath_iff [OF assms] by auto
  moreover from this have "abs_ok win p" unfolding abs_ok_def by blast
  ultimately show ?thesis
    using Inr by (simp add: list_all_iff PathComponentSanityCheck_iff AbsolutePathSanityCheck_abs_ok)
qed

lemma normal_ok: "\<forall>c \<in> set cs. component_ok win c \<Longrightarrow> normal cs = (0, cs)"
  by (induction cs rule: rev_induct) (auto simp: normal_def normal_step_def component_ok_def)

lemma canonicalPathData_abs:
  assumes "\<forall>c \<in> set cs. component_ok win c"
  shows "cd_isAbsolute (canonicalPathData win (abs_path win cs))"
    and "cd_components (canonicalPathData win (abs_path win cs)) = cs"
proof -
  have "absolute_string win (abs_path win cs) \<and> snd (normal (path_pieces win (abs_path win cs))) = cs"
  proof (cases win)
    case True
    then have "startsWithUNC win (abs_path win cs)" "stripped win (abs_path win cs) = join [kAbsDirSeparator win] cs"
      by (simp_all add: startsWithUNC_def starts_with_def abs_path_def kRootStr_def stripped_def)
    then have "absolute_string win (abs_path win cs)" "path_pieces win (abs_path win cs) = cs"
      using parts_join [OF assms isDirSeparator_abs] by (simp add: absolute_string_def, simp only:)
    then show ?thesis using normal_ok [OF assms] by (simp only: snd_conv simp_thms)
  next
    case False
    then have "stripped win (abs_path win cs) = kDirSeparator # join [kDirSeparator] cs"
      by (simp add: startsWithUNC_def abs_path_def kRootStr_def stripped_def kAbsDirSeparator_def)
    moreover have "comps win (kDirSeparator # join [kDirSeparator] cs) = [] # comps win (join [kDirSeparator] cs)"
      by (simp add: isDirSeparator_def)
    moreover have "comps win (join [kDirSeparator] cs) = (if cs = [] then [[]] else cs)"
      using join_components(1) [OF assms isDirSeparator_kDirSeparator] by simp
    moreover have "normal ([] # (if cs = [] then [[]] else cs)) = normal cs"
      by (simp add: normal_def normal_step_def)
    ultimately show ?thesis
      using False normal_ok [OF assms]
      by (simp add: absolute_string_def startsWithUNC_def stripped_def)
  qed
  with canonicalPathData_normal [of win "abs_path win cs"]
  show "cd_isAbsolute (canonicalPathData win (abs_path win cs))"
    and "cd_components (canonicalPathData win (abs_path win cs)) = cs" by simp_all
qed

lemma append_canonical_kept:
  assumes "''..'' \<notin> set (snd s)"
  shows "append_canonical base (kept s) = take (length base - min 1 (fst s)) base @ snd s"
proof -
  have "append_canonical b (snd s) = b @ snd s" for b
    using assms by (cases "snd s") auto
  then show ?thesis by (simp add: kept_def butlast_conv_take)
qed

lemmas canonicalPathImpl_unfold = canonicalPathImpl.simps [unfolded Let_def]

lemma canonicalPath_absolute_spec:
  assumes "absolute_string win path"
  shows "canonicalPathImpl win os_cwd path base =
    Some (makeAbsolutePath win (snd (normal (path_pieces win path))))"
  using assms canonicalPathData_normal [of win path] by (subst canonicalPathImpl_unfold) simp

lemma canonicalPath_relative_spec:
  assumes "\<not> absolute_string win path" and "\<forall>c \<in> set bs. component_ok win c"
  defines "s \<equiv> normal (path_pieces win path)"
  shows "canonicalPathImpl win os_cwd path (Some (abs_path win bs)) =
    Some (makeAbsolutePath win (take (length bs - min 1 (fst s)) bs @ snd s))"
proof -
  have "''..'' \<notin> set (snd s)" using normal_set unfolding s_def by blast
  note append_canonical_kept [OF this, of bs]
  with assms(1) canonicalPathData_normal [of win path] canonicalPathData_abs(2) [OF assms(2)] show ?thesis
    by (subst canonicalPathImpl_unfold) (simp add: s_def)
qed

lemma canonicalPath_fixed:
  assumes "AbsolutePathSanityCheck win p = Inr ()"
  shows "canonicalPath win os_cwd p = Some (Inr p)"
proof -
  obtain cs where cs: "\<forall>c \<in> set cs. component_ok win c" "p = abs_path win cs"
    using assms by (auto simp: AbsolutePathSanityCheck_abs_ok abs_ok_def)
  then have "makeAbsolutePath win cs = Inr p"
    using makeAbsolutePath_iff [of cs win p] by (auto dest: component_ok_free component_ok_not_Nil)
  with canonicalPathData_abs [OF cs(1)] cs(2) show ?thesis
    unfolding canonicalPath_def by (subst canonicalPathImpl_unfold) simp
qed

section \<open>Properties\<close>

text \<open>
  C25: canonicalising an absolute string (one that starts with a separator, or on Windows
  with the UNC prefix or a drive letter) always returns, and does not consult the base or
  the working directory.  It succeeds exactly if the components left after resolving empty
  pieces, \<open>.\<close> and \<open>..\<close> are valid, and then it is the absolute path of these components.
\<close>

theorem canonicalPath_absolute:
  assumes "absolute_string win path"
  defines "cs \<equiv> snd (normal (path_pieces win path))"
  shows "\<exists>r. canonicalPath win os_cwd path = Some r \<and> canonicalPath_base win os_cwd path base = Some r \<and>
    (case r of
       Inr p \<Rightarrow> list_all (\<lambda>c. PathComponentSanityCheck win c = Inr ()) cs \<and> AbsolutePathSanityCheck win p = Inr () \<and>
         p = kRootStr win @ join [kAbsDirSeparator win] cs
     | Inl e \<Rightarrow> \<not> list_all (\<lambda>c. PathComponentSanityCheck win c = Inr ()) cs)"
proof -
  have free: "\<forall>c \<in> set cs. c \<noteq> [] \<and> (\<forall>x \<in> set c. \<not> isDirSeparator win x)"
    using normal_pieces_free unfolding cs_def by blast
  from makeAbsolutePath_cases [OF free] canonicalPath_absolute_spec [OF assms(1), folded cs_def] show ?thesis
    unfolding canonicalPath_def canonicalPath_base_def abs_path_def [symmetric] by blast
qed

theorem canonicalPath_absolute_witness:
  "\<exists>r. canonicalPath False (Inl 2) ''/a//./../b'' = Some r \<and>
    (case r of Inr p \<Rightarrow> p = ''/b'' | Inl e \<Rightarrow> False)"
proof -
  have p: "path_pieces False ''/a//./../b'' = [[], ''a'', [], ''.'', ''..'', ''b'']"
    by (simp add: stripped_def startsWithUNC_def sep_defs)
  then have abs: "absolute_string False ''/a//./../b''"
    by (simp add: absolute_string_def stripped_def startsWithUNC_def sep_defs)
  have "normal (path_pieces False ''/a//./../b'') = (0, [''b''])"
    unfolding p by (simp add: normal_def normal_step_def)
  moreover have "list_all (\<lambda>c. PathComponentSanityCheck False c = Inr ()) [''b'']"
    by (simp add: PathComponentSanityCheck_iff component_ok_def sep_defs utf8_ascii)
  ultimately show ?thesis
    using canonicalPath_absolute [OF abs, of "Inl 2" "[]"] by (auto simp: sep_defs split: sum.splits)
qed

text \<open>
  Canonicalisation leaves every valid absolute path unchanged.
\<close>

theorem canonicalPath_idempotent:
  assumes "AbsolutePathSanityCheck win p = Inr ()"
  shows "canonicalPath win os_cwd p = Some (Inr p)"
  using assms by (rule canonicalPath_fixed)

theorem canonicalPath_idempotent_witness: "canonicalPath False (Inl 2) ''/a/b'' = Some (Inr ''/a/b'')"
proof (rule canonicalPath_idempotent)
  have "abs_path False [''a'', ''b''] = ''/a/b''" by (simp add: abs_path_def sep_defs)
  moreover have "\<forall>c \<in> set [''a'', ''b'']. component_ok False c"
    by (simp add: component_ok_def sep_defs utf8_ascii)
  ultimately show "AbsolutePathSanityCheck False ''/a/b'' = Inr ()"
    unfolding AbsolutePathSanityCheck_abs_ok abs_ok_def by metis
qed

text \<open>
  Canonicalising a relative string against a valid base always returns.  Let the
  string climb \<open>u\<close> levels above its start and end in the components \<open>cs\<close>.  For \<open>u\<close> at
  most one the result is the base without its last \<open>u\<close> components followed by \<open>cs\<close>, if
  these are valid; for larger \<open>u\<close> the code still removes one component of the base only.
\<close>

theorem canonicalPath_relative:
  assumes "\<not> absolute_string win path" and "list_all (\<lambda>c. PathComponentSanityCheck win c = Inr ()) bs"
    and "normal (path_pieces win path) = (u, cs)"
  defines "result \<equiv> take (length bs - min 1 u) bs @ cs"
  shows "\<exists>r. canonicalPath_base win os_cwd path (kRootStr win @ join [kAbsDirSeparator win] bs) = Some r \<and>
    (case r of
       Inr p \<Rightarrow> list_all (\<lambda>c. PathComponentSanityCheck win c = Inr ()) cs \<and>
         p = kRootStr win @ join [kAbsDirSeparator win] result
     | Inl e \<Rightarrow> \<not> list_all (\<lambda>c. PathComponentSanityCheck win c = Inr ()) cs)"
proof -
  have bs: "\<forall>c \<in> set bs. component_ok win c" using assms(2) by (simp add: list_all_iff PathComponentSanityCheck_iff)
  then have ok: "\<forall>c \<in> set (take n bs). component_ok win c" for n by (auto dest: in_set_takeD)
  have "\<forall>c \<in> set cs. c \<noteq> [] \<and> (\<forall>x \<in> set c. \<not> isDirSeparator win x)"
    using normal_pieces_free [of _ win path] assms(3) by simp
  with ok have "\<forall>c \<in> set result. c \<noteq> [] \<and> (\<forall>x \<in> set c. \<not> isDirSeparator win x)"
    by (auto simp: result_def dest: component_ok_free component_ok_not_Nil)
  note cases = makeAbsolutePath_cases [OF this]
  have "list_all (\<lambda>c. PathComponentSanityCheck win c = Inr ()) result \<longleftrightarrow>
      list_all (\<lambda>c. PathComponentSanityCheck win c = Inr ()) cs"
    using ok by (auto simp: result_def list_all_iff PathComponentSanityCheck_iff)
  moreover have "canonicalPathImpl win os_cwd path (Some (abs_path win bs)) = Some (makeAbsolutePath win result)"
    using canonicalPath_relative_spec [OF assms(1) bs, of os_cwd] unfolding assms(3) result_def fst_conv snd_conv .
  ultimately show ?thesis
    using cases unfolding canonicalPath_base_def abs_path_def [symmetric]
    by (cases "makeAbsolutePath win result") auto
qed

theorem canonicalPath_relative_witness:
  "(\<exists>r. canonicalPath_base False (Inl 2) ''../c'' ''/a/b'' = Some r \<and> (case r of Inr p \<Rightarrow> p = ''/a/c'' | Inl e \<Rightarrow> False)) \<and>
   (\<exists>r. canonicalPath_base False (Inl 2) ''../..'' ''/a/b'' = Some r \<and> (case r of Inr p \<Rightarrow> p = ''/a'' | Inl e \<Rightarrow> False))"
proof -
  have p: "path_pieces False ''../c'' = [''..'', ''c'']" "path_pieces False ''../..'' = [''..'', ''..'']"
    by (simp_all add: stripped_def startsWithUNC_def sep_defs)
  have rel: "\<not> absolute_string False ''../c''" "\<not> absolute_string False ''../..''"
    by (simp_all add: absolute_string_def startsWithUNC_def drive_piece_def sep_defs)
  have n: "normal (path_pieces False ''../c'') = (1, [''c''])" "normal (path_pieces False ''../..'') = (2, [])"
    unfolding p by (simp_all add: normal_def normal_step_def)
  have ok: "PathComponentSanityCheck False ''a'' = Inr ()" "PathComponentSanityCheck False ''b'' = Inr ()"
    "PathComponentSanityCheck False ''c'' = Inr ()"
    by (simp_all add: PathComponentSanityCheck_iff component_ok_def sep_defs utf8_ascii)
  then have l: "list_all (\<lambda>c. PathComponentSanityCheck False c = Inr ()) [''a'', ''b'']" by simp
  show ?thesis
    using canonicalPath_relative [OF rel(1) l n(1), of "Inl 2"] canonicalPath_relative [OF rel(2) l n(2), of "Inl 2"] ok
    by (auto simp: sep_defs split: sum.splits)
qed

text \<open>The working directory the system reports is an absolute string.\<close>

lemma getcwd_returns:
  assumes "absolute_string win cwd"
  shows "\<exists>r. getcwd win (Inr cwd) = Some r \<and> (\<forall>p. r = Inr p \<longrightarrow> abs_ok win p)"
proof -
  have "\<forall>c \<in> set (snd (normal (path_pieces win cwd))). c \<noteq> [] \<and> (\<forall>x \<in> set c. \<not> isDirSeparator win x)"
    using normal_pieces_free by blast
  note makeAbsolutePath_cases [OF this]
  with canonicalPath_absolute_spec [OF assms, of "Inr cwd" None] show ?thesis
    by (auto simp: getcwd_def canonicalPath_def AbsolutePathSanityCheck_abs_ok)
qed

lemma canonicalPath_cwd:
  assumes "\<not> absolute_string win path"
  shows "canonicalPath win (Inr cwd) path =
    Option.bind (getcwd win (Inr cwd))
      (\<lambda>r. case r of Inl e \<Rightarrow> Some (Inl e) | Inr b \<Rightarrow> canonicalPath_base win (Inr cwd) path b)"
proof -
  have rel: "\<not> cd_isAbsolute (canonicalPathData win path)"
    using canonicalPathData_normal [of win path] assms by simp
  have base: "canonicalPathImpl win (Inr cwd) path (Some b) =
      Some (makeAbsolutePath win (append_canonical (cd_components (canonicalPathData win b))
        (cd_components (canonicalPathData win path))))" for b
    using rel by (subst canonicalPathImpl_unfold) simp
  show ?thesis
    unfolding canonicalPath_def getcwd_def canonicalPath_base_def base
    using rel by (subst canonicalPathImpl_unfold) (simp cong: sum.case_cong)
qed

lemma starts_with_sep: "starts_with p [kDirSeparator] \<longleftrightarrow> (\<exists>q. p = kDirSeparator # q)"
  by (cases p) (auto simp: starts_with_def)

lemma kept_hd: "kept s \<noteq> [] \<and> hd (kept s) = ''..'' \<longleftrightarrow> fst s > 0" if "''..'' \<notin> set (snd s)"
  using that by (cases "snd s") (auto simp: kept_def)

lemma absolute_string_posix: "absolute_string False p \<longleftrightarrow> starts_with p [kDirSeparator]"
  by (cases p) (auto simp: absolute_string_def startsWithUNC_def drive_piece_def starts_with_def isDirSeparator_def)

lemma joinAndNormalize_posix_spec:
  assumes "rel_ok False base" and "\<not> starts_with path [kDirSeparator]"
  defines "s \<equiv> normal (parts False base @ parts False path)"
  shows "joinAndNormalize False base path =
    (if fst s > 0 then Inr (Inl EXDEV)
     else (case RelativePath_of_strings False (snd s) of Inl e \<Rightarrow> Inl e | Inr r \<Rightarrow> Inr (Inr r)))"
proof -
  define joined where
    "joined = (if base = [] then path else if path = [] then base else base @ [kDirSeparator] @ path)"
  have pieces: "path_pieces False joined = parts False base @ parts False path"
    by (auto simp: joined_def stripped_def startsWithUNC_def split_on_sep isDirSeparator_def)
  have "\<not> starts_with base [kDirSeparator]"
    using assms(1) by (auto simp: starts_with_sep rel_ok_def isDirSeparator_def)
  then have "\<not> absolute_string False joined"
    unfolding absolute_string_posix using assms(2) by (cases base) (auto simp: joined_def starts_with_def)
  then have comps: "cd_components (canonicalPathData False joined) = kept s"
    using canonicalPathData_normal [of False joined] unfolding pieces s_def by simp
  have "''..'' \<notin> set (snd s)" using normal_set unfolding s_def by blast
  note hd = kept_hd [OF this]
  have "fst s = 0 \<Longrightarrow> kept s = snd s" by (simp add: kept_def)
  with hd comps assms(2) show ?thesis
    unfolding joinAndNormalize_def joined_def [symmetric] Let_def by auto
qed

text \<open>
  On POSIX systems \<open>joinAndNormalize\<close> of a valid relative base and an arbitrary string
  reports \<open>EPERM\<close> exactly for absolute strings and \<open>EXDEV\<close> exactly for strings that
  climb above the base; in all other cases it returns the valid relative path of the
  normalised components of both, or throws if one of these is no valid component.
\<close>

theorem joinAndNormalize_posix:
  assumes "RelativePathSanityCheck False base = Inr ()"
  shows "let s = normal (parts False base @ parts False path);
             r = joinAndNormalize False base path in
    (r = Inr (Inl EPERM) \<longleftrightarrow> starts_with path [kDirSeparator]) \<and>
    (r = Inr (Inl EXDEV) \<longleftrightarrow> \<not> starts_with path [kDirSeparator] \<and> fst s > 0) \<and>
    (\<not> starts_with path [kDirSeparator] \<and> fst s = 0 \<longrightarrow>
       (if list_all (\<lambda>c. PathComponentSanityCheck False c = Inr ()) (snd s)
        then \<exists>p. r = Inr (Inr p) \<and> RelativePathSanityCheck False p = Inr () \<and> components False False p = Some (snd s)
        else \<exists>e. r = Inl e))"
proof (cases "starts_with path [kDirSeparator]")
  case True
  then show ?thesis by (simp add: Let_def joinAndNormalize_def EPERM_def EXDEV_def)
next
  case False
  define s where "s = normal (parts False base @ parts False path)"
  have "rel_ok False base" using assms by (simp add: RelativePathSanityCheck_rel_ok)
  note spec = joinAndNormalize_posix_spec [OF this False, folded s_def]
  note iff = check_components_iff [of False "snd s"]
  have "case RelativePath_of_strings False (snd s) of
      Inr p \<Rightarrow> (\<forall>c \<in> set (snd s). component_ok False c) \<and> rel_ok False p \<and> components False False p = Some (snd s)
    | Inl e \<Rightarrow> \<not> (\<forall>c \<in> set (snd s). component_ok False c)"
  proof (cases "check_components False (snd s)")
    case (Inl e)
    then have "\<not> (\<forall>c \<in> set (snd s). component_ok False c)" using iff by auto
    with Inl show ?thesis by (simp add: RelativePath_of_strings_def)
  next
    case (Inr vs)
    then have ok: "\<forall>c \<in> set (snd s). component_ok False c" "vs = snd s" using iff by auto
    have rel: "rel_ok False (join [kDirSeparator] (snd s))" by (rule rel_ok_join [OF ok(1) isDirSeparator_kDirSeparator])
    have "components False False (join [kDirSeparator] (snd s)) = Some (snd s)"
      using components_rel [OF rel] parts_join [OF ok(1) isDirSeparator_kDirSeparator] by (simp only:)
    with Inr ok rel show ?thesis by (simp add: RelativePath_of_strings_def)
  qed
  with False spec show ?thesis
    unfolding Let_def s_def [symmetric] list_all_iff PathComponentSanityCheck_iff RelativePathSanityCheck_rel_ok
    by (cases "RelativePath_of_strings False (snd s)") (auto simp: EPERM_def EXDEV_def)
qed

theorem joinAndNormalize_posix_witness:
  "joinAndNormalize False ''a'' ''../..'' = Inr (Inl EXDEV) \<and> joinAndNormalize False ''a'' ''/b'' = Inr (Inl EPERM)"
proof -
  have ok: "RelativePathSanityCheck False ''a'' = Inr ()"
    by (simp add: RelativePathSanityCheck_rel_ok rel_ok_def component_ok_def sep_defs utf8_ascii)
  have "normal (parts False ''a'' @ parts False ''../..'') = (1, [])"
    by (simp add: sep_defs normal_def normal_step_def)
  moreover have "starts_with ''/b'' [kDirSeparator]" "\<not> starts_with ''../..'' [kDirSeparator]"
    by (simp_all add: starts_with_def kDirSeparator_def)
  ultimately show ?thesis
    using joinAndNormalize_posix [OF ok, of "''../..''"] joinAndNormalize_posix [OF ok, of "''/b''"]
    unfolding Let_def by (simp only: fst_conv simp_thms zero_less_one)
qed

text \<open>
  \<open>expandUser\<close>, when the system reports an absolute working directory, always
  returns.  A path that does not start with a tilde is canonicalised; a tilde followed by
  anything but a slash, and a missing or empty home directory, throw; otherwise the tilde is
  replaced by the home directory before canonicalisation.
\<close>

theorem expandUser_correct:
  assumes "absolute_string win cwd"
  shows "expandUser win (Inr cwd) path homeDir \<noteq> None \<and>
    (hd (path @ [CHR ''x'']) \<noteq> CHR ''~'' \<longrightarrow> expandUser win (Inr cwd) path homeDir = canonicalPath win (Inr cwd) path) \<and>
    (\<forall>user. path = CHR ''~'' # user \<and> user \<noteq> [] \<and> hd user \<noteq> CHR ''/'' \<longrightarrow>
       expandUser win (Inr cwd) path homeDir = Some (Inl RuntimeError)) \<and>
    (\<forall>rest. (path = ''~'' \<or> path = CHR ''~'' # CHR ''/'' # rest) \<and> homeDir \<in> {None, Some []} \<longrightarrow>
       expandUser win (Inr cwd) path homeDir = Some (Inl RuntimeError)) \<and>
    (\<forall>rest home. path = CHR ''~'' # CHR ''/'' # rest \<and> homeDir = Some home \<and> home \<noteq> [] \<longrightarrow>
       expandUser win (Inr cwd) path homeDir = canonicalPath win (Inr cwd) (home @ CHR ''/'' # rest)) \<and>
    (\<forall>home. path = ''~'' \<and> homeDir = Some home \<and> home \<noteq> [] \<longrightarrow>
       expandUser win (Inr cwd) path homeDir = canonicalPath win (Inr cwd) home)"
proof -
  have total: "canonicalPath win (Inr cwd) p \<noteq> None" for p
  proof (cases "absolute_string win p")
    case True
    then show ?thesis using canonicalPath_absolute_spec by (simp add: canonicalPath_def)
  next
    case False
    obtain r where r: "getcwd win (Inr cwd) = Some r" "\<forall>b. r = Inr b \<longrightarrow> abs_ok win b"
      using getcwd_returns [OF assms] by blast
    show ?thesis
    proof (cases r)
      case (Inl e)
      with r(1) canonicalPath_cwd [OF False, of cwd] show ?thesis by simp
    next
      case (Inr b)
      with r(2) obtain bs where bs: "b = abs_path win bs" "\<forall>c \<in> set bs. component_ok win c"
        by (auto simp: abs_ok_def)
      from canonicalPath_relative_spec [OF False bs(2), of "Inr cwd"] r(1) Inr canonicalPath_cwd [OF False, of cwd] bs(1)
      show ?thesis by (simp add: canonicalPath_base_def)
    qed
  qed
  show ?thesis
    using total
    by (cases path; cases "tl path"; cases homeDir)
      (auto simp: expandUser_def starts_with_def kDirSeparator_def)
qed

theorem expandUser_correct_witness:
  "expandUser False (Inr ''/'') ''~bob'' (Some ''/home/me'') = Some (Inl RuntimeError)"
proof -
  have "absolute_string False ''/''" by (simp add: absolute_string_posix starts_with_def kDirSeparator_def)
  from expandUser_correct [OF this, of "''~bob''" "Some ''/home/me''"] show ?thesis by auto
qed

text \<open>
  \<open>realpathExpected\<close> on a C string reports the error of the system call as a value and
  \<open>realpath\<close> throws it; the overload of \<open>realpathExpected\<close> for string views throws it
  too.  On success all three agree.  \<open>normalizeBestEffort\<close> falls back to
  \<open>canonicalPath\<close> exactly if the system call fails.
\<close>

theorem realpath_errors:
  "(\<forall>errno. os_realpath path = Inl errno \<longrightarrow>
      realpathExpected win os_realpath os_cwd path = Some (Inr (Inl errno)) \<and>
      realpath win os_realpath os_cwd path = Some (Inl (SystemError errno)) \<and>
      normalizeBestEffort win os_realpath os_cwd path = canonicalPath win os_cwd path) \<and>
   (\<forall>errno. os_realpath (c_str path) = Inl errno \<longrightarrow>
      realpathExpected_view win os_realpath os_cwd path = Some (Inl (SystemError errno))) \<and>
   (\<forall>p. AbsolutePathSanityCheck win p = Inr () \<and> os_realpath path = Inr p \<longrightarrow>
      realpathExpected win os_realpath os_cwd path = Some (Inr (Inr p)) \<and>
      realpath win os_realpath os_cwd path = Some (Inr p) \<and>
      normalizeBestEffort win os_realpath os_cwd path = Some (Inr p))"
proof -
  have "canonicalPath win os_cwd p = Some (Inr p)" if "AbsolutePathSanityCheck win p = Inr ()" for p
    by (rule canonicalPath_fixed [OF that])
  then show ?thesis
    by (auto simp: realpathExpected_def realpath_def realpathExpected_view_def normalizeBestEffort_def canonicalPath_def)
qed

theorem realpath_errors_witness:
  "realpathExpected False (\<lambda>_. Inl 2) (Inr ''/'') ''/x'' = Some (Inr (Inl 2)) \<and>
   realpathExpected_view False (\<lambda>_. Inl 2) (Inr ''/'') ''/x'' = Some (Inl (SystemError 2))"
  using realpath_errors [of "\<lambda>_. Inl 2" "''/x''" False "Inr ''/''"] by simp

end
