(* ===== verification/Path_Map.thy ===== *)
theory Path_Map
  imports Path_Compare
begin

text \<open>
  \<open>PathMap\<close> of \<open>PathMap.h\<close>: an associative container kept as a sorted vector.

  The record holds the vector of pairs and the case sensitivity of the comparator; an
  iterator is an index into the vector, \<open>end()\<close> its length.  The key type is the default
  \<open>PathComponent\<close>, so the comparator is the one for components.

  The locale \<open>entry_map\<close> is the contract of a map keyed by a strict weak order: lookups
  after \<open>emplace\<close> and \<open>erase\<close>, and what these report.  Its client lemmas describe every
  sequence of operations by the abstract map \<open>'k \<rightharpoonup> ('k \<times> 'v)\<close>.  \<open>PathMap\<close> is an
  interpretation of it, with the invariant that the vector is sorted without equivalent
  keys.
\<close>

section \<open>Definitions\<close>

record 'v path_map =
  pm_vec :: "(string \<times> 'v) list"
  pm_caseSensitive :: CaseSensitivity

definition pm_compare :: "bool \<Rightarrow> 'v path_map \<Rightarrow> string \<Rightarrow> string \<Rightarrow> bool" where
  "pm_compare csg m a b = isPathPieceLess_component csg (pm_caseSensitive m) a b"

definition pm_make :: "CaseSensitivity \<Rightarrow> 'v path_map" where
  "pm_make caseSensitive = \<lparr>pm_vec = [], pm_caseSensitive = caseSensitive\<rparr>"

definition pm_end :: "'v path_map \<Rightarrow> nat" where
  "pm_end m = length (pm_vec m)"

definition pm_lower_bound :: "bool \<Rightarrow> 'v path_map \<Rightarrow> string \<Rightarrow> nat" where
  "pm_lower_bound csg m key = lower_bound (\<lambda>e. pm_compare csg m (fst e) key) (pm_vec m) 0 (length (pm_vec m))"

definition pm_find :: "bool \<Rightarrow> 'v path_map \<Rightarrow> string \<Rightarrow> nat" where
  "pm_find csg m key =
     (let iter = pm_lower_bound csg m key in
      if iter \<noteq> pm_end m \<and> \<not> pm_compare csg m key (fst (pm_vec m ! iter)) then iter else pm_end m)"

definition vector_insert :: "nat \<Rightarrow> 'a \<Rightarrow> 'a list \<Rightarrow> 'a list" where
  "vector_insert i x xs = take i xs @ x # drop i xs"

definition vector_erase :: "nat \<Rightarrow> 'a list \<Rightarrow> 'a list" where
  "vector_erase i xs = take i xs @ drop (Suc i) xs"

definition pm_insert :: "bool \<Rightarrow> string \<times> 'v \<Rightarrow> 'v path_map \<Rightarrow> 'v path_map \<times> nat \<times> bool" where
  "pm_insert csg val m =
     (let iter = pm_lower_bound csg m (fst val) in
      if iter \<noteq> pm_end m \<and> \<not> pm_compare csg m (fst val) (fst (pm_vec m ! iter)) then (m, iter, False)
      else (m\<lparr>pm_vec := vector_insert iter val (pm_vec m)\<rparr>, iter, True))"

definition pm_emplace :: "bool \<Rightarrow> string \<Rightarrow> 'v \<Rightarrow> 'v path_map \<Rightarrow> 'v path_map \<times> nat \<times> bool" where
  "pm_emplace csg key value m =
     (let iter = pm_lower_bound csg m key in
      if iter \<noteq> pm_end m \<and> \<not> pm_compare csg m key (fst (pm_vec m ! iter)) then (m, iter, False)
      else (m\<lparr>pm_vec := vector_insert iter (key, value) (pm_vec m)\<rparr>, iter, True))"

text \<open>\<open>operator[]\<close> returns the position of the value; \<open>dflt\<close> is \<open>mapped_type()\<close>.\<close>

definition pm_subscript :: "bool \<Rightarrow> 'v \<Rightarrow> string \<Rightarrow> 'v path_map \<Rightarrow> 'v path_map \<times> nat" where
  "pm_subscript csg dflt key m =
     (let iter = pm_lower_bound csg m key in
      if iter \<noteq> pm_end m \<and> \<not> pm_compare csg m key (fst (pm_vec m ! iter)) then (m, iter)
      else (m\<lparr>pm_vec := vector_insert iter (key, dflt) (pm_vec m)\<rparr>, iter))"

definition pm_at :: "bool \<Rightarrow> 'v path_map \<Rightarrow> string \<Rightarrow> 'v result" where
  "pm_at csg m key =
     (let iter = pm_find csg m key in
      if iter = pm_end m then Inl OutOfRange else Inr (snd (pm_vec m ! iter)))"

definition pm_erase :: "bool \<Rightarrow> string \<Rightarrow> 'v path_map \<Rightarrow> 'v path_map \<times> nat" where
  "pm_erase csg key m =
     (let iter = pm_find csg m key in
      if iter = pm_end m then (m, 0)
      else (m\<lparr>pm_vec := vector_erase iter (pm_vec m)\<rparr>, 1))"

definition pm_count :: "bool \<Rightarrow> 'v path_map \<Rightarrow> string \<Rightarrow> nat" where
  "pm_count csg m key = (if pm_find csg m key \<noteq> pm_end m then 1 else 0)"

definition pm_swap :: "'v path_map \<times> 'v path_map \<Rightarrow> 'v path_map \<times> 'v path_map" where
  "pm_swap mm = (case mm of (a, b) \<Rightarrow>
     (\<lparr>pm_vec = pm_vec b, pm_caseSensitive = pm_caseSensitive b\<rparr>,
      \<lparr>pm_vec = pm_vec a, pm_caseSensitive = pm_caseSensitive a\<rparr>))"

text \<open>Copy assignment copies and swaps; the old contents are destroyed with the copy.\<close>

definition pm_assign :: "'v path_map \<Rightarrow> 'v path_map \<Rightarrow> 'v path_map" where
  "pm_assign this other = snd (pm_swap (\<lparr>pm_vec = pm_vec other, pm_caseSensitive = pm_caseSensitive other\<rparr>, this))"

definition pm_equal :: "'v path_map \<Rightarrow> 'v path_map \<Rightarrow> bool" where
  "pm_equal lhs rhs = (pm_vec lhs = pm_vec rhs)"

definition pm_from_range :: "bool \<Rightarrow> (string \<times> 'v) list \<Rightarrow> CaseSensitivity \<Rightarrow> 'v path_map" where
  "pm_from_range csg entries caseSensitive =
     foldl (\<lambda>m e. fst (pm_insert csg e m)) (pm_make caseSensitive) entries"

fun needsSortAndOrDedupe :: "(string \<Rightarrow> string \<Rightarrow> bool) \<Rightarrow> (string \<times> 'v) list \<Rightarrow> bool" where
  "needsSortAndOrDedupe lt (x # y # ys) = (\<not> lt (fst x) (fst y) \<or> needsSortAndOrDedupe lt (y # ys))"
| "needsSortAndOrDedupe lt _ = False"

definition pm_from_vector ::
  "(char \<Rightarrow> char \<Rightarrow> bool) \<Rightarrow> bool \<Rightarrow> (string \<times> 'v) list \<Rightarrow> CaseSensitivity \<Rightarrow> 'v path_map" where
  "pm_from_vector aci csg entries caseSensitive =
     (let lt = isPathPieceLess_component csg caseSensitive;
          vec = (if needsSortAndOrDedupe lt entries
                 then std_unique (\<lambda>a b. isPathPieceEqual_component aci caseSensitive (fst a) (fst b))
                        (stable_sort (\<lambda>a b. lt (fst a) (fst b)) entries)
                 else entries)
      in \<lparr>pm_vec = vec, pm_caseSensitive = caseSensitive\<rparr>)"

text \<open>The three loops of \<open>collatePathMaps\<close>; the result is filled with \<open>emplace\<close>.\<close>

fun collate_loop :: "(char \<Rightarrow> char \<Rightarrow> bool) \<Rightarrow> bool \<Rightarrow> CaseSensitivity \<Rightarrow> (string \<times> 'a) list \<Rightarrow> (string \<times> 'b) list \<Rightarrow>
    ('a option \<times> 'b option) path_map \<Rightarrow> ('a option \<times> 'b option) path_map" where
  "collate_loop aci csg cs (a # as) (b # bs) res =
     (if isPathPieceEqual_component aci cs (fst a) (fst b) then
        collate_loop aci csg cs as bs (fst (pm_emplace csg (fst a) (Some (snd a), Some (snd b)) res))
      else if isPathPieceLess_component csg cs (fst a) (fst b) then
        collate_loop aci csg cs as (b # bs) (fst (pm_emplace csg (fst a) (Some (snd a), None) res))
      else collate_loop aci csg cs (a # as) bs (fst (pm_emplace csg (fst b) (None, Some (snd b)) res)))"
| "collate_loop aci csg cs (a # as) [] res =
     collate_loop aci csg cs as [] (fst (pm_emplace csg (fst a) (Some (snd a), None) res))"
| "collate_loop aci csg cs [] (b # bs) res =
     collate_loop aci csg cs [] bs (fst (pm_emplace csg (fst b) (None, Some (snd b)) res))"
| "collate_loop aci csg cs [] [] res = res"

definition collatePathMaps ::
  "(char \<Rightarrow> char \<Rightarrow> bool) \<Rightarrow> bool \<Rightarrow> 'a path_map \<Rightarrow> 'b path_map \<Rightarrow> ('a option \<times> 'b option) path_map" where
  "collatePathMaps aci csg a b =
     (let caseSensitivity =
        (if pm_caseSensitive a = pm_caseSensitive b then pm_caseSensitive a else Insensitive)
      in collate_loop aci csg caseSensitivity (pm_vec a) (pm_vec b) (pm_make caseSensitivity))"

section \<open>The contract of a map\<close>

datatype ('k, 'v) map_op = Emplace 'k 'v | Erase 'k

text \<open>What an operation does to the abstract map, and whether it changes it.\<close>

fun spec_op :: "('k \<Rightarrow> 'k \<Rightarrow> bool) \<Rightarrow> ('k, 'v) map_op \<Rightarrow> ('k \<Rightarrow> ('k \<times> 'v) option) \<Rightarrow> ('k \<Rightarrow> ('k \<times> 'v) option) \<times> bool" where
  "spec_op lt (Emplace k v) M =
     (\<lambda>k'. if \<not> lt k k' \<and> \<not> lt k' k then Some (case M k of None \<Rightarrow> (k, v) | Some e \<Rightarrow> e) else M k', M k = None)"
| "spec_op lt (Erase k) M = (\<lambda>k'. if \<not> lt k k' \<and> \<not> lt k' k then None else M k', M k \<noteq> None)"

fun spec_ops :: "('k \<Rightarrow> 'k \<Rightarrow> bool) \<Rightarrow> ('k, 'v) map_op list \<Rightarrow> ('k \<Rightarrow> ('k \<times> 'v) option) \<Rightarrow> ('k \<Rightarrow> ('k \<times> 'v) option) \<times> bool list" where
  "spec_ops lt [] M = (M, [])"
| "spec_ops lt (p # ops) M =
     (let (M', b) = spec_op lt p M; (M'', bs) = spec_ops lt ops M' in (M'', b # bs))"

fun run_op :: "('k \<Rightarrow> 'v \<Rightarrow> 's \<Rightarrow> 's \<times> bool) \<Rightarrow> ('k \<Rightarrow> 's \<Rightarrow> 's \<times> nat) \<Rightarrow> ('k, 'v) map_op \<Rightarrow> 's \<Rightarrow> 's \<times> bool" where
  "run_op emplace erase (Emplace k v) s = emplace k v s"
| "run_op emplace erase (Erase k) s = (case erase k s of (s', n) \<Rightarrow> (s', n = 1))"

fun run_ops :: "('k \<Rightarrow> 'v \<Rightarrow> 's \<Rightarrow> 's \<times> bool) \<Rightarrow> ('k \<Rightarrow> 's \<Rightarrow> 's \<times> nat) \<Rightarrow> ('k, 'v) map_op list \<Rightarrow> 's \<Rightarrow> 's \<times> bool list" where
  "run_ops emplace erase [] s = (s, [])"
| "run_ops emplace erase (p # ops) s =
     (let (s', b) = run_op emplace erase p s; (s'', bs) = run_ops emplace erase ops s' in (s'', b # bs))"

locale entry_map = strict_weak_order lt for lt :: "'k \<Rightarrow> 'k \<Rightarrow> bool" +
  fixes invar :: "'s \<Rightarrow> bool"
    and lookup :: "'s \<Rightarrow> 'k \<Rightarrow> ('k \<times> 'v) option"
    and emplace :: "'k \<Rightarrow> 'v \<Rightarrow> 's \<Rightarrow> 's \<times> bool"
    and erase :: "'k \<Rightarrow> 's \<Rightarrow> 's \<times> nat"
  assumes lookup_key: "invar s \<Longrightarrow> lookup s k = Some e \<Longrightarrow> \<not> lt (fst e) k \<and> \<not> lt k (fst e)"
    and lookup_cong: "invar s \<Longrightarrow> \<not> lt k k' \<Longrightarrow> \<not> lt k' k \<Longrightarrow> lookup s k = lookup s k'"
    and emplace_invar: "invar s \<Longrightarrow> invar (fst (emplace k v s))"
    and emplace_reports: "invar s \<Longrightarrow> snd (emplace k v s) \<longleftrightarrow> lookup s k = None"
    and emplace_lookup: "invar s \<Longrightarrow> lookup (fst (emplace k v s)) k' =
      (if \<not> lt k k' \<and> \<not> lt k' k then Some (case lookup s k of None \<Rightarrow> (k, v) | Some e \<Rightarrow> e) else lookup s k')"
    and erase_invar: "invar s \<Longrightarrow> invar (fst (erase k s))"
    and erase_reports: "invar s \<Longrightarrow> snd (erase k s) = (if lookup s k = None then 0 else 1)"
    and erase_lookup: "invar s \<Longrightarrow> lookup (fst (erase k s)) k' =
      (if \<not> lt k k' \<and> \<not> lt k' k then None else lookup s k')"
begin

lemma run_op_spec:
  assumes "invar s"
  shows "invar (fst (run_op emplace erase p s)) \<and>
    (lookup (fst (run_op emplace erase p s)), snd (run_op emplace erase p s)) = spec_op lt p (lookup s)"
proof (cases p)
  case (Emplace k v)
  with assms emplace_invar emplace_reports emplace_lookup show ?thesis by auto
next
  case (Erase k)
  obtain s' n where "erase k s = (s', n)" by (cases "erase k s")
  with Erase erase_invar [OF assms, of k] erase_reports [OF assms, of k] erase_lookup [OF assms, of k]
  show ?thesis by auto
qed

lemma run_ops_spec:
  "invar s \<Longrightarrow> invar (fst (run_ops emplace erase ops s)) \<and>
    (lookup (fst (run_ops emplace erase ops s)), snd (run_ops emplace erase ops s)) = spec_ops lt ops (lookup s)"
proof (induction ops arbitrary: s)
  case (Cons p ops)
  obtain s' b where p: "run_op emplace erase p s = (s', b)" by (cases "run_op emplace erase p s")
  with run_op_spec [OF Cons.prems, of p] have inv: "invar s'" and spec: "spec_op lt p (lookup s) = (lookup s', b)"
    by auto
  obtain s'' bs where r: "run_ops emplace erase ops s' = (s'', bs)" by (cases "run_ops emplace erase ops s'")
  with Cons.IH [OF inv] have "invar s''" "spec_ops lt ops (lookup s') = (lookup s'', bs)" by auto
  with p spec r show ?case by simp
qed simp

text \<open>Emplacing a sequence of entries keeps, for every key, the first entry for it.\<close>

lemma emplace_all:
  assumes "invar s"
  shows "invar (foldl (\<lambda>s e. fst (emplace (fst e) (snd e) s)) s es)"
    and "lookup (foldl (\<lambda>s e. fst (emplace (fst e) (snd e) s)) s es) k =
      (case lookup s k of Some e \<Rightarrow> Some e | None \<Rightarrow> entry_at lt es k)"
proof -
  have "invar (foldl (\<lambda>s e. fst (emplace (fst e) (snd e) s)) s es) \<and>
    lookup (foldl (\<lambda>s e. fst (emplace (fst e) (snd e) s)) s es) k =
      (case lookup s k of Some e \<Rightarrow> Some e | None \<Rightarrow> entry_at lt es k)"
    using assms
  proof (induction es arbitrary: s)
    case (Cons e es)
    let ?s = "fst (emplace (fst e) (snd e) s)"
    have "lookup ?s k = (case lookup s k of Some e \<Rightarrow> Some e
        | None \<Rightarrow> if \<not> lt (fst e) k \<and> \<not> lt k (fst e) then Some e else None)"
      using emplace_lookup [OF Cons.prems, of "fst e" "snd e" k] lookup_cong [OF Cons.prems, of "fst e" k]
      by (auto split: option.split)
    with Cons.IH [OF emplace_invar [OF Cons.prems]] show ?case
      by (auto simp: entry_at_def split: option.split)
  qed (simp add: entry_at_def split: option.split)
  then show "invar (foldl (\<lambda>s e. fst (emplace (fst e) (snd e) s)) s es)"
    and "lookup (foldl (\<lambda>s e. fst (emplace (fst e) (snd e) s)) s es) k =
      (case lookup s k of Some e \<Rightarrow> Some e | None \<Rightarrow> entry_at lt es k)" by blast+
qed

end

section \<open>PathMap provides the contract\<close>

definition pm_invar :: "bool \<Rightarrow> CaseSensitivity \<Rightarrow> 'v path_map \<Rightarrow> bool" where
  "pm_invar csg caseSensitive m =
     (pm_caseSensitive m = caseSensitive \<and> keys_sorted (isPathPieceLess_component csg caseSensitive) (pm_vec m))"

text \<open>What the iterator that \<open>find\<close> returns refers to.\<close>

definition pm_lookup :: "bool \<Rightarrow> 'v path_map \<Rightarrow> string \<Rightarrow> (string \<times> 'v) option" where
  "pm_lookup csg m key =
     (let iter = pm_find csg m key in if iter = pm_end m then None else Some (pm_vec m ! iter))"

abbreviation pm_emplace_op :: "bool \<Rightarrow> string \<Rightarrow> 'v \<Rightarrow> 'v path_map \<Rightarrow> 'v path_map \<times> bool" where
  "pm_emplace_op csg k v m \<equiv> (fst (pm_emplace csg k v m), snd (snd (pm_emplace csg k v m)))"

lemma pm_lower_bound_bounds: "pm_lower_bound csg m key \<le> pm_end m"
  using lower_bound_bounds [of 0 _ "pm_vec m" "length (pm_vec m)"] by (simp add: pm_lower_bound_def pm_end_def)

lemma pm_lookup_entry_at:
  assumes "pm_invar csg cs m"
  shows "pm_lookup csg m k = entry_at (isPathPieceLess_component csg cs) (pm_vec m) k"
    and "pm_find csg m k = (case pm_lookup csg m k of None \<Rightarrow> pm_end m | Some _ \<Rightarrow> pm_lower_bound csg m k)"
    and "pm_lookup csg m k = Some e \<Longrightarrow> pm_lower_bound csg m k < pm_end m \<and> pm_vec m ! pm_lower_bound csg m k = e"
  using piece_order.entry_at_lower_bound [of csg cs "pm_vec m" k] pm_lower_bound_bounds [of csg m k] assms
  by (auto simp: pm_lookup_def pm_find_def pm_lower_bound_def pm_invar_def pm_compare_def pm_end_def Let_def
      split: if_splits)

lemma pm_emplace_cases:
  assumes "pm_invar csg cs m"
  shows "pm_emplace csg k v m = (case pm_lookup csg m k of
      Some _ \<Rightarrow> (m, pm_lower_bound csg m k, False)
    | None \<Rightarrow> (m\<lparr>pm_vec := vector_insert (pm_lower_bound csg m k) (k, v) (pm_vec m)\<rparr>, pm_lower_bound csg m k, True))"
  by (auto simp: pm_emplace_def pm_lookup_def pm_find_def Let_def)

lemma set_vector_insert: "set (vector_insert i x xs) = insert x (set xs)"
  unfolding vector_insert_def by (metis append_take_drop_id set_append Un_insert_right list.simps(15))

lemma pm_emplace_invar:
  assumes "pm_invar csg cs m"
  shows "pm_invar csg cs (fst (pm_emplace csg k v m))"
proof (cases "pm_lookup csg m k")
  case None
  then have "entry_at (isPathPieceLess_component csg cs) (pm_vec m) (fst (k, v)) = None"
    using pm_lookup_entry_at(1) [OF assms] by simp
  from piece_order.keys_sorted_insert [OF _ this] assms None show ?thesis
    by (simp add: pm_emplace_cases [OF assms] pm_invar_def vector_insert_def pm_lower_bound_def pm_compare_def)
next
  case (Some e)
  with assms show ?thesis by (simp add: pm_emplace_cases [OF assms])
qed

lemma pm_emplace_lookup:
  assumes "pm_invar csg cs m"
  defines "lt \<equiv> isPathPieceLess_component csg cs"
  shows "pm_lookup csg (fst (pm_emplace csg k v m)) k' =
    (if \<not> lt k k' \<and> \<not> lt k' k then Some (case pm_lookup csg m k of None \<Rightarrow> (k, v) | Some e \<Rightarrow> e)
     else pm_lookup csg m k')"
proof (cases "pm_lookup csg m k")
  case (Some e)
  then have "pm_lookup csg m k' = Some e" if "\<not> lt k k'" "\<not> lt k' k"
    using piece_order.entry_at_cong that pm_lookup_entry_at(1) [OF assms(1)] unfolding lt_def by metis
  with Some show ?thesis by (auto simp: pm_emplace_cases [OF assms(1)])
next
  case None
  let ?m = "fst (pm_emplace csg k v m)"
  have sorted: "keys_sorted lt (pm_vec m)" "keys_sorted lt (pm_vec ?m)"
    using assms(1) pm_emplace_invar [OF assms(1)] by (simp_all add: pm_invar_def lt_def)
  have set: "set (pm_vec ?m) = insert (k, v) (set (pm_vec m))"
    using None by (simp add: pm_emplace_cases [OF assms(1)] set_vector_insert)
  have absent: "\<forall>e \<in> set (pm_vec m). lt (fst e) k \<or> lt k (fst e)"
    using None piece_order.entry_at_None pm_lookup_entry_at(1) [OF assms(1)] unfolding lt_def by metis
  have "entry_at lt (pm_vec ?m) k' = (if \<not> lt k k' \<and> \<not> lt k' k then Some (k, v) else entry_at lt (pm_vec m) k')"
  proof (cases "\<not> lt k k' \<and> \<not> lt k' k")
    case True
    then show ?thesis using piece_order.entry_at_Some [OF sorted(2) [unfolded lt_def]] set by (simp add: lt_def)
  next
    case False
    then have "entry_at lt (pm_vec ?m) k' = Some e \<longleftrightarrow> entry_at lt (pm_vec m) k' = Some e" for e
      using piece_order.entry_at_Some [OF sorted(1) [unfolded lt_def]] piece_order.entry_at_Some [OF sorted(2) [unfolded lt_def]] set
      by (auto simp: lt_def)
    then have "entry_at lt (pm_vec ?m) k' = entry_at lt (pm_vec m) k'" by (metis option.exhaust)
    with False show ?thesis by auto
  qed
  with None pm_lookup_entry_at(1) [OF assms(1)] pm_lookup_entry_at(1) [OF pm_emplace_invar [OF assms(1)]]
  show ?thesis by (simp add: lt_def)
qed

lemma pm_erase_cases:
  assumes "pm_invar csg cs m"
  shows "pm_erase csg k m = (case pm_lookup csg m k of
      None \<Rightarrow> (m, 0)
    | Some _ \<Rightarrow> (m\<lparr>pm_vec := vector_erase (pm_lower_bound csg m k) (pm_vec m)\<rparr>, 1))"
  using pm_lookup_entry_at(2,3) [OF assms, of k] by (auto simp: pm_erase_def Let_def split: option.split)

lemma pm_erase_invar: "pm_invar csg cs m \<Longrightarrow> pm_invar csg cs (fst (pm_erase csg k m))"
  using piece_order.keys_sorted_remove
  by (auto simp: pm_erase_cases pm_invar_def vector_erase_def split: option.split)

lemma keys_distinct: "keys_sorted (isPathPieceLess_component csg cs) es \<Longrightarrow> distinct es"
  using piece_order.irrefl by (induction es) (auto simp: keys_sorted_def)

lemma set_vector_erase:
  assumes "distinct xs" and "i < length xs"
  shows "set (vector_erase i xs) = set xs - {xs ! i}"
proof -
  have "xs = take i xs @ xs ! i # drop (Suc i) xs" using assms(2) by (rule id_take_nth_drop)
  moreover from this assms(1) have "xs ! i \<notin> set (take i xs) \<union> set (drop (Suc i) xs)"
    by (metis UnE disjoint_iff distinct.simps(2) distinct_append list.set_intros(1))
  ultimately show ?thesis unfolding vector_erase_def
    by (metis (no_types, lifting) Diff_insert_absorb UnI1 UnI2 Un_insert_right list.simps(15) set_append)
qed

lemma pm_erase_lookup:
  assumes "pm_invar csg cs m"
  defines "lt \<equiv> isPathPieceLess_component csg cs"
  shows "pm_lookup csg (fst (pm_erase csg k m)) k' = (if \<not> lt k k' \<and> \<not> lt k' k then None else pm_lookup csg m k')"
proof (cases "pm_lookup csg m k")
  case None
  then have "pm_lookup csg m k' = None" if "\<not> lt k k'" "\<not> lt k' k"
    using piece_order.entry_at_cong that pm_lookup_entry_at(1) [OF assms(1)] unfolding lt_def by metis
  with None show ?thesis by (simp add: pm_erase_cases [OF assms(1)])
next
  case (Some e)
  let ?m = "fst (pm_erase csg k m)"
  have sorted: "keys_sorted lt (pm_vec m)" "keys_sorted lt (pm_vec ?m)"
    using assms(1) pm_erase_invar [OF assms(1)] by (simp_all add: pm_invar_def lt_def)
  have set: "set (pm_vec ?m) = set (pm_vec m) - {e}"
    using Some pm_lookup_entry_at(3) [OF assms(1) Some] set_vector_erase [OF keys_distinct [OF sorted(1) [unfolded lt_def]]]
    by (auto simp: pm_erase_cases [OF assms(1)] pm_end_def)
  have e: "e \<in> set (pm_vec m)" "\<not> lt (fst e) k" "\<not> lt k (fst e)"
    using Some piece_order.entry_at_Some [OF sorted(1) [unfolded lt_def]] pm_lookup_entry_at(1) [OF assms(1)]
    by (auto simp: lt_def)
  have key: "d = e" if "d \<in> set (pm_vec m)" "\<not> lt (fst d) k" "\<not> lt k (fst d)" for d
    using that e piece_order.entry_at_Some [OF sorted(1) [unfolded lt_def]] unfolding lt_def by (metis option.inject)
  have "entry_at lt (pm_vec ?m) k' = (if \<not> lt k k' \<and> \<not> lt k' k then None else entry_at lt (pm_vec m) k')"
  proof (cases "\<not> lt k k' \<and> \<not> lt k' k")
    case True
    then have "\<not> lt (fst d) k \<and> \<not> lt k (fst d)" if "\<not> lt (fst d) k'" "\<not> lt k' (fst d)" for d :: "string \<times> 'a"
      using that piece_order.cotrans unfolding lt_def by blast
    with True set key show ?thesis
      by (auto simp: piece_order.entry_at_None lt_def)
  next
    case False
    then have "lt (fst e) k' \<or> lt k' (fst e)" using e piece_order.cotrans unfolding lt_def by blast
    then have "entry_at lt (pm_vec ?m) k' = Some d \<longleftrightarrow> entry_at lt (pm_vec m) k' = Some d" for d
      using piece_order.entry_at_Some [OF sorted(1) [unfolded lt_def]] piece_order.entry_at_Some [OF sorted(2) [unfolded lt_def]] set
      by (auto simp: lt_def)
    then have "entry_at lt (pm_vec ?m) k' = entry_at lt (pm_vec m) k'" by (metis option.exhaust)
    with False show ?thesis by auto
  qed
  with pm_lookup_entry_at(1) [OF assms(1)] pm_lookup_entry_at(1) [OF pm_erase_invar [OF assms(1)]]
  show ?thesis by (simp add: lt_def)
qed

interpretation path_map: entry_map "isPathPieceLess_component csg caseSensitive" "pm_invar csg caseSensitive"
    "pm_lookup csg" "pm_emplace_op csg" "pm_erase csg"
  for csg :: bool and caseSensitive :: CaseSensitivity
proof
  fix m :: "'v path_map" and k k' :: string and v :: 'v and e
  assume inv: "pm_invar csg caseSensitive m"
  show "\<not> isPathPieceLess_component csg caseSensitive (fst e) k \<and> \<not> isPathPieceLess_component csg caseSensitive k (fst e)"
    if "pm_lookup csg m k = Some e"
    using that piece_order.entry_at_SomeD pm_lookup_entry_at(1) [OF inv] by metis
  show "pm_lookup csg m k = pm_lookup csg m k'"
    if "\<not> isPathPieceLess_component csg caseSensitive k k'" "\<not> isPathPieceLess_component csg caseSensitive k' k"
    using that piece_order.entry_at_cong pm_lookup_entry_at(1) [OF inv] by metis
  show "pm_invar csg caseSensitive (fst (pm_emplace_op csg k v m))" by (simp add: pm_emplace_invar [OF inv])
  show "snd (pm_emplace_op csg k v m) \<longleftrightarrow> pm_lookup csg m k = None"
    by (simp add: pm_emplace_cases [OF inv] split: option.split)
  show "pm_invar csg caseSensitive (fst (pm_erase csg k m))" by (rule pm_erase_invar [OF inv])
  show "snd (pm_erase csg k m) = (if pm_lookup csg m k = None then 0 else 1)"
    by (simp add: pm_erase_cases [OF inv] split: option.split)
qed (simp_all add: pm_emplace_lookup pm_erase_lookup)

section \<open>Constructors\<close>

lemma pm_make_invar: "pm_invar csg cs (pm_make cs)" and pm_make_lookup: "pm_lookup csg (pm_make cs) k = None"
  by (simp_all add: pm_invar_def pm_make_def keys_sorted_def pm_lookup_def pm_find_def pm_end_def
      pm_lower_bound_def lower_bound.simps)

lemma pm_insert_emplace: "pm_insert csg e m = pm_emplace csg (fst e) (snd e) m"
  by (cases e) (simp add: pm_insert_def pm_emplace_def)

lemmas pm_emplace_all = path_map.emplace_all [OF pm_make_invar, simplified]

lemma pm_from_range_invar: "pm_invar csg cs (pm_from_range csg es cs)"
  and pm_from_range_lookup:
    "pm_lookup csg (pm_from_range csg es cs) k = entry_at (isPathPieceLess_component csg cs) es k"
  by (simp_all add: pm_from_range_def pm_insert_emplace pm_emplace_all pm_make_lookup)

lemma needsSort_iff:
  "\<not> needsSortAndOrDedupe (isPathPieceLess_component csg cs) es \<longleftrightarrow>
    keys_sorted (isPathPieceLess_component csg cs) es"
  by (induction "isPathPieceLess_component csg cs" es rule: needsSortAndOrDedupe.induct)
    (auto simp: keys_sorted_def intro: piece_order.trans)

text \<open>The comparator of stored pairs.\<close>

interpretation entry_order: strict_weak_order "\<lambda>a b. isPathPieceLess_component csg caseSensitive (fst a) (fst b)"
  for csg :: bool and caseSensitive :: CaseSensitivity
  by (rule strict_weak_order_map) (rule piece_order.strict_weak_order_axioms)

lemma find_head_filter: "find P xs = (case filter P xs of [] \<Rightarrow> None | x # _ \<Rightarrow> Some x)"
  by (induction xs) auto

lemma stable_sort_entry_at:
  "entry_at (isPathPieceLess_component csg cs)
     (stable_sort (\<lambda>a b. isPathPieceLess_component csg cs (fst a) (fst b)) es) k =
   entry_at (isPathPieceLess_component csg cs) es k"
proof -
  have "filter (\<lambda>y. \<not> isPathPieceLess_component csg cs (fst y) k \<and> \<not> isPathPieceLess_component csg cs k (fst y))
      (stable_sort (\<lambda>a b. isPathPieceLess_component csg cs (fst a) (fst b)) es) =
    filter (\<lambda>y. \<not> isPathPieceLess_component csg cs (fst y) k \<and> \<not> isPathPieceLess_component csg cs k (fst y)) es"
    using entry_order.stable_sort_filter [of csg cs "(k, undefined)" es] by simp
  then show ?thesis by (simp only: entry_at_def find_head_filter)
qed

lemma pm_from_vector_spec:
  assumes "ascii_case_insensitive aci"
  shows "pm_invar csg cs (pm_from_vector aci csg es cs)"
    and "entry_at (isPathPieceLess_component csg cs) (pm_vec (pm_from_vector aci csg es cs)) k =
      entry_at (isPathPieceLess_component csg cs) es k"
proof -
  let ?lt = "isPathPieceLess_component csg cs" and ?plt = "\<lambda>a b. isPathPieceLess_component csg cs (fst a) (fst b)"
  let ?eq = "\<lambda>a b. isPathPieceEqual_component aci cs (fst a) (fst b)" and ?sorted = "stable_sort (\<lambda>a b. isPathPieceLess_component csg cs (fst a) (fst b)) es"
  have eq: "?eq = (\<lambda>x y. \<not> ?plt x y \<and> \<not> ?plt y x)"
    using piece_equal_iff [OF assms] by blast
  have "sorted_wrt ?plt (std_unique ?eq ?sorted)"
    by (rule entry_order.std_unique_sorted [OF eq entry_order.stable_sort_sorted])
  then have "keys_sorted ?lt (std_unique ?eq ?sorted)" by (simp add: keys_sorted_def sorted_wrt_map)
  then show "pm_invar csg cs (pm_from_vector aci csg es cs)"
    using needsSort_iff [of csg cs es] by (simp add: pm_from_vector_def pm_invar_def Let_def)
  have "entry_at ?lt (std_unique ?eq ?sorted) k = entry_at ?lt ?sorted k"
    using entry_order.std_unique_find [OF eq, of "(k, undefined)" ?sorted] by (simp add: entry_at_def)
  then show "entry_at ?lt (pm_vec (pm_from_vector aci csg es cs)) k = entry_at ?lt es k"
    by (simp add: pm_from_vector_def Let_def stable_sort_entry_at)
qed

lemma pm_eqI:
  assumes "pm_invar csg cs m" and "pm_invar csg cs m'"
    and "\<And>k. pm_lookup csg m k = pm_lookup csg (m' :: 'v path_map) k"
  shows "m = m'"
proof -
  have "entry_at (isPathPieceLess_component csg cs) (pm_vec m) = entry_at (isPathPieceLess_component csg cs) (pm_vec m')"
    using assms(3) unfolding pm_lookup_entry_at(1) [OF assms(1)] pm_lookup_entry_at(1) [OF assms(2)] by blast
  then have "pm_vec m = pm_vec m'"
    using assms(1,2) piece_order.entry_at_ext by (auto simp: pm_invar_def)
  then show ?thesis using assms(1,2) by (auto simp: pm_invar_def intro: path_map.equality)
qed

section \<open>Collating two maps\<close>

text \<open>The entries in the order in which the loops emplace them.\<close>

fun collated :: "(string \<Rightarrow> string \<Rightarrow> bool) \<Rightarrow> (string \<times> 'a) list \<Rightarrow> (string \<times> 'b) list \<Rightarrow> (string \<times> 'a option \<times> 'b option) list" where
  "collated lt (a # as) (b # bs) =
     (if \<not> lt (fst a) (fst b) \<and> \<not> lt (fst b) (fst a) then (fst a, Some (snd a), Some (snd b)) # collated lt as bs
      else if lt (fst a) (fst b) then (fst a, Some (snd a), None) # collated lt as (b # bs)
      else (fst b, None, Some (snd b)) # collated lt (a # as) bs)"
| "collated lt (a # as) [] = (fst a, Some (snd a), None) # collated lt as []"
| "collated lt [] (b # bs) = (fst b, None, Some (snd b)) # collated lt [] bs"
| "collated lt [] [] = []"

lemma collate_loop_collated:
  assumes "ascii_case_insensitive aci"
  shows "collate_loop aci csg cs as bs res =
    foldl (\<lambda>m e. fst (pm_emplace csg (fst e) (snd e) m)) res (collated (isPathPieceLess_component csg cs) as bs)"
  using assms
proof (induction aci csg cs as bs res rule: collate_loop.induct)
  case (1 aci csg cs a as b bs res)
  note eq = piece_equal_iff [OF 1(4), of cs "fst a" "fst b" csg]
  show ?case
  proof (cases "isPathPieceEqual_component aci cs (fst a) (fst b)")
    case True
    with 1 eq show ?thesis by simp
  next
    case False
    with 1 eq show ?thesis by (cases "isPathPieceLess_component csg cs (fst a) (fst b)") auto
  qed
qed simp_all

definition collate_entry :: "(string \<times> 'a) option \<Rightarrow> (string \<times> 'b) option \<Rightarrow> (string \<times> 'a option \<times> 'b option) option" where
  "collate_entry a b =
     (case (a, b) of
        (None, None) \<Rightarrow> None
      | (Some (k, x), None) \<Rightarrow> Some (k, Some x, None)
      | (None, Some (k, y)) \<Rightarrow> Some (k, None, Some y)
      | (Some (k, x), Some (_, y)) \<Rightarrow> Some (k, Some x, Some y))"

lemma collated_entry_at:
  assumes "strict_weak_order lt" and "keys_sorted lt as" and "keys_sorted lt bs"
  shows "entry_at lt (collated lt as bs) k = collate_entry (entry_at lt as k) (entry_at lt bs k)"
  using assms
proof (induction lt as bs rule: collated.induct)
  case (1 lt a as b bs)
  note order = strict_weak_order.asym [OF 1(4)] strict_weak_order.cotrans [OF 1(4)]
    strict_weak_order.trans [OF 1(4)]
  have none: "entry_at lt xs k = None"
    if "\<not> lt x k" "\<not> lt k x" "\<forall>y \<in> set xs. lt x (fst y)" for x and xs :: "(string \<times> 'x) list"
    using that order(1,2) unfolding strict_weak_order.entry_at_None [OF 1(4)] by blast
  have tails: "keys_sorted lt as" "keys_sorted lt bs" "\<forall>y \<in> set as. lt (fst a) (fst y)" "\<forall>y \<in> set bs. lt (fst b) (fst y)"
    using 1(5,6) by (simp_all add: keys_sorted_def)
  consider (same) "\<not> lt (fst a) (fst b)" "\<not> lt (fst b) (fst a)"
    | (less) "lt (fst a) (fst b)" | (greater) "lt (fst b) (fst a)" by blast
  then show ?case
  proof cases
    case same
    then have "(\<not> lt (fst a) k \<and> \<not> lt k (fst a)) = (\<not> lt (fst b) k \<and> \<not> lt k (fst b))"
      using strict_weak_order.eqv_less [OF 1(4), of "fst a" "fst b" k] by blast
    with same 1(1) [OF _ 1(4) tails(1,2)] show ?thesis
      by (cases a; cases b) (auto simp: entry_at_def collate_entry_def)
  next
    case less
    have "\<forall>y \<in> set (b # bs). lt (fst a) (fst y)" using less tails(4) order(3) by auto
    note n = none [of "fst a" "b # bs", OF _ _ this]
    have IH: "entry_at lt (collated lt as (b # bs)) k = collate_entry (entry_at lt as k) (entry_at lt (b # bs) k)"
      using 1(2) [OF _ less 1(4) tails(1) 1(6)] less by blast
    have c: "collated lt (a # as) (b # bs) = (fst a, Some (snd a), None) # collated lt as (b # bs)"
      using less by simp
    have e: "entry_at lt (x # xs) k = (if \<not> lt (fst x) k \<and> \<not> lt k (fst x) then Some x else entry_at lt xs k)"
      for x and xs :: "(string \<times> 'x) list" by (simp add: entry_at_def)
    show ?thesis
    proof (cases "\<not> lt (fst a) k \<and> \<not> lt k (fst a)")
      case True
      then show ?thesis using n unfolding c by (cases a) (simp add: e [of a] e collate_entry_def)
    next
      case False
      then show ?thesis unfolding c e [of a] e [of "(fst a, Some (snd a), None)"] IH by auto
    qed
  next
    case greater
    have nl: "\<not> lt (fst a) (fst b)" using greater order(1) by blast
    have "\<forall>y \<in> set (a # as). lt (fst b) (fst y)" using greater tails(3) order(3) by auto
    note n = none [of "fst b" "a # as", OF _ _ this]
    have IH: "entry_at lt (collated lt (a # as) bs) k = collate_entry (entry_at lt (a # as) k) (entry_at lt bs k)"
      using 1(3) [OF _ nl 1(4,5) tails(2)] greater by blast
    have c: "collated lt (a # as) (b # bs) = (fst b, None, Some (snd b)) # collated lt (a # as) bs"
      using greater nl by simp
    have e: "entry_at lt (x # xs) k = (if \<not> lt (fst x) k \<and> \<not> lt k (fst x) then Some x else entry_at lt xs k)"
      for x and xs :: "(string \<times> 'x) list" by (simp add: entry_at_def)
    show ?thesis
    proof (cases "\<not> lt (fst b) k \<and> \<not> lt k (fst b)")
      case True
      then show ?thesis using n unfolding c by (cases b) (simp add: e [of b] e collate_entry_def)
    next
      case False
      then show ?thesis unfolding c e [of b] e [of "(fst b, None, Some (snd b))"] IH by auto
    qed
  qed
next
  case (2 lt a as)
  then show ?case by (cases a) (auto simp: entry_at_def collate_entry_def keys_sorted_def split: option.split)
next
  case (3 lt b bs)
  then show ?case by (cases b) (auto simp: entry_at_def collate_entry_def keys_sorted_def split: option.split)
next
  case (4 lt)
  then show ?case by (simp add: entry_at_def collate_entry_def)
qed

lemma collatePathMaps_spec:
  assumes "ascii_case_insensitive aci" and "pm_invar csg cs a" and "pm_invar csg cs b"
  shows "pm_invar csg cs (collatePathMaps aci csg a b)"
    and "pm_lookup csg (collatePathMaps aci csg a b) k = collate_entry (pm_lookup csg a k) (pm_lookup csg b k)"
proof -
  let ?lt = "isPathPieceLess_component csg cs"
  have c: "collatePathMaps aci csg a b =
      foldl (\<lambda>m e. fst (pm_emplace csg (fst e) (snd e) m)) (pm_make cs) (collated ?lt (pm_vec a) (pm_vec b))"
    using assms(2,3) by (simp add: collatePathMaps_def collate_loop_collated [OF assms(1)] pm_invar_def)
  show "pm_invar csg cs (collatePathMaps aci csg a b)"
    unfolding c by (rule pm_emplace_all(1))
  have "entry_at ?lt (collated ?lt (pm_vec a) (pm_vec b)) k =
      collate_entry (entry_at ?lt (pm_vec a) k) (entry_at ?lt (pm_vec b) k)"
    using assms(2,3) by (intro collated_entry_at piece_order.strict_weak_order_axioms) (simp_all add: pm_invar_def)
  then show "pm_lookup csg (collatePathMaps aci csg a b) k = collate_entry (pm_lookup csg a k) (pm_lookup csg b k)"
    unfolding c
    by (simp add: pm_emplace_all(2) pm_make_lookup pm_lookup_entry_at(1) [OF assms(2)] pm_lookup_entry_at(1) [OF assms(3)])
qed

section \<open>Properties\<close>

text \<open>
  C8: a sorted \<open>PathMap\<close> implements the abstract map: after any sequence of \<open>emplace\<close>
  and \<open>erase\<close> operations the vector is still sorted without equivalent keys, every
  operation has reported what the abstract map prescribes, and \<open>find\<close> returns for every
  key the entry the abstract map holds for it.
\<close>

theorem path_map_refines:
  assumes "pm_invar csg cs m"
  shows "let (m', reports) = run_ops (pm_emplace_op csg) (pm_erase csg) ops m in
    pm_invar csg cs m' \<and>
    (pm_lookup csg m', reports) = spec_ops (isPathPieceLess_component csg cs) ops (pm_lookup csg m)"
  using path_map.run_ops_spec [OF assms, of ops] by (simp add: case_prod_beta)

theorem path_map_refines_witness:
  "let (m', reports) = run_ops (pm_emplace_op True) (pm_erase True)
       [Emplace ''b'' 1, Emplace ''B'' 2, Erase ''c''] (pm_make Insensitive :: nat path_map) in
   pm_invar True Insensitive m' \<and> pm_lookup True m' ''B'' = Some (''b'', 1) \<and> reports = [True, False, False]"
proof -
  let ?m = "pm_make Insensitive :: nat path_map"
  let ?ops = "[Emplace ''b'' 1, Emplace ''B'' 2, Erase ''c''] :: (string, nat) map_op list"
  have "run_ops (pm_emplace_op True) (pm_erase True) ?ops ?m =
    (\<lparr>pm_vec = [(''b'', 1)], pm_caseSensitive = Insensitive\<rparr>, [True, False, False])"
    by code_simp
  moreover have "pm_lookup True \<lparr>pm_vec = [(''b'', 1 :: nat)], pm_caseSensitive = Insensitive\<rparr> ''B'' = Some (''b'', 1)"
    by code_simp
  ultimately show ?thesis using path_map_refines [where csg = True and cs = Insensitive and m = ?m and ops = ?ops, OF pm_make_invar]
    by (simp add: Let_def)
qed

text \<open>
  Building a map from a vector of entries by checking whether it is sorted, and
  otherwise stably sorting it and removing the duplicates, gives exactly the map that
  inserting the entries one after the other gives: it is sorted, and of several entries
  with equivalent keys the earliest wins.
\<close>

theorem path_map_from_vector:
  assumes "ascii_case_insensitive aci"
  shows "pm_from_vector aci csg entries caseSensitive = pm_from_range csg entries caseSensitive \<and>
    pm_invar csg caseSensitive (pm_from_vector aci csg entries caseSensitive) \<and>
    pm_lookup csg (pm_from_vector aci csg entries caseSensitive) key =
      find (\<lambda>e. isPathPieceEqual_component aci caseSensitive (fst e) key) entries"
proof -
  let ?m = "pm_from_vector aci csg entries caseSensitive"
  note spec = pm_from_vector_spec [OF assms, of csg caseSensitive entries]
  have lookup: "pm_lookup csg ?m k = entry_at (isPathPieceLess_component csg caseSensitive) entries k" for k
    using pm_lookup_entry_at(1) [OF spec(1)] spec(2) by simp
  then have "?m = pm_from_range csg entries caseSensitive"
    by (intro pm_eqI [OF spec(1) pm_from_range_invar]) (simp add: pm_from_range_lookup)
  with spec(1) lookup show ?thesis by (simp add: entry_at_def piece_equal_iff [OF assms, of _ _ _ csg])
qed

theorem path_map_from_vector_witness:
  "pm_from_vector (\<lambda>x y. ascii_lower x = ascii_lower y) True [(''b'', 1 :: nat), (''A'', 2), (''B'', 3)] Insensitive =
   pm_from_range True [(''b'', 1), (''A'', 2), (''B'', 3)] Insensitive"
  using path_map_from_vector [OF ascii_case_insensitive_lower] by blast

text \<open>
  Collating two maps of the same case sensitivity yields a map whose entry for a key
  pairs what the two maps hold for it, and that has no entry exactly if neither has one.
\<close>

theorem collatePathMaps_correct:
  assumes "ascii_case_insensitive aci" and "pm_invar csg cs a" and "pm_invar csg cs b"
  defines "m \<equiv> collatePathMaps aci csg a b"
  shows "pm_invar csg cs m \<and>
    map_option snd (pm_lookup csg m key) =
      (case (pm_lookup csg a key, pm_lookup csg b key) of
         (None, None) \<Rightarrow> None
       | (x, y) \<Rightarrow> Some (map_option snd x, map_option snd y))"
  using collatePathMaps_spec [OF assms(1-3)]
  by (auto simp: m_def collate_entry_def split: option.split prod.split)

theorem collatePathMaps_correct_witness:
  "pm_invar False Sensitive (collatePathMaps (\<lambda>x y. ascii_lower x = ascii_lower y) False
     (pm_from_range False [(''a'', 1 :: nat)] Sensitive) (pm_from_range False [(''b'', True)] Sensitive))"
  using collatePathMaps_correct [OF ascii_case_insensitive_lower pm_from_range_invar pm_from_range_invar] by blast

text \<open>
  On a sorted map \<open>at\<close> throws \<open>std::out_of_range\<close> exactly if \<open>count\<close> is zero and
  otherwise returns the value of the entry; \<open>operator[]\<close> keeps the map sorted, refers to
  the existing value if there is one and otherwise to a new default value, and changes no
  other entry.
\<close>

theorem path_map_access:
  assumes "pm_invar csg cs m"
  defines "result \<equiv> (\<lambda>dflt key. pm_subscript csg dflt key m)"
  shows "(pm_at csg m key = Inl OutOfRange \<longleftrightarrow> pm_count csg m key = 0) \<and>
    (\<forall>e. pm_lookup csg m key = Some e \<longrightarrow> pm_at csg m key = Inr (snd e) \<and> pm_count csg m key = 1) \<and>
    pm_invar csg cs (fst (result dflt key)) \<and>
    snd (result dflt key) < pm_end (fst (result dflt key)) \<and>
    snd (pm_vec (fst (result dflt key)) ! snd (result dflt key)) =
      (case pm_at csg m key of Inr v \<Rightarrow> v | Inl _ \<Rightarrow> dflt) \<and>
    (\<forall>key'. isPathPieceLess_component csg cs key key' \<or> isPathPieceLess_component csg cs key' key \<longrightarrow>
       pm_lookup csg (fst (result dflt key)) key' = pm_lookup csg m key')"
proof -
  have r: "result d k = (fst (pm_emplace csg k d m), fst (snd (pm_emplace csg k d m)))" for d k
    by (simp add: result_def pm_subscript_def pm_emplace_def Let_def)
  have find: "pm_find csg m key \<noteq> pm_end m \<longleftrightarrow> pm_lookup csg m key \<noteq> None"
    by (simp add: pm_lookup_def Let_def)
  have at: "pm_at csg m key = (case pm_lookup csg m key of None \<Rightarrow> Inl OutOfRange | Some e \<Rightarrow> Inr (snd e))"
    by (simp add: pm_lookup_def pm_at_def Let_def)
  have "fst (snd (pm_emplace csg key dflt m)) < pm_end (fst (pm_emplace csg key dflt m)) \<and>
    snd (pm_vec (fst (pm_emplace csg key dflt m)) ! fst (snd (pm_emplace csg key dflt m))) =
      (case pm_lookup csg m key of None \<Rightarrow> dflt | Some e \<Rightarrow> snd e)"
  proof (cases "pm_lookup csg m key")
    case None
    then show ?thesis
      using pm_lower_bound_bounds [of csg m key]
      by (simp add: pm_emplace_cases [OF assms(1)] vector_insert_def pm_end_def nth_append)
  next
    case (Some e)
    with pm_lookup_entry_at(3) [OF assms(1) Some] show ?thesis by (simp add: pm_emplace_cases [OF assms(1)])
  qed
  then show ?thesis
    using find at pm_emplace_invar [OF assms(1), of key dflt] pm_emplace_lookup [OF assms(1), of key dflt]
    by (auto simp: r pm_count_def split: option.splits)
qed

theorem path_map_access_witness:
  "pm_at True (pm_from_range True [(''a'', 1 :: nat)] Insensitive) ''A'' = Inr 1"
proof -
  have "pm_lookup True (pm_from_range True [(''a'', 1 :: nat)] Insensitive) ''A'' = Some (''a'', 1)"
    unfolding pm_from_range_lookup by code_simp
  with path_map_access [OF pm_from_range_invar, of True "[(''a'', 1 :: nat)]" Insensitive "''A''" 0]
  show ?thesis by simp
qed

end
