(* ===== verification/Path_Map_Mutator.thy ===== *)
theory Path_Map_Mutator
  imports Path_Map
begin

text \<open>
  \<open>PathMapMutator\<close> of \<open>PathMapMutator.h\<close>: batched updates of a \<open>PathMap\<close>.

  The mutator keeps the vector of the map in two sorted parts, the prefix up to
  \<open>suffixStart_\<close> and the suffix of newly emplaced entries, and the set of the indices that
  are erased.  \<open>compact\<close> removes the erased entries and merges the two parts.

  The invariant says that both parts are sorted and that no key of the vector, erased or
  not, is equivalent to another.  The mutator is a second interpretation of the contract
  \<open>entry_map\<close>, extended by \<open>insert_or_assign\<close> in the locale \<open>assign_map\<close>; because
  \<open>PathMap\<close> interprets the same contract, the two agree on every sequence of operations.
\<close>

section \<open>Definitions\<close>

record 'v mutator =
  mut_map :: "'v path_map"
  suffixStart :: nat
  erased :: "nat set"

abbreviation mut_vec :: "'v mutator \<Rightarrow> (string \<times> 'v) list" where
  "mut_vec mu \<equiv> pm_vec (mut_map mu)"

definition mut_make :: "'v path_map \<Rightarrow> 'v mutator" where
  "mut_make m = \<lparr>mut_map = m, suffixStart = length (pm_vec m), erased = {}\<rparr>"

definition set_vec :: "(string \<times> 'v) list \<Rightarrow> 'v mutator \<Rightarrow> 'v mutator" where
  "set_vec xs mu = mu\<lparr>mut_map := (mut_map mu)\<lparr>pm_vec := xs\<rparr>\<rparr>"

definition findImpl :: "bool \<Rightarrow> 'v mutator \<Rightarrow> string \<Rightarrow> nat \<times> bool" where
  "findImpl csg mu key =
     (let vec = mut_vec mu; before = (\<lambda>e. pm_compare csg (mut_map mu) (fst e) key);
          prefixEnd = suffixStart mu; it = lower_bound before vec 0 prefixEnd in
      if it \<noteq> prefixEnd \<and> \<not> pm_compare csg (mut_map mu) key (fst (vec ! it)) then (it, it \<in> erased mu)
      else
        (let sit = lower_bound before vec (suffixStart mu) (length vec - suffixStart mu) in
         if length vec > suffixStart mu \<and> sit \<noteq> length vec \<and> \<not> pm_compare csg (mut_map mu) key (fst (vec ! sit))
         then (sit, sit \<in> erased mu)
         else (length vec, False)))"

definition mut_find :: "bool \<Rightarrow> 'v mutator \<Rightarrow> string \<Rightarrow> nat" where
  "mut_find csg mu key =
     (let (it, er) = findImpl csg mu key in if er then length (mut_vec mu) else it)"

definition mut_erase_at :: "nat \<Rightarrow> 'v mutator \<Rightarrow> 'v mutator" where
  "mut_erase_at i mu = mu\<lparr>erased := insert i (erased mu)\<rparr>"

definition mut_erase :: "bool \<Rightarrow> string \<Rightarrow> 'v mutator \<Rightarrow> 'v mutator \<times> nat" where
  "mut_erase csg key mu =
     (let it = mut_find csg mu key in
      if it = length (mut_vec mu) then (mu, 0) else (mut_erase_at it mu, 1))"

text \<open>
  \<open>std::remove_if\<close> with the counting predicate: what is kept, and how many erased
  entries lie in the prefix.
\<close>

fun remove_erased :: "nat set \<Rightarrow> nat \<Rightarrow> nat \<Rightarrow> 'a list \<Rightarrow> 'a list \<times> nat" where
  "remove_erased er st idx [] = ([], 0)"
| "remove_erased er st idx (x # xs) =
     (let (ys, n) = remove_erased er st (idx + 1) xs in
      if idx \<in> er then (ys, if idx < st then n + 1 else n) else (x # ys, n))"

definition compact :: "bool \<Rightarrow> 'v mutator \<Rightarrow> 'v mutator" where
  "compact csg mu =
     (let (kept, prefixErased) = remove_erased (erased mu) (suffixStart mu) 0 (mut_vec mu);
          st = suffixStart mu - prefixErased;
          merged = std_merge (\<lambda>a b. pm_compare csg (mut_map mu) (fst a) (fst b)) (take st kept) (drop st kept)
      in (set_vec merged mu)\<lparr>suffixStart := length merged, erased := {}\<rparr>)"

definition compact_if_out_of_order :: "bool \<Rightarrow> string \<Rightarrow> 'v mutator \<Rightarrow> 'v mutator" where
  "compact_if_out_of_order csg key mu =
     (if length (mut_vec mu) > suffixStart mu \<and> \<not> pm_compare csg (mut_map mu) (fst (last (mut_vec mu))) key
      then compact csg mu else mu)"

definition mut_emplace :: "bool \<Rightarrow> string \<Rightarrow> 'v \<Rightarrow> 'v mutator \<Rightarrow> 'v mutator \<times> nat \<times> bool" where
  "mut_emplace csg key value mu =
     (let (it, er) = findImpl csg mu key in
      if it \<noteq> length (mut_vec mu) then
        (if \<not> er then (mu, it, False)
         else (set_vec ((mut_vec mu)[it := (key, value)]) (mu\<lparr>erased := erased mu - {it}\<rparr>), it, True))
      else
        (let mu' = compact_if_out_of_order csg key mu in
         (set_vec (mut_vec mu' @ [(key, value)]) mu', length (mut_vec mu'), True)))"

definition mut_insert_or_assign :: "bool \<Rightarrow> string \<Rightarrow> 'v \<Rightarrow> 'v mutator \<Rightarrow> 'v mutator \<times> nat \<times> bool" where
  "mut_insert_or_assign csg key value mu =
     (let (it, er) = findImpl csg mu key in
      if it \<noteq> length (mut_vec mu) then
        (if \<not> er then (set_vec ((mut_vec mu)[it := (fst (mut_vec mu ! it), value)]) mu, it, False)
         else (set_vec ((mut_vec mu)[it := (key, value)]) (mu\<lparr>erased := erased mu - {it}\<rparr>), it, True))
      else
        (let mu' = compact_if_out_of_order csg key mu in
         (set_vec (mut_vec mu' @ [(key, value)]) mu', length (mut_vec mu'), True)))"

definition finalize :: "bool \<Rightarrow> 'v mutator \<Rightarrow> 'v path_map" where
  "finalize csg mu = mut_map (compact csg mu)"

section \<open>The contract with assignment\<close>

locale assign_map = entry_map lt invar lookup emplace erase
  for lt :: "'k \<Rightarrow> 'k \<Rightarrow> bool" and invar :: "'s \<Rightarrow> bool" and lookup :: "'s \<Rightarrow> 'k \<Rightarrow> ('k \<times> 'v) option"
    and emplace :: "'k \<Rightarrow> 'v \<Rightarrow> 's \<Rightarrow> 's \<times> bool" and erase :: "'k \<Rightarrow> 's \<Rightarrow> 's \<times> nat" +
  fixes assign :: "'k \<Rightarrow> 'v \<Rightarrow> 's \<Rightarrow> 's \<times> bool"
  assumes assign_invar: "invar s \<Longrightarrow> invar (fst (assign k v s))"
    and assign_reports: "invar s \<Longrightarrow> snd (assign k v s) \<longleftrightarrow> lookup s k = None"
    and assign_lookup: "invar s \<Longrightarrow> lookup (fst (assign k v s)) k' =
      (if \<not> lt k k' \<and> \<not> lt k' k then Some (case lookup s k of None \<Rightarrow> k | Some e \<Rightarrow> fst e, v) else lookup s k')"
begin

text \<open>Assigning is erasing the entry and emplacing its key with the new value.\<close>

lemma assign_as_erase_emplace:
  assumes "invar s"
  defines "key \<equiv> (\<lambda>k. case lookup s k of None \<Rightarrow> k | Some e \<Rightarrow> fst e)"
  shows "lookup (fst (assign k v s)) = lookup (fst (emplace (key k) v (fst (erase k s))))"
proof
  fix k'
  have inv: "invar (fst (erase k s))" by (rule erase_invar [OF assms(1)])
  have eqv: "\<not> lt (key k) k \<and> \<not> lt k (key k)"
    using lookup_key [OF assms(1), of k] irrefl by (auto simp: key_def split: option.split)
  then have same: "(\<not> lt (key k) k' \<and> \<not> lt k' (key k)) = (\<not> lt k k' \<and> \<not> lt k' k)"
    using eqv_less [of "key k" k k'] by blast
  from eqv show "lookup (fst (assign k v s)) k' = lookup (fst (emplace (key k) v (fst (erase k s)))) k'"
    by (simp add: assign_lookup [OF assms(1)] emplace_lookup [OF inv] erase_lookup [OF assms(1)] same)
      (simp add: key_def split: option.split)
qed

end

section \<open>Invariant\<close>

definition mut_invar :: "bool \<Rightarrow> CaseSensitivity \<Rightarrow> 'v mutator \<Rightarrow> bool" where
  "mut_invar csg cs mu =
     (pm_caseSensitive (mut_map mu) = cs \<and> suffixStart mu \<le> length (mut_vec mu) \<and>
      keys_sorted (isPathPieceLess_component csg cs) (take (suffixStart mu) (mut_vec mu)) \<and>
      keys_sorted (isPathPieceLess_component csg cs) (drop (suffixStart mu) (mut_vec mu)) \<and>
      (\<forall>x \<in> set (take (suffixStart mu) (mut_vec mu)). \<forall>y \<in> set (drop (suffixStart mu) (mut_vec mu)).
         isPathPieceLess_component csg cs (fst x) (fst y) \<or> isPathPieceLess_component csg cs (fst y) (fst x)) \<and>
      erased mu \<subseteq> {..<length (mut_vec mu)})"

text \<open>What the iterator that \<open>find\<close> returns refers to.\<close>

definition mut_lookup :: "bool \<Rightarrow> 'v mutator \<Rightarrow> string \<Rightarrow> (string \<times> 'v) option" where
  "mut_lookup csg mu key =
     (let it = mut_find csg mu key in if it = length (mut_vec mu) then None else Some (mut_vec mu ! it))"

text \<open>The slot of a key: the index of the entry, erased or not, with an equivalent key.\<close>

definition is_slot :: "bool \<Rightarrow> CaseSensitivity \<Rightarrow> 'v mutator \<Rightarrow> string \<Rightarrow> nat \<Rightarrow> bool" where
  "is_slot csg cs mu key i =
     (i < length (mut_vec mu) \<and> \<not> isPathPieceLess_component csg cs (fst (mut_vec mu ! i)) key \<and>
      \<not> isPathPieceLess_component csg cs key (fst (mut_vec mu ! i)))"

lemma sorted_part_index:
  assumes "keys_sorted (isPathPieceLess_component csg cs) es"
  defines "i \<equiv> (\<lambda>key. lower_bound (\<lambda>e. isPathPieceLess_component csg cs (fst e) key) es 0 (length es))"
  shows "i key < length es \<and> \<not> isPathPieceLess_component csg cs key (fst (es ! i key)) \<longleftrightarrow>
      (\<exists>j < length es. \<not> isPathPieceLess_component csg cs (fst (es ! j)) key \<and> \<not> isPathPieceLess_component csg cs key (fst (es ! j)))"
    and "i key < length es \<and> \<not> isPathPieceLess_component csg cs key (fst (es ! i key)) \<Longrightarrow>
      \<not> isPathPieceLess_component csg cs (fst (es ! i key)) key"
proof -
  let ?lt = "isPathPieceLess_component csg cs"
  note e = piece_order.entry_at_lower_bound [OF assms(1), of key, folded i_def]
  have "entry_at ?lt es key \<noteq> None \<longleftrightarrow> (\<exists>j < length es. \<not> ?lt (fst (es ! j)) key \<and> \<not> ?lt key (fst (es ! j)))"
    unfolding piece_order.entry_at_None [of csg cs es key] by (metis in_set_conv_nth)
  with e show "i key < length es \<and> \<not> ?lt key (fst (es ! i key)) \<longleftrightarrow>
      (\<exists>j < length es. \<not> ?lt (fst (es ! j)) key \<and> \<not> ?lt key (fst (es ! j)))"
    by (auto simp: i_def split: if_splits)
  show "\<not> ?lt (fst (es ! i key)) key" if "i key < length es \<and> \<not> ?lt key (fst (es ! i key))"
    using e that piece_order.entry_at_SomeD [of csg cs es key "es ! i key"] by (simp add: i_def)
qed

lemma invar_pairwise:
  assumes "mut_invar csg cs mu" and "i < j" and "j < length (mut_vec mu)"
  shows "isPathPieceLess_component csg cs (fst (mut_vec mu ! i)) (fst (mut_vec mu ! j)) \<or>
    isPathPieceLess_component csg cs (fst (mut_vec mu ! j)) (fst (mut_vec mu ! i))"
proof -
  let ?lt = "isPathPieceLess_component csg cs" and ?s = "suffixStart mu" and ?v = "mut_vec mu"
  have pre: "sorted_wrt (\<lambda>x y. ?lt (fst x) (fst y)) (take ?s ?v)" and suf: "sorted_wrt (\<lambda>x y. ?lt (fst x) (fst y)) (drop ?s ?v)"
    using assms(1) by (simp_all add: mut_invar_def keys_sorted_def sorted_wrt_map)
  consider "j < ?s" | "?s \<le> i" | "i < ?s" "?s \<le> j" by linarith
  then show ?thesis
  proof cases
    case 1
    with assms sorted_wrt_nth_less [OF pre, of i j] show ?thesis by simp
  next
    case 2
    with assms sorted_wrt_nth_less [OF suf, of "i - ?s" "j - ?s"] show ?thesis by simp
  next
    case 3
    have "take ?s ?v ! i \<in> set (take ?s ?v)" using 3 assms(2,3) by (intro nth_mem) simp
    moreover have "drop ?s ?v ! (j - ?s) \<in> set (drop ?s ?v)" using 3 assms(3) by (intro nth_mem) simp
    ultimately show ?thesis using 3 assms by (auto simp: mut_invar_def)
  qed
qed

lemma slot_unique:
  assumes "mut_invar csg cs mu" and "is_slot csg cs mu key i" and "is_slot csg cs mu key j"
  shows "i = j"
proof (rule ccontr)
  assume "i \<noteq> j"
  then consider "i < j" | "j < i" by linarith
  then have "isPathPieceLess_component csg cs (fst (mut_vec mu ! i)) (fst (mut_vec mu ! j)) \<or>
    isPathPieceLess_component csg cs (fst (mut_vec mu ! j)) (fst (mut_vec mu ! i))"
    using invar_pairwise [OF assms(1)] assms(2,3) by cases (auto simp: is_slot_def)
  then show False using assms(2,3) piece_order.cotrans unfolding is_slot_def by blast
qed

lemma findImpl_returns:
  assumes "mut_invar csg cs mu"
  shows "(\<exists>i. is_slot csg cs mu key i \<and> findImpl csg mu key = (i, i \<in> erased mu)) \<or>
    ((\<nexists>i. is_slot csg cs mu key i) \<and> findImpl csg mu key = (length (mut_vec mu), False))"
proof -
  let ?lt = "isPathPieceLess_component csg cs" and ?s = "suffixStart mu" and ?v = "mut_vec mu"
  define pre suf where "pre = take ?s ?v" and "suf = drop ?s ?v"
  let ?before = "\<lambda>e. ?lt (fst e) key"
  define a b where "a = lower_bound ?before pre 0 (length pre)" and "b = lower_bound ?before suf 0 (length suf)"
  have v: "?v = pre @ suf" and s: "length pre = ?s" using assms by (simp_all add: pre_def suf_def mut_invar_def)
  then have len: "length ?v - ?s = length suf" by simp
  have sorted: "keys_sorted ?lt pre" "keys_sorted ?lt suf" and cs: "pm_caseSensitive (mut_map mu) = cs"
    using assms by (simp_all add: mut_invar_def pre_def suf_def)
  have it: "lower_bound ?before ?v 0 ?s = a"
    using lower_bound_part [of "[]" 0 ?s pre ?before suf] v s by (simp add: a_def)
  have sit: "lower_bound ?before ?v ?s (length ?v - ?s) = ?s + b"
    unfolding len using lower_bound_part [of pre ?s "length suf" suf ?before "[]"] v s by (simp add: b_def)
  have bounds: "a \<le> ?s" "b \<le> length suf"
    using lower_bound_bounds [of 0 ?before pre "length pre"] lower_bound_bounds [of 0 ?before suf "length suf"] s
    by (simp_all add: a_def b_def)
  have "pm_compare csg (mut_map mu) = ?lt" by (auto simp: pm_compare_def cs fun_eq_iff)
  then have f: "findImpl csg mu key =
      (if a < ?s \<and> \<not> ?lt key (fst (pre ! a)) then (a, a \<in> erased mu)
       else if b < length suf \<and> \<not> ?lt key (fst (suf ! b)) then (?s + b, ?s + b \<in> erased mu)
       else (length ?v, False))"
    unfolding findImpl_def Let_def using it sit bounds v s
    by (auto simp: nth_append)
  note p = sorted_part_index [OF sorted(1), of key, folded a_def, unfolded s]
    and q = sorted_part_index [OF sorted(2), of key, folded b_def]
  have slots: "is_slot csg cs mu key i \<longleftrightarrow> i < length ?v \<and>
      (if i < ?s then \<not> ?lt (fst (pre ! i)) key \<and> \<not> ?lt key (fst (pre ! i))
       else \<not> ?lt (fst (suf ! (i - ?s))) key \<and> \<not> ?lt key (fst (suf ! (i - ?s))))" for i
    using v s by (auto simp: is_slot_def nth_append)
  show ?thesis
  proof (cases "a < ?s \<and> \<not> ?lt key (fst (pre ! a))")
    case True
    with p(2) have "is_slot csg cs mu key a" using v s by (simp add: slots)
    with True f show ?thesis by auto
  next
    case np: False
    show ?thesis
    proof (cases "b < length suf \<and> \<not> ?lt key (fst (suf ! b))")
      case True
      with q(2) have "is_slot csg cs mu key (?s + b)" using v s by (simp add: slots)
      with True np f show ?thesis by auto
    next
      case False
      have "\<not> is_slot csg cs mu key i" for i
      proof
        assume i: "is_slot csg cs mu key i"
        show False
        proof (cases "i < ?s")
          case True
          with i np p(1) show False by (auto simp: slots)
        next
          case ge: False
          with i v s have "i - ?s < length suf" by (auto simp: slots)
          with ge i False q(1) show False by (auto simp: slots)
        qed
      qed
      with np False f show ?thesis by auto
    qed
  qed
qed

lemma findImpl_slot:
  assumes "mut_invar csg cs mu"
  shows "is_slot csg cs mu key i \<Longrightarrow> findImpl csg mu key = (i, i \<in> erased mu)"
    and "\<nexists>i. is_slot csg cs mu key i \<Longrightarrow> findImpl csg mu key = (length (mut_vec mu), False)"
  using findImpl_returns [OF assms, of key] slot_unique [OF assms] by blast+

lemma mut_lookup_Some:
  assumes "mut_invar csg cs mu"
  shows "mut_lookup csg mu key = Some e \<longleftrightarrow>
    (\<exists>i. is_slot csg cs mu key i \<and> i \<notin> erased mu \<and> mut_vec mu ! i = e)"
proof (cases "\<exists>i. is_slot csg cs mu key i")
  case True
  then obtain i where i: "is_slot csg cs mu key i" by blast
  then have "i < length (mut_vec mu)" by (simp add: is_slot_def)
  with findImpl_slot(1) [OF assms i] have l: "mut_lookup csg mu key = (if i \<in> erased mu then None else Some (mut_vec mu ! i))"
    by (simp add: mut_lookup_def mut_find_def)
  have "is_slot csg cs mu key j \<longleftrightarrow> j = i" for j using slot_unique [OF assms i] i by blast
  then show ?thesis by (simp add: l)
next
  case False
  with findImpl_slot(2) [OF assms False] show ?thesis
    by (simp add: mut_lookup_def mut_find_def Let_def)
qed

lemma mut_lookup_None:
  assumes "mut_invar csg cs mu"
  shows "mut_lookup csg mu key = None \<longleftrightarrow> (\<forall>i. is_slot csg cs mu key i \<longrightarrow> i \<in> erased mu)"
  using mut_lookup_Some [OF assms, of key] by (metis not_None_eq)

lemma set_vec_simps [simp]:
  "mut_vec (set_vec xs mu) = xs" "pm_caseSensitive (mut_map (set_vec xs mu)) = pm_caseSensitive (mut_map mu)"
  "suffixStart (set_vec xs mu) = suffixStart mu" "erased (set_vec xs mu) = erased mu"
  by (simp_all add: set_vec_def)

section \<open>Compaction\<close>

lemma remove_erased_append:
  "remove_erased er st idx (xs @ ys) =
    (case remove_erased er st idx xs of (xs', n) \<Rightarrow>
       case remove_erased er st (idx + length xs) ys of (ys', m) \<Rightarrow> (xs' @ ys', n + m))"
  by (induction xs arbitrary: idx) (auto split: prod.split)

lemma remove_erased_prefix:
  "idx + length xs \<le> st \<Longrightarrow> length (fst (remove_erased er st idx xs)) + snd (remove_erased er st idx xs) = length xs"
proof (induction xs arbitrary: idx)
  case (Cons x xs)
  from Cons.IH [of "idx + 1"] Cons.prems show ?case
    by (cases "remove_erased er st (idx + 1) xs") auto
qed simp

lemma remove_erased_suffix: "st \<le> idx \<Longrightarrow> snd (remove_erased er st idx xs) = 0"
proof (induction xs arbitrary: idx)
  case (Cons x xs)
  from Cons.IH [of "idx + 1"] Cons.prems show ?case
    by (cases "remove_erased er st (idx + 1) xs") auto
qed simp

lemma remove_erased_mem:
  "e \<in> set (fst (remove_erased er st idx xs)) \<longleftrightarrow> (\<exists>i < length xs. idx + i \<notin> er \<and> xs ! i = e)"
proof (induction xs arbitrary: idx)
  case (Cons x xs)
  have "(\<exists>i < length (x # xs). idx + i \<notin> er \<and> (x # xs) ! i = e) \<longleftrightarrow>
    idx \<notin> er \<and> x = e \<or> (\<exists>i < length xs. idx + 1 + i \<notin> er \<and> xs ! i = e)"
    by (auto simp: less_Suc_eq_0_disj)
  with Cons.IH [of "idx + 1"] show ?case
    by (cases "remove_erased er st (idx + 1) xs") auto
qed simp

lemma remove_erased_sorted: "keys_sorted lt xs \<Longrightarrow> keys_sorted lt (fst (remove_erased er st idx xs))"
proof (induction xs arbitrary: idx)
  case (Cons x xs)
  have "set (fst (remove_erased er st (idx + 1) xs)) \<subseteq> set xs"
    using remove_erased_mem [of _ er st "idx + 1" xs] by (metis nth_mem subsetI)
  with Cons.IH [of "idx + 1"] Cons.prems show ?case
    by (cases "remove_erased er st (idx + 1) xs") (auto simp: keys_sorted_def)
qed (simp add: keys_sorted_def)

lemma compact_spec:
  assumes "mut_invar csg cs mu"
  shows "mut_invar csg cs (compact csg mu)"
    and "keys_sorted (isPathPieceLess_component csg cs) (mut_vec (compact csg mu))"
    and "suffixStart (compact csg mu) = length (mut_vec (compact csg mu))"
    and "erased (compact csg mu) = {}"
    and "e \<in> set (mut_vec (compact csg mu)) \<longleftrightarrow> (\<exists>i < length (mut_vec mu). i \<notin> erased mu \<and> mut_vec mu ! i = e)"
proof -
  let ?lt = "isPathPieceLess_component csg cs" and ?s = "suffixStart mu" and ?v = "mut_vec mu" and ?er = "erased mu"
  define pre suf where "pre = take ?s ?v" and "suf = drop ?s ?v"
  have v: "?v = pre @ suf" and s: "length pre = ?s" and cs: "pm_caseSensitive (mut_map mu) = cs"
    using assms by (simp_all add: pre_def suf_def mut_invar_def)
  obtain p n where p: "remove_erased ?er ?s 0 pre = (p, n)" by (cases "remove_erased ?er ?s 0 pre")
  obtain q m where q: "remove_erased ?er ?s ?s suf = (q, m)" by (cases "remove_erased ?er ?s ?s suf")
  have "length p + n = ?s" using remove_erased_prefix [of 0 pre ?s ?er] p s by simp
  moreover have "m = 0" using remove_erased_suffix [of ?s ?s ?er suf] q by simp
  moreover have "remove_erased ?er ?s 0 ?v = (p @ q, n + m)"
    using remove_erased_append [of ?er ?s 0 pre suf] p q s by (simp add: v)
  ultimately have vec: "mut_vec (compact csg mu) = std_merge (\<lambda>a b. ?lt (fst a) (fst b)) p q"
    by (auto simp: compact_def Let_def pm_compare_def cs)
  show len: "suffixStart (compact csg mu) = length (mut_vec (compact csg mu))"
    and er: "erased (compact csg mu) = {}"
    by (simp_all add: compact_def Let_def split: prod.split)
  have mem: "e \<in> set p \<longleftrightarrow> (\<exists>i < ?s. i \<notin> ?er \<and> pre ! i = e)"
    "e \<in> set q \<longleftrightarrow> (\<exists>i < length suf. ?s + i \<notin> ?er \<and> suf ! i = e)" for e
    using remove_erased_mem [of e ?er ?s 0 pre] remove_erased_mem [of e ?er ?s ?s suf] p q s by simp_all
  then have sub: "set p \<subseteq> set pre" "set q \<subseteq> set suf" using s by (metis nth_mem subsetI)+
  have sorted: "keys_sorted ?lt p" "keys_sorted ?lt q"
    using remove_erased_sorted [of ?lt pre ?er ?s 0] remove_erased_sorted [of ?lt suf ?er ?s ?s] assms p q
    by (simp_all add: mut_invar_def pre_def suf_def)
  have "sorted_wrt (\<lambda>a b. ?lt (fst a) (fst b)) (std_merge (\<lambda>a b. ?lt (fst a) (fst b)) p q)"
  proof (rule entry_order.std_merge_sorted)
    show "?lt (fst x) (fst y) \<or> ?lt (fst y) (fst x)" if "x \<in> set p" "y \<in> set q" for x y
      using that sub assms unfolding mut_invar_def pre_def suf_def by blast
  qed (use sorted in \<open>simp_all add: keys_sorted_def sorted_wrt_map\<close>)
  then show ks: "keys_sorted ?lt (mut_vec (compact csg mu))"
    unfolding vec by (simp add: keys_sorted_def sorted_wrt_map)
  have "pm_caseSensitive (mut_map (compact csg mu)) = cs"
    by (simp add: compact_def Let_def cs split: prod.split)
  with ks len er show "mut_invar csg cs (compact csg mu)" by (simp add: mut_invar_def keys_sorted_def)
  have split: "(\<exists>i < length ?v. P i (?v ! i)) \<longleftrightarrow> (\<exists>i < ?s. P i (pre ! i)) \<or> (\<exists>i < length suf. P (?s + i) (suf ! i))" for P
  proof
    assume "\<exists>i < length ?v. P i (?v ! i)"
    then obtain i where i: "i < length ?v" "P i (?v ! i)" by blast
    show "(\<exists>i < ?s. P i (pre ! i)) \<or> (\<exists>i < length suf. P (?s + i) (suf ! i))"
    proof (cases "i < ?s")
      case True
      with i v s show ?thesis by (metis nth_append)
    next
      case False
      then have "i = ?s + (i - ?s)" "i - ?s < length suf" "?v ! i = suf ! (i - ?s)"
        using i v s by (auto simp: nth_append)
      with i(2) show ?thesis by metis
    qed
  next
    assume "(\<exists>i < ?s. P i (pre ! i)) \<or> (\<exists>i < length suf. P (?s + i) (suf ! i))"
    then consider i where "i < ?s" "P i (pre ! i)" | i where "i < length suf" "P (?s + i) (suf ! i)" by blast
    then show "\<exists>i < length ?v. P i (?v ! i)"
    proof cases
      case (1 i)
      then have "i < length ?v" "?v ! i = pre ! i" using v s by (simp_all add: nth_append)
      with 1 show ?thesis by auto
    next
      case (2 i)
      then have "?s + i < length ?v" "?v ! (?s + i) = suf ! i" using v s by (simp_all add: nth_append)
      with 2 show ?thesis by (intro exI [of _ "?s + i"]) simp
    qed
  qed
  show "e \<in> set (mut_vec (compact csg mu)) \<longleftrightarrow> (\<exists>i < length ?v. i \<notin> ?er \<and> ?v ! i = e)"
    unfolding vec entry_order.std_merge_set Un_iff mem split [of "\<lambda>i x. i \<notin> ?er \<and> x = e"] by blast
qed

lemma compact_lookup:
  assumes "mut_invar csg cs mu"
  shows "mut_lookup csg (compact csg mu) key = mut_lookup csg mu key"
proof -
  note c = compact_spec [OF assms]
  have "mut_lookup csg (compact csg mu) key = Some e \<longleftrightarrow> mut_lookup csg mu key = Some e" for e
  proof -
    have "mut_lookup csg (compact csg mu) key = Some e \<longleftrightarrow> e \<in> set (mut_vec (compact csg mu)) \<and>
        \<not> isPathPieceLess_component csg cs (fst e) key \<and> \<not> isPathPieceLess_component csg cs key (fst e)"
      unfolding mut_lookup_Some [OF c(1)] is_slot_def in_set_conv_nth using c(4) by auto
    also have "\<dots> \<longleftrightarrow> mut_lookup csg mu key = Some e"
      unfolding mut_lookup_Some [OF assms] is_slot_def c(5) by auto
    finally show ?thesis .
  qed
  then show ?thesis by (metis not_None_eq)
qed

section \<open>The operations\<close>

text \<open>Replacing an entry by one with an equivalent key keeps the order.\<close>

lemma keys_sorted_update:
  assumes "keys_sorted (isPathPieceLess_component csg cs) xs" and "i < length xs"
    and "\<not> isPathPieceLess_component csg cs (fst (xs ! i)) k" and "\<not> isPathPieceLess_component csg cs k (fst (xs ! i))"
  shows "keys_sorted (isPathPieceLess_component csg cs) (xs[i := (k, v)])"
  using assms
proof (induction xs arbitrary: i)
  case (Cons x xs)
  show ?case
  proof (cases i)
    case 0
    with Cons.prems piece_order.eqv_less(1) [of csg cs "fst x" k] show ?thesis by (auto simp: keys_sorted_def)
  next
    case (Suc j)
    have "isPathPieceLess_component csg cs (fst x) (fst y)" if "y \<in> set (xs[j := (k, v)])" for y
    proof -
      have "y = (k, v) \<or> y \<in> set xs" using that set_update_subset_insert by fast
      then show ?thesis
        using Cons.prems Suc piece_order.eqv_less(2) [of csg cs "fst (xs ! j)" k "fst x"] nth_mem [of j xs]
        by (auto simp: keys_sorted_def)
    qed
    with Cons Suc show ?thesis by (auto simp: keys_sorted_def)
  qed
qed simp

lemma is_slot_eqv:
  assumes "is_slot csg cs mu key i"
  shows "is_slot csg cs mu key' i \<longleftrightarrow>
    \<not> isPathPieceLess_component csg cs key key' \<and> \<not> isPathPieceLess_component csg cs key' key"
  using assms piece_order.eqv_less [of csg cs "fst (mut_vec mu ! i)" key key'] by (auto simp: is_slot_def)

lemma replace_slot:
  assumes inv: "mut_invar csg cs mu" and i: "is_slot csg cs mu key i"
    and k: "\<not> isPathPieceLess_component csg cs key k" "\<not> isPathPieceLess_component csg cs k key"
  defines "mu' \<equiv> (\<lambda>v. set_vec ((mut_vec mu)[i := (k, v)]) (mu\<lparr>erased := erased mu - {i}\<rparr>))"
  shows "mut_invar csg cs (mu' v)"
    and "mut_lookup csg (mu' v) key' =
      (if \<not> isPathPieceLess_component csg cs key key' \<and> \<not> isPathPieceLess_component csg cs key' key
       then Some (k, v) else mut_lookup csg mu key')"
proof -
  let ?lt = "isPathPieceLess_component csg cs" and ?s = "suffixStart mu" and ?v = "mut_vec mu"
  have lt: "i < length ?v" and old: "\<not> ?lt (fst (?v ! i)) k" "\<not> ?lt k (fst (?v ! i))"
    using i k piece_order.cotrans unfolding is_slot_def by blast+
  have keys: "?lt (fst (?v[i := (k, v)] ! j)) x \<longleftrightarrow> ?lt (fst (?v ! j)) x"
    "?lt x (fst (?v[i := (k, v)] ! j)) \<longleftrightarrow> ?lt x (fst (?v ! j))" if "j < length ?v" for j x
    using old piece_order.eqv_less [of csg cs "fst (?v ! i)" k x] lt that by (auto simp: nth_list_update)
  have slots: "is_slot csg cs (mu' v) key'' j \<longleftrightarrow> is_slot csg cs mu key'' j" for j key''
    by (auto simp: is_slot_def mu'_def keys)
  have pre: "keys_sorted ?lt (take ?s (?v[i := (k, v)]))"
  proof (cases "i < ?s")
    case True
    with keys_sorted_update [of csg cs "take ?s ?v" i k v] inv lt old show ?thesis
      by (simp add: mut_invar_def take_update_swap)
  qed (use inv in \<open>simp add: mut_invar_def\<close>)
  have suf: "keys_sorted ?lt (drop ?s (?v[i := (k, v)]))"
  proof (cases "i < ?s")
    case False
    with keys_sorted_update [of csg cs "drop ?s ?v" "i - ?s" k v] inv lt old show ?thesis
      by (simp add: mut_invar_def drop_update_swap)
  qed (use inv in \<open>simp add: mut_invar_def\<close>)
  have cross: "?lt (fst x) (fst y) \<or> ?lt (fst y) (fst x)"
    if x: "x \<in> set (take ?s (?v[i := (k, v)]))" and y: "y \<in> set (drop ?s (?v[i := (k, v)]))" for x y
  proof -
    obtain a where a: "a < ?s" "a < length ?v" "x = ?v[i := (k, v)] ! a" using x by (auto simp: in_set_conv_nth)
    obtain b where "b < length (drop ?s (?v[i := (k, v)]))" "y = drop ?s (?v[i := (k, v)]) ! b"
      using y by (metis in_set_conv_nth)
    then have b: "?s + b < length ?v" "y = ?v[i := (k, v)] ! (?s + b)" by auto
    have "?lt (fst (?v ! a)) (fst (?v ! (?s + b))) \<or> ?lt (fst (?v ! (?s + b))) (fst (?v ! a))"
      using invar_pairwise [OF inv, of a "?s + b"] a b by simp
    then show ?thesis using a b keys by simp
  qed
  from pre suf cross inv show inv': "mut_invar csg cs (mu' v)" by (auto simp: mut_invar_def mu'_def)
  have "mut_lookup csg (mu' v) key' = Some e \<longleftrightarrow>
      (if is_slot csg cs mu key' i then e = (k, v) else mut_lookup csg mu key' = Some e)" for e
  proof (cases "is_slot csg cs mu key' i")
    case True
    then have "is_slot csg cs mu key' j \<longleftrightarrow> j = i" for j using slot_unique [OF inv] by blast
    then show ?thesis unfolding mut_lookup_Some [OF inv'] slots using True lt by (auto simp: mu'_def)
  next
    case False
    then have "is_slot csg cs mu key' j \<and> j \<notin> erased (mu' v) \<and> mut_vec (mu' v) ! j = e \<longleftrightarrow>
      is_slot csg cs mu key' j \<and> j \<notin> erased mu \<and> ?v ! j = e" for j
      by (cases "j = i") (auto simp: mu'_def)
    with False show ?thesis unfolding mut_lookup_Some [OF inv'] mut_lookup_Some [OF inv] slots by simp
  qed
  then show "mut_lookup csg (mu' v) key' =
      (if \<not> ?lt key key' \<and> \<not> ?lt key' key then Some (k, v) else mut_lookup csg mu key')"
    unfolding is_slot_eqv [OF i] by (metis not_None_eq)
qed

lemma append_entry:
  assumes inv: "mut_invar csg cs mu" and new: "\<nexists>i. is_slot csg cs mu key i"
    and ordered: "suffixStart mu < length (mut_vec mu) \<Longrightarrow> isPathPieceLess_component csg cs (fst (last (mut_vec mu))) key"
  defines "mu' \<equiv> (\<lambda>v. set_vec (mut_vec mu @ [(key, v)]) mu)"
  shows "mut_invar csg cs (mu' v)"
    and "mut_lookup csg (mu' v) key' =
      (if \<not> isPathPieceLess_component csg cs key key' \<and> \<not> isPathPieceLess_component csg cs key' key
       then Some (key, v) else mut_lookup csg mu key')"
proof -
  let ?lt = "isPathPieceLess_component csg cs" and ?s = "suffixStart mu" and ?v = "mut_vec mu"
  have s: "?s \<le> length ?v" and er: "erased mu \<subseteq> {..<length ?v}" using inv by (simp_all add: mut_invar_def)
  have diff: "?lt (fst x) key \<or> ?lt key (fst x)" if "x \<in> set ?v" for x
    using new that by (auto simp: is_slot_def in_set_conv_nth)
  have "?lt (fst x) key" if x: "x \<in> set (drop ?s ?v)" for x
  proof -
    have lt: "?s < length ?v" using x by (cases "?s < length ?v") auto
    obtain ys z where z: "drop ?s ?v = ys @ [z]" using x by (cases "drop ?s ?v" rule: rev_cases) auto
    with lt have "last ?v = z" by (metis append_take_drop_id append_assoc last_snoc)
    with ordered [OF lt] have "?lt (fst z) key" by simp
    moreover have "x = z \<or> ?lt (fst x) (fst z)"
      using inv x z by (auto simp: mut_invar_def keys_sorted_def sorted_wrt_append)
    ultimately show ?thesis using piece_order.trans by blast
  qed
  with inv have suf: "keys_sorted ?lt (drop ?s ?v @ [(key, v)])"
    by (auto simp: mut_invar_def keys_sorted_def sorted_wrt_append)
  have "x \<in> set ?v" if "x \<in> set (take ?s ?v)" for x using that by (rule in_set_takeD)
  with inv suf diff s er show inv': "mut_invar csg cs (mu' v)"
    by (auto simp: mut_invar_def mu'_def)
  have slots: "is_slot csg cs (mu' v) key'' j \<longleftrightarrow>
      is_slot csg cs mu key'' j \<or> j = length ?v \<and> \<not> ?lt key key'' \<and> \<not> ?lt key'' key" for key'' j
    by (auto simp: is_slot_def mu'_def nth_append less_Suc_eq)
  have none: "\<not> is_slot csg cs mu key' j" if "\<not> ?lt key key' \<and> \<not> ?lt key' key" for j
    using that new is_slot_eqv [of csg cs mu key' j key] by blast
  have "mut_lookup csg (mu' v) key' = Some e \<longleftrightarrow>
      (if \<not> ?lt key key' \<and> \<not> ?lt key' key then e = (key, v) else mut_lookup csg mu key' = Some e)" for e
  proof (cases "\<not> ?lt key key' \<and> \<not> ?lt key' key")
    case True
    with none er show ?thesis unfolding mut_lookup_Some [OF inv'] slots by (auto simp: mu'_def)
  next
    case False
    have "mut_vec (mu' v) ! j = ?v ! j" if "is_slot csg cs mu key' j" for j
      using that by (simp add: is_slot_def mu'_def nth_append)
    with False show ?thesis unfolding mut_lookup_Some [OF inv'] mut_lookup_Some [OF inv] slots
      by (auto simp: mu'_def)
  qed
  then show "mut_lookup csg (mu' v) key' =
      (if \<not> ?lt key key' \<and> \<not> ?lt key' key then Some (key, v) else mut_lookup csg mu key')"
    by (metis not_None_eq)
qed

lemma compact_if_out_of_order_spec:
  assumes "mut_invar csg cs mu" and "\<nexists>i. is_slot csg cs mu key i"
  defines "mu' \<equiv> compact_if_out_of_order csg key mu"
  shows "mut_invar csg cs mu'" and "\<nexists>i. is_slot csg cs mu' key i"
    and "mut_lookup csg mu' key' = mut_lookup csg mu key'"
    and "suffixStart mu' < length (mut_vec mu') \<Longrightarrow> isPathPieceLess_component csg cs (fst (last (mut_vec mu'))) key"
proof -
  note c = compact_spec [OF assms(1)]
  have "\<nexists>i. is_slot csg cs (compact csg mu) key i"
  proof
    assume "\<exists>i. is_slot csg cs (compact csg mu) key i"
    then obtain i where i: "is_slot csg cs (compact csg mu) key i" by blast
    then have "mut_vec (compact csg mu) ! i \<in> set (mut_vec (compact csg mu))" by (simp add: is_slot_def)
    then obtain j where "j < length (mut_vec mu)" "mut_vec mu ! j = mut_vec (compact csg mu) ! i"
      unfolding c(5) by blast
    with i assms(2) show False by (auto simp: is_slot_def)
  qed
  moreover have "pm_compare csg (mut_map mu) = isPathPieceLess_component csg cs"
    using assms(1) by (auto simp: pm_compare_def mut_invar_def fun_eq_iff)
  ultimately show "mut_invar csg cs mu'" "\<nexists>i. is_slot csg cs mu' key i"
    "mut_lookup csg mu' key' = mut_lookup csg mu key'"
    "suffixStart mu' < length (mut_vec mu') \<Longrightarrow> isPathPieceLess_component csg cs (fst (last (mut_vec mu'))) key"
    using assms(1,2) c(1,3) compact_lookup [OF assms(1)]
    by (auto simp: mu'_def compact_if_out_of_order_def split: if_splits)
qed

abbreviation mut_emplace_op :: "bool \<Rightarrow> string \<Rightarrow> 'v \<Rightarrow> 'v mutator \<Rightarrow> 'v mutator \<times> bool" where
  "mut_emplace_op csg k v mu \<equiv> (fst (mut_emplace csg k v mu), snd (snd (mut_emplace csg k v mu)))"

abbreviation mut_assign_op :: "bool \<Rightarrow> string \<Rightarrow> 'v \<Rightarrow> 'v mutator \<Rightarrow> 'v mutator \<times> bool" where
  "mut_assign_op csg k v mu \<equiv>
     (fst (mut_insert_or_assign csg k v mu), snd (snd (mut_insert_or_assign csg k v mu)))"

lemma mut_key: "mut_invar csg cs mu \<Longrightarrow> mut_lookup csg mu k = Some e \<Longrightarrow>
    \<not> isPathPieceLess_component csg cs (fst e) k \<and> \<not> isPathPieceLess_component csg cs k (fst e)"
  by (auto simp: mut_lookup_Some is_slot_def)

lemma mut_cong:
  assumes "mut_invar csg cs mu"
    and "\<not> isPathPieceLess_component csg cs k k'" and "\<not> isPathPieceLess_component csg cs k' k"
  shows "mut_lookup csg mu k = mut_lookup csg mu k'"
proof -
  have "is_slot csg cs mu k i \<longleftrightarrow> is_slot csg cs mu k' i" for i
    using assms(2,3) is_slot_eqv [of csg cs mu k i k'] is_slot_eqv [of csg cs mu k' i k] by blast
  then have "mut_lookup csg mu k = Some e \<longleftrightarrow> mut_lookup csg mu k' = Some e" for e
    by (simp add: mut_lookup_Some [OF assms(1)])
  then show ?thesis by (metis not_None_eq)
qed

lemma mut_emplace_spec:
  assumes "mut_invar csg cs mu"
  shows "mut_invar csg cs (fst (mut_emplace csg k v mu)) \<and>
    (snd (snd (mut_emplace csg k v mu)) \<longleftrightarrow> mut_lookup csg mu k = None) \<and>
    mut_lookup csg (fst (mut_emplace csg k v mu)) k' =
      (if \<not> isPathPieceLess_component csg cs k k' \<and> \<not> isPathPieceLess_component csg cs k' k
       then Some (case mut_lookup csg mu k of None \<Rightarrow> (k, v) | Some e \<Rightarrow> e) else mut_lookup csg mu k')"
proof (cases "\<exists>i. is_slot csg cs mu k i")
  case False
  note c = compact_if_out_of_order_spec [OF assms False]
  have "mut_lookup csg mu k = None" using False by (simp add: mut_lookup_None [OF assms])
  with append_entry [OF c(1,2,4), of v] c(3) findImpl_slot(2) [OF assms False] show ?thesis
    by (simp add: mut_emplace_def Let_def)
next
  case True
  then obtain i where i: "is_slot csg cs mu k i" by blast
  then have lt: "i < length (mut_vec mu)" by (simp add: is_slot_def)
  note f = findImpl_slot(1) [OF assms i]
  show ?thesis
  proof (cases "i \<in> erased mu")
    case er: True
    then have "mut_lookup csg mu k = None"
      using slot_unique [OF assms i] by (auto simp: mut_lookup_None [OF assms])
    with replace_slot [OF assms i piece_order.irrefl piece_order.irrefl, of v] f er lt show ?thesis
      by (simp add: mut_emplace_def)
  next
    case live: False
    then have e: "mut_lookup csg mu k = Some (mut_vec mu ! i)" using i by (auto simp: mut_lookup_Some [OF assms])
    have "mut_emplace csg k v mu = (mu, i, False)" using f live lt by (simp add: mut_emplace_def)
    moreover have "mut_lookup csg mu k' = Some (mut_vec mu ! i)"
      if "\<not> isPathPieceLess_component csg cs k k' \<and> \<not> isPathPieceLess_component csg cs k' k"
      using mut_cong [OF assms, of k k'] that e by simp
    ultimately show ?thesis using assms e by auto
  qed
qed

lemma mut_assign_spec:
  assumes "mut_invar csg cs mu"
  shows "mut_invar csg cs (fst (mut_insert_or_assign csg k v mu)) \<and>
    (snd (snd (mut_insert_or_assign csg k v mu)) \<longleftrightarrow> mut_lookup csg mu k = None) \<and>
    mut_lookup csg (fst (mut_insert_or_assign csg k v mu)) k' =
      (if \<not> isPathPieceLess_component csg cs k k' \<and> \<not> isPathPieceLess_component csg cs k' k
       then Some (case mut_lookup csg mu k of None \<Rightarrow> k | Some e \<Rightarrow> fst e, v) else mut_lookup csg mu k')"
proof (cases "\<exists>i. is_slot csg cs mu k i \<and> i \<notin> erased mu")
  case False
  then have none: "mut_lookup csg mu k = None" by (auto simp: mut_lookup_None [OF assms])
  have "mut_insert_or_assign csg k v mu = mut_emplace csg k v mu"
    using False findImpl_returns [OF assms, of k]
    by (auto simp: mut_insert_or_assign_def mut_emplace_def is_slot_def)
  with mut_emplace_spec [OF assms, of k v k'] none show ?thesis by simp
next
  case True
  then obtain i where i: "is_slot csg cs mu k i" and live: "i \<notin> erased mu" by blast
  then have lt: "i < length (mut_vec mu)" and e: "mut_lookup csg mu k = Some (mut_vec mu ! i)"
    by (auto simp: mut_lookup_Some [OF assms] is_slot_def)
  have "erased mu - {i} = erased mu" using live by simp
  then have "mu\<lparr>erased := erased mu - {i}\<rparr> = mu" by simp
  with replace_slot [OF assms i, of "fst (mut_vec mu ! i)" v] findImpl_slot(1) [OF assms i] live lt i e
  show ?thesis by (simp add: mut_insert_or_assign_def is_slot_def)
qed

lemma mut_erase_spec:
  assumes "mut_invar csg cs mu"
  shows "mut_invar csg cs (fst (mut_erase csg k mu)) \<and>
    snd (mut_erase csg k mu) = (if mut_lookup csg mu k = None then 0 else 1) \<and>
    mut_lookup csg (fst (mut_erase csg k mu)) k' =
      (if \<not> isPathPieceLess_component csg cs k k' \<and> \<not> isPathPieceLess_component csg cs k' k
       then None else mut_lookup csg mu k')"
proof (cases "mut_lookup csg mu k")
  case None
  then have "mut_erase csg k mu = (mu, 0)" by (auto simp: mut_erase_def mut_lookup_def Let_def split: if_splits)
  with None assms mut_cong [OF assms, of k k'] show ?thesis by auto
next
  case (Some e)
  then obtain i where i: "is_slot csg cs mu k i" "i \<notin> erased mu" by (auto simp: mut_lookup_Some [OF assms])
  then have lt: "i < length (mut_vec mu)" by (simp add: is_slot_def)
  let ?mu = "mut_erase_at i mu"
  have er: "mut_erase csg k mu = (?mu, 1)"
    using findImpl_slot(1) [OF assms i(1)] i lt by (simp add: mut_erase_def mut_find_def)
  have inv: "mut_invar csg cs ?mu" using assms lt by (simp add: mut_invar_def mut_erase_at_def)
  have slots: "is_slot csg cs ?mu key j \<longleftrightarrow> is_slot csg cs mu key j" for key j
    by (simp add: is_slot_def mut_erase_at_def)
  have "mut_lookup csg ?mu k' = Some d \<longleftrightarrow> \<not> is_slot csg cs mu k' i \<and> mut_lookup csg mu k' = Some d" for d
    unfolding mut_lookup_Some [OF inv] mut_lookup_Some [OF assms] slots
    using slot_unique [OF assms, of k'] by (auto simp: mut_erase_at_def)
  then have "mut_lookup csg ?mu k' = (if is_slot csg cs mu k' i then None else mut_lookup csg mu k')"
    by (metis not_None_eq)
  with er inv Some show ?thesis unfolding is_slot_eqv [OF i(1)] by simp
qed

interpretation mutator: assign_map "isPathPieceLess_component csg caseSensitive" "mut_invar csg caseSensitive"
    "mut_lookup csg" "mut_emplace_op csg" "mut_erase csg" "mut_assign_op csg"
  for csg :: bool and caseSensitive :: CaseSensitivity
proof
  fix mu :: "'v mutator" and k k' :: string and v :: 'v and e
  assume inv: "mut_invar csg caseSensitive mu"
  note spec = mut_emplace_spec [OF inv, of k v k'] mut_erase_spec [OF inv, of k k'] mut_assign_spec [OF inv, of k v k']
  let ?lt = "isPathPieceLess_component csg caseSensitive"
  show "mut_lookup csg mu k = Some e \<Longrightarrow> \<not> ?lt (fst e) k \<and> \<not> ?lt k (fst e)" by (rule mut_key [OF inv])
  show "\<not> ?lt k k' \<Longrightarrow> \<not> ?lt k' k \<Longrightarrow> mut_lookup csg mu k = mut_lookup csg mu k'" by (rule mut_cong [OF inv])
  show "mut_invar csg caseSensitive (fst (mut_emplace_op csg k v mu))"
    and "snd (mut_emplace_op csg k v mu) = (mut_lookup csg mu k = None)"
    and "mut_lookup csg (fst (mut_emplace_op csg k v mu)) k' =
      (if \<not> ?lt k k' \<and> \<not> ?lt k' k then Some (case mut_lookup csg mu k of None \<Rightarrow> (k, v) | Some e \<Rightarrow> e)
       else mut_lookup csg mu k')"
    using spec(1) by (simp_all only: fst_conv snd_conv)
  show "mut_invar csg caseSensitive (fst (mut_erase csg k mu))"
    and "snd (mut_erase csg k mu) = (if mut_lookup csg mu k = None then 0 else 1)"
    and "mut_lookup csg (fst (mut_erase csg k mu)) k' =
      (if \<not> ?lt k k' \<and> \<not> ?lt k' k then None else mut_lookup csg mu k')"
    using spec(2) by blast+
  show "mut_invar csg caseSensitive (fst (mut_assign_op csg k v mu))"
    and "snd (mut_assign_op csg k v mu) = (mut_lookup csg mu k = None)"
    and "mut_lookup csg (fst (mut_assign_op csg k v mu)) k' =
      (if \<not> ?lt k k' \<and> \<not> ?lt k' k then Some (case mut_lookup csg mu k of None \<Rightarrow> k | Some e \<Rightarrow> fst e, v)
       else mut_lookup csg mu k')"
    using spec(3) by (simp_all only: fst_conv snd_conv)
qed

lemma mut_make_spec:
  assumes "pm_invar csg cs m"
  shows "mut_invar csg cs (mut_make m)" and "mut_lookup csg (mut_make m) k = pm_lookup csg m k"
proof -
  show inv: "mut_invar csg cs (mut_make m)"
    using assms by (simp add: mut_invar_def mut_make_def pm_invar_def keys_sorted_def)
  have "mut_lookup csg (mut_make m) k = Some e \<longleftrightarrow> pm_lookup csg m k = Some e" for e
    using assms piece_order.entry_at_Some [of csg cs "pm_vec m" k e]
    unfolding mut_lookup_Some [OF inv] pm_lookup_entry_at(1) [OF assms] is_slot_def pm_invar_def
    by (auto simp: mut_make_def in_set_conv_nth)
  then show "mut_lookup csg (mut_make m) k = pm_lookup csg m k" by (metis not_None_eq)
qed

lemma finalize_spec:
  assumes "mut_invar csg cs mu"
  shows "pm_invar csg cs (finalize csg mu)" and "pm_lookup csg (finalize csg mu) k = mut_lookup csg mu k"
proof -
  note c = compact_spec [OF assms]
  show inv: "pm_invar csg cs (finalize csg mu)"
    using c(1,2) by (simp add: finalize_def pm_invar_def mut_invar_def)
  have "compact csg mu = mut_make (finalize csg mu)"
    using c(3,4) by (simp add: mut_make_def finalize_def)
  with mut_make_spec(2) [OF inv, of k] compact_lookup [OF assms, of k]
  show "pm_lookup csg (finalize csg mu) k = mut_lookup csg mu k" by simp
qed

section \<open>Properties\<close>

text \<open>
  C2: batching updates in a \<open>PathMapMutator\<close> is the same as applying them to the
  \<open>PathMap\<close> directly: for every sequence of \<open>emplace\<close> and \<open>erase\<close> operations, in any
  order of keys, every operation reports the same and \<open>finalize\<close> returns exactly the map
  that results from applying the operations one by one.
\<close>

theorem mutator_refines_path_map:
  assumes "pm_invar csg cs m"
  defines "batched \<equiv> (\<lambda>ops. run_ops (mut_emplace_op csg) (mut_erase csg) ops (mut_make m))"
    and "direct \<equiv> (\<lambda>ops. run_ops (pm_emplace_op csg) (pm_erase csg) ops m)"
  shows "snd (batched ops) = snd (direct ops) \<and> finalize csg (fst (batched ops)) = fst (direct ops)"
proof -
  have B: "batched ops = run_ops (mut_emplace_op csg) (mut_erase csg) ops (mut_make m)"
    and D: "direct ops = run_ops (pm_emplace_op csg) (pm_erase csg) ops m" by (simp_all add: batched_def direct_def)
  note b = mutator.run_ops_spec [OF mut_make_spec(1) [OF assms(1)], of ops, folded B]
  note d = path_map.run_ops_spec [OF assms(1), of ops, folded D]
  have "mut_lookup csg (mut_make m) = pm_lookup csg m" using mut_make_spec(2) [OF assms(1)] by blast
  with b d have "(mut_lookup csg (fst (batched ops)), snd (batched ops)) =
      (pm_lookup csg (fst (direct ops)), snd (direct ops))" by simp
  then have eq: "mut_lookup csg (fst (batched ops)) = pm_lookup csg (fst (direct ops))"
    and reports: "snd (batched ops) = snd (direct ops)" by simp_all
  have "finalize csg (fst (batched ops)) = fst (direct ops)"
    using finalize_spec [of csg cs "fst (batched ops)"] b d eq by (intro pm_eqI [of csg cs]) auto
  with reports show ?thesis by blast
qed

theorem mutator_refines_path_map_witness:
  "finalize True (fst (run_ops (mut_emplace_op True) (mut_erase True)
      [Emplace ''c'' 1, Emplace ''b'' 2, Erase ''a'', Emplace ''A'' 3]
      (mut_make (pm_from_range True [(''a'', 0 :: nat)] Insensitive)))) =
   fst (run_ops (pm_emplace_op True) (pm_erase True)
      [Emplace ''c'' 1, Emplace ''b'' 2, Erase ''a'', Emplace ''A'' 3]
      (pm_from_range True [(''a'', 0)] Insensitive))"
  using mutator_refines_path_map [OF pm_from_range_invar] by blast

text \<open>
  \<open>insert_or_assign\<close> keeps the invariant of the mutator, reports an insertion exactly
  if no live entry had an equivalent key, and afterwards the key maps to the new value,
  under the old spelling of the key if there was a live entry; all other keys are
  unaffected.
\<close>

theorem insert_or_assign_correct:
  assumes "mut_invar csg cs mu"
  defines "result \<equiv> (\<lambda>key val. mut_insert_or_assign csg key val mu)"
  shows "mut_invar csg cs (fst (result key val)) \<and>
    (snd (snd (result key val)) \<longleftrightarrow> mut_lookup csg mu key = None) \<and>
    mut_lookup csg (fst (result key val)) key =
      Some (case mut_lookup csg mu key of None \<Rightarrow> key | Some e \<Rightarrow> fst e, val) \<and>
    (\<forall>key'. isPathPieceLess_component csg cs key key' \<or> isPathPieceLess_component csg cs key' key \<longrightarrow>
       mut_lookup csg (fst (result key val)) key' = mut_lookup csg mu key')"
  using mut_assign_spec [OF assms(1), of key val] piece_order.irrefl unfolding result_def by auto

theorem insert_or_assign_correct_witness:
  "mut_lookup True (fst (mut_insert_or_assign True ''A'' 7 (mut_make (pm_from_range True [(''a'', 0 :: nat)] Insensitive)))) ''A'' =
   Some (''a'', 7)"
proof -
  have inv: "mut_invar True Insensitive (mut_make (pm_from_range True [(''a'', 0 :: nat)] Insensitive))"
    by (rule mut_make_spec(1)) (rule pm_from_range_invar)
  have "mut_lookup True (mut_make (pm_from_range True [(''a'', 0 :: nat)] Insensitive)) ''A'' = Some (''a'', 0)"
    unfolding mut_make_spec(2) [OF pm_from_range_invar] pm_from_range_lookup by code_simp
  with insert_or_assign_correct [OF inv, of "''A''" 7] show ?thesis by simp
qed

end
