(* ===== verification/Mapped_Disk_Vector.thy ===== *)
theory Mapped_Disk_Vector
  imports Eden_Prelude "HOL-Library.Word"
begin

text \<open>
  \<open>MappedDiskVector\<close> of \<open>MappedDiskVector.h\<close>: a vector of fixed-size records in a
  memory-mapped file with a 32-byte header.

  The file is a record of its size in bytes, its header and the record slots behind it;
  because the mapping is shared, the vector and its file are one object.  A slot holds a
  raw record of type \<open>'a\<close>; \<open>sizeof(T)\<close> and \<open>T::VERSION\<close> are arguments.
  Header fields keep their width; file sizes and offsets are natural numbers.

  The system calls are the fields of \<open>mdv_os\<close>: each tells, for its arguments, whether the
  call fails and with which \<open>errno\<close>.  Operations return the new state also when they
  throw.  The test hook \<open>afterMmap\<close> is not modelled.

  The lemmas show that every operation keeps the mapping, the header and the number of
  records consistent, that a failed \<open>emplace_back\<close> does not change the contents, that
  reopening a file yields the same contents, and that migration converts every record
  through the chain of old versions and leaves the old file in place if it fails.
\<close>

section \<open>Definitions\<close>

definition kPageSize :: nat where
  "kPageSize = 4096"

definition roundUpToNonzeroPageSize :: "nat \<Rightarrow> nat" where
  "roundUpToNonzeroPageSize s = max kPageSize ((s + kPageSize - 1) div kPageSize * kPageSize)"

definition kMagic :: "32 word" where
  "kMagic = 0x0056444d"

definition GROWTH_IN_PAGES :: nat where
  "GROWTH_IN_PAGES = 256"

definition header_size :: nat where
  "header_size = 32"

record mdv_header =
  h_magic :: "32 word"
  h_version :: "32 word"
  h_recordVersion :: "32 word"
  h_recordSize :: "32 word"
  h_entryCount :: "64 word"
  h_unused :: "64 word"

record 'a mfile =
  mf_size :: nat
  mf_header :: mdv_header
  mf_slots :: "nat \<Rightarrow> 'a"

record 'a mdv =
  mdv_file :: "'a mfile"
  mdv_mapSize :: nat
  mdv_end :: nat

record mdv_os =
  os_sysconf :: int
  os_lock :: "nat option"
  os_pread :: "nat option"
  os_pwrite :: "nat + nat"
  os_fallocate :: "nat \<Rightarrow> nat option"
  os_ftruncate :: "nat \<Rightarrow> nat option"
  os_mmap :: "nat \<Rightarrow> nat option"
  os_madvise :: "nat \<Rightarrow> nat \<Rightarrow> nat option"
  os_rename :: "nat option"

definition EINVAL :: nat where
  "EINVAL = 22"

definition EOPNOTSUPP :: nat where
  "EOPNOTSUPP = 95"

definition systemPageSize :: "mdv_os \<Rightarrow> nat" where
  "systemPageSize os = (if os_sysconf os > 0 then nat (os_sysconf os) else kPageSize)"

text \<open>
  Addresses are offsets into the mapping, whose start is aligned to the system's pages.
  \<open>MADV_POPULATE_WRITE\<close> that the kernel does not know (\<open>EINVAL\<close>) is ignored.
\<close>

definition populateForWrite :: "mdv_os \<Rightarrow> nat \<Rightarrow> nat \<Rightarrow> unit result" where
  "populateForWrite os start len =
     (let end' = start + len;
          pageSize = systemPageSize os;
          alignedStart = start - start mod pageSize;
          alignedEnd = (end' + pageSize - 1) div pageSize * pageSize
      in case os_madvise os alignedStart (alignedEnd - alignedStart) of
           None \<Rightarrow> Inr ()
         | Some errno \<Rightarrow> if errno \<noteq> EINVAL then Inl (SystemError errno) else Inr ())"

text \<open>Extending never shrinks a file: \<open>fallocate\<close> cannot, and the size requested is larger.\<close>

definition extendFile :: "mdv_os \<Rightarrow> nat \<Rightarrow> 'a mfile \<Rightarrow> 'a mfile \<times> unit result" where
  "extendFile os newSize f =
     (case os_fallocate os newSize of
        None \<Rightarrow> (f\<lparr>mf_size := max (mf_size f) newSize\<rparr>, Inr ())
      | Some errno \<Rightarrow>
          if errno = EOPNOTSUPP then
            (case os_ftruncate os newSize of
               None \<Rightarrow> (f\<lparr>mf_size := newSize\<rparr>, Inr ())
             | Some errno' \<Rightarrow> (f, Inl (SystemError errno')))
          else (f, Inl (SystemError errno)))"

definition mdv_construct :: "mdv_os \<Rightarrow> nat \<Rightarrow> 'a mfile \<Rightarrow> nat \<Rightarrow> nat \<Rightarrow> 'a mfile \<times> 'a mdv result" where
  "mdv_construct os recSize file fileSize currentEntryCount =
     (let desiredSize = roundUpToNonzeroPageSize fileSize;
          (file', ext) = (if fileSize \<noteq> desiredSize then extendFile os desiredSize file else (file, Inr ()))
      in case ext of
           Inl e \<Rightarrow> (file', Inl e)
         | Inr _ \<Rightarrow>
             (case os_mmap os desiredSize of
                Some errno \<Rightarrow> (file', Inl (SystemError errno))
              | None \<Rightarrow>
                  (case populateForWrite os 0 desiredSize of
                     Inl e \<Rightarrow> (file', Inl e)
                   | Inr _ \<Rightarrow>
                       if header_size + currentEntryCount * recSize \<le> desiredSize
                       then (file', Inr \<lparr>mdv_file = file', mdv_mapSize = desiredSize, mdv_end = currentEntryCount\<rparr>)
                       else (file', Inl CheckFailed))))"

definition initializeFromScratch :: "mdv_os \<Rightarrow> 32 word \<Rightarrow> nat \<Rightarrow> 'a mfile \<Rightarrow> 'a mfile \<times> 'a mdv result" where
  "initializeFromScratch os ver recSize file =
     (let initialSize = GROWTH_IN_PAGES * kPageSize;
          header = \<lparr>h_magic = kMagic, h_version = 1, h_recordVersion = ver, h_recordSize = of_nat recSize,
                    h_entryCount = 0, h_unused = 0\<rparr>;
          (file', ext) = extendFile os initialSize file
      in case ext of
           Inl e \<Rightarrow> (file', Inl e)
         | Inr _ \<Rightarrow>
             (case os_pwrite os of
                Inl errno \<Rightarrow> (file', Inl (SystemError errno))
              | Inr written \<Rightarrow>
                  if written \<noteq> header_size then (file', Inl RuntimeError)
                  else mdv_construct os recSize (file'\<lparr>mf_header := header\<rparr>) initialSize 0))"

text \<open>\<open>blank\<close> stands for the contents of a file that was just created or truncated.\<close>

definition createOrOverwrite :: "mdv_os \<Rightarrow> 32 word \<Rightarrow> nat \<Rightarrow> 'a mfile \<Rightarrow> 'a mfile \<times> 'a mdv result" where
  "createOrOverwrite os ver recSize blank =
     (case os_lock os of
        Some errno \<Rightarrow> (blank\<lparr>mf_size := 0\<rparr>, Inl (SystemError errno))
      | None \<Rightarrow> initializeFromScratch os ver recSize (blank\<lparr>mf_size := 0\<rparr>))"

definition hasRoom :: "nat \<Rightarrow> nat \<Rightarrow> 'a mdv \<Rightarrow> bool" where
  "hasRoom recSize amount v = (header_size + (mdv_end v + amount) * recSize \<le> mdv_mapSize v)"

definition mdv_size :: "'a mdv \<Rightarrow> nat" where
  "mdv_size v = mdv_end v"

definition mdv_capacity :: "nat \<Rightarrow> 'a mdv \<Rightarrow> nat" where
  "mdv_capacity recSize v = (mdv_mapSize v - header_size) div recSize"

text \<open>An access outside the mapping is undefined.\<close>

definition mdv_index :: "nat \<Rightarrow> 'a mdv \<Rightarrow> nat \<Rightarrow> 'a option" where
  "mdv_index recSize v i =
     (if header_size + (i + 1) * recSize \<le> mdv_mapSize v then Some (mf_slots (mdv_file v) i) else None)"

definition populateEntryForWrite :: "mdv_os \<Rightarrow> nat \<Rightarrow> nat \<Rightarrow> 'a mdv \<Rightarrow> unit result" where
  "populateEntryForWrite os recSize index v =
     (if index < mdv_size v then populateForWrite os (header_size + index * recSize) recSize else Inl CheckFailed)"

text \<open>The growth part of \<open>emplace_back\<close>.\<close>

definition mdv_grow :: "mdv_os \<Rightarrow> 'a mdv \<Rightarrow> 'a mdv \<times> unit result" where
  "mdv_grow os v =
     (let growth = GROWTH_IN_PAGES * kPageSize; newFileSize = mdv_mapSize v + growth in
      if newFileSize mod kPageSize \<noteq> 0 then (v, Inl CheckFailed)
      else
        (case extendFile os newFileSize (mdv_file v) of
           (f, Inl e) \<Rightarrow> (v\<lparr>mdv_file := f\<rparr>, Inl e)
         | (f, Inr _) \<Rightarrow>
             (case os_mmap os newFileSize of
                Some errno \<Rightarrow> (v\<lparr>mdv_file := f\<rparr>, Inl (SystemError errno))
              | None \<Rightarrow>
                  (v\<lparr>mdv_file := f, mdv_mapSize := newFileSize\<rparr>,
                   populateForWrite os (newFileSize - growth) growth))))"

text \<open>\<open>rec\<close> is the result of the constructor of the record, which may throw.\<close>

definition emplace_back :: "mdv_os \<Rightarrow> nat \<Rightarrow> 'a result \<Rightarrow> 'a mdv \<Rightarrow> 'a mdv \<times> unit result" where
  "emplace_back os recSize rec v =
     (case (if hasRoom recSize 1 v then (v, Inr ()) else mdv_grow os v) of
        (v', Inl e) \<Rightarrow> (v', Inl e)
      | (v', Inr _) \<Rightarrow>
          (case populateForWrite os (header_size + mdv_end v' * recSize) recSize of
             Inl e \<Rightarrow> (v', Inl e)
           | Inr _ \<Rightarrow>
               (case rec of
                  Inl e \<Rightarrow> (v', Inl e)
                | Inr x \<Rightarrow>
                    (let f = mdv_file v'; h = mf_header f in
                     (v'\<lparr>mdv_file := f\<lparr>mf_slots := (mf_slots f)(mdv_end v' := x),
                                     mf_header := h\<lparr>h_entryCount := h_entryCount h + 1\<rparr>\<rparr>,
                         mdv_end := mdv_end v' + 1\<rparr>, Inr ())))))"

text \<open>Popping an empty vector is a failed debug check, and undefined without it.\<close>

definition pop_back :: "'a mdv \<Rightarrow> 'a mdv result" where
  "pop_back v =
     (if mdv_end v > 0 then
        (let f = mdv_file v; h = mf_header f in
         Inr (v\<lparr>mdv_file := f\<lparr>mf_header := h\<lparr>h_entryCount := h_entryCount h - 1\<rparr>\<rparr>,
                mdv_end := mdv_end v - 1\<rparr>))
      else Inl CheckFailed)"

definition mdv_front :: "'a mdv \<Rightarrow> 'a result" where
  "mdv_front v = (if mdv_end v > 0 then Inr (mf_slots (mdv_file v) 0) else Inl CheckFailed)"

definition mdv_back :: "'a mdv \<Rightarrow> 'a result" where
  "mdv_back v = (if mdv_end v > 0 then Inr (mf_slots (mdv_file v) (mdv_end v - 1)) else Inl CheckFailed)"

section \<open>Opening and migration\<close>

text \<open>
  An old record type: its version, its size, and the constructor of the next newer type
  from it.
\<close>

record 'a old_version =
  ov_version :: "32 word"
  ov_size :: nat
  ov_upgrade :: "'a \<Rightarrow> 'a"

definition invalid_header :: "'a mfile \<Rightarrow> bool" where
  "invalid_header f =
     (let h = mf_header f in
      kMagic \<noteq> h_magic h \<or> h_version h \<noteq> 1 \<or> header_size > mf_size f \<or> h_recordSize h = 0 \<or>
      unat (h_entryCount h) > (mf_size f - header_size) div unat (h_recordSize h) \<or> h_unused h \<noteq> 0)"

fun emplace_all_records :: "(nat \<Rightarrow> mdv_os) \<Rightarrow> nat \<Rightarrow> 'a list \<Rightarrow> 'a mdv \<Rightarrow> 'a mdv \<times> unit result" where
  "emplace_all_records os recSize [] v = (v, Inr ())"
| "emplace_all_records os recSize (x # xs) v =
     (case emplace_back (os 0) recSize (Inr x) v of
        (v', Inl e) \<Rightarrow> (v', Inl e)
      | (v', Inr _) \<Rightarrow> emplace_all_records (\<lambda>i. os (i + 1)) recSize xs v')"

text \<open>
  Opening makes several groups of system calls, so the outcomes are a sequence: the first
  for the file itself, the second for the temporary file, the others for the records.
  Migration works on the file system: the file at the path, and the temporary file, which
  is \<open>None\<close> while there is none.  The result is the vector together with both.
\<close>

record 'a mdv_fs =
  fs_path :: "'a mfile"
  fs_tmp :: "'a mfile option"

definition migrate_records ::
  "(nat \<Rightarrow> mdv_os) \<Rightarrow> 32 word \<Rightarrow> nat \<Rightarrow> 'a mfile \<Rightarrow> nat \<Rightarrow> ('a \<Rightarrow> 'a) \<Rightarrow> nat \<Rightarrow> 'a mdv_fs \<Rightarrow> 'a mdv_fs \<times> 'a mdv result" where
  "migrate_records os ver recSize blank oldSize convert currentEntryCount fs =
     (case mdv_construct (os 0) oldSize (fs_path fs) (mf_size (fs_path fs)) currentEntryCount of
        (f, Inl e) \<Rightarrow> (fs\<lparr>fs_path := f\<rparr>, Inl e)
      | (f, Inr original) \<Rightarrow>
          (let fs = fs\<lparr>fs_path := f\<rparr> in
           case createOrOverwrite (os 1) ver recSize blank of
             (t, Inl e) \<Rightarrow> (fs\<lparr>fs_tmp := Some t\<rparr>, Inl e)
           | (_, Inr newVector) \<Rightarrow>
               (case emplace_all_records (\<lambda>i. os (i + 2)) recSize
                       (map (\<lambda>i. convert (mf_slots (mdv_file original) i)) [0..<mdv_size original]) newVector of
                  (v, Inl e) \<Rightarrow> (fs\<lparr>fs_tmp := if e = CheckFailed then Some (mdv_file v) else None\<rparr>, Inl e)
                | (v, Inr _) \<Rightarrow>
                    (case os_rename (os 1) of
                       Some errno \<Rightarrow> (fs\<lparr>fs_tmp := None\<rparr>, Inl (SystemError errno))
                     | None \<Rightarrow> (fs\<lparr>fs_path := mdv_file v, fs_tmp := None\<rparr>, Inr v)))))"

fun migrateFrom ::
  "(nat \<Rightarrow> mdv_os) \<Rightarrow> 32 word \<Rightarrow> nat \<Rightarrow> 'a mfile \<Rightarrow> 'a old_version list \<Rightarrow> nat \<Rightarrow> nat \<Rightarrow> ('a \<Rightarrow> 'a) \<Rightarrow> 'a mdv_fs \<Rightarrow>
    'a mdv_fs \<times> 'a mdv result" where
  "migrateFrom os ver recSize blank [] currentEntryCount oldVersionIndex convert fs = (fs, Inl CheckFailed)"
| "migrateFrom os ver recSize blank (first # rest) currentEntryCount oldVersionIndex convert fs =
     (if oldVersionIndex = 0 then
        migrate_records os ver recSize blank (ov_size first) (convert \<circ> ov_upgrade first) currentEntryCount fs
      else migrateFrom os ver recSize blank rest currentEntryCount (oldVersionIndex - 1)
             (convert \<circ> ov_upgrade first) fs)"

fun find_version :: "32 word \<Rightarrow> 'a old_version list \<Rightarrow> nat \<Rightarrow> (nat \<times> nat) option" where
  "find_version v [] i = None"
| "find_version v (first # rest) i =
     (if ov_version first = v then Some (i, ov_size first) else find_version v rest (i + 1))"

definition mdv_open ::
  "(nat \<Rightarrow> mdv_os) \<Rightarrow> 32 word \<Rightarrow> nat \<Rightarrow> 'a mfile \<Rightarrow> 'a old_version list \<Rightarrow> 'a mdv_fs \<Rightarrow> 'a mdv_fs \<times> 'a mdv result" where
  "mdv_open os ver recSize blank olds fs =
     (let file = fs_path fs; h = mf_header file in
      case os_lock (os 0) of
        Some errno \<Rightarrow> (fs, Inl (SystemError errno))
      | None \<Rightarrow>
          if mf_size file = 0 then
            (case initializeFromScratch (os 0) ver recSize file of (f, r) \<Rightarrow> (fs\<lparr>fs_path := f\<rparr>, r))
          else
            (case os_pread (os 0) of
               Some errno \<Rightarrow> (fs, Inl (SystemError errno))
             | None \<Rightarrow>
                 if mf_size file < header_size then (fs, Inl RuntimeError)
                 else if invalid_header file then (fs, Inl RuntimeError)
                 else if \<not> distinct (ver # map ov_version olds) then (fs, Inl LogicError)
                 else if ver = h_recordVersion h then
                   (if recSize \<noteq> unat (h_recordSize h) then (fs, Inl RuntimeError)
                    else (case mdv_construct (os 0) recSize file (mf_size file) (unat (h_entryCount h)) of
                            (f, r) \<Rightarrow> (fs\<lparr>fs_path := f\<rparr>, r)))
                 else
                   (case find_version (h_recordVersion h) olds 0 of
                      None \<Rightarrow> (fs, Inl RuntimeError)
                    | Some (i, oldSize) \<Rightarrow>
                        if oldSize \<noteq> unat (h_recordSize h) then (fs, Inl RuntimeError)
                        else migrateFrom os ver recSize blank olds (unat (h_entryCount h)) i id fs)))"

section \<open>Contents and invariant\<close>

definition mdv_contents :: "'a mdv \<Rightarrow> 'a list" where
  "mdv_contents v = map (mf_slots (mdv_file v)) [0..<mdv_end v]"

definition mdv_invar :: "32 word \<Rightarrow> nat \<Rightarrow> 'a mdv \<Rightarrow> bool" where
  "mdv_invar ver recSize v =
     (let h = mf_header (mdv_file v) in
      0 < mdv_mapSize v \<and> mdv_mapSize v < 2 ^ 63 \<and> mdv_mapSize v mod kPageSize = 0 \<and> mdv_mapSize v \<le> mf_size (mdv_file v) \<and>
      header_size + mdv_end v * recSize \<le> mdv_mapSize v \<and>
      h_magic h = kMagic \<and> h_version h = 1 \<and> h_recordVersion h = ver \<and> unat (h_recordSize h) = recSize \<and>
      unat (h_entryCount h) = mdv_end v \<and> h_unused h = 0)"

definition record_fits :: "nat \<Rightarrow> bool" where
  "record_fits recSize = (0 < recSize \<and> recSize \<le> 8 * kPageSize)"

text \<open>
  What is used of the system: file sizes are values of \<open>off_t\<close>, so a file is never
  extended to \<open>2\<^sup>6\<^sup>3\<close> bytes (\<open>EFBIG\<close>, or \<open>EINVAL\<close> for the negative size).
\<close>

definition os_offsets :: "mdv_os \<Rightarrow> bool" where
  "os_offsets os = (\<forall>n. os_fallocate os n = None \<or> os_ftruncate os n = None \<longrightarrow> n < 2 ^ 63)"

text \<open>A run in which every system call on sizes below the bound succeeds.\<close>

definition os_succeeds :: "nat \<Rightarrow> mdv_os \<Rightarrow> bool" where
  "os_succeeds bound os =
     (os_lock os = None \<and> os_pread os = None \<and> os_pwrite os = Inr header_size \<and> os_rename os = None \<and>
      (\<forall>n < bound. os_fallocate os n = None \<and> os_mmap os n = None) \<and>
      (\<forall>m n. os_madvise os m n = None \<or> os_madvise os m n = Some EINVAL))"

definition file_records :: "'a mfile \<Rightarrow> 'a list" where
  "file_records f = map (mf_slots f) [0..<unat (h_entryCount (mf_header f))]"

lemmas size_defs = kPageSize_def GROWTH_IN_PAGES_def header_size_def

lemma extendFile_keeps:
  assumes "extendFile os n f = (f', r)"
  shows "mf_header f' = mf_header f" and "mf_slots f' = mf_slots f" and "r = Inr () \<Longrightarrow> n \<le> mf_size f'"
    and "r \<noteq> Inr () \<Longrightarrow> f' = f" and "os_offsets os \<Longrightarrow> r = Inr () \<Longrightarrow> n < 2 ^ 63"
  using assms by (auto simp: extendFile_def os_offsets_def split: option.splits if_splits)

lemma extendFile_succeeds:
  "os_succeeds b os \<Longrightarrow> n < b \<Longrightarrow> extendFile os n f = (f\<lparr>mf_size := max (mf_size f) n\<rparr>, Inr ())"
  by (simp add: extendFile_def os_succeeds_def)

lemma mmap_succeeds: "os_succeeds b os \<Longrightarrow> n < b \<Longrightarrow> os_mmap os n = None"
  by (simp add: os_succeeds_def)

lemma populate_succeeds:
  assumes "os_succeeds b os"
  shows "populateForWrite os m n = Inr ()"
proof -
  have "(case os_madvise os i j of None \<Rightarrow> Inr ()
      | Some errno \<Rightarrow> if errno \<noteq> EINVAL then Inl (SystemError errno) else Inr ()) = (Inr () :: unit result)" for i j
  proof -
    have "os_madvise os i j = None \<or> os_madvise os i j = Some EINVAL"
      using assms unfolding os_succeeds_def by blast
    then show ?thesis by auto
  qed
  then show ?thesis by (simp only: populateForWrite_def Let_def)
qed

lemma roundUp_spec: "s \<le> roundUpToNonzeroPageSize s" "roundUpToNonzeroPageSize s mod kPageSize = 0"
  "0 < roundUpToNonzeroPageSize s"
proof -
  have "s \<le> (s + kPageSize - 1) div kPageSize * kPageSize" by (simp add: kPageSize_def)
  then show "s \<le> roundUpToNonzeroPageSize s" by (simp add: roundUpToNonzeroPageSize_def)
  show "roundUpToNonzeroPageSize s mod kPageSize = 0"
    by (auto simp: roundUpToNonzeroPageSize_def max_def)
  show "0 < roundUpToNonzeroPageSize s" by (simp add: roundUpToNonzeroPageSize_def kPageSize_def max_def)
qed

lemma mdv_grow_keeps:
  assumes "mdv_grow os v = (v', r)" and "mdv_invar ver recSize v" and "os_offsets os"
  shows "mdv_invar ver recSize v'" and "mdv_contents v' = mdv_contents v" and "mdv_end v' = mdv_end v"
    and "r = Inr () \<Longrightarrow> mdv_mapSize v' = mdv_mapSize v + GROWTH_IN_PAGES * kPageSize"
proof -
  obtain f er where f: "extendFile os (mdv_mapSize v + GROWTH_IN_PAGES * kPageSize) (mdv_file v) = (f, er)"
    by (cases "extendFile os (mdv_mapSize v + GROWTH_IN_PAGES * kPageSize) (mdv_file v)")
  note k = extendFile_keeps [OF f]
  have size: "mdv_mapSize v \<le> mf_size f"
    using k(3,4) assms(2) by (cases er) (auto simp: mdv_invar_def Let_def)
  have c: "v' = v \<and> r = Inl CheckFailed \<or> v' = v\<lparr>mdv_file := f\<rparr> \<and> r \<noteq> Inr () \<or>
    v' = v\<lparr>mdv_file := f, mdv_mapSize := mdv_mapSize v + GROWTH_IN_PAGES * kPageSize\<rparr> \<and> er = Inr () \<and>
      (mdv_mapSize v + GROWTH_IN_PAGES * kPageSize) mod kPageSize = 0"
  proof (cases "(mdv_mapSize v + GROWTH_IN_PAGES * kPageSize) mod kPageSize = 0")
    case False
    with assms(1) show ?thesis by (simp add: mdv_grow_def Let_def)
  next
    case True
    with assms(1) f show ?thesis
      by (cases er; cases "os_mmap os (mdv_mapSize v + GROWTH_IN_PAGES * kPageSize)") (auto simp: mdv_grow_def Let_def)
  qed
  then show "mdv_invar ver recSize v'"
    using assms(2,3) k size by (auto simp: mdv_invar_def Let_def)
  from c show "mdv_contents v' = mdv_contents v" "mdv_end v' = mdv_end v"
    using k(2) by (auto simp: mdv_contents_def)
  from c show "r = Inr () \<Longrightarrow> mdv_mapSize v' = mdv_mapSize v + GROWTH_IN_PAGES * kPageSize" by auto
qed

lemma emplace_back_spec:
  assumes inv: "mdv_invar ver recSize v" and rs: "record_fits recSize"
    and off: "os_offsets os" and eb: "emplace_back os recSize rec v = (v', r)"
  shows "mdv_invar ver recSize v'" and "r = Inr () \<Longrightarrow> \<exists>x. rec = Inr x \<and> mdv_contents v' = mdv_contents v @ [x]"
    and "r \<noteq> Inr () \<Longrightarrow> mdv_contents v' = mdv_contents v"
proof -
  obtain w wr where w: "(if hasRoom recSize 1 v then (v, Inr ()) else mdv_grow os v) = (w, wr)"
    by (cases "if hasRoom recSize 1 v then (v, Inr ()) else mdv_grow os v")
  have w_inv: "mdv_invar ver recSize w" and w_con: "mdv_contents w = mdv_contents v"
    and w_end: "mdv_end w = mdv_end v"
    using mdv_grow_keeps(1-3) [of os v w wr ver recSize] w inv off by (auto split: if_splits)
  have room: "header_size + (mdv_end w + 1) * recSize \<le> mdv_mapSize w" if "wr = Inr ()"
  proof (cases "hasRoom recSize 1 v")
    case True
    with w show ?thesis by (auto simp: hasRoom_def)
  next
    case False
    with w that inv off mdv_grow_keeps(3,4) [of os v w wr ver recSize] rs show ?thesis
      by (auto simp: mdv_invar_def Let_def record_fits_def size_defs)
  qed
  have map: "mdv_mapSize w < 2 ^ 63" using w_inv by (simp add: mdv_invar_def Let_def)
  show "mdv_invar ver recSize v'" and "r = Inr () \<Longrightarrow> \<exists>x. rec = Inr x \<and> mdv_contents v' = mdv_contents v @ [x]"
    and "r \<noteq> Inr () \<Longrightarrow> mdv_contents v' = mdv_contents v"
  proof (atomize (full), cases "wr = Inr () \<and> populateForWrite os (header_size + mdv_end w * recSize) recSize = Inr () \<and>
      (\<exists>x. rec = Inr x)")
    case False
    then have "v' = w \<and> r \<noteq> Inr ()"
      using eb w by (auto simp: emplace_back_def split: sum.splits)
    then show "mdv_invar ver recSize v' \<and> (r = Inr () \<longrightarrow> (\<exists>x. rec = Inr x \<and> mdv_contents v' = mdv_contents v @ [x])) \<and>
        (r \<noteq> Inr () \<longrightarrow> mdv_contents v' = mdv_contents v)"
      using w_inv w_con by simp
  next
    case True
    then obtain x where x: "rec = Inr x" by blast
    let ?f = "mdv_file w" and ?h = "mf_header (mdv_file w)"
    have v': "v' = w\<lparr>mdv_file := ?f\<lparr>mf_slots := (mf_slots ?f)(mdv_end w := x),
        mf_header := ?h\<lparr>h_entryCount := h_entryCount ?h + 1\<rparr>\<rparr>, mdv_end := mdv_end w + 1\<rparr>" and r: "r = Inr ()"
      using eb w True x by (auto simp: emplace_back_def Let_def)
    have "mdv_end w + 1 \<le> mdv_mapSize w"
      using room True rs mult_le_mono2 [of 1 recSize "mdv_end w + 1"] by (simp add: record_fits_def)
    then have "unat (h_entryCount ?h + 1) = mdv_end w + 1"
      using w_inv map by (simp add: mdv_invar_def Let_def unat_word_ariths(1) unat_of_nat)
    with room True w_inv have "mdv_invar ver recSize v'" by (simp add: v' mdv_invar_def Let_def)
    moreover have "mdv_contents v' = mdv_contents v @ [x]"
      using w_con by (simp add: v' mdv_contents_def)
    ultimately show "mdv_invar ver recSize v' \<and> (r = Inr () \<longrightarrow> (\<exists>x. rec = Inr x \<and> mdv_contents v' = mdv_contents v @ [x])) \<and>
        (r \<noteq> Inr () \<longrightarrow> mdv_contents v' = mdv_contents v)"
      using r x by simp
  qed
qed

lemma emplace_back_succeeds:
  assumes "os_succeeds b os" and "mdv_mapSize v + GROWTH_IN_PAGES * kPageSize < b" and "mdv_invar ver recSize v"
  shows "snd (emplace_back os recSize (Inr x) v) = Inr ()"
proof -
  have "(mdv_mapSize v + GROWTH_IN_PAGES * kPageSize) mod kPageSize = 0"
    using assms(3) by (simp add: mdv_invar_def Let_def)
  then have "snd (mdv_grow os v) = Inr ()"
    by (simp add: mdv_grow_def Let_def populate_succeeds [OF assms(1)] mmap_succeeds [OF assms(1,2)]
        extendFile_succeeds [OF assms(1,2)])
  then show ?thesis
    by (auto simp: emplace_back_def populate_succeeds [OF assms(1)] Let_def split: prod.splits sum.splits)
qed

section \<open>The contract of the vector\<close>

text \<open>
  What migration relies on: a vector to which a record is appended in a run of the system
  either has it at its end or is as it was, and stays well formed; \<open>pushes\<close> appends a list
  and stops at the first failure.
\<close>

locale append_store =
  fixes sane :: "'o \<Rightarrow> bool" and ok :: "'v \<Rightarrow> bool" and con :: "'v \<Rightarrow> 'a list"
    and push :: "'o \<Rightarrow> 'a \<Rightarrow> 'v \<Rightarrow> 'v \<times> unit result"
    and pushes :: "(nat \<Rightarrow> 'o) \<Rightarrow> 'a list \<Rightarrow> 'v \<Rightarrow> 'v \<times> unit result"
  assumes push_ok: "sane os \<Longrightarrow> ok v \<Longrightarrow> push os x v = (v', r) \<Longrightarrow> ok v'"
    and push_con: "sane os \<Longrightarrow> ok v \<Longrightarrow> push os x v = (v', Inr u) \<Longrightarrow> con v' = con v @ [x]"
    and push_err: "sane os \<Longrightarrow> ok v \<Longrightarrow> push os x v = (v', Inl e) \<Longrightarrow> con v' = con v"
    and pushes_Nil: "pushes oss [] v = (v, Inr ())"
    and pushes_Cons: "pushes oss (x # xs) v =
      (case push (oss 0) x v of (v', Inl e) \<Rightarrow> (v', Inl e) | (v', Inr _) \<Rightarrow> pushes (\<lambda>i. oss (i + 1)) xs v')"
begin

lemma pushes_spec:
  assumes "\<And>i. sane (oss i)" and "ok v" and "pushes oss xs v = (v', r)"
  shows "ok v' \<and> (\<exists>k \<le> length xs. con v' = con v @ take k xs \<and> (r = Inr () \<longrightarrow> k = length xs))"
  using assms
proof (induction xs arbitrary: oss v)
  case Nil
  then show ?case by (simp add: pushes_Nil)
next
  case (Cons x xs)
  obtain w s where w: "push (oss 0) x v = (w, s)" by (cases "push (oss 0) x v")
  have ok: "ok w" using push_ok w Cons.prems(1,2) by blast
  show ?case
  proof (cases s)
    case (Inl e)
    then have "con w = con v" and "v' = w" and "r = Inl e"
      using w Cons.prems push_err [of "oss 0" v x w e] by (auto simp: pushes_Cons)
    then show ?thesis using ok by (intro conjI exI [of _ 0]) auto
  next
    case (Inr u)
    then have c: "con w = con v @ [x]" and p: "pushes (\<lambda>i. oss (i + 1)) xs w = (v', r)"
      using w Cons.prems push_con [of "oss 0" v x w u] by (auto simp: pushes_Cons)
    from Cons.IH [OF _ ok p] Cons.prems(1) obtain k where "ok v'" and "k \<le> length xs"
      and "con v' = con w @ take k xs" and "r = Inr () \<longrightarrow> k = length xs" by auto
    then show ?thesis using c by (intro conjI exI [of _ "Suc k"]) auto
  qed
qed

end

interpretation mdv_store: append_store os_offsets "\<lambda>v. mdv_invar ver recSize v \<and> record_fits recSize"
    mdv_contents "\<lambda>os x. emplace_back os recSize (Inr x)" "\<lambda>os. emplace_all_records os recSize"
  for ver recSize
proof unfold_locales
  fix os :: mdv_os and v v' :: "'a mdv" and x r
  assume *: "os_offsets os" "mdv_invar ver recSize v \<and> record_fits recSize"
  show "emplace_back os recSize (Inr x) v = (v', r) \<Longrightarrow> mdv_invar ver recSize v' \<and> record_fits recSize"
    using * emplace_back_spec(1) by blast
  show "emplace_back os recSize (Inr x) v = (v', Inr u) \<Longrightarrow> mdv_contents v' = mdv_contents v @ [x]" for u
    using * emplace_back_spec(2) [of ver recSize v os "Inr x" v' "Inr u"] by auto
  show "emplace_back os recSize (Inr x) v = (v', Inl e) \<Longrightarrow> mdv_contents v' = mdv_contents v" for e
    using * emplace_back_spec(3) [of ver recSize v os "Inr x" v' "Inl e"] by auto
qed (simp_all cong: sum.case_cong)

section \<open>Opening\<close>

text \<open>The header of a vector of \<open>cnt\<close> records.\<close>

definition header_of :: "32 word \<Rightarrow> nat \<Rightarrow> nat \<Rightarrow> mdv_header \<Rightarrow> bool" where
  "header_of ver recSize cnt h =
     (h_magic h = kMagic \<and> h_version h = 1 \<and> h_recordVersion h = ver \<and> unat (h_recordSize h) = recSize \<and>
      unat (h_entryCount h) = cnt \<and> h_unused h = 0)"

lemma mdv_construct_keeps:
  assumes "mdv_construct os recSize file sz cnt = (f', r)"
  shows "mf_header f' = mf_header file" and "mf_slots f' = mf_slots file"
  using assms extendFile_keeps(1,2) [of os "roundUpToNonzeroPageSize sz" "file"]
  by (auto simp: mdv_construct_def Let_def split: prod.splits sum.splits option.splits if_splits)

lemma mdv_construct_Inr:
  assumes "mdv_construct os recSize file sz cnt = (f', Inr v)"
  shows "v = \<lparr>mdv_file = f', mdv_mapSize = roundUpToNonzeroPageSize sz, mdv_end = cnt\<rparr>"
    and "header_size + cnt * recSize \<le> roundUpToNonzeroPageSize sz"
    and "sz \<noteq> roundUpToNonzeroPageSize sz \<Longrightarrow> extendFile os (roundUpToNonzeroPageSize sz) file = (f', Inr ())"
    and "sz = roundUpToNonzeroPageSize sz \<Longrightarrow> f' = file"
  using assms
  by (auto simp: mdv_construct_def Let_def split: prod.splits sum.splits option.splits if_splits)

lemma mdv_construct_spec:
  assumes c: "mdv_construct os recSize file sz cnt = (f', Inr v)" and off: "os_offsets os"
    and sz: "sz \<le> mf_size file" "sz < 2 ^ 63" and h: "header_of ver recSize cnt (mf_header file)"
  shows "mdv_invar ver recSize v" and "mdv_file v = f'" and "mdv_contents v = file_records file"
proof -
  note v = mdv_construct_Inr [OF c] and k = mdv_construct_keeps [OF c]
  show "mdv_file v = f'" by (simp add: v(1))
  show "mdv_contents v = file_records file"
    using h by (simp add: v(1) mdv_contents_def file_records_def k header_of_def)
  have "roundUpToNonzeroPageSize sz \<le> mf_size f' \<and> roundUpToNonzeroPageSize sz < 2 ^ 63"
  proof (cases "sz = roundUpToNonzeroPageSize sz")
    case True
    with v(4) sz show ?thesis by simp
  next
    case False
    from extendFile_keeps(3,5) [OF v(3) [OF False]] off show ?thesis by simp
  qed
  then show "mdv_invar ver recSize v"
    using h v(2) by (simp add: v(1) mdv_invar_def Let_def roundUp_spec k header_of_def)
qed

lemma mdv_construct_succeeds:
  assumes "os_succeeds b os" and "roundUpToNonzeroPageSize sz < b"
    and "header_size + cnt * recSize \<le> roundUpToNonzeroPageSize sz"
  shows "\<exists>f' v. mdv_construct os recSize file sz cnt = (f', Inr v)"
  using assms(3) by (simp add: mdv_construct_def Let_def extendFile_succeeds [OF assms(1,2)]
      mmap_succeeds [OF assms(1,2)] populate_succeeds [OF assms(1)])

lemma initializeFromScratch_spec:
  assumes i: "initializeFromScratch os ver recSize file = (f', Inr v)" and off: "os_offsets os"
    and rs: "record_fits recSize"
  shows "mdv_invar ver recSize v" and "mdv_file v = f'" and "mdv_contents v = []"
proof -
  define h where "h = \<lparr>h_magic = kMagic, h_version = 1, h_recordVersion = ver, h_recordSize = of_nat recSize,
    h_entryCount = 0, h_unused = 0\<rparr>"
  obtain g er where g: "extendFile os (GROWTH_IN_PAGES * kPageSize) file = (g, er)"
    by (cases "extendFile os (GROWTH_IN_PAGES * kPageSize) file")
  have er: "er = Inr ()" and c: "mdv_construct os recSize (g\<lparr>mf_header := h\<rparr>) (GROWTH_IN_PAGES * kPageSize) 0 = (f', Inr v)"
    using i g by (auto simp: initializeFromScratch_def Let_def h_def split: sum.splits if_splits)
  have "unat (of_nat recSize :: 32 word) = recSize"
    using rs by (simp add: record_fits_def kPageSize_def unat_of_nat)
  then have "header_of ver recSize 0 (mf_header (g\<lparr>mf_header := h\<rparr>))" by (simp add: header_of_def h_def)
  from mdv_construct_spec [OF c off _ _ this] extendFile_keeps(3) [OF g er]
  show "mdv_invar ver recSize v" "mdv_file v = f'" "mdv_contents v = []"
    by (simp_all add: size_defs file_records_def h_def)
qed

text \<open>The conversion of a record of the old type \<open>i\<close>: through every newer old type to the current one.\<close>

definition upgrade_chain :: "'a old_version list \<Rightarrow> nat \<Rightarrow> 'a \<Rightarrow> 'a" where
  "upgrade_chain olds i = foldr (\<circ>) (map ov_upgrade (take (Suc i) olds)) id"

lemma migrateFrom_eq:
  "i < length olds \<Longrightarrow>
   migrateFrom os ver recSize blank olds cnt i convert fs =
     migrate_records os ver recSize blank (ov_size (olds ! i)) (convert \<circ> upgrade_chain olds i) cnt fs"
proof (induction olds arbitrary: i convert)
  case Nil
  then show ?case by simp
next
  case (Cons a olds)
  show ?case
  proof (cases i)
    case 0
    then show ?thesis by (simp add: upgrade_chain_def comp_def)
  next
    case (Suc j)
    have "convert \<circ> upgrade_chain (a # olds) (Suc j) = convert \<circ> ov_upgrade a \<circ> upgrade_chain olds j"
      by (simp add: upgrade_chain_def comp_assoc)
    with Suc Cons show ?thesis by simp
  qed
qed

lemma find_version_Some:
  "find_version v olds k = Some (j, sz) \<Longrightarrow>
   \<exists>i. j = k + i \<and> i < length olds \<and> ov_version (olds ! i) = v \<and> sz = ov_size (olds ! i)"
proof (induction olds arbitrary: k)
  case (Cons a olds)
  show ?case
  proof (cases "ov_version a = v")
    case True
    with Cons.prems show ?thesis by (intro exI [of _ 0]) auto
  next
    case False
    with Cons obtain i where "j = k + 1 + i \<and> i < length olds \<and> ov_version (olds ! i) = v \<and> sz = ov_size (olds ! i)"
      by fastforce
    then show ?thesis by (intro exI [of _ "Suc i"]) auto
  qed
qed simp

lemma find_version_None: "find_version v olds k = None \<longleftrightarrow> v \<notin> set (map ov_version olds)"
  by (induction olds arbitrary: k) auto

lemma migrate_records_Inr:
  assumes m: "migrate_records os ver recSize blank oldSize convert cnt fs = (fs', Inr v)"
    and off: "\<And>i. os_offsets (os i)" and rs: "record_fits recSize"
    and sz: "mf_size (fs_path fs) < 2 ^ 63" and h: "header_of oldVer oldSize cnt (mf_header (fs_path fs))"
  shows "mdv_invar ver recSize v \<and> fs_path fs' = mdv_file v \<and> fs_tmp fs' = None \<and>
    mdv_contents v = map convert (file_records (fs_path fs))"
proof -
  obtain f original t newV where c: "mdv_construct (os 0) oldSize (fs_path fs) (mf_size (fs_path fs)) cnt = (f, Inr original)"
    and n: "createOrOverwrite (os 1) ver recSize blank = (t, Inr newV)"
    and e: "emplace_all_records (\<lambda>i. os (i + 2)) recSize
       (map (\<lambda>i. convert (mf_slots (mdv_file original) i)) [0..<mdv_size original]) newV = (v, Inr ())"
    and fs': "fs' = fs\<lparr>fs_path := mdv_file v, fs_tmp := None\<rparr>"
    using m by (auto simp: migrate_records_def Let_def split: prod.splits sum.splits option.splits)
  have "mdv_contents original = file_records (fs_path fs)"
    using mdv_construct_spec(3) [OF c off _ sz h] by simp
  then have recs: "map (\<lambda>i. convert (mf_slots (mdv_file original) i)) [0..<mdv_size original] =
      map convert (file_records (fs_path fs))"
    by (metis (no_types) mdv_contents_def mdv_size_def map_map comp_apply map_eq_conv)
  have "initializeFromScratch (os 1) ver recSize (blank\<lparr>mf_size := 0\<rparr>) = (t, Inr newV)"
    using n by (auto simp: createOrOverwrite_def split: option.splits)
  note new = initializeFromScratch_spec [OF this off rs]
  from mdv_store.pushes_spec [OF off _ e [unfolded recs], of ver] new rs fs' show ?thesis by auto
qed

lemma migrate_records_Inl:
  assumes "migrate_records os ver recSize blank oldSize convert cnt fs = (fs', Inl e)"
  shows "mf_header (fs_path fs') = mf_header (fs_path fs) \<and> mf_slots (fs_path fs') = mf_slots (fs_path fs)"
proof -
  obtain f r where c: "mdv_construct (os 0) oldSize (fs_path fs) (mf_size (fs_path fs)) cnt = (f, r)"
    by (cases "mdv_construct (os 0) oldSize (fs_path fs) (mf_size (fs_path fs)) cnt")
  have "fs_path fs' = f"
    using assms c by (auto simp: migrate_records_def Let_def split: prod.splits sum.splits option.splits)
  with mdv_construct_keeps [OF c] show ?thesis by simp
qed

lemma valid_header:
  "\<not> invalid_header f \<Longrightarrow>
   header_of (h_recordVersion (mf_header f)) (unat (h_recordSize (mf_header f))) (unat (h_entryCount (mf_header f)))
     (mf_header f)"
  by (auto simp: invalid_header_def header_of_def Let_def)

text \<open>The paths through \<open>open\<close> that get beyond the checks.\<close>

lemma mdv_open_paths:
  assumes "mdv_open os ver recSize blank olds fs = (fs', r)" and "mf_size (fs_path fs) \<noteq> 0"
  defines "f \<equiv> fs_path fs"
  defines "h \<equiv> mf_header f"
  obtains (fail) e where "r = Inl e" and "fs' = fs"
  | (same) f' where "\<not> invalid_header f" and "ver = h_recordVersion h" and "recSize = unat (h_recordSize h)"
      and "distinct (ver # map ov_version olds)"
      and "mdv_construct (os 0) recSize f (mf_size f) (unat (h_entryCount h)) = (f', r)" and "fs' = fs\<lparr>fs_path := f'\<rparr>"
  | (old) i where "\<not> invalid_header f" and "i < length olds" and "ov_version (olds ! i) = h_recordVersion h"
      and "distinct (ver # map ov_version olds)" and "ov_size (olds ! i) = unat (h_recordSize h)"
      and "migrate_records os ver recSize blank (ov_size (olds ! i)) (upgrade_chain olds i) (unat (h_entryCount h)) fs = (fs', r)"
proof (cases "os_lock (os 0) = None \<and> os_pread (os 0) = None \<and> \<not> mf_size f < header_size \<and> \<not> invalid_header f \<and>
    distinct (ver # map ov_version olds)")
  case False
  then have "\<exists>e. r = Inl e \<and> fs' = fs"
    using assms(1,2) unfolding f_def
    by (cases "os_lock (os 0)"; cases "os_pread (os 0)"; cases "mf_size (fs_path fs) < header_size")
      (auto simp: mdv_open_def Let_def split: if_splits)
  then show ?thesis using fail by blast
next
  case True
  then have o: "mdv_open os ver recSize blank olds fs =
      (if ver = h_recordVersion h then
         (if recSize \<noteq> unat (h_recordSize h) then (fs, Inl RuntimeError)
          else (case mdv_construct (os 0) recSize f (mf_size f) (unat (h_entryCount h)) of
                  (f, r) \<Rightarrow> (fs\<lparr>fs_path := f\<rparr>, r)))
       else
         (case find_version (h_recordVersion h) olds 0 of
            None \<Rightarrow> (fs, Inl RuntimeError)
          | Some (i, oldSize) \<Rightarrow>
              if oldSize \<noteq> unat (h_recordSize h) then (fs, Inl RuntimeError)
              else migrateFrom os ver recSize blank olds (unat (h_entryCount h)) i id fs))"
    using assms(2) unfolding mdv_open_def Let_def h_def f_def by simp
  show ?thesis
  proof (cases "ver = h_recordVersion h")
    case ver: True
    show ?thesis
    proof (cases "recSize = unat (h_recordSize h)")
      case rs: True
      obtain g q where "mdv_construct (os 0) recSize f (mf_size f) (unat (h_entryCount h)) = (g, q)"
        by (cases "mdv_construct (os 0) recSize f (mf_size f) (unat (h_entryCount h))")
      with assms(1) o ver rs True same show ?thesis by auto
    next
      case False
      with assms(1) o ver fail show ?thesis by auto
    qed
  next
    case ver: False
    show ?thesis
    proof (cases "find_version (h_recordVersion h) olds 0")
      case None
      with assms(1) o ver fail show ?thesis by auto
    next
      case (Some p)
      then obtain i where p: "p = (i, ov_size (olds ! i))" and i: "i < length olds"
          "ov_version (olds ! i) = h_recordVersion h"
        using find_version_Some [of "h_recordVersion h" olds 0 "fst p" "snd p"] by (cases p) auto
      show ?thesis
      proof (cases "ov_size (olds ! i) = unat (h_recordSize h)")
        case sz: True
        with assms(1) o ver Some p i True old [of i] show ?thesis by (simp add: migrateFrom_eq comp_def)
      next
        case False
        with assms(1) o ver Some p fail show ?thesis by auto
      qed
    qed
  qed
qed

section \<open>Properties\<close>

text \<open>
  C17: \<open>emplace_back\<close> keeps the vector well formed whatever the system calls and the record's
  constructor do: if it returns, the record is at the end of the contents; if it throws, the
  contents are unchanged.  It returns if the calls succeed and the constructor does not throw.
\<close>

theorem emplace_back_correct:
  assumes "mdv_invar ver recSize v" and "record_fits recSize" and "os_offsets os"
  shows "(case emplace_back os recSize rec v of
            (v', Inr _) \<Rightarrow> mdv_invar ver recSize v' \<and> (\<exists>x. rec = Inr x \<and> mdv_contents v' = mdv_contents v @ [x])
          | (v', Inl e) \<Rightarrow> mdv_invar ver recSize v' \<and> mdv_contents v' = mdv_contents v) \<and>
         (os_succeeds (mdv_mapSize v + GROWTH_IN_PAGES * kPageSize + 1) os \<longrightarrow>
            snd (emplace_back os recSize (Inr x) v) = Inr ())"
proof -
  obtain v' r where eb: "emplace_back os recSize rec v = (v', r)" by (cases "emplace_back os recSize rec v")
  note s = emplace_back_spec [OF assms eb]
  show ?thesis
    using s eb emplace_back_succeeds [OF _ _ assms(1), of _ os x]
    by (cases r) auto
qed

text \<open>
  C15: opening a file that exists.  If \<open>open\<close> returns, the header was valid, the vector is well
  formed and is the file at the path, and it holds the records of the file: as they are if
  the file has the current version, and each converted through every newer old version if it
  has an old one.
\<close>

theorem mdv_open_correct:
  assumes "mdv_open os ver recSize blank olds fs = (fs', Inr v)" and "\<forall>i. os_offsets (os i)"
    and "record_fits recSize" and "mf_size (fs_path fs) < 2 ^ 63" and "mf_size (fs_path fs) \<noteq> 0"
  shows "mdv_invar ver recSize v \<and> fs_path fs' = mdv_file v \<and> \<not> invalid_header (fs_path fs) \<and>
    (h_recordVersion (mf_header (fs_path fs)) = ver \<and> mdv_contents v = file_records (fs_path fs) \<or>
     (\<exists>i < length olds. h_recordVersion (mf_header (fs_path fs)) = ov_version (olds ! i) \<and>
        mdv_contents v = map (upgrade_chain olds i) (file_records (fs_path fs))))"
  using assms(1,5)
proof (cases rule: mdv_open_paths)
  case (same f')
  from mdv_construct_spec [OF same(5) _ _ assms(4)] valid_header [OF same(1)] assms(2) same(1,2,3,6)
  show ?thesis by auto
next
  case (old i)
  from migrate_records_Inr [OF old(6) _ assms(3,4)] valid_header [OF old(1)] assms(2) old(1-3,5)
  show ?thesis by auto
qed simp

text \<open>
  C34: an \<open>open\<close> that throws loses nothing: the header and the records of the file at the path
  are as before, also when a migration fails halfway.  A header that is not that of a vector,
  an unknown version or a wrong record size is an error that leaves the file as it is.
\<close>

theorem mdv_open_error:
  assumes "mf_size (fs_path fs) \<noteq> 0"
  shows "(mdv_open os ver recSize blank olds fs = (fs', Inl e) \<longrightarrow>
            mf_header (fs_path fs') = mf_header (fs_path fs) \<and> mf_slots (fs_path fs') = mf_slots (fs_path fs)) \<and>
         (os_lock (os 0) = None \<and> os_pread (os 0) = None \<and> distinct (ver # map ov_version olds) \<and>
          (invalid_header (fs_path fs) \<or>
           h_recordVersion (mf_header (fs_path fs)) \<notin> set (ver # map ov_version olds) \<or>
           h_recordVersion (mf_header (fs_path fs)) = ver \<and> unat (h_recordSize (mf_header (fs_path fs))) \<noteq> recSize) \<longrightarrow>
            mdv_open os ver recSize blank olds fs = (fs, Inl RuntimeError))"
proof (intro conjI impI)
  assume "mdv_open os ver recSize blank olds fs = (fs', Inl e)"
  then show "mf_header (fs_path fs') = mf_header (fs_path fs)" and "mf_slots (fs_path fs') = mf_slots (fs_path fs)"
    using assms by (cases rule: mdv_open_paths; auto dest: mdv_construct_keeps migrate_records_Inl)+
next
  assume "os_lock (os 0) = None \<and> os_pread (os 0) = None \<and> distinct (ver # map ov_version olds) \<and>
    (invalid_header (fs_path fs) \<or> h_recordVersion (mf_header (fs_path fs)) \<notin> set (ver # map ov_version olds) \<or>
     h_recordVersion (mf_header (fs_path fs)) = ver \<and> unat (h_recordSize (mf_header (fs_path fs))) \<noteq> recSize)"
  then show "mdv_open os ver recSize blank olds fs = (fs, Inl RuntimeError)"
    using assms find_version_None [of "h_recordVersion (mf_header (fs_path fs))" olds 0]
    by (auto simp: mdv_open_def Let_def)
qed

text \<open>
  C33: a vector survives closing: opening the file of a well-formed vector again, with system
  calls that succeed, returns a well-formed vector with the same contents.
\<close>

theorem mdv_reopen:
  assumes "mdv_invar ver recSize v" and "record_fits recSize" and "distinct (ver # map ov_version olds)"
    and "os_succeeds (2 ^ 63) (os 0)" and "os_offsets (os 0)"
    and "roundUpToNonzeroPageSize (mf_size (mdv_file v)) < 2 ^ 63"
  shows "\<exists>fs' v'. mdv_open os ver recSize blank olds \<lparr>fs_path = mdv_file v, fs_tmp = t\<rparr> = (fs', Inr v') \<and>
    mdv_invar ver recSize v' \<and> mdv_contents v' = mdv_contents v"
proof -
  let ?f = "mdv_file v" and ?h = "mf_header (mdv_file v)"
  have h: "header_of ver recSize (mdv_end v) ?h" and map: "header_size + mdv_end v * recSize \<le> mf_size ?f"
    using assms(1) by (auto simp: mdv_invar_def header_of_def Let_def)
  have "mdv_end v \<le> (mf_size ?f - header_size) div recSize"
    using map assms(2) by (simp add: record_fits_def less_eq_div_iff_mult_less_eq)
  then have valid: "\<not> invalid_header ?f"
    using h map assms(2) by (auto simp: invalid_header_def header_of_def Let_def record_fits_def)
  have "header_size + mdv_end v * recSize \<le> roundUpToNonzeroPageSize (mf_size ?f)"
    using map roundUp_spec(1) [of "mf_size ?f"] by linarith
  from mdv_construct_succeeds [OF assms(4,6) this] obtain f' v' where
    c: "mdv_construct (os 0) recSize ?f (mf_size ?f) (mdv_end v) = (f', Inr v')" by blast
  have "mf_size ?f < 2 ^ 63" using assms(6) roundUp_spec(1) [of "mf_size ?f"] by linarith
  from mdv_construct_spec [OF c assms(5) _ this h] have "mdv_invar ver recSize v'" "mdv_contents v' = mdv_contents v"
    using h by (auto simp: mdv_contents_def file_records_def header_of_def)
  moreover have "mdv_open os ver recSize blank olds \<lparr>fs_path = ?f, fs_tmp = t\<rparr> = (\<lparr>fs_path = f', fs_tmp = t\<rparr>, Inr v')"
    using valid assms(3,4) h map c by (simp add: mdv_open_def Let_def header_of_def os_succeeds_def header_size_def)
  ultimately show ?thesis by blast
qed

text \<open>
  The accessors are those of a list: \<open>pop_back\<close> removes the last record and keeps the
  vector well formed, \<open>front\<close>, \<open>back\<close> and \<open>operator[]\<close> read the contents, \<open>size\<close> is the
  length and never above \<open>capacity\<close>; the checks fail on an empty vector.
\<close>

theorem mdv_access:
  assumes "mdv_invar ver recSize v" and "record_fits recSize"
  shows "mdv_size v = length (mdv_contents v) \<and> mdv_size v \<le> mdv_capacity recSize v \<and>
    (\<forall>i < mdv_size v. mdv_index recSize v i = Some (mdv_contents v ! i)) \<and>
    (if mdv_contents v = [] then pop_back v = Inl CheckFailed \<and> mdv_front v = Inl CheckFailed \<and> mdv_back v = Inl CheckFailed
     else mdv_front v = Inr (hd (mdv_contents v)) \<and> mdv_back v = Inr (last (mdv_contents v)) \<and>
       (\<exists>v'. pop_back v = Inr v' \<and> mdv_invar ver recSize v' \<and> mdv_contents v' = butlast (mdv_contents v)))"
proof -
  have room: "header_size + mdv_end v * recSize \<le> mdv_mapSize v" and cnt: "unat (h_entryCount (mf_header (mdv_file v))) = mdv_end v"
    using assms(1) by (auto simp: mdv_invar_def Let_def)
  have cap: "mdv_size v \<le> mdv_capacity recSize v"
    using room assms(2) by (simp add: mdv_size_def mdv_capacity_def record_fits_def less_eq_div_iff_mult_less_eq)
  have idx: "mdv_index recSize v i = Some (mdv_contents v ! i)" if "i < mdv_size v" for i
  proof -
    have "(i + 1) * recSize \<le> mdv_end v * recSize" using that by (intro mult_le_mono1) (simp add: mdv_size_def)
    with room that show ?thesis by (simp add: mdv_index_def mdv_contents_def mdv_size_def)
  qed
  show ?thesis
  proof (cases "mdv_end v")
    case 0
    with cap show ?thesis by (simp add: mdv_size_def mdv_contents_def pop_back_def mdv_front_def mdv_back_def)
  next
    case (Suc n)
    let ?h = "mf_header (mdv_file v)"
    define v' where "v' = v\<lparr>mdv_file := (mdv_file v)\<lparr>mf_header := ?h\<lparr>h_entryCount := h_entryCount ?h - 1\<rparr>\<rparr>, mdv_end := n\<rparr>"
    have pop: "pop_back v = Inr v'" using Suc by (simp add: pop_back_def v'_def Let_def)
    have "h_entryCount ?h \<noteq> 0" using cnt Suc by auto
    then have "unat (h_entryCount ?h - 1) = n" using cnt Suc by (simp add: unat_minus_one)
    then have inv: "mdv_invar ver recSize v'"
      using assms(1) Suc by (auto simp: v'_def mdv_invar_def Let_def)
    have len: "length (mdv_contents v) = Suc n" by (simp add: mdv_contents_def Suc)
    have con: "mdv_contents v = mdv_contents v' @ [mf_slots (mdv_file v) n]"
      using Suc by (simp add: mdv_contents_def v'_def)
    have hd: "hd (mdv_contents v) = mf_slots (mdv_file v) 0"
      using Suc by (simp add: mdv_contents_def upt_rec hd_map del: upt_Suc)
    have "mdv_contents v \<noteq> []" using len by auto
    moreover have "butlast (mdv_contents v) = mdv_contents v'" and "last (mdv_contents v) = mf_slots (mdv_file v) n"
      by (simp_all add: con)
    ultimately show ?thesis using Suc pop inv cap idx len hd
      by (simp add: mdv_front_def mdv_back_def mdv_size_def)
  qed
qed

section \<open>A sample file\<close>

definition sample_os :: mdv_os where
  "sample_os = \<lparr>os_sysconf = 4096, os_lock = None, os_pread = None, os_pwrite = Inr 32,
     os_fallocate = (\<lambda>n. if n < 2 ^ 63 then None else Some 27),
     os_ftruncate = (\<lambda>n. if n < 2 ^ 63 then None else Some 27),
     os_mmap = (\<lambda>n. None), os_madvise = (\<lambda>m n. None), os_rename = None\<rparr>"

definition sample_file :: "nat mfile" where
  "sample_file = \<lparr>mf_size = 4096, mf_header = \<lparr>h_magic = kMagic, h_version = 1, h_recordVersion = 3,
     h_recordSize = 8, h_entryCount = 2, h_unused = 0\<rparr>, mf_slots = (\<lambda>i. 10 * i)\<rparr>"

definition sample_vector :: "nat mdv" where
  "sample_vector = \<lparr>mdv_file = sample_file, mdv_mapSize = 4096, mdv_end = 2\<rparr>"

lemma sample_offsets: "os_offsets sample_os"
  by (simp add: os_offsets_def sample_os_def)

lemma sample_succeeds: "b \<le> 2 ^ 63 \<Longrightarrow> os_succeeds b sample_os"
  by (simp add: os_succeeds_def sample_os_def header_size_def)

lemma sample_invar: "mdv_invar 3 8 sample_vector" "record_fits 8"
  by (simp_all add: mdv_invar_def sample_vector_def sample_file_def size_defs record_fits_def Let_def)

lemma sample_contents: "mdv_contents sample_vector = [0, 10]"
  by (simp add: mdv_contents_def sample_vector_def sample_file_def upt_rec)

theorem emplace_back_correct_witness:
  "mdv_invar 3 8 sample_vector \<and> os_offsets sample_os \<and> snd (emplace_back sample_os 8 (Inr 7) sample_vector) = Inr () \<and>
   mdv_contents (fst (emplace_back sample_os 8 (Inr 7) sample_vector)) = [0, 10, 7]"
proof -
  have "mdv_mapSize sample_vector + GROWTH_IN_PAGES * kPageSize + 1 \<le> 2 ^ 63"
    by (simp add: sample_vector_def size_defs)
  from emplace_back_correct [OF sample_invar sample_offsets, of "Inr 7" 7] sample_succeeds [OF this]
  show ?thesis using sample_invar sample_offsets sample_contents
    by (cases "emplace_back sample_os 8 (Inr 7) sample_vector") (auto split: sum.splits)
qed

definition sample_olds :: "nat old_version list" where
  "sample_olds = [\<lparr>ov_version = 4, ov_size = 12, ov_upgrade = (\<lambda>x. x + 1)\<rparr>,
     \<lparr>ov_version = 3, ov_size = 8, ov_upgrade = (\<lambda>x. 2 * x)\<rparr>]"

lemma sample_open_old:
  "\<exists>fs' v. mdv_open (\<lambda>_. sample_os) 5 16 sample_file sample_olds \<lparr>fs_path = sample_file, fs_tmp = None\<rparr> = (fs', Inr v)"
  by (simp add: mdv_open_def sample_olds_def sample_file_def sample_os_def invalid_header_def size_defs
      migrate_records_def mdv_construct_def roundUpToNonzeroPageSize_def populateForWrite_def
      createOrOverwrite_def initializeFromScratch_def extendFile_def emplace_back_def hasRoom_def
      mdv_size_def upt_rec Let_def)

theorem mdv_open_correct_witness:
  "\<exists>fs' v. mdv_open (\<lambda>_. sample_os) 5 16 sample_file sample_olds \<lparr>fs_path = sample_file, fs_tmp = None\<rparr> = (fs', Inr v) \<and>
     mdv_contents v = [1, 21]"
proof -
  obtain fs' v where o: "mdv_open (\<lambda>_. sample_os) 5 16 sample_file sample_olds \<lparr>fs_path = sample_file, fs_tmp = None\<rparr> = (fs', Inr v)"
    using sample_open_old by blast
  have "mdv_contents v = [1, 21]"
    using mdv_open_correct [OF o] sample_offsets
    by (auto simp: sample_file_def sample_olds_def record_fits_def kPageSize_def file_records_def upgrade_chain_def
        less_Suc_eq upt_rec nth_Cons')
  with o show ?thesis by blast
qed

theorem mdv_open_error_witness:
  "mf_size sample_file \<noteq> 0 \<and>
   mdv_open (\<lambda>_. sample_os) 5 16 sample_file [] \<lparr>fs_path = sample_file, fs_tmp = None\<rparr> =
     (\<lparr>fs_path = sample_file, fs_tmp = None\<rparr>, Inl RuntimeError)"
  using mdv_open_error [of "\<lparr>fs_path = sample_file, fs_tmp = None\<rparr>" "\<lambda>_. sample_os" 5 16 sample_file "[]"]
  by (simp add: sample_file_def sample_os_def)

theorem mdv_reopen_witness:
  "\<exists>fs' v'. mdv_open (\<lambda>_. sample_os) 3 8 sample_file [] \<lparr>fs_path = mdv_file sample_vector, fs_tmp = None\<rparr> = (fs', Inr v') \<and>
     mdv_contents v' = [0, 10]"
proof -
  have "roundUpToNonzeroPageSize (mf_size (mdv_file sample_vector)) < 2 ^ 63"
    by (simp add: sample_vector_def sample_file_def roundUpToNonzeroPageSize_def kPageSize_def)
  from mdv_reopen [OF sample_invar _ sample_succeeds [OF order_refl] sample_offsets this, of "[]" sample_file None]
  show ?thesis unfolding sample_contents by auto
qed

theorem mdv_access_witness:
  "mdv_invar 3 8 sample_vector \<and> mdv_back sample_vector = Inr 10 \<and>
   (\<exists>v'. pop_back sample_vector = Inr v' \<and> mdv_contents v' = [0])"
  using mdv_access [OF sample_invar] sample_invar by (simp add: sample_contents) blast

end
