(* ===== verification/Fault_Injector.thy ===== *)
theory Fault_Injector
  imports Eden_Prelude Transition_System "HOL-Library.AList" "HOL-Library.Multiset"
begin

text \<open>
  \<open>FaultInjector\<close> of \<open>FaultInjector.h\<close> and \<open>FaultInjector.cpp\<close>: faults that tests inject
  at named checks, and the checks that are blocked until they are released.

  The state under the lock is a record: the faults of each key class in the order of
  their injection, and the blocked checks of each key class (an association list, since it
  is iterated).  A promise is a number; \<open>fi_promises\<close> holds the results of the promises
  that have been fulfilled and \<open>fi_next\<close> is the next unused number.  Regular expressions
  are strings: \<open>boost::regex\<close> is represented by the arguments \<open>valid\<close> (the constructor
  accepts the expression) and \<open>rx\<close> (\<open>regex_match\<close>).  Time is in milliseconds; the clock,
  the cancellation token and the states that a polling loop observes are sequences, one
  value per reading.

  The lemmas show which fault a check hits and when a fault expires, that the in-place
  extraction of blocked checks is a partition, that in every interleaving of the locked
  sections each blocked check is released exactly once, and that the polling loops end.
\<close>

section \<open>Data\<close>

text \<open>The exceptions that a check can raise; an injected one is identified by a string.\<close>

datatype fi_exn =
    Injected string
  | FaultInjectorDestroyed
  | OperationCancelled
  | BlockWithCancelTimeout nat
  | InjectionDisabled
  | BadRegex
  | PromiseAlreadySatisfied

datatype fault_behavior =
    is_NoFault: NoFault
  | is_Block: Block
  | is_BlockWithCancel: BlockWithCancel (cancellationToken: nat) (timeoutDuration: nat)
  | is_Delay: Delay (delay_duration: nat) (delay_error: "fi_exn option")
  | is_Error: Error (error_exn: fi_exn)
  | is_Kill: Kill

record fault =
  keyValueRegex :: string
  countRemaining :: nat
  behavior :: fault_behavior

record blocked_check =
  bc_keyValue :: string
  bc_promise :: nat

record fi_state =
  fi_enabled :: bool
  fi_faults :: "string \<rightharpoonup> fault list"
  fi_blocked :: "(string \<times> blocked_check list) list"
  fi_promises :: "nat \<rightharpoonup> fi_exn + unit"
  fi_next :: nat

text \<open>
  What a check returns: a future that is ready, one that waits for a promise, for a
  cancellation token or for a timer; or the process is gone.
\<close>

datatype check_future =
    Ready "fi_exn + unit"
  | OnPromise nat
  | Polling nat nat
  | Sleeping nat "fi_exn + unit"
  | Aborted

definition FaultInjector :: "bool \<Rightarrow> fi_state" where
  "FaultInjector enabled =
     \<lparr>fi_enabled = enabled, fi_faults = Map.empty, fi_blocked = [], fi_promises = Map.empty, fi_next = 0\<rparr>"

section \<open>Injecting and removing faults\<close>

text \<open>
  The vector of the key class is created before the fault is constructed, so it stays
  behind when the expression is rejected.
\<close>

definition injectFault ::
  "(string \<Rightarrow> bool) \<Rightarrow> string \<Rightarrow> string \<Rightarrow> fault_behavior \<Rightarrow> nat \<Rightarrow> fi_state \<Rightarrow> fi_state \<times> (fi_exn + unit)" where
  "injectFault valid keyClass regex b cnt s =
     (if \<not> fi_enabled s then (s, Inl InjectionDisabled)
      else
        (let fs = (case fi_faults s keyClass of None \<Rightarrow> [] | Some fs \<Rightarrow> fs) in
         if valid regex then
           (s\<lparr>fi_faults := (fi_faults s)(keyClass \<mapsto>
               fs @ [\<lparr>keyValueRegex = regex, countRemaining = cnt, behavior = b\<rparr>])\<rparr>, Inr ())
         else (s\<lparr>fi_faults := (fi_faults s)(keyClass \<mapsto> fs)\<rparr>, Inl BadRegex)))"

definition injectError where
  "injectError valid keyClass regex error cnt = injectFault valid keyClass regex (Error error) cnt"

definition injectBlock where
  "injectBlock valid keyClass regex cnt = injectFault valid keyClass regex Block cnt"

definition injectBlockWithCancel where
  "injectBlockWithCancel valid keyClass regex token timeout cnt =
     injectFault valid keyClass regex (BlockWithCancel token timeout) cnt"

definition injectDelay where
  "injectDelay valid keyClass regex duration cnt = injectFault valid keyClass regex (Delay duration None) cnt"

definition injectDelayedError where
  "injectDelayedError valid keyClass regex duration error cnt =
     injectFault valid keyClass regex (Delay duration (Some error)) cnt"

definition injectKill where
  "injectKill valid keyClass regex cnt = injectFault valid keyClass regex Kill cnt"

definition injectNoop where
  "injectNoop valid keyClass regex cnt = injectFault valid keyClass regex NoFault cnt"

text \<open>Erasing the first fault with this expression; \<open>None\<close> if there is none.\<close>

fun remove_first :: "string \<Rightarrow> fault list \<Rightarrow> fault list option" where
  "remove_first regex [] = None"
| "remove_first regex (f # fs) =
     (if keyValueRegex f = regex then Some fs else map_option ((#) f) (remove_first regex fs))"

definition removeFault :: "string \<Rightarrow> string \<Rightarrow> fi_state \<Rightarrow> fi_state \<times> bool" where
  "removeFault keyClass regex s =
     (case fi_faults s keyClass of
        None \<Rightarrow> (s, False)
      | Some fs \<Rightarrow>
          (case remove_first regex fs of
             None \<Rightarrow> (s, False)
           | Some [] \<Rightarrow> (s\<lparr>fi_faults := (fi_faults s)(keyClass := None)\<rparr>, True)
           | Some fs' \<Rightarrow> (s\<lparr>fi_faults := (fi_faults s)(keyClass \<mapsto> fs')\<rparr>, True)))"

section \<open>Checks\<close>

fun find_in :: "(string \<Rightarrow> string \<Rightarrow> bool) \<Rightarrow> string \<Rightarrow> fault list \<Rightarrow> fault list \<times> fault_behavior" where
  "find_in rx keyValue [] = ([], NoFault)"
| "find_in rx keyValue (f # fs) =
     (if rx (keyValueRegex f) keyValue then
        (if countRemaining f > 0 then
           (if countRemaining f - 1 = 0 then (fs, behavior f)
            else (f\<lparr>countRemaining := countRemaining f - 1\<rparr> # fs, behavior f))
         else (f # fs, behavior f))
      else (case find_in rx keyValue fs of (fs', b) \<Rightarrow> (f # fs', b)))"

definition findFault ::
  "(string \<Rightarrow> string \<Rightarrow> bool) \<Rightarrow> string \<Rightarrow> string \<Rightarrow> fi_state \<Rightarrow> fi_state \<times> fault_behavior" where
  "findFault rx keyClass keyValue s =
     (case fi_faults s keyClass of
        None \<Rightarrow> (s, NoFault)
      | Some fs \<Rightarrow>
          (case find_in rx keyValue fs of
             (fs', b) \<Rightarrow> (s\<lparr>fi_faults := (fi_faults s)(keyClass \<mapsto> fs')\<rparr>, b)))"

definition addBlockedFault :: "string \<Rightarrow> string \<Rightarrow> fi_state \<Rightarrow> fi_state \<times> nat" where
  "addBlockedFault keyClass keyValue s =
     (let p = fi_next s;
          cs = (case map_of (fi_blocked s) keyClass of None \<Rightarrow> [] | Some cs \<Rightarrow> cs)
      in (s\<lparr>fi_blocked := AList.update keyClass (cs @ [\<lparr>bc_keyValue = keyValue, bc_promise = p\<rparr>]) (fi_blocked s),
            fi_next := p + 1\<rparr>, p))"

definition checkAsyncImpl ::
  "(string \<Rightarrow> string \<Rightarrow> bool) \<Rightarrow> string \<Rightarrow> string \<Rightarrow> fi_state \<Rightarrow> fi_state \<times> check_future" where
  "checkAsyncImpl rx keyClass keyValue s =
     (case findFault rx keyClass keyValue s of
        (s', b) \<Rightarrow>
          (case b of
             NoFault \<Rightarrow> (s', Ready (Inr ()))
           | Block \<Rightarrow> (case addBlockedFault keyClass keyValue s' of (s'', p) \<Rightarrow> (s'', OnPromise p))
           | BlockWithCancel token timeout \<Rightarrow> (s', Polling token timeout)
           | Delay d e \<Rightarrow> (s', Sleeping d (case e of Some x \<Rightarrow> Inl x | None \<Rightarrow> Inr ()))
           | Error e \<Rightarrow> (s', Ready (Inl e))
           | Kill \<Rightarrow> (s', Aborted)))"

text \<open>
  The coroutine tests the alternatives one by one; what it awaits is the future, and a
  throw before anything is awaited is a future that is ready.
\<close>

definition co_checkAsyncImpl ::
  "(string \<Rightarrow> string \<Rightarrow> bool) \<Rightarrow> string \<Rightarrow> string \<Rightarrow> fi_state \<Rightarrow> fi_state \<times> check_future" where
  "co_checkAsyncImpl rx keyClass keyValue s =
     (case findFault rx keyClass keyValue s of
        (s', b) \<Rightarrow>
          if is_NoFault b then (s', Ready (Inr ()))
          else if is_Block b then map_prod id OnPromise (addBlockedFault keyClass keyValue s')
          else if is_BlockWithCancel b then (s', Polling (cancellationToken b) (timeoutDuration b))
          else if is_Delay b then
            (s', Sleeping (delay_duration b) (if delay_error b \<noteq> None then Inl (the (delay_error b)) else Inr ()))
          else if is_Error b then (s', Ready (Inl (error_exn b)))
          else if is_Kill b then (s', Aborted)
          else (s', Ready (Inr ())))"

definition constructKey :: "string list \<Rightarrow> string" where
  "constructKey args = join '', '' args"

definition checkAsync where
  "checkAsync rx keyClass keyValues s =
     (if fi_enabled s then checkAsyncImpl rx keyClass (constructKey keyValues) s else (s, Ready (Inr ())))"

definition co_checkAsync where
  "co_checkAsync rx keyClass keyValues s =
     (if fi_enabled s then co_checkAsyncImpl rx keyClass (constructKey keyValues) s else (s, Ready (Inr ())))"

fun update_token :: "(string \<Rightarrow> string \<Rightarrow> bool) \<Rightarrow> string \<Rightarrow> nat \<Rightarrow> fault list \<Rightarrow> fault list" where
  "update_token rx keyValue newToken [] = []"
| "update_token rx keyValue newToken (f # fs) =
     (if rx (keyValueRegex f) keyValue \<and> is_BlockWithCancel (behavior f)
      then f\<lparr>behavior := BlockWithCancel newToken (timeoutDuration (behavior f))\<rparr> # fs
      else f # update_token rx keyValue newToken fs)"

definition updateBlockWithCancelToken where
  "updateBlockWithCancelToken rx keyClass keyValue newToken s =
     (case fi_faults s keyClass of
        None \<Rightarrow> s
      | Some fs \<Rightarrow> s\<lparr>fi_faults := (fi_faults s)(keyClass \<mapsto> update_token rx keyValue newToken fs)\<rparr>)"

definition hasBlockWithCancelFault where
  "hasBlockWithCancelFault rx keyClass keyValue s =
     (case fi_faults s keyClass of
        None \<Rightarrow> False
      | Some fs \<Rightarrow> list_ex (\<lambda>f. rx (keyValueRegex f) keyValue \<and> is_BlockWithCancel (behavior f)) fs)"

definition waitForCancelOrTimeout where
  "waitForCancelOrTimeout rx keyClass token keyValues s =
     (if fi_enabled s then
        (let key = constructKey keyValues in
         checkAsyncImpl rx keyClass key (updateBlockWithCancelToken rx keyClass key token s))
      else (s, Ready (Inr ())))"

section \<open>Releasing blocked checks\<close>

definition setTry :: "nat \<Rightarrow> fi_exn + unit \<Rightarrow> fi_state \<Rightarrow> fi_state \<times> (fi_exn + unit)" where
  "setTry p r s =
     (if fi_promises s p = None then (s\<lparr>fi_promises := (fi_promises s)(p \<mapsto> r)\<rparr>, Inr ())
      else (s, Inl PromiseAlreadySatisfied))"

fun fulfil_all :: "blocked_check list \<Rightarrow> fi_exn + unit \<Rightarrow> fi_state \<Rightarrow> fi_state \<times> (fi_exn + unit)" where
  "fulfil_all [] r s = (s, Inr ())"
| "fulfil_all (c # cs) r s =
     (case setTry (bc_promise c) r s of
        (s', Inl e) \<Rightarrow> (s', Inl e)
      | (s', Inr _) \<Rightarrow> fulfil_all cs r s')"

text \<open>
  The loop of \<open>extractBlockedChecks\<close> over the array: matches go to the results, the others
  are shifted forwards to \<open>writeIter\<close>.
\<close>

function extract_loop ::
  "(string \<Rightarrow> bool) \<Rightarrow> nat \<Rightarrow> nat \<Rightarrow> blocked_check list \<Rightarrow> blocked_check list \<Rightarrow>
    blocked_check list \<times> nat \<times> blocked_check list" where
  "extract_loop matches readIter writeIter arr results =
     (if readIter < length arr then
        (if matches (bc_keyValue (arr ! readIter))
         then extract_loop matches (readIter + 1) writeIter arr (results @ [arr ! readIter])
         else extract_loop matches (readIter + 1) (writeIter + 1)
                (if readIter \<noteq> writeIter then arr[writeIter := arr ! readIter] else arr) results)
      else (arr, writeIter, results))"
  by pat_completeness auto

termination
  by (relation "measure (\<lambda>(_, r, _, arr, _). length arr - r)") auto

definition extractBlockedChecks ::
  "(string \<Rightarrow> bool) \<Rightarrow> (string \<Rightarrow> string \<Rightarrow> bool) \<Rightarrow> string \<Rightarrow> string \<Rightarrow> fi_state \<Rightarrow>
    fi_state \<times> (fi_exn + blocked_check list)" where
  "extractBlockedChecks valid rx keyClass regex s =
     (case map_of (fi_blocked s) keyClass of
        None \<Rightarrow> (s, Inr [])
      | Some cs \<Rightarrow>
          if \<not> valid regex then (s, Inl BadRegex)
          else
            (case extract_loop (rx regex) 0 0 cs [] of
               (arr, w, results) \<Rightarrow>
                 (s\<lparr>fi_blocked := (if w = 0 then AList.delete keyClass (fi_blocked s)
                                  else AList.update keyClass (take w arr) (fi_blocked s))\<rparr>, Inr results)))"

definition unblock_with ::
  "(string \<Rightarrow> bool) \<Rightarrow> (string \<Rightarrow> string \<Rightarrow> bool) \<Rightarrow> string \<Rightarrow> string \<Rightarrow> fi_exn + unit \<Rightarrow> fi_state \<Rightarrow>
    fi_state \<times> (fi_exn + nat)" where
  "unblock_with valid rx keyClass regex r s =
     (case extractBlockedChecks valid rx keyClass regex s of
        (s', Inl e) \<Rightarrow> (s', Inl e)
      | (s', Inr cs) \<Rightarrow>
          (case fulfil_all cs r s' of
             (s'', Inl e) \<Rightarrow> (s'', Inl e)
           | (s'', Inr _) \<Rightarrow> (s'', Inr (length cs))))"

definition unblock where
  "unblock valid rx keyClass regex s = unblock_with valid rx keyClass regex (Inr ()) s"

definition unblockWithError where
  "unblockWithError valid rx keyClass regex error s = unblock_with valid rx keyClass regex (Inl error) s"

fun unblock_classes ::
  "(string \<times> blocked_check list) list \<Rightarrow> fi_exn + unit \<Rightarrow> nat \<Rightarrow> fi_state \<Rightarrow> fi_state \<times> (fi_exn + nat)" where
  "unblock_classes [] r n s = (s, Inr n)"
| "unblock_classes ((k, cs) # ks) r n s =
     (case fulfil_all cs r s of
        (s', Inl e) \<Rightarrow> (s', Inl e)
      | (s', Inr _) \<Rightarrow> unblock_classes ks r (n + length cs) s')"

definition unblockAllImpl :: "fi_exn option \<Rightarrow> fi_state \<Rightarrow> fi_state \<times> (fi_exn + nat)" where
  "unblockAllImpl error s =
     unblock_classes (fi_blocked s) (case error of Some e \<Rightarrow> Inl e | None \<Rightarrow> Inr ()) 0 (s\<lparr>fi_blocked := []\<rparr>)"

definition unblockAll where
  "unblockAll s = unblockAllImpl None s"

definition unblockAllWithError where
  "unblockAllWithError error s = unblockAllImpl (Some error) s"

definition destroyFaultInjector where
  "destroyFaultInjector s = unblockAllImpl (Some FaultInjectorDestroyed) s"

definition getBlockedFaults :: "string \<Rightarrow> fi_state \<Rightarrow> string list" where
  "getBlockedFaults keyClass s =
     (case map_of (fi_blocked s) keyClass of None \<Rightarrow> [] | Some cs \<Rightarrow> map bc_keyValue cs)"

section \<open>Waiting\<close>

text \<open>
  \<open>now i\<close> is the clock at the round \<open>i\<close>, \<open>requested i\<close> whether cancellation is requested
  then, \<open>obs k\<close> the state at the \<open>k\<close>-th call of \<open>getBlockedFaults\<close>.
\<close>

partial_function (option) poll_loop ::
  "(nat \<Rightarrow> bool) \<Rightarrow> (nat \<Rightarrow> nat) \<Rightarrow> nat \<Rightarrow> nat \<Rightarrow> nat \<Rightarrow> (fi_exn + unit) option" where
  "poll_loop requested now startTime timeout i =
     (if requested i then Some (Inl OperationCancelled)
      else if now i - startTime \<ge> timeout then Some (Inl (BlockWithCancelTimeout timeout))
      else poll_loop requested now startTime timeout (i + 1))"

definition pollCancellationToken where
  "pollCancellationToken requested now startTime timeout = poll_loop requested now startTime timeout 0"

partial_function (option) wait_loop ::
  "(nat \<Rightarrow> nat) \<Rightarrow> nat \<Rightarrow> nat \<Rightarrow> (nat \<Rightarrow> fi_state) \<Rightarrow> string \<Rightarrow> nat \<Rightarrow> bool option" where
  "wait_loop now start timeout obs keyClass i =
     (if now i < start + timeout then
        (if length (getBlockedFaults keyClass (obs i)) = 0
         then wait_loop now start timeout obs keyClass (i + 1)
         else Some (length (getBlockedFaults keyClass (obs (i + 1))) \<noteq> 0))
      else Some (length (getBlockedFaults keyClass (obs i)) \<noteq> 0))"

definition waitUntilBlocked where
  "waitUntilBlocked now start timeout obs keyClass = wait_loop now start timeout obs keyClass 0"

text \<open>
  What \<open>getTry\<close> returns for a future: \<open>None\<close> while it is not ready, and for ever if the
  process is gone.
\<close>

fun getTry :: "(nat \<Rightarrow> nat \<Rightarrow> (fi_exn + unit) option) \<Rightarrow> fi_state \<Rightarrow> check_future \<Rightarrow> (fi_exn + unit) option" where
  "getTry poll s (Ready r) = Some r"
| "getTry poll s (OnPromise p) = fi_promises s p"
| "getTry poll s (Polling token timeout) = poll token timeout"
| "getTry poll s (Sleeping d r) = Some r"
| "getTry poll s Aborted = None"

text \<open>
  The synchronous checks wait for the future; \<open>later\<close> is the state in which the wait ends.
\<close>

definition checkTryImpl where
  "checkTryImpl rx poll later keyClass keyValue s =
     (case checkAsyncImpl rx keyClass keyValue s of (s', f) \<Rightarrow> (s', getTry poll (later s') f))"

definition checkTry where
  "checkTry rx poll later keyClass keyValues s =
     (if fi_enabled s then checkTryImpl rx poll later keyClass (constructKey keyValues) s else (s, Some (Inr ())))"

definition checkImpl :: "(string \<Rightarrow> string \<Rightarrow> bool) \<Rightarrow> (nat \<Rightarrow> nat \<Rightarrow> (fi_exn + unit) option) \<Rightarrow> (fi_state \<Rightarrow> fi_state) \<Rightarrow>
    string \<Rightarrow> string \<Rightarrow> fi_state \<Rightarrow> fi_state \<times> (fi_exn + unit) option" where
  "checkImpl rx poll later keyClass keyValue s =
     (case checkTryImpl rx poll later keyClass keyValue s of
        (s', Some (Inl e)) \<Rightarrow> (s', Some (Inl e))
      | (s', Some (Inr _)) \<Rightarrow> (s', Some (Inr ()))
      | (s', None) \<Rightarrow> (s', None))"

definition check where
  "check rx poll later keyClass keyValues s =
     (if fi_enabled s then checkImpl rx poll later keyClass (constructKey keyValues) s else (s, Some (Inr ())))"

section \<open>Interleaving\<close>

text \<open>
  Each operation takes the lock for its own section; a check that hits a block fault takes
  it twice, and other threads may run in between.  A thread is idle, has found a block
  fault, or waits for its promise.
\<close>

datatype check_pc = Found string string | Waiting nat

type_synonym fi_sys = "fi_state \<times> (nat \<rightharpoonup> check_pc)"

inductive fi_step :: "(string \<Rightarrow> bool) \<Rightarrow> (string \<Rightarrow> string \<Rightarrow> bool) \<Rightarrow> fi_sys \<Rightarrow> fi_sys \<Rightarrow> bool"
  for valid rx where
  inject: "fi_step valid rx (s, ts) (fst (injectFault valid kc rg b n s), ts)"
| remove: "fi_step valid rx (s, ts) (fst (removeFault kc rg s), ts)"
| token: "fi_step valid rx (s, ts) (updateBlockWithCancelToken rx kc kv tok s, ts)"
| pass: "ts t = None \<Longrightarrow> findFault rx kc kv s = (s', b) \<Longrightarrow> b \<noteq> Block \<Longrightarrow> fi_step valid rx (s, ts) (s', ts)"
| hit: "ts t = None \<Longrightarrow> findFault rx kc kv s = (s', Block) \<Longrightarrow>
    fi_step valid rx (s, ts) (s', ts(t \<mapsto> Found kc kv))"
| block: "ts t = Some (Found kc kv) \<Longrightarrow> addBlockedFault kc kv s = (s', p) \<Longrightarrow>
    fi_step valid rx (s, ts) (s', ts(t \<mapsto> Waiting p))"
| release: "fi_step valid rx (s, ts) (fst (unblock_with valid rx kc rg r s), ts)"
| release_all: "fi_step valid rx (s, ts) (fst (unblockAllImpl e s), ts)"
| wake: "ts t = Some (Waiting p) \<Longrightarrow> fi_promises s p \<noteq> None \<Longrightarrow> fi_step valid rx (s, ts) (s, ts(t := None))"

definition fi_init :: "fi_sys \<Rightarrow> bool" where
  "fi_init st = (st = (FaultInjector True, Map.empty))"

section \<open>Faults\<close>

text \<open>The fault that a check hits: the earliest one that matches.\<close>

lemma find_in_skip:
  assumes "\<forall>g \<in> set pre. \<not> rx (keyValueRegex g) kv"
  shows "find_in rx kv (pre @ fs) = (pre @ fst (find_in rx kv fs), snd (find_in rx kv fs))"
  using assms by (induction pre) (auto split: prod.splits)

lemma find_in_none: "\<forall>g \<in> set fs. \<not> rx (keyValueRegex g) kv \<Longrightarrow> find_in rx kv fs = (fs, NoFault)"
  using find_in_skip [of fs rx kv "[]"] by simp

text \<open>\<open>n\<close> checks in a row of the same key, and the behaviours they hit.\<close>

fun findFaults :: "(string \<Rightarrow> string \<Rightarrow> bool) \<Rightarrow> string \<Rightarrow> string \<Rightarrow> nat \<Rightarrow> fi_state \<Rightarrow> fi_state \<times> fault_behavior list" where
  "findFaults rx kc kv 0 s = (s, [])"
| "findFaults rx kc kv (Suc n) s =
     (case findFault rx kc kv s of (s', b) \<Rightarrow> map_prod id ((#) b) (findFaults rx kc kv n s'))"

lemma findFaults_unlimited:
  assumes "fi_faults s kc = Some (pre @ f # post)" and "\<forall>g \<in> set pre. \<not> rx (keyValueRegex g) kv"
    and "rx (keyValueRegex f) kv" and "countRemaining f = 0"
  shows "findFaults rx kc kv n s = (s, replicate n (behavior f))"
proof (induction n)
  case (Suc n)
  have "findFault rx kc kv s = (s, behavior f)"
    using assms by (simp add: findFault_def find_in_skip fun_upd_idem)
  with Suc show ?case by simp
qed simp

text \<open>The faults of a class after \<open>n\<close> hits of the fault \<open>f\<close>.\<close>

definition faults_left :: "nat \<Rightarrow> fault list \<Rightarrow> fault \<Rightarrow> fault list \<Rightarrow> fault list" where
  "faults_left n pre f post =
     (if n = countRemaining f then pre @ post else pre @ f\<lparr>countRemaining := countRemaining f - n\<rparr> # post)"

lemma findFaults_limited:
  assumes "fi_faults s kc = Some (pre @ f # post)" and "\<forall>g \<in> set pre. \<not> rx (keyValueRegex g) kv"
    and "rx (keyValueRegex f) kv" and "n \<le> countRemaining f" and "0 < countRemaining f"
  shows "findFaults rx kc kv n s =
    (s\<lparr>fi_faults := (fi_faults s)(kc \<mapsto> faults_left n pre f post)\<rparr>, replicate n (behavior f))"
  using assms
proof (induction n arbitrary: s f)
  case 0
  then show ?case by (simp add: fun_upd_idem faults_left_def)
next
  case (Suc n)
  let ?f = "f\<lparr>countRemaining := countRemaining f - 1\<rparr>"
  show ?case
  proof (cases "countRemaining f = 1")
    case True
    with Suc.prems have "n = 0" and "faults_left (Suc n) pre f post = pre @ post" by (simp_all add: faults_left_def)
    with Suc.prems True show ?thesis by (simp add: findFault_def find_in_skip fun_upd_def)
  next
    case False
    define s' where "s' = s\<lparr>fi_faults := (fi_faults s)(kc \<mapsto> pre @ ?f # post)\<rparr>"
    have ff: "findFault rx kc kv s = (s', behavior f)"
      using Suc.prems False by (simp add: findFault_def find_in_skip s'_def)
    have "findFaults rx kc kv n s' =
        (s'\<lparr>fi_faults := (fi_faults s')(kc \<mapsto> faults_left n pre ?f post)\<rparr>, replicate n (behavior ?f))"
      using Suc.prems False by (intro Suc.IH) (auto simp: s'_def)
    moreover have "faults_left n pre ?f post = faults_left (Suc n) pre f post"
      using Suc.prems by (auto simp: faults_left_def)
    moreover have "s'\<lparr>fi_faults := (fi_faults s')(kc \<mapsto> xs)\<rparr> = s\<lparr>fi_faults := (fi_faults s)(kc \<mapsto> xs)\<rparr>" for xs
      by (simp add: s'_def)
    ultimately show ?thesis using ff by (simp del: fun_upd_apply)
  qed
qed

section \<open>Extraction\<close>

text \<open>The in-place loop is a partition: a stable filter on both sides.\<close>

lemma extract_loop_eq:
  "r \<le> length arr \<Longrightarrow> w \<le> r \<Longrightarrow> extract_loop m r w arr res = (arr', w', res') \<Longrightarrow>
   take w' arr' = take w arr @ filter (\<lambda>c. \<not> m (bc_keyValue c)) (drop r arr) \<and>
   w' = w + length (filter (\<lambda>c. \<not> m (bc_keyValue c)) (drop r arr)) \<and>
   res' = res @ filter (\<lambda>c. m (bc_keyValue c)) (drop r arr)"
proof (induction m r w arr res rule: extract_loop.induct)
  case (1 m r w arr res)
  note [simp del] = extract_loop.simps
  show ?case
  proof (cases "r < length arr")
    case False
    then have "extract_loop m r w arr res = (arr, w, res)" by (simp add: extract_loop.simps [of m r w arr res])
    with False 1 show ?thesis by simp
  next
    case r: True
    then have d: "drop r arr = arr ! r # drop (r + 1) arr" by (simp add: Cons_nth_drop_Suc)
    show ?thesis
    proof (cases "m (bc_keyValue (arr ! r))")
      case True
      with r 1 have "extract_loop m (r + 1) w arr (res @ [arr ! r]) = (arr', w', res')"
        by (simp add: extract_loop.simps [of m r w arr res])
      from 1(1) [OF r True _ _ this] r 1(4) True show ?thesis by (auto simp: d)
    next
      case False
      define a where "a = (if r \<noteq> w then arr[w := arr ! r] else arr)"
      have e: "extract_loop m (r + 1) (w + 1) a res = (arr', w', res')"
        using r 1 False by (simp add: extract_loop.simps [of m r w arr res] a_def)
      have l: "length a = length arr" by (simp add: a_def)
      have dr: "drop (r + 1) a = drop (r + 1) arr" using 1 by (auto simp: a_def)
      have tw: "take (w + 1) a = take w arr @ [arr ! r]"
        using r 1 by (auto simp: a_def take_Suc_conv_app_nth)
      have "take w' arr' = take (w + 1) a @ filter (\<lambda>c. \<not> m (bc_keyValue c)) (drop (r + 1) a) \<and>
          w' = w + 1 + length (filter (\<lambda>c. \<not> m (bc_keyValue c)) (drop (r + 1) a)) \<and>
          res' = res @ filter (\<lambda>c. m (bc_keyValue c)) (drop (r + 1) a)"
        using 1(2) [OF r False, folded a_def, OF _ _ e] r 1(4) l by auto
      then show ?thesis unfolding d dr tw using False by auto
    qed
  qed
qed

lemma extract_partition:
  assumes "extract_loop m 0 0 cs [] = (arr, w, res)"
  shows "take w arr = filter (\<lambda>c. \<not> m (bc_keyValue c)) cs" and "w = length (filter (\<lambda>c. \<not> m (bc_keyValue c)) cs)"
    and "res = filter (\<lambda>c. m (bc_keyValue c)) cs"
  using extract_loop_eq [OF _ _ assms] by auto

text \<open>The checks blocked in a key class, and all of them.\<close>

definition class_blocked :: "string \<Rightarrow> fi_state \<Rightarrow> blocked_check list" where
  "class_blocked kc s = (case map_of (fi_blocked s) kc of None \<Rightarrow> [] | Some cs \<Rightarrow> cs)"

definition all_blocked :: "fi_state \<Rightarrow> blocked_check list" where
  "all_blocked s = concat (map snd (fi_blocked s))"

lemma mset_alist_update:
  "distinct (map fst al) \<Longrightarrow>
   mset (concat (map snd (AList.update k v al))) + mset (case map_of al k of None \<Rightarrow> [] | Some c \<Rightarrow> c) =
   mset (concat (map snd al)) + mset v"
proof (induction al)
  case (Cons a al)
  then show ?case by (cases a) (auto simp: ac_simps)
qed simp

lemma mset_alist_delete:
  "distinct (map fst al) \<Longrightarrow>
   mset (concat (map snd (AList.delete k al))) + mset (case map_of al k of None \<Rightarrow> [] | Some c \<Rightarrow> c) =
   mset (concat (map snd al))"
proof (induction al)
  case (Cons a al)
  have "k \<notin> fst ` set al \<Longrightarrow> AList.delete k al = al" by simp
  with Cons show ?case by (cases a) (auto simp: ac_simps map_of_eq_None_iff split: option.split)
qed simp

section \<open>Promises\<close>

text \<open>
  The invariant: the promises of the blocked checks are exactly the promises that were
  made and not fulfilled, each once; no key class has an empty list.
\<close>

definition fi_inv :: "fi_state \<Rightarrow> bool" where
  "fi_inv s =
     (distinct (map fst (fi_blocked s)) \<and> [] \<notin> snd ` set (fi_blocked s) \<and> dom (fi_promises s) \<subseteq> {..<fi_next s} \<and>
      image_mset bc_promise (mset (all_blocked s)) = mset_set ({..<fi_next s} - dom (fi_promises s)))"

lemma fulfil_all_spec:
  "distinct (map bc_promise cs) \<Longrightarrow> set (map bc_promise cs) \<inter> dom (fi_promises s) = {} \<Longrightarrow>
   fulfil_all cs r s =
     (s\<lparr>fi_promises := (\<lambda>p. if p \<in> set (map bc_promise cs) then Some r else fi_promises s p)\<rparr>, Inr ())"
proof (induction cs arbitrary: s)
  case (Cons c cs)
  let ?s = "s\<lparr>fi_promises := (fi_promises s)(bc_promise c \<mapsto> r)\<rparr>"
  have "setTry (bc_promise c) r s = (?s, Inr ())" using Cons.prems by (auto simp: setTry_def)
  moreover have "fulfil_all cs r ?s =
      (?s\<lparr>fi_promises := (\<lambda>p. if p \<in> set (map bc_promise cs) then Some r else fi_promises ?s p)\<rparr>, Inr ())"
    using Cons.prems by (intro Cons.IH) (auto simp: disjoint_iff dom_def split: if_splits)
  ultimately show ?case by (auto simp: fun_eq_iff intro: arg_cong)
qed simp

lemma unblock_classes_spec:
  "distinct (map bc_promise (concat (map snd ks))) \<Longrightarrow>
   set (map bc_promise (concat (map snd ks))) \<inter> dom (fi_promises s) = {} \<Longrightarrow>
   unblock_classes ks r n s =
     (s\<lparr>fi_promises := (\<lambda>p. if p \<in> set (map bc_promise (concat (map snd ks))) then Some r else fi_promises s p)\<rparr>,
      Inr (n + length (concat (map snd ks))))"
proof (induction ks arbitrary: s n)
  case (Cons k ks)
  obtain kc cs where k: "k = (kc, cs)" by (cases k)
  let ?s = "s\<lparr>fi_promises := (\<lambda>p. if p \<in> set (map bc_promise cs) then Some r else fi_promises s p)\<rparr>"
  have "fulfil_all cs r s = (?s, Inr ())" using Cons.prems k by (intro fulfil_all_spec) (auto simp: disjoint_iff)
  moreover have "unblock_classes ks r (n + length cs) ?s =
     (?s\<lparr>fi_promises := (\<lambda>p. if p \<in> set (map bc_promise (concat (map snd ks))) then Some r else fi_promises ?s p)\<rparr>,
      Inr (n + length cs + length (concat (map snd ks))))"
    using Cons.prems k by (intro Cons.IH) (auto simp: disjoint_iff dom_def split: if_splits)
  ultimately show ?case by (auto simp: k fun_eq_iff intro: arg_cong)
qed simp

lemma fi_inv_distinct:
  assumes "fi_inv s"
  shows "distinct (map bc_promise (all_blocked s))"
    and "set (map bc_promise (all_blocked s)) = {..<fi_next s} - dom (fi_promises s)"
proof -
  have m: "mset (map bc_promise (all_blocked s)) = mset_set ({..<fi_next s} - dom (fi_promises s))"
    using assms by (simp add: fi_inv_def)
  show set: "set (map bc_promise (all_blocked s)) = {..<fi_next s} - dom (fi_promises s)"
    using arg_cong [OF m, of set_mset] by simp
  show "distinct (map bc_promise (all_blocked s))"
    unfolding distinct_count_atmost_1 m set by (simp add: count_mset_set')
qed

lemma alist_update_values: "snd ` set (AList.update k v al) \<subseteq> insert v (snd ` set al)"
  by (induction al) auto

lemma alist_delete_values: "snd ` set (AList.delete k al) \<subseteq> snd ` set al"
  by (auto simp: AList.delete_eq)

lemma mset_split_cancel:
  assumes "M + C = A + N" and "F + N = C"
  shows "M + F = (A :: 'a multiset)"
  using assms by (auto simp flip: add.assoc)

lemma minus_split: "A \<union> B = C - D \<Longrightarrow> B \<inter> A = {} \<Longrightarrow> B = C - (D \<union> A)"
  by blast

lemma extractBlockedChecks_spec:
  fixes rx :: "string \<Rightarrow> string \<Rightarrow> bool"
  assumes "fi_inv s" and "valid rg"
  defines "m \<equiv> (\<lambda>c. rx rg (bc_keyValue c))"
  obtains s' where "extractBlockedChecks valid rx kc rg s = (s', Inr (filter m (class_blocked kc s)))"
    and "\<And>k. class_blocked k s' = (if k = kc then filter (\<lambda>c. \<not> m c) (class_blocked kc s) else class_blocked k s)"
    and "mset (all_blocked s') + mset (filter m (class_blocked kc s)) = mset (all_blocked s)"
    and "distinct (map fst (fi_blocked s'))" and "[] \<notin> snd ` set (fi_blocked s')"
    and "fi_promises s' = fi_promises s" and "fi_next s' = fi_next s" and "fi_faults s' = fi_faults s"
proof (cases "map_of (fi_blocked s) kc")
  case None
  with assms show ?thesis
    by (intro that [of s]) (auto simp: extractBlockedChecks_def class_blocked_def fi_inv_def)
next
  case (Some cs)
  obtain arr w res where e: "extract_loop (rx rg) 0 0 cs [] = (arr, w, res)" by (metis prod_cases3)
  have part: "take w arr = filter (\<lambda>c. \<not> m c) cs" "w = length (filter (\<lambda>c. \<not> m c) cs)" "res = filter m cs"
    using extract_partition [OF e] by (simp_all add: m_def)
  define s' where "s' = s\<lparr>fi_blocked := (if w = 0 then AList.delete kc (fi_blocked s)
      else AList.update kc (take w arr) (fi_blocked s))\<rparr>"
  have d: "distinct (map fst (fi_blocked s))" and ne: "[] \<notin> snd ` set (fi_blocked s)"
    using assms(1) by (auto simp: fi_inv_def)
  have c: "class_blocked kc s = cs" by (simp add: class_blocked_def Some)
  have w0: "w = 0 \<longleftrightarrow> filter (\<lambda>c. \<not> m c) cs = []" using part(2) by (auto simp: filter_empty_conv)
  have up: "mset (filter m cs) + mset (filter (\<lambda>c. \<not> m c) cs) = mset cs"
    by (metis mset_filter multiset_partition)
  have ms: "mset (all_blocked s') + mset (filter m cs) = mset (all_blocked s)"
  proof (cases "w = 0")
    case True
    with w0 have "filter m cs = cs" by (auto simp: filter_empty_conv filter_id_conv)
    with mset_alist_delete [OF d, of kc] True show ?thesis by (simp add: s'_def all_blocked_def Some)
  next
    case False
    with mset_alist_update [OF d, of kc "filter (\<lambda>c. \<not> m c) cs"] up part(1)
    have "mset (all_blocked s') + mset cs = mset (all_blocked s) + mset (filter (\<lambda>c. \<not> m c) cs)"
      by (simp add: s'_def all_blocked_def Some)
    from mset_split_cancel [OF this up] show ?thesis .
  qed
  show ?thesis
  proof (rule that [of s'])
    show "extractBlockedChecks valid rx kc rg s = (s', Inr (filter m (class_blocked kc s)))"
      using e assms(2) part(3) by (simp add: extractBlockedChecks_def Some s'_def c)
    show "class_blocked k s' = (if k = kc then filter (\<lambda>c. \<not> m c) (class_blocked kc s) else class_blocked k s)" for k
      using w0 part(1) by (auto simp: class_blocked_def s'_def Some update_conv' delete_conv')
    show "mset (all_blocked s') + mset (filter m (class_blocked kc s)) = mset (all_blocked s)"
      using ms by (simp add: c)
    show "distinct (map fst (fi_blocked s'))" using d by (simp add: s'_def distinct_update distinct_delete)
    show "[] \<notin> snd ` set (fi_blocked s')"
    proof (cases "w = 0")
      case True
      with ne alist_delete_values [of kc "fi_blocked s"] show ?thesis by (simp add: s'_def) blast
    next
      case False
      then have "fi_blocked s' = AList.update kc (take w arr) (fi_blocked s)" and "take w arr \<noteq> []"
        using w0 part(1) by (simp_all add: s'_def)
      with ne alist_update_values [of kc "take w arr" "fi_blocked s"] show ?thesis by auto
    qed
  qed (simp_all add: s'_def)
qed

lemma unblock_with_spec:
  fixes rx :: "string \<Rightarrow> string \<Rightarrow> bool"
  assumes inv: "fi_inv s" and "valid rg"
  defines "m \<equiv> (\<lambda>c. rx rg (bc_keyValue c))"
  obtains s' where "unblock_with valid rx kc rg r s = (s', Inr (length (filter m (class_blocked kc s))))"
    and "\<And>p. fi_promises s' p =
      (if p \<in> bc_promise ` set (filter m (class_blocked kc s)) then Some r else fi_promises s p)"
    and "\<And>k. class_blocked k s' = (if k = kc then filter (\<lambda>c. \<not> m c) (class_blocked kc s) else class_blocked k s)"
    and "fi_inv s'" and "fi_next s' = fi_next s"
proof -
  let ?cs = "filter m (class_blocked kc s)"
  obtain t where t: "extractBlockedChecks valid rx kc rg s = (t, Inr ?cs)"
    and cb: "\<And>k. class_blocked k t = (if k = kc then filter (\<lambda>c. \<not> m c) (class_blocked kc s) else class_blocked k s)"
    and ms: "mset (all_blocked t) + mset ?cs = mset (all_blocked s)"
    and d: "distinct (map fst (fi_blocked t))" "[] \<notin> snd ` set (fi_blocked t)"
    and p: "fi_promises t = fi_promises s" "fi_next t = fi_next s"
    unfolding m_def by (rule extractBlockedChecks_spec [of s valid rg rx kc, OF inv assms(2)]) blast
  define s' where "s' = t\<lparr>fi_promises := (\<lambda>p. if p \<in> set (map bc_promise ?cs) then Some r else fi_promises t p)\<rparr>"
  note dist = fi_inv_distinct [OF inv]
  have split: "image_mset bc_promise (mset (all_blocked t)) + mset (map bc_promise ?cs) = mset (map bc_promise (all_blocked s))"
    by (simp flip: ms)
  have dcs: "distinct (map bc_promise (all_blocked t) @ map bc_promise ?cs)"
    using dist(1) split by (metis mset_append mset_eq_imp_distinct_iff mset_map)
  have sub: "set (map bc_promise ?cs) \<union> set (map bc_promise (all_blocked t)) = {..<fi_next s} - dom (fi_promises s)"
    using arg_cong [OF split, of set_mset] dist(2) by auto
  have ff: "fulfil_all ?cs r t = (s', Inr ())"
    unfolding s'_def using dcs sub p by (intro fulfil_all_spec) auto
  have dm: "dom (fi_promises s') = dom (fi_promises s) \<union> set (map bc_promise ?cs)"
    by (auto simp: s'_def p dom_def split: if_splits)
  have "set (map bc_promise (all_blocked t)) \<inter> set (map bc_promise ?cs) = {}" using dcs by simp
  with dm have eq: "set (map bc_promise (all_blocked t)) = {..<fi_next s} - dom (fi_promises s')"
    using minus_split [OF sub] by simp
  have n: "fi_next s' = fi_next s" by (simp add: s'_def p)
  have "image_mset bc_promise (mset (all_blocked s')) = mset (map bc_promise (all_blocked t))"
    by (simp add: s'_def all_blocked_def)
  also have "\<dots> = mset_set (set (map bc_promise (all_blocked t)))"
    by (rule mset_set_set [symmetric]) (use dcs in simp)
  also have "\<dots> = mset_set ({..<fi_next s'} - dom (fi_promises s'))" by (simp only: eq n)
  finally have "image_mset bc_promise (mset (all_blocked s')) = mset_set ({..<fi_next s'} - dom (fi_promises s'))" .
  moreover have "dom (fi_promises s') \<subseteq> {..<fi_next s'}"
    unfolding dm n using sub inv unfolding fi_inv_def by blast
  ultimately have "fi_inv s'" using d by (simp add: fi_inv_def s'_def)
  moreover have "unblock_with valid rx kc rg r s = (s', Inr (length ?cs))"
    by (simp add: unblock_with_def t ff)
  moreover have "class_blocked k s' = class_blocked k t" for k by (simp add: class_blocked_def s'_def)
  moreover have "fi_promises s' p = (if p \<in> bc_promise ` set ?cs then Some r else fi_promises s p)" for p
    by (simp add: s'_def p)
  ultimately show ?thesis using that [of s'] cb n by simp
qed

lemma unblock_with_inv:
  assumes "fi_inv s"
  shows "fi_inv (fst (unblock_with valid rx kc rg r s))" and "fi_next (fst (unblock_with valid rx kc rg r s)) = fi_next s"
proof -
  have "fi_inv (fst (unblock_with valid rx kc rg r s)) \<and> fi_next (fst (unblock_with valid rx kc rg r s)) = fi_next s"
  proof (cases "valid rg")
    case True
    show ?thesis by (rule unblock_with_spec [of s valid rg rx kc r, OF assms True]) simp
  next
    case False
    then show ?thesis using assms by (simp add: unblock_with_def extractBlockedChecks_def split: option.split)
  qed
  then show "fi_inv (fst (unblock_with valid rx kc rg r s))"
    and "fi_next (fst (unblock_with valid rx kc rg r s)) = fi_next s" by simp_all
qed

lemma unblockAllImpl_spec:
  fixes e :: "fi_exn option"
  assumes "fi_inv s"
  defines "r \<equiv> (case e of Some x \<Rightarrow> Inl x | None \<Rightarrow> Inr ())"
  shows "unblockAllImpl e s =
    (s\<lparr>fi_blocked := [], fi_promises := (\<lambda>p. if p < fi_next s \<and> fi_promises s p = None then Some r else fi_promises s p)\<rparr>,
     Inr (length (all_blocked s)))"
proof -
  note d = fi_inv_distinct [OF assms(1)]
  have disj: "set (map bc_promise (all_blocked s)) \<inter> dom (fi_promises s) = {}" unfolding d(2) by auto
  have "unblock_classes (fi_blocked s) r 0 (s\<lparr>fi_blocked := []\<rparr>) =
     (s\<lparr>fi_blocked := [], fi_promises := (\<lambda>p. if p \<in> set (map bc_promise (all_blocked s)) then Some r else fi_promises s p)\<rparr>,
      Inr (length (all_blocked s)))"
    using unblock_classes_spec [of "fi_blocked s" "s\<lparr>fi_blocked := []\<rparr>" r 0, OF d(1) [unfolded all_blocked_def]] disj
    by (simp add: all_blocked_def cong: if_cong)
  moreover have "p \<in> set (map bc_promise (all_blocked s)) \<longleftrightarrow> p < fi_next s \<and> fi_promises s p = None" for p
    unfolding d(2) by auto
  ultimately show ?thesis by (simp only: unblockAllImpl_def r_def)
qed

lemma unblockAllImpl_inv:
  assumes "fi_inv s"
  shows "fi_inv (fst (unblockAllImpl e s))" and "fi_next (fst (unblockAllImpl e s)) = fi_next s"
proof -
  have "dom (fi_promises s) \<subseteq> {..<fi_next s}" using assms by (simp add: fi_inv_def)
  then have "{..<fi_next s} - dom (fi_promises (fst (unblockAllImpl e s))) = {}"
    and "dom (fi_promises (fst (unblockAllImpl e s))) \<subseteq> {..<fi_next s}"
    by (auto simp: unblockAllImpl_spec [OF assms] dom_def split: if_splits)
  then show "fi_inv (fst (unblockAllImpl e s))"
    using unblockAllImpl_spec [OF assms, of e] by (simp add: fi_inv_def all_blocked_def)
  show "fi_next (fst (unblockAllImpl e s)) = fi_next s" by (simp add: unblockAllImpl_spec [OF assms])
qed

lemma addBlockedFault_inv:
  assumes "fi_inv s" and "addBlockedFault kc kv s = (s', p)"
  shows "fi_inv s'" and "p = fi_next s" and "fi_next s' = fi_next s + 1" and "fi_promises s' = fi_promises s"
proof -
  define c where "c = \<lparr>bc_keyValue = kv, bc_promise = fi_next s\<rparr>"
  have s': "s' = s\<lparr>fi_blocked := AList.update kc (class_blocked kc s @ [c]) (fi_blocked s), fi_next := fi_next s + 1\<rparr>"
    and p: "p = fi_next s"
    using assms(2) by (auto simp: addBlockedFault_def Let_def class_blocked_def c_def)
  show "p = fi_next s" and "fi_next s' = fi_next s + 1" and "fi_promises s' = fi_promises s"
    by (simp_all add: s' p)
  have d: "distinct (map fst (fi_blocked s))" and dm: "dom (fi_promises s) \<subseteq> {..<fi_next s}"
    using assms(1) by (auto simp: fi_inv_def)
  from mset_alist_update [OF d, of kc "class_blocked kc s @ [c]"]
  have "mset (all_blocked s') = mset (all_blocked s) + {#c#}"
    by (simp add: s' all_blocked_def class_blocked_def)
  moreover have "{..<fi_next s + 1} - dom (fi_promises s) = insert (fi_next s) ({..<fi_next s} - dom (fi_promises s))"
    using dm by (auto simp: less_Suc_eq)
  ultimately show "fi_inv s'"
    using assms(1) alist_update_values [of kc "class_blocked kc s @ [c]" "fi_blocked s"]
    by (auto simp: fi_inv_def s' c_def distinct_update)
qed

text \<open>The operations on faults leave the blocked checks alone.\<close>

definition same_blocked :: "fi_state \<Rightarrow> fi_state \<Rightarrow> bool" where
  "same_blocked s t = (fi_blocked t = fi_blocked s \<and> fi_promises t = fi_promises s \<and> fi_next t = fi_next s)"

lemma same_blocked_inv: "same_blocked s t \<Longrightarrow> fi_inv s \<Longrightarrow> fi_inv t"
  by (simp add: same_blocked_def fi_inv_def all_blocked_def)

lemma faults_same_blocked:
  "same_blocked s (fst (injectFault valid kc rg b n s))" "same_blocked s (fst (removeFault kc rg s))"
  "same_blocked s (updateBlockWithCancelToken rx kc kv tok s)" "same_blocked s (fst (findFault rx kc kv s))"
  by (auto simp: same_blocked_def injectFault_def removeFault_def updateBlockWithCancelToken_def findFault_def Let_def
      split: option.splits list.splits prod.splits)

definition fi_sys_inv :: "fi_sys \<Rightarrow> bool" where
  "fi_sys_inv st = (fi_inv (fst st) \<and> (\<forall>t p. snd st t = Some (Waiting p) \<longrightarrow> p < fi_next (fst st)))"

lemma fi_step_inv: "fi_step valid rx st st' \<Longrightarrow> fi_sys_inv st \<Longrightarrow> fi_sys_inv st'"
proof (induction rule: fi_step.induct)
  case (inject s ts kc rg b n)
  then show ?case using faults_same_blocked(1) [of s valid kc rg b n] same_blocked_inv
    by (auto simp: fi_sys_inv_def same_blocked_def)
next
  case (remove s ts kc rg)
  then show ?case using faults_same_blocked(2) [of s kc rg] same_blocked_inv
    by (auto simp: fi_sys_inv_def same_blocked_def)
next
  case (token s ts kc kv tok)
  then show ?case using faults_same_blocked(3) [of s rx kc kv tok] same_blocked_inv
    by (auto simp: fi_sys_inv_def same_blocked_def)
next
  case (pass ts t kc kv s s' b)
  then show ?case using faults_same_blocked(4) [of s rx kc kv] same_blocked_inv
    by (auto simp: fi_sys_inv_def same_blocked_def)
next
  case (hit ts t kc kv s s')
  then show ?case using faults_same_blocked(4) [of s rx kc kv] same_blocked_inv
    by (auto simp: fi_sys_inv_def same_blocked_def)
next
  case (block ts t kc kv s s' p)
  from block addBlockedFault_inv [of s kc kv s' p] show ?case
    by (auto simp: fi_sys_inv_def intro: less_SucI)
next
  case (release s ts kc rg r)
  then show ?case using unblock_with_inv [of s valid rx kc rg r] by (simp add: fi_sys_inv_def)
next
  case (release_all s ts e)
  then show ?case using unblockAllImpl_inv [of s e] by (simp add: fi_sys_inv_def)
next
  case (wake ts t p s)
  then show ?case by (simp add: fi_sys_inv_def)
qed

interpretation fi_system: invariant_system fi_init "fi_step valid rx" fi_sys_inv for valid rx
proof unfold_locales
  show "fi_init s \<Longrightarrow> fi_sys_inv s" for s
    by (simp add: fi_init_def fi_sys_inv_def fi_inv_def FaultInjector_def all_blocked_def)
  show "fi_step valid rx s t \<Longrightarrow> fi_sys_inv s \<Longrightarrow> fi_sys_inv t" for s t
    by (rule fi_step_inv)
qed

section \<open>Waiting\<close>

lemma poll_loop_result:
  assumes "\<forall>j < n. \<not> requested (i + j) \<and> now (i + j) - startTime < timeout"
    and "requested (i + n) \<or> timeout \<le> now (i + n) - startTime"
  shows "poll_loop requested now startTime timeout i =
    Some (Inl (if requested (i + n) then OperationCancelled else BlockWithCancelTimeout timeout))"
  using assms
proof (induction n arbitrary: i)
  case 0
  then show ?case by (auto simp: poll_loop.simps [of _ _ _ _ i])
next
  case (Suc n)
  have "poll_loop requested now startTime timeout (Suc i) =
      Some (Inl (if requested (Suc i + n) then OperationCancelled else BlockWithCancelTimeout timeout))"
    using Suc.prems by (intro Suc.IH) (auto dest: spec [of _ "Suc _"])
  then show ?case using Suc.prems(1) [rule_format, of 0]
    by (simp add: poll_loop.simps [of _ _ _ _ i] not_le)
qed

text \<open>The steady clock advances by at least the millisecond that a round sleeps.\<close>

definition steady_clock :: "(nat \<Rightarrow> nat) \<Rightarrow> bool" where
  "steady_clock now = (\<forall>i. now i + 1 \<le> now (i + 1))"

lemma steady_clock_ge: "steady_clock now \<Longrightarrow> now 0 + i \<le> now i"
proof (induction i)
  case (Suc i)
  have "now i + 1 \<le> now (i + 1)" using Suc.prems unfolding steady_clock_def by blast
  with Suc show ?case by simp
qed simp

lemma wait_loop_result:
  assumes "\<forall>j < n. now (i + j) < start + timeout \<and> getBlockedFaults kc (obs (i + j)) = []"
    and "\<not> now (i + n) < start + timeout \<or> getBlockedFaults kc (obs (i + n)) \<noteq> []"
  shows "wait_loop now start timeout obs kc i =
    Some (getBlockedFaults kc (obs (if now (i + n) < start + timeout then i + n + 1 else i + n)) \<noteq> [])"
  using assms
proof (induction n arbitrary: i)
  case 0
  then show ?case by (auto simp: wait_loop.simps [of _ _ _ _ _ i])
next
  case (Suc n)
  have "wait_loop now start timeout obs kc (Suc i) =
      Some (getBlockedFaults kc (obs (if now (Suc i + n) < start + timeout then Suc i + n + 1 else Suc i + n)) \<noteq> [])"
    using Suc.prems by (intro Suc.IH) (auto dest: spec [of _ "Suc _"])
  then show ?case using Suc.prems(1) [rule_format, of 0]
    by (simp add: wait_loop.simps [of _ _ _ _ _ i])
qed

lemma first_round:
  assumes "P m"
  obtains n where "n \<le> m" and "P n" and "\<forall>j < n. \<not> P (j :: nat)"
  using assms by (metis LeastI Least_le not_less_Least)

section \<open>Properties\<close>

text \<open>
  Which fault a check hits.  The earliest injected fault of the key class that matches
  decides; a fault with a count is hit exactly that often, then it is gone and the others
  are as before; a fault with the count 0 is hit for ever; without a match nothing happens.
\<close>

theorem fault_precedence:
  assumes "fi_faults s kc = Some (pre @ f # post)" and "\<forall>g \<in> set pre. \<not> rx (keyValueRegex g) kv"
    and "rx (keyValueRegex f) kv"
  shows "(countRemaining f = 0 \<longrightarrow> findFaults rx kc kv n s = (s, replicate n (behavior f))) \<and>
    (0 < countRemaining f \<and> n \<le> countRemaining f \<longrightarrow>
       findFaults rx kc kv n s =
         (s\<lparr>fi_faults := (fi_faults s)(kc \<mapsto> faults_left n pre f post)\<rparr>, replicate n (behavior f))) \<and>
    (\<forall>kv'. (\<forall>g \<in> set (pre @ f # post). \<not> rx (keyValueRegex g) kv') \<longrightarrow> findFault rx kc kv' s = (s, NoFault))"
proof -
  have "findFault rx kc kv' s = (s, NoFault)" if "\<forall>g \<in> set (pre @ f # post). \<not> rx (keyValueRegex g) kv'" for kv'
    using assms(1) find_in_none [of "pre @ f # post" rx kv', OF that] by (simp add: findFault_def fun_upd_idem)
  then show ?thesis
    using findFaults_unlimited [of s kc pre f post rx kv, OF assms]
      findFaults_limited [of s kc pre f post rx kv, OF assms] by blast
qed

text \<open>
  The two implementations of an asynchronous check, the one that visits the variant and
  the coroutine that tests its alternatives, do the same in every state.
\<close>

theorem co_checkAsync_equivalent: "co_checkAsync rx keyClass keyValues s = checkAsync rx keyClass keyValues s"
proof -
  have "co_checkAsyncImpl rx kc kv s = checkAsyncImpl rx kc kv s" for kc kv
    by (cases "findFault rx kc kv s"; cases "snd (findFault rx kc kv s)")
      (auto simp: co_checkAsyncImpl_def checkAsyncImpl_def map_prod_def split: option.split prod.split)
  then show ?thesis by (simp add: co_checkAsync_def checkAsync_def)
qed


text \<open>
  \<open>unblock\<close> in a reachable state, for an expression that \<open>boost::regex\<close> accepts, fulfils
  exactly the promises of the checks of the key class that match, returns their number, and
  keeps the other checks blocked in their order.
\<close>

theorem unblock_releases_matches:
  assumes "reachable fi_init (fi_step valid rx) (s, ts)" and "valid rg"
  shows "\<exists>s'. unblock valid rx kc rg s = (s', Inr (length (filter (rx rg) (getBlockedFaults kc s)))) \<and>
    getBlockedFaults kc s' = filter (\<lambda>kv. \<not> rx rg kv) (getBlockedFaults kc s) \<and>
    (\<forall>k. k \<noteq> kc \<longrightarrow> getBlockedFaults k s' = getBlockedFaults k s) \<and>
    (\<forall>p. fi_promises s' p =
       (if p \<in> set (map bc_promise (filter (\<lambda>c. rx rg (bc_keyValue c)) (class_blocked kc s)))
        then Some (Inr ()) else fi_promises s p))"
proof -
  have inv: "fi_inv s" using fi_system.reachable_inv [OF assms(1)] by (simp add: fi_sys_inv_def)
  have gb: "getBlockedFaults k t = map bc_keyValue (class_blocked k t)" for k t
    by (simp add: getBlockedFaults_def class_blocked_def split: option.split)
  obtain s' where s': "unblock_with valid rx kc rg (Inr ()) s =
       (s', Inr (length (filter (\<lambda>c. rx rg (bc_keyValue c)) (class_blocked kc s))))"
    "\<And>p. fi_promises s' p =
      (if p \<in> bc_promise ` set (filter (\<lambda>c. rx rg (bc_keyValue c)) (class_blocked kc s)) then Some (Inr ()) else fi_promises s p)"
    "\<And>k. class_blocked k s' =
      (if k = kc then filter (\<lambda>c. \<not> rx rg (bc_keyValue c)) (class_blocked kc s) else class_blocked k s)"
    by (rule unblock_with_spec [of s valid rg rx kc "Inr ()", OF inv assms(2)]) blast
  then show ?thesis by (intro exI [of _ s']) (simp add: unblock_def gb filter_map comp_def)
qed

text \<open>
  The polling loops end.  With a clock that advances, a \<open>BlockWithCancel\<close> check returns
  after at most \<open>timeout\<close> rounds: with \<open>OperationCancelled\<close> if cancellation is requested in
  the round that ends it, and with the timeout error otherwise.  \<open>waitUntilBlocked\<close> returns,
  and it reports what it sees last.
\<close>

theorem polling_terminates:
  assumes "steady_clock now"
  shows "(\<exists>n \<le> timeout. pollCancellationToken requested now (now 0) timeout =
            Some (Inl (if requested n then OperationCancelled else BlockWithCancelTimeout timeout)) \<and>
            (requested n \<or> timeout \<le> now n - now 0) \<and> (\<forall>j < n. \<not> requested j \<and> now j - now 0 < timeout)) \<and>
         (\<exists>k \<le> timeout + 1. waitUntilBlocked now (now 0) timeout obs kc = Some (getBlockedFaults kc (obs k) \<noteq> []))"
proof
  have ge: "now 0 + timeout \<le> now timeout" by (rule steady_clock_ge [OF assms])
  then have "requested timeout \<or> timeout \<le> now timeout - now 0" by linarith
  then obtain n where "n \<le> timeout" "requested n \<or> timeout \<le> now n - now 0"
      "\<forall>j < n. \<not> (requested j \<or> timeout \<le> now j - now 0)"
    by (rule first_round [of "\<lambda>n. requested n \<or> timeout \<le> now n - now 0"])
  then show "\<exists>n \<le> timeout. pollCancellationToken requested now (now 0) timeout =
            Some (Inl (if requested n then OperationCancelled else BlockWithCancelTimeout timeout)) \<and>
            (requested n \<or> timeout \<le> now n - now 0) \<and> (\<forall>j < n. \<not> requested j \<and> now j - now 0 < timeout)"
    using poll_loop_result [of n requested 0 now "now 0" timeout]
    by (intro exI [of _ n]) (auto simp: pollCancellationToken_def not_le)
  from ge have "\<not> now timeout < now 0 + timeout \<or> getBlockedFaults kc (obs timeout) \<noteq> []" by simp
  then obtain m where "m \<le> timeout" "\<not> now m < now 0 + timeout \<or> getBlockedFaults kc (obs m) \<noteq> []"
      "\<forall>j < m. \<not> (\<not> now j < now 0 + timeout \<or> getBlockedFaults kc (obs j) \<noteq> [])"
    by (rule first_round [of "\<lambda>m. \<not> now m < now 0 + timeout \<or> getBlockedFaults kc (obs m) \<noteq> []"])
  then show "\<exists>k \<le> timeout + 1. waitUntilBlocked now (now 0) timeout obs kc = Some (getBlockedFaults kc (obs k) \<noteq> [])"
    using wait_loop_result [of m now 0 "now 0" timeout kc obs]
    by (intro exI [of _ "if now m < now 0 + timeout then m + 1 else m"]) (auto simp: waitUntilBlocked_def)
qed

section \<open>A sample injector\<close>

text \<open>
  For the samples, an expression matches the value that it spells.  Two faults with the
  counts 2 and 0, and a run in which a check is blocked.
\<close>

definition sample_faults :: fi_state where
  "sample_faults = (FaultInjector True)\<lparr>fi_faults := [''mount'' \<mapsto>
     [\<lparr>keyValueRegex = ''a'', countRemaining = 2, behavior = Kill\<rparr>,
      \<lparr>keyValueRegex = ''b'', countRemaining = 2, behavior = Block\<rparr>]]\<rparr>"

theorem fault_precedence_witness:
  "findFaults (=) ''mount'' ''b'' 2 sample_faults =
     (sample_faults\<lparr>fi_faults := [''mount'' \<mapsto> [\<lparr>keyValueRegex = ''a'', countRemaining = 2, behavior = Kill\<rparr>]]\<rparr>, [Block, Block])"
proof -
  let ?a = "\<lparr>keyValueRegex = ''a'', countRemaining = 2, behavior = Kill\<rparr>"
  let ?b = "\<lparr>keyValueRegex = ''b'', countRemaining = 2, behavior = Block\<rparr>"
  have "fi_faults sample_faults ''mount'' = Some ([?a] @ ?b # [])" by (simp add: sample_faults_def)
  from fault_precedence [OF this, of "(=)" "''b''" 2] show ?thesis
    by (simp add: faults_left_def sample_faults_def FaultInjector_def numeral_2_eq_2)
qed

definition sample_found :: fi_state where
  "sample_found = FaultInjector True\<lparr>fi_faults := [''mount'' \<mapsto> [\<lparr>keyValueRegex = ''b'', countRemaining = 0, behavior = Block\<rparr>]]\<rparr>"

definition sample_blocked :: fi_state where
  "sample_blocked = sample_found\<lparr>fi_blocked := [(''mount'', [\<lparr>bc_keyValue = ''b'', bc_promise = 0\<rparr>])], fi_next := 1\<rparr>"

lemma sample_reachable:
  "reachable fi_init (fi_step (\<lambda>_. True) (=)) (sample_blocked, [0 \<mapsto> Waiting 0])"
proof -
  let ?R = "reachable fi_init (fi_step (\<lambda>_. True) (=))"
  let ?step = "fi_step (\<lambda>_. True) (=)"
  note st = reach_step [of fi_init ?step]
  have 0: "?R (FaultInjector True, Map.empty)" by (rule reach_init) (simp add: fi_init_def)
  have 1: "?step (FaultInjector True, Map.empty) (sample_found, Map.empty)"
    using inject [of "\<lambda>_. True" "(=)" "FaultInjector True" Map.empty "''mount''" "''b''" Block 0]
    by (simp add: injectFault_def FaultInjector_def sample_found_def)
  have "findFault (=) ''mount'' ''b'' sample_found = (sample_found, Block)"
    by (simp add: findFault_def sample_found_def fun_upd_def cong: if_cong)
  then have 2: "?step (sample_found, Map.empty) (sample_found, [0 \<mapsto> Found ''mount'' ''b''])"
    by (intro hit) simp
  have "addBlockedFault ''mount'' ''b'' sample_found = (sample_blocked, 0)"
    by (simp add: addBlockedFault_def sample_blocked_def sample_found_def FaultInjector_def)
  then have 3: "?step (sample_found, [0 \<mapsto> Found ''mount'' ''b'']) (sample_blocked, [0 \<mapsto> Found ''mount'' ''b''](0 \<mapsto> Waiting 0))"
    by (intro block) auto
  have "?R (sample_blocked, [0 \<mapsto> Found ''mount'' ''b''](0 \<mapsto> Waiting 0))"
    using st [OF st [OF st [OF 0 1] 2] 3] .
  then show ?thesis by simp
qed


theorem unblock_releases_matches_witness:
  "\<exists>s'. unblock (\<lambda>_. True) (=) ''mount'' ''b'' sample_blocked = (s', Inr 1) \<and> getBlockedFaults ''mount'' s' = [] \<and>
     fi_promises s' 0 = Some (Inr ())"
proof -
  have b: "getBlockedFaults ''mount'' sample_blocked = [''b'']" "class_blocked ''mount'' sample_blocked = [\<lparr>bc_keyValue = ''b'', bc_promise = 0\<rparr>]"
    by (simp_all add: getBlockedFaults_def class_blocked_def sample_blocked_def)
  from unblock_releases_matches [OF sample_reachable TrueI, of "''mount''" "''b''"] obtain s' where 1:
    "unblock (\<lambda>_. True) (=) ''mount'' ''b'' sample_blocked =
       (s', Inr (length (filter ((=) ''b'') (getBlockedFaults ''mount'' sample_blocked))))"
    and 2: "getBlockedFaults ''mount'' s' = filter (\<lambda>kv. \<not> ''b'' = kv) (getBlockedFaults ''mount'' sample_blocked)"
    and 3: "fi_promises s' 0 =
       (if 0 \<in> set (map bc_promise (filter (\<lambda>c. ''b'' = bc_keyValue c) (class_blocked ''mount'' sample_blocked)))
        then Some (Inr ()) else fi_promises sample_blocked 0)"
    by blast
  have "fi_promises s' 0 = Some (Inr ())" using 3 unfolding b by simp
  moreover have "getBlockedFaults ''mount'' s' = []" using 2 unfolding b by simp
  moreover have "unblock (\<lambda>_. True) (=) ''mount'' ''b'' sample_blocked = (s', Inr 1)" using 1 unfolding b by simp
  ultimately show ?thesis by blast
qed

theorem polling_terminates_witness:
  "steady_clock (\<lambda>i. 7 + i) \<and>
   pollCancellationToken (\<lambda>i. i = 1) (\<lambda>i. 7 + i) 7 3 = Some (Inl OperationCancelled)"
proof -
  have c: "steady_clock (\<lambda>i. 7 + i)" by (simp add: steady_clock_def)
  from polling_terminates [OF c, of 3 "\<lambda>i. i = 1" "\<lambda>_. sample_found" "[]"] obtain n where
    "pollCancellationToken (\<lambda>i. i = 1) (\<lambda>i. 7 + i) 7 3 =
       Some (Inl (if n = 1 then OperationCancelled else BlockWithCancelTimeout 3))" and "n = 1 \<or> 3 \<le> n"
    and "\<forall>j < n. j \<noteq> (1::nat)" by auto
  with c show ?thesis by (cases "n = 1") (auto dest: spec [of _ 1])
qed

end
