(* ===== verification/Socket_Wire.thy ===== *)
theory Socket_Wire
  imports Eden_Prelude "HOL-Library.Word"
begin

unbundle bit_operations_syntax

text \<open>
  The sending half of a message of \<open>UnixSocket.cpp\<close>: the header and its codec, the entry of
  the send queue with its array of buffers, and \<open>trySendMessage\<close>.

  A file descriptor is a number; a message is the chain of its buffers and its files.  The
  kernel is an argument: \<open>sk\<close> takes the bytes offered, the descriptors of the control
  message and the kernel's state, and returns an \<open>errno\<close> or the number of bytes it took.
  \<open>send_kernel\<close> states what is used of \<open>sendmsg\<close> on a stream socket: it takes some of the
  bytes in order, and the descriptors travel with the first of them.

  The stream of a message is fixed by its contents (\<open>wire\<close>); the lemmas show that the calls
  of \<open>trySendMessage\<close> produce exactly this stream, however the kernel splits it.
\<close>

type_synonym byte = "8 word"
type_synonym fd = nat

section \<open>The header\<close>

definition kProtocolID :: "64 word" where
  "kProtocolID = 0xfaceb00c12345678"

definition kHeaderLength :: nat where
  "kHeaderLength = 16"

definition kMaxFDs :: nat where
  "kMaxFDs = 253"

record us_header =
  protocolID :: "64 word"
  dataSize :: "32 word"
  numFiles :: "32 word"

text \<open>Cursors write and read the bytes of an \<open>n\<close>-byte integer, most significant first.\<close>

definition writeBE :: "nat \<Rightarrow> 'a::len word \<Rightarrow> byte list" where
  "writeBE n w = map (\<lambda>i. ucast (drop_bit (8 * i) w)) (rev [0..<n])"

definition readBE :: "byte list \<Rightarrow> 'a::len word" where
  "readBE bs = foldl (\<lambda>acc b. push_bit 8 acc OR ucast b) 0 bs"

definition serializeHeader :: "32 word \<Rightarrow> 32 word \<Rightarrow> byte list" where
  "serializeHeader dataSize' numFiles' = writeBE 8 kProtocolID @ writeBE 4 dataSize' @ writeBE 4 numFiles'"

definition deserializeHeader :: "byte list \<Rightarrow> us_header" where
  "deserializeHeader buffer =
     \<lparr>protocolID = readBE (take 8 buffer), dataSize = readBE (take 4 (drop 8 buffer)),
      numFiles = readBE (take 4 (drop 12 buffer))\<rparr>"

section \<open>Messages and queue entries\<close>

record us_message =
  msg_data :: "byte list list"
  msg_files :: "fd list"

text \<open>An \<open>iovec\<close> is how far its base has been advanced, and the bytes from there on.\<close>

record iovec =
  iov_off :: nat
  iov_bytes :: "byte list"

record send_entry =
  se_message :: us_message
  se_callback :: "nat option"
  se_iovIndex :: nat
  se_iovCount :: nat
  se_filesSent :: nat
  se_iov :: "iovec list"

definition enumerateIovecs :: "byte list list \<Rightarrow> byte list list" where
  "enumerateIovecs buffer = filter (\<lambda>b. b \<noteq> []) buffer"

definition SendQueueEntry :: "us_message \<Rightarrow> nat option \<Rightarrow> nat \<Rightarrow> send_entry" where
  "SendQueueEntry msg cb iovecCount =
     (let body = enumerateIovecs (msg_data msg);
          bodySize = sum_list (map length body);
          header = serializeHeader (of_nat bodySize) (of_nat (length (msg_files msg)))
      in \<lparr>se_message = msg, se_callback = cb, se_iovIndex = 0, se_iovCount = iovecCount, se_filesSent = 0,
          se_iov = map (\<lambda>b. \<lparr>iov_off = 0, iov_bytes = b\<rparr>) (header # body)\<rparr>)"

text \<open>The allocation of the entry may fail.\<close>

definition createSendQueueEntry :: "bool \<Rightarrow> us_message \<Rightarrow> nat option \<Rightarrow> send_entry option" where
  "createSendQueueEntry alloc msg cb =
     (let iovecElements = 1 + length (enumerateIovecs (msg_data msg)) in
      if alloc then Some (SendQueueEntry msg cb iovecElements) else None)"

definition initializeFirstControlMsg :: "send_entry \<Rightarrow> fd list" where
  "initializeFirstControlMsg e =
     (if msg_files (se_message e) = [] then []
      else take (min kMaxFDs (length (msg_files (se_message e)))) (msg_files (se_message e)))"

definition initializeAdditionalControlMsg :: "send_entry \<Rightarrow> fd list" where
  "initializeAdditionalControlMsg e =
     (let files = msg_files (se_message e); fdsToSend = min kMaxFDs (length files - se_filesSent e) in
      map (\<lambda>n. files ! (se_filesSent e + n)) [0..<fdsToSend])"

text \<open>
  The loop that accounts for \<open>bytesSent\<close> bytes; \<open>None\<close> is an access behind the array.
\<close>

function advance_iov :: "nat \<Rightarrow> nat \<Rightarrow> iovec list \<Rightarrow> (nat \<times> iovec list) option" where
  "advance_iov bytesSent idx iov =
     (if bytesSent = 0 then Some (idx, iov)
      else if idx < length iov then
        (if bytesSent \<ge> length (iov_bytes (iov ! idx))
         then advance_iov (bytesSent - length (iov_bytes (iov ! idx))) (idx + 1) iov
         else Some (idx, iov[idx := \<lparr>iov_off = iov_off (iov ! idx) + bytesSent,
                                     iov_bytes = drop bytesSent (iov_bytes (iov ! idx))\<rparr>]))
      else None)"
  by pat_completeness auto

termination
  by (relation "measure (\<lambda>(_, idx, iov). length iov - idx)") auto

definition EAGAIN :: nat where
  "EAGAIN = 11"

definition isFirstSend :: "send_entry \<Rightarrow> bool" where
  "isFirstSend e = (se_iovIndex e = 0 \<and> iov_off (se_iov e ! 0) = 0)"

type_synonym 'k sendmsg = "byte list \<Rightarrow> fd list \<Rightarrow> 'k \<Rightarrow> (nat + nat) \<times> 'k"

definition trySendMessage :: "nat \<Rightarrow> 'k sendmsg \<Rightarrow> send_entry \<Rightarrow> 'k \<Rightarrow> send_entry \<times> 'k \<times> bool result" where
  "trySendMessage iovMax sk e k =
     (let files = msg_files (se_message e); body = se_iovIndex e < se_iovCount e in
      if \<not> body \<and> \<not> se_filesSent e < length files then (e, k, Inl CheckFailed)
      else
        (let fds = (if body then (if isFirstSend e then initializeFirstControlMsg e else [])
                    else initializeAdditionalControlMsg e);
             e1 = (if body then e else e\<lparr>se_iov := (se_iov e)[0 := \<lparr>iov_off = 0, iov_bytes = [0]\<rparr>]\<rparr>);
             offered = (if body
                        then concat (map iov_bytes (take (min (se_iovCount e - se_iovIndex e) iovMax)
                                                      (drop (se_iovIndex e) (se_iov e))))
                        else [0])
         in case sk offered fds k of
              (Inl errno, k') \<Rightarrow> (e1, k', if errno = EAGAIN then Inr False else Inl (SystemError errno))
            | (Inr bytesSent, k') \<Rightarrow>
                (case (if body then advance_iov bytesSent (se_iovIndex e1) (se_iov e1)
                       else Some (se_iovIndex e1, se_iov e1)) of
                   None \<Rightarrow> (e1, k', Inl OutOfRange)
                 | Some (idx, iov) \<Rightarrow>
                     (let e2 = e1\<lparr>se_iovIndex := idx, se_iov := iov, se_filesSent := se_filesSent e1 + length fds\<rparr> in
                      (e2, k', Inr (se_iovIndex e2 = se_iovCount e2 \<and> se_filesSent e2 = length files))))))"

section \<open>The stream of a message\<close>

text \<open>
  An item of the stream is a byte and the descriptors that travel with it.  The first
  descriptors go with the first byte of the header; further ones follow the body, in chunks
  that each go with a zero byte.
\<close>

type_synonym item = "byte \<times> fd list"

fun attach :: "fd list \<Rightarrow> byte list \<Rightarrow> item list" where
  "attach fds [] = []"
| "attach fds (b # bs) = (b, fds) # map (\<lambda>c. (c, [])) bs"

function fd_chunks :: "fd list \<Rightarrow> fd list list" where
  "fd_chunks fs = (if fs = [] then [] else take kMaxFDs fs # fd_chunks (drop kMaxFDs fs))"
  by pat_completeness auto

termination
  by (relation "measure length") (auto simp: kMaxFDs_def)

definition fd_items :: "fd list \<Rightarrow> item list" where
  "fd_items fs = map (\<lambda>c. (0, c)) (fd_chunks fs)"

definition message_header :: "us_message \<Rightarrow> byte list" where
  "message_header m = serializeHeader (of_nat (length (concat (msg_data m)))) (of_nat (length (msg_files m)))"

definition wire :: "us_message \<Rightarrow> item list" where
  "wire m = attach (take kMaxFDs (msg_files m)) (message_header m @ concat (msg_data m)) @
     fd_items (drop kMaxFDs (msg_files m))"

text \<open>What is used of \<open>sendmsg\<close>; \<open>out\<close> is the stream that has left the socket.\<close>

definition send_kernel :: "'k sendmsg \<Rightarrow> ('k \<Rightarrow> item list) \<Rightarrow> bool" where
  "send_kernel sk out =
     (\<forall>bs fds k. bs \<noteq> [] \<longrightarrow>
        (case sk bs fds k of
           (Inl errno, k') \<Rightarrow> out k' = out k
         | (Inr n, k') \<Rightarrow> 0 < n \<and> n \<le> length bs \<and> out k' = out k @ attach fds (take n bs)))"

text \<open>The part of the stream that an entry has still to send.\<close>

definition remaining :: "send_entry \<Rightarrow> item list" where
  "remaining e =
     (let files = msg_files (se_message e) in
      attach (if isFirstSend e then take kMaxFDs files else []) (concat (map iov_bytes (drop (se_iovIndex e) (se_iov e)))) @
      fd_items (drop (if isFirstSend e then kMaxFDs else se_filesSent e) files))"

definition entry_ok :: "send_entry \<Rightarrow> bool" where
  "entry_ok e =
     (length (se_iov e) = se_iovCount e \<and> 0 < se_iovCount e \<and> se_iovIndex e \<le> se_iovCount e \<and>
      (\<forall>v \<in> set (drop (se_iovIndex e) (se_iov e)). iov_bytes v \<noteq> []) \<and>
      se_filesSent e \<le> length (msg_files (se_message e)) \<and> (isFirstSend e \<longrightarrow> se_filesSent e = 0))"

declare advance_iov.simps [simp del] and fd_chunks.simps [simp del]

section \<open>Header round trip\<close>

lemma byte_step:
  "push_bit 8 (drop_bit (8 * Suc j) w) OR ucast (ucast (drop_bit (8 * j) w) :: byte) = drop_bit (8 * j) (w :: 'a::len word)"
  by (rule bit_word_eqI) (auto simp: bit_simps not_le dest: bit_imp_le_length)

lemma readBE_prefix:
  assumes "j \<le> n" and "LENGTH('a::len) \<le> 8 * n"
  shows "foldl (\<lambda>acc b. push_bit 8 acc OR ucast b) 0 (map (\<lambda>i. ucast (drop_bit (8 * i) w) :: byte) (rev [j..<n])) =
    drop_bit (8 * j) (w :: 'a word)"
  using assms
proof (induction "n - j" arbitrary: j)
  case 0
  then have "j = n" by simp
  moreover have "drop_bit (8 * n) w = 0"
    using 0 by (intro bit_word_eqI) (auto simp: bit_simps dest: bit_imp_le_length)
  ultimately show ?case by simp
next
  case (Suc m)
  then have j: "[j..<n] = j # [Suc j..<n]" by (simp add: upt_rec)
  have "foldl (\<lambda>acc b. push_bit 8 acc OR ucast b) 0 (map (\<lambda>i. ucast (drop_bit (8 * i) w) :: byte) (rev [Suc j..<n])) =
      drop_bit (8 * Suc j) w"
    using Suc by (intro Suc.hyps(1)) auto
  then show ?case using byte_step [of j w] by (simp add: j)
qed

lemma readBE_writeBE: "LENGTH('a::len) = 8 * n \<Longrightarrow> readBE (writeBE n w) = (w :: 'a word)"
  using readBE_prefix [of 0 n w] by (simp add: readBE_def writeBE_def)

lemma writeBE_length [simp]: "length (writeBE n w) = n"
  by (simp add: writeBE_def)

lemma serializeHeader_length [simp]: "length (serializeHeader d n) = kHeaderLength"
  by (simp add: serializeHeader_def kHeaderLength_def)

lemma deserialize_serialize:
  "deserializeHeader (serializeHeader d n) = \<lparr>protocolID = kProtocolID, dataSize = d, numFiles = n\<rparr>"
  by (simp add: deserializeHeader_def serializeHeader_def readBE_writeBE)

section \<open>Sending\<close>

lemma attach_append: "bs \<noteq> [] \<Longrightarrow> attach fds (bs @ cs) = attach fds bs @ attach [] cs"
  by (cases bs; cases cs) auto

lemma attach_split: "0 < n \<Longrightarrow> attach fds (take n bs) @ attach [] (drop n bs) = attach fds bs"
  using attach_append [of "take n bs" fds "drop n bs"] by (cases bs) auto

lemma attach_eq_Nil [simp]: "attach fds bs = [] \<longleftrightarrow> bs = []"
  by (cases bs) auto

lemma fd_items_Nil [simp]: "fd_items fs = [] \<longleftrightarrow> fs = []"
  by (simp add: fd_items_def fd_chunks.simps [of fs])

lemma fd_items_Cons: "fs \<noteq> [] \<Longrightarrow> fd_items fs = (0, take kMaxFDs fs) # fd_items (drop kMaxFDs fs)"
  by (simp add: fd_items_def fd_chunks.simps [of fs])

lemma files_slice:
  "n \<le> length files - i \<Longrightarrow> i \<le> length files \<Longrightarrow> map (\<lambda>j. files ! (i + j)) [0..<n] = take n (drop i files)"
  by (rule nth_equalityI) auto

lemma advance_iov_spec:
  assumes "\<forall>v \<in> set (drop idx iov). iov_bytes v \<noteq> []" and "n \<le> length (concat (map iov_bytes (drop idx iov)))"
    and "idx \<le> length iov"
  shows "\<exists>idx' iov'. advance_iov n idx iov = Some (idx', iov') \<and>
    concat (map iov_bytes (drop idx' iov')) = drop n (concat (map iov_bytes (drop idx iov))) \<and>
    length iov' = length iov \<and> idx \<le> idx' \<and> idx' \<le> length iov \<and> (\<forall>v \<in> set (drop idx' iov'). iov_bytes v \<noteq> []) \<and>
    (0 < n \<longrightarrow> 0 < idx' \<or> 0 < iov_off (iov' ! 0))"
  using assms
proof (induction n idx iov rule: advance_iov.induct)
  case (1 n idx iov)
  show ?case
  proof (cases "n = 0")
    case True
    with 1(2,4) show ?thesis by (simp add: advance_iov.simps [of 0])
  next
    case n: False
    then have idx: "idx < length iov" using 1(3) by (cases "idx < length iov") auto
    let ?v = "iov ! idx"
    have d: "drop idx iov = ?v # drop (idx + 1) iov" using idx by (simp add: Cons_nth_drop_Suc)
    show ?thesis
    proof (cases "length (iov_bytes ?v) \<le> n")
      case True
      let ?n = "n - length (iov_bytes ?v)"
      have "\<exists>idx' iov'. advance_iov ?n (idx + 1) iov = Some (idx', iov') \<and>
          concat (map iov_bytes (drop idx' iov')) = drop ?n (concat (map iov_bytes (drop (idx + 1) iov))) \<and>
          length iov' = length iov \<and> idx + 1 \<le> idx' \<and> idx' \<le> length iov \<and> (\<forall>v \<in> set (drop idx' iov'). iov_bytes v \<noteq> []) \<and>
          (0 < ?n \<longrightarrow> 0 < idx' \<or> 0 < iov_off (iov' ! 0))"
        using 1(1) [OF n idx True] 1(2,3) True idx by (simp add: d)
      then show ?thesis using n idx True by (auto simp: advance_iov.simps [of n] d)
    next
      case False
      let ?w = "\<lparr>iov_off = iov_off ?v + n, iov_bytes = drop n (iov_bytes ?v)\<rparr>"
      have "advance_iov n idx iov = Some (idx, iov[idx := ?w])"
        using n idx False by (simp add: advance_iov.simps [of n])
      moreover have "drop idx (iov[idx := ?w]) = ?w # drop (idx + 1) iov"
        using idx by (simp add: d drop_update_swap)
      moreover have "0 < idx \<or> 0 < iov_off (iov[idx := ?w] ! 0)" using n idx by (cases idx) auto
      ultimately show ?thesis using 1(2) idx False by (auto simp: d)
    qed
  qed
qed

lemma entry_ok_SendQueueEntry:
  assumes "createSendQueueEntry True m cb = Some e"
  shows "entry_ok e" and "remaining e = wire m" and "se_message e = m" and "se_callback e = cb"
proof -
  have c: "concat (enumerateIovecs xs) = concat xs" "sum_list (map length (enumerateIovecs xs)) = length (concat xs)"
    for xs :: "byte list list"
    by (induction xs) (auto simp: enumerateIovecs_def)
  have h: "serializeHeader d n \<noteq> []" for d n
    using serializeHeader_length [of d n] by (auto simp: kHeaderLength_def simp del: serializeHeader_length)
  have e: "e = SendQueueEntry m cb (1 + length (enumerateIovecs (msg_data m)))"
    using assms by (simp add: createSendQueueEntry_def Let_def)
  show "entry_ok e"
    using h by (auto simp: e SendQueueEntry_def Let_def entry_ok_def enumerateIovecs_def)
  show "remaining e = wire m"
    by (simp add: e SendQueueEntry_def Let_def remaining_def wire_def isFirstSend_def message_header_def comp_def c)
  show "se_message e = m" and "se_callback e = cb" by (simp_all add: e SendQueueEntry_def Let_def)
qed

lemma entry_done_iff:
  assumes "entry_ok e"
  shows "remaining e = [] \<longleftrightarrow> se_iovIndex e = se_iovCount e \<and> se_filesSent e = length (msg_files (se_message e))"
proof -
  have "concat (map iov_bytes (drop (se_iovIndex e) (se_iov e))) = [] \<longleftrightarrow> se_iovIndex e = se_iovCount e"
  proof (cases "se_iovIndex e = se_iovCount e")
    case False
    with assms have "drop (se_iovIndex e) (se_iov e) \<noteq> []" by (simp add: entry_ok_def)
    then obtain v vs where "drop (se_iovIndex e) (se_iov e) = v # vs" by (cases "drop (se_iovIndex e) (se_iov e)") auto
    with assms False show ?thesis by (auto simp: entry_ok_def)
  qed (use assms in \<open>simp add: entry_ok_def\<close>)
  moreover have "se_iovIndex e = se_iovCount e \<Longrightarrow> \<not> isFirstSend e" using assms by (auto simp: entry_ok_def isFirstSend_def)
  ultimately show ?thesis using assms by (auto simp: remaining_def Let_def entry_ok_def)
qed

text \<open>
  A call of \<open>trySendMessage\<close> on an entry that is not done: what it sends is the next part of
  the stream of the entry, and it reports whether that was the last.
\<close>

definition sent_ok :: "('k \<Rightarrow> item list) \<Rightarrow> send_entry \<Rightarrow> 'k \<Rightarrow> send_entry \<Rightarrow> 'k \<Rightarrow> bool result \<Rightarrow> bool" where
  "sent_ok out e k e' k' r =
     (entry_ok e' \<and> out k' @ remaining e' = out k @ remaining e \<and> se_message e' = se_message e \<and>
      se_callback e' = se_callback e \<and>
      (r = Inr True \<longrightarrow> remaining e' = []) \<and> (r \<noteq> Inr True \<longrightarrow> remaining e' \<noteq> []) \<and>
      r \<noteq> Inl CheckFailed \<and> r \<noteq> Inl OutOfRange)"

lemma trySend_body:
  assumes ok: "entry_ok e" and k: "send_kernel sk out" and m: "0 < iovMax" and b: "se_iovIndex e < se_iovCount e"
    and t: "trySendMessage iovMax sk e k = (e', k', r)"
  shows "sent_ok out e k e' k' r"
proof -
  let ?files = "msg_files (se_message e)"
  let ?vs = "drop (se_iovIndex e) (se_iov e)"
  define offered where "offered = concat (map iov_bytes (take (min (se_iovCount e - se_iovIndex e) iovMax) ?vs))"
  define fds where "fds = (if isFirstSend e then initializeFirstControlMsg e else [])"
  have vs: "\<forall>v \<in> set ?vs. iov_bytes v \<noteq> []" and idx: "se_iovIndex e \<le> length (se_iov e)"
    using ok by (auto simp: entry_ok_def)
  have all: "concat (map iov_bytes ?vs) = offered @ concat (map iov_bytes (drop (min (se_iovCount e - se_iovIndex e) iovMax) ?vs))"
    unfolding offered_def by (metis append_take_drop_id concat_append map_append)
  have "?vs \<noteq> []" using ok b by (simp add: entry_ok_def)
  then have ne: "offered \<noteq> []" using vs m b unfolding offered_def
    by (cases ?vs; cases "min (se_iovCount e - se_iovIndex e) iovMax") auto
  have fds: "fds = (if isFirstSend e then take kMaxFDs ?files else [])"
    by (auto simp: fds_def initializeFirstControlMsg_def min_def)
  have notdone: "remaining e \<noteq> []" using entry_done_iff [OF ok] b by simp
  show ?thesis
  proof (cases "sk offered fds k")
    case (Pair q k2)
    show ?thesis
    proof (cases q)
      case (Inl errno)
      have "out k2 = out k" using k ne Pair Inl unfolding send_kernel_def by (auto dest!: spec [of _ offered] spec [of _ fds] spec [of _ k])
      moreover have "e' = e \<and> k' = k2 \<and> r = (if errno = EAGAIN then Inr False else Inl (SystemError errno))"
        using t b Pair Inl by (simp add: trySendMessage_def Let_def offered_def fds_def split: if_splits)
      ultimately show ?thesis using ok notdone by (simp add: sent_ok_def)
    next
      case (Inr n)
      have n: "0 < n" "n \<le> length offered" "out k2 = out k @ attach fds (take n offered)"
        using k ne Pair Inr unfolding send_kernel_def by (auto dest!: spec [of _ offered] spec [of _ fds] spec [of _ k])
      have "n \<le> length (concat (map iov_bytes ?vs))" using n(2) unfolding all by simp
      from advance_iov_spec [OF vs this idx] obtain i v where
        adv: "advance_iov n (se_iovIndex e) (se_iov e) = Some (i, v)"
        and rest: "concat (map iov_bytes (drop i v)) = drop n (concat (map iov_bytes ?vs))"
        and iv: "length v = length (se_iov e)" "i \<le> length (se_iov e)" "\<forall>x \<in> set (drop i v). iov_bytes x \<noteq> []"
          "0 < i \<or> 0 < iov_off (v ! 0)"
        using n(1) by blast
      define e2 where "e2 = e\<lparr>se_iovIndex := i, se_iov := v, se_filesSent := se_filesSent e + length fds\<rparr>"
      have e2: "e' = e2" "k' = k2" "r = Inr (se_iovIndex e2 = se_iovCount e2 \<and> se_filesSent e2 = length ?files)"
        using t b Pair Inr adv by (auto simp: trySendMessage_def Let_def offered_def fds_def e2_def)
      have nf: "\<not> isFirstSend e2" using iv(4) by (simp add: isFirstSend_def e2_def)
      have ok2: "entry_ok e2"
        using ok iv nf by (auto simp: entry_ok_def fds e2_def)
      have "drop (se_filesSent e2) ?files = drop (if isFirstSend e then kMaxFDs else se_filesSent e) ?files"
        using ok by (auto simp: e2_def fds entry_ok_def min_def)
      then have "remaining e2 = attach [] (drop n (concat (map iov_bytes ?vs))) @
          fd_items (drop (if isFirstSend e then kMaxFDs else se_filesSent e) ?files)"
        using nf rest by (simp add: remaining_def Let_def) (simp add: e2_def)
      moreover have "take n offered = take n (concat (map iov_bytes ?vs))" using n(2) unfolding all by simp
      ultimately have "out k2 @ remaining e2 = out k @ remaining e"
        using n attach_split [OF n(1), of fds "concat (map iov_bytes ?vs)"]
        by (simp add: remaining_def Let_def fds)
      then show ?thesis using ok2 entry_done_iff [OF ok2] e2 by (simp add: sent_ok_def) (simp add: e2_def)
    qed
  qed
qed

lemma trySend_files:
  assumes ok: "entry_ok e" and k: "send_kernel sk out" and b: "\<not> se_iovIndex e < se_iovCount e"
    and f: "remaining e \<noteq> []" and t: "trySendMessage iovMax sk e k = (e', k', r)"
  shows "sent_ok out e k e' k' r"
proof -
  let ?files = "msg_files (se_message e)" and ?s = "se_filesSent e"
  let ?fds = "take kMaxFDs (drop ?s ?files)"
  have i: "se_iovIndex e = se_iovCount e" "0 < se_iovIndex e" "?s \<le> length ?files" "length (se_iov e) = se_iovCount e"
    using ok b by (auto simp: entry_ok_def)
  have s: "?s < length ?files" using entry_done_iff [OF ok] f i by auto
  have fds: "initializeAdditionalControlMsg e = ?fds"
    using files_slice [of "min kMaxFDs (length ?files - ?s)" ?files ?s] i(3)
    by (simp add: initializeAdditionalControlMsg_def Let_def take_drop min_def)
  define e1 where "e1 = e\<lparr>se_iov := (se_iov e)[0 := \<lparr>iov_off = 0, iov_bytes = [0]\<rparr>]\<rparr>"
  have rem: "remaining e = fd_items (drop ?s ?files)" "remaining e1 = fd_items (drop ?s ?files)"
    using i by (simp_all add: remaining_def Let_def isFirstSend_def e1_def)
  have ok1: "entry_ok e1" using ok i by (simp add: entry_ok_def e1_def isFirstSend_def)
  show ?thesis
  proof (cases "sk [0] ?fds k")
    case (Pair q k2)
    show ?thesis
    proof (cases q)
      case (Inl errno)
      have "out k2 = out k" using k Pair Inl unfolding send_kernel_def by (auto dest!: spec [of _ "[0]"] spec [of _ ?fds] spec [of _ k])
      moreover have "e' = e1 \<and> k' = k2 \<and> r = (if errno = EAGAIN then Inr False else Inl (SystemError errno))"
        using t b s Pair Inl by (simp add: trySendMessage_def Let_def fds e1_def split: if_splits)
      ultimately show ?thesis using ok1 rem f by (simp add: sent_ok_def) (simp add: e1_def)
    next
      case (Inr n)
      have out: "out k2 = out k @ [(0, ?fds)]"
        using k Pair Inr unfolding send_kernel_def
        by (auto dest!: spec [of _ "[0]"] spec [of _ ?fds] spec [of _ k] simp: le_Suc_eq)
      define e2 where "e2 = e1\<lparr>se_filesSent := ?s + length ?fds\<rparr>"
      have e2: "e' = e2" "k' = k2" "r = Inr (se_iovIndex e2 = se_iovCount e2 \<and> se_filesSent e2 = length ?files)"
        using t b s Pair Inr by (auto simp: trySendMessage_def Let_def fds e2_def e1_def)
      have ok2: "entry_ok e2" using ok1 i by (auto simp: entry_ok_def e2_def e1_def isFirstSend_def)
      have "remaining e2 = fd_items (drop (?s + length ?fds) ?files)"
        using i by (simp add: remaining_def Let_def isFirstSend_def e2_def e1_def)
      also have "drop (?s + length ?fds) ?files = drop kMaxFDs (drop ?s ?files)"
        by (simp add: min_def add.commute)
      finally have "out k2 @ remaining e2 = out k @ remaining e"
        using fd_items_Cons [of "drop ?s ?files"] s by (simp add: out rem(1))
      then show ?thesis using ok2 entry_done_iff [OF ok2] e2 by (simp add: sent_ok_def) (simp add: e2_def e1_def)
    qed
  qed
qed

lemma trySendMessage_spec:
  assumes "entry_ok e" and "send_kernel sk out" and "0 < iovMax" and "remaining e \<noteq> []"
    and "trySendMessage iovMax sk e k = (e', k', r)"
  shows "sent_ok out e k e' k' r"
proof (cases "se_iovIndex e < se_iovCount e")
  case True
  show ?thesis by (rule trySend_body [OF assms(1-3) True assms(5)])
next
  case False
  show ?thesis by (rule trySend_files [OF assms(1,2) False assms(4,5)])
qed

section \<open>Properties\<close>

text \<open>
  The header survives the wire: \<open>deserializeHeader\<close> reads back what \<open>serializeHeader\<close>
  wrote, which has the fixed length; the header of a message announces its sizes modulo
  \<open>2\<^sup>3\<^sup>2\<close>, the width of the fields.
\<close>

theorem socket_header_roundtrip:
  "deserializeHeader (serializeHeader d n) = \<lparr>protocolID = kProtocolID, dataSize = d, numFiles = n\<rparr> \<and>
   length (serializeHeader d n) = kHeaderLength \<and>
   unat (dataSize (deserializeHeader (message_header m))) = length (concat (msg_data m)) mod 2 ^ 32 \<and>
   unat (numFiles (deserializeHeader (message_header m))) = length (msg_files m) mod 2 ^ 32"
  by (simp add: deserialize_serialize message_header_def unat_of_nat)

text \<open>
  One call of \<open>trySendMessage\<close> on an entry that is not done.  The bytes and descriptors
  that the kernel took are the next part of the stream of the message, and what the entry
  has left is the rest; the call reports \<open>true\<close> exactly when nothing is left.  Neither the
  check on the number of files nor an access behind the array of buffers can fail.
\<close>

theorem trySendMessage_stream:
  assumes "entry_ok e" and "send_kernel sk out" and "0 < iovMax" and "remaining e \<noteq> []"
    and "trySendMessage iovMax sk e k = (e', k', r)"
  shows "entry_ok e' \<and> out k' @ remaining e' = out k @ remaining e \<and> (r = Inr True \<longleftrightarrow> remaining e' = []) \<and>
    r \<noteq> Inl CheckFailed \<and> r \<noteq> Inl OutOfRange"
  using trySendMessage_spec [OF assms] by (auto simp: sent_ok_def)

text \<open>A kernel that takes at most 5 bytes per call and keeps the stream.\<close>

definition sample_send :: "item list sendmsg" where
  "sample_send bs fds k = (Inr (min 5 (length bs)), k @ attach fds (take 5 bs))"

lemma sample_send_law: "send_kernel sample_send id"
  by (auto simp: send_kernel_def sample_send_def min_def)

definition sample_entry :: send_entry where
  "sample_entry = SendQueueEntry \<lparr>msg_data = [[1, 2], [], [3]], msg_files = [7, 8]\<rparr> (Some 5) 3"

lemma sample_entry_ok: "entry_ok sample_entry" "remaining sample_entry \<noteq> []"
proof -
  have e: "createSendQueueEntry True \<lparr>msg_data = [[1, 2], [], [3]], msg_files = [7, 8]\<rparr> (Some 5) = Some sample_entry"
    by (simp add: createSendQueueEntry_def sample_entry_def enumerateIovecs_def numeral_3_eq_3)
  show "entry_ok sample_entry" by (rule entry_ok_SendQueueEntry(1) [OF e])
  show "remaining sample_entry \<noteq> []" by (simp add: entry_ok_SendQueueEntry(2) [OF e] wire_def)
qed

theorem trySendMessage_stream_witness:
  "\<exists>e' k' r. trySendMessage 1024 sample_send sample_entry [] = (e', k', r) \<and> k' @ remaining e' = remaining sample_entry"
proof -
  obtain e' k' r where t: "trySendMessage 1024 sample_send sample_entry [] = (e', k', r)" by (metis prod_cases3)
  from trySendMessage_stream [OF sample_entry_ok(1) sample_send_law _ sample_entry_ok(2) t] t show ?thesis by auto
qed

end
