(* ===== verification/Unix_Socket.thy ===== *)
theory Unix_Socket
  imports Socket_Wire Transition_System "HOL-Library.Multiset"
begin

text \<open>
  The class \<open>UnixSocket\<close> of \<open>UnixSocket.h\<close> and \<open>UnixSocket.cpp\<close>: the send queue, the receive
  state machine, closing, errors, and connecting.

  The socket is a record.  Callbacks are numbers and their invocations are appended to a log;
  they do not call back into the socket.  The linked send queue with its tail pointer is a
  list.  The kernel is an argument: \<open>sk\<close> for \<open>sendmsg\<close> as in the theory on the wire format,
  \<open>rk\<close> for \<open>recvmsg\<close>, which takes the size of the buffer and the kernel's state.  The event
  base is the set of events the handler is registered for and whether the timeout is
  scheduled.  A call through a null callback pointer is \<open>CheckFailed\<close>.
\<close>

section \<open>State\<close>

definition READ :: "16 word" where
  "READ = 2"

definition WRITE :: "16 word" where
  "WRITE = 4"

definition ENOTCONN :: nat where
  "ENOTCONN = 107"

definition ECONNABORTED :: nat where
  "ECONNABORTED = 103"

definition ETIMEDOUT :: nat where
  "ETIMEDOUT = 110"

definition MSG_CTRUNC :: nat where
  "MSG_CTRUNC = 8"

definition SOL_SOCKET :: nat where
  "SOL_SOCKET = 1"

definition SCM_RIGHTS :: nat where
  "SCM_RIGHTS = 1"

datatype us_event =
    SendSuccess nat
  | SendError nat exn
  | MessageReceived nat us_message
  | EofReceived nat
  | SocketClosed nat
  | ReceiveError nat exn

record us_state =
  us_eventBase :: "nat option"
  us_open :: bool
  us_closeStarted :: bool
  us_events :: "16 word"
  us_handler :: "16 word"
  us_timeout :: bool
  us_maxDataLength :: "32 word"
  us_maxFiles :: "32 word"
  us_sendTimeout :: nat
  us_receiveCallback :: "nat option"
  us_hdrBuf :: "byte list"
  us_hbr :: nat
  us_recvHeader :: us_header
  us_recvData :: "byte list"
  us_recvFiles :: "fd list"
  us_sendQueue :: "send_entry list"
  us_log :: "us_event list"

definition log_event :: "us_event \<Rightarrow> us_state \<Rightarrow> us_state" where
  "log_event ev s = s\<lparr>us_log := us_log s @ [ev]\<rparr>"

text \<open>The constructor fails if the descriptor cannot be made non-blocking.\<close>

definition UnixSocket :: "nat option \<Rightarrow> bool \<Rightarrow> us_state result" where
  "UnixSocket eventBase nonblock =
     (if nonblock then
        Inr \<lparr>us_eventBase = eventBase, us_open = True, us_closeStarted = False, us_events = 0, us_handler = 0, us_timeout = False,
             us_maxDataLength = 1024 * 1024 * 1024, us_maxFiles = 100000, us_sendTimeout = 250,
             us_receiveCallback = None, us_hdrBuf = replicate kHeaderLength 0, us_hbr = 0,
             us_recvHeader = \<lparr>protocolID = 0, dataSize = 0, numFiles = 0\<rparr>, us_recvData = [], us_recvFiles = [],
             us_sendQueue = [], us_log = []\<rparr>
      else Inl RuntimeError)"

definition attachEventBase :: "nat \<Rightarrow> us_state \<Rightarrow> us_state result" where
  "attachEventBase eventBase s =
     (if us_eventBase s \<noteq> None then Inl CheckFailed else Inr (s\<lparr>us_eventBase := Some eventBase\<rparr>))"

definition detachEventBase :: "us_state \<Rightarrow> us_state result" where
  "detachEventBase s = (if us_eventBase s = None then Inl CheckFailed else Inr (s\<lparr>us_eventBase := None\<rparr>))"

definition setMaxRecvDataLength where
  "setMaxRecvDataLength bytes s = s\<lparr>us_maxDataLength := bytes\<rparr>"

definition setMaxRecvFiles where
  "setMaxRecvFiles max' s = s\<lparr>us_maxFiles := max'\<rparr>"

definition setSendTimeout where
  "setSendTimeout timeout s = s\<lparr>us_sendTimeout := timeout\<rparr>"

section \<open>Event registration\<close>

definition PERSIST :: "16 word" where
  "PERSIST = 16"

definition updateIORegistration :: "16 word \<Rightarrow> us_state \<Rightarrow> us_state" where
  "updateIORegistration newEvents s =
     (if us_events s = newEvents then s
      else s\<lparr>us_handler := (if newEvents \<noteq> 0 then newEvents OR PERSIST else 0), us_events := newEvents\<rparr>)"

definition registerForReads where
  "registerForReads s = updateIORegistration (us_events s OR READ) s"

definition unregisterForReads where
  "unregisterForReads s = updateIORegistration (us_events s AND NOT READ) s"

definition registerForWrites where
  "registerForWrites s = updateIORegistration (us_events s OR WRITE) s"

definition unregisterForWrites where
  "unregisterForWrites s = updateIORegistration (us_events s AND NOT WRITE) s"

definition unregisterIO :: "us_state \<Rightarrow> us_state" where
  "unregisterIO s = s\<lparr>us_events := 0, us_handler := 0\<rparr>"

section \<open>Closing and errors\<close>

fun fail_entries :: "exn \<Rightarrow> send_entry list \<Rightarrow> us_event list" where
  "fail_entries ew [] = []"
| "fail_entries ew (e # es) =
     (case se_callback e of Some cb \<Rightarrow> [SendError cb ew] | None \<Rightarrow> []) @ fail_entries ew es"

definition failAllSends :: "exn \<Rightarrow> us_state \<Rightarrow> us_state" where
  "failAllSends ew s = s\<lparr>us_sendQueue := [], us_log := us_log s @ fail_entries ew (us_sendQueue s)\<rparr>"

definition takeReceiveCallback :: "(nat \<Rightarrow> us_event) \<Rightarrow> us_state \<Rightarrow> us_state" where
  "takeReceiveCallback ev s =
     (case us_receiveCallback s of
        Some cb \<Rightarrow> log_event (ev cb) (s\<lparr>us_receiveCallback := None\<rparr>)
      | None \<Rightarrow> s)"

definition closeNow :: "us_state \<Rightarrow> us_state" where
  "closeNow s =
     (if \<not> us_open s then s
      else
        (let s = s\<lparr>us_closeStarted := True\<rparr>;
             s = (unregisterIO s)\<lparr>us_timeout := False\<rparr>;
             s = takeReceiveCallback SocketClosed s;
             s = (if us_sendQueue s \<noteq> [] then failAllSends (SystemError ENOTCONN) s else s)
         in s\<lparr>us_open := False\<rparr>))"

definition destroy :: "us_state \<Rightarrow> us_state" where
  "destroy s = closeNow s"

text \<open>\<open>shut\<close> is the \<open>errno\<close> of a failed \<open>shutdown\<close>.\<close>

definition close_socket :: "nat option \<Rightarrow> us_state \<Rightarrow> us_state \<times> unit result" where
  "close_socket shut s =
     (if us_closeStarted s then (s, Inr ())
      else if us_sendQueue s = [] then (closeNow s, Inr ())
      else
        (let s = s\<lparr>us_closeStarted := True\<rparr>;
             s = (if us_receiveCallback s \<noteq> None then takeReceiveCallback SocketClosed (unregisterForReads s) else s)
         in case shut of None \<Rightarrow> (s, Inr ()) | Some errno \<Rightarrow> (s, Inl (SystemError errno))))"

definition socketError :: "exn \<Rightarrow> us_state \<Rightarrow> us_state" where
  "socketError ew s =
     (if \<not> us_open s then s
      else
        (let s = s\<lparr>us_closeStarted := True\<rparr>;
             s = (unregisterIO s)\<lparr>us_timeout := False, us_open := False\<rparr>;
             s = takeReceiveCallback (\<lambda>cb. ReceiveError cb ew) s
         in failAllSends ew s))"

section \<open>Sending\<close>

fun trySend_loop :: "nat \<Rightarrow> 'k sendmsg \<Rightarrow> nat \<Rightarrow> us_state \<Rightarrow> 'k \<Rightarrow> us_state \<times> 'k \<times> unit result" where
  "trySend_loop iovMax sk 0 s k = (s, k, Inr ())"
| "trySend_loop iovMax sk (Suc n) s k =
     (case us_sendQueue s of
        [] \<Rightarrow> (s, k, Inr ())
      | e # es \<Rightarrow>
          (case trySendMessage iovMax sk e k of
             (e', k', Inl ew) \<Rightarrow> (s\<lparr>us_sendQueue := e' # es\<rparr>, k', Inl ew)
           | (e', k', Inr False) \<Rightarrow> (s\<lparr>us_sendQueue := e' # es\<rparr>, k', Inr ())
           | (e', k', Inr True) \<Rightarrow>
               (let s = s\<lparr>us_sendQueue := es\<rparr>;
                    s = (case se_callback e' of Some cb \<Rightarrow> log_event (SendSuccess cb) s | None \<Rightarrow> s)
                in trySend_loop iovMax sk n s k')))"

definition MAX_MSGS_AT_ONCE :: nat where
  "MAX_MSGS_AT_ONCE = 10"

definition trySend :: "nat \<Rightarrow> 'k sendmsg \<Rightarrow> us_state \<Rightarrow> 'k \<Rightarrow> us_state \<times> 'k \<times> unit result" where
  "trySend iovMax sk s k =
     (case trySend_loop iovMax sk MAX_MSGS_AT_ONCE s k of
        (s, k, Inl ew) \<Rightarrow> (s, k, Inl ew)
      | (s, k, Inr _) \<Rightarrow>
          if us_sendQueue s = [] then
            (let s = unregisterForWrites (s\<lparr>us_timeout := False\<rparr>) in
             (if us_closeStarted s then closeNow s else s, k, Inr ()))
          else (registerForWrites (s\<lparr>us_timeout := True\<rparr>), k, Inr ()))"

text \<open>\<open>alloc\<close> tells whether the allocation of the queue entry succeeds.\<close>

definition send_message ::
  "nat \<Rightarrow> 'k sendmsg \<Rightarrow> bool \<Rightarrow> us_message \<Rightarrow> nat option \<Rightarrow> us_state \<Rightarrow> 'k \<Rightarrow> us_state \<times> 'k \<times> unit result" where
  "send_message iovMax sk alloc msg cb s k =
     (if us_closeStarted s then
        (case cb of None \<Rightarrow> (s, k, Inl CheckFailed) | Some c \<Rightarrow> (log_event (SendError c RuntimeError) s, k, Inr ()))
      else
        (case createSendQueueEntry alloc msg cb of
           None \<Rightarrow>
             (case cb of None \<Rightarrow> (s, k, Inl CheckFailed) | Some c \<Rightarrow> (log_event (SendError c RuntimeError) s, k, Inr ()))
         | Some e \<Rightarrow>
             (let trySendNow = (us_sendQueue s = []);
                  s = s\<lparr>us_sendQueue := us_sendQueue s @ [e]\<rparr>
              in if trySendNow then
                   (case trySend iovMax sk s k of
                      (s, k, Inl ew) \<Rightarrow> (socketError ew s, k, Inr ())
                    | (s, k, Inr _) \<Rightarrow> (s, k, Inr ()))
                 else (s, k, Inr ()))))"

section \<open>Receiving\<close>

record cmsg =
  cmsg_level :: nat
  cmsg_type :: nat
  cmsg_dataLength :: nat
  cmsg_fds :: "fd list"

text \<open>
  The outcome of \<open>recvmsg\<close>: an \<open>errno\<close>, or the bytes, the control messages, the flags and
  the value that \<open>errno\<close> happens to have.
\<close>

datatype recv_result = RecvError nat | Received "byte list" "cmsg list" nat nat

type_synonym 'k recvmsg = "nat \<Rightarrow> 'k \<Rightarrow> recv_result \<times> 'k"

definition setReceiveCallback :: "nat \<Rightarrow> us_state \<Rightarrow> us_state result" where
  "setReceiveCallback cb s =
     (if us_receiveCallback s \<noteq> None then Inl RuntimeError
      else if us_closeStarted s then Inl RuntimeError
      else Inr (registerForReads (s\<lparr>us_receiveCallback := Some cb\<rparr>)))"

definition clearReceiveCallback :: "us_state \<Rightarrow> us_state result" where
  "clearReceiveCallback s =
     (if us_receiveCallback s = None then Inl RuntimeError
      else Inr (unregisterForReads (s\<lparr>us_receiveCallback := None\<rparr>)))"

definition processReceivedFiles :: "cmsg \<Rightarrow> us_state \<Rightarrow> us_state \<times> unit result" where
  "processReceivedFiles c s =
     (if cmsg_dataLength c < 4 then (s, Inl (SystemError ECONNABORTED))
      else (s\<lparr>us_recvFiles := us_recvFiles s @ take (cmsg_dataLength c div 4) (cmsg_fds c)\<rparr>, Inr ()))"

fun processReceivedControlData :: "cmsg list \<Rightarrow> us_state \<Rightarrow> us_state \<times> unit result" where
  "processReceivedControlData [] s = (s, Inr ())"
| "processReceivedControlData (c # cs) s =
     (if cmsg_level c \<noteq> SOL_SOCKET then processReceivedControlData cs s
      else if cmsg_type c = SCM_RIGHTS then
        (case processReceivedFiles c s of
           (s', Inl ew) \<Rightarrow> (s', Inl ew)
         | (s', Inr _) \<Rightarrow> processReceivedControlData cs s')
      else processReceivedControlData cs s)"

text \<open>\<open>None\<close> is the return value \<open>-1\<close>, which stands for \<open>EAGAIN\<close>.\<close>

definition callRecvMsg :: "'k recvmsg \<Rightarrow> nat \<Rightarrow> us_state \<Rightarrow> 'k \<Rightarrow> us_state \<times> 'k \<times> byte list option result" where
  "callRecvMsg rk buf s k =
     (case rk buf k of
        (RecvError errno, k) \<Rightarrow> (s, k, if errno = EAGAIN then Inr None else Inl (SystemError errno))
      | (Received bs cs flags errno, k) \<Rightarrow>
          if flags = MSG_CTRUNC then (s, k, Inl (SystemError errno))
          else
            (case processReceivedControlData cs s of
               (s, Inl ew) \<Rightarrow> (s, k, Inl ew)
             | (s, Inr _) \<Rightarrow> (s, k, Inr (Some bs))))"

definition tryReceiveHeader :: "'k recvmsg \<Rightarrow> us_state \<Rightarrow> 'k \<Rightarrow> us_state \<times> 'k \<times> bool result" where
  "tryReceiveHeader rk s k =
     (case callRecvMsg rk (kHeaderLength - us_hbr s) s k of
        (s, k, Inl ew) \<Rightarrow> (s, k, Inl ew)
      | (s, k, Inr None) \<Rightarrow> (s, k, Inr False)
      | (s, k, Inr (Some bs)) \<Rightarrow>
          if length bs = 0 then
            (if us_hbr s = 0 then
               (case us_receiveCallback s of
                  Some cb \<Rightarrow> (log_event (EofReceived cb) s, k, Inr False)
                | None \<Rightarrow> (s, k, Inl CheckFailed))
             else (s, k, Inl (SystemError ECONNABORTED)))
          else
            (let h = us_hbr s + length bs;
                 s = s\<lparr>us_hdrBuf := take (us_hbr s) (us_hdrBuf s) @ bs @ drop h (us_hdrBuf s), us_hbr := h\<rparr>
             in (s, k, Inr (h = kHeaderLength))))"

definition tryReceiveData :: "'k recvmsg \<Rightarrow> us_state \<Rightarrow> 'k \<Rightarrow> us_state \<times> 'k \<times> bool result" where
  "tryReceiveData rk s k =
     (let dataToRead = unat (dataSize (us_recvHeader s)) - length (us_recvData s) in
      case callRecvMsg rk dataToRead s k of
        (s, k, Inl ew) \<Rightarrow> (s, k, Inl ew)
      | (s, k, Inr None) \<Rightarrow> (s, k, Inr False)
      | (s, k, Inr (Some bs)) \<Rightarrow>
          if length bs = 0 then (s, k, Inl (SystemError ECONNABORTED))
          else (s\<lparr>us_recvData := us_recvData s @ bs\<rparr>, k, Inr (length bs = dataToRead)))"

definition tryReceiveFiles :: "'k recvmsg \<Rightarrow> us_state \<Rightarrow> 'k \<Rightarrow> us_state \<times> 'k \<times> bool result" where
  "tryReceiveFiles rk s k =
     (case callRecvMsg rk 1 s k of
        (s, k, Inl ew) \<Rightarrow> (s, k, Inl ew)
      | (s, k, Inr None) \<Rightarrow> (s, k, Inr False)
      | (s, k, Inr (Some bs)) \<Rightarrow>
          if length bs = 0 then (s, k, Inl (SystemError ECONNABORTED))
          else if length (us_recvFiles s) > unat (numFiles (us_recvHeader s)) then (s, k, Inl (SystemError ECONNABORTED))
          else (s, k, Inr (length (us_recvFiles s) = unat (numFiles (us_recvHeader s)))))"

text \<open>The check of a header that has been received.\<close>

definition checkHeader :: "us_state \<Rightarrow> us_state \<times> unit result" where
  "checkHeader s =
     (let h = deserializeHeader (us_hdrBuf s); s = s\<lparr>us_recvHeader := h\<rparr> in
      if protocolID h \<noteq> kProtocolID then (s, Inl (SystemError ECONNABORTED))
      else if dataSize h > us_maxDataLength s then (s, Inl (SystemError ECONNABORTED))
      else if numFiles h > us_maxFiles s then (s, Inl (SystemError ECONNABORTED))
      else (if dataSize h > 0 then s\<lparr>us_recvData := []\<rparr> else s, Inr ()))"

definition receive_header :: "'k recvmsg \<Rightarrow> us_state \<Rightarrow> 'k \<Rightarrow> us_state \<times> 'k \<times> bool result" where
  "receive_header rk s k =
     (if us_hbr s < kHeaderLength then
        (case tryReceiveHeader rk s k of
           (s, k, Inl ew) \<Rightarrow> (s, k, Inl ew)
         | (s, k, Inr False) \<Rightarrow> (s, k, Inr False)
         | (s, k, Inr True) \<Rightarrow> (case checkHeader s of (s, Inl ew) \<Rightarrow> (s, k, Inl ew) | (s, Inr _) \<Rightarrow> (s, k, Inr True)))
      else (s, k, Inr True))"

definition receive_data :: "'k recvmsg \<Rightarrow> us_state \<Rightarrow> 'k \<Rightarrow> us_state \<times> 'k \<times> bool result" where
  "receive_data rk s k =
     (if length (us_recvData s) < unat (dataSize (us_recvHeader s)) then tryReceiveData rk s k else (s, k, Inr True))"

definition receive_files :: "'k recvmsg \<Rightarrow> us_state \<Rightarrow> 'k \<Rightarrow> us_state \<times> 'k \<times> bool result" where
  "receive_files rk s k =
     (if length (us_recvFiles s) < unat (numFiles (us_recvHeader s)) then tryReceiveFiles rk s k else (s, k, Inr True))"

definition tryReceiveOne :: "'k recvmsg \<Rightarrow> us_state \<Rightarrow> 'k \<Rightarrow> us_state \<times> 'k \<times> bool result" where
  "tryReceiveOne rk s k =
     (case receive_header rk s k of
        (s, k, Inr True) \<Rightarrow>
          (case receive_data rk s k of
             (s, k, Inr True) \<Rightarrow> receive_files rk s k
           | other \<Rightarrow> other)
      | other \<Rightarrow> other)"

fun tryReceive_loop :: "'k recvmsg \<Rightarrow> nat \<Rightarrow> us_state \<Rightarrow> 'k \<Rightarrow> us_state \<times> 'k \<times> unit result" where
  "tryReceive_loop rk 0 s k = (s, k, Inr ())"
| "tryReceive_loop rk (Suc n) s k =
     (case us_receiveCallback s of
        None \<Rightarrow> (s, k, Inr ())
      | Some cb \<Rightarrow>
          (case tryReceiveOne rk s k of
             (s, k, Inl ew) \<Rightarrow> (s, k, Inl ew)
           | (s, k, Inr False) \<Rightarrow> (s, k, Inr ())
           | (s, k, Inr True) \<Rightarrow>
               (let msg = \<lparr>msg_data = [us_recvData s], msg_files = us_recvFiles s\<rparr>;
                    s = log_event (MessageReceived cb msg) (s\<lparr>us_hbr := 0, us_recvData := [], us_recvFiles := []\<rparr>)
                in tryReceive_loop rk n s k)))"

definition maxMessagesAtOnce :: nat where
  "maxMessagesAtOnce = 10"

definition tryReceive :: "'k recvmsg \<Rightarrow> us_state \<Rightarrow> 'k \<Rightarrow> us_state \<times> 'k \<times> unit result" where
  "tryReceive rk s k = tryReceive_loop rk maxMessagesAtOnce s k"

section \<open>The event handler\<close>

text \<open>The handler has one kernel with both calls.\<close>

definition handlerReady :: "nat \<Rightarrow> 'k sendmsg \<Rightarrow> 'k recvmsg \<Rightarrow> 16 word \<Rightarrow> us_state \<Rightarrow> 'k \<Rightarrow> us_state \<times> 'k" where
  "handlerReady iovMax sk rk events s k =
     (let (s, k, r) = (if events AND READ \<noteq> 0 then tryReceive rk s k else (s, k, Inr ()));
          (s, k, r) = (case r of
                         Inl ew \<Rightarrow> (s, k, Inl ew)
                       | Inr _ \<Rightarrow> if events AND WRITE \<noteq> 0 then trySend iovMax sk s k else (s, k, Inr ()))
      in case r of Inl ew \<Rightarrow> (socketError ew s, k) | Inr _ \<Rightarrow> (s, k))"

definition timeoutExpired :: "us_state \<Rightarrow> us_state" where
  "timeoutExpired s = socketError (SystemError ETIMEDOUT) s"

definition getRemoteUID :: "nat + nat \<Rightarrow> us_state \<Rightarrow> nat result" where
  "getRemoteUID peercred s =
     (if \<not> us_open s then Inl RuntimeError
      else (case peercred of Inl errno \<Rightarrow> Inl (SystemError errno) | Inr uid \<Rightarrow> Inr uid))"

section \<open>Connecting\<close>

record connect_os =
  co_socket :: "nat option"
  co_cloexec :: "nat option"
  co_nonblock :: "nat option"
  co_connect :: "nat option"

datatype connect_event = ConnectSuccess us_state | ConnectError exn | ConnectPending

text \<open>
  Each field is the \<open>errno\<close> of a failed call; \<open>nonblock2\<close> is whether the constructor of the
  socket can set the mode again.
\<close>

definition connect_success :: "nat option \<Rightarrow> bool \<Rightarrow> connect_event" where
  "connect_success eventBase nonblock2 =
     (case UnixSocket eventBase nonblock2 of Inl ew \<Rightarrow> ConnectError ew | Inr s \<Rightarrow> ConnectSuccess s)"

definition connect_socket :: "connect_os \<Rightarrow> nat option \<Rightarrow> bool \<Rightarrow> connect_event" where
  "connect_socket os eventBase nonblock2 =
     (case co_socket os of
        Some errno \<Rightarrow> ConnectError (SystemError errno)
      | None \<Rightarrow>
          (case co_cloexec os of
             Some errno \<Rightarrow> ConnectError (SystemError errno)
           | None \<Rightarrow>
               (case co_nonblock os of
                  Some errno \<Rightarrow> ConnectError (SystemError errno)
                | None \<Rightarrow>
                    (case co_connect os of
                       None \<Rightarrow> connect_success eventBase nonblock2
                     | Some errno \<Rightarrow>
                         if errno \<noteq> EAGAIN then ConnectError (SystemError errno) else ConnectPending))))"

text \<open>
  The connector: the result of \<open>getsockopt\<close> decides, not the error code \<open>soError\<close> that it
  reports.  The handler does not throw, so a failure of the constructor ends the process
  (\<open>None\<close>).
\<close>

definition connector_ready :: "nat option \<Rightarrow> nat \<Rightarrow> nat option \<Rightarrow> bool \<Rightarrow> connect_event option" where
  "connector_ready getsockopt soError eventBase nonblock2 =
     (case getsockopt of
        None \<Rightarrow> (case UnixSocket eventBase nonblock2 of Inl ew \<Rightarrow> None | Inr s \<Rightarrow> Some (ConnectSuccess s))
      | Some errno \<Rightarrow> Some (ConnectError (SystemError errno)))"

definition connector_timeout :: connect_event where
  "connector_timeout = ConnectError (SystemError ETIMEDOUT)"

section \<open>The invariant\<close>

text \<open>
  The events that the socket needs: reads while a receive callback is installed, writes
  while messages are queued.  An open socket is registered for exactly these, has its
  timeout scheduled exactly while messages are queued, and is only closing while messages
  are queued.  A closed socket has nothing left.
\<close>

definition wanted_events :: "us_state \<Rightarrow> 16 word" where
  "wanted_events s =
     (if us_receiveCallback s \<noteq> None then READ else 0) OR (if us_sendQueue s \<noteq> [] then WRITE else 0)"

definition handler_events :: "16 word \<Rightarrow> 16 word" where
  "handler_events ev = (if ev \<noteq> 0 then ev OR PERSIST else 0)"

definition queue_ok :: "send_entry list \<Rightarrow> bool" where
  "queue_ok q = (\<forall>e \<in> set q. entry_ok e \<and> remaining e \<noteq> [])"

definition us_inv :: "us_state \<Rightarrow> bool" where
  "us_inv s =
     (length (us_hdrBuf s) = kHeaderLength \<and> us_hbr s \<le> kHeaderLength \<and> us_handler s = handler_events (us_events s) \<and>
      queue_ok (us_sendQueue s) \<and>
      (if us_open s
       then us_events s = wanted_events s \<and> us_timeout s = (us_sendQueue s \<noteq> []) \<and>
         (us_closeStarted s \<longrightarrow> us_sendQueue s \<noteq> [] \<and> us_receiveCallback s = None)
       else us_closeStarted s \<and> us_events s = 0 \<and> \<not> us_timeout s \<and> us_receiveCallback s = None \<and> us_sendQueue s = []))"

lemmas event_defs = READ_def WRITE_def wanted_events_def

lemma updateIO_simps [simp]:
  "us_events (updateIORegistration ev s) = ev"
  "us_handler s = handler_events (us_events s) \<Longrightarrow> us_handler (updateIORegistration ev s) = handler_events ev"
  "us_open (updateIORegistration ev s) = us_open s" "us_timeout (updateIORegistration ev s) = us_timeout s"
  "us_closeStarted (updateIORegistration ev s) = us_closeStarted s"
  "us_sendQueue (updateIORegistration ev s) = us_sendQueue s"
  "us_receiveCallback (updateIORegistration ev s) = us_receiveCallback s"
  "us_hdrBuf (updateIORegistration ev s) = us_hdrBuf s" "us_hbr (updateIORegistration ev s) = us_hbr s"
  "us_log (updateIORegistration ev s) = us_log s"
  by (auto simp: updateIORegistration_def handler_events_def)

lemma event_bits [simp]:
  "READ OR READ = READ" "READ AND NOT READ = 0" "READ AND NOT WRITE = READ" "WRITE AND NOT READ = WRITE"
  "WRITE AND NOT WRITE = 0" "(READ OR WRITE) AND NOT READ = WRITE" "(READ OR WRITE) AND NOT WRITE = READ"
  "READ OR WRITE OR WRITE = READ OR WRITE" "(READ OR WRITE) OR READ = READ OR WRITE" "WRITE OR READ = READ OR WRITE"
  by (simp_all add: event_defs)

lemma registerForReads_inv: "us_inv s \<Longrightarrow> setReceiveCallback cb s = Inr s' \<Longrightarrow> us_inv s'"
  by (auto simp: setReceiveCallback_def registerForReads_def us_inv_def wanted_events_def split: if_splits)

lemma clearReceiveCallback_inv: "us_inv s \<Longrightarrow> clearReceiveCallback s = Inr s' \<Longrightarrow> us_inv s'"
  by (auto simp: clearReceiveCallback_def unregisterForReads_def us_inv_def wanted_events_def split: if_splits)

lemma closeNow_inv:
  assumes "us_inv s"
  shows "us_inv (closeNow s)" and "\<not> us_open (closeNow s)"
  using assms by (auto simp: closeNow_def Let_def us_inv_def unregisterIO_def takeReceiveCallback_def log_event_def
      failAllSends_def handler_events_def queue_ok_def split: option.splits)

lemma socketError_inv:
  assumes "us_inv s"
  shows "us_inv (socketError ew s)" and "\<not> us_open (socketError ew s)"
  using assms by (auto simp: socketError_def Let_def us_inv_def unregisterIO_def takeReceiveCallback_def log_event_def
      failAllSends_def handler_events_def queue_ok_def split: option.splits)

lemma close_inv: "us_inv s \<Longrightarrow> us_inv (fst (close_socket shut s))"
  using closeNow_inv [of s]
  by (auto simp: close_socket_def Let_def us_inv_def takeReceiveCallback_def log_event_def unregisterForReads_def
      wanted_events_def split: option.splits if_splits)

section \<open>Sending\<close>

text \<open>The stream that the queue has still to send, and the callbacks that wait for it.\<close>

definition pending_stream :: "us_state \<Rightarrow> item list" where
  "pending_stream s = concat (map remaining (us_sendQueue s))"

definition cb_list :: "nat option \<Rightarrow> nat list" where
  "cb_list cb = (case cb of Some c \<Rightarrow> [c] | None \<Rightarrow> [])"

definition pending :: "send_entry list \<Rightarrow> nat list" where
  "pending q = concat (map (\<lambda>e. cb_list (se_callback e)) q)"

fun completed :: "us_event list \<Rightarrow> nat list" where
  "completed [] = []"
| "completed (SendSuccess c # evs) = c # completed evs"
| "completed (SendError c ew # evs) = c # completed evs"
| "completed (MessageReceived c m # evs) = completed evs"
| "completed (EofReceived c # evs) = completed evs"
| "completed (SocketClosed c # evs) = completed evs"
| "completed (ReceiveError c ew # evs) = completed evs"

lemma completed_append [simp]: "completed (xs @ ys) = completed xs @ completed ys"
  by (induction xs rule: completed.induct) auto

lemma completed_fail [simp]: "completed (fail_entries ew q) = pending q"
  by (induction q) (auto simp: pending_def cb_list_def split: option.split)

lemma pending_simps [simp]: "pending [] = []" "pending (e # q) = cb_list (se_callback e) @ pending q"
  "pending (q @ q') = pending q @ pending q'"
  by (simp_all add: pending_def)

text \<open>What the loop changes: the queue and the log.\<close>

lemma trySend_loop_spec:
  assumes "trySend_loop iovMax sk n s k = (s', k', r)" and "queue_ok (us_sendQueue s)"
    and "send_kernel sk out" and "0 < iovMax"
  obtains q evs where "s' = s\<lparr>us_sendQueue := q, us_log := us_log s @ evs\<rparr>" and "queue_ok q"
    and "out k' @ concat (map remaining q) = out k @ pending_stream s"
    and "completed evs @ pending q = pending (us_sendQueue s)" and "r \<noteq> Inr () \<Longrightarrow> q \<noteq> []"
proof -
  have "\<exists>q evs. s' = s\<lparr>us_sendQueue := q, us_log := us_log s @ evs\<rparr> \<and> queue_ok q \<and>
      out k' @ concat (map remaining q) = out k @ pending_stream s \<and>
      completed evs @ pending q = pending (us_sendQueue s) \<and> (r \<noteq> Inr () \<longrightarrow> q \<noteq> [])"
    using assms
  proof (induction n arbitrary: s k)
    case 0
    then show ?case
      by (intro exI [of _ "us_sendQueue s"] exI [of _ "[]"]) (simp add: pending_stream_def)
  next
    case (Suc n)
    show ?case
    proof (cases "us_sendQueue s")
      case Nil
      with Suc.prems show ?thesis by (intro exI [of _ "[]"]) (simp add: pending_stream_def)
    next
      case (Cons e es)
      obtain e' k1 r1 where t: "trySendMessage iovMax sk e k = (e', k1, r1)" by (metis prod_cases3)
      have ok: "sent_ok out e k e' k1 r1"
        using Suc.prems(2) Cons by (intro trySendMessage_spec [OF _ assms(3,4) _ t]) (auto simp: queue_ok_def)
      have es: "queue_ok es" using Suc.prems(2) Cons by (simp add: queue_ok_def)
      show ?thesis
      proof (cases "r1 = Inr True")
        case True
        define s1 where "s1 = s\<lparr>us_sendQueue := es, us_log := us_log s @ map SendSuccess (cb_list (se_callback e'))\<rparr>"
        have "trySend_loop iovMax sk n s1 k1 = (s', k', r)"
          using Suc.prems(1) Cons t True
          by (auto simp: s1_def log_event_def cb_list_def Let_def split: option.splits)
        from Suc.IH [OF this _ assms(3,4)] es obtain q evs where
          "s' = s1\<lparr>us_sendQueue := q, us_log := us_log s1 @ evs\<rparr>" "queue_ok q"
          "out k' @ concat (map remaining q) = out k1 @ pending_stream s1"
          "completed evs @ pending q = pending (us_sendQueue s1)" "r \<noteq> Inr () \<longrightarrow> q \<noteq> []"
          by (auto simp: s1_def)
        moreover have "out k1 = out k @ remaining e" "se_callback e' = se_callback e"
          using ok True by (auto simp: sent_ok_def)
        moreover have "completed (map SendSuccess xs) = xs" for xs by (induction xs) auto
        ultimately show ?thesis using Cons
          by (intro exI [of _ q] exI [of _ "map SendSuccess (cb_list (se_callback e')) @ evs"])
            (simp add: s1_def pending_stream_def)
      next
        case False
        then have "s' = s\<lparr>us_sendQueue := e' # es\<rparr>" "k' = k1"
          using Suc.prems(1) Cons t by (auto split: sum.splits bool.splits)
        then show ?thesis using ok False es Cons
          by (intro exI [of _ "e' # es"] exI [of _ "[]"]) (auto simp: sent_ok_def queue_ok_def pending_stream_def)
      qed
    qed
  qed
  then show ?thesis using that by blast
qed

text \<open>The bookkeeping of the callbacks of sends.\<close>

definition reported :: "us_state \<Rightarrow> nat multiset" where
  "reported s = mset (completed (us_log s)) + mset (pending (us_sendQueue s))"

lemma close_reported: "reported (closeNow s) = reported s" "reported (socketError ew s) = reported s"
  by (auto simp: reported_def closeNow_def socketError_def Let_def unregisterIO_def takeReceiveCallback_def
      log_event_def failAllSends_def split: option.split)

text \<open>
  While a handler runs, the registration for writes and the timeout may be behind.
\<close>

definition us_running :: "us_state \<Rightarrow> bool" where
  "us_running s =
     (length (us_hdrBuf s) = kHeaderLength \<and> us_hbr s \<le> kHeaderLength \<and> us_handler s = handler_events (us_events s) \<and>
      queue_ok (us_sendQueue s) \<and> us_open s \<and>
      us_events s AND NOT WRITE = (if us_receiveCallback s \<noteq> None then READ else 0) \<and>
      (us_closeStarted s \<longrightarrow> us_receiveCallback s = None))"

lemma us_inv_running: "us_inv s \<Longrightarrow> us_open s \<Longrightarrow> us_running s"
  by (auto simp: us_inv_def us_running_def wanted_events_def)

lemma running_socketError:
  assumes "us_running s"
  shows "us_inv (socketError ew s)"
  using assms by (auto simp: socketError_def Let_def us_inv_def us_running_def unregisterIO_def takeReceiveCallback_def
      log_event_def failAllSends_def handler_events_def queue_ok_def split: option.splits)

lemma running_closeNow:
  assumes "us_running s"
  shows "us_inv (closeNow s)"
  using assms by (auto simp: closeNow_def Let_def us_inv_def us_running_def unregisterIO_def takeReceiveCallback_def
      log_event_def failAllSends_def handler_events_def queue_ok_def split: option.splits)

lemma events_or_write: "ev AND NOT WRITE = x \<Longrightarrow> ev OR WRITE = x OR WRITE" for ev :: "16 word"
  by (auto intro!: bit_word_eqI simp: bit_simps)

lemma trySend_spec:
  assumes t: "trySend iovMax sk s k = (s', k', r)" and run: "us_running s"
    and sk: "send_kernel sk out" "0 < iovMax"
  shows "r = Inr () \<Longrightarrow> us_inv s'" and "r \<noteq> Inr () \<Longrightarrow> us_running s'"
    and "reported s' = reported s" and "out k' @ pending_stream s' = out k @ pending_stream s"
proof -
  obtain s1 k1 r1 where l: "trySend_loop iovMax sk MAX_MSGS_AT_ONCE s k = (s1, k1, r1)" by (metis prod_cases3)
  have qok: "queue_ok (us_sendQueue s)" using run by (simp add: us_running_def)
  obtain q evs where s1: "s1 = s\<lparr>us_sendQueue := q, us_log := us_log s @ evs\<rparr>" and q: "queue_ok q"
    and o: "out k1 @ concat (map remaining q) = out k @ pending_stream s"
    and c: "completed evs @ pending q = pending (us_sendQueue s)"
    by (rule trySend_loop_spec [OF l qok sk]) blast
  have run1: "us_running s1" using run q by (simp add: s1 us_running_def)
  have rep1: "reported s1 = reported s" by (simp add: s1 reported_def flip: c)
  have o1: "out k1 @ pending_stream s1 = out k @ pending_stream s" using o by (simp add: s1 pending_stream_def)
  have "(r = Inr () \<longrightarrow> us_inv s') \<and> (r \<noteq> Inr () \<longrightarrow> us_running s') \<and> reported s' = reported s \<and>
        out k' @ pending_stream s' = out k @ pending_stream s"
  proof (cases "r1 = Inr ()")
    case False
    then have "s' = s1" "k' = k1" "r = r1" using t l by (auto simp: trySend_def split: sum.splits)
    then show ?thesis
      using False run1 rep1 o1 by simp
  next
    case r1: True
    show ?thesis
    proof (cases "us_sendQueue s1 = []")
      case False
      then have s': "s' = registerForWrites (s1\<lparr>us_timeout := True\<rparr>)" "k' = k1" "r = Inr ()"
        using t l r1 by (auto simp: trySend_def)
      have "us_inv s'" using run1 False events_or_write [of "us_events s1"]
        by (auto simp: s' registerForWrites_def us_running_def us_inv_def wanted_events_def)
      moreover have "reported s' = reported s1" "pending_stream s' = pending_stream s1"
        by (simp_all add: s' registerForWrites_def reported_def pending_stream_def)
      ultimately show ?thesis using s' rep1 o1 by simp
    next
      case True
      define s2 where "s2 = unregisterForWrites (s1\<lparr>us_timeout := False\<rparr>)"
      have s': "s' = (if us_closeStarted s2 then closeNow s2 else s2)" "k' = k1" "r = Inr ()"
        using t l r1 True by (auto simp: trySend_def s2_def Let_def)
      have same: "reported s2 = reported s1" "pending_stream s2 = []" "pending_stream s1 = []"
        using True by (simp_all add: s2_def unregisterForWrites_def reported_def pending_stream_def)
      have run2: "us_running s2" using run1
        by (auto simp: s2_def unregisterForWrites_def us_running_def)
      have "us_inv s'"
      proof (cases "us_closeStarted s2")
        case True
        then show ?thesis using running_closeNow [OF run2] s' by simp
      next
        case False
        then show ?thesis using run1 True
          by (auto simp: s' s2_def unregisterForWrites_def us_running_def us_inv_def wanted_events_def)
      qed
      moreover have "pending_stream (closeNow s2) = []"
        using same(2) run2 by (auto simp: closeNow_def Let_def pending_stream_def unregisterIO_def takeReceiveCallback_def
            log_event_def failAllSends_def split: option.split)
      ultimately show ?thesis using s' rep1 o1 same close_reported(1) [of s2] by simp
    qed
  qed
  then show "r = Inr () \<Longrightarrow> us_inv s'" and "r \<noteq> Inr () \<Longrightarrow> us_running s'"
    and "reported s' = reported s" and "out k' @ pending_stream s' = out k @ pending_stream s" by simp_all
qed

lemma send_message_spec:
  assumes t: "send_message iovMax sk alloc msg cb s k = (s', k', r)" and inv: "us_inv s"
    and sk: "send_kernel sk out" "0 < iovMax" and acc: "\<not> us_closeStarted s" "alloc"
  shows "us_inv s'" and "reported s' = reported s + mset (cb_list cb)" and "r = Inr ()"
    and "\<exists>rest. out k' @ rest = out k @ pending_stream s @ wire msg \<and> (us_open s' \<longrightarrow> rest = pending_stream s')"
proof -
  obtain e where e: "createSendQueueEntry alloc msg cb = Some e"
    using acc(2) by (simp add: createSendQueueEntry_def Let_def)
  note ok = entry_ok_SendQueueEntry [OF e [unfolded eqTrueI [OF acc(2)]]]
  have wne: "wire msg \<noteq> []"
    by (simp add: wire_def message_header_def) (metis kHeaderLength_def length_0_conv serializeHeader_length zero_neq_numeral)
  define s1 where "s1 = s\<lparr>us_sendQueue := us_sendQueue s @ [e]\<rparr>"
  have op: "us_open s" using inv acc(1) by (simp add: us_inv_def split: if_splits)
  have run: "us_running s1" using us_inv_running [OF inv op] ok wne
    by (auto simp: s1_def us_running_def queue_ok_def)
  have st: "pending_stream s1 = pending_stream s @ wire msg" and rp: "reported s1 = reported s + mset (cb_list cb)"
    using ok by (simp_all add: s1_def pending_stream_def reported_def)
  have "us_inv s' \<and> reported s' = reported s + mset (cb_list cb) \<and> r = Inr () \<and>
    (\<exists>rest. out k' @ rest = out k @ pending_stream s @ wire msg \<and> (us_open s' \<longrightarrow> rest = pending_stream s'))"
  proof (cases "us_sendQueue s = []")
    case False
    then have s': "s' = s1" "k' = k" "r = Inr ()" using t acc(1) e by (auto simp: send_message_def s1_def Let_def)
    moreover have "us_inv s1" using inv op acc(1) False run
      by (auto simp: s1_def us_inv_def us_running_def wanted_events_def)
    ultimately show ?thesis using st rp by auto
  next
    case True
    obtain s2 k2 r2 where ts: "trySend iovMax sk s1 k = (s2, k2, r2)" by (metis prod_cases3)
    note spec = trySend_spec [OF ts run sk]
    show ?thesis
    proof (cases "r2 = Inr ()")
      case ok2: True
      then have "s' = s2" "k' = k2" "r = Inr ()" using t acc(1) e True ts by (auto simp: send_message_def s1_def Let_def)
      then show ?thesis using spec ok2 st rp by (intro conjI exI [of _ "pending_stream s2"]) auto
    next
      case False
      then obtain ew where "r2 = Inl ew" by (cases r2) auto
      then have "s' = socketError ew s2" "k' = k2" "r = Inr ()"
        using t acc(1) e True ts by (auto simp: send_message_def s1_def Let_def)
      moreover have "us_open s2" using spec(2) False by (simp add: us_running_def)
      ultimately show ?thesis using spec False st rp running_socketError [of s2 ew] close_reported(2) [of ew s2]
        by (intro conjI exI [of _ "pending_stream s2"])
          (auto simp: socketError_def Let_def failAllSends_def takeReceiveCallback_def unregisterIO_def log_event_def
            split: option.splits)
    qed
  qed
  then show "us_inv s'" and "reported s' = reported s + mset (cb_list cb)" and "r = Inr ()"
    and "\<exists>rest. out k' @ rest = out k @ pending_stream s @ wire msg \<and> (us_open s' \<longrightarrow> rest = pending_stream s')"
    by simp_all
qed

lemma send_closed_spec:
  assumes "send_message iovMax sk alloc msg cb s k = (s', k', r)" and "us_inv s" and "us_closeStarted s \<or> \<not> alloc"
  shows "us_inv s'" and "k' = k" and "cb \<noteq> None \<Longrightarrow> reported s' = reported s + mset (cb_list cb)"
    and "cb = None \<Longrightarrow> s' = s"
  using assms
  by (auto simp: send_message_def createSendQueueEntry_def Let_def log_event_def us_inv_def wanted_events_def reported_def
      cb_list_def split: option.splits if_splits)

section \<open>Receiving keeps the invariant\<close>

text \<open>What is used of \<open>recvmsg\<close> here: it does not write behind the buffer.\<close>

definition recv_bounded :: "'k recvmsg \<Rightarrow> bool" where
  "recv_bounded rk =
     (\<forall>n k. case rk n k of (RecvError e, k') \<Rightarrow> True | (Received bs cs fl er, k') \<Rightarrow> length bs \<le> n)"

text \<open>The fields that receiving does not touch.\<close>

definition recv_frame :: "us_state \<Rightarrow> us_state \<Rightarrow> bool" where
  "recv_frame s s' =
     (us_eventBase s' = us_eventBase s \<and> us_open s' = us_open s \<and> us_closeStarted s' = us_closeStarted s \<and>
      us_events s' = us_events s \<and> us_handler s' = us_handler s \<and> us_timeout s' = us_timeout s \<and>
      us_maxDataLength s' = us_maxDataLength s \<and> us_maxFiles s' = us_maxFiles s \<and>
      us_receiveCallback s' = us_receiveCallback s \<and> us_sendQueue s' = us_sendQueue s \<and>
      completed (us_log s') = completed (us_log s) \<and>
      (length (us_hdrBuf s) = kHeaderLength \<and> us_hbr s \<le> kHeaderLength \<longrightarrow>
         length (us_hdrBuf s') = kHeaderLength \<and> us_hbr s' \<le> kHeaderLength))"

lemma recv_frame_refl [simp]: "recv_frame s s"
  by (simp add: recv_frame_def)

lemma recv_frame_trans: "recv_frame s t \<Longrightarrow> recv_frame t u \<Longrightarrow> recv_frame s u"
  by (simp add: recv_frame_def)

lemma recv_frame_inv: "recv_frame s s' \<Longrightarrow> us_inv s \<Longrightarrow> us_inv s'"
  by (simp add: recv_frame_def us_inv_def wanted_events_def)

lemma control_files: "\<exists>fs. fst (processReceivedControlData cs s) = s\<lparr>us_recvFiles := fs\<rparr>"
proof (induction cs arbitrary: s)
  case Nil
  show ?case by (intro exI [of _ "us_recvFiles s"]) simp
next
  case (Cons c cs)
  have "\<exists>fs. s = s\<lparr>us_recvFiles := fs\<rparr>" by (intro exI [of _ "us_recvFiles s"]) simp
  moreover obtain fs where "fst (processReceivedControlData cs (s\<lparr>us_recvFiles := us_recvFiles s @ xs\<rparr>)) = s\<lparr>us_recvFiles := fs xs\<rparr>" for xs
    using Cons.IH [of "s\<lparr>us_recvFiles := us_recvFiles s @ _\<rparr>"] by simp metis
  ultimately show ?case using Cons.IH [of s] by (auto simp: processReceivedFiles_def)
qed

end
