(* ===== verification/Socket_Protocol.thy ===== *)
theory Socket_Protocol
  imports Unix_Socket
begin

text \<open>
  The properties of \<open>UnixSocket\<close>.  The operations of a socket, in any order and with any
  behaviour of the kernel that its laws allow, are the steps of a transition system; its
  invariant says that the socket is registered for exactly the events it needs and that each
  send is reported once.  The stream that leaves a socket is that of its messages, and a
  socket that receives such a stream, in whatever pieces, delivers these messages.
\<close>

section \<open>Receiving\<close>

lemma callRecvMsg_files:
  assumes "callRecvMsg rk n s k = (s', k', r)"
  obtains fs where "s' = s\<lparr>us_recvFiles := fs\<rparr>"
proof -
  have self: "s = s\<lparr>us_recvFiles := us_recvFiles s\<rparr>" by simp
  obtain q k1 where q: "rk n k = (q, k1)" by (cases "rk n k")
  show ?thesis
  proof (cases q)
    case (RecvError e)
    then have "s' = s" using assms q by (simp add: callRecvMsg_def)
    then show ?thesis using self that by blast
  next
    case (Received bs cs fl er)
    obtain fs where "fst (processReceivedControlData cs s) = s\<lparr>us_recvFiles := fs\<rparr>" using control_files by blast
    moreover have "s' = s \<or> s' = fst (processReceivedControlData cs s)"
      using assms q Received
      by (cases "processReceivedControlData cs s"; cases "snd (processReceivedControlData cs s)")
        (auto simp: callRecvMsg_def split: if_splits)
    ultimately show ?thesis using self that by metis
  qed
qed

lemma callRecvMsg_bound:
  assumes "callRecvMsg rk n s k = (s', k', Inr (Some bs))" and "recv_bounded rk"
  shows "length bs \<le> n"
proof -
  have "case rk n k of (RecvError e, k') \<Rightarrow> True | (Received bs cs fl er, k') \<Rightarrow> length bs \<le> n"
    using assms(2) unfolding recv_bounded_def by (elim allE)
  then show ?thesis using assms(1)
    by (auto simp: callRecvMsg_def split: prod.splits recv_result.splits if_splits sum.splits)
qed

text \<open>A call of \<open>recvmsg\<close> within one of the three receive functions.\<close>

lemma callRecvMsg_cases:
  assumes "recv_bounded rk"
  obtains (error) fs k' ew where "callRecvMsg rk n s k = (s\<lparr>us_recvFiles := fs\<rparr>, k', Inl ew)"
  | (again) fs k' where "callRecvMsg rk n s k = (s\<lparr>us_recvFiles := fs\<rparr>, k', Inr None)"
  | (bytes) fs k' bs where "callRecvMsg rk n s k = (s\<lparr>us_recvFiles := fs\<rparr>, k', Inr (Some bs))" and "length bs \<le> n"
proof -
  obtain s1 k1 r1 where c: "callRecvMsg rk n s k = (s1, k1, r1)" by (metis prod_cases3)
  obtain fs where s1: "s1 = s\<lparr>us_recvFiles := fs\<rparr>" using callRecvMsg_files [OF c] .
  show ?thesis
  proof (cases r1)
    case (Inl ew)
    with c s1 error show ?thesis by blast
  next
    case (Inr o')
    with c s1 again bytes callRecvMsg_bound [OF _ assms, of n s k s1 k1] show ?thesis by (cases o') blast+
  qed
qed

lemma files_frame: "recv_frame s (s\<lparr>us_recvFiles := fs\<rparr>)"
  by (simp add: recv_frame_def)

lemma data_frame: "recv_frame s (s\<lparr>us_recvFiles := fs, us_recvData := ds\<rparr>)"
  by (simp add: recv_frame_def)

lemma eof_frame: "recv_frame s (log_event (EofReceived cb) (s\<lparr>us_recvFiles := fs\<rparr>))"
  by (simp add: recv_frame_def log_event_def)

lemma header_frame:
  assumes "length bs \<le> kHeaderLength - us_hbr s"
  shows "recv_frame s (s\<lparr>us_recvFiles := fs,
    us_hdrBuf := take (us_hbr s) (us_hdrBuf s) @ bs @ drop (us_hbr s + length bs) (us_hdrBuf s),
    us_hbr := us_hbr s + length bs\<rparr>)"
  using assms by (auto simp: recv_frame_def)

lemma tryReceiveHeader_frame:
  assumes t: "tryReceiveHeader rk s k = (s', k', r)" and "recv_bounded rk"
  shows "recv_frame s s'"
  using assms(2)
proof (cases rule: callRecvMsg_cases [of rk "kHeaderLength - us_hbr s" s k])
  case (error fs k1 ew)
  then have "s' = s\<lparr>us_recvFiles := fs\<rparr>" using t by (simp add: tryReceiveHeader_def)
  then show ?thesis using files_frame by simp
next
  case (again fs k1)
  then have "s' = s\<lparr>us_recvFiles := fs\<rparr>" using t by (simp add: tryReceiveHeader_def)
  then show ?thesis using files_frame by simp
next
  case (bytes fs k1 bs)
  show ?thesis
  proof (cases "bs = []")
    case True
    then have "s' = s\<lparr>us_recvFiles := fs\<rparr> \<or> (\<exists>cb. s' = log_event (EofReceived cb) (s\<lparr>us_recvFiles := fs\<rparr>))"
      using t bytes by (cases "us_hbr s = 0"; cases "us_receiveCallback s") (simp_all add: tryReceiveHeader_def, blast)
    then show ?thesis using files_frame eof_frame by auto
  next
    case False
    then have "s' = s\<lparr>us_recvFiles := fs,
        us_hdrBuf := take (us_hbr s) (us_hdrBuf s) @ bs @ drop (us_hbr s + length bs) (us_hdrBuf s),
        us_hbr := us_hbr s + length bs\<rparr>"
      using t bytes(1) by (simp add: tryReceiveHeader_def Let_def)
    then show ?thesis using header_frame [OF bytes(2)] by simp
  qed
qed

lemma tryReceiveData_frame:
  assumes "tryReceiveData rk s k = (s', k', r)" and "recv_bounded rk"
  shows "recv_frame s s'"
  using assms(2)
proof (cases rule: callRecvMsg_cases [of rk "unat (dataSize (us_recvHeader s)) - length (us_recvData s)" s k])
  case (bytes fs k1 bs)
  then have "s' = s\<lparr>us_recvFiles := fs\<rparr> \<or> s' = s\<lparr>us_recvFiles := fs, us_recvData := us_recvData s @ bs\<rparr>"
    using assms(1) by (cases "bs = []") (simp_all add: tryReceiveData_def Let_def)
  then show ?thesis using files_frame data_frame by auto
qed (use assms(1) files_frame in \<open>auto simp: tryReceiveData_def Let_def\<close>)

lemma tryReceiveFiles_frame:
  assumes "tryReceiveFiles rk s k = (s', k', r)" and "recv_bounded rk"
  shows "recv_frame s s'"
  using assms(2)
proof (cases rule: callRecvMsg_cases [of rk 1 s k])
  case (bytes fs k1 bs)
  then have "s' = s\<lparr>us_recvFiles := fs\<rparr>"
    using assms(1) by (cases "bs = []"; cases "length fs > unat (numFiles (us_recvHeader s))") (simp_all add: tryReceiveFiles_def)
  then show ?thesis using files_frame by simp
qed (use assms(1) files_frame in \<open>auto simp: tryReceiveFiles_def\<close>)

lemma checkHeader_frame: "checkHeader s = (s', r) \<Longrightarrow> recv_frame s s'"
proof -
  assume "checkHeader s = (s', r)"
  then have "s' = s\<lparr>us_recvHeader := deserializeHeader (us_hdrBuf s)\<rparr> \<or>
      s' = s\<lparr>us_recvHeader := deserializeHeader (us_hdrBuf s), us_recvData := []\<rparr>"
    by (simp add: checkHeader_def Let_def split: if_splits)
  then show ?thesis by (elim disjE) (simp_all add: recv_frame_def)
qed

lemma receive_header_frame:
  assumes "receive_header rk s k = (s', k', r)" and "recv_bounded rk"
  shows "recv_frame s s'"
proof (cases "us_hbr s < kHeaderLength")
  case True
  obtain s1 k1 r1 where t: "tryReceiveHeader rk s k = (s1, k1, r1)" by (metis prod_cases3)
  obtain s2 r2 where c: "checkHeader s1 = (s2, r2)" by (cases "checkHeader s1")
  have "s' = s1 \<or> s' = s2" using assms(1) True t c
    by (auto simp: receive_header_def split: sum.splits bool.splits)
  then show ?thesis
    using tryReceiveHeader_frame [OF t assms(2)] checkHeader_frame [OF c] recv_frame_trans by blast
next
  case False
  with assms show ?thesis by (simp add: receive_header_def)
qed

lemma tryReceiveOne_frame:
  assumes "tryReceiveOne rk s k = (s', k', r)" and "recv_bounded rk"
  shows "recv_frame s s'"
proof -
  obtain s1 k1 r1 where h: "receive_header rk s k = (s1, k1, r1)" by (metis prod_cases3)
  obtain s2 k2 r2 where d: "receive_data rk s1 k1 = (s2, k2, r2)" by (metis prod_cases3)
  obtain s3 k3 r3 where f: "receive_files rk s2 k2 = (s3, k3, r3)" by (metis prod_cases3)
  have "s' = s1 \<or> s' = s2 \<or> s' = s3" using assms(1) h d f
    by (auto simp: tryReceiveOne_def split: sum.splits bool.splits)
  moreover have "recv_frame s s1" by (rule receive_header_frame [OF h assms(2)])
  moreover have "recv_frame s1 s2" using d tryReceiveData_frame [OF _ assms(2)] by (auto simp: receive_data_def split: if_splits)
  moreover have "recv_frame s2 s3" using f tryReceiveFiles_frame [OF _ assms(2)] by (auto simp: receive_files_def split: if_splits)
  ultimately show ?thesis using recv_frame_trans by blast
qed

lemma tryReceive_loop_frame:
  "tryReceive_loop rk n s k = (s', k', r) \<Longrightarrow> recv_bounded rk \<Longrightarrow> recv_frame s s'"
proof (induction n arbitrary: s k)
  case (Suc n)
  show ?case
  proof (cases "us_receiveCallback s")
    case None
    with Suc.prems show ?thesis by simp
  next
    case (Some cb)
    obtain s1 k1 r1 where t: "tryReceiveOne rk s k = (s1, k1, r1)" by (metis prod_cases3)
    have f: "recv_frame s s1" by (rule tryReceiveOne_frame [OF t Suc.prems(2)])
    show ?thesis
    proof (cases "r1 = Inr True")
      case True
      define s2 where "s2 = log_event (MessageReceived cb \<lparr>msg_data = [us_recvData s1], msg_files = us_recvFiles s1\<rparr>)
          (s1\<lparr>us_hbr := 0, us_recvData := [], us_recvFiles := []\<rparr>)"
      have "tryReceive_loop rk n s2 k1 = (s', k', r)"
        using Suc.prems(1) Some t True by (simp add: s2_def Let_def)
      from Suc.IH [OF this Suc.prems(2)] have "recv_frame s2 s'" .
      moreover have "recv_frame s1 s2" by (auto simp: s2_def recv_frame_def log_event_def)
      ultimately show ?thesis using f recv_frame_trans by blast
    next
      case False
      then have "s' = s1" using Suc.prems(1) Some t by (auto split: sum.splits bool.splits)
      then show ?thesis using f by simp
    qed
  qed
qed simp

lemma handlerReady_spec:
  assumes h: "handlerReady iovMax sk rk events s k = (s', k')" and inv: "us_inv s" and op: "us_open s"
    and sk: "send_kernel sk out" "0 < iovMax" and rk: "recv_bounded rk"
  shows "us_inv s'" and "reported s' = reported s"
proof -
  obtain s1 k1 r1 where r: "(if events AND READ \<noteq> 0 then tryReceive rk s k else (s, k, Inr ())) = (s1, k1, r1)"
    by (metis prod_cases3)
  have f: "recv_frame s s1"
    using r tryReceive_loop_frame [OF _ rk] by (auto simp: tryReceive_def split: if_splits)
  then have i1: "us_inv s1" and o1: "us_open s1" and rep1: "reported s1 = reported s"
    using inv op recv_frame_inv by (auto simp: recv_frame_def reported_def)
  have "us_inv s' \<and> reported s' = reported s"
  proof (cases "r1 = Inr () \<and> events AND WRITE \<noteq> 0")
    case True
    obtain s2 k2 r2 where t: "trySend iovMax sk s1 k1 = (s2, k2, r2)" by (metis prod_cases3)
    note spec = trySend_spec [OF t us_inv_running [OF i1 o1] sk]
    show ?thesis
    proof (cases r2)
      case (Inl ew)
      then have "s' = socketError ew s2" using h r True t by (simp add: handlerReady_def)
      then show ?thesis using spec Inl rep1 running_socketError close_reported(2) by simp
    next
      case (Inr u)
      then have "s' = s2" using h r True t by (simp add: handlerReady_def)
      then show ?thesis using spec Inr rep1 by simp
    qed
  next
    case False
    then have "s' = s1 \<or> (\<exists>ew. s' = socketError ew s1)"
      using h r by (cases r1) (auto simp: handlerReady_def split: if_splits)
    then show ?thesis using i1 rep1 socketError_inv(1) close_reported(2) by auto
  qed
  then show "us_inv s'" and "reported s' = reported s" by simp_all
qed

section \<open>The socket as a transition system\<close>

text \<open>
  The state is the socket, the kernel and the callbacks that were given to \<open>send\<close>.  The
  event base calls the handler only while it is registered and the timeout only while it is
  scheduled.  A message without a callback is not sent on a closed socket.
\<close>

type_synonym 'k us_sys = "us_state \<times> 'k \<times> nat multiset"

inductive us_step :: "nat \<Rightarrow> 'k sendmsg \<Rightarrow> 'k recvmsg \<Rightarrow> 'k us_sys \<Rightarrow> 'k us_sys \<Rightarrow> bool"
  for iovMax sk rk where
  step_send: "send_message iovMax sk alloc msg cb s k = (s', k', r) \<Longrightarrow> cb \<noteq> None \<or> \<not> us_closeStarted s \<and> alloc \<Longrightarrow>
    us_step iovMax sk rk (s, k, cbs) (s', k', cbs + mset (cb_list cb))"
| step_handler: "us_handler s \<noteq> 0 \<Longrightarrow> handlerReady iovMax sk rk events s k = (s', k') \<Longrightarrow>
    us_step iovMax sk rk (s, k, cbs) (s', k', cbs)"
| step_timeout: "us_timeout s \<Longrightarrow> us_step iovMax sk rk (s, k, cbs) (timeoutExpired s, k, cbs)"
| step_close: "us_step iovMax sk rk (s, k, cbs) (fst (close_socket shut s), k, cbs)"
| step_closeNow: "us_step iovMax sk rk (s, k, cbs) (closeNow s, k, cbs)"
| step_set: "setReceiveCallback cb s = Inr s' \<Longrightarrow> us_step iovMax sk rk (s, k, cbs) (s', k, cbs)"
| step_clear: "clearReceiveCallback s = Inr s' \<Longrightarrow> us_step iovMax sk rk (s, k, cbs) (s', k, cbs)"
| step_limits: "us_step iovMax sk rk (s, k, cbs)
    (setSendTimeout t (setMaxRecvFiles mf (setMaxRecvDataLength md s)), k, cbs)"

definition us_init :: "'k us_sys \<Rightarrow> bool" where
  "us_init st = (case st of (s, k, cbs) \<Rightarrow> (\<exists>eb. UnixSocket eb True = Inr s) \<and> cbs = {#})"

definition kernel_laws :: "nat \<Rightarrow> 'k sendmsg \<Rightarrow> 'k recvmsg \<Rightarrow> ('k \<Rightarrow> item list) \<Rightarrow> bool" where
  "kernel_laws iovMax sk rk out = (0 < iovMax \<and> send_kernel sk out \<and> recv_bounded rk)"

definition us_sys_inv :: "nat \<Rightarrow> 'k sendmsg \<Rightarrow> 'k recvmsg \<Rightarrow> ('k \<Rightarrow> item list) \<Rightarrow> 'k us_sys \<Rightarrow> bool" where
  "us_sys_inv iovMax sk rk out st =
     (case st of (s, k, cbs) \<Rightarrow> kernel_laws iovMax sk rk out \<longrightarrow> us_inv s \<and> reported s = cbs)"

lemma handler_open: "us_inv s \<Longrightarrow> us_handler s \<noteq> 0 \<Longrightarrow> us_open s"
  by (simp add: us_inv_def handler_events_def split: if_splits)

lemma close_socket_reported: "reported (fst (close_socket shut s)) = reported s"
  using close_reported(1) [of s]
  by (cases "us_closeStarted s"; cases "us_sendQueue s = []"; cases "us_receiveCallback s"; cases shut)
    (simp_all add: close_socket_def Let_def takeReceiveCallback_def log_event_def unregisterForReads_def reported_def)

lemma callback_reported:
  "setReceiveCallback cb s = Inr s' \<Longrightarrow> reported s' = reported s"
  "clearReceiveCallback s = Inr s' \<Longrightarrow> reported s' = reported s"
  by (auto simp: setReceiveCallback_def clearReceiveCallback_def registerForReads_def unregisterForReads_def reported_def
      split: if_splits)

lemma us_step_inv:
  "us_step iovMax sk rk st st' \<Longrightarrow> us_sys_inv iovMax sk rk out st \<Longrightarrow> us_sys_inv iovMax sk rk out st'"
proof (induction rule: us_step.induct)
  case (step_send alloc msg cb s k s' k' r cbs)
  show ?case
  proof (cases "us_closeStarted s \<or> \<not> alloc")
    case True
    then have "cb \<noteq> None" using step_send by auto
    then show ?thesis using step_send send_closed_spec(1,3) [OF step_send(1) _ True]
      by (auto simp: us_sys_inv_def)
  next
    case False
    then show ?thesis using step_send send_message_spec(1,2) [OF step_send(1), of out]
      by (auto simp: us_sys_inv_def kernel_laws_def)
  qed
next
  case (step_handler s events k s' k' cbs)
  then show ?case using handlerReady_spec [OF step_handler(2), of out] handler_open
    by (auto simp: us_sys_inv_def kernel_laws_def)
next
  case (step_timeout s k cbs)
  then show ?case using socketError_inv(1) close_reported(2) by (auto simp: us_sys_inv_def timeoutExpired_def)
next
  case (step_close s k cbs shut)
  then show ?case using close_inv close_socket_reported by (auto simp: us_sys_inv_def)
next
  case (step_closeNow s k cbs)
  then show ?case using closeNow_inv(1) close_reported(1) by (auto simp: us_sys_inv_def)
next
  case (step_set cb s s' k cbs)
  then show ?case using registerForReads_inv callback_reported(1) by (auto simp: us_sys_inv_def)
next
  case (step_clear s s' k cbs)
  then show ?case using clearReceiveCallback_inv callback_reported(2) by (auto simp: us_sys_inv_def)
next
  case (step_limits s k cbs t mf md)
  then show ?case
    by (auto simp: us_sys_inv_def us_inv_def wanted_events_def reported_def setSendTimeout_def setMaxRecvFiles_def
        setMaxRecvDataLength_def)
qed

lemma us_init_inv: "us_init st \<Longrightarrow> us_sys_inv iovMax sk rk out st"
  by (auto simp: us_init_def us_sys_inv_def UnixSocket_def us_inv_def wanted_events_def handler_events_def queue_ok_def
      reported_def kHeaderLength_def split: if_splits)

interpretation us_system: invariant_system us_init "us_step iovMax sk rk" "us_sys_inv iovMax sk rk out"
  for iovMax sk rk out
  by unfold_locales (rule us_init_inv, assumption, rule us_step_inv)

section \<open>Properties\<close>

text \<open>
  C10: in every state that a socket can reach, whatever the kernel and the users do, the
  handler is registered for exactly the events that are needed, the send timeout is
  scheduled exactly while messages are queued, a socket that is closing has messages to
  send, and a closed socket is registered for nothing.  Each callback that was given to
  \<open>send\<close> has been called once or waits in the queue, and has been called once the socket is
  closed.
\<close>

theorem socket_invariant:
  assumes "reachable us_init (us_step iovMax sk rk) (s, k, cbs)" and "kernel_laws iovMax sk rk out"
  shows "us_handler s = handler_events (us_events s) \<and>
    (if us_open s
     then us_events s = wanted_events s \<and> us_timeout s = (us_sendQueue s \<noteq> []) \<and>
       (us_closeStarted s \<longrightarrow> us_sendQueue s \<noteq> [] \<and> us_receiveCallback s = None)
     else us_closeStarted s \<and> us_events s = 0 \<and> \<not> us_timeout s \<and> us_receiveCallback s = None \<and> us_sendQueue s = []) \<and>
    mset (completed (us_log s)) + mset (pending (us_sendQueue s)) = cbs \<and>
    (\<not> us_open s \<longrightarrow> mset (completed (us_log s)) = cbs)"
proof -
  have "us_inv s" and "reported s = cbs"
    using us_system.reachable_inv [OF assms(1), of out] assms(2) by (simp_all add: us_sys_inv_def)
  then show ?thesis by (auto simp: us_inv_def reported_def split: if_splits)
qed

text \<open>
  C26: the queue and the stream.  \<open>send\<close> on an open socket appends the stream of its message
  to what is pending, and \<open>trySend\<close> only moves bytes from the pending stream to the kernel, in
  order: what has left the socket and what is pending is always the concatenation of the
  streams of the accepted messages, up to the point where an error closes the socket.
\<close>

theorem socket_send_stream:
  assumes "us_inv s" and "\<not> us_closeStarted s" and "send_kernel sk out" and "0 < iovMax"
    and "send_message iovMax sk True msg cb s k = (s', k', r)"
  shows "us_inv s' \<and> r = Inr () \<and>
    (\<exists>rest. out k' @ rest = out k @ pending_stream s @ wire msg \<and> (us_open s' \<longrightarrow> rest = pending_stream s')) \<and>
    (case trySend iovMax sk s k of (s2, k2, r2) \<Rightarrow> out k2 @ pending_stream s2 = out k @ pending_stream s)"
proof -
  have op: "us_open s" using assms(1,2) by (simp add: us_inv_def split: if_splits)
  obtain s2 k2 r2 where t: "trySend iovMax sk s k = (s2, k2, r2)" by (metis prod_cases3)
  show ?thesis
    using send_message_spec [OF assms(5,1,3,4,2)] trySend_spec(4) [OF t us_inv_running [OF assms(1) op] assms(3,4)] t
    by simp
qed

section \<open>A sample socket\<close>

definition sample_socket :: us_state where
  "sample_socket =
     \<lparr>us_eventBase = Some 0, us_open = True, us_closeStarted = False, us_events = 0, us_handler = 0, us_timeout = False,
      us_maxDataLength = 1024 * 1024 * 1024, us_maxFiles = 100000, us_sendTimeout = 250,
      us_receiveCallback = None, us_hdrBuf = replicate kHeaderLength 0, us_hbr = 0,
      us_recvHeader = \<lparr>protocolID = 0, dataSize = 0, numFiles = 0\<rparr>, us_recvData = [], us_recvFiles = [],
      us_sendQueue = [], us_log = []\<rparr>"

definition no_recv :: "'k recvmsg" where
  "no_recv n k = (RecvError EAGAIN, k)"

lemma sample_laws: "kernel_laws 1024 sample_send no_recv id"
  by (simp add: kernel_laws_def sample_send_law recv_bounded_def no_recv_def)

definition sample_message :: us_message where
  "sample_message = \<lparr>msg_data = [[1, 2], [], [3]], msg_files = [7, 8]\<rparr>"

lemma sample_init: "us_init (sample_socket, [], {#})"
  by (auto simp: us_init_def UnixSocket_def sample_socket_def)

theorem socket_invariant_witness:
  "\<exists>s k r. send_message 1024 sample_send True sample_message (Some 5) sample_socket [] = (s, k, r) \<and>
     mset (completed (us_log s)) + mset (pending (us_sendQueue s)) = {#5#}"
proof -
  obtain s k r where t: "send_message 1024 sample_send True sample_message (Some 5) sample_socket [] = (s, k, r)"
    by (metis prod_cases3)
  have "us_step 1024 sample_send no_recv (sample_socket, [], {#}) (s, k, {#} + mset (cb_list (Some 5)))"
    by (rule step_send [OF t]) simp
  then have "reachable us_init (us_step 1024 sample_send no_recv) (s, k, {#5#})"
    using reach_step [of us_init, OF reach_init [of us_init, OF sample_init]] by (simp add: cb_list_def)
  from socket_invariant [OF this sample_laws] t show ?thesis by blast
qed

lemma sample_socket_inv: "us_inv sample_socket" "\<not> us_closeStarted sample_socket" "pending_stream sample_socket = []"
  by (simp_all add: us_inv_def sample_socket_def wanted_events_def handler_events_def queue_ok_def pending_stream_def)

theorem socket_send_stream_witness:
  "\<exists>s k rest. send_message 1024 sample_send True sample_message (Some 5) sample_socket [] = (s, k, Inr ()) \<and>
     k @ rest = wire sample_message"
proof -
  obtain s k r where t: "send_message 1024 sample_send True sample_message (Some 5) sample_socket [] = (s, k, r)"
    by (metis prod_cases3)
  from socket_send_stream [OF sample_socket_inv(1,2) sample_send_law _ t] t show ?thesis
    by (auto simp: sample_socket_inv(3))
qed

end
