(* ===== verification/Socket_Receive.thy ===== *)
theory Socket_Receive
  imports Socket_Protocol
begin

text \<open>
  Receiving the stream of a sequence of messages: \<open>recv_pos\<close> is the state of the receiver
  after \<open>j\<close> items of the stream of a message, and every call of \<open>tryReceiveOne\<close> moves to a
  later position or completes the message, whatever pieces the kernel returns.
\<close>

section \<open>The kernel\<close>

definition control :: "fd list \<Rightarrow> cmsg list" where
  "control fds =
     (if fds = [] then []
      else [\<lparr>cmsg_level = SOL_SOCKET, cmsg_type = SCM_RIGHTS, cmsg_dataLength = 4 * length fds, cmsg_fds = fds\<rparr>])"

text \<open>
  What is used of \<open>recvmsg\<close> on a stream socket; \<open>inp\<close> is the stream that has not been read.
  It returns some of the next bytes, at least one unless there is none, together with their
  descriptors.
\<close>

definition recv_outcome :: "item list \<Rightarrow> nat \<Rightarrow> recv_result \<Rightarrow> item list \<Rightarrow> bool" where
  "recv_outcome items n q items' =
     (case q of
        RecvError e \<Rightarrow> items' = items
      | Received bs cs fl er \<Rightarrow>
          fl \<noteq> MSG_CTRUNC \<and>
          (\<exists>m \<le> n. m \<le> length items \<and> (items \<noteq> [] \<longrightarrow> 0 < m) \<and> bs = map fst (take m items) \<and>
             cs = control (concat (map snd (take m items))) \<and> items' = drop m items))"

definition recv_stream :: "'k recvmsg \<Rightarrow> ('k \<Rightarrow> item list) \<Rightarrow> bool" where
  "recv_stream rk inp = (\<forall>n k. 0 < n \<longrightarrow> recv_outcome (inp k) n (fst (rk n k)) (inp (snd (rk n k))))"

lemma control_data:
  "processReceivedControlData (control fds) s = (s\<lparr>us_recvFiles := us_recvFiles s @ fds\<rparr>, Inr ())"
  by (simp add: control_def processReceivedFiles_def)

lemma callRecvMsg_stream:
  assumes "recv_stream rk inp" and "0 < n" and "callRecvMsg rk n s k = (s', k', r)"
  obtains (error) e where "s' = s" and "inp k' = inp k" and "r = (if e = EAGAIN then Inr None else Inl (SystemError e))"
      and "fst (rk n k) = RecvError e"
  | (bytes) m where "m \<le> n" and "m \<le> length (inp k)" and "inp k \<noteq> [] \<Longrightarrow> 0 < m"
      and "s' = s\<lparr>us_recvFiles := us_recvFiles s @ concat (map snd (take m (inp k)))\<rparr>"
      and "r = Inr (Some (map fst (take m (inp k))))" and "inp k' = drop m (inp k)"
proof -
  obtain q k1 where q: "rk n k = (q, k1)" by (cases "rk n k")
  have o: "recv_outcome (inp k) n q (inp k1)" using assms(1,2) q unfolding recv_stream_def by (metis fst_conv snd_conv)
  show ?thesis
  proof (cases q)
    case (RecvError e)
    then have "s' = s \<and> k' = k1 \<and> r = (if e = EAGAIN then Inr None else Inl (SystemError e))"
      using assms(3) q by (auto simp: callRecvMsg_def)
    with RecvError o q show ?thesis by (intro error [of e]) (simp_all add: recv_outcome_def)
  next
    case (Received bs cs fl er)
    then obtain m where m: "fl \<noteq> MSG_CTRUNC" "m \<le> n" "m \<le> length (inp k)" "inp k \<noteq> [] \<longrightarrow> 0 < m"
        "bs = map fst (take m (inp k))" "cs = control (concat (map snd (take m (inp k))))" "inp k1 = drop m (inp k)"
      using o by (auto simp: recv_outcome_def)
    then have "s' = s\<lparr>us_recvFiles := us_recvFiles s @ concat (map snd (take m (inp k)))\<rparr> \<and> k' = k1 \<and> r = Inr (Some bs)"
      using assms(3) q Received by (simp add: callRecvMsg_def control_data)
    with m show ?thesis by (intro bytes [of m]) simp_all
  qed
qed

section \<open>Positions in the stream of a message\<close>

abbreviation body :: "us_message \<Rightarrow> byte list" where
  "body m \<equiv> concat (msg_data m)"

definition body_end :: "us_message \<Rightarrow> nat" where
  "body_end m = kHeaderLength + length (body m)"

lemma message_header_length [simp]: "length (message_header m) = kHeaderLength"
  by (simp add: message_header_def)

lemma attach_fst [simp]: "map fst (attach fds bs) = bs"
  by (cases bs) (auto simp: comp_def)

lemma attach_length [simp]: "length (attach fds bs) = length bs"
  by (cases bs) auto

lemma attach_slice_fds:
  "concat (map snd (take q (drop j (attach fds bs)))) = (if j = 0 \<and> 0 < q \<and> bs \<noteq> [] then fds else [])"
proof (cases bs)
  case (Cons b cs)
  then show ?thesis by (cases j; cases q) (auto simp: drop_map take_map)
qed simp

lemma wire_prefix:
  assumes "j + q \<le> body_end m"
  shows "map fst (take q (drop j (wire m))) = take q (drop j (message_header m @ body m))"
    and "concat (map snd (take q (drop j (wire m)))) = (if j = 0 \<and> 0 < q then take kMaxFDs (msg_files m) else [])"
proof -
  let ?a = "attach (take kMaxFDs (msg_files m)) (message_header m @ body m)"
  have "take q (drop j (wire m)) = take q (drop j ?a)"
    using assms by (simp add: wire_def body_end_def)
  moreover have "message_header m @ body m \<noteq> []"
    using message_header_length [of m] by (auto simp: kHeaderLength_def simp del: message_header_length)
  moreover have "map fst (take q (drop j ?a)) = take q (drop j (message_header m @ body m))"
    by (simp only: take_map [symmetric] drop_map [symmetric] attach_fst)
  ultimately show "map fst (take q (drop j (wire m))) = take q (drop j (message_header m @ body m))"
    and "concat (map snd (take q (drop j (wire m)))) = (if j = 0 \<and> 0 < q then take kMaxFDs (msg_files m) else [])"
    by (simp_all only: attach_slice_fds if_True simp_thms not_False_eq_True)
qed

lemma fd_items_drop: "drop i (fd_items fs) = fd_items (drop (i * kMaxFDs) fs)"
proof (induction i arbitrary: fs)
  case (Suc i)
  show ?case
  proof (cases "fs = []")
    case False
    then show ?thesis using Suc by (simp add: fd_items_Cons add.commute)
  next
    case True
    have "fd_items [] = []" by simp
    with True show ?thesis by (simp only: drop_Nil)
  qed
qed simp

lemma wire_tail: "drop (body_end m + i) (wire m) = fd_items (drop (Suc i * kMaxFDs) (msg_files m))"
  by (simp add: wire_def body_end_def fd_items_drop add.commute)

lemma wire_done: "drop (body_end m + i) (wire m) = [] \<longleftrightarrow> length (msg_files m) \<le> Suc i * kMaxFDs"
  by (simp add: wire_tail)

lemma body_end_le: "body_end m \<le> length (wire m)"
  by (simp add: wire_def body_end_def)

definition sent_header :: "us_message \<Rightarrow> us_header" where
  "sent_header m = \<lparr>protocolID = kProtocolID, dataSize = of_nat (length (body m)), numFiles = of_nat (length (msg_files m))\<rparr>"

definition recv_pos :: "us_message \<Rightarrow> nat \<Rightarrow> us_state \<Rightarrow> bool" where
  "recv_pos m j s =
     (length (us_hdrBuf s) = kHeaderLength \<and>
      (if j < kHeaderLength
       then us_hbr s = j \<and> take j (us_hdrBuf s) = take j (message_header m) \<and> us_recvData s = [] \<and>
         us_recvFiles s = (if j = 0 then [] else take kMaxFDs (msg_files m))
       else us_hbr s = kHeaderLength \<and> us_recvHeader s = sent_header m \<and> us_recvData s = take (j - kHeaderLength) (body m) \<and>
         us_recvFiles s = take (Suc (j - body_end m) * kMaxFDs) (msg_files m)))"

text \<open>The messages that the limits of a socket, and the widths of the header, admit.\<close>

definition acceptable :: "us_state \<Rightarrow> us_message \<Rightarrow> bool" where
  "acceptable s m =
     (length (body m) \<le> unat (us_maxDataLength s) \<and> length (msg_files m) \<le> unat (us_maxFiles s))"

definition quiet :: "us_state \<Rightarrow> us_state \<Rightarrow> bool" where
  "quiet s s' =
     (us_log s' = us_log s \<and> us_receiveCallback s' = us_receiveCallback s \<and>
      us_maxDataLength s' = us_maxDataLength s \<and> us_maxFiles s' = us_maxFiles s)"

lemma quiet_trans: "quiet s t \<Longrightarrow> quiet t u \<Longrightarrow> quiet s u"
  by (simp add: quiet_def)

lemma quiet_acceptable: "quiet s t \<Longrightarrow> acceptable t m = acceptable s m"
  by (simp add: quiet_def acceptable_def)

lemma acceptable_sizes:
  assumes "acceptable s m"
  shows "unat (dataSize (sent_header m)) = length (body m)" and "unat (numFiles (sent_header m)) = length (msg_files m)"
    and "dataSize (sent_header m) \<le> us_maxDataLength s" and "numFiles (sent_header m) \<le> us_maxFiles s"
proof -
  have "unat w < 2 ^ 32" for w :: "32 word" using unsigned_less [of w] by simp
  from this [of "us_maxDataLength s"] this [of "us_maxFiles s"]
  have "length (body m) < 2 ^ 32" "length (msg_files m) < 2 ^ 32" using assms by (simp_all add: acceptable_def)
  then show d: "unat (dataSize (sent_header m)) = length (body m)"
    and f: "unat (numFiles (sent_header m)) = length (msg_files m)"
    by (simp_all add: sent_header_def unat_of_nat)
  show "dataSize (sent_header m) \<le> us_maxDataLength s" and "numFiles (sent_header m) \<le> us_maxFiles s"
    using assms d f by (simp_all add: acceptable_def word_le_nat_alt)
qed

text \<open>The kernel has an answer whenever there is something to read.\<close>

definition recv_ready :: "'k recvmsg \<Rightarrow> ('k \<Rightarrow> item list) \<Rightarrow> bool" where
  "recv_ready rk inp = (\<forall>n k e. 0 < n \<and> inp k \<noteq> [] \<longrightarrow> fst (rk n k) \<noteq> RecvError e)"

text \<open>
  A stage of the receiver goes from the position \<open>j\<close> towards \<open>d\<close>: it reports success exactly
  when it gets there, and otherwise stays before it.
\<close>

definition stage ::
  "'k recvmsg \<Rightarrow> ('k \<Rightarrow> item list) \<Rightarrow> us_message \<Rightarrow> item list \<Rightarrow> us_state \<Rightarrow> nat \<Rightarrow> us_state \<Rightarrow> 'k \<Rightarrow> bool result \<Rightarrow> nat \<Rightarrow> bool" where
  "stage rk inp m rest s j s' k' r d =
     (quiet s s' \<and> (\<forall>e. r = Inl e \<longrightarrow> (\<exists>n. e = SystemError n) \<and> \<not> recv_ready rk inp) \<and>
      (\<exists>j' \<ge> j. (if r = Inr True then j' = max j d else j' < d) \<and> recv_pos m j' s' \<and> inp k' = drop j' (wire m) @ rest \<and>
         (recv_ready rk inp \<and> j < d \<longrightarrow> j < j')))"

lemma recv_pos_header_step:
  assumes pos: "recv_pos m j s" and j: "j < kHeaderLength" and q: "0 < q" "j + q \<le> kHeaderLength"
  defines "s' \<equiv> s\<lparr>us_recvFiles := us_recvFiles s @ (if j = 0 then take kMaxFDs (msg_files m) else []),
    us_hdrBuf := take j (us_hdrBuf s) @ take q (drop j (message_header m)) @ drop (j + q) (us_hdrBuf s), us_hbr := j + q\<rparr>"
  shows "take (j + q) (us_hdrBuf s') = take (j + q) (message_header m)" and "length (us_hdrBuf s') = kHeaderLength"
    and "us_recvFiles s' = take kMaxFDs (msg_files m)" and "us_recvData s' = []" and "us_hbr s' = j + q"
proof -
  have b: "length (us_hdrBuf s) = kHeaderLength" "take j (us_hdrBuf s) = take j (message_header m)"
      "us_recvFiles s = (if j = 0 then [] else take kMaxFDs (msg_files m))" "us_recvData s = []"
    using pos j by (auto simp: recv_pos_def)
  have "take (j + q) (us_hdrBuf s') = take j (message_header m) @ take q (drop j (message_header m))"
    using b(1) q j by (auto simp: s'_def b(2) min_def)
  then show "take (j + q) (us_hdrBuf s') = take (j + q) (message_header m)" by (simp add: take_add)
  show "length (us_hdrBuf s') = kHeaderLength" using b(1) q j by (simp add: s'_def)
  show "us_recvFiles s' = take kMaxFDs (msg_files m)" using b(3) by (simp add: s'_def)
  show "us_recvData s' = []" and "us_hbr s' = j + q" using b(4) by (simp_all add: s'_def)
qed

lemma stage_stay:
  assumes "recv_pos m j s" and "inp k' = drop j (wire m) @ rest" and "j < d" and "\<not> recv_ready rk inp"
  shows "stage rk inp m rest s j s k' (if e = EAGAIN then Inr False else Inl (SystemError e)) d"
  using assms by (auto simp: stage_def quiet_def)

lemma receive_header_stage:
  assumes st: "recv_stream rk inp" and pos: "recv_pos m j s" and inp: "inp k = drop j (wire m) @ rest"
    and acc: "acceptable s m" and h: "receive_header rk s k = (s', k', r)"
  shows "stage rk inp m rest s j s' k' r kHeaderLength"
proof (cases "j < kHeaderLength")
  case False
  then have "s' = s" "k' = k" "r = Inr True" using h pos by (auto simp: receive_header_def recv_pos_def)
  then show ?thesis using pos inp False by (auto simp: stage_def quiet_def intro!: exI [of _ j])
next
  case j: True
  have hbr: "us_hbr s = j" using pos j by (simp add: recv_pos_def)
  have len: "kHeaderLength \<le> length (wire m)" using body_end_le [of m] by (simp add: body_end_def)
  obtain s1 k1 r1 where c: "callRecvMsg rk (kHeaderLength - j) s k = (s1, k1, r1)" by (metis prod_cases3)
  show ?thesis
  proof (rule callRecvMsg_stream [OF st _ c])
    show "0 < kHeaderLength - j" using j by simp
  next
    fix e assume e: "s1 = s" "inp k1 = inp k" "r1 = (if e = EAGAIN then Inr None else Inl (SystemError e))"
      "fst (rk (kHeaderLength - j) k) = RecvError e"
    have nr: "\<not> recv_ready rk inp" unfolding recv_ready_def using e(4) j inp len by fastforce
    have eq: "s' = s" "k' = k1" "r = (if e = EAGAIN then Inr False else Inl (SystemError e))"
      using h hbr j c e by (cases "e = EAGAIN"; simp add: receive_header_def tryReceiveHeader_def)+
    show ?thesis unfolding eq using e(2) inp by (intro stage_stay [OF pos _ j nr]) simp
  next
    fix q assume q: "q \<le> kHeaderLength - j" "q \<le> length (inp k)" "inp k \<noteq> [] \<Longrightarrow> 0 < q"
      "s1 = s\<lparr>us_recvFiles := us_recvFiles s @ concat (map snd (take q (inp k)))\<rparr>"
      "r1 = Inr (Some (map fst (take q (inp k))))" "inp k1 = drop q (inp k)"
    have q0: "0 < q" using q(3) inp j len by simp
    have jq: "j + q \<le> kHeaderLength" using q(1) j by simp
    have tk: "take q (inp k) = take q (drop j (wire m))" and dr: "inp k1 = drop (j + q) (wire m) @ rest"
      using q(6) inp jq len by (simp_all add: add.commute)
    have "map fst (take q (inp k)) = take q (drop j (message_header m))"
      and fds: "concat (map snd (take q (inp k))) = (if j = 0 then take kMaxFDs (msg_files m) else [])"
      using wire_prefix [of j q m] jq q0 by (auto simp: tk body_end_def)
    then have r1: "r1 = Inr (Some (take q (drop j (message_header m))))" using q(5) by simp
    have lb: "length (take q (drop j (message_header m))) = q" using jq by simp
    define s2 where "s2 = s\<lparr>us_recvFiles := us_recvFiles s @ (if j = 0 then take kMaxFDs (msg_files m) else []),
      us_hdrBuf := take j (us_hdrBuf s) @ take q (drop j (message_header m)) @ drop (j + q) (us_hdrBuf s), us_hbr := j + q\<rparr>"
    note s2 = recv_pos_header_step [OF pos j q0 jq, folded s2_def]
    have th: "tryReceiveHeader rk s k = (s2, k1, Inr (j + q = kHeaderLength))"
      using c q(4) r1 hbr q0 lb fds j by (simp add: tryReceiveHeader_def s2_def Let_def)
    have qu: "quiet s s2" by (simp add: s2_def quiet_def)
    show ?thesis
    proof (cases "j + q = kHeaderLength")
      case False
      then have "recv_pos m (j + q) s2" using s2 jq q0 by (simp add: recv_pos_def)
      moreover have "s' = s2" "k' = k1" "r = Inr False" using h hbr j th False by (auto simp: receive_header_def)
      ultimately show ?thesis using qu dr q0 jq False by (auto simp: stage_def intro!: exI [of _ "j + q"])
    next
      case full: True
      have buf: "us_hdrBuf s2 = message_header m" using s2(1,2) by (simp add: full)
      define s3 where "s3 = (if dataSize (sent_header m) > 0 then s2\<lparr>us_recvHeader := sent_header m, us_recvData := []\<rparr>
          else s2\<lparr>us_recvHeader := sent_header m\<rparr>)"
      have sizes: "dataSize (sent_header m) \<le> us_maxDataLength s2" "numFiles (sent_header m) \<le> us_maxFiles s2"
        using acceptable_sizes(3,4) [of s2 m] acc quiet_acceptable [OF qu] by simp_all
      have "deserializeHeader (us_hdrBuf s2) = sent_header m"
        by (simp add: buf message_header_def deserialize_serialize sent_header_def)
      then have "checkHeader s2 = (s3, Inr ())"
        using sizes by (simp add: checkHeader_def s3_def Let_def not_less) (simp add: sent_header_def)
      then have "s' = s3" "k' = k1" "r = Inr True" using h hbr j th full by (auto simp: receive_header_def)
      moreover have "recv_pos m kHeaderLength s3"
        using s2 full by (simp add: recv_pos_def s3_def body_end_def)
      moreover have "quiet s s3" using qu by (simp add: s3_def quiet_def)
      ultimately show ?thesis using dr full j by (auto simp: stage_def intro!: exI [of _ kHeaderLength])
    qed
  qed
qed

lemma receive_data_stage:
  assumes st: "recv_stream rk inp" and pos: "recv_pos m j s" and inp: "inp k = drop j (wire m) @ rest"
    and acc: "acceptable s m" and h: "receive_data rk s k = (s', k', r)" and j: "kHeaderLength \<le> j"
  shows "stage rk inp m rest s j s' k' r (body_end m)"
proof -
  have b: "us_hbr s = kHeaderLength" "us_recvHeader s = sent_header m" "us_recvData s = take (j - kHeaderLength) (body m)"
      "us_recvFiles s = take (Suc (j - body_end m) * kMaxFDs) (msg_files m)" "length (us_hdrBuf s) = kHeaderLength"
    using pos j by (auto simp: recv_pos_def)
  note size = acceptable_sizes(1) [OF acc]
  show ?thesis
  proof (cases "j < body_end m")
    case False
    then have "s' = s" "k' = k" "r = Inr True" using h b size j by (auto simp: receive_data_def body_end_def)
    then show ?thesis using pos inp False by (auto simp: stage_def quiet_def intro!: exI [of _ j])
  next
    case lt: True
    have n: "unat (dataSize (us_recvHeader s)) - length (us_recvData s) = body_end m - j"
      using b size lt j by (simp add: body_end_def)
    have rd: "receive_data rk s k = tryReceiveData rk s k"
      using b size lt j by (auto simp: receive_data_def body_end_def)
    obtain s1 k1 r1 where c: "callRecvMsg rk (body_end m - j) s k = (s1, k1, r1)" by (metis prod_cases3)
    have len: "body_end m \<le> length (wire m)" by (rule body_end_le)
    show ?thesis
    proof (rule callRecvMsg_stream [OF st _ c])
      show "0 < body_end m - j" using lt by simp
    next
      fix e assume e: "s1 = s" "inp k1 = inp k" "r1 = (if e = EAGAIN then Inr None else Inl (SystemError e))"
        "fst (rk (body_end m - j) k) = RecvError e"
      have nr: "\<not> recv_ready rk inp" unfolding recv_ready_def using e(4) lt inp len by fastforce
      have eq: "s' = s" "k' = k1" "r = (if e = EAGAIN then Inr False else Inl (SystemError e))"
        using h rd c e by (cases "e = EAGAIN"; simp add: tryReceiveData_def n)+
      show ?thesis unfolding eq using e(2) inp by (intro stage_stay [OF pos _ lt nr]) simp
    next
      fix q assume q: "q \<le> body_end m - j" "q \<le> length (inp k)" "inp k \<noteq> [] \<Longrightarrow> 0 < q"
        "s1 = s\<lparr>us_recvFiles := us_recvFiles s @ concat (map snd (take q (inp k)))\<rparr>"
        "r1 = Inr (Some (map fst (take q (inp k))))" "inp k1 = drop q (inp k)"
      have q0: "0 < q" using q(3) inp lt len by simp
      have jq: "j + q \<le> body_end m" using q(1) lt by simp
      have tk: "take q (inp k) = take q (drop j (wire m))" and dr: "inp k1 = drop (j + q) (wire m) @ rest"
        using q(6) inp jq len by (simp_all add: add.commute)
      have j0: "j \<noteq> 0" using j by (simp add: kHeaderLength_def)
      have bs: "map fst (take q (inp k)) = take q (drop (j - kHeaderLength) (body m))"
        and fds: "concat (map snd (take q (inp k))) = []"
        using wire_prefix [of j q m] jq q0 j j0 by (auto simp: tk)
      define ds where "ds = take q (drop (j - kHeaderLength) (body m))"
      have lb: "length ds = q" using jq j by (simp add: body_end_def ds_def)
      then have ne: "ds \<noteq> []" using q0 by auto
      define s2 where "s2 = s\<lparr>us_recvData := us_recvData s @ ds\<rparr>"
      have "s1 = s" using q(4) fds by simp
      moreover have "r1 = Inr (Some ds)" using q(5) bs by (simp add: ds_def)
      ultimately have "tryReceiveData rk s k = (s2, k1, Inr (q = body_end m - j))"
        using c ne lb by (simp add: tryReceiveData_def n Let_def s2_def)
      then have eq: "s' = s2" "k' = k1" "r = Inr (j + q = body_end m)" using h rd jq by auto
      have "recv_pos m (j + q) s2"
        using b j jq lt by (simp add: recv_pos_def s2_def ds_def Nat.add_diff_assoc2 flip: take_add)
      moreover have "quiet s s2" by (simp add: s2_def quiet_def)
      ultimately show ?thesis unfolding eq using dr q0 jq lt by (auto simp: stage_def intro!: exI [of _ "j + q"])
    qed
  qed
qed

lemma receive_files_stage:
  assumes st: "recv_stream rk inp" and pos: "recv_pos m j s" and inp: "inp k = drop j (wire m) @ rest"
    and acc: "acceptable s m" and h: "receive_files rk s k = (s', k', r)" and j: "body_end m \<le> j" "j \<le> length (wire m)"
  shows "stage rk inp m rest s j s' k' r (length (wire m))"
proof -
  obtain i where i: "j = body_end m + i" using j(1) le_Suc_ex by blast
  have b: "us_hbr s = kHeaderLength" "us_recvHeader s = sent_header m" "us_recvData s = body m"
      "us_recvFiles s = take (Suc i * kMaxFDs) (msg_files m)" "length (us_hdrBuf s) = kHeaderLength"
    using pos by (auto simp: recv_pos_def i body_end_def)
  note size = acceptable_sizes(2) [OF acc]
  have rem: "j < length (wire m) \<longleftrightarrow> Suc i * kMaxFDs < length (msg_files m)"
    using wire_done [of m i] by (auto simp: i not_le)
  show ?thesis
  proof (cases "j < length (wire m)")
    case False
    then have "s' = s" "k' = k" "r = Inr True" using h b size rem by (auto simp: receive_files_def)
    then show ?thesis using pos inp False by (auto simp: stage_def quiet_def intro!: exI [of _ j])
  next
    case lt: True
    have rf: "receive_files rk s k = tryReceiveFiles rk s k"
      using b size lt rem by (auto simp: receive_files_def)
    obtain s1 k1 r1 where c: "callRecvMsg rk 1 s k = (s1, k1, r1)" by (metis prod_cases3)
    show ?thesis
    proof (rule callRecvMsg_stream [OF st _ c])
      show "0 < (1::nat)" by simp
    next
      fix e assume e: "s1 = s" "inp k1 = inp k" "r1 = (if e = EAGAIN then Inr None else Inl (SystemError e))"
        "fst (rk 1 k) = RecvError e"
      have nr: "\<not> recv_ready rk inp" unfolding recv_ready_def using e(4) lt inp by fastforce
      have eq: "s' = s" "k' = k1" "r = (if e = EAGAIN then Inr False else Inl (SystemError e))"
        using h rf c e by (cases "e = EAGAIN"; simp add: tryReceiveFiles_def)+
      show ?thesis unfolding eq using e(2) inp by (intro stage_stay [OF pos _ lt nr]) simp
    next
      fix q assume q: "q \<le> 1" "q \<le> length (inp k)" "inp k \<noteq> [] \<Longrightarrow> 0 < q"
        "s1 = s\<lparr>us_recvFiles := us_recvFiles s @ concat (map snd (take q (inp k)))\<rparr>"
        "r1 = Inr (Some (map fst (take q (inp k))))" "inp k1 = drop q (inp k)"
      have q1: "q = 1" using q(1,3) inp lt by simp
      let ?rest = "drop (Suc i * kMaxFDs) (msg_files m)"
      have "drop j (wire m) = (0, take kMaxFDs ?rest) # fd_items (drop kMaxFDs ?rest)"
        using rem lt unfolding i wire_tail by (intro fd_items_Cons) simp
      then have tk: "take q (inp k) = [(0, take kMaxFDs ?rest)]" by (simp add: inp q1)
      have dr: "inp k1 = drop (j + 1) (wire m) @ rest" using q(6) inp q1 lt by (simp add: drop_Suc drop_tl)
      define s2 where "s2 = s\<lparr>us_recvFiles := take (Suc (Suc i) * kMaxFDs) (msg_files m)\<rparr>"
      have s1: "s1 = s2"
        using q(4) b(4) tk take_add [of "Suc i * kMaxFDs" kMaxFDs "msg_files m"] by (simp add: s2_def add.commute)
      have full: "length (us_recvFiles s2) = length (msg_files m) \<longleftrightarrow> j + 1 = length (wire m)"
        using wire_done [of m "Suc i"] lt by (auto simp: s2_def i)
      have eq: "s' = s2" "k' = k1" "r = Inr (j + 1 = length (wire m))"
        using h rf c s1 q(5) tk size b(2) full by (auto simp: tryReceiveFiles_def s2_def)
      have "recv_pos m (j + 1) s2" using b by (simp add: recv_pos_def s2_def i body_end_def)
      moreover have "quiet s s2" by (simp add: s2_def quiet_def)
      ultimately show ?thesis unfolding eq using dr lt by (auto simp: stage_def intro!: exI [of _ "j + 1"])
    qed
  qed
qed

lemma stage_trans:
  assumes "stage rk inp m rest s j s1 k1 (Inr True) d1" and "d1 \<le> d2"
    and "\<And>j1. recv_pos m j1 s1 \<Longrightarrow> inp k1 = drop j1 (wire m) @ rest \<Longrightarrow> j1 = max j d1 \<Longrightarrow> stage rk inp m rest s1 j1 s2 k2 r d2"
  shows "stage rk inp m rest s j s2 k2 r d2"
proof -
  obtain j1 where 1: "j \<le> j1" "j1 = max j d1" "recv_pos m j1 s1" "inp k1 = drop j1 (wire m) @ rest"
      "recv_ready rk inp \<and> j < d1 \<longrightarrow> j < j1" "quiet s s1"
    using assms(1) by (auto simp: stage_def)
  from assms(3) [OF 1(3,4,2)] obtain j2 where 2: "j1 \<le> j2" "if r = Inr True then j2 = max j1 d2 else j2 < d2"
      "recv_pos m j2 s2" "inp k2 = drop j2 (wire m) @ rest" "recv_ready rk inp \<and> j1 < d2 \<longrightarrow> j1 < j2" "quiet s1 s2"
      "\<forall>e. r = Inl e \<longrightarrow> (\<exists>n. e = SystemError n) \<and> \<not> recv_ready rk inp"
    by (auto simp: stage_def)
  have "if r = Inr True then j2 = max j d2 else j2 < d2" using 1(2) 2(2) assms(2) by (auto split: if_splits)
  moreover have "recv_ready rk inp \<and> j < d2 \<longrightarrow> j < j2" using 1(2,5) 2(1,5) by auto
  ultimately show ?thesis
    using 1(1,6) 2 quiet_trans unfolding stage_def by (intro conjI exI [of _ j2]) auto
qed

lemma stage_stop:
  assumes "stage rk inp m rest s j s' k' r d1" and "d1 \<le> d2" and "r \<noteq> Inr True"
  shows "stage rk inp m rest s j s' k' r d2"
  using assms unfolding stage_def by fastforce

lemma stage_quiet: "stage rk inp m rest s j s' k' r d \<Longrightarrow> acceptable s m \<Longrightarrow> acceptable s' m"
  using quiet_acceptable by (auto simp: stage_def)

lemma tryReceiveOne_stage:
  assumes st: "recv_stream rk inp" and pos: "recv_pos m j s" and inp: "inp k = drop j (wire m) @ rest"
    and acc: "acceptable s m" and t: "tryReceiveOne rk s k = (s', k', r)" and j: "j \<le> length (wire m)"
  shows "stage rk inp m rest s j s' k' r (length (wire m))"
proof -
  obtain s1 k1 r1 where h: "receive_header rk s k = (s1, k1, r1)" by (metis prod_cases3)
  obtain s2 k2 r2 where d: "receive_data rk s1 k1 = (s2, k2, r2)" by (metis prod_cases3)
  obtain s3 k3 r3 where f: "receive_files rk s2 k2 = (s3, k3, r3)" by (metis prod_cases3)
  have le: "kHeaderLength \<le> body_end m" "body_end m \<le> length (wire m)"
    using body_end_le by (simp_all add: body_end_def)
  note H = receive_header_stage [OF st pos inp acc h]
  show ?thesis
  proof (cases "r1 = Inr True")
    case False
    then have "s' = s1" "k' = k1" "r = r1" using t h by (auto simp: tryReceiveOne_def split: sum.splits bool.splits)
    then show ?thesis using stage_stop [OF H _ False] le by simp
  next
    case r1: True
    note acc1 = stage_quiet [OF H acc]
    have D: "stage rk inp m rest s j s2 k2 r2 (body_end m)"
    proof (rule stage_trans [OF H [unfolded r1] le(1)])
      fix j1 assume "recv_pos m j1 s1" "inp k1 = drop j1 (wire m) @ rest" "j1 = max j kHeaderLength"
      then show "stage rk inp m rest s1 j1 s2 k2 r2 (body_end m)"
        by (intro receive_data_stage [OF st _ _ acc1 d]) simp_all
    qed
    show ?thesis
    proof (cases "r2 = Inr True")
      case False
      then have "s' = s2" "k' = k2" "r = r2"
        using t h d r1 by (auto simp: tryReceiveOne_def split: sum.splits bool.splits)
      then show ?thesis using stage_stop [OF D _ False] le by simp
    next
      case r2: True
      have eq: "s' = s3" "k' = k3" "r = r3" using t h d f r1 r2 by (auto simp: tryReceiveOne_def)
      note acc2 = stage_quiet [OF D acc]
      show ?thesis unfolding eq
      proof (rule stage_trans [OF D [unfolded r2] le(2)])
        fix j1 assume "recv_pos m j1 s2" "inp k2 = drop j1 (wire m) @ rest" "j1 = max j (body_end m)"
        then show "stage rk inp m rest s2 j1 s3 k3 r3 (length (wire m))"
          using j le by (intro receive_files_stage [OF st _ _ acc2 f]) simp_all
      qed
    qed
  qed
qed

section \<open>Receiving a sequence of messages\<close>

definition idle :: "us_state \<Rightarrow> bool" where
  "idle s = (length (us_hdrBuf s) = kHeaderLength \<and> us_hbr s = 0 \<and> us_recvData s = [] \<and> us_recvFiles s = [])"

lemma idle_pos: "idle s \<longleftrightarrow> recv_pos m 0 s"
  by (auto simp: idle_def recv_pos_def kHeaderLength_def)

text \<open>The receiver is somewhere in the stream of the messages that are still to come.\<close>

fun at_stream :: "us_state \<Rightarrow> us_message list \<Rightarrow> item list \<Rightarrow> bool" where
  "at_stream s [] items = (items = [] \<and> idle s)"
| "at_stream s (m # ms) items =
     (\<exists>j < length (wire m). recv_pos m j s \<and> items = drop j (wire m) @ concat (map wire ms))"

definition delivered :: "us_message \<Rightarrow> us_message" where
  "delivered m = \<lparr>msg_data = [body m], msg_files = msg_files m\<rparr>"

lemma idle_at_stream: "idle s \<Longrightarrow> at_stream s ms (concat (map wire ms))"
proof (cases ms)
  case (Cons m ms')
  assume "idle s"
  moreover have "0 < length (wire m)" using body_end_le [of m] unfolding body_end_def kHeaderLength_def by linarith
  ultimately show ?thesis using Cons idle_pos [of s m] by (auto intro!: exI [of _ 0])
qed simp

lemma recv_pos_end:
  assumes "recv_pos m (length (wire m)) s"
  shows "us_recvData s = body m" and "us_recvFiles s = msg_files m"
proof -
  obtain i where i: "length (wire m) = body_end m + i" using body_end_le le_Suc_ex by blast
  have "length (msg_files m) \<le> Suc i * kMaxFDs" using wire_done [of m i] i by simp
  then show "us_recvData s = body m" and "us_recvFiles s = msg_files m"
    using assms by (simp_all add: recv_pos_def i body_end_def)
qed

text \<open>On an empty stream the receiver waits, or sees the end of the stream.\<close>

lemma tryReceiveOne_empty:
  assumes st: "recv_stream rk inp" and "idle s" and "inp k = []" and cb: "us_receiveCallback s = Some cb"
    and t: "tryReceiveOne rk s k = (s', k', r)"
  shows "inp k' = [] \<and> idle s' \<and> r \<noteq> Inr True \<and> (\<forall>e. r = Inl e \<longrightarrow> (\<exists>n. e = SystemError n)) \<and>
    (us_log s' = us_log s \<or> us_log s' = us_log s @ [EofReceived cb])"
proof -
  have hbr: "us_hbr s = 0" using assms(2) by (simp add: idle_def)
  obtain s1 k1 r1 where c: "callRecvMsg rk kHeaderLength s k = (s1, k1, r1)" by (metis prod_cases3)
  have pos: "0 < kHeaderLength" by (simp add: kHeaderLength_def)
  show ?thesis
  proof (rule callRecvMsg_stream [OF st pos c])
    fix e assume e: "s1 = s" "inp k1 = inp k" "r1 = (if e = EAGAIN then Inr None else Inl (SystemError e))"
    have eq: "s' = s" "k' = k1" "r = (if e = EAGAIN then Inr False else Inl (SystemError e))"
      using t c e hbr pos by (cases "e = EAGAIN"; simp add: tryReceiveOne_def receive_header_def tryReceiveHeader_def)+
    show ?thesis unfolding eq using assms(2,3) e(2) by simp
  next
    fix q assume q: "q \<le> length (inp k)" "s1 = s\<lparr>us_recvFiles := us_recvFiles s @ concat (map snd (take q (inp k)))\<rparr>"
      "r1 = Inr (Some (map fst (take q (inp k))))" "inp k1 = drop q (inp k)"
    have "s1 = s" "r1 = Inr (Some [])" "inp k1 = []" using q assms(3) by simp_all
    then have "s' = log_event (EofReceived cb) s" "k' = k1" "r = Inr False"
      using t c hbr pos cb by (simp_all add: tryReceiveOne_def receive_header_def tryReceiveHeader_def)
    then show ?thesis using assms(2) \<open>inp k1 = []\<close> by (simp add: log_event_def idle_def)
  qed
qed

text \<open>
  What a run of the receive loop does with a stream: it delivers some of the messages in
  order and stops at a position in the stream of the others.
\<close>

definition receives ::
  "nat \<Rightarrow> us_state \<Rightarrow> us_message list \<Rightarrow> us_state \<Rightarrow> us_message list \<Rightarrow> us_message list \<Rightarrow> item list \<Rightarrow> unit result \<Rightarrow> bool" where
  "receives cb s ms s' done ms' items' r =
     (ms = done @ ms' \<and> at_stream s' ms' items' \<and>
      (us_log s' = us_log s @ map (\<lambda>m. MessageReceived cb (delivered m)) done \<or>
       ms' = [] \<and> us_log s' = us_log s @ map (\<lambda>m. MessageReceived cb (delivered m)) done @ [EofReceived cb]) \<and>
      (\<forall>e. r = Inl e \<longrightarrow> (\<exists>n. e = SystemError n)))"

lemma tryReceive_loop_receives:
  assumes "recv_stream rk inp" and "at_stream s ms (inp k)" and "us_receiveCallback s = Some cb"
    and "\<forall>m \<in> set ms. acceptable s m" and "tryReceive_loop rk n s k = (s', k', r)"
  shows "\<exists>done ms'. receives cb s ms s' done ms' (inp k') r \<and>
    (recv_ready rk inp \<and> 0 < n \<and> inp k \<noteq> [] \<longrightarrow> length (inp k') < length (inp k)) \<and> length (inp k') \<le> length (inp k) \<and>
    (recv_ready rk inp \<and> r \<noteq> Inr () \<longrightarrow> inp k' = [])"
  using assms(2-5)
proof (induction n arbitrary: s k ms)
  case 0
  then have "receives cb s ms s' [] ms (inp k') r" by (auto simp: receives_def)
  moreover have "inp k' = inp k" "r = Inr ()" using 0 by auto
  ultimately show ?case by auto
next
  case (Suc n)
  obtain s1 k1 r1 where t: "tryReceiveOne rk s k = (s1, k1, r1)" by (metis prod_cases3)
  show ?case
  proof (cases ms)
    case Nil
    have e: "inp k1 = [] \<and> idle s1 \<and> r1 \<noteq> Inr True \<and> (\<forall>e. r1 = Inl e \<longrightarrow> (\<exists>n. e = SystemError n)) \<and>
        (us_log s1 = us_log s \<or> us_log s1 = us_log s @ [EofReceived cb])"
      using Suc.prems(1) Nil by (intro tryReceiveOne_empty [OF assms(1) _ _ Suc.prems(2) t]) simp_all
    then have "s' = s1" "k' = k1" "\<forall>e. r = Inl e \<longrightarrow> (\<exists>n. e = SystemError n)"
      using Suc.prems(2,4) t by (cases r1; auto split: bool.splits)+
    then have "receives cb s ms s' [] [] (inp k') r" using e Nil by (auto simp: receives_def)
    then show ?thesis using e Nil Suc.prems(1) \<open>k' = k1\<close> by auto
  next
    case (Cons m ms1)
    then obtain j where j: "j < length (wire m)" "recv_pos m j s" "inp k = drop j (wire m) @ concat (map wire ms1)"
      using Suc.prems(1) by auto
    have sg: "stage rk inp m (concat (map wire ms1)) s j s1 k1 r1 (length (wire m))"
      using Suc.prems(3) Cons j by (intro tryReceiveOne_stage [OF assms(1) j(2,3) _ t]) simp_all
    then obtain j' where j': "j \<le> j'" "if r1 = Inr True then j' = length (wire m) else j' < length (wire m)" "recv_pos m j' s1"
        "inp k1 = drop j' (wire m) @ concat (map wire ms1)" "recv_ready rk inp \<longrightarrow> j < j'" and q: "quiet s s1"
        and er: "\<forall>e. r1 = Inl e \<longrightarrow> (\<exists>n. e = SystemError n) \<and> \<not> recv_ready rk inp"
      using j(1) by (auto simp: stage_def split: if_splits)
    have jl: "j' \<le> length (wire m)" using j'(2) by (auto split: if_splits)
    have len: "length (inp k1) \<le> length (inp k)" "recv_ready rk inp \<longrightarrow> length (inp k1) < length (inp k)"
      using j'(1,4,5) j(1,3) jl by auto
    show ?thesis
    proof (cases "r1 = Inr True")
      case False
      then have "s' = s1" "k' = k1" "\<forall>e. r = Inl e \<longrightarrow> (\<exists>n. e = SystemError n)" "recv_ready rk inp \<longrightarrow> r = Inr ()"
        using Suc.prems(2,4) t er by (cases r1; auto split: bool.splits)+
      moreover from this have "receives cb s ms s' [] ms (inp k') r"
        using False j' q Cons by (auto simp: receives_def quiet_def)
      ultimately show ?thesis using len by blast
    next
      case True
      define s2 where "s2 = log_event (MessageReceived cb \<lparr>msg_data = [us_recvData s1], msg_files = us_recvFiles s1\<rparr>)
          (s1\<lparr>us_hbr := 0, us_recvData := [], us_recvFiles := []\<rparr>)"
      have pe: "recv_pos m (length (wire m)) s1" using j'(2,3) True by simp
      have loop: "tryReceive_loop rk n s2 k1 = (s', k', r)"
        using Suc.prems(2,4) t True by (simp add: s2_def Let_def)
      have "idle s2" using pe by (simp add: idle_def s2_def log_event_def recv_pos_def)
      then have at2: "at_stream s2 ms1 (inp k1)"
        using idle_at_stream [of s2 ms1] j'(2,4) True by simp
      have cb2: "us_receiveCallback s2 = Some cb" using q Suc.prems(2) by (simp add: s2_def log_event_def quiet_def)
      have acc2: "\<forall>m \<in> set ms1. acceptable s2 m"
        using Suc.prems(3) Cons q by (simp add: s2_def log_event_def quiet_def acceptable_def)
      from Suc.IH [OF at2 cb2 acc2 loop] obtain dn ms' where
        r: "receives cb s2 ms1 s' dn ms' (inp k') r" and l: "length (inp k') \<le> length (inp k1)"
          "recv_ready rk inp \<and> r \<noteq> Inr () \<longrightarrow> inp k' = []" by blast
      have "us_log s2 = us_log s @ [MessageReceived cb (delivered m)]"
        using q recv_pos_end [OF pe] by (simp add: s2_def log_event_def quiet_def delivered_def)
      then have "receives cb s ms s' (m # dn) ms' (inp k') r" using r Cons by (simp add: receives_def)
      moreover have "recv_ready rk inp \<longrightarrow> length (inp k') < length (inp k)" "length (inp k') \<le> length (inp k)"
        using len l(1) by auto
      ultimately show ?thesis using l(2) by blast
    qed
  qed
qed

text \<open>Rounds of the event loop in which the socket is readable.\<close>

fun tryReceives :: "'k recvmsg \<Rightarrow> nat \<Rightarrow> us_state \<Rightarrow> 'k \<Rightarrow> us_state \<times> 'k \<times> unit result" where
  "tryReceives rk 0 s k = (s, k, Inr ())"
| "tryReceives rk (Suc n) s k =
     (case tryReceive rk s k of
        (s, k, Inl ew) \<Rightarrow> (s, k, Inl ew)
      | (s, k, Inr _) \<Rightarrow> tryReceives rk n s k)"

lemma at_stream_empty: "at_stream s ms [] \<Longrightarrow> ms = []"
  by (cases ms) auto

lemma tryReceives_all:
  assumes "recv_stream rk inp" and "recv_ready rk inp" and "recv_bounded rk"
    and "at_stream s ms (inp k)" and "us_receiveCallback s = Some cb" and "\<forall>m \<in> set ms. acceptable s m"
    and "tryReceives rk n s k = (s', k', r)" and "length (inp k) \<le> n"
  shows "\<exists>evs. us_log s' = us_log s @ map (\<lambda>m. MessageReceived cb (delivered m)) ms @ evs \<and> set evs \<subseteq> {EofReceived cb}"
  using assms(4-8)
proof (induction n arbitrary: s k ms)
  case 0
  then show ?case using at_stream_empty [of s ms] by auto
next
  case (Suc n)
  obtain s1 k1 r1 where t: "tryReceive rk s k = (s1, k1, r1)" by (metis prod_cases3)
  then have loop: "tryReceive_loop rk maxMessagesAtOnce s k = (s1, k1, r1)" by (simp add: tryReceive_def)
  obtain dn ms' where r: "receives cb s ms s1 dn ms' (inp k1) r1"
    and less: "inp k \<noteq> [] \<longrightarrow> length (inp k1) < length (inp k)" "length (inp k1) \<le> length (inp k)"
    and err: "r1 \<noteq> Inr () \<longrightarrow> inp k1 = []"
    using tryReceive_loop_receives [OF assms(1) Suc.prems(1,2,3) loop] assms(2) by (auto simp: maxMessagesAtOnce_def)
  have fr: "us_receiveCallback s1 = Some cb" "\<forall>m. acceptable s1 m = acceptable s m"
    using tryReceive_loop_frame [OF loop assms(3)] Suc.prems(2) by (auto simp: recv_frame_def acceptable_def)
  have log: "\<exists>ev. us_log s1 = us_log s @ map (\<lambda>m. MessageReceived cb (delivered m)) dn @ ev \<and> set ev \<subseteq> {EofReceived cb} \<and>
      (ms' = [] \<or> ev = [])"
    using r by (auto simp: receives_def)
  have ms: "ms = dn @ ms'" "at_stream s1 ms' (inp k1)" using r by (auto simp: receives_def)
  show ?case
  proof (cases "r1 = Inr ()")
    case False
    then have "s' = s1" using Suc.prems(4) t by (cases r1) auto
    moreover have "ms' = []" using ms(2) err False at_stream_empty by auto
    ultimately show ?thesis using log ms(1) by auto
  next
    case True
    then have rest: "tryReceives rk n s1 k1 = (s', k', r)" using Suc.prems(4) t by simp
    have "length (inp k1) \<le> n" using less Suc.prems(5) by (cases "inp k = []") auto
    from Suc.IH [OF ms(2) fr(1) _ rest this] obtain evs where
      "us_log s' = us_log s1 @ map (\<lambda>m. MessageReceived cb (delivered m)) ms' @ evs" "set evs \<subseteq> {EofReceived cb}"
      using Suc.prems(3) ms(1) fr(2) by auto
    then show ?thesis using log ms(1) by fastforce
  qed
qed

section \<open>Messages from an arbitrary peer\<close>

text \<open>
  Whatever the peer sends, the data that the receiver holds is within the size that the
  header announced, and that is within the limit of the socket.
\<close>

definition recv_safe :: "us_state \<Rightarrow> bool" where
  "recv_safe s =
     (if us_hbr s < kHeaderLength then us_recvData s = []
      else us_hbr s = kHeaderLength \<and> dataSize (us_recvHeader s) \<le> us_maxDataLength s \<and>
        numFiles (us_recvHeader s) \<le> us_maxFiles s \<and> length (us_recvData s) \<le> unat (dataSize (us_recvHeader s)))"

text \<open>A stage that does not fail keeps this, and delivers nothing.\<close>

definition safe_stage :: "us_state \<Rightarrow> us_state \<Rightarrow> bool result \<Rightarrow> bool" where
  "safe_stage s s' r =
     (((\<exists>b. r = Inr b) \<longrightarrow> recv_safe s') \<and> (r = Inr True \<longrightarrow> \<not> us_hbr s' < kHeaderLength) \<and>
      us_maxDataLength s' = us_maxDataLength s \<and> (us_log s' = us_log s \<or> (\<exists>cb. us_log s' = us_log s @ [EofReceived cb]) \<and> r \<noteq> Inr True))"

lemma receive_header_safe:
  assumes "recv_bounded rk" and "recv_safe s" and h: "receive_header rk s k = (s', k', r)"
  shows "safe_stage s s' r"
proof (cases "us_hbr s < kHeaderLength")
  case False
  then have "s' = s" "r = Inr True" using h by (simp_all add: receive_header_def)
  then show ?thesis using assms(2) False by (simp add: safe_stage_def)
next
  case lt: True
  then have d: "us_recvData s = []" using assms(2) by (simp add: recv_safe_def)
  from assms(1) show ?thesis
  proof (cases rule: callRecvMsg_cases [of rk "kHeaderLength - us_hbr s" s k])
    case (error fs k1 ew)
    then have "s' = s\<lparr>us_recvFiles := fs\<rparr>" "r = Inl ew" using h lt by (simp_all add: receive_header_def tryReceiveHeader_def)
    then show ?thesis by (simp add: safe_stage_def)
  next
    case (again fs k1)
    then have "s' = s\<lparr>us_recvFiles := fs\<rparr>" "r = Inr False" using h lt by (simp_all add: receive_header_def tryReceiveHeader_def)
    then show ?thesis using d lt by (simp add: safe_stage_def recv_safe_def)
  next
    case (bytes fs k1 bs)
    show ?thesis
    proof (cases "bs = []")
      case True
      then have "r \<noteq> Inr True \<and> (s' = s\<lparr>us_recvFiles := fs\<rparr> \<or> (\<exists>cb. s' = log_event (EofReceived cb) (s\<lparr>us_recvFiles := fs\<rparr>)))"
        using h lt bytes(1)
        by (cases "us_hbr s = 0"; cases "us_receiveCallback s") (auto simp: receive_header_def tryReceiveHeader_def)
      then show ?thesis using d lt by (auto simp: safe_stage_def recv_safe_def log_event_def)
    next
      case False
      define s1 where "s1 = s\<lparr>us_recvFiles := fs,
        us_hdrBuf := take (us_hbr s) (us_hdrBuf s) @ bs @ drop (us_hbr s + length bs) (us_hdrBuf s),
        us_hbr := us_hbr s + length bs\<rparr>"
      have th: "tryReceiveHeader rk s k = (s1, k1, Inr (us_hbr s + length bs = kHeaderLength))"
        using bytes(1) False by (simp add: tryReceiveHeader_def s1_def Let_def)
      have s1: "us_hbr s1 = us_hbr s + length bs" "us_recvData s1 = []" "us_log s1 = us_log s"
          "us_maxDataLength s1 = us_maxDataLength s"
        by (simp_all add: s1_def d)
      show ?thesis
      proof (cases "us_hbr s + length bs = kHeaderLength")
        case False
        then have "s' = s1" "r = Inr False" using h lt th by (simp_all add: receive_header_def)
        then show ?thesis using s1 bytes(2) False lt by (auto simp: safe_stage_def recv_safe_def)
      next
        case True
        obtain s2 r2 where c: "checkHeader s1 = (s2, r2)" by (cases "checkHeader s1")
        have "s' = s2" "r = (case r2 of Inl e \<Rightarrow> Inl e | Inr _ \<Rightarrow> Inr True)"
          using h lt th True c by (cases r2; simp add: receive_header_def)+
        moreover have "safe_stage s1 s2 (case r2 of Inl e \<Rightarrow> Inl e | Inr _ \<Rightarrow> Inr True)"
          using c s1 True
          by (simp add: checkHeader_def Let_def split: if_splits) (auto simp: safe_stage_def recv_safe_def not_less)
        ultimately show ?thesis using s1 by (simp add: safe_stage_def)
      qed
    qed
  qed
qed

lemma receive_data_safe:
  assumes "recv_bounded rk" and "recv_safe s" and "\<not> us_hbr s < kHeaderLength" and h: "receive_data rk s k = (s', k', r)"
  shows "safe_stage s s' r"
proof (cases "length (us_recvData s) < unat (dataSize (us_recvHeader s))")
  case False
  then have "s' = s" "r = Inr True" using h by (simp_all add: receive_data_def)
  then show ?thesis using assms(2,3) by (simp add: safe_stage_def)
next
  case lt: True
  let ?n = "unat (dataSize (us_recvHeader s)) - length (us_recvData s)"
  have td: "tryReceiveData rk s k = (s', k', r)" using h lt by (simp add: receive_data_def)
  from assms(1) show ?thesis
  proof (cases rule: callRecvMsg_cases [of rk ?n s k])
    case (error fs k1 ew)
    then have "s' = s\<lparr>us_recvFiles := fs\<rparr>" "r = Inl ew" using td by (simp_all add: tryReceiveData_def Let_def)
    then show ?thesis by (simp add: safe_stage_def)
  next
    case (again fs k1)
    then have "s' = s\<lparr>us_recvFiles := fs\<rparr>" "r = Inr False" using td by (simp_all add: tryReceiveData_def Let_def)
    then show ?thesis using assms(2,3) by (simp add: safe_stage_def recv_safe_def)
  next
    case (bytes fs k1 bs)
    show ?thesis
    proof (cases "bs = []")
      case True
      then have "s' = s\<lparr>us_recvFiles := fs\<rparr>" "r = Inl (SystemError ECONNABORTED)"
        using td bytes(1) by (simp_all add: tryReceiveData_def Let_def)
      then show ?thesis by (simp add: safe_stage_def)
    next
      case False
      then have "s' = s\<lparr>us_recvFiles := fs, us_recvData := us_recvData s @ bs\<rparr>" "\<exists>b. r = Inr b"
        using td bytes(1) by (auto simp: tryReceiveData_def Let_def)
      then show ?thesis using assms(2,3) bytes(2) lt by (auto simp: safe_stage_def recv_safe_def)
    qed
  qed
qed

lemma receive_files_safe:
  assumes "recv_bounded rk" and "recv_safe s" and "\<not> us_hbr s < kHeaderLength" and h: "receive_files rk s k = (s', k', r)"
  shows "safe_stage s s' r"
proof (cases "length (us_recvFiles s) < unat (numFiles (us_recvHeader s))")
  case False
  then have "s' = s" "r = Inr True" using h by (simp_all add: receive_files_def)
  then show ?thesis using assms(2,3) by (simp add: safe_stage_def)
next
  case lt: True
  have td: "tryReceiveFiles rk s k = (s', k', r)" using h lt by (simp add: receive_files_def)
  have "\<exists>fs. s' = s\<lparr>us_recvFiles := fs\<rparr>"
    using assms(1)
  proof (cases rule: callRecvMsg_cases [of rk 1 s k])
    case (bytes fs k1 bs)
    then show ?thesis
      using td by (cases "bs = []"; cases "length fs > unat (numFiles (us_recvHeader s))") (auto simp: tryReceiveFiles_def)
  qed (use td in \<open>auto simp: tryReceiveFiles_def\<close>)
  then show ?thesis using assms(2,3) by (auto simp: safe_stage_def recv_safe_def)
qed

lemma tryReceiveOne_safe:
  assumes "recv_bounded rk" and "recv_safe s" and t: "tryReceiveOne rk s k = (s', k', r)"
  shows "safe_stage s s' r"
proof -
  obtain s1 k1 r1 where h: "receive_header rk s k = (s1, k1, r1)" by (metis prod_cases3)
  obtain s2 k2 r2 where d: "receive_data rk s1 k1 = (s2, k2, r2)" by (metis prod_cases3)
  obtain s3 k3 r3 where f: "receive_files rk s2 k2 = (s3, k3, r3)" by (metis prod_cases3)
  have H: "safe_stage s s1 r1" by (rule receive_header_safe [OF assms(1,2) h])
  show ?thesis
  proof (cases "r1 = Inr True")
    case False
    then have "s' = s1" "r = r1" using t h by (auto simp: tryReceiveOne_def split: sum.splits bool.splits)
    then show ?thesis using H by simp
  next
    case r1: True
    have D: "safe_stage s1 s2 r2"
      using H r1 by (intro receive_data_safe [OF assms(1) _ _ d]) (auto simp: safe_stage_def)
    show ?thesis
    proof (cases "r2 = Inr True")
      case False
      then have "s' = s2" "r = r2" using t h d r1 by (auto simp: tryReceiveOne_def split: sum.splits bool.splits)
      then show ?thesis using H D r1 by (auto simp: safe_stage_def)
    next
      case r2: True
      have F: "safe_stage s2 s3 r3"
        using D r2 by (intro receive_files_safe [OF assms(1) _ _ f]) (auto simp: safe_stage_def)
      have "s' = s3" "r = r3" using t h d f r1 r2 by (auto simp: tryReceiveOne_def)
      then show ?thesis using H D F r1 r2 by (auto simp: safe_stage_def)
    qed
  qed
qed

lemma tryReceive_loop_safe:
  assumes "recv_bounded rk" and "recv_safe s" and "tryReceive_loop rk n s k = (s', k', r)"
  shows "(r = Inr () \<longrightarrow> recv_safe s') \<and> us_maxDataLength s' = us_maxDataLength s \<and>
    (\<exists>evs. us_log s' = us_log s @ evs \<and>
       (\<forall>cb m. MessageReceived cb m \<in> set evs \<longrightarrow> length (body m) \<le> unat (us_maxDataLength s)))"
  using assms(2,3)
proof (induction n arbitrary: s k)
  case 0
  then show ?case by auto
next
  case (Suc n)
  show ?case
  proof (cases "us_receiveCallback s")
    case None
    with Suc.prems show ?thesis by auto
  next
    case (Some cb)
    obtain s1 k1 r1 where t: "tryReceiveOne rk s k = (s1, k1, r1)" by (metis prod_cases3)
    have S: "safe_stage s s1 r1" by (rule tryReceiveOne_safe [OF assms(1) Suc.prems(1) t])
    show ?thesis
    proof (cases "r1 = Inr True")
      case False
      then have "s' = s1" "r = Inr () \<longrightarrow> (\<exists>b. r1 = Inr b)" using Suc.prems(2) Some t by (cases r1; auto split: bool.splits)+
      then show ?thesis using S by (auto simp: safe_stage_def)
    next
      case True
      define m where "m = \<lparr>msg_data = [us_recvData s1], msg_files = us_recvFiles s1\<rparr>"
      define s2 where "s2 = log_event (MessageReceived cb m) (s1\<lparr>us_hbr := 0, us_recvData := [], us_recvFiles := []\<rparr>)"
      have loop: "tryReceive_loop rk n s2 k1 = (s', k', r)" using Suc.prems(2) Some t True by (simp add: s2_def m_def Let_def)
      have s2: "recv_safe s2" "us_maxDataLength s2 = us_maxDataLength s" "us_log s2 = us_log s @ [MessageReceived cb m]"
        using S True by (simp_all add: s2_def log_event_def recv_safe_def safe_stage_def kHeaderLength_def)
      have "length (us_recvData s1) \<le> unat (us_maxDataLength s)"
        using S True by (auto simp: safe_stage_def recv_safe_def word_le_nat_alt)
      then have "length (body m) \<le> unat (us_maxDataLength s)" by (simp add: m_def)
      with Suc.IH [OF s2(1) loop] s2(2,3) show ?thesis by auto
    qed
  qed
qed

section \<open>Properties\<close>

text \<open>
  C3: what a message becomes on the other side.  A receiver that starts between messages and
  reads the stream of the messages \<open>ms\<close>, in whatever pieces the kernel returns it and over as
  many rounds as there are bytes, hands exactly these messages to its callback, in order,
  each with its data and its files; after that it can only report the end of the stream.
\<close>

theorem socket_receives_stream:
  assumes "recv_stream rk inp" and "recv_ready rk inp" and "recv_bounded rk"
    and "idle s" and "inp k = concat (map wire ms)" and "us_receiveCallback s = Some cb" and "\<forall>m \<in> set ms. acceptable s m"
    and "tryReceives rk (length (inp k)) s k = (s', k', r)"
  shows "\<exists>evs. us_log s' = us_log s @ map (\<lambda>m. MessageReceived cb (delivered m)) ms @ evs \<and> set evs \<subseteq> {EofReceived cb}"
  using tryReceives_all [OF assms(1-3) _ assms(6,7,8) order_refl] idle_at_stream [OF assms(4), of ms] assms(5) by simp

text \<open>
  A handler call in the middle of a stream.  Starting anywhere in the stream of the
  messages \<open>ms\<close>, \<open>tryReceive\<close> delivers some of them in order and stops at a position in the
  stream of the rest, so that no byte and no descriptor is lost or delivered twice; the only
  errors are those that \<open>recvmsg\<close> reports.
\<close>

theorem socket_receive_round:
  assumes "recv_stream rk inp" and "at_stream s ms (inp k)" and "us_receiveCallback s = Some cb"
    and "\<forall>m \<in> set ms. acceptable s m" and "tryReceive rk s k = (s', k', r)"
  shows "\<exists>done ms'. ms = done @ ms' \<and> at_stream s' ms' (inp k') \<and>
    (us_log s' = us_log s @ map (\<lambda>m. MessageReceived cb (delivered m)) done \<or>
     ms' = [] \<and> us_log s' = us_log s @ map (\<lambda>m. MessageReceived cb (delivered m)) done @ [EofReceived cb]) \<and>
    (\<forall>e. r = Inl e \<longrightarrow> (\<exists>n. e = SystemError n))"
  using tryReceive_loop_receives [OF assms(1-4), of maxMessagesAtOnce s' k' r] assms(5)
  by (auto simp: tryReceive_def receives_def)

text \<open>
  C40: a peer cannot make the socket hold or deliver more data than its limit: whatever
  \<open>recvmsg\<close> returns, every message that is delivered has at most \<open>maxDataLength\<close> bytes, and
  the data of an unfinished message stays within the announced size.
\<close>

theorem socket_receive_bounds:
  assumes "recv_bounded rk" and "recv_safe s" and "tryReceive rk s k = (s', k', r)"
  shows "(r = Inr () \<longrightarrow> recv_safe s') \<and>
    (\<exists>evs. us_log s' = us_log s @ evs \<and>
       (\<forall>cb m. MessageReceived cb m \<in> set evs \<longrightarrow> length (body m) \<le> unat (us_maxDataLength s)))"
  using tryReceive_loop_safe [OF assms(1,2), of maxMessagesAtOnce k s' k' r] assms(3) by (auto simp: tryReceive_def)

section \<open>A sample connection\<close>

text \<open>
  A kernel whose state is the unread and the written stream; it moves at most 5 bytes per
  call in either direction.
\<close>

type_synonym channel = "item list \<times> item list"

definition sample_recv :: "channel recvmsg" where
  "sample_recv n k =
     (let m = min (min n 5) (length (fst k)) in
      if fst k = [] then (RecvError EAGAIN, k)
      else (Received (map fst (take m (fst k))) (control (concat (map snd (take m (fst k))))) 0 0, (drop m (fst k), snd k)))"

definition sample_messages :: "us_message list" where
  "sample_messages = [\<lparr>msg_data = [[1, 2], [], [3]], msg_files = [7, 8]\<rparr>, \<lparr>msg_data = [], msg_files = []\<rparr>]"

definition sample_receiver :: us_state where
  "sample_receiver =
     \<lparr>us_eventBase = Some 0, us_open = True, us_closeStarted = False, us_events = READ, us_handler = READ OR PERSIST,
      us_timeout = False, us_maxDataLength = 100, us_maxFiles = 10, us_sendTimeout = 250,
      us_receiveCallback = Some 4, us_hdrBuf = replicate 16 0, us_hbr = 0,
      us_recvHeader = \<lparr>protocolID = 0, dataSize = 0, numFiles = 0\<rparr>, us_recvData = [], us_recvFiles = [],
      us_sendQueue = [], us_log = []\<rparr>"

lemma sample_recv_laws: "recv_stream sample_recv fst" "recv_ready sample_recv fst" "recv_bounded sample_recv"
proof -
  show "recv_stream sample_recv fst"
    unfolding recv_stream_def
  proof (intro allI impI)
    fix n :: nat and k :: channel
    assume n: "0 < n"
    show "recv_outcome (fst k) n (fst (sample_recv n k)) (fst (snd (sample_recv n k)))"
    proof (cases "fst k = []")
      case True
      then show ?thesis by (simp add: recv_outcome_def sample_recv_def)
    next
      case False
      then show ?thesis using n
        by (auto simp: recv_outcome_def sample_recv_def Let_def MSG_CTRUNC_def intro!: exI [of _ "min (min n 5) (length (fst k))"])
    qed
  qed
  show "recv_ready sample_recv fst" by (auto simp: recv_ready_def sample_recv_def Let_def)
  show "recv_bounded sample_recv" by (auto simp: recv_bounded_def sample_recv_def Let_def)
qed

lemma sample_receiver_facts:
  "idle sample_receiver" "us_receiveCallback sample_receiver = Some 4" "\<forall>m \<in> set sample_messages. acceptable sample_receiver m"
  "us_log sample_receiver = []" "recv_safe sample_receiver" "us_maxDataLength sample_receiver = 100"
  by (simp_all add: idle_def sample_receiver_def kHeaderLength_def sample_messages_def acceptable_def recv_safe_def)

theorem socket_receives_stream_witness:
  "\<exists>evs s' k' r. tryReceives sample_recv (length (concat (map wire sample_messages))) sample_receiver
       (concat (map wire sample_messages), []) = (s', k', r) \<and>
     us_log s' = map (\<lambda>m. MessageReceived 4 (delivered m)) sample_messages @ evs \<and> set evs \<subseteq> {EofReceived 4}"
proof -
  obtain s' k' r where t: "tryReceives sample_recv (length (concat (map wire sample_messages))) sample_receiver
       (concat (map wire sample_messages), []) = (s', k', r)" by (metis prod_cases3)
  from socket_receives_stream [OF sample_recv_laws sample_receiver_facts(1) _ sample_receiver_facts(2,3),
      of "(concat (map wire sample_messages), [])" s' k' r] t sample_receiver_facts(4)
  show ?thesis by auto
qed

theorem socket_receive_round_witness:
  "\<exists>done ms' s' k' r. tryReceive sample_recv sample_receiver (concat (map wire sample_messages), []) = (s', k', r) \<and>
     sample_messages = done @ ms' \<and> at_stream s' ms' (fst k')"
proof -
  obtain s' k' r where t: "tryReceive sample_recv sample_receiver (concat (map wire sample_messages), []) = (s', k', r)"
    by (metis prod_cases3)
  have "at_stream sample_receiver sample_messages (fst (concat (map wire sample_messages), [] :: item list))"
    using idle_at_stream [OF sample_receiver_facts(1)] by simp
  from socket_receive_round [OF sample_recv_laws(1) this sample_receiver_facts(2,3) t] t show ?thesis by blast
qed

text \<open>A peer that announces 200 bytes to a socket whose limit is 100.\<close>

definition big_header :: "item list" where
  "big_header = map (\<lambda>b. (b, [])) (serializeHeader 200 0)"

theorem socket_receive_bounds_witness:
  "\<exists>s' k' r. tryReceive sample_recv sample_receiver (big_header, []) = (s', k', r) \<and>
     MessageReceived 4 \<lparr>msg_data = [replicate 200 0], msg_files = []\<rparr> \<notin> set (us_log s')"
proof -
  obtain s' k' r where t: "tryReceive sample_recv sample_receiver (big_header, []) = (s', k', r)"
    by (metis prod_cases3)
  from socket_receive_bounds [OF sample_recv_laws(3) sample_receiver_facts(5) t] t sample_receiver_facts(4,6)
  show ?thesis by fastforce
qed

end
