(* ===== verification/Coverage_Set.thy ===== *)
theory Coverage_Set
  imports Eden_Prelude
begin

text \<open>
  \<open>CoverageSet\<close> of \<open>CoverageSet.h\<close> and \<open>CoverageSet.cpp\<close>: the byte ranges of a file that have
  been seen so far.  A \<open>std::set<Interval>\<close> is the list of its elements in the order of the
  set, that of the first field; an iterator is a position in that list.  \<open>size_t\<close> values are
  only compared, so they are natural numbers.  The node handle that \<open>add\<close> keeps to avoid an
  allocation is the erased element, whose fields are overwritten before it is inserted again:
  the set is that of an erasure followed by an insertion.
\<close>

section \<open>Intervals and the ordered set\<close>

record interval =
  ibegin :: nat
  iend :: nat

definition interval_less :: "interval \<Rightarrow> interval \<Rightarrow> bool" where
  "interval_less a b \<longleftrightarrow> ibegin a < ibegin b"

definition set_lower_bound :: "interval list \<Rightarrow> interval \<Rightarrow> nat" where
  "set_lower_bound s v = length (takeWhile (\<lambda>x. interval_less x v) s)"

definition set_upper_bound :: "interval list \<Rightarrow> interval \<Rightarrow> nat" where
  "set_upper_bound s v = length (takeWhile (\<lambda>x. \<not> interval_less v x) s)"

definition set_erase :: "interval list \<Rightarrow> nat \<Rightarrow> interval list" where
  "set_erase s i = take i s @ drop (Suc i) s"

fun set_insert :: "interval \<Rightarrow> interval list \<Rightarrow> interval list" where
  "set_insert v [] = [v]"
| "set_insert v (x # xs) =
     (if interval_less x v then x # set_insert v xs
      else if interval_less v x then v # x # xs else x # xs)"

section \<open>The operations\<close>

type_synonym coverage_set = "interval list"

definition CoverageSet_clear :: "coverage_set \<Rightarrow> coverage_set" where
  "CoverageSet_clear s = []"

definition CoverageSet_empty :: "coverage_set \<Rightarrow> bool" where
  "CoverageSet_empty s \<longleftrightarrow> s = []"

definition getIntervalCount :: "coverage_set \<Rightarrow> nat" where
  "getIntervalCount s = length s"

text \<open>
  \<open>absorb_right\<close> is the loop of \<open>add\<close>: \<open>right\<close> is a position in the set, and erasing the
  element there makes its successor the element at that position.
\<close>

function absorb_right :: "coverage_set \<Rightarrow> nat \<Rightarrow> nat \<Rightarrow> coverage_set \<times> nat" where
  "absorb_right s right e =
     (if right < length s \<and> ibegin (s ! right) \<le> e
      then absorb_right (set_erase s right) right (max e (iend (s ! right)))
      else (s, e))"
  by pat_completeness auto

termination absorb_right
  by (relation "measure (\<lambda>(s, right, e). length s)") (auto simp: set_erase_def)

declare absorb_right.simps [simp del]

definition CoverageSet_add :: "coverage_set \<Rightarrow> nat \<Rightarrow> nat \<Rightarrow> coverage_set result" where
  "CoverageSet_add s b e =
     (if \<not> b \<le> e then Inl CheckFailed
      else if b = e then Inr s
      else let right = set_lower_bound s \<lparr>ibegin = b, iend = e\<rparr>;
               merge_left = (right \<noteq> 0 \<and> iend (s ! (right - 1)) = b);
               b' = (if merge_left then ibegin (s ! (right - 1)) else b);
               s1 = (if merge_left then set_erase s (right - 1) else s);
               right1 = (if merge_left then right - 1 else right);
               (s2, e') = absorb_right s1 right1 e
           in Inr (set_insert \<lparr>ibegin = b', iend = e'\<rparr> s2))"

definition CoverageSet_covers :: "coverage_set \<Rightarrow> nat \<Rightarrow> nat \<Rightarrow> bool result" where
  "CoverageSet_covers s b e =
     (if \<not> b \<le> e then Inl CheckFailed
      else if b = e then Inr True
      else let right = set_upper_bound s \<lparr>ibegin = b, iend = e\<rparr>
           in if right = 0 then Inr False
              else let left = s ! (right - 1) in Inr (ibegin left \<le> b \<and> e \<le> iend left))"

fun add_all :: "coverage_set \<Rightarrow> (nat \<times> nat) list \<Rightarrow> coverage_set result" where
  "add_all s [] = Inr s"
| "add_all s ((b, e) # rs) =
     (case CoverageSet_add s b e of Inl x \<Rightarrow> Inl x | Inr s' \<Rightarrow> add_all s' rs)"

section \<open>The specification\<close>

text \<open>
  \<open>covered s\<close> is the set of the positions in the intervals of \<open>s\<close>.  \<open>ordered s\<close> is what a
  \<open>std::set\<close> guarantees together with non-empty intervals; \<open>separated s\<close> is the invariant
  that the header states: the intervals neither overlap nor touch.
\<close>

definition covered :: "coverage_set \<Rightarrow> nat set" where
  "covered s = (\<Union>x \<in> set s. {ibegin x ..< iend x})"

definition ordered :: "coverage_set \<Rightarrow> bool" where
  "ordered s \<longleftrightarrow> sorted_wrt interval_less s \<and> (\<forall>x \<in> set s. ibegin x < iend x)"

definition separated :: "coverage_set \<Rightarrow> bool" where
  "separated s \<longleftrightarrow> ordered s \<and> sorted_wrt (\<lambda>x y. iend x < ibegin y) s"

text \<open>\<open>no_left_overlap s b\<close>: no interval that starts before \<open>b\<close> extends beyond it.\<close>

definition no_left_overlap :: "coverage_set \<Rightarrow> nat \<Rightarrow> bool" where
  "no_left_overlap s b \<longleftrightarrow> (\<forall>x \<in> set s. ibegin x < b \<longrightarrow> iend x \<le> b)"

lemma covered_simps [simp]:
  "covered [] = {}"
  "covered (x # xs) = {ibegin x ..< iend x} \<union> covered xs"
  "covered (xs @ ys) = covered xs \<union> covered ys"
  by (auto simp: covered_def)

fun absorb :: "coverage_set \<Rightarrow> nat \<Rightarrow> coverage_set \<times> nat" where
  "absorb [] e = ([], e)"
| "absorb (x # xs) e = (if ibegin x \<le> e then absorb xs (max e (iend x)) else (x # xs, e))"

lemma absorb_right_eq:
  "absorb_right (xs @ ys) (length xs) e = (let (ys', e') = absorb ys e in (xs @ ys', e'))"
  by (induction ys e rule: absorb.induct)
    (auto simp: absorb_right.simps [of _ "length xs"] set_erase_def Let_def split: prod.splits)

lemma takeWhile_less_sorted:
  assumes "ordered s"
  obtains l r where "s = l @ r" "set_lower_bound s v = length l"
    "\<forall>x \<in> set l. ibegin x < ibegin v" "\<forall>x \<in> set r. ibegin v \<le> ibegin x"
proof
  let ?P = "\<lambda>x. interval_less x v"
  show "s = takeWhile ?P s @ dropWhile ?P s" by simp
  show "set_lower_bound s v = length (takeWhile ?P s)" by (simp add: set_lower_bound_def)
  show "\<forall>x \<in> set (takeWhile ?P s). ibegin x < ibegin v"
    by (auto simp: interval_less_def dest: set_takeWhileD)
  have "sorted_wrt interval_less s" using assms by (simp add: ordered_def)
  then show "\<forall>x \<in> set (dropWhile ?P s). ibegin v \<le> ibegin x"
    by (induction s) (auto simp: interval_less_def)
qed

lemma absorb_spec:
  assumes "ordered ys" "\<forall>y \<in> set ys. b \<le> ibegin y" "b < e" "absorb ys e = (ys', e')"
  shows "b < e' \<and> {b ..< e'} \<union> covered ys' = {b ..< e} \<union> covered ys \<and> ordered ys' \<and>
    (\<forall>y \<in> set ys'. e' < ibegin y) \<and> set ys' \<subseteq> set ys \<and> (separated ys \<longrightarrow> separated ys')"
  using assms
proof (induction ys e rule: absorb.induct)
  case (2 x xs e)
  have ord: "ordered xs" "sorted_wrt interval_less (x # xs)" and x: "ibegin x < iend x"
    using "2.prems"(1) by (auto simp: ordered_def)
  show ?case
  proof (cases "ibegin x \<le> e")
    case True
    have "{b ..< max e (iend x)} = {b ..< e} \<union> {ibegin x ..< iend x}"
      using True "2.prems"(2,3) by auto
    moreover have "b < max e (iend x)" using "2.prems"(3) by simp
    ultimately show ?thesis using "2.IH" "2.prems" True ord by (auto simp: separated_def)
  next
    case False
    moreover have "e < ibegin y" if "y \<in> set xs" for y
      using that ord False by (auto simp: interval_less_def)
    ultimately show ?thesis using "2.prems" ord by auto
  qed
qed (auto simp: separated_def)

lemma set_insert_between:
  assumes "\<forall>x \<in> set l. ibegin x < ibegin v" "\<forall>x \<in> set r. ibegin v < ibegin x"
  shows "set_insert v (l @ r) = l @ v # r"
  using assms by (induction l) (auto simp: interval_less_def neq_Nil_conv, cases r, auto simp: interval_less_def)


lemma ordered_append:
  "ordered (xs @ ys) \<longleftrightarrow> ordered xs \<and> ordered ys \<and> (\<forall>x \<in> set xs. \<forall>y \<in> set ys. ibegin x < ibegin y)"
  by (auto simp: ordered_def sorted_wrt_append interval_less_def)

lemma ordered_Cons:
  "ordered (x # ys) \<longleftrightarrow> ibegin x < iend x \<and> ordered ys \<and> (\<forall>y \<in> set ys. ibegin x < ibegin y)"
  by (auto simp: ordered_def interval_less_def)

lemma separated_append:
  "separated (xs @ ys) \<longleftrightarrow> separated xs \<and> separated ys \<and>
     (\<forall>x \<in> set xs. \<forall>y \<in> set ys. ibegin x < ibegin y \<and> iend x < ibegin y)"
  by (auto simp: separated_def ordered_append sorted_wrt_append)

lemma separated_Cons:
  "separated (x # ys) \<longleftrightarrow> ibegin x < iend x \<and> separated ys \<and>
     (\<forall>y \<in> set ys. ibegin x < ibegin y \<and> iend x < ibegin y)"
  by (auto simp: separated_def ordered_Cons)

lemmas interval_laws = ordered_append ordered_Cons separated_append separated_Cons

text \<open>What \<open>add\<close> does once the left neighbour has been merged: insert into the gap.\<close>

lemma absorb_insert:
  assumes ord: "ordered (l @ r)" and l: "\<forall>x \<in> set l. ibegin x < b" and r: "\<forall>x \<in> set r. b \<le> ibegin x"
    and be: "b < e" and eq: "absorb_right (l @ r) (length l) e = (s2, e')"
  defines "s' \<equiv> set_insert \<lparr>ibegin = b, iend = e'\<rparr> s2"
  shows "ordered s'" "covered s' = covered (l @ r) \<union> {b ..< e}"
    "separated (l @ r) \<Longrightarrow> \<forall>x \<in> set l. iend x < b \<Longrightarrow> separated s'"
proof -
  obtain r' where r': "absorb r e = (r', e')" and s2: "s2 = l @ r'"
    using eq by (auto simp: absorb_right_eq Let_def split: prod.splits)
  have "ordered r" using ord by (simp add: interval_laws)
  note sp = absorb_spec [OF this r be r']
  have gap: "\<forall>x \<in> set r'. b < ibegin x" using sp by fastforce
  then have s': "s' = l @ \<lparr>ibegin = b, iend = e'\<rparr> # r'"
    using l by (simp add: s'_def s2 set_insert_between)
  show "ordered s'" using sp l gap ord by (fastforce simp: s' interval_laws)
  show "covered s' = covered (l @ r) \<union> {b ..< e}" using sp by (auto simp: s')
  show "separated s'" if "separated (l @ r)" "\<forall>x \<in> set l. iend x < b"
    using that sp l gap by (fastforce simp: s' interval_laws)
qed

lemma CoverageSet_add_spec:
  assumes ord: "ordered s" and be: "b \<le> e"
  obtains s' where "CoverageSet_add s b e = Inr s'" "ordered s'" "covered s' = covered s \<union> {b ..< e}"
    "separated s \<Longrightarrow> no_left_overlap s b \<Longrightarrow> separated s'"
proof (cases "b = e")
  case True
  with ord show ?thesis by (intro that [of s]) (auto simp: CoverageSet_add_def)
next
  case False
  with be have less: "b < e" by simp
  obtain l r where s: "s = l @ r" and lb: "set_lower_bound s \<lparr>ibegin = b, iend = e\<rparr> = length l"
    and l: "\<forall>x \<in> set l. ibegin x < b" and r: "\<forall>x \<in> set r. b \<le> ibegin x"
    using takeWhile_less_sorted [OF ord, of "\<lparr>ibegin = b, iend = e\<rparr>"] by (metis select_convs(1))
  show ?thesis
  proof (cases "l \<noteq> [] \<and> iend (last l) = b")
    case True
    then obtain l0 p where l0: "l = l0 @ [p]" and p: "iend p = b" by (metis append_butlast_last_id last_snoc)
    obtain s2 e' where eq: "absorb_right (l0 @ r) (length l0) e = (s2, e')" by fastforce
    have add: "CoverageSet_add s b e = Inr (set_insert \<lparr>ibegin = ibegin p, iend = e'\<rparr> s2)"
      using less lb p eq by (simp add: CoverageSet_add_def s l0 set_erase_def Let_def)
    have pb: "ibegin p < b" using l l0 by simp
    have "ordered (l0 @ r)" using ord by (auto simp: s l0 interval_laws)
    note ai = absorb_insert [OF this _ _ _ eq, of "ibegin p"]
    have prem: "\<forall>x \<in> set l0. ibegin x < ibegin p" "\<forall>x \<in> set r. ibegin p \<le> ibegin x" "ibegin p < e"
      using ord r pb less by (auto simp: s l0 interval_laws)
    have grow: "{ibegin p ..< e} = {ibegin p ..< iend p} \<union> {b ..< e}" using pb p less by auto
    show ?thesis
    proof (rule that [OF add])
      show "ordered (set_insert \<lparr>ibegin = ibegin p, iend = e'\<rparr> s2)" by (rule ai(1) [OF prem])
      show "covered (set_insert \<lparr>ibegin = ibegin p, iend = e'\<rparr> s2) = covered s \<union> {b ..< e}"
        unfolding ai(2) [OF prem] grow by (auto simp: s l0)
      show "separated (set_insert \<lparr>ibegin = ibegin p, iend = e'\<rparr> s2)" if "separated s"
        using ai(3) [OF prem] that by (auto simp: s l0 interval_laws)
    qed
  next
    case no_merge: False
    obtain s2 e' where eq: "absorb_right (l @ r) (length l) e = (s2, e')" by fastforce
    have "\<not> (length l \<noteq> 0 \<and> iend ((l @ r) ! (length l - 1)) = b)"
      using no_merge by (cases "l = []") (auto simp: nth_append last_conv_nth)
    then have add: "CoverageSet_add s b e = Inr (set_insert \<lparr>ibegin = b, iend = e'\<rparr> s2)"
      using less lb eq by (auto simp: CoverageSet_add_def s Let_def)
    have "ordered (l @ r)" using ord s by simp
    note ai = absorb_insert [OF this l r less eq]
    show ?thesis
    proof (rule that [OF add])
      show "ordered (set_insert \<lparr>ibegin = b, iend = e'\<rparr> s2)" by (rule ai(1))
      show "covered (set_insert \<lparr>ibegin = b, iend = e'\<rparr> s2) = covered s \<union> {b ..< e}"
        using ai(2) by (simp add: s)
      show "separated (set_insert \<lparr>ibegin = b, iend = e'\<rparr> s2)" if sep: "separated s" "no_left_overlap s b"
      proof -
        have le: "\<forall>x \<in> set l. iend x \<le> b" using sep(2) l by (auto simp: no_left_overlap_def s)
        have "iend x < b" if x: "x \<in> set l" for x
        proof (cases "x = last l")
          case True
          then show ?thesis using no_merge le x by (cases "l = []") (auto simp: le_less)
        next
          case False
          define l0 where "l0 = butlast l"
          have "l = l0 @ [last l]" using x by (cases l) (auto simp: l0_def)
          moreover from this have "x \<in> set l0" using x False by (metis UnE set_append set_ConsD empty_iff list.set(1))
          ultimately have l0: "l = l0 @ [last l]" "x \<in> set l0" by blast+
          have "separated (l0 @ [last l])" using sep(1) l0(1) by (metis s separated_append)
          then have "iend x < ibegin (last l)" using l0(2) by (simp add: interval_laws)
          also have "\<dots> < b" using l x by (metis empty_iff last_in_set list.set(1))
          finally show ?thesis .
        qed
        then show ?thesis using ai(3) sep(1) s by simp
      qed
    qed
  qed
qed

lemma dropWhile_upper:
  "sorted_wrt interval_less s \<Longrightarrow> \<forall>x \<in> set (dropWhile (\<lambda>x. \<not> interval_less v x) s). ibegin v < ibegin x"
proof (induction s)
  case (Cons y ys)
  show ?case
  proof (cases "interval_less v y")
    case True
    then have "ibegin v < ibegin x" if "x \<in> set ys" for x
      using Cons.prems that less_trans [of "ibegin v" "ibegin y" "ibegin x"] by (simp add: interval_less_def)
    with True show ?thesis by (simp add: interval_less_def)
  next
    case False
    with Cons show ?thesis by simp
  qed
qed simp

lemma CoverageSet_covers_spec:
  assumes ord: "ordered s" and be: "b \<le> e"
  obtains r where "CoverageSet_covers s b e = Inr r" "r \<Longrightarrow> {b ..< e} \<subseteq> covered s"
    "separated s \<Longrightarrow> {b ..< e} \<subseteq> covered s \<Longrightarrow> r"
proof (cases "b = e")
  case True
  then show ?thesis by (intro that [of True]) (auto simp: CoverageSet_covers_def)
next
  case False
  with be have less: "b < e" by simp
  let ?P = "\<lambda>x. \<not> interval_less \<lparr>ibegin = b, iend = e\<rparr> x"
  define l where "l = takeWhile ?P s"
  define r where "r = dropWhile ?P s"
  have s: "s = l @ r" by (simp add: l_def r_def)
  have ub: "set_upper_bound s \<lparr>ibegin = b, iend = e\<rparr> = length l" by (simp add: set_upper_bound_def l_def)
  have "sorted_wrt interval_less s" using ord by (simp add: ordered_def)
  from dropWhile_upper [OF this, of "\<lparr>ibegin = b, iend = e\<rparr>"]
  have r: "\<forall>x \<in> set r. b < ibegin x" by (simp add: r_def)
  have l: "\<forall>x \<in> set l. ibegin x \<le> b" unfolding l_def
    by (auto simp: interval_less_def dest: set_takeWhileD)
  show ?thesis
  proof (cases "l = []")
    case True
    then have "b \<notin> covered s" using r by (auto simp: covered_def s)
    then have "\<not> {b ..< e} \<subseteq> covered s" using less by force
    then show ?thesis using less ub True by (intro that [of False]) (auto simp: CoverageSet_covers_def)
  next
    case False
    then obtain l0 p where l0: "l = l0 @ [p]" by (metis append_butlast_last_id)
    have cov: "CoverageSet_covers s b e = Inr (ibegin p \<le> b \<and> e \<le> iend p)"
      using less ub by (simp add: CoverageSet_covers_def s l0 nth_append Let_def)
    have complete: "e \<le> iend p" if sep: "separated s" and cs: "{b ..< e} \<subseteq> covered s"
    proof (rule ccontr)
      assume "\<not> e \<le> iend p"
      define x where "x = max b (iend p)"
      have pb: "ibegin p \<le> b" using l l0 by simp
      have x: "x \<in> {b ..< e}" using \<open>\<not> e \<le> iend p\<close> less by (simp add: x_def)
      have "x \<notin> {ibegin q ..< iend q}" if "q \<in> set s" for q
      proof -
        have "ibegin q < ibegin p \<and> iend q < ibegin p \<or> q = p \<or> q \<in> set r"
          using that sep by (auto simp: s l0 interval_laws)
        moreover have "iend p < ibegin q \<and> b < ibegin q" if "q \<in> set r"
          using that sep r by (auto simp: s l0 interval_laws)
        ultimately show ?thesis using pb by (auto simp: x_def)
      qed
      then have "x \<notin> covered s" unfolding covered_def by blast
      then show False using x cs by blast
    qed
    show ?thesis by (rule that [OF cov]) (use complete l l0 in \<open>auto simp: covered_def s\<close>)
  qed
qed


section \<open>Sequences of additions\<close>

text \<open>
  \<open>left_free s rs\<close>: every range of \<open>rs\<close>, when it is added, starts at or after the end of each
  interval that starts before it.
\<close>

fun left_free :: "coverage_set \<Rightarrow> (nat \<times> nat) list \<Rightarrow> bool" where
  "left_free s [] = True"
| "left_free s ((b, e) # rs) =
     ((b = e \<or> no_left_overlap s b) \<and>
      (case CoverageSet_add s b e of Inl _ \<Rightarrow> True | Inr s' \<Rightarrow> left_free s' rs))"

lemma add_all_spec:
  assumes "ordered s" "\<forall>(b, e) \<in> set rs. b \<le> e"
  obtains s' where "add_all s rs = Inr s'" "ordered s'"
    "covered s' = covered s \<union> (\<Union>(b, e) \<in> set rs. {b ..< e})"
    "separated s \<Longrightarrow> left_free s rs \<Longrightarrow> separated s'"
  using assms
proof (induction rs arbitrary: s thesis)
  case Nil
  then show ?case by auto
next
  case (Cons r rs)
  obtain b e where r: "r = (b, e)" by fastforce
  with Cons.prems have "b \<le> e" by simp
  then obtain s1 where s1: "CoverageSet_add s b e = Inr s1" "ordered s1" "covered s1 = covered s \<union> {b ..< e}"
    "separated s \<Longrightarrow> no_left_overlap s b \<Longrightarrow> separated s1"
    using CoverageSet_add_spec [OF Cons.prems(2)] by metis
  have same: "s1 = s" if "b = e" using s1(1) that by (simp add: CoverageSet_add_def)
  show ?case
  proof (rule Cons.IH [OF _ s1(2)])
    show "\<forall>(b, e) \<in> set rs. b \<le> e" using Cons.prems(3) by simp
    fix s' assume s': "add_all s1 rs = Inr s'" "ordered s'"
      "covered s' = covered s1 \<union> (\<Union>(b, e) \<in> set rs. {b ..< e})"
      "separated s1 \<Longrightarrow> left_free s1 rs \<Longrightarrow> separated s'"
    show thesis
    proof (rule Cons.prems(1))
      show "add_all s (r # rs) = Inr s'" by (simp add: r s1(1) s'(1))
      show "covered s' = covered s \<union> (\<Union>(b, e) \<in> set (r # rs). {b ..< e})" by (simp add: s'(3) s1(3) r Un_assoc)
      show "separated s'" if "separated s" "left_free s (r # rs)"
        using that s1(1,4) s'(4) same by (auto simp: r)
    qed (rule s'(2))
  qed
qed

text \<open>
  C38: After any sequence of additions of well-formed ranges to a cleared set, the intervals
  of the set cover exactly the union of the ranges, and a range that \<open>covers\<close> accepts is
  inside that union.  If moreover no range started inside an interval that was already
  there, the intervals neither overlap nor touch and \<open>covers\<close> decides coverage: it
  accepts exactly the ranges inside the union.
\<close>

theorem coverage_after_adds:
  assumes "\<forall>(b, e) \<in> set rs. b \<le> e" and "b \<le> e"
  shows "\<exists>s r. add_all (CoverageSet_clear s0) rs = Inr s \<and> CoverageSet_covers s b e = Inr r \<and>
    covered s = (\<Union>(b, e) \<in> set rs. {b ..< e}) \<and>
    (r \<longrightarrow> {b ..< e} \<subseteq> (\<Union>(b, e) \<in> set rs. {b ..< e})) \<and>
    (left_free (CoverageSet_clear s0) rs \<longrightarrow> separated s \<and>
      (r \<longleftrightarrow> {b ..< e} \<subseteq> (\<Union>(b, e) \<in> set rs. {b ..< e})))"
proof -
  have init: "ordered (CoverageSet_clear s0)" "separated (CoverageSet_clear s0)" "covered (CoverageSet_clear s0) = {}"
    by (simp_all add: CoverageSet_clear_def ordered_def separated_def)
  obtain s where s: "add_all (CoverageSet_clear s0) rs = Inr s" "ordered s"
    "covered s = (\<Union>(b, e) \<in> set rs. {b ..< e})" "left_free (CoverageSet_clear s0) rs \<Longrightarrow> separated s"
    using add_all_spec [OF init(1) assms(1)] init(2,3) by (metis sup_bot_left)
  obtain r where r: "CoverageSet_covers s b e = Inr r" "r \<Longrightarrow> {b ..< e} \<subseteq> covered s"
    "separated s \<Longrightarrow> {b ..< e} \<subseteq> covered s \<Longrightarrow> r"
    using CoverageSet_covers_spec [OF s(2) assms(2)] by metis
  show ?thesis by (intro exI [where x = s] exI [where x = r]) (use s r in auto)
qed

theorem coverage_after_adds_witness:
  "\<exists>s r. add_all (CoverageSet_clear []) [(1, 2), (3, 4), (2, 3), (8, 9)] = Inr s \<and>
    CoverageSet_covers s 1 4 = Inr r \<and> separated s \<and> r \<and> getIntervalCount s = 2"
proof -
  have run: "add_all (CoverageSet_clear []) [(1, 2), (3, 4), (2, 3), (8, 9)] =
    Inr [\<lparr>ibegin = 1, iend = 4\<rparr>, \<lparr>ibegin = 8, iend = 9\<rparr>]" by code_simp
  have free: "left_free (CoverageSet_clear []) [(1, 2), (3, 4), (2, 3), (8, 9)]" by code_simp
  have union: "{1 ..< 4} \<subseteq> (\<Union>(b, e) \<in> set [(1, 2), (3, 4), (2, 3), (8, 9 :: nat)]. {b ..< e})" by auto
  obtain s r where sr: "add_all (CoverageSet_clear []) [(1, 2), (3, 4), (2, 3), (8, 9)] = Inr s"
    "CoverageSet_covers s 1 4 = Inr r" "separated s" "r"
    using coverage_after_adds [of "[(1, 2), (3, 4), (2, 3), (8, 9)]" 1 4 "[]"] free union by auto
  from sr(1) have "getIntervalCount s = 2" unfolding run by (auto simp: getIntervalCount_def)
  with sr show ?thesis by blast
qed

text \<open>
  A range added inside an interval hides the rest of that interval: \<open>add\<close> merges with
  the interval on its left only when the two touch, so after adding \<open>[b0, e0)\<close> and then
  \<open>[b, e)\<close> with \<open>b0 < b < e < e0\<close> the set keeps two overlapping intervals, and \<open>covers\<close>
  denies that the range \<open>[b, e0)\<close> is covered, although it was added at once.
\<close>

theorem coverage_left_overlap_missed:
  assumes "b0 < b" "b < e" "e < e0"
  shows "\<exists>s. add_all (CoverageSet_clear s0) [(b0, e0), (b, e)] = Inr s \<and> getIntervalCount s = 2 \<and>
    {b ..< e0} \<subseteq> covered s \<and> \<not> separated s \<and> CoverageSet_covers s b e0 = Inr False"
  using assms
  by (auto simp: CoverageSet_clear_def CoverageSet_add_def CoverageSet_covers_def Let_def set_lower_bound_def
      set_upper_bound_def interval_less_def absorb_right.simps getIntervalCount_def separated_def)

theorem coverage_left_overlap_missed_witness:
  "\<exists>s. add_all (CoverageSet_clear []) [(0, 10), (2, 4)] = Inr s \<and> getIntervalCount s = 2 \<and>
    {2 ..< 10} \<subseteq> covered s \<and> \<not> separated s \<and> CoverageSet_covers s 2 10 = Inr False"
  using coverage_left_overlap_missed [of 0 2 4 10 "[]"] by simp

end
