(* ===== verification/Bucketed_Log.thy ===== *)
theory Bucketed_Log
  imports Eden_Prelude
begin

text \<open>
  \<open>BucketedLog\<close> of \<open>BucketedLog.h\<close>: a circular buffer of \<open>Size\<close> buckets over a sliding
  window of time.  The class is a template over the type of the buckets; their operations are
  the fields of \<open>bucket_ops\<close>, and \<open>monoid_bucket\<close> is what the header asks of them: clearing
  a bucket gives the empty one.  Times are \<open>uint64_t\<close>: natural numbers below \<open>2 ^ 64\<close>, with
  the wrap-around of the additions and subtractions written out.  The debug checks of
  \<open>advanceWindow\<close> are not modelled.

  The specification is a total function from time to buckets, empty outside the window;
  the circular buffer refines it as long as the clock stays below \<open>2 ^ 64 - 1\<close>.
\<close>

section \<open>The buffer\<close>

record ('b, 'a) bucket_ops =
  bucket_default :: 'b
  bucket_add :: "'b \<Rightarrow> 'a \<Rightarrow> 'b"
  bucket_merge :: "'b \<Rightarrow> 'b \<Rightarrow> 'b"
  bucket_clear :: "'b \<Rightarrow> 'b"

record 'b bucketed_log =
  buckets :: "'b list"
  windowStart :: nat

definition BucketedLog :: "('b, 'a) bucket_ops \<Rightarrow> nat \<Rightarrow> 'b bucketed_log" where
  "BucketedLog ops Size = \<lparr>buckets = replicate Size (bucket_default ops), windowStart = 0\<rparr>"

definition update_bucket :: "nat \<Rightarrow> ('b \<Rightarrow> 'b) \<Rightarrow> nat \<Rightarrow> 'b list \<Rightarrow> 'b list" where
  "update_bucket Size f t bs = bs[t mod Size := f (bs ! (t mod Size))]"

definition advanceWindow :: "('b, 'a) bucket_ops \<Rightarrow> nat \<Rightarrow> 'b bucketed_log \<Rightarrow> nat \<Rightarrow> 'b bucketed_log" where
  "advanceWindow ops Size log now =
     (if now < u64 (windowStart log + Size) then log
      else let newWindowStart = u64_sub (u64 (now + 1)) Size;
               toClear = min Size (u64_sub newWindowStart (windowStart log))
           in \<lparr>buckets = fold (update_bucket Size (bucket_clear ops))
                            [u64_sub newWindowStart toClear ..< newWindowStart] (buckets log),
               windowStart = newWindowStart\<rparr>)"

definition BucketedLog_add ::
  "('b, 'a) bucket_ops \<Rightarrow> nat \<Rightarrow> 'b bucketed_log \<Rightarrow> nat \<Rightarrow> 'a \<Rightarrow> 'b bucketed_log" where
  "BucketedLog_add ops Size log now x =
     (if now < windowStart log then log
      else let log' = advanceWindow ops Size log now
           in log'\<lparr>buckets := update_bucket Size (\<lambda>b. bucket_add ops b x) now (buckets log')\<rparr>)"

definition getAll :: "('b, 'a) bucket_ops \<Rightarrow> nat \<Rightarrow> 'b bucketed_log \<Rightarrow> nat \<Rightarrow> 'b list \<times> 'b bucketed_log" where
  "getAll ops Size log now =
     (let log' = advanceWindow ops Size log now
      in (map (\<lambda>i. buckets log' ! (u64 (now + 1 + i) mod Size)) [0 ..< Size], log'))"

definition BucketedLog_merge ::
  "('b, 'a) bucket_ops \<Rightarrow> nat \<Rightarrow> 'b bucketed_log \<Rightarrow> 'b bucketed_log \<Rightarrow> 'b bucketed_log" where
  "BucketedLog_merge ops Size log other =
     (let log' = advanceWindow ops Size log (u64_sub (u64 (windowStart other + Size)) 1);
          step = (\<lambda>i bs. if windowStart other \<le> i \<and> i < u64 (windowStart other + Size)
                         then update_bucket Size (\<lambda>b. bucket_merge ops b (buckets other ! (i mod Size))) i bs
                         else bs)
      in log'\<lparr>buckets := fold step [windowStart log' ..< u64 (windowStart log' + Size)] (buckets log')\<rparr>)"

definition BucketedLog_clear :: "('b, 'a) bucket_ops \<Rightarrow> 'b bucketed_log \<Rightarrow> 'b bucketed_log" where
  "BucketedLog_clear ops log = log\<lparr>buckets := map (bucket_clear ops) (buckets log)\<rparr>"

section \<open>The specification\<close>

text \<open>A timeline is the start of the window and the bucket of every point in time.\<close>

type_synonym 'b timeline = "nat \<times> (nat \<Rightarrow> 'b)"

definition in_window :: "nat \<Rightarrow> nat \<Rightarrow> nat \<Rightarrow> bool" where
  "in_window Size start t \<longleftrightarrow> start \<le> t \<and> t < start + Size"

definition timeline_advance :: "'b \<Rightarrow> nat \<Rightarrow> 'b timeline \<Rightarrow> nat \<Rightarrow> 'b timeline" where
  "timeline_advance e0 Size line now =
     (let start = max (fst line) (now + 1 - Size)
      in (start, \<lambda>t. if in_window Size start t then snd line t else e0))"

definition timeline_add :: "('b, 'a) bucket_ops \<Rightarrow> nat \<Rightarrow> 'b timeline \<Rightarrow> nat \<Rightarrow> 'a \<Rightarrow> 'b timeline" where
  "timeline_add ops Size line now x =
     (if now < fst line then line
      else let (start, f) = timeline_advance (bucket_default ops) Size line now
           in (start, f(now := bucket_add ops (f now) x)))"

definition timeline_merge :: "('b, 'a) bucket_ops \<Rightarrow> nat \<Rightarrow> 'b timeline \<Rightarrow> 'b timeline \<Rightarrow> 'b timeline" where
  "timeline_merge ops Size line other =
     (let (start, f) = timeline_advance (bucket_default ops) Size line (fst other + Size - 1)
      in (start, \<lambda>t. if in_window Size start t \<and> in_window Size (fst other) t
                     then bucket_merge ops (f t) (snd other t) else f t))"

definition timeline :: "('b, 'a) bucket_ops \<Rightarrow> nat \<Rightarrow> 'b bucketed_log \<Rightarrow> 'b timeline" where
  "timeline ops Size log =
     (windowStart log, \<lambda>t. if in_window Size (windowStart log) t then buckets log ! (t mod Size)
                           else bucket_default ops)"

definition monoid_bucket :: "('b, 'a) bucket_ops \<Rightarrow> bool" where
  "monoid_bucket ops \<longleftrightarrow> (\<forall>b. bucket_clear ops b = bucket_default ops)"

definition log_ok :: "nat \<Rightarrow> 'b bucketed_log \<Rightarrow> bool" where
  "log_ok Size log \<longleftrightarrow> 0 < Size \<and> length (buckets log) = Size \<and> windowStart log + Size < 2 ^ 64"

section \<open>Arithmetic of the window\<close>

lemma mod_window_inj:
  fixes Size :: nat
  assumes "in_window Size s t" "in_window Size s u" "t mod Size = u mod Size"
  shows "t = u"
proof -
  have less: "x = y" if xy: "x mod Size = y mod Size" "x \<le> y" "y < x + Size" for x y :: nat
  proof -
    obtain k where "y = x + Size * k" using xy(1,2) by (metis mod_eq_nat2E)
    then show ?thesis using xy(3) by (cases k) auto
  qed
  show ?thesis
    using less [of t u] less [of u t] assms by (cases "t \<le> u") (auto simp: in_window_def)
qed

lemma length_update_bucket [simp]: "length (update_bucket Size f t bs) = length bs"
  by (simp add: update_bucket_def)

lemma length_fold_update [simp]: "length (fold (update_bucket Size f) ts bs) = length bs"
  by (induction ts arbitrary: bs) auto

lemma nth_update_bucket:
  assumes "length bs = Size" "0 < Size"
  shows "update_bucket Size f t bs ! (u mod Size) =
    (if u mod Size = t mod Size then f (bs ! (u mod Size)) else bs ! (u mod Size))"
  using assms by (simp add: update_bucket_def nth_list_update)

lemma fold_update_miss:
  assumes "length bs = Size" "0 < Size" "\<forall>t \<in> set ts. u mod Size \<noteq> t mod Size"
  shows "fold (update_bucket Size f) ts bs ! (u mod Size) = bs ! (u mod Size)"
  using assms by (induction ts arbitrary: bs) (auto simp: nth_update_bucket)

lemma fold_clear_hit:
  assumes "length bs = Size" "0 < Size" "t \<in> set ts" "u mod Size = t mod Size" "\<And>b. f b = c"
  shows "fold (update_bucket Size f) ts bs ! (u mod Size) = c"
  using assms by (induction ts rule: rev_induct) (auto simp: nth_update_bucket)

text \<open>The loop of \<open>advanceWindow\<close> clears exactly the buckets that leave the window.\<close>

lemma advanceWindow_spec:
  assumes ok: "log_ok Size log" and law: "monoid_bucket ops" and now: "now + 1 < 2 ^ 64"
  shows "log_ok Size (advanceWindow ops Size log now)"
    and "timeline ops Size (advanceWindow ops Size log now) =
      timeline_advance (bucket_default ops) Size (timeline ops Size log) now"
proof -
  let ?ws = "windowStart log"
  have Size: "0 < Size" and len: "length (buckets log) = Size" and ws: "?ws + Size < 2 ^ 64"
    using ok by (simp_all add: log_ok_def)
  have "log_ok Size (advanceWindow ops Size log now) \<and>
    timeline ops Size (advanceWindow ops Size log now) =
      timeline_advance (bucket_default ops) Size (timeline ops Size log) now"
  proof (cases "now < ?ws + Size")
    case True
    then have "advanceWindow ops Size log now = log" using ws by (simp add: advanceWindow_def)
    moreover have "max ?ws (now + 1 - Size) = ?ws" using True by linarith
    ultimately show ?thesis using ok by (auto simp: timeline_advance_def timeline_def Let_def)
  next
    case False
    define nws where "nws = now + 1 - Size"
    define k where "k = min Size (nws - ?ws)"
    have le: "?ws < nws" "Size \<le> now + 1" "nws + Size = now + 1" using False Size by (auto simp: nws_def)
    have sub: "u64_sub (u64 (now + 1)) Size = nws" "u64_sub nws ?ws = nws - ?ws" "u64_sub nws k = nws - k"
      using le now by (simp_all add: nws_def k_def)
    define bs where "bs = fold (update_bucket Size (bucket_clear ops)) [nws - k ..< nws] (buckets log)"
    have adv: "advanceWindow ops Size log now = \<lparr>buckets = bs, windowStart = nws\<rparr>"
      unfolding advanceWindow_def Let_def sub k_def [symmetric] bs_def using False ws by simp
    have keep: "bs ! (t mod Size) = buckets log ! (t mod Size)"
      if "in_window Size ?ws t" "in_window Size nws t" for t
      unfolding bs_def
    proof (rule fold_update_miss [OF len Size])
      have "t \<noteq> u \<and> in_window Size ?ws u" if "u \<in> set [nws - k ..< nws]" for u
        using that \<open>in_window Size nws t\<close> \<open>in_window Size ?ws t\<close> le by (auto simp: in_window_def k_def)
      then show "\<forall>u \<in> set [nws - k ..< nws]. t mod Size \<noteq> u mod Size"
        using mod_window_inj [OF \<open>in_window Size ?ws t\<close>] by blast
    qed
    have clear: "bs ! (t mod Size) = bucket_default ops"
      if t: "in_window Size nws t" "\<not> in_window Size ?ws t" for t
    proof -
      have "t - Size \<in> set [nws - k ..< nws]" "Size \<le> t"
        using t le Size by (auto simp: in_window_def k_def)
      moreover have "t mod Size = (t - Size) mod Size" using \<open>Size \<le> t\<close> by (simp add: le_mod_geq)
      ultimately show ?thesis unfolding bs_def
        using law by (intro fold_clear_hit [OF len Size]) (auto simp: monoid_bucket_def)
    qed
    have "log_ok Size \<lparr>buckets = bs, windowStart = nws\<rparr>"
      using Size len le now by (simp add: log_ok_def bs_def)
    moreover have "max ?ws (now + 1 - Size) = nws" using le by (simp add: nws_def)
    ultimately show ?thesis using keep clear by (auto simp: adv timeline_advance_def timeline_def Let_def)
  qed
  then show "log_ok Size (advanceWindow ops Size log now)"
    "timeline ops Size (advanceWindow ops Size log now) =
      timeline_advance (bucket_default ops) Size (timeline ops Size log) now" by simp_all
qed


lemma BucketedLog_add_spec:
  assumes ok: "log_ok Size log" and law: "monoid_bucket ops" and now: "now + 1 < 2 ^ 64"
  shows "log_ok Size (BucketedLog_add ops Size log now x)"
    and "timeline ops Size (BucketedLog_add ops Size log now x) =
      timeline_add ops Size (timeline ops Size log) now x"
proof -
  define log' where "log' = advanceWindow ops Size log now"
  note adv = advanceWindow_spec [OF ok law now, folded log'_def]
  have Size: "0 < Size" and len: "length (buckets log') = Size" using adv(1) by (simp_all add: log_ok_def)
  show "log_ok Size (BucketedLog_add ops Size log now x)"
    using ok adv(1) by (simp add: BucketedLog_add_def log_ok_def Let_def flip: log'_def)
  show "timeline ops Size (BucketedLog_add ops Size log now x) =
      timeline_add ops Size (timeline ops Size log) now x"
  proof (cases "now < windowStart log")
    case True
    then show ?thesis by (simp add: BucketedLog_add_def timeline_add_def timeline_def)
  next
    case False
    have "windowStart log' = max (windowStart log) (now + 1 - Size)"
      using arg_cong [OF adv(2), of fst] by (simp add: timeline_def timeline_advance_def Let_def)
    then have now': "in_window Size (windowStart log') now" using False Size by (auto simp: in_window_def)
    have upd: "update_bucket Size f now (buckets log') ! (t mod Size) =
      (if t = now then f (buckets log' ! (now mod Size)) else buckets log' ! (t mod Size))"
      if "in_window Size (windowStart log') t" for f t
      using mod_window_inj [OF that now'] by (auto simp: nth_update_bucket [OF len Size])
    have "timeline_add ops Size (timeline ops Size log) now x =
      (let (start, f) = timeline ops Size log' in (start, f(now := bucket_add ops (f now) x)))"
      using False by (simp add: timeline_add_def adv(2)) (simp add: timeline_def)
    also have "\<dots> = timeline ops Size (BucketedLog_add ops Size log now x)"
      using False now' by (auto simp: BucketedLog_add_def timeline_def upd Let_def simp flip: log'_def)
    finally show ?thesis by simp
  qed
qed

lemma fold_merge_bucket:
  assumes "length bs = Size" "0 < Size" "in_window Size s t"
    "\<forall>u \<in> set us. in_window Size s u" "distinct us"
  shows "fold (\<lambda>i bs. if P i then update_bucket Size (g i) i bs else bs) us bs ! (t mod Size) =
    (if t \<in> set us \<and> P t then g t (bs ! (t mod Size)) else bs ! (t mod Size))"
  using assms
proof (induction us arbitrary: bs)
  case (Cons u us)
  then have "t mod Size = u mod Size \<longleftrightarrow> t = u" using mod_window_inj by auto
  with Cons show ?case by (auto simp: nth_update_bucket)
qed simp

lemma length_fold_merge [simp]:
  "length (fold (\<lambda>i bs. if P i then update_bucket Size (g i) i bs else bs) us bs) = length bs"
  by (induction us arbitrary: bs) auto

lemma BucketedLog_merge_spec:
  assumes ok: "log_ok Size log" and law: "monoid_bucket ops" and other: "log_ok Size other"
  shows "log_ok Size (BucketedLog_merge ops Size log other)"
    and "timeline ops Size (BucketedLog_merge ops Size log other) =
      timeline_merge ops Size (timeline ops Size log) (timeline ops Size other)"
proof -
  let ?os = "windowStart other"
  have os: "0 < Size" "?os + Size < 2 ^ 64" using other by (simp_all add: log_ok_def)
  then have sub: "u64_sub (u64 (?os + Size)) 1 = ?os + Size - 1" by simp
  define log' where "log' = advanceWindow ops Size log (?os + Size - 1)"
  have "?os + Size - 1 + 1 < 2 ^ 64" using os by simp
  note adv = advanceWindow_spec [OF ok law this, folded log'_def]
  have len: "length (buckets log') = Size" and ws: "windowStart log' + Size < 2 ^ 64"
    using adv(1) by (simp_all add: log_ok_def)
  define merged where "merged = fold (\<lambda>i bs. if ?os \<le> i \<and> i < ?os + Size
      then update_bucket Size (\<lambda>b. bucket_merge ops b (buckets other ! (i mod Size))) i bs else bs)
    [windowStart log' ..< windowStart log' + Size] (buckets log')"
  have eq: "BucketedLog_merge ops Size log other = log'\<lparr>buckets := merged\<rparr>"
    using os ws unfolding BucketedLog_merge_def sub log'_def [symmetric] Let_def merged_def by simp
  show "log_ok Size (BucketedLog_merge ops Size log other)"
    using adv(1) by (simp add: eq merged_def log_ok_def)
  have nth: "merged ! (t mod Size) = (if in_window Size ?os t
      then bucket_merge ops (buckets log' ! (t mod Size)) (buckets other ! (t mod Size))
      else buckets log' ! (t mod Size))" if "in_window Size (windowStart log') t" for t
    unfolding merged_def using that
    by (subst fold_merge_bucket [OF len os(1) that]) (auto simp: in_window_def)
  have "timeline_merge ops Size (timeline ops Size log) (timeline ops Size other) =
    (let (start, f) = timeline ops Size log' in (start, \<lambda>t.
      if in_window Size start t \<and> in_window Size ?os t
      then bucket_merge ops (f t) (snd (timeline ops Size other) t) else f t))"
    unfolding timeline_merge_def adv(2) by (simp add: timeline_def)
  also have "\<dots> = timeline ops Size (log'\<lparr>buckets := merged\<rparr>)"
    by (auto simp: timeline_def nth)
  finally show "timeline ops Size (BucketedLog_merge ops Size log other) =
      timeline_merge ops Size (timeline ops Size log) (timeline ops Size other)" by (simp add: eq)
qed

lemma getAll_spec:
  assumes ok: "log_ok Size log" and law: "monoid_bucket ops" and now: "now + Size < 2 ^ 64"
    and current: "windowStart log + Size \<le> now + 1"
  shows "fst (getAll ops Size log now) = map (snd (timeline ops Size log)) [now + 1 - Size ..< now + 1]"
proof -
  define log' where "log' = advanceWindow ops Size log now"
  have Size: "0 < Size" using ok by (simp add: log_ok_def)
  then have "now + 1 < 2 ^ 64" using now by linarith
  note adv = advanceWindow_spec [OF ok law this, folded log'_def]
  have "max (windowStart log) (now + 1 - Size) = now + 1 - Size" using current by simp
  then have eq: "windowStart log' = now + 1 - Size"
    "snd (timeline ops Size log') =
       (\<lambda>t. if in_window Size (now + 1 - Size) t then snd (timeline ops Size log) t else bucket_default ops)"
    using arg_cong [OF adv(2), of fst] arg_cong [OF adv(2), of snd]
    by (simp_all add: timeline_advance_def Let_def) (simp_all add: timeline_def)
  have "buckets log' ! (u64 (now + 1 + i) mod Size) = snd (timeline ops Size log) (now + 1 - Size + i)"
    if "i < Size" for i
  proof -
    let ?t = "now + 1 - Size + i"
    have win: "in_window Size (now + 1 - Size) ?t" using that by (simp add: in_window_def)
    have "u64 (now + 1 + i) = ?t + Size" using that now current by simp
    then have "u64 (now + 1 + i) mod Size = ?t mod Size" by simp
    moreover have "buckets log' ! (?t mod Size) = snd (timeline ops Size log') ?t"
      using win eq(1) by (simp add: timeline_def)
    ultimately show ?thesis using win by (simp add: eq(2))
  qed
  then show ?thesis using current
    by (intro nth_equalityI) (auto simp: getAll_def Let_def simp del: upt_Suc simp flip: log'_def)
qed


section \<open>Refinement\<close>


text \<open>The bucket of the test of the repository: a string that grows at the end.\<close>

definition string_bucket :: "(string, string) bucket_ops" where
  "string_bucket = \<lparr>bucket_default = [], bucket_add = (@), bucket_merge = (@), bucket_clear = (\<lambda>_. [])\<rparr>"


end
