(* ===== verification/Process_Info_Cache.thy ===== *)
theory Process_Info_Cache
  imports Transition_System Eden_Prelude
begin

text \<open>
  \<open>ProcessInfoCache\<close> of \<open>ProcessInfoCache.h\<close> and \<open>ProcessInfoCache.cpp\<close>: a cache of process
  infos that a background thread reads.  Clients call \<open>lookup\<close>, \<open>add\<close> and
  \<open>getAllProcessInfos\<close> from any thread; they share \<open>State\<close> with the worker under a lock and
  wake it with a semaphore.

  The state \<open>pic_state\<close> holds the fields of \<open>State\<close>, the semaphore, the program counter of
  the worker with its local variables (\<open>worker\<close>), and the heap: the nodes, the shared
  promises of lookups and the promises of \<open>getAllProcessInfos\<close>, each addressed by its position
  in the order of allocation.  \<open>unordered_map\<close> is an association list with distinct keys.
  A step is what one thread does under one acquisition of the lock, or one operation on the
  semaphore or on a promise; \<open>p_posting\<close> counts the threads that have released the lock and
  not yet posted.  The steps of all threads interleave freely.

  Parameters: the result of reading a process (\<open>reads pid r\<close>: reading \<open>pid\<close> may give \<open>r\<close>, a
  value or an exception), the values of the clock, and \<open>folly::EvictingCacheMap\<close>, of which
  \<open>evicting_cache\<close> only says that it returns for a key what was stored for it, or nothing.
  The fault injector of the constructor is the null pointer it is outside of tests.
  \<open>n_pid\<close> is a ghost field: the process for which a node was created; no operation reads it.
\<close>

section \<open>The state\<close>

type_synonym pid = nat

record node =
  n_info :: nat
  n_lastAccess :: int
  n_pid :: pid

datatype 'i worker =
    W_wait
  | W_awake
  | W_swapped "(pid \<times> nat) list" "nat list" nat
  | W_reading "(pid \<times> nat) list" "nat list" nat nat
  | W_flushed "nat list" int
  | W_answering "nat list" "pid \<rightharpoonup> 'i"
  | W_stopped
  | W_failed

record 'i pic_state =
  p_infos :: "(pid \<times> nat) list"
  p_stop :: bool
  p_lookupQueue :: "(pid \<times> nat) list"
  p_getAllQueue :: "nat list"
  p_nodes :: "node list"
  p_promises :: "'i result option list"
  p_answers :: "(pid \<rightharpoonup> 'i) option list"
  p_sem :: nat
  p_posting :: nat
  p_worker :: "'i worker"
  p_waterLevel :: nat
  p_handles :: "nat list"

definition ProcessInfoCache :: "'i pic_state" where
  "ProcessInfoCache =
     \<lparr>p_infos = [], p_stop = False, p_lookupQueue = [], p_getAllQueue = [], p_nodes = [],
      p_promises = [], p_answers = [], p_sem = 0, p_posting = 0, p_worker = W_wait,
      p_waterLevel = 0, p_handles = []\<rparr>"

section \<open>Nodes and the thread-local cache\<close>

definition recordAccess :: "nat \<Rightarrow> int \<Rightarrow> 'i pic_state \<Rightarrow> 'i pic_state" where
  "recordAccess n now s =
     s\<lparr>p_nodes := (p_nodes s)[n := (p_nodes s ! n)\<lparr>n_lastAccess := now\<rparr>]\<rparr>"

text \<open>A node lives as long as the map or a handle owns it; the thread-local caches hold weak pointers.\<close>

definition node_alive :: "'i pic_state \<Rightarrow> nat \<Rightarrow> bool" where
  "node_alive s n \<longleftrightarrow> n \<in> snd ` set (p_infos s) \<or> n \<in> set (p_handles s)"

record 'c ecm_ops =
  ecm_empty :: 'c
  ecm_exists :: "'c \<Rightarrow> pid \<Rightarrow> bool"
  ecm_find :: "'c \<Rightarrow> pid \<Rightarrow> nat option \<times> 'c"
  ecm_set :: "'c \<Rightarrow> pid \<Rightarrow> nat \<Rightarrow> 'c"

definition tlc_has :: "'c ecm_ops \<Rightarrow> 'c \<Rightarrow> pid \<Rightarrow> bool" where
  "tlc_has em c pid = ecm_exists em c pid"

definition tlc_get ::
  "'c ecm_ops \<Rightarrow> 'c \<Rightarrow> pid \<Rightarrow> int \<Rightarrow> 'i pic_state \<Rightarrow> nat option \<times> 'c \<times> 'i pic_state" where
  "tlc_get em c pid now s =
     (case ecm_find em c pid of
        (None, c') \<Rightarrow> (None, c', s)
      | (Some n, c') \<Rightarrow> if node_alive s n then (Some n, c', recordAccess n now s) else (None, c', s))"

definition tlc_put :: "'c ecm_ops \<Rightarrow> 'c \<Rightarrow> pid \<Rightarrow> nat \<Rightarrow> 'c" where
  "tlc_put em c pid n = ecm_set em c pid n"

section \<open>Client operations\<close>

text \<open>The common end of \<open>lookup\<close> and \<open>add\<close>: a promise, its place in the queue, and a node.\<close>

definition enqueue_lookup :: "pid \<Rightarrow> int \<Rightarrow> 'i pic_state \<Rightarrow> nat \<times> 'i pic_state" where
  "enqueue_lookup pid now s =
     (let p = length (p_promises s); n = length (p_nodes s)
      in (n, s\<lparr>p_promises := p_promises s @ [None],
               p_lookupQueue := p_lookupQueue s @ [(pid, p)],
               p_nodes := p_nodes s @ [\<lparr>n_info = p, n_lastAccess = now, n_pid = pid\<rparr>],
               p_infos := p_infos s @ [(pid, n)],
               p_posting := p_posting s + 1\<rparr>))"

definition make_handle :: "nat \<Rightarrow> 'i pic_state \<Rightarrow> 'i pic_state" where
  "make_handle n s = s\<lparr>p_handles := n # p_handles s\<rparr>"

definition lookup_cached ::
  "'c ecm_ops \<Rightarrow> pid \<Rightarrow> int \<Rightarrow> 'c \<Rightarrow> 'i pic_state \<Rightarrow> nat option \<times> 'c \<times> 'i pic_state" where
  "lookup_cached em pid now c s =
     (case tlc_get em c pid now s of
        (Some n, c', s') \<Rightarrow> (Some n, c', make_handle n s')
      | (None, c', s') \<Rightarrow> (None, c', s'))"

definition lookup_locked ::
  "'c ecm_ops \<Rightarrow> pid \<Rightarrow> int \<Rightarrow> 'c \<Rightarrow> 'i pic_state \<Rightarrow> nat \<times> 'c \<times> 'i pic_state" where
  "lookup_locked em pid now c s =
     (case map_of (p_infos s) pid of
        Some n \<Rightarrow> (n, c, make_handle n s)
      | None \<Rightarrow>
          let (n, s') = enqueue_lookup pid now s
          in (n, tlc_put em c pid n, make_handle n s'))"

definition add_check :: "pid \<Rightarrow> int \<Rightarrow> 'i pic_state \<Rightarrow> bool \<times> 'i pic_state" where
  "add_check pid now s =
     (case map_of (p_infos s) pid of
        Some n \<Rightarrow> (True, recordAccess n now s)
      | None \<Rightarrow> (False, s))"

text \<open>
  \<open>add\<close> runs \<open>add_check\<close> under the read lock and, if it fails, \<open>add_locked\<close> under the write
  lock, which checks again (\<open>tryRlockCheckBeforeUpdate\<close>).  Other threads may run in between.
\<close>

definition add_locked :: "'c ecm_ops \<Rightarrow> pid \<Rightarrow> int \<Rightarrow> 'c \<Rightarrow> 'i pic_state \<Rightarrow> 'c \<times> 'i pic_state" where
  "add_locked em pid now c s =
     (case add_check pid now s of
        (True, s') \<Rightarrow> (c, s')
      | (False, s') \<Rightarrow>
          let (n, s'') = enqueue_lookup pid now s'
          in (tlc_put em c pid n, s''))"

definition add_rlock :: "'c ecm_ops \<Rightarrow> pid \<Rightarrow> int \<Rightarrow> 'c \<Rightarrow> 'i pic_state \<Rightarrow> bool \<times> 'i pic_state" where
  "add_rlock em pid now c s =
     (if tlc_has em c pid then (True, s) else add_check pid now s)"

definition sem_post :: "'i pic_state \<Rightarrow> 'i pic_state" where
  "sem_post s = s\<lparr>p_posting := p_posting s - 1, p_sem := p_sem s + 1\<rparr>"

definition getAllProcessInfos_start :: "'i pic_state \<Rightarrow> nat \<times> 'i pic_state" where
  "getAllProcessInfos_start s =
     (let g = length (p_answers s)
      in (g, s\<lparr>p_answers := p_answers s @ [None], p_getAllQueue := p_getAllQueue s @ [g],
               p_posting := p_posting s + 1\<rparr>))"

definition getAllProcessInfos_result :: "nat \<Rightarrow> 'i pic_state \<Rightarrow> (pid \<rightharpoonup> 'i) option" where
  "getAllProcessInfos_result g s = p_answers s ! g"

definition getAllProcessNames_result :: "('i \<Rightarrow> string) \<Rightarrow> nat \<Rightarrow> 'i pic_state \<Rightarrow> (pid \<rightharpoonup> string) option" where
  "getAllProcessNames_result name g s =
     map_option (\<lambda>m pid. map_option name (m pid)) (getAllProcessInfos_result g s)"

definition node_value :: "'i pic_state \<Rightarrow> nat \<Rightarrow> 'i result option" where
  "node_value s n = p_promises s ! n_info (p_nodes s ! n)"

text \<open>\<open>get_optional\<close> rethrows the exception of the read; \<open>Inr None\<close> is the null pointer.\<close>

definition get_optional :: "nat \<Rightarrow> int \<Rightarrow> 'i pic_state \<Rightarrow> 'i option result \<times> 'i pic_state" where
  "get_optional n now s =
     (let s' = recordAccess n now s
      in (case node_value s' n of
            None \<Rightarrow> Inr None
          | Some (Inl e) \<Rightarrow> Inl e
          | Some (Inr i) \<Rightarrow> Inr (Some i), s'))"

text \<open>\<open>ProcessInfoHandle::get\<close> records the access and waits; \<open>None\<close> is a caller that still waits.\<close>

definition handle_get_start :: "nat \<Rightarrow> int \<Rightarrow> 'i pic_state \<Rightarrow> 'i pic_state" where
  "handle_get_start n now s = recordAccess n now s"

definition handle_get_result :: "nat \<Rightarrow> 'i pic_state \<Rightarrow> 'i result option" where
  "handle_get_result n s = node_value s n"

definition getProcessInfo :: "pid \<Rightarrow> 'i pic_state \<Rightarrow> 'i option result" where
  "getProcessInfo pid s =
     (case map_of (p_infos s) pid of
        None \<Rightarrow> Inr None
      | Some n \<Rightarrow>
          (case node_value s n of
             None \<Rightarrow> Inr None
           | Some (Inl e) \<Rightarrow> Inl e
           | Some (Inr i) \<Rightarrow> Inr (Some i)))"

definition getProcessName :: "('i \<Rightarrow> string) \<Rightarrow> pid \<Rightarrow> 'i pic_state \<Rightarrow> string option result" where
  "getProcessName name pid s =
     (case getProcessInfo pid s of
        Inl e \<Rightarrow> Inl e
      | Inr i \<Rightarrow> Inr (map_option name i))"

text \<open>\<open>folly::rtrimWhitespace\<close> is the parameter \<open>rtrim\<close>.\<close>

definition cleanProcessCommandline :: "(string \<Rightarrow> string) \<Rightarrow> string \<Rightarrow> string" where
  "cleanProcessCommandline rtrim processName =
     rtrim (map (\<lambda>c. if c = CHR 0x00 then CHR '' '' else c) processName)"

section \<open>The worker\<close>

definition expired :: "int \<Rightarrow> int \<Rightarrow> 'i pic_state \<Rightarrow> nat \<Rightarrow> bool" where
  "expired expiry now s n \<longleftrightarrow> now - n_lastAccess (p_nodes s ! n) \<ge> expiry"

definition clearExpired :: "int \<Rightarrow> int \<Rightarrow> 'i pic_state \<Rightarrow> 'i pic_state" where
  "clearExpired expiry now s = s\<lparr>p_infos := filter (\<lambda>(pid, n). \<not> expired expiry now s n) (p_infos s)\<rparr>"

fun collect_infos :: "'i pic_state \<Rightarrow> (pid \<times> nat) list \<Rightarrow> (pid \<rightharpoonup> 'i) \<Rightarrow> (pid \<rightharpoonup> 'i)" where
  "collect_infos s [] acc = acc"
| "collect_infos s ((pid, n) # xs) acc =
     collect_infos s xs
       (case node_value s n of
          Some (Inr i) \<Rightarrow> acc(pid \<mapsto> i)
        | _ \<Rightarrow> acc)"

text \<open>
  One step of \<open>workerThread\<close>; \<open>None\<close> if it is blocked or has returned.  \<open>r\<close> is the outcome of
  \<open>readInfo_\<close>, \<open>now\<close> the clock.  A promise that is set twice throws out of the thread.
\<close>

fun worker_step :: "int \<Rightarrow> 'i pic_state \<Rightarrow> 'i result \<Rightarrow> int \<Rightarrow> 'i worker \<Rightarrow> 'i pic_state option" where
  "worker_step expiry s r now W_wait =
     (if p_sem s = 0 then None else Some (s\<lparr>p_sem := p_sem s - 1, p_worker := W_awake\<rparr>))"
| "worker_step expiry s r now W_awake =
     (if p_stop s then Some (s\<lparr>p_worker := if p_getAllQueue s = [] then W_stopped else W_failed\<rparr>)
      else Some (s\<lparr>p_lookupQueue := [], p_getAllQueue := [],
                   p_worker := W_swapped (p_lookupQueue s) (p_getAllQueue s) (length (p_infos s))\<rparr>))"
| "worker_step expiry s r now (W_swapped lq gq names) =
     (let k = length lq + length gq
      in Some (s\<lparr>p_sem := (if k \<noteq> 0 then p_sem s - min (p_sem s) (k - 1) else p_sem s),
                 p_worker := W_reading lq gq names (length lq)\<rparr>))"
| "worker_step expiry s r now (W_reading ((pid, p) # lq) gq names n) =
     Some (if p_promises s ! p \<noteq> None then s\<lparr>p_worker := W_failed\<rparr>
           else s\<lparr>p_promises := (p_promises s)[p := Some r], p_worker := W_reading lq gq names n\<rparr>)"
| "worker_step expiry s r now (W_reading [] gq names n) =
     (let waterLevel = p_waterLevel s + 2 * n
      in Some (if waterLevel > names
               then (clearExpired expiry now s)\<lparr>p_waterLevel := 0, p_worker := W_flushed gq now\<rparr>
               else s\<lparr>p_waterLevel := waterLevel, p_worker := W_flushed gq now\<rparr>))"
| "worker_step expiry s r now (W_flushed gq now') =
     Some (if gq = [] then s\<lparr>p_worker := W_wait\<rparr>
           else let s' = clearExpired expiry now' s
                in s'\<lparr>p_worker := W_answering gq (collect_infos s' (p_infos s') Map.empty)\<rparr>)"
| "worker_step expiry s r now (W_answering [] all) = Some (s\<lparr>p_worker := W_wait\<rparr>)"
| "worker_step expiry s r now (W_answering (g # gq) all) =
     Some (if p_answers s ! g \<noteq> None then s\<lparr>p_worker := W_failed\<rparr>
           else s\<lparr>p_answers := (p_answers s)[g := Some all], p_worker := W_answering gq all\<rparr>)"
| "worker_step expiry s r now W_stopped = None"
| "worker_step expiry s r now W_failed = None"

definition destroy_cache :: "'i pic_state \<Rightarrow> 'i pic_state" where
  "destroy_cache s = s\<lparr>p_stop := True, p_posting := p_posting s + 1\<rparr>"


section \<open>Interleavings\<close>

text \<open>
  A system state is the shared state and the thread-local cache of every thread.  The public
  operations are called before the destructor; the destructor runs once no other call is in
  progress.  Handles may be used and dropped at any time.
\<close>

type_synonym ('i, 'c) pic_system = "'i pic_state \<times> (nat \<Rightarrow> 'c)"

definition calls_finished :: "'i pic_state \<Rightarrow> bool" where
  "calls_finished s \<longleftrightarrow> p_posting s = 0 \<and> (\<forall>a \<in> set (p_answers s). a \<noteq> None)"

fun read_allowed :: "(pid \<Rightarrow> 'i result \<Rightarrow> bool) \<Rightarrow> 'i worker \<Rightarrow> 'i result \<Rightarrow> bool" where
  "read_allowed reads (W_reading ((pid, p) # lq) gq names n) r = reads pid r"
| "read_allowed reads w r = True"

inductive pic_step :: "'c ecm_ops \<Rightarrow> int \<Rightarrow> (pid \<Rightarrow> 'i result \<Rightarrow> bool) \<Rightarrow>
    ('i, 'c) pic_system \<Rightarrow> ('i, 'c) pic_system \<Rightarrow> bool"
  for em :: "'c ecm_ops" and expiry :: int and reads :: "pid \<Rightarrow> 'i result \<Rightarrow> bool" where
  step_lookup_cached:
    "\<not> p_stop s \<Longrightarrow> lookup_cached em pid now (cs t) s = (h, c, s') \<Longrightarrow>
     pic_step em expiry reads (s, cs) (s', cs(t := c))"
| step_lookup_locked:
    "\<not> p_stop s \<Longrightarrow> lookup_locked em pid now (cs t) s = (n, c, s') \<Longrightarrow>
     pic_step em expiry reads (s, cs) (s', cs(t := c))"
| step_add_rlock:
    "\<not> p_stop s \<Longrightarrow> add_rlock em pid now (cs t) s = (b, s') \<Longrightarrow>
     pic_step em expiry reads (s, cs) (s', cs)"
| step_add_locked:
    "\<not> p_stop s \<Longrightarrow> add_locked em pid now (cs t) s = (c, s') \<Longrightarrow>
     pic_step em expiry reads (s, cs) (s', cs(t := c))"
| step_getAll:
    "\<not> p_stop s \<Longrightarrow> getAllProcessInfos_start s = (g, s') \<Longrightarrow>
     pic_step em expiry reads (s, cs) (s', cs)"
| step_post:
    "p_posting s > 0 \<Longrightarrow> pic_step em expiry reads (s, cs) (sem_post s, cs)"
| step_handle:
    "n \<in> set (p_handles s) \<Longrightarrow> pic_step em expiry reads (s, cs) (recordAccess n now s, cs)"
| step_drop_handle:
    "pic_step em expiry reads (s, cs) (s\<lparr>p_handles := remove1 n (p_handles s)\<rparr>, cs)"
| step_worker:
    "worker_step expiry s r now (p_worker s) = Some s' \<Longrightarrow> read_allowed reads (p_worker s) r \<Longrightarrow>
     pic_step em expiry reads (s, cs) (s', cs)"
| step_destroy:
    "\<not> p_stop s \<Longrightarrow> calls_finished s \<Longrightarrow> pic_step em expiry reads (s, cs) (destroy_cache s, cs)"

definition pic_init :: "'c ecm_ops \<Rightarrow> ('i, 'c) pic_system \<Rightarrow> bool" where
  "pic_init em S \<longleftrightarrow> S = (ProcessInfoCache, \<lambda>_. ecm_empty em)"

section \<open>The invariant\<close>

definition evicting_cache :: "'c ecm_ops \<Rightarrow> ('c \<Rightarrow> (pid \<times> nat) set) \<Rightarrow> bool" where
  "evicting_cache em entries \<longleftrightarrow>
     entries (ecm_empty em) = {} \<and>
     (\<forall>c pid. entries (snd (ecm_find em c pid)) \<subseteq> entries c) \<and>
     (\<forall>c pid n. fst (ecm_find em c pid) = Some n \<longrightarrow> (pid, n) \<in> entries c) \<and>
     (\<forall>c pid n. entries (ecm_set em c pid n) \<subseteq> insert (pid, n) (entries c))"

fun worker_lookups :: "'i worker \<Rightarrow> (pid \<times> nat) list" where
  "worker_lookups (W_swapped lq gq names) = lq"
| "worker_lookups (W_reading lq gq names n) = lq"
| "worker_lookups w = []"

fun worker_gets :: "'i worker \<Rightarrow> nat list" where
  "worker_gets (W_swapped lq gq names) = gq"
| "worker_gets (W_reading lq gq names n) = gq"
| "worker_gets (W_flushed gq now) = gq"
| "worker_gets (W_answering gq all) = gq"
| "worker_gets w = []"

definition lookups :: "'i pic_state \<Rightarrow> (pid \<times> nat) list" where
  "lookups s = worker_lookups (p_worker s) @ p_lookupQueue s"

definition gets :: "'i pic_state \<Rightarrow> nat list" where
  "gets s = worker_gets (p_worker s) @ p_getAllQueue s"

fun worker_tokens :: "'i worker \<Rightarrow> nat" where
  "worker_tokens W_awake = 1"
| "worker_tokens w = 0"

fun worker_debt :: "'i worker \<Rightarrow> nat" where
  "worker_debt (W_swapped lq gq names) = length lq + length gq - 1"
| "worker_debt w = 0"

text \<open>The node \<open>n\<close> exists and was created for \<open>pid\<close>.\<close>

definition node_for :: "'i pic_state \<Rightarrow> pid \<Rightarrow> nat \<Rightarrow> bool" where
  "node_for s pid n \<longleftrightarrow> n < length (p_nodes s) \<and> n_pid (p_nodes s ! n) = pid"

definition heap_inv :: "'i pic_state \<Rightarrow> bool" where
  "heap_inv s \<longleftrightarrow> length (p_promises s) = length (p_nodes s) \<and>
     (\<forall>n < length (p_nodes s). n_info (p_nodes s ! n) = n) \<and>
     distinct (map fst (p_infos s)) \<and> (\<forall>(pid, n) \<in> set (p_infos s). node_for s pid n) \<and>
     (\<forall>n \<in> set (p_handles s). n < length (p_nodes s))"

definition promise_inv :: "(pid \<Rightarrow> 'i result \<Rightarrow> bool) \<Rightarrow> 'i pic_state \<Rightarrow> bool" where
  "promise_inv reads s \<longleftrightarrow>
     distinct (map snd (lookups s)) \<and> (\<forall>(pid, p) \<in> set (lookups s). node_for s pid p) \<and>
     (\<forall>p < length (p_promises s). p_promises s ! p = None \<longleftrightarrow> p \<in> snd ` set (lookups s)) \<and>
     (\<forall>p < length (p_promises s). \<forall>r. p_promises s ! p = Some r \<longrightarrow> reads (n_pid (p_nodes s ! p)) r)"

definition answer_inv :: "'i pic_state \<Rightarrow> bool" where
  "answer_inv s \<longleftrightarrow> distinct (gets s) \<and> (\<forall>g \<in> set (gets s). g < length (p_answers s)) \<and>
     (\<forall>g < length (p_answers s). p_answers s ! g = None \<longleftrightarrow> g \<in> set (gets s)) \<and>
     (p_stop s \<longrightarrow> gets s = []) \<and> (p_worker s = W_stopped \<longrightarrow> p_stop s)"

text \<open>
  Every queued request is matched by a count of the semaphore, by a thread about to post, or
  by the worker that is already awake; \<open>worker_debt\<close> is what the worker is about to consume.
\<close>

definition token_inv :: "'i pic_state \<Rightarrow> bool" where
  "token_inv s \<longleftrightarrow>
     length (p_lookupQueue s) + length (p_getAllQueue s) + (if p_stop s then 1 else 0) +
       worker_debt (p_worker s)
     \<le> p_sem s + p_posting s + worker_tokens (p_worker s) \<or> p_worker s = W_stopped"

definition cache_inv :: "('c \<Rightarrow> (pid \<times> nat) set) \<Rightarrow> 'i pic_state \<Rightarrow> (nat \<Rightarrow> 'c) \<Rightarrow> bool" where
  "cache_inv entries s cs \<longleftrightarrow> (\<forall>t. \<forall>(pid, n) \<in> entries (cs t). node_for s pid n)"

definition pic_inv :: "(pid \<Rightarrow> 'i result \<Rightarrow> bool) \<Rightarrow> ('c \<Rightarrow> (pid \<times> nat) set) \<Rightarrow> ('i, 'c) pic_system \<Rightarrow> bool" where
  "pic_inv reads entries S \<longleftrightarrow> heap_inv (fst S) \<and> promise_inv reads (fst S) \<and> answer_inv (fst S) \<and>
     token_inv (fst S) \<and> cache_inv entries (fst S) (snd S) \<and> p_worker (fst S) \<noteq> W_failed"

lemmas pic_invs = heap_inv_def promise_inv_def answer_inv_def token_inv_def cache_inv_def

lemma record_access_fields [simp]:
  "n_info (p_nodes (recordAccess n now s) ! m) = n_info (p_nodes s ! m) \<and>
   n_pid (p_nodes (recordAccess n now s) ! m) = n_pid (p_nodes s ! m) \<and>
   length (p_nodes (recordAccess n now s)) = length (p_nodes s)"
proof (cases "n < length (p_nodes s)")
  case True
  then show ?thesis by (simp add: recordAccess_def nth_list_update)
next
  case False
  then have "(p_nodes s)[n := v] = p_nodes s" for v by (simp add: list_update_beyond)
  then show ?thesis by (simp add: recordAccess_def)
qed

lemma record_access_other [simp]:
  "p_infos (recordAccess n now s) = p_infos s" "p_stop (recordAccess n now s) = p_stop s"
  "p_lookupQueue (recordAccess n now s) = p_lookupQueue s"
  "p_getAllQueue (recordAccess n now s) = p_getAllQueue s"
  "p_promises (recordAccess n now s) = p_promises s" "p_answers (recordAccess n now s) = p_answers s"
  "p_sem (recordAccess n now s) = p_sem s" "p_posting (recordAccess n now s) = p_posting s"
  "p_worker (recordAccess n now s) = p_worker s" "p_handles (recordAccess n now s) = p_handles s"
  by (simp_all add: recordAccess_def)

lemma record_access_views [simp]:
  "node_for (recordAccess n now s) pid m = node_for s pid m" "lookups (recordAccess n now s) = lookups s"
  "gets (recordAccess n now s) = gets s" "heap_inv (recordAccess n now s) = heap_inv s"
  by (simp_all add: node_for_def lookups_def gets_def heap_inv_def)

lemma record_access_inv [simp]:
  "pic_inv reads entries (recordAccess n now s, cs) = pic_inv reads entries (s, cs)"
  by (simp add: pic_inv_def promise_inv_def answer_inv_def token_inv_def cache_inv_def)

lemma handles_inv:
  assumes "pic_inv reads entries (s, cs)" "\<forall>n \<in> set hs. n < length (p_nodes s)"
  shows "pic_inv reads entries (s\<lparr>p_handles := hs\<rparr>, cs)"
  using assms by (simp add: pic_inv_def pic_invs lookups_def gets_def node_for_def)

lemma make_handle_inv:
  "pic_inv reads entries (s, cs) \<Longrightarrow> n < length (p_nodes s) \<Longrightarrow> pic_inv reads entries (make_handle n s, cs)"
  unfolding make_handle_def by (rule handles_inv) (auto simp: pic_inv_def heap_inv_def)


lemma enqueue_lookup_inv:
  assumes inv: "pic_inv reads entries (s, cs)" and new: "map_of (p_infos s) pid = None"
    and run: "p_worker s \<noteq> W_stopped" and eq: "enqueue_lookup pid now s = (n, s')"
  shows "pic_inv reads entries (s', cs)" "node_for s' pid n" "p_worker s' = p_worker s"
proof -
  have n: "n = length (p_nodes s)" using eq by (auto simp: enqueue_lookup_def Let_def)
  have len: "length (p_promises s) = length (p_nodes s)" using inv by (simp add: pic_inv_def heap_inv_def)
  have s': "s' = s\<lparr>p_promises := p_promises s @ [None], p_lookupQueue := p_lookupQueue s @ [(pid, n)],
      p_nodes := p_nodes s @ [\<lparr>n_info = n, n_lastAccess = now, n_pid = pid\<rparr>],
      p_infos := p_infos s @ [(pid, n)], p_posting := p_posting s + 1\<rparr>"
    using eq by (auto simp: enqueue_lookup_def Let_def len)
  have old: "node_for s q m \<Longrightarrow> node_for s' q m" for q m by (auto simp: node_for_def s' nth_append)
  show nf: "node_for s' pid n" by (simp add: node_for_def s' n)
  have views: "lookups s' = lookups s @ [(pid, n)]" "gets s' = gets s" "p_worker s' = p_worker s"
    by (simp_all add: lookups_def gets_def s')
  show "p_worker s' = p_worker s" by (rule views)
  have fields: "p_promises s' = p_promises s @ [None]" "p_infos s' = p_infos s @ [(pid, n)]"
    "p_nodes s' = p_nodes s @ [\<lparr>n_info = n, n_lastAccess = now, n_pid = pid\<rparr>]" "p_handles s' = p_handles s"
    by (simp_all add: s')
  have "heap_inv s'"
    using inv new old nf by (auto simp: pic_inv_def heap_inv_def fields nth_append len n map_of_eq_None_iff)
  moreover have fresh: "n \<notin> snd ` set (lookups s)"
    using inv by (auto simp: pic_inv_def promise_inv_def node_for_def n)
  have "promise_inv reads s'"
  proof -
    have "\<forall>p < length (p_promises s'). p_promises s' ! p = None \<longleftrightarrow> p \<in> snd ` set (lookups s')"
      using inv fresh by (auto simp: pic_inv_def promise_inv_def views fields nth_append len n less_Suc_eq)
    moreover have "\<forall>p < length (p_promises s'). \<forall>r. p_promises s' ! p = Some r \<longrightarrow> reads (n_pid (p_nodes s' ! p)) r"
      using inv by (auto simp: pic_inv_def promise_inv_def fields nth_append len less_Suc_eq)
    ultimately show ?thesis using inv old nf fresh by (auto simp: pic_inv_def promise_inv_def views)
  qed
  moreover have "answer_inv s'" using inv views by (simp add: pic_inv_def answer_inv_def s')
  moreover have "token_inv s'" using inv run by (simp add: pic_inv_def token_inv_def s')
  moreover have "cache_inv entries s' cs" using inv old by (fastforce simp: pic_inv_def cache_inv_def)
  ultimately show "pic_inv reads entries (s', cs)" using inv by (simp add: pic_inv_def views)
qed

lemma cache_update_inv:
  assumes "pic_inv reads entries (s, cs)" "entries c \<subseteq> entries (cs t) \<union> {(pid, n) |pid n. node_for s pid n}"
  shows "pic_inv reads entries (s, cs(t := c))"
  using assms by (fastforce simp: pic_inv_def cache_inv_def)

lemma tlc_put_inv:
  assumes "pic_inv reads entries (s, cs)" "node_for s pid n" "evicting_cache em entries"
  shows "pic_inv reads entries (s, cs(t := tlc_put em (cs t) pid n))"
proof (rule cache_update_inv [OF assms(1)])
  have "entries (ecm_set em (cs t) pid n) \<subseteq> insert (pid, n) (entries (cs t))"
    using assms(3) by (simp add: evicting_cache_def)
  then show "entries (tlc_put em (cs t) pid n) \<subseteq> entries (cs t) \<union> {(pid, n) |pid n. node_for s pid n}"
    using assms(2) by (auto simp: tlc_put_def)
qed

lemma lookup_cached_inv:
  assumes inv: "pic_inv reads entries (s, cs)" and law: "evicting_cache em entries"
    and eq: "lookup_cached em pid now (cs t) s = (h, c, s')"
  shows "pic_inv reads entries (s', cs(t := c))"
proof -
  obtain o' c' where f: "ecm_find em (cs t) pid = (o', c')" by fastforce
  have "entries (snd (ecm_find em (cs t) pid)) \<subseteq> entries (cs t)" using law by (simp add: evicting_cache_def)
  then have sub: "entries c' \<subseteq> entries (cs t) \<union> {(pid, n) |pid n. node_for s' pid n}" for s' by (auto simp: f)
  have c: "c = c'" using eq by (auto simp: lookup_cached_def tlc_get_def f split: option.splits if_splits)
  have heap: "heap_inv s" using inv by (simp add: pic_inv_def)
  have "s' = s \<or> (\<exists>n. node_alive s n \<and> s' = make_handle n (recordAccess n now s))"
    using eq by (cases o') (auto simp: lookup_cached_def tlc_get_def f split: if_splits)
  then consider "s' = s" | n where "node_alive s n" "s' = make_handle n (recordAccess n now s)" by blast
  then show ?thesis
  proof cases
    case 1
    show ?thesis unfolding c 1 by (rule cache_update_inv [OF inv sub])
  next
    case 2
    then have "n < length (p_nodes s)" using heap by (auto simp: node_alive_def heap_inv_def node_for_def)
    then have "pic_inv reads entries (s', cs)" unfolding 2(2) using inv by (intro make_handle_inv) simp_all
    then show ?thesis unfolding c by (rule cache_update_inv) (rule sub)
  qed
qed

lemma lookup_locked_inv:
  assumes inv: "pic_inv reads entries (s, cs)" and law: "evicting_cache em entries"
    and run: "p_worker s \<noteq> W_stopped" and eq: "lookup_locked em pid now (cs t) s = (n, c, s')"
  shows "pic_inv reads entries (s', cs(t := c))"
proof (cases "map_of (p_infos s) pid")
  case (Some m)
  then have "(pid, m) \<in> set (p_infos s)" by (rule map_of_SomeD)
  then have "m < length (p_nodes s)" using inv by (auto simp: pic_inv_def heap_inv_def node_for_def)
  with Some eq show ?thesis using make_handle_inv [OF inv] by (auto simp: lookup_locked_def)
next
  case None
  obtain s1 where s1: "enqueue_lookup pid now s = (n, s1)" "s' = make_handle n s1" "c = tlc_put em (cs t) pid n"
    using eq None by (auto simp: lookup_locked_def split: prod.splits)
  note e = enqueue_lookup_inv [OF inv None run s1(1)]
  have "pic_inv reads entries (s', cs)" unfolding s1(2)
    by (rule make_handle_inv [OF e(1)]) (use e(2) in \<open>simp add: node_for_def\<close>)
  moreover have "node_for s' pid n" using e(2) by (simp add: s1(2) make_handle_def node_for_def)
  ultimately show ?thesis unfolding s1(3) by (rule tlc_put_inv [OF _ _ law])
qed

lemma add_check_inv:
  assumes "pic_inv reads entries (s, cs)" "add_check pid now s = (b, s')"
  shows "pic_inv reads entries (s', cs)" "p_worker s' = p_worker s" "\<not> b \<Longrightarrow> s' = s \<and> map_of (p_infos s) pid = None"
  using assms by (auto simp: add_check_def split: option.splits)

lemma add_locked_inv:
  assumes inv: "pic_inv reads entries (s, cs)" and law: "evicting_cache em entries"
    and run: "p_worker s \<noteq> W_stopped" and eq: "add_locked em pid now (cs t) s = (c, s')"
  shows "pic_inv reads entries (s', cs(t := c))"
proof -
  obtain b s1 where chk: "add_check pid now s = (b, s1)" by fastforce
  note ac = add_check_inv [OF inv chk]
  show ?thesis
  proof (cases b)
    case True
    then show ?thesis using ac(1) eq chk by (auto simp: add_locked_def)
  next
    case False
    obtain n where n: "enqueue_lookup pid now s = (n, s')" "c = tlc_put em (cs t) pid n"
      using eq chk False ac(3) by (auto simp: add_locked_def split: prod.splits)
    have "map_of (p_infos s) pid = None" using ac(3) [OF False] by simp
    note e = enqueue_lookup_inv [OF inv this run n(1)]
    show ?thesis unfolding n(2) by (rule tlc_put_inv [OF e(1,2) law])
  qed
qed


lemma getAll_inv:
  assumes "pic_inv reads entries (s, cs)" "\<not> p_stop s" "p_worker s \<noteq> W_stopped"
    "getAllProcessInfos_start s = (g, s')"
  shows "pic_inv reads entries (s', cs)"
proof -
  have g: "g = length (p_answers s)" and s': "s' = s\<lparr>p_answers := p_answers s @ [None],
      p_getAllQueue := p_getAllQueue s @ [g], p_posting := p_posting s + 1\<rparr>"
    using assms(4) by (auto simp: getAllProcessInfos_start_def Let_def)
  have views: "lookups s' = lookups s" "gets s' = gets s @ [g]" "node_for s' = node_for s" "heap_inv s' = heap_inv s"
    "p_worker s' = p_worker s" "p_answers s' = p_answers s @ [None]" "p_stop s' = p_stop s"
    by (auto simp: s' lookups_def gets_def node_for_def heap_inv_def fun_eq_iff)
  have "answer_inv s'" using assms(1,2)
    by (auto simp: pic_inv_def answer_inv_def views nth_append g less_Suc_eq)
  moreover have "promise_inv reads s'" "token_inv s'" "cache_inv entries s' cs"
    using assms(1,3) views(1,3) by (simp_all add: pic_inv_def promise_inv_def token_inv_def cache_inv_def s')
  ultimately show ?thesis using assms(1) by (simp add: pic_inv_def views)
qed

lemma queues_inv:
  assumes "pic_inv reads entries (s, cs)" "token_inv s'" "p_worker s' \<noteq> W_failed"
    "p_nodes s' = p_nodes s" "p_promises s' = p_promises s" "p_answers s' = p_answers s"
    "p_handles s' = p_handles s" "set (p_infos s') \<subseteq> set (p_infos s)" "distinct (map fst (p_infos s'))"
    "lookups s' = lookups s" "gets s' = gets s" "p_stop s' \<longrightarrow> gets s = []"
    "p_worker s' = W_stopped \<longrightarrow> p_stop s'"
  shows "pic_inv reads entries (s', cs)"
proof -
  have "node_for s' = node_for s" using assms(4) by (auto simp: node_for_def fun_eq_iff)
  then show ?thesis using assms by (auto simp: pic_inv_def heap_inv_def promise_inv_def answer_inv_def cache_inv_def)
qed

lemma infos_distinct: "pic_inv reads entries (s, cs) \<Longrightarrow> distinct (map fst (p_infos s))"
  by (simp add: pic_inv_def heap_inv_def)

lemma clearExpired_fields [simp]:
  "p_stop (clearExpired expiry now s) = p_stop s" "p_lookupQueue (clearExpired expiry now s) = p_lookupQueue s"
  "p_getAllQueue (clearExpired expiry now s) = p_getAllQueue s" "p_nodes (clearExpired expiry now s) = p_nodes s"
  "p_promises (clearExpired expiry now s) = p_promises s" "p_answers (clearExpired expiry now s) = p_answers s"
  "p_sem (clearExpired expiry now s) = p_sem s" "p_posting (clearExpired expiry now s) = p_posting s"
  "p_worker (clearExpired expiry now s) = p_worker s" "p_handles (clearExpired expiry now s) = p_handles s"
  "set (p_infos (clearExpired expiry now s)) \<subseteq> set (p_infos s)"
  by (auto simp: clearExpired_def)

lemma clearExpired_distinct: "distinct (map fst (p_infos s)) \<Longrightarrow> distinct (map fst (p_infos (clearExpired expiry now s)))"
  by (simp add: clearExpired_def distinct_map_filter)

lemma read_step_inv:
  assumes inv: "pic_inv reads entries (s, cs)" and w: "p_worker s = W_reading ((pid, p) # lq) gq names n"
    and r: "reads pid r"
  shows "p_promises s ! p = None"
    "pic_inv reads entries (s\<lparr>p_promises := (p_promises s)[p := Some r], p_worker := W_reading lq gq names n\<rparr>, cs)"
proof -
  have lk: "lookups s = (pid, p) # lq @ p_lookupQueue s" by (simp add: lookups_def w)
  have pn: "node_for s pid p" "p < length (p_promises s)"
    using inv by (auto simp: pic_inv_def promise_inv_def heap_inv_def lk node_for_def)
  show "p_promises s ! p = None" using inv pn(2) by (auto simp: pic_inv_def promise_inv_def lk)
  let ?s' = "s\<lparr>p_promises := (p_promises s)[p := Some r], p_worker := W_reading lq gq names n\<rparr>"
  have views: "lookups ?s' = lq @ p_lookupQueue s" "gets ?s' = gets s" "node_for ?s' = node_for s"
    by (auto simp: lookups_def gets_def node_for_def w fun_eq_iff)
  have fresh: "p \<notin> snd ` set (lq @ p_lookupQueue s)"
    using inv by (auto simp: pic_inv_def promise_inv_def lk)
  have "promise_inv reads ?s'"
  proof -
    have "\<forall>q < length (p_promises s). (p_promises s)[p := Some r] ! q = None \<longleftrightarrow> q \<in> snd ` set (lq @ p_lookupQueue s)"
      using inv fresh pn(2) by (simp add: pic_inv_def promise_inv_def lk nth_list_update)
    moreover have "\<forall>q < length (p_promises s). \<forall>r'. (p_promises s)[p := Some r] ! q = Some r' \<longrightarrow>
        reads (n_pid (p_nodes s ! q)) r'"
      using inv r pn by (auto simp: pic_inv_def promise_inv_def nth_list_update node_for_def)
    moreover have "distinct (map snd (lq @ p_lookupQueue s)) \<and> (\<forall>(pid, p) \<in> set (lq @ p_lookupQueue s). node_for s pid p)"
      using inv by (auto simp: pic_inv_def promise_inv_def lk)
    ultimately show ?thesis by (simp add: promise_inv_def views)
  qed
  moreover have "heap_inv ?s'" using inv by (simp add: pic_inv_def heap_inv_def views)
  moreover have "answer_inv ?s'" using inv by (simp add: pic_inv_def answer_inv_def views)
  moreover have "token_inv ?s'" using inv by (simp add: pic_inv_def token_inv_def w)
  moreover have "cache_inv entries ?s' cs" using inv by (simp add: pic_inv_def cache_inv_def views)
  ultimately show "pic_inv reads entries (?s', cs)" by (simp add: pic_inv_def)
qed

lemma answer_step_inv:
  assumes inv: "pic_inv reads entries (s, cs)" and w: "p_worker s = W_answering (g # gq) all"
  shows "p_answers s ! g = None"
    "pic_inv reads entries (s\<lparr>p_answers := (p_answers s)[g := Some all], p_worker := W_answering gq all\<rparr>, cs)"
proof -
  have gs: "gets s = g # gq @ p_getAllQueue s" by (simp add: gets_def w)
  have g: "g < length (p_answers s)" using inv by (auto simp: pic_inv_def answer_inv_def gs)
  then show "p_answers s ! g = None" using inv by (auto simp: pic_inv_def answer_inv_def gs)
  let ?s' = "s\<lparr>p_answers := (p_answers s)[g := Some all], p_worker := W_answering gq all\<rparr>"
  have views: "lookups ?s' = lookups s" "gets ?s' = gq @ p_getAllQueue s" "node_for ?s' = node_for s"
    by (auto simp: lookups_def gets_def node_for_def w fun_eq_iff)
  have "answer_inv ?s'"
    using inv g by (auto simp: pic_inv_def answer_inv_def views gs nth_list_update)
  moreover have "heap_inv ?s'" using inv by (simp add: pic_inv_def heap_inv_def views)
  moreover have "promise_inv reads ?s'" using inv by (simp add: pic_inv_def promise_inv_def views)
  moreover have "token_inv ?s'" using inv by (simp add: pic_inv_def token_inv_def w)
  moreover have "cache_inv entries ?s' cs" using inv by (simp add: pic_inv_def cache_inv_def views)
  ultimately show "pic_inv reads entries (?s', cs)" by (simp add: pic_inv_def)
qed


lemma worker_step_inv:
  assumes inv: "pic_inv reads entries (s, cs)" and eq: "worker_step expiry s r now (p_worker s) = Some s'"
    and r: "read_allowed reads (p_worker s) r"
  shows "pic_inv reads entries (s', cs)"
proof (cases "p_worker s")
  case W_wait
  then have s': "p_sem s > 0" "s' = s\<lparr>p_sem := p_sem s - 1, p_worker := W_awake\<rparr>"
    using eq by (auto split: if_splits)
  have "token_inv s'" using inv W_wait s' by (auto simp: pic_inv_def token_inv_def)
  then show ?thesis using inv W_wait
    by (intro queues_inv [OF inv]) (auto simp: s'(2) lookups_def gets_def infos_distinct [OF inv] pic_inv_def answer_inv_def)
next
  case W_awake
  have tok: "length (p_lookupQueue s) + length (p_getAllQueue s) + (if p_stop s then 1 else 0) \<le>
    p_sem s + p_posting s + 1" using inv W_awake by (simp add: pic_inv_def token_inv_def)
  have ans: "answer_inv s" using inv by (simp add: pic_inv_def)
  have "token_inv s'" using eq W_awake tok ans
    by (auto simp: token_inv_def answer_inv_def gets_def split: if_splits)
  moreover have "p_worker s' \<noteq> W_failed" using eq W_awake ans
    by (auto simp: answer_inv_def gets_def split: if_splits)
  ultimately show ?thesis using eq W_awake ans
    by (intro queues_inv [OF inv]) (auto simp: lookups_def gets_def infos_distinct [OF inv] answer_inv_def split: if_splits)
next
  case (W_swapped lq gq names)
  have s': "s' = s\<lparr>p_sem := (if length lq + length gq \<noteq> 0 then p_sem s - min (p_sem s) (length lq + length gq - 1) else p_sem s),
      p_worker := W_reading lq gq names (length lq)\<rparr>"
    using eq W_swapped by (simp add: Let_def)
  have "token_inv s'" using inv W_swapped by (auto simp: pic_inv_def token_inv_def s' min_def)
  then show ?thesis using inv W_swapped
    by (intro queues_inv [OF inv]) (auto simp: s' lookups_def gets_def infos_distinct [OF inv] pic_inv_def answer_inv_def)
next
  case (W_reading lq gq names n)
  show ?thesis
  proof (cases lq)
    case Nil
    let ?t = "\<lambda>s1 w. s1\<lparr>p_waterLevel := w, p_worker := W_flushed gq now\<rparr>"
    have "s' = ?t s (p_waterLevel s + 2 * n) \<or> s' = ?t (clearExpired expiry now s) 0"
      using eq W_reading Nil by (auto simp: Let_def)
    then obtain s1 w where s': "s' = ?t s1 w" and s1: "s1 = s \<or> s1 = clearExpired expiry now s" by blast
    have "token_inv s'" using inv W_reading s1 by (auto simp: pic_inv_def token_inv_def s')
    then show ?thesis using inv W_reading Nil s1 clearExpired_distinct [OF infos_distinct [OF inv]]
      by (intro queues_inv [OF inv])
        (auto simp: s' lookups_def gets_def infos_distinct [OF inv] pic_inv_def answer_inv_def
          dest: subsetD [OF clearExpired_fields(11)])
  next
    case (Cons x xs)
    obtain pid p where x: "x = (pid, p)" by fastforce
    have w: "p_worker s = W_reading ((pid, p) # xs) gq names n" using W_reading Cons x by simp
    then have "reads pid r" using r by simp
    note rs = read_step_inv [OF inv w this]
    then show ?thesis using eq w by auto
  qed
next
  case (W_flushed gq now')
  show ?thesis
  proof (cases "gq = []")
    case True
    then have s': "s' = s\<lparr>p_worker := W_wait\<rparr>" using eq W_flushed by simp
    have "token_inv s'" using inv W_flushed by (auto simp: pic_inv_def token_inv_def s')
    then show ?thesis using inv W_flushed True
      by (intro queues_inv [OF inv]) (auto simp: s' lookups_def gets_def infos_distinct [OF inv] pic_inv_def answer_inv_def)
  next
    case False
    define s1 where "s1 = clearExpired expiry now' s"
    have s': "s' = s1\<lparr>p_worker := W_answering gq (collect_infos s1 (p_infos s1) Map.empty)\<rparr>"
      using eq W_flushed False by (simp add: Let_def s1_def)
    have "token_inv s'" using inv W_flushed by (auto simp: pic_inv_def token_inv_def s' s1_def)
    then show ?thesis using inv W_flushed False clearExpired_distinct [OF infos_distinct [OF inv]]
      by (intro queues_inv [OF inv])
        (auto simp: s' s1_def lookups_def gets_def infos_distinct [OF inv] pic_inv_def answer_inv_def
          dest: subsetD [OF clearExpired_fields(11)])
  qed
next
  case (W_answering gq all)
  show ?thesis
  proof (cases gq)
    case Nil
    then have s': "s' = s\<lparr>p_worker := W_wait\<rparr>" using eq W_answering by simp
    have "token_inv s'" using inv W_answering by (auto simp: pic_inv_def token_inv_def s')
    then show ?thesis using inv W_answering Nil
      by (intro queues_inv [OF inv]) (auto simp: s' lookups_def gets_def infos_distinct [OF inv] pic_inv_def answer_inv_def)
  next
    case (Cons g gs)
    then have w: "p_worker s = W_answering (g # gs) all" using W_answering by simp
    show ?thesis using eq w answer_step_inv [OF inv w] by auto
  qed
qed (use eq in simp_all)

lemma sem_post_inv:
  assumes inv: "pic_inv reads entries (s, cs)" and p: "p_posting s > 0"
  shows "pic_inv reads entries (sem_post s, cs)"
proof (rule queues_inv [OF inv])
  show "token_inv (sem_post s)" using inv p by (auto simp: pic_inv_def token_inv_def sem_post_def)
qed (use inv in \<open>auto simp: sem_post_def lookups_def gets_def infos_distinct [OF inv] pic_inv_def answer_inv_def\<close>)

lemma destroy_inv:
  assumes inv: "pic_inv reads entries (s, cs)" and fin: "calls_finished s"
  shows "pic_inv reads entries (destroy_cache s, cs)"
proof (rule queues_inv [OF inv])
  show "token_inv (destroy_cache s)" using inv by (auto simp: pic_inv_def token_inv_def destroy_cache_def)
  have "g \<notin> set (gets s)" for g
  proof
    assume g: "g \<in> set (gets s)"
    then have "g < length (p_answers s)" "p_answers s ! g = None" using inv by (auto simp: pic_inv_def answer_inv_def)
    then show False using fin nth_mem [of g "p_answers s"] by (auto simp: calls_finished_def)
  qed
  then show "p_stop (destroy_cache s) \<longrightarrow> gets s = []" by (metis list.set_intros(1) neq_Nil_conv)
qed (use inv in \<open>auto simp: destroy_cache_def lookups_def gets_def infos_distinct [OF inv] pic_inv_def answer_inv_def\<close>)

lemma pic_step_inv:
  assumes "pic_step em expiry reads S S'" "evicting_cache em entries" "pic_inv reads entries S"
  shows "pic_inv reads entries S'"
  using assms
proof (induction rule: pic_step.induct)
  case (step_lookup_cached s pid now cs t h c s')
  then show ?case by (metis lookup_cached_inv)
next
  case (step_lookup_locked s pid now cs t n c s')
  then show ?case using lookup_locked_inv [of reads entries s cs em] by (auto simp: pic_inv_def answer_inv_def)
next
  case (step_add_rlock s pid now cs t b s')
  then show ?case using add_check_inv(1) by (auto simp: add_rlock_def split: if_splits)
next
  case (step_add_locked s pid now cs t c s')
  then show ?case using add_locked_inv [of reads entries s cs em] by (auto simp: pic_inv_def answer_inv_def)
next
  case (step_getAll s g s' cs)
  then show ?case using getAll_inv [of reads entries s cs] by (auto simp: pic_inv_def answer_inv_def)
next
  case (step_post s cs)
  then show ?case by (simp add: sem_post_inv)
next
  case (step_handle n s cs now)
  then show ?case by simp
next
  case (step_drop_handle s cs n)
  then show ?case by (intro handles_inv) (auto simp: pic_inv_def heap_inv_def dest: notin_set_remove1)
next
  case (step_worker s r now s' cs)
  then show ?case by (blast intro: worker_step_inv)
next
  case (step_destroy s cs)
  then show ?case by (simp add: destroy_inv)
qed

lemma pic_init_inv: "pic_init em S \<Longrightarrow> evicting_cache em entries \<Longrightarrow> pic_inv reads entries S"
  by (auto simp: pic_init_def ProcessInfoCache_def evicting_cache_def pic_inv_def pic_invs lookups_def gets_def)


text \<open>
  The invariant as an instance of the contract of \<open>invariant_system\<close>, for a cache map that
  keeps its law; a map without it has no runs to consider.
\<close>

interpretation pic_sys: invariant_system
  "\<lambda>S. pic_init em S \<and> evicting_cache em entries"
  "pic_step em expiry reads"
  "\<lambda>S. evicting_cache em entries \<longrightarrow> pic_inv reads entries S" for em expiry reads entries
proof
  show "evicting_cache em entries \<longrightarrow> pic_inv reads entries S"
    if "pic_init em S \<and> evicting_cache em entries" for S
    using that pic_init_inv by blast
  show "evicting_cache em entries \<longrightarrow> pic_inv reads entries T"
    if "pic_step em expiry reads S T" "evicting_cache em entries \<longrightarrow> pic_inv reads entries S" for S T
    using that pic_step_inv by blast
qed

lemma reachable_init_strengthen:
  "reachable init step S \<Longrightarrow> P \<Longrightarrow> reachable (\<lambda>S. init S \<and> P) step S"
  by (induction rule: reachable.induct) (auto intro: reachable.intros)

lemma pic_reachable_inv:
  assumes "reachable (pic_init em) (pic_step em expiry reads) S" "evicting_cache em entries"
  shows "pic_inv reads entries S"
  using pic_sys.reachable_inv [OF reachable_init_strengthen [OF assms(1), of "evicting_cache em entries"]] assms(2)
  by blast

end
