(* ===== verification/Process_Info_Progress.thy ===== *)
theory Process_Info_Progress
  imports Process_Info_Cache
begin

text \<open>
  The properties of \<open>ProcessInfoCache\<close>: consistency of what the cache hands out in every
  interleaving, the answers of \<open>getAllProcessInfos\<close>, stability of handles, and progress: the
  worker, running on its own, serves every request that has been posted.  \<open>worker_run k\<close> are
  \<open>k\<close> steps of the worker; the outcomes of the reads and the clock are arbitrary sequences.
  The number of steps that a request needs is at most \<open>lookup_rank\<close> or \<open>get_rank\<close>.
\<close>

fun worker_run :: "int \<Rightarrow> (nat \<Rightarrow> 'i result) \<Rightarrow> (nat \<Rightarrow> int) \<Rightarrow> nat \<Rightarrow> 'i pic_state \<Rightarrow> 'i pic_state option" where
  "worker_run expiry rs nows 0 s = Some s"
| "worker_run expiry rs nows (Suc k) s =
     (case worker_step expiry s (rs 0) (nows 0) (p_worker s) of
        None \<Rightarrow> None
      | Some s' \<Rightarrow> worker_run expiry (\<lambda>i. rs (Suc i)) (\<lambda>i. nows (Suc i)) k s')"

section \<open>Progress\<close>

text \<open>The steps of the worker up to the end of its round.\<close>

fun round_rank :: "'i worker \<Rightarrow> nat" where
  "round_rank W_awake = 0"
| "round_rank W_wait = 1"
| "round_rank (W_answering gq all) = 2 + length gq"
| "round_rank (W_flushed gq now) = 3 + length gq"
| "round_rank (W_reading lq gq names n) = 4 + length gq + length lq"
| "round_rank (W_swapped lq gq names) = 5 + length gq + length lq"
| "round_rank w = 0"

fun lookup_phase :: "'i worker \<Rightarrow> nat" where
  "lookup_phase (W_swapped lq gq names) = 1 + length lq"
| "lookup_phase (W_reading lq gq names n) = length lq"
| "lookup_phase w = 0"

fun get_phase :: "'i worker \<Rightarrow> nat" where
  "get_phase (W_swapped lq gq names) = 3 + length lq + length gq"
| "get_phase (W_reading lq gq names n) = 2 + length lq + length gq"
| "get_phase (W_flushed gq now) = 1 + length gq"
| "get_phase (W_answering gq all) = length gq"
| "get_phase w = 0"

definition lookup_rank :: "nat \<Rightarrow> 'i pic_state \<Rightarrow> nat" where
  "lookup_rank p s =
     (if p \<in> snd ` set (worker_lookups (p_worker s)) then lookup_phase (p_worker s)
      else 2 + length (p_lookupQueue s) + round_rank (p_worker s))"

definition get_rank :: "nat \<Rightarrow> 'i pic_state \<Rightarrow> nat" where
  "get_rank g s =
     (if g \<in> set (worker_gets (p_worker s)) then get_phase (p_worker s)
      else 4 + length (p_lookupQueue s) + length (p_getAllQueue s) + round_rank (p_worker s))"

text \<open>What the invariant gives to the worker: no lost wake-up, and no failed check.\<close>

definition ready :: "'i pic_state \<Rightarrow> bool" where
  "ready s \<longleftrightarrow> heap_inv s \<and> promise_inv (\<lambda>_ _. True) s \<and> answer_inv s \<and> token_inv s \<and>
     p_worker s \<noteq> W_failed \<and> p_posting s = 0 \<and> \<not> p_stop s"

lemma ready_inv:
  "ready s \<longleftrightarrow> pic_inv (\<lambda>_ _. True) (\<lambda>_ :: unit. {}) (s, \<lambda>_. ()) \<and> p_posting s = 0 \<and> \<not> p_stop s"
  by (auto simp: ready_def pic_inv_def cache_inv_def)

lemma worker_step_frame:
  assumes "worker_step expiry s r now w = Some s'"
  shows "p_posting s' = p_posting s" "p_stop s' = p_stop s"
    "length (p_promises s') = length (p_promises s)" "length (p_answers s') = length (p_answers s)"
  using assms by (cases "(expiry, s, r, now, w)" rule: worker_step.cases; auto simp: Let_def split: if_splits)+

lemma worker_step_ready:
  assumes "ready s" "worker_step expiry s r now (p_worker s) = Some s'"
  shows "ready s'"
proof -
  have "read_allowed (\<lambda>_ _. True) w r" for w :: "'a worker"
    by (induction "\<lambda>(_ :: pid) (_ :: 'a result). True" w r rule: read_allowed.induct) auto
  with assms show ?thesis unfolding ready_inv by (metis worker_step_inv worker_step_frame(1,2))
qed

lemma flush_step:
  obtains s' where "worker_step expiry s r now (W_reading [] gq names n) = Some s'"
    "p_worker s' = W_flushed gq now" "p_lookupQueue s' = p_lookupQueue s" "p_getAllQueue s' = p_getAllQueue s"
    "p_promises s' = p_promises s" "p_answers s' = p_answers s"
  by (cases "p_waterLevel s + 2 * n > names") (auto simp: Let_def)

lemma lookup_progress:
  assumes ready: "ready s" and p: "p < length (p_promises s)" "p_promises s ! p = None"
  obtains s' where "worker_step expiry s r now (p_worker s) = Some s'"
    "p_promises s' ! p \<noteq> None \<or> lookup_rank p s' < lookup_rank p s"
proof -
  have pend: "p \<in> snd ` set (lookups s)" using ready p by (auto simp: ready_def promise_inv_def)
  have tok: "p_worker s = W_wait \<Longrightarrow> p_lookupQueue s \<noteq> [] \<Longrightarrow> p_sem s \<noteq> 0"
    using ready by (cases "p_lookupQueue s") (auto simp: ready_def token_inv_def)
  have run: "\<not> p_stop s" "p_worker s \<noteq> W_failed" "p_worker s \<noteq> W_stopped"
    using ready by (auto simp: ready_def answer_inv_def)
  show ?thesis
  proof (cases "p_worker s")
    case W_wait
    with pend have q: "p_lookupQueue s \<noteq> []" by (auto simp: lookups_def)
    show ?thesis using W_wait tok [OF W_wait q]
      by (intro that [of "s\<lparr>p_sem := p_sem s - 1, p_worker := W_awake\<rparr>"]) (auto simp: lookup_rank_def)
  next
    case W_awake
    with pend have "p \<in> snd ` set (p_lookupQueue s)" by (auto simp: lookups_def)
    with W_awake run show ?thesis by (intro that) (auto simp: lookup_rank_def)
  next
    case (W_swapped lq gq names)
    then show ?thesis by (intro that) (auto simp: Let_def lookup_rank_def)
  next
    case (W_reading lq gq names n)
    show ?thesis
    proof (cases lq)
      case Nil
      with W_reading have w: "p_worker s = W_reading [] gq names n" by simp
      obtain s' where s': "worker_step expiry s r now (p_worker s) = Some s'" "p_worker s' = W_flushed gq now"
        "p_lookupQueue s' = p_lookupQueue s" using flush_step w by metis
      show ?thesis by (rule that [OF s'(1)]) (use w s' in \<open>auto simp: lookup_rank_def\<close>)
    next
      case (Cons x xs)
      obtain pid q where x: "x = (pid, q)" by fastforce
      have w: "p_worker s = W_reading ((pid, q) # xs) gq names n" using W_reading Cons x by simp
      have "pic_inv (\<lambda>_ _. True) (\<lambda>_ :: unit. {}) (s, \<lambda>_. ())" using ready by (simp add: ready_inv)
      from read_step_inv(1) [OF this w] have "p_promises s ! q = None" by simp
      then have step: "worker_step expiry s r now (p_worker s) =
          Some (s\<lparr>p_promises := (p_promises s)[q := Some r], p_worker := W_reading xs gq names n\<rparr>)"
        by (simp add: w)
      show ?thesis by (rule that [OF step], cases "p = q") (use w p in \<open>auto simp: lookup_rank_def\<close>)
    qed
  next
    case (W_flushed gq now')
    then show ?thesis by (cases "gq = []") (auto intro!: that simp: Let_def lookup_rank_def)
  next
    case (W_answering gq all)
    show ?thesis
    proof (cases gq)
      case Nil
      with W_answering show ?thesis by (auto intro!: that simp: lookup_rank_def)
    next
      case (Cons g gs)
      with W_answering have w: "p_worker s = W_answering (g # gs) all" by simp
      have "pic_inv (\<lambda>_ _. True) (\<lambda>_ :: unit. {}) (s, \<lambda>_. ())" using ready by (simp add: ready_inv)
      from answer_step_inv(1) [OF this w] w show ?thesis by (auto intro!: that simp: lookup_rank_def)
    qed
  qed (use run in simp_all)
qed


lemma get_progress:
  assumes ready: "ready s" and g: "g < length (p_answers s)" "p_answers s ! g = None"
  obtains s' where "worker_step expiry s r now (p_worker s) = Some s'"
    "p_answers s' ! g \<noteq> None \<or> get_rank g s' < get_rank g s"
proof -
  have pend: "g \<in> set (gets s)" using ready g by (auto simp: ready_def answer_inv_def)
  have tok: "p_worker s = W_wait \<Longrightarrow> p_getAllQueue s \<noteq> [] \<Longrightarrow> p_sem s \<noteq> 0"
    using ready by (cases "p_getAllQueue s") (auto simp: ready_def token_inv_def)
  have run: "\<not> p_stop s" "p_worker s \<noteq> W_failed" "p_worker s \<noteq> W_stopped"
    using ready by (auto simp: ready_def answer_inv_def)
  have inv: "pic_inv (\<lambda>_ _. True) (\<lambda>_ :: unit. {}) (s, \<lambda>_. ())" using ready by (simp add: ready_inv)
  show ?thesis
  proof (cases "p_worker s")
    case W_wait
    with pend have q: "p_getAllQueue s \<noteq> []" by (auto simp: gets_def)
    show ?thesis using W_wait tok [OF W_wait q]
      by (intro that [of "s\<lparr>p_sem := p_sem s - 1, p_worker := W_awake\<rparr>"]) (auto simp: get_rank_def)
  next
    case W_awake
    with pend have "g \<in> set (p_getAllQueue s)" by (auto simp: gets_def)
    with W_awake run show ?thesis by (intro that) (auto simp: get_rank_def)
  next
    case (W_swapped lq gq names)
    then show ?thesis by (intro that) (auto simp: Let_def get_rank_def)
  next
    case (W_reading lq gq names n)
    show ?thesis
    proof (cases lq)
      case Nil
      with W_reading have w: "p_worker s = W_reading [] gq names n" by simp
      obtain s' where s': "worker_step expiry s r now (p_worker s) = Some s'" "p_worker s' = W_flushed gq now"
        "p_lookupQueue s' = p_lookupQueue s" "p_getAllQueue s' = p_getAllQueue s" using flush_step w by metis
      show ?thesis by (rule that [OF s'(1)]) (use w s' in \<open>auto simp: get_rank_def\<close>)
    next
      case (Cons x xs)
      obtain pid q where x: "x = (pid, q)" by fastforce
      have w: "p_worker s = W_reading ((pid, q) # xs) gq names n" using W_reading Cons x by simp
      from read_step_inv(1) [OF inv w] have step: "worker_step expiry s r now (p_worker s) =
          Some (s\<lparr>p_promises := (p_promises s)[q := Some r], p_worker := W_reading xs gq names n\<rparr>)"
        by (simp add: w)
      show ?thesis by (rule that [OF step]) (use w in \<open>auto simp: get_rank_def\<close>)
    qed
  next
    case (W_flushed gq now')
    with pend show ?thesis by (cases "gq = []"; cases "g \<in> set gq") (auto intro!: that simp: Let_def get_rank_def gets_def)
  next
    case (W_answering gq all)
    show ?thesis
    proof (cases gq)
      case Nil
      with W_answering pend show ?thesis by (auto intro!: that simp: get_rank_def gets_def)
    next
      case (Cons h gs)
      with W_answering have w: "p_worker s = W_answering (h # gs) all" by simp
      from answer_step_inv(1) [OF inv w] w g show ?thesis by (cases "g = h"; cases "g \<in> set gs") (auto intro!: that simp: get_rank_def)
    qed
  qed (use run in simp_all)
qed

text \<open>A rank that every step of the worker lowers until the request is served bounds its steps.\<close>

lemma worker_serves:
  assumes progress: "\<And>s r now. ready s \<Longrightarrow> P s \<Longrightarrow> \<not> served s \<Longrightarrow>
      \<exists>s'. worker_step expiry s r now (p_worker s) = Some s' \<and> P s' \<and> (served s' \<or> rank s' < rank s)"
    and "ready s" "P s"
  shows "\<exists>k s'. k \<le> Suc (rank s) \<and> worker_run expiry rs nows k s = Some s' \<and> served s'"
  using assms(2,3)
proof (induction "rank s" arbitrary: s rs nows rule: less_induct)
  case less
  show ?case
  proof (cases "served s")
    case True
    then show ?thesis by (intro exI [where x = 0]) auto
  next
    case False
    from progress [OF less.prems False, of "rs 0" "nows 0"]
    obtain s1 where s1: "worker_step expiry s (rs 0) (nows 0) (p_worker s) = Some s1" "P s1"
      "served s1 \<or> rank s1 < rank s" by blast
    have r1: "ready s1" by (rule worker_step_ready [OF less.prems(1) s1(1)])
    show ?thesis
    proof (cases "served s1")
      case True
      then have "worker_run expiry rs nows (Suc 0) s = Some s1" using s1(1) by simp
      with True show ?thesis by (metis Suc_le_mono le0)
    next
      case False
      with s1(3) have "rank s1 < rank s" by blast
      from less.hyps [OF this r1 s1(2), of "\<lambda>i. rs (Suc i)" "\<lambda>i. nows (Suc i)"]
      obtain k s' where k: "k \<le> Suc (rank s1)" "served s'"
        "worker_run expiry (\<lambda>i. rs (Suc i)) (\<lambda>i. nows (Suc i)) k s1 = Some s'" by blast
      then have "worker_run expiry rs nows (Suc k) s = Some s'" using s1(1) by simp
      moreover have "Suc k \<le> Suc (rank s)" using k(1) \<open>rank s1 < rank s\<close> by simp
      ultimately show ?thesis using k(2) by blast
    qed
  qed
qed

lemma worker_serves_lookup:
  assumes "ready s" "p < length (p_promises s)"
  shows "\<exists>k s'. k \<le> Suc (lookup_rank p s) \<and> worker_run expiry rs nows k s = Some s' \<and> p_promises s' ! p \<noteq> None"
  by (rule worker_serves [where P = "\<lambda>s. p < length (p_promises s)"])
    (use assms lookup_progress worker_step_frame(3) in \<open>metis+\<close>)

lemma worker_serves_get:
  assumes "ready s" "g < length (p_answers s)"
  shows "\<exists>k s'. k \<le> Suc (get_rank g s) \<and> worker_run expiry rs nows k s = Some s' \<and> p_answers s' ! g \<noteq> None"
  by (rule worker_serves [where P = "\<lambda>s. g < length (p_answers s)"])
    (use assms get_progress worker_step_frame(4) in \<open>metis+\<close>)

lemma worker_step_nodes: "worker_step expiry s r now w = Some s' \<Longrightarrow> p_nodes s' = p_nodes s"
  by (cases "(expiry, s, r, now, w)" rule: worker_step.cases) (auto simp: Let_def split: if_splits)

lemma worker_run_nodes: "worker_run expiry rs nows k s = Some s' \<Longrightarrow> p_nodes s' = p_nodes s"
  by (induction k arbitrary: s rs nows) (auto dest: worker_step_nodes split: option.splits)

section \<open>What the worker collects\<close>

lemma collect_infos_spec:
  assumes "distinct (map fst xs)"
  shows "collect_infos s xs acc pid =
    (case map_of xs pid of
       None \<Rightarrow> acc pid
     | Some n \<Rightarrow> (case node_value s n of Some (Inr i) \<Rightarrow> Some i | _ \<Rightarrow> acc pid))"
  using assms
proof (induction xs arbitrary: acc)
  case (Cons x xs)
  obtain q n where x: "x = (q, n)" by fastforce
  have "map_of xs q = None" using Cons.prems by (simp add: x map_of_eq_None_iff)
  with Cons show ?case by (auto simp: x split: option.splits sum.splits)
qed simp

lemma clearExpired_lookup:
  assumes "distinct (map fst (p_infos s))"
  shows "map_of (p_infos (clearExpired expiry now s)) pid = Some n \<longleftrightarrow>
    map_of (p_infos s) pid = Some n \<and> \<not> expired expiry now s n"
proof -
  have "distinct (map fst (p_infos (clearExpired expiry now s)))" using assms by (rule clearExpired_distinct)
  with assms show ?thesis by (auto simp: map_of_eq_Some_iff clearExpired_def)
qed

lemma node_value_clear [simp]: "node_value (clearExpired expiry now s) n = node_value s n"
  by (simp add: node_value_def)


section \<open>Properties\<close>

lemma lookup_node:
  assumes inv: "pic_inv reads entries (s, cs)" and law: "evicting_cache em entries"
  shows "lookup_cached em pid now (cs t) s = (Some n, c, s') \<Longrightarrow> node_for s pid n \<and> node_value s' n = node_value s n"
    and "map_of (p_infos s) pid = Some n \<Longrightarrow> node_for s pid n"
proof -
  show "node_for s pid n" if "map_of (p_infos s) pid = Some n"
    using inv map_of_SomeD [OF that] by (auto simp: pic_inv_def heap_inv_def)
  assume eq: "lookup_cached em pid now (cs t) s = (Some n, c, s')"
  obtain o' c' where f: "ecm_find em (cs t) pid = (o', c')" by fastforce
  have o': "o' = Some n" "s' = make_handle n (recordAccess n now s)"
    using eq by (cases o'; auto simp: lookup_cached_def tlc_get_def f split: if_splits)+
  have "fst (ecm_find em (cs t) pid) = Some n" by (simp add: f o')
  then have "(pid, n) \<in> entries (cs t)" using law by (simp only: evicting_cache_def)
  then show "node_for s pid n \<and> node_value s' n = node_value s n"
    using inv by (auto simp: pic_inv_def cache_inv_def node_value_def o'(2) make_handle_def)
qed

lemma node_value_reads:
  assumes inv: "pic_inv reads entries (s, cs)" and n: "node_for s pid n"
  shows "node_value s n = Some r \<Longrightarrow> reads pid r" "node_value s n = None \<longleftrightarrow> n \<in> set (map snd (lookups s))"
proof -
  have eq: "node_value s n = p_promises s ! n" and less: "n < length (p_promises s)"
    using inv n by (auto simp: pic_inv_def heap_inv_def node_for_def node_value_def)
  show "node_value s n = Some r \<Longrightarrow> reads pid r" "node_value s n = None \<longleftrightarrow> n \<in> set (map snd (lookups s))"
    using inv n less by (auto simp: eq pic_inv_def promise_inv_def node_for_def)
qed

text \<open>
  C11: In every interleaving of lookups, additions, queries, uses of handles, steps of the
  worker and the destructor, the worker never fails a check and never sets a promise twice;
  the map has one node per process; a node that \<open>lookup\<close> returns for a process, be it from
  the cache of the thread or from the map, holds an outcome of reading that very process as
  soon as it holds anything; and as long as it holds nothing its request is waiting exactly
  once, in the shared queue or in the worker's.
\<close>

theorem process_cache_consistent:
  assumes reach: "reachable (pic_init em) (pic_step em expiry reads) (s, cs)"
    and law: "evicting_cache em entries"
  shows "p_worker s \<noteq> W_failed \<and> distinct (map fst (p_infos s)) \<and> distinct (map snd (lookups s)) \<and>
    (\<forall>n. (\<exists>now t c s'. lookup_cached em pid now (cs t) s = (Some n, c, s')) \<or> map_of (p_infos s) pid = Some n \<longrightarrow>
      (\<forall>r. node_value s n = Some r \<longrightarrow> reads pid r) \<and>
      (node_value s n = None \<longleftrightarrow> n \<in> set (map snd (lookups s))))"
proof -
  note inv = pic_reachable_inv [OF reach law]
  have "node_for s pid n"
    if "(\<exists>now t c s'. lookup_cached em pid now (cs t) s = (Some n, c, s')) \<or> map_of (p_infos s) pid = Some n" for n
    using that lookup_node [OF inv law] by blast
  note vals = node_value_reads [OF inv this]
  have "p_worker s \<noteq> W_failed" "distinct (map fst (p_infos s))" "distinct (map snd (lookups s))"
    using inv by (simp_all add: pic_inv_def heap_inv_def promise_inv_def)
  with vals show ?thesis by blast
qed

text \<open>
  C4: No wake-up is lost and every request is served: in every reachable state in which the
  clients have posted what they queued and the cache is not being destroyed, the worker alone
  fulfils the promise of every node that was ever created and answers every call of
  \<open>getAllProcessInfos\<close>, within a number of steps bounded by the lengths of the queues,
  whatever the reads return.
\<close>

theorem process_cache_serves:
  assumes reach: "reachable (pic_init em) (pic_step em expiry reads) (s, cs)"
    and law: "evicting_cache em entries" and posted: "p_posting s = 0" and alive: "\<not> p_stop s"
  shows "(n < length (p_nodes s) \<longrightarrow> (\<exists>k s'. k \<le> Suc (lookup_rank n s) \<and>
      worker_run expiry rs nows k s = Some s' \<and> handle_get_result n s' \<noteq> None)) \<and>
    (g < length (p_answers s) \<longrightarrow> (\<exists>k s'. k \<le> Suc (get_rank g s) \<and>
      worker_run expiry rs nows k s = Some s' \<and> getAllProcessInfos_result g s' \<noteq> None))"
proof (intro conjI impI)
  note inv = pic_reachable_inv [OF reach law]
  have ready: "ready s" using inv posted alive by (auto simp: ready_def pic_inv_def promise_inv_def)
  show "\<exists>k s'. k \<le> Suc (get_rank g s) \<and> worker_run expiry rs nows k s = Some s' \<and>
      getAllProcessInfos_result g s' \<noteq> None" if "g < length (p_answers s)"
    using worker_serves_get [OF ready that] by (simp add: getAllProcessInfos_result_def)
  show "\<exists>k s'. k \<le> Suc (lookup_rank n s) \<and> worker_run expiry rs nows k s = Some s' \<and>
      handle_get_result n s' \<noteq> None" if n: "n < length (p_nodes s)"
  proof -
    have len: "n < length (p_promises s)" using inv n by (simp add: pic_inv_def heap_inv_def)
    obtain k s' where k: "k \<le> Suc (lookup_rank n s)" "worker_run expiry rs nows k s = Some s'"
      "p_promises s' ! n \<noteq> None" using worker_serves_lookup [OF ready len] by blast
    have "n_info (p_nodes s' ! n) = n" using worker_run_nodes [OF k(2)] inv n by (simp add: pic_inv_def heap_inv_def)
    then show ?thesis using k by (auto simp: handle_get_result_def node_value_def)
  qed
qed

text \<open>
  The answer to \<open>getAllProcessInfos\<close>.  When the worker serves its batch of calls, every
  call of the batch gets the map of exactly the processes of the cache that have not expired
  and whose info has been read without an exception, with these infos; a process of the cache
  that is missing because it has not been read yet was requested after the worker had taken
  the batch.
\<close>

theorem getAll_answer:
  assumes reach: "reachable (pic_init em) (pic_step em expiry reads) (s, cs)"
    and law: "evicting_cache em entries" and w: "p_worker s = W_flushed gq now" and gq: "gq \<noteq> []"
  shows "\<exists>s' all. worker_step expiry s r now' (p_worker s) = Some s' \<and> p_worker s' = W_answering gq all \<and>
    (\<forall>pid i. all pid = Some i \<longleftrightarrow>
      (\<exists>n. map_of (p_infos s) pid = Some n \<and> \<not> expired expiry now s n \<and> node_value s n = Some (Inr i))) \<and>
    (\<forall>pid n. map_of (p_infos s) pid = Some n \<and> node_value s n = None \<longrightarrow> n \<in> set (map snd (p_lookupQueue s)))"
proof -
  note inv = pic_reachable_inv [OF reach law]
  define s1 where "s1 = clearExpired expiry now s"
  define all where "all = collect_infos s1 (p_infos s1) Map.empty"
  have dist: "distinct (map fst (p_infos s))" using inv by (rule infos_distinct)
  have step: "worker_step expiry s r now' (p_worker s) = Some (s1\<lparr>p_worker := W_answering gq all\<rparr>)"
    using gq by (simp add: w Let_def s1_def all_def)
  have d1: "distinct (map fst (p_infos s1))" unfolding s1_def by (rule clearExpired_distinct [OF dist])
  have "all pid = Some i \<longleftrightarrow> (\<exists>n. map_of (p_infos s) pid = Some n \<and> \<not> expired expiry now s n \<and>
      node_value s n = Some (Inr i))" for pid i
  proof -
    have "all pid = Some i \<longleftrightarrow> (\<exists>n. map_of (p_infos s1) pid = Some n \<and> node_value s n = Some (Inr i))"
      unfolding all_def collect_infos_spec [OF d1] by (auto simp: s1_def split: option.splits sum.splits)
    then show ?thesis using clearExpired_lookup [OF dist] by (auto simp: s1_def)
  qed
  moreover have "lookups s = p_lookupQueue s" by (simp add: lookups_def w)
  then have "n \<in> set (map snd (p_lookupQueue s))" if "map_of (p_infos s) pid = Some n" "node_value s n = None" for pid n
    using node_value_reads(2) [OF inv lookup_node(2) [OF inv law that(1)]] that(2) by simp
  ultimately show ?thesis using step by (intro exI conjI) auto
qed


text \<open>Along a run promises are only ever fulfilled, and only by a worker that has not stopped.\<close>

lemma worker_step_promises:
  assumes "worker_step expiry s r now w = Some s'" "p_promises s ! p = Some v"
  shows "p_promises s' ! p = Some v"
  using assms
proof (cases "(expiry, s, r, now, w)" rule: worker_step.cases)
  case (4 expiry' s1 r' now' pid q lq gq names n)
  then show ?thesis using assms by (cases "p = q") (auto split: if_splits)
qed (use assms in \<open>auto simp: Let_def split: if_splits\<close>)

lemma enqueue_lookup_promises:
  assumes "enqueue_lookup pid now s = (n, s')"
  shows "p_promises s' = p_promises s @ [None]" "p_worker s' = p_worker s" "p_stop s' = p_stop s"
    "p_nodes s' = p_nodes s @ [\<lparr>n_info = length (p_promises s), n_lastAccess = now, n_pid = pid\<rparr>]"
  using assms by (auto simp: enqueue_lookup_def Let_def)

lemma client_step_promises:
  assumes "pic_step em expiry reads S S'"
  shows "(\<exists>r now. worker_step expiry (fst S) r now (p_worker (fst S)) = Some (fst S')) \<or>
    (\<exists>ps. p_promises (fst S') = p_promises (fst S) @ ps \<and> p_worker (fst S') = p_worker (fst S))"
  using assms
proof (induction rule: pic_step.induct)
  case (step_lookup_cached s pid now cs t h c s')
  then show ?case
    by (auto simp: lookup_cached_def tlc_get_def make_handle_def split: option.splits prod.splits if_splits)
next
  case (step_lookup_locked s pid now cs t n c s')
  then show ?case
    by (auto simp: lookup_locked_def make_handle_def dest: enqueue_lookup_promises split: option.splits prod.splits)
next
  case (step_add_rlock s pid now cs t b s')
  then show ?case by (auto simp: add_rlock_def add_check_def split: option.splits if_splits)
next
  case (step_add_locked s pid now cs t c s')
  then show ?case
    by (auto simp: add_locked_def add_check_def dest: enqueue_lookup_promises split: option.splits prod.splits)
qed (auto simp: getAllProcessInfos_start_def Let_def sem_post_def destroy_cache_def)

text \<open>
  What a handle shows never changes: once the info of a node is available, it is the
  same in every later state, whether or not the node has been evicted from the map and
  whatever else is looked up, read or destroyed.
\<close>

theorem handle_stable:
  assumes "(pic_step em expiry reads)\<^sup>*\<^sup>* S S'" and "p < length (p_promises (fst S))"
    and "p_promises (fst S) ! p = Some v"
  shows "p_promises (fst S') ! p = Some v"
proof -
  have "p < length (p_promises (fst S')) \<and> p_promises (fst S') ! p = Some v"
    using assms
  proof (induction rule: rtranclp_induct)
    case (step T U)
    from client_step_promises [OF step.hyps(2)] step.IH [OF step.prems] show ?case
      by (auto dest: worker_step_promises worker_step_frame(3) simp: nth_append)
  qed simp
  then show ?thesis ..
qed

text \<open>
  A handle whose info had not been read when the worker stopped is never completed: no
  continuation fulfils its promise, so \<open>ProcessInfoHandle::get\<close> on it never returns.
\<close>

theorem handle_pending_after_stop:
  assumes "(pic_step em expiry reads)\<^sup>*\<^sup>* S S'" and "p_worker (fst S) = W_stopped"
    and "p < length (p_promises (fst S))" and "p_promises (fst S) ! p = None"
  shows "p_promises (fst S') ! p = None"
proof -
  have "p < length (p_promises (fst S')) \<and> p_promises (fst S') ! p = None \<and> p_worker (fst S') = W_stopped"
    using assms
  proof (induction rule: rtranclp_induct)
    case (step T U)
    from client_step_promises [OF step.hyps(2)] step.IH [OF step.prems] show ?case by (auto simp: nth_append)
  qed simp
  then show ?thesis by blast
qed


section \<open>Witnesses\<close>

text \<open>An evicting map: at most 256 entries, the most recent first.\<close>

definition list_ecm :: "(pid \<times> nat) list ecm_ops" where
  "list_ecm = \<lparr>ecm_empty = [], ecm_exists = (\<lambda>c pid. map_of c pid \<noteq> None),
     ecm_find = (\<lambda>c pid. (map_of c pid, c)), ecm_set = (\<lambda>c pid n. take 256 ((pid, n) # c))\<rparr>"

lemma list_ecm_law: "evicting_cache list_ecm set"
  by (auto simp: evicting_cache_def list_ecm_def dest: map_of_SomeD in_set_takeD)

abbreviation sample_step :: "(nat, (pid \<times> nat) list) pic_system \<Rightarrow> (nat, (pid \<times> nat) list) pic_system \<Rightarrow> bool" where
  "sample_step \<equiv> pic_step list_ecm 300 (\<lambda>_ _. True)"

text \<open>One client looks up process 7, another asks for all infos; both have posted.\<close>

definition sample_pic :: "nat pic_state" where
  "sample_pic = sem_post (sem_post (snd (getAllProcessInfos_start
     (snd (snd (lookup_locked list_ecm 7 10 [] ProcessInfoCache))))))"

definition sample_caches :: "nat \<Rightarrow> (pid \<times> nat) list" where
  "sample_caches = (\<lambda>_. [])(0 := [(7, 0)])"

lemma sample_pic_eq: "sample_pic =
  \<lparr>p_infos = [(7, 0)], p_stop = False, p_lookupQueue = [(7, 0)], p_getAllQueue = [0],
   p_nodes = [\<lparr>n_info = 0, n_lastAccess = 10, n_pid = 7\<rparr>], p_promises = [None], p_answers = [None],
   p_sem = 2, p_posting = 0, p_worker = W_wait, p_waterLevel = 0, p_handles = [0]\<rparr>"
  by (simp add: sample_pic_def lookup_locked_def enqueue_lookup_def ProcessInfoCache_def
      getAllProcessInfos_start_def sem_post_def make_handle_def)

lemma sample_pic_reachable: "reachable (pic_init list_ecm) sample_step (sample_pic, sample_caches)"
proof -
  let ?s1 = "snd (snd (lookup_locked list_ecm 7 10 [] (ProcessInfoCache :: nat pic_state)))"
  let ?s2 = "snd (getAllProcessInfos_start ?s1)"
  have 0: "reachable (pic_init list_ecm) sample_step (ProcessInfoCache, \<lambda>_. [])"
    by (rule reach_init) (simp add: pic_init_def list_ecm_def)
  have 1: "sample_step (ProcessInfoCache, \<lambda>_. []) (?s1, sample_caches)"
    unfolding sample_caches_def
    by (rule step_lookup_locked [where pid = 7 and now = 10 and n = 0])
      (simp_all add: lookup_locked_def enqueue_lookup_def ProcessInfoCache_def list_ecm_def tlc_put_def)
  have 2: "sample_step (?s1, sample_caches) (?s2, sample_caches)"
    by (rule step_getAll [where g = 0])
      (simp_all add: lookup_locked_def enqueue_lookup_def ProcessInfoCache_def make_handle_def getAllProcessInfos_start_def)
  have 3: "sample_step (?s2, sample_caches) (sem_post ?s2, sample_caches)"
    by (rule step_post)
      (simp add: lookup_locked_def enqueue_lookup_def ProcessInfoCache_def make_handle_def getAllProcessInfos_start_def)
  have 4: "sample_step (sem_post ?s2, sample_caches) (sem_post (sem_post ?s2), sample_caches)"
    by (rule step_post)
      (simp add: lookup_locked_def enqueue_lookup_def ProcessInfoCache_def make_handle_def getAllProcessInfos_start_def sem_post_def)
  show ?thesis unfolding sample_pic_def by (rule reach_step [OF reach_step [OF reach_step [OF reach_step [OF 0 1] 2] 3] 4])
qed

lemma worker_run_reachable:
  assumes "reachable init sample_step (s, cs)" "worker_run 300 rs nows k s = Some s'"
  shows "reachable init sample_step (s', cs)"
  using assms
proof (induction k arbitrary: s rs nows)
  case (Suc k)
  then obtain s1 where s1: "worker_step 300 s (rs 0) (nows 0) (p_worker s) = Some s1"
    "worker_run 300 (\<lambda>i. rs (Suc i)) (\<lambda>i. nows (Suc i)) k s1 = Some s'" by (auto split: option.splits)
  have "read_allowed (\<lambda>_ _. True) w r" for w :: "nat worker" and r
    by (induction "\<lambda>(_ :: pid) (_ :: nat result). True" w r rule: read_allowed.induct) auto
  then have "sample_step (s, cs) (s1, cs)" using s1(1) by (intro step_worker) auto
  with Suc s1(2) show ?case by (meson reach_step)
qed simp

definition sample_flushed :: "nat pic_state" where
  "sample_flushed = sample_pic\<lparr>p_sem := 0, p_lookupQueue := [], p_getAllQueue := [],
     p_promises := [Some (Inr 42)], p_worker := W_flushed [0] 20\<rparr>"

lemma sample_flushed_run:
  "worker_run 300 (\<lambda>_. Inr 42) (\<lambda>_. 20) 5 sample_pic = Some sample_flushed"
  by (simp add: eval_nat_numeral sample_flushed_def sample_pic_eq clearExpired_def expired_def Let_def)

theorem process_cache_consistent_witness:
  "p_worker sample_pic \<noteq> W_failed \<and> node_value sample_pic 0 = None \<and> 0 \<in> set (map snd (lookups sample_pic))"
  using process_cache_consistent [OF sample_pic_reachable list_ecm_law, of 7]
  by (simp add: sample_pic_eq node_value_def)

theorem process_cache_serves_witness:
  "\<exists>k s'. worker_run 300 (\<lambda>_. Inr 42) (\<lambda>_. 20) k sample_pic = Some s' \<and> getAllProcessInfos_result 0 s' \<noteq> None"
  using process_cache_serves [OF sample_pic_reachable list_ecm_law, of 0 "\<lambda>_. Inr 42" "\<lambda>_. 20" 0]
  by (auto simp: sample_pic_eq)

theorem getAll_answer_witness:
  "\<exists>s' all. worker_step 300 sample_flushed (Inr 0) 20 (p_worker sample_flushed) = Some s' \<and>
    p_worker s' = W_answering [0] all \<and> all 7 = Some 42"
proof -
  have w: "p_worker sample_flushed = W_flushed [0] 20" by (simp add: sample_flushed_def)
  have "map_of (p_infos sample_flushed) 7 = Some 0" "\<not> expired 300 20 sample_flushed 0"
    "node_value sample_flushed 0 = Some (Inr 42)"
    by (simp_all add: sample_flushed_def sample_pic_eq expired_def node_value_def)
  with getAll_answer [OF worker_run_reachable [OF sample_pic_reachable sample_flushed_run] list_ecm_law w, of "Inr 0" 20]
  show ?thesis by (metis not_Cons_self2)
qed

theorem handle_stable_witness:
  "p_promises (fst (sample_flushed\<lparr>p_handles := remove1 0 (p_handles sample_flushed)\<rparr>, sample_caches)) ! 0 = Some (Inr 42)"
  by (rule handle_stable [OF r_into_rtranclp [of sample_step, OF step_drop_handle [of _ _ _ sample_flushed sample_caches 0]]])
    (simp_all add: sample_flushed_def)

theorem handle_pending_after_stop_witness:
  "p_promises (fst (sample_pic\<lparr>p_worker := W_stopped, p_handles := []\<rparr>, sample_caches)) ! 0 = None"
proof -
  have "sample_step (sample_pic\<lparr>p_worker := W_stopped\<rparr>, sample_caches)
    (sample_pic\<lparr>p_worker := W_stopped, p_handles := []\<rparr>, sample_caches)"
    using step_drop_handle [of list_ecm 300 "\<lambda>_ _. True" "sample_pic\<lparr>p_worker := W_stopped\<rparr>" sample_caches 0]
    by (simp add: sample_pic_eq)
  from handle_pending_after_stop [OF r_into_rtranclp [of sample_step, OF this], of 0]
  show ?thesis by (simp add: sample_pic_eq)
qed

end
