(* ===== verification/File_Descriptor.thy ===== *)
theory File_Descriptor
  imports Eden_Prelude
begin

text \<open>
  The transfer loops of \<open>FileDescriptor\<close> (\<open>FileDescriptor.h\<close>, \<open>FileDescriptor.cpp\<close>, POSIX
  branches): \<open>wrapFull\<close> and \<open>wrapvFull\<close>, which repeat a system call until the whole request
  has been transferred, and the wrappers over them.

  The kernel is a state of type \<open>'k\<close> and the system calls, which return an error code or what
  was transferred.  A buffer that is read into is the list of the bytes stored in it so far;
  a vector of buffers is read as the concatenation of its parts.  A loop that may not end is
  a \<open>partial_function\<close>, with the value \<open>None\<close> if it does not.  \<open>Try<ssize_t>\<close> is the type
  \<open>nat io_result\<close>; the code of a \<open>std::system_error\<close> is its \<open>errno\<close>.
\<close>

section \<open>System calls\<close>

type_synonym errno = nat

type_synonym 'a io_result = "errno + 'a"

definition EINTR :: errno where
  "EINTR = 4"

record ('k, 'b) io_kernel =
  sys_read :: "'k \<Rightarrow> nat \<Rightarrow> 'b list io_result \<times> 'k"
  sys_write :: "'k \<Rightarrow> 'b list \<Rightarrow> nat io_result \<times> 'k"
  sys_readv :: "'k \<Rightarrow> nat list \<Rightarrow> 'b list io_result \<times> 'k"
  sys_writev :: "'k \<Rightarrow> 'b list list \<Rightarrow> nat io_result \<times> 'k"

section \<open>The transfer loops\<close>

text \<open>
  \<open>wrapFull_read K onlyOnce k count buf\<close> is the loop of \<open>wrapFull\<close> for reading: \<open>buf\<close> are the
  bytes stored so far, \<open>count\<close> is what remains.  \<open>continue\<close> goes to the condition of the
  \<open>do\<close> loop.
\<close>

partial_function (option) wrapFull_read ::
  "('k, 'b) io_kernel \<Rightarrow> bool \<Rightarrow> 'k \<Rightarrow> nat \<Rightarrow> 'b list \<Rightarrow> ('b list io_result \<times> 'k) option" where
  "wrapFull_read K onlyOnce k count buf =
     (case sys_read K k count of
        (Inl e, k') \<Rightarrow>
          if e = EINTR
          then if count \<noteq> 0 then wrapFull_read K onlyOnce k' count buf else Some (Inr buf, k')
          else Some (Inl e, k')
      | (Inr bs, k') \<Rightarrow>
          if bs = [] then Some (Inr buf, k')
          else if onlyOnce \<or> count - length bs = 0 then Some (Inr (buf @ bs), k')
          else wrapFull_read K onlyOnce k' (count - length bs) (buf @ bs))"

partial_function (option) wrapFull_write ::
  "('k, 'b) io_kernel \<Rightarrow> bool \<Rightarrow> 'k \<Rightarrow> 'b list \<Rightarrow> nat \<Rightarrow> (nat io_result \<times> 'k) option" where
  "wrapFull_write K onlyOnce k b totalBytes =
     (case sys_write K k b of
        (Inl e, k') \<Rightarrow>
          if e = EINTR
          then if b \<noteq> [] then wrapFull_write K onlyOnce k' b totalBytes else Some (Inr totalBytes, k')
          else Some (Inl e, k')
      | (Inr r, k') \<Rightarrow>
          if onlyOnce \<or> drop r b = [] then Some (Inr (totalBytes + r), k')
          else wrapFull_write K onlyOnce k' (drop r b) (totalBytes + r))"

text \<open>The inner loop of \<open>wrapvFull\<close>: skip what has been transferred; a part is a list of bytes or a length.\<close>

fun skip_iov :: "nat \<Rightarrow> 'b list list \<Rightarrow> 'b list list" where
  "skip_iov r [] = []"
| "skip_iov r (v # iov) =
     (if r = 0 then v # iov
      else if length v \<le> r then skip_iov (r - length v) iov
      else drop r v # iov)"

fun skip_lens :: "nat \<Rightarrow> nat list \<Rightarrow> nat list" where
  "skip_lens r [] = []"
| "skip_lens r (n # lens) =
     (if r = 0 then n # lens
      else if n \<le> r then skip_lens (r - n) lens
      else (n - r) # lens)"

partial_function (option) wrapvFull_write ::
  "('k, 'b) io_kernel \<Rightarrow> nat \<Rightarrow> 'k \<Rightarrow> 'b list list \<Rightarrow> nat \<Rightarrow> (nat io_result \<times> 'k) option" where
  "wrapvFull_write K kIovMax k iov totalBytes =
     (case sys_writev K k (take kIovMax iov) of
        (Inl e, k') \<Rightarrow>
          if e = EINTR
          then if iov \<noteq> [] then wrapvFull_write K kIovMax k' iov totalBytes else Some (Inr totalBytes, k')
          else Some (Inl e, k')
      | (Inr r, k') \<Rightarrow>
          if r = 0 then Some (Inr totalBytes, k')
          else if skip_iov r iov = [] then Some (Inr (totalBytes + r), k')
          else wrapvFull_write K kIovMax k' (skip_iov r iov) (totalBytes + r))"

partial_function (option) wrapvFull_read ::
  "('k, 'b) io_kernel \<Rightarrow> nat \<Rightarrow> 'k \<Rightarrow> nat list \<Rightarrow> 'b list \<Rightarrow> ('b list io_result \<times> 'k) option" where
  "wrapvFull_read K kIovMax k lens buf =
     (case sys_readv K k (take kIovMax lens) of
        (Inl e, k') \<Rightarrow>
          if e = EINTR
          then if lens \<noteq> [] then wrapvFull_read K kIovMax k' lens buf else Some (Inr buf, k')
          else Some (Inl e, k')
      | (Inr bs, k') \<Rightarrow>
          if bs = [] then Some (Inr buf, k')
          else if skip_lens (length bs) lens = [] then Some (Inr (buf @ bs), k')
          else wrapvFull_read K kIovMax k' (skip_lens (length bs) lens) (buf @ bs))"

definition readFull :: "('k, 'b) io_kernel \<Rightarrow> 'k \<Rightarrow> nat \<Rightarrow> ('b list io_result \<times> 'k) option" where
  "readFull K k size' = wrapFull_read K False k size' []"

definition readNoInt :: "('k, 'b) io_kernel \<Rightarrow> 'k \<Rightarrow> nat \<Rightarrow> ('b list io_result \<times> 'k) option" where
  "readNoInt K k size' = wrapFull_read K True k size' []"

definition writeFull :: "('k, 'b) io_kernel \<Rightarrow> 'k \<Rightarrow> 'b list \<Rightarrow> (nat io_result \<times> 'k) option" where
  "writeFull K k buf = wrapFull_write K False k buf 0"

definition writeNoInt :: "('k, 'b) io_kernel \<Rightarrow> 'k \<Rightarrow> 'b list \<Rightarrow> (nat io_result \<times> 'k) option" where
  "writeNoInt K k buf = wrapFull_write K True k buf 0"

definition readvFull :: "('k, 'b) io_kernel \<Rightarrow> nat \<Rightarrow> 'k \<Rightarrow> nat list \<Rightarrow> ('b list io_result \<times> 'k) option" where
  "readvFull K kIovMax k lens = wrapvFull_read K kIovMax k lens []"

definition writevFull :: "('k, 'b) io_kernel \<Rightarrow> nat \<Rightarrow> 'k \<Rightarrow> 'b list list \<Rightarrow> (nat io_result \<times> 'k) option" where
  "writevFull K kIovMax k iov = wrapvFull_write K kIovMax k iov 0"

section \<open>The contract of the kernel\<close>

text \<open>
  What POSIX says of a blocking descriptor.  \<open>unread k\<close> is what remains to be read before the
  end of the file, \<open>written k\<close> what has been written.  A read returns a prefix of the input,
  at most as much as asked for, and nothing only if nothing was asked for or the input is at
  its end; a write accepts a prefix of the data and nothing only if there is none.  A call
  that fails transfers nothing.  A call is interrupted only finitely often: \<open>signals k\<close>
  bounds the signals still to come.
\<close>

record ('k, 'b) io_view =
  unread :: "'k \<Rightarrow> 'b list"
  written :: "'k \<Rightarrow> 'b list"
  signals :: "'k \<Rightarrow> nat"

definition failed_call :: "('k, 'b) io_view \<Rightarrow> errno \<Rightarrow> 'k \<Rightarrow> 'k \<Rightarrow> bool" where
  "failed_call V e k k' \<longleftrightarrow> unread V k' = unread V k \<and> written V k' = written V k \<and>
     (e = EINTR \<longrightarrow> signals V k' < signals V k)"

definition delivers :: "('k, 'b) io_view \<Rightarrow> nat \<Rightarrow> 'k \<Rightarrow> 'b list io_result \<times> 'k \<Rightarrow> bool" where
  "delivers V count k res \<longleftrightarrow>
     (case res of
        (Inl e, k') \<Rightarrow> failed_call V e k k'
      | (Inr bs, k') \<Rightarrow> length bs \<le> count \<and> unread V k = bs @ unread V k' \<and> written V k' = written V k \<and>
          signals V k' \<le> signals V k \<and> (bs = [] \<longrightarrow> count = 0 \<or> unread V k = []))"

definition accepts :: "('k, 'b) io_view \<Rightarrow> 'b list \<Rightarrow> 'k \<Rightarrow> nat io_result \<times> 'k \<Rightarrow> bool" where
  "accepts V data k res \<longleftrightarrow>
     (case res of
        (Inl e, k') \<Rightarrow> failed_call V e k k'
      | (Inr r, k') \<Rightarrow> r \<le> length data \<and> written V k' = written V k @ take r data \<and> unread V k' = unread V k \<and>
          signals V k' \<le> signals V k \<and> (r = 0 \<longrightarrow> data = []))"

definition posix_io :: "('k, 'b) io_kernel \<Rightarrow> ('k, 'b) io_view \<Rightarrow> bool" where
  "posix_io K V \<longleftrightarrow>
     (\<forall>k count. delivers V count k (sys_read K k count)) \<and>
     (\<forall>k data. accepts V data k (sys_write K k data)) \<and>
     (\<forall>k lens. delivers V (sum_list lens) k (sys_readv K k lens)) \<and>
     (\<forall>k iov. accepts V (concat iov) k (sys_writev K k iov))"

lemma delivers_cases [consumes 1, case_names error bytes]:
  assumes "delivers V count k res"
  obtains (error) e k' where "res = (Inl e, k')" "failed_call V e k k'"
  | (bytes) bs k' where "res = (Inr bs, k')" "length bs \<le> count" "unread V k = bs @ unread V k'"
      "written V k' = written V k" "signals V k' \<le> signals V k" "bs = [] \<longrightarrow> count = 0 \<or> unread V k = []"
  using assms by (auto simp: delivers_def split: prod.splits sum.splits)

lemma accepts_cases [consumes 1, case_names error bytes]:
  assumes "accepts V data k res"
  obtains (error) e k' where "res = (Inl e, k')" "failed_call V e k k'"
  | (bytes) r k' where "res = (Inr r, k')" "r \<le> length data" "written V k' = written V k @ take r data"
      "unread V k' = unread V k" "signals V k' \<le> signals V k" "r = 0 \<longrightarrow> data = []"
  using assms by (auto simp: accepts_def split: prod.splits sum.splits)

text \<open>
  The outcome of a full transfer: everything that was asked for and is there, or the error of
  the call that failed, after a part of the transfer.
\<close>

definition read_outcome :: "('k, 'b) io_view \<Rightarrow> 'k \<Rightarrow> nat \<Rightarrow> 'b list \<Rightarrow> 'b list io_result \<times> 'k \<Rightarrow> bool" where
  "read_outcome V k count buf res \<longleftrightarrow>
     written V (snd res) = written V k \<and>
     (case fst res of
        Inr bs \<Rightarrow> bs = buf @ take count (unread V k) \<and> unread V (snd res) = drop count (unread V k)
      | Inl e \<Rightarrow> e \<noteq> EINTR \<and> (\<exists>n \<le> count. unread V (snd res) = drop n (unread V k)))"

definition write_outcome :: "('k, 'b) io_view \<Rightarrow> 'k \<Rightarrow> 'b list \<Rightarrow> nat \<Rightarrow> nat io_result \<times> 'k \<Rightarrow> bool" where
  "write_outcome V k data tot res \<longleftrightarrow>
     unread V (snd res) = unread V k \<and>
     (case fst res of
        Inr n \<Rightarrow> n = tot + length data \<and> written V (snd res) = written V k @ data
      | Inl e \<Rightarrow> e \<noteq> EINTR \<and> (\<exists>n \<le> length data. written V (snd res) = written V k @ take n data))"

lemma read_outcome_step:
  assumes "read_outcome V k' (count - length bs) (buf @ bs) res" "length bs \<le> count"
    "unread V k = bs @ unread V k'" "written V k' = written V k"
  shows "read_outcome V k count buf res"
proof (cases "fst res")
  case (Inl e)
  then obtain n where n: "n \<le> count - length bs" "unread V (snd res) = drop n (unread V k')" "e \<noteq> EINTR"
    using assms(1) by (auto simp: read_outcome_def)
  then have "unread V (snd res) = drop (length bs + n) (unread V k)" using assms(3) by simp
  moreover have "length bs + n \<le> count" using n(1) assms(2) by simp
  ultimately show ?thesis using assms(1,4) n(3) Inl by (auto simp: read_outcome_def)
next
  case (Inr xs)
  then show ?thesis using assms by (auto simp: read_outcome_def)
qed

lemma write_outcome_step:
  assumes "write_outcome V k' (drop r data) (tot + r) res" "r \<le> length data"
    "written V k' = written V k @ take r data" "unread V k' = unread V k"
  shows "write_outcome V k data tot res"
proof (cases "fst res")
  case (Inl e)
  then obtain n where n: "n \<le> length data - r" "written V (snd res) = written V k' @ take n (drop r data)" "e \<noteq> EINTR"
    using assms(1) by (auto simp: write_outcome_def)
  then have "written V (snd res) = written V k @ take (r + n) data" using assms(3) by (simp add: take_add)
  moreover have "r + n \<le> length data" using n(1) assms(2) by simp
  ultimately show ?thesis using assms(1,4) n(3) Inl by (auto simp: write_outcome_def)
next
  case (Inr m)
  then show ?thesis using assms by (auto simp: write_outcome_def)
qed

lemma failed_outcome:
  "failed_call V e k k' \<Longrightarrow> e \<noteq> EINTR \<Longrightarrow> read_outcome V k count buf (Inl e, k')"
  "failed_call V e k k' \<Longrightarrow> e \<noteq> EINTR \<Longrightarrow> write_outcome V k data tot (Inl e, k')"
  by (auto simp: failed_call_def read_outcome_def write_outcome_def intro: exI [of _ 0])

lemma interrupted_outcome:
  assumes "failed_call V EINTR k k'"
  shows "read_outcome V k' count buf res \<longleftrightarrow> read_outcome V k count buf res"
    "write_outcome V k' data tot res' \<longleftrightarrow> write_outcome V k data tot res'"
  using assms by (auto simp: failed_call_def read_outcome_def write_outcome_def split: sum.splits)

section \<open>The loops end and transfer everything\<close>

lemma wrapFull_read_spec:
  assumes "posix_io K V"
  shows "\<exists>res. wrapFull_read K False k count buf = Some res \<and> read_outcome V k count buf res"
proof (induction "signals V k + count" arbitrary: k count buf rule: less_induct)
  case less
  have "delivers V count k (sys_read K k count)" using assms by (simp add: posix_io_def)
  then show ?case
  proof (cases rule: delivers_cases)
    case (error e k')
    show ?thesis
    proof (cases "e = EINTR \<and> count \<noteq> 0")
      case True
      then have "signals V k' + count < signals V k + count" using error(2) by (simp add: failed_call_def)
      from less.hyps [OF this, of buf] True error show ?thesis
        by (auto simp: wrapFull_read.simps [of K False k] interrupted_outcome(1))
    next
      case False
      with error show ?thesis
        by (auto simp: wrapFull_read.simps [of K False k] failed_outcome failed_call_def read_outcome_def)
    qed
  next
    case (bytes bs k')
    show ?thesis
    proof (cases "bs = [] \<or> count - length bs = 0")
      case True
      have "read_outcome V k count buf (Inr (buf @ bs), k')"
        using True bytes by (auto simp: read_outcome_def)
      then show ?thesis using True bytes(1) by (auto simp: wrapFull_read.simps [of K False k])
    next
      case False
      then have "signals V k' + (count - length bs) < signals V k + count"
        using bytes(2,5) by (cases bs) auto
      from less.hyps [OF this, of "buf @ bs"] obtain res where
        res: "wrapFull_read K False k' (count - length bs) (buf @ bs) = Some res"
        "read_outcome V k' (count - length bs) (buf @ bs) res" by blast
      have "wrapFull_read K False k count buf = Some res"
        using False bytes(1) res(1) by (simp add: wrapFull_read.simps [of K False k])
      with read_outcome_step [OF res(2) bytes(2-4)] show ?thesis by blast
    qed
  qed
qed

lemma wrapFull_write_spec:
  assumes "posix_io K V"
  shows "\<exists>res. wrapFull_write K False k data tot = Some res \<and> write_outcome V k data tot res"
proof (induction "signals V k + length data" arbitrary: k data tot rule: less_induct)
  case less
  have "accepts V data k (sys_write K k data)" using assms by (simp add: posix_io_def)
  then show ?case
  proof (cases rule: accepts_cases)
    case (error e k')
    show ?thesis
    proof (cases "e = EINTR \<and> data \<noteq> []")
      case True
      then have "signals V k' + length data < signals V k + length data" using error(2) by (simp add: failed_call_def)
      from less.hyps [OF this, of tot] True error show ?thesis
        by (auto simp: wrapFull_write.simps [of K False k] interrupted_outcome(2))
    next
      case False
      with error show ?thesis
        by (auto simp: wrapFull_write.simps [of K False k] failed_outcome failed_call_def write_outcome_def)
    qed
  next
    case (bytes r k')
    show ?thesis
    proof (cases "drop r data = []")
      case True
      have "write_outcome V k data tot (Inr (tot + r), k')"
        using True bytes by (auto simp: write_outcome_def)
      then show ?thesis using True bytes(1) by (auto simp: wrapFull_write.simps [of K False k])
    next
      case False
      then have "signals V k' + length (drop r data) < signals V k + length data"
        using bytes(2,5,6) by (cases r) auto
      from less.hyps [OF this, of "tot + r"] obtain res where
        res: "wrapFull_write K False k' (drop r data) (tot + r) = Some res"
        "write_outcome V k' (drop r data) (tot + r) res" by blast
      have "wrapFull_write K False k data tot = Some res"
        using False bytes(1) res(1) by (simp add: wrapFull_write.simps [of K False k])
      with write_outcome_step [OF res(2) bytes(2-4)] show ?thesis by blast
    qed
  qed
qed


text \<open>Vectors of buffers, none of them empty: the kernel sees at most \<open>kIovMax\<close> of them at a time.\<close>

lemma skip_iov_concat: "r \<le> length (concat iov) \<Longrightarrow> concat (skip_iov r iov) = drop r (concat iov)"
  by (induction r iov rule: skip_iov.induct) auto

lemma skip_iov_nonempty: "[] \<notin> set iov \<Longrightarrow> [] \<notin> set (skip_iov r iov)"
  by (induction r iov rule: skip_iov.induct) auto

lemma skip_lens_sum: "r \<le> sum_list lens \<Longrightarrow> sum_list (skip_lens r lens) = sum_list lens - r"
  by (induction r lens rule: skip_lens.induct) auto

lemma skip_lens_nonempty: "0 \<notin> set lens \<Longrightarrow> 0 \<notin> set (skip_lens r lens)"
  by (induction r lens rule: skip_lens.induct) auto

lemma concat_take_prefix: "concat iov = concat (take m iov) @ concat (drop m iov)"
  by (metis append_take_drop_id concat_append)

lemma sum_take_le: "sum_list (take m lens) \<le> sum_list (lens :: nat list)"
  by (metis append_take_drop_id le_add1 sum_list_append)

lemma wrapvFull_write_spec:
  assumes law: "posix_io K V" and m: "0 < kIovMax" and "[] \<notin> set iov"
  shows "\<exists>res. wrapvFull_write K kIovMax k iov tot = Some res \<and> write_outcome V k (concat iov) tot res"
  using assms(3)
proof (induction "signals V k + length (concat iov)" arbitrary: k iov tot rule: less_induct)
  case less
  let ?data = "concat (take kIovMax iov)"
  have split: "concat iov = ?data @ concat (drop kIovMax iov)" by (rule concat_take_prefix)
  have "accepts V ?data k (sys_writev K k (take kIovMax iov))" using law by (simp add: posix_io_def)
  then show ?case
  proof (cases rule: accepts_cases)
    case (error e k')
    show ?thesis
    proof (cases "e = EINTR \<and> iov \<noteq> []")
      case True
      then have "signals V k' + length (concat iov) < signals V k + length (concat iov)"
        using error(2) by (simp add: failed_call_def)
      from less.hyps [OF this less.prems, of tot] True error show ?thesis
        by (auto simp: wrapvFull_write.simps [of K kIovMax k] interrupted_outcome(2))
    next
      case False
      with error show ?thesis
        by (auto simp: wrapvFull_write.simps [of K kIovMax k] failed_outcome failed_call_def write_outcome_def)
    qed
  next
    case (bytes r k')
    have r: "r \<le> length (concat iov)" "take r ?data = take r (concat iov)" using bytes(2) split by (simp_all add: split)
    show ?thesis
    proof (cases "r = 0 \<or> skip_iov r iov = []")
      case True
      have "drop r (concat iov) = []"
      proof (cases "r = 0")
        case True
        then have "?data = []" using bytes(6) by simp
        then have "iov = []" using m less.prems by (cases iov; cases kIovMax) auto
        then show ?thesis by simp
      next
        case False
        with True skip_iov_concat [OF r(1)] show ?thesis by simp
      qed
      then have "write_outcome V k (concat iov) tot (Inr (tot + r), k')"
        using bytes(3,4) r by (auto simp: write_outcome_def)
      then show ?thesis using True bytes(1) by (auto simp: wrapvFull_write.simps [of K kIovMax k])
    next
      case False
      let ?iov = "skip_iov r iov"
      have eq: "concat ?iov = drop r (concat iov)" by (rule skip_iov_concat [OF r(1)])
      have "signals V k' + length (concat ?iov) < signals V k + length (concat iov)"
        unfolding eq length_drop using bytes(5) False r(1) by arith
      from less.hyps [OF this skip_iov_nonempty [OF less.prems], of "tot + r"] obtain res where
        res: "wrapvFull_write K kIovMax k' ?iov (tot + r) = Some res"
        "write_outcome V k' (drop r (concat iov)) (tot + r) res" by (auto simp: eq)
      have "wrapvFull_write K kIovMax k iov tot = Some res"
        using False bytes(1) res(1) by (simp add: wrapvFull_write.simps [of K kIovMax k])
      with write_outcome_step [OF res(2) r(1)] bytes(3,4) r(2) show ?thesis by metis
    qed
  qed
qed

lemma wrapvFull_read_spec:
  assumes law: "posix_io K V" and m: "0 < kIovMax" and "0 \<notin> set lens"
  shows "\<exists>res. wrapvFull_read K kIovMax k lens buf = Some res \<and> read_outcome V k (sum_list lens) buf res"
  using assms(3)
proof (induction "signals V k + sum_list lens" arbitrary: k lens buf rule: less_induct)
  case less
  have "delivers V (sum_list (take kIovMax lens)) k (sys_readv K k (take kIovMax lens))"
    using law by (simp add: posix_io_def)
  then show ?case
  proof (cases rule: delivers_cases)
    case (error e k')
    show ?thesis
    proof (cases "e = EINTR \<and> lens \<noteq> []")
      case True
      then have "signals V k' + sum_list lens < signals V k + sum_list lens" using error(2) by (simp add: failed_call_def)
      from less.hyps [OF this less.prems, of buf] True error show ?thesis
        by (auto simp: wrapvFull_read.simps [of K kIovMax k] interrupted_outcome(1))
    next
      case False
      with error show ?thesis
        by (auto simp: wrapvFull_read.simps [of K kIovMax k] failed_outcome failed_call_def read_outcome_def)
    qed
  next
    case (bytes bs k')
    have len: "length bs \<le> sum_list lens" using bytes(2) sum_take_le order_trans by blast
    show ?thesis
    proof (cases "bs = [] \<or> skip_lens (length bs) lens = []")
      case True
      have "sum_list lens = length bs \<or> unread V k' = []"
      proof (cases "bs = []")
        case bs: True
        have "lens = []" if "sum_list (take kIovMax lens) = 0"
          using that m less.prems by (cases lens; cases kIovMax) auto
        then show ?thesis using bytes(3,6) bs by auto
      next
        case False
        with True skip_lens_sum [OF len] len show ?thesis by simp
      qed
      then have "read_outcome V k (sum_list lens) buf (Inr (buf @ bs), k')"
        using bytes(3,4) len by (auto simp: read_outcome_def)
      then show ?thesis using True bytes(1) by (auto simp: wrapvFull_read.simps [of K kIovMax k])
    next
      case False
      let ?lens = "skip_lens (length bs) lens"
      have eq: "sum_list ?lens = sum_list lens - length bs" by (rule skip_lens_sum [OF len])
      have "0 < length bs" using False by simp
      then have "signals V k' + sum_list ?lens < signals V k + sum_list lens" 
        unfolding eq using bytes(5) len by arith
      from less.hyps [OF this skip_lens_nonempty [OF less.prems], of "buf @ bs"] obtain res where
        res: "wrapvFull_read K kIovMax k' ?lens (buf @ bs) = Some res"
        "read_outcome V k' (sum_list lens - length bs) (buf @ bs) res" by (auto simp: eq)
      have "wrapvFull_read K kIovMax k lens buf = Some res"
        using False bytes(1) res(1) by (simp add: wrapvFull_read.simps [of K kIovMax k])
      with read_outcome_step [OF res(2) len bytes(3,4)] show ?thesis by blast
    qed
  qed
qed


section \<open>Properties\<close>

lemma wrapvFull_write_stops:
  assumes law: "posix_io K V" and m: "0 < kIovMax"
  shows "\<exists>res. wrapvFull_write K kIovMax k (replicate kIovMax [] @ iov) tot = Some res \<and>
    written V (snd res) = written V k \<and> (fst res = Inr tot \<or> (\<exists>e. e \<noteq> EINTR \<and> fst res = Inl e))"
proof (induction "signals V k" arbitrary: k rule: less_induct)
  case less
  let ?iov = "replicate kIovMax [] @ iov"
  have "accepts V (concat (take kIovMax ?iov)) k (sys_writev K k (take kIovMax ?iov))"
    using law by (simp add: posix_io_def del: take_append)
  then have "accepts V [] k (sys_writev K k (take kIovMax ?iov))" by simp
  then show ?case
  proof (cases rule: accepts_cases)
    case (error e k')
    then show ?thesis using less.hyps [of k'] m
      by (cases "e = EINTR") (auto simp: wrapvFull_write.simps [of K kIovMax k] failed_call_def simp del: take_append)
  next
    case (bytes r k')
    then show ?thesis by (auto simp: wrapvFull_write.simps [of K kIovMax k] simp del: take_append)
  qed
qed


text \<open>
  \<open>writevFull\<close> takes a write of zero bytes for the end of the transfer: if the first
  \<open>kIovMax\<close> buffers are empty it writes none of the buffers after them and reports success,
  unless a call fails.
\<close>

theorem writevFull_stops_at_empty:
  assumes "posix_io K V" "0 < kIovMax"
  shows "\<exists>res. writevFull K kIovMax k (replicate kIovMax [] @ iov) = Some res \<and>
    written V (snd res) = written V k \<and> (fst res = Inr 0 \<or> (\<exists>e. e \<noteq> EINTR \<and> fst res = Inl e))"
  unfolding writevFull_def by (rule wrapvFull_write_stops [OF assms])

text \<open>A kernel that transfers two bytes at a time and is interrupted by the pending signals first.\<close>

definition sample_io :: "(nat list \<times> nat list \<times> nat, nat) io_kernel" where
  "sample_io =
    (let rd = (\<lambda>(i, w, s) n. if s > 0 then (Inl EINTR, (i, w, s - 1))
                else (Inr (take (min 2 n) i), (drop (min 2 n) i, w, s)));
         wr = (\<lambda>(i, w, s) xs. if s > 0 then (Inl EINTR, (i, w, s - 1))
                else (Inr (min 2 (length xs)), (i, w @ take 2 xs, s)))
     in \<lparr>sys_read = rd, sys_write = wr, sys_readv = (\<lambda>k lens. rd k (sum_list lens)),
         sys_writev = (\<lambda>k iov. wr k (concat iov))\<rparr>)"

definition sample_view :: "(nat list \<times> nat list \<times> nat, nat) io_view" where
  "sample_view = \<lparr>unread = fst, written = fst \<circ> snd, signals = snd \<circ> snd\<rparr>"

lemma sample_io_law: "posix_io sample_io sample_view"
  by (auto simp: posix_io_def delivers_def accepts_def failed_call_def sample_io_def sample_view_def Let_def min_def)


theorem writevFull_stops_at_empty_witness:
  "\<exists>res. writevFull sample_io 2 ([], [], 1) (replicate 2 [] @ [[7]]) = Some res \<and>
     written sample_view (snd res) = []"
  using writevFull_stops_at_empty [OF sample_io_law, of 2 "([], [], 1)" "[[7]]"]
  by (auto simp: sample_view_def)

end
