(* ===== verification/Descriptor_Ownership.thy ===== *)
theory Descriptor_Ownership
  imports Transition_System Eden_Prelude
begin

text \<open>
  Ownership of descriptors by \<open>FileDescriptor\<close> objects (\<open>FileDescriptor.h\<close>,
  \<open>FileDescriptor.cpp\<close>, POSIX branches): construction, moves, \<open>close\<close>, \<open>release\<close>,
  \<open>duplicate\<close>, \<open>open\<close> and the destructor.  The world has the objects, by address, the
  descriptors that the process has open, those that are held as plain numbers by the callers,
  and the number of times a descriptor was closed that was not open.
  A new descriptor that the kernel returns is any number that is not open.
\<close>

section \<open>Descriptors\<close>

datatype FDType = Unknown | Generic | Pipe | Socket

definition kInvalid :: int where
  "kInvalid = -1"

record file_descriptor =
  fd_handle :: int
  fd_type :: FDType

definition normalizeHandleValue :: "int \<Rightarrow> int" where
  "normalizeHandleValue h = (if h < 0 then kInvalid else h)"

definition resolveFDType :: "int \<Rightarrow> FDType \<Rightarrow> FDType" where
  "resolveFDType fd fdType =
     (if normalizeHandleValue fd = kInvalid then Unknown
      else if fdType \<noteq> Unknown then fdType
      else Generic)"

definition FileDescriptor :: "int \<Rightarrow> FDType \<Rightarrow> file_descriptor" where
  "FileDescriptor fd fdType = \<lparr>fd_handle = normalizeHandleValue fd, fd_type = resolveFDType fd fdType\<rparr>"

definition FileDescriptor_checked :: "int \<Rightarrow> nat \<Rightarrow> FDType \<Rightarrow> file_descriptor result" where
  "FileDescriptor_checked fd err fdType =
     (let o' = FileDescriptor fd fdType
      in if fd_handle o' = kInvalid then Inl (SystemError err) else Inr o')"

definition operator_bool :: "file_descriptor \<Rightarrow> bool" where
  "operator_bool o' \<longleftrightarrow> fd_handle o' \<noteq> kInvalid"

section \<open>The flags of \<open>open\<close>\<close>

record open_options =
  followSymlinks :: bool
  closeOnExec :: bool
  metaDataOnly :: bool
  readContents :: bool
  writeContents :: bool
  create :: bool
  exclusiveCreate :: bool
  truncateFile :: bool
  createMode :: nat

definition OpenFileHandleOptions :: open_options where
  "OpenFileHandleOptions = \<lparr>followSymlinks = False, closeOnExec = True, metaDataOnly = False,
     readContents = False, writeContents = False, create = False, exclusiveCreate = False,
     truncateFile = False, createMode = 511\<rparr>"

definition readFile :: open_options where
  "readFile = OpenFileHandleOptions\<lparr>readContents := True\<rparr>"

definition writeFile :: open_options where
  "writeFile = OpenFileHandleOptions\<lparr>readContents := True, writeContents := True, create := True\<rparr>"

definition queryFileInfo :: open_options where
  "queryFileInfo = OpenFileHandleOptions\<lparr>metaDataOnly := True\<rparr>"

definition openDir :: open_options where
  "openDir = OpenFileHandleOptions\<lparr>readContents := True\<rparr>"

datatype open_flag = O_NOFOLLOW | O_CLOEXEC | O_PATH | O_RDWR | O_WRONLY | O_RDONLY | O_CREAT | O_EXCL | O_TRUNC

definition open_flags :: "open_options \<Rightarrow> open_flag list" where
  "open_flags opts =
     (if followSymlinks opts then [] else [O_NOFOLLOW]) @
     (if closeOnExec opts then [O_CLOEXEC] else []) @
     (if metaDataOnly opts then [O_PATH] else []) @
     (if readContents opts \<and> writeContents opts then [O_RDWR]
      else if writeContents opts then [O_WRONLY]
      else if readContents opts then [O_RDONLY] else []) @
     (if create opts then [O_CREAT] else []) @
     (if exclusiveCreate opts then [O_EXCL] else []) @
     (if truncateFile opts then [O_TRUNC] else [])"

section \<open>The world\<close>

record fd_world =
  objs :: "nat \<rightharpoonup> file_descriptor"
  open_fds :: "int set"
  caller_fds :: "int set"
  bad_closes :: nat

definition sys_close :: "int \<Rightarrow> fd_world \<Rightarrow> fd_world" where
  "sys_close fd w =
     (if fd \<in> open_fds w then w\<lparr>open_fds := open_fds w - {fd}\<rparr>
      else w\<lparr>bad_closes := bad_closes w + 1\<rparr>)"

definition set_obj :: "nat \<Rightarrow> file_descriptor \<Rightarrow> fd_world \<Rightarrow> fd_world" where
  "set_obj a o' w = w\<lparr>objs := (objs w)(a \<mapsto> o')\<rparr>"

definition fd_close :: "nat \<Rightarrow> fd_world \<Rightarrow> fd_world" where
  "fd_close a w =
     (case objs w a of
        None \<Rightarrow> w
      | Some o' \<Rightarrow>
          if fd_handle o' \<noteq> kInvalid then set_obj a (o'\<lparr>fd_handle := kInvalid\<rparr>) (sys_close (fd_handle o') w) else w)"

definition fd_release :: "nat \<Rightarrow> fd_world \<Rightarrow> int \<times> fd_world" where
  "fd_release a w =
     (case objs w a of
        None \<Rightarrow> (kInvalid, w)
      | Some o' \<Rightarrow> (fd_handle o', set_obj a (o'\<lparr>fd_handle := kInvalid\<rparr>) w))"

definition fd_construct :: "nat \<Rightarrow> int \<Rightarrow> FDType \<Rightarrow> fd_world \<Rightarrow> fd_world" where
  "fd_construct a fd fdType w = set_obj a (FileDescriptor fd fdType) w"

definition fd_move_construct :: "nat \<Rightarrow> nat \<Rightarrow> fd_world \<Rightarrow> fd_world" where
  "fd_move_construct a other w =
     (case objs w other of
        None \<Rightarrow> w
      | Some _ \<Rightarrow>
          let (fd, w') = fd_release other w;
              t = (case objs w' other of Some o' \<Rightarrow> fd_type o' | None \<Rightarrow> Unknown)
          in set_obj a \<lparr>fd_handle = fd, fd_type = t\<rparr> w')"

text \<open>The assignment reads \<open>other\<close> after \<open>this\<close> was closed, also when the two are the same object.\<close>

definition fd_move_assign :: "nat \<Rightarrow> nat \<Rightarrow> fd_world \<Rightarrow> fd_world" where
  "fd_move_assign a other w =
     (let w1 = fd_close a w
      in case objs w1 other of
           None \<Rightarrow> w1
         | Some src \<Rightarrow>
             let w2 = set_obj a \<lparr>fd_handle = fd_handle src, fd_type = fd_type src\<rparr> w1
             in (case objs w2 other of
                   None \<Rightarrow> w2
                 | Some src' \<Rightarrow> set_obj other (src'\<lparr>fd_handle := kInvalid\<rparr>) w2))"

definition fd_destroy :: "nat \<Rightarrow> fd_world \<Rightarrow> fd_world" where
  "fd_destroy a w = (let w' = fd_close a w in w'\<lparr>objs := (objs w')(a := None)\<rparr>)"

text \<open>\<open>new_fd\<close> is what \<open>dup\<close> or \<open>open\<close> returned: a descriptor that is open from now on, or a negative number.\<close>

definition kernel_opens :: "int \<Rightarrow> fd_world \<Rightarrow> fd_world" where
  "kernel_opens new_fd w = (if new_fd < 0 then w else w\<lparr>open_fds := insert new_fd (open_fds w)\<rparr>)"

definition fd_duplicate :: "nat \<Rightarrow> nat \<Rightarrow> int \<Rightarrow> nat \<Rightarrow> fd_world \<Rightarrow> unit result \<times> fd_world" where
  "fd_duplicate a target new_fd err w =
     (let t = (case objs w a of Some o' \<Rightarrow> fd_type o' | None \<Rightarrow> Unknown);
          w' = kernel_opens new_fd w
      in case FileDescriptor_checked new_fd err t of
           Inl e \<Rightarrow> (Inl e, w')
         | Inr o' \<Rightarrow> (Inr (), set_obj target o' w'))"

definition fd_open :: "nat \<Rightarrow> int \<Rightarrow> nat \<Rightarrow> fd_world \<Rightarrow> unit result \<times> fd_world" where
  "fd_open target new_fd err w =
     (if new_fd = -1 then (Inl (SystemError err), w)
      else (Inr (), set_obj target (FileDescriptor new_fd Unknown) (kernel_opens new_fd w)))"

section \<open>Steps\<close>

definition fresh_obj :: "nat \<Rightarrow> fd_world \<Rightarrow> bool" where
  "fresh_obj a w \<longleftrightarrow> objs w a = None"

inductive fd_step :: "fd_world \<Rightarrow> fd_world \<Rightarrow> bool" where
  fd_raw_open: "fd \<ge> 0 \<Longrightarrow> fd \<notin> open_fds w \<Longrightarrow>
    fd_step w (w\<lparr>open_fds := insert fd (open_fds w), caller_fds := insert fd (caller_fds w)\<rparr>)"
| fd_step_construct: "fresh_obj a w \<Longrightarrow> fd \<in> caller_fds w \<or> fd < 0 \<Longrightarrow>
    fd_step w ((fd_construct a fd t w)\<lparr>caller_fds := caller_fds w - {fd}\<rparr>)"
| fd_step_move_construct: "fresh_obj a w \<Longrightarrow> fd_step w (fd_move_construct a other w)"
| fd_step_move_assign: "objs w a \<noteq> None \<Longrightarrow> fd_step w (fd_move_assign a other w)"
| fd_step_close: "fd_step w (fd_close a w)"
| fd_step_release: "fd_release a w = (fd, w') \<Longrightarrow>
    fd_step w (if fd = kInvalid then w' else w'\<lparr>caller_fds := insert fd (caller_fds w')\<rparr>)"
| fd_step_destroy: "fd_step w (fd_destroy a w)"
| fd_step_duplicate: "fresh_obj target w \<Longrightarrow> new_fd \<notin> open_fds w \<Longrightarrow>
    fd_duplicate a target new_fd err w = (r, w') \<Longrightarrow> fd_step w w'"
| fd_step_open: "fresh_obj target w \<Longrightarrow> new_fd \<notin> open_fds w \<Longrightarrow> new_fd \<ge> -1 \<Longrightarrow>
    fd_open target new_fd err w = (r, w') \<Longrightarrow> fd_step w w'"

definition fd_init :: "fd_world \<Rightarrow> bool" where
  "fd_init w \<longleftrightarrow> w = \<lparr>objs = Map.empty, open_fds = {}, caller_fds = {}, bad_closes = 0\<rparr>"

text \<open>
  \<open>owns w a fd\<close>: the object at \<open>a\<close> holds the descriptor.  The invariant: no descriptor is held
  twice, by objects or by callers; what is held is open; and what is open is held.
\<close>

definition owns :: "fd_world \<Rightarrow> nat \<Rightarrow> int \<Rightarrow> bool" where
  "owns w a fd \<longleftrightarrow> (\<exists>o'. objs w a = Some o' \<and> fd_handle o' = fd \<and> fd \<noteq> kInvalid)"

definition fd_inv :: "fd_world \<Rightarrow> bool" where
  "fd_inv w \<longleftrightarrow>
     (\<forall>a b fd. owns w a fd \<and> owns w b fd \<longrightarrow> a = b) \<and>
     (\<forall>a fd. owns w a fd \<longrightarrow> fd \<in> open_fds w \<and> fd \<notin> caller_fds w) \<and>
     (\<forall>fd \<in> open_fds w. fd \<ge> 0 \<and> (fd \<in> caller_fds w \<or> (\<exists>a. owns w a fd))) \<and>
     caller_fds w \<subseteq> open_fds w \<and> bad_closes w = 0"

lemma owns_set_obj:
  "owns (set_obj a o' w) b fd \<longleftrightarrow> (if b = a then fd_handle o' = fd \<and> fd \<noteq> kInvalid else owns w b fd)"
  by (auto simp: owns_def set_obj_def)

lemma set_obj_fields [simp]:
  "open_fds (set_obj a o' w) = open_fds w" "caller_fds (set_obj a o' w) = caller_fds w"
  "bad_closes (set_obj a o' w) = bad_closes w" "objs (set_obj a o' w) = (objs w)(a \<mapsto> o')"
  by (simp_all add: set_obj_def)

lemma owns_world [simp]:
  "owns (w\<lparr>open_fds := x\<rparr>) = owns w" "owns (w\<lparr>caller_fds := y\<rparr>) = owns w"
  "owns (w\<lparr>bad_closes := n\<rparr>) = owns w"
  by (auto simp: owns_def fun_eq_iff)

lemma fd_invD:
  assumes "fd_inv w"
  shows "owns w a fd \<Longrightarrow> owns w b fd \<Longrightarrow> a = b" "owns w a fd \<Longrightarrow> fd \<in> open_fds w"
    "owns w a fd \<Longrightarrow> fd \<notin> caller_fds w" "fd \<in> open_fds w \<Longrightarrow> fd \<ge> 0"
    "fd \<in> open_fds w \<Longrightarrow> fd \<notin> caller_fds w \<Longrightarrow> \<exists>a. owns w a fd"
    "fd \<in> caller_fds w \<Longrightarrow> fd \<in> open_fds w" "bad_closes w = 0"
  using assms unfolding fd_inv_def by blast+

lemma fd_invI:
  assumes "\<And>a b fd. owns w a fd \<Longrightarrow> owns w b fd \<Longrightarrow> a = b" "\<And>a fd. owns w a fd \<Longrightarrow> fd \<in> open_fds w"
    "\<And>a fd. owns w a fd \<Longrightarrow> fd \<notin> caller_fds w" "\<And>fd. fd \<in> open_fds w \<Longrightarrow> fd \<ge> 0"
    "\<And>fd. fd \<in> open_fds w \<Longrightarrow> fd \<notin> caller_fds w \<Longrightarrow> \<exists>a. owns w a fd"
    "\<And>fd. fd \<in> caller_fds w \<Longrightarrow> fd \<in> open_fds w" "bad_closes w = 0"
  shows "fd_inv w"
  using assms unfolding fd_inv_def by blast

lemma fd_inv_open_nonneg: "fd_inv w \<Longrightarrow> kInvalid \<notin> open_fds w"
  by (auto simp: fd_inv_def kInvalid_def)

text \<open>\<open>close\<close> on an object: it owns nothing afterwards, and its descriptor is closed once.\<close>

lemma fd_close_spec:
  assumes inv: "fd_inv w"
  shows "fd_inv (fd_close a w)" "\<not> owns (fd_close a w) a fd"
    "b \<noteq> a \<Longrightarrow> objs (fd_close a w) b = objs w b" "objs (fd_close a w) a = None \<longleftrightarrow> objs w a = None"
proof -
  have "fd_inv (fd_close a w) \<and> \<not> owns (fd_close a w) a fd \<and> (b \<noteq> a \<longrightarrow> objs (fd_close a w) b = objs w b) \<and>
    (objs (fd_close a w) a = None \<longleftrightarrow> objs w a = None)"
  proof (cases "\<exists>o'. objs w a = Some o' \<and> fd_handle o' \<noteq> kInvalid")
    case False
    then have "fd_close a w = w" by (auto simp: fd_close_def split: option.splits)
    then show ?thesis using inv False by (auto simp: owns_def)
  next
    case True
    then obtain o' where o': "objs w a = Some o'" "fd_handle o' \<noteq> kInvalid" by blast
    have own: "owns w a (fd_handle o')" using o' by (simp add: owns_def)
    then have op: "fd_handle o' \<in> open_fds w" "fd_handle o' \<notin> caller_fds w" using inv by (auto simp: fd_inv_def)
    have eq: "fd_close a w = set_obj a (o'\<lparr>fd_handle := kInvalid\<rparr>) (w\<lparr>open_fds := open_fds w - {fd_handle o'}\<rparr>)"
      using o' op by (simp add: fd_close_def sys_close_def)
    have ow: "owns (fd_close a w) b fd \<longleftrightarrow> b \<noteq> a \<and> owns w b fd" for b fd by (simp add: eq owns_set_obj)
    have only: "owns w a fd \<Longrightarrow> fd = fd_handle o'" for fd using o' by (auto simp: owns_def)
    have fields: "open_fds (fd_close a w) = open_fds w - {fd_handle o'}" "caller_fds (fd_close a w) = caller_fds w"
      "bad_closes (fd_close a w) = bad_closes w" by (simp_all add: eq)
    have neq: "fd \<noteq> fd_handle o'" if "owns w b fd" "b \<noteq> a" for b fd
      using fd_invD(1) [OF inv that(1)] own that(2) by blast
    have ex: "\<exists>b. b \<noteq> a \<and> owns w b fd" if "fd \<in> open_fds w" "fd \<noteq> fd_handle o'" "fd \<notin> caller_fds w" for fd
      using fd_invD(5) [OF inv that(1,3)] only that(2) by metis
    have "fd_inv (fd_close a w)"
    proof (rule fd_invI; unfold ow fields)
      show "fd \<in> open_fds w - {fd_handle o'}" if "fd \<in> caller_fds w" for fd
        using fd_invD(6) [OF inv that] op(2) that by auto
    qed (use fd_invD [OF inv] neq ex fd_invD(1) [OF inv own] in auto)
    then show ?thesis by (simp add: eq owns_set_obj o')
  qed
  then show "fd_inv (fd_close a w)" "\<not> owns (fd_close a w) a fd"
    "b \<noteq> a \<Longrightarrow> objs (fd_close a w) b = objs w b" "objs (fd_close a w) a = None \<longleftrightarrow> objs w a = None" by blast+
qed


lemma fd_give_inv:
  assumes inv: "fd_inv w" and fresh: "\<And>fd. \<not> owns w a fd" and o': "fd_handle o' = kInvalid \<or>
      fd_handle o' \<notin> open_fds w \<and> fd_handle o' \<ge> 0 \<or> fd_handle o' \<in> caller_fds w"
  shows "fd_inv ((set_obj a o' w)\<lparr>open_fds := open_fds w \<union> ({fd_handle o'} - {kInvalid}),
      caller_fds := caller_fds w - {fd_handle o'}\<rparr>)" (is "fd_inv ?w")
proof -
  have ow: "owns ?w b fd \<longleftrightarrow> (if b = a then fd_handle o' = fd \<and> fd \<noteq> kInvalid else owns w b fd)" for b fd
    by (simp add: owns_set_obj)
  have fields: "open_fds ?w = open_fds w \<union> ({fd_handle o'} - {kInvalid})"
    "caller_fds ?w = caller_fds w - {fd_handle o'}" "bad_closes ?w = bad_closes w" by simp_all
  have other: "fd \<noteq> fd_handle o'" if "owns w b fd" for b fd
    using o' that fd_invD(2,3) [OF inv that] by (auto simp: owns_def)
  have nonneg: "fd_handle o' \<ge> 0" if "fd_handle o' \<noteq> kInvalid"
    using o' that fd_invD(4,6) [OF inv] by blast
  show ?thesis
  proof (rule fd_invI; unfold ow fields)
    show "a' = b" if "if a' = a then fd_handle o' = fd \<and> fd \<noteq> kInvalid else owns w a' fd"
      "if b = a then fd_handle o' = fd \<and> fd \<noteq> kInvalid else owns w b fd" for a' b fd
      using that other fd_invD(1) [OF inv] by (metis (full_types))
    show "\<exists>b. if b = a then fd_handle o' = fd \<and> fd \<noteq> kInvalid else owns w b fd"
      if t: "fd \<in> open_fds w \<union> ({fd_handle o'} - {kInvalid})" "fd \<notin> caller_fds w - {fd_handle o'}" for fd
    proof (cases "fd = fd_handle o'")
      case True
      then have "fd \<noteq> kInvalid" using t(1) fd_inv_open_nonneg [OF inv] by auto
      with True show ?thesis by (intro exI [of _ a]) simp
    next
      case False
      then have "\<exists>b. owns w b fd" using t fd_invD(5) [OF inv, of fd] by simp
      then obtain b where "owns w b fd" ..
      then show ?thesis using fresh by (intro exI [of _ b]) auto
    qed
  qed (use fd_invD [OF inv] other nonneg in \<open>auto split: if_splits\<close>)
qed


lemma fd_set_invalid_inv:
  assumes "fd_inv w" "\<And>fd. \<not> owns w a fd" "fd_handle o' = kInvalid"
  shows "fd_inv (set_obj a o' w)"
proof -
  have "caller_fds w - {kInvalid} = caller_fds w"
    using fd_invD(6) [OF assms(1), of kInvalid] fd_inv_open_nonneg [OF assms(1)] by blast
  then have "(set_obj a o' w)\<lparr>open_fds := open_fds w \<union> ({fd_handle o'} - {kInvalid}),
      caller_fds := caller_fds w - {fd_handle o'}\<rparr> = set_obj a o' w"
    by (simp add: set_obj_def assms(3))
  then show ?thesis using fd_give_inv [OF assms(1,2), of o'] assms(3) by simp
qed

text \<open>Taking the descriptor out of an object puts it into the hands of the caller.\<close>

lemma fd_take_inv:
  assumes inv: "fd_inv w" and o': "objs w a = Some o'" "fd_handle o' \<noteq> kInvalid"
  shows "fd_inv ((set_obj a (o'\<lparr>fd_handle := kInvalid\<rparr>) w)\<lparr>caller_fds := insert (fd_handle o') (caller_fds w)\<rparr>)"
    (is "fd_inv ?w")
proof -
  have own: "owns w a (fd_handle o')" using o' by (simp add: owns_def)
  have ow: "owns ?w b fd \<longleftrightarrow> b \<noteq> a \<and> owns w b fd" for b fd by (simp add: owns_set_obj)
  have only: "owns w a fd \<Longrightarrow> fd = fd_handle o'" for fd using o' by (auto simp: owns_def)
  have neq: "fd \<noteq> fd_handle o'" if "owns w b fd" "b \<noteq> a" for b fd
    using fd_invD(1) [OF inv that(1)] own that(2) by blast
  have fields: "open_fds ?w = open_fds w" "caller_fds ?w = insert (fd_handle o') (caller_fds w)"
    "bad_closes ?w = bad_closes w" by simp_all
  have ex: "\<exists>b. b \<noteq> a \<and> owns w b fd" if "fd \<in> open_fds w" "fd \<notin> insert (fd_handle o') (caller_fds w)" for fd
    using fd_invD(5) [OF inv that(1)] only that(2) by (metis insertCI)
  show ?thesis
    by (rule fd_invI; unfold ow fields) (use fd_invD [OF inv] neq ex own in auto)
qed

text \<open>A move: \<open>other\<close> gives its descriptor to the object at \<open>a\<close>, which owns none.\<close>

lemma fd_move_inv:
  assumes inv: "fd_inv w" and free: "\<And>fd. \<not> owns w a fd" and ne: "a \<noteq> other" and o': "objs w other = Some o'"
  shows "fd_inv (set_obj a \<lparr>fd_handle = fd_handle o', fd_type = t\<rparr> (set_obj other (o'\<lparr>fd_handle := kInvalid\<rparr>) w))"
proof (cases "fd_handle o' = kInvalid")
  case True
  have "fd_inv (set_obj other (o'\<lparr>fd_handle := kInvalid\<rparr>) w)"
    by (rule fd_set_invalid_inv [OF inv]) (use True o' in \<open>auto simp: owns_def\<close>)
  then show ?thesis by (rule fd_set_invalid_inv) (use free ne True in \<open>auto simp: owns_set_obj\<close>)
next
  case False
  let ?fd = "fd_handle o'"
  let ?w1 = "(set_obj other (o'\<lparr>fd_handle := kInvalid\<rparr>) w)\<lparr>caller_fds := insert ?fd (caller_fds w)\<rparr>"
  have own: "owns w other ?fd" using o' False by (simp add: owns_def)
  then have op: "?fd \<in> open_fds w" "?fd \<notin> caller_fds w" using fd_invD(2,3) [OF inv] by blast+
  have i1: "fd_inv ?w1" by (rule fd_take_inv [OF inv o' False])
  have "\<not> owns ?w1 a fd" for fd using free ne by (simp add: owns_set_obj)
  from fd_give_inv [OF i1 this, of "\<lparr>fd_handle = ?fd, fd_type = t\<rparr>"]
  show ?thesis using op False by (simp add: set_obj_def insert_absorb)
qed

lemma fd_move_construct_inv:
  assumes inv: "fd_inv w" and fresh: "fresh_obj a w"
  shows "fd_inv (fd_move_construct a other w)"
proof (cases "objs w other")
  case None
  then show ?thesis using inv by (simp add: fd_move_construct_def)
next
  case (Some o')
  with fresh have ne: "a \<noteq> other" by (auto simp: fresh_obj_def)
  have "fd_move_construct a other w =
    set_obj a \<lparr>fd_handle = fd_handle o', fd_type = fd_type o'\<rparr> (set_obj other (o'\<lparr>fd_handle := kInvalid\<rparr>) w)"
    using Some by (simp add: fd_move_construct_def fd_release_def)
  moreover have "\<not> owns w a fd" for fd using fresh by (simp add: owns_def fresh_obj_def)
  ultimately show ?thesis using fd_move_inv [OF inv _ ne Some] by simp
qed

lemma fd_move_assign_inv:
  assumes inv: "fd_inv w"
  shows "fd_inv (fd_move_assign a other w)"
proof (cases "objs (fd_close a w) other")
  case None
  then show ?thesis using fd_close_spec(1) [OF inv] by (simp add: fd_move_assign_def)
next
  case (Some src)
  let ?w1 = "fd_close a w"
  note i1 = fd_close_spec(1) [OF inv, of a]
  have free: "\<not> owns ?w1 a fd" for fd by (rule fd_close_spec(2) [OF inv])
  show ?thesis
  proof (cases "other = a")
    case True
    then have "fd_handle src = kInvalid" using free Some by (auto simp: owns_def)
    then have "fd_move_assign a other w = set_obj a src ?w1"
      using Some True by (cases src) (auto simp: fd_move_assign_def set_obj_def Let_def)
    then show ?thesis using fd_set_invalid_inv [OF i1 free \<open>fd_handle src = kInvalid\<close>] by simp
  next
    case False
    then have "fd_move_assign a other w =
      set_obj a \<lparr>fd_handle = fd_handle src, fd_type = fd_type src\<rparr> (set_obj other (src\<lparr>fd_handle := kInvalid\<rparr>) ?w1)"
      using Some by (simp add: fd_move_assign_def set_obj_def Let_def fun_upd_twist)
    then show ?thesis using fd_move_inv [OF i1 free _ Some] False by simp
  qed
qed

lemma kernel_give_inv:
  assumes inv: "fd_inv w" and fresh: "fresh_obj a w" and new: "new_fd \<notin> open_fds w" "new_fd \<ge> 0"
  shows "fd_inv (set_obj a \<lparr>fd_handle = new_fd, fd_type = t\<rparr> (kernel_opens new_fd w))"
proof -
  have "\<not> owns w a fd" for fd using fresh by (simp add: owns_def fresh_obj_def)
  note give = fd_give_inv [OF inv this, of "\<lparr>fd_handle = new_fd, fd_type = t\<rparr>"]
  have sets: "caller_fds w - {new_fd} = caller_fds w" "open_fds w \<union> ({new_fd} - {kInvalid}) = insert new_fd (open_fds w)"
    using fd_invD(6) [OF inv] new by (auto simp: kInvalid_def)
  have eq: "set_obj a o' (kernel_opens new_fd w) =
      (set_obj a o' w)\<lparr>open_fds := open_fds w \<union> ({new_fd} - {kInvalid}), caller_fds := caller_fds w - {new_fd}\<rparr>" for o'
    unfolding sets using new by (cases w) (simp add: set_obj_def kernel_opens_def)
  show ?thesis unfolding eq using give new by simp
qed


lemma fd_step_inv:
  assumes "fd_step w w'" "fd_inv w"
  shows "fd_inv w'"
  using assms
proof (induction rule: fd_step.induct)
  case (fd_raw_open fd w)
  let ?w = "w\<lparr>open_fds := insert fd (open_fds w), caller_fds := insert fd (caller_fds w)\<rparr>"
  have fields: "owns ?w = owns w" "open_fds ?w = insert fd (open_fds w)" "caller_fds ?w = insert fd (caller_fds w)"
    "bad_closes ?w = bad_closes w" by (auto simp: owns_def fun_eq_iff)
  have "\<not> owns w a fd" for a using fd_invD(2) [OF fd_raw_open(3)] fd_raw_open(2) by blast
  then show ?case
    by (intro fd_invI; unfold fields) (use fd_invD [OF fd_raw_open(3)] fd_raw_open(1) in auto)
next
  case (fd_step_construct a w fd t)
  have free: "\<not> owns w a x" for x using fd_step_construct(1) by (simp add: owns_def fresh_obj_def)
  show ?case
  proof (cases "fd < 0")
    case True
    then have "fd \<notin> caller_fds w" using fd_invD(4,6) [OF fd_step_construct(3), of fd] by force
    then have "(fd_construct a fd t w)\<lparr>caller_fds := caller_fds w - {fd}\<rparr> = set_obj a (FileDescriptor fd t) w"
      by (cases w) (simp add: fd_construct_def set_obj_def)
    with True show ?thesis
      using fd_set_invalid_inv [OF fd_step_construct(3) free] by (simp add: FileDescriptor_def normalizeHandleValue_def)
  next
    case False
    with fd_step_construct(2) have caller: "fd \<in> caller_fds w" by simp
    then have "open_fds w \<union> ({fd} - {kInvalid}) = open_fds w" using fd_invD(6) [OF fd_step_construct(3)] by blast
    moreover have "fd_handle (FileDescriptor fd t) = fd" using False by (simp add: FileDescriptor_def normalizeHandleValue_def)
    moreover have "(fd_construct a fd t w)\<lparr>caller_fds := caller_fds w - {fd}\<rparr> =
        (set_obj a (FileDescriptor fd t) w)\<lparr>open_fds := open_fds w, caller_fds := caller_fds w - {fd}\<rparr>"
      by (cases w) (simp add: fd_construct_def set_obj_def)
    ultimately show ?thesis
      using fd_give_inv [OF fd_step_construct(3) free, of "FileDescriptor fd t"] caller by metis
  qed
next
  case (fd_step_release a w fd w')
  show ?case
  proof (cases "objs w a")
    case None
    then show ?thesis using fd_step_release by (auto simp: fd_release_def)
  next
    case (Some o')
    then have eq: "fd = fd_handle o'" "w' = set_obj a (o'\<lparr>fd_handle := kInvalid\<rparr>) w"
      using fd_step_release(1) by (auto simp: fd_release_def)
    show ?thesis
    proof (cases "fd = kInvalid")
      case True
      then have "\<not> owns w a x" for x using eq(1) Some by (auto simp: owns_def)
      from fd_set_invalid_inv [OF fd_step_release(2) this] show ?thesis using True eq(2) by simp
    next
      case False
      then show ?thesis using fd_take_inv [OF fd_step_release(2) Some] eq by simp
    qed
  qed
next
  case (fd_step_destroy w a)
  let ?w1 = "fd_close a w"
  let ?w2 = "?w1\<lparr>objs := (objs ?w1)(a := None)\<rparr>"
  have free: "\<not> owns ?w1 a x" for x by (rule fd_close_spec(2) [OF fd_step_destroy])
  have "owns ?w2 b x \<longleftrightarrow> owns ?w1 b x" for b x using free by (cases "b = a") (auto simp: owns_def)
  then have "owns ?w2 = owns ?w1" by blast
  then show ?case using fd_close_spec(1) [OF fd_step_destroy, of a] by (simp add: fd_destroy_def fd_inv_def Let_def)
next
  case (fd_step_duplicate target w new_fd a err r w')
  show ?case
  proof (cases "new_fd < 0")
    case True
    then show ?thesis using fd_step_duplicate
      by (auto simp: fd_duplicate_def FileDescriptor_checked_def FileDescriptor_def normalizeHandleValue_def kernel_opens_def)
  next
    case False
    then have "fd_handle (FileDescriptor new_fd t) \<noteq> kInvalid" "fd_handle (FileDescriptor new_fd t) = new_fd" for t
      by (simp_all add: FileDescriptor_def normalizeHandleValue_def kInvalid_def)
    then show ?thesis using fd_step_duplicate False kernel_give_inv [OF fd_step_duplicate(4,1,2)]
      by (auto simp: fd_duplicate_def FileDescriptor_checked_def FileDescriptor_def Let_def)
  qed
next
  case (fd_step_open target w new_fd err r w')
  show ?case
  proof (cases "new_fd = -1")
    case False
    then have "new_fd \<ge> 0" using fd_step_open(3) by simp
    then show ?thesis using fd_step_open False kernel_give_inv [OF fd_step_open(5,1,2)]
      by (auto simp: fd_open_def FileDescriptor_def normalizeHandleValue_def)
  qed (use fd_step_open in \<open>simp add: fd_open_def\<close>)
qed (simp_all add: fd_move_construct_inv fd_move_assign_inv fd_close_spec(1))

interpretation fd_system: invariant_system fd_init fd_step fd_inv
proof
  show "fd_inv w" if "fd_init w" for w using that by (auto simp: fd_init_def fd_inv_def owns_def)
  show "fd_inv w'" if "fd_step w w'" "fd_inv w" for w w' by (rule fd_step_inv [OF that])
qed

section \<open>Properties\<close>

text \<open>
  C36: In every state that a program can reach through constructors, moves, assignments (to the
  object itself included), \<open>close\<close>, \<open>release\<close>, \<open>duplicate\<close>, \<open>open\<close> and destructors, every
  open descriptor has exactly one owner, an object or the caller that it was released to; an
  object that holds a descriptor holds an open one; and no descriptor has been closed twice.
\<close>

theorem descriptor_ownership:
  assumes "reachable fd_init fd_step w"
  shows "(\<forall>fd. fd \<in> open_fds w \<longleftrightarrow> fd \<in> caller_fds w \<or> (\<exists>a. owns w a fd)) \<and>
    (\<forall>a b fd. owns w a fd \<and> owns w b fd \<longrightarrow> a = b) \<and>
    (\<forall>a fd. owns w a fd \<longrightarrow> fd \<notin> caller_fds w) \<and> bad_closes w = 0"
  using fd_invD [OF fd_system.reachable_inv [OF assms]] by blast

text \<open>An object is moved over itself: its descriptor is closed and no other is touched.\<close>

theorem descriptor_ownership_witness:
  "\<exists>w. reachable fd_init fd_step w \<and> open_fds w = {} \<and> bad_closes w = 0 \<and> objs w 1 \<noteq> None"
proof -
  define w0 where "w0 = \<lparr>objs = Map.empty, open_fds = {}, caller_fds = {}, bad_closes = 0\<rparr>"
  obtain w1 where w1: "fd_open 1 5 0 w0 = (Inr (), w1)" by (simp add: fd_open_def)
  have "fd_step w0 w1" by (rule fd_step_open [OF _ _ _ w1]) (simp_all add: w0_def fresh_obj_def)
  moreover have "reachable fd_init fd_step w0" by (rule reach_init) (simp add: w0_def fd_init_def)
  ultimately have r1: "reachable fd_init fd_step w1" by (rule reach_step [rotated])
  have e1: "w1 = \<lparr>objs = [1 \<mapsto> \<lparr>fd_handle = 5, fd_type = Generic\<rparr>], open_fds = {5}, caller_fds = {}, bad_closes = 0\<rparr>"
    using w1 by (simp add: fd_open_def w0_def set_obj_def kernel_opens_def FileDescriptor_def
        normalizeHandleValue_def resolveFDType_def kInvalid_def)
  have r2: "reachable fd_init fd_step (fd_move_assign 1 1 w1)"
    by (rule reach_step [OF r1 fd_step_move_assign]) (simp add: e1)
  have "open_fds (fd_move_assign 1 1 w1) = {}" "objs (fd_move_assign 1 1 w1) 1 \<noteq> None"
    by (simp_all add: e1 fd_move_assign_def fd_close_def sys_close_def set_obj_def kInvalid_def)
  with descriptor_ownership [OF r2] r2 show ?thesis by blast
qed

end
