(* ===== verification/Id_Gen.thy ===== *)
theory Id_Gen
  imports Eden_Prelude
begin

text \<open>
  \<open>generateUniqueID\<close> of \<open>IDGen.cpp\<close>: process-wide unique numbers.  A thread takes a range of
  \<open>kRangeSize\<close> numbers from the global counter at a time and hands them out one by one.  A
  state is the global counter and the local counter of every thread; a run is the sequence of
  the threads that call, in the order of their calls (the atomic \<open>fetch_add\<close> is the only
  access to shared memory in a call).
\<close>

record idgen =
  global_counter :: nat
  localCounter :: "nat \<Rightarrow> nat"

definition kRangeSize :: nat where
  "kRangeSize = 2048"

definition idgen_init :: idgen where
  "idgen_init = \<lparr>global_counter = 0, localCounter = (\<lambda>_. 0)\<rparr>"

definition generateUniqueID :: "nat \<Rightarrow> idgen \<Rightarrow> nat \<times> idgen" where
  "generateUniqueID t s =
     (let (current, s') =
            (if localCounter s t mod kRangeSize = 0
             then (global_counter s, s\<lparr>global_counter := u64 (global_counter s + kRangeSize)\<rparr>)
             else (localCounter s t, s));
          current' = u64 (current + 1)
      in (current', s'\<lparr>localCounter := (localCounter s')(t := current')\<rparr>))"

fun generate_all :: "nat list \<Rightarrow> idgen \<Rightarrow> nat list" where
  "generate_all [] s = []"
| "generate_all (t # ts) s = (let (i, s') = generateUniqueID t s in i # generate_all ts s')"

section \<open>Uniqueness\<close>

text \<open>
  \<open>active s t\<close>: the thread has numbers left in its range, the one with the index
  \<open>localCounter s t div kRangeSize\<close>.  \<open>used\<close> are the numbers handed out so far.
\<close>

definition active :: "idgen \<Rightarrow> nat \<Rightarrow> bool" where
  "active s t \<longleftrightarrow> localCounter s t mod kRangeSize \<noteq> 0"

definition idgen_inv :: "nat set \<Rightarrow> idgen \<Rightarrow> bool" where
  "idgen_inv used s \<longleftrightarrow>
     global_counter s mod kRangeSize = 0 \<and> used \<subseteq> {1 .. global_counter s} \<and>
     (\<forall>t. localCounter s t \<le> global_counter s) \<and>
     (\<forall>t u. active s t \<and> active s u \<and> t \<noteq> u \<longrightarrow>
        localCounter s t div kRangeSize \<noteq> localCounter s u div kRangeSize) \<and>
     (\<forall>t i. active s t \<and> i \<in> used \<and> (i - 1) div kRangeSize = localCounter s t div kRangeSize \<longrightarrow>
        i \<le> localCounter s t)"

lemma range_facts:
  assumes "g mod kRangeSize = 0" "x mod kRangeSize \<noteq> 0" "x \<le> g"
  shows "x + 1 \<le> g" "x div kRangeSize < g div kRangeSize"
proof -
  have "x \<noteq> g" using assms by auto
  then show "x + 1 \<le> g" using assms(3) by simp
  have "x div kRangeSize \<noteq> g div kRangeSize"
  proof
    assume "x div kRangeSize = g div kRangeSize"
    moreover have "x = kRangeSize * (x div kRangeSize) + x mod kRangeSize" by simp
    moreover have "g = kRangeSize * (g div kRangeSize) + g mod kRangeSize" by simp
    ultimately have "x = g + x mod kRangeSize" using assms(1) by simp
    then show False using assms(2,3) by simp
  qed
  then show "x div kRangeSize < g div kRangeSize" using div_le_mono [OF assms(3), of kRangeSize] by simp
qed

lemma next_in_range:
  "x mod kRangeSize \<noteq> 0 \<Longrightarrow> (x + 1) mod kRangeSize \<noteq> 0 \<Longrightarrow> (x + 1) div kRangeSize = x div kRangeSize"
  by (simp add: kRangeSize_def div_Suc mod_Suc split: if_splits)

lemma generate_fresh_range:
  assumes inv: "idgen_inv used s" and idle: "\<not> active s t" and bound: "global_counter s + kRangeSize < 2 ^ 64"
    and eq: "generateUniqueID t s = (i, s')"
  shows "i \<notin> used" "i > 0" "idgen_inv (insert i used) s'" "global_counter s' = global_counter s + kRangeSize"
proof -
  let ?g = "global_counter s"
  have g: "?g mod kRangeSize = 0" "used \<subseteq> {1 .. ?g}" and loc: "\<And>u. localCounter s u \<le> ?g"
    using inv by (auto simp: idgen_inv_def)
  have i: "i = ?g + 1" and s': "s' = \<lparr>global_counter = ?g + kRangeSize, localCounter = (localCounter s)(t := ?g + 1)\<rparr>"
    using eq idle bound by (auto simp: generateUniqueID_def active_def Let_def kRangeSize_def)
  show "i \<notin> used" "i > 0" using g(2) by (auto simp: i)
  show "global_counter s' = ?g + kRangeSize" by (simp add: s')
  have d: "(?g + 1) div kRangeSize = ?g div kRangeSize" using g(1) by (simp add: kRangeSize_def div_Suc mod_Suc)
  have act: "active s' u \<longleftrightarrow> (if u = t then True else active s u)" for u
    using g(1) by (auto simp: active_def s' kRangeSize_def mod_Suc)
  have lt: "localCounter s u div kRangeSize < ?g div kRangeSize" if "active s u" for u
    using range_facts(2) [OF g(1) _ loc] that by (simp add: active_def)
  have old: "(j - 1) div kRangeSize < ?g div kRangeSize" if "j \<in> used" for j
  proof -
    have "1 \<le> j \<and> j \<le> ?g" using that g(2) by auto
    then have "j - 1 < ?g" by linarith
    moreover have "?g = kRangeSize * (?g div kRangeSize)" using g(1) by auto
    ultimately show ?thesis by (metis div_less_iff_less_mult kRangeSize_def mult.commute zero_less_numeral)
  qed
  have loc': "localCounter s' u = (if u = t then ?g + 1 else localCounter s u)" for u by (simp add: s')
  show "idgen_inv (insert i used) s'"
    unfolding idgen_inv_def
  proof (intro conjI allI impI)
    show "global_counter s' mod kRangeSize = 0" using g(1) by (simp add: s')
    show "insert i used \<subseteq> {1 .. global_counter s'}" using g(2) by (auto simp: s' i kRangeSize_def)
    show "localCounter s' u \<le> global_counter s'" for u using loc [of u] by (simp add: s' kRangeSize_def)
    show "localCounter s' u div kRangeSize \<noteq> localCounter s' v div kRangeSize"
      if "active s' u \<and> active s' v \<and> u \<noteq> v" for u v
      using that lt [of u] lt [of v] inv by (auto simp: act loc' d [simplified] idgen_inv_def split: if_splits)
    show "j \<le> localCounter s' u"
      if "active s' u \<and> j \<in> insert i used \<and> (j - 1) div kRangeSize = localCounter s' u div kRangeSize" for u j
      using that lt [of u] old [of j] inv
      by (cases "u = t"; cases "j = i") (auto simp: act loc' d [simplified] i idgen_inv_def)
  qed
qed


lemma generate_in_range:
  assumes inv: "idgen_inv used s" and act: "active s t" and bound: "global_counter s < 2 ^ 64"
    and eq: "generateUniqueID t s = (i, s')"
  shows "i \<notin> used" "i > 0" "idgen_inv (insert i used) s'" "global_counter s' = global_counter s"
proof -
  let ?g = "global_counter s" and ?x = "localCounter s t"
  have g: "?g mod kRangeSize = 0" "used \<subseteq> {1 .. ?g}" and loc: "\<And>u. localCounter s u \<le> ?g"
    using inv by (auto simp: idgen_inv_def)
  have x: "?x mod kRangeSize \<noteq> 0" using act by (simp add: active_def)
  have less: "?x + 1 \<le> ?g" using range_facts(1) [OF g(1) x loc] .
  have i: "i = ?x + 1" and s': "s' = s\<lparr>localCounter := (localCounter s)(t := ?x + 1)\<rparr>"
    using eq x less bound by (auto simp: generateUniqueID_def Let_def)
  have "j \<le> ?x" if "j \<in> used" "(j - 1) div kRangeSize = ?x div kRangeSize" for j
    using inv act that by (auto simp: idgen_inv_def)
  from this [of i] show new: "i \<notin> used" by (auto simp: i)
  show "i > 0" by (simp add: i)
  show "global_counter s' = ?g" by (simp add: s')
  have act': "active s' u \<Longrightarrow> active s u" for u using act by (cases "u = t") (auto simp: active_def s')
  have same: "localCounter s' u div kRangeSize = localCounter s u div kRangeSize" if "active s' u" for u
    using that next_in_range [OF x] by (auto simp: active_def s')
  show "idgen_inv (insert i used) s'"
    unfolding idgen_inv_def
  proof (intro conjI allI impI)
    show "global_counter s' mod kRangeSize = 0" using g(1) by (simp add: s')
    show "insert i used \<subseteq> {1 .. global_counter s'}" using g(2) less by (auto simp: s' i)
    show "localCounter s' u \<le> global_counter s'" for u using loc [of u] less by (simp add: s')
    show "localCounter s' u div kRangeSize \<noteq> localCounter s' v div kRangeSize"
      if "active s' u \<and> active s' v \<and> u \<noteq> v" for u v
      using that same act' inv by (auto simp: idgen_inv_def)
    show "j \<le> localCounter s' u"
      if j: "active s' u \<and> j \<in> insert i used \<and> (j - 1) div kRangeSize = localCounter s' u div kRangeSize" for u j
    proof (cases "j = i")
      case True
      then have "?x div kRangeSize = localCounter s u div kRangeSize" using j same by (simp add: i)
      moreover have "active s u" using act' j by blast
      ultimately have "u = t" using inv act by (metis idgen_inv_def)
      then show ?thesis by (simp add: True i s')
    next
      case False
      then have "j \<le> localCounter s u" using j same act' inv by (auto simp: idgen_inv_def)
      then show ?thesis by (auto simp: s')
    qed
  qed
qed

lemma generate_next:
  assumes "idgen_inv used s" "global_counter s + kRangeSize < 2 ^ 64" "generateUniqueID t s = (i, s')"
  shows "i \<notin> used" "i > 0" "idgen_inv (insert i used) s'" "global_counter s' \<le> global_counter s + kRangeSize"
  using generate_in_range [OF assms(1) _ _ assms(3)] generate_fresh_range [OF assms(1) _ assms(2,3)] assms(2)
  by (cases "active s t"; simp)+

lemma generate_all_spec:
  assumes "idgen_inv used s" "global_counter s + length ts * kRangeSize < 2 ^ 64"
  shows "distinct (generate_all ts s) \<and> set (generate_all ts s) \<inter> used = {} \<and> 0 \<notin> set (generate_all ts s)"
  using assms
proof (induction ts arbitrary: used s)
  case (Cons t ts)
  obtain i s' where eq: "generateUniqueID t s = (i, s')" by fastforce
  note gen = generate_next [OF Cons.prems(1) _ eq]
  have "global_counter s' + length ts * kRangeSize < 2 ^ 64"
    using gen(4) Cons.prems(2) by (simp add: algebra_simps)
  with Cons.IH [of "insert i used" s'] gen Cons.prems(2) show ?case by (auto simp: eq)
qed simp

text \<open>
  Whatever threads call \<open>generateUniqueID\<close>, in whatever order, the numbers returned are
  all different and none is zero, as long as the ranges taken do not exhaust the 64-bit
  counter: for at least \<open>2 ^ 53 - 1\<close> calls.
\<close>

theorem generateUniqueID_unique:
  assumes "length ts < 2 ^ 53"
  shows "distinct (generate_all ts idgen_init) \<and> 0 \<notin> set (generate_all ts idgen_init)"
proof -
  have "idgen_inv {} idgen_init" by (simp add: idgen_inv_def idgen_init_def active_def)
  moreover have "global_counter idgen_init + length ts * kRangeSize < 2 ^ 64"
    using assms by (simp add: idgen_init_def kRangeSize_def)
  ultimately show ?thesis using generate_all_spec by blast
qed

theorem generateUniqueID_unique_witness:
  "distinct (generate_all [0, 1, 0, 2, 1] idgen_init) \<and> 0 \<notin> set (generate_all [0, 1, 0, 2, 1] idgen_init) \<and>
   generate_all [0, 1, 0, 2, 1] idgen_init = [1, 2049, 2, 4097, 2050]"
  using generateUniqueID_unique [of "[0, 1, 0, 2, 1]"]
  by (simp add: generateUniqueID_def idgen_init_def kRangeSize_def Let_def)

end
