(* ===== verification/Option_Set.thy ===== *)
theory Option_Set
  imports Eden_Prelude "HOL-Library.Word"
begin

text \<open>
  \<open>OptionSet\<close> of \<open>OptionSet.h\<close>: typed bit sets over a machine word, with the formatting of the
  names of the bits.  \<open>format\<close> computes the length of the result first, allocates it, and then
  fills it through a pointer: the buffer is a list of the allocated length and the pointer a
  position in it, and a write outside of the buffer is the error \<open>OutOfRange\<close>.
\<close>

unbundle bit_operations_syntax

type_synonym 'l option_set = "'l word"

definition option_set_of :: "'l::len option_set list \<Rightarrow> 'l option_set" where
  "option_set_of args = foldl (\<lambda>v x. v OR x) 0 args"

definition containsAllOf :: "'l::len option_set \<Rightarrow> 'l option_set \<Rightarrow> bool" where
  "containsAllOf v s \<longleftrightarrow> v AND s = s"

definition containsAnyOf :: "'l::len option_set \<Rightarrow> 'l option_set \<Rightarrow> bool" where
  "containsAnyOf v s \<longleftrightarrow> v AND s \<noteq> 0"

definition containsNoneOf :: "'l::len option_set \<Rightarrow> 'l option_set \<Rightarrow> bool" where
  "containsNoneOf v s \<longleftrightarrow> v AND s = 0"

definition OptionSet_empty :: "'l::len option_set \<Rightarrow> bool" where
  "OptionSet_empty v \<longleftrightarrow> v = 0"

definition OptionSet_set :: "'l::len option_set \<Rightarrow> 'l option_set \<Rightarrow> 'l option_set" where
  "OptionSet_set v s = v OR s"

definition OptionSet_clear :: "'l::len option_set \<Rightarrow> 'l option_set \<Rightarrow> 'l option_set" where
  "OptionSet_clear v s = v AND NOT s"

definition OptionSet_or :: "'l::len option_set \<Rightarrow> 'l option_set \<Rightarrow> 'l option_set" where
  "OptionSet_or lhs rhs = lhs OR rhs"

definition OptionSet_and :: "'l::len option_set \<Rightarrow> 'l option_set \<Rightarrow> 'l option_set" where
  "OptionSet_and lhs rhs = lhs AND rhs"

type_synonym 'l name_table = "('l word \<times> string) list"

fun format_length :: "'l::len option_set \<Rightarrow> 'l name_table \<Rightarrow> nat \<Rightarrow> nat" where
  "format_length v [] n = n"
| "format_length v ((b, name) # table) n =
     format_length v table
       (if containsAllOf v b then (if n \<noteq> 0 then n + 1 else n) + length name else n)"

text \<open>\<open>memcpy\<close> to the position \<open>p\<close> of the buffer.\<close>

definition write_at :: "string \<Rightarrow> nat \<Rightarrow> string \<Rightarrow> string result" where
  "write_at buf p xs =
     (if p + length xs \<le> length buf then Inr (take p buf @ xs @ drop (p + length xs) buf) else Inl OutOfRange)"

fun format_fill :: "'l::len option_set \<Rightarrow> 'l name_table \<Rightarrow> string \<Rightarrow> nat \<Rightarrow> (string \<times> nat) result" where
  "format_fill v [] buf p = Inr (buf, p)"
| "format_fill v ((b, name) # table) buf p =
     (if containsAllOf v b then
        (case (if p \<noteq> 0 then map_sum id (\<lambda>buf. (buf, p + 1)) (write_at buf p '' '') else Inr (buf, p)) of
           Inl e \<Rightarrow> Inl e
         | Inr (buf', p') \<Rightarrow>
             (case write_at buf' p' name of
                Inl e \<Rightarrow> Inl e
              | Inr buf'' \<Rightarrow> format_fill v table buf'' (p' + length name)))
      else format_fill v table buf p)"

definition OptionSet_format :: "'l::len name_table \<Rightarrow> 'l option_set \<Rightarrow> string result" where
  "OptionSet_format table v =
     (if OptionSet_empty v \<or> table = [] then Inr ''''
      else let len = format_length v table 0
           in (case format_fill v table (replicate len (CHR 0x00)) 0 of
                 Inl e \<Rightarrow> Inl e
               | Inr (buf, p) \<Rightarrow> if p = len then Inr buf else Inl CheckFailed))"

section \<open>Sets of bits\<close>

definition bits_of :: "'l::len option_set \<Rightarrow> nat set" where
  "bits_of v = {i. bit v i}"

lemma bits_of_inject: "bits_of v = bits_of w \<longleftrightarrow> v = w"
proof
  assume "bits_of v = bits_of w"
  then have "bit v i \<longleftrightarrow> bit w i" for i by (auto simp: bits_of_def)
  then show "v = w" by (simp add: bit_eqI)
qed simp

lemma bits_of_less: "i \<in> bits_of (v :: 'l::len option_set) \<Longrightarrow> i < LENGTH('l)"
  by (simp add: bits_of_def bit_imp_le_length)

lemma bits_of_ops:
  "bits_of (v OR w) = bits_of v \<union> bits_of w" "bits_of (v AND w) = bits_of v \<inter> bits_of w"
  "bits_of (v AND NOT w) = bits_of v - bits_of w" "bits_of 0 = {}"
  by (auto simp: bits_of_def bit_simps dest: bit_imp_le_length)

lemma bits_of_option_set: "bits_of (option_set_of args) = (\<Union>x \<in> set args. bits_of x)"
proof -
  have "bits_of (foldl (\<lambda>v x. v OR x) a args) = bits_of a \<union> (\<Union>x \<in> set args. bits_of x)" for a
    by (induction args arbitrary: a) (auto simp: bits_of_ops)
  then show ?thesis by (simp add: option_set_of_def bits_of_ops)
qed

text \<open>
  An \<open>OptionSet\<close> is a set of bits: its operations are those of sets, whatever the width
  of the word.
\<close>

theorem option_set_is_bit_set:
  fixes v s :: "'l::len option_set"
  shows "bits_of (option_set_of args) = (\<Union>x \<in> set args. bits_of x) \<and>
   bits_of (OptionSet_set v s) = bits_of v \<union> bits_of s \<and>
   bits_of (OptionSet_clear v s) = bits_of v - bits_of s \<and>
   bits_of (OptionSet_or v s) = bits_of v \<union> bits_of s \<and>
   bits_of (OptionSet_and v s) = bits_of v \<inter> bits_of s \<and>
   (containsAllOf v s \<longleftrightarrow> bits_of s \<subseteq> bits_of v) \<and>
   (containsAnyOf v s \<longleftrightarrow> bits_of v \<inter> bits_of s \<noteq> {}) \<and>
   (containsNoneOf v s \<longleftrightarrow> bits_of v \<inter> bits_of s = {}) \<and>
   (OptionSet_empty v \<longleftrightarrow> bits_of v = {}) \<and> (bits_of v = bits_of s \<longleftrightarrow> v = s)"
proof -
  have clear: "bits_of (v AND NOT s) = bits_of v - bits_of s" by (rule bits_of_ops)
  have "v AND s = s \<longleftrightarrow> bits_of (v AND s) = bits_of s" "v AND s = 0 \<longleftrightarrow> bits_of (v AND s) = bits_of (0 :: 'l word)"
    "v = 0 \<longleftrightarrow> bits_of v = bits_of (0 :: 'l word)" "v = s \<longleftrightarrow> bits_of v = bits_of s"
    by (simp_all only: bits_of_inject)
  then show ?thesis
    unfolding OptionSet_set_def OptionSet_clear_def OptionSet_or_def OptionSet_and_def containsAllOf_def
      containsAnyOf_def containsNoneOf_def OptionSet_empty_def bits_of_option_set clear
    unfolding bits_of_ops(1,2,4) by blast
qed

section \<open>Formatting\<close>

definition format_names :: "'l::len option_set \<Rightarrow> 'l name_table \<Rightarrow> string list" where
  "format_names v table = map snd (filter (\<lambda>(b, name). containsAllOf v b) table)"

text \<open>The text that is appended for a list of names: a space before every name but at the start.\<close>

fun spaced :: "bool \<Rightarrow> string list \<Rightarrow> string" where
  "spaced start [] = ''''"
| "spaced start (x # xs) = (if start then x else '' '' @ x) @ spaced (start \<and> x = '''') xs"

lemma spaced_join: "\<forall>x \<in> set xs. x \<noteq> '''' \<Longrightarrow> spaced True xs = join '' '' xs"
proof (induction xs rule: induct_list012)
  case (3 x y zs)
  have rest: "spaced False ys = concat (map (\<lambda>y. '' '' @ y) ys)" for ys by (induction ys) auto
  have "join '' '' (y # zs) = y @ concat (map (\<lambda>y. '' '' @ y) zs)" for y
    by (induction zs arbitrary: y) auto
  then show ?case using 3 rest by simp
qed auto

lemma format_length_spec:
  "format_length v table n = n + length (spaced (n = 0) (format_names v table))"
  by (induction v table n rule: format_length.induct) (auto simp: format_names_def)

lemma write_at_prefix:
  assumes "length xs \<le> k"
  shows "write_at (pre @ replicate k z) (length pre) xs = Inr ((pre @ xs) @ replicate (k - length xs) z)"
  using assms by (simp add: write_at_def)

lemma format_fill_spec:
  assumes "k = length (spaced (pre = '''') (format_names v table))"
  shows "format_fill v table (pre @ replicate k z) (length pre) =
    Inr (pre @ spaced (pre = '''') (format_names v table),
         length (pre @ spaced (pre = '''') (format_names v table)))"
  using assms
proof (induction table arbitrary: pre k)
  case (Cons x table)
  obtain b name where x: "x = (b, name)" by fastforce
  show ?case
  proof (cases "containsAllOf v b")
    case False
    then show ?thesis using Cons by (simp add: x format_names_def)
  next
    case True
    let ?sp = "if pre = '''' then '''' else '' ''"
    let ?rest = "spaced (pre @ ?sp @ name = '''') (format_names v table)"
    have names: "format_names v (x # table) = name # format_names v table" using True by (simp add: x format_names_def)
    have sp: "spaced (pre = '''') (name # format_names v table) = ?sp @ name @ ?rest" by simp
    have k: "k = length ?sp + (length name + length ?rest)" using Cons.prems by (simp add: names)
    have step1: "(if length pre \<noteq> 0 then map_sum id (\<lambda>buf. (buf, length pre + 1)) (write_at (pre @ replicate k z) (length pre) '' '')
        else Inr (pre @ replicate k z, length pre)) = Inr ((pre @ ?sp) @ replicate (length name + length ?rest) z, length (pre @ ?sp))"
      using write_at_prefix [of "'' ''" k pre z] by (auto simp: k)
    have step2: "write_at ((pre @ ?sp) @ replicate (length name + length ?rest) z) (length (pre @ ?sp)) name =
      Inr ((pre @ ?sp @ name) @ replicate (length ?rest) z)"
      using write_at_prefix [of name "length name + length ?rest" "pre @ ?sp" z] by simp
    have "format_fill v (x # table) (pre @ replicate k z) (length pre) =
      format_fill v table ((pre @ ?sp @ name) @ replicate (length ?rest) z) (length (pre @ ?sp @ name))"
      unfolding x format_fill.simps step1 using True step2 by simp
    also have "\<dots> = Inr ((pre @ ?sp @ name) @ ?rest, length ((pre @ ?sp @ name) @ ?rest))"
      by (rule Cons.IH) simp
    finally show ?thesis by (simp add: names)
  qed
qed (simp add: format_names_def)

text \<open>
  \<open>format\<close> never writes outside of the string it has allocated and fills it exactly; the
  result is the list of the names of the bits of the set, in the order of the table and
  separated by single spaces, when no name is empty.
\<close>

theorem option_set_format:
  "\<exists>r. OptionSet_format table v = Inr r \<and>
    (v \<noteq> 0 \<and> '''' \<notin> snd ` set table \<longrightarrow> r = join '' '' (format_names v table))"
proof (cases "v = 0 \<or> table = []")
  case True
  then show ?thesis by (auto simp: OptionSet_format_def OptionSet_empty_def format_names_def)
next
  case False
  let ?r = "spaced True (format_names v table)"
  have "OptionSet_format table v = Inr ?r"
    using False format_fill_spec [of "length ?r" "[]" v table "CHR 0x00"] format_length_spec [of v table 0]
    by (simp add: OptionSet_format_def OptionSet_empty_def)
  moreover have "?r = join '' '' (format_names v table)" if "'''' \<notin> snd ` set table"
    using that by (intro spaced_join) (force simp: format_names_def)
  ultimately show ?thesis by blast
qed

theorem option_set_format_witness:
  "OptionSet_format [(1, ''read''), (2, ''write''), (4, ''exec'')] (5 :: 8 word) = Inr ''read exec''"
proof -
  have "format_names (5 :: 8 word) [(1, ''read''), (2, ''write''), (4, ''exec'')] = [''read'', ''exec'']"
    by (simp add: format_names_def containsAllOf_def)
  then show ?thesis
    using option_set_format [of "[(1, ''read''), (2, ''write''), (4, ''exec'')]" "5 :: 8 word"] by auto
qed

end
