(* ===== verification/Trace_Bus.thy ===== *)
theory Trace_Bus
  imports Transition_System Eden_Prelude
begin

text \<open>
  \<open>TraceBus\<close> of \<open>TraceBus.h\<close> and \<open>TraceBus-inl.h\<close>: events that any thread publishes into a
  buffer of fixed capacity, and that one background thread hands to the subscribers in batches.

  \<open>trace_bus\<close> holds the fields of \<open>State\<close> (the linked list of subscriptions is a list, head
  first), the program counter of \<open>threadLoop\<close> with its locals, and the state of the two
  condition variables: \<open>b_notifies\<close> counts the calls of \<open>emptyCV_.notify_one\<close> that a thread
  is about to make, \<open>b_blocked\<close> are the events of the publishers asleep on \<open>fullCV_\<close> and
  \<open>b_woken\<close> those of the publishers woken up that have not reacquired the lock.  A step is what
  one thread does under one acquisition of the lock, one notification or one call of
  \<open>observeBatch\<close>; waiting threads may wake up spuriously.

  Ghost fields: \<open>b_published\<close> is the history of published events, \<open>b_taken\<close> the number of them
  that have been moved to the read buffer, \<open>s_from\<close> that number when the subscription was made,
  \<open>s_seen\<close> what the subscriber has observed, \<open>b_gone\<close> the deleted subscriptions.  The
  sequence number is a natural number: \<open>2 ^ 64\<close> events are not reached.
\<close>

section \<open>The state\<close>

record 'e subscription =
  s_id :: nat
  s_hasThrown :: bool
  s_unsubscribe :: nat
  s_from :: nat
  s_seen :: "'e list"

datatype 'e bus_pc =
    B_top
  | B_asleep
  | B_woken
  | B_taken "'e list" "nat list" bool
  | B_deliver "'e list" "nat list" bool
  | B_exit

record 'e trace_bus =
  b_done :: bool
  b_subs :: "'e subscription list"
  b_writeBuffer :: "'e list"
  b_seq :: nat
  b_hasSubscription :: bool
  b_pc :: "'e bus_pc"
  b_lastObserved :: nat
  b_notifies :: nat
  b_blocked :: "'e list"
  b_woken :: "'e list"
  b_nextId :: nat
  b_published :: "'e list"
  b_taken :: nat
  b_gone :: "'e subscription list"

definition TraceBus :: "'e trace_bus" where
  "TraceBus = \<lparr>b_done = False, b_subs = [], b_writeBuffer = [], b_seq = 1, b_hasSubscription = False,
     b_pc = B_top, b_lastObserved = 0, b_notifies = 0, b_blocked = [], b_woken = [], b_nextId = 0,
     b_published = [], b_taken = 0, b_gone = []\<rparr>"

section \<open>Publishers and subscribers\<close>

definition append_event :: "'e \<Rightarrow> 'e trace_bus \<Rightarrow> 'e trace_bus" where
  "append_event e s =
     (let wake = (b_writeBuffer s = [])
      in s\<lparr>b_writeBuffer := b_writeBuffer s @ [e], b_seq := b_seq s + 1,
           b_published := b_published s @ [e],
           b_notifies := (if wake then b_notifies s + 1 else b_notifies s)\<rparr>)"

definition publish :: "nat \<Rightarrow> 'e \<Rightarrow> 'e trace_bus \<Rightarrow> 'e trace_bus result" where
  "publish capacity e s =
     (if b_done s then Inl CheckFailed
      else if length (b_writeBuffer s) = capacity then Inr (s\<lparr>b_blocked := b_blocked s @ [e]\<rparr>)
      else Inr (append_event e s))"

text \<open>A publisher that was woken checks the condition of \<open>fullCV_\<close> again.\<close>

definition publish_woken :: "nat \<Rightarrow> 'e trace_bus \<Rightarrow> 'e trace_bus" where
  "publish_woken capacity s =
     (case b_woken s of
        [] \<Rightarrow> s
      | e # es \<Rightarrow>
          if length (b_writeBuffer s) < capacity then append_event e (s\<lparr>b_woken := es\<rparr>)
          else s\<lparr>b_blocked := b_blocked s @ [e], b_woken := es\<rparr>)"

definition subscribe :: "'e trace_bus \<Rightarrow> nat \<times> 'e trace_bus" where
  "subscribe s =
     (let sub = \<lparr>s_id = b_nextId s, s_hasThrown = False, s_unsubscribe = 0, s_from = b_taken s, s_seen = []\<rparr>
      in (b_nextId s, s\<lparr>b_subs := sub # b_subs s, b_hasSubscription := True, b_nextId := b_nextId s + 1\<rparr>))"

definition update_sub :: "nat \<Rightarrow> ('e subscription \<Rightarrow> 'e subscription) \<Rightarrow> 'e subscription list \<Rightarrow> 'e subscription list" where
  "update_sub i f subs = map (\<lambda>x. if s_id x = i then f x else x) subs"

definition unsubscribe :: "nat \<Rightarrow> 'e trace_bus \<Rightarrow> 'e trace_bus" where
  "unsubscribe i s = s\<lparr>b_subs := update_sub i (\<lambda>x. x\<lparr>s_unsubscribe := b_seq s\<rparr>) (b_subs s)\<rparr>"

definition notify_empty :: "'e trace_bus \<Rightarrow> 'e trace_bus" where
  "notify_empty s =
     s\<lparr>b_notifies := b_notifies s - 1, b_pc := (case b_pc s of B_asleep \<Rightarrow> B_woken | pc \<Rightarrow> pc)\<rparr>"

definition destroy_bus :: "'e trace_bus \<Rightarrow> 'e trace_bus" where
  "destroy_bus s = s\<lparr>b_done := True, b_notifies := b_notifies s + 1\<rparr>"

section \<open>The background thread\<close>

definition unlinked :: "nat \<Rightarrow> 'e subscription \<Rightarrow> bool" where
  "unlinked lastObserved sub \<longleftrightarrow> s_unsubscribe sub \<noteq> 0 \<and> s_unsubscribe sub \<le> lastObserved"

text \<open>The end of the wait on \<open>emptyCV_\<close>: swap the buffers, or sleep on.\<close>

definition take_batch :: "'e trace_bus \<Rightarrow> 'e trace_bus" where
  "take_batch s =
     (if b_done s \<or> b_writeBuffer s \<noteq> []
      then s\<lparr>b_pc := B_taken (b_writeBuffer s) (map s_id (b_subs s)) (b_done s), b_writeBuffer := [],
             b_taken := b_taken s + length (b_writeBuffer s)\<rparr>
      else s\<lparr>b_pc := B_asleep\<rparr>)"

definition loop_top :: "'e trace_bus \<Rightarrow> 'e trace_bus" where
  "loop_top s =
     (let kept = filter (\<lambda>x. \<not> unlinked (b_lastObserved s) x) (b_subs s)
      in take_batch
           (s\<lparr>b_subs := kept, b_gone := b_gone s @ filter (unlinked (b_lastObserved s)) (b_subs s),
              b_lastObserved := b_seq s,
              b_hasSubscription := (if kept = [] then False else b_hasSubscription s)\<rparr>))"

text \<open>
  \<open>observeBatch\<close> of a function subscriber: \<open>throws k\<close> tells whether the function throws on the
  \<open>k\<close>th event of this batch; the result is what it has processed and whether it threw.
\<close>

fun observeBatch :: "(nat \<Rightarrow> bool) \<Rightarrow> nat \<Rightarrow> 'e list \<Rightarrow> 'e list \<times> bool" where
  "observeBatch throws k [] = ([], False)"
| "observeBatch throws k (e # es) =
     (if throws k then ([], True)
      else let r = observeBatch throws (k + 1) es in (e # fst r, snd r))"

definition deliver :: "'e list \<Rightarrow> (nat \<Rightarrow> bool) \<Rightarrow> 'e subscription \<Rightarrow> 'e subscription" where
  "deliver batch throws sub =
     (if s_hasThrown sub then sub
      else let r = observeBatch throws 0 batch
           in sub\<lparr>s_hasThrown := snd r, s_seen := s_seen sub @ fst r\<rparr>)"

fun thread_step :: "nat \<Rightarrow> (nat \<Rightarrow> bool) \<Rightarrow> 'e trace_bus \<Rightarrow> 'e bus_pc \<Rightarrow> 'e trace_bus option" where
  "thread_step capacity throws s B_top = Some (loop_top s)"
| "thread_step capacity throws s B_asleep = None"
| "thread_step capacity throws s B_woken = Some (take_batch s)"
| "thread_step capacity throws s (B_taken batch ids d) =
     Some (let s' = s\<lparr>b_pc := B_deliver batch ids d\<rparr>
           in if length batch = capacity then s'\<lparr>b_woken := b_woken s @ b_blocked s, b_blocked := []\<rparr> else s')"
| "thread_step capacity throws s (B_deliver batch (i # ids) d) =
     Some (s\<lparr>b_subs := update_sub i (deliver batch throws) (b_subs s), b_pc := B_deliver batch ids d\<rparr>)"
| "thread_step capacity throws s (B_deliver batch [] d) = Some (s\<lparr>b_pc := (if d then B_exit else B_top)\<rparr>)"
| "thread_step capacity throws s B_exit = None"

section \<open>Interleavings\<close>

text \<open>Steps other than the calls of \<open>subscribe\<close> and \<open>unsubscribe\<close>.\<close>

inductive bus_internal :: "nat \<Rightarrow> 'e trace_bus \<Rightarrow> 'e trace_bus \<Rightarrow> bool" for capacity :: nat where
  step_publish: "publish capacity e s = Inr s' \<Longrightarrow> bus_internal capacity s s'"
| step_woken: "b_woken s \<noteq> [] \<Longrightarrow> bus_internal capacity s (publish_woken capacity s)"
| step_spurious_publisher:
    "b_blocked s = es @ e # fs \<Longrightarrow> bus_internal capacity s (s\<lparr>b_blocked := es @ fs, b_woken := b_woken s @ [e]\<rparr>)"
| step_notify: "b_notifies s > 0 \<Longrightarrow> bus_internal capacity s (notify_empty s)"
| step_spurious_thread: "b_pc s = B_asleep \<Longrightarrow> bus_internal capacity s (s\<lparr>b_pc := B_woken\<rparr>)"
| step_thread: "thread_step capacity throws s (b_pc s) = Some s' \<Longrightarrow> bus_internal capacity s s'"
| step_destroy: "\<not> b_done s \<Longrightarrow> b_blocked s = [] \<Longrightarrow> b_woken s = [] \<Longrightarrow> bus_internal capacity s (destroy_bus s)"

inductive bus_step :: "nat \<Rightarrow> 'e trace_bus \<Rightarrow> 'e trace_bus \<Rightarrow> bool" for capacity :: nat where
  step_internal: "bus_internal capacity s s' \<Longrightarrow> bus_step capacity s s'"
| step_subscribe: "\<not> b_done s \<Longrightarrow> bus_step capacity s (snd (subscribe s))"
| step_unsubscribe: "\<not> b_done s \<Longrightarrow> bus_step capacity s (unsubscribe i s)"

definition bus_init :: "nat \<Rightarrow> 'e trace_bus \<Rightarrow> bool" where
  "bus_init capacity s \<longleftrightarrow> 0 < capacity \<and> s = TraceBus"

section \<open>The invariant\<close>

fun pc_batch :: "'e bus_pc \<Rightarrow> 'e list" where
  "pc_batch (B_taken batch ids d) = batch"
| "pc_batch (B_deliver batch ids d) = batch"
| "pc_batch pc = []"

fun pc_ids :: "'e bus_pc \<Rightarrow> nat list" where
  "pc_ids (B_taken batch ids d) = ids"
| "pc_ids (B_deliver batch ids d) = ids"
| "pc_ids pc = []"

fun pc_done :: "'e bus_pc \<Rightarrow> bool" where
  "pc_done (B_taken batch ids d) = d"
| "pc_done (B_deliver batch ids d) = d"
| "pc_done B_exit = True"
| "pc_done pc = False"

text \<open>How far a subscription has got: up to the batch being delivered, or up to all that was taken.\<close>

definition observed_upto :: "'e trace_bus \<Rightarrow> 'e subscription \<Rightarrow> nat" where
  "observed_upto s sub =
     (if s_id sub \<in> set (pc_ids (b_pc s)) then b_taken s - length (pc_batch (b_pc s)) else b_taken s)"

definition segment :: "nat \<Rightarrow> nat \<Rightarrow> 'e list \<Rightarrow> 'e list" where
  "segment m n xs = drop m (take n xs)"

text \<open>
  What a subscription has observed: a contiguous piece of the history that starts where it was
  subscribed, and that ends at \<open>n\<close> unless it has thrown.
\<close>

definition seen_ok :: "'e list \<Rightarrow> nat \<Rightarrow> 'e subscription \<Rightarrow> bool" where
  "seen_ok published n sub \<longleftrightarrow> (\<exists>m. s_from sub \<le> m \<and> m \<le> n \<and> (\<not> s_hasThrown sub \<longrightarrow> m = n) \<and>
     s_seen sub = segment (s_from sub) m published)"

definition sub_ok :: "'e trace_bus \<Rightarrow> 'e subscription \<Rightarrow> bool" where
  "sub_ok s sub \<longleftrightarrow> s_id sub < b_nextId s \<and> seen_ok (b_published s) (observed_upto s sub) sub \<and>
     s_unsubscribe sub \<le> b_seq s"

definition gone_ok :: "'e trace_bus \<Rightarrow> 'e subscription \<Rightarrow> bool" where
  "gone_ok s sub \<longleftrightarrow> (\<exists>n. n \<le> b_taken s \<and> s_unsubscribe sub \<le> n + 1 \<and> seen_ok (b_published s) n sub)"

definition history_inv :: "'e trace_bus \<Rightarrow> bool" where
  "history_inv s \<longleftrightarrow> b_published s = take (b_taken s) (b_published s) @ b_writeBuffer s \<and>
     b_taken s \<le> length (b_published s) \<and>
     length (pc_batch (b_pc s)) \<le> b_taken s \<and>
     pc_batch (b_pc s) = segment (b_taken s - length (pc_batch (b_pc s))) (b_taken s) (b_published s) \<and>
     b_seq s = length (b_published s) + 1"

definition subs_inv :: "'e trace_bus \<Rightarrow> bool" where
  "subs_inv s \<longleftrightarrow> distinct (map s_id (b_subs s)) \<and> distinct (pc_ids (b_pc s)) \<and>
     (\<forall>i \<in> set (pc_ids (b_pc s)). i < b_nextId s) \<and>
     (\<forall>x \<in> set (b_subs s). sub_ok s x) \<and> (\<forall>x \<in> set (b_gone s). gone_ok s x) \<and>
     (b_subs s \<noteq> [] \<longrightarrow> b_hasSubscription s) \<and>
     b_lastObserved s \<le> b_taken s + (if b_pc s = B_asleep \<or> b_pc s = B_woken then length (b_writeBuffer s) else 0) + 1"

text \<open>
  The condition variables: a sleeping thread with something to do is about to be notified;
  publishers only sleep while the buffer is full or the full buffer has just been taken.
\<close>

definition wakeup_inv :: "nat \<Rightarrow> 'e trace_bus \<Rightarrow> bool" where
  "wakeup_inv capacity s \<longleftrightarrow> 0 < capacity \<and> length (b_writeBuffer s) \<le> capacity \<and>
     (b_pc s = B_asleep \<and> (b_done s \<or> b_writeBuffer s \<noteq> []) \<longrightarrow> b_notifies s > 0) \<and>
     (b_blocked s \<noteq> [] \<longrightarrow> length (b_writeBuffer s) = capacity \<or>
        (\<exists>batch ids d. b_pc s = B_taken batch ids d \<and> length batch = capacity)) \<and>
     (b_done s \<longrightarrow> b_blocked s = [] \<and> b_woken s = []) \<and>
     (pc_done (b_pc s) \<longrightarrow> b_done s \<and> b_writeBuffer s = [])"

definition bus_inv :: "nat \<Rightarrow> 'e trace_bus \<Rightarrow> bool" where
  "bus_inv capacity s \<longleftrightarrow> history_inv s \<and> subs_inv s \<and> wakeup_inv capacity s"


lemma segment_append [simp]: "n \<le> length xs \<Longrightarrow> segment m n (xs @ ys) = segment m n xs"
  by (simp add: segment_def)

lemma segment_join:
  "m \<le> n \<Longrightarrow> n \<le> k \<Longrightarrow> segment m n xs @ segment n k xs = segment m k xs"
proof -
  assume le: "m \<le> n" "n \<le> k"
  have split: "take k xs = take n xs @ drop n (take k xs)"
    using le(2) by (metis append_take_drop_id min.absorb1 take_take)
  have "drop (m - length (take n xs)) (drop n (take k xs)) = drop n (take k xs)"
    using le(1) by (cases "n \<le> length xs") auto
  then have "drop m (take n xs @ drop n (take k xs)) = drop m (take n xs) @ drop n (take k xs)" by (simp del: drop_drop)
  then show ?thesis unfolding segment_def by (metis split)
qed

lemma length_segment: "n \<le> length xs \<Longrightarrow> length (segment m n xs) = n - m"
  by (simp add: segment_def)

lemma observeBatch_prefix:
  "fst (observeBatch throws k es) = take (length (fst (observeBatch throws k es))) es"
  "\<not> snd (observeBatch throws k es) \<Longrightarrow> fst (observeBatch throws k es) = es"
  by (induction es arbitrary: k) (auto simp: Let_def split: if_splits)

lemma seen_ok_append:
  assumes "seen_ok xs n sub" "n \<le> length xs"
  shows "seen_ok (xs @ ys) n sub"
proof -
  obtain m where m: "s_from sub \<le> m" "m \<le> n" "\<not> s_hasThrown sub \<longrightarrow> m = n" "s_seen sub = segment (s_from sub) m xs"
    using assms(1) by (auto simp: seen_ok_def)
  then have "s_seen sub = segment (s_from sub) m (xs @ ys)" using assms(2) by simp
  then show ?thesis using m unfolding seen_ok_def by blast
qed

lemma seen_ok_fields:
  "s_from y = s_from x \<Longrightarrow> s_seen y = s_seen x \<Longrightarrow> s_hasThrown y = s_hasThrown x \<Longrightarrow> seen_ok xs n y = seen_ok xs n x"
  by (simp add: seen_ok_def)

lemma deliver_seen:
  assumes ok: "seen_ok xs n sub" and n: "n \<le> length xs" and k: "n + length batch \<le> length xs"
    and batch: "batch = segment n (n + length batch) xs"
  shows "seen_ok xs (n + length batch) (deliver batch throws sub)"
proof (cases "s_hasThrown sub")
  case True
  then show ?thesis using ok by (auto simp: seen_ok_def deliver_def intro: trans_le_add1)
next
  case False
  let ?r = "fst (observeBatch throws 0 batch)"
  have seen: "s_seen sub = segment (s_from sub) n xs" "s_from sub \<le> n" using ok False by (auto simp: seen_ok_def)
  have pre: "?r = take (length ?r) batch" by (rule observeBatch_prefix)
  then have le: "length ?r \<le> length batch" by (metis length_take min.cobounded2 min.commute)
  have "take (length ?r) (segment n (n + length batch) xs) = segment n (n + length ?r) xs"
    unfolding segment_def using le by (simp add: take_drop take_take min.absorb1 add.commute)
  then have r: "?r = segment n (n + length ?r) xs" using pre batch by metis
  have "s_seen sub @ ?r = segment (s_from sub) (n + length ?r) xs"
    using segment_join [of "s_from sub" n "n + length ?r" xs] seen r by simp
  moreover have "length ?r = length batch" if "\<not> snd (observeBatch throws 0 batch)"
    using observeBatch_prefix(2) [OF that] by simp
  ultimately show ?thesis unfolding seen_ok_def using False seen(2) le
    by (intro exI [of _ "n + length ?r"]) (auto simp: deliver_def Let_def)
qed

lemma bus_invD:
  assumes "bus_inv capacity s"
  shows "history_inv s" "subs_inv s" "wakeup_inv capacity s"
  using assms by (simp_all add: bus_inv_def)

text \<open>Steps that leave the history, the list of subscriptions and the thread where they are.\<close>

lemma same_view:
  assumes "b_published s' = b_published s" "b_taken s' = b_taken s" "b_writeBuffer s' = b_writeBuffer s"
    "b_pc s' = b_pc s" "b_seq s' = b_seq s" "b_subs s' = b_subs s" "b_gone s' = b_gone s"
    "b_hasSubscription s' = b_hasSubscription s" "b_lastObserved s' = b_lastObserved s" "b_nextId s' = b_nextId s"
  shows "history_inv s' = history_inv s" "subs_inv s' = subs_inv s"
  using assms by (simp_all add: history_inv_def subs_inv_def sub_ok_def gone_ok_def observed_upto_def)

lemma observed_le: "observed_upto s x \<le> b_taken s"
  by (simp add: observed_upto_def)

lemma append_event_fields [simp]:
  "b_published (append_event e s) = b_published s @ [e]" "b_taken (append_event e s) = b_taken s"
  "b_writeBuffer (append_event e s) = b_writeBuffer s @ [e]" "b_pc (append_event e s) = b_pc s"
  "b_seq (append_event e s) = b_seq s + 1" "b_subs (append_event e s) = b_subs s"
  "b_gone (append_event e s) = b_gone s" "b_hasSubscription (append_event e s) = b_hasSubscription s"
  "b_lastObserved (append_event e s) = b_lastObserved s" "b_nextId (append_event e s) = b_nextId s"
  "b_done (append_event e s) = b_done s" "b_blocked (append_event e s) = b_blocked s"
  "b_woken (append_event e s) = b_woken s"
  "b_notifies (append_event e s) = (if b_writeBuffer s = [] then b_notifies s + 1 else b_notifies s)"
  by (simp_all add: append_event_def Let_def)

lemma append_event_inv:
  assumes inv: "bus_inv capacity s" and room: "length (b_writeBuffer s) < capacity" and nd: "\<not> b_done s"
  shows "bus_inv capacity (append_event e s)"
proof -
  note h = bus_invD(1) [OF inv] and sb = bus_invD(2) [OF inv] and w = bus_invD(3) [OF inv]
  have len: "b_taken s \<le> length (b_published s)" using h by (simp add: history_inv_def)
  have obs: "observed_upto (append_event e s) x = observed_upto s x" for x by (simp add: observed_upto_def)
  have up: "observed_upto s x \<le> length (b_published s)" for x using observed_le len by (rule order_trans)
  have "history_inv (append_event e s)"
    using h len by (auto simp: history_inv_def)
  moreover have "subs_inv (append_event e s)"
  proof -
    have "sub_ok (append_event e s) x" if "sub_ok s x" for x
      using that seen_ok_append [OF _ up [of x]] by (auto simp: sub_ok_def obs)
    moreover have "gone_ok (append_event e s) x" if g: "gone_ok s x" for x
    proof -
      obtain n where n: "n \<le> b_taken s" "s_unsubscribe x \<le> n + 1" "seen_ok (b_published s) n x"
        using g by (auto simp: gone_ok_def)
      then show ?thesis using len unfolding gone_ok_def by (intro exI [of _ n]) (auto intro: seen_ok_append)
    qed
    ultimately show ?thesis using sb by (auto simp: subs_inv_def)
  qed
  moreover have "wakeup_inv capacity (append_event e s)"
    using w room nd by (auto simp: wakeup_inv_def)
  ultimately show ?thesis by (simp add: bus_inv_def)
qed

lemma publish_inv:
  assumes inv: "bus_inv capacity s" and eq: "publish capacity e s = Inr s'"
  shows "bus_inv capacity s'"
proof (cases "length (b_writeBuffer s) = capacity")
  case True
  then have nd: "\<not> b_done s" and s': "s' = s\<lparr>b_blocked := b_blocked s @ [e]\<rparr>"
    using eq by (auto simp: publish_def split: if_splits)
  have "wakeup_inv capacity s'" using bus_invD(3) [OF inv] True nd by (auto simp: wakeup_inv_def s')
  then show ?thesis using bus_invD(1,2) [OF inv] same_view [of s' s] by (simp add: bus_inv_def s')
next
  case False
  then have nd: "\<not> b_done s" and s': "s' = append_event e s" using eq by (auto simp: publish_def split: if_splits)
  have "length (b_writeBuffer s) < capacity" using False bus_invD(3) [OF inv] by (simp add: wakeup_inv_def)
  then show ?thesis unfolding s' by (rule append_event_inv [OF inv _ nd])
qed

lemma blocked_queues_inv:
  assumes "bus_inv capacity s" "\<not> b_done s"
    "bl = [] \<or> b_blocked s \<noteq> [] \<or> length (b_writeBuffer s) = capacity"
  shows "bus_inv capacity (s\<lparr>b_blocked := bl, b_woken := wk\<rparr>)"
proof -
  have "wakeup_inv capacity (s\<lparr>b_blocked := bl, b_woken := wk\<rparr>)"
    using bus_invD(3) [OF assms(1)] assms(2,3) by (auto simp: wakeup_inv_def)
  then show ?thesis using bus_invD(1,2) [OF assms(1)] same_view [of "s\<lparr>b_blocked := bl, b_woken := wk\<rparr>" s]
    by (simp add: bus_inv_def)
qed

lemma publish_woken_inv:
  assumes inv: "bus_inv capacity s" and wk: "b_woken s \<noteq> []"
  shows "bus_inv capacity (publish_woken capacity s)"
proof -
  obtain e es where e: "b_woken s = e # es" using wk by (cases "b_woken s") auto
  have nd: "\<not> b_done s" using bus_invD(3) [OF inv] wk by (auto simp: wakeup_inv_def)
  show ?thesis
  proof (cases "length (b_writeBuffer s) < capacity")
    case True
    have "bus_inv capacity (s\<lparr>b_blocked := b_blocked s, b_woken := es\<rparr>)" by (rule blocked_queues_inv [OF inv nd]) auto
    then have "bus_inv capacity (s\<lparr>b_woken := es\<rparr>)" by simp
    then show ?thesis using True nd by (simp add: publish_woken_def e append_event_inv)
  next
    case False
    then have "length (b_writeBuffer s) = capacity" using bus_invD(3) [OF inv] by (simp add: wakeup_inv_def)
    then have "bus_inv capacity (s\<lparr>b_blocked := b_blocked s @ [e], b_woken := es\<rparr>)" by (intro blocked_queues_inv [OF inv nd]) simp
    then show ?thesis using False by (simp add: publish_woken_def e)
  qed
qed


lemma subscribe_inv:
  assumes inv: "bus_inv capacity s"
  shows "bus_inv capacity (snd (subscribe s))"
proof -
  note h = bus_invD(1) [OF inv] and sb = bus_invD(2) [OF inv] and w = bus_invD(3) [OF inv]
  define s' where "s' = snd (subscribe s)"
  have f: "b_published s' = b_published s" "b_taken s' = b_taken s" "b_pc s' = b_pc s" "b_seq s' = b_seq s"
    "b_writeBuffer s' = b_writeBuffer s" "b_nextId s' = b_nextId s + 1" "b_gone s' = b_gone s"
    "b_subs s' = \<lparr>s_id = b_nextId s, s_hasThrown = False, s_unsubscribe = 0, s_from = b_taken s, s_seen = []\<rparr> # b_subs s"
    "b_hasSubscription s'" "b_lastObserved s' = b_lastObserved s"
    by (simp_all add: s'_def subscribe_def Let_def)
  have obs: "observed_upto s' x = observed_upto s x" for x by (simp add: observed_upto_def f)
  have ids: "\<forall>i \<in> set (pc_ids (b_pc s)). i < b_nextId s"
    using sb by (simp add: subs_inv_def)
  have "sub_ok s' x" if "sub_ok s x" for x using that by (auto simp: sub_ok_def obs f)
  moreover have "sub_ok s' \<lparr>s_id = b_nextId s, s_hasThrown = False, s_unsubscribe = 0, s_from = b_taken s, s_seen = []\<rparr>"
    using ids h by (auto simp: sub_ok_def observed_upto_def f seen_ok_def segment_def history_inv_def)
  moreover have "gone_ok s' x = gone_ok s x" for x by (simp add: gone_ok_def f)
  moreover have "b_nextId s \<notin> s_id ` set (b_subs s)" using sb by (auto simp: subs_inv_def sub_ok_def)
  moreover have "i < b_nextId s + 1" if "i \<in> set (pc_ids (b_pc s))" for i using that ids by auto
  ultimately have "subs_inv s'" using sb f(9) unfolding subs_inv_def f by simp
  moreover have "history_inv s'" using h by (simp add: history_inv_def f)
  moreover have "wakeup_inv capacity s'" using w by (simp add: wakeup_inv_def s'_def subscribe_def Let_def)
  ultimately show ?thesis by (simp add: bus_inv_def s'_def)
qed


lemma update_sub_facts [simp]:
  "(\<And>x. s_id (f x) = s_id x) \<Longrightarrow> map s_id (update_sub i f xs) = map s_id xs"
  "update_sub i f xs = [] \<longleftrightarrow> xs = []"
  by (auto simp: update_sub_def)

lemma update_sub_ball:
  "(\<forall>x \<in> set (update_sub i f xs). P x) \<longleftrightarrow> (\<forall>x \<in> set xs. P (if s_id x = i then f x else x))"
  by (auto simp: update_sub_def)

lemma unsubscribe_inv:
  assumes inv: "bus_inv capacity s"
  shows "bus_inv capacity (unsubscribe i s)"
proof -
  note h = bus_invD(1) [OF inv] and sb = bus_invD(2) [OF inv] and w = bus_invD(3) [OF inv]
  define s' where "s' = unsubscribe i s"
  have f: "b_published s' = b_published s" "b_taken s' = b_taken s" "b_pc s' = b_pc s" "b_seq s' = b_seq s"
    "b_writeBuffer s' = b_writeBuffer s" "b_nextId s' = b_nextId s" "b_gone s' = b_gone s"
    "b_subs s' = update_sub i (\<lambda>x. x\<lparr>s_unsubscribe := b_seq s\<rparr>) (b_subs s)"
    "b_hasSubscription s' = b_hasSubscription s" "b_lastObserved s' = b_lastObserved s"
    by (simp_all add: s'_def unsubscribe_def)
  have obs: "observed_upto s' x = observed_upto s x" for x by (simp add: observed_upto_def f)
  have "sub_ok s' (if s_id x = i then x\<lparr>s_unsubscribe := b_seq s\<rparr> else x)" if "sub_ok s x" for x
    using that seen_ok_fields [of "x\<lparr>s_unsubscribe := b_seq s\<rparr>" x] by (auto simp: sub_ok_def obs f) (auto simp: observed_upto_def)
  moreover have "gone_ok s' x = gone_ok s x" for x by (simp add: gone_ok_def f)
  ultimately have "subs_inv s'" using sb by (auto simp: subs_inv_def f update_sub_ball)
  moreover have "history_inv s'" using h by (simp add: history_inv_def f)
  moreover have "wakeup_inv capacity s'" using w by (simp add: wakeup_inv_def s'_def unsubscribe_def)
  ultimately show ?thesis by (simp add: bus_inv_def s'_def)
qed

text \<open>The thread changes between sleeping and waking up.\<close>

lemma woken_inv:
  assumes inv: "bus_inv capacity s" and pc: "b_pc s = B_asleep"
  shows "bus_inv capacity (s\<lparr>b_notifies := n, b_pc := B_woken\<rparr>)"
  using inv pc
  by (auto simp: bus_inv_def history_inv_def subs_inv_def sub_ok_def gone_ok_def observed_upto_def wakeup_inv_def)

lemma notify_inv:
  assumes inv: "bus_inv capacity s" and n: "b_notifies s > 0"
  shows "bus_inv capacity (notify_empty s)"
proof (cases "b_pc s = B_asleep")
  case True
  then show ?thesis using woken_inv [OF inv True] by (simp add: notify_empty_def)
next
  case False
  then have eq: "notify_empty s = s\<lparr>b_notifies := b_notifies s - 1\<rparr>"
    by (cases s) (simp add: notify_empty_def split: bus_pc.splits)
  have "wakeup_inv capacity (notify_empty s)" using bus_invD(3) [OF inv] False by (simp add: wakeup_inv_def eq)
  then show ?thesis using bus_invD(1,2) [OF inv] same_view [of "notify_empty s" s] by (simp add: bus_inv_def eq)
qed

lemma destroy_bus_inv:
  assumes inv: "bus_inv capacity s" and "\<not> b_done s" "b_blocked s = []" "b_woken s = []"
  shows "bus_inv capacity (destroy_bus s)"
proof -
  have "wakeup_inv capacity (destroy_bus s)"
    using bus_invD(3) [OF inv] assms(2-4) by (auto simp: wakeup_inv_def destroy_bus_def)
  then show ?thesis using bus_invD(1,2) [OF inv] same_view [of "destroy_bus s" s] by (simp add: bus_inv_def destroy_bus_def)
qed

lemma take_batch_inv:
  assumes inv: "bus_inv capacity s" and at: "b_pc s = B_woken"
    and last: "b_lastObserved s \<le> b_seq s"
  shows "bus_inv capacity (take_batch s)"
proof (cases "b_done s \<or> b_writeBuffer s \<noteq> []")
  case False
  then have eq: "take_batch s = s\<lparr>b_pc := B_asleep\<rparr>" by (simp add: take_batch_def)
  show ?thesis using inv at False
    by (auto simp: eq bus_inv_def history_inv_def subs_inv_def sub_ok_def gone_ok_def observed_upto_def wakeup_inv_def
        split: if_splits)
next
  case True
  have pc: "pc_batch (b_pc s) = []" "pc_ids (b_pc s) = []" using at by simp_all
  note h = bus_invD(1) [OF inv] and sb = bus_invD(2) [OF inv] and w = bus_invD(3) [OF inv]
  let ?buf = "b_writeBuffer s"
  define s' where "s' = take_batch s"
  have f: "b_pc s' = B_taken ?buf (map s_id (b_subs s)) (b_done s)" "b_writeBuffer s' = []"
    "b_taken s' = b_taken s + length ?buf" "b_published s' = b_published s" "b_seq s' = b_seq s"
    "b_subs s' = b_subs s" "b_gone s' = b_gone s" "b_nextId s' = b_nextId s" "b_lastObserved s' = b_lastObserved s"
    "b_hasSubscription s' = b_hasSubscription s" "b_blocked s' = b_blocked s" "b_woken s' = b_woken s" "b_done s' = b_done s"
    using True by (simp_all add: s'_def take_batch_def)
  have pub: "b_published s = take (b_taken s) (b_published s) @ ?buf" and len: "b_taken s \<le> length (b_published s)"
    and seq: "b_seq s = length (b_published s) + 1" using h by (auto simp: history_inv_def)
  have all: "b_taken s + length ?buf = length (b_published s)"
    using arg_cong [OF pub, of length] len by simp
  have buf: "?buf = segment (b_taken s) (length (b_published s)) (b_published s)"
    unfolding segment_def using arg_cong [OF pub, of "drop (b_taken s)"] len by simp
  have less: "length (b_published s) - length ?buf = b_taken s" using all by linarith
  have "history_inv s'" unfolding history_inv_def f pc_batch.simps all less using buf seq all by (metis append_Nil2 le_add2 order_refl take_all)
  moreover have "subs_inv s'"
  proof -
    have obs: "observed_upto s x = b_taken s" for x using pc by (simp add: observed_upto_def)
    have "observed_upto s' x = b_taken s" if "x \<in> set (b_subs s)" for x
      using that by (simp add: observed_upto_def f)
    then have "sub_ok s' x" if "x \<in> set (b_subs s)" for x
      using that sb by (auto simp: subs_inv_def sub_ok_def obs f)
    moreover have "gone_ok s' x" if "gone_ok s x" for x
      using that unfolding gone_ok_def f by (meson trans_le_add1)
    moreover have "s_id x < b_nextId s" if "x \<in> set (b_subs s)" for x using that sb by (auto simp: subs_inv_def sub_ok_def)
    ultimately show ?thesis using sb last seq all by (auto simp: subs_inv_def f)
  qed
  moreover have "wakeup_inv capacity s'" using w True at by (auto simp: wakeup_inv_def f)
  ultimately show ?thesis by (simp add: bus_inv_def s'_def)
qed


text \<open>The top of the loop: subscriptions are deleted once they have seen what they had to.\<close>

lemma loop_top_inv:
  assumes inv: "bus_inv capacity s" and pc: "b_pc s = B_top"
  shows "bus_inv capacity (loop_top s)"
proof -
  note h = bus_invD(1) [OF inv] and sb = bus_invD(2) [OF inv] and w = bus_invD(3) [OF inv]
  let ?un = "unlinked (b_lastObserved s)"
  define s1 where "s1 = s\<lparr>b_subs := filter (\<lambda>x. \<not> ?un x) (b_subs s), b_gone := b_gone s @ filter ?un (b_subs s),
    b_lastObserved := b_seq s,
    b_hasSubscription := (if filter (\<lambda>x. \<not> ?un x) (b_subs s) = [] then False else b_hasSubscription s),
    b_pc := B_woken\<rparr>"
  have eq: "loop_top s = take_batch s1" by (simp add: loop_top_def s1_def take_batch_def Let_def)
  have obs: "observed_upto s x = b_taken s" "observed_upto s1 x = b_taken s" for x
    by (simp_all add: observed_upto_def pc s1_def)
  have pub: "b_published s = take (b_taken s) (b_published s) @ b_writeBuffer s" and len: "b_taken s \<le> length (b_published s)"
    and seq: "b_seq s = length (b_published s) + 1" using h by (auto simp: history_inv_def)
  have all: "b_taken s + length (b_writeBuffer s) = length (b_published s)"
    using arg_cong [OF pub, of length] len by simp
  have last: "b_lastObserved s \<le> b_taken s + 1" using sb pc by (simp add: subs_inv_def)
  have "gone_ok s1 x" if "x \<in> set (b_subs s)" "?un x" for x
  proof -
    have "sub_ok s x" using that(1) sb by (simp add: subs_inv_def)
    then show ?thesis unfolding gone_ok_def using that(2) last
      by (intro exI [of _ "b_taken s"]) (auto simp: s1_def sub_ok_def obs unlinked_def)
  qed
  moreover have "gone_ok s1 x = gone_ok s x" for x by (simp add: gone_ok_def s1_def)
  moreover have "sub_ok s1 x = sub_ok s x" for x by (simp add: sub_ok_def obs) (simp add: s1_def)
  ultimately have "subs_inv s1" using sb pc seq all
    by (auto simp: subs_inv_def s1_def distinct_map_filter filter_empty_conv)
  moreover have "history_inv s1" using h pc by (simp add: history_inv_def s1_def)
  moreover have "wakeup_inv capacity s1" using w pc by (auto simp: wakeup_inv_def s1_def)
  ultimately have "bus_inv capacity s1" by (simp add: bus_inv_def)
  then show ?thesis unfolding eq by (rule take_batch_inv) (simp_all add: s1_def)
qed

lemma taken_inv:
  assumes inv: "bus_inv capacity s" and pc: "b_pc s = B_taken batch ids d"
    and eq: "thread_step capacity throws s (b_pc s) = Some s'"
  shows "bus_inv capacity s'"
proof -
  have f: "b_pc s' = B_deliver batch ids d" "b_writeBuffer s' = b_writeBuffer s" "b_published s' = b_published s"
    "b_taken s' = b_taken s" "b_seq s' = b_seq s" "b_subs s' = b_subs s" "b_gone s' = b_gone s" "b_nextId s' = b_nextId s"
    "b_lastObserved s' = b_lastObserved s" "b_hasSubscription s' = b_hasSubscription s" "b_done s' = b_done s"
    using eq by (auto simp: pc Let_def split: if_splits)
  have q: "if length batch = capacity then b_blocked s' = [] \<and> b_woken s' = b_woken s @ b_blocked s
    else b_blocked s' = b_blocked s \<and> b_woken s' = b_woken s"
    using eq by (auto simp: pc Let_def)
  have obs: "observed_upto s' x = observed_upto s x" for x by (simp add: observed_upto_def f pc)
  have "sub_ok s' x = sub_ok s x" "gone_ok s' x = gone_ok s x" for x by (simp_all add: sub_ok_def gone_ok_def obs f)
  then have "history_inv s'" "subs_inv s'"
    using bus_invD(1,2) [OF inv] pc by (simp_all add: history_inv_def subs_inv_def f)
  moreover have "wakeup_inv capacity s'" using bus_invD(3) [OF inv] pc q by (auto simp: wakeup_inv_def f split: if_splits)
  ultimately show ?thesis by (simp add: bus_inv_def)
qed

text \<open>A subscriber observes the batch: its history grows up to what has been taken.\<close>

lemma deliver_inv:
  assumes inv: "bus_inv capacity s" and pc: "b_pc s = B_deliver batch (i # ids) d"
  shows "bus_inv capacity (s\<lparr>b_subs := update_sub i (deliver batch throws) (b_subs s), b_pc := B_deliver batch ids d\<rparr>)"
    (is "bus_inv capacity ?s'")
proof -
  note h = bus_invD(1) [OF inv] and sb = bus_invD(2) [OF inv] and w = bus_invD(3) [OF inv]
  have len: "length batch \<le> b_taken s" and seg: "batch = segment (b_taken s - length batch) (b_taken s) (b_published s)"
    and top: "b_taken s \<le> length (b_published s)"
    using h pc by (simp_all add: history_inv_def)
  have ni: "i \<notin> set ids" using sb pc by (simp add: subs_inv_def)
  have obs: "observed_upto ?s' y = (if s_id x = i then b_taken s else observed_upto s x)" if "s_id y = s_id x" for x y
    using that ni by (auto simp: observed_upto_def pc)
  have id: "s_id (deliver batch throws x) = s_id x" for x by (simp add: deliver_def Let_def)
  have "sub_ok ?s' (if s_id x = i then deliver batch throws x else x)" if ok: "sub_ok s x" for x
  proof (cases "s_id x = i")
    case True
    have o1: "observed_upto s x = b_taken s - length batch" using True by (simp add: observed_upto_def pc)
    have o2: "observed_upto ?s' (deliver batch throws x) = b_taken s" using obs [OF id] True by simp
    have "seen_ok (b_published s) (b_taken s - length batch + length batch) (deliver batch throws x)"
      using ok len seg top by (intro deliver_seen) (simp_all add: sub_ok_def o1)
    then have "seen_ok (b_published s) (b_taken s) (deliver batch throws x)" using len by simp
    moreover have "s_unsubscribe (deliver batch throws x) = s_unsubscribe x" by (simp add: deliver_def Let_def)
    ultimately show ?thesis using ok True o2 by (simp add: sub_ok_def id)
  next
    case False
    then show ?thesis using ok obs [of x x] by (auto simp: sub_ok_def)
  qed
  moreover have "gone_ok ?s' x = gone_ok s x" for x by (simp add: gone_ok_def)
  ultimately have "subs_inv ?s'" using sb pc by (auto simp: subs_inv_def update_sub_ball id)
  moreover have "history_inv ?s'" using h pc by (simp add: history_inv_def)
  moreover have "wakeup_inv capacity ?s'" using w pc by (simp add: wakeup_inv_def)
  ultimately show ?thesis by (simp add: bus_inv_def)
qed

lemma deliver_end_inv:
  assumes inv: "bus_inv capacity s" and pc: "b_pc s = B_deliver batch [] d"
  shows "bus_inv capacity (s\<lparr>b_pc := (if d then B_exit else B_top)\<rparr>)"
    (is "bus_inv capacity ?s'")
proof -
  have obs: "observed_upto ?s' x = observed_upto s x" for x by (simp add: observed_upto_def pc)
  have "sub_ok ?s' x = sub_ok s x" "gone_ok ?s' x = gone_ok s x" for x by (simp_all add: sub_ok_def gone_ok_def obs)
  then have "subs_inv ?s'" using bus_invD(2) [OF inv] pc by (simp add: subs_inv_def)
  moreover have "history_inv ?s'" using bus_invD(1) [OF inv] pc by (simp add: history_inv_def segment_def)
  moreover have "wakeup_inv capacity ?s'" using bus_invD(3) [OF inv] pc by (auto simp: wakeup_inv_def)
  ultimately show ?thesis by (simp add: bus_inv_def)
qed

lemma thread_step_inv:
  assumes inv: "bus_inv capacity s" and eq: "thread_step capacity throws s (b_pc s) = Some s'"
  shows "bus_inv capacity s'"
proof (cases "b_pc s")
  case B_top
  then show ?thesis using eq loop_top_inv [OF inv] by simp
next
  case B_woken
  have "b_lastObserved s \<le> b_seq s"
  proof -
    have h: "history_inv s" and sb: "subs_inv s" using bus_invD [OF inv] by simp_all
    have "b_published s = take (b_taken s) (b_published s) @ b_writeBuffer s" "b_taken s \<le> length (b_published s)"
      and seq: "b_seq s = length (b_published s) + 1" using h by (simp_all add: history_inv_def)
    then have "length (b_published s) = b_taken s + length (b_writeBuffer s)"
      by (metis length_append length_take min.absorb2)
    then have "b_taken s + length (b_writeBuffer s) + 1 = b_seq s" using seq by (simp only:)
    then show ?thesis using sb B_woken by (simp add: subs_inv_def)
  qed
  then show ?thesis using eq B_woken take_batch_inv [OF inv] by simp
next
  case (B_taken batch ids d)
  then show ?thesis using taken_inv [OF inv _ eq] by simp
next
  case (B_deliver batch ids d)
  show ?thesis
  proof (cases ids)
    case Nil
    then have pc: "b_pc s = B_deliver batch [] d" using B_deliver by simp
    then have "s' = s\<lparr>b_pc := (if d then B_exit else B_top)\<rparr>" using eq by simp
    then show ?thesis using deliver_end_inv [OF inv pc] by (simp only:)
  next
    case (Cons i rest)
    then have pc: "b_pc s = B_deliver batch (i # rest) d" using B_deliver by simp
    then have "s' = s\<lparr>b_subs := update_sub i (deliver batch throws) (b_subs s), b_pc := B_deliver batch rest d\<rparr>" using eq by simp
    then show ?thesis using deliver_inv [OF inv pc] by (simp only:)
  qed
qed (use eq in simp_all)

lemma bus_internal_inv:
  assumes "bus_internal capacity s t" "bus_inv capacity s"
  shows "bus_inv capacity t"
  using assms
proof (induction rule: bus_internal.induct)
  case (step_spurious_publisher s es e fs)
  then have nd: "\<not> b_done s" by (auto simp: bus_inv_def wakeup_inv_def)
  show ?case by (rule blocked_queues_inv [OF step_spurious_publisher(2) nd]) (simp add: step_spurious_publisher(1))
next
  case (step_spurious_thread s)
  then show ?case using woken_inv [of capacity s "b_notifies s"] by simp
qed (auto intro: publish_inv publish_woken_inv notify_inv thread_step_inv destroy_bus_inv)

interpretation bus_system: invariant_system "bus_init capacity" "bus_step capacity" "bus_inv capacity" for capacity
proof
  show "bus_inv capacity s" if "bus_init capacity s" for s :: "'e trace_bus"
    using that by (auto simp: bus_init_def TraceBus_def bus_inv_def history_inv_def subs_inv_def wakeup_inv_def segment_def)
  show "bus_inv capacity t" if "bus_step capacity s t" "bus_inv capacity s" for s t :: "'e trace_bus"
    using that by (induction rule: bus_step.induct) (auto intro: bus_internal_inv subscribe_inv unsubscribe_inv)
qed

section \<open>The destructor\<close>

text \<open>
  What the destructor waits for: the thread runs, and the notification that is due wakes it up
  when it sleeps.  \<open>drain_rank\<close> bounds the steps until the thread has returned.
\<close>

definition drain_step :: "nat \<Rightarrow> (nat \<Rightarrow> bool) \<Rightarrow> 'e trace_bus \<Rightarrow> 'e trace_bus" where
  "drain_step capacity throws s =
     (case thread_step capacity throws s (b_pc s) of
        Some s' \<Rightarrow> s'
      | None \<Rightarrow> if 0 < b_notifies s then notify_empty s else s)"

fun pc_rank :: "nat \<Rightarrow> 'e bus_pc \<Rightarrow> nat" where
  "pc_rank n B_exit = 0"
| "pc_rank n (B_deliver batch ids d) = (if d then length ids + 1 else length ids + n + 5)"
| "pc_rank n (B_taken batch ids d) = (if d then length ids + 2 else length ids + n + 6)"
| "pc_rank n B_woken = n + 3"
| "pc_rank n B_top = n + 3"
| "pc_rank n B_asleep = n + 4"

definition drain_rank :: "'e trace_bus \<Rightarrow> nat" where
  "drain_rank s = pc_rank (length (b_subs s)) (b_pc s)"

lemma thread_step_None: "thread_step capacity throws s pc = None \<longleftrightarrow> pc = B_asleep \<or> pc = B_exit"
proof (cases pc)
  case (B_deliver batch ids d)
  then show ?thesis by (cases ids) auto
qed auto

lemma drain_reachable:
  assumes "reachable (bus_init capacity) (bus_step capacity) s"
  shows "reachable (bus_init capacity) (bus_step capacity) (drain_step capacity throws s)"
proof (cases "thread_step capacity throws s (b_pc s)")
  case None
  then show ?thesis using assms by (auto simp: drain_step_def intro: reach_step step_internal step_notify)
next
  case (Some s')
  then show ?thesis using assms by (auto simp: drain_step_def intro: reach_step step_internal step_thread)
qed

lemma drain_steps: "(bus_step capacity)\<^sup>*\<^sup>* s ((drain_step capacity throws ^^ n) s)"
proof (induction n)
  case (Suc n)
  have "(bus_step capacity)\<^sup>*\<^sup>* t (drain_step capacity throws t)" for t :: "'a trace_bus"
    by (auto simp: drain_step_def split: option.splits intro: step_internal step_thread step_notify)
  then show ?case using Suc by (auto intro: rtranclp_trans)
qed simp

lemma take_batch_done:
  assumes "b_done s"
  shows "take_batch s = s\<lparr>b_pc := B_taken (b_writeBuffer s) (map s_id (b_subs s)) True, b_writeBuffer := [],
    b_taken := b_taken s + length (b_writeBuffer s)\<rparr>"
  using assms by (simp add: take_batch_def)

lemma thread_step_done:
  assumes d: "b_done s" and eq: "thread_step capacity throws s (b_pc s) = Some s'"
  shows "b_done s' \<and> drain_rank s' < drain_rank s"
proof (cases "b_pc s")
  case B_top
  have "length (filter P (b_subs s)) < length (b_subs s) + 1" for P
    using length_filter_le [of P "b_subs s"] by (simp add: le_imp_less_Suc)
  then show ?thesis using eq B_top d by (auto simp: loop_top_def Let_def take_batch_done drain_rank_def)
next
  case (B_taken batch ids dn)
  then show ?thesis using eq d by (auto simp: drain_rank_def Let_def split: if_splits)
next
  case (B_deliver batch ids dn)
  then show ?thesis using eq d by (cases ids) (auto simp: drain_rank_def update_sub_def)
qed (use eq d in \<open>auto simp: take_batch_done drain_rank_def\<close>)

lemma drain_step_done:
  assumes r: "reachable (bus_init capacity) (bus_step capacity) s" and d: "b_done s" and pc: "b_pc s \<noteq> B_exit"
  shows "b_done (drain_step capacity throws s) \<and> drain_rank (drain_step capacity throws s) < drain_rank s"
proof (cases "thread_step capacity throws s (b_pc s)")
  case None
  then have "b_pc s = B_asleep" using pc by (simp add: thread_step_None)
  moreover have "0 < b_notifies s"
    using bus_system.reachable_inv [OF r] d calculation by (simp add: bus_inv_def wakeup_inv_def)
  ultimately show ?thesis using d by (simp add: drain_step_def notify_empty_def drain_rank_def)
next
  case (Some s')
  then show ?thesis using thread_step_done [OF d Some] by (simp add: drain_step_def)
qed

lemma drain_exits:
  assumes "reachable (bus_init capacity) (bus_step capacity) s" "b_done s" "drain_rank s \<le> n"
  shows "b_pc ((drain_step capacity throws ^^ n) s) = B_exit \<and>
    reachable (bus_init capacity) (bus_step capacity) ((drain_step capacity throws ^^ n) s)"
  using assms
proof (induction n arbitrary: s)
  case 0
  then show ?case by (cases "b_pc s") (auto simp: drain_rank_def split: if_splits)
next
  case (Suc n)
  let ?t = "drain_step capacity throws s"
  have r: "reachable (bus_init capacity) (bus_step capacity) ?t" using Suc.prems(1) by (rule drain_reachable)
  have "b_done ?t \<and> drain_rank ?t \<le> n"
  proof (cases "b_pc s = B_exit")
    case True
    then have "drain_rank ?t = 0 \<and> b_done ?t" using Suc.prems(2)
      by (simp add: drain_step_def notify_empty_def drain_rank_def)
    then show ?thesis by simp
  next
    case False
    then show ?thesis using drain_step_done [OF Suc.prems(1,2) False, of throws] Suc.prems(3) by simp
  qed
  then show ?case using Suc.IH [OF r] by (simp add: funpow_swap1)
qed

lemma exit_observed:
  assumes "bus_inv capacity s" "b_pc s = B_exit"
  shows "b_writeBuffer s = [] \<and> b_taken s = length (b_published s)"
proof -
  have "b_writeBuffer s = []" using assms by (simp add: bus_inv_def wakeup_inv_def)
  moreover have "b_published s = take (b_taken s) (b_published s) @ b_writeBuffer s" "b_taken s \<le> length (b_published s)"
    using assms by (simp_all add: bus_inv_def history_inv_def)
  ultimately show ?thesis by (metis append_Nil2 length_take min.absorb2)
qed

section \<open>Theorems\<close>

text \<open>
  C5: Whatever the interleaving of publishers, subscribers and the background thread, every
  subscriber has observed events in the order in which they were published and without gaps:
  a contiguous piece of the history that starts at its subscription.  A subscriber that has not
  thrown has everything up to the last batch that was handed out; one that was deleted after
  \<open>unsubscribe\<close> had every event published before that call.
\<close>

theorem trace_bus_delivers:
  assumes "reachable (bus_init capacity) (bus_step capacity) s"
  shows "(\<forall>x \<in> set (b_subs s @ b_gone s). \<exists>m \<le> b_taken s. s_seen x = drop (s_from x) (take m (b_published s))) \<and>
    (\<forall>x \<in> set (b_subs s). \<not> s_hasThrown x \<and> s_id x \<notin> set (pc_ids (b_pc s)) \<longrightarrow>
       s_seen x = drop (s_from x) (take (b_taken s) (b_published s))) \<and>
    (\<forall>x \<in> set (b_gone s). \<not> s_hasThrown x \<longrightarrow>
       (\<exists>m. s_unsubscribe x - 1 \<le> m \<and> s_seen x = drop (s_from x) (take m (b_published s)))) \<and>
    b_published s = take (b_taken s) (b_published s) @ b_writeBuffer s"
proof -
  have inv: "history_inv s" "subs_inv s" using bus_system.reachable_inv [OF assms] by (simp_all add: bus_inv_def)
  have sub: "sub_ok s x" if "x \<in> set (b_subs s)" for x using that inv(2) by (simp add: subs_inv_def)
  have gone: "gone_ok s x" if "x \<in> set (b_gone s)" for x using that inv(2) by (simp add: subs_inv_def)
  have "\<exists>m \<le> b_taken s. s_seen x = drop (s_from x) (take m (b_published s))" if mem: "x \<in> set (b_subs s @ b_gone s)" for x
  proof -
    consider "x \<in> set (b_subs s)" | "x \<in> set (b_gone s)" using mem by auto
    then show ?thesis
    proof cases
      case 1
      then show ?thesis using sub [OF 1] observed_le [of s x] by (auto simp: sub_ok_def seen_ok_def segment_def intro: le_trans)
    next
      case 2
      then show ?thesis using gone [OF 2] by (auto simp: gone_ok_def seen_ok_def segment_def intro: le_trans)
    qed
  qed
  moreover have "s_seen x = drop (s_from x) (take (b_taken s) (b_published s))"
    if "x \<in> set (b_subs s)" "\<not> s_hasThrown x \<and> s_id x \<notin> set (pc_ids (b_pc s))" for x
    using sub [OF that(1)] that(2) by (auto simp: sub_ok_def seen_ok_def segment_def observed_upto_def)
  moreover have "\<exists>m. s_unsubscribe x - 1 \<le> m \<and> s_seen x = drop (s_from x) (take m (b_published s))"
    if mem: "x \<in> set (b_gone s)" "\<not> s_hasThrown x" for x
  proof -
    obtain n where "s_unsubscribe x \<le> n + 1" "seen_ok (b_published s) n x" using gone [OF mem(1)] by (auto simp: gone_ok_def)
    then show ?thesis using mem(2) by (intro exI [of _ n]) (auto simp: seen_ok_def segment_def)
  qed
  moreover have "b_published s = take (b_taken s) (b_published s) @ b_writeBuffer s" using inv(1) by (simp add: history_inv_def)
  ultimately show ?thesis by blast
qed

text \<open>
  C31: No wake-up is lost.  In every reachable state the background thread can take a step, or a
  notification that wakes it up is due, or it has nothing to do: it sleeps on an empty buffer or
  has returned, and then no publisher is blocked.
\<close>

theorem trace_bus_no_deadlock:
  assumes "reachable (bus_init capacity) (bus_step capacity) s"
  shows "(\<exists>s'. thread_step capacity throws s (b_pc s) = Some s') \<or> 0 < b_notifies s \<or>
    (b_pc s = B_exit \<or> b_pc s = B_asleep \<and> \<not> b_done s) \<and> b_writeBuffer s = [] \<and> b_blocked s = []"
proof (cases "thread_step capacity throws s (b_pc s)")
  case None
  have w: "wakeup_inv capacity s" using bus_system.reachable_inv [OF assms] by (simp add: bus_inv_def)
  consider "b_pc s = B_asleep" | "b_pc s = B_exit" using None by (auto simp: thread_step_None)
  then show ?thesis
  proof cases
    case 1
    then show ?thesis using w by (cases "0 < b_notifies s") (auto simp: wakeup_inv_def)
  next
    case 2
    then show ?thesis using w by (auto simp: wakeup_inv_def)
  qed
qed simp

text \<open>
  C21: The destructor returns, after every registered subscriber has observed every event: once
  \<open>done\<close> is set the thread exits within \<open>drain_rank\<close> steps, whatever the subscribers throw,
  and the subscribers that have not thrown have seen all events since their subscription.
\<close>

theorem trace_bus_drains:
  assumes "reachable (bus_init capacity) (bus_step capacity) s" "b_done s"
  shows "let t = (drain_step capacity throws ^^ drain_rank s) s
    in b_pc t = B_exit \<and> (\<forall>x \<in> set (b_subs t). \<not> s_hasThrown x \<longrightarrow> s_seen x = drop (s_from x) (b_published t))"
proof -
  define t where "t = (drain_step capacity throws ^^ drain_rank s) s"
  have t: "b_pc t = B_exit" "bus_inv capacity t"
    using drain_exits [OF assms order_refl, of throws] bus_system.reachable_inv by (auto simp: t_def)
  have "s_seen x = drop (s_from x) (b_published t)" if "x \<in> set (b_subs t)" "\<not> s_hasThrown x" for x
  proof -
    have "seen_ok (b_published t) (observed_upto t x) x" using that(1) t(2) by (simp add: bus_inv_def subs_inv_def sub_ok_def)
    then show ?thesis using that(2) t(1) exit_observed [OF t(2,1)] by (auto simp: seen_ok_def observed_upto_def segment_def)
  qed
  then show ?thesis using t(1) by (simp add: t_def [symmetric])
qed

section \<open>A run\<close>

text \<open>
  Capacity 2: the thread falls asleep, a subscriber registers, event 7 is published, the
  subscriber unsubscribes, event 8 is published, and the thread hands out the batch.
\<close>

definition run_subscribed :: "nat trace_bus" where
  "run_subscribed = snd (subscribe (loop_top TraceBus))"

definition run_unsubscribed :: "nat trace_bus" where
  "run_unsubscribed = unsubscribe 0 (append_event 7 run_subscribed)"

definition run_batch :: "nat trace_bus" where
  "run_batch = (drain_step 2 (\<lambda>k. False) ^^ 4) (append_event 8 run_unsubscribed)"

lemmas run_defs = run_subscribed_def run_unsubscribed_def TraceBus_def loop_top_def take_batch_def
  subscribe_def unsubscribe_def update_sub_def append_event_def Let_def

lemma run_start: "reachable (bus_init 2) (bus_step 2) run_subscribed"
proof -
  have "reachable (bus_init 2) (bus_step 2) TraceBus" by (rule reach_init) (simp add: bus_init_def)
  then have "reachable (bus_init 2) (bus_step 2) (loop_top TraceBus)"
    by (rule reach_step) (rule step_internal, rule step_thread, simp add: TraceBus_def)
  then show ?thesis unfolding run_subscribed_def
    by (rule reach_step) (rule step_subscribe, simp add: run_defs)
qed

lemma run_unsubscribed_reachable: "reachable (bus_init 2) (bus_step 2) run_unsubscribed"
proof -
  have "reachable (bus_init 2) (bus_step 2) (append_event 7 run_subscribed)"
    by (rule reach_step [OF run_start], rule step_internal, rule step_publish) (auto simp: publish_def run_defs)
  then show ?thesis unfolding run_unsubscribed_def
    by (rule reach_step) (rule step_unsubscribe, simp add: run_defs)
qed

lemma run_batch_reachable: "reachable (bus_init 2) (bus_step 2) run_batch"
proof -
  have "reachable (bus_init 2) (bus_step 2) (append_event 8 run_unsubscribed)"
    by (rule reach_step [OF run_unsubscribed_reachable], rule step_internal, rule step_publish) (auto simp: publish_def run_defs)
  then show ?thesis unfolding run_batch_def by (simp add: numeral_nat drain_reachable)
qed

lemma run_batch_value:
  "b_subs run_batch = [\<lparr>s_id = 0, s_hasThrown = False, s_unsubscribe = 2, s_from = 0, s_seen = [7, 8]\<rparr>]"
  "b_pc run_batch = B_deliver [7, 8] [] False" "b_published run_batch = [7, 8]" "b_gone run_batch = []"
  "b_taken run_batch = 2"
  by (simp_all add: run_batch_def numeral_nat drain_step_def run_defs notify_empty_def deliver_def)

theorem trace_bus_delivers_witness:
  "\<exists>x. b_subs run_batch = [x] \<and> s_seen x = [7, 8] \<and>
    s_seen x = drop (s_from x) (take (b_taken run_batch) (b_published run_batch))"
  using trace_bus_delivers [OF run_batch_reachable] by (simp add: run_batch_value)

theorem trace_bus_no_deadlock_witness:
  "(\<exists>s'. thread_step 2 (\<lambda>k. False) run_unsubscribed B_asleep = Some s') \<or> 0 < b_notifies run_unsubscribed"
proof -
  have "b_pc run_unsubscribed = B_asleep" "b_writeBuffer run_unsubscribed \<noteq> []" by (simp_all add: run_defs)
  then show ?thesis using trace_bus_no_deadlock [OF run_unsubscribed_reachable, of "\<lambda>k. False"] by simp
qed

lemma run_destroyed: "reachable (bus_init 2) (bus_step 2) (destroy_bus run_unsubscribed)"
  by (rule reach_step [OF run_unsubscribed_reachable], rule step_internal, rule step_destroy) (simp_all add: run_defs)

theorem trace_bus_drains_witness:
  "b_pc ((drain_step 2 (\<lambda>k. False) ^^ drain_rank (destroy_bus run_unsubscribed)) (destroy_bus run_unsubscribed)) = B_exit \<and>
    drain_rank (destroy_bus run_unsubscribed) = 5"
  using trace_bus_drains [OF run_destroyed, of "\<lambda>k. False"] by (simp add: Let_def) (simp add: destroy_bus_def drain_rank_def run_defs)

text \<open>
  An unsubscribed subscriber may still observe events that were published after
  \<open>unsubscribe\<close> returned: those that join the batch which is being filled.  The header promises
  that it will not see them.
\<close>

theorem unsubscribed_sees_later_event:
  "reachable (bus_init 2) (bus_step 2) run_unsubscribed \<and> (bus_step 2)\<^sup>*\<^sup>* run_unsubscribed run_batch \<and>
    b_published run_unsubscribed = [7] \<and> map s_unsubscribe (b_subs run_unsubscribed) = [2] \<and>
    b_published run_batch = [7, 8] \<and> map s_seen (b_subs run_batch) = [[7, 8]]"
proof -
  have "bus_step 2 run_unsubscribed (append_event 8 run_unsubscribed)"
    by (rule step_internal, rule step_publish) (auto simp: publish_def run_defs)
  then have "(bus_step 2)\<^sup>*\<^sup>* run_unsubscribed run_batch"
    unfolding run_batch_def by (rule converse_rtranclp_into_rtranclp) (rule drain_steps)
  then show ?thesis using run_unsubscribed_reachable by (simp add: run_batch_value) (simp add: run_defs)
qed

end
