(* ===== verification/Trace_Handles.thy ===== *)
theory Trace_Handles
  imports Trace_Bus
begin

text \<open>
  \<open>TraceSubscriptionHandle\<close> of \<open>TraceBus.h\<close>: the move-only handles that own the subscriptions
  of a bus.  \<open>hw_handles\<close> maps the address of a handle object to its fields; the pointer to
  the subscription is the identity of that subscription, and the weak pointer to the bus is
  whether it refers to the bus, which it can lock until the destructor of the bus has started.

  \<open>Bus_unsubscribe\<close> writes to the subscription, so it is an error when the background thread
  has already deleted it.
\<close>

section \<open>Handles\<close>

record trace_handle =
  h_subscription :: "nat option"
  h_bus :: bool

record 'e handle_world =
  hw_bus :: "'e trace_bus"
  hw_handles :: "nat \<rightharpoonup> trace_handle"

definition null_handle :: trace_handle where
  "null_handle = \<lparr>h_subscription = None, h_bus = False\<rparr>"

text \<open>The call of \<open>TraceBus::unsubscribe\<close>; \<open>None\<close> is an access to freed memory.\<close>

definition Bus_unsubscribe :: "nat \<Rightarrow> 'e trace_bus \<Rightarrow> 'e trace_bus option" where
  "Bus_unsubscribe i b = (if i \<in> s_id ` set (b_subs b) then Some (unsubscribe i b) else None)"

definition handle_unsubscribe :: "trace_handle \<Rightarrow> 'e trace_bus \<Rightarrow> 'e trace_bus option" where
  "handle_unsubscribe h b =
     (case h_subscription h of
        None \<Rightarrow> Some b
      | Some i \<Rightarrow> if h_bus h \<and> \<not> b_done b then Bus_unsubscribe i b else Some b)"

definition handle_destroy :: "nat \<Rightarrow> trace_handle \<Rightarrow> 'e handle_world \<Rightarrow> 'e handle_world option" where
  "handle_destroy a h w =
     map_option (\<lambda>b. w\<lparr>hw_bus := b, hw_handles := (hw_handles w)(a := None)\<rparr>) (handle_unsubscribe h (hw_bus w))"

definition handle_reset :: "nat \<Rightarrow> trace_handle \<Rightarrow> 'e handle_world \<Rightarrow> 'e handle_world option" where
  "handle_reset a h w =
     map_option (\<lambda>b. w\<lparr>hw_bus := b, hw_handles := (hw_handles w)(a \<mapsto> null_handle)\<rparr>) (handle_unsubscribe h (hw_bus w))"

definition handle_move :: "nat \<Rightarrow> nat \<Rightarrow> trace_handle \<Rightarrow> 'e handle_world \<Rightarrow> 'e handle_world" where
  "handle_move a that h w = w\<lparr>hw_handles := (hw_handles w)(that \<mapsto> null_handle, a \<mapsto> h)\<rparr>"

text \<open>
  Move assignment reads \<open>that\<close> after it has unsubscribed, and clears it before it stores; when
  both are the same object the handle keeps its fields.
\<close>

definition handle_assign :: "nat \<Rightarrow> trace_handle \<Rightarrow> nat \<Rightarrow> trace_handle \<Rightarrow> 'e handle_world \<Rightarrow> 'e handle_world option" where
  "handle_assign a h that k w =
     map_option (\<lambda>b. w\<lparr>hw_bus := b, hw_handles := (hw_handles w)(that \<mapsto> null_handle, a \<mapsto> k)\<rparr>)
       (handle_unsubscribe h (hw_bus w))"

text \<open>The handle that \<open>subscribe\<close> returns is constructed at a fresh address.\<close>

definition handle_subscribe :: "nat \<Rightarrow> 'e handle_world \<Rightarrow> 'e handle_world" where
  "handle_subscribe a w =
     (let r = subscribe (hw_bus w)
      in w\<lparr>hw_bus := snd r, hw_handles := (hw_handles w)(a \<mapsto> \<lparr>h_subscription = Some (fst r), h_bus = True\<rparr>)\<rparr>)"

section \<open>Steps\<close>

inductive handle_step :: "nat \<Rightarrow> 'e handle_world \<Rightarrow> 'e handle_world \<Rightarrow> bool" for capacity :: nat where
  hs_bus: "bus_internal capacity (hw_bus w) b \<Longrightarrow> handle_step capacity w (w\<lparr>hw_bus := b\<rparr>)"
| hs_subscribe:
    "\<not> b_done (hw_bus w) \<Longrightarrow> hw_handles w a = None \<Longrightarrow> handle_step capacity w (handle_subscribe a w)"
| hs_construct: "hw_handles w a = None \<Longrightarrow> handle_step capacity w (w\<lparr>hw_handles := (hw_handles w)(a \<mapsto> null_handle)\<rparr>)"
| hs_move:
    "hw_handles w a = None \<Longrightarrow> hw_handles w that = Some h \<Longrightarrow> handle_step capacity w (handle_move a that h w)"
| hs_assign:
    "hw_handles w a = Some h \<Longrightarrow> hw_handles w that = Some k \<Longrightarrow> a \<noteq> that \<Longrightarrow>
     handle_assign a h that k w = Some w' \<Longrightarrow> handle_step capacity w w'"
| hs_reset: "hw_handles w a = Some h \<Longrightarrow> handle_reset a h w = Some w' \<Longrightarrow> handle_step capacity w w'"
| hs_destroy: "hw_handles w a = Some h \<Longrightarrow> handle_destroy a h w = Some w' \<Longrightarrow> handle_step capacity w w'"

definition handle_init :: "nat \<Rightarrow> 'e handle_world \<Rightarrow> bool" where
  "handle_init capacity w \<longleftrightarrow> 0 < capacity \<and> w = \<lparr>hw_bus = TraceBus, hw_handles = (\<lambda>a. None)\<rparr>"

section \<open>Ownership\<close>

definition active_ids :: "'e trace_bus \<Rightarrow> nat set" where
  "active_ids b = set (map s_id (filter (\<lambda>x. s_unsubscribe x = 0) (b_subs b)))"

definition owned :: "(nat \<rightharpoonup> trace_handle) \<Rightarrow> nat \<Rightarrow> nat \<Rightarrow> bool" where
  "owned hs a i \<longleftrightarrow> (\<exists>h. hs a = Some h \<and> h_subscription h = Some i)"

definition handle_inv :: "nat \<Rightarrow> 'e handle_world \<Rightarrow> bool" where
  "handle_inv capacity w \<longleftrightarrow> bus_inv capacity (hw_bus w) \<and>
     (\<forall>a h i. hw_handles w a = Some h \<and> h_subscription h = Some i \<longrightarrow> h_bus h) \<and>
     (\<forall>a b i. owned (hw_handles w) a i \<and> owned (hw_handles w) b i \<longrightarrow> a = b) \<and>
     (\<not> b_done (hw_bus w) \<longrightarrow> {i. \<exists>a. owned (hw_handles w) a i} = active_ids (hw_bus w)) \<and>
     (\<forall>a i. owned (hw_handles w) a i \<longrightarrow> i < b_nextId (hw_bus w))"

lemma active_ids_pairs:
  "i \<in> active_ids b \<longleftrightarrow> (i, 0) \<in> set (map (\<lambda>x. (s_id x, s_unsubscribe x)) (b_subs b))"
  by (auto simp: active_ids_def image_iff)

lemma active_ids_cong:
  assumes "map (\<lambda>x. (s_id x, s_unsubscribe x)) (b_subs t) = map (\<lambda>x. (s_id x, s_unsubscribe x)) (b_subs s)"
  shows "active_ids t = active_ids s"
  unfolding set_eq_iff active_ids_pairs assms by simp

lemma active_ids_filter:
  assumes "b_subs t = filter (\<lambda>x. \<not> unlinked n x) (b_subs s)"
  shows "active_ids t = active_ids s"
  unfolding active_ids_def assms by (auto simp: unlinked_def)

lemma deliver_keeps [simp]:
  "s_id (deliver batch throws x) = s_id x" "s_unsubscribe (deliver batch throws x) = s_unsubscribe x"
  by (simp_all add: deliver_def Let_def)

lemma take_batch_keeps [simp]:
  "b_subs (take_batch s) = b_subs s" "b_done (take_batch s) = b_done s" "b_nextId (take_batch s) = b_nextId s"
  by (simp_all add: take_batch_def)

lemma thread_step_keeps:
  assumes "thread_step capacity throws s (b_pc s) = Some t"
  shows "active_ids t = active_ids s" "b_done t = b_done s" "b_nextId t = b_nextId s"
proof -
  have "active_ids t = active_ids s \<and> b_done t = b_done s \<and> b_nextId t = b_nextId s"
  proof (cases "b_pc s")
    case B_top
    then have t: "t = loop_top s" using assms by simp
    have "active_ids t = active_ids s"
      by (rule active_ids_filter [where n = "b_lastObserved s"]) (simp add: t loop_top_def Let_def)
    then show ?thesis by (simp add: t loop_top_def Let_def)
  next
    case (B_deliver batch ids d)
    then show ?thesis using assms by (cases ids) (auto intro!: active_ids_cong simp: update_sub_def)
  qed (use assms in \<open>auto intro!: active_ids_cong simp: Let_def split: if_splits\<close>)
  then show "active_ids t = active_ids s" "b_done t = b_done s" "b_nextId t = b_nextId s" by auto
qed

lemma bus_internal_keeps:
  assumes "bus_internal capacity s t"
  shows "active_ids t = active_ids s \<and> b_nextId t = b_nextId s \<and> (b_done s \<longrightarrow> b_done t)"
  using assms
proof (induction rule: bus_internal.induct)
  case (step_thread throws s s')
  then show ?case using thread_step_keeps by blast
qed (auto intro!: active_ids_cong simp: publish_def publish_woken_def notify_empty_def destroy_bus_def
    split: if_splits list.splits)

lemma subscribe_active:
  "active_ids (snd (subscribe s)) = insert (b_nextId s) (active_ids s)" "fst (subscribe s) = b_nextId s"
  by (auto simp: active_ids_def subscribe_def Let_def)

lemma unsubscribe_active: "b_seq s \<noteq> 0 \<Longrightarrow> active_ids (unsubscribe i s) = active_ids s - {i}"
proof -
  assume seq: "b_seq s \<noteq> 0"
  have "active_ids (unsubscribe i s) = s_id ` {x \<in> set (b_subs s). s_unsubscribe x = 0 \<and> s_id x \<noteq> i}"
    using seq unfolding set_eq_iff active_ids_pairs by (force simp: unsubscribe_def update_sub_def image_iff)
  then show "active_ids (unsubscribe i s) = active_ids s - {i}" by (auto simp: active_ids_def)
qed

lemma null_handle_simps [simp]: "h_subscription null_handle = None"
  by (simp add: null_handle_def)

lemma owned_upd: "owned (hs(a \<mapsto> h)) b i \<longleftrightarrow> (if b = a then h_subscription h = Some i else owned hs b i)"
  by (simp add: owned_def)

lemma owned_none: "owned (hs(a := None)) b i \<longleftrightarrow> b \<noteq> a \<and> owned hs b i"
  by (simp add: owned_def)

lemma handle_invD:
  assumes "handle_inv capacity w"
  shows "bus_inv capacity (hw_bus w)"
    "hw_handles w a = Some h \<Longrightarrow> h_subscription h = Some i \<Longrightarrow> h_bus h"
    "owned (hw_handles w) a i \<Longrightarrow> owned (hw_handles w) b i \<Longrightarrow> a = b"
    "\<not> b_done (hw_bus w) \<Longrightarrow> (\<exists>a. owned (hw_handles w) a i) \<longleftrightarrow> i \<in> active_ids (hw_bus w)"
    "owned (hw_handles w) a i \<Longrightarrow> i < b_nextId (hw_bus w)"
  using assms unfolding handle_inv_def by blast+

lemma handle_invI:
  assumes "bus_inv capacity (hw_bus w)"
    "\<And>a h i. hw_handles w a = Some h \<Longrightarrow> h_subscription h = Some i \<Longrightarrow> h_bus h"
    "\<And>a b i. owned (hw_handles w) a i \<Longrightarrow> owned (hw_handles w) b i \<Longrightarrow> a = b"
    "\<And>i. \<not> b_done (hw_bus w) \<Longrightarrow> (\<exists>a. owned (hw_handles w) a i) \<longleftrightarrow> i \<in> active_ids (hw_bus w)"
    "\<And>a i. owned (hw_handles w) a i \<Longrightarrow> i < b_nextId (hw_bus w)"
  shows "handle_inv capacity w"
  using assms unfolding handle_inv_def by blast

text \<open>Unsubscribing through a handle and clearing it keeps the ownership, and never fails.\<close>

lemma unsubscribe_clear:
  assumes inv: "handle_inv capacity w" and a: "hw_handles w a = Some h"
  shows "\<exists>b. handle_unsubscribe h (hw_bus w) = Some b \<and>
    handle_inv capacity (w\<lparr>hw_bus := b, hw_handles := (hw_handles w)(a \<mapsto> null_handle)\<rparr>)"
proof (cases "h_subscription h = None \<or> b_done (hw_bus w)")
  case True
  then have "handle_unsubscribe h (hw_bus w) = Some (hw_bus w)" by (auto simp: handle_unsubscribe_def split: option.splits)
  moreover have "(\<exists>b. owned ((hw_handles w)(a \<mapsto> null_handle)) b i) \<longleftrightarrow> i \<in> active_ids (hw_bus w)"
    if nd: "\<not> b_done (hw_bus w)" for i
  proof -
    have "\<not> owned (hw_handles w) a i" using True nd a by (simp add: owned_def)
    then have "(\<exists>b. owned ((hw_handles w)(a \<mapsto> null_handle)) b i) \<longleftrightarrow> (\<exists>b. owned (hw_handles w) b i)"
      by (auto simp: owned_upd)
    then show ?thesis using handle_invD(4) [OF inv nd] by simp
  qed
  moreover have "handle_inv capacity (w\<lparr>hw_bus := hw_bus w, hw_handles := (hw_handles w)(a \<mapsto> null_handle)\<rparr>)"
    using calculation(2)
    by (intro handle_invI) (auto simp: owned_upd split: if_splits intro: handle_invD(2,5) [OF inv] handle_invD(3) [OF inv] handle_invD(1) [OF inv])
  ultimately show ?thesis by blast
next
  case False
  then obtain i where i: "h_subscription h = Some i" and nd: "\<not> b_done (hw_bus w)" by auto
  have own: "owned (hw_handles w) a i" using a i by (simp add: owned_def)
  have act: "i \<in> active_ids (hw_bus w)" using handle_invD(4) [OF inv nd] own by blast
  have bus: "h_bus h" by (rule handle_invD(2) [OF inv a i])
  let ?b = "unsubscribe i (hw_bus w)"
  have eq: "handle_unsubscribe h (hw_bus w) = Some ?b"
    using act bus nd i by (auto simp: handle_unsubscribe_def Bus_unsubscribe_def active_ids_def)
  have "b_seq (hw_bus w) \<noteq> 0" using handle_invD(1) [OF inv] by (simp add: bus_inv_def history_inv_def)
  then have ids: "active_ids ?b = active_ids (hw_bus w) - {i}" by (rule unsubscribe_active)
  have "handle_inv capacity (w\<lparr>hw_bus := ?b, hw_handles := (hw_handles w)(a \<mapsto> null_handle)\<rparr>)"
  proof (rule handle_invI)
    show "(\<exists>b. owned (hw_handles (w\<lparr>hw_bus := ?b, hw_handles := (hw_handles w)(a \<mapsto> null_handle)\<rparr>)) b j) \<longleftrightarrow>
      j \<in> active_ids (hw_bus (w\<lparr>hw_bus := ?b, hw_handles := (hw_handles w)(a \<mapsto> null_handle)\<rparr>))" for j
    proof -
      have "(\<exists>b. owned ((hw_handles w)(a \<mapsto> null_handle)) b j) \<longleftrightarrow> (\<exists>b. owned (hw_handles w) b j) \<and> j \<noteq> i"
        using handle_invD(3) [OF inv own] a i by (auto simp: owned_upd) (metis option.inject owned_def)
      then show ?thesis using handle_invD(4) [OF inv nd, of j] by (simp add: ids)
    qed
  qed (auto simp: owned_upd unsubscribe_inv [OF handle_invD(1) [OF inv]] split: if_splits
      intro: handle_invD(2) [OF inv] handle_invD(3) [OF inv], auto simp: unsubscribe_def intro: handle_invD(5) [OF inv])
  then show ?thesis using eq by blast
qed

text \<open>Handing the subscription over to an empty handle.\<close>

lemma transfer_inv:
  assumes inv: "handle_inv capacity w" and that: "hw_handles w that = Some k" and ne: "a \<noteq> that"
    and free: "\<And>i. \<not> owned (hw_handles w) a i"
  shows "handle_inv capacity (w\<lparr>hw_handles := (hw_handles w)(that \<mapsto> null_handle, a \<mapsto> k)\<rparr>)"
proof -
  let ?hs = "(hw_handles w)(that \<mapsto> null_handle, a \<mapsto> k)"
  have own: "owned ?hs b i \<longleftrightarrow> (if b = a then owned (hw_handles w) that i else b \<noteq> that \<and> owned (hw_handles w) b i)" for b i
    using that ne by (auto simp: owned_def)
  have ex: "(\<exists>b. owned ?hs b i) \<longleftrightarrow> (\<exists>b. owned (hw_handles w) b i)" for i
    using free [of i] unfolding own by (auto split: if_splits) metis+
  show ?thesis
  proof (rule handle_invI)
    show "(\<exists>b. owned (hw_handles (w\<lparr>hw_handles := ?hs\<rparr>)) b i) \<longleftrightarrow> i \<in> active_ids (hw_bus (w\<lparr>hw_handles := ?hs\<rparr>))"
      if "\<not> b_done (hw_bus (w\<lparr>hw_handles := ?hs\<rparr>))" for i
      using handle_invD(4) [OF inv] that ex by simp
    show "b = c" if "owned (hw_handles (w\<lparr>hw_handles := ?hs\<rparr>)) b i" "owned (hw_handles (w\<lparr>hw_handles := ?hs\<rparr>)) c i" for b c i
      using that handle_invD(3) [OF inv, of _ i] by (auto simp: own split: if_splits)
    show "h_bus h" if "hw_handles (w\<lparr>hw_handles := ?hs\<rparr>) b = Some h" "h_subscription h = Some i" for b h i
      using that assms(2) handle_invD(2) [OF inv] by (auto split: if_splits)
  qed (use handle_invD(1,5) [OF inv] in \<open>auto simp: own split: if_splits\<close>)
qed

lemma erase_null_inv:
  assumes inv: "handle_inv capacity w" and free: "\<And>i. \<not> owned (hw_handles w) a i"
  shows "handle_inv capacity (w\<lparr>hw_handles := (hw_handles w)(a := None)\<rparr>)"
proof -
  have own: "owned ((hw_handles w)(a := None)) b i = owned (hw_handles w) b i" for b i
    using free [of i] by (auto simp: owned_none)
  show ?thesis using handle_invD [OF inv] by (intro handle_invI) (auto simp: own split: if_splits)
qed

lemma construct_inv:
  assumes inv: "handle_inv capacity w" and a: "hw_handles w a = None"
  shows "handle_inv capacity (w\<lparr>hw_handles := (hw_handles w)(a \<mapsto> null_handle)\<rparr>)"
proof -
  have own: "owned ((hw_handles w)(a \<mapsto> null_handle)) b i = owned (hw_handles w) b i" for b i
    using a by (auto simp: owned_def)
  show ?thesis using handle_invD [OF inv] by (intro handle_invI) (auto simp: own split: if_splits)
qed

lemma handle_subscribe_inv:
  assumes inv: "handle_inv capacity w" and a: "hw_handles w a = None"
  shows "handle_inv capacity (handle_subscribe a w)"
proof -
  let ?n = "b_nextId (hw_bus w)" and ?w = "handle_subscribe a w"
  have own: "owned (hw_handles ?w) b i \<longleftrightarrow> (if b = a then i = ?n else owned (hw_handles w) b i)" for b i
    by (auto simp: handle_subscribe_def Let_def owned_upd subscribe_active)
  have bus: "hw_bus ?w = snd (subscribe (hw_bus w))" by (simp add: handle_subscribe_def Let_def)
  have na: "\<not> owned (hw_handles w) a i" for i using a by (simp add: owned_def)
  have fresh: "\<not> owned (hw_handles w) b ?n" for b using handle_invD(5) [OF inv, of b ?n] by auto
  show ?thesis
  proof (rule handle_invI)
    show "bus_inv capacity (hw_bus ?w)" unfolding bus by (rule subscribe_inv [OF handle_invD(1) [OF inv]])
    show "h_bus h" if "hw_handles ?w b = Some h" "h_subscription h = Some i" for b h i
      using that handle_invD(2) [OF inv] by (auto simp: handle_subscribe_def Let_def split: if_splits)
    show "b = c" if "owned (hw_handles ?w) b i" "owned (hw_handles ?w) c i" for b c i
      using that fresh handle_invD(3) [OF inv, of b i c] by (auto simp: own split: if_splits)
    show "(\<exists>b. owned (hw_handles ?w) b i) \<longleftrightarrow> i \<in> active_ids (hw_bus ?w)" if "\<not> b_done (hw_bus ?w)" for i
    proof -
      have nd: "\<not> b_done (hw_bus w)" using that by (simp add: bus subscribe_def Let_def)
      have "(\<exists>b. owned (hw_handles ?w) b i) \<longleftrightarrow> i = ?n \<or> (\<exists>b. owned (hw_handles w) b i)"
        using na [of i] unfolding own by metis
      then show ?thesis using handle_invD(4) [OF inv nd, of i] by (simp add: bus subscribe_active)
    qed
    show "i < b_nextId (hw_bus ?w)" if "owned (hw_handles ?w) b i" for b i
      using that handle_invD(5) [OF inv, of b i] by (auto simp: own bus subscribe_def Let_def split: if_splits)
  qed
qed

lemma cleared_free: "\<not> owned (hs(a \<mapsto> null_handle)) a i"
  by (simp add: owned_upd)

lemma handle_step_inv:
  assumes "handle_step capacity w w'" "handle_inv capacity w"
  shows "handle_inv capacity w'"
  using assms
proof (induction rule: handle_step.induct)
  case (hs_bus w b)
  have keep: "active_ids b = active_ids (hw_bus w) \<and> b_nextId b = b_nextId (hw_bus w) \<and> (b_done (hw_bus w) \<longrightarrow> b_done b)"
    by (rule bus_internal_keeps [OF hs_bus(1)])
  have "bus_inv capacity b" by (rule bus_internal_inv [OF hs_bus(1) handle_invD(1) [OF hs_bus(2)]])
  then show ?case using handle_invD [OF hs_bus(2)] keep by (intro handle_invI) auto
next
  case (hs_move w a that h)
  then have "\<not> owned (hw_handles w) a i" for i by (simp add: owned_def)
  moreover have "a \<noteq> that" using hs_move(1,2) by auto
  ultimately show ?case unfolding handle_move_def by (intro transfer_inv [OF hs_move(3,2)])
next
  case (hs_assign w a h that k w')
  obtain b where b: "handle_unsubscribe h (hw_bus w) = Some b"
    and inv: "handle_inv capacity (w\<lparr>hw_bus := b, hw_handles := (hw_handles w)(a \<mapsto> null_handle)\<rparr>)"
    using unsubscribe_clear [OF hs_assign(5,1)] by blast
  let ?v = "w\<lparr>hw_bus := b, hw_handles := (hw_handles w)(a \<mapsto> null_handle)\<rparr>"
  have "handle_inv capacity (?v\<lparr>hw_handles := (hw_handles ?v)(that \<mapsto> null_handle, a \<mapsto> k)\<rparr>)"
    by (rule transfer_inv [OF inv _ hs_assign(3)]) (use hs_assign(2,3) in \<open>simp_all add: cleared_free\<close>)
  moreover have "w' = ?v\<lparr>hw_handles := (hw_handles ?v)(that \<mapsto> null_handle, a \<mapsto> k)\<rparr>"
    using hs_assign(3,4) b by (auto simp: handle_assign_def fun_upd_twist)
  ultimately show ?case by (simp only:)
next
  case (hs_reset w a h w')
  then show ?case using unsubscribe_clear [OF hs_reset(3,1)] by (auto simp: handle_reset_def)
next
  case (hs_destroy w a h w')
  obtain b where b: "handle_unsubscribe h (hw_bus w) = Some b"
    and inv: "handle_inv capacity (w\<lparr>hw_bus := b, hw_handles := (hw_handles w)(a \<mapsto> null_handle)\<rparr>)"
    using unsubscribe_clear [OF hs_destroy(3,1)] by blast
  show ?case using erase_null_inv [OF inv, of a] hs_destroy(2) b by (auto simp: handle_destroy_def cleared_free)
qed (auto intro: handle_subscribe_inv construct_inv)

interpretation handle_system: invariant_system "handle_init capacity" "handle_step capacity" "handle_inv capacity" for capacity
proof
  show "handle_inv capacity w" if "handle_init capacity w" for w :: "'e handle_world"
  proof -
    have "bus_inv capacity (TraceBus :: 'e trace_bus)"
      by (rule bus_system.init_inv) (use that in \<open>simp add: handle_init_def bus_init_def\<close>)
    moreover have "active_ids (TraceBus :: 'e trace_bus) = {}" by (simp add: active_ids_def TraceBus_def)
    ultimately show ?thesis using that by (intro handle_invI) (auto simp: handle_init_def owned_def)
  qed
qed (rule handle_step_inv)

section \<open>Theorems\<close>


definition handle_run :: "nat handle_world" where
  "handle_run = handle_move 9 4 \<lparr>h_subscription = Some 0, h_bus = True\<rparr>
     (handle_subscribe 4 \<lparr>hw_bus = TraceBus, hw_handles = (\<lambda>a. None)\<rparr>)"

lemma handle_run_reachable: "reachable (handle_init 2) (handle_step 2) handle_run"
proof -
  have "reachable (handle_init 2) (handle_step 2) \<lparr>hw_bus = TraceBus, hw_handles = (\<lambda>a. None)\<rparr>"
    by (rule reach_init) (simp add: handle_init_def)
  then have "reachable (handle_init 2) (handle_step 2) (handle_subscribe 4 \<lparr>hw_bus = TraceBus, hw_handles = (\<lambda>a. None)\<rparr>)"
    by (rule reach_step) (rule hs_subscribe, simp_all add: TraceBus_def)
  then show ?thesis unfolding handle_run_def
    by (rule reach_step) (rule hs_move, simp_all add: handle_subscribe_def Let_def subscribe_active TraceBus_def)
qed


text \<open>
  Assigning a handle to itself breaks this: it unsubscribes and keeps the pointer, and once
  the background thread has deleted the subscription the destructor of the handle writes to
  freed memory.
\<close>

theorem self_assignment_dangles:
  "let h = \<lparr>h_subscription = Some 0, h_bus = True\<rparr>;
       w = \<lparr>hw_bus = run_subscribed, hw_handles = [4 \<mapsto> h]\<rparr>
   in \<exists>v. handle_assign 4 h 4 h w = Some v \<and> hw_handles v 4 = Some h \<and>
        handle_unsubscribe h ((drain_step 2 (\<lambda>k. False) ^^ 6) (append_event 7 (hw_bus v))) = None"
  by (simp add: handle_assign_def handle_unsubscribe_def Bus_unsubscribe_def numeral_nat drain_step_def run_defs
      notify_empty_def deliver_def unlinked_def)

end
