(* ===== verification/Immediate_Future.thy ===== *)
theory Immediate_Future
  imports Eden_Prelude
begin

text \<open>
  \<open>ImmediateFuture\<close> of \<open>ImmediateFuture.h\<close>, \<open>ImmediateFuture-inl.h\<close> and
  \<open>ImmediateFuture.cpp\<close>: a future that holds either a value or a \<open>folly::SemiFuture\<close>.

  A \<open>Try\<close> is \<open>'x + 't\<close>, an exception or a value.  What code does to its surroundings is a
  world of type \<open>'w\<close> that callbacks and futures take and return, so that the time at which a
  callback runs is visible.  \<open>folly::SemiFuture\<close> is a parameter: \<open>semi_ops\<close> are its operations
  for one value type, \<open>chain_ops\<close> those that lead from one value type to another.  \<open>semi_laws\<close>
  and \<open>chain_laws\<close> state what folly documents: a future made from a value is ready, waiting for
  a ready future does nothing, and a deferred callback runs when the result is waited for, on
  the result of the future it was attached to; results of callbacks are flattened.

  Methods with an rvalue receiver consume the object; \<open>FutureInvalid\<close> is their error on an
  empty future.  The flag \<open>D\<close> is \<open>kImmediateFutureAlwaysDefer\<close>.
\<close>

section \<open>SemiFuture\<close>

record ('x, 't, 'f, 'w) semi_ops =
  sf_make :: "'x + 't \<Rightarrow> 'f"
  sf_isReady :: "'w \<Rightarrow> 'f \<Rightarrow> bool"
  sf_getTry :: "'f \<Rightarrow> 'w \<Rightarrow> ('x + 't) \<times> 'w"

definition semi_laws :: "('x, 't, 'f, 'w) semi_ops \<Rightarrow> bool" where
  "semi_laws S \<longleftrightarrow> (\<forall>t w. sf_isReady S w (sf_make S t) \<and> sf_getTry S (sf_make S t) w = (t, w)) \<and>
     (\<forall>f w. sf_isReady S w f \<longrightarrow> snd (sf_getTry S f w) = w)"

section \<open>The future\<close>

datatype ('x, 't, 'f) immediate_future =
    Immediate "'x + 't"
  | SemiFuture 'f
  | LazySemiFuture 'f
  | NothingFuture

datatype readiness = EagerSemiFuture_opt | LazySemiFuture_opt

datatype 'x future_error = FutureInvalid | Thrown 'x

definition ImmediateFuture_Try :: "bool \<Rightarrow> ('x, 't, 'f, 'w) semi_ops \<Rightarrow> 'x + 't \<Rightarrow> ('x, 't, 'f) immediate_future" where
  "ImmediateFuture_Try D S v = (if D then SemiFuture (sf_make S v) else Immediate v)"

definition ImmediateFuture_in_place :: "bool \<Rightarrow> ('x, 't, 'f, 'w) semi_ops \<Rightarrow> 't \<Rightarrow> ('x, 't, 'f) immediate_future" where
  "ImmediateFuture_in_place D S v = ImmediateFuture_Try D S (Inr v)"

definition ImmediateFuture_Semi ::
  "bool \<Rightarrow> ('x, 't, 'f, 'w) semi_ops \<Rightarrow> 'f \<Rightarrow> readiness \<Rightarrow> 'w \<Rightarrow> ('x, 't, 'f) immediate_future \<times> 'w" where
  "ImmediateFuture_Semi D S fut readiness w =
     (if readiness = LazySemiFuture_opt then (LazySemiFuture fut, w)
      else if \<not> sf_isReady S w fut \<or> D then (SemiFuture fut, w)
      else let r = sf_getTry S fut w in (Immediate (fst r), snd r))"

definition makeNotReadyImmediateFuture :: "bool \<Rightarrow> ('x, unit, 'f, 'w) semi_ops \<Rightarrow> 'w \<Rightarrow> ('x, unit, 'f) immediate_future \<times> 'w" where
  "makeNotReadyImmediateFuture D S w = ImmediateFuture_Semi D S (sf_make S (Inr ())) LazySemiFuture_opt w"

definition makeEmpty :: "('x, 't, 'f) immediate_future" where
  "makeEmpty = NothingFuture"

definition valid_future :: "('x, 't, 'f) immediate_future \<Rightarrow> bool" where
  "valid_future fut \<longleftrightarrow> (case fut of NothingFuture \<Rightarrow> False | _ \<Rightarrow> True)"

definition destroy_future :: "('x, 't, 'f) immediate_future \<Rightarrow> ('x, 't, 'f) immediate_future" where
  "destroy_future fut =
     (case fut of Immediate t \<Rightarrow> NothingFuture | SemiFuture f \<Rightarrow> NothingFuture
      | LazySemiFuture f \<Rightarrow> NothingFuture | NothingFuture \<Rightarrow> fut)"

text \<open>Moving returns the new contents of \<open>*this\<close> and of \<open>other\<close>.\<close>

definition move_future ::
  "('x, 't, 'f) immediate_future \<Rightarrow> ('x, 't, 'f) immediate_future \<times> ('x, 't, 'f) immediate_future" where
  "move_future other =
     (case other of
        Immediate t \<Rightarrow> (Immediate t, NothingFuture)
      | SemiFuture f \<Rightarrow> (SemiFuture f, NothingFuture)
      | LazySemiFuture f \<Rightarrow> (LazySemiFuture f, NothingFuture)
      | NothingFuture \<Rightarrow> (NothingFuture, other))"

definition assign_future ::
  "('x, 't, 'f) immediate_future \<Rightarrow> ('x, 't, 'f) immediate_future \<Rightarrow>
   ('x, 't, 'f) immediate_future \<times> ('x, 't, 'f) immediate_future" where
  "assign_future this other =
     (let this' = destroy_future this
      in case other of
           Immediate t \<Rightarrow> (Immediate t, NothingFuture)
         | SemiFuture f \<Rightarrow> (SemiFuture f, NothingFuture)
         | LazySemiFuture f \<Rightarrow> (LazySemiFuture f, NothingFuture)
         | NothingFuture \<Rightarrow> (this', other))"

definition isReady :: "bool \<Rightarrow> ('x, 't, 'f, 'w) semi_ops \<Rightarrow> ('x, 't, 'f) immediate_future \<Rightarrow> 'w \<Rightarrow> 'x future_error + bool" where
  "isReady D S fut w =
     (case fut of
        Immediate t \<Rightarrow> Inr True
      | SemiFuture f \<Rightarrow> if D then Inr False else Inr (sf_isReady S w f)
      | LazySemiFuture f \<Rightarrow> Inr False
      | NothingFuture \<Rightarrow> Inl FutureInvalid)"

definition getTry :: "('x, 't, 'f, 'w) semi_ops \<Rightarrow> ('x, 't, 'f) immediate_future \<Rightarrow> 'w \<Rightarrow> 'x future_error + ('x + 't) \<times> 'w" where
  "getTry S fut w =
     (case fut of
        Immediate t \<Rightarrow> Inr (t, w)
      | SemiFuture f \<Rightarrow> Inr (sf_getTry S f w)
      | LazySemiFuture f \<Rightarrow> Inr (sf_getTry S f w)
      | NothingFuture \<Rightarrow> Inl FutureInvalid)"

text \<open>\<open>get\<close> throws the exception that \<open>getTry\<close> returns; the world is what the wait has left behind.\<close>

definition get_future :: "('x, 't, 'f, 'w) semi_ops \<Rightarrow> ('x, 't, 'f) immediate_future \<Rightarrow> 'w \<Rightarrow> ('x future_error + 't) \<times> 'w" where
  "get_future S fut w =
     (let unwrap = (\<lambda>r. (case fst r of Inl x \<Rightarrow> Inl (Thrown x) | Inr v \<Rightarrow> Inr v, snd r))
      in case fut of
           Immediate t \<Rightarrow> unwrap (t, w)
         | SemiFuture f \<Rightarrow> unwrap (sf_getTry S f w)
         | LazySemiFuture f \<Rightarrow> unwrap (sf_getTry S f w)
         | NothingFuture \<Rightarrow> (Inl FutureInvalid, w))"

definition semi :: "('x, 't, 'f, 'w) semi_ops \<Rightarrow> ('x, 't, 'f) immediate_future \<Rightarrow> 'x future_error + 'f" where
  "semi S fut =
     (case fut of
        Immediate t \<Rightarrow> Inr (sf_make S t)
      | SemiFuture f \<Rightarrow> Inr f
      | LazySemiFuture f \<Rightarrow> Inr f
      | NothingFuture \<Rightarrow> Inl FutureInvalid)"

section \<open>Continuations\<close>

text \<open>
  What a callback returns: a value, a \<open>Try\<close> or a \<open>SemiFuture\<close>, or it throws.  Callbacks that
  return an \<open>ImmediateFuture\<close> are a case of their own, because \<open>thenTry\<close> flattens them itself.
\<close>

datatype ('x, 'u, 'g) folly_ret = RetValue 'u | RetTry "'x + 'u" | RetSemi 'g | RetThrow 'x

datatype ('a, 'x, 'u, 'g, 'w) continuation =
    Plain "'a \<Rightarrow> 'w \<Rightarrow> ('x, 'u, 'g) folly_ret \<times> 'w"
  | Chained "'a \<Rightarrow> 'w \<Rightarrow> ('x + ('x, 'u, 'g) immediate_future) \<times> 'w"

text \<open>
  \<open>defer\<close> attaches a callback; \<open>defer_imm\<close> is \<open>defer\<close> at the result type
  \<open>SemiFuture<ImmediateFuture<U>>\<close>, \<open>'h\<close>, and \<open>deferValue_imm\<close> is \<open>deferValue\<close> from that type
  to \<open>SemiFuture<U>\<close>, whose callback may throw \<open>FutureInvalid\<close>.
\<close>

record ('x, 't, 'f, 'u, 'g, 'h, 'w) chain_ops =
  ch_defer :: "'f \<Rightarrow> ('x + 't \<Rightarrow> 'w \<Rightarrow> ('x, 'u, 'g) folly_ret \<times> 'w) \<Rightarrow> 'g"
  ch_defer_imm :: "'f \<Rightarrow> ('x + 't \<Rightarrow> 'w \<Rightarrow> ('x + ('x, 'u, 'g) immediate_future) \<times> 'w) \<Rightarrow> 'h"
  ch_deferValue_imm :: "'h \<Rightarrow> (('x, 'u, 'g) immediate_future \<Rightarrow> 'x future_error + 'g) \<Rightarrow> 'g"

fun run_ret :: "('x, 'u, 'g, 'w) semi_ops \<Rightarrow> ('x, 'u, 'g) folly_ret \<times> 'w \<Rightarrow> ('x + 'u) \<times> 'w" where
  "run_ret R (RetValue u, w) = (Inr u, w)"
| "run_ret R (RetTry t, w) = (t, w)"
| "run_ret R (RetSemi g, w) = sf_getTry R g w"
| "run_ret R (RetThrow x, w) = (Inl x, w)"

text \<open>\<open>invalid\<close> is the exception object of a \<open>FutureInvalid\<close> that is thrown inside of a callback.\<close>

definition as_exception :: "'x \<Rightarrow> 'x future_error \<Rightarrow> 'x" where
  "as_exception invalid e = (case e of FutureInvalid \<Rightarrow> invalid | Thrown x \<Rightarrow> x)"

definition chain_laws :: "'x \<Rightarrow> ('x, 't, 'f, 'w) semi_ops \<Rightarrow> ('x, 'u, 'g, 'w) semi_ops \<Rightarrow>
    ('x, ('x, 'u, 'g) immediate_future, 'h, 'w) semi_ops \<Rightarrow> ('x, 't, 'f, 'u, 'g, 'h, 'w) chain_ops \<Rightarrow> bool" where
  "chain_laws invalid S R H C \<longleftrightarrow> semi_laws S \<and> semi_laws R \<and>
     (\<forall>f k w. sf_getTry R (ch_defer C f k) w =
        (let (t, w1) = sf_getTry S f w in run_ret R (k t w1))) \<and>
     (\<forall>f k w. sf_getTry H (ch_defer_imm C f k) w =
        (let (t, w1) = sf_getTry S f w in k t w1)) \<and>
     (\<forall>h k w. sf_getTry R (ch_deferValue_imm C h k) w =
        (case sf_getTry H h w of
           (Inl x, w1) \<Rightarrow> (Inl x, w1)
         | (Inr i, w1) \<Rightarrow> (case k i of Inl e \<Rightarrow> (Inl (as_exception invalid e), w1) | Inr g \<Rightarrow> sf_getTry R g w1)))"

definition makeImmediateFutureFromImmediate ::
  "bool \<Rightarrow> ('x, 'u, 'g, 'w) semi_ops \<Rightarrow> ('a, 'x, 'u, 'g, 'w) continuation \<Rightarrow> 'a \<Rightarrow> 'w \<Rightarrow> ('x, 'u, 'g) immediate_future \<times> 'w" where
  "makeImmediateFutureFromImmediate D R func arg w =
     (case func of
        Plain k \<Rightarrow>
          (case k arg w of
             (RetValue u, w1) \<Rightarrow> (ImmediateFuture_Try D R (Inr u), w1)
           | (RetTry t, w1) \<Rightarrow> (ImmediateFuture_Try D R t, w1)
           | (RetSemi g, w1) \<Rightarrow> ImmediateFuture_Semi D R g EagerSemiFuture_opt w1
           | (RetThrow x, w1) \<Rightarrow> (ImmediateFuture_Try D R (Inl x), w1))
      | Chained k \<Rightarrow>
          (case k arg w of
             (Inr fut, w1) \<Rightarrow> (fut, w1)
           | (Inl x, w1) \<Rightarrow> (ImmediateFuture_Try D R (Inl x), w1)))"

definition thenTry :: "bool \<Rightarrow> ('x, 't, 'f, 'w) semi_ops \<Rightarrow> ('x, 'u, 'g, 'w) semi_ops \<Rightarrow>
    ('x, 't, 'f, 'u, 'g, 'h, 'w) chain_ops \<Rightarrow> ('x, 't, 'f) immediate_future \<Rightarrow>
    ('x + 't, 'x, 'u, 'g, 'w) continuation \<Rightarrow> 'w \<Rightarrow> 'x future_error + ('x, 'u, 'g) immediate_future \<times> 'w" where
  "thenTry D S R C fut func w =
     (case isReady D S fut w of
        Inl e \<Rightarrow> Inl e
      | Inr True \<Rightarrow>
          (case getTry S fut w of
             Inl e \<Rightarrow> Inl e
           | Inr (t, w1) \<Rightarrow> Inr (makeImmediateFutureFromImmediate D R func t w1))
      | Inr False \<Rightarrow>
          (case semi S fut of
             Inl e \<Rightarrow> Inl e
           | Inr f \<Rightarrow>
               (case func of
                  Plain k \<Rightarrow> Inr (ImmediateFuture_Semi D R (ch_defer C f k) EagerSemiFuture_opt w)
                | Chained k \<Rightarrow>
                    Inr (ImmediateFuture_Semi D R (ch_deferValue_imm C (ch_defer_imm C f k) (semi R)) EagerSemiFuture_opt w))))"

text \<open>\<open>hasException\<close> of a future that holds an immediate value.\<close>

definition immediate_exception :: "('x, 't, 'f) immediate_future \<Rightarrow> 'x option" where
  "immediate_exception fut = (case fut of Immediate (Inl x) \<Rightarrow> Some x | _ \<Rightarrow> None)"

definition value_callback ::
  "bool \<Rightarrow> ('x, 'u, 'g, 'w) semi_ops \<Rightarrow> ('t, 'x, 'u, 'g, 'w) continuation \<Rightarrow> ('x + 't, 'x, 'u, 'g, 'w) continuation" where
  "value_callback D R func =
     Chained (\<lambda>t w. case t of
         Inr v \<Rightarrow> (let r = makeImmediateFutureFromImmediate D R func v w in (Inr (fst r), snd r))
       | Inl x \<Rightarrow> (Inr (ImmediateFuture_Try D R (Inl x)), w))"

definition error_callback ::
  "bool \<Rightarrow> ('x, 't, 'f, 'w) semi_ops \<Rightarrow> ('x, 'x, 't, 'f, 'w) continuation \<Rightarrow> ('x + 't, 'x, 't, 'f, 'w) continuation" where
  "error_callback D S func =
     Chained (\<lambda>t w. case t of
         Inl x \<Rightarrow> (let r = makeImmediateFutureFromImmediate D S func x w in (Inr (fst r), snd r))
       | Inr v \<Rightarrow> (Inr (ImmediateFuture_Try D S t), w))"

definition thenValue :: "bool \<Rightarrow> ('x, 't, 'f, 'w) semi_ops \<Rightarrow> ('x, 'u, 'g, 'w) semi_ops \<Rightarrow>
    ('x, 't, 'f, 'u, 'g, 'h, 'w) chain_ops \<Rightarrow> ('x, 't, 'f) immediate_future \<Rightarrow>
    ('t, 'x, 'u, 'g, 'w) continuation \<Rightarrow> 'w \<Rightarrow> 'x future_error + ('x, 'u, 'g) immediate_future \<times> 'w" where
  "thenValue D S R C fut func w =
     (case immediate_exception fut of
        Some x \<Rightarrow> Inr (ImmediateFuture_Try D R (Inl x), w)
      | None \<Rightarrow> thenTry D S R C fut (value_callback D R func) w)"

definition thenError :: "bool \<Rightarrow> ('x, 't, 'f, 'w) semi_ops \<Rightarrow>
    ('x, 't, 'f, 't, 'f, 'h, 'w) chain_ops \<Rightarrow> ('x, 't, 'f) immediate_future \<Rightarrow>
    ('x, 'x, 't, 'f, 'w) continuation \<Rightarrow> 'w \<Rightarrow> 'x future_error + ('x, 't, 'f) immediate_future \<times> 'w" where
  "thenError D S C fut func w =
     (case fut of
        Immediate (Inr v) \<Rightarrow> Inr (ImmediateFuture_Try D S (Inr v), w)
      | _ \<Rightarrow> thenTry D S S C fut (error_callback D S func) w)"

text \<open>\<open>func w\<close> is the exception that the function throws, if any, and the world it leaves.\<close>

definition ensure :: "bool \<Rightarrow> ('x, 't, 'f, 'w) semi_ops \<Rightarrow>
    ('x, 't, 'f, 't, 'f, 'h, 'w) chain_ops \<Rightarrow> ('x, 't, 'f) immediate_future \<Rightarrow>
    ('w \<Rightarrow> 'x option \<times> 'w) \<Rightarrow> 'w \<Rightarrow> 'x future_error + ('x, 't, 'f) immediate_future \<times> 'w" where
  "ensure D S C fut func w =
     thenTry D S S C fut
       (Plain (\<lambda>t w. case func w of (Some x, w1) \<Rightarrow> (RetThrow x, w1) | (None, w1) \<Rightarrow> (RetTry t, w1))) w"

definition unit_future :: "bool \<Rightarrow> ('x, 't, 'f, 'w) semi_ops \<Rightarrow> ('x, unit, 'g, 'w) semi_ops \<Rightarrow>
    ('x, 't, 'f, unit, 'g, 'h, 'w) chain_ops \<Rightarrow> ('x, 't, 'f) immediate_future \<Rightarrow> 'w \<Rightarrow>
    'x future_error + ('x, unit, 'g) immediate_future \<times> 'w" where
  "unit_future D S R C fut w = thenValue D S R C fut (Plain (\<lambda>v w. (RetValue (), w))) w"

definition makeImmediateFuture :: "bool \<Rightarrow> ('x, 't, 'f, 'w) semi_ops \<Rightarrow> 'x \<Rightarrow> ('x, 't, 'f) immediate_future" where
  "makeImmediateFuture D S e = ImmediateFuture_Try D S (Inl e)"

definition makeImmediateFutureWith ::
  "bool \<Rightarrow> ('x, 'u, 'g, 'w) semi_ops \<Rightarrow> (unit, 'x, 'u, 'g, 'w) continuation \<Rightarrow> 'w \<Rightarrow> ('x, 'u, 'g) immediate_future \<times> 'w" where
  "makeImmediateFutureWith D R func w = makeImmediateFutureFromImmediate D R func () w"

section \<open>What continuations compute\<close>

text \<open>
  The reference: the callback applied to the result of the future, its own result waited for.
\<close>

definition run_cont :: "'x \<Rightarrow> ('x, 'u, 'g, 'w) semi_ops \<Rightarrow> ('a, 'x, 'u, 'g, 'w) continuation \<Rightarrow> 'a \<Rightarrow> 'w \<Rightarrow> ('x + 'u) \<times> 'w" where
  "run_cont invalid R func arg w =
     (case func of
        Plain k \<Rightarrow> run_ret R (k arg w)
      | Chained k \<Rightarrow>
          (case k arg w of
             (Inl x, w1) \<Rightarrow> (Inl x, w1)
           | (Inr fut, w1) \<Rightarrow> (case getTry R fut w1 of Inl e \<Rightarrow> (Inl (as_exception invalid e), w1) | Inr r \<Rightarrow> r)))"

text \<open>A callback that does not return an empty future.\<close>

definition cont_valid :: "('a, 'x, 'u, 'g, 'w) continuation \<Rightarrow> bool" where
  "cont_valid func \<longleftrightarrow> (\<forall>k arg w. func = Chained k \<longrightarrow> fst (k arg w) \<noteq> Inr NothingFuture)"

lemma semi_lawsD:
  assumes "semi_laws S"
  shows "sf_isReady S w (sf_make S t)" "sf_getTry S (sf_make S t) w = (t, w)"
    "sf_isReady S w f \<Longrightarrow> sf_getTry S f w = (u, w1) \<Longrightarrow> w1 = w"
  using assms by (auto simp: semi_laws_def dest!: spec [where x = f] spec [where x = w])

lemma getTry_of_Try: "semi_laws S \<Longrightarrow> getTry S (ImmediateFuture_Try D S t) w = Inr (t, w)"
  by (simp add: getTry_def ImmediateFuture_Try_def semi_lawsD)

lemma getTry_of_Semi:
  assumes "semi_laws S" "ImmediateFuture_Semi D S f r w = (fut, w1)"
  shows "getTry S fut w1 = Inr (sf_getTry S f w) \<and> w1 = w"
proof -
  obtain u v where uv: "sf_getTry S f w = (u, v)" by fastforce
  show ?thesis using assms(2) semi_lawsD(3) [OF assms(1) _ uv] uv
    by (auto simp: ImmediateFuture_Semi_def getTry_def Let_def split: if_splits)
qed

lemma getTry_valid: "valid_future fut \<Longrightarrow> \<exists>r. getTry S fut w = Inr r"
  by (cases fut) (auto simp: valid_future_def getTry_def)

lemma semi_getTry:
  assumes "semi_laws S" "semi S fut = Inr f"
  shows "getTry S fut w = Inr (sf_getTry S f w)"
  using assms by (cases fut) (auto simp: semi_def getTry_def semi_lawsD)

lemma make_valid:
  assumes "cont_valid func"
  shows "valid_future (fst (makeImmediateFutureFromImmediate D R func arg w))"
proof -
  have tr: "valid_future (ImmediateFuture_Try D R t)" for t by (simp add: valid_future_def ImmediateFuture_Try_def)
  have sem: "valid_future (fst (ImmediateFuture_Semi D R g r w))" for g r w
    by (simp add: valid_future_def ImmediateFuture_Semi_def Let_def)
  show ?thesis
  proof (cases func)
    case (Plain k)
    then show ?thesis by (auto simp: makeImmediateFutureFromImmediate_def tr sem split: prod.splits folly_ret.splits)
  next
    case (Chained k)
    then have "fst (k arg w) \<noteq> Inr NothingFuture" using assms by (auto simp: cont_valid_def)
    then show ?thesis using Chained
      by (auto simp: makeImmediateFutureFromImmediate_def ImmediateFuture_Try_def valid_future_def
          split: prod.splits sum.splits immediate_future.splits if_splits)
  qed
qed

lemma make_runs:
  assumes laws: "semi_laws R" and valid: "cont_valid func"
  shows "getTry R (fst (makeImmediateFutureFromImmediate D R func arg w)) (snd (makeImmediateFutureFromImmediate D R func arg w)) =
    Inr (run_cont invalid R func arg w)"
proof (cases func)
  case (Plain k)
  then show ?thesis
  proof (cases "k arg w")
    case (Pair r w1)
    show ?thesis
    proof (cases r)
      case (RetSemi g)
      then show ?thesis using Plain Pair getTry_of_Semi [OF laws surjective_pairing, of D g EagerSemiFuture_opt w1]
        by (auto simp: makeImmediateFutureFromImmediate_def run_cont_def)
    qed (use Plain Pair in \<open>simp_all add: makeImmediateFutureFromImmediate_def run_cont_def getTry_of_Try [OF laws]\<close>)
  qed
next
  case (Chained k)
  then have ne: "fst (k arg w) \<noteq> Inr NothingFuture" using valid by (auto simp: cont_valid_def)
  show ?thesis
  proof (cases "fst (k arg w)")
    case (Inl x)
    then show ?thesis using Chained
      by (auto simp: makeImmediateFutureFromImmediate_def run_cont_def getTry_of_Try [OF laws] split: prod.splits)
  next
    case (Inr fut)
    then have "fut \<noteq> NothingFuture" using ne by auto
    then have "valid_future fut" by (simp add: valid_future_def split: immediate_future.splits)
    obtain w1 where k: "k arg w = (Inr fut, w1)" using Inr by (cases "k arg w") auto
    obtain q where q: "getTry R fut w1 = Inr q" using getTry_valid [OF \<open>valid_future fut\<close>, of R w1] by auto
    have "makeImmediateFutureFromImmediate D R func arg w = (fut, w1)"
      by (simp add: makeImmediateFutureFromImmediate_def Chained k)
    moreover have "run_cont invalid R func arg w = q" by (simp add: run_cont_def Chained k q)
    ultimately show ?thesis using q by simp
  qed
qed

lemma isReady_getTry:
  assumes "semi_laws S" "isReady D S fut w = Inr True" "getTry S fut w = Inr (t, w0)"
  shows "w0 = w"
  using assms semi_lawsD(3) [OF assms(1), of w _ t w0] by (cases fut) (auto simp: isReady_def getTry_def split: if_splits)

lemma deferred_runs:
  assumes laws: "chain_laws invalid S R H C" and f: "semi S fut = Inr f" and t: "getTry S fut w = Inr (t, w0)"
  shows "sf_getTry R (ch_defer C f k) w = run_ret R (k t w0)"
    "sf_getTry R (ch_deferValue_imm C (ch_defer_imm C f l) (semi R)) w = run_cont invalid R (Chained l) t w0"
proof -
  have S: "semi_laws S" and R: "semi_laws R" using laws by (simp_all add: chain_laws_def)
  have g: "sf_getTry S f w = (t, w0)" using semi_getTry [OF S f, of w] t by simp
  show "sf_getTry R (ch_defer C f k) w = run_ret R (k t w0)" using laws g by (simp add: chain_laws_def)
  have h: "sf_getTry H (ch_defer_imm C f l) w = l t w0" using laws g by (simp add: chain_laws_def)
  have step: "sf_getTry R (ch_deferValue_imm C (ch_defer_imm C f l) (semi R)) w =
    (case l t w0 of (Inl x, w1) \<Rightarrow> (Inl x, w1)
     | (Inr i, w1) \<Rightarrow> (case semi R i of Inl e \<Rightarrow> (Inl (as_exception invalid e), w1) | Inr g \<Rightarrow> sf_getTry R g w1))"
    using laws unfolding chain_laws_def h [symmetric] by blast
  have "(case semi R i of Inl e \<Rightarrow> (Inl (as_exception invalid e), w1) | Inr g \<Rightarrow> sf_getTry R g w1) =
    (case getTry R i w1 of Inl e \<Rightarrow> (Inl (as_exception invalid e), w1) | Inr r \<Rightarrow> r)" for i w1
    by (cases i) (simp_all add: semi_def getTry_def semi_lawsD [OF R])
  then show "sf_getTry R (ch_deferValue_imm C (ch_defer_imm C f l) (semi R)) w = run_cont invalid R (Chained l) t w0"
    unfolding step run_cont_def by (auto split: prod.splits sum.splits)
qed

lemma thenTry_runs:
  assumes laws: "chain_laws invalid S R H C" and valid: "cont_valid func" and t: "getTry S fut w = Inr (t, w0)"
  shows "\<exists>fut' w1. thenTry D S R C fut func w = Inr (fut', w1) \<and> getTry R fut' w1 = Inr (run_cont invalid R func t w0) \<and>
    (isReady D S fut w = Inr False \<longrightarrow> w1 = w) \<and>
    (isReady D S fut w = Inr True \<longrightarrow> (fut', w1) = makeImmediateFutureFromImmediate D R func t w)"
proof -
  have S: "semi_laws S" and R: "semi_laws R" using laws by (simp_all add: chain_laws_def)
  obtain b where b: "isReady D S fut w = Inr b" using t by (cases fut; cases D) (auto simp: isReady_def getTry_def)
  show ?thesis
  proof (cases b)
    case True
    then have "w0 = w" using isReady_getTry [OF S _ t] b by simp
    then show ?thesis using True b t make_runs [OF R valid, of D t w invalid]
      by (auto simp: thenTry_def intro!: exI [of _ "fst (makeImmediateFutureFromImmediate D R func t w)"]
          exI [of _ "snd (makeImmediateFutureFromImmediate D R func t w)"])
  next
    case False
    obtain f where f: "semi S fut = Inr f" using t by (cases fut) (auto simp: semi_def getTry_def)
    show ?thesis
    proof (cases func)
      case (Plain k)
      obtain fut' w1 where m: "ImmediateFuture_Semi D R (ch_defer C f k) EagerSemiFuture_opt w = (fut', w1)" by fastforce
      then show ?thesis using False b f Plain getTry_of_Semi [OF R m] deferred_runs(1) [OF laws f t, of k]
        by (auto simp: thenTry_def run_cont_def)
    next
      case (Chained l)
      obtain fut' w1 where m: "ImmediateFuture_Semi D R (ch_deferValue_imm C (ch_defer_imm C f l) (semi R)) EagerSemiFuture_opt w = (fut', w1)"
        by fastforce
      then show ?thesis using False b f Chained getTry_of_Semi [OF R m] deferred_runs(2) [OF laws f t, of l]
        by (auto simp: thenTry_def)
    qed
  qed
qed

text \<open>The callbacks that \<open>thenValue\<close> and \<open>thenError\<close> hand to \<open>thenTry\<close>.\<close>

lemma callbacks_valid:
  assumes "cont_valid func"
  shows "cont_valid (value_callback D R func)"
proof -
  have "fst (makeImmediateFutureFromImmediate D R func a w) \<noteq> NothingFuture" for a w
    using make_valid [OF assms, of D R a w] by (auto simp: valid_future_def)
  then show ?thesis
    by (auto simp: cont_valid_def value_callback_def ImmediateFuture_Try_def Let_def split: sum.splits if_splits)
qed

lemma error_callback_valid:
  assumes "cont_valid func"
  shows "cont_valid (error_callback D R func)"
proof -
  have "fst (makeImmediateFutureFromImmediate D R func a w) \<noteq> NothingFuture" for a w
    using make_valid [OF assms, of D R a w] by (auto simp: valid_future_def)
  then show ?thesis
    by (auto simp: cont_valid_def error_callback_def ImmediateFuture_Try_def Let_def split: sum.splits if_splits)
qed

lemma value_callback_runs:
  assumes "semi_laws R" "cont_valid func"
  shows "run_cont invalid R (value_callback D R func) t w =
    (case t of Inl x \<Rightarrow> (Inl x, w) | Inr v \<Rightarrow> run_cont invalid R func v w)"
proof -
  have "run_cont invalid R (value_callback D R func) t w =
    (case t of Inl x \<Rightarrow> (Inl x, w) | Inr v \<Rightarrow>
       (case getTry R (fst (makeImmediateFutureFromImmediate D R func v w)) (snd (makeImmediateFutureFromImmediate D R func v w)) of
          Inl e \<Rightarrow> (Inl (as_exception invalid e), snd (makeImmediateFutureFromImmediate D R func v w)) | Inr r \<Rightarrow> r))"
    using getTry_of_Try [OF assms(1)] by (cases t) (simp_all add: run_cont_def value_callback_def Let_def)
  then show ?thesis by (cases t) (simp_all add: make_runs [OF assms, where invalid = invalid])
qed

lemma error_callback_runs:
  assumes "semi_laws R" "cont_valid func"
  shows "run_cont invalid R (error_callback D R func) t w =
    (case t of Inl x \<Rightarrow> run_cont invalid R func x w | Inr v \<Rightarrow> (t, w))"
proof -
  have "run_cont invalid R (error_callback D R func) t w =
    (case t of Inr v \<Rightarrow> (t, w) | Inl x \<Rightarrow>
       (case getTry R (fst (makeImmediateFutureFromImmediate D R func x w)) (snd (makeImmediateFutureFromImmediate D R func x w)) of
          Inl e \<Rightarrow> (Inl (as_exception invalid e), snd (makeImmediateFutureFromImmediate D R func x w)) | Inr r \<Rightarrow> r))"
    using getTry_of_Try [OF assms(1)] by (cases t) (simp_all add: run_cont_def error_callback_def Let_def)
  then show ?thesis by (cases t) (simp_all add: make_runs [OF assms, where invalid = invalid])
qed

lemma thenValue_runs:
  assumes laws: "chain_laws invalid S R H C" and valid: "cont_valid func" and t: "getTry S fut w = Inr (t, w0)"
  shows "\<exists>fut' w1. thenValue D S R C fut func w = Inr (fut', w1) \<and>
    getTry R fut' w1 = Inr (case t of Inl x \<Rightarrow> (Inl x, w0) | Inr v \<Rightarrow> run_cont invalid R func v w0) \<and>
    (isReady D S fut w = Inr False \<longrightarrow> w1 = w)"
proof (cases "immediate_exception fut")
  case None
  have R: "semi_laws R" using laws by (simp add: chain_laws_def)
  show ?thesis using thenTry_runs [OF laws callbacks_valid [OF valid, of D R] t, of D]
    by (auto simp: thenValue_def None value_callback_runs [OF R valid])
next
  case (Some x)
  then have "fut = Immediate (Inl x)"
    by (auto simp: immediate_exception_def split: immediate_future.splits sum.splits)
  moreover from this have "t = Inl x" "w0 = w" using t by (simp_all add: getTry_def)
  moreover have "semi_laws R" using laws by (simp add: chain_laws_def)
  ultimately show ?thesis by (simp add: thenValue_def immediate_exception_def getTry_of_Try)
qed

lemma thenError_runs:
  assumes laws: "chain_laws invalid S S H C" and valid: "cont_valid func" and t: "getTry S fut w = Inr (t, w0)"
  shows "\<exists>fut' w1. thenError D S C fut func w = Inr (fut', w1) \<and>
    getTry S fut' w1 = Inr (case t of Inl x \<Rightarrow> run_cont invalid S func x w0 | Inr v \<Rightarrow> (t, w0)) \<and>
    (isReady D S fut w = Inr False \<longrightarrow> w1 = w)"
proof (cases "\<exists>v. fut = Immediate (Inr v)")
  case False
  have S: "semi_laws S" using laws by (simp add: chain_laws_def)
  have "thenError D S C fut func w = thenTry D S S C fut (error_callback D S func) w"
    using False by (auto simp: thenError_def split: immediate_future.splits sum.splits)
  then show ?thesis using thenTry_runs [OF laws error_callback_valid [OF valid, of D S] t, of D]
    by (auto simp: error_callback_runs [OF S valid])
next
  case True
  then obtain v where v: "fut = Immediate (Inr v)" by blast
  then have "t = Inr v" "w0 = w" using t by (simp_all add: getTry_def)
  moreover have "semi_laws S" using laws by (simp add: chain_laws_def)
  ultimately show ?thesis using v by (simp add: thenError_def getTry_of_Try)
qed

lemma ensure_runs:
  assumes laws: "chain_laws invalid S S H C" and t: "getTry S fut w = Inr (t, w0)"
  shows "\<exists>fut' w1. ensure D S C fut func w = Inr (fut', w1) \<and>
    getTry S fut' w1 = Inr (case func w0 of (Some x, w2) \<Rightarrow> (Inl x, w2) | (None, w2) \<Rightarrow> (t, w2)) \<and>
    (isReady D S fut w = Inr False \<longrightarrow> w1 = w)"
proof -
  let ?k = "\<lambda>t w. case func w of (Some x, w1) \<Rightarrow> (RetThrow x, w1) | (None, w1) \<Rightarrow> (RetTry t, w1)"
  have "run_cont invalid S (Plain ?k) t w0 = (case func w0 of (Some x, w2) \<Rightarrow> (Inl x, w2) | (None, w2) \<Rightarrow> (t, w2))"
    by (simp add: run_cont_def split: prod.splits option.splits)
  moreover have "cont_valid (Plain ?k)" by (simp add: cont_valid_def)
  ultimately show ?thesis using thenTry_runs [OF laws _ t, of "Plain ?k" D] by (auto simp: ensure_def)
qed

section \<open>Theorems\<close>

text \<open>
  C6: Storing values inline does not change what a chain of callbacks computes.  For every
  future, ready or not, and both settings of \<open>kImmediateFutureAlwaysDefer\<close>, waiting for the
  result of \<open>thenTry\<close> yields what the callback computes from the result of the future,
  exceptions of the callback and futures that it returns included, and leaves the same
  effects.  The callback runs inside of the call exactly when the future is ready.
\<close>

theorem thenTry_correct:
  assumes "chain_laws invalid S R H C" "cont_valid func" "getTry S fut w = Inr (t, w0)"
  shows "\<exists>fut' w1. thenTry D S R C fut func w = Inr (fut', w1) \<and>
    getTry R fut' w1 = Inr (run_cont invalid R func t w0) \<and>
    (isReady D S fut w = Inr False \<longrightarrow> w1 = w) \<and>
    (isReady D S fut w = Inr True \<longrightarrow> (fut', w1) = makeImmediateFutureFromImmediate D R func t w)"
  by (rule thenTry_runs [OF assms])

text \<open>
  \<open>thenValue\<close> runs its callback on a value and passes an exception on, \<open>thenError\<close> the
  other way round, and \<open>ensure\<close> always runs its function and keeps the result of the future
  unless the function throws.
\<close>

theorem continuations_correct:
  assumes "chain_laws invalid S S H C" "cont_valid onValue" "cont_valid onError" "getTry S fut w = Inr (t, w0)"
  shows "(\<exists>fut' w1. thenValue D S S C fut onValue w = Inr (fut', w1) \<and>
      getTry S fut' w1 = Inr (case t of Inl x \<Rightarrow> (Inl x, w0) | Inr v \<Rightarrow> run_cont invalid S onValue v w0)) \<and>
    (\<exists>fut' w1. thenError D S C fut onError w = Inr (fut', w1) \<and>
      getTry S fut' w1 = Inr (case t of Inl x \<Rightarrow> run_cont invalid S onError x w0 | Inr v \<Rightarrow> (t, w0))) \<and>
    (\<exists>fut' w1. ensure D S C fut func w = Inr (fut', w1) \<and>
      getTry S fut' w1 = Inr (case func w0 of (Some x, w2) \<Rightarrow> (Inl x, w2) | (None, w2) \<Rightarrow> (t, w2)))"
  using thenValue_runs [OF assms(1,2,4)] thenError_runs [OF assms(1,3,4)] ensure_runs [OF assms(1,4)] by blast

text \<open>
  A future that was moved from or made empty is rejected by every method, and moving hands
  the contents over.
\<close>

theorem empty_future_rejected:
  "thenTry D S R C NothingFuture func w = Inl FutureInvalid \<and>
   thenValue D S R C NothingFuture onValue w = Inl FutureInvalid \<and>
   isReady D S NothingFuture w = Inl FutureInvalid \<and> getTry S NothingFuture w = Inl FutureInvalid \<and>
   get_future S NothingFuture w = (Inl FutureInvalid, w) \<and> semi S NothingFuture = Inl FutureInvalid \<and>
   move_future fut = (fut, NothingFuture) \<and> assign_future this fut = (fut, NothingFuture) \<and>
   destroy_future fut = NothingFuture"
  by (cases fut; cases this) (simp_all add: thenTry_def thenValue_def immediate_exception_def isReady_def getTry_def
      get_future_def semi_def move_future_def assign_future_def destroy_future_def Let_def)

section \<open>An instance\<close>

text \<open>
  A future as a value or a computation on the world: the laws can hold.
\<close>

datatype ('x, 't, 'w) lazy_future = Done "'x + 't" | Suspended "'w \<Rightarrow> ('x + 't) \<times> 'w"

fun lazy_ready :: "('x, 't, 'w) lazy_future \<Rightarrow> bool" where
  "lazy_ready (Done t) = True"
| "lazy_ready (Suspended k) = False"

fun lazy_force :: "('x, 't, 'w) lazy_future \<Rightarrow> 'w \<Rightarrow> ('x + 't) \<times> 'w" where
  "lazy_force (Done t) w = (t, w)"
| "lazy_force (Suspended k) w = k w"

definition lazy_ops :: "('x, 't, ('x, 't, 'w) lazy_future, 'w) semi_ops" where
  "lazy_ops = \<lparr>sf_make = Done, sf_isReady = (\<lambda>w. lazy_ready), sf_getTry = lazy_force\<rparr>"

definition lazy_chain :: "'x \<Rightarrow> ('x, 't, ('x, 't, 'w) lazy_future, 'u, ('x, 'u, 'w) lazy_future,
    ('x, ('x, 'u, ('x, 'u, 'w) lazy_future) immediate_future, 'w) lazy_future, 'w) chain_ops" where
  "lazy_chain invalid =
     \<lparr>ch_defer = (\<lambda>f k. Suspended (\<lambda>w. let (t, w1) = lazy_force f w in run_ret lazy_ops (k t w1))),
      ch_defer_imm = (\<lambda>f k. Suspended (\<lambda>w. let (t, w1) = lazy_force f w in k t w1)),
      ch_deferValue_imm = (\<lambda>h k. Suspended (\<lambda>w. case lazy_force h w of
           (Inl x, w1) \<Rightarrow> (Inl x, w1)
         | (Inr i, w1) \<Rightarrow> (case k i of Inl e \<Rightarrow> (Inl (as_exception invalid e), w1) | Inr g \<Rightarrow> lazy_force g w1)))\<rparr>"

lemma lazy_ops_simps [simp]:
  "sf_make lazy_ops = Done" "sf_isReady lazy_ops w = lazy_ready" "sf_getTry lazy_ops = lazy_force"
  by (simp_all add: lazy_ops_def)

lemma lazy_laws: "semi_laws lazy_ops"
proof -
  have "snd (lazy_force f w) = w" if "lazy_ready f" for f w using that by (cases f) auto
  then show ?thesis by (auto simp: semi_laws_def)
qed

lemma lazy_chain_laws: "chain_laws invalid lazy_ops lazy_ops lazy_ops (lazy_chain invalid)"
  by (simp add: chain_laws_def lazy_chain_def lazy_laws split: prod.split sum.split)

text \<open>A callback that logs its argument and doubles it, on a future that is not ready.\<close>

definition log_double :: "(string + nat, string, nat, (string, nat, nat list) lazy_future, nat list) continuation" where
  "log_double = Chained (\<lambda>t w. case t of
     Inr v \<Rightarrow> (Inr (Immediate (Inr (2 * v))), w @ [v]) | Inl x \<Rightarrow> (Inl x, w))"

theorem thenTry_correct_witness:
  "\<exists>fut' w1. thenTry False lazy_ops lazy_ops (lazy_chain ''invalid'') (LazySemiFuture (Done (Inr 5))) log_double [] = Inr (fut', w1) \<and>
    getTry lazy_ops fut' w1 = Inr (Inr 10, [5]) \<and> w1 = []"
proof -
  have v: "cont_valid log_double" by (auto simp: cont_valid_def log_double_def split: sum.splits)
  have g: "getTry lazy_ops (LazySemiFuture (Done (Inr 5))) [] = Inr (Inr (5 :: nat), [] :: nat list)"
    by (simp add: getTry_def lazy_ops_def)
  have r: "run_cont ''invalid'' lazy_ops log_double (Inr 5) [] = (Inr 10, [5])"
    by (simp add: run_cont_def log_double_def getTry_def)
  show ?thesis using thenTry_correct [OF lazy_chain_laws [of "''invalid''"] v g, of False] unfolding r
    by (auto simp: isReady_def)
qed

theorem continuations_correct_witness:
  "\<exists>fut' w1. thenError True lazy_ops (lazy_chain ''invalid'') (Immediate (Inl ''e''))
      (Plain (\<lambda>x w. (RetValue (length x), w @ [7]))) [] = Inr (fut', w1) \<and>
    getTry lazy_ops fut' w1 = Inr (Inr (1 :: nat), [7 :: nat])"
proof -
  have g: "getTry lazy_ops (Immediate (Inl ''e'')) [] = Inr (Inl ''e'' :: string + nat, [] :: nat list)"
    by (simp add: getTry_def)
  have v: "cont_valid (Plain k)" for k by (simp add: cont_valid_def)
  have r: "run_cont ''invalid'' lazy_ops (Plain (\<lambda>x w. (RetValue (length x), w @ [7]))) ''e'' [] = (Inr (1 :: nat), [7 :: nat])"
    by (simp add: run_cont_def)
  show ?thesis
    using continuations_correct [OF lazy_chain_laws [of "''invalid''"]
        v [of "\<lambda>v w. (RetValue v, w)"] v [of "\<lambda>x w. (RetValue (length x), w @ [7])"] g, of True "\<lambda>w. (None, w)"]
    by (simp add: r)
qed

end
