(* ===== verification/Future_Collect.thy ===== *)
theory Future_Collect
  imports Immediate_Future
begin

text \<open>
  \<open>collectAll\<close> and \<open>collectAllSafe\<close> on vectors, of \<open>ImmediateFuture-inl.h\<close>: wait for every
  future of a list.  The results of the futures that are ready are taken at once, the others
  are handed to \<open>folly::collectAll\<close> and stored at their places when they arrive.
\<close>

section \<open>Waiting for many futures\<close>

text \<open>
  \<open>folly::collectAll\<close> and \<open>deferValue\<close> on its result are parameters: \<open>co_all\<close> collects the
  futures, and \<open>co_map\<close> attaches a function that does not throw.  The collected futures may be
  waited for in any order, but every result is stored at the place of its future.
\<close>

record ('x, 't, 'f, 'h, 'w) collect_ops =
  co_all :: "'f list \<Rightarrow> 'h"
  co_map :: "'h \<Rightarrow> (('x + 't) list \<Rightarrow> ('x + 't) list) \<Rightarrow> 'h"

text \<open>Waiting in the order \<open>ns\<close>: \<open>g i\<close> waits for the \<open>i\<close>th future.\<close>

fun waits :: "(nat \<Rightarrow> 'w \<Rightarrow> 'r \<times> 'w) \<Rightarrow> nat list \<Rightarrow> (nat \<Rightarrow> 'r) \<Rightarrow> 'w \<Rightarrow> (nat \<Rightarrow> 'r) \<times> 'w" where
  "waits g [] res w = (res, w)"
| "waits g (i # ns) res w = (let r = g i w in waits g ns (res(i := fst r)) (snd r))"

definition collect_laws :: "('x, 't, 'f, 'w) semi_ops \<Rightarrow> ('x, ('x + 't) list, 'h, 'w) semi_ops \<Rightarrow> ('x, 't, 'f, 'h, 'w) collect_ops \<Rightarrow> bool" where
  "collect_laws S H C \<longleftrightarrow> semi_laws S \<and> semi_laws H \<and>
     (\<forall>fs w res0. \<exists>ns res w1. distinct ns \<and> set ns = {..<length fs} \<and>
        waits (\<lambda>i. sf_getTry S (fs ! i)) ns res0 w = (res, w1) \<and>
        sf_getTry H (co_all C fs) w = (Inr (map res [0..<length fs]), w1)) \<and>
     (\<forall>h k w. sf_getTry H (co_map C h k) w = (let r = sf_getTry H h w in (map_sum (\<lambda>x. x) k (fst r), snd r)))"

text \<open>
  The loop over the futures: \<open>semis\<close> and \<open>semisIndices\<close> are the futures that are not ready and
  their places, \<open>res\<close> the results so far; \<open>uncompleted\<close> is the placeholder.
\<close>

fun collect_loop :: "bool \<Rightarrow> ('x, 't, 'f, 'w) semi_ops \<Rightarrow> 'x \<Rightarrow> ('x, 't, 'f) immediate_future list \<Rightarrow> nat \<Rightarrow>
    'f list \<Rightarrow> nat list \<Rightarrow> ('x + 't) list \<Rightarrow> 'w \<Rightarrow> 'x future_error + 'f list \<times> nat list \<times> ('x + 't) list \<times> 'w" where
  "collect_loop D S uncompleted [] currentIndex semis semisIndices res w = Inr (semis, semisIndices, res, w)"
| "collect_loop D S uncompleted (fut # futs) currentIndex semis semisIndices res w =
     (case isReady D S fut w of
        Inl e \<Rightarrow> Inl e
      | Inr True \<Rightarrow>
          (case getTry S fut w of
             Inl e \<Rightarrow> Inl e
           | Inr (t, w1) \<Rightarrow> collect_loop D S uncompleted futs (currentIndex + 1) semis semisIndices (res @ [t]) w1)
      | Inr False \<Rightarrow>
          (case semi S fut of
             Inl e \<Rightarrow> Inl e
           | Inr f \<Rightarrow> collect_loop D S uncompleted futs (currentIndex + 1) (semis @ [f])
               (semisIndices @ [currentIndex]) (res @ [Inl uncompleted]) w))"

text \<open>The callback: store the results of the collected futures at their places.\<close>

fun store_results :: "nat list \<Rightarrow> 'r list \<Rightarrow> 'r list \<Rightarrow> 'r list" where
  "store_results (i # is) (t # ts) res = store_results is ts (res[i := t])"
| "store_results is ts res = res"

definition collectAll :: "bool \<Rightarrow> ('x, 't, 'f, 'w) semi_ops \<Rightarrow> ('x, ('x + 't) list, 'h, 'w) semi_ops \<Rightarrow>
    ('x, 't, 'f, 'h, 'w) collect_ops \<Rightarrow> 'x \<Rightarrow> ('x, 't, 'f) immediate_future list \<Rightarrow> 'w \<Rightarrow>
    'x future_error + ('x, ('x + 't) list, 'h) immediate_future \<times> 'w" where
  "collectAll D S H C uncompleted futures w =
     (case collect_loop D S uncompleted futures 0 [] [] [] w of
        Inl e \<Rightarrow> Inl e
      | Inr (semis, semisIndices, res, w1) \<Rightarrow>
          if semis = [] then Inr (ImmediateFuture_Try D H (Inr res), w1)
          else Inr (ImmediateFuture_Semi D H
                 (co_map C (co_all C semis) (\<lambda>semisRes. store_results semisIndices semisRes res)) EagerSemiFuture_opt w1))"

fun first_exception :: "('x + 't) list \<Rightarrow> 't list \<Rightarrow> 'x + 't list" where
  "first_exception [] res = Inr res"
| "first_exception (Inl x # ts) res = Inl x"
| "first_exception (Inr v # ts) res = first_exception ts (res @ [v])"

definition collectAllSafe :: "bool \<Rightarrow> ('x, 't, 'f, 'w) semi_ops \<Rightarrow> ('x, ('x + 't) list, 'h, 'w) semi_ops \<Rightarrow>
    ('x, 't list, 'g, 'w) semi_ops \<Rightarrow> ('x, 't, 'f, 'h, 'w) collect_ops \<Rightarrow>
    ('x, ('x + 't) list, 'h, 't list, 'g, 'i, 'w) chain_ops \<Rightarrow> 'x \<Rightarrow> ('x, 't, 'f) immediate_future list \<Rightarrow> 'w \<Rightarrow>
    'x future_error + ('x, 't list, 'g) immediate_future \<times> 'w" where
  "collectAllSafe D S H R C CH uncompleted futures w =
     (case collectAll D S H C uncompleted futures w of
        Inl e \<Rightarrow> Inl e
      | Inr (fut, w1) \<Rightarrow> thenValue D H R CH fut (Plain (\<lambda>ts w. (RetTry (first_exception ts []), w))) w1)"

subsection \<open>Waiting\<close>

lemma waits_append:
  "waits g (xs @ ys) res w = waits g ys (fst (waits g xs res w)) (snd (waits g xs res w))"
  by (induction xs arbitrary: res w) (simp_all add: Let_def)

lemma waits_read:
  assumes "\<And>i. i \<in> set xs \<Longrightarrow> g i w = (v i, w)"
  shows "waits g xs res w = ((\<lambda>i. if i \<in> set xs then v i else res i), w)"
  using assms
proof (induction xs arbitrary: res)
  case (Cons x xs)
  have "waits g (x # xs) res w = waits g xs (res(x := v x)) w" using Cons.prems by simp
  also have "\<dots> = ((\<lambda>i. if i \<in> set xs then v i else (res(x := v x)) i), w)" using Cons by simp
  finally show ?case by (auto simp: fun_eq_iff)
qed simp

lemma waits_map:
  assumes inj: "inj_on h J" and eq: "\<And>i. i \<in> J \<Longrightarrow> g (h i) = f i" and sub: "set ns \<subseteq> J"
  shows "snd (waits g (map h ns) res' w) = snd (waits f ns res w) \<and>
    (\<forall>j \<in> J. j \<in> set ns \<or> res' (h j) = res j \<longrightarrow> fst (waits g (map h ns) res' w) (h j) = fst (waits f ns res w) j) \<and>
    (\<forall>i. i \<notin> h ` set ns \<longrightarrow> fst (waits g (map h ns) res' w) i = res' i)"
  using sub
proof (induction ns arbitrary: res' res w)
  case (Cons n ns)
  have n: "n \<in> J" "set ns \<subseteq> J" "g (h n) = f n" using Cons.prems eq by auto
  define R' where "R' = res'(h n := fst (f n w))"
  define R where "R = res(n := fst (f n w))"
  have s': "waits g (map h (n # ns)) res' w = waits g (map h ns) R' (snd (f n w))"
    and s: "waits f (n # ns) res w = waits f ns R (snd (f n w))"
    using n(3) by (simp_all add: R'_def R_def Let_def)
  have J: "j \<in> set ns \<or> R' (h j) = R j" if "j \<in> J" "j \<in> set (n # ns) \<or> res' (h j) = res j" for j
    using that n(1) inj by (auto simp: R'_def R_def inj_on_def)
  have I: "R' i = res' i" if "i \<notin> h ` set (n # ns)" for i using that by (simp add: R'_def)
  show ?case unfolding s s' using Cons.IH [OF n(2), of R' "snd (f n w)" R] J I by auto
qed simp

lemma store_results_nth:
  assumes "distinct is" "length is = length ts" "\<forall>i \<in> set is. i < length res"
  shows "length (store_results is ts res) = length res \<and>
    (\<forall>i. i \<notin> set is \<longrightarrow> store_results is ts res ! i = res ! i) \<and>
    (\<forall>j < length is. store_results is ts res ! (is ! j) = ts ! j)"
  using assms
proof (induction "is" ts res rule: store_results.induct)
  case (1 k "is" t ts res)
  then have IH: "length (store_results is ts (res[k := t])) = length res"
    "i \<notin> set is \<Longrightarrow> store_results is ts (res[k := t]) ! i = res[k := t] ! i"
    "j < length is \<Longrightarrow> store_results is ts (res[k := t]) ! (is ! j) = ts ! j" for i j by simp_all
  have "store_results is ts (res[k := t]) ! ((k # is) ! j) = (t # ts) ! j" if "j < length (k # is)" for j
    using that 1(2,4) IH(2) [of k] IH(3) by (cases j) auto
  then show ?case using IH(1,2) by (simp add: nth_list_update)
qed auto

subsection \<open>The loop\<close>

text \<open>
  For a valid future: whether its value is taken at once, the result of waiting for it, and the
  \<open>SemiFuture\<close> it turns into.
\<close>

definition ready_now :: "bool \<Rightarrow> ('x, 't, 'f, 'w) semi_ops \<Rightarrow> 'w \<Rightarrow> ('x, 't, 'f) immediate_future \<Rightarrow> bool" where
  "ready_now D S w fut \<longleftrightarrow> isReady D S fut w = Inr True"

definition wait_for :: "('x, 't, 'f, 'w) semi_ops \<Rightarrow> ('x, 't, 'f) immediate_future \<Rightarrow> 'w \<Rightarrow> ('x + 't) \<times> 'w" where
  "wait_for S fut w = projr (getTry S fut w)"

definition pending :: "bool \<Rightarrow> ('x, 't, 'f, 'w) semi_ops \<Rightarrow> 'w \<Rightarrow> nat \<Rightarrow> ('x, 't, 'f) immediate_future list \<Rightarrow>
    (nat \<times> ('x, 't, 'f) immediate_future) list" where
  "pending D S w k futs = filter (\<lambda>p. \<not> ready_now D S w (snd p)) (enumerate k futs)"

lemma valid_cases:
  assumes "valid_future fut"
  shows "isReady D S fut w = Inr (ready_now D S w fut)" "getTry S fut w = Inr (wait_for S fut w)" "\<exists>f. semi S fut = Inr f"
  using assms by (cases fut; auto simp: valid_future_def isReady_def ready_now_def getTry_def wait_for_def semi_def split: if_splits)+

lemma ready_wait:
  assumes "semi_laws S" "valid_future fut" "ready_now D S w fut"
  shows "wait_for S fut w = (fst (wait_for S fut w), w)"
  using isReady_getTry [OF assms(1), of D fut w "fst (wait_for S fut w)" "snd (wait_for S fut w)"] valid_cases [OF assms(2)] assms(3)
  by (metis prod.collapse)

lemma collect_loop_result:
  assumes "semi_laws S" "\<forall>fut \<in> set futs. valid_future fut"
  shows "collect_loop D S u futs k semis idx res w =
    Inr (semis @ map (\<lambda>p. projr (semi S (snd p))) (pending D S w k futs), idx @ map fst (pending D S w k futs),
      res @ map (\<lambda>fut. if ready_now D S w fut then fst (wait_for S fut w) else Inl u) futs, w)"
  using assms(2)
proof (induction futs arbitrary: k semis idx res)
  case (Cons fut futs)
  have v: "valid_future fut" using Cons.prems by simp
  show ?case
  proof (cases "ready_now D S w fut")
    case True
    then have "wait_for S fut w = (fst (wait_for S fut w), w)" using ready_wait [OF assms(1) v] by simp
    then obtain t where "wait_for S fut w = (t, w)" by metis
    then show ?thesis using Cons valid_cases(1) [OF v, of D S w] valid_cases(2) [OF v, of S w] True by (simp add: pending_def)
  next
    case False
    obtain f where "semi S fut = Inr f" using valid_cases(3) [OF v] by blast
    then show ?thesis using Cons valid_cases(1) [OF v, of D S w] False by (simp add: pending_def)
  qed
qed (simp add: pending_def)

lemma pending_facts:
  "distinct (map fst (pending D S w 0 futs))"
  "set (map fst (pending D S w 0 futs)) = {i. i < length futs \<and> \<not> ready_now D S w (futs ! i)}"
  "p \<in> set (pending D S w 0 futs) \<Longrightarrow> fst p < length futs \<and> snd p = futs ! fst p"
proof -
  have "distinct (map fst (filter P (enumerate 0 futs)))" for P
    by (rule distinct_map_filter) (simp add: enumerate_eq_zip)
  then show "distinct (map fst (pending D S w 0 futs))" by (simp add: pending_def)
  show "set (map fst (pending D S w 0 futs)) = {i. i < length futs \<and> \<not> ready_now D S w (futs ! i)}"
    by (force simp: pending_def in_set_enumerate_eq image_iff)
  show "p \<in> set (pending D S w 0 futs) \<Longrightarrow> fst p < length futs \<and> snd p = futs ! fst p"
    by (auto simp: pending_def in_set_enumerate_eq)
qed

lemma wait_semi:
  assumes "semi_laws S" "valid_future fut"
  shows "wait_for S fut w = sf_getTry S (projr (semi S fut)) w"
  using valid_cases(3) [OF assms(2)] semi_getTry [OF assms(1)] by (force simp: wait_for_def)

lemma collect_order:
  assumes S: "semi_laws S" and valid: "\<forall>fut \<in> set futs. valid_future fut"
    and ns: "distinct ns" "set ns = {..<length (pending D S w 0 futs)}"
    and run: "waits (\<lambda>j. sf_getTry S (map (\<lambda>p. projr (semi S (snd p))) (pending D S w 0 futs) ! j)) ns r0 w = (r, w1)"
  shows "\<exists>order res. distinct order \<and> set order = {..<length futs} \<and>
    waits (\<lambda>i. wait_for S (futs ! i)) order res0 w = (res, w1) \<and>
    map res [0..<length futs] = store_results (map fst (pending D S w 0 futs)) (map r [0..<length (pending D S w 0 futs)])
      (map (\<lambda>fut. if ready_now D S w fut then fst (wait_for S fut w) else Inl u) futs)"
proof -
  define P where "P = pending D S w 0 futs"
  define idx where "idx = map fst P"
  define ready where "ready = filter (\<lambda>i. ready_now D S w (futs ! i)) [0..<length futs]"
  let ?g = "\<lambda>i. wait_for S (futs ! i)" and ?h = "\<lambda>j. idx ! j"
  let ?f = "\<lambda>j. sf_getTry S (map (\<lambda>p. projr (semi S (snd p))) P ! j)"
  define v where "v = (\<lambda>i. fst (wait_for S (futs ! i) w))"
  have dist: "distinct idx" and set_idx: "set idx = {i. i < length futs \<and> \<not> ready_now D S w (futs ! i)}"
    using pending_facts(1,2) [of D S w futs] by (simp_all add: idx_def P_def)
  have inj: "inj_on ?h {..<length P}" using dist by (simp add: idx_def inj_on_nth)
  have g: "?g (?h j) = ?f j" if "j \<in> {..<length P}" for j
  proof
    fix w'
    have p: "P ! j \<in> set P" using that by simp
    then have "snd (P ! j) = futs ! (idx ! j)" "idx ! j < length futs"
      using pending_facts(3) [of "P ! j" D S w futs] that by (auto simp: P_def idx_def)
    then show "?g (?h j) w' = ?f j w'" using wait_semi [OF S] valid that by simp
  qed
  have rd: "waits ?g ready res0 w = ((\<lambda>i. if i \<in> set ready then v i else res0 i), w)"
    by (rule waits_read) (use ready_wait [OF S] valid in \<open>auto simp: ready_def v_def\<close>)
  define q where "q = waits ?g (map ?h ns) (\<lambda>i. if i \<in> set ready then v i else res0 i) w"
  have nsJ: "set ns \<subseteq> {..<length P}" using ns by (simp add: P_def)
  have run': "waits ?f ns r0 w = (r, w1)" using run by (simp add: P_def)
  have q: "snd q = w1" "\<And>j. j < length P \<Longrightarrow> fst q (idx ! j) = r j"
    "\<And>i. i \<notin> ?h ` set ns \<Longrightarrow> fst q i = (if i \<in> set ready then v i else res0 i)"
    using waits_map [where h = ?h and g = ?g and f = ?f, OF inj g nsJ, where res = r0 and w = w and res' = "\<lambda>i. if i \<in> set ready then v i else res0 i"]
      ns(2) run' by (auto simp: q_def P_def)
  have h: "?h ` set ns = set idx" 
  proof -
    have "set ns = {..<length idx}" using ns(2) by (simp add: P_def idx_def)
    moreover have "?h ` {..<length idx} = set idx" by (metis atLeast0LessThan list.set_map map_nth set_upt)
    ultimately show ?thesis by simp
  qed
  have "distinct (ready @ map ?h ns)"
    using ns(1) inj nsJ h set_idx by (auto simp: ready_def distinct_map inj_on_subset)
  moreover have "set (ready @ map ?h ns) = {..<length futs}" using h set_idx by (auto simp: ready_def)
  moreover have "waits ?g (ready @ map ?h ns) res0 w = (fst q, w1)"
    using q(1) by (simp add: waits_append rd q_def [symmetric] prod_eq_iff)
  moreover have "map (fst q) [0..<length futs] = store_results idx (map r [0..<length P])
      (map (\<lambda>fut. if ready_now D S w fut then fst (wait_for S fut w) else Inl u) futs)" (is "_ = store_results _ _ ?res")
  proof (rule nth_equalityI)
    have st: "length (store_results idx (map r [0..<length P]) ?res) = length futs \<and>
      (\<forall>i. i \<notin> set idx \<longrightarrow> store_results idx (map r [0..<length P]) ?res ! i = ?res ! i) \<and>
      (\<forall>j < length idx. store_results idx (map r [0..<length P]) ?res ! (idx ! j) = map r [0..<length P] ! j)"
      using store_results_nth [of idx "map r [0..<length P]" ?res] dist set_idx by (auto simp: idx_def)
    then show "length (map (fst q) [0..<length futs]) = length (store_results idx (map r [0..<length P]) ?res)" by simp
    fix i assume "i < length (map (fst q) [0..<length futs])"
    then have i: "i < length futs" by simp
    show "map (fst q) [0..<length futs] ! i = store_results idx (map r [0..<length P]) ?res ! i"
    proof (cases "i \<in> set idx")
      case True
      then obtain j where j: "j < length P" "idx ! j = i" by (auto simp: idx_def in_set_conv_nth)
      then have "store_results idx (map r [0..<length P]) ?res ! i = r j" using st by (auto simp: idx_def)
      then show ?thesis using q(2) [OF j(1)] j(2) i by simp
    next
      case False
      then have "ready_now D S w (futs ! i)" using set_idx i by auto
      moreover from this have "i \<in> set ready" using i by (simp add: ready_def)
      ultimately show ?thesis using st q(3) [of i] False h i by (simp add: v_def)
    qed
  qed
  ultimately show ?thesis unfolding P_def idx_def by blast
qed

lemma collectAll_runs:
  assumes laws: "collect_laws S H C" and valid: "\<forall>fut \<in> set futures. valid_future fut"
  shows "\<exists>fut order res w1. collectAll D S H C u futures w = Inr (fut, w) \<and> valid_future fut \<and>
    distinct order \<and> set order = {..<length futures} \<and>
    waits (\<lambda>i. wait_for S (futures ! i)) order res0 w = (res, w1) \<and>
    getTry H fut w = Inr (Inr (map res [0..<length futures]), w1)"
proof -
  have S: "semi_laws S" and H: "semi_laws H" using laws by (simp_all add: collect_laws_def)
  define P where "P = pending D S w 0 futures"
  define semis where "semis = map (\<lambda>p. projr (semi S (snd p))) P"
  define res1 where "res1 = map (\<lambda>fut. if ready_now D S w fut then fst (wait_for S fut w) else Inl u) futures"
  have loop: "collect_loop D S u futures 0 [] [] [] w = Inr (semis, map fst P, res1, w)"
    using collect_loop_result [OF S valid, of D u 0 "[]" "[]" "[]" w] by (simp add: P_def semis_def res1_def)
  have "\<exists>ns r w1. distinct ns \<and> set ns = {..<length semis} \<and>
    waits (\<lambda>i. sf_getTry S (semis ! i)) ns res0 w = (r, w1) \<and>
    sf_getTry H (co_all C semis) w = (Inr (map r [0..<length semis]), w1)"
    using laws unfolding collect_laws_def by blast
  then obtain ns r w1 where ns: "distinct ns" "set ns = {..<length semis}"
    and run: "waits (\<lambda>i. sf_getTry S (semis ! i)) ns res0 w = (r, w1)"
    and all: "sf_getTry H (co_all C semis) w = (Inr (map r [0..<length semis]), w1)" by blast
  obtain order res where o: "distinct order" "set order = {..<length futures}"
    "waits (\<lambda>i. wait_for S (futures ! i)) order res0 w = (res, w1)"
    "map res [0..<length futures] = store_results (map fst P) (map r [0..<length P]) res1"
    using collect_order [OF S valid ns(1), of D w res0 r w1 res0 u] ns(2) run
    by (auto simp: semis_def P_def res1_def)
  have "\<exists>fut. collectAll D S H C u futures w = Inr (fut, w) \<and> valid_future fut \<and>
    getTry H fut w = Inr (Inr (map res [0..<length futures]), w1)"
  proof (cases "semis = []")
    case True
    then have "P = []" "w1 = w" using run ns(2) by (auto simp: semis_def)
    then show ?thesis using True loop getTry_of_Try [OF H] o(4)
      by (auto simp: collectAll_def valid_future_def ImmediateFuture_Try_def)
  next
    case False
    let ?f = "co_map C (co_all C semis) (\<lambda>semisRes. store_results (map fst P) semisRes res1)"
    obtain fut w' where m: "ImmediateFuture_Semi D H ?f EagerSemiFuture_opt w = (fut, w')" by fastforce
    have "sf_getTry H ?f w = (Inr (map res [0..<length futures]), w1)"
      using laws all o(4) by (simp add: collect_laws_def Let_def semis_def)
    moreover have "valid_future fut" using m by (auto simp: ImmediateFuture_Semi_def valid_future_def Let_def split: if_splits)
    ultimately show ?thesis using False loop m getTry_of_Semi [OF H m] by (auto simp: collectAll_def)
  qed
  then show ?thesis using o by blast
qed

section \<open>Theorems\<close>

text \<open>
  \<open>collectAll\<close> neither loses nor mixes up results: its future completes with the list in
  which the \<open>i\<close>th entry is the result of the \<open>i\<close>th future, as if all futures were waited for
  one after the other in some order, whether or not values are deferred.  No callback runs
  before the result is waited for.
\<close>

theorem collectAll_correct:
  assumes "collect_laws S H C" "\<forall>fut \<in> set futures. valid_future fut"
  shows "\<exists>fut order res w1. collectAll D S H C uncompleted futures w = Inr (fut, w) \<and>
    distinct order \<and> set order = {..<length futures} \<and>
    waits (\<lambda>i. wait_for S (futures ! i)) order res0 w = (res, w1) \<and>
    getTry H fut w = Inr (Inr (map res [0..<length futures]), w1)"
  using collectAll_runs [OF assms] by metis

lemma find_mapped: "find P (map f xs) = map_option f (find (\<lambda>x. P (f x)) xs)"
  by (induction xs) auto

lemma first_exception_spec:
  "first_exception ts acc =
     (case find (\<lambda>t. isl t) ts of Some t \<Rightarrow> Inl (projl t) | None \<Rightarrow> Inr (acc @ map projr ts))"
  by (induction ts acc rule: first_exception.induct) (auto split: option.split)

text \<open>
  \<open>collectAllSafe\<close> waits for all futures, and completes with the exception of the first one
  in the list that failed, or with the list of all values.
\<close>

theorem collectAllSafe_correct:
  assumes "collect_laws S H C" "chain_laws invalid H R I CH" "\<forall>fut \<in> set futures. valid_future fut"
  shows "\<exists>fut w0 order res w1. collectAllSafe D S H R C CH uncompleted futures w = Inr (fut, w0) \<and>
    distinct order \<and> set order = {..<length futures} \<and>
    waits (\<lambda>i. wait_for S (futures ! i)) order res0 w = (res, w1) \<and>
    getTry R fut w0 = Inr (case find (\<lambda>i. isl (res i)) [0..<length futures] of
        Some i \<Rightarrow> Inl (projl (res i)) | None \<Rightarrow> Inr (map (\<lambda>i. projr (res i)) [0..<length futures]), w1)"
proof -
  obtain fut0 order res w1 where c: "collectAll D S H C uncompleted futures w = Inr (fut0, w)"
    "distinct order" "set order = {..<length futures}" "waits (\<lambda>i. wait_for S (futures ! i)) order res0 w = (res, w1)"
    and get: "getTry H fut0 w = Inr (Inr (map res [0..<length futures]), w1)"
    using collectAll_runs [OF assms(1,3), of D uncompleted w res0] by blast
  let ?k = "Plain (\<lambda>ts w. (RetTry (first_exception ts []), w))"
  have "cont_valid ?k" by (simp add: cont_valid_def)
  then obtain fut w0 where f: "thenValue D H R CH fut0 ?k w = Inr (fut, w0)"
    "getTry R fut w0 = Inr (run_cont invalid R ?k (map res [0..<length futures]) w1)"
    using thenValue_runs [OF assms(2) _ get, of ?k D] by auto
  moreover have "run_cont invalid R ?k (map res [0..<length futures]) w1 = (first_exception (map res [0..<length futures]) [], w1)"
    by (simp add: run_cont_def)
  moreover have "first_exception (map res [0..<length futures]) [] =
    (case find (\<lambda>i. isl (res i)) [0..<length futures] of
       Some i \<Rightarrow> Inl (projl (res i)) | None \<Rightarrow> Inr (map (\<lambda>i. projr (res i)) [0..<length futures]))"
    by (simp add: first_exception_spec find_mapped comp_def split: option.split)
  ultimately have "collectAllSafe D S H R C CH uncompleted futures w = Inr (fut, w0)"
    "getTry R fut w0 = Inr (case find (\<lambda>i. isl (res i)) [0..<length futures] of
        Some i \<Rightarrow> Inl (projl (res i)) | None \<Rightarrow> Inr (map (\<lambda>i. projr (res i)) [0..<length futures]), w1)"
    using c(1) by (simp_all add: collectAllSafe_def)
  then show ?thesis using c(2-) by blast
qed

text \<open>An instance of the laws.\<close>

definition lazy_collect :: "('x, 't, ('x, 't, 'w) lazy_future, ('x, ('x + 't) list, 'w) lazy_future, 'w) collect_ops" where
  "lazy_collect =
     \<lparr>co_all = (\<lambda>fs. Suspended (\<lambda>w. let r = waits (\<lambda>i. lazy_force (fs ! i)) [0..<length fs] (\<lambda>i. undefined) w
        in (Inr (map (fst r) [0..<length fs]), snd r))),
      co_map = (\<lambda>h k. Suspended (\<lambda>w. let r = lazy_force h w in (map_sum (\<lambda>x. x) k (fst r), snd r)))\<rparr>"

lemma waits_start:
  "snd (waits g ns res w) = snd (waits g ns res' w)"
  "i \<in> set ns \<or> res i = res' i \<Longrightarrow> fst (waits g ns res w) i = fst (waits g ns res' w) i"
  using waits_map [of "\<lambda>i. i" UNIV g g ns res w res'] by auto

lemma lazy_collect_laws: "collect_laws lazy_ops lazy_ops lazy_collect"
proof -
  have A: "\<exists>ns res w1. distinct ns \<and> set ns = {..<length fs} \<and>
    waits (\<lambda>i. lazy_force (fs ! i)) ns res0 w = (res, w1) \<and>
    lazy_force (co_all lazy_collect fs) w = (Inr (map res [0..<length fs]), w1)"
    for fs :: "('x, 't, 'w) lazy_future list" and w res0
  proof -
    let ?g = "\<lambda>i. lazy_force (fs ! i)" and ?ns = "[0..<length fs]"
    have "lazy_force (co_all lazy_collect fs) w = (Inr (map (fst (waits ?g ?ns res0 w)) ?ns), snd (waits ?g ?ns res0 w))"
      using waits_start [where g = ?g and ns = ?ns and res = "\<lambda>i. undefined" and w = w and res' = res0] by (simp add: lazy_collect_def Let_def)
    then show ?thesis by (intro exI [of _ ?ns] exI [of _ "fst (waits ?g ?ns res0 w)"] exI [of _ "snd (waits ?g ?ns res0 w)"]) auto
  qed
  have B: "lazy_force (co_map lazy_collect h k) w = (let r = lazy_force h w in (map_sum (\<lambda>x. x) k (fst r), snd r))"
    for h and k :: "('x + 't) list \<Rightarrow> ('x + 't) list" and w :: 'w by (simp add: lazy_collect_def)
  show ?thesis unfolding collect_laws_def lazy_ops_simps by (intro conjI allI lazy_laws A B)
qed

definition two_futures :: "(string, nat, (string, nat, nat list) lazy_future) immediate_future list" where
  "two_futures = [SemiFuture (Suspended (\<lambda>w. (Inl ''failed'', w @ [1]))), Immediate (Inr 3)]"

lemma two_futures_valid: "\<forall>fut \<in> set two_futures. valid_future fut"
  by (simp add: two_futures_def valid_future_def)

lemma two_futures_wait:
  assumes "distinct order" "set order = {..<length two_futures}"
    "waits (\<lambda>i. wait_for lazy_ops (two_futures ! i)) order res0 [] = (res, w1)"
  shows "res 0 = Inl ''failed'' \<and> res 1 = Inr 3 \<and> w1 = [1]"
proof -
  have "order = [0, 1] \<or> order = [1, 0]"
  proof -
    have len: "length order = 2" using assms(1,2) distinct_card [OF assms(1)] by (simp add: two_futures_def)
    then obtain a b where ab: "order = [a, b]" by (cases order; cases "tl order") auto
    have "{..<length two_futures} = {0, 1}" by (auto simp: two_futures_def)
    then have "{a, b} = {0, 1}" using assms(2) ab by simp
    then show ?thesis using ab by (auto simp: doubleton_eq_iff)
  qed
  then show ?thesis using assms(3) by (auto simp: two_futures_def wait_for_def getTry_def)
qed

theorem collectAll_correct_witness:
  "\<exists>fut. collectAll False lazy_ops lazy_ops lazy_collect ''uncompleted'' two_futures [] = Inr (fut, []) \<and>
    getTry lazy_ops fut [] = Inr (Inr [Inl ''failed'', Inr 3], [1])"
proof -
  obtain fut order res w1 where "collectAll False lazy_ops lazy_ops lazy_collect ''uncompleted'' two_futures [] = Inr (fut, [])"
    "distinct order" "set order = {..<length two_futures}"
    "waits (\<lambda>i. wait_for lazy_ops (two_futures ! i)) order (\<lambda>i. Inr 0) [] = (res, w1)"
    "getTry lazy_ops fut [] = Inr (Inr (map res [0..<length two_futures]), w1)"
    using collectAll_correct [OF lazy_collect_laws two_futures_valid, of False "''uncompleted''" "[]" "\<lambda>i. Inr 0"] by blast
  then show ?thesis using two_futures_wait [of order "\<lambda>i. Inr 0" res w1] by (auto simp: two_futures_def upt_rec)
qed

theorem collectAllSafe_correct_witness:
  "\<exists>fut w0. collectAllSafe True lazy_ops lazy_ops lazy_ops lazy_collect (lazy_chain ''invalid'') ''uncompleted'' two_futures [] = Inr (fut, w0) \<and>
    getTry lazy_ops fut w0 = Inr (Inl ''failed'', [1])"
proof -
  obtain fut w0 order res w1 where
    "collectAllSafe True lazy_ops lazy_ops lazy_ops lazy_collect (lazy_chain ''invalid'') ''uncompleted'' two_futures [] = Inr (fut, w0)"
    "distinct order" "set order = {..<length two_futures}"
    "waits (\<lambda>i. wait_for lazy_ops (two_futures ! i)) order (\<lambda>i. Inr 0) [] = (res, w1)"
    "getTry lazy_ops fut w0 = Inr (case find (\<lambda>i. isl (res i)) [0..<length two_futures] of
        Some i \<Rightarrow> Inl (projl (res i)) | None \<Rightarrow> Inr (map (\<lambda>i. projr (res i)) [0..<length two_futures]), w1)"
    using collectAllSafe_correct [OF lazy_collect_laws lazy_chain_laws [of "''invalid''"] two_futures_valid, of True "''uncompleted''" "[]" "\<lambda>i. Inr 0"]
    by blast
  then show ?thesis using two_futures_wait [of order "\<lambda>i. Inr 0" res w1] by (auto simp: two_futures_def upt_rec)
qed

end
