(* ===== verification/Collect_Safe.thy ===== *)
theory Collect_Safe
  imports Transition_System Eden_Prelude
begin

text \<open>
  \<open>collectSafe\<close> of \<open>Future.h\<close>: a future that completes when all of the given futures have
  completed, with all values or with the exception that was saved first.  The callbacks of the
  futures run on any threads, so every atomic operation of the shared \<open>Context\<close> is a step.

  \<open>outs\<close> are the outcomes of the futures; the tuple of results is a list.  \<open>x_promise\<close> lists
  what the promise was fulfilled with.
\<close>

section \<open>The context\<close>

datatype callback_pc = C_waiting | C_saving | C_decref | C_last | C_done

record ('x, 't) collect_context =
  x_exception :: "'x option"
  x_hasException :: bool
  x_results :: "'t option list"
  x_count :: nat
  x_promise :: "('x option + 't option list) list"
  x_pc :: "callback_pc list"

definition collectSafe :: "nat \<Rightarrow> ('x, 't) collect_context" where
  "collectSafe n =
     \<lparr>x_exception = None, x_hasException = False, x_results = replicate n None, x_count = n, x_promise = [],
      x_pc = replicate n C_waiting\<rparr>"

text \<open>\<open>saveException\<close> is an exchange of the flag, and a write for the one that set it.\<close>

definition saveException_exchange :: "nat \<Rightarrow> ('x, 't) collect_context \<Rightarrow> ('x, 't) collect_context" where
  "saveException_exchange i s =
     s\<lparr>x_hasException := True, x_pc := (x_pc s)[i := if x_hasException s then C_decref else C_saving]\<rparr>"

definition saveException_write :: "nat \<Rightarrow> 'x \<Rightarrow> ('x, 't) collect_context \<Rightarrow> ('x, 't) collect_context" where
  "saveException_write i ew s = s\<lparr>x_exception := Some ew, x_pc := (x_pc s)[i := C_decref]\<rparr>"

definition decref_sub :: "nat \<Rightarrow> ('x, 't) collect_context \<Rightarrow> ('x, 't) collect_context" where
  "decref_sub i s =
     s\<lparr>x_count := x_count s - 1, x_pc := (x_pc s)[i := if 1 \<noteq> x_count s then C_done else C_last]\<rparr>"

definition decref_finish :: "nat \<Rightarrow> ('x, 't) collect_context \<Rightarrow> ('x, 't) collect_context" where
  "decref_finish i s =
     s\<lparr>x_promise := x_promise s @ [if x_hasException s then Inl (x_exception s) else Inr (x_results s)],
       x_pc := (x_pc s)[i := C_done]\<rparr>"

text \<open>One atomic operation of the callback of the \<open>i\<close>th future, whose outcome is \<open>t\<close>.\<close>

fun callback_step :: "nat \<Rightarrow> 'x + 't \<Rightarrow> callback_pc \<Rightarrow> ('x, 't) collect_context \<Rightarrow> ('x, 't) collect_context option" where
  "callback_step i (Inl ew) C_waiting s = Some (saveException_exchange i s)"
| "callback_step i (Inr v) C_waiting s =
     Some (s\<lparr>x_results := (x_results s)[i := Some v], x_pc := (x_pc s)[i := C_decref]\<rparr>)"
| "callback_step i (Inl ew) C_saving s = Some (saveException_write i ew s)"
| "callback_step i (Inr v) C_saving s = None"
| "callback_step i t C_decref s = Some (decref_sub i s)"
| "callback_step i t C_last s = Some (decref_finish i s)"
| "callback_step i t C_done s = None"

inductive collect_step :: "('x + 't) list \<Rightarrow> ('x, 't) collect_context \<Rightarrow> ('x, 't) collect_context \<Rightarrow> bool"
  for outs :: "('x + 't) list" where
  cs_callback:
    "i < length outs \<Longrightarrow> callback_step i (outs ! i) (x_pc s ! i) s = Some s' \<Longrightarrow> collect_step outs s s'"

definition collect_init :: "('x + 't) list \<Rightarrow> ('x, 't) collect_context \<Rightarrow> bool" where
  "collect_init outs s \<longleftrightarrow> s = collectSafe (length outs)"

section \<open>The invariant\<close>

definition decremented :: "callback_pc \<Rightarrow> bool" where
  "decremented pc \<longleftrightarrow> pc = C_last \<or> pc = C_done"

text \<open>What the callback of one future has contributed.\<close>

definition entry_ok :: "('x + 't) list \<Rightarrow> ('x, 't) collect_context \<Rightarrow> nat \<Rightarrow> bool" where
  "entry_ok outs s i \<longleftrightarrow>
     (case outs ! i of
        Inr v \<Rightarrow> x_pc s ! i \<noteq> C_saving \<and> x_results s ! i = (if x_pc s ! i = C_waiting then None else Some v)
      | Inl ew \<Rightarrow> x_pc s ! i \<noteq> C_waiting \<longrightarrow> x_hasException s)"

definition undecremented :: "callback_pc list \<Rightarrow> nat" where
  "undecremented pcs = length (filter (\<lambda>pc. \<not> decremented pc) pcs)"

text \<open>The exception is written by the one callback that set the flag.\<close>

definition data_inv :: "('x + 't) list \<Rightarrow> ('x, 't) collect_context \<Rightarrow> bool" where
  "data_inv outs s \<longleftrightarrow> length (x_results s) = length outs \<and> (\<forall>i < length outs. entry_ok outs s i) \<and>
     (\<forall>i < length outs. x_pc s ! i = C_saving \<longrightarrow> x_hasException s \<and> x_exception s = None \<and>
        (\<forall>j < length outs. x_pc s ! j = C_saving \<longrightarrow> j = i)) \<and>
     (x_hasException s \<longrightarrow> (case x_exception s of
        None \<Rightarrow> \<exists>i < length outs. x_pc s ! i = C_saving
      | Some ew \<Rightarrow> Inl ew \<in> set outs)) \<and>
     (\<not> x_hasException s \<longrightarrow> x_exception s = None)"

text \<open>The last callback to decrement the count fulfils the promise.\<close>

definition count_inv :: "('x + 't) list \<Rightarrow> ('x, 't) collect_context \<Rightarrow> bool" where
  "count_inv outs s \<longleftrightarrow> length (x_pc s) = length outs \<and> x_count s = undecremented (x_pc s) \<and>
     (\<forall>i < length outs. x_pc s ! i = C_last \<longrightarrow> x_promise s = [] \<and> (\<forall>j < length outs. j \<noteq> i \<longrightarrow> x_pc s ! j = C_done)) \<and>
     (if x_promise s = [] then outs = [] \<or> (\<exists>i < length outs. x_pc s ! i \<noteq> C_done)
      else (\<forall>i < length outs. x_pc s ! i = C_done) \<and>
        x_promise s = [if x_hasException s then Inl (x_exception s) else Inr (x_results s)])"

definition collect_inv :: "('x + 't) list \<Rightarrow> ('x, 't) collect_context \<Rightarrow> bool" where
  "collect_inv outs s \<longleftrightarrow> data_inv outs s \<and> count_inv outs s"

lemma undecremented_update:
  "i < length pcs \<Longrightarrow> \<not> decremented (pcs ! i) \<Longrightarrow>
     undecremented (pcs[i := pc]) = undecremented pcs - (if decremented pc then 1 else 0)"
  "i < length pcs \<Longrightarrow> decremented (pcs ! i) \<Longrightarrow> decremented pc \<Longrightarrow> undecremented (pcs[i := pc]) = undecremented pcs"
proof -
  have "undecremented (pcs[i := pc]) + (if decremented (pcs ! i) then 0 else 1) =
    undecremented pcs + (if decremented pc then 0 else 1)" if "i < length pcs"
    using that
  proof (induction pcs arbitrary: i)
    case (Cons p pcs)
    show ?case
    proof (cases i)
      case (Suc n)
      then show ?thesis using Cons.IH [of n] Cons.prems by (auto simp: undecremented_def split: if_splits)
    qed (simp add: undecremented_def)
  qed simp
  then show "i < length pcs \<Longrightarrow> \<not> decremented (pcs ! i) \<Longrightarrow>
     undecremented (pcs[i := pc]) = undecremented pcs - (if decremented pc then 1 else 0)"
    "i < length pcs \<Longrightarrow> decremented (pcs ! i) \<Longrightarrow> decremented pc \<Longrightarrow> undecremented (pcs[i := pc]) = undecremented pcs"
    by (auto split: if_splits)
qed

lemma undecremented_zero: "undecremented pcs = 0 \<longleftrightarrow> (\<forall>i < length pcs. decremented (pcs ! i))"
  by (auto simp: undecremented_def filter_empty_conv all_set_conv_all_nth)

lemma undecremented_pos: "i < length pcs \<Longrightarrow> \<not> decremented (pcs ! i) \<Longrightarrow> 0 < undecremented pcs"
  using undecremented_zero by (metis neq0_conv)

lemma count_invD:
  assumes "count_inv outs s"
  shows "length (x_pc s) = length outs" "x_count s = undecremented (x_pc s)"
    "i < length outs \<Longrightarrow> x_pc s ! i = C_last \<Longrightarrow> x_promise s = []"
    "i < length outs \<Longrightarrow> x_pc s ! i = C_last \<Longrightarrow> j < length outs \<Longrightarrow> j \<noteq> i \<Longrightarrow> x_pc s ! j = C_done"
    "i < length outs \<Longrightarrow> x_pc s ! i \<noteq> C_done \<Longrightarrow> x_promise s = []"
    "i < length outs \<Longrightarrow> \<not> decremented (x_pc s ! i) \<Longrightarrow> j < length outs \<Longrightarrow> x_pc s ! j \<noteq> C_last"
proof -
  show "length (x_pc s) = length outs" "x_count s = undecremented (x_pc s)" using assms by (simp_all add: count_inv_def)
  show "i < length outs \<Longrightarrow> x_pc s ! i = C_last \<Longrightarrow> x_promise s = []"
    using assms unfolding count_inv_def by blast
  have last: "\<And>i j. i < length outs \<Longrightarrow> x_pc s ! i = C_last \<Longrightarrow> j < length outs \<Longrightarrow> j \<noteq> i \<Longrightarrow> x_pc s ! j = C_done"
    using assms unfolding count_inv_def by blast
  then show "i < length outs \<Longrightarrow> x_pc s ! i = C_last \<Longrightarrow> j < length outs \<Longrightarrow> j \<noteq> i \<Longrightarrow> x_pc s ! j = C_done" by blast
  show "i < length outs \<Longrightarrow> x_pc s ! i \<noteq> C_done \<Longrightarrow> x_promise s = []"
  proof (rule ccontr)
    assume "i < length outs" "x_pc s ! i \<noteq> C_done" "x_promise s \<noteq> []"
    then show False using assms unfolding count_inv_def by metis
  qed
  show "i < length outs \<Longrightarrow> \<not> decremented (x_pc s ! i) \<Longrightarrow> j < length outs \<Longrightarrow> x_pc s ! j \<noteq> C_last"
    using last [of j i] by (cases "i = j") (auto simp: decremented_def)
qed

lemma count_invI:
  assumes "length (x_pc s) = length outs" "x_count s = undecremented (x_pc s)"
    "\<And>i j. i < length outs \<Longrightarrow> x_pc s ! i = C_last \<Longrightarrow> x_promise s = [] \<and> (j < length outs \<longrightarrow> j \<noteq> i \<longrightarrow> x_pc s ! j = C_done)"
    "x_promise s = [] \<Longrightarrow> outs = [] \<or> (\<exists>i < length outs. x_pc s ! i \<noteq> C_done)"
    "\<And>i. x_promise s \<noteq> [] \<Longrightarrow> i < length outs \<Longrightarrow> x_pc s ! i = C_done"
    "x_promise s \<noteq> [] \<Longrightarrow> x_promise s = [if x_hasException s then Inl (x_exception s) else Inr (x_results s)]"
  shows "count_inv outs s"
proof -
  have "if x_promise s = [] then outs = [] \<or> (\<exists>i < length outs. x_pc s ! i \<noteq> C_done)
      else (\<forall>i < length outs. x_pc s ! i = C_done) \<and>
        x_promise s = [if x_hasException s then Inl (x_exception s) else Inr (x_results s)]"
  proof (cases "x_promise s = []")
    case True
    show ?thesis unfolding if_P [OF True] by (rule assms(4) [OF True])
  next
    case False
    show ?thesis unfolding if_not_P [OF False] using assms(5,6) [OF False] by blast
  qed
  then show ?thesis unfolding count_inv_def using assms(1-3) by blast
qed

text \<open>A step in which callback \<open>i\<close> moves from before to before the decrement.\<close>

lemma count_inv_early:
  assumes inv: "count_inv outs s" and i: "i < length outs" "\<not> decremented (x_pc s ! i)" "\<not> decremented pc"
    and s': "x_pc s' = (x_pc s)[i := pc]" "x_count s' = x_count s" "x_promise s' = x_promise s"
  shows "count_inv outs s'"
proof -
  note len = count_invD(1) [OF inv]
  have prom: "x_promise s' = []" using count_invD(5) [OF inv i(1)] i(2) s'(3) by (simp add: decremented_def)
  have nl: "x_pc s' ! j \<noteq> C_last" if "j < length outs" for j
    using count_invD(6) [OF inv i(1,2) that] i(3) len that by (cases "j = i") (auto simp: s'(1) decremented_def)
  have "x_pc s' ! i \<noteq> C_done" using i len by (simp add: s'(1) decremented_def)
  then show ?thesis using nl prom i(1) len undecremented_update(1) [of i "x_pc s" pc] i(2,3) count_invD(2) [OF inv]
    by (intro count_invI) (auto simp: s'(1,2))
qed

lemma decref_sub_count:
  assumes inv: "count_inv outs s" and i: "i < length outs" "x_pc s ! i = C_decref"
  shows "count_inv outs (decref_sub i s)"
proof -
  note len = count_invD(1) [OF inv] and cnt = count_invD(2) [OF inv]
  have nd: "\<not> decremented (x_pc s ! i)" using i by (simp add: decremented_def)
  have nl: "x_pc s ! j \<noteq> C_last" if "j < length outs" for j by (rule count_invD(6) [OF inv i(1) nd that])
  define pcs where "pcs = (x_pc s)[i := if 1 \<noteq> x_count s then C_done else C_last]"
  have f: "x_pc (decref_sub i s) = pcs" "x_count (decref_sub i s) = x_count s - 1" "x_promise (decref_sub i s) = []"
    using count_invD(5) [OF inv i(1)] i(2) by (simp_all add: decref_sub_def pcs_def)
  have l: "length pcs = length outs" by (simp add: pcs_def len)
  have at: "pcs ! j = (if j = i then if 1 \<noteq> x_count s then C_done else C_last else x_pc s ! j)" if "j < length outs" for j
    using that len by (simp add: pcs_def nth_list_update)
  have cnt': "undecremented pcs = x_count s - 1"
    using undecremented_update(1) [of i "x_pc s"] i len nd cnt by (simp add: pcs_def decremented_def)
  have pos: "0 < x_count s" using undecremented_pos [of i "x_pc s"] i len nd cnt by simp
  have others: "pcs ! j = C_done" if "k < length outs" "pcs ! k = C_last" "j < length outs" "j \<noteq> k" for j k
  proof -
    have k: "k = i" "x_count s = 1" using that(2) nl [OF that(1)] at [OF that(1)] by (auto split: if_splits)
    then have "undecremented pcs = 0" using cnt' by simp
    then have "decremented (pcs ! j)" using that(3) l undecremented_zero [of pcs] by simp
    then show ?thesis using nl [OF that(3)] at [OF that(3)] that(4) k(1) by (simp add: decremented_def)
  qed
  have "\<exists>j < length outs. pcs ! j \<noteq> C_done"
  proof (cases "x_count s = 1")
    case True
    then show ?thesis using at [OF i(1)] i(1) by (intro exI [of _ i]) simp
  next
    case False
    then have "undecremented pcs \<noteq> 0" using cnt' pos by simp
    then obtain j where "j < length outs" "\<not> decremented (pcs ! j)" using l undecremented_zero [of pcs] by auto
    then show ?thesis by (intro exI [of _ j]) (simp add: decremented_def)
  qed
  then show ?thesis using others l cnt' by (intro count_invI) (simp_all add: f)
qed

lemma decref_finish_count:
  assumes inv: "count_inv outs s" and i: "i < length outs" "x_pc s ! i = C_last"
  shows "count_inv outs (decref_finish i s)"
proof -
  note len = count_invD(1) [OF inv] and cnt = count_invD(2) [OF inv]
  have at: "((x_pc s)[i := C_done]) ! j = C_done" if "j < length outs" for j
    using count_invD(4) [OF inv i that] that len by (cases "j = i") simp_all
  have "undecremented ((x_pc s)[i := C_done]) = x_count s"
    using undecremented_update(2) [of i "x_pc s" C_done] i len cnt by (simp add: decremented_def)
  then show ?thesis using at len count_invD(3) [OF inv i]
    by (intro count_invI) (simp_all add: decref_finish_def)
qed

text \<open>Steps after the outcome has been recorded leave the data alone.\<close>

lemma data_inv_late:
  assumes inv: "data_inv outs s" and len: "length (x_pc s) = length outs"
    and i: "i < length outs" "x_pc s ! i \<noteq> C_waiting" "x_pc s ! i \<noteq> C_saving" "pc \<noteq> C_waiting" "pc \<noteq> C_saving"
    and s': "x_pc s' = (x_pc s)[i := pc]" "x_results s' = x_results s" "x_hasException s' = x_hasException s"
      "x_exception s' = x_exception s"
  shows "data_inv outs s'"
proof -
  have pcs: "(x_pc s' ! j = C_saving) = (x_pc s ! j = C_saving)" "(x_pc s' ! j = C_waiting) = (x_pc s ! j = C_waiting)"
    if "j < length outs" for j using that i len by (cases "j = i"; simp add: s'(1))+
  have "entry_ok outs s' j = entry_ok outs s j" if "j < length outs" for j
    using pcs [OF that] by (simp add: entry_ok_def s' split: sum.split)
  then show ?thesis using inv pcs unfolding data_inv_def s'(2-4) by (auto split: option.splits)
qed

lemma data_inv_value:
  assumes inv: "data_inv outs s" and len: "length (x_pc s) = length outs"
    and i: "i < length outs" "x_pc s ! i = C_waiting" "outs ! i = Inr v"
  shows "data_inv outs (s\<lparr>x_results := (x_results s)[i := Some v], x_pc := (x_pc s)[i := C_decref]\<rparr>)" (is "data_inv outs ?s")
proof -
  have saving: "(x_pc ?s ! j = C_saving) = (x_pc s ! j = C_saving)" if "j < length outs" for j
    using that i len by (cases "j = i") simp_all
  have "entry_ok outs ?s j" if "j < length outs" for j
    using that i len inv by (cases "j = i") (auto simp: entry_ok_def data_inv_def split: sum.splits)
  then show ?thesis using inv saving unfolding data_inv_def by (auto split: option.splits)
qed

lemma data_inv_exchange:
  assumes inv: "data_inv outs s" and len: "length (x_pc s) = length outs"
    and i: "i < length outs" "x_pc s ! i = C_waiting" "outs ! i = Inl ew"
  shows "data_inv outs (saveException_exchange i s)" (is "data_inv outs ?s")
proof (cases "x_hasException s")
  case True
  have saving: "(x_pc ?s ! j = C_saving) = (x_pc s ! j = C_saving)" if "j < length outs" for j
    using that i len True by (cases "j = i") (simp_all add: saveException_exchange_def)
  have "entry_ok outs ?s j" if "j < length outs" for j
    using that i len inv True by (cases "j = i") (auto simp: entry_ok_def data_inv_def saveException_exchange_def split: sum.splits)
  then show ?thesis using inv saving True unfolding data_inv_def by (auto simp: saveException_exchange_def split: option.splits)
next
  case False
  have f: "x_exception ?s = None" "x_hasException ?s" "x_results ?s = x_results s"
    using inv False by (auto simp: data_inv_def saveException_exchange_def)
  have none: "x_pc s ! j \<noteq> C_saving" if "j < length outs" for j using inv False that by (auto simp: data_inv_def)
  have saving: "(x_pc ?s ! j = C_saving) = (j = i)" if "j < length outs" for j
    using that i len False none by (cases "j = i") (simp_all add: saveException_exchange_def)
  have "entry_ok outs ?s j" if "j < length outs" for j
    using that i len inv False by (cases "j = i") (auto simp: entry_ok_def data_inv_def saveException_exchange_def split: sum.splits)
  then show ?thesis using inv saving f i(1) unfolding data_inv_def by auto
qed

lemma data_inv_write:
  assumes inv: "data_inv outs s" and len: "length (x_pc s) = length outs"
    and i: "i < length outs" "x_pc s ! i = C_saving" "outs ! i = Inl ew"
  shows "data_inv outs (saveException_write i ew s)" (is "data_inv outs ?s")
proof -
  have uniq: "j = i" if "j < length outs" "x_pc s ! j = C_saving" for j using inv i that by (auto simp: data_inv_def)
  have f: "x_exception ?s = Some ew" "x_hasException ?s" "x_results ?s = x_results s"
    using inv i by (auto simp: data_inv_def saveException_write_def)
  have none: "x_pc ?s ! j \<noteq> C_saving" if "j < length outs" for j
    using uniq [OF that] that i len by (cases "j = i") (auto simp: saveException_write_def)
  have "entry_ok outs ?s j" if "j < length outs" for j
    using that i len inv f by (cases "j = i") (auto simp: entry_ok_def data_inv_def saveException_write_def split: sum.splits)
  moreover have "Inl ew \<in> set outs" using i(1,3) by (metis nth_mem)
  ultimately show ?thesis using inv f none unfolding data_inv_def by auto
qed

lemma collect_step_inv:
  assumes "collect_step outs s s'" "collect_inv outs s"
  shows "collect_inv outs s'"
  using assms
proof (induction rule: collect_step.induct)
  case (cs_callback i s s')
  have d: "data_inv outs s" and c: "count_inv outs s" using cs_callback(3) by (simp_all add: collect_inv_def)
  note len = count_invD(1) [OF c] and i = cs_callback(1)
  show ?case
  proof (cases "x_pc s ! i")
    case C_waiting
    show ?thesis
    proof (cases "outs ! i")
      case (Inl ew)
      then have "s' = saveException_exchange i s" using cs_callback(2) C_waiting by simp
      then show ?thesis unfolding collect_inv_def using data_inv_exchange [OF d len i C_waiting Inl]
        count_inv_early [OF c i, of "if x_hasException s then C_decref else C_saving" s'] C_waiting
        by (simp add: decremented_def saveException_exchange_def)
    next
      case (Inr v)
      then have "s' = s\<lparr>x_results := (x_results s)[i := Some v], x_pc := (x_pc s)[i := C_decref]\<rparr>"
        using cs_callback(2) C_waiting by simp
      then show ?thesis unfolding collect_inv_def using data_inv_value [OF d len i C_waiting Inr]
        count_inv_early [OF c i, of C_decref s'] C_waiting by (simp add: decremented_def)
    qed
  next
    case C_saving
    obtain ew where ew: "outs ! i = Inl ew" using cs_callback(2) C_saving by (cases "outs ! i") auto
    then have "s' = saveException_write i ew s" using cs_callback(2) C_saving by simp
    then show ?thesis unfolding collect_inv_def using data_inv_write [OF d len i C_saving ew]
      count_inv_early [OF c i, of C_decref s'] C_saving by (simp add: decremented_def saveException_write_def)
  next
    case C_decref
    then have "s' = decref_sub i s" using cs_callback(2) by (cases "outs ! i") auto
    then show ?thesis unfolding collect_inv_def using decref_sub_count [OF c i C_decref] C_decref
      data_inv_late [OF d len i, of "if 1 \<noteq> x_count s then C_done else C_last" s'] by (simp add: decref_sub_def)
  next
    case C_last
    then have "s' = decref_finish i s" using cs_callback(2) by (cases "outs ! i") auto
    then show ?thesis unfolding collect_inv_def using decref_finish_count [OF c i C_last] C_last
      data_inv_late [OF d len i, of C_done s'] by (simp add: decref_finish_def)
  next
    case C_done
    then show ?thesis using cs_callback(2) by (cases "outs ! i") auto
  qed
qed

interpretation collect_system: invariant_system "collect_init outs" "collect_step outs" "collect_inv outs" for outs
proof
  show "collect_inv outs s" if "collect_init outs s" for s
  proof -
    have s: "s = collectSafe (length outs)" using that by (simp add: collect_init_def)
    have "undecremented (replicate n C_waiting) = n" for n by (induction n) (auto simp: undecremented_def decremented_def)
    then have "count_inv outs s" by (intro count_invI) (auto simp: s collectSafe_def)
    moreover have "data_inv outs s" by (auto simp: data_inv_def s collectSafe_def entry_ok_def split: sum.split)
    ultimately show ?thesis by (simp add: collect_inv_def)
  qed
qed (rule collect_step_inv)

text \<open>Every callback takes at most four steps.\<close>

fun callback_rank :: "callback_pc \<Rightarrow> nat" where
  "callback_rank C_waiting = 4"
| "callback_rank C_saving = 3"
| "callback_rank C_decref = 2"
| "callback_rank C_last = 1"
| "callback_rank C_done = 0"

definition collect_rank :: "('x, 't) collect_context \<Rightarrow> nat" where
  "collect_rank s = sum_list (map callback_rank (x_pc s))"

lemma rank_update:
  assumes "i < length pcs" "callback_rank pc < callback_rank (pcs ! i)"
  shows "sum_list (map callback_rank (pcs[i := pc])) < sum_list (map callback_rank pcs)"
  using assms
proof (induction pcs arbitrary: i)
  case (Cons p pcs)
  then show ?case by (cases i) auto
qed simp

lemma collect_step_rank:
  assumes "collect_step outs s s'" "length (x_pc s) = length outs"
  shows "collect_rank s' < collect_rank s"
  using assms
proof (induction rule: collect_step.induct)
  case (cs_callback i s s')
  have "\<exists>pc. x_pc s' = (x_pc s)[i := pc] \<and> callback_rank pc < callback_rank (x_pc s ! i)"
    using cs_callback(2)
    by (cases "x_pc s ! i"; cases "outs ! i")
      (auto simp: saveException_exchange_def saveException_write_def decref_sub_def decref_finish_def
        intro: exI [of _ C_decref] exI [of _ C_done] exI [of _ "if 1 \<noteq> x_count s then C_done else C_last"]
          exI [of _ "if x_hasException s then C_decref else C_saving"])
  then show ?case using rank_update cs_callback(1,3) by (auto simp: collect_rank_def)
qed

section \<open>Theorems\<close>

text \<open>
  C23: \<open>collectSafe\<close> completes once, after every future has completed: in every interleaving the
  promise is fulfilled at most once, and when it is, no callback has anything left to do.  It
  then holds all values in the order of the futures if all of them succeeded, and otherwise the
  exception of one that failed.  A state in which no callback can take a step has the promise
  fulfilled, and every run ends: each step lowers \<open>collect_rank\<close>.
\<close>

theorem collectSafe_correct:
  assumes "reachable (collect_init outs) (collect_step outs) s" "outs \<noteq> []"
  shows "(x_promise s \<noteq> [] \<longrightarrow> (\<forall>i < length outs. x_pc s ! i = C_done) \<and>
      x_promise s = [if \<exists>t \<in> set outs. isl t then Inl (x_exception s) else Inr (map (\<lambda>t. Some (projr t)) outs)] \<and>
      ((\<exists>t \<in> set outs. isl t) \<longrightarrow> (\<exists>ew. x_exception s = Some ew \<and> Inl ew \<in> set outs))) \<and>
    ((\<forall>s'. \<not> collect_step outs s s') \<longrightarrow> x_promise s \<noteq> []) \<and>
    (\<forall>s'. collect_step outs s s' \<longrightarrow> collect_rank s' < collect_rank s)"
proof -
  have inv: "data_inv outs s" "count_inv outs s" using collect_system.reachable_inv [OF assms(1)] by (simp_all add: collect_inv_def)
  have "(\<forall>i < length outs. x_pc s ! i = C_done) \<and>
      x_promise s = [if \<exists>t \<in> set outs. isl t then Inl (x_exception s) else Inr (map (\<lambda>t. Some (projr t)) outs)] \<and>
      ((\<exists>t \<in> set outs. isl t) \<longrightarrow> (\<exists>ew. x_exception s = Some ew \<and> Inl ew \<in> set outs))" if p: "x_promise s \<noteq> []"
  proof -
    have fin: "x_pc s ! i = C_done" if "i < length outs" for i using count_invD(5) [OF inv(2) that] p by blast
    have val: "x_promise s = [if x_hasException s then Inl (x_exception s) else Inr (x_results s)]"
      using inv(2) p unfolding count_inv_def by metis
    have entry: "case outs ! i of Inr v \<Rightarrow> x_results s ! i = Some v | Inl ew \<Rightarrow> x_hasException s" if "i < length outs" for i
      using inv(1) that fin [OF that] by (auto simp: data_inv_def entry_ok_def split: sum.splits)
    have exn: "x_hasException s \<Longrightarrow> \<exists>ew. x_exception s = Some ew \<and> Inl ew \<in> set outs"
      using inv(1) fin by (auto simp: data_inv_def split: option.splits)
    have has: "x_hasException s \<longleftrightarrow> (\<exists>t \<in> set outs. isl t)"
    proof
      show "\<exists>t \<in> set outs. isl t" if "x_hasException s" using exn [OF that] by force
      show "x_hasException s" if "\<exists>t \<in> set outs. isl t"
        using that entry by (auto simp: in_set_conv_nth split: sum.splits) (metis sum.case(1) sum.collapse(1))
    qed
    have "x_results s = map (\<lambda>t. Some (projr t)) outs" if "\<not> (\<exists>t \<in> set outs. isl t)"
    proof (rule nth_equalityI)
      show len: "length (x_results s) = length (map (\<lambda>t. Some (projr t)) outs)" using inv(1) by (simp add: data_inv_def)
      fix i assume "i < length (x_results s)"
      then have i: "i < length outs" using len by simp
      then have "\<not> isl (outs ! i)" using that by simp
      then show "x_results s ! i = map (\<lambda>t. Some (projr t)) outs ! i" using entry [OF i] i by (cases "outs ! i") auto
    qed
    then show ?thesis using fin val has exn by auto
  qed
  moreover have "x_promise s \<noteq> []" if stuck: "\<forall>s'. \<not> collect_step outs s s'"
  proof
    assume "x_promise s = []"
    then obtain i where i: "i < length outs" "x_pc s ! i \<noteq> C_done" using inv(2) assms(2) unfolding count_inv_def by auto
    have "callback_step i (outs ! i) (x_pc s ! i) s \<noteq> None"
      using i inv(1) by (cases "x_pc s ! i"; cases "outs ! i") (auto simp: data_inv_def entry_ok_def split: sum.splits)
    then show False using stuck i(1) cs_callback by blast
  qed
  moreover have "collect_rank s' < collect_rank s" if "collect_step outs s s'" for s'
    using collect_step_rank [OF that] count_invD(1) [OF inv(2)] by simp
  ultimately show ?thesis by blast
qed

text \<open>A run of two futures, the second of which fails; \<open>is\<close> are the callbacks in the order of their steps.\<close>

fun run_callbacks :: "('x + 't) list \<Rightarrow> nat list \<Rightarrow> ('x, 't) collect_context \<Rightarrow> ('x, 't) collect_context" where
  "run_callbacks outs [] s = s"
| "run_callbacks outs (i # is) s =
     (case callback_step i (outs ! i) (x_pc s ! i) s of
        Some s' \<Rightarrow> if i < length outs then run_callbacks outs is s' else s
      | None \<Rightarrow> s)"

lemma run_callbacks_reachable:
  assumes "reachable (collect_init outs) (collect_step outs) s"
  shows "reachable (collect_init outs) (collect_step outs) (run_callbacks outs is s)"
  using assms
proof (induction "is" arbitrary: s)
  case (Cons i "is")
  have "reachable (collect_init outs) (collect_step outs) s'"
    if "callback_step i (outs ! i) (x_pc s ! i) s = Some s'" "i < length outs" for s'
    by (rule reach_step [OF Cons.prems cs_callback [OF that(2,1)]])
  then show ?case using Cons by (simp split: option.split)
qed simp

definition failed_run :: "(string, nat) collect_context" where
  "failed_run = run_callbacks [Inr 1, Inl ''failed''] [1, 0, 1, 1, 0, 0] (collectSafe 2)"

lemma failed_run_reachable: "reachable (collect_init [Inr 1, Inl ''failed'']) (collect_step [Inr 1, Inl ''failed'']) failed_run"
  unfolding failed_run_def by (intro run_callbacks_reachable reach_init) (simp add: collect_init_def numeral_2_eq_2)

theorem collectSafe_correct_witness: "x_promise failed_run = [Inl (Some ''failed'')] \<and> x_pc failed_run = [C_done, C_done]"
proof -
  have r: "x_promise failed_run \<noteq> []" "x_exception failed_run = Some ''failed''" "x_pc failed_run = [C_done, C_done]"
    by (simp_all add: failed_run_def collectSafe_def saveException_exchange_def saveException_write_def decref_sub_def
        decref_finish_def numeral_2_eq_2)
  show ?thesis using collectSafe_correct [OF failed_run_reachable] r by simp
qed

end
