(* ===== verification/Spawn_Options.thy ===== *)
theory Spawn_Options
  imports Eden_Prelude "HOL-Library.AList" "HOL-Library.Multiset"
begin

text \<open>
  What a child process of \<open>SpawnedProcess.cpp\<close> inherits: \<open>SpawnedProcess::Environment\<close>, the
  descriptors of \<open>SpawnedProcess::Options\<close>, and the command line that the constructor passes to
  \<open>posix_spawnp\<close> (the branches for POSIX systems).

  A \<open>std::unordered_map\<close> is an association list with distinct keys, in the order in which it is
  iterated.  The table of open descriptors of a process maps numbers to open files; \<open>alloc\<close> is
  the number that the kernel chooses for a duplicate, if it has one.  \<open>folly::shellQuote\<close> is a
  parameter.
\<close>

section \<open>Environment\<close>

type_synonym environment = "(string \<times> string) list"

text \<open>The constructor copies the entries of \<open>environ\<close>; \<open>strchr\<close> finds the first \<open>=\<close>.\<close>

fun Environment :: "string list \<Rightarrow> environment \<Rightarrow> environment" where
  "Environment [] m = m"
| "Environment (ent # environ) m =
     (case find_from (\<lambda>c. c = CHR ''='') 0 ent of
        None \<Rightarrow> Environment environ m
      | Some eq \<Rightarrow> Environment environ (AList.update (take eq ent) (drop (eq + 1) ent) m))"

definition env_set :: "string \<Rightarrow> string \<Rightarrow> environment \<Rightarrow> environment" where
  "env_set key val m = AList.update key val m"

fun env_set_pairs :: "(string \<times> string) list \<Rightarrow> environment \<Rightarrow> environment" where
  "env_set_pairs [] m = m"
| "env_set_pairs (p # pairs) m = env_set_pairs pairs (env_set (fst p) (snd p) m)"

definition env_unset :: "string \<Rightarrow> environment \<Rightarrow> environment" where
  "env_unset key m = AList.delete key m"

definition env_clear :: "environment \<Rightarrow> environment" where
  "env_clear m = []"

text \<open>
  \<open>asEnviron\<close>: the array of pointers and the strings occupy one block.  \<open>environ_size\<close> is the
  size computed for the pointers and the strings; \<open>environ_fill\<close> writes the strings one after
  the other and records the offset of each from the end of the array.
\<close>

definition environ_size :: "environment \<Rightarrow> nat \<Rightarrow> nat" where
  "environ_size m pointer =
     fold (\<lambda>it len. len + (length (fst it) + 1 + length (snd it) + 1)) m ((1 + length m) * pointer)"

fun environ_fill :: "environment \<Rightarrow> nat list \<Rightarrow> string \<Rightarrow> nat list \<times> string" where
  "environ_fill [] envp buf = (envp, buf)"
| "environ_fill (it # m) envp buf =
     environ_fill m (envp @ [length buf]) (buf @ fst it @ [CHR ''=''] @ snd it @ [CHR 0x00])"

definition asEnviron :: "environment \<Rightarrow> nat list \<times> string" where
  "asEnviron m = environ_fill m [] []"

definition asWin32EnvBlock :: "environment \<Rightarrow> string" where
  "asWin32EnvBlock m =
     fold (\<lambda>it block. block @ fst it @ [CHR ''=''] @ snd it @ [CHR 0x00]) m []"

text \<open>The C string at an offset of a block: up to the terminator.\<close>

definition c_string_at :: "string \<Rightarrow> nat \<Rightarrow> string" where
  "c_string_at buf offset = takeWhile (\<lambda>c. c \<noteq> CHR 0x00) (drop offset buf)"

section \<open>Descriptors\<close>

type_synonym 'f fd_table = "int \<rightharpoonup> 'f"

record spawn_options =
  o_descriptors :: "(int \<times> int) list"
  o_env :: environment
  o_pipes :: "(int \<times> int) list"
  o_cwd :: "string option"
  o_execPath :: "string option"

text \<open>\<open>emplace\<close> keeps an entry that is already there.\<close>

definition map_emplace :: "'k \<Rightarrow> 'v \<Rightarrow> ('k \<times> 'v) list \<Rightarrow> ('k \<times> 'v) list" where
  "map_emplace k v m = (if map_of m k = None then m @ [(k, v)] else m)"

definition opt_duplicate :: "('f fd_table \<Rightarrow> int option) \<Rightarrow> int \<Rightarrow> 'f fd_table \<Rightarrow> (int \<times> 'f fd_table) result" where
  "opt_duplicate alloc fd t =
     (case alloc t of None \<Rightarrow> Inl (SystemError 24) | Some n \<Rightarrow> Inr (n, t(n := t fd)))"

text \<open>
  \<open>dup2\<close>: a descriptor that already has the target number is duplicated and closed; one that is
  not stored, because the target is taken, is closed.
\<close>

definition add_descriptor :: "int \<Rightarrow> int \<Rightarrow> spawn_options \<Rightarrow> 'f fd_table \<Rightarrow> spawn_options \<times> 'f fd_table" where
  "add_descriptor targetFd fd opts t =
     (opts\<lparr>o_descriptors := map_emplace targetFd fd (o_descriptors opts)\<rparr>,
      if map_of (o_descriptors opts) targetFd = None then t else t(fd := None))"

definition opt_dup2 :: "('f fd_table \<Rightarrow> int option) \<Rightarrow> int \<Rightarrow> int \<Rightarrow> spawn_options \<Rightarrow> 'f fd_table \<Rightarrow> (spawn_options \<times> 'f fd_table) result" where
  "opt_dup2 alloc fd targetFd opts t =
     (if targetFd = fd
      then (case opt_duplicate alloc fd t of
              Inl e \<Rightarrow> Inl e
            | Inr (n, t') \<Rightarrow> Inr (add_descriptor targetFd n opts (t'(fd := None))))
      else Inr (add_descriptor targetFd fd opts t))"

text \<open>
  The first loop of \<open>inheritDescriptor\<close> duplicates the descriptor until its number is not a
  target, and keeps the earlier ones open.  The second loop searches a number for the child.
\<close>

partial_function (option) inherit_source ::
  "('f fd_table \<Rightarrow> int option) \<Rightarrow> (int \<times> int) list \<Rightarrow> int \<Rightarrow> int list \<Rightarrow> 'f fd_table \<Rightarrow> (int \<times> int list \<times> 'f fd_table) result option" where
  "inherit_source alloc descriptors fd tempFds t =
     (if \<exists>d \<in> set descriptors. fst d = fd
      then (case opt_duplicate alloc fd t of
              Inl e \<Rightarrow> Some (Inl e)
            | Inr (n, t') \<Rightarrow> inherit_source alloc descriptors n (tempFds @ [fd]) t')
      else Some (Inr (fd, tempFds, t)))"

function inherit_target :: "(int \<times> int) list \<Rightarrow> int \<Rightarrow> int \<Rightarrow> int" where
  "inherit_target descriptors fd target =
     (if target = fd then inherit_target descriptors fd (target + 1)
      else if \<exists>d \<in> set descriptors. fst d = target \<or> snd d = target then inherit_target descriptors fd (target + 1)
      else target)"
  by auto
termination
proof (relation "measure (\<lambda>(ds, fd, target). card {x \<in> insert fd (fst ` set ds \<union> snd ` set ds). target \<le> x})")
  have less: "card {x \<in> A. target + 1 \<le> x} < card {x \<in> A. target \<le> x}"
    if "finite A" "target \<in> A" for A and target :: int
  proof (rule psubset_card_mono)
    have "target \<in> {x \<in> A. target \<le> x} - {x \<in> A. target + 1 \<le> x}" using that by simp
    moreover have "{x \<in> A. target + 1 \<le> x} \<subseteq> {x \<in> A. target \<le> x}" by auto
    ultimately show "{x \<in> A. target + 1 \<le> x} \<subset> {x \<in> A. target \<le> x}" by blast
  qed (use that in simp)
  show "((ds, fd, target + 1), (ds, fd, target)) \<in> measure (\<lambda>(ds, fd, target). card {x \<in> insert fd (fst ` set ds \<union> snd ` set ds). target \<le> x})"
    if "target = fd" for ds :: "(int \<times> int) list" and fd target
    using less [of "insert fd (fst ` set ds \<union> snd ` set ds)" target] that by simp
  show "((ds, fd, target + 1), (ds, fd, target)) \<in> measure (\<lambda>(ds, fd, target). card {x \<in> insert fd (fst ` set ds \<union> snd ` set ds). target \<le> x})"
    if "\<exists>d \<in> set ds. fst d = target \<or> snd d = target" for ds :: "(int \<times> int) list" and fd target
  proof -
    have "target \<in> insert fd (fst ` set ds \<union> snd ` set ds)" using that by force
    then show ?thesis using less [of "insert fd (fst ` set ds \<union> snd ` set ds)" target] by simp
  qed
qed simp

declare inherit_target.simps [simp del]

definition inheritDescriptor :: "('f fd_table \<Rightarrow> int option) \<Rightarrow> int \<Rightarrow> spawn_options \<Rightarrow> 'f fd_table \<Rightarrow> (int \<times> spawn_options \<times> 'f fd_table) result option" where
  "inheritDescriptor alloc fd opts t =
     (case inherit_source alloc (o_descriptors opts) fd [] t of
        None \<Rightarrow> None
      | Some (Inl e) \<Rightarrow> Some (Inl e)
      | Some (Inr (fd', tempFds, t')) \<Rightarrow>
          let target = inherit_target (o_descriptors opts) fd' 5
          in Some (Inr (target, opts\<lparr>o_descriptors := map_emplace target fd' (o_descriptors opts)\<rparr>,
               fold (\<lambda>fd t. t(fd := None)) tempFds t')))"

definition opt_chdir :: "string \<Rightarrow> spawn_options \<Rightarrow> spawn_options" where
  "opt_chdir path opts = opts\<lparr>o_cwd := Some path\<rparr>"

definition opt_executablePath :: "string \<Rightarrow> spawn_options \<Rightarrow> spawn_options" where
  "opt_executablePath path opts = opts\<lparr>o_execPath := Some path\<rparr>"

text \<open>\<open>pipe\<close>: \<open>rd\<close> and \<open>wr\<close> are the ends of the new pipe.\<close>

definition opt_pipe :: "('f fd_table \<Rightarrow> int option) \<Rightarrow> int \<Rightarrow> bool \<Rightarrow> int \<Rightarrow> int \<Rightarrow> spawn_options \<Rightarrow> 'f fd_table \<Rightarrow> (spawn_options \<times> 'f fd_table) result" where
  "opt_pipe alloc targetFd childRead rd wr opts t =
     (if map_of (o_pipes opts) targetFd \<noteq> None then Inl RuntimeError
      else if childRead
           then opt_dup2 alloc rd targetFd (opts\<lparr>o_pipes := map_emplace targetFd wr (o_pipes opts)\<rparr>) t
           else opt_dup2 alloc wr targetFd (opts\<lparr>o_pipes := map_emplace targetFd rd (o_pipes opts)\<rparr>) t)"

definition pipeStdin :: "('f fd_table \<Rightarrow> int option) \<Rightarrow> int \<Rightarrow> int \<Rightarrow> spawn_options \<Rightarrow> 'f fd_table \<Rightarrow> (spawn_options \<times> 'f fd_table) result" where
  "pipeStdin alloc rd wr opts t = opt_pipe alloc 0 True rd wr opts t"

definition pipeStdout :: "('f fd_table \<Rightarrow> int option) \<Rightarrow> int \<Rightarrow> int \<Rightarrow> spawn_options \<Rightarrow> 'f fd_table \<Rightarrow> (spawn_options \<times> 'f fd_table) result" where
  "pipeStdout alloc rd wr opts t = opt_pipe alloc 1 False rd wr opts t"

definition pipeStderr :: "('f fd_table \<Rightarrow> int option) \<Rightarrow> int \<Rightarrow> int \<Rightarrow> spawn_options \<Rightarrow> 'f fd_table \<Rightarrow> (spawn_options \<times> 'f fd_table) result" where
  "pipeStderr alloc rd wr opts t = opt_pipe alloc 2 False rd wr opts t"

section \<open>The constructor\<close>

text \<open>
  The arguments, the path and the environment that are passed to \<open>posix_spawnp\<close>.  A working
  directory is set by a shell that then executes the program.
\<close>

definition spawn_command :: "(string \<Rightarrow> string) \<Rightarrow> string list \<Rightarrow> spawn_options \<Rightarrow> (string list \<times> string \<times> environment) result" where
  "spawn_command shellQuote args opts =
     (if args = [] then Inl CheckFailed
      else case o_cwd opts of
        None \<Rightarrow> Inr (args, case o_execPath opts of Some p \<Rightarrow> p | None \<Rightarrow> hd args, o_env opts)
      | Some cwd \<Rightarrow>
          let (args', env') =
                (case o_execPath opts of
                   Some p \<Rightarrow> (p # tl args, env_set ''BASH_ARGV0'' (hd args) (env_set ''ARGV0'' (hd args) (o_env opts)))
                 | None \<Rightarrow> (args, o_env opts));
              shellCommand = fold (\<lambda>word cmd. cmd @ '' '' @ shellQuote word) args' (''cd '' @ shellQuote cwd @ '' && exec'')
          in Inr ([''/bin/sh'', ''-c'', shellCommand], ''/bin/sh'', env'))"

text \<open>
  The actions of the child: \<open>dup2\<close> for every descriptor, in the order of the map; \<open>None\<close> if a
  source is not open.
\<close>

fun child_dup2 :: "(int \<times> int) list \<Rightarrow> 'f fd_table \<Rightarrow> 'f fd_table option" where
  "child_dup2 [] t = Some t"
| "child_dup2 (d # ds) t = (case t (snd d) of None \<Rightarrow> None | Some f \<Rightarrow> child_dup2 ds (t(fst d \<mapsto> f)))"

section \<open>Environment blocks\<close>

definition env_entry :: "string \<times> string \<Rightarrow> string" where
  "env_entry it = fst it @ [CHR ''=''] @ snd it"

definition no_nul :: "environment \<Rightarrow> bool" where
  "no_nul m \<longleftrightarrow> (\<forall>it \<in> set m. CHR 0x00 \<notin> set (fst it) \<union> set (snd it))"

lemma environ_fill_spec:
  assumes "environ_fill m envp buf = (envp', buf')" "no_nul m"
  shows "\<exists>offs tail. envp' = envp @ offs \<and> buf' = buf @ tail \<and> length offs = length m \<and>
    (\<forall>i < length m. c_string_at buf' (offs ! i) = env_entry (m ! i)) \<and>
    length buf' = length buf + sum_list (map (\<lambda>it. length (env_entry it) + 1) m)"
  using assms
proof (induction m arbitrary: envp buf)
  case (Cons it m)
  let ?buf = "buf @ fst it @ [CHR ''=''] @ snd it @ [CHR 0x00]"
  obtain offs tail where IH: "envp' = (envp @ [length buf]) @ offs" "buf' = ?buf @ tail" "length offs = length m"
    "\<forall>i < length m. c_string_at buf' (offs ! i) = env_entry (m ! i)"
    "length buf' = length ?buf + sum_list (map (\<lambda>it. length (env_entry it) + 1) m)"
    using Cons.IH [of "envp @ [length buf]" ?buf] Cons.prems by (auto simp: no_nul_def)
  have nn: "CHR 0x00 \<notin> set (fst it @ [CHR ''=''] @ snd it)" using Cons.prems(2) by (simp add: no_nul_def)
  have "c_string_at buf' (length buf) = takeWhile (\<lambda>c. c \<noteq> CHR 0x00) ((fst it @ [CHR ''=''] @ snd it) @ CHR 0x00 # tail)"
    by (simp add: c_string_at_def IH(2))
  also have "\<dots> = env_entry it"
    using nn by (subst takeWhile_append2) (auto simp: env_entry_def)
  finally have "c_string_at buf' (length buf) = env_entry it" .
  then have "c_string_at buf' ((length buf # offs) ! i) = env_entry ((it # m) ! i)" if "i < length (it # m)" for i
    using that IH(4) by (cases i) auto
  then show ?case using IH(1,2,3,5)
    by (intro exI [of _ "length buf # offs"] exI [of _ "fst it @ [CHR ''=''] @ snd it @ [CHR 0x00] @ tail"])
      (simp add: env_entry_def)
qed simp

lemma environ_size_sum: "environ_size m pointer = (1 + length m) * pointer + sum_list (map (\<lambda>it. length (env_entry it) + 1) m)"
proof -
  have "fold (\<lambda>it len. len + (length (fst it) + 1 + length (snd it) + 1)) m n = n + sum_list (map (\<lambda>it. length (env_entry it) + 1) m)" for n
    by (induction m arbitrary: n) (simp_all add: env_entry_def)
  then show ?thesis by (simp add: environ_size_def)
qed

lemma alist_update_fresh: "k \<notin> fst ` set al \<Longrightarrow> AList.update k v al = al @ [(k, v)]"
  by (induction al) auto

lemma Environment_entries:
  assumes "distinct (map fst (acc @ m))" "\<forall>it \<in> set m. CHR ''='' \<notin> set (fst it)"
  shows "Environment (map env_entry m) acc = acc @ m"
  using assms
proof (induction m arbitrary: acc)
  case (Cons it m)
  obtain k v where it: "it = (k, v)" by fastforce
  have "find_from (\<lambda>c. c = CHR ''='') 0 (env_entry it) = Some (length k)"
  proof -
    have "takeWhile (\<lambda>c. c \<noteq> CHR ''='') (k @ CHR ''='' # v) = k"
      using Cons.prems(2) by (subst takeWhile_append2) (auto simp: it)
    then show ?thesis by (simp add: it env_entry_def find_from_eq)
  qed
  moreover have "AList.update k v acc = acc @ [(k, v)]"
    using Cons.prems(1) by (intro alist_update_fresh) (auto simp: it)
  moreover have "distinct (map fst ((acc @ [(k, v)]) @ m))" using Cons.prems(1) by (simp add: it)
  ultimately show ?case using Cons.IH [of "acc @ [(k, v)]"] Cons.prems by (simp add: it env_entry_def)
qed simp

section \<open>Descriptors in the child\<close>

text \<open>No number is the target of one descriptor and the source of another.\<close>

definition no_clobber :: "(int \<times> int) list \<Rightarrow> bool" where
  "no_clobber ds \<longleftrightarrow> distinct (map fst ds) \<and> (\<forall>d \<in> set ds. \<forall>e \<in> set ds. fst d \<noteq> snd e)"

lemma child_dup2_spec:
  assumes "no_clobber ds" "\<forall>d \<in> set ds. t (snd d) \<noteq> None"
  shows "child_dup2 ds t = Some (\<lambda>x. case map_of ds x of Some s \<Rightarrow> t s | None \<Rightarrow> t x)"
  using assms
proof (induction ds arbitrary: t)
  case (Cons d ds)
  obtain a s where d: "d = (a, s)" by fastforce
  obtain f where f: "t s = Some f" using Cons.prems(2) by (auto simp: d)
  have nc: "no_clobber ds" and fresh: "a \<notin> fst ` set ds" and src: "\<forall>e \<in> set ds. snd e \<noteq> a"
    using Cons.prems(1) by (auto simp: no_clobber_def d)
  have IH: "child_dup2 ds (t(a \<mapsto> f)) = Some (\<lambda>x. case map_of ds x of Some s \<Rightarrow> (t(a \<mapsto> f)) s | None \<Rightarrow> (t(a \<mapsto> f)) x)"
    using Cons.prems(2) src by (intro Cons.IH nc) auto
  have "(case map_of ds x of Some s \<Rightarrow> (t(a \<mapsto> f)) s | None \<Rightarrow> (t(a \<mapsto> f)) x) =
    (case map_of (d # ds) x of Some s \<Rightarrow> t s | None \<Rightarrow> t x)" for x
  proof (cases "map_of ds x")
    case None
    then show ?thesis using f by (simp add: d)
  next
    case (Some r)
    then have "(x, r) \<in> set ds" by (rule map_of_SomeD)
    then have "x \<noteq> a" "r \<noteq> a" using fresh src by force+
    then show ?thesis using Some by (simp add: d)
  qed
  then show ?case using IH f by (simp add: d)
qed simp

lemma child_dup2_order:
  assumes "no_clobber ds" "\<forall>d \<in> set ds. t (snd d) \<noteq> None" "mset ds' = mset ds"
  shows "child_dup2 ds' t = child_dup2 ds t"
proof -
  have s: "set ds' = set ds" using assms(3) by (metis set_mset_mset)
  have "distinct (map fst ds')"
    using assms(1,3) mset_eq_imp_distinct_iff [of "map fst ds'" "map fst ds"] by (simp add: no_clobber_def)
  then have nc: "no_clobber ds'" using assms(1) s by (simp add: no_clobber_def)
  have "map_of ds' = map_of ds"
  proof
    fix x
    have "map_of ds' x = Some y \<longleftrightarrow> map_of ds x = Some y" for y
      using nc assms(1) s by (simp add: no_clobber_def)
    then show "map_of ds' x = map_of ds x" by (metis not_None_eq)
  qed
  then show ?thesis using child_dup2_spec [OF nc, of t] child_dup2_spec [OF assms(1,2)] assms(2) s by simp
qed

lemma inherit_target_fresh:
  "\<exists>r \<ge> target. inherit_target ds fd target = r \<and> r \<noteq> fd \<and> (\<forall>d \<in> set ds. fst d \<noteq> r \<and> snd d \<noteq> r)"
proof (induction ds fd target rule: inherit_target.induct)
  case (1 ds fd target)
  show ?case
  proof (cases "target = fd \<or> (\<exists>d \<in> set ds. fst d = target \<or> snd d = target)")
    case True
    then have "inherit_target ds fd target = inherit_target ds fd (target + 1)" by (subst inherit_target.simps) auto
    moreover have "\<exists>r \<ge> target + 1. inherit_target ds fd (target + 1) = r \<and> r \<noteq> fd \<and> (\<forall>d \<in> set ds. fst d \<noteq> r \<and> snd d \<noteq> r)"
      using 1 True by blast
    ultimately show ?thesis by force
  next
    case False
    then have "inherit_target ds fd target = target" by (subst inherit_target.simps) auto
    then show ?thesis using False by auto
  qed
qed

definition alloc_law :: "('f fd_table \<Rightarrow> int option) \<Rightarrow> bool" where
  "alloc_law alloc \<longleftrightarrow> (\<forall>t n. alloc t = Some n \<longrightarrow> 0 \<le> n \<and> t n = None)"

lemma inherit_source_returns:
  assumes law: "alloc_law alloc" and f: "t fd = Some f"
  shows "\<exists>r. inherit_source alloc ds fd temps t = Some r \<and>
    (case r of Inl e \<Rightarrow> True | Inr (fd', temps', t') \<Rightarrow>
       fd' \<notin> fst ` set ds \<and> t' fd' = Some f \<and> t \<subseteq>\<^sub>m t' \<and>
       (\<exists>new. temps' = temps @ new \<and> set new \<subseteq> {fd} \<union> - dom t \<and> fd' \<notin> set new \<and> (fd' = fd \<or> t fd' = None)))"
  using f
proof (induction "card (fst ` set ds - dom t)" arbitrary: fd temps t rule: less_induct)
  case less
  show ?case
  proof (cases "\<exists>d \<in> set ds. fst d = fd")
    case False
    then have "inherit_source alloc ds fd temps t = Some (Inr (fd, temps, t))" by (subst inherit_source.simps) simp
    then show ?thesis using False less.prems by (auto simp: image_iff)
  next
    case True
    show ?thesis
    proof (cases "alloc t")
      case None
      then have "inherit_source alloc ds fd temps t = Some (Inl (SystemError 24))"
        using True by (subst inherit_source.simps) (simp add: opt_duplicate_def)
      then show ?thesis by simp
    next
      case (Some n)
      let ?t = "t(n := t fd)"
      have n: "t n = None" using law Some by (simp add: alloc_law_def)
      then have ne: "n \<noteq> fd" using less.prems by auto
      have step: "inherit_source alloc ds fd temps t = inherit_source alloc ds n (temps @ [fd]) ?t"
        using True Some by (subst inherit_source.simps) (simp add: opt_duplicate_def)
      have tn: "?t n = Some f" using less.prems by simp
      have sub: "t \<subseteq>\<^sub>m ?t" using n by (auto simp: map_le_def)
      show ?thesis
      proof (cases "n \<in> fst ` set ds")
        case False
        then have "inherit_source alloc ds n (temps @ [fd]) ?t = Some (Inr (n, temps @ [fd], ?t))"
          by (subst inherit_source.simps) (auto simp: image_iff)
        then show ?thesis using step False tn sub n ne by auto
      next
        case True
        have dom_t: "dom ?t = insert n (dom t)" using less.prems by auto
        then have "fst ` set ds - dom ?t \<subset> fst ` set ds - dom t" using True n by auto
        then have "card (fst ` set ds - dom ?t) < card (fst ` set ds - dom t)" by (intro psubset_card_mono) auto
        from less.hyps [OF this tn, of "temps @ [fd]"] obtain r where
          r: "inherit_source alloc ds n (temps @ [fd]) ?t = Some r" and
          c: "case r of Inl e \<Rightarrow> True | Inr (fd', temps', t') \<Rightarrow> fd' \<notin> fst ` set ds \<and> t' fd' = Some f \<and> ?t \<subseteq>\<^sub>m t' \<and>
            (\<exists>new. temps' = (temps @ [fd]) @ new \<and> set new \<subseteq> {n} \<union> - dom ?t \<and> fd' \<notin> set new \<and> (fd' = n \<or> ?t fd' = None))"
          by blast
        show ?thesis
        proof (cases r)
          case (Inr q)
          obtain fd' temps' t' new where q: "q = (fd', temps', t')" "fd' \<notin> fst ` set ds" "t' fd' = Some f" "?t \<subseteq>\<^sub>m t'"
            "temps' = (temps @ [fd]) @ new" "set new \<subseteq> {n} \<union> - dom ?t" "fd' \<notin> set new" "fd' = n \<or> ?t fd' = None"
            using c Inr by (cases q) auto
          have "fd' \<noteq> fd" using q(8) ne less.prems by auto
          moreover have "t fd' = None" using q(8) n by (auto split: if_splits)
          moreover have "set (fd # new) \<subseteq> {fd} \<union> - dom t" using q(6) n dom_t by auto
          ultimately show ?thesis using step r Inr q sub
            by (auto intro: map_le_trans intro!: exI [of _ "fd # new"])
        qed (use step r in simp)
      qed
    qed
  qed
qed

lemma fold_close: "fold (\<lambda>fd t. t(fd := None)) fds t x = (if x \<in> set fds then None else t x)"
  by (induction fds arbitrary: t) auto

lemma inheritDescriptor_spec:
  assumes law: "alloc_law alloc" and f: "t fd = Some f" and nc: "no_clobber (o_descriptors opts)"
    and own: "fd \<notin> snd ` set (o_descriptors opts)" and opened: "\<forall>d \<in> set (o_descriptors opts). t (snd d) \<noteq> None"
  shows "\<exists>r. inheritDescriptor alloc fd opts t = Some r \<and>
    (case r of Inl e \<Rightarrow> True | Inr (target, opts', t') \<Rightarrow>
       5 \<le> target \<and> (\<exists>fd'. o_descriptors opts' = o_descriptors opts @ [(target, fd')] \<and> t' fd' = Some f) \<and>
       no_clobber (o_descriptors opts') \<and> (\<forall>d \<in> set (o_descriptors opts). t' (snd d) = t (snd d)))"
proof -
  let ?ds = "o_descriptors opts"
  obtain r where r: "inherit_source alloc ?ds fd [] t = Some r"
    and c: "case r of Inl e \<Rightarrow> True | Inr (fd', temps', t') \<Rightarrow>
       fd' \<notin> fst ` set ?ds \<and> t' fd' = Some f \<and> t \<subseteq>\<^sub>m t' \<and>
       (\<exists>new. temps' = [] @ new \<and> set new \<subseteq> {fd} \<union> - dom t \<and> fd' \<notin> set new \<and> (fd' = fd \<or> t fd' = None))"
    using inherit_source_returns [where t = t and fd = fd and f = f and ds = ?ds and temps = "[]", OF law f] by blast
  show ?thesis
  proof (cases r)
    case (Inl e)
    then show ?thesis using r by (simp add: inheritDescriptor_def)
  next
    case (Inr q)
    obtain fd' temps t' where q: "q = (fd', temps, t')" "fd' \<notin> fst ` set ?ds" "t' fd' = Some f" "t \<subseteq>\<^sub>m t'"
      "set temps \<subseteq> {fd} \<union> - dom t" "fd' \<notin> set temps"
      using c Inr by (cases q) auto
    let ?target = "inherit_target ?ds fd' 5" and ?t = "fold (\<lambda>fd t. t(fd := None)) temps t'"
    have tg: "5 \<le> ?target" "?target \<noteq> fd'" "\<forall>d \<in> set ?ds. fst d \<noteq> ?target \<and> snd d \<noteq> ?target"
      using inherit_target_fresh [of 5 ?ds fd'] by auto
    have "map_of ?ds ?target = None" using tg(3) by (auto simp: map_of_eq_None_iff)
    then have eq: "inheritDescriptor alloc fd opts t =
      Some (Inr (?target, opts\<lparr>o_descriptors := ?ds @ [(?target, fd')]\<rparr>, ?t))"
      using r Inr q(1) by (simp add: inheritDescriptor_def map_emplace_def Let_def)
    have "no_clobber (?ds @ [(?target, fd')])" using nc tg q(2) by (auto simp: no_clobber_def image_iff)
    moreover have "?t fd' = Some f" using q(3,6) by (simp add: fold_close)
    moreover have "?t (snd d) = t (snd d)" if "d \<in> set ?ds" for d
    proof -
      obtain g where g: "t (snd d) = Some g" using opened \<open>d \<in> set ?ds\<close> by blast
      then have "snd d \<notin> set temps" "t' (snd d) = Some g"
        using q(4,5) own \<open>d \<in> set ?ds\<close> by (auto simp: map_le_def dom_def)
      then show ?thesis using g by (simp add: fold_close)
    qed
    ultimately show ?thesis using eq tg(1) by auto
  qed
qed

section \<open>Theorems\<close>

text \<open>
  \<open>inheritDescriptor\<close> terminates, and unless the process runs out of descriptors it returns
  a number of at least 5 under which the child finds the open file: whatever the order in which
  the descriptors are duplicated in the child, the returned number refers to the inherited file
  and every descriptor registered before still refers to its own.
\<close>

theorem inheritDescriptor_correct:
  assumes "alloc_law alloc" "t fd = Some f" "no_clobber (o_descriptors opts)"
    "fd \<notin> snd ` set (o_descriptors opts)" "\<forall>d \<in> set (o_descriptors opts). t (snd d) \<noteq> None"
  shows "(\<exists>r. inheritDescriptor alloc fd opts t = Some r) \<and>
    (\<forall>target opts' t' order. inheritDescriptor alloc fd opts t = Some (Inr (target, opts', t')) \<and>
       mset order = mset (o_descriptors opts') \<longrightarrow>
       5 \<le> target \<and> no_clobber (o_descriptors opts') \<and>
       (\<exists>child. child_dup2 order t' = Some child \<and> child target = Some f \<and>
          (\<forall>d \<in> set (o_descriptors opts). child (fst d) = t (snd d))))"
proof -
  obtain r where r: "inheritDescriptor alloc fd opts t = Some r" and c: "case r of Inl e \<Rightarrow> True | Inr (target, opts', t') \<Rightarrow>
       5 \<le> target \<and> (\<exists>fd'. o_descriptors opts' = o_descriptors opts @ [(target, fd')] \<and> t' fd' = Some f) \<and>
       no_clobber (o_descriptors opts') \<and> (\<forall>d \<in> set (o_descriptors opts). t' (snd d) = t (snd d))"
    using inheritDescriptor_spec [OF assms] by blast
  have "5 \<le> target \<and> no_clobber (o_descriptors opts') \<and> (\<exists>child. child_dup2 order t' = Some child \<and> child target = Some f \<and>
    (\<forall>d \<in> set (o_descriptors opts). child (fst d) = t (snd d)))"
    if eq: "inheritDescriptor alloc fd opts t = Some (Inr (target, opts', t'))" and ord: "mset order = mset (o_descriptors opts')"
    for target opts' t' order
  proof -
    obtain fd' where s: "5 \<le> target" "o_descriptors opts' = o_descriptors opts @ [(target, fd')]" "t' fd' = Some f"
      "no_clobber (o_descriptors opts')" "\<forall>d \<in> set (o_descriptors opts). t' (snd d) = t (snd d)"
      using c r eq by auto
    let ?ds = "o_descriptors opts'"
    have opened: "\<forall>d \<in> set ?ds. t' (snd d) \<noteq> None" using s assms(5) by auto
    have run: "child_dup2 order t' = Some (\<lambda>x. case map_of ?ds x of Some s \<Rightarrow> t' s | None \<Rightarrow> t' x)"
      using child_dup2_order [OF s(4) opened ord] child_dup2_spec [OF s(4) opened] by simp
    have at: "map_of ?ds (fst d) = Some (snd d)" if "d \<in> set ?ds" for d
      using that s(4) map_of_is_SomeI [of ?ds "fst d" "snd d"] by (simp add: no_clobber_def)
    have "map_of ?ds target = Some fd'" using at [of "(target, fd')"] s(2) by simp
    moreover have "map_of ?ds (fst d) = Some (snd d)" if "d \<in> set (o_descriptors opts)" for d using at [of d] that s(2) by simp
    ultimately show ?thesis using run s(1,3-5) by simp
  qed
  then show ?thesis using r by blast
qed

text \<open>The lowest free number, as POSIX requires of \<open>dup\<close>, for tables with fewer than \<open>n\<close> entries.\<close>

definition lowest_fd :: "nat \<Rightarrow> 'f fd_table \<Rightarrow> int option" where
  "lowest_fd n t = find (\<lambda>i. t i = None) (map int [0..<n])"

lemma lowest_fd_law: "alloc_law (lowest_fd n)"
  by (auto simp: alloc_law_def lowest_fd_def find_Some_iff)

definition no_options :: spawn_options where
  "no_options = \<lparr>o_descriptors = [], o_env = [], o_pipes = [], o_cwd = None, o_execPath = None\<rparr>"

definition stdio_table :: "string fd_table" where
  "stdio_table = [0 \<mapsto> ''stdin'', 1 \<mapsto> ''stdout'', 2 \<mapsto> ''stderr'', 7 \<mapsto> ''log'', 9 \<mapsto> ''socket'']"

theorem inheritDescriptor_correct_witness:
  "\<exists>target opts' t'. inheritDescriptor (lowest_fd 16) 9 (no_options\<lparr>o_descriptors := [(9, 7)]\<rparr>) stdio_table = Some (Inr (target, opts', t')) \<and>
    target = 5 \<and> (\<exists>child. child_dup2 (rev (o_descriptors opts')) t' = Some child \<and> child 5 = Some ''socket'' \<and> child 9 = Some ''log'')"
proof -
  have "\<exists>opts' t'. inheritDescriptor (lowest_fd 16) 9 (no_options\<lparr>o_descriptors := [(9, 7)]\<rparr>) stdio_table = Some (Inr (5, opts', t'))"
    by (simp add: inheritDescriptor_def inherit_source.simps inherit_target.simps opt_duplicate_def lowest_fd_def no_options_def
        stdio_table_def upt_rec)
  then obtain opts' t' where eq: "inheritDescriptor (lowest_fd 16) 9 (no_options\<lparr>o_descriptors := [(9, 7)]\<rparr>) stdio_table = Some (Inr (5, opts', t'))"
    by blast
  let ?opts = "no_options\<lparr>o_descriptors := [(9, 7)]\<rparr>"
  have h: "stdio_table 9 = Some ''socket''" "no_clobber (o_descriptors ?opts)" "9 \<notin> snd ` set (o_descriptors ?opts)"
    "\<forall>d \<in> set (o_descriptors ?opts). stdio_table (snd d) \<noteq> None"
    by (simp_all add: stdio_table_def no_clobber_def)
  have "\<exists>child. child_dup2 (rev (o_descriptors opts')) t' = Some child \<and> child 5 = Some ''socket'' \<and>
    (\<forall>d \<in> set (o_descriptors ?opts). child (fst d) = stdio_table (snd d))"
    using inheritDescriptor_correct [where alloc = "lowest_fd 16" and t = stdio_table and fd = 9 and f = "''socket''" and opts = ?opts,
        OF lowest_fd_law h] eq mset_rev [of "o_descriptors opts'"] by blast
  then show ?thesis using eq by (auto simp: stdio_table_def)
qed

text \<open>
  \<open>dup2\<close> does not look whether its source is the target of another descriptor.  After file 7
  was inherited as number 5, a file that is open as number 5 in the parent and is passed as the
  standard output of the child may be replaced by file 7: with the map iterated in the order of
  insertion, the child's standard output is the log.
\<close>

theorem dup2_source_clobbered:
  "let t = stdio_table(5 \<mapsto> ''output'') in
   case inheritDescriptor (lowest_fd 16) 7 no_options stdio_table of
     Some (Inr (target, opts, t0)) \<Rightarrow>
       (case opt_dup2 (lowest_fd 16) 5 1 opts t of
          Inr (opts', t') \<Rightarrow> target = 5 \<and> t' 5 = Some ''output'' \<and>
            (case child_dup2 (o_descriptors opts') t' of Some child \<Rightarrow> child 1 = Some ''log'' | None \<Rightarrow> False)
        | Inl e \<Rightarrow> False)
   | _ \<Rightarrow> False"
  by (simp add: inheritDescriptor_def inherit_source.simps inherit_target.simps no_options_def stdio_table_def
      map_emplace_def opt_dup2_def add_descriptor_def)

text \<open>
  The environment block is written within the memory allocated for it, the array points to
  one terminated string \<open>KEY=VALUE\<close> per variable, and reading such an array back gives the same
  environment.
\<close>

theorem environ_roundtrip:
  assumes "no_nul m" "distinct (map fst m)" "\<forall>it \<in> set m. CHR ''='' \<notin> set (fst it)"
  shows "(1 + length (fst (asEnviron m))) * pointer + length (snd (asEnviron m)) = environ_size m pointer \<and>
    map (c_string_at (snd (asEnviron m))) (fst (asEnviron m)) = map env_entry m \<and>
    Environment (map (c_string_at (snd (asEnviron m))) (fst (asEnviron m))) [] = m \<and>
    asWin32EnvBlock m = snd (asEnviron m)"
proof -
  obtain envp buf where e: "environ_fill m [] [] = (envp, buf)" by fastforce
  have s: "length envp = length m" "\<forall>i < length m. c_string_at buf (envp ! i) = env_entry (m ! i)"
    "length buf = sum_list (map (\<lambda>it. length (env_entry it) + 1) m)"
    using environ_fill_spec [OF e assms(1)] by auto
  have strings: "map (c_string_at buf) envp = map env_entry m" using s(1,2) by (simp add: list_eq_iff_nth_eq)
  have "snd (environ_fill m' envp buf) = fold (\<lambda>it block. block @ fst it @ [CHR ''=''] @ snd it @ [CHR 0x00]) m' buf"
    for m' envp buf by (induction m' arbitrary: envp buf) auto
  from this [of m "[]" "[]"] have "asWin32EnvBlock m = buf" using e by (simp add: asWin32EnvBlock_def)
  then show ?thesis using e s(1,3) strings Environment_entries [of "[]" m] assms(2,3)
    by (simp add: asEnviron_def environ_size_sum del: Environment.simps)
qed

theorem environ_roundtrip_witness:
  "environ_size [(''A'', ''1''), (''PATH'', ''x=y'')] 8 = 37 \<and>
    Environment (map (c_string_at (snd (asEnviron [(''A'', ''1''), (''PATH'', ''x=y'')])))
      (fst (asEnviron [(''A'', ''1''), (''PATH'', ''x=y'')]))) [] = [(''A'', ''1''), (''PATH'', ''x=y'')]"
proof -
  have "no_nul [(''A'', ''1''), (''PATH'', ''x=y'')]" "distinct (map fst [(''A'', ''1''), (''PATH'', ''x=y'')])"
    "\<forall>it \<in> set [(''A'', ''1''), (''PATH'', ''x=y'')]. CHR ''='' \<notin> set (fst it)"
    by (simp_all add: no_nul_def)
  then have "Environment (map (c_string_at (snd (asEnviron [(''A'', ''1''), (''PATH'', ''x=y'')])))
      (fst (asEnviron [(''A'', ''1''), (''PATH'', ''x=y'')]))) [] = [(''A'', ''1''), (''PATH'', ''x=y'')]"
    using environ_roundtrip by blast
  then show ?thesis by (simp add: environ_size_def del: Environment.simps)
qed

text \<open>
  What is executed.  Without a working directory it is the executable path, or the first
  argument, with the arguments as given.  With one it is a shell, whose command changes into the
  directory and then executes the quoted words, the executable path in place of the first
  argument, which is then passed in the environment.
\<close>

theorem spawn_command_correct:
  assumes "args \<noteq> []"
  shows "spawn_command Q args opts =
    Inr (case o_cwd opts of
      None \<Rightarrow> (args, case o_execPath opts of Some p \<Rightarrow> p | None \<Rightarrow> hd args, o_env opts)
    | Some cwd \<Rightarrow>
        ([''/bin/sh'', ''-c'', join '' '' ([''cd'', Q cwd, ''&&'', ''exec''] @
            map Q ((case o_execPath opts of Some p \<Rightarrow> p | None \<Rightarrow> hd args) # tl args))],
         ''/bin/sh'',
         case o_execPath opts of
           None \<Rightarrow> o_env opts
         | Some p \<Rightarrow> env_set_pairs [(''ARGV0'', hd args), (''BASH_ARGV0'', hd args)] (o_env opts)))"
proof -
  have words: "fold (\<lambda>word cmd. cmd @ '' '' @ Q word) ws acc = join '' '' (acc # map Q ws)" for ws acc
  proof (induction ws arbitrary: acc)
    case (Cons w ws)
    have "join '' '' ((acc @ '' '' @ Q w) # map Q ws) = acc @ '' '' @ join '' '' (Q w # map Q ws)"
      by (cases ws) simp_all
    then show ?case using Cons by simp
  qed simp
  have four: "join '' '' ((''cd '' @ c @ '' && exec'') # ws) = join '' '' ([''cd'', c, ''&&'', ''exec''] @ ws)" for c ws
    by (cases ws) simp_all
  have cmd: "fold (\<lambda>word cmd. cmd @ '' '' @ Q word) ws (''cd '' @ Q c @ '' && exec'') = join '' '' ([''cd'', Q c, ''&&'', ''exec''] @ map Q ws)"
    for c ws unfolding words by (rule four)
  show ?thesis
  proof (cases "o_cwd opts")
    case None
    then show ?thesis using assms by (simp add: spawn_command_def)
  next
    case (Some cwd)
    then show ?thesis using assms unfolding spawn_command_def cmd
      by (cases "o_execPath opts") (simp_all add: env_set_def)
  qed
qed

end
