(* ===== verification/Spawned_Process.thy ===== *)
theory Spawned_Process
  imports Transition_System Eden_Prelude
begin

text \<open>
  \<open>ProcessStatus\<close> and the life of a \<open>SpawnedProcess\<close> after it was started, of
  \<open>SpawnedProcess.cpp\<close> (the branches for POSIX systems): waiting, polling, signals, and reading
  the output of the child.

  The kernel is a state of type \<open>'k\<close> with the system calls of \<open>proc_kernel\<close>; \<open>waitpid\<close> returns
  the value, the raw status and \<open>errno\<close>.  \<open>pr_trace\<close> is a ghost field, the system calls made on
  the process.  Times are in milliseconds.
\<close>

section \<open>Process status\<close>

datatype proc_state = NotStarted | Running | Exited | Killed

record ProcessStatus =
  ps_state :: proc_state
  ps_status :: int

text \<open>The macros of \<open>sys/wait.h\<close>.\<close>

definition WIFEXITED :: "int \<Rightarrow> bool" where
  "WIFEXITED s \<longleftrightarrow> s mod 128 = 0"

definition WIFSIGNALED :: "int \<Rightarrow> bool" where
  "WIFSIGNALED s \<longleftrightarrow> 0 < s mod 128 \<and> s mod 128 < 127"

definition WEXITSTATUS :: "int \<Rightarrow> int" where
  "WEXITSTATUS s = s div 256 mod 256"

definition WTERMSIG :: "int \<Rightarrow> int" where
  "WTERMSIG s = s mod 128"

definition fromWaitStatus :: "int \<Rightarrow> ProcessStatus" where
  "fromWaitStatus rawStatus =
     (if WIFEXITED rawStatus then \<lparr>ps_state = Exited, ps_status = rawStatus\<rparr>
      else if WIFSIGNALED rawStatus then \<lparr>ps_state = Killed, ps_status = rawStatus\<rparr>
      else \<lparr>ps_state = Exited, ps_status = rawStatus\<rparr>)"

definition exitStatus :: "ProcessStatus \<Rightarrow> int" where
  "exitStatus st = (if ps_state st = Exited then WEXITSTATUS (ps_status st) else 1)"

definition killSignal :: "ProcessStatus \<Rightarrow> int" where
  "killSignal st = (if ps_state st = Killed then WTERMSIG (ps_status st) else 0)"

definition status_str :: "ProcessStatus \<Rightarrow> string" where
  "status_str st =
     (case ps_state st of
        NotStarted \<Rightarrow> ''not started''
      | Running \<Rightarrow> ''running''
      | Exited \<Rightarrow> ''exited with status '' @ decimal (nat (exitStatus st))
      | Killed \<Rightarrow> ''killed by signal '' @ decimal (nat (killSignal st)))"

section \<open>The process\<close>

abbreviation ECHILD :: nat where "ECHILD \<equiv> 10"

abbreviation EINTR_p :: nat where "EINTR_p \<equiv> 4"

datatype sys_event = Ev_wait bool int nat | Ev_kill int

record 'k proc_kernel =
  k_waitpid :: "int \<Rightarrow> bool \<Rightarrow> 'k \<Rightarrow> (int \<times> int \<times> nat) \<times> 'k"
  k_kill :: "int \<Rightarrow> int \<Rightarrow> 'k \<Rightarrow> 'k"
  k_now :: "'k \<Rightarrow> int"
  k_sleep :: "int \<Rightarrow> 'k \<Rightarrow> 'k"

record spawned =
  pr_pid :: int
  pr_waited :: bool
  pr_status :: ProcessStatus
  pr_pipes :: "(int \<times> int) list"
  pr_trace :: "sys_event list"

definition SpawnedProcess :: spawned where
  "SpawnedProcess = \<lparr>pr_pid = 0, pr_waited = True, pr_status = \<lparr>ps_state = NotStarted, ps_status = 0\<rparr>, pr_pipes = [], pr_trace = []\<rparr>"

definition fromExistingProcess :: "int \<Rightarrow> spawned" where
  "fromExistingProcess pid = SpawnedProcess\<lparr>pr_pid := pid, pr_waited := False\<rparr>"

text \<open>Move assignment between distinct objects: the new contents of both.\<close>

definition move_process :: "spawned \<Rightarrow> spawned \<Rightarrow> (spawned \<times> spawned) result" where
  "move_process this other =
     (if pr_pid this \<noteq> 0 then Inl CheckFailed
      else Inr (this\<lparr>pr_pid := pr_pid other, pr_waited := pr_waited other, pr_status := pr_status other,
                  pr_pipes := pr_pipes other, pr_trace := pr_trace other\<rparr>,
                other\<lparr>pr_waited := True, pr_pipes := []\<rparr>))"

definition destroy_process :: "spawned \<Rightarrow> unit result" where
  "destroy_process p = (if \<not> pr_waited p then Inl CheckFailed else Inr ())"

definition waitpid_call :: "'k proc_kernel \<Rightarrow> bool \<Rightarrow> spawned \<Rightarrow> 'k \<Rightarrow> (int \<times> int \<times> nat) \<times> spawned \<times> 'k" where
  "waitpid_call K nohang p k =
     (let ((ret, st, err), k') = k_waitpid K (pr_pid p) nohang k
      in ((ret, st, err), p\<lparr>pr_trace := pr_trace p @ [Ev_wait nohang ret err]\<rparr>, k'))"

definition set_waited :: "ProcessStatus \<Rightarrow> spawned \<Rightarrow> spawned" where
  "set_waited st p = p\<lparr>pr_status := st, pr_waited := True\<rparr>"

abbreviation exited_ok :: ProcessStatus where
  "exited_ok \<equiv> \<lparr>ps_state = Exited, ps_status = 0\<rparr>"

definition terminated :: "'k proc_kernel \<Rightarrow> spawned \<Rightarrow> 'k \<Rightarrow> bool \<times> spawned \<times> 'k" where
  "terminated K p k =
     (if pr_waited p then (True, p, k)
      else let ((pid, st, err), p1, k1) = waitpid_call K True p k;
               p2 = (if pid = pr_pid p then set_waited (fromWaitStatus st) p1 else p1);
               p3 = (if pid = -1 \<and> err = ECHILD then set_waited exited_ok p2 else p2)
           in (pr_waited p3, p3, k1))"

partial_function (option) process_wait_loop :: "'k proc_kernel \<Rightarrow> spawned \<Rightarrow> 'k \<Rightarrow> (ProcessStatus result \<times> spawned \<times> 'k) option" where
  "process_wait_loop K p k =
     (let ((pid, st, err), p1, k1) = waitpid_call K False p k
      in if pid = pr_pid p then Some (Inr (fromWaitStatus st), set_waited (fromWaitStatus st) p1, k1)
         else if err = ECHILD then Some (Inr exited_ok, set_waited exited_ok p1, k1)
         else if err \<noteq> EINTR_p then Some (Inl (SystemError err), p1\<lparr>pr_waited := True\<rparr>, k1)
         else process_wait_loop K p1 k1)"

definition wait :: "'k proc_kernel \<Rightarrow> spawned \<Rightarrow> 'k \<Rightarrow> (ProcessStatus result \<times> spawned \<times> 'k) option" where
  "wait K p k = (if pr_waited p then Some (Inr (pr_status p), p, k) else process_wait_loop K p k)"

definition waitChecked :: "'k proc_kernel \<Rightarrow> spawned \<Rightarrow> 'k \<Rightarrow> (unit result \<times> spawned \<times> 'k) option" where
  "waitChecked K p k =
     (case wait K p k of
        None \<Rightarrow> None
      | Some (Inl e, p1, k1) \<Rightarrow> Some (Inl e, p1, k1)
      | Some (Inr st, p1, k1) \<Rightarrow> Some (if exitStatus st \<noteq> 0 then Inl RuntimeError else Inr (), p1, k1))"

partial_function (option) waitTimeout_loop ::
  "'k proc_kernel \<Rightarrow> int \<Rightarrow> int \<Rightarrow> spawned \<Rightarrow> 'k \<Rightarrow> (ProcessStatus \<times> spawned \<times> 'k) option" where
  "waitTimeout_loop K deadline interval p k =
     (let ((pid, st, err), p1, k1) = waitpid_call K True p k
      in if pid = pr_pid p then Some (fromWaitStatus st, set_waited (fromWaitStatus st) p1, k1)
         else if pid = -1 \<and> err = ECHILD then Some (exited_ok, set_waited exited_ok p1, k1)
         else if k_now K k1 \<ge> deadline then Some (\<lparr>ps_state = Running, ps_status = 0\<rparr>, p1, k1)
         else waitTimeout_loop K deadline (min 100 (interval * 2)) p1 (k_sleep K interval k1))"

definition waitTimeout :: "'k proc_kernel \<Rightarrow> int \<Rightarrow> spawned \<Rightarrow> 'k \<Rightarrow> (ProcessStatus \<times> spawned \<times> 'k) option" where
  "waitTimeout K timeout p k =
     (if pr_waited p then Some (pr_status p, p, k)
      else waitTimeout_loop K (k_now K k + timeout) 2 p k)"

definition sendSignal :: "'k proc_kernel \<Rightarrow> int \<Rightarrow> spawned \<Rightarrow> 'k \<Rightarrow> spawned \<times> 'k" where
  "sendSignal K signo p k =
     (if \<not> pr_waited p then (p\<lparr>pr_trace := pr_trace p @ [Ev_kill signo]\<rparr>, k_kill K (pr_pid p) signo k) else (p, k))"

definition kill :: "'k proc_kernel \<Rightarrow> spawned \<Rightarrow> 'k \<Rightarrow> spawned \<times> 'k" where
  "kill K p k = sendSignal K 9 p k"

definition terminate :: "'k proc_kernel \<Rightarrow> spawned \<Rightarrow> 'k \<Rightarrow> spawned \<times> 'k" where
  "terminate K p k = sendSignal K 15 p k"

definition terminateOrKill :: "'k proc_kernel \<Rightarrow> int \<Rightarrow> spawned \<Rightarrow> 'k \<Rightarrow> (ProcessStatus result \<times> spawned \<times> 'k) option" where
  "terminateOrKill K sigtermTimeout p k =
     (if pr_waited p then Some (Inr (pr_status p), p, k)
      else let (p1, k1) = terminate K p k
           in case waitTimeout K sigtermTimeout p1 k1 of
                None \<Rightarrow> None
              | Some (st, p2, k2) \<Rightarrow>
                  if pr_waited p2 then Some (Inr (pr_status p2), p2, k2)
                  else let (p3, k3) = kill K p2 k2 in wait K p3 k3)"

definition waitOrTerminateOrKill :: "'k proc_kernel \<Rightarrow> int \<Rightarrow> int \<Rightarrow> spawned \<Rightarrow> 'k \<Rightarrow> (ProcessStatus result \<times> spawned \<times> 'k) option" where
  "waitOrTerminateOrKill K waitDuration sigtermDuration p k =
     (if pr_waited p then Some (Inr (pr_status p), p, k)
      else case waitTimeout K waitDuration p k of
             None \<Rightarrow> None
           | Some (st, p1, k1) \<Rightarrow>
               if pr_waited p1 then Some (Inr (pr_status p1), p1, k1)
               else terminateOrKill K sigtermDuration p1 k1)"

section \<open>Descriptors of the parent\<close>

definition closeParentFd :: "int \<Rightarrow> spawned \<Rightarrow> spawned" where
  "closeParentFd fdNumber p = p\<lparr>pr_pipes := filter (\<lambda>e. fst e \<noteq> fdNumber) (pr_pipes p)\<rparr>"

definition parentFd :: "int \<Rightarrow> spawned \<Rightarrow> int \<times> spawned" where
  "parentFd fdNumber p =
     (case map_of (pr_pipes p) fdNumber of
        Some fd \<Rightarrow> (fd, closeParentFd fdNumber p)
      | None \<Rightarrow> (-1, p))"

definition stdinFd :: "spawned \<Rightarrow> int \<times> spawned" where
  "stdinFd p = parentFd 0 p"

definition stdoutFd :: "spawned \<Rightarrow> int \<times> spawned" where
  "stdoutFd p = parentFd 1 p"

definition stderrFd :: "spawned \<Rightarrow> int \<times> spawned" where
  "stderrFd p = parentFd 2 p"

section \<open>Polling in an event loop\<close>

text \<open>\<open>ProcessTimeout\<close>: \<open>pt_delays\<close> lists the delays that were scheduled, a ghost field.\<close>

record process_timeout =
  pt_pollEveryMs :: int
  pt_maxPollMs :: int
  pt_process :: spawned
  pt_promise :: "ProcessStatus result option"
  pt_delays :: "int list"

definition initialize :: "process_timeout \<Rightarrow> process_timeout" where
  "initialize pt =
     (let next = pt_pollEveryMs pt * 2
      in pt\<lparr>pt_delays := pt_delays pt @ [pt_pollEveryMs pt],
            pt_pollEveryMs := (if next > pt_maxPollMs pt then pt_maxPollMs pt else next)\<rparr>)"

definition poll_timeoutExpired :: "'k proc_kernel \<Rightarrow> process_timeout \<Rightarrow> 'k \<Rightarrow> (process_timeout \<times> 'k) option" where
  "poll_timeoutExpired K pt k =
     (case terminated K (pt_process pt) k of
        (True, p, k1) \<Rightarrow>
          (case wait K p k1 of
             None \<Rightarrow> None
           | Some (r, p1, k2) \<Rightarrow> Some (pt\<lparr>pt_process := p1, pt_promise := Some r\<rparr>, k2))
      | (False, p, k1) \<Rightarrow>
          Some (pt\<lparr>pt_process := p, pt_delays := pt_delays pt @ [pt_pollEveryMs pt]\<rparr>, k1))"

section \<open>The child is reaped once\<close>

text \<open>
  The event that ends the waiting: the child was reaped, there is no such child, or a blocking
  wait failed.
\<close>

fun final_event :: "int \<Rightarrow> sys_event \<Rightarrow> bool" where
  "final_event pid (Ev_wait True ret err) \<longleftrightarrow> ret = pid \<or> (ret = -1 \<and> err = ECHILD)"
| "final_event pid (Ev_wait False ret err) \<longleftrightarrow> ret = pid \<or> err \<noteq> EINTR_p"
| "final_event pid (Ev_kill signo) \<longleftrightarrow> False"

definition unfinished :: "spawned \<Rightarrow> bool" where
  "unfinished p \<longleftrightarrow> (\<forall>e \<in> set (pr_trace p). \<not> final_event (pr_pid p) e)"

definition proc_ok :: "spawned \<Rightarrow> bool" where
  "proc_ok p \<longleftrightarrow>
     (if pr_waited p
      then \<exists>es e. pr_trace p = es @ [e] \<and> (\<forall>x \<in> set es. \<not> final_event (pr_pid p) x) \<and> final_event (pr_pid p) e
      else unfinished p)"

definition progress :: "spawned \<Rightarrow> spawned \<Rightarrow> bool" where
  "progress p p' \<longleftrightarrow> pr_pid p' = pr_pid p \<and> (proc_ok p \<longrightarrow> proc_ok p') \<and>
     (pr_waited p \<longrightarrow> pr_waited p' \<and> pr_trace p' = pr_trace p \<and> pr_status p' = pr_status p)"

lemma progress_refl [simp]: "progress p p"
  by (simp add: progress_def)

lemma progress_trans: "progress p q \<Longrightarrow> progress q r \<Longrightarrow> progress p r"
  by (auto simp: progress_def)

text \<open>A system call that ends the waiting, and one that does not.\<close>

lemma progress_final:
  assumes "\<not> pr_waited p" "pr_pid p' = pr_pid p" "pr_trace p' = pr_trace p @ [e]" "final_event (pr_pid p) e" "pr_waited p'"
  shows "progress p p'"
  using assms by (auto simp: progress_def proc_ok_def unfinished_def)

lemma progress_event:
  assumes "\<not> pr_waited p" "\<not> final_event (pr_pid p) e"
  shows "progress p (p\<lparr>pr_trace := pr_trace p @ [e]\<rparr>)"
  using assms by (auto simp: progress_def proc_ok_def unfinished_def)

lemma waitpid_call_eq:
  assumes "waitpid_call K nohang p k = ((pid, st, err), p1, k1)"
  shows "p1 = p\<lparr>pr_trace := pr_trace p @ [Ev_wait nohang pid err]\<rparr>" "k_waitpid K (pr_pid p) nohang k = ((pid, st, err), k1)"
  using assms by (auto simp: waitpid_call_def Let_def split: prod.splits)

lemma terminated_progress:
  assumes "terminated K p k = (b, p', k')"
  shows "progress p p' \<and> (b \<longleftrightarrow> pr_waited p')"
proof (cases "pr_waited p")
  case False
  obtain pid st err p1 k1 where c: "waitpid_call K True p k = ((pid, st, err), p1, k1)" by (metis prod.exhaust)
  note p1 = waitpid_call_eq(1) [OF c]
  show ?thesis
  proof (cases "final_event (pr_pid p) (Ev_wait True pid err)")
    case True
    then have "progress p p'" using assms False c p1
      by (intro progress_final [OF False _ _ True]) (auto simp: terminated_def set_waited_def Let_def split: if_splits)
    then show ?thesis using assms False c by (auto simp: terminated_def Let_def)
  next
    case nf: False
    then have "p' = p1 \<and> b = pr_waited p1" using assms False c by (auto simp: terminated_def Let_def split: if_splits)
    then show ?thesis using progress_event [OF False nf] p1 by simp
  qed
qed (use assms in \<open>auto simp: terminated_def\<close>)

lemma process_wait_loop_progress:
  assumes "process_wait_loop K p k = Some (r, p', k')" "\<not> pr_waited p"
  shows "progress p p' \<and> pr_waited p' \<and> (\<forall>st. r = Inr st \<longrightarrow> pr_status p' = st)"
proof -
  let ?P = "\<lambda>p y. \<not> pr_waited p \<longrightarrow> progress p (fst (snd y)) \<and> pr_waited (fst (snd y)) \<and>
    (\<forall>st. fst y = Inr st \<longrightarrow> pr_status (fst (snd y)) = (st :: ProcessStatus))"
  have "?P p (r, p', k')"
  proof (rule process_wait_loop.raw_induct [where P = "\<lambda>K p k y. ?P p y", OF _ assms(1)])
    fix rec :: "'a proc_kernel \<Rightarrow> spawned \<Rightarrow> 'a \<Rightarrow> (ProcessStatus result \<times> spawned \<times> 'a) option"
      and K :: "'a proc_kernel" and p k and y :: "ProcessStatus result \<times> spawned \<times> 'a"
    assume IH: "\<And>K p k y. rec K p k = Some y \<Longrightarrow> ?P p y"
      and eq: "(let ((pid, st, err), p1, k1) = waitpid_call K False p k
        in if pid = pr_pid p then Some (Inr (fromWaitStatus st), set_waited (fromWaitStatus st) p1, k1)
           else if err = ECHILD then Some (Inr exited_ok, set_waited exited_ok p1, k1)
           else if err \<noteq> EINTR_p then Some (Inl (SystemError err), p1\<lparr>pr_waited := True\<rparr>, k1)
           else rec K p1 k1) = Some y"
    obtain pid st err p1 k1 where c: "waitpid_call K False p k = ((pid, st, err), p1, k1)" by (metis prod.exhaust)
    note p1 = waitpid_call_eq(1) [OF c]
    show "?P p y"
    proof
      assume nw: "\<not> pr_waited p"
      show "progress p (fst (snd y)) \<and> pr_waited (fst (snd y)) \<and> (\<forall>st. fst y = Inr st \<longrightarrow> pr_status (fst (snd y)) = st)"
      proof (cases "final_event (pr_pid p) (Ev_wait False pid err)")
        case True
        have "progress p (fst (snd y))"
          using eq c p1 True nw by (intro progress_final [OF nw _ _ True]) (auto simp: set_waited_def split: if_splits)
        then show ?thesis using eq c p1 True by (auto simp: set_waited_def split: if_splits)
      next
        case False
        then have "rec K p1 k1 = Some y" using eq c by (auto split: if_splits)
        from IH [OF this] show ?thesis using progress_event [OF nw False] p1 nw by (auto intro: progress_trans)
      qed
    qed
  qed
  then show ?thesis using assms(2) by simp
qed

lemma wait_progress:
  assumes "wait K p k = Some (r, p', k')"
  shows "progress p p' \<and> pr_waited p' \<and> (\<forall>st. r = Inr st \<longrightarrow> pr_status p' = st)"
proof (cases "pr_waited p")
  case False
  then have "process_wait_loop K p k = Some (r, p', k')" using assms by (simp add: wait_def)
  then show ?thesis using False by (rule process_wait_loop_progress)
qed (use assms in \<open>auto simp: wait_def\<close>)

lemma waitTimeout_loop_progress:
  assumes "waitTimeout_loop K deadline interval p k = Some (st, p', k')" "\<not> pr_waited p"
  shows "progress p p' \<and> (if pr_waited p' then pr_status p' = st else ps_state st = Running)"
proof -
  let ?P = "\<lambda>p y. \<not> pr_waited p \<longrightarrow> progress p (fst (snd y)) \<and>
    (if pr_waited (fst (snd y)) then pr_status (fst (snd y)) = (fst y :: ProcessStatus) else ps_state (fst y) = Running)"
  have "?P p (st, p', k')"
  proof (rule waitTimeout_loop.raw_induct [where P = "\<lambda>K d i p k y. ?P p y", OF _ assms(1)])
    fix rec :: "'a proc_kernel \<Rightarrow> int \<Rightarrow> int \<Rightarrow> spawned \<Rightarrow> 'a \<Rightarrow> (ProcessStatus \<times> spawned \<times> 'a) option"
      and K :: "'a proc_kernel" and d i p k and y :: "ProcessStatus \<times> spawned \<times> 'a"
    assume IH: "\<And>K d i p k y. rec K d i p k = Some y \<Longrightarrow> ?P p y"
      and eq: "(let ((pid, st, err), p1, k1) = waitpid_call K True p k
        in if pid = pr_pid p then Some (fromWaitStatus st, set_waited (fromWaitStatus st) p1, k1)
           else if pid = -1 \<and> err = ECHILD then Some (exited_ok, set_waited exited_ok p1, k1)
           else if k_now K k1 \<ge> d then Some (\<lparr>ps_state = Running, ps_status = 0\<rparr>, p1, k1)
           else rec K d (min 100 (i * 2)) p1 (k_sleep K i k1)) = Some y"
    obtain pid st err p1 k1 where c: "waitpid_call K True p k = ((pid, st, err), p1, k1)" by (metis prod.exhaust)
    note p1 = waitpid_call_eq(1) [OF c]
    show "?P p y"
    proof
      assume nw: "\<not> pr_waited p"
      show "progress p (fst (snd y)) \<and>
        (if pr_waited (fst (snd y)) then pr_status (fst (snd y)) = fst y else ps_state (fst y) = Running)"
      proof (cases "final_event (pr_pid p) (Ev_wait True pid err)")
        case True
        have "progress p (fst (snd y))"
          using eq c p1 True nw by (intro progress_final [OF nw _ _ True]) (auto simp: set_waited_def split: if_splits)
        then show ?thesis using eq c p1 True by (auto simp: set_waited_def split: if_splits)
      next
        case nf: False
        note step = progress_event [OF nw nf]
        show ?thesis
        proof (cases "k_now K k1 \<ge> d")
          case True
          then show ?thesis using eq c p1 nf nw step by (auto split: if_splits)
        next
          case False
          then have "rec K d (min 100 (i * 2)) p1 (k_sleep K i k1) = Some y" using eq c nf by (auto split: if_splits)
          from IH [OF this] show ?thesis using step p1 nw by (auto intro: progress_trans)
        qed
      qed
    qed
  qed
  then show ?thesis using assms(2) by (simp split: if_splits)
qed

lemma waitTimeout_progress:
  assumes "waitTimeout K timeout p k = Some (st, p', k')"
  shows "progress p p' \<and> (if pr_waited p' then pr_status p' = st else ps_state st = Running)"
proof (cases "pr_waited p")
  case False
  then have "waitTimeout_loop K (k_now K k + timeout) 2 p k = Some (st, p', k')" using assms by (simp add: waitTimeout_def)
  then show ?thesis using False by (rule waitTimeout_loop_progress)
qed (use assms in \<open>auto simp: waitTimeout_def\<close>)

lemma sendSignal_progress: "progress p (fst (sendSignal K signo p k))"
  using progress_event [of p "Ev_kill signo"] by (simp add: sendSignal_def)

lemma terminateOrKill_progress:
  assumes "terminateOrKill K timeout p k = Some (r, p', k')"
  shows "progress p p' \<and> pr_waited p' \<and> (\<forall>st. r = Inr st \<longrightarrow> pr_status p' = st)"
proof (cases "pr_waited p")
  case False
  obtain p1 k1 where s: "terminate K p k = (p1, k1)" by fastforce
  then have g1: "progress p p1" using sendSignal_progress [of p K 15 k] by (simp add: terminate_def)
  obtain st p2 k2 where w: "waitTimeout K timeout p1 k1 = Some (st, p2, k2)"
    using assms False s by (auto simp: terminateOrKill_def split: option.splits)
  note g2 = waitTimeout_progress [OF w]
  show ?thesis
  proof (cases "pr_waited p2")
    case True
    then show ?thesis using assms False s w g1 g2 by (auto simp: terminateOrKill_def intro: progress_trans)
  next
    case nw: False
    obtain p3 k3 where kl: "kill K p2 k2 = (p3, k3)" by fastforce
    then have "progress p2 p3" using sendSignal_progress [of p2 K 9 k2] by (simp add: kill_def)
    moreover have "wait K p3 k3 = Some (r, p', k')" using assms False s w nw kl by (simp add: terminateOrKill_def)
    moreover note wait_progress [OF this]
    ultimately show ?thesis using progress_trans [OF progress_trans [OF g1 conjunct1 [OF g2]]] progress_trans by metis
  qed
qed (use assms in \<open>auto simp: terminateOrKill_def\<close>)

lemma waitOrTerminateOrKill_progress:
  assumes "waitOrTerminateOrKill K d1 d2 p k = Some (r, p', k')"
  shows "progress p p' \<and> pr_waited p' \<and> (\<forall>st. r = Inr st \<longrightarrow> pr_status p' = st)"
proof (cases "pr_waited p")
  case False
  obtain st p1 k1 where w: "waitTimeout K d1 p k = Some (st, p1, k1)"
    using assms False by (auto simp: waitOrTerminateOrKill_def split: option.splits)
  note g1 = waitTimeout_progress [OF w]
  show ?thesis
  proof (cases "pr_waited p1")
    case True
    then show ?thesis using assms False w g1 by (auto simp: waitOrTerminateOrKill_def)
  next
    case nw: False
    then have "terminateOrKill K d2 p1 k1 = Some (r, p', k')" using assms False w by (simp add: waitOrTerminateOrKill_def)
    from terminateOrKill_progress [OF this] show ?thesis using progress_trans [OF conjunct1 [OF g1]] by simp
  qed
qed (use assms in \<open>auto simp: waitOrTerminateOrKill_def\<close>)

section \<open>Operations in sequence\<close>

inductive proc_step :: "'k proc_kernel \<Rightarrow> spawned \<times> 'k \<Rightarrow> spawned \<times> 'k \<Rightarrow> bool" for K :: "'k proc_kernel" where
  op_terminated: "terminated K p k = (b, p', k') \<Longrightarrow> proc_step K (p, k) (p', k')"
| op_wait: "wait K p k = Some (r, p', k') \<Longrightarrow> proc_step K (p, k) (p', k')"
| op_waitTimeout: "waitTimeout K timeout p k = Some (st, p', k') \<Longrightarrow> proc_step K (p, k) (p', k')"
| op_terminateOrKill: "terminateOrKill K timeout p k = Some (r, p', k') \<Longrightarrow> proc_step K (p, k) (p', k')"
| op_waitOrTerminateOrKill: "waitOrTerminateOrKill K t1 t2 p k = Some (r, p', k') \<Longrightarrow> proc_step K (p, k) (p', k')"
| op_sendSignal: "sendSignal K signo p k = (p', k') \<Longrightarrow> proc_step K (p, k) (p', k')"
| op_closeParentFd: "proc_step K (p, k) (closeParentFd fd p, k)"
| op_environment: "proc_step K (p, k) (p, k')"

definition proc_init :: "spawned \<times> 'k \<Rightarrow> bool" where
  "proc_init s \<longleftrightarrow> pr_trace (fst s) = [] \<and> \<not> pr_waited (fst s)"

lemma proc_step_progress: "proc_step K s t \<Longrightarrow> progress (fst s) (fst t)"
proof (induction rule: proc_step.induct)
  case (op_sendSignal signo p k p' k')
  then show ?case using sendSignal_progress [of p K signo k] by simp
next
  case (op_closeParentFd p k fd)
  then show ?case by (simp add: progress_def proc_ok_def unfinished_def closeParentFd_def)
qed (auto dest!: terminated_progress wait_progress waitTimeout_progress terminateOrKill_progress waitOrTerminateOrKill_progress)

interpretation proc_system: invariant_system proc_init "proc_step K" "\<lambda>s. proc_ok (fst s)" for K
proof
  show "proc_ok (fst s)" if "proc_init s" for s :: "spawned \<times> 'k"
    using that by (simp add: proc_init_def proc_ok_def unfinished_def)
  show "proc_ok (fst t)" if "proc_step K s t" "proc_ok (fst s)" for s t
    using proc_step_progress [OF that(1)] that(2) by (simp add: progress_def)
qed

section \<open>Waiting ends\<close>

text \<open>
  The kernel: interrupted waits do not go on forever (\<open>pend\<close> bounds them), and the clock runs,
  at least as long as a sleep was asked to take.
\<close>

definition proc_laws :: "'k proc_kernel \<Rightarrow> ('k \<Rightarrow> nat) \<Rightarrow> bool" where
  "proc_laws K pend \<longleftrightarrow>
     (\<forall>pid k ret st err k'. k_waitpid K pid False k = ((ret, st, err), k') \<and> ret \<noteq> pid \<and> err = EINTR_p \<longrightarrow> pend k' < pend k) \<and>
     (\<forall>pid nohang k. k_now K k \<le> k_now K (snd (k_waitpid K pid nohang k))) \<and>
     (\<forall>d k. k_now K k + d \<le> k_now K (k_sleep K d k))"

definition waits_only :: "bool \<Rightarrow> sys_event list \<Rightarrow> bool" where
  "waits_only nohang es \<longleftrightarrow> (\<forall>e \<in> set es. \<exists>ret err. e = Ev_wait nohang ret err)"

lemma waits_only_simps [simp]:
  "waits_only nohang []" "waits_only nohang (es @ fs) \<longleftrightarrow> waits_only nohang es \<and> waits_only nohang fs"
  "waits_only nohang (Ev_wait nohang ret err # es) \<longleftrightarrow> waits_only nohang es"
  by (auto simp: waits_only_def)

lemma process_wait_loop_returns:
  assumes "proc_laws K pend"
  shows "\<exists>r p' k' ws. process_wait_loop K p k = Some (r, p', k') \<and> pr_trace p' = pr_trace p @ ws \<and> waits_only False ws"
proof (induction "pend k" arbitrary: p k rule: less_induct)
  case less
  obtain pid st err p1 k1 where c: "waitpid_call K False p k = ((pid, st, err), p1, k1)" by (metis prod.exhaust)
  note p1 = waitpid_call_eq(1) [OF c]
  show ?case
  proof (cases "pid \<noteq> pr_pid p \<and> err = EINTR_p")
    case True
    then have "pend k1 < pend k" using waitpid_call_eq(2) [OF c] assms unfolding proc_laws_def by blast
    from less [OF this, of p1] obtain r p' k' ws where "process_wait_loop K p1 k1 = Some (r, p', k')"
      "pr_trace p' = pr_trace p1 @ ws" "waits_only False ws" by blast
    then show ?thesis using True c p1 by (subst process_wait_loop.simps) (simp add: exI [of _ "_ # ws"])
  next
    case False
    then show ?thesis using c p1 by (subst process_wait_loop.simps) (auto simp: set_waited_def)
  qed
qed

lemma waitTimeout_loop_returns:
  assumes laws: "proc_laws K pend" and "0 < interval"
  shows "\<exists>st p' k' ws. waitTimeout_loop K deadline interval p k = Some (st, p', k') \<and> pr_trace p' = pr_trace p @ ws \<and> waits_only True ws"
  using assms(2)
proof (induction "nat (deadline - k_now K k)" arbitrary: p k interval rule: less_induct)
  case less
  obtain pid st err p1 k1 where c: "waitpid_call K True p k = ((pid, st, err), p1, k1)" by (metis prod.exhaust)
  note p1 = waitpid_call_eq(1) [OF c]
  have k1: "k_now K k \<le> k_now K k1"
    using waitpid_call_eq(2) [OF c] laws unfolding proc_laws_def by (metis snd_conv)
  have sl: "k_now K k1 + interval \<le> k_now K (k_sleep K interval k1)" using laws by (simp add: proc_laws_def)
  show ?case
  proof (cases "pid = pr_pid p \<or> pid = -1 \<and> err = ECHILD \<or> k_now K k1 \<ge> deadline")
    case True
    then show ?thesis using c p1 by (subst waitTimeout_loop.simps) (auto simp: set_waited_def)
  next
    case False
    have "nat (deadline - k_now K (k_sleep K interval k1)) < nat (deadline - k_now K k)"
      using False k1 sl less.prems by linarith
    moreover have "0 < min 100 (interval * 2)" using less.prems by simp
    ultimately obtain st' p' k' ws where "waitTimeout_loop K deadline (min 100 (interval * 2)) p1 (k_sleep K interval k1) = Some (st', p', k')"
      "pr_trace p' = pr_trace p1 @ ws" "waits_only True ws" using less.hyps by blast
    then show ?thesis using False c p1 by (subst waitTimeout_loop.simps) (auto simp: exI [of _ "_ # ws"])
  qed
qed

lemma wait_returns:
  assumes "proc_laws K pend"
  shows "\<exists>r p' k' ws. wait K p k = Some (r, p', k') \<and> pr_trace p' = pr_trace p @ ws \<and> waits_only False ws"
  using process_wait_loop_returns [OF assms, of p k] by (cases "pr_waited p") (simp_all add: wait_def)

lemma waitTimeout_returns:
  assumes "proc_laws K pend"
  shows "\<exists>st p' k' ws. waitTimeout K timeout p k = Some (st, p', k') \<and> pr_trace p' = pr_trace p @ ws \<and> waits_only True ws"
  using waitTimeout_loop_returns [OF assms, of 2 "k_now K k + timeout" p k] by (cases "pr_waited p") (simp_all add: waitTimeout_def)

lemma terminateOrKill_returns:
  assumes "proc_laws K pend"
  shows "\<exists>r p' k'. terminateOrKill K timeout p k = Some (r, p', k')"
proof -
  obtain p1 k1 where t: "terminate K p k = (p1, k1)" by fastforce
  obtain st p2 k2 where w: "waitTimeout K timeout p1 k1 = Some (st, p2, k2)" using waitTimeout_returns [OF assms] by blast
  obtain p3 k3 where kl: "kill K p2 k2 = (p3, k3)" by fastforce
  show ?thesis using t w kl wait_returns [OF assms, of p3 k3] by (auto simp: terminateOrKill_def)
qed

lemma waitOrTerminateOrKill_returns:
  assumes "proc_laws K pend"
  shows "\<exists>r p' k'. waitOrTerminateOrKill K d1 d2 p k = Some (r, p', k') \<and> pr_waited p'"
proof -
  obtain st p1 k1 where w: "waitTimeout K d1 p k = Some (st, p1, k1)" using waitTimeout_returns [OF assms] by blast
  then have "\<exists>r p' k'. waitOrTerminateOrKill K d1 d2 p k = Some (r, p', k')"
    using terminateOrKill_returns [OF assms, of d2 p1 k1] by (auto simp: waitOrTerminateOrKill_def)
  then obtain r p' k' where r: "waitOrTerminateOrKill K d1 d2 p k = Some (r, p', k')" by blast
  then show ?thesis using waitOrTerminateOrKill_progress [OF r] by simp
qed

section \<open>Theorems\<close>

text \<open>
  C7: The child is reaped at most once, and nothing is done to its process id afterwards: in
  every sequence of operations the system call that ends the waiting is the last one on the
  process, so that no signal and no wait can hit another process that got the same id.  From
  then on every operation returns the same status without a system call.
\<close>

theorem process_reaped_once:
  assumes "reachable proc_init (proc_step K) (p, k)"
  shows "(\<forall>i < length (pr_trace p). final_event (pr_pid p) (pr_trace p ! i) \<longrightarrow> pr_waited p \<and> Suc i = length (pr_trace p)) \<and>
    (pr_waited p \<longrightarrow> terminated K p k = (True, p, k) \<and> wait K p k = Some (Inr (pr_status p), p, k) \<and>
       waitTimeout K timeout p k = Some (pr_status p, p, k) \<and> sendSignal K signo p k = (p, k) \<and>
       terminateOrKill K timeout p k = Some (Inr (pr_status p), p, k))"
proof -
  have ok: "proc_ok p" using proc_system.reachable_inv [OF assms] by simp
  have "pr_waited p \<and> Suc i = length (pr_trace p)" if "i < length (pr_trace p)" "final_event (pr_pid p) (pr_trace p ! i)" for i
  proof (cases "pr_waited p")
    case True
    then obtain es e where es: "pr_trace p = es @ [e]" "\<forall>x \<in> set es. \<not> final_event (pr_pid p) x"
      using ok by (auto simp: proc_ok_def)
    have "\<not> i < length es" using that(2) es by (auto simp: nth_append)
    then show ?thesis using True that(1) es(1) by simp
  next
    case False
    then show ?thesis using ok that by (auto simp: proc_ok_def unfinished_def)
  qed
  then show ?thesis by (auto simp: terminated_def wait_def waitTimeout_def sendSignal_def terminateOrKill_def)
qed

text \<open>
  C32: \<open>terminateOrKill\<close> returns, and the process has been waited for: it may be destroyed.  It
  sends \<open>SIGTERM\<close> and polls; \<open>SIGKILL\<close> is sent, and followed by blocking waits, only when no
  poll found that the process had ended.
\<close>

theorem terminateOrKill_correct:
  assumes laws: "proc_laws K pend" and run: "\<not> pr_waited p" "unfinished p"
  shows "\<exists>r p' k' polls ws. terminateOrKill K timeout p k = Some (r, p', k') \<and> pr_waited p' \<and> destroy_process p' = Inr () \<and>
    (\<forall>st. r = Inr st \<longrightarrow> pr_status p' = st) \<and> waits_only True polls \<and> waits_only False ws \<and>
    (pr_trace p' = pr_trace p @ [Ev_kill 15] @ polls \<or>
     pr_trace p' = pr_trace p @ [Ev_kill 15] @ polls @ [Ev_kill 9] @ ws \<and> (\<forall>e \<in> set polls. \<not> final_event (pr_pid p) e))"
proof -
  obtain p1 k1 where s: "terminate K p k = (p1, k1)" by fastforce
  then have p1: "p1 = p\<lparr>pr_trace := pr_trace p @ [Ev_kill 15]\<rparr>" using run by (simp add: terminate_def sendSignal_def)
  obtain st p2 k2 polls where w: "waitTimeout K timeout p1 k1 = Some (st, p2, k2)"
    and polls: "pr_trace p2 = pr_trace p1 @ polls" "waits_only True polls"
    using waitTimeout_returns [OF laws, of timeout p1 k1] by blast
  have g2: "progress p1 p2" using waitTimeout_progress [OF w] by simp
  show ?thesis
  proof (cases "pr_waited p2")
    case True
    then have "terminateOrKill K timeout p k = Some (Inr (pr_status p2), p2, k2)"
      using run s w by (simp add: terminateOrKill_def)
    moreover have "pr_trace p2 = pr_trace p @ [Ev_kill 15] @ polls" using polls(1) p1 by simp
    moreover have "destroy_process p2 = Inr ()" using True by (simp add: destroy_process_def)
    ultimately show ?thesis using True polls(2) waits_only_simps(1) [of False] by blast
  next
    case False
    obtain p3 k3 where kl: "kill K p2 k2 = (p3, k3)" by fastforce
    then have p3: "p3 = p2\<lparr>pr_trace := pr_trace p2 @ [Ev_kill 9]\<rparr>" using False by (simp add: kill_def sendSignal_def)
    obtain r p' k' ws where f: "wait K p3 k3 = Some (r, p', k')" "pr_trace p' = pr_trace p3 @ ws" "waits_only False ws"
      using wait_returns [OF laws, of p3 k3] by blast
    have "terminateOrKill K timeout p k = Some (r, p', k')" using run s w False kl f(1) by (simp add: terminateOrKill_def)
    moreover have "unfinished p2" "pr_pid p2 = pr_pid p"
      using g2 run False p1 by (auto simp: progress_def proc_ok_def unfinished_def)
    then have "\<forall>e \<in> set polls. \<not> final_event (pr_pid p) e" using polls(1) by (simp add: unfinished_def)
    moreover have "pr_trace p' = pr_trace p @ [Ev_kill 15] @ polls @ [Ev_kill 9] @ ws" using polls(1) f(2) p1 p3 by simp
    moreover have "destroy_process p' = Inr ()" using wait_progress [OF f(1)] by (simp add: destroy_process_def)
    ultimately show ?thesis using wait_progress [OF f(1)] polls(2) f(3) by blast
  qed
qed

text \<open>
  A child that ignores \<open>SIGTERM\<close>: the state is the clock and the status of the dead child.
\<close>

definition stubborn_child :: "(int \<times> int option) proc_kernel" where
  "stubborn_child =
     \<lparr>k_waitpid = (\<lambda>pid nohang k. case snd k of
          Some st \<Rightarrow> ((pid, st, 0), k)
        | None \<Rightarrow> if nohang then ((0, 0, 0), k) else ((-1, 0, ECHILD), k)),
      k_kill = (\<lambda>pid signo k. if signo = 9 then (fst k, Some 9) else k),
      k_now = fst,
      k_sleep = (\<lambda>d k. (fst k + d, snd k))\<rparr>"

lemma stubborn_laws: "proc_laws stubborn_child (\<lambda>k. 0)"
  by (auto simp: proc_laws_def stubborn_child_def split: option.splits if_splits)

theorem terminateOrKill_correct_witness:
  "\<exists>r p' k'. terminateOrKill stubborn_child 1 (fromExistingProcess 42) (0, None) = Some (r, p', k') \<and> pr_waited p' \<and>
    destroy_process p' = Inr ()"
proof -
  have "\<not> pr_waited (fromExistingProcess 42)" "unfinished (fromExistingProcess 42)"
    by (simp_all add: fromExistingProcess_def SpawnedProcess_def unfinished_def)
  from terminateOrKill_correct [OF stubborn_laws this, of 1 "(0, None)"] show ?thesis by blast
qed

theorem process_reaped_once_witness:
  "let p = fst (snd (terminated stubborn_child (fromExistingProcess 42) (0, Some 256)))
   in pr_trace p = [Ev_wait True 42 0] \<and> pr_status p = \<lparr>ps_state = Exited, ps_status = 256\<rparr> \<and>
     sendSignal stubborn_child 9 p (0, Some 256) = (p, (0, Some 256))"
proof -
  obtain b p k where t: "terminated stubborn_child (fromExistingProcess 42) (0, Some 256) = (b, p, k)" by (metis prod.exhaust)
  have v: "pr_trace p = [Ev_wait True 42 0]" "pr_status p = \<lparr>ps_state = Exited, ps_status = 256\<rparr>" "pr_waited p" "k = (0, Some 256)"
    using t by (auto simp: terminated_def waitpid_call_def stubborn_child_def fromExistingProcess_def SpawnedProcess_def
        set_waited_def fromWaitStatus_def WIFEXITED_def Let_def)
  have "reachable proc_init (proc_step stubborn_child) (fromExistingProcess 42, (0, Some 256))"
    by (rule reach_init) (simp add: proc_init_def fromExistingProcess_def SpawnedProcess_def)
  then have "reachable proc_init (proc_step stubborn_child) (p, k)" by (rule reach_step) (rule op_terminated [OF t])
  from process_reaped_once [OF this, of 0 9] show ?thesis using t v by simp
qed

text \<open>
  The event loop polls at the doubled interval from the second time on and never slower:
  the interval is doubled once, when the timer is started.
\<close>

theorem poll_interval_doubles_once:
  assumes "poll_timeoutExpired K pt k = Some (pt', k')"
  shows "pt_pollEveryMs pt' = pt_pollEveryMs pt \<and>
    (pt_promise pt' = None \<and> pt_promise pt = None \<longrightarrow> pt_delays pt' = pt_delays pt @ [pt_pollEveryMs pt])"
  using assms by (auto simp: poll_timeoutExpired_def split: prod.splits bool.splits option.splits)

text \<open>
  A process object that was moved from cannot be assigned to again: its process id is not
  reset, and the check of the assignment fails.
\<close>

theorem moved_from_process_not_assignable:
  assumes "pr_pid other \<noteq> 0" "move_process this other = Inr (this', other')"
  shows "move_process other' q = Inl CheckFailed"
  using assms by (auto simp: move_process_def split: if_splits)

text \<open>
  The status of a child is decoded as \<open>sys/wait.h\<close> encodes it: an exit code below 256 and a
  signal number below 127 are read back, and the text tells them apart.
\<close>

theorem wait_status_roundtrip:
  "(\<forall>code. 0 \<le> code \<and> code < 256 \<longrightarrow>
      exitStatus (fromWaitStatus (code * 256)) = code \<and> killSignal (fromWaitStatus (code * 256)) = 0) \<and>
   (\<forall>sig. 0 < sig \<and> sig < 127 \<longrightarrow>
      killSignal (fromWaitStatus sig) = sig \<and> exitStatus (fromWaitStatus sig) = 1 \<and>
      killSignal (fromWaitStatus (sig + 128)) = sig)"
proof -
  have "(code * 256) mod 128 = 0" "(code * 256) div 256 mod 256 = code" if "0 \<le> code" "code < 256" for code :: int
    using that by simp_all
  moreover have "sig mod 128 = sig" "(sig + 128) mod 128 = sig" if "0 < sig" "sig < 127" for sig :: int
    using that by simp_all
  ultimately show ?thesis
    by (auto simp: fromWaitStatus_def WIFEXITED_def WIFSIGNALED_def exitStatus_def killSignal_def WEXITSTATUS_def WTERMSIG_def)
qed

end
