(* ===== verification/Process_Communicate.thy ===== *)
theory Process_Communicate
  imports Eden_Prelude
begin

text \<open>
  \<open>SpawnedProcess::pollingCommunicate\<close> of \<open>SpawnedProcess.cpp\<close>: write to the input of a child
  and read its output until all pipes are closed.

  \<open>pipes\<close> maps the descriptor number in the child to the number in the parent, in the order of
  the unordered map.  The kernel is a state of type \<open>'k\<close> with \<open>poll\<close> (without a timeout),
  \<open>read\<close> and the caller's write callback.
\<close>

section \<open>The loop\<close>

record revents =
  POLLHUP :: bool
  POLLIN :: bool
  POLLOUT :: bool
  POLLERR :: bool

record 'k comm_kernel =
  c_poll :: "(int \<times> bool) list \<Rightarrow> 'k \<Rightarrow> (nat + revents list) \<times> 'k"
  c_read :: "int \<Rightarrow> 'k \<Rightarrow> (nat + string) \<times> 'k"
  c_writeCallback :: "int \<Rightarrow> 'k \<Rightarrow> bool \<times> 'k"

type_synonym pipe_map = "(int \<times> int) list"

type_synonym outputs = "int \<Rightarrow> string option"

text \<open>The entries for \<open>poll\<close>: the number in the parent, and whether it is polled for writing.\<close>

definition pollfds :: "pipe_map \<Rightarrow> (int \<times> bool) list" where
  "pollfds pipes = map (\<lambda>it. (snd it, fst it = 0)) pipes"

definition revmap :: "pipe_map \<Rightarrow> int \<Rightarrow> int" where
  "revmap pipes fd = (case map_of (rev (map (\<lambda>it. (snd it, fst it)) pipes)) fd of Some t \<Rightarrow> t | None \<Rightarrow> 0)"

definition erase_pipe :: "int \<Rightarrow> pipe_map \<Rightarrow> pipe_map" where
  "erase_pipe target pipes = filter (\<lambda>it. fst it \<noteq> target) pipes"

definition append_output :: "int \<Rightarrow> string \<Rightarrow> outputs \<Rightarrow> outputs" where
  "append_output target buf outs = outs(target \<mapsto> (case outs target of Some s \<Rightarrow> s | None \<Rightarrow> '''') @ buf)"

partial_function (option) poll_retry :: "'k comm_kernel \<Rightarrow> (int \<times> bool) list \<Rightarrow> 'k \<Rightarrow> (revents list result \<times> 'k) option" where
  "poll_retry K pfds k =
     (case c_poll K pfds k of
        (Inl e, k1) \<Rightarrow> if e = 4 then poll_retry K pfds k1 else Some (Inl (SystemError e), k1)
      | (Inr revs, k1) \<Rightarrow> Some (Inr revs, k1))"

text \<open>The part of the body for input and errors: the \<open>if\<close> statements after the read.\<close>

definition handle_input :: "'k comm_kernel \<Rightarrow> int \<Rightarrow> revents \<Rightarrow> pipe_map \<Rightarrow> outputs \<Rightarrow> 'k \<Rightarrow> (pipe_map \<times> outputs \<times> 'k) result" where
  "handle_input K target rv pipes outs k =
     (let after = (\<lambda>k. if POLLERR rv then Inr (erase_pipe target pipes, outs, k) else Inr (pipes, outs, k))
      in if POLLHUP rv \<and> target = 0 then Inr (erase_pipe target pipes, outs, k)
         else if POLLOUT rv \<and> target = 0 then
           (case map_of pipes target of
              None \<Rightarrow> Inl OutOfRange
            | Some fd \<Rightarrow>
                (case c_writeCallback K fd k of
                   (True, k1) \<Rightarrow> Inr (erase_pipe target pipes, outs, k1)
                 | (False, k1) \<Rightarrow> after k1))
         else after k)"

definition handle_pfd :: "'k comm_kernel \<Rightarrow> int \<Rightarrow> int \<Rightarrow> revents \<Rightarrow> pipe_map \<Rightarrow> outputs \<Rightarrow> 'k \<Rightarrow> (pipe_map \<times> outputs \<times> 'k) result" where
  "handle_pfd K target fd rv pipes outs k =
     (if (POLLHUP rv \<or> POLLIN rv) \<and> target \<noteq> 0
      then (case c_read K fd k of
              (Inl e, k1) \<Rightarrow> if e = 11 \<or> e = 4 then Inr (pipes, outs, k1) else Inl (SystemError e)
            | (Inr buf, k1) \<Rightarrow>
                if buf = '''' then Inr (erase_pipe target pipes, outs, k1)
                else handle_input K target rv pipes (append_output target buf outs) k1)
      else handle_input K target rv pipes outs k)"

fun handle_pfds :: "'k comm_kernel \<Rightarrow> (int \<Rightarrow> int) \<Rightarrow> ((int \<times> bool) \<times> revents) list \<Rightarrow> pipe_map \<Rightarrow> outputs \<Rightarrow> 'k \<Rightarrow> (pipe_map \<times> outputs \<times> 'k) result" where
  "handle_pfds K rm [] pipes outs k = Inr (pipes, outs, k)"
| "handle_pfds K rm (q # qs) pipes outs k =
     (case handle_pfd K (rm (fst (fst q))) (fst (fst q)) (snd q) pipes outs k of
        Inl e \<Rightarrow> Inl e
      | Inr (pipes1, outs1, k1) \<Rightarrow> handle_pfds K rm qs pipes1 outs1 k1)"

partial_function (option) communicate_loop :: "'k comm_kernel \<Rightarrow> pipe_map \<Rightarrow> outputs \<Rightarrow> 'k \<Rightarrow> (outputs \<times> 'k) result option" where
  "communicate_loop K pipes outs k =
     (if pipes = [] then Some (Inr (outs, k))
      else case poll_retry K (pollfds pipes) k of
             None \<Rightarrow> None
           | Some (Inl e, k1) \<Rightarrow> Some (Inl e)
           | Some (Inr revs, k1) \<Rightarrow>
               (case handle_pfds K (revmap pipes) (zip (pollfds pipes) revs) pipes outs k1 of
                  Inl e \<Rightarrow> Some (Inl e)
                | Inr (pipes2, outs2, k2) \<Rightarrow> communicate_loop K pipes2 outs2 k2))"

text \<open>The loop before the reads creates an entry for the input of the child only.\<close>

definition initial_outputs :: "pipe_map \<Rightarrow> outputs" where
  "initial_outputs pipes = (\<lambda>t. if t = 0 \<and> map_of pipes 0 \<noteq> None then Some '''' else None)"

definition pollingCommunicate :: "'k comm_kernel \<Rightarrow> pipe_map \<Rightarrow> 'k \<Rightarrow> ((string \<times> string) \<times> 'k) result option" where
  "pollingCommunicate K pipes k =
     (let optBuffer = (\<lambda>outs fd. case outs fd of Some s \<Rightarrow> s | None \<Rightarrow> '''')
      in case communicate_loop K pipes (initial_outputs pipes) k of
           None \<Rightarrow> None
         | Some (Inl e) \<Rightarrow> Some (Inl e)
         | Some (Inr (outs, k1)) \<Rightarrow> Some (Inr ((optBuffer outs 1, optBuffer outs 2), k1)))"

section \<open>The kernel\<close>

text \<open>
  \<open>todo k fd\<close> is what the child will still write to the pipe with parent number \<open>fd\<close>, and
  \<open>pend\<close> bounds the interruptions and the calls of the write callback to come.  A poll reports
  something for some pipe; an output pipe has no error; a read returns the next bytes, and
  nothing at the end.
\<close>

definition poll_reported :: "(int \<times> bool) list \<Rightarrow> revents list \<Rightarrow> bool" where
  "poll_reported pfds revs \<longleftrightarrow> length revs = length pfds \<and>
     (\<exists>i < length pfds. if snd (pfds ! i) then POLLOUT (revs ! i) \<or> POLLHUP (revs ! i) \<or> POLLERR (revs ! i)
        else POLLIN (revs ! i) \<or> POLLHUP (revs ! i)) \<and>
     (\<forall>i < length pfds. \<not> snd (pfds ! i) \<longrightarrow> \<not> POLLERR (revs ! i))"

definition comm_laws :: "'k comm_kernel \<Rightarrow> ('k \<Rightarrow> int \<Rightarrow> string) \<Rightarrow> ('k \<Rightarrow> nat) \<Rightarrow> bool" where
  "comm_laws K todo pend \<longleftrightarrow>
     (\<forall>pfds k e k'. c_poll K pfds k = (Inl e, k') \<longrightarrow> pend k' < pend k \<and> todo k' = todo k) \<and>
     (\<forall>pfds k revs k'. pfds \<noteq> [] \<and> c_poll K pfds k = (Inr revs, k') \<longrightarrow> poll_reported pfds revs \<and> pend k' \<le> pend k \<and> todo k' = todo k) \<and>
     (\<forall>fd k e k'. c_read K fd k = (Inl e, k') \<longrightarrow> pend k' < pend k \<and> todo k' = todo k) \<and>
     (\<forall>fd k buf k'. c_read K fd k = (Inr buf, k') \<longrightarrow> pend k' \<le> pend k \<and> (\<exists>rest. todo k fd = buf @ rest \<and> todo k' = (todo k)(fd := rest)) \<and>
        (buf = '''' \<longrightarrow> todo k fd = '''')) \<and>
     (\<forall>fd k b k'. c_writeCallback K fd k = (b, k') \<longrightarrow> todo k' = todo k \<and> pend k' \<le> pend k \<and> (\<not> b \<longrightarrow> pend k' < pend k))"

section \<open>One descriptor\<close>

definition buffer_of :: "outputs \<Rightarrow> int \<Rightarrow> string" where
  "buffer_of outs t = (case outs t of Some s \<Rightarrow> s | None \<Rightarrow> '''')"

text \<open>The bytes read so far and those still to be read are the stream of the child.\<close>

definition comm_inv :: "(int \<Rightarrow> string) \<Rightarrow> pipe_map \<Rightarrow> ('k \<Rightarrow> int \<Rightarrow> string) \<Rightarrow> pipe_map \<Rightarrow> outputs \<Rightarrow> 'k \<Rightarrow> bool" where
  "comm_inv S P todo pipes outs k \<longleftrightarrow>
     distinct (map fst P) \<and> distinct (map snd P) \<and> distinct pipes \<and> set pipes \<subseteq> set P \<and>
     (\<forall>t. t \<notin> fst ` set P \<longrightarrow> outs t = None) \<and>
     (\<forall>t fd. (t, fd) \<in> set P \<and> t \<noteq> 0 \<longrightarrow>
        buffer_of outs t @ (if (t, fd) \<in> set pipes then todo k fd else '''') = S fd)"

definition comm_rank :: "pipe_map \<Rightarrow> ('k \<Rightarrow> int \<Rightarrow> string) \<Rightarrow> ('k \<Rightarrow> nat) \<Rightarrow> pipe_map \<Rightarrow> 'k \<Rightarrow> nat" where
  "comm_rank P todo pend pipes k = length pipes + (\<Sum>fd\<in>snd ` set P. length (todo k fd)) + pend k"

definition productive :: "int \<Rightarrow> revents \<Rightarrow> bool" where
  "productive t rv \<longleftrightarrow> (if t = 0 then POLLOUT rv \<or> POLLHUP rv \<or> POLLERR rv else POLLIN rv \<or> POLLHUP rv)"

lemma output_pfd_cases:
  assumes "handle_pfd K t fd rv pipes outs k = Inr (pipes', outs', k')" "t \<noteq> 0" "\<not> POLLERR rv"
  obtains (idle) "\<not> productive t rv" "pipes' = pipes" "outs' = outs" "k' = k"
    | (retry) e where "c_read K fd k = (Inl e, k')" "pipes' = pipes" "outs' = outs"
    | (eof) "c_read K fd k = (Inr '''', k')" "pipes' = erase_pipe t pipes" "outs' = outs"
    | (data) buf where "c_read K fd k = (Inr buf, k')" "buf \<noteq> ''''" "pipes' = pipes" "outs' = append_output t buf outs"
  using assms
  by (auto simp: handle_pfd_def handle_input_def productive_def split: if_splits prod.splits sum.splits)

lemma input_pfd_cases:
  assumes "handle_pfd K 0 fd rv pipes outs k = Inr (pipes', outs', k')"
  obtains (idle) "\<not> productive 0 rv" "pipes' = pipes" "outs' = outs" "k' = k"
    | (closed) "pipes' = erase_pipe 0 pipes" "outs' = outs" "k' = k"
    | (asked) b fd' where "c_writeCallback K fd' k = (b, k')" "outs' = outs"
        "pipes' = erase_pipe 0 pipes \<or> (\<not> b \<and> pipes' = pipes)"
  using assms
  by (auto simp: handle_pfd_def handle_input_def productive_def split: if_splits prod.splits bool.splits option.splits)

lemma set_erase_pipe [simp]: "set (erase_pipe t pipes) = {it \<in> set pipes. fst it \<noteq> t}"
  by (simp add: erase_pipe_def)

lemma length_erase_pipe: "(t, fd) \<in> set pipes \<Longrightarrow> length (erase_pipe t pipes) < length pipes"
  unfolding erase_pipe_def by (rule length_filter_less) auto

lemma comm_inv_erase:
  assumes "comm_inv S P todo pipes outs k" "t \<noteq> 0 \<Longrightarrow> (t, fd) \<in> set P \<and> todo k fd = ''''"
  shows "comm_inv S P todo (erase_pipe t pipes) outs k"
proof -
  have "buffer_of outs u @ (if (u, g) \<in> set (erase_pipe t pipes) then todo k g else '''') = S g"
    if "(u, g) \<in> set P" "u \<noteq> 0" for u g
  proof -
    have *: "buffer_of outs u @ (if (u, g) \<in> set pipes then todo k g else '''') = S g"
      using assms(1) that by (simp add: comm_inv_def)
    show ?thesis
    proof (cases "u = t")
      case True
      then have "g = fd"
        using assms that by (metis comm_inv_def eq_key_imp_eq_value)
      then show ?thesis using * True assms(2) that by (auto split: if_splits)
    next
      case False
      then show ?thesis using * by simp
    qed
  qed
  then show ?thesis
    using assms(1) by (auto simp: comm_inv_def erase_pipe_def)
qed

lemma comm_inv_kernel:
  assumes "comm_inv S P todo pipes outs k" "todo k' = todo k"
  shows "comm_inv S P todo pipes outs k'"
  using assms(1) unfolding comm_inv_def assms(2) .

lemma pipe_fd_inj: "distinct (map snd P) \<Longrightarrow> (t, fd) \<in> set P \<Longrightarrow> (u, fd) \<in> set P \<Longrightarrow> t = u"
  unfolding distinct_map inj_on_def by fastforce

lemma comm_rank_less:
  "length pipes' \<le> length pipes \<Longrightarrow> todo k' = todo k \<Longrightarrow> pend k' \<le> pend k \<Longrightarrow>
     length pipes' < length pipes \<or> pend k' < pend k \<Longrightarrow>
     comm_rank P todo pend pipes' k' < comm_rank P todo pend pipes k"
  by (auto simp: comm_rank_def)

lemma comm_inv_data:
  assumes "comm_inv S P todo pipes outs k" "(t, fd) \<in> set pipes" "todo k fd = buf @ rest" "todo k' = (todo k)(fd := rest)"
  shows "comm_inv S P todo pipes (append_output t buf outs) k'"
proof -
  have sub: "(t, fd) \<in> set P" and dk: "distinct (map fst P)" and dv: "distinct (map snd P)"
    using assms(1,2) by (auto simp: comm_inv_def)
  have "buffer_of (append_output t buf outs) u @ (if (u, g) \<in> set pipes then todo k' g else '''') = S g"
    if "(u, g) \<in> set P" "u \<noteq> 0" for u g
  proof -
    have *: "buffer_of outs u @ (if (u, g) \<in> set pipes then todo k g else '''') = S g"
      using assms(1) that by (simp add: comm_inv_def)
    show ?thesis
    proof (cases "u = t")
      case True
      then have "g = fd"
        using that(1) sub dk by (metis eq_key_imp_eq_value)
      then show ?thesis using * True assms by (simp add: append_output_def buffer_of_def)
    next
      case False
      then have "g \<noteq> fd"
        using that(1) sub pipe_fd_inj [OF dv] by blast
      then show ?thesis using * False assms(4) by (auto simp: append_output_def buffer_of_def split: if_splits)
    qed
  qed
  moreover have "t \<in> fst ` set P" using sub by (rule rev_image_eqI) simp
  then have "\<forall>u. u \<notin> fst ` set P \<longrightarrow> append_output t buf outs u = None"
    using assms(1) by (auto simp: comm_inv_def append_output_def)
  ultimately show ?thesis
    using assms(1) unfolding comm_inv_def by blast
qed

lemma comm_rank_data:
  assumes "(t, fd) \<in> set P" "todo k fd = buf @ rest" "todo k' = (todo k)(fd := rest)" "pend k' \<le> pend k" "buf \<noteq> ''''"
  shows "comm_rank P todo pend pipes k' < comm_rank P todo pend pipes k"
proof -
  have "(\<Sum>g\<in>snd ` set P. length (todo k' g)) < (\<Sum>g\<in>snd ` set P. length (todo k g))"
    by (rule sum_strict_mono_ex1) (use assms in \<open>auto intro!: bexI [of _ "(t, fd)"]\<close>)
  then show ?thesis using assms(4) by (simp add: comm_rank_def)
qed

lemmas comm_laws_poll_fail = comm_laws_def [THEN iffD1, THEN conjunct1, THEN spec, THEN spec, THEN spec, THEN spec, THEN mp]
lemmas comm_laws_poll = comm_laws_def [THEN iffD1, THEN conjunct2, THEN conjunct1, THEN spec, THEN spec, THEN spec, THEN spec, THEN mp]
lemmas comm_laws_read_fail = comm_laws_def [THEN iffD1, THEN conjunct2, THEN conjunct2, THEN conjunct1, THEN spec, THEN spec, THEN spec, THEN spec, THEN mp]
lemmas comm_laws_read = comm_laws_def [THEN iffD1, THEN conjunct2, THEN conjunct2, THEN conjunct2, THEN conjunct1, THEN spec, THEN spec, THEN spec, THEN spec, THEN mp]
lemmas comm_laws_write = comm_laws_def [THEN iffD1, THEN conjunct2, THEN conjunct2, THEN conjunct2, THEN conjunct2, THEN spec, THEN spec, THEN spec, THEN spec, THEN mp]

text \<open>What the treatment of the descriptors \<open>ts\<close> keeps, and that it makes progress.\<close>

definition pfd_step :: "(int \<Rightarrow> string) \<Rightarrow> pipe_map \<Rightarrow> ('k \<Rightarrow> int \<Rightarrow> string) \<Rightarrow> ('k \<Rightarrow> nat) \<Rightarrow> pipe_map \<Rightarrow> 'k \<Rightarrow> int set \<Rightarrow> pipe_map \<times> outputs \<times> 'k \<Rightarrow> bool \<Rightarrow> bool" where
  "pfd_step S P todo pend pipes k ts r progress \<longleftrightarrow>
     (case r of (pipes', outs', k') \<Rightarrow>
        comm_inv S P todo pipes' outs' k' \<and> (\<forall>it \<in> set pipes. fst it \<notin> ts \<longrightarrow> it \<in> set pipes') \<and>
        comm_rank P todo pend pipes' k' \<le> comm_rank P todo pend pipes k \<and>
        (progress \<longrightarrow> comm_rank P todo pend pipes' k' < comm_rank P todo pend pipes k))"

lemma handle_output_step:
  assumes L: "comm_laws K todo pend" and I: "comm_inv S P todo pipes outs k" and m: "(t, fd) \<in> set pipes"
    and t: "t \<noteq> 0" and e: "\<not> POLLERR rv" and h: "handle_pfd K t fd rv pipes outs k = Inr (pipes', outs', k')"
  shows "pfd_step S P todo pend pipes k {t} (pipes', outs', k') (productive t rv)"
  using h t e
proof (cases rule: output_pfd_cases)
  case idle
  then show ?thesis using I by (simp add: pfd_step_def)
next
  case (retry e)
  then show ?thesis
    using I comm_laws_read_fail [OF L retry(1)] comm_inv_kernel [OF I] comm_rank_less [of pipes pipes todo k' k pend P]
    by (simp add: pfd_step_def)
next
  case eof
  from comm_laws_read [OF L eof(1)] have e0: "todo k fd = ''''" "todo k' = todo k" "pend k' \<le> pend k"
    by (auto simp: fun_upd_idem)
  have P: "(t, fd) \<in> set P" using I m by (auto simp: comm_inv_def)
  have "comm_inv S P todo pipes' outs' k'"
    unfolding eof(2,3) by (rule comm_inv_erase [OF comm_inv_kernel [OF I e0(2)]]) (use P e0 in simp)
  then show ?thesis
    using e0 eof length_erase_pipe [OF m] comm_rank_less [of pipes' pipes todo k' k pend P] by (auto simp: pfd_step_def)
next
  case (data buf)
  from comm_laws_read [OF L data(1)] obtain rest where r: "todo k fd = buf @ rest" "todo k' = (todo k)(fd := rest)" "pend k' \<le> pend k"
    by blast
  have P: "(t, fd) \<in> set P" using I m by (auto simp: comm_inv_def)
  show ?thesis
    using comm_inv_data [OF I m r(1,2)] comm_rank_data [OF P r data(2), of pipes] data by (simp add: pfd_step_def)
qed

lemma handle_input_step:
  assumes L: "comm_laws K todo pend" and I: "comm_inv S P todo pipes outs k" and m: "(0, fd) \<in> set pipes"
    and h: "handle_pfd K 0 fd rv pipes outs k = Inr (pipes', outs', k')"
  shows "pfd_step S P todo pend pipes k {0} (pipes', outs', k') (productive 0 rv)"
  using h
proof (cases rule: input_pfd_cases)
  case idle
  then show ?thesis using I by (simp add: pfd_step_def)
next
  case closed
  have "comm_inv S P todo (erase_pipe 0 pipes) outs k" by (rule comm_inv_erase [OF I]) simp
  then show ?thesis
    using closed length_erase_pipe [OF m] comm_rank_less [of pipes' pipes todo k' k pend P] by (auto simp: pfd_step_def)
next
  case (asked b fd')
  note w = comm_laws_write [OF L asked(1)]
  have I': "comm_inv S P todo pipes outs k'" by (rule comm_inv_kernel [OF I]) (use w in simp)
  then have "comm_inv S P todo (erase_pipe 0 pipes) outs k'" by (rule comm_inv_erase) simp
  then show ?thesis
    using I' w asked(2,3) length_erase_pipe [OF m] comm_rank_less [of pipes' pipes todo k' k pend P] by (auto simp: pfd_step_def)
qed

section \<open>One round\<close>

lemma revmap_pipe:
  assumes "distinct (map snd pipes)" "(t, fd) \<in> set pipes"
  shows "revmap pipes fd = t"
proof -
  have "map_of (rev (map (\<lambda>it. (snd it, fst it)) pipes)) fd = Some t"
    by (subst map_of_eq_Some_iff) (use assms in \<open>force simp: comp_def rev_map [symmetric]\<close>)+
  then show ?thesis by (simp add: revmap_def)
qed

lemma handle_pfd_step:
  assumes "comm_laws K todo pend" "comm_inv S P todo pipes outs k" "(t, fd) \<in> set pipes"
    "t \<noteq> 0 \<Longrightarrow> \<not> POLLERR rv" "handle_pfd K t fd rv pipes outs k = Inr r"
  shows "pfd_step S P todo pend pipes k {t} r (productive t rv)"
proof -
  obtain pipes' outs' k' where r: "r = (pipes', outs', k')" by (cases r)
  show ?thesis
  proof (cases "t = 0")
    case True
    show ?thesis
      using handle_input_step [OF assms(1,2)] assms(3,5) unfolding r True by blast
  next
    case False
    show ?thesis
      using handle_output_step [OF assms(1-3) False assms(4) [OF False]] assms(5) unfolding r by blast
  qed
qed

lemma pfd_step_trans:
  assumes "pfd_step S P todo pend pipes k ts (pipes1, outs1, k1) b" "pfd_step S P todo pend pipes1 k1 us r c"
  shows "pfd_step S P todo pend pipes k (ts \<union> us) r (b \<or> c)"
  using assms unfolding pfd_step_def by (auto split: prod.splits)

text \<open>An error that ends the exchange: not an interruption, and for a read not \<open>EAGAIN\<close> either.\<close>

definition hard_error :: "'k comm_kernel \<Rightarrow> exn \<Rightarrow> bool" where
  "hard_error K e \<longleftrightarrow> (\<exists>n. e = SystemError n \<and> n \<noteq> 4 \<and>
     ((\<exists>pfds k k'. c_poll K pfds k = (Inl n, k')) \<or> (n \<noteq> 11 \<and> (\<exists>fd k k'. c_read K fd k = (Inl n, k')))))"

lemma handle_pfd_error:
  assumes "handle_pfd K t fd rv pipes outs k = Inl e" "(t, fd) \<in> set pipes"
  shows "hard_error K e"
proof -
  from weak_map_of_SomeI [OF assms(2)] have "map_of pipes t \<noteq> None" by auto
  with assms(1) show ?thesis
    by (auto simp: handle_pfd_def handle_input_def hard_error_def Let_def
        split: if_splits prod.splits sum.splits bool.splits option.splits)
qed

text \<open>A round over the pipes \<open>ps\<close>, each with what \<open>poll\<close> reported for it.\<close>

lemma handle_pfds_step:
  assumes "comm_laws K todo pend" "comm_inv S P todo pipes outs k" "set (map fst ps) \<subseteq> set pipes" "distinct (map (fst \<circ> fst) ps)"
    "\<And>it rv. (it, rv) \<in> set ps \<Longrightarrow> rm (snd it) = fst it \<and> (fst it \<noteq> 0 \<longrightarrow> \<not> POLLERR rv)"
  shows "case handle_pfds K rm (map (\<lambda>(it, rv). ((snd it, fst it = 0), rv)) ps) pipes outs k of
      Inl e \<Rightarrow> hard_error K e
    | Inr r \<Rightarrow> pfd_step S P todo pend pipes k ((fst \<circ> fst) ` set ps) r (\<exists>(it, rv) \<in> set ps. productive (fst it) rv)"
  using assms(2-)
proof (induction ps arbitrary: pipes outs k)
  case Nil
  then show ?case by (auto simp: pfd_step_def)
next
  case (Cons q ps)
  obtain t fd rv where q: "q = ((t, fd), rv)" by (metis surj_pair)
  from Cons.prems(4) [of "(t, fd)" rv] have rm: "rm fd = t" "t \<noteq> 0 \<Longrightarrow> \<not> POLLERR rv" by (auto simp: q)
  have m: "(t, fd) \<in> set pipes" using Cons.prems(2) by (simp add: q)
  show ?case
  proof (cases "handle_pfd K t fd rv pipes outs k")
    case (Inl e')
    then show ?thesis using rm(1) handle_pfd_error [OF Inl m] by (simp add: q)
  next
    case (Inr r1)
    obtain pipes1 outs1 k1 where r1: "r1 = (pipes1, outs1, k1)" by (cases r1)
    have s1: "pfd_step S P todo pend pipes k {t} (pipes1, outs1, k1) (productive t rv)"
      using handle_pfd_step [OF assms(1) Cons.prems(1) m _ Inr] rm(2) by (simp add: r1)
    then have I1: "comm_inv S P todo pipes1 outs1 k1" and sub: "set (map fst ps) \<subseteq> set pipes1"
      using Cons.prems(2,3) by (force simp: pfd_step_def q)+
    have "case handle_pfds K rm (map (\<lambda>(it, rv). ((snd it, fst it = 0), rv)) ps) pipes1 outs1 k1 of Inl e \<Rightarrow> hard_error K e
      | Inr r \<Rightarrow> pfd_step S P todo pend pipes1 k1 ((fst \<circ> fst) ` set ps) r (\<exists>(it, rv) \<in> set ps. productive (fst it) rv)"
      by (rule Cons.IH [OF I1 sub]) (use Cons.prems(3,4) in auto)
    then show ?thesis using Inr rm(1) pfd_step_trans [OF s1] by (auto simp: q r1 split: sum.splits)
  qed
qed

text \<open>A report as a list of the pipes with their events.\<close>

lemma zip_pollfds:
  "length revs = length pipes \<Longrightarrow> zip (pollfds pipes) revs = map (\<lambda>(it, rv). ((snd it, fst it = 0), rv)) (zip pipes revs)"
  unfolding pollfds_def by (induction pipes revs rule: list_induct2') auto

lemma round_step:
  assumes L: "comm_laws K todo pend" and I: "comm_inv S P todo pipes outs k" and rep: "poll_reported (pollfds pipes) revs"
  shows "case handle_pfds K (revmap pipes) (zip (pollfds pipes) revs) pipes outs k of
      Inl e \<Rightarrow> hard_error K e
    | Inr r \<Rightarrow> pfd_step S P todo pend pipes k (fst ` set pipes) r True"
proof -
  have len: "length revs = length pipes" using rep by (simp add: poll_reported_def pollfds_def)
  have d: "distinct pipes" "set pipes \<subseteq> set P" "distinct (map snd P)" "distinct (map fst P)" using I by (auto simp: comm_inv_def)
  then have dm: "distinct (map snd pipes)" "distinct (map fst pipes)"
    by (auto simp: distinct_map intro: inj_on_subset)
  have fsts: "map fst (zip pipes revs) = pipes" by (simp add: len)
  then have ff: "map (fst \<circ> fst) (zip pipes revs) = map fst pipes" "(fst \<circ> fst) ` set (zip pipes revs) = fst ` set pipes"
    by (metis map_map, metis image_comp image_set)
  have good: "revmap pipes (snd it) = fst it \<and> (fst it \<noteq> 0 \<longrightarrow> \<not> POLLERR rv)" if "(it, rv) \<in> set (zip pipes revs)" for it rv
    using that rep dm(1) revmap_pipe [of pipes "fst it" "snd it"]
    by (auto simp: in_set_zip poll_reported_def pollfds_def)
  have ex: "(\<exists>(it, rv) \<in> set (zip pipes revs). productive (fst it) rv) = True"
  proof -
    from rep obtain i where "i < length pipes" "productive (fst (pipes ! i)) (revs ! i)"
      by (auto simp: poll_reported_def pollfds_def productive_def split: if_splits)
    then have "(pipes ! i, revs ! i) \<in> set (zip pipes revs)" "productive (fst (pipes ! i)) (revs ! i)"
      using len by (auto simp: in_set_zip)
    then show ?thesis by blast
  qed
  show ?thesis
    using handle_pfds_step [where ps = "zip pipes revs", OF L I _ _ good, unfolded ff fsts ex] dm(2) unfolding zip_pollfds [OF len] by simp
qed

section \<open>The whole exchange\<close>

lemma poll_retry_returns:
  assumes "comm_laws K todo pend" "pfds \<noteq> []"
  shows "\<exists>r k'. poll_retry K pfds k = Some (r, k') \<and> pend k' \<le> pend k \<and> todo k' = todo k \<and>
    (case r of Inl e \<Rightarrow> hard_error K e | Inr revs \<Rightarrow> poll_reported pfds revs)"
proof (induction "pend k" arbitrary: k rule: less_induct)
  case less
  obtain x k1 where p: "c_poll K pfds k = (x, k1)" by fastforce
  show ?case
  proof (cases x)
    case (Inl e)
    with p have f: "pend k1 < pend k" "todo k1 = todo k" using comm_laws_poll_fail [OF assms(1)] by metis+
    show ?thesis
    proof (cases "e = 4")
      case True
      have step: "poll_retry K pfds k = poll_retry K pfds k1" by (subst poll_retry.simps) (simp add: p Inl True)
      show ?thesis unfolding step using less [OF f(1)] f by (metis less_imp_le order_trans)
    next
      case False
      then show ?thesis using p Inl f by (subst poll_retry.simps) (auto simp: hard_error_def)
    qed
  next
    case (Inr revs)
    then show ?thesis using comm_laws_poll [OF assms(1), of pfds k revs k1] assms(2) p
      by (subst poll_retry.simps) auto
  qed
qed

lemma communicate_returns:
  assumes L: "comm_laws K todo pend" and "comm_inv S P todo pipes outs k"
  shows "\<exists>r. communicate_loop K pipes outs k = Some r \<and>
    (case r of Inl e \<Rightarrow> hard_error K e | Inr (outs', k') \<Rightarrow> comm_inv S P todo [] outs' k')"
  using assms(2)
proof (induction "comm_rank P todo pend pipes k" arbitrary: pipes outs k rule: less_induct)
  case less
  show ?case
  proof (cases "pipes = []")
    case True
    then show ?thesis using less.prems by (subst communicate_loop.simps) simp
  next
    case False
    then have "pollfds pipes \<noteq> []" by (simp add: pollfds_def)
    from poll_retry_returns [OF L this, of k] obtain r k1 where p: "poll_retry K (pollfds pipes) k = Some (r, k1)"
      and k1: "pend k1 \<le> pend k" "todo k1 = todo k" and r: "case r of Inl e \<Rightarrow> hard_error K e | Inr revs \<Rightarrow> poll_reported (pollfds pipes) revs"
      by blast
    note I1 = comm_inv_kernel [OF less.prems k1(2)]
    have rank: "comm_rank P todo pend pipes k1 \<le> comm_rank P todo pend pipes k" using k1 by (simp add: comm_rank_def)
    show ?thesis
    proof (cases r)
      case (Inl e)
      then show ?thesis using p r False by (subst communicate_loop.simps) simp
    next
      case (Inr revs)
      with r have "poll_reported (pollfds pipes) revs" by simp
      note rs = round_step [OF L I1 this]
      show ?thesis
      proof (cases "handle_pfds K (revmap pipes) (zip (pollfds pipes) revs) pipes outs k1")
        case (Inl e)
        then show ?thesis using rs p Inr False by (subst communicate_loop.simps) simp
      next
        case h: (Inr x)
        obtain pipes2 outs2 k2 where x: "x = (pipes2, outs2, k2)" by (cases x)
        have I2: "comm_inv S P todo pipes2 outs2 k2" and lt: "comm_rank P todo pend pipes2 k2 < comm_rank P todo pend pipes k"
          using rs rank by (auto simp: h x pfd_step_def)
        have "communicate_loop K pipes outs k = communicate_loop K pipes2 outs2 k2"
          using False p Inr h x by (subst communicate_loop.simps) simp
        then show ?thesis using less.hyps [OF lt I2] by simp
      qed
    qed
  qed
qed

text \<open>What the child writes to its descriptor \<open>t\<close> over the whole exchange.\<close>

definition child_stream :: "('k \<Rightarrow> int \<Rightarrow> string) \<Rightarrow> pipe_map \<Rightarrow> 'k \<Rightarrow> int \<Rightarrow> string" where
  "child_stream todo pipes k t = (case map_of pipes t of Some fd \<Rightarrow> todo k fd | None \<Rightarrow> '''')"

lemma comm_inv_start:
  "distinct (map fst P) \<Longrightarrow> distinct (map snd P) \<Longrightarrow> comm_inv (todo k) P todo P (initial_outputs P) k"
  by (auto simp: comm_inv_def buffer_of_def initial_outputs_def distinct_map map_of_eq_None_iff)

lemma comm_inv_end:
  "comm_inv (todo k) P todo [] outs k' \<Longrightarrow> t \<noteq> 0 \<Longrightarrow> buffer_of outs t = child_stream todo P k t"
  by (auto simp: comm_inv_def buffer_of_def child_stream_def map_of_eq_None_iff dest: map_of_SomeD split: option.splits)

text \<open>
  C22: \<open>pollingCommunicate\<close> always returns, and unless \<open>poll\<close> or \<open>read\<close> fails with something other
  than an interruption it returns exactly what the child wrote to its standard output and to
  its standard error, however the reads were split and whatever the write callback did; it
  never throws \<open>out_of_range\<close>.
\<close>

theorem communicate_correct:
  assumes "comm_laws K todo pend" "distinct (map fst pipes)" "distinct (map snd pipes)"
  shows "\<exists>r. pollingCommunicate K pipes k = Some r \<and>
    (case r of
       Inl e \<Rightarrow> hard_error K e
     | Inr ((out, err), k') \<Rightarrow> out = child_stream todo pipes k 1 \<and> err = child_stream todo pipes k 2)"
proof -
  from communicate_returns [OF assms(1) comm_inv_start [OF assms(2,3)], of k] obtain r where
    "communicate_loop K pipes (initial_outputs pipes) k = Some r"
    "case r of Inl e \<Rightarrow> hard_error K e | Inr (outs', k') \<Rightarrow> comm_inv (todo k) pipes todo [] outs' k'"
    by blast
  then show ?thesis
    using comm_inv_end [of todo k pipes _ _ 1, unfolded buffer_of_def] comm_inv_end [of todo k pipes _ _ 2, unfolded buffer_of_def]
    by (auto simp: pollingCommunicate_def split: sum.splits prod.splits)
qed

text \<open>
  A kernel for the witness: the state is the output the child still writes to descriptor 5 of
  the parent and the number of calls of the write callback until it asks for the pipe to be
  closed; \<open>poll\<close> reports everything as ready and a read returns one byte.
\<close>

definition byte_kernel :: "(string \<times> nat) comm_kernel" where
  "byte_kernel =
     \<lparr>c_poll = (\<lambda>pfds k. (Inr (map (\<lambda>q. \<lparr>POLLHUP = False, POLLIN = \<not> snd q, POLLOUT = snd q, POLLERR = False\<rparr>) pfds), k)),
      c_read = (\<lambda>fd k. if fd = 5 then (Inr (take 1 (fst k)), (drop 1 (fst k), snd k)) else (Inr '''', k)),
      c_writeCallback = (\<lambda>fd k. (snd k = 0, (fst k, snd k - 1)))\<rparr>"

definition byte_todo :: "string \<times> nat \<Rightarrow> int \<Rightarrow> string" where
  "byte_todo k fd = (if fd = 5 then fst k else '''')"

lemma byte_kernel_laws: "comm_laws byte_kernel byte_todo snd"
proof -
  have "poll_reported pfds (map (\<lambda>q. \<lparr>POLLHUP = False, POLLIN = \<not> snd q, POLLOUT = snd q, POLLERR = False\<rparr>) pfds)" if "pfds \<noteq> []" for pfds
    using that by (auto simp: poll_reported_def intro!: exI [of _ 0])
  then show ?thesis
    unfolding comm_laws_def by (auto simp: byte_kernel_def byte_todo_def fun_eq_iff split: if_splits)
qed

lemma byte_kernel_no_error: "\<not> hard_error byte_kernel e"
  by (auto simp: hard_error_def byte_kernel_def split: if_splits)

theorem communicate_correct_witness:
  "\<exists>k'. pollingCommunicate byte_kernel [(0, 7), (1, 5)] (''ok'', 3) = Some (Inr ((''ok'', ''''), k'))"
proof -
  have "\<exists>r. pollingCommunicate byte_kernel [(0, 7), (1, 5)] (''ok'', 3) = Some r \<and>
    (case r of Inl e \<Rightarrow> hard_error byte_kernel e
     | Inr ((out, err), k') \<Rightarrow> out = child_stream byte_todo [(0, 7), (1, 5)] (''ok'', 3) 1 \<and> err = child_stream byte_todo [(0, 7), (1, 5)] (''ok'', 3) 2)"
    by (rule communicate_correct [OF byte_kernel_laws]) simp_all
  then obtain r where r: "pollingCommunicate byte_kernel [(0, 7), (1, 5)] (''ok'', 3) = Some r"
    "case r of Inl e \<Rightarrow> hard_error byte_kernel e
     | Inr ((out, err), k') \<Rightarrow> out = child_stream byte_todo [(0, 7), (1, 5)] (''ok'', 3) 1 \<and> err = child_stream byte_todo [(0, 7), (1, 5)] (''ok'', 3) 2"
    by blast
  then show ?thesis
    by (cases r) (auto simp: byte_kernel_no_error child_stream_def byte_todo_def split: prod.splits)
qed

end
