(* ===== verification/Scribe_Logger.thy ===== *)
theory Scribe_Logger
  imports File_Descriptor Spawned_Process
begin

text \<open>
  \<open>SubprocessScribeLogger\<close>: messages are queued by \<open>log\<close> and written, one line each, to the
  standard input of a child process by a thread of its own.

  The threads are the callers of \<open>log\<close>, the writer, and the destructor.  A critical section of
  \<open>state_\<close>, a \<open>notify_one\<close> and the write of one message is a step each; \<open>condition_variable::wait\<close>
  with a predicate tests it, releases the lock and blocks in one step, and may wake up
  spuriously.  The pipe is written through \<open>FileDescriptor::writevFull\<close> on a kernel \<open>K\<close> with
  state \<open>'k\<close>; the process is a \<open>SpawnedProcess\<close> on a kernel \<open>PK\<close> with state \<open>'p\<close>.
\<close>

section \<open>State and operations\<close>

datatype writer_pc = W_start | W_lock | W_blocked | W_write string | W_giveUp | W_notify | W_returned

datatype dtor_pc = D_none | D_notify | D_wait | D_close | D_join | D_finished

text \<open>
  The fields of \<open>State\<close>, the process, the program counters, the notifications \<open>log\<close> has still to
  send, whether the wait of the destructor ran into its timeout, and a failed \<open>XCHECK\<close>.
  \<open>sc_accepted\<close> and \<open>sc_gaveUp\<close> record the history: the messages that were queued, and the
  write that failed.
\<close>

record ('k, 'p) scribe =
  sc_shouldStop :: bool
  sc_didStop :: bool
  sc_totalBytes :: nat
  sc_messages :: "string list"
  sc_process :: spawned
  sc_pk :: 'p
  sc_k :: 'k
  sc_writer :: writer_pc
  sc_dtor :: dtor_pc
  sc_notifies :: nat
  sc_timedOut :: bool
  sc_crashed :: bool
  sc_accepted :: "string list"
  sc_gaveUp :: bool

definition kQueueLimitBytes :: nat where
  "kQueueLimitBytes = 128 * 1024"

definition scribe_start :: "spawned \<Rightarrow> 'p \<Rightarrow> 'k \<Rightarrow> ('k, 'p) scribe" where
  "scribe_start process pk k =
     \<lparr>sc_shouldStop = False, sc_didStop = False, sc_totalBytes = 0, sc_messages = [], sc_process = process, sc_pk = pk,
      sc_k = k, sc_writer = W_start, sc_dtor = D_none, sc_notifies = 0, sc_timedOut = False, sc_crashed = False,
      sc_accepted = [], sc_gaveUp = False\<rparr>"

text \<open>The critical section of \<open>log\<close>; the notification is a step of its own.\<close>

definition scribe_log :: "string \<Rightarrow> ('k, 'p) scribe \<Rightarrow> ('k, 'p) scribe" where
  "scribe_log message s =
     (let messageSize = length message
      in if sc_shouldStop s then s\<lparr>sc_crashed := True\<rparr>
         else if sc_didStop s then s
         else if sc_totalBytes s + messageSize > kQueueLimitBytes then s
         else s\<lparr>sc_messages := sc_messages s @ [message], sc_totalBytes := sc_totalBytes s + messageSize,
                sc_notifies := sc_notifies s + 1, sc_accepted := sc_accepted s @ [message]\<rparr>)"

definition notify_one :: "('k, 'p) scribe \<Rightarrow> ('k, 'p) scribe" where
  "notify_one s = (if sc_writer s = W_blocked then s\<lparr>sc_writer := W_lock\<rparr> else s)"

text \<open>The writer takes the descriptor out of the process object.\<close>

definition writer_begin :: "('k, 'p) scribe \<Rightarrow> ('k, 'p) scribe" where
  "writer_begin s = s\<lparr>sc_process := snd (stdinFd (sc_process s)), sc_writer := W_lock\<rparr>"

definition writer_take :: "('k, 'p) scribe \<Rightarrow> ('k, 'p) scribe" where
  "writer_take s =
     (if \<not> (sc_shouldStop s \<or> sc_messages s \<noteq> []) then s\<lparr>sc_writer := W_blocked\<rparr>
      else case sc_messages s of
             message # rest \<Rightarrow>
               if \<not> length message \<le> sc_totalBytes s then s\<lparr>sc_crashed := True\<rparr>
               else s\<lparr>sc_messages := rest, sc_totalBytes := sc_totalBytes s - length message, sc_writer := W_write message\<rparr>
           | [] \<Rightarrow>
               if sc_totalBytes s \<noteq> 0 then s\<lparr>sc_crashed := True\<rparr>
               else s\<lparr>sc_didStop := True, sc_writer := W_notify\<rparr>)"

definition newline :: string where
  "newline = [CHR 0x0A]"

definition writer_write :: "('k, char) io_kernel \<Rightarrow> nat \<Rightarrow> string \<Rightarrow> ('k, 'p) scribe \<Rightarrow> ('k, 'p) scribe option" where
  "writer_write K kIovMax message s =
     (case writevFull K kIovMax (sc_k s) [message, newline] of
        None \<Rightarrow> None
      | Some (Inl e, k) \<Rightarrow> Some (s\<lparr>sc_k := k, sc_writer := W_giveUp, sc_gaveUp := True\<rparr>)
      | Some (Inr n, k) \<Rightarrow> Some (s\<lparr>sc_k := k, sc_writer := W_lock\<rparr>))"

definition writer_giveUp :: "('k, 'p) scribe \<Rightarrow> ('k, 'p) scribe" where
  "writer_giveUp s = s\<lparr>sc_didStop := True, sc_messages := [], sc_totalBytes := 0, sc_writer := W_notify\<rparr>"

definition closeProcess :: "'p proc_kernel \<Rightarrow> ('k, 'p) scribe \<Rightarrow> ('k, 'p) scribe option" where
  "closeProcess PK s =
     (case waitOrTerminateOrKill PK 1000 1000 (closeParentFd 0 (sc_process s)) (sc_pk s) of
        None \<Rightarrow> None
      | Some (r, p, pk) \<Rightarrow> Some (s\<lparr>sc_process := p, sc_pk := pk, sc_dtor := D_join\<rparr>))"

section \<open>Steps\<close>

text \<open>
  One step of the writer thread and of the destructor; \<open>None\<close> is a thread that is blocked or has
  returned.  The wait of the destructor returns when \<open>didStop\<close> is set; its timeout is a step of
  the environment.
\<close>

fun writer_step :: "('k, char) io_kernel \<Rightarrow> nat \<Rightarrow> writer_pc \<Rightarrow> ('k, 'p) scribe \<Rightarrow> ('k, 'p) scribe option" where
  "writer_step K kIovMax W_start s = Some (writer_begin s)"
| "writer_step K kIovMax W_lock s = Some (writer_take s)"
| "writer_step K kIovMax W_blocked s = None"
| "writer_step K kIovMax (W_write message) s = writer_write K kIovMax message s"
| "writer_step K kIovMax W_giveUp s = Some (writer_giveUp s)"
| "writer_step K kIovMax W_notify s = Some (s\<lparr>sc_writer := W_returned\<rparr>)"
| "writer_step K kIovMax W_returned s = None"

fun dtor_step :: "'p proc_kernel \<Rightarrow> dtor_pc \<Rightarrow> ('k, 'p) scribe \<Rightarrow> ('k, 'p) scribe option" where
  "dtor_step PK D_none s = Some (s\<lparr>sc_shouldStop := True, sc_dtor := D_notify\<rparr>)"
| "dtor_step PK D_notify s = Some ((notify_one s)\<lparr>sc_dtor := D_wait\<rparr>)"
| "dtor_step PK D_wait s = (if sc_didStop s then Some (s\<lparr>sc_dtor := D_close\<rparr>) else None)"
| "dtor_step PK D_close s = closeProcess PK s"
| "dtor_step PK D_join s = (if sc_writer s = W_returned then Some (s\<lparr>sc_dtor := D_finished\<rparr>) else None)"
| "dtor_step PK D_finished s = None"

inductive scribe_step :: "('k, char) io_kernel \<Rightarrow> nat \<Rightarrow> 'p proc_kernel \<Rightarrow> ('k, 'p) scribe \<Rightarrow> ('k, 'p) scribe \<Rightarrow> bool"
  for K :: "('k, char) io_kernel" and kIovMax :: nat and PK :: "'p proc_kernel" where
  st_log: "sc_dtor s = D_none \<Longrightarrow> scribe_step K kIovMax PK s (scribe_log message s)"
| st_notify: "0 < sc_notifies s \<Longrightarrow> scribe_step K kIovMax PK s ((notify_one s)\<lparr>sc_notifies := sc_notifies s - 1\<rparr>)"
| st_writer: "writer_step K kIovMax (sc_writer s) s = Some s' \<Longrightarrow> scribe_step K kIovMax PK s s'"
| st_dtor: "sc_notifies s = 0 \<or> sc_dtor s \<noteq> D_none \<Longrightarrow> dtor_step PK (sc_dtor s) s = Some s' \<Longrightarrow> scribe_step K kIovMax PK s s'"
| st_timeout: "sc_dtor s = D_wait \<Longrightarrow> scribe_step K kIovMax PK s (s\<lparr>sc_dtor := D_close, sc_timedOut := True\<rparr>)"
| st_spurious: "sc_writer s = W_blocked \<Longrightarrow> scribe_step K kIovMax PK s (s\<lparr>sc_writer := W_lock\<rparr>)"

definition scribe_init :: "'k \<Rightarrow> ('k, 'p) scribe \<Rightarrow> bool" where
  "scribe_init k0 s \<longleftrightarrow> (\<exists>process pk. s = scribe_start process pk k0)"

section \<open>The pipe\<close>

text \<open>A line is written as a whole, also when the message is empty.\<close>

lemma writevFull_line:
  assumes L: "posix_io K V" and max: "2 \<le> kIovMax"
  shows "\<exists>res. writevFull K kIovMax k [message, newline] = Some res \<and> write_outcome V k (message @ newline) 0 res"
proof (cases "message = ''''")
  case False
  then show ?thesis
    using wrapvFull_write_spec [OF L, of kIovMax "[message, newline]" k 0] max by (simp add: writevFull_def newline_def)
next
  case True
  have tk: "take kIovMax [[], newline] = [[], newline]" using max by simp
  have "\<exists>res. wrapvFull_write K kIovMax k [[], newline] 0 = Some res \<and> write_outcome V k newline 0 res"
  proof (induction "signals V k" arbitrary: k rule: less_induct)
    case less
    have "accepts V (concat [[], newline]) k (sys_writev K k [[], newline])" using L unfolding posix_io_def by blast
    then show ?case
    proof (cases rule: accepts_cases)
      case (error e k')
      show ?thesis
      proof (cases "e = EINTR")
        case True
        have step: "wrapvFull_write K kIovMax k [[], newline] 0 = wrapvFull_write K kIovMax k' [[], newline] 0"
          by (subst wrapvFull_write.simps) (simp only: tk, simp add: error(1) True)
        have same: "write_outcome V k newline 0 res = write_outcome V k' newline 0 res" for res
          using error(2) unfolding failed_call_def write_outcome_def by metis
        show ?thesis unfolding step same using less [of k'] error(2) True by (simp add: failed_call_def)
      next
        case False
        then show ?thesis using error
          by (subst wrapvFull_write.simps) (simp only: tk, auto simp: failed_call_def write_outcome_def intro: exI [of _ 0])
      qed
    next
      case (bytes r k')
      then have "r = 1" by (auto simp: newline_def le_Suc_eq)
      then show ?thesis using bytes
        by (subst wrapvFull_write.simps) (simp only: tk, auto simp: newline_def write_outcome_def)
    qed
  qed
  then show ?thesis using True by (simp add: writevFull_def)
qed

lemma writer_write_cases:
  assumes "posix_io K V" "2 \<le> kIovMax"
  obtains (all) k where "writer_write K kIovMax message s = Some (s\<lparr>sc_k := k, sc_writer := W_lock\<rparr>)"
      "written V k = written V (sc_k s) @ message @ newline"
  | (fail) k n where "writer_write K kIovMax message s = Some (s\<lparr>sc_k := k, sc_writer := W_giveUp, sc_gaveUp := True\<rparr>)"
      "written V k = written V (sc_k s) @ take n (message @ newline)"
proof -
  from writevFull_line [OF assms, of "sc_k s" message] obtain r k where
    w: "writevFull K kIovMax (sc_k s) [message, newline] = Some (r, k)" "write_outcome V (sc_k s) (message @ newline) 0 (r, k)"
    by auto
  show ?thesis
  proof (cases r)
    case (Inl e)
    then show ?thesis using w fail by (auto simp: writer_write_def write_outcome_def)
  next
    case (Inr n)
    then show ?thesis using w all by (auto simp: writer_write_def write_outcome_def)
  qed
qed

lemma closeProcess_returns:
  assumes "proc_laws PK pend"
  obtains p pk where "closeProcess PK s = Some (s\<lparr>sc_process := p, sc_pk := pk, sc_dtor := D_join\<rparr>)" "pr_waited p"
  using waitOrTerminateOrKill_returns [OF assms, of 1000 1000 "closeParentFd 0 (sc_process s)" "sc_pk s"]
  by (auto simp: closeProcess_def)

section \<open>The invariant\<close>

text \<open>The lines of a list of messages, and the message the writer is writing.\<close>

definition lines_of :: "string list \<Rightarrow> string" where
  "lines_of ms = concat (map (\<lambda>m. m @ newline) ms)"

fun in_flight :: "writer_pc \<Rightarrow> string list" where
  "in_flight (W_write m) = [m]"
| "in_flight _ = []"

text \<open>The queue and its accounting.\<close>

definition queue_ok :: "('k, 'p) scribe \<Rightarrow> bool" where
  "queue_ok s \<longleftrightarrow> \<not> sc_crashed s \<and> sc_totalBytes s = sum_list (map length (sc_messages s)) \<and> sc_totalBytes s \<le> kQueueLimitBytes \<and>
     (sc_didStop s \<longrightarrow> sc_messages s = []) \<and> (sc_didStop s \<longleftrightarrow> sc_writer s = W_notify \<or> sc_writer s = W_returned)"

text \<open>No wake-up of the writer is lost.\<close>

definition wakeup_ok :: "('k, 'p) scribe \<Rightarrow> bool" where
  "wakeup_ok s \<longleftrightarrow> (sc_writer s = W_blocked \<and> (sc_shouldStop s \<or> sc_messages s \<noteq> []) \<longrightarrow> 0 < sc_notifies s \<or> sc_dtor s = D_notify)"

text \<open>The phases of the destructor.\<close>

definition dtor_ok :: "('k, 'p) scribe \<Rightarrow> bool" where
  "dtor_ok s \<longleftrightarrow> (sc_shouldStop s \<longleftrightarrow> sc_dtor s \<noteq> D_none) \<and>
     (sc_dtor s \<in> {D_close, D_join, D_finished} \<longrightarrow> sc_didStop s \<or> sc_timedOut s) \<and>
     (sc_dtor s \<in> {D_join, D_finished} \<longrightarrow> pr_waited (sc_process s)) \<and>
     (sc_dtor s = D_finished \<longrightarrow> sc_writer s = W_returned)"

text \<open>The messages accepted, those written and those waiting.\<close>

definition stream_ok :: "('k, char) io_view \<Rightarrow> 'k \<Rightarrow> ('k, 'p) scribe \<Rightarrow> bool" where
  "stream_ok V k0 s \<longleftrightarrow>
     (if sc_gaveUp s
      then sc_writer s \<in> {W_giveUp, W_notify, W_returned} \<and>
        (\<exists>sent m rest n. sc_accepted s = sent @ m # rest \<and>
           written V (sc_k s) = written V k0 @ lines_of sent @ take n (m @ newline))
      else sc_writer s \<noteq> W_giveUp \<and>
        (\<exists>sent. sc_accepted s = sent @ in_flight (sc_writer s) @ sc_messages s \<and>
           written V (sc_k s) = written V k0 @ lines_of sent))"

definition scribe_inv :: "('k, char) io_view \<Rightarrow> 'k \<Rightarrow> ('k, 'p) scribe \<Rightarrow> bool" where
  "scribe_inv V k0 s \<longleftrightarrow> queue_ok s \<and> wakeup_ok s \<and> dtor_ok s \<and> stream_ok V k0 s"

lemmas scribe_inv_defs = scribe_inv_def queue_ok_def wakeup_ok_def dtor_ok_def

lemma lines_of_simps [simp]:
  "lines_of [] = ''''" "lines_of (ms @ ms') = lines_of ms @ lines_of ms'" "lines_of [m] = m @ newline"
  by (simp_all add: lines_of_def)

lemma stream_ok_frame:
  "stream_ok V k0 s \<Longrightarrow> sc_gaveUp s' = sc_gaveUp s \<Longrightarrow> sc_accepted s' = sc_accepted s \<Longrightarrow> sc_messages s' = sc_messages s \<Longrightarrow>
     sc_k s' = sc_k s \<Longrightarrow> sc_writer s' = sc_writer s \<or> (sc_writer s = W_blocked \<or> sc_writer s = W_start) \<and> sc_writer s' = W_lock
       \<or> sc_writer s = W_lock \<and> (sc_writer s' = W_blocked \<or> sc_writer s' = W_notify) \<or> sc_writer s = W_notify \<and> sc_writer s' = W_returned \<Longrightarrow>
     stream_ok V k0 s'"
  by (auto simp: stream_ok_def split: if_splits)

lemma stream_ok_gaveUp:
  "stream_ok V k0 s \<Longrightarrow> sc_gaveUp s \<Longrightarrow> sc_gaveUp s' \<Longrightarrow> sc_accepted s' = sc_accepted s \<Longrightarrow> sc_k s' = sc_k s \<Longrightarrow>
     sc_writer s' \<in> {W_giveUp, W_notify, W_returned} \<Longrightarrow> stream_ok V k0 s'"
  unfolding stream_ok_def by presburger

lemma notify_one_fields [simp]:
  "sc_shouldStop (notify_one s) = sc_shouldStop s" "sc_didStop (notify_one s) = sc_didStop s" "sc_totalBytes (notify_one s) = sc_totalBytes s"
  "sc_messages (notify_one s) = sc_messages s" "sc_process (notify_one s) = sc_process s" "sc_k (notify_one s) = sc_k s"
  "sc_dtor (notify_one s) = sc_dtor s" "sc_notifies (notify_one s) = sc_notifies s" "sc_timedOut (notify_one s) = sc_timedOut s"
  "sc_crashed (notify_one s) = sc_crashed s" "sc_accepted (notify_one s) = sc_accepted s" "sc_gaveUp (notify_one s) = sc_gaveUp s"
  "sc_writer (notify_one s) = (if sc_writer s = W_blocked then W_lock else sc_writer s)"
  by (simp_all add: notify_one_def)

lemma scribe_log_inv:
  assumes "scribe_inv V k0 s" "sc_dtor s = D_none"
  shows "scribe_inv V k0 (scribe_log message s)"
proof -
  have "stream_ok V k0 (scribe_log message s)"
    using assms by (fastforce simp: scribe_inv_def stream_ok_def scribe_log_def Let_def split: if_splits)
  moreover have "queue_ok (scribe_log message s)" "wakeup_ok (scribe_log message s)" "dtor_ok (scribe_log message s)"
    using assms by (auto simp: scribe_inv_defs scribe_log_def Let_def)
  ultimately show ?thesis by (simp add: scribe_inv_def)
qed

lemma writer_take_inv:
  assumes I: "scribe_inv V k0 s" and w: "sc_writer s = W_lock"
  shows "scribe_inv V k0 (writer_take s)"
proof (cases "sc_messages s")
  case Nil
  have "stream_ok V k0 (writer_take s)"
    by (rule stream_ok_frame [of V k0 s]) (use I w Nil in \<open>auto simp: writer_take_def scribe_inv_defs\<close>)
  then show ?thesis using I w Nil by (auto simp: writer_take_def scribe_inv_defs)
next
  case (Cons m rest)
  have f: "writer_take s = s\<lparr>sc_messages := rest, sc_totalBytes := sc_totalBytes s - length m, sc_writer := W_write m\<rparr>"
    using I Cons by (auto simp: writer_take_def scribe_inv_defs)
  have "stream_ok V k0 (writer_take s)"
    using I w Cons by (auto simp: f stream_ok_def scribe_inv_def split: if_splits)
  then show ?thesis using I w Cons by (auto simp: f scribe_inv_defs)
qed

lemma writer_write_inv:
  assumes L: "posix_io K V" "2 \<le> kIovMax" and I: "scribe_inv V k0 s" and w: "sc_writer s = W_write m"
    and s': "writer_write K kIovMax m s = Some s'"
  shows "scribe_inv V k0 s'"
  using L
proof (cases rule: writer_write_cases [where message = m and s = s])
  case (all k)
  obtain sent where sent: "\<not> sc_gaveUp s" "sc_accepted s = sent @ [m] @ sc_messages s" "written V (sc_k s) = written V k0 @ lines_of sent"
    using I w by (auto simp: scribe_inv_def stream_ok_def split: if_splits)
  have "stream_ok V k0 s'" using sent all s' by (auto simp: stream_ok_def intro!: exI [of _ "sent @ [m]"])
  then show ?thesis using I w all s' by (auto simp: scribe_inv_defs)
next
  case (fail k n)
  obtain sent where sent: "\<not> sc_gaveUp s" "sc_accepted s = sent @ [m] @ sc_messages s" "written V (sc_k s) = written V k0 @ lines_of sent"
    using I w by (auto simp: scribe_inv_def stream_ok_def split: if_splits)
  have "stream_ok V k0 s'"
    using sent fail s' by (auto simp: stream_ok_def)
  then show ?thesis using I w fail s' by (auto simp: scribe_inv_defs)
qed

lemma writer_step_inv:
  assumes L: "posix_io K V" "2 \<le> kIovMax" and I: "scribe_inv V k0 s" and s': "writer_step K kIovMax (sc_writer s) s = Some s'"
  shows "scribe_inv V k0 s'"
proof (cases "sc_writer s")
  case W_start
  then have "stream_ok V k0 s'" "s' = writer_begin s" using I s' stream_ok_frame [of V k0 s s'] by (auto simp: writer_begin_def scribe_inv_def)
  then show ?thesis using I W_start by (auto simp: writer_begin_def scribe_inv_defs stdinFd_def parentFd_def closeParentFd_def split: option.splits)
next
  case W_lock
  then show ?thesis using writer_take_inv [OF I W_lock] s' by simp
next
  case (W_write m)
  then show ?thesis using writer_write_inv [OF L I W_write] s' by simp
next
  case W_giveUp
  then have "sc_gaveUp s" using I by (auto simp: scribe_inv_def stream_ok_def split: if_splits)
  moreover have eq: "s' = writer_giveUp s" using s' W_giveUp by simp
  ultimately have "stream_ok V k0 s'"
    using I stream_ok_gaveUp [of V k0 s s'] by (simp add: writer_giveUp_def scribe_inv_def)
  then show ?thesis using I W_giveUp by (auto simp: eq writer_giveUp_def scribe_inv_defs)
next
  case W_notify
  then have eq: "s' = s\<lparr>sc_writer := W_returned\<rparr>" using s' by simp
  have "stream_ok V k0 s'" by (rule stream_ok_frame [of V k0 s]) (use I W_notify eq in \<open>auto simp: scribe_inv_def\<close>)
  then show ?thesis using I W_notify by (auto simp: eq scribe_inv_defs)
qed (use s' in simp_all)

lemma dtor_step_frame:
  "dtor_step PK d s = Some s' \<Longrightarrow> d \<noteq> D_close \<Longrightarrow>
     sc_gaveUp s' = sc_gaveUp s \<and> sc_accepted s' = sc_accepted s \<and> sc_messages s' = sc_messages s \<and> sc_k s' = sc_k s \<and>
     (sc_writer s' = sc_writer s \<or> sc_writer s = W_blocked \<and> sc_writer s' = W_lock)"
  by (cases d) (auto split: if_splits)

lemma dtor_step_inv:
  assumes L: "proc_laws PK pend" and I: "scribe_inv V k0 s" and s': "dtor_step PK (sc_dtor s) s = Some s'"
  shows "scribe_inv V k0 s'"
proof (cases "sc_dtor s = D_close")
  case True
  from L show ?thesis
  proof (cases rule: closeProcess_returns [where s = s])
    case (1 p pk)
    then have "s' = s\<lparr>sc_process := p, sc_pk := pk, sc_dtor := D_join\<rparr>" using True s' by simp
    moreover have "stream_ok V k0 s'" using I calculation stream_ok_frame [of V k0 s s'] by (simp add: scribe_inv_def)
    ultimately show ?thesis using I 1 True by (auto simp: scribe_inv_defs)
  qed
next
  case False
  have "stream_ok V k0 s'"
    using stream_ok_frame [of V k0 s s'] dtor_step_frame [OF s' False] I by (auto simp: scribe_inv_def)
  moreover have ok: "queue_ok s" "wakeup_ok s" "dtor_ok s" using I by (simp_all add: scribe_inv_def)
  have "queue_ok s'" using ok(1) s' False by (cases "sc_dtor s") (auto simp: queue_ok_def split: if_splits)
  moreover have "wakeup_ok s'" using ok(2,3) s' False by (cases "sc_dtor s") (auto simp: wakeup_ok_def dtor_ok_def split: if_splits)
  moreover have "dtor_ok s'" using ok(3) s' False by (cases "sc_dtor s") (auto simp: dtor_ok_def split: if_splits)
  ultimately show ?thesis by (simp add: scribe_inv_def)
qed

lemma scribe_step_inv:
  assumes L: "posix_io K V" "2 \<le> kIovMax" "proc_laws PK pend" and "scribe_step K kIovMax PK s s'" "scribe_inv V k0 s"
  shows "scribe_inv V k0 s'"
  using assms(4,5)
proof cases
  case (st_log message)
  then show ?thesis using scribe_log_inv [OF assms(5)] by simp
next
  case st_notify
  have "stream_ok V k0 s'" by (rule stream_ok_frame [of V k0 s]) (use assms(5) st_notify in \<open>auto simp: scribe_inv_def\<close>)
  moreover have "queue_ok s'" "wakeup_ok s'" "dtor_ok s'" using assms(5) st_notify by (simp_all add: scribe_inv_defs) auto
  ultimately show ?thesis by (simp add: scribe_inv_def)
next
  case st_writer
  then show ?thesis using writer_step_inv [OF L(1,2) assms(5)] by blast
next
  case st_dtor
  then show ?thesis using dtor_step_inv [OF L(3) assms(5)] by blast
next
  case st_timeout
  have "stream_ok V k0 s'" by (rule stream_ok_frame [of V k0 s]) (use assms(5) st_timeout in \<open>auto simp: scribe_inv_def\<close>)
  then show ?thesis using assms(5) st_timeout by (auto simp: scribe_inv_defs)
next
  case st_spurious
  have "stream_ok V k0 s'" by (rule stream_ok_frame [of V k0 s]) (use assms(5) st_spurious in \<open>auto simp: scribe_inv_def\<close>)
  then show ?thesis using assms(5) st_spurious by (auto simp: scribe_inv_defs)
qed

interpretation scribe_system: invariant_system "scribe_init k0" "scribe_step K kIovMax PK"
  "\<lambda>s. posix_io K V \<and> 2 \<le> kIovMax \<and> proc_laws PK pend \<longrightarrow> scribe_inv V k0 s"
  for k0 K kIovMax PK V pend
proof
  show "posix_io K V \<and> 2 \<le> kIovMax \<and> proc_laws PK pend \<longrightarrow> scribe_inv V k0 s" if "scribe_init k0 s" for s
    using that by (auto simp: scribe_init_def scribe_start_def scribe_inv_defs stream_ok_def)
  show "posix_io K V \<and> 2 \<le> kIovMax \<and> proc_laws PK pend \<longrightarrow> scribe_inv V k0 t"
    if "scribe_step K kIovMax PK s t" "posix_io K V \<and> 2 \<le> kIovMax \<and> proc_laws PK pend \<longrightarrow> scribe_inv V k0 s" for s t
    using scribe_step_inv [OF _ _ _ that(1)] that(2) by blast
qed

section \<open>Progress\<close>

fun writer_rank :: "writer_pc \<Rightarrow> nat" where
  "writer_rank W_start = 4"
| "writer_rank W_lock = 3"
| "writer_rank W_blocked = 3"
| "writer_rank (W_write m) = 4"
| "writer_rank W_giveUp = 2"
| "writer_rank W_notify = 1"
| "writer_rank W_returned = 0"

fun dtor_rank :: "dtor_pc \<Rightarrow> nat" where
  "dtor_rank D_none = 5"
| "dtor_rank D_notify = 4"
| "dtor_rank D_wait = 3"
| "dtor_rank D_close = 2"
| "dtor_rank D_join = 1"
| "dtor_rank D_finished = 0"

definition scribe_rank :: "('k, 'p) scribe \<Rightarrow> nat" where
  "scribe_rank s = 2 * length (sc_messages s) + writer_rank (sc_writer s) + dtor_rank (sc_dtor s) + sc_notifies s"

lemma writer_step_rank:
  assumes I: "scribe_inv V k0 s" and stop: "sc_shouldStop s" and s': "writer_step K kIovMax (sc_writer s) s = Some s'"
  shows "scribe_rank s' < scribe_rank s"
proof (cases "sc_writer s")
  case W_lock
  then have eq: "s' = writer_take s" using s' by simp
  show ?thesis
  proof (cases "sc_messages s")
    case Nil
    then have "s' = s\<lparr>sc_didStop := True, sc_writer := W_notify\<rparr>"
      unfolding eq writer_take_def using I stop by (simp add: scribe_inv_def queue_ok_def)
    then show ?thesis using W_lock by (simp add: scribe_rank_def)
  next
    case (Cons m rest)
    then have "s' = s\<lparr>sc_messages := rest, sc_totalBytes := sc_totalBytes s - length m, sc_writer := W_write m\<rparr>"
      unfolding eq writer_take_def using I by (simp add: scribe_inv_def queue_ok_def)
    then show ?thesis using W_lock Cons by (simp add: scribe_rank_def)
  qed
next
  case (W_write m)
  then show ?thesis using s' by (auto simp: writer_write_def scribe_rank_def split: option.splits prod.splits sum.splits)
qed (use s' in \<open>auto simp: writer_begin_def writer_giveUp_def scribe_rank_def\<close>)

lemma dtor_step_rank:
  assumes "dtor_step PK (sc_dtor s) s = Some s'"
  shows "scribe_rank s' < scribe_rank s"
  using assms
  by (cases "sc_dtor s") (auto simp: scribe_rank_def closeProcess_def split: if_splits option.splits prod.splits)

section \<open>Theorems\<close>

text \<open>
  C12: What the child receives.  In every interleaving of the callers of \<open>log\<close>, the writer and the
  destructor no \<open>XCHECK\<close> fails, the queue is within its limit and its accounting exact, and the
  pipe holds the accepted messages in the order in which they were logged, one complete line
  each: those not yet written are in the queue or in the hands of the writer, and only when a
  write failed they are dropped, after a part of one line.  When the destructor closes the process
  without having run into its timeout, everything has been written.
\<close>

theorem scribe_delivers:
  assumes "posix_io K V" "2 \<le> kIovMax" "proc_laws PK pend" "reachable (scribe_init k0) (scribe_step K kIovMax PK) s"
  shows "\<not> sc_crashed s \<and> sc_totalBytes s = sum_list (map length (sc_messages s)) \<and> sc_totalBytes s \<le> kQueueLimitBytes \<and>
    (sc_didStop s \<longrightarrow> sc_messages s = []) \<and>
    (if sc_gaveUp s
     then \<exists>sent m rest n. sc_accepted s = sent @ m # rest \<and> written V (sc_k s) = written V k0 @ lines_of sent @ take n (m @ newline)
     else \<exists>sent. sc_accepted s = sent @ in_flight (sc_writer s) @ sc_messages s \<and> written V (sc_k s) = written V k0 @ lines_of sent) \<and>
    (sc_dtor s \<in> {D_close, D_join, D_finished} \<and> \<not> sc_timedOut s \<and> \<not> sc_gaveUp s \<longrightarrow>
       written V (sc_k s) = written V k0 @ lines_of (sc_accepted s)) \<and>
    (sc_dtor s = D_finished \<longrightarrow> destroy_process (sc_process s) = Inr ())"
proof -
  have I: "scribe_inv V k0 s" using scribe_system.reachable_inv [OF assms(4), of V pend] assms(1-3) by blast
  have q: "\<not> sc_crashed s" "sc_totalBytes s = sum_list (map length (sc_messages s))" "sc_totalBytes s \<le> kQueueLimitBytes"
    "sc_didStop s \<longrightarrow> sc_messages s = []"
    using I by (simp_all add: scribe_inv_def queue_ok_def)
  have st: "stream_ok V k0 s" using I by (simp add: scribe_inv_def)
  have all: "written V (sc_k s) = written V k0 @ lines_of (sc_accepted s)"
    if "sc_dtor s \<in> {D_close, D_join, D_finished}" "\<not> sc_timedOut s" "\<not> sc_gaveUp s"
  proof -
    have "sc_didStop s" using I that by (auto simp: scribe_inv_def dtor_ok_def)
    then have "sc_messages s = []" "in_flight (sc_writer s) = []" using I by (auto simp: scribe_inv_def queue_ok_def)
    then show ?thesis using st that(3) by (auto simp: stream_ok_def)
  qed
  have "destroy_process (sc_process s) = Inr ()" if "sc_dtor s = D_finished"
    using I that by (simp add: scribe_inv_def dtor_ok_def destroy_process_def)
  then show ?thesis using q all st [unfolded stream_ok_def] by meson
qed

text \<open>
  C20: The destructor returns.  Once it has started, every step of any thread except a spurious
  wake-up brings the program closer to the end, and until it has returned some thread can take
  such a step: no wake-up of the writer is lost, and the process is closed and waited for before
  the writer is joined.
\<close>

theorem scribe_shutdown:
  assumes "posix_io K V" "2 \<le> kIovMax" "proc_laws PK pend" "reachable (scribe_init k0) (scribe_step K kIovMax PK) s"
    "sc_shouldStop s"
  shows "(\<forall>s'. scribe_step K kIovMax PK s s' \<longrightarrow> scribe_rank s' < scribe_rank s \<or> sc_writer s = W_blocked \<and> s' = s\<lparr>sc_writer := W_lock\<rparr>) \<and>
    (sc_dtor s \<noteq> D_finished \<longrightarrow> (\<exists>s'. scribe_step K kIovMax PK s s' \<and> scribe_rank s' < scribe_rank s))"
proof -
  have I: "scribe_inv V k0 s" using scribe_system.reachable_inv [OF assms(4), of V pend] assms(1-3) by blast
  have d: "sc_dtor s \<noteq> D_none" using I assms(5) by (simp add: scribe_inv_def dtor_ok_def)
  have rank: "scribe_rank s' < scribe_rank s \<or> sc_writer s = W_blocked \<and> s' = s\<lparr>sc_writer := W_lock\<rparr>"
    if "scribe_step K kIovMax PK s s'" for s'
    using that
  proof cases
    case st_notify
    then show ?thesis by (simp add: scribe_rank_def)
  next
    case st_writer
    then show ?thesis using writer_step_rank [OF I assms(5)] by blast
  next
    case st_dtor
    then show ?thesis using dtor_step_rank by blast
  qed (use d in \<open>auto simp: scribe_rank_def\<close>)
  have "\<exists>s'. scribe_step K kIovMax PK s s' \<and> scribe_rank s' < scribe_rank s" if fin: "sc_dtor s \<noteq> D_finished"
  proof (cases "sc_notifies s > 0")
    case True
    then show ?thesis using scribe_step.st_notify [of s K kIovMax PK] by (force simp: scribe_rank_def)
  next
    case no: False
    show ?thesis
    proof (cases "writer_step K kIovMax (sc_writer s) s")
      case (Some s')
      then show ?thesis using scribe_step.st_writer writer_step_rank [OF I assms(5)] by blast
    next
      case None
      have "sc_writer s = W_returned \<or> sc_dtor s = D_notify"
      proof (cases "sc_writer s")
        case (W_write m)
        then show ?thesis using None by (cases rule: writer_write_cases [OF assms(1,2), of m s]) simp_all
      next
        case W_blocked
        then show ?thesis using I assms(5) no by (simp add: scribe_inv_def wakeup_ok_def)
      qed (use None in simp_all)
      then have "sc_dtor s \<in> {D_wait, D_join} \<longrightarrow> sc_didStop s \<and> sc_writer s = W_returned"
        using I by (auto simp: scribe_inv_def queue_ok_def)
      then have "\<exists>s'. dtor_step PK (sc_dtor s) s = Some s'"
        using fin d by (cases "sc_dtor s") (auto intro: closeProcess_returns [OF assms(3), of s])
      then show ?thesis using scribe_step.st_dtor [of s PK] dtor_step_rank d by blast
    qed
  qed
  with rank show ?thesis by blast
qed

text \<open>A pipe that takes everything at once, for the witnesses; the state is what was written.\<close>

definition pipe_io :: "(string, char) io_kernel" where
  "pipe_io =
     \<lparr>sys_read = (\<lambda>k n. (Inr [], k)), sys_write = (\<lambda>k b. (Inr (length b), k @ b)), sys_readv = (\<lambda>k lens. (Inr [], k)),
      sys_writev = (\<lambda>k iov. (Inr (length (concat iov)), k @ concat iov))\<rparr>"

definition pipe_view :: "(string, char) io_view" where
  "pipe_view = \<lparr>unread = (\<lambda>k. []), written = id, signals = (\<lambda>k. 0)\<rparr>"

lemma pipe_io_law: "posix_io pipe_io pipe_view"
  by (auto simp: posix_io_def delivers_def accepts_def pipe_io_def pipe_view_def)

definition scribe_child :: spawned where
  "scribe_child = SpawnedProcess"

definition logged_state :: "(string, int \<times> int option) scribe" where
  "logged_state = writer_take (scribe_log ''hi'' (writer_begin (scribe_start scribe_child (0, None) '''')))"

lemma logged_reachable: "reachable (scribe_init '''') (scribe_step pipe_io 16 stubborn_child) logged_state"
proof -
  let ?s0 = "scribe_start scribe_child (0, None) ''''"
  let ?s1 = "writer_begin ?s0"
  let ?s2 = "scribe_log ''hi'' ?s1"
  have r0: "reachable (scribe_init '''') (scribe_step pipe_io 16 stubborn_child) ?s0"
    by (rule reach_init) (auto simp: scribe_init_def)
  have "scribe_step pipe_io 16 stubborn_child ?s0 ?s1" by (rule st_writer) (simp add: scribe_start_def)
  from reach_step [OF r0 this] have r1: "reachable (scribe_init '''') (scribe_step pipe_io 16 stubborn_child) ?s1" .
  have "scribe_step pipe_io 16 stubborn_child ?s1 ?s2" by (rule st_log) (simp add: scribe_start_def writer_begin_def)
  from reach_step [OF r1 this] have r2: "reachable (scribe_init '''') (scribe_step pipe_io 16 stubborn_child) ?s2" .
  have "scribe_step pipe_io 16 stubborn_child ?s2 logged_state" unfolding logged_state_def
    by (rule st_writer) (simp add: scribe_start_def writer_begin_def scribe_log_def kQueueLimitBytes_def)
  from reach_step [OF r2 this] show ?thesis .
qed

lemma logged_fields:
  "sc_writer logged_state = W_write ''hi''" "sc_messages logged_state = []" "sc_accepted logged_state = [''hi'']"
  "sc_gaveUp logged_state = False" "sc_k logged_state = ''''" "sc_dtor logged_state = D_none" "sc_notifies logged_state = 1"
  by (simp_all add: logged_state_def scribe_start_def writer_begin_def scribe_log_def kQueueLimitBytes_def writer_take_def)

definition sent_state :: "(string, int \<times> int option) scribe" where
  "sent_state = logged_state\<lparr>sc_k := ''hi'' @ newline, sc_writer := W_lock\<rparr>"

lemma sent_reachable: "reachable (scribe_init '''') (scribe_step pipe_io 16 stubborn_child) sent_state"
proof (rule reach_step [OF logged_reachable], rule st_writer)
  have "writevFull pipe_io 16 '''' [''hi'', newline] = Some (Inr 3, ''hi'' @ newline)"
    unfolding writevFull_def by (subst wrapvFull_write.simps) (simp add: pipe_io_def newline_def)
  then show "writer_step pipe_io 16 (sc_writer logged_state) logged_state = Some sent_state"
    by (simp add: writer_write_def logged_fields sent_state_def)
qed

theorem scribe_delivers_witness:
  "reachable (scribe_init '''') (scribe_step pipe_io 16 stubborn_child) sent_state \<and> sc_accepted sent_state = [''hi''] \<and>
     sc_writer sent_state = W_lock \<and> written pipe_view (sc_k sent_state) = ''hi'' @ newline"
proof -
  have f: "sc_accepted sent_state = [''hi'']" "sc_writer sent_state = W_lock" "sc_messages sent_state = []" "\<not> sc_gaveUp sent_state"
    by (simp_all add: sent_state_def logged_fields)
  have "\<exists>sent. sc_accepted sent_state = sent @ in_flight (sc_writer sent_state) @ sc_messages sent_state \<and>
      written pipe_view (sc_k sent_state) = written pipe_view '''' @ lines_of sent"
    using scribe_delivers [OF pipe_io_law _ stubborn_laws sent_reachable] f(4) by simp
  then have "written pipe_view (sc_k sent_state) = ''hi'' @ newline" by (auto simp: f pipe_view_def)
  then show ?thesis using sent_reachable f by simp
qed

definition stopping_state :: "(string, int \<times> int option) scribe" where
  "stopping_state = (scribe_start scribe_child (0, None) '''')\<lparr>sc_shouldStop := True, sc_dtor := D_notify\<rparr>"

lemma stopping_reachable: "reachable (scribe_init '''') (scribe_step pipe_io 16 stubborn_child) stopping_state"
proof (rule reach_step)
  show "reachable (scribe_init '''') (scribe_step pipe_io 16 stubborn_child) (scribe_start scribe_child (0, None) '''')"
    by (rule reach_init) (auto simp: scribe_init_def)
  show "scribe_step pipe_io 16 stubborn_child (scribe_start scribe_child (0, None) '''') stopping_state"
    by (rule st_dtor) (simp_all add: scribe_start_def stopping_state_def)
qed

theorem scribe_shutdown_witness:
  "sc_dtor stopping_state = D_notify \<and>
     (\<exists>s'. scribe_step pipe_io 16 stubborn_child stopping_state s' \<and> scribe_rank s' < scribe_rank stopping_state)"
proof -
  have f: "sc_shouldStop stopping_state" "sc_dtor stopping_state = D_notify" by (simp_all add: stopping_state_def)
  then show ?thesis
    using scribe_shutdown [OF pipe_io_law _ stubborn_laws stopping_reachable f(1)] by simp
qed

text \<open>
  The writer takes the descriptor of the pipe out of the process object, so closing it there
  does nothing: the child sees the end of its input only when the writer returns.
\<close>

theorem closeProcess_leaves_pipe:
  "closeParentFd 0 (sc_process (writer_begin s)) = sc_process (writer_begin s)"
  by (auto simp: writer_begin_def stdinFd_def parentFd_def closeParentFd_def map_of_eq_None_iff filter_id_conv image_iff split: option.splits)

end
