(* ===== verification/Ref_Ptr.thy ===== *)
theory Ref_Ptr
  imports Transition_System "HOL-Library.Word"
begin

unbundle bit_operations_syntax

text \<open>
  \<open>RefCounted\<close> and \<open>RefPtr\<close> of \<open>RefPtr.h\<close>: an intrusive reference count and a pointer whose lowest
  bit says whether it owns a reference.

  A pointer object is a number, its contents are the 64 bits \<open>ptr_\<close>.  The objects that are alive
  are the domain of \<open>rp_count\<close>, which maps an address to \<open>refcnt_\<close>.  A pointer object is used by
  one thread at a time, but different ones may refer to the same object, so the load, the
  decrement and the deletion of \<open>decRef\<close> are steps of their own.
\<close>

section \<open>The encoded pointer\<close>

type_synonym uintptr = "64 word"

definition kNull :: uintptr where
  "kNull = 0"

definition kOwnedBit :: uintptr where
  "kOwnedBit = 1"

definition kPtrMask :: uintptr where
  "kPtrMask = push_bit 1 (NOT 0)"

definition take_reference :: "uintptr \<Rightarrow> uintptr" where
  "take_reference addr = addr OR kOwnedBit"

definition is_owned :: "uintptr \<Rightarrow> bool" where
  "is_owned ptr \<longleftrightarrow> ptr AND kOwnedBit \<noteq> 0"

definition get_ptr :: "uintptr \<Rightarrow> uintptr" where
  "get_ptr ptr = ptr AND kPtrMask"

text \<open>
  The conversion from \<open>RefPtr<U>\<close> to \<open>RefPtr<T>\<close>, where \<open>T\<close> is a base class of \<open>U\<close> at offset
  \<open>base\<close>: the bits are taken for a \<open>U*\<close>, which is converted to a \<open>T*\<close>.
\<close>

definition convert_ptr :: "uintptr \<Rightarrow> uintptr \<Rightarrow> uintptr" where
  "convert_ptr base that =
     (let own = that AND kOwnedBit; t = (if that AND kPtrMask = 0 then 0 else (that AND kPtrMask) + base)
      in t OR own)"

section \<open>Pointers and objects\<close>

datatype dec_phase = Idle | Dec_load | Dec_sub | Dec_delete bool

text \<open>What follows the decrement: the pointer is cleared or destroyed, or assigned from another one.\<close>

datatype after_dec = A_clear | A_assign nat

record ref_world =
  rp_ptr :: "nat \<Rightarrow> uintptr"
  rp_busy :: "nat \<Rightarrow> dec_phase"
  rp_after :: "nat \<Rightarrow> after_dec"
  rp_count :: "uintptr \<rightharpoonup> nat"
  rp_bad :: bool

definition isUnique :: "uintptr \<Rightarrow> ref_world \<Rightarrow> bool" where
  "isUnique addr s \<longleftrightarrow> rp_count s addr = Some 1"

text \<open>\<open>makeRefPtr\<close>: a new object has the count one, and \<open>takeOwnership\<close> takes that reference.\<close>

definition makeRefPtr :: "nat \<Rightarrow> uintptr \<Rightarrow> ref_world \<Rightarrow> ref_world" where
  "makeRefPtr i addr s =
     (let s1 = s\<lparr>rp_count := (rp_count s)(addr \<mapsto> 1)\<rparr>
      in if isUnique addr s1 then s1\<lparr>rp_ptr := (rp_ptr s1)(i := take_reference addr)\<rparr> else s1\<lparr>rp_bad := True\<rparr>)"

definition singleton :: "nat \<Rightarrow> uintptr \<Rightarrow> ref_world \<Rightarrow> ref_world" where
  "singleton i addr s = s\<lparr>rp_ptr := (rp_ptr s)(i := addr)\<rparr>"

definition incRef :: "uintptr \<Rightarrow> ref_world \<Rightarrow> ref_world" where
  "incRef ptr s =
     (if is_owned ptr
      then case rp_count s (get_ptr ptr) of
             Some n \<Rightarrow> s\<lparr>rp_count := (rp_count s)(get_ptr ptr \<mapsto> n + 1)\<rparr>
           | None \<Rightarrow> s\<lparr>rp_bad := True\<rparr>
      else s)"

definition copy_ptr :: "nat \<Rightarrow> nat \<Rightarrow> ref_world \<Rightarrow> ref_world" where
  "copy_ptr i j s = (incRef (rp_ptr s i) s)\<lparr>rp_ptr := (rp_ptr s)(j := rp_ptr s i)\<rparr>"

definition move_ptr :: "nat \<Rightarrow> nat \<Rightarrow> ref_world \<Rightarrow> ref_world" where
  "move_ptr i j s = s\<lparr>rp_ptr := (rp_ptr s)(j := rp_ptr s i, i := kNull)\<rparr>"

text \<open>The end of \<open>reset\<close>, of the destructor, and of the move assignment.\<close>

definition after_decRef :: "nat \<Rightarrow> ref_world \<Rightarrow> ref_world" where
  "after_decRef i s =
     (case rp_after s i of
        A_clear \<Rightarrow> s\<lparr>rp_ptr := (rp_ptr s)(i := kNull), rp_busy := (rp_busy s)(i := Idle)\<rparr>
      | A_assign j \<Rightarrow>
          let p = (rp_ptr s)(i := rp_ptr s j)
          in s\<lparr>rp_ptr := p(j := kNull), rp_busy := (rp_busy s)(i := Idle)\<rparr>)"

definition decRef_begin :: "nat \<Rightarrow> after_dec \<Rightarrow> ref_world \<Rightarrow> ref_world" where
  "decRef_begin i a s =
     (let s1 = s\<lparr>rp_after := (rp_after s)(i := a)\<rparr>
      in if is_owned (rp_ptr s i) then s1\<lparr>rp_busy := (rp_busy s)(i := Dec_load)\<rparr> else after_decRef i s1)"

definition decRef_load :: "nat \<Rightarrow> ref_world \<Rightarrow> ref_world" where
  "decRef_load i s =
     (case rp_count s (get_ptr (rp_ptr s i)) of
        None \<Rightarrow> s\<lparr>rp_bad := True\<rparr>
      | Some n \<Rightarrow> s\<lparr>rp_busy := (rp_busy s)(i := if n = 1 then Dec_delete False else Dec_sub)\<rparr>)"

definition decRef_sub :: "nat \<Rightarrow> ref_world \<Rightarrow> ref_world" where
  "decRef_sub i s =
     (case rp_count s (get_ptr (rp_ptr s i)) of
        None \<Rightarrow> s\<lparr>rp_bad := True\<rparr>
      | Some n \<Rightarrow>
          let s1 = s\<lparr>rp_count := (rp_count s)(get_ptr (rp_ptr s i) \<mapsto> n - 1)\<rparr>
          in if n = 1 then s1\<lparr>rp_busy := (rp_busy s)(i := Dec_delete True)\<rparr> else after_decRef i s1)"

definition decRef_delete :: "nat \<Rightarrow> ref_world \<Rightarrow> ref_world" where
  "decRef_delete i s =
     (case rp_count s (get_ptr (rp_ptr s i)) of
        None \<Rightarrow> s\<lparr>rp_bad := True\<rparr>
      | Some n \<Rightarrow> after_decRef i (s\<lparr>rp_count := (rp_count s)(get_ptr (rp_ptr s i) := None)\<rparr>))"

section \<open>Steps\<close>

text \<open>
  \<open>static\<close> are the addresses of the singletons.  An operation is called on pointers that no other
  operation is using; a new pointer object starts as null.  An object has an even address.
\<close>

definition ready :: "nat \<Rightarrow> ref_world \<Rightarrow> bool" where
  "ready i s \<longleftrightarrow> (case rp_after s i of A_clear \<Rightarrow> True | A_assign j \<Rightarrow> j = i \<or> rp_busy s j = Idle)"

definition aligned :: "uintptr \<Rightarrow> bool" where
  "aligned addr \<longleftrightarrow> \<not> bit addr 0"

inductive ref_step :: "uintptr set \<Rightarrow> ref_world \<Rightarrow> ref_world \<Rightarrow> bool"
  for static :: "uintptr set" where
  rs_new: "rp_busy s i = Idle \<Longrightarrow> rp_ptr s i = kNull \<Longrightarrow> aligned addr \<Longrightarrow> addr \<noteq> 0 \<Longrightarrow> addr \<notin> static \<Longrightarrow>
     rp_count s addr = None \<Longrightarrow> ref_step static s (makeRefPtr i addr s)"
| rs_singleton: "rp_busy s i = Idle \<Longrightarrow> rp_ptr s i = kNull \<Longrightarrow> aligned addr \<Longrightarrow> addr \<in> static \<Longrightarrow>
     ref_step static s (singleton i addr s)"
| rs_copy: "rp_busy s i = Idle \<Longrightarrow> rp_busy s j = Idle \<Longrightarrow> rp_ptr s j = kNull \<Longrightarrow> ref_step static s (copy_ptr i j s)"
| rs_move: "rp_busy s i = Idle \<Longrightarrow> rp_busy s j = Idle \<Longrightarrow> rp_ptr s j = kNull \<Longrightarrow> i \<noteq> j \<Longrightarrow> ref_step static s (move_ptr i j s)"
| rs_begin: "rp_busy s i = Idle \<Longrightarrow> (\<forall>j. a = A_assign j \<longrightarrow> rp_busy s j = Idle) \<Longrightarrow> ref_step static s (decRef_begin i a s)"
| rs_load: "rp_busy s i = Dec_load \<Longrightarrow> ref_step static s (decRef_load i s)"
| rs_sub: "rp_busy s i = Dec_sub \<Longrightarrow> ready i s \<Longrightarrow> ref_step static s (decRef_sub i s)"
| rs_delete: "rp_busy s i = Dec_delete b \<Longrightarrow> ready i s \<Longrightarrow> ref_step static s (decRef_delete i s)"

definition ref_init :: "ref_world \<Rightarrow> bool" where
  "ref_init s \<longleftrightarrow> rp_ptr s = (\<lambda>i. kNull) \<and> rp_busy s = (\<lambda>i. Idle) \<and> rp_count s = (\<lambda>a. None) \<and> \<not> rp_bad s"

section \<open>The invariant\<close>

text \<open>The pointers that hold a reference to an object which its count includes.\<close>

definition refs :: "ref_world \<Rightarrow> uintptr \<Rightarrow> nat set" where
  "refs s a = {i. is_owned (rp_ptr s i) \<and> get_ptr (rp_ptr s i) = a \<and> rp_busy s i \<noteq> Dec_delete True}"

definition ref_inv :: "uintptr set \<Rightarrow> ref_world \<Rightarrow> bool" where
  "ref_inv static s \<longleftrightarrow> \<not> rp_bad s \<and> finite {i. rp_ptr s i \<noteq> 0} \<and>
     (\<forall>a n. rp_count s a = Some n \<longrightarrow> n = card (refs s a) \<and> a \<notin> static \<and> (\<exists>i. is_owned (rp_ptr s i) \<and> get_ptr (rp_ptr s i) = a)) \<and>
     (\<forall>i. is_owned (rp_ptr s i) \<longrightarrow> rp_count s (get_ptr (rp_ptr s i)) \<noteq> None) \<and>
     (\<forall>i. \<not> is_owned (rp_ptr s i) \<longrightarrow> rp_ptr s i = 0 \<or> rp_ptr s i \<in> static) \<and>
     (\<forall>i. rp_busy s i \<noteq> Idle \<longrightarrow> is_owned (rp_ptr s i)) \<and>
     (\<forall>i j b. rp_busy s i = Dec_delete b \<and> is_owned (rp_ptr s j) \<and> get_ptr (rp_ptr s j) = get_ptr (rp_ptr s i) \<longrightarrow> j = i)"

lemma owned_bit: "is_owned p \<longleftrightarrow> bit p 0"
  by (simp add: is_owned_def kOwnedBit_def and_one_eq bit_0 mod_2_eq_odd)

lemma ptr_simps [simp]:
  "is_owned (take_reference a)" "aligned a \<Longrightarrow> get_ptr (take_reference a) = a" "\<not> is_owned 0" "aligned a \<Longrightarrow> \<not> is_owned a"
proof -
  have m: "kPtrMask = NOT 1" by (simp add: kPtrMask_def)
  show "is_owned (take_reference a)"
    by (simp add: owned_bit take_reference_def kOwnedBit_def bit_simps)
  show "get_ptr (take_reference a) = a" if "aligned a"
    by (rule bit_word_eqI) (use that in \<open>auto simp: get_ptr_def take_reference_def m kOwnedBit_def aligned_def bit_simps\<close>, metis gr0I)
qed (simp_all add: owned_bit aligned_def)

lemma ref_invD:
  assumes "ref_inv static s"
  shows "\<not> rp_bad s" "finite {i. rp_ptr s i \<noteq> 0}" "rp_count s a = Some n \<Longrightarrow> n = card (refs s a)" "rp_count s a = Some n \<Longrightarrow> a \<notin> static"
    "rp_count s a = Some n \<Longrightarrow> \<exists>i. is_owned (rp_ptr s i) \<and> get_ptr (rp_ptr s i) = a"
    "is_owned (rp_ptr s i) \<Longrightarrow> \<exists>n. rp_count s (get_ptr (rp_ptr s i)) = Some n"
    "\<not> is_owned (rp_ptr s i) \<Longrightarrow> rp_ptr s i = 0 \<or> rp_ptr s i \<in> static" "rp_busy s i \<noteq> Idle \<Longrightarrow> is_owned (rp_ptr s i)"
    "rp_busy s i = Dec_delete b \<Longrightarrow> is_owned (rp_ptr s j) \<Longrightarrow> get_ptr (rp_ptr s j) = get_ptr (rp_ptr s i) \<Longrightarrow> j = i"
  using assms unfolding ref_inv_def by blast+

lemma finite_refs: "ref_inv static s \<Longrightarrow> finite (refs s a)"
  by (rule finite_subset [OF _ ref_invD(2)]) (auto simp: refs_def)

lemma ref_invI:
  assumes "\<not> rp_bad s" "finite {i. rp_ptr s i \<noteq> 0}" "\<And>a n. rp_count s a = Some n \<Longrightarrow> n = card (refs s a)"
    "\<And>a n. rp_count s a = Some n \<Longrightarrow> a \<notin> static"
    "\<And>a n. rp_count s a = Some n \<Longrightarrow> \<exists>i. is_owned (rp_ptr s i) \<and> get_ptr (rp_ptr s i) = a"
    "\<And>i. is_owned (rp_ptr s i) \<Longrightarrow> \<exists>n. rp_count s (get_ptr (rp_ptr s i)) = Some n"
    "\<And>i. \<not> is_owned (rp_ptr s i) \<Longrightarrow> rp_ptr s i = 0 \<or> rp_ptr s i \<in> static" "\<And>i. rp_busy s i \<noteq> Idle \<Longrightarrow> is_owned (rp_ptr s i)"
    "\<And>i j b. rp_busy s i = Dec_delete b \<Longrightarrow> is_owned (rp_ptr s j) \<Longrightarrow> get_ptr (rp_ptr s j) = get_ptr (rp_ptr s i) \<Longrightarrow> j = i"
  shows "ref_inv static s"
proof -
  have "\<forall>i. is_owned (rp_ptr s i) \<longrightarrow> rp_count s (get_ptr (rp_ptr s i)) \<noteq> None" using assms(6) by fastforce
  then show ?thesis unfolding ref_inv_def using assms(1-5,7-9) by blast
qed

text \<open>Only one pointer changes in most steps.\<close>

lemma finite_nonnull: "finite {i. p i \<noteq> 0} \<Longrightarrow> finite {i. (p(j := v)) i \<noteq> (0 :: uintptr)}"
  by (rule finite_subset [of _ "insert j {i. p i \<noteq> 0}"]) auto

lemma makeRefPtr_inv:
  assumes I: "ref_inv static s" and i: "rp_busy s i = Idle" "rp_ptr s i = kNull"
    and a: "aligned addr" "addr \<notin> static" "rp_count s addr = None"
  shows "ref_inv static (makeRefPtr i addr s)"
proof -
  define s' where "s' = makeRefPtr i addr s"
  have f: "rp_ptr s' = (rp_ptr s)(i := take_reference addr)" "rp_busy s' = rp_busy s" "rp_count s' = (rp_count s)(addr \<mapsto> 1)" "rp_bad s' = rp_bad s"
    by (simp_all add: s'_def makeRefPtr_def isUnique_def)
  have no: "get_ptr (rp_ptr s j) \<noteq> addr" if "is_owned (rp_ptr s j)" for j using ref_invD(6) [OF I that] a(3) by auto
  have un: "\<not> is_owned (rp_ptr s i)" using i by (simp add: kNull_def)
  have r: "refs s' addr = {i}" "b \<noteq> addr \<Longrightarrow> refs s' b = refs s b" for b
    using no un i a(1) by (auto simp: refs_def f)
  have "ref_inv static s'"
  proof (rule ref_invI)
    show "finite {i. rp_ptr s' i \<noteq> 0}" unfolding f(1) by (rule finite_nonnull [OF ref_invD(2) [OF I]])
    show "\<exists>j. is_owned (rp_ptr s' j) \<and> get_ptr (rp_ptr s' j) = b" if b: "rp_count s' b = Some n" for b n
    proof (cases "b = addr")
      case True
      then show ?thesis using a(1) by (intro exI [of _ i]) (simp add: f)
    next
      case False
      then obtain j where "is_owned (rp_ptr s j)" "get_ptr (rp_ptr s j) = b" using ref_invD(5) [OF I, of b n] b by (auto simp: f)
      then show ?thesis using un by (intro exI [of _ j]) (auto simp: f)
    qed
    show "l = k" if "rp_busy s' k = Dec_delete b" "is_owned (rp_ptr s' l)" "get_ptr (rp_ptr s' l) = get_ptr (rp_ptr s' k)" for k l b
    proof -
      have "k \<noteq> i" using that(1) i by (auto simp: f)
      moreover have "is_owned (rp_ptr s k)" using ref_invD(8) [OF I, of k] that(1) by (auto simp: f)
      ultimately show ?thesis using no ref_invD(9) [OF I, of k b l] that a(1) by (auto simp: f split: if_splits)
    qed
  qed (use I i a r no un ref_invD [OF I] in \<open>auto simp: f split: if_splits\<close>)
  then show ?thesis by (simp add: s'_def)
qed

lemma singleton_inv:
  assumes I: "ref_inv static s" and i: "rp_busy s i = Idle" "rp_ptr s i = kNull" and a: "aligned addr" "addr \<in> static"
  shows "ref_inv static (singleton i addr s)"
proof -
  define s' where "s' = singleton i addr s"
  have f: "rp_ptr s' = (rp_ptr s)(i := addr)" "rp_busy s' = rp_busy s" "rp_count s' = rp_count s" "rp_bad s' = rp_bad s"
    by (simp_all add: s'_def singleton_def)
  have un: "\<not> is_owned (rp_ptr s i)" using i by (simp add: kNull_def)
  have own: "is_owned (rp_ptr s' j) = is_owned (rp_ptr s j)" "is_owned (rp_ptr s j) \<Longrightarrow> rp_ptr s' j = rp_ptr s j" for j
    using un a(1) by (auto simp: f)
  have r: "refs s' b = refs s b" for b using own by (auto simp: refs_def f(2))
  have "ref_inv static s'"
  proof (rule ref_invI)
    show "finite {i. rp_ptr s' i \<noteq> 0}" unfolding f(1) by (rule finite_nonnull [OF ref_invD(2) [OF I]])
    show "\<exists>j. is_owned (rp_ptr s' j) \<and> get_ptr (rp_ptr s' j) = b" if "rp_count s' b = Some n" for b n
      using ref_invD(5) [OF I, of b n] that own by (metis f(3))
    show "\<exists>n. rp_count s' (get_ptr (rp_ptr s' j)) = Some n" if "is_owned (rp_ptr s' j)" for j
      using ref_invD(6) [OF I] that own by (metis f(3))
    show "k = j" if "rp_busy s' j = Dec_delete b" "is_owned (rp_ptr s' k)" "get_ptr (rp_ptr s' k) = get_ptr (rp_ptr s' j)" for j k b
      using ref_invD(9) [OF I, of j b k] ref_invD(8) [OF I, of j] that own by (metis dec_phase.distinct(5) f(2))
  qed (use I a r un own ref_invD [OF I] in \<open>auto simp: f\<close>)
  then show ?thesis by (simp add: s'_def)
qed

text \<open>A new reference to a counted object.\<close>

lemma add_reference_inv:
  assumes I: "ref_inv static s" and i: "rp_busy s i = Idle" "is_owned (rp_ptr s i)" and j: "rp_busy s j = Idle" "rp_ptr s j = kNull"
    and n: "rp_count s (get_ptr (rp_ptr s i)) = Some n"
    and f: "rp_ptr s' = (rp_ptr s)(j := rp_ptr s i)" "rp_busy s' = rp_busy s" "rp_count s' = (rp_count s)(get_ptr (rp_ptr s i) \<mapsto> n + 1)" "rp_bad s' = rp_bad s"
  shows "ref_inv static s'"
proof (rule ref_invI)
  show "finite {i. rp_ptr s' i \<noteq> 0}" unfolding f(1) by (rule finite_nonnull [OF ref_invD(2) [OF I]])
  let ?a = "get_ptr (rp_ptr s i)"
  have un: "\<not> is_owned (rp_ptr s j)" using j by (simp add: kNull_def)
  have r: "refs s' b = (if b = ?a then insert j (refs s b) else refs s b)" for b
    using i j un by (auto simp: refs_def f)
  have "j \<notin> refs s ?a" using un by (simp add: refs_def)
  then have "card (refs s' ?a) = n + 1" using r ref_invD(3) [OF I n] finite_refs [OF I] by simp
  then show "m = card (refs s' b)" if "rp_count s' b = Some m" for b m
    using that r ref_invD(3) [OF I, of b m] by (auto simp: f split: if_splits)
  show "b \<notin> static" if "rp_count s' b = Some m" for b m using ref_invD(4) [OF I] n that by (auto simp: f split: if_splits)
  show "\<exists>k. is_owned (rp_ptr s' k) \<and> get_ptr (rp_ptr s' k) = b" if "rp_count s' b = Some m" for b m
  proof (cases "b = ?a")
    case True
    then show ?thesis using i by (intro exI [of _ j]) (simp add: f)
  next
    case False
    then obtain k where "is_owned (rp_ptr s k)" "get_ptr (rp_ptr s k) = b" using ref_invD(5) [OF I, of b m] \<open>rp_count s' b = Some m\<close> by (auto simp: f)
    then show ?thesis using un by (intro exI [of _ k]) (auto simp: f)
  qed
  show "\<exists>m. rp_count s' (get_ptr (rp_ptr s' k)) = Some m" if "is_owned (rp_ptr s' k)" for k
    using ref_invD(6) [OF I, of k] that by (auto simp: f split: if_splits)
  show "l = k" if "rp_busy s' k = Dec_delete b" "is_owned (rp_ptr s' l)" "get_ptr (rp_ptr s' l) = get_ptr (rp_ptr s' k)" for k l b
  proof -
    have "k \<noteq> i" "k \<noteq> j" using that(1) i j by (auto simp: f)
    then show ?thesis using ref_invD(9) [OF I, of k b i] ref_invD(9) [OF I, of k b l] that i by (auto simp: f split: if_splits)
  qed
qed (use ref_invD [OF I] j f in \<open>auto split: if_splits\<close>)

text \<open>A reference that changes its place: \<open>j\<close> was null and takes over what \<open>i\<close> held.\<close>

lemma move_inv:
  assumes I: "ref_inv static s" and i: "rp_busy s i = Idle" and j: "rp_busy s j = Idle" "rp_ptr s j = 0" and ij: "i \<noteq> j"
    and f: "rp_ptr s' = (rp_ptr s)(j := rp_ptr s i, i := 0)" "rp_busy s' = rp_busy s" "rp_count s' = rp_count s" "rp_bad s' = rp_bad s"
  shows "ref_inv static s'"
proof -
  define swp where "swp = (\<lambda>k. if k = i then j else if k = j then i else k)"
  have inv: "swp (swp k) = k" for k by (simp add: swp_def)
  have p: "rp_ptr s' k = rp_ptr s (swp k)" "rp_busy s' k = rp_busy s (swp k)" for k
    using i j ij by (auto simp: f swp_def)
  have "bij swp" by (rule o_bij [of swp]) (auto simp: inv)
  have r: "refs s' b = swp ` refs s b" for b
    unfolding refs_def p using inv by (auto simp: image_iff) (metis inv)
  have "card (refs s' b) = card (refs s b)" for b
    unfolding r by (rule card_image) (metis inj_on_subset \<open>bij swp\<close> bij_def top_greatest)
  moreover have "{k. rp_ptr s' k \<noteq> 0} = swp ` {k. rp_ptr s k \<noteq> 0}"
    unfolding p using inv by (auto simp: image_iff) (metis inv)
  ultimately show ?thesis
    using ref_invD [OF I] inv by (intro ref_invI) (auto simp: p f(3,4), metis+)
qed

lemma sole_reference:
  assumes I: "ref_inv static s" and "is_owned (rp_ptr s i)" "refs s (get_ptr (rp_ptr s i)) = {i}"
    "is_owned (rp_ptr s l)" "get_ptr (rp_ptr s l) = get_ptr (rp_ptr s i)"
  shows "l = i"
proof (cases "rp_busy s l = Dec_delete True")
  case True
  then show ?thesis using ref_invD(9) [OF I True assms(2)] assms(5) by simp
next
  case False
  then have "l \<in> refs s (get_ptr (rp_ptr s i))" using assms(4,5) by (simp add: refs_def)
  then show ?thesis unfolding assms(3) by simp
qed

text \<open>The phases of \<open>decRef\<close>: the reference is still counted until the decrement.\<close>

lemma phase_inv:
  assumes I: "ref_inv static s" and own: "is_owned (rp_ptr s i)" and b: "rp_busy s i \<noteq> Dec_delete True" "ph \<noteq> Dec_delete True"
    and uniq: "\<And>b. ph = Dec_delete b \<Longrightarrow> rp_count s (get_ptr (rp_ptr s i)) = Some 1"
    and f: "rp_ptr s' = rp_ptr s" "rp_busy s' = (rp_busy s)(i := ph)" "rp_count s' = rp_count s" "rp_bad s' = rp_bad s"
  shows "ref_inv static s'"
proof (rule ref_invI)
  have r: "refs s' a = refs s a" for a using b by (auto simp: refs_def f)
  show "n = card (refs s' a)" if "rp_count s' a = Some n" for a n using that r ref_invD(3) [OF I] by (simp add: f)
  show "l = k" if "rp_busy s' k = Dec_delete c" "is_owned (rp_ptr s' l)" "get_ptr (rp_ptr s' l) = get_ptr (rp_ptr s' k)" for k l c
  proof (cases "k = i")
    case True
    then have one: "card (refs s (get_ptr (rp_ptr s i))) = 1"
      using that(1) uniq [of c] ref_invD(3) [OF I, of "get_ptr (rp_ptr s i)" 1] by (simp add: f)
    have "i \<in> refs s (get_ptr (rp_ptr s i))" using own b by (simp add: refs_def)
    with one have "refs s (get_ptr (rp_ptr s i)) = {i}" by (auto simp: card_1_singleton_iff)
    then show ?thesis using sole_reference [OF I own _ that(2) [unfolded f(1)]] that(3) True by (simp add: f)
  next
    case False
    then show ?thesis using ref_invD(9) [OF I, of k c l] that by (simp add: f)
  qed
qed (use ref_invD [OF I] own in \<open>auto simp: f split: if_splits\<close>)

lemma sub_last_inv:
  assumes I: "ref_inv static s" and i: "rp_busy s i = Dec_sub" and one: "rp_count s (get_ptr (rp_ptr s i)) = Some 1"
    and f: "rp_ptr s' = rp_ptr s" "rp_busy s' = (rp_busy s)(i := Dec_delete True)" "rp_count s' = (rp_count s)(get_ptr (rp_ptr s i) \<mapsto> 0)" "rp_bad s' = rp_bad s"
  shows "ref_inv static s'"
proof (rule ref_invI)
  let ?a = "get_ptr (rp_ptr s i)"
  have own: "is_owned (rp_ptr s i)" using ref_invD(8) [OF I] i by simp
  have "i \<in> refs s ?a" using own i by (simp add: refs_def)
  moreover have "card (refs s ?a) = 1" using ref_invD(3) [OF I one] by simp
  ultimately have only: "refs s ?a = {i}" by (auto simp: card_1_singleton_iff)
  have r: "refs s' b = (if b = ?a then {} else refs s b)" for b using only by (auto simp: refs_def f split: if_splits)
  show "n = card (refs s' b)" if "rp_count s' b = Some n" for b n
    using that r ref_invD(3) [OF I, of b n] by (auto simp: f split: if_splits)
  show "l = k" if "rp_busy s' k = Dec_delete c" "is_owned (rp_ptr s' l)" "get_ptr (rp_ptr s' l) = get_ptr (rp_ptr s' k)" for k l c
  proof (cases "k = i")
    case True
    then show ?thesis using sole_reference [OF I own only that(2) [unfolded f(1)]] that(3) by (simp add: f)
  next
    case False
    then show ?thesis using ref_invD(9) [OF I, of k c l] that by (simp add: f)
  qed
  show "\<exists>n. rp_count s' (get_ptr (rp_ptr s' k)) = Some n" if "is_owned (rp_ptr s' k)" for k
    using ref_invD(6) [OF I, of k] that by (auto simp: f)
  show "\<exists>k. is_owned (rp_ptr s' k) \<and> get_ptr (rp_ptr s' k) = b" if "rp_count s' b = Some n" for b n
    using ref_invD(5) [OF I, of b] that one by (auto simp: f split: if_splits)
  show "b \<notin> static" if "rp_count s' b = Some n" for b n using ref_invD(4) [OF I] one that by (auto simp: f split: if_splits)
qed (use ref_invD [OF I] i in \<open>auto simp: f split: if_splits\<close>)

definition clear_ptr :: "nat \<Rightarrow> ref_world \<Rightarrow> ref_world" where
  "clear_ptr i s = s\<lparr>rp_ptr := (rp_ptr s)(i := 0), rp_busy := (rp_busy s)(i := Idle)\<rparr>"

lemma clear_ptr_fields [simp]:
  "rp_ptr (clear_ptr i s) = (rp_ptr s)(i := 0)" "rp_busy (clear_ptr i s) = (rp_busy s)(i := Idle)" "rp_count (clear_ptr i s) = rp_count s"
  "rp_bad (clear_ptr i s) = rp_bad s"
  by (simp_all add: clear_ptr_def)

lemma after_decRef_inv:
  assumes I: "ref_inv static (clear_ptr i s)" and "ready i s"
  shows "ref_inv static (after_decRef i s)"
proof (cases "rp_after s i")
  case A_clear
  then show ?thesis using I by (simp add: after_decRef_def clear_ptr_def kNull_def)
next
  case (A_assign j)
  show ?thesis
  proof (cases "j = i")
    case True
    then show ?thesis using I A_assign by (simp add: after_decRef_def clear_ptr_def kNull_def Let_def)
  next
    case False
    then have "rp_busy s j = Idle" using assms(2) A_assign by (simp add: ready_def)
    then show ?thesis
      by (intro move_inv [OF I, of j i]) (use False A_assign in \<open>auto simp: after_decRef_def kNull_def Let_def\<close>)
  qed
qed

text \<open>The pointer gives up a reference that is not the last one, or the last one.\<close>

lemma sub_more_inv:
  assumes I: "ref_inv static s" and i: "rp_busy s i = Dec_sub" and n: "rp_count s (get_ptr (rp_ptr s i)) = Some n" "n \<noteq> 1"
    and f: "rp_ptr s' = (rp_ptr s)(i := 0)" "rp_busy s' = (rp_busy s)(i := Idle)" "rp_count s' = (rp_count s)(get_ptr (rp_ptr s i) \<mapsto> n - 1)" "rp_bad s' = rp_bad s"
  shows "ref_inv static s'"
proof (rule ref_invI)
  let ?a = "get_ptr (rp_ptr s i)"
  show "finite {k. rp_ptr s' k \<noteq> 0}" unfolding f(1) by (rule finite_nonnull [OF ref_invD(2) [OF I]])
  have own: "is_owned (rp_ptr s i)" using ref_invD(8) [OF I] i by simp
  have i_in: "i \<in> refs s ?a" using own i by (simp add: refs_def)
  have n_eq: "n = card (refs s ?a)" using ref_invD(3) [OF I n(1)] .
  have r: "refs s' b = refs s b - {i}" for b by (auto simp: refs_def f)
  have r': "refs s' b = refs s b" if "b \<noteq> ?a" for b using that unfolding r by (auto simp: refs_def)
  show "m = card (refs s' b)" if "rp_count s' b = Some m" for b m
  proof (cases "b = ?a")
    case True
    then show ?thesis using that n_eq i_in finite_refs [OF I] r by (simp add: f)
  next
    case False
    then show ?thesis using that r' ref_invD(3) [OF I, of b m] by (simp add: f)
  qed
  show "\<exists>k. is_owned (rp_ptr s' k) \<and> get_ptr (rp_ptr s' k) = b" if b: "rp_count s' b = Some m" for b m
  proof (cases "b = ?a")
    case True
    have "n \<noteq> 0" using n_eq i_in finite_refs [OF I, of ?a] by auto
    moreover have "card (refs s' ?a) = n - 1" using n_eq i_in finite_refs [OF I, of ?a] r by simp
    ultimately have "card (refs s' ?a) \<noteq> 0" using n(2) by linarith
    then obtain k where "k \<in> refs s' ?a" by fastforce
    then show ?thesis using True by (auto simp: refs_def)
  next
    case False
    then obtain k where k: "is_owned (rp_ptr s k)" "get_ptr (rp_ptr s k) = b" using ref_invD(5) [OF I, of b m] b by (auto simp: f)
    then show ?thesis using False by (intro exI [of _ k]) (auto simp: f)
  qed
  show "b \<notin> static" if "rp_count s' b = Some m" for b m using ref_invD(4) [OF I] n that by (auto simp: f split: if_splits)
  show "\<exists>m. rp_count s' (get_ptr (rp_ptr s' k)) = Some m" if "is_owned (rp_ptr s' k)" for k
    using ref_invD(6) [OF I, of k] that by (auto simp: f split: if_splits)
  show "l = k" if "rp_busy s' k = Dec_delete c" "is_owned (rp_ptr s' l)" "get_ptr (rp_ptr s' l) = get_ptr (rp_ptr s' k)" for k l c
    using ref_invD(9) [OF I, of k c l] that by (auto simp: f split: if_splits)
qed (use ref_invD [OF I] in \<open>auto simp: f split: if_splits\<close>)

lemma delete_inv:
  assumes I: "ref_inv static s" and i: "rp_busy s i = Dec_delete c"
    and f: "rp_ptr s' = (rp_ptr s)(i := 0)" "rp_busy s' = (rp_busy s)(i := Idle)" "rp_count s' = (rp_count s)(get_ptr (rp_ptr s i) := None)" "rp_bad s' = rp_bad s"
  shows "ref_inv static s'"
proof (rule ref_invI)
  let ?a = "get_ptr (rp_ptr s i)"
  show "finite {k. rp_ptr s' k \<noteq> 0}" unfolding f(1) by (rule finite_nonnull [OF ref_invD(2) [OF I]])
  have others: "get_ptr (rp_ptr s k) \<noteq> ?a" if "is_owned (rp_ptr s k)" "k \<noteq> i" for k using ref_invD(9) [OF I i that(1)] that(2) by blast
  have r: "refs s' b = refs s b" if "b \<noteq> ?a" for b using that by (auto simp: refs_def f)
  show "m = card (refs s' b)" if "rp_count s' b = Some m" for b m using that r ref_invD(3) [OF I, of b m] by (auto simp: f split: if_splits)
  show "\<exists>k. is_owned (rp_ptr s' k) \<and> get_ptr (rp_ptr s' k) = b" if "rp_count s' b = Some m" for b m
    using ref_invD(5) [OF I, of b m] that by (auto simp: f split: if_splits)
  show "\<exists>m. rp_count s' (get_ptr (rp_ptr s' k)) = Some m" if "is_owned (rp_ptr s' k)" for k
    using ref_invD(6) [OF I, of k] others [of k] that by (auto simp: f split: if_splits)
  show "l = k" if "rp_busy s' k = Dec_delete d" "is_owned (rp_ptr s' l)" "get_ptr (rp_ptr s' l) = get_ptr (rp_ptr s' k)" for k l d
    using ref_invD(9) [OF I, of k d l] that by (auto simp: f split: if_splits)
qed (use ref_invD [OF I] in \<open>auto simp: f split: if_splits\<close>)

lemma clear_unowned_inv:
  assumes I: "ref_inv static s" and un: "\<not> is_owned (rp_ptr s i)"
  shows "ref_inv static (clear_ptr i s)"
proof (rule ref_invI)
  let ?s = "clear_ptr i s"
  show "finite {k. rp_ptr ?s k \<noteq> 0}" unfolding clear_ptr_fields by (rule finite_nonnull [OF ref_invD(2) [OF I]])
  have "refs ?s b = refs s b" for b using un ref_invD(8) [OF I, of i] by (auto simp: refs_def)
  then show "m = card (refs ?s b)" if "rp_count ?s b = Some m" for b m using that ref_invD(3) [OF I, of b m] by simp
  show "\<exists>k. is_owned (rp_ptr ?s k) \<and> get_ptr (rp_ptr ?s k) = b" if "rp_count ?s b = Some m" for b m
    using ref_invD(5) [OF I, of b m] that un by auto
  show "l = k" if "rp_busy ?s k = Dec_delete d" "is_owned (rp_ptr ?s l)" "get_ptr (rp_ptr ?s l) = get_ptr (rp_ptr ?s k)" for k l d
    using ref_invD(9) [OF I, of k d l] that by (auto split: if_splits)
qed (use ref_invD [OF I] in \<open>auto split: if_splits\<close>)

lemma ref_step_inv:
  assumes "ref_step static s s'" "ref_inv static s"
  shows "ref_inv static s'"
  using assms
proof (induction rule: ref_step.induct)
  case (rs_new s i addr)
  then show ?case using makeRefPtr_inv by blast
next
  case (rs_singleton s i addr)
  then show ?case using singleton_inv by blast
next
  case (rs_copy s i j)
  show ?case
  proof (cases "is_owned (rp_ptr s i)")
    case True
    then obtain n where n: "rp_count s (get_ptr (rp_ptr s i)) = Some n" using ref_invD(6) [OF rs_copy(4)] by blast
    show ?thesis
      by (rule add_reference_inv [OF rs_copy(4,1) True rs_copy(2,3) n]) (simp_all add: copy_ptr_def incRef_def True n)
  next
    case False
    then have "rp_ptr s i = 0 \<or> rp_ptr s i \<in> static" using ref_invD(7) [OF rs_copy(4)] by blast
    moreover have "aligned (rp_ptr s i)" using False by (simp add: aligned_def owned_bit)
    ultimately show ?thesis
      using singleton_inv [OF rs_copy(4,2,3), of "rp_ptr s i"] False rs_copy(3,4)
      by (auto simp: copy_ptr_def incRef_def singleton_def kNull_def fun_upd_idem)
  qed
next
  case (rs_move s i j)
  show ?case by (rule move_inv [OF rs_move(5,1,2)]) (use rs_move(3,4) in \<open>simp_all add: move_ptr_def kNull_def\<close>)
next
  case (rs_begin s i a)
  show ?case
  proof (cases "is_owned (rp_ptr s i)")
    case True
    show ?thesis by (rule phase_inv [OF rs_begin(3) True, of Dec_load]) (use rs_begin(1) True in \<open>simp_all add: decRef_begin_def Let_def\<close>)
  next
    case False
    let ?s = "s\<lparr>rp_after := (rp_after s)(i := a)\<rparr>"
    have "ref_inv static ?s" using rs_begin(3) by (simp add: ref_inv_def refs_def)
    from clear_unowned_inv [OF this, of i] False have "ref_inv static (clear_ptr i ?s)" by simp
    moreover have "ready i ?s" using rs_begin(2) by (auto simp: ready_def split: after_dec.split)
    ultimately show ?thesis using after_decRef_inv False by (simp add: decRef_begin_def Let_def)
  qed
next
  case (rs_load s i)
  then have own: "is_owned (rp_ptr s i)" using ref_invD(8) [of static s i] by simp
  then obtain n where n: "rp_count s (get_ptr (rp_ptr s i)) = Some n" using ref_invD(6) [OF rs_load(2)] by blast
  show ?case by (rule phase_inv [OF rs_load(2) own, of "if n = 1 then Dec_delete False else Dec_sub"])
      (use rs_load(1) n in \<open>auto simp: decRef_load_def split: if_splits\<close>)
next
  case (rs_sub s i)
  then have own: "is_owned (rp_ptr s i)" using ref_invD(8) [of static s i] by simp
  then obtain n where n: "rp_count s (get_ptr (rp_ptr s i)) = Some n" using ref_invD(6) [OF rs_sub(3)] by blast
  show ?case
  proof (cases "n = 1")
    case True
    show ?thesis by (rule sub_last_inv [OF rs_sub(3,1)]) (use n True in \<open>simp_all add: decRef_sub_def\<close>)
  next
    case False
    let ?s = "s\<lparr>rp_count := (rp_count s)(get_ptr (rp_ptr s i) \<mapsto> n - 1)\<rparr>"
    have "ref_inv static (clear_ptr i ?s)" by (rule sub_more_inv [OF rs_sub(3,1) n False]) simp_all
    moreover have "ready i ?s" using rs_sub(2) by (simp add: ready_def split: after_dec.splits)
    ultimately show ?thesis using after_decRef_inv [of static i ?s] n False by (simp add: decRef_sub_def Let_def)
  qed
next
  case (rs_delete s i b)
  then have own: "is_owned (rp_ptr s i)" using ref_invD(8) [of static s i] by simp
  then obtain n where n: "rp_count s (get_ptr (rp_ptr s i)) = Some n" using ref_invD(6) [OF rs_delete(3)] by blast
  let ?s = "s\<lparr>rp_count := (rp_count s)(get_ptr (rp_ptr s i) := None)\<rparr>"
  have "ref_inv static (clear_ptr i ?s)" by (rule delete_inv [OF rs_delete(3,1)]) simp_all
  moreover have "ready i ?s" using rs_delete(2) by (simp add: ready_def split: after_dec.splits)
  ultimately show ?case using after_decRef_inv [of static i ?s] n by (simp add: decRef_delete_def)
qed

interpretation ref_system: invariant_system ref_init "ref_step static" "ref_inv static" for static
proof
  show "ref_inv static s" if "ref_init s" for s using that by (auto simp: ref_init_def ref_inv_def kNull_def)
qed (rule ref_step_inv)

section \<open>Theorems\<close>

text \<open>
  C16: Reference counting is safe under every interleaving of the operations on any number of
  pointers.  No operation touches an object that has been deleted, and no object is deleted
  twice; an object is alive exactly as long as some pointer holds a reference to it, its
  count is the number of these pointers, apart from one that is about to delete it; a pointer
  that does not own its object is null or refers to a singleton, which is never counted or
  deleted.  When all pointers are null, no object is left.
\<close>

theorem refptr_safe:
  assumes "reachable ref_init (ref_step static) s"
  shows "\<not> rp_bad s \<and>
    (\<forall>a. rp_count s a \<noteq> None \<longleftrightarrow> (\<exists>i. is_owned (rp_ptr s i) \<and> get_ptr (rp_ptr s i) = a)) \<and>
    (\<forall>a n. rp_count s a = Some n \<longrightarrow>
       n = card {i. is_owned (rp_ptr s i) \<and> get_ptr (rp_ptr s i) = a \<and> rp_busy s i \<noteq> Dec_delete True} \<and> a \<notin> static) \<and>
    (\<forall>i. \<not> is_owned (rp_ptr s i) \<longrightarrow> rp_ptr s i = kNull \<or> rp_ptr s i \<in> static) \<and>
    ((\<forall>i. rp_ptr s i = kNull) \<longrightarrow> rp_count s = Map.empty)"
proof -
  have I: "ref_inv static s" by (rule ref_system.reachable_inv [OF assms])
  have alive: "rp_count s a \<noteq> None \<longleftrightarrow> (\<exists>i. is_owned (rp_ptr s i) \<and> get_ptr (rp_ptr s i) = a)" for a
    using ref_invD(5,6) [OF I] by fastforce
  moreover have "rp_count s = Map.empty" if "\<forall>i. rp_ptr s i = kNull"
    using alive that by (auto simp: kNull_def fun_eq_iff)
  ultimately show ?thesis using ref_invD(1,3,4,7) [OF I] unfolding refs_def kNull_def by blast
qed

definition no_pointers :: ref_world where
  "no_pointers = \<lparr>rp_ptr = (\<lambda>i. kNull), rp_busy = (\<lambda>i. Idle), rp_after = (\<lambda>i. A_clear), rp_count = Map.empty, rp_bad = False\<rparr>"

definition two_pointers :: ref_world where
  "two_pointers = copy_ptr 0 1 (makeRefPtr 0 8 no_pointers)"

lemma aligned_8: "aligned 8" by (simp add: aligned_def bit_0)

lemma two_pointers_reachable: "reachable ref_init (ref_step {}) two_pointers"
proof -
  have r0: "reachable ref_init (ref_step {}) no_pointers" by (rule reach_init) (simp add: ref_init_def no_pointers_def)
  have "reachable ref_init (ref_step {}) (makeRefPtr 0 8 no_pointers)"
    by (rule reach_step [OF r0 rs_new]) (simp_all add: no_pointers_def aligned_8)
  moreover have "ref_step {} (makeRefPtr 0 8 no_pointers) two_pointers"
    unfolding two_pointers_def by (rule rs_copy) (simp_all add: makeRefPtr_def isUnique_def no_pointers_def)
  ultimately show ?thesis by (rule reach_step)
qed

theorem refptr_safe_witness:
  "rp_count two_pointers 8 = Some 2 \<and> \<not> rp_bad two_pointers \<and>
     card {i. is_owned (rp_ptr two_pointers i) \<and> get_ptr (rp_ptr two_pointers i) = 8 \<and> rp_busy two_pointers i \<noteq> Dec_delete True} = 2"
proof -
  have c: "rp_count two_pointers 8 = Some 2"
    by (simp add: two_pointers_def copy_ptr_def incRef_def makeRefPtr_def isUnique_def no_pointers_def aligned_8)
  note safe = refptr_safe [OF two_pointers_reachable]
  show ?thesis
    using c safe [THEN conjunct1] safe [THEN conjunct2, THEN conjunct2, THEN conjunct1, rule_format, OF c] by simp
qed

text \<open>
  The conversion to a base class moves the stored pointer.  \<open>ptr_\<close> is meant to hold the address
  of the \<open>RefCounted\<close> part whatever the type of the pointer, but \<open>convert_ptr\<close> adds the offset of
  the base class to it, so it is right only for a base class at offset zero.
\<close>

theorem convert_ptr_shifts:
  assumes "aligned addr" "addr \<noteq> 0" "aligned base"
  shows "convert_ptr base (take_reference addr) = take_reference (addr + base) \<and>
    get_ptr (convert_ptr base (take_reference addr)) = get_ptr (take_reference addr) + base \<and>
    (convert_ptr base (take_reference addr) = take_reference addr \<longleftrightarrow> base = 0)"
proof -
  have al: "aligned (addr + base)" using assms(1,3) by (simp add: aligned_def bit_0)
  have g: "take_reference addr AND kPtrMask = addr" using ptr_simps(2) [OF assms(1)] by (simp add: get_ptr_def)
  have o: "take_reference addr AND kOwnedBit = kOwnedBit"
    by (simp add: take_reference_def kOwnedBit_def and_one_eq mod_2_eq_odd bit_0 [symmetric] bit_simps)
  have c: "convert_ptr base (take_reference addr) = take_reference (addr + base)"
    using assms(2) by (simp add: convert_ptr_def g o Let_def) (simp add: take_reference_def)
  have "take_reference (addr + base) = take_reference addr \<Longrightarrow> addr + base = addr"
    using ptr_simps(2) [OF al] ptr_simps(2) [OF assms(1)] by metis
  then show ?thesis using c al assms(1) by auto
qed

end
