(* ===== verification/Future_Unix_Socket.thy ===== *)
theory Future_Unix_Socket
  imports Transition_System Eden_Prelude "HOL-Library.Multiset"
begin

text \<open>
  \<open>FutureUnixSocket\<close>: the callbacks of a \<open>UnixSocket\<close> turned into futures.  \<open>receive\<close> queues a promise;
  a message fulfils the first one, and a timeout, the end of the stream, an error or a close
  fails all of them.

  The objects are the \<open>FutureUnixSocket\<close>s, by address, and the \<open>UnixSocket\<close>s they own, by number.
  Of a \<open>UnixSocket\<close> the model has what \<open>FutureUnixSocket\<close> uses: whether it is open, the address
  of its receive callback, and the callbacks of the messages that wait to be sent.  Its
  \<open>closeNow\<close> calls back synchronously, so the operations of the two classes are nested as in the
  code.  A promise is a number; \<open>fw_results\<close> lists what the promises were fulfilled with.
\<close>

section \<open>State\<close>

datatype fus_error = F_closedSocket | F_remoteClosed | F_localClosed | F_timedOut | F_socketError exn | F_notConnected

datatype fus_outcome = F_message nat | F_sent | F_failed fus_error

record fus_object =
  fo_socket :: "nat option"
  fo_queue :: "nat list"
  fo_tail :: "nat option"

text \<open>
  \<open>fw_owner\<close> is the member \<open>socket_\<close> of a queued \<open>ReceiveCallback\<close>, \<open>fw_cb\<close> the receive callbacks of the
  sockets, \<open>fw_crashed\<close> a failed \<open>XCHECK\<close>, an exception of \<open>UnixSocket\<close> inside a \<open>noexcept\<close> callback, or
  the use of a null pointer, and \<open>fw_threw\<close> an exception thrown to the caller instead of a future.
\<close>

record fus_world =
  fw_obj :: "nat \<Rightarrow> fus_object"
  fw_owner :: "nat \<Rightarrow> nat"
  fw_open :: "nat set"
  fw_cb :: "(nat \<times> nat) list"
  fw_sends :: "(nat \<times> nat) list"
  fw_next :: nat
  fw_results :: "(nat \<times> fus_outcome) list"
  fw_crashed :: bool
  fw_threw :: bool

definition fus_set_obj :: "nat \<Rightarrow> fus_object \<Rightarrow> fus_world \<Rightarrow> fus_world" where
  "fus_set_obj a ob w = w\<lparr>fw_obj := (fw_obj w)(a := ob)\<rparr>"

definition empty_object :: fus_object where
  "empty_object = \<lparr>fo_socket = None, fo_queue = [], fo_tail = None\<rparr>"

section \<open>Closing\<close>

fun failReceiveQueue :: "nat list \<Rightarrow> fus_error \<Rightarrow> fus_world \<Rightarrow> fus_world" where
  "failReceiveQueue [] ew w = w"
| "failReceiveQueue (callback # next) ew w =
     failReceiveQueue next ew (w\<lparr>fw_results := fw_results w @ [(callback, F_failed ew)]\<rparr>)"

definition failAllPromises :: "nat \<Rightarrow> fus_error \<Rightarrow> fus_world \<Rightarrow> fus_world" where
  "failAllPromises a err w =
     (let q = fo_queue (fw_obj w a)
      in failReceiveQueue q err (fus_set_obj a ((fw_obj w a)\<lparr>fo_queue := [], fo_tail := None\<rparr>) w))"

text \<open>\<open>UnixSocket\<close>: the pending sends fail, and the receive callback is taken off before it is called.\<close>

definition erase_cb :: "nat \<Rightarrow> fus_world \<Rightarrow> fus_world" where
  "erase_cb u w = w\<lparr>fw_cb := filter (\<lambda>e. fst e \<noteq> u) (fw_cb w)\<rparr>"

definition fail_sends :: "nat \<Rightarrow> fus_error \<Rightarrow> fus_world \<Rightarrow> fus_world" where
  "fail_sends u ew w =
     w\<lparr>fw_results := fw_results w @ map (\<lambda>e. (snd e, F_failed ew)) (filter (\<lambda>e. fst e = u) (fw_sends w)),
       fw_sends := filter (\<lambda>e. fst e \<noteq> u) (fw_sends w)\<rparr>"

text \<open>
  \<open>UnixSocket::closeNow\<close> calls \<open>FutureUnixSocket::socketClosed\<close>, which resets the \<open>socket_\<close> the object has at
  that time, and so may close another socket.
\<close>

function socket_closeNow :: "nat \<Rightarrow> fus_world \<Rightarrow> fus_world" where
  "socket_closeNow u w =
     (if u \<notin> fw_open w then w
      else let w1 = (case map_of (fw_cb w) u of
                       None \<Rightarrow> w
                     | Some a \<Rightarrow>
                         let w = erase_cb u w;
                             own = fo_socket (fw_obj w a);
                             w = fus_set_obj a ((fw_obj w a)\<lparr>fo_socket := None\<rparr>) w;
                             w = (case own of None \<Rightarrow> w | Some v \<Rightarrow> socket_closeNow v w)
                         in failAllPromises a F_localClosed w);
               w2 = fail_sends u F_notConnected w1
           in w2\<lparr>fw_open := fw_open w2 - {u}\<rparr>)"
  by pat_completeness auto
termination
proof (relation "measure (\<lambda>(u, w). length (fw_cb w))", goal_cases)
  case (2 u w a x xa xb v)
  then have "(u, a) \<in> set (fw_cb w)" by (simp add: map_of_SomeD)
  then have "length (filter (\<lambda>e. fst e \<noteq> u) (fw_cb w)) < length (fw_cb w)" by (rule length_filter_less) simp
  with 2 show ?case by (simp add: erase_cb_def fus_set_obj_def)
qed simp

declare socket_closeNow.simps [simp del]

text \<open>\<open>socket_.reset()\<close>: the pointer is null before the socket is destroyed, which closes it.\<close>

definition reset_socket :: "nat \<Rightarrow> fus_world \<Rightarrow> fus_world" where
  "reset_socket a w =
     (case fo_socket (fw_obj w a) of
        None \<Rightarrow> w
      | Some u \<Rightarrow> socket_closeNow u (fus_set_obj a ((fw_obj w a)\<lparr>fo_socket := None\<rparr>) w))"

section \<open>Operations\<close>

definition fus_closeNow :: "nat \<Rightarrow> fus_world \<Rightarrow> fus_world" where
  "fus_closeNow a w = reset_socket a w"

definition fus_destructor :: "nat \<Rightarrow> fus_world \<Rightarrow> fus_world" where
  "fus_destructor a w =
     (let w = (case fo_socket (fw_obj w a) of None \<Rightarrow> w | Some u \<Rightarrow> socket_closeNow u w)
      in if fo_queue (fw_obj w a) \<noteq> [] \<or> fo_tail (fw_obj w a) \<noteq> None then w\<lparr>fw_crashed := True\<rparr>
         else reset_socket a w)"

text \<open>
  The move assignment: the old socket is destroyed when \<open>socket_\<close> already is the new one; the old
  queue is dropped.
\<close>

definition fus_assign :: "nat \<Rightarrow> nat \<Rightarrow> fus_world \<Rightarrow> fus_world" where
  "fus_assign a b w =
     (let old = fo_socket (fw_obj w a);
          w = fus_set_obj a ((fw_obj w a)\<lparr>fo_socket := fo_socket (fw_obj w b)\<rparr>) w;
          w = fus_set_obj b ((fw_obj w b)\<lparr>fo_socket := None\<rparr>) w;
          w = (case old of None \<Rightarrow> w | Some u \<Rightarrow> socket_closeNow u w);
          ob = fw_obj w b;
          w = fus_set_obj a ((fw_obj w a)\<lparr>fo_queue := fo_queue ob, fo_tail := fo_tail ob\<rparr>) w
      in fus_set_obj b ((fw_obj w b)\<lparr>fo_queue := [], fo_tail := None\<rparr>) w)"

text \<open>\<open>connectSuccess\<close>: a new socket \<open>u\<close> arrives in a temporary object, from which it is assigned.\<close>

definition fus_connected :: "nat \<Rightarrow> nat \<Rightarrow> nat \<Rightarrow> fus_world \<Rightarrow> fus_world" where
  "fus_connected a temp u w =
     (let w = fus_set_obj temp (empty_object\<lparr>fo_socket := Some u\<rparr>) (w\<lparr>fw_open := insert u (fw_open w)\<rparr>)
      in fus_destructor temp (fus_assign a temp w))"

definition fus_send :: "nat \<Rightarrow> fus_world \<Rightarrow> fus_world" where
  "fus_send a w =
     (let callback = fw_next w; w = w\<lparr>fw_next := fw_next w + 1\<rparr>
      in case fo_socket (fw_obj w a) of
           None \<Rightarrow> w\<lparr>fw_results := fw_results w @ [(callback, F_failed F_closedSocket)]\<rparr>
         | Some u \<Rightarrow>
             if u \<in> fw_open w then w\<lparr>fw_sends := fw_sends w @ [(u, callback)]\<rparr>
             else w\<lparr>fw_results := fw_results w @ [(callback, F_failed F_notConnected)]\<rparr>)"

definition fus_receive :: "nat \<Rightarrow> fus_world \<Rightarrow> fus_world" where
  "fus_receive a w =
     (let callback = fw_next w; w = w\<lparr>fw_next := fw_next w + 1\<rparr>; ob = fw_obj w a
      in case fo_socket ob of
           None \<Rightarrow> w\<lparr>fw_results := fw_results w @ [(callback, F_failed F_closedSocket)]\<rparr>
         | Some u \<Rightarrow>
             let w = w\<lparr>fw_owner := (fw_owner w)(callback := a)\<rparr>
             in case fo_tail ob of
                  Some previousTail \<Rightarrow>
                    if fo_queue ob = [] \<or> last (fo_queue ob) \<noteq> previousTail then w\<lparr>fw_crashed := True\<rparr>
                    else fus_set_obj a (ob\<lparr>fo_queue := fo_queue ob @ [callback], fo_tail := Some callback\<rparr>) w
                | None \<Rightarrow>
                    if fo_queue ob \<noteq> [] then w\<lparr>fw_crashed := True\<rparr>
                    else let w = fus_set_obj a (ob\<lparr>fo_queue := [callback], fo_tail := Some callback\<rparr>) w
                         in if map_of (fw_cb w) u \<noteq> None \<or> u \<notin> fw_open w then w\<lparr>fw_threw := True\<rparr>
                            else w\<lparr>fw_cb := (u, a) # fw_cb w\<rparr>)"

definition receiveTimeout :: "nat \<Rightarrow> fus_world \<Rightarrow> fus_world" where
  "receiveTimeout a w =
     (let q = fo_queue (fw_obj w a);
          w = fus_set_obj a ((fw_obj w a)\<lparr>fo_queue := [], fo_tail := None\<rparr>) w;
          w = reset_socket a w
      in failReceiveQueue q F_timedOut w)"

definition messageReceived :: "nat \<Rightarrow> nat \<Rightarrow> fus_world \<Rightarrow> fus_world" where
  "messageReceived a message w =
     (let ob = fw_obj w a
      in case fo_queue ob of
           [] \<Rightarrow> w\<lparr>fw_crashed := True\<rparr>
         | callback # rest \<Rightarrow>
             let w = (if rest = []
                      then case fo_socket ob of
                             None \<Rightarrow> w\<lparr>fw_crashed := True\<rparr>
                           | Some u \<Rightarrow>
                               if map_of (fw_cb w) u = None then w\<lparr>fw_crashed := True\<rparr>
                               else erase_cb u (fus_set_obj a (ob\<lparr>fo_queue := rest, fo_tail := None\<rparr>) w)
                      else fus_set_obj a (ob\<lparr>fo_queue := rest\<rparr>) w)
             in w\<lparr>fw_results := fw_results w @ [(callback, F_message message)]\<rparr>)"

definition eofReceived :: "nat \<Rightarrow> fus_world \<Rightarrow> fus_world" where
  "eofReceived a w = failAllPromises a F_remoteClosed (reset_socket a w)"

definition receiveError :: "nat \<Rightarrow> exn \<Rightarrow> fus_world \<Rightarrow> fus_world" where
  "receiveError a ew w = failAllPromises a (F_socketError ew) (reset_socket a w)"

text \<open>What a socket reports: the sends go out in order, and an error closes it first.\<close>

definition socket_sent :: "nat \<Rightarrow> fus_world \<Rightarrow> fus_world" where
  "socket_sent u w =
     (case filter (\<lambda>e. fst e = u) (fw_sends w) of
        [] \<Rightarrow> w
      | e # es \<Rightarrow> w\<lparr>fw_sends := remove1 e (fw_sends w), fw_results := fw_results w @ [(snd e, F_sent)]\<rparr>)"

definition socket_error :: "nat \<Rightarrow> exn \<Rightarrow> fus_world \<Rightarrow> fus_world" where
  "socket_error u ew w =
     (if u \<notin> fw_open w then w
      else let w1 = w\<lparr>fw_open := fw_open w - {u}\<rparr>;
               w2 = (case map_of (fw_cb w1) u of None \<Rightarrow> w1 | Some a \<Rightarrow> receiveError a ew (erase_cb u w1))
           in fail_sends u (F_socketError ew) w2)"

section \<open>Steps\<close>

text \<open>
  The life of one object at address \<open>a\<close>: it connects while it has no socket, and is then used and
  called back in any order.  A timer belongs to a queued receive.  \<open>receive\<close> is called when there
  is no socket or the socket is open.
\<close>

inductive fus_step :: "nat \<Rightarrow> nat \<Rightarrow> fus_world \<Rightarrow> fus_world \<Rightarrow> bool" for a temp :: nat where
  fs_connected: "temp \<noteq> a \<Longrightarrow> fo_socket (fw_obj w a) = None \<Longrightarrow> u \<notin> fw_open w \<Longrightarrow> fus_step a temp w (fus_connected a temp u w)"
| fs_send: "fus_step a temp w (fus_send a w)"
| fs_receive: "\<forall>u. fo_socket (fw_obj w a) = Some u \<longrightarrow> u \<in> fw_open w \<Longrightarrow> fus_step a temp w (fus_receive a w)"
| fs_closeNow: "fus_step a temp w (fus_closeNow a w)"
| fs_timeout: "i \<in> set (fo_queue (fw_obj w a)) \<Longrightarrow> fus_step a temp w (receiveTimeout (fw_owner w i) w)"
| fs_message: "u \<in> fw_open w \<Longrightarrow> map_of (fw_cb w) u = Some b \<Longrightarrow> fus_step a temp w (messageReceived b message w)"
| fs_eof: "u \<in> fw_open w \<Longrightarrow> map_of (fw_cb w) u = Some b \<Longrightarrow> fus_step a temp w (eofReceived b w)"
| fs_error: "fus_step a temp w (socket_error u ew w)"
| fs_sent: "u \<in> fw_open w \<Longrightarrow> fus_step a temp w (socket_sent u w)"

definition fus_init :: "nat \<Rightarrow> fus_world \<Rightarrow> bool" where
  "fus_init a w \<longleftrightarrow> fw_obj w a = empty_object \<and> fw_open w = {} \<and> fw_cb w = [] \<and> fw_sends w = [] \<and> fw_next w = 0 \<and>
     fw_results w = [] \<and> \<not> fw_crashed w \<and> \<not> fw_threw w"

section \<open>The invariant\<close>

fun is_message :: "nat \<times> fus_outcome \<Rightarrow> bool" where
  "is_message (i, F_message m) = True"
| "is_message _ = False"

definition received_ids :: "fus_world \<Rightarrow> nat list" where
  "received_ids w = map fst (filter is_message (fw_results w))"

text \<open>Every promise is queued, waits to be sent, or has been fulfilled, once; receives are served in order.\<close>

definition promises_ok :: "nat list \<Rightarrow> fus_world \<Rightarrow> bool" where
  "promises_ok q w \<longleftrightarrow> mset (map fst (fw_results w)) + mset q + mset (map snd (fw_sends w)) = mset [0 ..< fw_next w] \<and>
     sorted_wrt (<) (received_ids w @ q)"

definition socket_ok :: "nat \<Rightarrow> fus_world \<Rightarrow> bool" where
  "socket_ok a w \<longleftrightarrow> \<not> fw_crashed w \<and> \<not> fw_threw w \<and>
     fw_open w \<subseteq> set_option (fo_socket (fw_obj w a)) \<and> (\<forall>e \<in> set (fw_sends w). fst e \<in> fw_open w)"

definition fus_queue_ok :: "nat \<Rightarrow> fus_world \<Rightarrow> bool" where
  "fus_queue_ok a w \<longleftrightarrow>
     (let ob = fw_obj w a
      in if fo_queue ob = [] then fo_tail ob = None \<and> fw_cb w = []
         else fo_tail ob = Some (last (fo_queue ob)) \<and> (\<forall>i \<in> set (fo_queue ob). fw_owner w i = a) \<and>
           (\<exists>u \<in> fw_open w. fw_cb w = [(u, a)]))"

definition fus_inv :: "nat \<Rightarrow> fus_world \<Rightarrow> bool" where
  "fus_inv a w \<longleftrightarrow> socket_ok a w \<and> fus_queue_ok a w \<and> promises_ok (fo_queue (fw_obj w a)) w"

text \<open>The state after the socket is gone.\<close>

definition gone :: "nat \<Rightarrow> fus_world \<Rightarrow> bool" where
  "gone a w \<longleftrightarrow> fw_obj w a = empty_object \<and> fw_open w = {} \<and> fw_cb w = [] \<and> fw_sends w = [] \<and> \<not> fw_crashed w \<and> \<not> fw_threw w"

lemma gone_inv: "gone a w \<Longrightarrow> promises_ok [] w \<Longrightarrow> fus_inv a w"
  by (simp add: fus_inv_def gone_def socket_ok_def fus_queue_ok_def empty_object_def)

lemma fus_set_obj_fields [simp]:
  "fw_obj (fus_set_obj a ob w) = (fw_obj w)(a := ob)" "fw_owner (fus_set_obj a ob w) = fw_owner w" "fw_open (fus_set_obj a ob w) = fw_open w"
  "fw_cb (fus_set_obj a ob w) = fw_cb w" "fw_sends (fus_set_obj a ob w) = fw_sends w" "fw_next (fus_set_obj a ob w) = fw_next w"
  "fw_results (fus_set_obj a ob w) = fw_results w" "fw_crashed (fus_set_obj a ob w) = fw_crashed w" "fw_threw (fus_set_obj a ob w) = fw_threw w"
  by (simp_all add: fus_set_obj_def)

lemma failReceiveQueue_eq:
  "failReceiveQueue q ew w = w\<lparr>fw_results := fw_results w @ map (\<lambda>i. (i, F_failed ew)) q\<rparr>"
  by (induction q arbitrary: w) simp_all

text \<open>Failing promises keeps the account.\<close>

lemma promises_ok_fail:
  assumes "promises_ok (q @ q') w" "fw_results w' = fw_results w @ map (\<lambda>i. (i, F_failed e)) q" "fw_sends w' = fw_sends w" "fw_next w' = fw_next w"
  shows "promises_ok q' w'"
proof -
  have "filter is_message (map (\<lambda>i. (i, F_failed e)) q) = []" by (simp add: filter_empty_conv)
  then have "received_ids w' = received_ids w" using assms(2) by (simp add: received_ids_def)
  then show ?thesis using assms by (auto simp: promises_ok_def comp_def sorted_wrt_append ac_simps)
qed

lemma promises_ok_fail_sends:
  assumes "promises_ok q w"
  shows "promises_ok q (fail_sends u e w)"
proof -
  have "filter is_message (map (\<lambda>x. (snd x, F_failed e)) xs) = []" for xs :: "(nat \<times> nat) list" by (simp add: filter_empty_conv)
  then have r: "received_ids (fail_sends u e w) = received_ids w" by (simp add: received_ids_def fail_sends_def)
  have "mset (fw_sends w) = mset (filter (\<lambda>e. fst e = u) (fw_sends w)) + mset (filter (\<lambda>e. fst e \<noteq> u) (fw_sends w))"
    by simp
  then have "mset (map snd (fw_sends w)) = mset (map snd (filter (\<lambda>e. fst e = u) (fw_sends w))) + mset (map snd (filter (\<lambda>e. fst e \<noteq> u) (fw_sends w)))"
    by (metis image_mset_union mset_map)
  then show ?thesis using assms r by (simp add: promises_ok_def fail_sends_def comp_def ac_simps)
qed

lemma fail_sends_fields [simp]:
  "fw_obj (fail_sends u e w) = fw_obj w" "fw_open (fail_sends u e w) = fw_open w" "fw_cb (fail_sends u e w) = fw_cb w"
  "fw_sends (fail_sends u e w) = filter (\<lambda>e. fst e \<noteq> u) (fw_sends w)" "fw_next (fail_sends u e w) = fw_next w"
  "fw_crashed (fail_sends u e w) = fw_crashed w" "fw_threw (fail_sends u e w) = fw_threw w"
  by (simp_all add: fail_sends_def)

lemma failAllPromises_fields [simp]:
  "fw_obj (failAllPromises a e w) = (fw_obj w)(a := (fw_obj w a)\<lparr>fo_queue := [], fo_tail := None\<rparr>)"
  "fw_open (failAllPromises a e w) = fw_open w" "fw_cb (failAllPromises a e w) = fw_cb w" "fw_sends (failAllPromises a e w) = fw_sends w"
  "fw_next (failAllPromises a e w) = fw_next w" "fw_crashed (failAllPromises a e w) = fw_crashed w" "fw_threw (failAllPromises a e w) = fw_threw w"
  "fw_results (failAllPromises a e w) = fw_results w @ map (\<lambda>i. (i, F_failed e)) (fo_queue (fw_obj w a))"
  by (simp_all add: failAllPromises_def failReceiveQueue_eq Let_def)

lemma erase_cb_fields [simp]:
  "fw_obj (erase_cb u w) = fw_obj w" "fw_owner (erase_cb u w) = fw_owner w" "fw_open (erase_cb u w) = fw_open w"
  "fw_cb (erase_cb u w) = filter (\<lambda>e. fst e \<noteq> u) (fw_cb w)" "fw_sends (erase_cb u w) = fw_sends w" "fw_next (erase_cb u w) = fw_next w"
  "fw_results (erase_cb u w) = fw_results w" "fw_crashed (erase_cb u w) = fw_crashed w" "fw_threw (erase_cb u w) = fw_threw w"
  by (simp_all add: erase_cb_def)

text \<open>The two ways in which a socket of an object that has let go of it is closed.\<close>

lemma closeNow_idle:
  assumes "u \<in> fw_open w" "fw_cb w = []"
  shows "socket_closeNow u w = (fail_sends u F_notConnected w)\<lparr>fw_open := fw_open w - {u}\<rparr>"
  using assms by (subst socket_closeNow.simps) (simp add: Let_def)

lemma closeNow_waiting:
  assumes "u \<in> fw_open w" "fw_cb w = [(u, a)]" "fo_socket (fw_obj w a) = None"
  shows "socket_closeNow u w =
    (fail_sends u F_notConnected (failAllPromises a F_localClosed (fus_set_obj a ((fw_obj w a)\<lparr>fo_socket := None\<rparr>) (erase_cb u w))))
      \<lparr>fw_open := fw_open w - {u}\<rparr>"
  using assms by (subst socket_closeNow.simps) (simp add: Let_def)

lemma promises_ok_cong:
  "promises_ok q w \<Longrightarrow> fw_results w' = fw_results w \<Longrightarrow> fw_sends w' = fw_sends w \<Longrightarrow> fw_next w' = fw_next w \<Longrightarrow> promises_ok q w'"
  by (simp add: promises_ok_def received_ids_def)

lemma reset_socket_gone:
  assumes ok: "socket_ok a w" and cb: "fw_cb w = [] \<and> fo_queue (fw_obj w a) = [] \<and> fo_tail (fw_obj w a) = None \<or> (\<exists>u \<in> fw_open w. fw_cb w = [(u, a)])"
    and pr: "promises_ok (fo_queue (fw_obj w a) @ q) w"
  shows "gone a (reset_socket a w) \<and> promises_ok q (reset_socket a w)"
proof (cases "fo_socket (fw_obj w a)")
  case None
  then have "fw_open w = {}" using ok by (auto simp: socket_ok_def)
  moreover from this have "fw_sends w = []" using ok by (cases "fw_sends w") (auto simp: socket_ok_def)
  ultimately have "fw_open w = {}" "fw_sends w = []" by simp_all
  then show ?thesis using None ok cb pr by (auto simp: reset_socket_def gone_def socket_ok_def empty_object_def)
next
  case (Some u)
  define w0 where "w0 = fus_set_obj a ((fw_obj w a)\<lparr>fo_socket := None\<rparr>) w"
  have r: "reset_socket a w = socket_closeNow u w0" using Some by (simp add: reset_socket_def w0_def)
  have op: "fw_open w \<subseteq> {u}" using ok Some by (auto simp: socket_ok_def)
  have p0: "promises_ok (fo_queue (fw_obj w a) @ q) w0" by (rule promises_ok_cong [OF pr]) (simp_all add: w0_def)
  show ?thesis
  proof (cases "u \<in> fw_open w")
    case False
    then have "fw_open w = {}" using op by auto
    moreover from this have "fw_sends w = []" using ok by (cases "fw_sends w") (auto simp: socket_ok_def)
    ultimately show ?thesis using cb ok p0 False unfolding r
      by (subst (1 2) socket_closeNow.simps) (auto simp: w0_def gone_def empty_object_def socket_ok_def)
  next
    case open_u: True
    then have oe: "fw_open w = {u}" using op by auto
    have se: "filter (\<lambda>e. fst e \<noteq> u) (fw_sends w) = []" using ok oe by (auto simp: socket_ok_def filter_empty_conv)
    from cb show ?thesis
    proof
      assume e: "fw_cb w = [] \<and> fo_queue (fw_obj w a) = [] \<and> fo_tail (fw_obj w a) = None"
      have c: "socket_closeNow u w0 = (fail_sends u F_notConnected w0)\<lparr>fw_open := fw_open w0 - {u}\<rparr>"
        by (rule closeNow_idle) (use open_u e in \<open>simp_all add: w0_def\<close>)
      have "promises_ok q (socket_closeNow u w0)" unfolding c
        by (rule promises_ok_cong [OF promises_ok_fail_sends [of q w0 u F_notConnected]]) (use p0 e in simp_all)
      then show ?thesis using ok oe se e unfolding r c by (simp add: gone_def w0_def empty_object_def socket_ok_def)
    next
      assume "\<exists>u \<in> fw_open w. fw_cb w = [(u, a)]"
      then have e: "fw_cb w = [(u, a)]" using oe by simp
      let ?w1 = "failAllPromises a F_localClosed (fus_set_obj a ((fw_obj w0 a)\<lparr>fo_socket := None\<rparr>) (erase_cb u w0))"
      have c: "socket_closeNow u w0 = (fail_sends u F_notConnected ?w1)\<lparr>fw_open := fw_open w0 - {u}\<rparr>"
        by (rule closeNow_waiting) (use open_u e in \<open>simp_all add: w0_def\<close>)
      have "promises_ok q ?w1" by (rule promises_ok_fail [OF p0, of _ F_localClosed]) (simp_all add: w0_def)
      from promises_ok_fail_sends [OF this, of u F_notConnected] have "promises_ok q (socket_closeNow u w0)" unfolding c
        by (rule promises_ok_cong) simp_all
      then show ?thesis using ok oe se e unfolding r c by (simp add: gone_def w0_def empty_object_def socket_ok_def)
    qed
  qed
qed

lemma fus_inv_cb: "fus_inv a w \<Longrightarrow> fw_cb w = [] \<and> fo_queue (fw_obj w a) = [] \<and> fo_tail (fw_obj w a) = None \<or> (\<exists>u \<in> fw_open w. fw_cb w = [(u, a)])"
  by (auto simp: fus_inv_def fus_queue_ok_def Let_def split: if_splits)

lemma fus_close_inv:
  assumes "fus_inv a w"
  shows "fus_inv a (fus_closeNow a w)" "gone a (reset_socket a w) \<and> promises_ok [] (reset_socket a w)"
proof -
  show g: "gone a (reset_socket a w) \<and> promises_ok [] (reset_socket a w)"
    by (rule reset_socket_gone [OF _ fus_inv_cb [OF assms]]) (use assms in \<open>simp_all add: fus_inv_def\<close>)
  then show "fus_inv a (fus_closeNow a w)" unfolding fus_closeNow_def using gone_inv by blast
qed

lemma eof_inv:
  assumes "fus_inv a w"
  shows "fus_inv a (eofReceived a w)"
proof -
  note g = fus_close_inv(2) [OF assms]
  have "fw_obj (reset_socket a w) a = empty_object" using g by (simp add: gone_def)
  then have e: "eofReceived a w = fus_set_obj a empty_object (reset_socket a w)"
    by (simp add: eofReceived_def failAllPromises_def empty_object_def Let_def)
  show ?thesis unfolding e
    by (rule gone_inv) (use g in \<open>auto simp: gone_def intro: promises_ok_cong\<close>)
qed

lemma timeout_inv:
  assumes "fus_inv a w" "fo_queue (fw_obj w a) \<noteq> []"
  shows "fus_inv a (receiveTimeout a w)"
proof -
  let ?q = "fo_queue (fw_obj w a)"
  let ?w = "fus_set_obj a ((fw_obj w a)\<lparr>fo_queue := [], fo_tail := None\<rparr>) w"
  have "promises_ok ?q ?w" by (rule promises_ok_cong [of ?q w]) (use assms in \<open>simp_all add: fus_inv_def\<close>)
  moreover have "socket_ok a ?w" using assms by (simp add: fus_inv_def socket_ok_def)
  moreover have "\<exists>u \<in> fw_open ?w. fw_cb ?w = [(u, a)]" using assms by (auto simp: fus_inv_def fus_queue_ok_def Let_def)
  ultimately have g: "gone a (reset_socket a ?w)" "promises_ok ?q (reset_socket a ?w)"
    using reset_socket_gone [of a ?w ?q] by auto
  have "promises_ok [] (receiveTimeout a w)"
    by (rule promises_ok_fail [of ?q "[]" _ _ F_timedOut]) (use g(2) in \<open>simp_all add: receiveTimeout_def failReceiveQueue_eq Let_def\<close>)
  moreover have "gone a (receiveTimeout a w)" using g(1) by (simp add: gone_def receiveTimeout_def failReceiveQueue_eq Let_def)
  ultimately show ?thesis by (rule gone_inv [rotated])
qed

lemma error_inv:
  assumes I: "fus_inv a w"
  shows "fus_inv a (socket_error u ew w)"
proof (cases "u \<in> fw_open w")
  case False
  then show ?thesis using I by (simp add: socket_error_def)
next
  case True
  have ok: "socket_ok a w" and pr: "promises_ok (fo_queue (fw_obj w a)) w" using I by (simp_all add: fus_inv_def)
  have sock: "fo_socket (fw_obj w a) = Some u" using ok True by (auto simp: socket_ok_def)
  then have oe: "fw_open w = {u}" using ok True by (auto simp: socket_ok_def)
  have se: "filter (\<lambda>e. fst e \<noteq> u) (fw_sends w) = []" using ok oe by (auto simp: socket_ok_def filter_empty_conv)
  let ?w1 = "w\<lparr>fw_open := fw_open w - {u}\<rparr>"
  from fus_inv_cb [OF I] show ?thesis
  proof
    assume e: "fw_cb w = [] \<and> fo_queue (fw_obj w a) = [] \<and> fo_tail (fw_obj w a) = None"
    then have eq: "socket_error u ew w = fail_sends u (F_socketError ew) ?w1" using True by (simp add: socket_error_def)
    have "promises_ok [] (socket_error u ew w)" unfolding eq
      by (rule promises_ok_fail_sends, rule promises_ok_cong [OF pr [unfolded e [THEN conjunct2, THEN conjunct1]]]) simp_all
    then show ?thesis using ok oe se e unfolding eq by (simp add: fus_inv_def socket_ok_def fus_queue_ok_def)
  next
    assume "\<exists>u \<in> fw_open w. fw_cb w = [(u, a)]"
    then have e: "fw_cb w = [(u, a)]" using oe by simp
    define w2 where "w2 = fus_set_obj a ((fw_obj w a)\<lparr>fo_socket := None\<rparr>) (erase_cb u ?w1)"
    have "reset_socket a (erase_cb u ?w1) = w2"
      using sock by (simp add: reset_socket_def w2_def) (subst socket_closeNow.simps, simp)
    then have eq: "socket_error u ew w = fail_sends u (F_socketError ew) (failAllPromises a (F_socketError ew) w2)"
      using True e by (simp add: socket_error_def receiveError_def)
    have "promises_ok [] (failAllPromises a (F_socketError ew) w2)"
      by (rule promises_ok_fail [of "fo_queue (fw_obj w a)" "[]" w _ "F_socketError ew"]) (use pr in \<open>simp_all add: w2_def\<close>)
    then have "promises_ok [] (socket_error u ew w)" unfolding eq by (rule promises_ok_fail_sends)
    moreover have "gone a (socket_error u ew w)" using ok oe se e unfolding eq by (simp add: gone_def w2_def empty_object_def socket_ok_def)
    ultimately show ?thesis by (rule gone_inv [rotated])
  qed
qed

lemma message_inv:
  assumes I: "fus_inv a w" and cb: "map_of (fw_cb w) u = Some b"
  shows "fus_inv a (messageReceived b message w)"
proof -
  have ok: "socket_ok a w" and pr: "promises_ok (fo_queue (fw_obj w a)) w" using I by (simp_all add: fus_inv_def)
  have e: "b = a" "fw_cb w = [(u, a)]" "u \<in> fw_open w" "fo_queue (fw_obj w a) \<noteq> []"
    using I cb by (auto simp: fus_inv_def fus_queue_ok_def Let_def split: if_splits)
  have tl: "fo_tail (fw_obj w a) = Some (last (fo_queue (fw_obj w a)))" "\<forall>i \<in> set (fo_queue (fw_obj w a)). fw_owner w i = a"
    using I e(4) by (auto simp: fus_inv_def fus_queue_ok_def Let_def)
  obtain i rest where q: "fo_queue (fw_obj w a) = i # rest" using e(4) by (cases "fo_queue (fw_obj w a)") auto
  have sock: "fo_socket (fw_obj w a) = Some u" using ok e(3) by (auto simp: socket_ok_def)
  let ?w = "messageReceived b message w"
  have f: "fw_results ?w = fw_results w @ [(i, F_message message)]" "fw_sends ?w = fw_sends w" "fw_next ?w = fw_next w"
    "fw_open ?w = fw_open w" "fw_owner ?w = fw_owner w" "fw_crashed ?w = fw_crashed w" "fw_threw ?w = fw_threw w"
    "fw_cb ?w = (if rest = [] then [] else [(u, a)])" "fo_queue (fw_obj ?w a) = rest" "fo_socket (fw_obj ?w a) = Some u"
    "fo_tail (fw_obj ?w a) = (if rest = [] then None else Some (last rest))"
    using e q sock tl by (simp_all add: messageReceived_def Let_def)
  have "promises_ok rest ?w"
    using pr q unfolding promises_ok_def received_ids_def f(1-3) by simp
  moreover have "socket_ok a ?w" using ok e(3) sock by (auto simp: socket_ok_def f(2,4,6,7,10))
  moreover have "fus_queue_ok a ?w"
    using tl(2) q e(3) unfolding fus_queue_ok_def Let_def f(4,5,8,9,11) by (cases "rest = []") simp_all
  ultimately show ?thesis by (simp add: fus_inv_def f(9))
qed

text \<open>The promise of a new call is queued or fulfilled at once.\<close>

lemma promises_ok_new:
  assumes "promises_ok q w"
  shows "fw_results w' = fw_results w @ [(fw_next w, F_failed e)] \<Longrightarrow> fw_sends w' = fw_sends w \<Longrightarrow> fw_next w' = fw_next w + 1 \<Longrightarrow> promises_ok q w'"
    "fw_results w' = fw_results w \<Longrightarrow> fw_sends w' = fw_sends w @ [(u, fw_next w)] \<Longrightarrow> fw_next w' = fw_next w + 1 \<Longrightarrow> promises_ok q w'"
    "fw_results w' = fw_results w \<Longrightarrow> fw_sends w' = fw_sends w \<Longrightarrow> fw_next w' = fw_next w + 1 \<Longrightarrow> promises_ok (q @ [fw_next w]) w'"
proof -
  have new: "i < fw_next w" if "i \<in> set (received_ids w @ q)" for i
  proof -
    have "mset (map fst (fw_results w)) + mset q + mset (map snd (fw_sends w)) = mset [0 ..< fw_next w]"
      using assms by (simp add: promises_ok_def)
    from arg_cong [OF this, of set_mset] have "fst ` set (fw_results w) \<union> set q \<subseteq> {0 ..< fw_next w}"
      by (simp only: set_mset_union set_mset_mset set_map set_upt) blast
    moreover have "set (received_ids w) \<subseteq> fst ` set (fw_results w)" by (auto simp: received_ids_def)
    ultimately show ?thesis using that by (auto dest!: subsetD)
  qed
  show "promises_ok q w'" if "fw_results w' = fw_results w @ [(fw_next w, F_failed e)]" "fw_sends w' = fw_sends w" "fw_next w' = fw_next w + 1"
    using assms that by (simp add: promises_ok_def received_ids_def)
  show "promises_ok q w'" if "fw_results w' = fw_results w" "fw_sends w' = fw_sends w @ [(u, fw_next w)]" "fw_next w' = fw_next w + 1"
    using assms that by (simp add: promises_ok_def received_ids_def)
  show "promises_ok (q @ [fw_next w]) w'" if "fw_results w' = fw_results w" "fw_sends w' = fw_sends w" "fw_next w' = fw_next w + 1"
    using assms that new by (auto simp: promises_ok_def received_ids_def sorted_wrt_append)
qed

lemma receive_inv:
  assumes I: "fus_inv a w" and op: "\<forall>u. fo_socket (fw_obj w a) = Some u \<longrightarrow> u \<in> fw_open w"
  shows "fus_inv a (fus_receive a w)"
proof -
  let ?w = "fus_receive a w" and ?q = "fo_queue (fw_obj w a)"
  have ok: "socket_ok a w" and pr: "promises_ok ?q w" and qu: "fus_queue_ok a w" using I by (simp_all add: fus_inv_def)
  show ?thesis
  proof (cases "fo_socket (fw_obj w a)")
    case None
    then have f: "fw_results ?w = fw_results w @ [(fw_next w, F_failed F_closedSocket)]" "fw_sends ?w = fw_sends w" "fw_next ?w = fw_next w + 1"
      "fw_obj ?w = fw_obj w" "fw_cb ?w = fw_cb w" "fw_open ?w = fw_open w" "fw_owner ?w = fw_owner w" "fw_crashed ?w = fw_crashed w" "fw_threw ?w = fw_threw w"
      by (simp_all add: fus_receive_def Let_def)
    show ?thesis using promises_ok_new(1) [OF pr f(1-3)] ok qu by (simp add: fus_inv_def socket_ok_def fus_queue_ok_def Let_def f(2,4-9))
  next
    case (Some u)
    then have uo: "u \<in> fw_open w" "fw_open w = {u}" using op ok by (auto simp: socket_ok_def)
    have f: "fw_results ?w = fw_results w" "fw_sends ?w = fw_sends w" "fw_next ?w = fw_next w + 1" "fw_open ?w = fw_open w"
      "fw_owner ?w = (fw_owner w)(fw_next w := a)" "fw_crashed ?w = fw_crashed w" "fw_threw ?w = fw_threw w" "fw_cb ?w = [(u, a)]"
      "fo_queue (fw_obj ?w a) = ?q @ [fw_next w]" "fo_tail (fw_obj ?w a) = Some (fw_next w)" "fo_socket (fw_obj ?w a) = Some u"
      using qu uo Some by (auto simp: fus_receive_def Let_def fus_queue_ok_def split: if_splits option.splits)
    show ?thesis using promises_ok_new(3) [OF pr f(1-3)] ok qu uo Some
      by (auto simp: fus_inv_def socket_ok_def fus_queue_ok_def Let_def f(2,4-11) split: if_splits)
  qed
qed

lemma send_inv:
  assumes I: "fus_inv a w"
  shows "fus_inv a (fus_send a w)"
proof -
  let ?w = "fus_send a w" and ?q = "fo_queue (fw_obj w a)"
  have pr: "promises_ok ?q w" using I by (simp add: fus_inv_def)
  have f: "fw_next ?w = fw_next w + 1" "fw_obj ?w = fw_obj w" "fw_cb ?w = fw_cb w" "fw_open ?w = fw_open w" "fw_owner ?w = fw_owner w"
    "fw_crashed ?w = fw_crashed w" "fw_threw ?w = fw_threw w"
    by (simp_all add: fus_send_def Let_def split: option.split)
  consider (fail) e where "fw_results ?w = fw_results w @ [(fw_next w, F_failed e)]" "fw_sends ?w = fw_sends w"
    | (wait) u where "u \<in> fw_open w" "fw_results ?w = fw_results w" "fw_sends ?w = fw_sends w @ [(u, fw_next w)]"
  proof (cases "fo_socket (fw_obj w a)")
    case None
    then show ?thesis using fail [of F_closedSocket] by (simp add: fus_send_def Let_def)
  next
    case (Some u)
    then show ?thesis using fail [of F_notConnected] wait [of u] by (cases "u \<in> fw_open w") (simp_all add: fus_send_def Let_def)
  qed
  then have "promises_ok ?q ?w \<and> (\<forall>e \<in> set (fw_sends ?w). fst e \<in> fw_open w)"
  proof cases
    case (fail e)
    then show ?thesis using promises_ok_new(1) [OF pr fail f(1)] I by (simp add: fus_inv_def socket_ok_def)
  next
    case (wait u)
    then show ?thesis using promises_ok_new(2) [OF pr wait(2,3) f(1)] I by (simp add: fus_inv_def socket_ok_def)
  qed
  then show ?thesis using I by (simp add: fus_inv_def socket_ok_def fus_queue_ok_def Let_def f(2-7))
qed

lemma sent_inv:
  assumes I: "fus_inv a w"
  shows "fus_inv a (socket_sent u w)"
proof (cases "filter (\<lambda>e. fst e = u) (fw_sends w)")
  case Nil
  then show ?thesis using I by (simp add: socket_sent_def)
next
  case (Cons e es)
  let ?w = "socket_sent u w"
  have f: "fw_obj ?w = fw_obj w" "fw_cb ?w = fw_cb w" "fw_open ?w = fw_open w" "fw_owner ?w = fw_owner w" "fw_crashed ?w = fw_crashed w"
    "fw_threw ?w = fw_threw w" "fw_next ?w = fw_next w" "fw_sends ?w = remove1 e (fw_sends w)" "fw_results ?w = fw_results w @ [(snd e, F_sent)]"
    using Cons by (simp_all add: socket_sent_def)
  have e: "e \<in> set (fw_sends w)" using arg_cong [OF Cons, of set] by auto
  then have "mset (fw_sends w) = add_mset e (mset (remove1 e (fw_sends w)))" by simp
  then have "mset (map snd (fw_sends w)) = add_mset (snd e) (mset (map snd (remove1 e (fw_sends w))))"
    by (metis image_mset_add_mset mset_map)
  then have "promises_ok (fo_queue (fw_obj w a)) ?w"
    using I by (simp add: fus_inv_def promises_ok_def received_ids_def f(7-9))
  moreover have "\<forall>e' \<in> set (remove1 e (fw_sends w)). fst e' \<in> fw_open w"
    using I notin_set_remove1 by (fastforce simp: fus_inv_def socket_ok_def)
  ultimately show ?thesis using I by (simp add: fus_inv_def socket_ok_def fus_queue_ok_def Let_def f(1-6,8))
qed

lemma connected_inv:
  assumes I: "fus_inv a w" and t: "temp \<noteq> a" and none: "fo_socket (fw_obj w a) = None"
  shows "fus_inv a (fus_connected a temp u w)"
proof -
  have ok: "socket_ok a w" and pr: "promises_ok (fo_queue (fw_obj w a)) w" using I by (simp_all add: fus_inv_def)
  have oe: "fw_open w = {}" using ok none by (auto simp: socket_ok_def)
  then have q: "fo_queue (fw_obj w a) = []" "fw_cb w = []" "fw_sends w = []"
    using fus_inv_cb [OF I] ok by (auto simp: socket_ok_def) (cases "fw_sends w", auto)
  have eq: "fus_connected a temp u w =
    fus_set_obj temp empty_object (fus_set_obj a ((fw_obj w a)\<lparr>fo_socket := Some u, fo_queue := [], fo_tail := None\<rparr>) (w\<lparr>fw_open := {u}\<rparr>))"
    using t none oe by (simp add: fus_connected_def fus_assign_def fus_destructor_def reset_socket_def Let_def empty_object_def fus_set_obj_def fun_upd_twist)
  have "promises_ok [] (fus_connected a temp u w)" unfolding eq
    by (rule promises_ok_cong [OF pr [unfolded q]]) simp_all
  then show ?thesis using ok q t unfolding eq by (simp add: fus_inv_def socket_ok_def fus_queue_ok_def)
qed

lemma fus_step_inv:
  assumes "fus_step a temp w w'" "fus_inv a w"
  shows "fus_inv a w'"
  using assms
proof (induction rule: fus_step.induct)
  case (fs_timeout i w)
  then have "fw_owner w i = a" "fo_queue (fw_obj w a) \<noteq> []" by (auto simp: fus_inv_def fus_queue_ok_def Let_def split: if_splits)
  then show ?case using timeout_inv fs_timeout by simp
next
  case (fs_eof u w b)
  then have "b = a" by (auto simp: fus_inv_def fus_queue_ok_def Let_def split: if_splits)
  then show ?case using eof_inv fs_eof by simp
qed (auto intro: connected_inv send_inv receive_inv fus_close_inv(1) message_inv error_inv sent_inv)

interpretation fus_system: invariant_system "fus_init a" "fus_step a temp" "fus_inv a" for a temp
proof
  show "fus_inv a w" if "fus_init a w" for w
    using that by (simp add: fus_init_def fus_inv_def socket_ok_def fus_queue_ok_def promises_ok_def received_ids_def empty_object_def)
qed (rule fus_step_inv)

section \<open>Theorems\<close>


text \<open>
  When the remote endpoint closes the connection, the waiting receives fail with the error of a
  local close: \<open>eofReceived\<close> destroys the socket, whose receive callback is still installed, before
  it fails the promises itself.
\<close>

theorem eof_reports_local_close:
  assumes "reachable (fus_init a) (fus_step a temp) w" "fo_queue (fw_obj w a) = i # rest"
  shows "(i, F_failed F_localClosed) \<in> set (fw_results (eofReceived a w))"
proof -
  have I: "fus_inv a w" by (rule fus_system.reachable_inv [OF assms(1)])
  obtain u where u: "u \<in> fw_open w" "fw_cb w = [(u, a)]" using I assms(2) by (auto simp: fus_inv_def fus_queue_ok_def Let_def)
  have sock: "fo_socket (fw_obj w a) = Some u" using I u(1) by (auto simp: fus_inv_def socket_ok_def)
  let ?w = "fus_set_obj a ((fw_obj w a)\<lparr>fo_socket := None\<rparr>) w"
  have "socket_closeNow u ?w =
    (fail_sends u F_notConnected (failAllPromises a F_localClosed (fus_set_obj a ((fw_obj ?w a)\<lparr>fo_socket := None\<rparr>) (erase_cb u ?w))))
      \<lparr>fw_open := fw_open ?w - {u}\<rparr>"
    by (rule closeNow_waiting) (use u in simp_all)
  then show ?thesis using sock assms(2) by (simp add: eofReceived_def reset_socket_def fail_sends_def)
qed

text \<open>Objects with a socket each, for the cases the operations are not made for.\<close>

definition two_objects :: fus_world where
  "two_objects =
     \<lparr>fw_obj = (\<lambda>a. if a \<le> 1 then empty_object\<lparr>fo_socket := Some a\<rparr> else empty_object), fw_owner = (\<lambda>i. 0), fw_open = {0, 1},
      fw_cb = [], fw_sends = [], fw_next = 0, fw_results = [], fw_crashed = False, fw_threw = False\<rparr>"

text \<open>
  Assigning to an object that waits for a message loses the new socket.  The old socket is
  destroyed when the new one is already in place; it calls \<open>socketClosed\<close>, which destroys the new
  one.
\<close>

theorem assign_loses_socket:
  "let w = fus_assign 0 1 (fus_receive 0 two_objects)
   in fo_socket (fw_obj w 0) = None \<and> fo_socket (fw_obj w 1) = None \<and> 1 \<notin> fw_open w"
  by (simp add: two_objects_def fus_receive_def fus_assign_def Let_def empty_object_def)
    (simp add: socket_closeNow.simps)

text \<open>
  An object that waits for a message must not be moved: the socket and the timers still refer to
  the old place, and the message that arrives there finds an empty queue.
\<close>

theorem moved_receive_crashes:
  "let w = fus_assign 2 0 (fus_receive 0 two_objects)
   in map_of (fw_cb w) 0 = Some 0 \<and> fw_crashed (messageReceived 0 7 w)"
  by (simp add: two_objects_def fus_receive_def fus_assign_def messageReceived_def Let_def empty_object_def)

text \<open>
  After a failed send the next \<open>receive\<close> throws instead of returning a failed future, and leaves its
  promise in the queue: destroying the object before the timeout then fails an \<open>XCHECK\<close>.
\<close>

theorem receive_after_send_error:
  "let w = fus_receive 0 (socket_error 0 (SystemError 32) two_objects)
   in fw_threw w \<and> fo_queue (fw_obj w 0) = [0] \<and> fw_crashed (fus_destructor 0 w)"
  by (simp add: two_objects_def fus_receive_def socket_error_def fus_destructor_def fail_sends_def Let_def empty_object_def)
    (simp add: socket_closeNow.simps)

text \<open>A run for the witnesses: connect, and wait for two messages, one of which arrives.\<close>

definition fresh_world :: fus_world where
  "fresh_world =
     \<lparr>fw_obj = (\<lambda>a. empty_object), fw_owner = (\<lambda>i. 0), fw_open = {}, fw_cb = [], fw_sends = [], fw_next = 0, fw_results = [],
      fw_crashed = False, fw_threw = False\<rparr>"

definition connected_world :: fus_world where
  "connected_world = fus_connected 0 1 5 fresh_world"

definition waiting_world :: fus_world where
  "waiting_world = fus_receive 0 (fus_receive 0 connected_world)"

definition served_world :: fus_world where
  "served_world = messageReceived 0 42 waiting_world"

lemma connected_world_eq: "connected_world = fresh_world\<lparr>fw_open := {5}, fw_obj := (\<lambda>a. empty_object)(0 := empty_object\<lparr>fo_socket := Some 5\<rparr>)\<rparr>"
  by (auto simp: connected_world_def fus_connected_def fus_assign_def fus_destructor_def reset_socket_def fresh_world_def empty_object_def fus_set_obj_def
      Let_def fun_eq_iff)

lemma waiting_fields:
  "fo_queue (fw_obj waiting_world 0) = [0, 1]" "fo_socket (fw_obj waiting_world 0) = Some 5" "fw_cb waiting_world = [(5, 0)]"
  "fw_open waiting_world = {5}" "fw_next waiting_world = 2" "fw_results waiting_world = []" "fw_sends waiting_world = []"
  by (simp_all add: waiting_world_def connected_world_eq fus_receive_def fresh_world_def empty_object_def Let_def)

lemma waiting_reachable: "reachable (fus_init 0) (fus_step 0 1) waiting_world"
proof -
  have "reachable (fus_init 0) (fus_step 0 1) fresh_world" by (rule reach_init) (simp add: fus_init_def fresh_world_def)
  then have r1: "reachable (fus_init 0) (fus_step 0 1) connected_world"
    unfolding connected_world_def by (rule reach_step) (rule fs_connected, simp_all add: fresh_world_def empty_object_def)
  have "fus_step 0 1 connected_world (fus_receive 0 connected_world)"
    by (rule fs_receive) (simp add: connected_world_eq)
  from reach_step [OF r1 this] have r2: "reachable (fus_init 0) (fus_step 0 1) (fus_receive 0 connected_world)" .
  have "fus_step 0 1 (fus_receive 0 connected_world) waiting_world"
    unfolding waiting_world_def
    by (rule fs_receive) (simp add: connected_world_eq fus_receive_def fresh_world_def empty_object_def Let_def)
  from reach_step [OF r2 this] show ?thesis .
qed

lemma served_reachable: "reachable (fus_init 0) (fus_step 0 1) served_world"
  by (rule reach_step [OF waiting_reachable], unfold served_world_def, rule fs_message [of 5]) (simp_all add: waiting_fields)


end
