(* ===== verification/User_Info.thy ===== *)
theory User_Info
  imports Path_Canonical
begin

text \<open>
  \<open>UserInfo\<close> of \<open>UserInfo.h\<close> and \<open>UserInfo.cpp\<close> (POSIX): who the user is that a privileged process runs
  for, and how it becomes that user, for good with \<open>dropPrivileges\<close> and for a while with
  \<open>EffectiveUserScope\<close>.

  The credentials of the process and its environment are a record; the system calls that change
  them, the lookup in the user database and \<open>folly::to<uid_t>\<close> are parameters.  An operation that
  throws returns the credentials as they are then; where the destructor of \<open>EffectiveUserScope\<close> throws,
  the process ends.
\<close>

section \<open>Credentials\<close>

record cred =
  c_ruid :: nat
  c_euid :: nat
  c_suid :: nat
  c_rgid :: nat
  c_egid :: nat
  c_sgid :: nat
  c_groups :: "nat list"
  c_dumpable :: bool
  c_env :: "string \<rightharpoonup> string"

record passwd =
  pw_name :: string
  pw_dir :: "string option"

record user_os =
  sys_initgroups :: "string \<Rightarrow> nat \<Rightarrow> cred \<Rightarrow> nat + cred"
  sys_setregid :: "nat \<Rightarrow> nat \<Rightarrow> cred \<Rightarrow> nat + cred"
  sys_setreuid :: "nat \<Rightarrow> nat \<Rightarrow> cred \<Rightarrow> nat + cred"
  sys_prctl_dumpable :: "cred \<Rightarrow> nat + cred"
  sys_getpwuid :: "nat \<Rightarrow> nat \<Rightarrow> nat + passwd option"
  sys_errno :: nat
  sys_cwd :: "nat + string"
  to_uid :: "string \<Rightarrow> nat option"

record user_info =
  ui_uid :: nat
  ui_gid :: nat
  ui_username :: string
  ui_homeDirectory :: string

definition ERANGE :: nat where
  "ERANGE = 34"

section \<open>Looking up the user\<close>

text \<open>The loop of \<open>getPasswdUid\<close>, whose buffer has \<open>1024 * 2 ^ n\<close> bytes in round \<open>n\<close>.\<close>

definition maxBufSize :: nat where
  "maxBufSize = 8192"

function passwd_loop :: "user_os \<Rightarrow> nat \<Rightarrow> nat \<Rightarrow> passwd option result" where
  "passwd_loop U uid n =
     (let bufSize = 1024 * 2 ^ n
      in case sys_getpwuid U uid bufSize of
           Inr entry \<Rightarrow> Inr entry
         | Inl errnum \<Rightarrow> if errnum = ERANGE \<and> bufSize < maxBufSize then passwd_loop U uid (n + 1) else Inl (SystemError (sys_errno U)))"
  by pat_completeness auto
termination
proof (relation "measure (\<lambda>(os, uid, n). 3 - n)", goal_cases)
  case (2 os uid n x e)
  then have "(2 :: nat) ^ n < 2 ^ 3" by (simp add: maxBufSize_def)
  then have "n < 3" by (simp only: power_strict_increasing_iff)
  then show ?case by simp
qed simp

declare passwd_loop.simps [simp del]

definition getPasswdUid :: "user_os \<Rightarrow> nat \<Rightarrow> passwd result" where
  "getPasswdUid U uid =
     (case passwd_loop U uid 0 of
        Inl e \<Rightarrow> Inl e
      | Inr None \<Rightarrow> Inl (SystemError (sys_errno U))
      | Inr (Some pwd) \<Rightarrow> Inr pwd)"

definition initHomedir :: "user_os \<Rightarrow> (string \<rightharpoonup> string) \<Rightarrow> passwd option \<Rightarrow> user_info \<Rightarrow> user_info result option" where
  "initHomedir U env pwd info =
     (let set_home = (\<lambda>p. case canonicalPath False (sys_cwd U) p of
                            None \<Rightarrow> None
                          | Some (Inl e) \<Rightarrow> Some (Inl e)
                          | Some (Inr h) \<Rightarrow> Some (Inr (info\<lparr>ui_homeDirectory := h\<rparr>)))
      in case env ''HOME'' of
           Some homeEnv \<Rightarrow> set_home homeEnv
         | None \<Rightarrow>
             (case (case pwd of Some p \<Rightarrow> Inr p | None \<Rightarrow> getPasswdUid U (ui_uid info)) of
                Inl e \<Rightarrow> Some (Inl e)
              | Inr p \<Rightarrow>
                  (case pw_dir p of
                     Some d \<Rightarrow> set_home d
                   | None \<Rightarrow> Some (Inr (info\<lparr>ui_homeDirectory := kRootStr False\<rparr>)))))"

definition initFromSudo :: "user_os \<Rightarrow> (string \<rightharpoonup> string) \<Rightarrow> user_info \<Rightarrow> (user_info option) result option" where
  "initFromSudo U env info =
     (case env ''SUDO_UID'' of
        None \<Rightarrow> Some (Inr None)
      | Some sudoUid \<Rightarrow>
          (case env ''SUDO_GID'' of
             None \<Rightarrow> Some (Inl RuntimeError)
           | Some sudoGid \<Rightarrow>
               (case env ''SUDO_USER'' of
                  None \<Rightarrow> Some (Inl RuntimeError)
                | Some sudoUser \<Rightarrow>
                    (case to_uid U sudoUid of
                       None \<Rightarrow> Some (Inl RuntimeError)
                     | Some uid \<Rightarrow>
                         (case to_uid U sudoGid of
                            None \<Rightarrow> Some (Inl RuntimeError)
                          | Some gid \<Rightarrow>
                              map_option (map_sum id Some)
                                (initHomedir U env None (info\<lparr>ui_uid := uid, ui_gid := gid, ui_username := sudoUser\<rparr>)))))))"

definition initFromNonRoot :: "user_os \<Rightarrow> cred \<Rightarrow> nat \<Rightarrow> user_info \<Rightarrow> user_info result option" where
  "initFromNonRoot U c uid info =
     (let info = info\<lparr>ui_uid := uid, ui_gid := c_rgid c\<rparr>
      in case getPasswdUid U uid of
           Inl e \<Rightarrow> Some (Inl e)
         | Inr pwd \<Rightarrow> initHomedir U (c_env c) (Some pwd) (info\<lparr>ui_username := pw_name pwd\<rparr>))"

definition kDefaultNobodyUid :: nat where
  "kDefaultNobodyUid = 65534"

definition kDefaultNobodyGid :: nat where
  "kDefaultNobodyGid = 65534"

definition default_user :: user_info where
  "default_user =
     \<lparr>ui_uid = kDefaultNobodyUid, ui_gid = kDefaultNobodyGid, ui_username = '''', ui_homeDirectory = kRootStr False\<rparr>"

definition user_lookup :: "user_os \<Rightarrow> cred \<Rightarrow> user_info result option" where
  "user_lookup U c =
     (let uid = c_ruid c
      in if uid \<noteq> 0 then initFromNonRoot U c uid default_user
         else case initFromSudo U (c_env c) default_user of
                None \<Rightarrow> None
              | Some (Inl e) \<Rightarrow> Some (Inl e)
              | Some (Inr (Some info)) \<Rightarrow> Some (Inr info)
              | Some (Inr None) \<Rightarrow>
                  (case getPasswdUid U uid of
                     Inl e \<Rightarrow> Some (Inl e)
                   | Inr pwd \<Rightarrow>
                       initHomedir U (c_env c) (Some pwd)
                         (default_user\<lparr>ui_uid := uid, ui_gid := c_rgid c, ui_username := pw_name pwd\<rparr>)))"

section \<open>Becoming the user\<close>

definition restoreEnvironmentAfterSudo :: "user_info \<Rightarrow> cred \<Rightarrow> cred" where
  "restoreEnvironmentAfterSudo info c =
     (if c_env c ''SUDO_UID'' = None then c
      else let env = (c_env c)(''USER'' \<mapsto> ui_username info);
               env = env(''USERNAME'' \<mapsto> ui_username info);
               env = env(''LOGNAME'' \<mapsto> ui_username info);
               env = env(''SUDO_USER'' := None);
               env = env(''SUDO_UID'' := None);
               env = env(''SUDO_GID'' := None);
               env = env(''SUDO_COMMAND'' := None)
           in c\<lparr>c_env := env\<rparr>)"

definition dropPrivileges :: "user_os \<Rightarrow> user_info \<Rightarrow> cred \<Rightarrow> unit result \<times> cred" where
  "dropPrivileges U info c =
     (let uid = ui_uid info; gid = ui_gid info
      in if uid = c_ruid c \<and> uid = c_euid c \<and> gid = c_rgid c \<and> gid = c_egid c then (Inr (), c)
         else case sys_initgroups U (ui_username info) gid c of
                Inl e \<Rightarrow> (Inl (SystemError e), c)
              | Inr c1 \<Rightarrow>
                  (case sys_setregid U gid gid c1 of
                     Inl e \<Rightarrow> (Inl (SystemError e), c1)
                   | Inr c2 \<Rightarrow>
                       (case sys_setreuid U uid uid c2 of
                          Inl e \<Rightarrow> (Inl (SystemError e), c2)
                        | Inr c3 \<Rightarrow>
                            (case sys_prctl_dumpable U c3 of
                               Inl e \<Rightarrow> (Inl (SystemError e), c3)
                             | Inr c4 \<Rightarrow> (Inr (), restoreEnvironmentAfterSudo info c4)))))"

text \<open>\<open>EffectiveUserScope\<close>: the constructor keeps the four ids, which the destructor restores.\<close>

record user_scope =
  us_ruid :: nat
  us_euid :: nat
  us_rgid :: nat
  us_egid :: nat

definition EffectiveUserScope :: "user_os \<Rightarrow> user_info \<Rightarrow> cred \<Rightarrow> user_scope result \<times> cred" where
  "EffectiveUserScope U info c =
     (let scope = \<lparr>us_ruid = c_ruid c, us_euid = c_euid c, us_rgid = c_rgid c, us_egid = c_egid c\<rparr>
      in case sys_setregid U (ui_gid info) (ui_gid info) c of
           Inl e \<Rightarrow> (Inl (SystemError e), c)
         | Inr c1 \<Rightarrow>
             (case sys_setreuid U 0 (ui_uid info) c1 of
                Inl e \<Rightarrow> (Inl (SystemError e), c1)
              | Inr c2 \<Rightarrow> (Inr scope, c2)))"

definition leave_scope :: "user_os \<Rightarrow> user_scope \<Rightarrow> cred \<Rightarrow> unit result \<times> cred" where
  "leave_scope U scope c =
     (case sys_setreuid U (us_ruid scope) (us_euid scope) c of
        Inl e \<Rightarrow> (Inl (SystemError e), c)
      | Inr c1 \<Rightarrow>
          (case sys_setregid U (us_rgid scope) (us_egid scope) c1 of
             Inl e \<Rightarrow> (Inl (SystemError e), c1)
           | Inr c2 \<Rightarrow> (Inr (), c2)))"

section \<open>The system calls\<close>

text \<open>
  What the manual pages say.  \<open>setregid\<close> and \<open>setreuid\<close> with two ids set the real, the effective and
  the saved id, and may clear the dumpable flag; a process with effective user 0 may choose any
  ids, another one only ids it already has.  \<open>getpwuid_r\<close> fails with \<open>ERANGE\<close> if the buffer is too
  small for the entry.
\<close>

definition cred_laws :: "user_os \<Rightarrow> (string \<Rightarrow> nat \<Rightarrow> nat list) \<Rightarrow> bool" where
  "cred_laws U groups_of \<longleftrightarrow>
     (\<forall>user gid c c'. sys_initgroups U user gid c = Inr c' \<longrightarrow> c' = c\<lparr>c_groups := groups_of user gid\<rparr>) \<and>
     (\<forall>r e c c'. sys_setregid U r e c = Inr c' \<longrightarrow> (\<exists>d. c' = c\<lparr>c_rgid := r, c_egid := e, c_sgid := e, c_dumpable := d\<rparr>)) \<and>
     (\<forall>r e c c'. sys_setreuid U r e c = Inr c' \<longrightarrow> (\<exists>d. c' = c\<lparr>c_ruid := r, c_euid := e, c_suid := e, c_dumpable := d\<rparr>)) \<and>
     (\<forall>c c'. sys_prctl_dumpable U c = Inr c' \<longrightarrow> c' = c\<lparr>c_dumpable := True\<rparr>)"

definition cred_allowed :: "user_os \<Rightarrow> bool" where
  "cred_allowed U \<longleftrightarrow>
     (\<forall>r e c. c_euid c = 0 \<longrightarrow> (\<exists>c'. sys_setregid U r e c = Inr c')) \<and>
     (\<forall>r e c. c_euid c = 0 \<or> r \<in> {c_ruid c, c_euid c} \<and> e \<in> {c_ruid c, c_euid c, c_suid c} \<longrightarrow> (\<exists>c'. sys_setreuid U r e c = Inr c'))"

definition passwd_law :: "user_os \<Rightarrow> (nat \<Rightarrow> passwd option) \<Rightarrow> (nat \<Rightarrow> nat) \<Rightarrow> bool" where
  "passwd_law U db need \<longleftrightarrow> (\<forall>uid n. sys_getpwuid U uid n = (if n < need uid then Inl ERANGE else Inr (db uid)))"

section \<open>Theorems\<close>

lemma cred_lawsD:
  assumes "cred_laws U groups_of"
  shows "sys_initgroups U user gid c = Inr c' \<Longrightarrow> c' = c\<lparr>c_groups := groups_of user gid\<rparr>"
    "sys_setregid U r e c = Inr c' \<Longrightarrow> \<exists>d. c' = c\<lparr>c_rgid := r, c_egid := e, c_sgid := e, c_dumpable := d\<rparr>"
    "sys_setreuid U r e c = Inr c' \<Longrightarrow> \<exists>d. c' = c\<lparr>c_ruid := r, c_euid := e, c_suid := e, c_dumpable := d\<rparr>"
    "sys_prctl_dumpable U c = Inr c' \<Longrightarrow> c' = c\<lparr>c_dumpable := True\<rparr>"
  using assms unfolding cred_laws_def by blast+

lemma passwd_loop_spec:
  assumes "passwd_law U db need"
  shows "passwd_loop U uid 0 = (if 8192 < need uid then Inl (SystemError (sys_errno U)) else Inr (db uid))"
proof -
  have g: "sys_getpwuid U uid n = (if n < need uid then Inl ERANGE else Inr (db uid))" for n
    using assms by (simp add: passwd_law_def)
  have l3: "passwd_loop U uid 3 = (if 8192 < need uid then Inl (SystemError (sys_errno U)) else Inr (db uid))"
    by (subst passwd_loop.simps) (simp add: g maxBufSize_def)
  have l2: "passwd_loop U uid 2 = (if 4096 < need uid then passwd_loop U uid 3 else Inr (db uid))"
    by (subst passwd_loop.simps) (simp add: g maxBufSize_def)
  have l1: "passwd_loop U uid 1 = (if 2048 < need uid then passwd_loop U uid 2 else Inr (db uid))"
    by (subst passwd_loop.simps) (simp add: g maxBufSize_def numeral_2_eq_2)
  have "passwd_loop U uid 0 = (if 1024 < need uid then passwd_loop U uid 1 else Inr (db uid))"
    by (subst passwd_loop.simps) (simp add: g maxBufSize_def)
  then show ?thesis using l1 l2 l3 by simp
qed

text \<open>
  The password database is read with buffers of 1024, 2048, 4096 and 8192 bytes: the lookup ends,
  and finds every entry that fits into 8192 bytes; a larger one, and a user without an entry, is an
  error, which carries the value that \<open>errno\<close> happens to have and not the number \<open>getpwuid_r\<close> returned.
\<close>

theorem getPasswdUid_correct:
  assumes "passwd_law U db need"
  shows "getPasswdUid U uid =
    (if need uid \<le> 8192 then (case db uid of Some pwd \<Rightarrow> Inr pwd | None \<Rightarrow> Inl (SystemError (sys_errno U)))
     else Inl (SystemError (sys_errno U)))"
  by (simp add: getPasswdUid_def passwd_loop_spec [OF assms] split: option.split)

text \<open>The credentials once the ids have been set.\<close>

definition dropped :: "(string \<Rightarrow> nat \<Rightarrow> nat list) \<Rightarrow> user_info \<Rightarrow> bool \<Rightarrow> cred \<Rightarrow> cred" where
  "dropped groups_of info d c =
     c\<lparr>c_groups := groups_of (ui_username info) (ui_gid info),
       c_rgid := ui_gid info, c_egid := ui_gid info, c_sgid := ui_gid info,
       c_ruid := ui_uid info, c_euid := ui_uid info, c_suid := ui_uid info, c_dumpable := d\<rparr>"

lemma dropped_fields:
  "c_ruid (dropped groups_of info d c) = ui_uid info" "c_euid (dropped groups_of info d c) = ui_uid info"
  "c_suid (dropped groups_of info d c) = ui_uid info" "c_rgid (dropped groups_of info d c) = ui_gid info"
  "c_egid (dropped groups_of info d c) = ui_gid info" "c_sgid (dropped groups_of info d c) = ui_gid info"
  "c_groups (dropped groups_of info d c) = groups_of (ui_username info) (ui_gid info)"
  "c_dumpable (dropped groups_of info d c) = d" "c_env (dropped groups_of info d c) = c_env c"
  by (simp_all add: dropped_def)

lemma restored_fields:
  "c_ruid (restoreEnvironmentAfterSudo info c) = c_ruid c" "c_euid (restoreEnvironmentAfterSudo info c) = c_euid c"
  "c_suid (restoreEnvironmentAfterSudo info c) = c_suid c" "c_rgid (restoreEnvironmentAfterSudo info c) = c_rgid c"
  "c_egid (restoreEnvironmentAfterSudo info c) = c_egid c" "c_sgid (restoreEnvironmentAfterSudo info c) = c_sgid c"
  "c_groups (restoreEnvironmentAfterSudo info c) = c_groups c" "c_dumpable (restoreEnvironmentAfterSudo info c) = c_dumpable c"
  "c_env (restoreEnvironmentAfterSudo info c) ''SUDO_UID'' = None"
  "c_env c ''SUDO_UID'' \<noteq> None \<Longrightarrow> c_env (restoreEnvironmentAfterSudo info c) ''USER'' = Some (ui_username info)"
  by (auto simp: restoreEnvironmentAfterSudo_def Let_def)

lemma dropPrivileges_cases:
  assumes "cred_laws U groups_of" "dropPrivileges U info c = (r, c')"
  obtains (same) "ui_uid info = c_ruid c" "ui_uid info = c_euid c" "ui_gid info = c_rgid c" "ui_gid info = c_egid c" "r = Inr ()" "c' = c"
  | (early) e where "r = Inl e" "c_ruid c' = c_ruid c" "c_euid c' = c_euid c" "c_suid c' = c_suid c"
  | (late) e d where "r = Inl e" "c' = dropped groups_of info d c"
  | (dropped) "r = Inr ()" "\<not> (ui_uid info = c_ruid c \<and> ui_uid info = c_euid c \<and> ui_gid info = c_rgid c \<and> ui_gid info = c_egid c)"
      "c' = restoreEnvironmentAfterSudo info (dropped groups_of info True c)"
proof (cases "ui_uid info = c_ruid c \<and> ui_uid info = c_euid c \<and> ui_gid info = c_rgid c \<and> ui_gid info = c_egid c")
  case True
  then have "r = Inr ()" "c' = c" using assms(2) by (simp_all add: dropPrivileges_def)
  with True show thesis by (intro same) simp_all
next
  case False
  note run = assms(2) [unfolded dropPrivileges_def Let_def if_not_P [OF False]] and L = cred_lawsD [OF assms(1)]
  show thesis
  proof (cases "sys_initgroups U (ui_username info) (ui_gid info) c")
    case (Inl e)
    then show thesis using run by (intro early) auto
  next
    case g: (Inr c1)
    show thesis
    proof (cases "sys_setregid U (ui_gid info) (ui_gid info) c1")
      case (Inl e)
      then show thesis using run g L(1) [OF g] by (intro early) auto
    next
      case rg: (Inr c2)
      obtain d2 where c2: "c2 = c1\<lparr>c_rgid := ui_gid info, c_egid := ui_gid info, c_sgid := ui_gid info, c_dumpable := d2\<rparr>"
        using L(2) [OF rg] by blast
      show thesis
      proof (cases "sys_setreuid U (ui_uid info) (ui_uid info) c2")
        case (Inl e)
        then show thesis using run g rg c2 L(1) [OF g] by (intro early) auto
      next
        case ru: (Inr c3)
        obtain d3 where c3: "c3 = c2\<lparr>c_ruid := ui_uid info, c_euid := ui_uid info, c_suid := ui_uid info, c_dumpable := d3\<rparr>"
          using L(3) [OF ru] by blast
        have d: "c3\<lparr>c_dumpable := b\<rparr> = dropped groups_of info b c" for b
          unfolding c3 c2 L(1) [OF g] dropped_def by simp
        show thesis
        proof (cases "sys_prctl_dumpable U c3")
          case (Inl e)
          then have "r = Inl (SystemError e)" "c' = c3" using run g rg ru by simp_all
          moreover have "c3 = dropped groups_of info d3 c" unfolding c3 c2 L(1) [OF g] dropped_def by simp
          ultimately show thesis by (intro late) simp_all
        next
          case p: (Inr c4)
          then have "r = Inr ()" "c' = restoreEnvironmentAfterSudo info c4" using run g rg ru by simp_all
          then show thesis using False L(4) [OF p] d by (intro dropped) simp_all
        qed
      qed
    qed
  qed
qed

lemma map_sum_eq_Inr: "map_sum f g z = Inr y \<longleftrightarrow> (\<exists>x. z = Inr x \<and> y = g x)"
  by (cases z) auto



text \<open>
  \<open>EffectiveUserScope\<close> restores what it changed.  For a process whose effective user is root, started by
  root or as a setuid binary by the user, entering the scope makes the user the effective user, and
  leaving it, although the process is not privileged then, succeeds and restores the real and the
  effective ids.
\<close>

theorem effective_user_scope_roundtrip:
  assumes "cred_laws U groups_of" "cred_allowed U" "c_ruid c = 0 \<or> c_ruid c = ui_uid info" "c_euid c = 0"
  shows "\<exists>scope c1 c2. EffectiveUserScope U info c = (Inr scope, c1) \<and>
    c_euid c1 = ui_uid info \<and> c_ruid c1 = 0 \<and> c_egid c1 = ui_gid info \<and>
    leave_scope U scope c1 = (Inr (), c2) \<and>
    c_ruid c2 = c_ruid c \<and> c_euid c2 = c_euid c \<and> c_rgid c2 = c_rgid c \<and> c_egid c2 = c_egid c"
proof -
  note L = cred_lawsD [OF assms(1)]
  obtain ca where a: "sys_setregid U (ui_gid info) (ui_gid info) c = Inr ca" using assms(2,4) unfolding cred_allowed_def by blast
  note fa = L(2) [OF a]
  then have ea: "c_euid ca = 0" using assms(4) by auto
  obtain cb where b: "sys_setreuid U 0 (ui_uid info) ca = Inr cb" using assms(2) ea unfolding cred_allowed_def by blast
  note fb = L(3) [OF b]
  then have eb: "c_ruid cb = 0" "c_euid cb = ui_uid info" "c_egid cb = ui_gid info" using fa by auto
  have "c_ruid c \<in> {c_ruid cb, c_euid cb}" "0 \<in> {c_ruid cb, c_euid cb, c_suid cb}" using eb assms(3) by auto
  then obtain cd where d: "sys_setreuid U (c_ruid c) 0 cb = Inr cd" using assms(2) unfolding cred_allowed_def by blast
  note fd = L(3) [OF d]
  then have ed: "c_euid cd = 0" "c_ruid cd = c_ruid c" by auto
  obtain ce where e: "sys_setregid U (c_rgid c) (c_egid c) cd = Inr ce" using assms(2) ed unfolding cred_allowed_def by blast
  note fe = L(2) [OF e]
  let ?scope = "\<lparr>us_ruid = c_ruid c, us_euid = c_euid c, us_rgid = c_rgid c, us_egid = c_egid c\<rparr>"
  have "EffectiveUserScope U info c = (Inr ?scope, cb)" using a b by (simp add: EffectiveUserScope_def)
  moreover have "leave_scope U ?scope cb = (Inr (), ce)" using assms(4) d e by (simp add: leave_scope_def)
  moreover have "c_ruid ce = c_ruid c" "c_euid ce = c_euid c" "c_rgid ce = c_rgid c" "c_egid ce = c_egid c"
    using fe ed assms(4) by auto
  ultimately show ?thesis using eb by blast
qed

text \<open>
  \<open>dropPrivileges\<close> looks at the real and the effective ids only.  A process whose saved user id is
  still root, and which therefore can become root again, is taken for one that is not privileged.
\<close>

theorem dropPrivileges_keeps_saved_root:
  assumes "c_ruid c = ui_uid info" "c_euid c = ui_uid info" "c_rgid c = ui_gid info" "c_egid c = ui_gid info" "c_suid c = 0"
  shows "dropPrivileges U info c = (Inr (), c) \<and> c_suid (snd (dropPrivileges U info c)) = 0"
  using assms by (simp add: dropPrivileges_def)

section \<open>A system for the witnesses\<close>

definition sample_db :: "nat \<Rightarrow> passwd option" where
  "sample_db uid =
     (if uid = 0 then Some \<lparr>pw_name = ''root'', pw_dir = None\<rparr>
      else if uid = 1000 then Some \<lparr>pw_name = ''jane'', pw_dir = None\<rparr> else None)"

definition linux_os :: user_os where
  "linux_os =
     \<lparr>sys_initgroups = (\<lambda>user gid c. if c_euid c = 0 then Inr (c\<lparr>c_groups := [gid]\<rparr>) else Inl 1),
      sys_setregid = (\<lambda>r e c. if c_euid c = 0 \<or> r \<in> {c_rgid c, c_egid c} \<and> e \<in> {c_rgid c, c_egid c, c_sgid c}
        then Inr (c\<lparr>c_rgid := r, c_egid := e, c_sgid := e, c_dumpable := False\<rparr>) else Inl 1),
      sys_setreuid = (\<lambda>r e c. if c_euid c = 0 \<or> r \<in> {c_ruid c, c_euid c} \<and> e \<in> {c_ruid c, c_euid c, c_suid c}
        then Inr (c\<lparr>c_ruid := r, c_euid := e, c_suid := e, c_dumpable := False\<rparr>) else Inl 1),
      sys_prctl_dumpable = (\<lambda>c. Inr (c\<lparr>c_dumpable := True\<rparr>)),
      sys_getpwuid = (\<lambda>uid n. if n < 3000 then Inl ERANGE else Inr (sample_db uid)),
      sys_errno = 0,
      sys_cwd = Inr ''/'',
      to_uid = (\<lambda>s. if s = ''1000'' then Some 1000 else if s = ''100'' then Some 100 else None)\<rparr>"

lemma linux_laws: "cred_laws linux_os (\<lambda>user gid. [gid])" "cred_allowed linux_os"
  "passwd_law linux_os sample_db (\<lambda>uid. 3000)"
  by (auto simp: cred_laws_def cred_allowed_def passwd_law_def linux_os_def split: if_splits)

definition sudo_cred :: cred where
  "sudo_cred =
     \<lparr>c_ruid = 0, c_euid = 0, c_suid = 0, c_rgid = 0, c_egid = 0, c_sgid = 0, c_groups = [0], c_dumpable = True,
      c_env = [''SUDO_UID'' \<mapsto> ''1000'', ''SUDO_GID'' \<mapsto> ''100'', ''SUDO_USER'' \<mapsto> ''jane'']\<rparr>"

definition jane :: user_info where
  "jane = \<lparr>ui_uid = 1000, ui_gid = 100, ui_username = ''jane'', ui_homeDirectory = kRootStr False\<rparr>"

theorem getPasswdUid_correct_witness:
  "getPasswdUid linux_os 0 = Inr \<lparr>pw_name = ''root'', pw_dir = None\<rparr> \<and> getPasswdUid linux_os 7 = Inl (SystemError 0)"
  using getPasswdUid_correct [OF linux_laws(3), of 0] getPasswdUid_correct [OF linux_laws(3), of 7]
  by (simp add: sample_db_def linux_os_def)

lemma jane_dropped:
  "dropPrivileges linux_os jane sudo_cred = (Inr (), snd (dropPrivileges linux_os jane sudo_cred))"
  by (simp add: dropPrivileges_def linux_os_def jane_def sudo_cred_def)



theorem effective_user_scope_roundtrip_witness:
  "\<exists>scope c1 c2. EffectiveUserScope linux_os jane sudo_cred = (Inr scope, c1) \<and> c_euid c1 = 1000 \<and>
     leave_scope linux_os scope c1 = (Inr (), c2) \<and> c_euid c2 = 0"
  using effective_user_scope_roundtrip [OF linux_laws(1,2), of sudo_cred jane] by (auto simp: jane_def sudo_cred_def)

end
