(* ===== verification/Process_Info.thy ===== *)
theory Process_Info
  imports User_Info
begin

text \<open>
  \<open>ProcessInfo.h\<close> and \<open>ProcessInfo.cpp\<close>: what is known about another process.  On Linux the command line
  and the user come from \<open>/proc\<close>: \<open>getProcPidCmdLine\<close>, \<open>StatusInfo\<close>, \<open>readProcessName\<close>,
  \<open>readUserInfo\<close>.  On macOS the command line is cut out of what \<open>sysctl\<close> returns, by
  \<open>extractCommandLineFromProcArgs\<close>.

  The files are parameters: \<open>status pid\<close> are the lines of \<open>/proc/<pid>/status\<close>, none if it cannot be
  read, and \<open>cmdline pid\<close> is the contents of \<open>/proc/<pid>/cmdline\<close> or the error of opening it.
\<close>

section \<open>Paths and names\<close>

definition getProcPidCmdLine :: "nat \<Rightarrow> string" where
  "getProcPidCmdLine pid = ''/proc/'' @ decimal pid @ ''/cmdline''"

definition kMaxDecimalPidLength :: nat where
  "kMaxDecimalPidLength = 10"

definition error_name :: "nat \<Rightarrow> string" where
  "error_name errno = ''<err:'' @ decimal errno @ ''>''"

text \<open>\<open>folly::readFull\<close> reads up to the size of the buffer.\<close>

definition readProcessName :: "(string \<Rightarrow> nat + (nat + string)) \<Rightarrow> nat \<Rightarrow> string" where
  "readProcessName cmdline pid =
     (case cmdline (getProcPidCmdLine pid) of
        Inl errno \<Rightarrow> error_name errno
      | Inr (Inl errno) \<Rightarrow> error_name errno
      | Inr (Inr contents) \<Rightarrow> take 1024 contents)"

section \<open>The status of a process\<close>

definition isspace :: "char \<Rightarrow> bool" where
  "isspace c \<longleftrightarrow> of_char c \<in> {9, 10, 11, 12, 13, 32 :: nat}"

definition isdigit :: "char \<Rightarrow> bool" where
  "isdigit c \<longleftrightarrow> (of_char c :: nat) \<in> {48 .. 57}"

definition digits_value :: "string \<Rightarrow> nat" where
  "digits_value ds = foldl (\<lambda>v d. 10 * v + (of_char d - 48)) 0 ds"

text \<open>
  \<open>iss >> val\<close> for a 32-bit integer: white space is skipped, a sign may follow, and the number ends at
  the first character that is not a digit.  A number out of range fails; the negative of an unsigned
  number wraps around.
\<close>

definition read_number :: "bool \<Rightarrow> string \<Rightarrow> int option" where
  "read_number is_signed s =
     (let r = dropWhile isspace s;
          neg = (r \<noteq> '''' \<and> hd r = CHR ''-'');
          ds = takeWhile isdigit (if r \<noteq> '''' \<and> hd r \<in> {CHR ''-'', CHR ''+''} then List.tl r else r);
          v = int (digits_value ds);
          x = (if neg then - v else v)
      in if ds = '''' then None
         else if is_signed then (if x < - (2 ^ 31) \<or> 2 ^ 31 \<le> x then None else Some x)
         else if 2 ^ 32 \<le> v then None else Some (x mod 2 ^ 32))"

definition parseStatusLine :: "bool \<Rightarrow> string \<Rightarrow> string \<Rightarrow> int option" where
  "parseStatusLine is_signed line entry =
     (if starts_with line entry then read_number is_signed (drop (length entry) line) else None)"

text \<open>The loop of \<open>StatusInfo::create\<close>; \<open>uid\<close> and \<open>ppid\<close> are what has been found.\<close>

fun status_scan :: "string list \<Rightarrow> int option \<Rightarrow> int option \<Rightarrow> (int \<times> int) option" where
  "status_scan [] uid ppid = None"
| "status_scan (line # rest) uid ppid =
     (let uid = (if uid = None then parseStatusLine False line ''Uid:'' else uid);
          ppid = (if ppid = None then parseStatusLine True line ''PPid:'' else ppid)
      in case (uid, ppid) of
           (Some u, Some p) \<Rightarrow> Some (p, u)
         | _ \<Rightarrow> status_scan rest uid ppid)"

text \<open>The parent and the user of a process.\<close>

definition StatusInfo_create :: "(int \<Rightarrow> string list) \<Rightarrow> int \<Rightarrow> (int \<times> int) option" where
  "StatusInfo_create status pid = status_scan (status pid) None None"

section \<open>The user of a process\<close>

record ReadUserInfoConfig =
  resolveRootUser :: bool
  fetchUsernames :: bool

record ProcessUserInfo =
  pu_ruid :: int
  pu_euid :: int
  pu_realUsername :: string
  pu_effectiveUsername :: string

definition uidToUsername :: "user_os \<Rightarrow> int \<Rightarrow> string result" where
  "uidToUsername U uid = (case getPasswdUid U (nat uid) of Inl e \<Rightarrow> Inl e | Inr pwd \<Rightarrow> Inr (pw_name pwd))"

definition getRealUsername :: "user_os \<Rightarrow> ProcessUserInfo \<Rightarrow> (string \<times> ProcessUserInfo) result" where
  "getRealUsername U i =
     (if pu_realUsername i = '''' then
        (case uidToUsername U (pu_ruid i) of Inl e \<Rightarrow> Inl e | Inr n \<Rightarrow> Inr (n, i\<lparr>pu_realUsername := n\<rparr>))
      else Inr (pu_realUsername i, i))"

definition getEffectiveUsername :: "user_os \<Rightarrow> ProcessUserInfo \<Rightarrow> (string \<times> ProcessUserInfo) result" where
  "getEffectiveUsername U i =
     (if pu_effectiveUsername i = '''' then
        (if pu_ruid i = pu_euid i then
           (case getRealUsername U i of
              Inl e \<Rightarrow> Inl e
            | Inr (n, i1) \<Rightarrow> Inr (n, i1\<lparr>pu_effectiveUsername := n\<rparr>))
         else case uidToUsername U (pu_euid i) of Inl e \<Rightarrow> Inl e | Inr n \<Rightarrow> Inr (n, i\<lparr>pu_effectiveUsername := n\<rparr>))
      else Inr (pu_effectiveUsername i, i))"

text \<open>The \<open>do\<close> loop: \<open>pid\<close> is the process whose status is read next.\<close>

partial_function (option) user_loop ::
  "(int \<Rightarrow> string list) \<Rightarrow> bool \<Rightarrow> int \<Rightarrow> ProcessUserInfo option \<Rightarrow> ProcessUserInfo option option" where
  "user_loop status resolve pid userInfo =
     (case StatusInfo_create status pid of
        None \<Rightarrow> Some userInfo
      | Some (ppid, uid) \<Rightarrow>
          let i = (case userInfo of
                     None \<Rightarrow> \<lparr>pu_ruid = uid, pu_euid = uid, pu_realUsername = '''', pu_effectiveUsername = ''''\<rparr>
                   | Some i \<Rightarrow> i);
              i = i\<lparr>pu_ruid := uid\<rparr>
          in if pid \<noteq> 1 \<and> uid = 0 \<and> resolve then user_loop status resolve ppid (Some i) else Some (Some i))"

definition readUserInfo ::
  "(int \<Rightarrow> string list) \<Rightarrow> user_os \<Rightarrow> int \<Rightarrow> ReadUserInfoConfig \<Rightarrow> ProcessUserInfo option result option" where
  "readUserInfo status U pid config =
     (case user_loop status (resolveRootUser config) pid None of
        None \<Rightarrow> None
      | Some None \<Rightarrow> Some (Inr None)
      | Some (Some i) \<Rightarrow>
          if fetchUsernames config then
            (case getRealUsername U i of
               Inl e \<Rightarrow> Some (Inl e)
             | Inr (n, i1) \<Rightarrow>
                 (case getEffectiveUsername U i1 of
                    Inl e \<Rightarrow> Some (Inl e)
                  | Inr (m, i2) \<Rightarrow> Some (Inr (Some i2))))
          else Some (Inr (Some i)))"

section \<open>Arguments on macOS\<close>

definition NUL :: char where
  "NUL = CHR 0x00"

text \<open>The first four bytes are a is_signed number, least significant byte first.\<close>

definition argc_of :: "string \<Rightarrow> int" where
  "argc_of procargs =
     (let b = (\<lambda>i. of_char (procargs ! i)) :: nat \<Rightarrow> int;
          n = b 0 + 256 * b 1 + 65536 * b 2 + 16777216 * b 3
      in if n < 2 ^ 31 then n else n - 2 ^ 32)"

fun take_args :: "nat \<Rightarrow> string \<Rightarrow> string" where
  "take_args argCount [] = []"
| "take_args argCount (c # rest) =
     (if c = NUL then (if argCount - 1 = 0 then [] else c # take_args (argCount - 1) rest)
      else c # take_args argCount rest)"

definition extractCommandLineFromProcArgs :: "string \<Rightarrow> string" where
  "extractCommandLineFromProcArgs procargs =
     (if length procargs < 4 then ''<err:EUNDERFLOW>''
      else let argCount = argc_of procargs
           in if argCount < 1 then ''<err:BOGUS_ARGC>''
              else let cmdline = dropWhile (\<lambda>c. c = NUL) (dropWhile (\<lambda>c. c \<noteq> NUL) (drop 4 procargs))
                   in take_args (nat argCount) cmdline)"

section \<open>Numbers\<close>

lemma decimal_nonempty [simp]: "decimal n \<noteq> ''''"
  by (subst decimal.simps) simp

lemma decimal_digits: "\<forall>c \<in> set (decimal n). isdigit c"
proof (induction n rule: decimal.induct)
  case (1 n)
  have "isdigit (char_of (48 + d))" if "d < 10" for d :: nat using that by (simp add: isdigit_def)
  then show ?case using 1 by (subst decimal.simps) auto
qed

lemma digits_value_decimal: "digits_value (decimal n) = n"
proof (induction n rule: decimal.induct)
  case (1 n)
  show ?case
  proof (cases "n < 10")
    case True
    then show ?thesis by (subst decimal.simps) (simp add: digits_value_def)
  next
    case False
    have m: "n mod 10 < 10" by simp
    then have "(of_char (char_of (48 + n mod 10) :: char) :: nat) = 48 + n mod 10" by simp
    then show ?thesis using 1 [OF False] False by (subst decimal.simps) (simp add: digits_value_def)
  qed
qed

lemma isdigit_no_space: "isdigit c \<Longrightarrow> \<not> isspace c" "isdigit c \<Longrightarrow> c \<noteq> CHR ''-''" "isdigit c \<Longrightarrow> c \<noteq> CHR ''+''"
  by (auto simp: isdigit_def isspace_def)

text \<open>A number is read back from its decimal form, whatever white space is around it.\<close>

lemma read_number_decimal:
  assumes "\<forall>c \<in> set ws. isspace c" "n < 2 ^ 31" "rest = '''' \<or> \<not> isdigit (hd rest)"
  shows "read_number is_signed (ws @ decimal n @ rest) = Some (int n)"
proof -
  obtain d ds where d: "decimal n = d # ds" using decimal_nonempty [of n] by (cases "decimal n") auto
  then have dd: "isdigit d" using decimal_digits [of n] by simp
  then have w: "dropWhile isspace (ws @ decimal n @ rest) = decimal n @ rest"
    using assms(1) d isdigit_no_space(1) by (simp add: dropWhile_append)
  have h: "hd (decimal n @ rest) \<noteq> CHR ''-''" "hd (decimal n @ rest) \<noteq> CHR ''+''" using d isdigit_no_space [OF dd] by auto
  have "takeWhile isdigit (decimal n @ rest) = decimal n"
    using assms(3) decimal_digits [of n] by (cases rest) (auto simp: takeWhile_append)
  then show ?thesis using assms(2) h decimal_nonempty [of n] by (simp add: read_number_def w Let_def digits_value_decimal)
qed

lemma decimal_length: "0 < k \<Longrightarrow> n < 10 ^ k \<Longrightarrow> length (decimal n) \<le> k"
proof (induction k arbitrary: n)
  case (Suc k)
  show ?case
  proof (cases "n < 10")
    case True
    then show ?thesis by (subst decimal.simps) simp
  next
    case False
    then have "n div 10 < 10 ^ k" using Suc.prems(2) by (simp add: less_mult_imp_div_less)
    moreover have "0 < k" using False Suc.prems(2) by (cases k) auto
    ultimately show ?thesis using Suc.IH [of "n div 10"] False by (subst decimal.simps) simp
  qed
qed simp

text \<open>
  The path of the command line of any process fits with its terminating null byte into the 25 bytes
  that \<open>getProcPidCmdLine\<close> has for it.
\<close>

theorem getProcPidCmdLine_fits:
  assumes "pid < 2 ^ 31"
  shows "length (getProcPidCmdLine pid) + 1 \<le> 6 + kMaxDecimalPidLength + 8 + 1"
proof -
  have "length (decimal pid) \<le> 10" using assms by (intro decimal_length) simp_all
  then show ?thesis by (simp add: getProcPidCmdLine_def kMaxDecimalPidLength_def)
qed

section \<open>Reading the status\<close>

lemma parse_other [simp]: "\<not> starts_with line entry \<Longrightarrow> parseStatusLine is_signed line entry = None"
  by (simp add: parseStatusLine_def)

lemma parse_own:
  assumes "\<forall>c \<in> set ws. isspace c" "n < 2 ^ 31" "rest = '''' \<or> \<not> isdigit (hd rest)"
  shows "parseStatusLine is_signed (entry @ ws @ decimal n @ rest) entry = Some (int n)"
  using read_number_decimal [OF assms] by (simp add: parseStatusLine_def starts_with_def)

lemma scan_skip:
  assumes "\<forall>l \<in> set ls. \<not> starts_with l ''Uid:'' \<and> \<not> starts_with l ''PPid:''" "u = None \<or> p = None"
  shows "status_scan (ls @ rest) u p = status_scan rest u p"
  using assms(1)
proof (induction ls)
  case (Cons l ls)
  then show ?case using assms(2) by (auto simp: Let_def split: option.splits)
qed simp

text \<open>A line of the status file: a label, white space, a number and what follows it.\<close>

definition status_line :: "string \<Rightarrow> string \<Rightarrow> nat \<Rightarrow> string \<Rightarrow> string" where
  "status_line label ws n rest = label @ ws @ decimal n @ rest"

lemma status_line_labels [simp]:
  "\<not> starts_with (status_line ''PPid:'' ws n rest) ''Uid:''"
  "\<not> starts_with (status_line ''Uid:'' ws n rest) ''PPid:''"
  by (simp_all add: status_line_def starts_with_def)

lemma create_lines:
  assumes "status pid = pre @ status_line ''PPid:'' ws1 ppid rest1 # mid @ status_line ''Uid:'' ws2 uid rest2 # post"
    and "\<forall>l \<in> set (pre @ mid). \<not> starts_with l ''Uid:'' \<and> \<not> starts_with l ''PPid:''"
    and "\<forall>c \<in> set (ws1 @ ws2). isspace c" "ppid < 2 ^ 31" "uid < 2 ^ 31"
    and "rest1 = '''' \<or> \<not> isdigit (hd rest1)" "rest2 = '''' \<or> \<not> isdigit (hd rest2)"
  shows "StatusInfo_create status pid = Some (int ppid, int uid)"
proof -
  have s: "\<forall>l \<in> set pre. \<not> starts_with l ''Uid:'' \<and> \<not> starts_with l ''PPid:''"
    "\<forall>l \<in> set mid. \<not> starts_with l ''Uid:'' \<and> \<not> starts_with l ''PPid:''"
    "\<forall>c \<in> set ws1. isspace c" "\<forall>c \<in> set ws2. isspace c" using assms(2,3) by auto
  have p: "parseStatusLine True (status_line ''PPid:'' ws1 ppid rest1) ''PPid:'' = Some (int ppid)"
    "parseStatusLine False (status_line ''Uid:'' ws2 uid rest2) ''Uid:'' = Some (int uid)"
    unfolding status_line_def using parse_own s(3,4) assms(4-7) by blast+
  show ?thesis unfolding StatusInfo_create_def assms(1) by (simp add: scan_skip [OF s(1)] scan_skip [OF s(2)] p)
qed

text \<open>
  The status file that the kernel writes is read back: the parent and the user that
  \<open>StatusInfo::create\<close> finds are those of the lines \<open>PPid:\<close> and \<open>Uid:\<close>, whatever other lines are before,
  between and after them.
\<close>

theorem StatusInfo_create_roundtrip:
  assumes "status pid = pre @ status_line ''PPid:'' ws1 ppid rest1 # mid @ status_line ''Uid:'' ws2 uid rest2 # post"
    and "\<forall>l \<in> set (pre @ mid). \<not> starts_with l ''Uid:'' \<and> \<not> starts_with l ''PPid:''"
    and "\<forall>c \<in> set (ws1 @ ws2). isspace c" "ppid < 2 ^ 31" "uid < 2 ^ 31"
    and "rest1 = '''' \<or> \<not> isdigit (hd rest1)" "rest2 = '''' \<or> \<not> isdigit (hd rest2)"
  shows "StatusInfo_create status pid = Some (int ppid, int uid)"
  using assms by (rule create_lines)

section \<open>Finding the real user\<close>

text \<open>Parents of processes are older, so that the way up ends.\<close>

definition parents_end :: "(int \<Rightarrow> string list) \<Rightarrow> (int \<Rightarrow> nat) \<Rightarrow> bool" where
  "parents_end status depth \<longleftrightarrow>
     (\<forall>pid ppid uid. pid \<noteq> 1 \<longrightarrow> StatusInfo_create status pid = Some (ppid, uid) \<longrightarrow> depth ppid < depth pid)"

text \<open>
  The way from a process to the one whose user counts: every process but the last is a root process
  whose parent is the next one, and the last one is not a root process, or it is the first process of
  the system, or its parent is unknown.
\<close>

definition root_ancestry :: "(int \<Rightarrow> string list) \<Rightarrow> int list \<Rightarrow> int \<Rightarrow> bool" where
  "root_ancestry status ps uid \<longleftrightarrow>
     ps \<noteq> [] \<and>
     (\<forall>i. i + 1 < length ps \<longrightarrow> ps ! i \<noteq> 1 \<and> StatusInfo_create status (ps ! i) = Some (ps ! (i + 1), 0)) \<and>
     (\<exists>ppid. StatusInfo_create status (last ps) = Some (ppid, uid) \<and>
        (uid \<noteq> 0 \<or> last ps = 1 \<or> StatusInfo_create status ppid = None))"

lemma root_ancestry_Cons:
  assumes "root_ancestry status ps uid" "pid \<noteq> 1" "StatusInfo_create status pid = Some (hd ps, 0)"
  shows "root_ancestry status (pid # ps) uid"
proof -
  have "ps \<noteq> []" using assms(1) by (simp add: root_ancestry_def)
  then have h: "ps ! 0 = hd ps" by (simp add: hd_conv_nth)
  show ?thesis
    using assms h unfolding root_ancestry_def by (auto simp: nth_Cons split: nat.splits)
qed

text \<open>What the loop has found once the first status has been read.\<close>

lemma user_loop_found:
  assumes "parents_end status depth" "StatusInfo_create status pid = Some (ppid, uid)"
  shows "\<exists>ps ruid. root_ancestry status ps ruid \<and> hd ps = pid \<and>
    user_loop status True pid userInfo =
      Some (Some ((case userInfo of
                     None \<Rightarrow> \<lparr>pu_ruid = uid, pu_euid = uid, pu_realUsername = '''', pu_effectiveUsername = ''''\<rparr>
                   | Some i \<Rightarrow> i)\<lparr>pu_ruid := ruid\<rparr>))"
  using assms(2)
proof (induction "depth pid" arbitrary: pid ppid uid userInfo rule: less_induct)
  case less
  let ?i = "case userInfo of
      None \<Rightarrow> \<lparr>pu_ruid = uid, pu_euid = uid, pu_realUsername = '''', pu_effectiveUsername = ''''\<rparr> | Some i \<Rightarrow> i"
  have run: "user_loop status True pid userInfo =
      (if pid \<noteq> 1 \<and> uid = 0 then user_loop status True ppid (Some (?i\<lparr>pu_ruid := uid\<rparr>)) else Some (Some (?i\<lparr>pu_ruid := uid\<rparr>)))"
    by (subst user_loop.simps) (simp add: less.prems Let_def)
  show ?case
  proof (cases "pid \<noteq> 1 \<and> uid = 0")
    case False
    then have "root_ancestry status [pid] uid" using less.prems by (auto simp: root_ancestry_def)
    then show ?thesis using run False by (intro exI [of _ "[pid]"] exI [of _ uid]) auto
  next
    case up: True
    show ?thesis
    proof (cases "StatusInfo_create status ppid")
      case None
      then have "root_ancestry status [pid] 0" using less.prems up by (auto simp: root_ancestry_def)
      moreover have "user_loop status True ppid (Some (?i\<lparr>pu_ruid := uid\<rparr>)) = Some (Some (?i\<lparr>pu_ruid := uid\<rparr>))"
        by (subst user_loop.simps) (simp add: None)
      ultimately show ?thesis using run up by (intro exI [of _ "[pid]"] exI [of _ 0]) auto
    next
      case (Some pu)
      obtain pp u where pu: "StatusInfo_create status ppid = Some (pp, u)" using Some by (cases pu) simp
      have "depth ppid < depth pid" using assms(1) less.prems up unfolding parents_end_def by blast
      from less.hyps [OF this pu, of "Some (?i\<lparr>pu_ruid := uid\<rparr>)"] obtain ps ruid where
        ps: "root_ancestry status ps ruid" "hd ps = ppid"
        and l: "user_loop status True ppid (Some (?i\<lparr>pu_ruid := uid\<rparr>)) = Some (Some (?i\<lparr>pu_ruid := ruid\<rparr>))"
        by auto
      have "root_ancestry status (pid # ps) ruid"
        using root_ancestry_Cons [OF ps(1)] up less.prems ps(2) by simp
      then show ?thesis using run up l by (intro exI [of _ "pid # ps"] exI [of _ ruid]) simp
    qed
  qed
qed

text \<open>The answer for the two users, with their names if they are asked for.\<close>

definition named_user :: "user_os \<Rightarrow> bool \<Rightarrow> int \<Rightarrow> int \<Rightarrow> ProcessUserInfo option result" where
  "named_user U names ruid euid =
     (if \<not> names then Inr (Some \<lparr>pu_ruid = ruid, pu_euid = euid, pu_realUsername = '''', pu_effectiveUsername = ''''\<rparr>)
      else case (uidToUsername U ruid, uidToUsername U euid) of
             (Inl e, _) \<Rightarrow> Inl e
           | (_, Inl e) \<Rightarrow> Inl e
           | (Inr r, Inr f) \<Rightarrow> Inr (Some \<lparr>pu_ruid = ruid, pu_euid = euid, pu_realUsername = r, pu_effectiveUsername = f\<rparr>))"

lemma readUserInfo_named:
  assumes "user_loop status (resolveRootUser config) pid None =
      Some (Some \<lparr>pu_ruid = ruid, pu_euid = euid, pu_realUsername = '''', pu_effectiveUsername = ''''\<rparr>)"
  shows "readUserInfo status U pid config = Some (named_user U (fetchUsernames config) ruid euid)"
  using assms
  by (auto simp: readUserInfo_def named_user_def getRealUsername_def getEffectiveUsername_def split: sum.splits)


section \<open>The command line on macOS\<close>

text \<open>The block that \<open>sysctl\<close> returns, with \<open>pad + 1\<close> null bytes after the path of the program.\<close>

definition proc_block :: "string \<Rightarrow> nat \<Rightarrow> string list \<Rightarrow> string list \<Rightarrow> string" where
  "proc_block imgpath pad args env =
     [char_of (length args), char_of (length args div 256), char_of (length args div 65536), char_of (length args div 16777216)] @
     imgpath @ replicate (pad + 1) NUL @
     concat (map (\<lambda>a. a @ [NUL]) (args @ env))"

text \<open>The arguments with null bytes between them.\<close>

fun join_nul :: "string list \<Rightarrow> string" where
  "join_nul [] = ''''"
| "join_nul [a] = a"
| "join_nul (a # as) = a @ NUL # join_nul as"

lemma take_args_join:
  assumes "\<forall>a \<in> set as. NUL \<notin> set a" "as \<noteq> []"
  shows "take_args (length as) (concat (map (\<lambda>a. a @ [NUL]) as) @ rest) = join_nul as"
proof -
  have go: "take_args n (a @ r) = a @ take_args n r" if "NUL \<notin> set a" for n a r using that by (induction a) auto
  from assms show ?thesis
  proof (induction as rule: join_nul.induct)
    case (2 a)
    then show ?case by (simp add: go)
  next
    case (3 a b as)
    then show ?case by (simp add: go)
  qed simp
qed

lemma argc_of_block:
  assumes "length args < 2 ^ 31"
  shows "argc_of (proc_block imgpath pad args env) = int (length args)"
proof -
  let ?n = "length args"
  have e: "?n div 65536 = ?n div 256 div 256" "?n div 16777216 = ?n div 256 div 256 div 256"
    by (simp_all add: div_mult2_eq [symmetric])
  have "?n = ?n mod 256 + 256 * (?n div 256)"
    "?n div 256 = ?n div 256 mod 256 + 256 * (?n div 256 div 256)"
    "?n div 256 div 256 = ?n div 256 div 256 mod 256 + 256 * (?n div 256 div 256 div 256)"
    by (simp_all only: mod_mult_div_eq)
  then have s: "?n = ?n mod 256 + 256 * (?n div 256 mod 256) + 65536 * (?n div 65536 mod 256) + 16777216 * (?n div 16777216)"
    unfolding e by linarith
  have "?n div 16777216 < 256" using assms by (simp add: less_mult_imp_div_less)
  then have b: "?n div 16777216 mod 256 = ?n div 16777216" by simp
  have k: "of_char (char_of k :: char) = int (k mod 256)" for k :: nat
    by (metis of_char_of of_nat_of_char)
  have "int (?n mod 256) + 256 * int (?n div 256 mod 256) + 65536 * int (?n div 65536 mod 256) + 16777216 * int (?n div 16777216 mod 256) = int ?n"
    unfolding b using s by linarith
  then have "(let b = \<lambda>i. of_char (proc_block imgpath pad args env ! i)
      in b 0 + 256 * b 1 + 65536 * b 2 + 16777216 * b 3) = int ?n"
    by (simp add: proc_block_def k b del: of_nat_mod zmod_int)
  then show ?thesis using assms by (simp add: argc_of_def Let_def)
qed

lemma skip_image:
  assumes "NUL \<notin> set imgpath" "rest = '''' \<or> hd rest \<noteq> NUL"
  shows "dropWhile (\<lambda>c. c = NUL) (dropWhile (\<lambda>c. c \<noteq> NUL) (imgpath @ replicate (k + 1) NUL @ rest)) = rest"
proof -
  have "dropWhile (\<lambda>c. c \<noteq> NUL) (imgpath @ replicate (k + 1) NUL @ rest) = replicate (k + 1) NUL @ rest"
    using assms(1) by (auto simp: dropWhile_append)
  moreover have "dropWhile (\<lambda>c. c = NUL) (replicate (k + 1) NUL @ rest) = rest"
    using assms(2) by (cases rest) (auto simp: dropWhile_append)
  ultimately show ?thesis by simp
qed

lemma extract_block:
  assumes "NUL \<notin> set imgpath" "length args < 2 ^ 31" "args \<noteq> []"
    "concat (map (\<lambda>a. a @ [NUL]) (args @ env)) = replicate k NUL @ rest" "rest = '''' \<or> hd rest \<noteq> NUL"
  shows "extractCommandLineFromProcArgs (proc_block imgpath pad args env) = take_args (length args) rest"
proof -
  have l: "\<not> length (proc_block imgpath pad args env) < 4" by (simp add: proc_block_def)
  have "drop 4 (proc_block imgpath pad args env) = imgpath @ replicate (pad + k + 1) NUL @ rest"
    using assms(4) by (simp add: proc_block_def replicate_add)
  then show ?thesis
    using l assms(3) skip_image [OF assms(1,5), of "pad + k"] argc_of_block [OF assms(2), of imgpath pad env]
    by (simp add: extractCommandLineFromProcArgs_def Let_def)
qed

text \<open>
  From the block that the kernel returns for a process with a name, exactly the arguments are cut
  out, separated by null bytes; nothing of the program's path and of the environment is in the result.
\<close>

theorem extractCommandLine_correct:
  assumes "NUL \<notin> set imgpath" "\<forall>a \<in> set args. NUL \<notin> set a" "args \<noteq> []" "hd args \<noteq> ''''" "length args < 2 ^ 31"
  shows "extractCommandLineFromProcArgs (proc_block imgpath pad args env) = join_nul args"
proof -
  obtain c a as where args: "args = (c # a) # as" using assms(3,4) by (cases args; cases "hd args") auto
  let ?rest = "concat (map (\<lambda>a. a @ [NUL]) (args @ env))"
  have "hd ?rest \<noteq> NUL" using assms(2) args by auto
  then have "extractCommandLineFromProcArgs (proc_block imgpath pad args env) = take_args (length args) ?rest"
    by (intro extract_block [OF assms(1,5,3), where k = 0]) simp_all
  then show ?thesis using take_args_join [OF assms(2,3), of "concat (map (\<lambda>a. a @ [NUL]) env)"] by simp
qed

text \<open>
  A process whose first argument is empty: its null byte is taken for padding, and the first variable
  of the environment is returned as the last argument.
\<close>

theorem extractCommandLine_empty_name:
  assumes "NUL \<notin> set imgpath" "\<forall>a \<in> set (as @ [var]). NUL \<notin> set a" "hd (as @ [var]) \<noteq> ''''" "length as + 1 < 2 ^ 31"
  shows "extractCommandLineFromProcArgs (proc_block imgpath pad ('''' # as) (var # env)) = join_nul (as @ [var])"
proof -
  let ?rest = "concat (map (\<lambda>a. a @ [NUL]) ((as @ [var]) @ env))"
  obtain c b bs where b: "as @ [var] = (c # b) # bs" using assms(3) by (cases "as @ [var]"; cases "hd (as @ [var])") auto
  have "hd ?rest \<noteq> NUL" using assms(2) b by auto
  then have "extractCommandLineFromProcArgs (proc_block imgpath pad ('''' # as) (var # env)) = take_args (length ('''' # as)) ?rest"
    using assms(4) by (intro extract_block [OF assms(1), where k = 1]) simp_all
  then show ?thesis using take_args_join [OF assms(2), of "concat (map (\<lambda>a. a @ [NUL]) env)"] by simp
qed

section \<open>A process tree for the witnesses\<close>

text \<open>Process 7 runs as root; its parent is a shell of user 1000, started by the first process.\<close>

definition tab :: string where
  "tab = [CHR 0x09]"

definition sample_status :: "int \<Rightarrow> string list" where
  "sample_status pid =
     (if pid = 7 then [''Name: edenfs'', status_line ''PPid:'' tab 5 '''', status_line ''Uid:'' tab 0 tab, ''Threads: 4'']
      else if pid = 5 then [''Name: sh'', status_line ''PPid:'' tab 1 '''', status_line ''Uid:'' tab 1000 tab] else [])"

lemma tab_facts: "\<forall>c \<in> set (tab @ tab). isspace c" "\<not> isdigit (hd tab)"
  by (simp_all add: tab_def isspace_def isdigit_def)

lemma sample_created:
  "StatusInfo_create sample_status 7 = Some (5, 0)" "StatusInfo_create sample_status 5 = Some (1, 1000)"
  "pid \<noteq> 7 \<Longrightarrow> pid \<noteq> 5 \<Longrightarrow> StatusInfo_create sample_status pid = None"
proof -
  have "sample_status 7 = [''Name: edenfs''] @ status_line ''PPid:'' tab 5 '''' # [] @ status_line ''Uid:'' tab 0 tab # [''Threads: 4'']"
    by (simp add: sample_status_def)
  from create_lines [where status = sample_status and pid = 7, OF this _ tab_facts(1)] show "StatusInfo_create sample_status 7 = Some (5, 0)"
    by (simp add: starts_with_def tab_facts)
  have "sample_status 5 = [''Name: sh''] @ status_line ''PPid:'' tab 1 '''' # [] @ status_line ''Uid:'' tab 1000 tab # []"
    by (simp add: sample_status_def)
  from create_lines [where status = sample_status and pid = 5, OF this _ tab_facts(1)] show "StatusInfo_create sample_status 5 = Some (1, 1000)"
    by (simp add: starts_with_def tab_facts)
qed (simp add: StatusInfo_create_def sample_status_def)

theorem StatusInfo_create_roundtrip_witness: "StatusInfo_create sample_status 7 = Some (5, 0)"
proof -
  have "sample_status 7 = [''Name: edenfs''] @ status_line ''PPid:'' tab 5 '''' # [] @ status_line ''Uid:'' tab 0 tab # [''Threads: 4'']"
    by (simp add: sample_status_def)
  from StatusInfo_create_roundtrip [where status = sample_status and pid = 7, OF this _ tab_facts(1)] show ?thesis by (simp add: starts_with_def tab_facts)
qed

lemma sample_parents: "parents_end sample_status nat"
  unfolding parents_end_def
proof (intro allI impI)
  fix pid ppid uid
  assume "StatusInfo_create sample_status pid = Some (ppid, uid)"
  then show "nat ppid < nat pid" using sample_created by (cases "pid = 7"; cases "pid = 5") auto
qed


theorem getProcPidCmdLine_fits_witness: "length (getProcPidCmdLine 2147483647) \<le> 24"
  using getProcPidCmdLine_fits [of 2147483647] by (simp add: kMaxDecimalPidLength_def)

theorem extractCommandLine_correct_witness:
  "extractCommandLineFromProcArgs (proc_block ''/bin/ls'' 3 [''ls'', ''-l''] [''HOME=/'']) = ''ls'' @ NUL # ''-l''"
  using extractCommandLine_correct [of "''/bin/ls''" "[''ls'', ''-l'']" 3 "[''HOME=/'']"] by (simp add: NUL_def)

end
