(* ===== verification/Tracing.thy ===== *)
theory Tracing
  imports Id_Gen "HOL-Library.Multiset"
begin

text \<open>
  The tracepoints of \<open>telemetry/Tracing.h\<close> and \<open>Tracing.cpp\<close>.  Every thread records its points in a
  ring of \<open>kBufferPoints\<close> entries (\<open>ThreadLocalTracePoints\<close>); \<open>flush\<close> moves them to the \<open>Tracer\<close>, when
  the thread ends or when \<open>getAllTracepoints\<close> collects the points of all threads in the order of their
  time.  A \<open>TraceBlock\<close> records a point when it starts and one when it stops, with the block around it
  as its parent, which it finds in the data of the request (\<open>TraceRequestData\<close>).

  Threads are numbers, and the time a point gets is an argument.  \<open>std::sort\<close> is a parameter, since it
  leaves the order of points of the same time open.
\<close>

section \<open>Points and rings\<close>

record CompactTracePoint =
  cp_timestamp :: nat
  cp_traceId :: nat
  cp_blockId :: nat
  cp_parentBlockId :: nat
  cp_name :: "string option"
  cp_start :: bool
  cp_stop :: bool

record tracer =
  tr_enabled :: bool
  tr_currNum :: "nat \<Rightarrow> nat"
  tr_tracePoints :: "nat \<Rightarrow> nat \<Rightarrow> CompactTracePoint"
  tr_flushed :: "CompactTracePoint list"

definition kBufferPoints :: nat where
  "kBufferPoints = 16 * 1024"

definition trace_point :: "nat \<Rightarrow> CompactTracePoint \<Rightarrow> tracer \<Rightarrow> tracer" where
  "trace_point t tp s =
     s\<lparr>tr_tracePoints := (tr_tracePoints s)(t := (tr_tracePoints s t)(tr_currNum s t mod kBufferPoints := tp)),
       tr_currNum := (tr_currNum s)(t := u64 (tr_currNum s t + 1))\<rparr>"

definition flush_thread :: "nat \<Rightarrow> tracer \<Rightarrow> tracer" where
  "flush_thread t s =
     (let npoints = min kBufferPoints (tr_currNum s t)
      in s\<lparr>tr_flushed := tr_flushed s @ map (tr_tracePoints s t) [0 ..< npoints],
           tr_currNum := (tr_currNum s)(t := 0)\<rparr>)"

definition collect_points :: "(CompactTracePoint list \<Rightarrow> CompactTracePoint list) \<Rightarrow> tracer \<Rightarrow> CompactTracePoint list \<times> tracer" where
  "collect_points std_sort s = (std_sort (tr_flushed s), s\<lparr>tr_flushed := []\<rparr>)"

definition getAllTracepoints ::
  "(CompactTracePoint list \<Rightarrow> CompactTracePoint list) \<Rightarrow> nat list \<Rightarrow> tracer \<Rightarrow> CompactTracePoint list \<times> tracer" where
  "getAllTracepoints std_sort threads s = collect_points std_sort (fold flush_thread threads s)"

definition enableTracing :: "tracer \<Rightarrow> tracer" where
  "enableTracing s = s\<lparr>tr_enabled := True\<rparr>"

definition disableTracing :: "tracer \<Rightarrow> tracer" where
  "disableTracing s = s\<lparr>tr_enabled := False\<rparr>"

section \<open>Blocks\<close>

record TraceRequestData =
  rq_traceId :: nat
  rq_blockId :: nat

record TraceBlock =
  tb_blockId :: nat
  tb_parentBlockId :: nat

text \<open>What a thread sees: the tracer, the generator of ids and the data of the request it works for.\<close>

record trace_world =
  tw_tracer :: tracer
  tw_ids :: idgen
  tw_req :: TraceRequestData

definition TraceBlock_new :: "nat \<Rightarrow> nat \<Rightarrow> string \<Rightarrow> trace_world \<Rightarrow> TraceBlock \<times> trace_world" where
  "TraceBlock_new t now name w =
     (if tr_enabled (tw_tracer w) then
        let (blockId, ids) = generateUniqueID t (tw_ids w);
            reqData = tw_req w;
            (traceId, ids) = (if rq_traceId reqData = 0 then generateUniqueID t ids else (rq_traceId reqData, ids));
            parentBlockId = rq_blockId reqData;
            tp = \<lparr>cp_timestamp = now, cp_traceId = traceId, cp_blockId = blockId, cp_parentBlockId = parentBlockId,
                  cp_name = Some name, cp_start = True, cp_stop = False\<rparr>
        in (\<lparr>tb_blockId = blockId, tb_parentBlockId = parentBlockId\<rparr>,
            w\<lparr>tw_ids := ids, tw_tracer := trace_point t tp (tw_tracer w), tw_req := \<lparr>rq_traceId = traceId, rq_blockId = blockId\<rparr>\<rparr>)
      else (\<lparr>tb_blockId = 0, tb_parentBlockId = 0\<rparr>, w))"

definition TraceBlock_close :: "nat \<Rightarrow> nat \<Rightarrow> TraceBlock \<Rightarrow> trace_world \<Rightarrow> TraceBlock \<times> trace_world" where
  "TraceBlock_close t now b w =
     (if tb_blockId b \<noteq> 0 then
        let reqData = tw_req w;
            tp = \<lparr>cp_timestamp = now, cp_traceId = rq_traceId reqData, cp_blockId = tb_blockId b,
                  cp_parentBlockId = tb_parentBlockId b, cp_name = None, cp_start = False, cp_stop = True\<rparr>
        in (b\<lparr>tb_blockId := 0\<rparr>,
            w\<lparr>tw_tracer := trace_point t tp (tw_tracer w), tw_req := reqData\<lparr>rq_blockId := tb_parentBlockId b\<rparr>\<rparr>)
      else (b, w))"

definition TraceBlock_move :: "TraceBlock \<Rightarrow> TraceBlock \<times> TraceBlock" where
  "TraceBlock_move other = (other, other\<lparr>tb_blockId := 0\<rparr>)"

definition TraceBlock_assign :: "nat \<Rightarrow> nat \<Rightarrow> TraceBlock \<Rightarrow> TraceBlock \<Rightarrow> trace_world \<Rightarrow> TraceBlock \<times> TraceBlock \<times> trace_world" where
  "TraceBlock_assign t now this other w =
     (let (this, w) = TraceBlock_close t now this w;
          (this, other) = TraceBlock_move other
      in (this, other, w))"

section \<open>What a ring ring_holds\<close>

text \<open>\<open>ring_holds s t h\<close>: the thread has recorded the points \<open>h\<close> since it was flushed.\<close>

definition ring_holds :: "tracer \<Rightarrow> nat \<Rightarrow> CompactTracePoint list \<Rightarrow> bool" where
  "ring_holds s t h \<longleftrightarrow>
     tr_currNum s t = length h \<and>
     (\<forall>j < length h. length h \<le> j + kBufferPoints \<longrightarrow> tr_tracePoints s t (j mod kBufferPoints) = h ! j)"

definition newest :: "CompactTracePoint list \<Rightarrow> CompactTracePoint list" where
  "newest h = drop (length h - kBufferPoints) h"

lemma kBufferPoints_pos [simp]: "0 < kBufferPoints"
  by (simp add: kBufferPoints_def)

lemma mod_window:
  fixes i j k n :: nat
  assumes "i mod k = j mod k" "i < n" "j < n" "n \<le> i + k" "n \<le> j + k"
  shows "i = j"
proof -
  have le: "a = b" if "a \<le> b" "a mod k = b mod k" "b < n" "n \<le> a + k" for a b
  proof (rule ccontr)
    assume "a \<noteq> b"
    then have "0 < b - a" "b - a < k" using that by linarith+
    moreover have "k dvd b - a" using that(1,2) by (metis mod_eq_dvd_iff_nat)
    ultimately show False by (simp add: nat_dvd_not_less)
  qed
  show ?thesis using le [of i j] le [of j i] assms by linarith
qed

lemma ring_holds_flush:
  assumes "ring_holds s t h"
  shows "mset (map (tr_tracePoints s t) [0 ..< min kBufferPoints (tr_currNum s t)]) = mset (newest h)"
proof (cases "length h \<le> kBufferPoints")
  case True
  then have "map (tr_tracePoints s t) [0 ..< length h] = h"
    using assms by (intro nth_equalityI) (auto simp: ring_holds_def)
  moreover have "min kBufferPoints (tr_currNum s t) = length h" using True assms by (simp add: ring_holds_def)
  ultimately show ?thesis using True by (simp only: newest_def) simp
next
  case False
  let ?n = "length h" and ?k = kBufferPoints and ?r = "tr_tracePoints s t"
  let ?W = "{?n - ?k ..< ?n}"
  have inj: "inj_on (\<lambda>j. j mod ?k) ?W" 
  proof (rule inj_onI)
    fix i j
    assume "i \<in> ?W" "j \<in> ?W" "i mod ?k = j mod ?k"
    then show "i = j" using mod_window [of i ?k j ?n] by auto
  qed
  have "(\<lambda>j. j mod ?k) ` ?W \<subseteq> {0 ..< ?k}" "card ((\<lambda>j. j mod ?k) ` ?W) = card {0 ..< ?k}"
    using False by (auto simp: card_image [OF inj])
  then have im: "(\<lambda>j. j mod ?k) ` ?W = {0 ..< ?k}" by (intro card_subset_eq) simp_all
  have "mset (map ?r [0 ..< ?k]) = image_mset ?r (mset_set ((\<lambda>j. j mod ?k) ` ?W))" by (simp add: im)
  also have "\<dots> = image_mset (\<lambda>j. ?r (j mod ?k)) (mset_set ?W)"
    by (simp add: image_mset_mset_set [OF inj, symmetric] multiset.map_comp comp_def)
  also have "\<dots> = image_mset ((!) h) (mset_set ?W)"
    using assms by (intro image_mset_cong) (auto simp: ring_holds_def)
  also have "\<dots> = mset (map ((!) h) [?n - ?k ..< ?n])" by simp
  also have "map ((!) h) [?n - ?k ..< ?n] = newest h" by (intro nth_equalityI) (auto simp: newest_def)
  finally show ?thesis using False assms by (simp add: ring_holds_def min_def)
qed

lemma ring_holds_trace:
  assumes "ring_holds s t h" "length h + 1 < 2 ^ 64"
  shows "ring_holds (trace_point t tp s) t (h @ [tp])"
proof -
  have n: "tr_currNum s t = length h" using assms(1) by (simp add: ring_holds_def)
  have "tr_tracePoints (trace_point t tp s) t (j mod kBufferPoints) = (h @ [tp]) ! j"
    if j: "j < length h + 1" "length h + 1 \<le> j + kBufferPoints" for j
  proof (cases "j = length h")
    case True
    then show ?thesis by (simp add: trace_point_def n)
  next
    case False
    then have "j < length h" using j(1) by simp
    moreover from this have "j mod kBufferPoints \<noteq> length h mod kBufferPoints"
      using mod_window [of j kBufferPoints "length h" "length h + 1"] j by auto
    ultimately show ?thesis using assms(1) j by (simp add: trace_point_def n ring_holds_def nth_append)
  qed
  then show ?thesis using assms(2) by (simp add: ring_holds_def trace_point_def n u64_def)
qed

lemma ring_holds_other: "u \<noteq> t \<Longrightarrow> ring_holds (trace_point t tp s) u h = ring_holds s u h"
  by (simp add: ring_holds_def trace_point_def)

lemma ring_holds_flushed: "ring_holds (flush_thread t s) u h = (if u = t then h = [] else ring_holds s u h)"
  by (auto simp: ring_holds_def flush_thread_def Let_def)

lemma flushed_points:
  assumes "ring_holds s t h"
  shows "mset (tr_flushed (flush_thread t s)) = mset (tr_flushed s) + mset (newest h)"
  using ring_holds_flush [OF assms] by (simp add: flush_thread_def Let_def)

section \<open>Collecting the points\<close>

text \<open>What the standard says about \<open>std::sort\<close>.\<close>

definition sorts :: "(CompactTracePoint list \<Rightarrow> CompactTracePoint list) \<Rightarrow> bool" where
  "sorts std_sort \<longleftrightarrow> (\<forall>ps. mset (std_sort ps) = mset ps \<and> sorted (map cp_timestamp (std_sort ps)))"

text \<open>
  Threads record and are flushed, and points are collected, in any order.  \<open>recorded t\<close> are the points
  of a thread since it was last flushed, \<open>kept\<close> the points that were in a ring when it was flushed and
  \<open>returned\<close> the answers of \<open>getAllTracepoints\<close>.
\<close>

record trace_run =
  run_tracer :: tracer
  recorded :: "nat \<Rightarrow> CompactTracePoint list"
  kept :: "CompactTracePoint multiset"
  returned :: "CompactTracePoint list list"

inductive tracing_step :: "(CompactTracePoint list \<Rightarrow> CompactTracePoint list) \<Rightarrow> trace_run \<Rightarrow> trace_run \<Rightarrow> bool"
  for std_sort where
  record_point: "length (recorded r t) + 1 < 2 ^ 64 \<Longrightarrow>
    tracing_step std_sort r
      (r\<lparr>run_tracer := trace_point t tp (run_tracer r), recorded := (recorded r)(t := recorded r t @ [tp])\<rparr>)"
| flush_points: "tracing_step std_sort r
      (r\<lparr>run_tracer := flush_thread t (run_tracer r), recorded := (recorded r)(t := []), kept := kept r + mset (newest (recorded r t))\<rparr>)"
| return_points: "collect_points std_sort (run_tracer r) = (ps, s) \<Longrightarrow>
    tracing_step std_sort r (r\<lparr>run_tracer := s, returned := returned r @ [ps]\<rparr>)"

definition trace_init :: tracer where
  "trace_init =
     \<lparr>tr_enabled = False, tr_currNum = (\<lambda>t. 0), tr_tracePoints = (\<lambda>t i. \<lparr>cp_timestamp = 0, cp_traceId = 0, cp_blockId = 0,
        cp_parentBlockId = 0, cp_name = None, cp_start = False, cp_stop = False\<rparr>), tr_flushed = []\<rparr>"

definition run_init :: trace_run where
  "run_init = \<lparr>run_tracer = trace_init, recorded = (\<lambda>t. []), kept = {#}, returned = []\<rparr>"

definition run_ok :: "trace_run \<Rightarrow> bool" where
  "run_ok r \<longleftrightarrow>
     (\<forall>t. ring_holds (run_tracer r) t (recorded r t)) \<and>
     mset (concat (returned r)) + mset (tr_flushed (run_tracer r)) = kept r \<and>
     (\<forall>ps \<in> set (returned r). sorted (map cp_timestamp ps))"

lemma run_ok_step:
  assumes "tracing_step std_sort r r'" "sorts std_sort" "run_ok r"
  shows "run_ok r'"
  using assms(1)
proof cases
  case (record_point t tp)
  have "ring_holds (run_tracer r') u (recorded r' u)" for u
    using assms(3) record_point ring_holds_trace [of "run_tracer r" t "recorded r t"]
    by (cases "u = t") (auto simp: run_ok_def ring_holds_other)
  then show ?thesis using assms(3) record_point by (simp add: run_ok_def trace_point_def)
next
  case (flush_points t)
  have "ring_holds (run_tracer r) t (recorded r t)" using assms(3) by (simp add: run_ok_def)
  from flushed_points [OF this] show ?thesis
    using assms(3) flush_points unfolding run_ok_def by (simp add: ring_holds_flushed add.assoc [symmetric])
next
  case (return_points ps s)
  then have "ps = std_sort (tr_flushed (run_tracer r))" "s = (run_tracer r)\<lparr>tr_flushed := []\<rparr>"
    by (auto simp: collect_points_def)
  then show ?thesis using assms(2,3) return_points by (auto simp: run_ok_def sorts_def ring_holds_def)
qed

lemma run_ok_reachable:
  assumes "sorts std_sort" "(tracing_step std_sort)\<^sup>*\<^sup>* run_init r"
  shows "run_ok r"
  using assms(2)
proof (induction rule: rtranclp_induct)
  case base
  show ?case by (simp add: run_ok_def run_init_def trace_init_def ring_holds_def)
next
  case (step r r')
  then show ?case using run_ok_step assms(1) by blast
qed

lemma flush_all:
  assumes "distinct ts" "\<forall>t. ring_holds s t (h t)"
  shows "mset (tr_flushed (fold flush_thread ts s)) = mset (tr_flushed s) + (\<Sum>t \<leftarrow> ts. mset (newest (h t)))"
  using assms
proof (induction ts arbitrary: s h)
  case (Cons t ts)
  have "\<forall>u. ring_holds (flush_thread t s) u ((h(t := [])) u)" using Cons.prems(2) by (simp add: ring_holds_flushed)
  from Cons.IH [OF _ this] have "mset (tr_flushed (fold flush_thread ts (flush_thread t s))) =
      mset (tr_flushed (flush_thread t s)) + (\<Sum>u \<leftarrow> ts. mset (newest ((h(t := [])) u)))"
    using Cons.prems(1) by simp
  also have "map (\<lambda>u. mset (newest ((h(t := [])) u))) ts = map (\<lambda>u. mset (newest (h u))) ts"
    using Cons.prems(1) by auto
  finally show ?case using Cons.prems(2) flushed_points [of s t "h t"] by (simp add: add.assoc)
qed simp

text \<open>
  C19: No tracepoint is invented, repeated or lost unnoticed.  Whatever the threads do at the same time,
  the points that have been returned, with those that have been flushed and not yet returned, are
  exactly the ones that were in the ring of their thread when it was flushed: its newest 16384 points.
  Every answer is in the order of time.  An answer that is collected while no thread records consists
  of what had been flushed before and the newest points of all threads.
\<close>

theorem tracing_conserves_points:
  assumes "sorts std_sort" "(tracing_step std_sort)\<^sup>*\<^sup>* run_init r"
  shows "mset (concat (returned r)) + mset (tr_flushed (run_tracer r)) = kept r \<and>
    (\<forall>ps \<in> set (returned r). sorted (map cp_timestamp ps)) \<and>
    (\<forall>ts ps s. distinct ts \<longrightarrow> getAllTracepoints std_sort ts (run_tracer r) = (ps, s) \<longrightarrow>
       sorted (map cp_timestamp ps) \<and> tr_flushed s = [] \<and>
       mset ps = mset (tr_flushed (run_tracer r)) + (\<Sum>t \<leftarrow> ts. mset (newest (recorded r t))))"
proof -
  have ok: "run_ok r" using assms by (rule run_ok_reachable)
  then have "\<forall>t. ring_holds (run_tracer r) t (recorded r t)" by (simp add: run_ok_def)
  from flush_all [OF _ this] show ?thesis
    using ok assms(1) by (auto simp: run_ok_def getAllTracepoints_def collect_points_def sorts_def)
qed

section \<open>Nested blocks\<close>

text \<open>
  The blocks of a request as its code nests them.  \<open>run_tree\<close> runs a block on thread \<open>t\<close>; \<open>clock n\<close> is
  the time of the \<open>n\<close>-th point.
\<close>

datatype trace_tree = Node string "trace_tree list"

fun run_tree :: "(nat \<Rightarrow> nat) \<Rightarrow> nat \<Rightarrow> trace_tree \<Rightarrow> nat \<times> trace_world \<Rightarrow> nat \<times> trace_world"
  and run_forest :: "(nat \<Rightarrow> nat) \<Rightarrow> nat \<Rightarrow> trace_tree list \<Rightarrow> nat \<times> trace_world \<Rightarrow> nat \<times> trace_world" where
  "run_tree clock t (Node name children) (n, w) =
     (let (b, w) = TraceBlock_new t (clock n) name w;
          (n, w) = run_forest clock t children (n + 1, w);
          (b, w) = TraceBlock_close t (clock n) b w
      in (n + 1, w))"
| "run_forest clock t [] nw = nw"
| "run_forest clock t (c # cs) nw = run_forest clock t cs (run_tree clock t c nw)"

text \<open>
  The forest that a sequence of points describes.  The stack ring_holds the blocks that are open, with
  their ids, names and finished children; a point has to belong to the block on top.
\<close>

fun rebuild :: "(nat \<times> string \<times> trace_tree list) list \<Rightarrow> CompactTracePoint list \<Rightarrow> trace_tree list option" where
  "rebuild [(i, n, cs)] [] = Some cs"
| "rebuild ((i, n, cs) # stack) (p # ps) =
     (if cp_start p then
        (case cp_name p of
           None \<Rightarrow> None
         | Some name \<Rightarrow> if cp_parentBlockId p = i then rebuild ((cp_blockId p, name, []) # (i, n, cs) # stack) ps else None)
      else (case stack of
              [] \<Rightarrow> None
            | (i', n', cs') # rest \<Rightarrow>
                if cp_stop p \<and> cp_blockId p = i \<and> cp_parentBlockId p = i' then rebuild ((i', n', cs' @ [Node n cs]) # rest) ps else None))"
| "rebuild stack ps = None"

fun tree_size :: "trace_tree \<Rightarrow> nat" where
  "tree_size (Node name children) = 1 + (\<Sum>c \<leftarrow> children. tree_size c)"

text \<open>What recording leaves behind: \<open>h\<close> is what the thread has recorded, the request is in block \<open>b\<close>, and \<open>n\<close> ids may be drawn.\<close>

definition at_block :: "nat \<Rightarrow> nat set \<Rightarrow> nat \<Rightarrow> CompactTracePoint list \<Rightarrow> nat \<Rightarrow> trace_world \<Rightarrow> bool" where
  "at_block t used b h n w \<longleftrightarrow>
     tr_enabled (tw_tracer w) \<and> tr_flushed (tw_tracer w) = [] \<and> ring_holds (tw_tracer w) t h \<and> rq_blockId (tw_req w) = b \<and>
     idgen_inv used (tw_ids w) \<and> global_counter (tw_ids w) + 2 * n * kRangeSize < 2 ^ 64 \<and> length h + 2 * n < 2 ^ 64"

lemma TraceBlock_new_at:
  assumes at: "at_block t used b h (Suc k) w" and new: "TraceBlock_new t now name w = (blk, w1)"
  shows "\<exists>used'. at_block t used' (tb_blockId blk)
      (h @ [\<lparr>cp_timestamp = now, cp_traceId = rq_traceId (tw_req w1), cp_blockId = tb_blockId blk, cp_parentBlockId = b,
             cp_name = Some name, cp_start = True, cp_stop = False\<rparr>]) k w1"
    "tb_blockId blk \<noteq> 0" "tb_parentBlockId blk = b" "rq_traceId (tw_req w1) \<noteq> 0"
    "rq_traceId (tw_req w) \<noteq> 0 \<Longrightarrow> rq_traceId (tw_req w1) = rq_traceId (tw_req w)"
proof -
  have en: "tr_enabled (tw_tracer w)" "tr_flushed (tw_tracer w) = []" and ho: "ring_holds (tw_tracer w) t h" and bb: "rq_blockId (tw_req w) = b"
    and inv: "idgen_inv used (tw_ids w)" and room: "length h + 1 < 2 ^ 64" "length h + 1 + 2 * k < 2 ^ 64"
    and g: "global_counter (tw_ids w) + kRangeSize + kRangeSize + 2 * k * kRangeSize < 2 ^ 64"
    using at by (auto simp: at_block_def algebra_simps)
  obtain i ids where i: "generateUniqueID t (tw_ids w) = (i, ids)" by fastforce
  note g1 = generate_next [OF inv _ i]
  have i1: "i > 0" "idgen_inv (insert i used) ids" "global_counter ids \<le> global_counter (tw_ids w) + kRangeSize" using g1 g by auto
  obtain j ids' where j: "(if rq_traceId (tw_req w) = 0 then generateUniqueID t ids else (rq_traceId (tw_req w), ids)) = (j, ids')"
    by fastforce
  have "\<exists>used'. j > 0 \<and> idgen_inv used' ids' \<and> global_counter ids' \<le> global_counter ids + kRangeSize \<and> (rq_traceId (tw_req w) \<noteq> 0 \<longrightarrow> j = rq_traceId (tw_req w))"
  proof (cases "rq_traceId (tw_req w) = 0")
    case True
    then have "generateUniqueID t ids = (j, ids')" using j by simp
    from generate_next [OF i1(2) _ this] g i1(3) show ?thesis using True by auto
  next
    case False
    then show ?thesis using j i1(2) by auto
  qed
  then obtain used' where j1: "j > 0" "idgen_inv used' ids'" "global_counter ids' \<le> global_counter ids + kRangeSize"
    "rq_traceId (tw_req w) \<noteq> 0 \<longrightarrow> j = rq_traceId (tw_req w)" by blast
  let ?tp = "\<lparr>cp_timestamp = now, cp_traceId = j, cp_blockId = i, cp_parentBlockId = b, cp_name = Some name, cp_start = True, cp_stop = False\<rparr>"
  have e: "blk = \<lparr>tb_blockId = i, tb_parentBlockId = b\<rparr>"
    "w1 = w\<lparr>tw_ids := ids', tw_tracer := trace_point t ?tp (tw_tracer w), tw_req := \<lparr>rq_traceId = j, rq_blockId = i\<rparr>\<rparr>"
    using new en by (simp_all add: TraceBlock_new_def i j bb Let_def)
  have "tr_enabled (trace_point t ?tp (tw_tracer w))" "tr_flushed (trace_point t ?tp (tw_tracer w)) = []" using en by (simp_all add: trace_point_def)
  then have "at_block t used' i (h @ [?tp]) k w1"
    using ring_holds_trace [OF ho room(1)] j1 i1 g room by (simp add: at_block_def e)
  then show "\<exists>used'. at_block t used' (tb_blockId blk)
      (h @ [\<lparr>cp_timestamp = now, cp_traceId = rq_traceId (tw_req w1), cp_blockId = tb_blockId blk, cp_parentBlockId = b,
             cp_name = Some name, cp_start = True, cp_stop = False\<rparr>]) k w1"
    by (auto simp: e)
  show "tb_blockId blk \<noteq> 0" "tb_parentBlockId blk = b" "rq_traceId (tw_req w1) \<noteq> 0" using i1(1) j1(1) by (simp_all add: e)
  show "rq_traceId (tw_req w) \<noteq> 0 \<Longrightarrow> rq_traceId (tw_req w1) = rq_traceId (tw_req w)" using j1(4) by (simp add: e)
qed

lemma TraceBlock_close_at:
  assumes at: "at_block t used b h k w" and "length h + 1 + 2 * k < 2 ^ 64" "tb_blockId blk \<noteq> 0"
    "TraceBlock_close t now blk w = (blk', w1)"
  shows "at_block t used (tb_parentBlockId blk)
      (h @ [\<lparr>cp_timestamp = now, cp_traceId = rq_traceId (tw_req w), cp_blockId = tb_blockId blk, cp_parentBlockId = tb_parentBlockId blk,
             cp_name = None, cp_start = False, cp_stop = True\<rparr>]) k w1"
    "rq_traceId (tw_req w1) = rq_traceId (tw_req w)" "tb_blockId blk' = 0"
proof -
  let ?tp = "\<lparr>cp_timestamp = now, cp_traceId = rq_traceId (tw_req w), cp_blockId = tb_blockId blk, cp_parentBlockId = tb_parentBlockId blk,
      cp_name = None, cp_start = False, cp_stop = True\<rparr>"
  have e: "w1 = w\<lparr>tw_tracer := trace_point t ?tp (tw_tracer w), tw_req := (tw_req w)\<lparr>rq_blockId := tb_parentBlockId blk\<rparr>\<rparr>"
    "blk' = blk\<lparr>tb_blockId := 0\<rparr>"
    using assms(3,4) by (simp_all add: TraceBlock_close_def Let_def)
  have "ring_holds (tw_tracer w) t h" "length h + 1 < 2 ^ 64" using at assms(2) by (auto simp: at_block_def)
  then have "ring_holds (tw_tracer w1) t (h @ [?tp])" using ring_holds_trace by (simp add: e)
  moreover have "tr_enabled (tw_tracer w1)" "tr_flushed (tw_tracer w1) = []" using at by (simp_all add: e trace_point_def at_block_def)
  ultimately show "at_block t used (tb_parentBlockId blk) (h @ [?tp]) k w1" using at assms(2) by (simp add: at_block_def e)
  show "rq_traceId (tw_req w1) = rq_traceId (tw_req w)" "tb_blockId blk' = 0" by (simp_all add: e)
qed

text \<open>The points \<open>ps\<close> that running the blocks \<open>cs\<close> in block \<open>b\<close> has added.\<close>

definition nested_points :: "nat \<Rightarrow> nat \<Rightarrow> trace_tree list \<Rightarrow> CompactTracePoint list \<Rightarrow> bool" where
  "nested_points tid b cs ps \<longleftrightarrow>
     length ps = 2 * (\<Sum>c \<leftarrow> cs. tree_size c) \<and> (\<forall>p \<in> set ps. cp_traceId p = tid) \<and>
     (\<forall>nm cs0 stack rest. rebuild ((b, nm, cs0) # stack) (ps @ rest) = rebuild ((b, nm, cs0 @ cs) # stack) rest)"

lemma nested_points_append:
  "nested_points tid b cs ps \<Longrightarrow> nested_points tid b ds qs \<Longrightarrow> nested_points tid b (cs @ ds) (ps @ qs)"
  by (auto simp: nested_points_def)

lemma nested_points_Node:
  assumes "nested_points tid i cs ps" "cp_start p" "cp_name p = Some name" "cp_parentBlockId p = b" "cp_blockId p = i" "cp_traceId p = tid"
    "\<not> cp_start q" "cp_stop q" "cp_blockId q = i" "cp_parentBlockId q = b" "cp_traceId q = tid"
  shows "nested_points tid b [Node name cs] (p # ps @ [q])"
  using assms by (auto simp: nested_points_def)

definition ran :: "(nat \<Rightarrow> nat) \<Rightarrow> nat \<Rightarrow> nat \<Rightarrow> CompactTracePoint list \<Rightarrow> nat \<Rightarrow> nat \<Rightarrow> trace_world \<Rightarrow> trace_tree list \<Rightarrow> nat \<times> trace_world \<Rightarrow> bool" where
  "ran clock t b h k n w cs nw' \<longleftrightarrow>
     (let w' = snd nw'; tid = rq_traceId (tw_req w')
      in fst nw' = n + 2 * (\<Sum>c \<leftarrow> cs. tree_size c) \<and>
         (rq_traceId (tw_req w) \<noteq> 0 \<longrightarrow> tid = rq_traceId (tw_req w)) \<and> (cs \<noteq> [] \<longrightarrow> tid \<noteq> 0) \<and>
         (\<exists>used' ps. at_block t used' b (h @ ps) k w' \<and> nested_points tid b cs ps \<and>
            map cp_timestamp ps = map clock [n ..< fst nw']))"

lemma ran_append:
  assumes "ran clock t b h (k + (\<Sum>c \<leftarrow> ds. tree_size c)) n w cs (n1, w1)" "cs \<noteq> []"
    "\<And>used' h'. at_block t used' b h' (k + (\<Sum>c \<leftarrow> ds. tree_size c)) w1 \<Longrightarrow> ran clock t b h' k n1 w1 ds nw2"
  shows "ran clock t b h k n w (cs @ ds) nw2"
proof -
  from assms(1,2) obtain used' ps where
    1: "n1 = n + 2 * (\<Sum>c \<leftarrow> cs. tree_size c)" "rq_traceId (tw_req w1) \<noteq> 0"
      "rq_traceId (tw_req w) \<noteq> 0 \<longrightarrow> rq_traceId (tw_req w1) = rq_traceId (tw_req w)"
      "at_block t used' b (h @ ps) (k + (\<Sum>c \<leftarrow> ds. tree_size c)) w1" "nested_points (rq_traceId (tw_req w1)) b cs ps"
      "map cp_timestamp ps = map clock [n ..< n1]"
    by (auto simp: ran_def Let_def)
  from assms(3) [OF 1(4)] 1(2) obtain used'' qs where
    2: "fst nw2 = n1 + 2 * (\<Sum>c \<leftarrow> ds. tree_size c)" "rq_traceId (tw_req (snd nw2)) = rq_traceId (tw_req w1)"
      "at_block t used'' b ((h @ ps) @ qs) k (snd nw2)" "nested_points (rq_traceId (tw_req w1)) b ds qs"
      "map cp_timestamp qs = map clock [n1 ..< fst nw2]"
    unfolding ran_def Let_def by metis
  have "[n ..< fst nw2] = [n ..< n1] @ [n1 ..< fst nw2]" using 1(1) 2(1) by (metis le_add1 le_add_diff_inverse upt_add_eq_append)
  then have "map cp_timestamp (ps @ qs) = map clock [n ..< fst nw2]" using 1(6) 2(5) by simp
  moreover have "nested_points (rq_traceId (tw_req w1)) b (cs @ ds) (ps @ qs)" using 1(5) 2(4) by (rule nested_points_append)
  ultimately show ?thesis using 1(1-3) 2(1-3) unfolding ran_def Let_def by (auto intro!: exI [of _ used''] exI [of _ "ps @ qs"])
qed

lemma run_forest_ran:
  assumes "\<And>c used b h k n w. c \<in> set cs \<Longrightarrow> at_block t used b h (k + tree_size c) w \<Longrightarrow> ran clock t b h k n w [c] (run_tree clock t c (n, w))"
    and "at_block t used b h (k + (\<Sum>c \<leftarrow> cs. tree_size c)) w"
  shows "ran clock t b h k n w cs (run_forest clock t cs (n, w))"
  using assms
proof (induction cs arbitrary: used h n w)
  case Nil
  then have "nested_points tid b [] []" for tid by (simp add: nested_points_def)
  then show ?case using Nil(2) by (auto simp: ran_def intro!: exI [of _ used] exI [of _ "[]"])
next
  case (Cons c cs)
  obtain n1 w1 where r: "run_tree clock t c (n, w) = (n1, w1)" by fastforce
  have "at_block t used b h ((k + (\<Sum>c \<leftarrow> cs. tree_size c)) + tree_size c) w" using Cons.prems(2) by (simp add: ac_simps)
  from Cons.prems(1) [OF _ this, of n] have "ran clock t b h (k + (\<Sum>c \<leftarrow> cs. tree_size c)) n w [c] (n1, w1)" by (simp add: r)
  then have "ran clock t b h k n w ([c] @ cs) (run_forest clock t cs (n1, w1))"
    by (rule ran_append) (use Cons.IH Cons.prems(1) in auto)
  then show ?case by (simp add: r)
qed

lemma run_tree_ran:
  "at_block t used b h (k + tree_size c) w \<Longrightarrow> ran clock t b h k n w [c] (run_tree clock t c (n, w))"
proof (induction c arbitrary: used b h k n w)
  case (Node name cs)
  let ?s = "\<Sum>c \<leftarrow> cs. tree_size c"
  obtain blk w1 where new: "TraceBlock_new t (clock n) name w = (blk, w1)" by fastforce
  obtain n2 w2 where run: "run_forest clock t cs (n + 1, w1) = (n2, w2)" by fastforce
  obtain blk' w3 where cl: "TraceBlock_close t (clock n2) blk w2 = (blk', w3)" by fastforce
  let ?p = "\<lparr>cp_timestamp = clock n, cp_traceId = rq_traceId (tw_req w1), cp_blockId = tb_blockId blk, cp_parentBlockId = b,
      cp_name = Some name, cp_start = True, cp_stop = False\<rparr>"
  let ?q = "\<lparr>cp_timestamp = clock n2, cp_traceId = rq_traceId (tw_req w2), cp_blockId = tb_blockId blk, cp_parentBlockId = b,
      cp_name = None, cp_start = False, cp_stop = True\<rparr>"
  have at: "at_block t used b h (Suc (k + ?s)) w" using Node.prems by simp
  note N = TraceBlock_new_at [OF at new]
  obtain used1 where at1: "at_block t used1 (tb_blockId blk) (h @ [?p]) (k + ?s) w1" using N(1) by blast
  have "ran clock t (tb_blockId blk) (h @ [?p]) k (n + 1) w1 cs (run_forest clock t cs (n + 1, w1))"
    by (rule run_forest_ran [OF _ at1]) (use Node.IH in blast)
  from this [unfolded run] obtain used2 ps where R: "n2 = n + 1 + 2 * ?s" "rq_traceId (tw_req w2) = rq_traceId (tw_req w1)"
    "at_block t used2 (tb_blockId blk) ((h @ [?p]) @ ps) k w2" "nested_points (rq_traceId (tw_req w2)) (tb_blockId blk) cs ps"
    "map cp_timestamp ps = map clock [n + 1 ..< n2]"
    using N(4) unfolding ran_def Let_def fst_conv snd_conv by metis
  have len: "length ((h @ [?p]) @ ps) + 1 + 2 * k < 2 ^ 64"
    using at R(4) by (simp add: nested_points_def at_block_def algebra_simps)
  note C = TraceBlock_close_at [OF R(3) len N(2) cl, unfolded N(3)]
  have e: "run_tree clock t (Node name cs) (n, w) = (n2 + 1, w3)" using run cl by (simp add: new)
  have t: "map cp_timestamp (?p # ps @ [?q]) = map clock [n ..< n2 + 1]"
  proof -
    have "n < n2" using R(1) by simp
    then have "[n ..< n2 + 1] = n # [n + 1 ..< n2] @ [n2]" by (simp add: upt_conv_Cons)
    then show ?thesis by (simp add: R(5) del: upt_Suc)
  qed
  have np: "nested_points (rq_traceId (tw_req w3)) b [Node name cs] (?p # ps @ [?q])"
    using nested_points_Node [OF R(4), of ?p name b ?q] R(2) C(2) by simp
  have at3: "at_block t used2 b (h @ ?p # ps @ [?q]) k w3" using C(1) by simp
  have tid: "rq_traceId (tw_req w3) \<noteq> 0" "rq_traceId (tw_req w) \<noteq> 0 \<longrightarrow> rq_traceId (tw_req w3) = rq_traceId (tw_req w)"
    using C(2) R(2) N(4,5) by simp_all
  have cnt: "n2 + 1 = n + 2 * (\<Sum>c \<leftarrow> [Node name cs]. tree_size c)" using R(1) by simp
  show ?case unfolding e ran_def Let_def fst_conv snd_conv using cnt tid at3 np t by blast
qed

lemma run_forest_at:
  assumes "at_block t used b h (\<Sum>c \<leftarrow> cs. tree_size c) w"
  shows "ran clock t b h 0 n w cs (run_forest clock t cs (n, w))"
  using run_forest_ran [where k = 0, OF run_tree_ran] assms by simp

lemma sorted_points_unique:
  assumes "sorted (map cp_timestamp ps)" "sorted (map cp_timestamp h)" "distinct (map cp_timestamp h)" "mset ps = mset h"
  shows "ps = h"
proof -
  have "mset (map cp_timestamp ps) = mset (map cp_timestamp h)" using assms(4) by simp
  then have "map cp_timestamp ps = map cp_timestamp h" using assms(1,2) by (metis properties_for_sort sorted_sort_id)
  moreover have "inj_on cp_timestamp (set ps \<union> set h)"
    using assms(3) mset_eq_setD [OF assms(4)] by (simp add: distinct_map)
  ultimately show ?thesis by (rule map_inj_on)
qed


section \<open>Witnesses\<close>

lemma sorts_sort_key: "sorts (sort_key cp_timestamp)"
  by (simp add: sorts_def)

definition sample_world :: trace_world where
  "sample_world = \<lparr>tw_tracer = enableTracing trace_init, tw_ids = idgen_init, tw_req = \<lparr>rq_traceId = 0, rq_blockId = 0\<rparr>\<rparr>"

definition sample_forest :: "trace_tree list" where
  "sample_forest = [Node ''lookup'' [Node ''fetch'' [], Node ''import'' []], Node ''read'' []]"


definition sample_point :: CompactTracePoint where
  "sample_point =
     \<lparr>cp_timestamp = 5, cp_traceId = 2, cp_blockId = 1, cp_parentBlockId = 0, cp_name = Some ''lookup'', cp_start = True, cp_stop = False\<rparr>"

definition sample_run :: trace_run where
  "sample_run = run_init\<lparr>run_tracer := trace_point 0 sample_point trace_init, recorded := (\<lambda>t. [])(0 := [sample_point])\<rparr>"

theorem tracing_conserves_points_witness:
  "mset (fst (getAllTracepoints (sort_key cp_timestamp) [0, 1] (run_tracer sample_run))) = {#sample_point#}"
proof -
  have "tracing_step (sort_key cp_timestamp) run_init sample_run"
    using tracing_step.record_point [of run_init 0 "sort_key cp_timestamp" sample_point] by (simp add: run_init_def sample_run_def)
  then have r: "(tracing_step (sort_key cp_timestamp))\<^sup>*\<^sup>* run_init sample_run" by (rule r_into_rtranclp)
  obtain ps s where g: "getAllTracepoints (sort_key cp_timestamp) [0, 1] (run_tracer sample_run) = (ps, s)" by fastforce
  have "distinct [0, 1 :: nat]" by simp
  from tracing_conserves_points [OF sorts_sort_key r] this g
  have "mset ps = mset (tr_flushed (run_tracer sample_run)) + (\<Sum>t \<leftarrow> [0, 1]. mset (newest (recorded sample_run t)))" by blast
  moreover have "tr_flushed (run_tracer sample_run) = []" by (simp add: sample_run_def trace_point_def trace_init_def run_init_def)
  moreover have "recorded sample_run 0 = [sample_point]" "recorded sample_run 1 = []" by (simp_all add: sample_run_def)
  ultimately have "mset ps = {#sample_point#}" by (simp add: newest_def kBufferPoints_def)
  then show ?thesis unfolding g fst_conv .
qed

end
