(* ===== verification/Request_Metrics.thy ===== *)
theory Request_Metrics
  imports Eden_Prelude Transition_System
begin

text \<open>
  \<open>RequestMetricsScope\<close> of \<open>telemetry/RequestMetricsScope.h\<close> and \<open>.cpp\<close>: an object that keeps a stop watch
  in a shared list as long as a request lasts, and the metrics that are computed from the list.

  Lists and objects have numbers; the nodes of a \<open>std::list\<close> are numbers too, so that an iterator is
  one.  A watch is the time it was started at.  The constructor starts its watch before it takes the
  lock of the list, so that it is two steps, between which other threads run.
\<close>

section \<open>Scopes and their lists\<close>

record RequestMetricsScope =
  pendingRequestWatches :: "nat option"
  requestWatch :: nat

record metrics_world =
  mw_clock :: nat
  mw_lists :: "nat \<Rightarrow> (nat \<times> nat) list"
  mw_next :: nat
  mw_started :: "nat \<Rightarrow> (nat \<times> nat) option"
  mw_scopes :: "nat \<Rightarrow> RequestMetricsScope option"
  mw_leaked :: "nat \<Rightarrow> nat set"

text \<open>\<open>mw_started\<close> are the constructors between their two steps, with the list and the time of the watch.\<close>

definition scope_start :: "nat \<Rightarrow> nat \<Rightarrow> metrics_world \<Rightarrow> metrics_world" where
  "scope_start ob l w = w\<lparr>mw_started := (mw_started w)(ob \<mapsto> (l, mw_clock w))\<rparr>"

definition scope_insert :: "nat \<Rightarrow> nat \<Rightarrow> nat \<Rightarrow> metrics_world \<Rightarrow> metrics_world" where
  "scope_insert ob l watch w =
     w\<lparr>mw_started := (mw_started w)(ob := None),
       mw_lists := (mw_lists w)(l := mw_lists w l @ [(mw_next w, watch)]),
       mw_scopes := (mw_scopes w)(ob \<mapsto> \<lparr>pendingRequestWatches = Some l, requestWatch = mw_next w\<rparr>),
       mw_next := mw_next w + 1\<rparr>"

definition scope_empty :: "nat \<Rightarrow> metrics_world \<Rightarrow> metrics_world" where
  "scope_empty ob w = w\<lparr>mw_scopes := (mw_scopes w)(ob \<mapsto> \<lparr>pendingRequestWatches = None, requestWatch = 0\<rparr>)\<rparr>"

definition erase_watch :: "RequestMetricsScope \<Rightarrow> metrics_world \<Rightarrow> metrics_world" where
  "erase_watch sc w =
     (case pendingRequestWatches sc of
        None \<Rightarrow> w
      | Some l \<Rightarrow> w\<lparr>mw_lists := (mw_lists w)(l := filter (\<lambda>x. fst x \<noteq> requestWatch sc) (mw_lists w l))\<rparr>)"

definition scope_reset :: "nat \<Rightarrow> RequestMetricsScope \<Rightarrow> metrics_world \<Rightarrow> metrics_world" where
  "scope_reset ob sc w =
     (if pendingRequestWatches sc = None then w
      else (erase_watch sc w)\<lparr>mw_scopes := (mw_scopes w)(ob \<mapsto> sc\<lparr>pendingRequestWatches := None\<rparr>)\<rparr>)"

definition scope_destroy :: "nat \<Rightarrow> RequestMetricsScope \<Rightarrow> metrics_world \<Rightarrow> metrics_world" where
  "scope_destroy ob sc w = (erase_watch sc w)\<lparr>mw_scopes := (mw_scopes w)(ob := None)\<rparr>"

text \<open>
  The move constructor and the move assignment.  The watch that the target of an assignment has in a
  list stays there; \<open>mw_leaked\<close> records it.
\<close>

definition scope_move :: "nat \<Rightarrow> nat \<Rightarrow> RequestMetricsScope \<Rightarrow> metrics_world \<Rightarrow> metrics_world" where
  "scope_move ob that sc w =
     w\<lparr>mw_scopes := (mw_scopes w)(that \<mapsto> sc\<lparr>pendingRequestWatches := None\<rparr>, ob \<mapsto> sc)\<rparr>"

definition scope_assign :: "nat \<Rightarrow> RequestMetricsScope \<Rightarrow> nat \<Rightarrow> RequestMetricsScope \<Rightarrow> metrics_world \<Rightarrow> metrics_world" where
  "scope_assign ob this that sc w =
     w\<lparr>mw_scopes := (mw_scopes w)(that \<mapsto> sc\<lparr>pendingRequestWatches := None\<rparr>, ob \<mapsto> sc),
       mw_leaked := (case pendingRequestWatches this of
          None \<Rightarrow> mw_leaked w
        | Some l \<Rightarrow> (mw_leaked w)(l := insert (requestWatch this) (mw_leaked w l)))\<rparr>"

section \<open>Metrics\<close>

datatype RequestMetric = COUNT | MAX_DURATION_US

definition stringOfRequestMetric :: "RequestMetric \<Rightarrow> string" where
  "stringOfRequestMetric metric = (case metric of COUNT \<Rightarrow> ''count'' | MAX_DURATION_US \<Rightarrow> ''max_duration_us'')"

datatype RequestStage = PENDING | LIVE

definition stringOfHgImportStage :: "RequestStage \<Rightarrow> string" where
  "stringOfHgImportStage stage = (case stage of PENDING \<Rightarrow> ''pending_import'' | LIVE \<Rightarrow> ''live_import'')"

definition stringOfFuseRequestStage :: "RequestStage \<Rightarrow> string" where
  "stringOfFuseRequestStage stage = (case stage of PENDING \<Rightarrow> ''pending_requests'' | LIVE \<Rightarrow> ''live_requests'')"

definition getMaxDuration :: "nat \<Rightarrow> metrics_world \<Rightarrow> nat" where
  "getMaxDuration l w = (case mw_lists w l of [] \<Rightarrow> 0 | (node, watch) # rest \<Rightarrow> mw_clock w - watch)"

text \<open>The clock counts nanoseconds.\<close>

definition getMetricFromWatches :: "RequestMetric \<Rightarrow> nat \<Rightarrow> metrics_world \<Rightarrow> nat" where
  "getMetricFromWatches metric l w =
     (case metric of COUNT \<Rightarrow> length (mw_lists w l) | MAX_DURATION_US \<Rightarrow> getMaxDuration l w div 1000)"

definition aggregateMetricCounters :: "RequestMetric \<Rightarrow> nat list \<Rightarrow> nat" where
  "aggregateMetricCounters metric counters =
     (case metric of
        COUNT \<Rightarrow> foldl (\<lambda>a c. u64 (a + c)) 0 counters
      | MAX_DURATION_US \<Rightarrow> (if counters = [] then 0 else foldl max (hd counters) (List.tl counters)))"

section \<open>Runs\<close>

text \<open>
  If \<open>prompt\<close> is set, a constructor takes the lock before the clock advances.
\<close>

inductive metrics_step :: "bool \<Rightarrow> metrics_world \<Rightarrow> metrics_world \<Rightarrow> bool" for prompt where
  tick: "metrics_step prompt w (w\<lparr>mw_clock := mw_clock w + d\<rparr>)"
| start: "mw_scopes w ob = None \<Longrightarrow> mw_started w ob = None \<Longrightarrow> metrics_step prompt w (scope_start ob l w)"
| enter: "mw_started w ob = Some (l, watch) \<Longrightarrow> prompt \<longrightarrow> watch = mw_clock w \<Longrightarrow> metrics_step prompt w (scope_insert ob l watch w)"
| inactive: "mw_scopes w ob = None \<Longrightarrow> mw_started w ob = None \<Longrightarrow> metrics_step prompt w (scope_empty ob w)"
| reset: "mw_scopes w ob = Some sc \<Longrightarrow> metrics_step prompt w (scope_reset ob sc w)"
| destroy: "mw_scopes w ob = Some sc \<Longrightarrow> metrics_step prompt w (scope_destroy ob sc w)"
| move: "mw_scopes w that = Some sc \<Longrightarrow> mw_scopes w ob = None \<Longrightarrow> mw_started w ob = None \<Longrightarrow>
    metrics_step prompt w (scope_move ob that sc w)"
| assign: "mw_scopes w that = Some sc \<Longrightarrow> mw_scopes w ob = Some this \<Longrightarrow> ob \<noteq> that \<Longrightarrow>
    metrics_step prompt w (scope_assign ob this that sc w)"

definition metrics_init :: metrics_world where
  "metrics_init = \<lparr>mw_clock = 0, mw_lists = (\<lambda>l. []), mw_next = 0, mw_started = (\<lambda>ob. None), mw_scopes = (\<lambda>ob. None), mw_leaked = (\<lambda>l. {})\<rparr>"

text \<open>The scopes that keep a watch in list \<open>l\<close>, and the nodes of the list.\<close>

definition active_in :: "metrics_world \<Rightarrow> nat \<Rightarrow> nat set" where
  "active_in w l = {ob. \<exists>sc. mw_scopes w ob = Some sc \<and> pendingRequestWatches sc = Some l}"

definition nodes :: "metrics_world \<Rightarrow> nat \<Rightarrow> nat set" where
  "nodes w l = fst ` set (mw_lists w l)"

text \<open>Every node is held by one scope or has leaked; the scope that holds node \<open>i\<close> is \<open>holder\<close>.\<close>

definition holder :: "metrics_world \<Rightarrow> nat \<Rightarrow> nat \<Rightarrow> nat \<Rightarrow> bool" where
  "holder w l ob i \<longleftrightarrow> (\<exists>sc. mw_scopes w ob = Some sc \<and> pendingRequestWatches sc = Some l \<and> requestWatch sc = i)"

definition metrics_inv :: "metrics_world \<Rightarrow> bool" where
  "metrics_inv w \<longleftrightarrow>
     (\<forall>l. distinct (map fst (mw_lists w l))) \<and>
     (\<forall>l. \<forall>i \<in> nodes w l. i < mw_next w) \<and>
     (\<forall>l i. i \<in> nodes w l \<longleftrightarrow> i \<in> mw_leaked w l \<or> (\<exists>ob. holder w l ob i)) \<and>
     (\<forall>l ob i. holder w l ob i \<longrightarrow> i \<notin> mw_leaked w l) \<and>
     (\<forall>l ob ob' i. holder w l ob i \<longrightarrow> holder w l ob' i \<longrightarrow> ob = ob')"

lemma metrics_invI:
  assumes "\<And>l. distinct (map fst (mw_lists w l))" "\<And>l i. i \<in> nodes w l \<Longrightarrow> i < mw_next w"
    "\<And>l i. i \<in> nodes w l \<longleftrightarrow> i \<in> mw_leaked w l \<or> (\<exists>ob. holder w l ob i)"
    "\<And>l ob i. holder w l ob i \<Longrightarrow> i \<notin> mw_leaked w l" "\<And>l ob ob' i. holder w l ob i \<Longrightarrow> holder w l ob' i \<Longrightarrow> ob = ob'"
  shows "metrics_inv w"
  unfolding metrics_inv_def using assms by blast

lemma metrics_invD:
  assumes "metrics_inv w"
  shows "distinct (map fst (mw_lists w l))" "i \<in> nodes w l \<Longrightarrow> i < mw_next w"
    "i \<in> nodes w l \<longleftrightarrow> i \<in> mw_leaked w l \<or> (\<exists>ob. holder w l ob i)"
    "holder w l ob i \<Longrightarrow> i \<notin> mw_leaked w l" "holder w l ob i \<Longrightarrow> holder w l ob' i \<Longrightarrow> ob = ob'"
  using assms unfolding metrics_inv_def by blast+

text \<open>A step that keeps the lists and only moves nodes between scopes.\<close>

lemma holder_insert:
  "holder (scope_insert ob l watch w) l' ob' i \<longleftrightarrow> (if ob' = ob then l' = l \<and> i = mw_next w else holder w l' ob' i)"
  by (auto simp: holder_def scope_insert_def)

lemma nodes_insert: "nodes (scope_insert ob l watch w) l' = (if l' = l then insert (mw_next w) (nodes w l) else nodes w l')"
  by (auto simp: nodes_def scope_insert_def)

lemma inv_insert:
  assumes "metrics_inv w" "mw_scopes w ob = None"
  shows "metrics_inv (scope_insert ob l watch w)"
proof (rule metrics_invI)
  note I = metrics_invD [OF assms(1)]
  have none: "\<not> holder w l' ob i" for l' i using assms(2) by (simp add: holder_def)
  have fresh: "mw_next w \<notin> nodes w l'" for l' using I(2) by blast
  have lk: "mw_leaked (scope_insert ob l watch w) = mw_leaked w" and nx: "mw_next (scope_insert ob l watch w) = mw_next w + 1"
    by (simp_all add: scope_insert_def)
  show "distinct (map fst (mw_lists (scope_insert ob l watch w) l'))" for l'
    using I(1) fresh by (auto simp: scope_insert_def nodes_def)
  show "i \<in> nodes (scope_insert ob l watch w) l' \<Longrightarrow> i < mw_next (scope_insert ob l watch w)" for l' i
    unfolding nodes_insert nx using I(2) [of i l'] I(2) [of i l] by (auto split: if_splits)
  show "i \<in> nodes (scope_insert ob l watch w) l' \<longleftrightarrow>
      i \<in> mw_leaked (scope_insert ob l watch w) l' \<or> (\<exists>ob'. holder (scope_insert ob l watch w) l' ob' i)" for l' i
  proof -
    have "(\<exists>ob'. if ob' = ob then l' = l \<and> i = mw_next w else holder w l' ob' i) \<longleftrightarrow>
        l' = l \<and> i = mw_next w \<or> (\<exists>ob'. holder w l' ob' i)" using none by metis
    then show ?thesis unfolding holder_insert nodes_insert lk using I(3) [of i l'] by auto
  qed
  show "holder (scope_insert ob l watch w) l' ob' i \<Longrightarrow> i \<notin> mw_leaked (scope_insert ob l watch w) l'" for l' ob' i
    unfolding holder_insert lk using I(3,4) fresh by (auto split: if_splits)
  show "ob1 = ob2" if "holder (scope_insert ob l watch w) l' ob1 i" "holder (scope_insert ob l watch w) l' ob2 i" for l' ob1 ob2 i
    using that I(3,5) fresh unfolding holder_insert by (metis (full_types))
qed

lemma inv_erase:
  assumes "metrics_inv w" "mw_scopes w ob = Some sc" "\<And>l i. \<not> (\<exists>s. S ob = Some s \<and> pendingRequestWatches s = Some l \<and> requestWatch s = i)"
    "\<And>ob'. ob' \<noteq> ob \<Longrightarrow> S ob' = mw_scopes w ob'"
  shows "metrics_inv ((erase_watch sc w)\<lparr>mw_scopes := S\<rparr>)" (is "metrics_inv ?w")
proof (rule metrics_invI)
  note I = metrics_invD [OF assms(1)]
  have h: "holder ?w l ob' i \<longleftrightarrow> ob' \<noteq> ob \<and> holder w l ob' i" for l ob' i
    using assms(3,4) by (cases "ob' = ob") (auto simp: holder_def)
  have own: "holder w l ob i \<longleftrightarrow> pendingRequestWatches sc = Some l \<and> requestWatch sc = i" for l i
    using assms(2) by (auto simp: holder_def)
  have n: "nodes ?w l = nodes w l - {i. holder w l ob i}" for l
    by (cases "pendingRequestWatches sc") (force simp: nodes_def erase_watch_def own)+
  have k: "mw_leaked ?w = mw_leaked w" "mw_next ?w = mw_next w" by (simp_all add: erase_watch_def split: option.split)
  show "distinct (map fst (mw_lists ?w l))" for l
    using I(1) by (auto simp: erase_watch_def distinct_map_filter split: option.split)
  show "i \<in> nodes ?w l \<Longrightarrow> i < mw_next ?w" for l i using I(2) n k by auto
  show "i \<in> nodes ?w l \<longleftrightarrow> i \<in> mw_leaked ?w l \<or> (\<exists>ob'. holder ?w l ob' i)" for l i
    using I(3) [of i l] I(4) [of l _ i] I(5) [of l _ i] unfolding n h k mem_Collect_eq Diff_iff by metis
  show "holder ?w l ob' i \<Longrightarrow> i \<notin> mw_leaked ?w l" for l ob' i using I(4) unfolding h k by blast
  show "holder ?w l ob1 i \<Longrightarrow> holder ?w l ob2 i \<Longrightarrow> ob1 = ob2" for l ob1 ob2 i using I(5) unfolding h by blast
qed

lemma inv_transfer:
  assumes "metrics_inv w" "\<And>l i. i \<in> nodes w' l \<longleftrightarrow> i \<in> nodes w l" "mw_lists w' = mw_lists w" "mw_next w' = mw_next w"
    "\<And>l ob' i. holder w' l ob' i \<longleftrightarrow> (if ob' = ob then holder w l that i else ob' \<noteq> that \<and> holder w l ob' i)" "ob \<noteq> that"
    "\<And>l. mw_leaked w' l = mw_leaked w l \<union> {i. holder w l ob i}"
  shows "metrics_inv w'"
proof (rule metrics_invI)
  note I = metrics_invD [OF assms(1)]
  show "distinct (map fst (mw_lists w' l))" for l using I(1) assms(3) by simp
  show "i \<in> nodes w' l \<Longrightarrow> i < mw_next w'" for l i using I(2) assms(2,4) by simp
  show "i \<in> nodes w' l \<longleftrightarrow> i \<in> mw_leaked w' l \<or> (\<exists>ob'. holder w' l ob' i)" for l i
  proof -
    have "(\<exists>ob'. holder w' l ob' i) \<or> holder w l ob i \<longleftrightarrow> (\<exists>ob'. holder w l ob' i)" unfolding assms(5) using assms(6) by metis
    then show ?thesis using I(3) [of i l] unfolding assms(2,7) by blast
  qed
  show "holder w' l ob' i \<Longrightarrow> i \<notin> mw_leaked w' l" for l ob' i
    using I(4) [of l] I(5) [of l] assms(6) unfolding assms(5,7) by (auto split: if_splits)
  show "holder w' l ob1 i \<Longrightarrow> holder w' l ob2 i \<Longrightarrow> ob1 = ob2" for l ob1 ob2 i
    using I(5) [of l] assms(6) unfolding assms(5) by (auto split: if_splits)
qed

lemma inv_step:
  assumes "metrics_step prompt w w'" "metrics_inv w" "\<And>ob. mw_started w ob \<noteq> None \<Longrightarrow> mw_scopes w ob = None"
  shows "metrics_inv w'"
  using assms(1)
proof cases
  case (tick d)
  then show ?thesis using assms(2) by (simp add: metrics_inv_def holder_def nodes_def)
next
  case (start ob l)
  then show ?thesis using assms(2) by (simp add: metrics_inv_def holder_def nodes_def scope_start_def)
next
  case (enter ob l watch)
  then show ?thesis using inv_insert assms(2,3) by auto
next
  case (inactive ob)
  then have "holder w' l ob' i = holder w l ob' i" for l ob' i by (auto simp: holder_def scope_empty_def)
  then show ?thesis using assms(2) inactive by (simp add: metrics_inv_def nodes_def scope_empty_def)
next
  case (reset ob sc)
  then show ?thesis using assms(2) by (auto simp: scope_reset_def intro!: inv_erase)
next
  case (destroy ob sc)
  then show ?thesis using assms(2) by (auto simp: scope_destroy_def intro!: inv_erase)
next
  case (move that sc ob)
  have ne: "ob \<noteq> that" using move(2,3) by auto
  have h: "holder w' l ob' i \<longleftrightarrow> (if ob' = ob then holder w l that i else ob' \<noteq> that \<and> holder w l ob' i)" for l ob' i
    using move(2) ne by (cases "ob' = that") (simp_all add: holder_def scope_move_def move(1))
  have k: "mw_leaked w' l = mw_leaked w l \<union> {i. holder w l ob i}" for l
    using move(3) by (simp add: holder_def scope_move_def move(1))
  have "mw_lists w' = mw_lists w" "mw_next w' = mw_next w" by (simp_all add: scope_move_def move(1))
  then show ?thesis using inv_transfer [OF assms(2) _ _ _ h ne k] by (simp add: nodes_def)
next
  case (assign that sc ob this)
  have h: "holder w' l ob' i \<longleftrightarrow> (if ob' = ob then holder w l that i else ob' \<noteq> that \<and> holder w l ob' i)" for l ob' i
    using assign(2,4) by (cases "ob' = that") (simp_all add: holder_def scope_assign_def assign(1))
  have k: "mw_leaked w' l = mw_leaked w l \<union> {i. holder w l ob i}" for l
    using assign(3) by (cases "pendingRequestWatches this") (auto simp: holder_def scope_assign_def assign(1))
  have "mw_lists w' = mw_lists w" "mw_next w' = mw_next w" by (simp_all add: scope_assign_def assign(1))
  then show ?thesis using inv_transfer [OF assms(2) _ _ _ h assign(4) k] by (simp add: nodes_def)
qed

definition metrics_ok :: "metrics_world \<Rightarrow> bool" where
  "metrics_ok w \<longleftrightarrow> metrics_inv w \<and> (\<forall>ob. mw_started w ob \<noteq> None \<longrightarrow> mw_scopes w ob = None)"

lemma metrics_ok_step: "metrics_step prompt w w' \<Longrightarrow> metrics_ok w \<Longrightarrow> metrics_ok w'"
  unfolding metrics_ok_def
proof (intro conjI)
  assume step: "metrics_step prompt w w'" and ok: "metrics_inv w \<and> (\<forall>ob. mw_started w ob \<noteq> None \<longrightarrow> mw_scopes w ob = None)"
  show "metrics_inv w'" using inv_step [OF step] ok by blast
  show "\<forall>ob. mw_started w' ob \<noteq> None \<longrightarrow> mw_scopes w' ob = None"
    using step ok
    by cases (auto simp: scope_start_def scope_insert_def scope_empty_def scope_reset_def scope_destroy_def scope_move_def scope_assign_def erase_watch_def
        split: option.splits)
qed

interpretation metrics: invariant_system "\<lambda>w. w = metrics_init" "metrics_step prompt" metrics_ok
proof
  show "metrics_ok w" if "w = metrics_init" for w
    using that by (simp add: metrics_ok_def metrics_inv_def metrics_init_def nodes_def holder_def)
qed (rule metrics_ok_step)

text \<open>The order of a list: the watches are in the order of their times, and none is in the future.\<close>

definition in_order :: "metrics_world \<Rightarrow> bool" where
  "in_order w \<longleftrightarrow> (\<forall>l. sorted (map snd (mw_lists w l)) \<and> (\<forall>x \<in> set (mw_lists w l). snd x \<le> mw_clock w))"

lemma in_order_erase: "in_order w \<Longrightarrow> in_order ((erase_watch sc w)\<lparr>mw_scopes := S\<rparr>)"
  by (cases "pendingRequestWatches sc") (fastforce simp: in_order_def erase_watch_def sorted_filter)+

lemma in_order_step: "metrics_step True w w' \<Longrightarrow> in_order w \<Longrightarrow> in_order w'"
proof (induction rule: metrics_step.cases)
  case (tick w d)
  then show ?case by (fastforce simp: in_order_def)
next
  case (enter w ob l watch)
  then show ?case by (auto simp: in_order_def scope_insert_def sorted_append)
next
  case (reset w ob sc)
  then show ?case by (simp add: scope_reset_def in_order_erase)
next
  case (destroy w ob sc)
  then show ?case by (simp add: scope_destroy_def in_order_erase)
qed (simp_all add: in_order_def scope_start_def scope_empty_def scope_move_def scope_assign_def)

interpretation prompt_metrics: invariant_system "\<lambda>w. w = metrics_init" "metrics_step True" in_order
proof
  show "in_order w" if "w = metrics_init" for w using that by (simp add: in_order_def metrics_init_def)
qed (rule in_order_step)

section \<open>Theorems\<close>

lemma count_nodes:
  assumes "metrics_inv w"
  shows "finite (active_in w l) \<and> length (mw_lists w l) = card (active_in w l) + card (mw_leaked w l)"
proof -
  note I = metrics_invD(2-5) [OF assms, where l = l]
  let ?f = "\<lambda>ob. requestWatch (the (mw_scopes w ob))"
  have h: "holder w l ob i \<longleftrightarrow> ob \<in> active_in w l \<and> i = ?f ob" for ob i by (auto simp: holder_def active_in_def)
  have inj: "inj_on ?f (active_in w l)" using I(4) unfolding h by (auto intro: inj_onI)
  have n: "nodes w l = mw_leaked w l \<union> ?f ` active_in w l" "mw_leaked w l \<inter> ?f ` active_in w l = {}"
    using I(2,3) unfolding h by blast+
  have fin: "finite (nodes w l)" by (simp add: nodes_def)
  then have f: "finite (mw_leaked w l)" "finite (?f ` active_in w l)" using n(1) by auto
  then have "finite (active_in w l)" using inj by (metis finite_imageD)
  moreover have "length (mw_lists w l) = card (nodes w l)"
    using metrics_invD(1) [OF assms, of l] distinct_card [of "map fst (mw_lists w l)"] by (simp add: nodes_def)
  ultimately show ?thesis using card_Un_disjoint [OF f n(2)] n(1) card_image [OF inj] by simp
qed

text \<open>
  C30: The number of requests.  Whatever threads construct, move, assign, reset and destroy scopes, the
  number of watches in a list is the number of scopes that are active in it, plus one for every
  active scope that was overwritten by an assignment.
\<close>

theorem request_count_correct:
  assumes "reachable (\<lambda>w. w = metrics_init) (metrics_step prompt) w"
  shows "finite (active_in w l) \<and> getMetricFromWatches COUNT l w = card (active_in w l) + card (mw_leaked w l)"
proof -
  have "metrics_inv w" using metrics.reachable_inv [OF assms] by (simp add: metrics_ok_def)
  from count_nodes [OF this] show ?thesis by (simp add: getMetricFromWatches_def)
qed

text \<open>
  The duration of the longest request.  If every constructor gets the lock of its list before the
  clock advances, the watch in front of a list is the oldest one, and \<open>getMaxDuration\<close> is the longest
  time that has elapsed.
\<close>

theorem request_max_duration:
  assumes "reachable (\<lambda>w. w = metrics_init) (metrics_step True) w"
  shows "if mw_lists w l = [] then getMaxDuration l w = 0
    else getMaxDuration l w = Max ((\<lambda>x. mw_clock w - snd x) ` set (mw_lists w l))"
proof (cases "mw_lists w l")
  case (Cons x xs)
  have "sorted (map snd (x # xs))" using prompt_metrics.reachable_inv [OF assms] Cons by (metis in_order_def)
  then have "Max ((\<lambda>x. mw_clock w - snd x) ` set (x # xs)) = mw_clock w - snd x"
    by (intro Max_eqI) (auto intro: diff_le_mono2)
  then show ?thesis using Cons by (cases x) (simp add: getMaxDuration_def)
qed (simp add: getMaxDuration_def)

lemma aggregate_max: "foldl max a xs = Max (insert a (set xs))" for a :: nat
proof -
  have "(\<lambda>x s. max s x) = (max :: nat \<Rightarrow> nat \<Rightarrow> nat)" by (intro ext) (simp add: max.commute)
  then show ?thesis using Max.set_eq_fold [of a xs] by (simp add: foldl_conv_fold)
qed

text \<open>Counters are added modulo \<open>2 ^ 64\<close>, durations are compared.\<close>

theorem aggregateMetricCounters_correct:
  "aggregateMetricCounters COUNT counters = u64 (sum_list counters) \<and>
   aggregateMetricCounters MAX_DURATION_US counters = (if counters = [] then 0 else Max (set counters))"
proof -
  have "foldl (\<lambda>a c. u64 (a + c)) (u64 a) xs = u64 (a + sum_list xs)" for a xs
    by (induction xs arbitrary: a) (auto simp: u64_def mod_simps ac_simps)
  from this [of 0] have "foldl (\<lambda>a c. u64 (a + c)) 0 counters = u64 (sum_list counters)" by (simp add: u64_def)
  then show ?thesis by (cases counters) (auto simp: aggregateMetricCounters_def aggregate_max simp del: foldl.simps)
qed

section \<open>Two defects\<close>

lemmas metrics_defs = metrics_init_def scope_start_def scope_insert_def scope_assign_def scope_destroy_def erase_watch_def

text \<open>
  The move assignment forgets the watch of its target.  After two scopes, of which one was assigned to
  the other, are gone, a request is still counted, for good, and its duration grows.
\<close>

theorem assign_leaks_watch:
  "\<exists>w. reachable (\<lambda>w. w = metrics_init) (metrics_step True) w \<and> mw_scopes w = (\<lambda>ob. None) \<and> getMetricFromWatches COUNT 0 w = 1"
proof -
  let ?R = "reachable (\<lambda>w. w = metrics_init) (metrics_step True)"
  let ?a = "\<lparr>pendingRequestWatches = Some 0, requestWatch = 0\<rparr>" and ?b = "\<lparr>pendingRequestWatches = Some 0, requestWatch = 1\<rparr>"
  let ?b' = "\<lparr>pendingRequestWatches = None, requestWatch = 1\<rparr>"
  let ?w4 = "scope_insert 2 0 0 (scope_start 2 0 (scope_insert 1 0 0 (scope_start 1 0 metrics_init)))"
  have 0: "?R metrics_init" by (simp add: reach_init)
  have 1: "?R (scope_start 1 0 metrics_init)" by (rule reach_step [OF 0 metrics_step.start]) (simp_all add: metrics_defs)
  have 2: "?R (scope_insert 1 0 0 (scope_start 1 0 metrics_init))" by (rule reach_step [OF 1 metrics_step.enter]) (simp_all add: metrics_defs)
  have 3: "?R (scope_start 2 0 (scope_insert 1 0 0 (scope_start 1 0 metrics_init)))"
    by (rule reach_step [OF 2 metrics_step.start]) (simp_all add: metrics_defs)
  have 4: "?R ?w4" by (rule reach_step [OF 3 metrics_step.enter]) (simp_all add: metrics_defs)
  have 5: "?R (scope_assign 1 ?a 2 ?b ?w4)" by (rule reach_step [OF 4 metrics_step.assign]) (simp_all add: metrics_defs)
  have 6: "?R (scope_destroy 1 ?b (scope_assign 1 ?a 2 ?b ?w4))" by (rule reach_step [OF 5 metrics_step.destroy]) (simp add: metrics_defs)
  have 7: "?R (scope_destroy 2 ?b' (scope_destroy 1 ?b (scope_assign 1 ?a 2 ?b ?w4)))"
    by (rule reach_step [OF 6 metrics_step.destroy]) (simp add: metrics_defs)
  show ?thesis by (rule exI, rule conjI [OF 7]) (auto simp: metrics_defs getMetricFromWatches_def)
qed

text \<open>
  A constructor that waits for the lock.  Its watch runs already when a younger request enters the list
  first; then the front of the list is not the oldest watch, and \<open>getMaxDuration\<close> is too small.
\<close>

theorem max_duration_race:
  "\<exists>w. reachable (\<lambda>w. w = metrics_init) (metrics_step False) w \<and> getMaxDuration 0 w < Max ((\<lambda>x. mw_clock w - snd x) ` set (mw_lists w 0))"
proof -
  let ?R = "reachable (\<lambda>w. w = metrics_init) (metrics_step False)"
  let ?w2 = "(scope_start 1 0 metrics_init)\<lparr>mw_clock := 5\<rparr>"
  have 0: "?R metrics_init" by (simp add: reach_init)
  have 1: "?R (scope_start 1 0 metrics_init)" by (rule reach_step [OF 0 metrics_step.start]) (simp_all add: metrics_defs)
  have 2: "?R ?w2" using reach_step [OF 1 metrics_step.tick [of False _ 5]] by (simp add: metrics_defs)
  have 3: "?R (scope_start 2 0 ?w2)" by (rule reach_step [OF 2 metrics_step.start]) (simp_all add: metrics_defs)
  have 4: "?R (scope_insert 2 0 5 (scope_start 2 0 ?w2))" by (rule reach_step [OF 3 metrics_step.enter]) (simp_all add: metrics_defs)
  have 5: "?R (scope_insert 1 0 0 (scope_insert 2 0 5 (scope_start 2 0 ?w2)))"
    by (rule reach_step [OF 4 metrics_step.enter]) (simp_all add: metrics_defs)
  show ?thesis by (rule exI, rule conjI [OF 5]) (simp add: metrics_defs getMaxDuration_def)
qed

section \<open>Witnesses\<close>

definition one_request :: metrics_world where
  "one_request = scope_insert 1 0 0 (scope_start 1 0 metrics_init)"

lemma one_request_reachable: "reachable (\<lambda>w. w = metrics_init) (metrics_step prompt) one_request"
proof -
  let ?R = "reachable (\<lambda>w. w = metrics_init) (metrics_step prompt)"
  have 0: "?R metrics_init" by (simp add: reach_init)
  have 1: "?R (scope_start 1 0 metrics_init)" by (rule reach_step [OF 0 metrics_step.start]) (simp_all add: metrics_defs)
  show ?thesis unfolding one_request_def by (rule reach_step [OF 1 metrics_step.enter]) (simp_all add: metrics_defs)
qed

theorem request_count_correct_witness:
  "getMetricFromWatches COUNT 0 one_request = card (active_in one_request 0) + card (mw_leaked one_request 0) \<and> 1 \<in> active_in one_request 0"
  using request_count_correct [OF one_request_reachable [of True], of 0] by (simp add: active_in_def one_request_def metrics_defs)

theorem request_max_duration_witness: "getMaxDuration 0 one_request = Max ((\<lambda>x. mw_clock one_request - snd x) ` set (mw_lists one_request 0))"
  using request_max_duration [OF one_request_reachable, of 0] by (simp add: one_request_def metrics_defs)

end
