(* ===== verification/Lazy_Caches.thy ===== *)
theory Lazy_Caches
  imports Process_Info_Cache Transition_System
begin

text \<open>
  Two helpers that compute a value when it is first asked for.  \<open>LeaseCache\<close> of \<open>LeaseCache.h\<close> keeps
  futures in a cache, so that concurrent calls for a key share one fetch; \<open>lazyInitialize\<close> of
  \<open>LazyInitialize.h\<close> creates an object behind a read-write lock.

  Keys are numbers; \<open>folly::EvictingCacheMap\<close> and its law \<open>evicting_cache\<close> are those of the process info
  cache, with \<open>erase\<close> as a further parameter.
\<close>

section \<open>The lease cache\<close>

text \<open>
  A promise is a number.  After a miss the thread has left the lock and is going to call \<open>fetcher_\<close>
  (\<open>ToCall\<close>); the fetch runs (\<open>Fetching\<close>) until its continuation fulfils the promise; a fetcher that throws
  leaves it \<open>Broken\<close>.
\<close>

datatype 'v lease_phase = ToCall | Fetching | Broken | Fulfilled "nat + 'v"

record ('c, 'v) lease_cache =
  lc_cache :: 'c
  lc_key :: "nat \<Rightarrow> pid"
  lc_phase :: "nat \<Rightarrow> 'v lease_phase"
  lc_next :: nat
  lc_futures :: "(pid \<times> nat) set"
  lc_sources :: "(pid \<times> (nat + 'v)) set"

text \<open>\<open>lc_futures\<close> are the futures that have been returned, \<open>lc_sources\<close> the results of fetches and the values that were set.\<close>

definition new_promise :: "'c ecm_ops \<Rightarrow> pid \<Rightarrow> 'v lease_phase \<Rightarrow> 'c \<Rightarrow> ('c, 'v) lease_cache \<Rightarrow> ('c, 'v) lease_cache" where
  "new_promise em key ph c s =
     s\<lparr>lc_cache := ecm_set em c key (lc_next s), lc_key := (lc_key s)(lc_next s := key),
       lc_phase := (lc_phase s)(lc_next s := ph), lc_next := lc_next s + 1\<rparr>"

definition lease_set :: "'c ecm_ops \<Rightarrow> pid \<Rightarrow> 'v \<Rightarrow> ('c, 'v) lease_cache \<Rightarrow> ('c, 'v) lease_cache" where
  "lease_set em key val s =
     (new_promise em key (Fulfilled (Inr val)) (lc_cache s) s)\<lparr>lc_sources := insert (key, Inr val) (lc_sources s)\<rparr>"

definition lease_erase :: "('c \<Rightarrow> pid \<Rightarrow> 'c) \<Rightarrow> pid \<Rightarrow> ('c, 'v) lease_cache \<Rightarrow> ('c, 'v) lease_cache" where
  "lease_erase erase key s = s\<lparr>lc_cache := erase (lc_cache s) key\<rparr>"

text \<open>\<open>get\<close> up to the end of the locked block; a hit returns its future there.\<close>

definition lease_get :: "'c ecm_ops \<Rightarrow> pid \<Rightarrow> ('c, 'v) lease_cache \<Rightarrow> ('c, 'v) lease_cache" where
  "lease_get em key s =
     (case ecm_find em (lc_cache s) key of
        (Some n, c) \<Rightarrow> s\<lparr>lc_cache := c, lc_futures := insert (key, n) (lc_futures s)\<rparr>
      | (None, c) \<Rightarrow> new_promise em key ToCall c s)"

text \<open>The rest of \<open>get\<close>: the call of the fetcher, which throws or returns a future.\<close>

definition lease_call :: "bool \<Rightarrow> nat \<Rightarrow> ('c, 'v) lease_cache \<Rightarrow> ('c, 'v) lease_cache" where
  "lease_call throws n s =
     (if throws then s\<lparr>lc_phase := (lc_phase s)(n := Broken)\<rparr>
      else s\<lparr>lc_phase := (lc_phase s)(n := Fetching), lc_futures := insert (lc_key s n, n) (lc_futures s)\<rparr>)"

definition lease_fetched :: "nat \<Rightarrow> nat + 'v \<Rightarrow> ('c, 'v) lease_cache \<Rightarrow> ('c, 'v) lease_cache" where
  "lease_fetched n r s =
     s\<lparr>lc_phase := (lc_phase s)(n := Fulfilled r), lc_sources := insert (lc_key s n, r) (lc_sources s)\<rparr>"

inductive lease_step :: "'c ecm_ops \<Rightarrow> ('c \<Rightarrow> pid \<Rightarrow> 'c) \<Rightarrow> ('c, 'v) lease_cache \<Rightarrow> ('c, 'v) lease_cache \<Rightarrow> bool"
  for em erase where
  set: "lease_step em erase s (lease_set em key val s)"
| erase: "lease_step em erase s (lease_erase erase key s)"
| get: "lease_step em erase s (lease_get em key s)"
| call: "n < lc_next s \<Longrightarrow> lc_phase s n = ToCall \<Longrightarrow> lease_step em erase s (lease_call throws n s)"
| fetched: "n < lc_next s \<Longrightarrow> lc_phase s n = Fetching \<Longrightarrow> lease_step em erase s (lease_fetched n r s)"

definition lease_init :: "'c ecm_ops \<Rightarrow> ('c, 'v) lease_cache" where
  "lease_init em = \<lparr>lc_cache = ecm_empty em, lc_key = (\<lambda>n. 0), lc_phase = (\<lambda>n. ToCall), lc_next = 0, lc_futures = {}, lc_sources = {}\<rparr>"

definition erase_law :: "('c \<Rightarrow> pid \<Rightarrow> 'c) \<Rightarrow> ('c \<Rightarrow> (pid \<times> nat) set) \<Rightarrow> bool" where
  "erase_law erase entries \<longleftrightarrow> (\<forall>c key. entries (erase c key) \<subseteq> {x \<in> entries c. fst x \<noteq> key})"

definition lease_inv :: "('c \<Rightarrow> (pid \<times> nat) set) \<Rightarrow> ('c, 'v) lease_cache \<Rightarrow> bool" where
  "lease_inv entries s \<longleftrightarrow>
     (\<forall>key n. (key, n) \<in> entries (lc_cache s) \<union> lc_futures s \<longrightarrow> n < lc_next s \<and> lc_key s n = key) \<and>
     (\<forall>n r. n < lc_next s \<longrightarrow> lc_phase s n = Fulfilled r \<longrightarrow> (lc_key s n, r) \<in> lc_sources s)"

lemma evicting_cacheD:
  assumes "evicting_cache em entries"
  shows "entries (ecm_empty em) = {}" "ecm_find em c pid = (r, c') \<Longrightarrow> entries c' \<subseteq> entries c"
    "ecm_find em c pid = (Some n, c') \<Longrightarrow> (pid, n) \<in> entries c" "entries (ecm_set em c pid n) \<subseteq> insert (pid, n) (entries c)"
  using assms unfolding evicting_cache_def by (metis fst_conv snd_conv)+

lemma inv_new_promise:
  assumes "evicting_cache em entries" "lease_inv entries s" "entries c \<subseteq> entries (lc_cache s)"
    "\<And>r. ph = Fulfilled r \<Longrightarrow> (key, r) \<in> src" "lc_sources s \<subseteq> src"
  shows "lease_inv entries ((new_promise em key ph c s)\<lparr>lc_sources := src\<rparr>)"
proof -
  have sub: "entries (ecm_set em c key (lc_next s)) \<subseteq> insert (key, lc_next s) (entries (lc_cache s))"
    using evicting_cacheD(4) [OF assms(1)] assms(3) by fast
  have "n < lc_next s + 1 \<and> ((lc_key s)(lc_next s := key)) n = k"
    if m: "(k, n) \<in> entries (ecm_set em c key (lc_next s)) \<union> lc_futures s" for k n
  proof -
    consider "k = key" "n = lc_next s" | "(k, n) \<in> entries (lc_cache s) \<union> lc_futures s" using sub m by blast
    then show ?thesis
    proof cases
      case 2
      then have "n < lc_next s" "lc_key s n = k" using assms(2) unfolding lease_inv_def by blast+
      then show ?thesis by simp
    qed simp
  qed
  moreover have "(((lc_key s)(lc_next s := key)) n, r) \<in> src"
    if "n < lc_next s + 1" "((lc_phase s)(lc_next s := ph)) n = Fulfilled r" for n r
    using assms(2,4,5) that unfolding lease_inv_def by (cases "n = lc_next s") auto
  ultimately show ?thesis unfolding lease_inv_def new_promise_def by simp
qed

lemma lease_inv_step:
  assumes "evicting_cache em entries" "erase_law erase entries" "lease_step em erase s s'" "lease_inv entries s"
  shows "lease_inv entries s'"
  using assms(3)
proof cases
  case (set key val)
  have "lease_inv entries ((new_promise em key (Fulfilled (Inr val)) (lc_cache s) s)\<lparr>lc_sources := insert (key, Inr val) (lc_sources s)\<rparr>)"
    by (rule inv_new_promise [OF assms(1,4)]) auto
  then show ?thesis using set by (simp add: lease_set_def)
next
  case (erase key)
  then show ?thesis using assms(2,4) unfolding lease_inv_def erase_law_def lease_erase_def by fastforce
next
  case (get key)
  obtain r c where f: "ecm_find em (lc_cache s) key = (r, c)" by fastforce
  note sub = evicting_cacheD(2) [OF assms(1) f]
  show ?thesis
  proof (cases r)
    case None
    have "lease_inv entries ((new_promise em key ToCall c s)\<lparr>lc_sources := lc_sources s\<rparr>)"
      using inv_new_promise [OF assms(1,4) sub, of "ToCall :: 'b lease_phase"] by simp
    moreover have "(new_promise em key ToCall c s)\<lparr>lc_sources := lc_sources s\<rparr> = new_promise em key ToCall c s"
      by (simp add: new_promise_def)
    ultimately show ?thesis using get f None by (simp add: lease_get_def)
  next
    case (Some n)
    then have "(key, n) \<in> entries (lc_cache s)" using evicting_cacheD(3) [OF assms(1)] f by blast
    then show ?thesis using get f Some sub assms(4) unfolding lease_inv_def lease_get_def by auto
  qed
next
  case (call n throws)
  then show ?thesis using assms(4) unfolding lease_inv_def lease_call_def by auto
next
  case (fetched n r)
  then show ?thesis using assms(4) unfolding lease_inv_def lease_fetched_def by auto
qed

lemma lease_inv_reachable:
  assumes "evicting_cache em entries" "erase_law erase entries" "reachable (\<lambda>s. s = lease_init em) (lease_step em erase) s"
  shows "lease_inv entries s"
  using assms(3)
proof (induction rule: reachable.induct)
  case (reach_init s)
  then show ?case using evicting_cacheD(1) [OF assms(1)] by (simp add: lease_inv_def lease_init_def)
next
  case (reach_step s s')
  then show ?case using lease_inv_step [OF assms(1,2)] by blast
qed

lemma broken_stays:
  assumes "lease_step em erase s s'" "lc_phase s n = Broken" "n < lc_next s"
  shows "lc_phase s' n = Broken"
  using assms
  by cases (auto simp: lease_set_def new_promise_def lease_erase_def lease_get_def lease_call_def lease_fetched_def split: prod.splits option.splits)

text \<open>
  Every future that \<open>get\<close> returns is one for its key.  Whatever threads get, set and erase, and whatever
  the cache evicts, the future is fulfilled with a value that was fetched or set for this key, or a
  fetch for the key is going to fulfil it, unless the fetcher threw for the thread that was first.
\<close>

theorem lease_cache_correct:
  assumes "evicting_cache em entries" "erase_law erase entries" "reachable (\<lambda>s. s = lease_init em) (lease_step em erase) s"
    "(key, n) \<in> lc_futures s"
  shows "lc_key s n = key \<and>
    (case lc_phase s n of
       Fulfilled r \<Rightarrow> (key, r) \<in> lc_sources s
     | Broken \<Rightarrow> \<not> (\<exists>s'. lease_step em erase s s' \<and> lc_phase s' n \<noteq> Broken)
     | _ \<Rightarrow> \<exists>s' s''. lease_step em erase s s' \<and> (s'' = s' \<or> lease_step em erase s' s'') \<and> (\<exists>r. lc_phase s'' n = Fulfilled r))"
proof -
  have inv: "lease_inv entries s" using lease_inv_reachable [OF assms(1-3)] .
  then have n: "n < lc_next s" "lc_key s n = key" using assms(4) by (auto simp: lease_inv_def)
  show ?thesis
  proof (cases "lc_phase s n")
    case ToCall
    have a: "lease_step em erase s (lease_call False n s)" using n ToCall by (simp add: lease_step.call)
    have "lease_step em erase (lease_call False n s) (lease_fetched n (Inl 0) (lease_call False n s))"
      by (rule lease_step.fetched) (use n in \<open>simp_all add: lease_call_def\<close>)
    moreover have "lc_phase (lease_fetched n (Inl 0) (lease_call False n s)) n = Fulfilled (Inl 0)" by (simp add: lease_fetched_def)
    ultimately show ?thesis using a n ToCall by auto
  next
    case Fetching
    have "lease_step em erase s (lease_fetched n (Inl 0) s)" using n Fetching by (simp add: lease_step.fetched)
    moreover have "lc_phase (lease_fetched n (Inl 0) s) n = Fulfilled (Inl 0)" by (simp add: lease_fetched_def)
    ultimately show ?thesis using n Fetching by auto
  next
    case Broken
    have "lc_phase s' n = Broken" if "lease_step em erase s s'" for s'
      using that Broken n(1) by (rule broken_stays)
    then show ?thesis using n Broken by auto
  next
    case (Fulfilled r)
    then show ?thesis using inv n by (auto simp: lease_inv_def)
  qed
qed

text \<open>
  A fetcher that throws.  The entry stays in the cache with a promise that nobody fulfils: a later
  \<open>get\<close> for the key finds it and returns a future that is never ready.
\<close>

theorem throwing_fetcher_hangs:
  fixes em :: "'c ecm_ops"
  assumes "ecm_find em (ecm_empty em) key = (None, c)" "ecm_find em (ecm_set em c key 0) key = (Some 0, c')"
  shows "\<exists>s :: ('c, 'v) lease_cache. reachable (\<lambda>s. s = lease_init em) (lease_step em erase) s \<and> (key, 0) \<in> lc_futures s \<and>
    lc_phase s 0 = Broken \<and> \<not> (\<exists>s'. lease_step em erase s s' \<and> lc_phase s' 0 \<noteq> Broken)"
proof -
  let ?R = "reachable (\<lambda>s. s = lease_init em) (lease_step em erase)"
  let ?s1 = "lease_get em key (lease_init em) :: ('c, 'v) lease_cache"
  let ?s2 = "lease_call True 0 ?s1"
  let ?s3 = "lease_get em key ?s2"
  have s1: "?s1 = new_promise em key ToCall c (lease_init em)" using assms(1) by (simp add: lease_get_def lease_init_def)
  have s3: "?s3 = ?s2\<lparr>lc_cache := c', lc_futures := insert (key, 0) (lc_futures ?s2)\<rparr>"
  proof -
    have "lc_cache ?s2 = ecm_set em c key 0" unfolding s1 by (simp add: lease_call_def new_promise_def lease_init_def)
    then have "ecm_find em (lc_cache ?s2) key = (Some 0, c')" using assms(2) by simp
    then show ?thesis unfolding lease_get_def [of em key ?s2] by simp
  qed
  have 0: "?R (lease_init em)" by (simp add: reach_init)
  have 1: "?R ?s1" by (rule reach_step [OF 0 lease_step.get])
  have 2: "?R ?s2" by (rule reach_step [OF 1 lease_step.call]) (unfold s1, simp_all add: new_promise_def lease_init_def)
  have 3: "?R ?s3" by (rule reach_step [OF 2 lease_step.get])
  have b: "lc_phase ?s3 0 = Broken" "0 < lc_next ?s3" "(key, 0) \<in> lc_futures ?s3"
    unfolding s3 unfolding s1 by (simp_all add: lease_call_def new_promise_def lease_init_def)
  have "lc_phase s' 0 = Broken" if "lease_step em erase ?s3 s'" for s'
    using that b(1,2) by (rule broken_stays)
  then show ?thesis using 3 b by blast
qed

section \<open>Lazy initialisation\<close>

text \<open>
  A call of \<open>lazyInitialize\<close> is two critical sections: under the read lock it returns what is there; if
  it has to change the pointer it takes the write lock.  \<open>init\<close> creates a new object, so that the number
  of calls of \<open>init\<close> so far is its name.
\<close>

datatype lazy_phase = L_idle | L_write bool | L_returned bool "nat option"

record lazy_world =
  lz_ptr :: "nat option"
  lz_inits :: nat
  lz_phase :: "nat \<Rightarrow> lazy_phase"

definition lazy_read :: "nat \<Rightarrow> bool \<Rightarrow> lazy_world \<Rightarrow> lazy_world" where
  "lazy_read t cnd w =
     (if cnd \<and> lz_ptr w \<noteq> None then w\<lparr>lz_phase := (lz_phase w)(t := L_returned cnd (lz_ptr w))\<rparr>
      else if \<not> cnd \<and> lz_ptr w = None then w\<lparr>lz_phase := (lz_phase w)(t := L_returned cnd None)\<rparr>
      else w\<lparr>lz_phase := (lz_phase w)(t := L_write cnd)\<rparr>)"

definition lazy_write :: "nat \<Rightarrow> bool \<Rightarrow> lazy_world \<Rightarrow> lazy_world" where
  "lazy_write t cnd w =
     (if cnd then w\<lparr>lz_ptr := Some (lz_inits w), lz_inits := lz_inits w + 1, lz_phase := (lz_phase w)(t := L_returned cnd (Some (lz_inits w)))\<rparr>
      else w\<lparr>lz_ptr := None, lz_phase := (lz_phase w)(t := L_returned cnd None)\<rparr>)"

inductive lazy_step :: "lazy_world \<Rightarrow> lazy_world \<Rightarrow> bool" where
  lazy_call: "\<forall>c. lz_phase w t \<noteq> L_write c \<Longrightarrow> lazy_step w (lazy_read t cnd w)"
| lazy_locked: "lz_phase w t = L_write cnd \<Longrightarrow> lazy_step w (lazy_write t cnd w)"

definition lazy_init :: lazy_world where
  "lazy_init = \<lparr>lz_ptr = None, lz_inits = 0, lz_phase = (\<lambda>t. L_idle)\<rparr>"

definition lazy_inv :: "lazy_world \<Rightarrow> bool" where
  "lazy_inv w \<longleftrightarrow>
     (\<forall>i. lz_ptr w = Some i \<longrightarrow> i < lz_inits w) \<and>
     (\<forall>t c r. lz_phase w t = L_returned c r \<longrightarrow> (if c then \<exists>i < lz_inits w. r = Some i else r = None))"

lemma lazy_inv_step: "lazy_step w w' \<Longrightarrow> lazy_inv w \<Longrightarrow> lazy_inv w'"
proof (induction rule: lazy_step.induct)
  case (lazy_call w t cnd)
  then show ?case by (cases "lz_ptr w") (auto simp: lazy_inv_def lazy_read_def)
next
  case (lazy_locked w t cnd)
  have "\<exists>i < lz_inits w + 1. r = Some i" if "\<exists>i < lz_inits w. r = Some i" for r using that by auto
  then show ?case using lazy_locked(2) by (cases cnd) (auto simp: lazy_inv_def lazy_write_def less_Suc_eq)
qed

interpretation lazy: invariant_system "\<lambda>w. w = lazy_init" lazy_step lazy_inv
proof
  show "lazy_inv w" if "w = lazy_init" for w using that by (simp add: lazy_inv_def lazy_init_def)
qed (rule lazy_inv_step)

text \<open>
  A call of \<open>lazyInitialize\<close> whose condition holds returns an object that \<open>init\<close> created, never a null
  pointer, and one whose condition does not hold returns null, whatever other threads do.
\<close>

theorem lazyInitialize_result:
  assumes "reachable (\<lambda>w. w = lazy_init) lazy_step w" "lz_phase w t = L_returned c r"
  shows "if c then \<exists>i < lz_inits w. r = Some i else r = None"
  using lazy.reachable_inv [OF assms(1)] assms(2) unfolding lazy_inv_def by blast

text \<open>
  Two threads that find no object both call \<open>init\<close>: nothing is checked again under the write lock.
  They return different objects, and the first one is not the one that is kept.
\<close>

theorem lazyInitialize_twice:
  "\<exists>w. reachable (\<lambda>w. w = lazy_init) lazy_step w \<and> lz_inits w = 2 \<and> lz_ptr w = Some 1 \<and>
     lz_phase w 0 = L_returned True (Some 0) \<and> lz_phase w 1 = L_returned True (Some 1)"
proof -
  let ?R = "reachable (\<lambda>w. w = lazy_init) lazy_step"
  have 0: "?R lazy_init" by (simp add: reach_init)
  have 1: "?R (lazy_read 0 True lazy_init)" by (rule reach_step [OF 0 lazy_call]) (simp add: lazy_init_def)
  have 2: "?R (lazy_read 1 True (lazy_read 0 True lazy_init))"
    by (rule reach_step [OF 1 lazy_call]) (simp add: lazy_read_def lazy_init_def)
  have 3: "?R (lazy_write 0 True (lazy_read 1 True (lazy_read 0 True lazy_init)))"
    by (rule reach_step [OF 2 lazy_locked]) (simp add: lazy_read_def lazy_init_def)
  have 4: "?R (lazy_write 1 True (lazy_write 0 True (lazy_read 1 True (lazy_read 0 True lazy_init))))"
    by (rule reach_step [OF 3 lazy_locked]) (simp add: lazy_read_def lazy_write_def lazy_init_def)
  show ?thesis by (rule exI, rule conjI [OF 4]) (simp add: lazy_read_def lazy_write_def lazy_init_def)
qed

theorem lazyInitialize_result_witness:
  "\<exists>i < lz_inits (lazy_write 0 True (lazy_read 0 True lazy_init)). Some 0 = Some i"
proof -
  have 0: "reachable (\<lambda>w. w = lazy_init) lazy_step lazy_init" by (simp add: reach_init)
  have 1: "reachable (\<lambda>w. w = lazy_init) lazy_step (lazy_read 0 True lazy_init)"
    by (rule reach_step [OF 0 lazy_call]) (simp add: lazy_init_def)
  have 2: "reachable (\<lambda>w. w = lazy_init) lazy_step (lazy_write 0 True (lazy_read 0 True lazy_init))"
    by (rule reach_step [OF 1 lazy_locked]) (simp add: lazy_read_def lazy_init_def)
  from lazyInitialize_result [OF this, of 0 True "Some 0"] show ?thesis by (simp add: lazy_read_def lazy_write_def lazy_init_def)
qed

section \<open>A cache for the witness\<close>

definition map_cache :: "(pid \<rightharpoonup> nat) ecm_ops" where
  "map_cache = \<lparr>ecm_empty = (\<lambda>k. None), ecm_exists = (\<lambda>c k. c k \<noteq> None), ecm_find = (\<lambda>c k. (c k, c)), ecm_set = (\<lambda>c k n. c(k \<mapsto> n))\<rparr>"

definition map_entries :: "(pid \<rightharpoonup> nat) \<Rightarrow> (pid \<times> nat) set" where
  "map_entries c = {(k, n). c k = Some n}"

lemma map_cache_laws: "evicting_cache map_cache map_entries" "erase_law (\<lambda>c k. c(k := None)) map_entries"
  by (auto simp: evicting_cache_def erase_law_def map_cache_def map_entries_def split: if_splits)

definition leased :: "(pid \<rightharpoonup> nat, string) lease_cache" where
  "leased = lease_fetched 0 (Inr ''tree'') (lease_call False 0 (lease_get map_cache 7 (lease_init map_cache)))"

theorem lease_cache_correct_witness: "(7, Inr ''tree'') \<in> lc_sources leased"
proof -
  let ?R = "reachable (\<lambda>s. s = lease_init map_cache) (lease_step map_cache (\<lambda>c k. c(k := None)))"
  let ?s1 = "lease_get map_cache 7 (lease_init map_cache) :: (pid \<rightharpoonup> nat, string) lease_cache"
  have s1: "?s1 = new_promise map_cache 7 ToCall (\<lambda>k. None) (lease_init map_cache)"
    by (simp add: lease_get_def lease_init_def map_cache_def)
  have 0: "?R (lease_init map_cache)" by (simp add: reach_init)
  have 1: "?R ?s1" by (rule reach_step [OF 0 lease_step.get])
  have 2: "?R (lease_call False 0 ?s1)" by (rule reach_step [OF 1 lease_step.call]) (unfold s1, simp_all add: new_promise_def lease_init_def)
  have 3: "?R leased" unfolding leased_def
    by (rule reach_step [OF 2 lease_step.fetched]) (unfold s1, simp_all add: lease_call_def new_promise_def lease_init_def)
  have f: "(7, 0) \<in> lc_futures leased" "lc_phase leased 0 = Fulfilled (Inr ''tree'')"
    unfolding leased_def s1 by (simp_all add: lease_fetched_def lease_call_def new_promise_def lease_init_def)
  from lease_cache_correct [OF map_cache_laws 3 f(1)] f(2) show ?thesis by simp
qed

end
