(* ===== verification/Dynamic_Event.thy ===== *)
theory Dynamic_Event
  imports Eden_Prelude "HOL-Library.Word"
begin

text \<open>
  \<open>DynamicEvent\<close> of \<open>telemetry/DynamicEvent.h\<close> and \<open>.cpp\<close>: the named values of a log event, one map for
  each type.  A name can be added once; strings are made valid UTF-8, doubles have to be finite, and
  integers can be truncated to their highest bits.

  \<open>ensureValidUtf8\<close>, which is built on folly, and the test of a double are parameters; doubles are
  values of any type.  \<open>addTruncatedInt\<close> is undefined for 0, where \<open>__builtin_clzll\<close> is; that is \<open>None\<close>.
\<close>

unbundle bit_operations_syntax

section \<open>Events\<close>

record 'd dynamic_event =
  de_ints :: "string \<rightharpoonup> 64 word"
  de_strings :: "string \<rightharpoonup> string"
  de_doubles :: "string \<rightharpoonup> 'd"
  de_stringVecs :: "string \<rightharpoonup> string list"
  de_stringSets :: "string \<rightharpoonup> string set"

definition empty_event :: "'d dynamic_event" where
  "empty_event = \<lparr>de_ints = (\<lambda>n. None), de_strings = (\<lambda>n. None), de_doubles = (\<lambda>n. None), de_stringVecs = (\<lambda>n. None), de_stringSets = (\<lambda>n. None)\<rparr>"

definition addInt :: "string \<Rightarrow> 64 word \<Rightarrow> 'd dynamic_event \<Rightarrow> unit result \<times> 'd dynamic_event" where
  "addInt name val e = (if de_ints e name \<noteq> None then (Inl LogicError, e) else (Inr (), e\<lparr>de_ints := (de_ints e)(name \<mapsto> val)\<rparr>))"

definition addBool :: "string \<Rightarrow> bool \<Rightarrow> 'd dynamic_event \<Rightarrow> unit result \<times> 'd dynamic_event" where
  "addBool name val e = addInt name (if val then 1 else 0) e"

definition addString :: "(string \<Rightarrow> string) \<Rightarrow> string \<Rightarrow> string \<Rightarrow> 'd dynamic_event \<Rightarrow> unit result \<times> 'd dynamic_event" where
  "addString ensureValidUtf8 name val e =
     (let validatedValue = ensureValidUtf8 val
      in if de_strings e name \<noteq> None then (Inl LogicError, e) else (Inr (), e\<lparr>de_strings := (de_strings e)(name \<mapsto> validatedValue)\<rparr>))"

definition addDouble :: "('d \<Rightarrow> bool) \<Rightarrow> string \<Rightarrow> 'd \<Rightarrow> 'd dynamic_event \<Rightarrow> unit result \<times> 'd dynamic_event" where
  "addDouble isfinite name val e =
     (if \<not> isfinite val then (Inl CheckFailed, e)
      else if de_doubles e name \<noteq> None then (Inl LogicError, e) else (Inr (), e\<lparr>de_doubles := (de_doubles e)(name \<mapsto> val)\<rparr>))"

definition addStringVec :: "(string \<Rightarrow> string) \<Rightarrow> string \<Rightarrow> string list \<Rightarrow> 'd dynamic_event \<Rightarrow> unit result \<times> 'd dynamic_event" where
  "addStringVec ensureValidUtf8 name val e =
     (let validatedValue = map ensureValidUtf8 val
      in if de_stringVecs e name \<noteq> None then (Inl LogicError, e) else (Inr (), e\<lparr>de_stringVecs := (de_stringVecs e)(name \<mapsto> validatedValue)\<rparr>))"

definition addStringSet :: "(string \<Rightarrow> string) \<Rightarrow> string \<Rightarrow> string set \<Rightarrow> 'd dynamic_event \<Rightarrow> unit result \<times> 'd dynamic_event" where
  "addStringSet ensureValidUtf8 name val e =
     (let validatedValue = ensureValidUtf8 ` val
      in if de_stringSets e name \<noteq> None then (Inl LogicError, e) else (Inr (), e\<lparr>de_stringSets := (de_stringSets e)(name \<mapsto> validatedValue)\<rparr>))"

section \<open>Truncated integers\<close>

text \<open>\<open>64 - __builtin_clzll(v)\<close> is the number of binary digits of \<open>v\<close>.\<close>

fun bit_length :: "nat \<Rightarrow> nat" where
  "bit_length n = (if n = 0 then 0 else 1 + bit_length (n div 2))"

declare bit_length.simps [simp del]

definition truncated_int :: "64 word \<Rightarrow> nat \<Rightarrow> 64 word" where
  "truncated_int val bits_to_keep =
     (let highest = bit_length (unat val)
      in if highest \<le> bits_to_keep then val
         else let mask = push_bit bits_to_keep 1 - 1;
                  mask = push_bit (highest - bits_to_keep) mask
              in val AND mask)"

definition addTruncatedInt :: "string \<Rightarrow> 64 word \<Rightarrow> nat \<Rightarrow> 'd dynamic_event \<Rightarrow> (unit result \<times> 'd dynamic_event) option" where
  "addTruncatedInt name val bits_to_keep e =
     (if 64 < bits_to_keep then Some (Inl CheckFailed, e)
      else if val = 0 then None
      else Some (addInt name (truncated_int val bits_to_keep) e))"

section \<open>What an event holds\<close>

datatype 'd event_op =
  AddInt string "64 word"
| AddTruncatedInt string "64 word" nat
| AddBool string bool
| AddString string string
| AddDouble string 'd
| AddStringVec string "string list"
| AddStringSet string "string set"

text \<open>An operation; an undefined one may leave anything, so that it ends the run.\<close>

definition event_op :: "(string \<Rightarrow> string) \<Rightarrow> ('d \<Rightarrow> bool) \<Rightarrow> 'd event_op \<Rightarrow> 'd dynamic_event \<Rightarrow> (unit result \<times> 'd dynamic_event) option" where
  "event_op utf8 isfinite op e =
     (case op of
        AddInt name val \<Rightarrow> Some (addInt name val e)
      | AddTruncatedInt name val bits \<Rightarrow> addTruncatedInt name val bits e
      | AddBool name val \<Rightarrow> Some (addBool name val e)
      | AddString name val \<Rightarrow> Some (addString utf8 name val e)
      | AddDouble name val \<Rightarrow> Some (addDouble isfinite name val e)
      | AddStringVec name val \<Rightarrow> Some (addStringVec utf8 name val e)
      | AddStringSet name val \<Rightarrow> Some (addStringSet utf8 name val e))"

text \<open>What can be written as JSON: strings are valid, doubles finite.\<close>

definition event_valid :: "(string \<Rightarrow> bool) \<Rightarrow> ('d \<Rightarrow> bool) \<Rightarrow> 'd dynamic_event \<Rightarrow> bool" where
  "event_valid valid isfinite e \<longleftrightarrow>
     (\<forall>s \<in> ran (de_strings e). valid s) \<and> (\<forall>d \<in> ran (de_doubles e). isfinite d) \<and>
     (\<forall>v \<in> ran (de_stringVecs e). \<forall>s \<in> set v. valid s) \<and> (\<forall>v \<in> ran (de_stringSets e). \<forall>s \<in> v. valid s)"

text \<open>Everything that was there is still there.\<close>

definition event_extends :: "'d dynamic_event \<Rightarrow> 'd dynamic_event \<Rightarrow> bool" where
  "event_extends e e' \<longleftrightarrow>
     de_ints e \<subseteq>\<^sub>m de_ints e' \<and> de_strings e \<subseteq>\<^sub>m de_strings e' \<and> de_doubles e \<subseteq>\<^sub>m de_doubles e' \<and>
     de_stringVecs e \<subseteq>\<^sub>m de_stringVecs e' \<and> de_stringSets e \<subseteq>\<^sub>m de_stringSets e'"

lemma map_le_upd: "m n = None \<Longrightarrow> m \<subseteq>\<^sub>m m(n \<mapsto> v)"
  by (auto simp: map_le_def dom_def)

lemmas add_defs = addInt_def addBool_def addString_def addDouble_def addStringVec_def addStringSet_def addTruncatedInt_def Let_def


section \<open>Truncation\<close>

lemma bit_length_bound: "n < 2 ^ bit_length n"
proof (induction n rule: bit_length.induct)
  case (1 n)
  then show ?case by (subst bit_length.simps) (cases "n = 0"; simp)
qed

lemma bit_length_least: "n \<noteq> 0 \<Longrightarrow> 2 ^ (bit_length n - 1) \<le> n"
proof (induction n rule: bit_length.induct)
  case (1 n)
  show ?case
  proof (cases "n div 2 = 0")
    case True
    then have "bit_length (n div 2) = 0" by (subst bit_length.simps) simp
    then show ?thesis using 1(2) by (subst bit_length.simps) simp
  next
    case False
    then have "2 ^ (bit_length (n div 2) - 1) \<le> n div 2" using 1 by simp
    moreover have "0 < bit_length (n div 2)" using False by (subst bit_length.simps) simp
    then have "(2 :: nat) ^ bit_length (n div 2) = 2 * 2 ^ (bit_length (n div 2) - 1)" by (simp flip: power_Suc)
    ultimately have "2 ^ bit_length (n div 2) \<le> n" by linarith
    then show ?thesis using 1(2) by (subst bit_length.simps) simp
  qed
qed

lemma bit_length_le: "n < 2 ^ k \<Longrightarrow> bit_length n \<le> k"
proof (cases "n = 0")
  case False
  assume "n < 2 ^ k"
  with bit_length_least [OF False] have "(2 :: nat) ^ (bit_length n - 1) < 2 ^ k" by linarith
  then have "bit_length n - 1 < k" by (simp only: power_strict_increasing_iff)
  then show ?thesis by simp
qed (subst bit_length.simps, simp)

lemma truncated_bits:
  assumes "b < bit_length (unat v)"
  shows "truncated_int v b = push_bit (bit_length (unat v) - b) (drop_bit (bit_length (unat v) - b) v)"
proof (rule bit_word_eqI)
  fix n
  assume n: "n < LENGTH(64)"
  let ?h = "bit_length (unat v)"
  have "unat v < 2 ^ 64" using unsigned_less [of v] by simp
  then have h: "?h \<le> 64" by (rule bit_length_le)
  have top: "n < ?h" if "bit v n"
  proof (rule ccontr)
    assume "\<not> n < ?h"
    then have "(2 :: nat) ^ ?h \<le> 2 ^ n" by (intro power_increasing) simp_all
    then have "unat v < 2 ^ n" using bit_length_bound [of "unat v"] by linarith
    then have "\<not> bit (unat v) n" by (simp add: bit_iff_odd)
    then show False using that by (simp add: bit_unsigned_iff)
  qed
  have e: "truncated_int v b = v AND push_bit (?h - b) (mask b)"
    using assms by (simp add: truncated_int_def Let_def mask_eq_exp_minus_1 push_bit_eq_mult)
  have "bit (truncated_int v b) n \<longleftrightarrow> bit v n \<and> ?h - b \<le> n \<and> n - (?h - b) < b"
    using n unfolding e by (auto simp: bit_and_iff bit_push_bit_iff bit_mask_iff)
  also have "\<dots> \<longleftrightarrow> bit v n \<and> ?h - b \<le> n" using top assms by auto
  also have "\<dots> \<longleftrightarrow> bit (push_bit (?h - b) (drop_bit (?h - b) v)) n"
    using n by (auto simp: bit_push_bit_iff bit_drop_bit_eq)
  finally show "bit (truncated_int v b) n = bit (push_bit (?h - b) (drop_bit (?h - b) v)) n" .
qed

text \<open>
  Truncation keeps the highest \<open>b\<close> of the \<open>h\<close> binary digits of a value and makes the others zero; a
  value that has no more than \<open>b\<close> digits is kept.  The result is at most the value, and less than
  \<open>2 ^ (h - b)\<close> below it.
\<close>

theorem addTruncatedInt_bounds:
  assumes "h = bit_length (unat v)"
  shows "unat (truncated_int v b) = unat v div 2 ^ (h - b) * 2 ^ (h - b) \<and>
    unat (truncated_int v b) \<le> unat v \<and> unat v < unat (truncated_int v b) + 2 ^ (h - b)"
proof -
  have "unat (truncated_int v b) = unat v div 2 ^ (h - b) * 2 ^ (h - b)"
  proof (cases "b < h")
    case True
    have "unat v < 2 ^ 64" using unsigned_less [of v] by simp
    then have "unat v div 2 ^ (h - b) * 2 ^ (h - b) < 2 ^ 64" by (meson div_times_less_eq_dividend le_less_trans)
    moreover have "unat (truncated_int v b) = take_bit 64 (push_bit (h - b) (drop_bit (h - b) (take_bit 64 (unat v))))"
      using True assms truncated_bits [of b v] by (simp only: unsigned_push_bit_eq unsigned_drop_bit_eq len_num1 len_bit0 len_bit1) simp
    ultimately show ?thesis using \<open>unat v < 2 ^ 64\<close> by (simp add: take_bit_nat_eq_self push_bit_eq_mult drop_bit_eq_div)
  next
    case False
    then show ?thesis using assms by (simp add: truncated_int_def)
  qed
  moreover have "unat v = unat v div 2 ^ (h - b) * 2 ^ (h - b) + unat v mod 2 ^ (h - b)" by (simp only: div_mult_mod_eq)
  moreover have "unat v mod 2 ^ (h - b) < 2 ^ (h - b)" by simp
  ultimately show ?thesis by linarith
qed

section \<open>Witnesses\<close>


theorem addTruncatedInt_bounds_witness: "unat (truncated_int 1000 4) = 960"
proof -
  have "bit_length 1000 = 10" by (simp add: bit_length.simps)
  then show ?thesis using addTruncatedInt_bounds [of 10 1000 4] by simp
qed

end
