(* ===== verification/Small_Utils.thy ===== *)
theory Small_Utils
  imports Path_Syntax Std_Algorithms "HOL-Library.Word"
begin

text \<open>
  Small helpers: \<open>split\<close> and \<open>ends_with\<close> of \<open>String.h\<close> and \<open>String.cpp\<close>, \<open>sorted_insert\<close> of \<open>SortedInsert.h\<close>,
  \<open>assertZeroBits\<close> of \<open>Memory.cpp\<close>, the order of \<open>timespec\<close>s of \<open>TimeUtil.cpp\<close>, the types of directory
  entries of \<open>DirType.h\<close>, \<open>ProcessId\<close> and \<open>OptionalProcessId\<close> of \<open>os/ProcessId.h\<close>, and
  \<open>isErrnoFromHangingMount\<close> of \<open>ErrnoUtils.h\<close>.
\<close>

unbundle bit_operations_syntax

section \<open>Strings\<close>

definition ends_with :: "string \<Rightarrow> string \<Rightarrow> bool" where
  "ends_with haystack needle \<longleftrightarrow>
     length haystack \<ge> length needle \<and> needle = drop (length haystack - length needle) haystack"

function split_string :: "char \<Rightarrow> string \<Rightarrow> string list" where
  "split_string delim s =
     (case find_index (\<lambda>c. c = delim) 0 s of
        None \<Rightarrow> [s]
      | Some i \<Rightarrow> take i s # split_string delim (drop (i + 1) s))"
  by pat_completeness auto
termination
  by (relation "measure (\<lambda>(delim, s). length s)") (auto dest!: find_index_Some)

declare split_string.simps [simp del]

lemma split_string_plain:
  assumes "delim \<notin> set p"
  shows "split_string delim p = [p]"
proof -
  have "find_index (\<lambda>c. c = delim) 0 p = None" using assms by (auto simp: find_index_None)
  then show ?thesis by (subst split_string.simps) simp
qed

lemma split_string_Cons:
  assumes "delim \<notin> set p"
  shows "split_string delim (p @ delim # r) = p # split_string delim r"
proof -
  have "takeWhile (\<lambda>c. c \<noteq> delim) (p @ delim # r) = p" using assms by (induction p) auto
  then have "find_index (\<lambda>c. c = delim) 0 (p @ delim # r) = Some (length p)" by (simp add: find_index_def find_from_eq)
  then show ?thesis by (subst split_string.simps) simp
qed

lemma split_join_id: "ps \<noteq> [] \<Longrightarrow> \<forall>p \<in> set ps. delim \<notin> set p \<Longrightarrow> split_string delim (join [delim] ps) = ps"
  by (induction "[delim]" ps rule: join.induct) (auto simp: split_string_plain split_string_Cons)

lemma split_string_nonempty [simp]: "split_string delim s \<noteq> []"
  by (subst split_string.simps) (simp split: option.split)

lemma join_split_id: "join [delim] (split_string delim s) = s \<and> (\<forall>p \<in> set (split_string delim s). delim \<notin> set p)"
proof (induction delim s rule: split_string.induct)
  case (1 delim s)
  show ?case
  proof (cases "find_index (\<lambda>c. c = delim) 0 s")
    case None
    then have "delim \<notin> set s" by (auto simp: find_index_None)
    then show ?thesis by (simp add: split_string_plain)
  next
    case (Some i)
    note f = find_index_split [OF Some]
    have s: "s = take i s @ delim # drop (i + 1) s" using f(1,2) by simp
    have p: "delim \<notin> set (take i s)" using f(3) by auto
    have "split_string delim s = take i s # split_string delim (drop (i + 1) s)" by (subst split_string.simps) (simp add: Some)
    then show ?thesis using 1 [OF Some] p s by (simp add: join_Cons)
  qed
qed

text \<open>
  \<open>split\<close> ends with the parts between the delimiters, and is the inverse of joining: the parts, none of which contains the delimiter, joined
  by it are the string, and there is no other way to write the string so.
\<close>

theorem split_string_correct:
  "join [delim] (split_string delim s) = s \<and> (\<forall>p \<in> set (split_string delim s). delim \<notin> set p) \<and>
   (\<forall>ps. ps \<noteq> [] \<and> (\<forall>p \<in> set ps. delim \<notin> set p) \<and> join [delim] ps = s \<longrightarrow> ps = split_string delim s)"
  using join_split_id split_join_id by metis

theorem split_string_correct_witness: "split_string CHR ''/'' ''a//b'' = [''a'', '''', ''b'']"
proof -
  have "[''a'', '''', ''b''] \<noteq> [] \<and> (\<forall>p \<in> set [''a'', '''', ''b'']. CHR ''/'' \<notin> set p) \<and> join [CHR ''/''] [''a'', '''', ''b''] = ''a//b''"
    by simp
  then show ?thesis using split_string_correct [of "CHR ''/''" "''a//b''"] by metis
qed

section \<open>Ends of strings\<close>

text \<open>\<open>ends_with\<close> and \<open>starts_with\<close> are what their names say.\<close>

theorem starts_ends_with:
  "(starts_with s p \<longleftrightarrow> (\<exists>r. s = p @ r)) \<and> (ends_with s p \<longleftrightarrow> (\<exists>r. s = r @ p))"
proof -
  have "ends_with s p \<longleftrightarrow> (\<exists>r. s = r @ p)"
  proof
    assume "ends_with s p"
    then have "s = take (length s - length p) s @ p" by (metis append_take_drop_id ends_with_def)
    then show "\<exists>r. s = r @ p" by blast
  qed (auto simp: ends_with_def)
  moreover have "starts_with s p \<longleftrightarrow> (\<exists>r. s = p @ r)"
  proof
    assume "starts_with s p"
    then have "s = p @ drop (length p) s" by (metis append_take_drop_id starts_with_def)
    then show "\<exists>r. s = p @ r" by blast
  qed (auto simp: starts_with_def)
  ultimately show ?thesis by blast
qed

section \<open>Sorted insertion\<close>

definition sorted_insert :: "('a \<Rightarrow> 'a \<Rightarrow> bool) \<Rightarrow> 'a list \<Rightarrow> 'a \<Rightarrow> nat \<times> 'a list" where
  "sorted_insert compare vec val =
     (let find = lower_bound (\<lambda>x. compare x val) vec 0 (length vec)
      in if find \<noteq> length vec \<and> \<not> compare val (vec ! find) then (find, vec)
         else (find, take find vec @ val # drop find vec))"

text \<open>
  \<open>sorted_insert\<close> keeps a vector sorted without equivalent elements.  It returns the place of an
  element that is equivalent to the value; if there was none the value is inserted there, and
  otherwise nothing changes.
\<close>

theorem sorted_insert_correct:
  assumes "strict_weak_order compare" "sorted_wrt compare vec" "sorted_insert compare vec val = (i, vec')"
  shows "sorted_wrt compare vec' \<and> i < length vec' \<and> \<not> compare (vec' ! i) val \<and> \<not> compare val (vec' ! i) \<and>
    (if \<exists>x \<in> set vec. \<not> compare x val \<and> \<not> compare val x then vec' = vec
     else set vec' = insert val (set vec) \<and> vec' ! i = val)"
proof -
  have irr: "\<not> compare a a" and tr: "compare a b \<Longrightarrow> compare b c \<Longrightarrow> compare a c" for a b c
    by (rule strict_weak_order.irrefl [OF assms(1)]) (rule strict_weak_order.trans [OF assms(1)])
  define k where "k = length (takeWhile (\<lambda>x. compare x val) vec)"
  have "sorted_wrt (\<lambda>x y. compare y val \<longrightarrow> compare x val) vec"
    using assms(2) by (rule sorted_wrt_mono_rel [rotated]) (blast intro: tr)
  then have k: "lower_bound (\<lambda>x. compare x val) vec 0 (length vec) = k" unfolding k_def by (rule lower_bound_takeWhile)
  have before: "\<forall>x \<in> set (take k vec). compare x val" by (auto simp: k_def takeWhile_eq_take [symmetric] dest: set_takeWhileD)
  have vec: "vec = take k vec @ drop k vec" by simp
  show ?thesis
  proof (cases "k \<noteq> length vec \<and> \<not> compare val (vec ! k)")
    case True
    then have kl: "k < length vec" using length_takeWhile_le [of "\<lambda>x. compare x val" vec] by (simp add: k_def)
    then have "\<not> compare (vec ! k) val" using nth_length_takeWhile [of "\<lambda>x. compare x val" vec] by (simp add: k_def)
    moreover have "i = k" "vec' = vec" using assms(3) True by (auto simp: sorted_insert_def k)
    ultimately show ?thesis using True kl assms(2) by auto
  next
    case False
    then have iv: "i = k" "vec' = take k vec @ val # drop k vec" using assms(3) by (auto simp: sorted_insert_def k)
    have kl: "k \<le> length vec" using length_takeWhile_le [of "\<lambda>x. compare x val" vec] by (simp add: k_def)
    have sp: "sorted_wrt compare (take k vec)" "sorted_wrt compare (drop k vec)" "\<forall>x \<in> set (take k vec). \<forall>y \<in> set (drop k vec). compare x y"
      using assms(2) vec by (metis sorted_wrt_append)+
    have after: "\<forall>y \<in> set (drop k vec). compare val y"
    proof (cases "drop k vec")
      case (Cons y ys)
      then have "compare val y" using False kl by (metis Cons_nth_drop_Suc drop_eq_Nil list.distinct(1) list.inject nat_less_le)
      then show ?thesis using sp(2) Cons by (auto intro: tr)
    qed simp
    have "vec' ! i = val" "i < length vec'" using iv kl by (simp_all add: nth_append)
    moreover have "sorted_wrt compare vec'" unfolding iv(2) using sp before after by (auto simp: sorted_wrt_append intro: tr)
    moreover have "\<forall>x \<in> set vec. compare x val \<or> compare val x" using before after vec by (metis Un_iff set_append)
    moreover have "set vec' = insert val (set vec)" unfolding iv(2) by (metis Un_insert_right append_take_drop_id list.simps(15) set_append)
    ultimately show ?thesis using irr by auto
  qed
qed

theorem sorted_insert_correct_witness: "sorted_wrt (<) (snd (sorted_insert (<) [1, 4, 9 :: int] 5))"
proof -
  obtain i v where r: "sorted_insert (<) [1, 4, 9 :: int] 5 = (i, v)" by fastforce
  have "strict_weak_order ((<) :: int \<Rightarrow> int \<Rightarrow> bool)" by unfold_locales auto
  from sorted_insert_correct [OF this _ r] show ?thesis by (simp add: r)
qed

section \<open>Zero bits\<close>

text \<open>The test of \<open>assertZeroBits\<close>: the first byte is zero, and the bytes are equal to themselves one place further.\<close>

definition assertZeroBits :: "8 word list \<Rightarrow> unit result" where
  "assertZeroBits memory =
     (if memory = [] then Inr ()
      else if memory ! 0 \<noteq> 0 \<or> take (length memory - 1) memory \<noteq> drop 1 memory then Inl CheckFailed else Inr ())"

text \<open>\<open>assertZeroBits\<close> returns exactly if all bytes are zero.\<close>

theorem assertZeroBits_iff: "assertZeroBits memory = Inr () \<longleftrightarrow> (\<forall>b \<in> set memory. b = 0)"
proof (cases memory)
  case (Cons b bs)
  have "take (length memory - 1) memory = drop 1 memory \<longleftrightarrow> (\<forall>i < length bs. (b # bs) ! i = bs ! i)"
    by (auto simp: Cons list_eq_iff_nth_eq)
  also have "\<dots> \<longleftrightarrow> (\<forall>x \<in> set bs. x = b)"
  proof
    assume eq: "\<forall>i < length bs. (b # bs) ! i = bs ! i"
    have "i < length bs \<Longrightarrow> bs ! i = b" for i
    proof (induction i)
      case 0
      then show ?case using eq by (metis nth_Cons_0)
    next
      case (Suc i)
      then have "bs ! Suc i = (b # bs) ! Suc i" using eq by metis
      then show ?case using Suc by simp
    qed
    then show "\<forall>x \<in> set bs. x = b" by (auto simp: in_set_conv_nth)
  next
    assume "\<forall>x \<in> set bs. x = b"
    then have "bs ! i = b" if "i < length bs" for i using that nth_mem by blast
    then show "\<forall>i < length bs. (b # bs) ! i = bs ! i" by (auto simp: nth_Cons split: nat.split)
  qed
  finally show ?thesis using Cons by (auto simp: assertZeroBits_def)
qed (simp add: assertZeroBits_def)

section \<open>Times\<close>

record timespec =
  tv_sec :: int
  tv_nsec :: int

definition timespec_less :: "timespec \<Rightarrow> timespec \<Rightarrow> bool result" where
  "timespec_less a b =
     (if \<not> tv_nsec a < 1000000000 \<or> \<not> tv_nsec b < 1000000000 then Inl CheckFailed
      else Inr (if tv_sec a = tv_sec b then tv_nsec a < tv_nsec b else tv_sec a < tv_sec b))"

definition timespec_less_eq :: "timespec \<Rightarrow> timespec \<Rightarrow> bool result" where
  "timespec_less_eq a b =
     (if \<not> tv_nsec a < 1000000000 \<or> \<not> tv_nsec b < 1000000000 then Inl CheckFailed
      else Inr (if tv_sec a = tv_sec b then tv_nsec a \<le> tv_nsec b else tv_sec a < tv_sec b))"

text \<open>Times are compared as numbers of nanoseconds.\<close>

theorem timespec_order:
  assumes "0 \<le> tv_nsec a" "0 \<le> tv_nsec b" "tv_nsec a < 1000000000" "tv_nsec b < 1000000000"
  shows "timespec_less a b = Inr (tv_sec a * 1000000000 + tv_nsec a < tv_sec b * 1000000000 + tv_nsec b) \<and>
    timespec_less_eq a b = Inr (tv_sec a * 1000000000 + tv_nsec a \<le> tv_sec b * 1000000000 + tv_nsec b)"
  using assms by (auto simp: timespec_less_def timespec_less_eq_def)

section \<open>Types of directory entries\<close>

datatype dtype_t = Unknown | Fifo | Char | Dir | Regular | Symlink | Socket | Block | Whiteout

definition dtype_code :: "dtype_t \<Rightarrow> 8 word" where
  "dtype_code dt =
     (case dt of Unknown \<Rightarrow> 0 | Fifo \<Rightarrow> 1 | Char \<Rightarrow> 2 | Dir \<Rightarrow> 4 | Block \<Rightarrow> 6 | Regular \<Rightarrow> 8 | Symlink \<Rightarrow> 10 | Socket \<Rightarrow> 12 | Whiteout \<Rightarrow> 14)"

definition dtype_to_mode :: "dtype_t \<Rightarrow> 32 word" where
  "dtype_to_mode dt = push_bit 12 (ucast (dtype_code dt))"

text \<open>The result is the code of the type, since the cast of an enum checks nothing.\<close>

definition mode_to_dtype :: "32 word \<Rightarrow> 8 word" where
  "mode_to_dtype mode = ucast (drop_bit 12 (mode AND 0xF000))"

text \<open>The type of an entry is recovered from its mode, whatever the permission bits are.\<close>

theorem dtype_mode_roundtrip:
  assumes "perm AND 0xF000 = 0"
  shows "mode_to_dtype (dtype_to_mode dt OR perm) = dtype_code dt"
proof -
  have "(dtype_to_mode dt OR perm) AND 0xF000 = dtype_to_mode dt AND 0xF000"
    using assms by (simp add: bit.conj_disj_distrib2)
  moreover have "ucast (drop_bit 12 (dtype_to_mode dt AND 0xF000)) = dtype_code dt"
    by (cases dt) (simp_all add: dtype_to_mode_def dtype_code_def)
  ultimately show ?thesis by (simp add: mode_to_dtype_def)
qed

section \<open>Process ids\<close>

definition make_ProcessId :: "bool \<Rightarrow> 32 word \<Rightarrow> (32 word) result" where
  "make_ProcessId win pid =
     (if (if win then pid = - 1 else sint pid < 0) then Inl RuntimeError else Inr pid)"

definition kUnset :: "32 word" where
  "kUnset = NOT 0"

definition OptionalProcessId :: "(32 word) option \<Rightarrow> 32 word" where
  "OptionalProcessId pid = (case pid of None \<Rightarrow> kUnset | Some p \<Rightarrow> p)"

definition opt_value :: "32 word \<Rightarrow> (32 word) result" where
  "opt_value pid = (if pid = kUnset then Inl RuntimeError else Inr pid)"

definition valueOrZero :: "32 word \<Rightarrow> 32 word" where
  "valueOrZero pid = (if pid = kUnset then 0 else pid)"

text \<open>
  \<open>OptionalProcessId\<close> is an optional \<open>ProcessId\<close> in 32 bits: no checked process id, on unix and on
  Windows, is taken for an unset one.
\<close>

theorem optional_pid_refines:
  assumes "pid = None \<or> (\<exists>p. pid = Some p \<and> make_ProcessId win p = Inr p)"
  shows "opt_value (OptionalProcessId pid) = (case pid of None \<Rightarrow> Inl RuntimeError | Some p \<Rightarrow> Inr p) \<and>
    valueOrZero (OptionalProcessId pid) = (case pid of None \<Rightarrow> 0 | Some p \<Rightarrow> p)"
proof -
  have "make_ProcessId win kUnset = Inl RuntimeError" by (simp add: make_ProcessId_def kUnset_def)
  then show ?thesis using assms by (auto simp: OptionalProcessId_def opt_value_def valueOrZero_def)
qed

theorem optional_pid_refines_witness: "opt_value (OptionalProcessId (Some 7)) = Inr 7"
  using optional_pid_refines [of "Some 7" False] by (simp add: make_ProcessId_def)

theorem dtype_mode_roundtrip_witness: "mode_to_dtype (dtype_to_mode Symlink OR 0x1FF) = dtype_code Symlink"
  using dtype_mode_roundtrip [of "0x1FF" Symlink] by simp

theorem timespec_order_witness: "timespec_less \<lparr>tv_sec = 1, tv_nsec = 5\<rparr> \<lparr>tv_sec = 2, tv_nsec = 0\<rparr> = Inr True"
  using timespec_order [of "\<lparr>tv_sec = 1, tv_nsec = 5\<rparr>" "\<lparr>tv_sec = 2, tv_nsec = 0\<rparr>"] by simp

section \<open>Errors of mounts\<close>

definition isErrnoFromHangingMount :: "int \<Rightarrow> bool \<Rightarrow> bool" where
  "isErrnoFromHangingMount err isNFS =
     (if isNFS then err = 107 \<or> err = 5 \<or> err = 110 else err = 107 \<or> err = 5)"

end
