(* ===== verification/Io_Future.thy ===== *)
theory Io_Future
  imports Transition_System
begin

text \<open>
  \<open>IoFuture\<close> of \<open>IoFuture.h\<close> and \<open>IoFuture.cpp\<close>: a future for the next event of a socket, which is both
  an event handler and a timeout.

  The promises of successive calls of \<open>wait\<close> are numbered; \<open>io_outcome\<close> is how each was fulfilled, and the
  current one is the last.  \<open>io_timeout\<close> and \<open>io_handler\<close> say whether the timeout is scheduled and the
  handler registered; both are one-shot.  Fulfilling a promise that is already fulfilled throws, which
  ends the program in a \<open>noexcept\<close> callback, as does a failed \<open>XCHECK\<close>: \<open>io_crashed\<close>.
\<close>

section \<open>Waiting\<close>

datatype io_outcome = Io_events nat | Io_canceled | Io_timedOut | Io_error

record io_future =
  io_waits :: nat
  io_outcome :: "nat \<rightharpoonup> io_outcome"
  io_timeout :: bool
  io_handler :: bool
  io_crashed :: bool

definition io_new :: io_future where
  "io_new = \<lparr>io_waits = 0, io_outcome = (\<lambda>n. None), io_timeout = False, io_handler = False, io_crashed = False\<rparr>"

text \<open>Is the current promise fulfilled?  The empty promise of a new object counts as fulfilled.\<close>

definition isFulfilled :: "io_future \<Rightarrow> bool" where
  "isFulfilled s \<longleftrightarrow> io_waits s = 0 \<or> io_outcome s (io_waits s - 1) \<noteq> None"

definition io_fulfil :: "io_outcome \<Rightarrow> io_future \<Rightarrow> io_future" where
  "io_fulfil r s =
     (if isFulfilled s then s\<lparr>io_crashed := True\<rparr> else s\<lparr>io_outcome := (io_outcome s)(io_waits s - 1 \<mapsto> r)\<rparr>)"

text \<open>
  \<open>wait\<close>: \<open>persist\<close> is the flag \<open>EventHandler::PERSIST\<close>, \<open>scheduled\<close> and \<open>registered\<close> are the results of
  \<open>scheduleTimeout\<close> and \<open>registerHandler\<close>.  A timeout that cannot be scheduled again stays as it is.
\<close>

definition io_wait :: "bool \<Rightarrow> bool \<Rightarrow> bool \<Rightarrow> io_future \<Rightarrow> io_future" where
  "io_wait persist scheduled registered s =
     (let s = (if isFulfilled s then s else io_fulfil Io_canceled s);
          s = s\<lparr>io_waits := io_waits s + 1\<rparr>
      in if persist then s\<lparr>io_crashed := True\<rparr>
         else if \<not> scheduled then io_fulfil Io_error s
         else let s = s\<lparr>io_timeout := True\<rparr>
              in if \<not> registered then io_fulfil Io_error (s\<lparr>io_handler := False\<rparr>)
                 else s\<lparr>io_handler := True\<rparr>)"

text \<open>The event base calls the handler, which is registered no longer then, or the timeout.\<close>

definition io_handlerReady :: "nat \<Rightarrow> io_future \<Rightarrow> io_future" where
  "io_handlerReady events s = io_fulfil (Io_events events) (s\<lparr>io_handler := False, io_timeout := False\<rparr>)"

definition io_timeoutExpired :: "io_future \<Rightarrow> io_future" where
  "io_timeoutExpired s = io_fulfil Io_timedOut (s\<lparr>io_timeout := False, io_handler := False\<rparr>)"

text \<open>The steps; if \<open>reliable\<close> is set, scheduling and registering succeed.\<close>

inductive io_step :: "bool \<Rightarrow> io_future \<Rightarrow> io_future \<Rightarrow> bool" for reliable where
  io_wait_step: "\<not> io_crashed s \<Longrightarrow> reliable \<longrightarrow> scheduled \<and> registered \<Longrightarrow> io_step reliable s (io_wait False scheduled registered s)"
| io_ready_step: "\<not> io_crashed s \<Longrightarrow> io_handler s \<Longrightarrow> io_step reliable s (io_handlerReady events s)"
| io_expired_step: "\<not> io_crashed s \<Longrightarrow> io_timeout s \<Longrightarrow> io_step reliable s (io_timeoutExpired s)"

section \<open>Every wait is answered once\<close>

text \<open>
  The timeout and the handler are armed exactly while the current promise waits, and all earlier
  promises are fulfilled.
\<close>

definition io_inv :: "io_future \<Rightarrow> bool" where
  "io_inv s \<longleftrightarrow>
     \<not> io_crashed s \<and> io_timeout s = (\<not> isFulfilled s) \<and> io_handler s = (\<not> isFulfilled s) \<and>
     (\<forall>n. n + 1 < io_waits s \<longrightarrow> io_outcome s n \<noteq> None) \<and> (\<forall>n. io_waits s \<le> n \<longrightarrow> io_outcome s n = None)"

lemma io_inv_step: "io_step True s s' \<Longrightarrow> io_inv s \<Longrightarrow> io_inv s'"
proof (induction rule: io_step.induct)
  case (io_wait_step s scheduled registered)
  then have r: "scheduled" "registered" and inv: "io_inv s" by simp_all
  let ?s = "if isFulfilled s then s else io_fulfil Io_canceled s"
  have answered: "io_outcome ?s n \<noteq> None" if "n < io_waits s" for n
  proof (cases "n + 1 = io_waits s")
    case True
    then have "io_waits s - 1 = n" by simp
    then show ?thesis using that by (auto simp: isFulfilled_def io_fulfil_def)
  next
    case False
    then have "io_outcome s n \<noteq> None" using inv that by (simp add: io_inv_def)
    then show ?thesis by (auto simp: io_fulfil_def)
  qed
  have keep: "io_waits ?s = io_waits s" "\<not> io_crashed ?s" "\<And>n. io_waits s \<le> n \<Longrightarrow> io_outcome ?s n = None"
    using inv by (auto simp: io_inv_def io_fulfil_def isFulfilled_def)
  have "io_wait False scheduled registered s = ?s\<lparr>io_waits := io_waits s + 1, io_timeout := True, io_handler := True\<rparr>"
    using r keep(1) by (simp add: io_wait_def Let_def)
  then show ?case using answered keep by (simp add: io_inv_def isFulfilled_def)
next
  case (io_ready_step s events)
  then show ?case unfolding io_inv_def io_handlerReady_def isFulfilled_def io_fulfil_def by (auto split: if_splits)
next
  case (io_expired_step s)
  then show ?case unfolding io_inv_def io_timeoutExpired_def isFulfilled_def io_fulfil_def by (auto split: if_splits)
qed

interpretation io_system: invariant_system "\<lambda>s. s = io_new" "io_step True" io_inv
proof
  show "io_inv s" if "s = io_new" for s using that by (simp add: io_inv_def io_new_def isFulfilled_def)
qed (rule io_inv_step)

lemma outcome_kept: "io_step reliable s s' \<Longrightarrow> io_outcome s n = Some r \<Longrightarrow> io_outcome s' n = Some r"
  by (induction rule: io_step.induct)
    (auto simp: io_wait_def io_handlerReady_def io_timeoutExpired_def io_fulfil_def isFulfilled_def Let_def split: if_splits)

text \<open>
  If scheduling and registering succeed, every future that \<open>wait\<close> returned, except the current one, is
  fulfilled, no outcome ever changes, and the program never ends in a callback; the current future is
  fulfilled, or the timeout is armed and fulfils it.
\<close>

theorem io_future_correct:
  assumes "reachable (\<lambda>s. s = io_new) (io_step True) s"
  shows "\<not> io_crashed s \<and> (\<forall>n. n + 1 < io_waits s \<longrightarrow> io_outcome s n \<noteq> None) \<and>
    (\<forall>s' n r. io_step True s s' \<and> io_outcome s n = Some r \<longrightarrow> io_outcome s' n = Some r) \<and>
    (0 < io_waits s \<longrightarrow> io_outcome s (io_waits s - 1) \<noteq> None \<or>
       io_step True s (io_timeoutExpired s) \<and> io_outcome (io_timeoutExpired s) (io_waits s - 1) = Some Io_timedOut)"
proof -
  have inv: "io_inv s" using io_system.reachable_inv [OF assms] .
  have "io_step True s (io_timeoutExpired s) \<and> io_outcome (io_timeoutExpired s) (io_waits s - 1) = Some Io_timedOut"
    if "0 < io_waits s" "io_outcome s (io_waits s - 1) = None"
  proof -
    have "\<not> isFulfilled s" using that by (simp add: isFulfilled_def)
    then show ?thesis using inv that by (simp add: io_inv_def io_step.io_expired_step) (simp add: io_timeoutExpired_def io_fulfil_def isFulfilled_def)
  qed
  then show ?thesis using inv outcome_kept unfolding io_inv_def by blast
qed

text \<open>
  If the handler cannot be registered, the future fails, but the timeout stays scheduled: when it
  expires, the promise is fulfilled a second time and the program ends.
\<close>

theorem failed_registration_crashes:
  "\<exists>s. reachable (\<lambda>s. s = io_new) (io_step False) s \<and> io_outcome s 0 = Some Io_error \<and> io_timeout s \<and> io_crashed (io_timeoutExpired s)"
proof -
  have 0: "reachable (\<lambda>s. s = io_new) (io_step False) io_new" by (simp add: reach_init)
  have 1: "reachable (\<lambda>s. s = io_new) (io_step False) (io_wait False True False io_new)"
    by (rule reach_step [OF 0 io_step.io_wait_step]) (simp_all add: io_new_def)
  show ?thesis
    by (rule exI, rule conjI [OF 1])
      (simp add: io_wait_def io_timeoutExpired_def io_fulfil_def isFulfilled_def io_new_def)
qed

theorem io_future_correct_witness: "\<not> io_crashed (io_handlerReady 2 (io_wait False True True io_new))"
proof -
  have 0: "reachable (\<lambda>s. s = io_new) (io_step True) io_new" by (simp add: reach_init)
  have 1: "reachable (\<lambda>s. s = io_new) (io_step True) (io_wait False True True io_new)"
    by (rule reach_step [OF 0 io_step.io_wait_step]) (simp_all add: io_new_def)
  have 2: "reachable (\<lambda>s. s = io_new) (io_step True) (io_handlerReady 2 (io_wait False True True io_new))"
    by (rule reach_step [OF 1 io_step.io_ready_step]) (simp_all add: io_wait_def io_new_def isFulfilled_def)
  from io_future_correct [OF 2] show ?thesis by simp
qed

end
