(* ===== verification/Mapped_Vector_Moves.thy ===== *)
theory Mapped_Vector_Moves
  imports Transition_System
begin

text \<open>
  The mappings of \<open>MappedDiskVector\<close> objects of \<open>MappedDiskVector.h\<close>: the move constructor, the move
  assignment and the destructor.

  Objects and mappings are numbers.  The fields \<open>begin_\<close>, \<open>end_\<close>, \<open>map_\<close> and \<open>mapSizeInBytes_\<close> move together, so
  that an object is its mapping, or \<open>None\<close> where \<open>map_\<close> is null.  \<open>vm_mapped\<close> are the mappings of the process;
  \<open>vm_bad\<close> records that \<open>munmap\<close> was called on something that is not mapped.
\<close>

record vector_moves =
  vm_objects :: "nat \<rightharpoonup> nat option"
  vm_mapped :: "nat set"
  vm_next :: nat
  vm_bad :: bool

definition vm_munmap :: "nat option \<Rightarrow> vector_moves \<Rightarrow> vector_moves" where
  "vm_munmap m w =
     (case m of
        None \<Rightarrow> w
      | Some i \<Rightarrow> if i \<in> vm_mapped w then w\<lparr>vm_mapped := vm_mapped w - {i}\<rparr> else w\<lparr>vm_bad := True\<rparr>)"

text \<open>Opening a vector maps its file.\<close>

definition vm_open :: "nat \<Rightarrow> vector_moves \<Rightarrow> vector_moves" where
  "vm_open ob w =
     w\<lparr>vm_objects := (vm_objects w)(ob \<mapsto> Some (vm_next w)), vm_mapped := insert (vm_next w) (vm_mapped w), vm_next := vm_next w + 1\<rparr>"

definition vm_move :: "nat \<Rightarrow> nat \<Rightarrow> nat option \<Rightarrow> vector_moves \<Rightarrow> vector_moves" where
  "vm_move ob other m w = w\<lparr>vm_objects := (vm_objects w)(ob \<mapsto> m, other \<mapsto> None)\<rparr>"

text \<open>
  The assignment; the two objects may be the same.  The code ends without a \<open>return\<close>, so that the value of
  the assignment is undefined; its effect on the objects is what follows.
\<close>

definition vm_assign :: "nat \<Rightarrow> nat option \<Rightarrow> nat \<Rightarrow> vector_moves \<Rightarrow> vector_moves" where
  "vm_assign ob m0 other w =
     (let w = vm_munmap m0 w;
          w = w\<lparr>vm_objects := (vm_objects w)(ob := vm_objects w other)\<rparr>
      in w\<lparr>vm_objects := (vm_objects w)(other \<mapsto> None)\<rparr>)"

definition vm_destroy :: "nat \<Rightarrow> nat option \<Rightarrow> vector_moves \<Rightarrow> vector_moves" where
  "vm_destroy ob m w = (vm_munmap m w)\<lparr>vm_objects := (vm_objects w)(ob := None)\<rparr>"

inductive vm_step :: "vector_moves \<Rightarrow> vector_moves \<Rightarrow> bool" where
  vm_open_step: "vm_objects w ob = None \<Longrightarrow> vm_step w (vm_open ob w)"
| vm_move_step: "vm_objects w ob = None \<Longrightarrow> vm_objects w other = Some m \<Longrightarrow> vm_step w (vm_move ob other m w)"
| vm_assign_step: "vm_objects w ob = Some m0 \<Longrightarrow> vm_objects w other = Some m \<Longrightarrow> vm_step w (vm_assign ob m0 other w)"
| vm_destroy_step: "vm_objects w ob = Some m \<Longrightarrow> vm_step w (vm_destroy ob m w)"

definition vm_init :: vector_moves where
  "vm_init = \<lparr>vm_objects = (\<lambda>ob. None), vm_mapped = {}, vm_next = 0, vm_bad = False\<rparr>"

text \<open>Every mapping belongs to one object, and no object refers to something that is not mapped.\<close>

definition vm_holds :: "(nat \<rightharpoonup> nat option) \<Rightarrow> nat \<Rightarrow> nat \<Rightarrow> bool" where
  "vm_holds S ob i \<longleftrightarrow> S ob = Some (Some i)"

definition vm_inv :: "vector_moves \<Rightarrow> bool" where
  "vm_inv w \<longleftrightarrow>
     \<not> vm_bad w \<and> (\<forall>i \<in> vm_mapped w. i < vm_next w) \<and>
     (\<forall>i. i \<in> vm_mapped w \<longleftrightarrow> (\<exists>ob. vm_holds (vm_objects w) ob i)) \<and>
     (\<forall>ob ob' i. vm_holds (vm_objects w) ob i \<longrightarrow> vm_holds (vm_objects w) ob' i \<longrightarrow> ob = ob')"

lemma vm_invI:
  assumes "\<not> vm_bad w" "\<And>i. i \<in> vm_mapped w \<Longrightarrow> i < vm_next w"
    "\<And>i. i \<in> vm_mapped w \<longleftrightarrow> (\<exists>ob. vm_holds (vm_objects w) ob i)"
    "\<And>ob ob' i. vm_holds (vm_objects w) ob i \<Longrightarrow> vm_holds (vm_objects w) ob' i \<Longrightarrow> ob = ob'"
  shows "vm_inv w"
  unfolding vm_inv_def using assms by blast

lemma vm_invD:
  assumes "vm_inv w"
  shows "\<not> vm_bad w" "i \<in> vm_mapped w \<Longrightarrow> i < vm_next w" "i \<in> vm_mapped w \<longleftrightarrow> (\<exists>ob. vm_holds (vm_objects w) ob i)"
    "vm_holds (vm_objects w) ob i \<Longrightarrow> vm_holds (vm_objects w) ob' i \<Longrightarrow> ob = ob'"
  using assms unfolding vm_inv_def by blast+

text \<open>Giving up what an object holds.\<close>

lemma vm_inv_drop:
  assumes "vm_inv w" "vm_objects w ob = Some m" "x = None \<or> x = Some None"
  shows "vm_inv ((vm_munmap m w)\<lparr>vm_objects := (vm_objects w)(ob := x)\<rparr>)" (is "vm_inv ?w")
proof (rule vm_invI)
  note I = vm_invD [OF assms(1)]
  have own: "vm_holds (vm_objects w) ob i \<longleftrightarrow> m = Some i" for i using assms(2) by (auto simp: vm_holds_def)
  have h: "vm_holds (vm_objects ?w) ob' i \<longleftrightarrow> ob' \<noteq> ob \<and> vm_holds (vm_objects w) ob' i" for ob' i
    using assms(3) by (auto simp: vm_holds_def)
  have in_use: "i \<in> vm_mapped w" if "m = Some i" for i using I(3) own that by blast
  then have w: "vm_mapped ?w = vm_mapped w - {i. m = Some i}" "vm_bad ?w = vm_bad w" "vm_next ?w = vm_next w"
    by (auto simp: vm_munmap_def split: option.split)
  show "\<not> vm_bad ?w" using I(1) w(2) by simp
  show "i \<in> vm_mapped ?w \<Longrightarrow> i < vm_next ?w" for i using I(2) w by simp
  have "m = Some i \<Longrightarrow> vm_holds (vm_objects w) ob' i \<Longrightarrow> ob' = ob" for ob' i using I(4) [of ob' i ob] own by simp
  then have "(\<exists>ob'. ob' \<noteq> ob \<and> vm_holds (vm_objects w) ob' i) \<longleftrightarrow> (\<exists>ob'. vm_holds (vm_objects w) ob' i) \<and> m \<noteq> Some i" for i
    using own by metis
  then show "i \<in> vm_mapped ?w \<longleftrightarrow> (\<exists>ob'. vm_holds (vm_objects ?w) ob' i)" for i
    unfolding w(1) h using I(3) [of i] by simp
  show "vm_holds (vm_objects ?w) ob1 i \<Longrightarrow> vm_holds (vm_objects ?w) ob2 i \<Longrightarrow> ob1 = ob2" for ob1 ob2 i
    unfolding h using I(4) by blast
qed

text \<open>Passing a mapping from one object to another, which holds none.\<close>

lemma vm_inv_pass:
  assumes "vm_inv w" "vm_objects w other = Some m" "ob \<noteq> other" "\<And>i. \<not> vm_holds (vm_objects w) ob i"
  shows "vm_inv (w\<lparr>vm_objects := (vm_objects w)(ob \<mapsto> m, other \<mapsto> None)\<rparr>)" (is "vm_inv ?w")
proof (rule vm_invI)
  note I = vm_invD [OF assms(1)]
  have h: "vm_holds (vm_objects ?w) ob' i \<longleftrightarrow> (if ob' = ob then vm_holds (vm_objects w) other i else ob' \<noteq> other \<and> vm_holds (vm_objects w) ob' i)" for ob' i
    using assms(2,3) by (auto simp: vm_holds_def)
  show "\<not> vm_bad ?w" using I(1) by simp
  show "i \<in> vm_mapped ?w \<Longrightarrow> i < vm_next ?w" for i using I(2) by simp
  have "(\<exists>ob'. vm_holds (vm_objects ?w) ob' i) \<longleftrightarrow> (\<exists>ob'. vm_holds (vm_objects w) ob' i)" for i
    unfolding h using assms(3,4) by metis
  then show "i \<in> vm_mapped ?w \<longleftrightarrow> (\<exists>ob'. vm_holds (vm_objects ?w) ob' i)" for i using I(3) by simp
  show "vm_holds (vm_objects ?w) ob1 i \<Longrightarrow> vm_holds (vm_objects ?w) ob2 i \<Longrightarrow> ob1 = ob2" for ob1 ob2 i
    unfolding h using I(4) by (metis (full_types))
qed

lemma vm_inv_open:
  assumes "vm_inv w" "vm_objects w ob = None"
  shows "vm_inv (vm_open ob w)" (is "vm_inv ?w")
proof (rule vm_invI)
  note I = vm_invD [OF assms(1)]
  have h: "vm_holds (vm_objects ?w) ob' i \<longleftrightarrow> (if ob' = ob then i = vm_next w else vm_holds (vm_objects w) ob' i)" for ob' i
    by (auto simp: vm_holds_def vm_open_def)
  have w: "vm_bad ?w = vm_bad w" "vm_mapped ?w = insert (vm_next w) (vm_mapped w)" "vm_next ?w = vm_next w + 1"
    by (simp_all add: vm_open_def)
  have none: "\<not> vm_holds (vm_objects w) ob i" for i using assms(2) by (simp add: vm_holds_def)
  show "\<not> vm_bad ?w" using I(1) w by simp
  show "i \<in> vm_mapped ?w \<Longrightarrow> i < vm_next ?w" for i using I(2) unfolding w by (auto intro: less_SucI)
  have "(\<exists>ob'. vm_holds (vm_objects ?w) ob' i) \<longleftrightarrow> i = vm_next w \<or> (\<exists>ob'. vm_holds (vm_objects w) ob' i)" for i
    unfolding h using none by metis
  then show "i \<in> vm_mapped ?w \<longleftrightarrow> (\<exists>ob'. vm_holds (vm_objects ?w) ob' i)" for i using I(3) [of i] unfolding w by simp
  have "\<not> vm_holds (vm_objects w) ob' (vm_next w)" for ob' using I(2,3) by blast
  then show "vm_holds (vm_objects ?w) ob1 i \<Longrightarrow> vm_holds (vm_objects ?w) ob2 i \<Longrightarrow> ob1 = ob2" for ob1 ob2 i
    unfolding h using I(4) by (metis (full_types))
qed

lemma vm_inv_step: "vm_step w w' \<Longrightarrow> vm_inv w \<Longrightarrow> vm_inv w'"
proof (induction rule: vm_step.induct)
  case (vm_open_step w ob)
  then show ?case using vm_inv_open by blast
next
  case (vm_move_step w ob other m)
  then have "ob \<noteq> other" "\<And>i. \<not> vm_holds (vm_objects w) ob i" by (auto simp: vm_holds_def)
  then show ?case unfolding vm_move_def using vm_inv_pass [OF vm_move_step(3,2)] by blast
next
  case (vm_assign_step w ob m0 other m)
  let ?w = "(vm_munmap m0 w)\<lparr>vm_objects := (vm_objects w)(ob \<mapsto> None)\<rparr>"
  have ob: "vm_objects (vm_munmap m0 w) = vm_objects w" by (simp add: vm_munmap_def split: option.split)
  have freed: "vm_inv ?w" using vm_inv_drop vm_assign_step(1,3) by blast
  show ?case
  proof (cases "ob = other")
    case True
    then show ?thesis using freed by (simp add: vm_assign_def Let_def ob)
  next
    case False
    then have "vm_objects ?w other = Some m" "\<And>i. \<not> vm_holds (vm_objects ?w) ob i"
      using vm_assign_step(2) by (simp_all add: vm_holds_def)
    from vm_inv_pass [OF freed this(1) False this(2)] show ?thesis
      using vm_assign_step(2) by (simp add: vm_assign_def Let_def ob)
  qed
next
  case (vm_destroy_step w ob m)
  then show ?case unfolding vm_destroy_def using vm_inv_drop by blast
qed

interpretation vm_system: invariant_system "\<lambda>w. w = vm_init" vm_step vm_inv
proof
  show "vm_inv w" if "w = vm_init" for w using that by (simp add: vm_inv_def vm_init_def vm_holds_def)
qed (rule vm_inv_step)

text \<open>
  However vectors are opened, moved, assigned, also to themselves, and destroyed, a mapping is unmapped
  exactly when the object that holds it goes away or is assigned to: nothing is unmapped twice, no
  object refers to an unmapped file, and no mapping is left without an object.
\<close>

theorem mdv_mappings_owned:
  assumes "reachable (\<lambda>w. w = vm_init) vm_step w"
  shows "\<not> vm_bad w \<and> (\<forall>i. i \<in> vm_mapped w \<longleftrightarrow> (\<exists>!ob. vm_objects w ob = Some (Some i)))"
  using vm_system.reachable_inv [OF assms] unfolding vm_inv_def vm_holds_def by metis

theorem mdv_mappings_owned_witness: "\<not> vm_bad (vm_move 2 1 (Some 0) (vm_open 1 vm_init))"
proof -
  have 0: "reachable (\<lambda>w. w = vm_init) vm_step vm_init" by (simp add: reach_init)
  have 1: "reachable (\<lambda>w. w = vm_init) vm_step (vm_open 1 vm_init)"
    by (rule reach_step [OF 0 vm_open_step]) (simp add: vm_init_def)
  have 2: "reachable (\<lambda>w. w = vm_init) vm_step (vm_move 2 1 (Some 0) (vm_open 1 vm_init))"
    by (rule reach_step [OF 1 vm_move_step]) (simp_all add: vm_open_def vm_init_def)
  from mdv_mappings_owned [OF 2] show ?thesis by simp
qed

end
