(* ===== verification/Extended_Attributes.thy ===== *)
theory Extended_Attributes
  imports User_Info Small_Utils
begin

text \<open>
  Extended attributes, \<open>XAttr.cpp\<close>: reading an attribute and the names of all attributes of a file with
  calls that fail if the buffer is too small.

  The system calls are a function of the number of the call and of the size of the buffer: it gives an
  \<open>errno\<close>, or the returned size with the bytes written to the buffer.  Other programs may change the
  attributes between two calls, so that the loops need not end: they are \<open>partial_function\<close>s.
\<close>

section \<open>Reading attributes\<close>

type_synonym sized_call = "nat \<Rightarrow> nat \<Rightarrow> nat + nat \<times> string"

definition resize :: "nat \<Rightarrow> string \<Rightarrow> string" where
  "resize n buf = take n buf @ replicate (n - length buf) (CHR 0x00)"

lemma length_resize [simp]: "length (resize n buf) = n"
  by (simp add: resize_def)

text \<open>
  The loop of \<open>fgetxattr\<close> and \<open>listxattr\<close>: a call with the buffer and, if it was too small, a call that
  asks for the size; \<open>extra\<close> is the room added to that size.  The result is the returned size and the
  buffer.
\<close>

partial_function (option) sized_loop :: "sized_call \<Rightarrow> nat \<Rightarrow> nat \<Rightarrow> string \<Rightarrow> (nat + nat \<times> string) option" where
  "sized_loop sys extra n buf =
     (case sys n (length buf) of
        Inr (sz, written) \<Rightarrow> Some (Inr (sz, written @ drop (length written) buf))
      | Inl e \<Rightarrow>
          if e \<noteq> ERANGE then Some (Inl e)
          else (case sys (n + 1) 0 of
                  Inl e \<Rightarrow> Some (Inl e)
                | Inr (sz, _) \<Rightarrow> sized_loop sys extra (n + 2) (resize (sz + extra) buf)))"

definition fgetxattr :: "sized_call \<Rightarrow> (nat + string) option" where
  "fgetxattr sys =
     (case sized_loop sys 1 0 (resize 64 []) of
        None \<Rightarrow> None
      | Some (Inl e) \<Rightarrow> Some (Inl e)
      | Some (Inr (sz, buf)) \<Rightarrow> Some (Inr (resize sz buf)))"

text \<open>\<open>getxattr\<close> opens the file first; \<open>opened\<close> is the descriptor or the error.\<close>

definition getxattr :: "nat + nat \<Rightarrow> (nat \<Rightarrow> sized_call) \<Rightarrow> (nat + string) option" where
  "getxattr opened sys = (case opened of Inl e \<Rightarrow> Some (Inl e) | Inr fd \<Rightarrow> fgetxattr (sys fd))"

text \<open>
  \<open>listxattr\<close>.  The names are a view of \<open>size - 1\<close> bytes of the buffer, computed on 64 bits: a view that
  ends outside the buffer has undefined behaviour.  \<open>split\<close> stands for \<open>folly::split\<close>.
\<close>

datatype listed = Listed "string list" | List_error nat | List_undefined

definition names_view :: "nat \<Rightarrow> string \<Rightarrow> string option" where
  "names_view sz buf =
     (let n = unat ((of_nat sz :: 64 word) - 1) in if n \<le> length buf then Some (take n buf) else None)"

definition listxattr :: "(char \<Rightarrow> string \<Rightarrow> string list) \<Rightarrow> sized_call \<Rightarrow> listed option" where
  "listxattr split sys =
     (case sized_loop sys 0 0 (resize 128 []) of
        None \<Rightarrow> None
      | Some (Inl e) \<Rightarrow> Some (List_error e)
      | Some (Inr (sz, buf)) \<Rightarrow>
          Some (case names_view sz buf of None \<Rightarrow> List_undefined | Some v \<Rightarrow> Listed (split (CHR 0x00) v)))"

section \<open>The calls\<close>

text \<open>
  What the manual says of the calls: \<open>vals n\<close> is the attribute, or the list of names, at the time of call
  \<open>n\<close>.  A buffer of size 0 asks for the size.
\<close>

locale sized_calls =
  fixes sys :: sized_call and vals :: "nat \<Rightarrow> nat + string"
  assumes error: "vals n = Inl e \<Longrightarrow> sys n sz = Inl e \<and> e \<noteq> ERANGE"
    and fits: "vals n = Inr v \<Longrightarrow> 0 < sz \<Longrightarrow> length v \<le> sz \<Longrightarrow> sys n sz = Inr (length v, v)"
    and short: "vals n = Inr v \<Longrightarrow> 0 < sz \<Longrightarrow> sz < length v \<Longrightarrow> sys n sz = Inl ERANGE"
    and query: "vals n = Inr v \<Longrightarrow> sys n 0 = Inr (length v, [])"
begin

text \<open>One round of the loop with a buffer that is not empty.\<close>

lemma sized_loop_round:
  assumes "buf \<noteq> []"
  shows "sized_loop sys extra n buf =
    (case vals n of
       Inl e \<Rightarrow> Some (Inl e)
     | Inr v \<Rightarrow>
         if length v \<le> length buf then Some (Inr (length v, v @ drop (length v) buf))
         else (case vals (n + 1) of
                 Inl e \<Rightarrow> Some (Inl e)
               | Inr v' \<Rightarrow> sized_loop sys extra (n + 2) (resize (length v' + extra) buf)))"
proof (cases "vals n")
  case (Inl e)
  then show ?thesis using error [OF Inl] by (subst sized_loop.simps) simp
next
  case (Inr v)
  show ?thesis
  proof (cases "length v \<le> length buf")
    case True
    then show ?thesis using Inr fits [OF Inr _ True] assms by (subst sized_loop.simps) simp
  next
    case False
    then have s: "sys n (length buf) = Inl ERANGE" using short [OF Inr] assms by simp
    show ?thesis
      using Inr False s error [of "n + 1"] query [of "n + 1"] by (subst sized_loop.simps) (cases "vals (n + 1)", simp_all)
  qed
qed

lemma resize_nonempty: "extra > 0 \<or> v \<noteq> [] \<Longrightarrow> resize (length v + extra) buf \<noteq> []"
  using length_resize [of "length v + extra" buf] by force

text \<open>Once the attribute does not change any longer, the loop ends.\<close>

lemma sized_loop_ends:
  assumes "buf \<noteq> []" "\<And>m. N \<le> m \<Longrightarrow> vals m = vals N" "extra > 0 \<or> (\<forall>m. vals m \<noteq> Inr [])"
  shows "\<exists>r. sized_loop sys extra n buf = Some r"
  using assms(1)
proof (induction "N + 2 - n" arbitrary: n buf rule: less_induct)
  case less
  have step: "\<exists>r. sized_loop sys extra (n + 2) (resize (length v + extra) buf) = Some r" if "vals (n + 1) = Inr v" for v
  proof -
    have ne: "resize (length v + extra) buf \<noteq> []" by (rule resize_nonempty) (use assms(3) that in auto)
    show ?thesis
    proof (cases "n < N + 2")
      case True
      then show ?thesis using less(1) [OF _ ne, of "n + 2"] by simp
    next
      case False
      then have "vals (n + 2) = Inr v" using assms(2) [of "n + 1"] assms(2) [of "n + 2"] that by simp
      then show ?thesis using ne by (simp add: sized_loop_round)
    qed
  qed
  then show ?case using less(2) by (simp add: sized_loop_round split: sum.split)
qed

text \<open>What the loop returns was there at some moment, in full.\<close>

lemma sized_loop_result:
  assumes "sized_loop sys extra n buf = Some r" "buf \<noteq> []" "extra > 0 \<or> (\<forall>m. vals m \<noteq> Inr [])"
  shows "case r of
      Inl e \<Rightarrow> \<exists>m. vals m = Inl e
    | Inr (sz, b) \<Rightarrow> \<exists>m v. vals m = Inr v \<and> sz = length v \<and> take sz b = v"
    (is "?P r")
proof -
  let ?Q = "\<lambda>sys' extra' n buf r. sys' = sys \<longrightarrow> extra' = extra \<longrightarrow> buf \<noteq> [] \<longrightarrow> ?P r"
  have "?Q sys extra n buf r"
  proof (rule sized_loop.raw_induct [where P = ?Q, OF _ assms(1)])
    fix rec sys' extra' n buf r
    assume IH: "\<And>sys' extra' n buf r. rec sys' extra' n buf = Some r \<Longrightarrow> ?Q sys' extra' n buf r"
      and eq: "(case sys' n (length buf) of
          Inl e \<Rightarrow>
            if e \<noteq> ERANGE then Some (Inl e)
            else (case sys' (n + 1) 0 of
                    Inl e \<Rightarrow> Some (Inl e)
                  | Inr (sz, _) \<Rightarrow> rec sys' extra' (n + 2) (resize (sz + extra') buf))
        | Inr (sz, written) \<Rightarrow> Some (Inr (sz, written @ drop (length written) buf))) = Some r"
    show "?Q sys' extra' n buf r"
    proof (intro impI)
      assume [simp]: "sys' = sys" "extra' = extra" and ne: "buf \<noteq> []"
      consider e where "vals n = Inl e" | v where "vals n = Inr v" "length v \<le> length buf"
        | v e where "vals n = Inr v" "length buf < length v" "vals (n + 1) = Inl e"
        | v v' where "vals n = Inr v" "length buf < length v" "vals (n + 1) = Inr v'"
        by (metis not_less sum.exhaust)
      then show "?P r"
      proof cases
        case 1
        then show ?thesis using eq error by auto
      next
        case 2
        then show ?thesis using eq fits [OF 2(1) _ 2(2)] ne by auto
      next
        case 3
        then show ?thesis using eq short [OF 3(1) _ 3(2)] error [OF 3(3)] ne by auto
      next
        case 4
        then have "rec sys extra (n + 2) (resize (length v' + extra) buf) = Some r"
          using eq short [OF 4(1) _ 4(2)] query [OF 4(3)] ne by simp
        moreover have "resize (length v' + extra) buf \<noteq> []" by (rule resize_nonempty) (use assms(3) 4(3) in auto)
        ultimately show ?thesis using IH [of sys extra "n + 2"] by simp
      qed
    qed
  qed
  then show ?thesis using assms(2) by simp
qed

end

text \<open>An attribute that nobody changes.\<close>

definition steady_call :: "string \<Rightarrow> sized_call" where
  "steady_call v n sz = (if sz = 0 then Inr (length v, []) else if length v \<le> sz then Inr (length v, v) else Inl ERANGE)"

interpretation steady: sized_calls "steady_call v" "\<lambda>n. Inr v"
  by unfold_locales (auto simp: steady_call_def)

section \<open>What is read\<close>

text \<open>
  \<open>fgetxattr\<close> returns a value that the attribute had, whole whatever its length, or an error that a
  call reported; it returns if the attribute changes only finitely often, and with its value if it
  does not change.
\<close>

theorem fgetxattr_correct:
  assumes "sized_calls sys vals"
  shows "(\<forall>v. fgetxattr sys = Some (Inr v) \<longrightarrow> (\<exists>m. vals m = Inr v)) \<and>
    (\<forall>e. fgetxattr sys = Some (Inl e) \<longrightarrow> (\<exists>m. vals m = Inl e)) \<and>
    ((\<exists>N. \<forall>m \<ge> N. vals m = vals N) \<longrightarrow> (\<exists>r. fgetxattr sys = Some r)) \<and>
    (\<forall>x. (\<forall>m. vals m = x) \<longrightarrow> fgetxattr sys = Some x)"
proof -
  have ne: "resize 64 [] \<noteq> []" by (simp add: resize_def)
  have ok: "\<exists>m. vals m = r" if f: "fgetxattr sys = Some r" for r
  proof -
    obtain r' where r': "sized_loop sys 1 0 (resize 64 []) = Some r'" using f unfolding fgetxattr_def by (cases "sized_loop sys 1 0 (resize 64 [])") (simp_all del: One_nat_def)
    note R = sized_calls.sized_loop_result [OF assms r' ne disjI1 [OF zero_less_one]]
    show ?thesis
    proof (cases r')
      case (Inl e)
      then show ?thesis using R f unfolding fgetxattr_def r' by auto
    next
      case (Inr p)
      obtain sz buf where p: "p = (sz, buf)" by fastforce
      from R obtain m v where m: "vals m = Inr v" "sz = length v" "take sz buf = v" by (auto simp: Inr p)
      have "length v \<le> length buf" using m(2,3) by (metis length_take min.cobounded1)
      then have "resize sz buf = v" using m(2,3) by (simp add: resize_def)
      then show ?thesis using f m(1) unfolding fgetxattr_def r' Inr p by auto
    qed
  qed
  have ends: "\<exists>r. fgetxattr sys = Some r" if N: "\<forall>m \<ge> N. vals m = vals N" for N
  proof -
    obtain r' where "sized_loop sys 1 0 (resize 64 []) = Some r'"
      using sized_calls.sized_loop_ends [OF assms ne _ disjI1 [OF zero_less_one], of N 0] N by blast
    then show ?thesis unfolding fgetxattr_def by (cases r') auto
  qed
  show ?thesis using ok ends by (metis (no_types, lifting))
qed

theorem fgetxattr_correct_witness:
  "fgetxattr (steady_call (replicate 70 (CHR ''x''))) = Some (Inr (replicate 70 (CHR ''x'')))"
  using fgetxattr_correct [OF steady.sized_calls_axioms] by blast

subsection \<open>The names of the attributes\<close>

text \<open>The kernel writes every name with a final NUL byte.\<close>

definition raw_names :: "string list \<Rightarrow> string" where
  "raw_names ns = concat (map (\<lambda>s. s @ [CHR 0x00]) ns)"

lemma raw_names_join: "ns \<noteq> [] \<Longrightarrow> raw_names ns = join [CHR 0x00] ns @ [CHR 0x00]"
  by (induction "[CHR 0x00]" ns rule: join.induct) (simp_all add: raw_names_def)

lemma raw_names_empty [simp]: "raw_names ns = [] \<longleftrightarrow> ns = []"
  by (auto simp: raw_names_def)

lemma names_view_names:
  assumes "take (length v) buf = v" "v \<noteq> []" "length v < 2 ^ 64"
  shows "names_view (length v) buf = Some (butlast v)"
proof -
  have "of_nat (length v) - 1 = (of_nat (length v - 1) :: 64 word)" using assms(2) by (cases v) simp_all
  moreover have "unat (of_nat (length v - 1) :: 64 word) = length v - 1"
    using assms(3) by (simp add: unat_of_nat take_bit_nat_eq_self_iff)
  ultimately have "unat ((of_nat (length v) :: 64 word) - 1) = length v - 1" by metis
  moreover have "length v \<le> length buf" using assms(1) by (metis length_take min.cobounded1)
  moreover have "take (length v - 1) buf = butlast v"
    using assms(1) by (metis butlast_conv_take diff_le_self min.absorb1 take_take)
  ultimately show ?thesis by (simp add: names_view_def Let_def)
qed

text \<open>
  \<open>listxattr\<close> returns the names of the attributes that the file had at some moment, or an error that a
  call reported, and it returns if the attributes change only finitely often, provided that the file
  always has some attribute.
\<close>

theorem listxattr_correct:
  assumes "sized_calls sys (\<lambda>n. map_sum id raw_names (names n))"
    and "\<And>ps. ps \<noteq> [] \<Longrightarrow> (\<forall>p \<in> set ps. CHR 0x00 \<notin> set p) \<Longrightarrow> split (CHR 0x00) (join [CHR 0x00] ps) = ps"
    and "\<And>n ns. names n = Inr ns \<Longrightarrow> ns \<noteq> [] \<and> (\<forall>s \<in> set ns. CHR 0x00 \<notin> set s) \<and> length (raw_names ns) < 2 ^ 64"
  shows "(\<forall>r. listxattr split sys = Some r \<longrightarrow>
      (case r of Listed ns \<Rightarrow> \<exists>m. names m = Inr ns | List_error e \<Rightarrow> \<exists>m. names m = Inl e | List_undefined \<Rightarrow> False)) \<and>
    ((\<exists>N. \<forall>m \<ge> N. names m = names N) \<longrightarrow> (\<exists>r. listxattr split sys = Some r))"
proof -
  let ?vals = "\<lambda>n. map_sum id raw_names (names n)"
  have ne: "resize 128 [] \<noteq> []" by (simp add: resize_def)
  have nonempty: "\<forall>m. ?vals m \<noteq> Inr []"
  proof
    show "?vals m \<noteq> Inr []" for m using assms(3) [of m] by (cases "names m") auto
  qed
  have result: "case r of Listed ns \<Rightarrow> \<exists>m. names m = Inr ns | List_error e \<Rightarrow> \<exists>m. names m = Inl e | List_undefined \<Rightarrow> False"
    if l: "listxattr split sys = Some r" for r
  proof -
    obtain r' where r': "sized_loop sys 0 0 (resize 128 []) = Some r'" using l unfolding listxattr_def by (cases "sized_loop sys 0 0 (resize 128 [])") auto
    note R = sized_calls.sized_loop_result [OF assms(1) r' ne disjI2 [OF nonempty]]
    show ?thesis
    proof (cases r')
      case (Inl e)
      with R obtain m where "?vals m = Inl e" by auto
      then have "names m = Inl e" by (cases "names m") auto
      then show ?thesis using l by (auto simp: listxattr_def r' Inl)
    next
      case (Inr p)
      obtain sz buf where p: "p = (sz, buf)" by fastforce
      from R obtain m v where m: "?vals m = Inr v" "sz = length v" "take sz buf = v" by (auto simp: Inr p)
      then obtain ns where ns: "names m = Inr ns" "v = raw_names ns" by (cases "names m") auto
      note N = assms(3) [OF ns(1)]
      then have "names_view sz buf = Some (butlast v)" using names_view_names [of v buf] m(2,3) ns(2) by simp
      moreover have "butlast v = join [CHR 0x00] ns" using ns(2) N by (simp add: raw_names_join)
      ultimately have "r = Listed ns" using l assms(2) [of ns] N by (auto simp: listxattr_def r' Inr p)
      then show ?thesis using ns(1) by auto
    qed
  qed
  have ends: "\<exists>r. listxattr split sys = Some r" if N: "\<forall>m \<ge> N. names m = names N" for N
  proof -
    obtain r' where "sized_loop sys 0 0 (resize 128 []) = Some r'"
      using sized_calls.sized_loop_ends [OF assms(1) ne _ disjI2 [OF nonempty], of N 0 0] N by metis
    then show ?thesis unfolding listxattr_def by (cases r') auto
  qed
  show ?thesis using result ends by blast
qed

theorem listxattr_correct_witness:
  "listxattr split_string (steady_call (raw_names [''user.a'', ''user.b''])) = Some (Listed [''user.a'', ''user.b''])"
    (is "?l = _")
proof -
  let ?names = "\<lambda>n::nat. Inr [''user.a'', ''user.b''] :: nat + string list"
  have "sized_calls (steady_call (raw_names [''user.a'', ''user.b''])) (\<lambda>n. map_sum id raw_names (?names n))"
    using steady.sized_calls_axioms [of "raw_names [''user.a'', ''user.b'']"] by simp
  note C = listxattr_correct [where names = ?names and split = split_string, OF this]
  obtain r where r: "?l = Some r" "case r of Listed ns \<Rightarrow> \<exists>m. ?names m = Inr ns | List_error e \<Rightarrow> \<exists>m. ?names m = Inl e | List_undefined \<Rightarrow> False"
    using C split_join_id by (fastforce simp: raw_names_def)
  then show ?thesis by (cases r) simp_all
qed

text \<open>
  A file without extended attributes: the size is 0, and the view has \<open>2\<^sup>6\<^sup>4 - 1\<close> bytes.
\<close>

theorem listxattr_no_attributes:
  assumes "sized_calls sys (\<lambda>n. map_sum id raw_names (names n))" "names 0 = Inr []"
  shows "listxattr split sys = Some List_undefined"
proof -
  have "resize 128 [] \<noteq> []" by (simp add: resize_def)
  from sized_calls.sized_loop_round [OF assms(1) this, of 0 0]
  have "sized_loop sys 0 0 (resize 128 []) = Some (Inr (0, resize 128 []))" using assms(2) by (simp add: raw_names_def)
  moreover have "unat ((of_nat 0 :: 64 word) - 1) = 2 ^ 64 - 1"
    by (subst unat_sub_if') simp
  then have "names_view 0 (resize 128 []) = None" unfolding names_view_def Let_def by simp
  ultimately show ?thesis by (simp add: listxattr_def)
qed

end
