(* ===== verification/Spec2Isabelle.thy ===== *)
theory Spec2Isabelle
  imports Path_Canonical Path_Map_Mutator Mapped_Disk_Vector Fault_Injector Socket_Receive
    Coverage_Set Bucketed_Log Process_Info_Progress File_Descriptor Descriptor_Ownership Id_Gen Option_Set Trace_Handles Future_Collect Collect_Safe
    Spawn_Options Spawned_Process Process_Communicate Scribe_Logger Ref_Ptr Future_Unix_Socket User_Info Process_Info Tracing Request_Metrics Lazy_Caches Dynamic_Event Small_Utils Io_Future Mapped_Vector_Moves Extended_Attributes
begin

text \<open>
  A verification of the common library of EdenFS, the C++ code under \<open>src/eden/common\<close> (paths below are
  relative to it).

  \<^bold>\<open>The program.\<close>  The library is what EdenFS shares between its daemon and its helpers.  It has no
  main loop; its parts are used side by side and build on each other:

  \<^item> typed paths and containers over them (\<open>utils/PathFuncs\<close>, \<open>PathMap\<close>, \<open>PathMapMutator\<close>, \<open>Utf8\<close>);
  \<^item> communication between processes: \<open>UnixSocket\<close> sends messages with file descriptors over a stream
    socket, \<open>FutureUnixSocket\<close> turns its callbacks into futures, \<open>FileDescriptor\<close> owns descriptors and
    transfers bytes, \<open>SpawnedProcess\<close> starts, feeds and reaps children, \<open>SubprocessScribeLogger\<close> logs
    through such a child;
  \<^item> concurrency: \<open>ImmediateFuture\<close> and \<open>collectSafe\<close>, \<open>RefPtr\<close>, \<open>LeaseCache\<close>, \<open>lazyInitialize\<close>, \<open>IDGen\<close>,
    the \<open>FaultInjector\<close> with which tests block and fail operations;
  \<^item> telemetry: \<open>TraceBus\<close>, \<open>Tracing\<close>, \<open>RequestMetricsScope\<close>, \<open>DynamicEvent\<close>, \<open>BucketedLog\<close>;
  \<^item> knowledge about processes and users: \<open>ProcessInfo\<close> and its cache \<open>ProcessInfoCache\<close>, \<open>UserInfo\<close>;
  \<^item> storage and small data: \<open>MappedDiskVector\<close>, \<open>CoverageSet\<close>, \<open>OptionSet\<close>, and small helpers.

  \<^bold>\<open>How code becomes definitions.\<close>  A class is a record with its fields, an enum or variant a datatype,
  a method a function that takes and returns the record.  Exceptions are values: \<open>Inl e\<close> of the type
  \<open>result\<close> with the class of the exception; \<open>CheckFailed\<close> is a failed \<open>XCHECK\<close>.  Undefined behaviour is
  \<open>None\<close>.  Machine integers are words or natural numbers with \<open>u64\<close> where they can wrap.  Code that runs
  in several threads is an inductive step relation, whose steps are the critical sections, atomic
  operations and notifications of the code; its theorems hold for every interleaving.  Ghost fields,
  named as such where they are declared, record histories that theorems speak about and that no
  operation reads.

  \<^bold>\<open>Theories and what they show.\<close>

  \<^item> \<open>Eden_Prelude\<close>: results, splitting and joining, searching, 64-bit arithmetic, decimal numbers.
    \<open>Transition_System\<close>: reachable states and the locale \<open>invariant_system\<close>, which every component with
    interleaved steps interprets.  \<open>Std_Algorithms\<close>: \<open>lower_bound\<close>, \<open>stable_sort\<close>, \<open>unique\<close> and
    \<open>inplace_merge\<close> of the standard library on a \<open>strict_weak_order\<close>.
  \<^item> \<open>Utf8\<close>: \<open>isValidUtf8\<close> with its pointer arithmetic; it decides validity if the byte after the view is
    readable and no continuation byte, and reads too far otherwise.
  \<^item> \<open>Path_Syntax\<close>, \<open>Path_Iterators\<close>, \<open>Path_Compare\<close>, \<open>Path_Compose\<close>, \<open>Path_Canonical\<close>
    (\<open>utils/PathFuncs.h\<close>, \<open>.cpp\<close>, for POSIX and Windows): the sanity checks are the grammar of valid
    paths; iterators visit exactly the prefixes, suffixes and components; comparison is a strict weak
    order on components; composition and canonicalisation give valid paths, and canonical paths have
    no empty, dot or dot-dot components.
  \<^item> \<open>Path_Map\<close> and \<open>Path_Map_Mutator\<close>: both refine a finite map.  The locale \<open>entry_map\<close> is the contract,
    \<open>assign_map\<close> extends it; the sorted vector and the mutator with its unsorted tail and erased
    entries interpret them.
  \<^item> \<open>Socket_Wire\<close>, \<open>Unix_Socket\<close>, \<open>Socket_Protocol\<close>, \<open>Socket_Receive\<close> (\<open>utils/UnixSocket\<close>): the stream that
    leaves the socket is that of its messages however the kernel splits it; the registration for
    events is what is needed; a receiver delivers the messages of the stream with their descriptors,
    and never writes outside its buffers.  Below, the two halves are put together.
    \<open>Future_Unix_Socket\<close>: every future is fulfilled once, in order.  \<open>Io_Future\<close>: every wait for an event is
    answered once.
  \<^item> \<open>File_Descriptor\<close> and \<open>Descriptor_Ownership\<close> (\<open>utils/FileDescriptor\<close>): full transfers transfer
    everything or report why not; a descriptor has one owner and is closed once.
  \<^item> \<open>Spawn_Options\<close>, \<open>Spawned_Process\<close>, \<open>Process_Communicate\<close> (\<open>utils/SpawnedProcess\<close>): what a child
    inherits; a process is reaped once and never signalled afterwards; waiting and killing end;
    communicating ends and reads all output.  \<open>Scribe_Logger\<close>
    (\<open>telemetry/SubprocessScribeLogger\<close>), on the models of the process and of \<open>writevFull\<close>: messages reach
    the child in order, and the destructor ends.
  \<^item> \<open>Immediate_Future\<close>, \<open>Future_Collect\<close>, \<open>Collect_Safe\<close> (\<open>utils/ImmediateFuture\<close>, \<open>Future.h\<close>): running a
    continuation at once or deferring it gives the same results; collections wait for all.
    \<open>Ref_Ptr\<close>: no use after deletion.  \<open>Lazy_Caches\<close>: answers of the lease cache belong to their keys.
    \<open>Id_Gen\<close>: ids are unique.  \<open>Fault_Injector\<close>: faults match in order, and every blocked check is
    released once.
  \<^item> \<open>Trace_Bus\<close> and \<open>Trace_Handles\<close> (\<open>telemetry/TraceBus\<close>): every subscriber sees the events published while
    it is subscribed, once and in order; the bus drains, does not deadlock, and deletes no subscription
    that is in use.  \<open>Tracing\<close>, on \<open>Id_Gen\<close>: the newest points of every thread are returned, and the tree
    of blocks is rebuilt from them.  \<open>Request_Metrics\<close>, \<open>Dynamic_Event\<close>, \<open>Bucketed_Log\<close>: counts are exact,
    events can be serialised, the log refines a timeline.
  \<^item> \<open>Process_Info_Cache\<close>, \<open>Process_Info_Progress\<close> (\<open>utils/ProcessInfoCache\<close>): the cache is consistent and
    every lookup is served.  \<open>User_Info\<close> and, on it, \<open>Process_Info\<close>: privileges are dropped completely, and
    the user behind a process is found.
  \<^item> \<open>Mapped_Disk_Vector\<close>, \<open>Mapped_Vector_Moves\<close>, \<open>Coverage_Set\<close>, \<open>Option_Set\<close>, \<open>Small_Utils\<close>: what was appended is read back, also
    after opening the file again or migrating it; the other operations do what they document.
    \<open>Extended_Attributes\<close> (\<open>utils/XAttr\<close>): an attribute is read whole however it changes meanwhile.

  Where the code does something else than it means to, a theorem shows it, such as the overlap that
  \<open>CoverageSet\<close> misses, the watch that a moved \<open>RequestMetricsScope\<close> leaves behind, the second call of
  \<open>init\<close> in \<open>lazyInitialize\<close>, or the receives that \<open>FutureUnixSocket\<close> fails with the wrong error.

  \<^bold>\<open>Loops and bounds.\<close>  Recursion over data is structural or has a measure.  The iterators run for
  \<open>length path + 2\<close> rounds, since every step shortens the rest of the path.  The polling loops of the fault
  injector run for as many rounds as milliseconds are left, the password lookup for four buffers
  (\<open>passwd_loop\<close>, measure \<open>3 - n\<close>).  Loops that depend on the kernel are \<open>partial_function\<close>s: theorems
  show that they return, by a measure that the law of the kernel gives (bytes to transfer, the clock
  of a wait, \<open>comm_rank\<close> for communicating, the depth of the process tree for \<open>user_loop\<close>).  Progress of
  threads is shown by ranks that every step of a thread decreases (\<open>lookup_rank\<close>, \<open>get_rank\<close>,
  \<open>drain_rank\<close>, \<open>collect_rank\<close>, \<open>scribe_rank\<close>).

  \<^bold>\<open>What is assumed.\<close>  Code outside the repository is an argument, with a named law that states what its
  documentation says: \<open>send_kernel\<close>, \<open>recv_stream\<close>, \<open>recv_bounded\<close> and \<open>recv_ready\<close> for stream sockets,
  \<open>posix_io\<close> for reading and writing, \<open>os_offsets\<close> and \<open>os_succeeds\<close> for files and mappings, \<open>proc_laws\<close> and
  \<open>comm_laws\<close> for child processes and pipes, \<open>alloc_law\<close> for descriptor numbers, \<open>steady_clock\<close> for time,
  \<open>cred_laws\<close>, \<open>cred_allowed\<close> and \<open>passwd_law\<close> for users, \<open>parents_end\<close> for the process tree, \<open>semi_laws\<close>,
  \<open>chain_laws\<close> and \<open>collect_laws\<close> for \<open>folly::SemiFuture\<close>, \<open>evicting_cache\<close> and \<open>erase_law\<close> for
  \<open>folly::EvictingCacheMap\<close>, \<open>ascii_case_insensitive\<close> for \<open>folly::AsciiCaseInsensitive\<close>, \<open>sorts\<close> for
  \<open>std::sort\<close>, \<open>monoid_bucket\<close> for the buckets of a log.  Regular expressions and \<open>folly::shellQuote\<close> are
  functions about which nothing is assumed.  Each law is met by a concrete instance, on which the
  witnesses of the theorems are evaluated.

  \<^bold>\<open>Not modelled.\<close>  Texts of messages and logging; memory allocation failures; weak memory orders (atomic
  operations are sequentially consistent); callbacks that call back into the socket that calls them.
  Of the modelled files: the branches for Windows except those of the paths, \<open>posix_spawn\<close> itself, \<open>threadedCommunicate\<close> and the
  executor of \<open>future_wait\<close>, the variadic \<open>collectAll\<close>, SELinux, the
  formatting of times.  Whole files: \<open>FileUtils\<close>, \<open>Pipe\<close>, \<open>Handle\<close>, \<open>Guid\<close>, \<open>StringConv\<close>, \<open>StatTimes\<close>,
  \<open>SysctlUtil\<close>, \<open>UnboundedQueueExecutor\<close>, \<open>utils/windows\<close> (calls of the system or of folly with
  their errors converted), \<open>StructuredLogger\<close>, \<open>StatsGroup\<close>, \<open>SessionInfo\<close> (glue to logging libraries),
  \<open>Bug\<close>, \<open>Throw\<close>, \<open>Try\<close>, \<open>Match\<close> (macros and helpers whose uses are the error values of the models), and
  the test and benchmark harnesses.
\<close>

section \<open>From socket to socket\<close>

text \<open>
  \<open>sending s k ms\<close>: the messages \<open>ms\<close> have been passed to \<open>send\<close> of a new socket, with calls of \<open>trySend\<close> for
  writable events in between; \<open>out k\<close> is the stream that has left it.
\<close>

inductive sending :: "nat \<Rightarrow> 'k sendmsg \<Rightarrow> ('k \<Rightarrow> item list) \<Rightarrow> us_state \<Rightarrow> 'k \<Rightarrow> us_message list \<Rightarrow> bool"
  for iovMax sk out where
  sending_new: "us_inv s \<Longrightarrow> us_open s \<Longrightarrow> pending_stream s = [] \<Longrightarrow> out k = [] \<Longrightarrow> sending iovMax sk out s k []"
| sending_send: "sending iovMax sk out s k ms \<Longrightarrow> \<not> us_closeStarted s \<Longrightarrow> send_message iovMax sk True msg cb s k = (s', k', r) \<Longrightarrow>
    sending iovMax sk out s' k' (ms @ [msg])"
| sending_writable: "sending iovMax sk out s k ms \<Longrightarrow> \<not> us_closeStarted s \<Longrightarrow> trySend iovMax sk s k = (s', k', Inr ()) \<Longrightarrow>
    sending iovMax sk out s' k' ms"

lemma sending_stream:
  assumes "sending iovMax sk out s k ms" "send_kernel sk out" "0 < iovMax"
  shows "us_inv s \<and> (us_open s \<longrightarrow> out k @ pending_stream s = concat (map wire ms))"
  using assms(1)
proof induction
  case (sending_new s k)
  then show ?case by simp
next
  case (sending_send s k ms msg cb s' k' r)
  have op: "us_open s" using sending_send.IH sending_send.hyps(2) by (simp add: us_inv_def split: if_splits)
  note S = send_message_spec [OF sending_send.hyps(3) _ assms(2,3) sending_send.hyps(2)]
  have inv: "us_inv s" using sending_send.IH by simp
  obtain rest where "out k' @ rest = out k @ pending_stream s @ wire msg" "us_open s' \<longrightarrow> rest = pending_stream s'"
    using S(4) [OF inv] by blast
  moreover have "out k @ pending_stream s = concat (map wire ms)" using sending_send.IH op by simp
  ultimately show ?case using S(1) [OF inv] by (auto simp: append_assoc [symmetric] simp del: append_assoc)
next
  case (sending_writable s k ms s' k')
  have inv: "us_inv s" and op: "us_open s"
    using sending_writable.IH sending_writable.hyps(2) by (simp_all add: us_inv_def split: if_splits)
  note T = trySend_spec [OF sending_writable.hyps(3) us_inv_running [OF inv op] assms(2,3)]
  show ?case using T(1,4) sending_writable.IH op by simp
qed

text \<open>
  C1: Two sockets.  Whatever messages one socket is given, in whatever pieces its kernel takes them, once
  its queue is empty a socket that reads the stream, in whatever pieces, hands exactly these messages
  to its callback, in order, with their data and their file descriptors.
\<close>

theorem socket_end_to_end:
  assumes "sending iovMax sk out s k ms" "send_kernel sk out" "0 < iovMax" "us_open s" "us_sendQueue s = []"
    and "recv_stream rk inp" "recv_ready rk inp" "recv_bounded rk" "inp j = out k"
    and "idle t" "us_receiveCallback t = Some cb" "\<forall>m \<in> set ms. acceptable t m"
    and "tryReceives rk (length (inp j)) t j = (t', j', r)"
  shows "\<exists>evs. us_log t' = us_log t @ map (\<lambda>m. MessageReceived cb (delivered m)) ms @ evs \<and> set evs \<subseteq> {EofReceived cb}"
proof -
  have "out k @ pending_stream s = concat (map wire ms)" using sending_stream [OF assms(1-3)] assms(4) by simp
  then have "inp j = concat (map wire ms)" using assms(5,9) by (simp add: pending_stream_def)
  then have "at_stream t ms (inp j)" using idle_at_stream [OF assms(10)] by simp
  from tryReceives_all [OF assms(6-8) this assms(11-13) order_refl] show ?thesis .
qed

text \<open>A kernel that takes all bytes at once.\<close>

definition greedy_send :: "item list sendmsg" where
  "greedy_send bs fds k = (Inr (length bs), k @ attach fds bs)"

lemma greedy_send_law: "send_kernel greedy_send id"
  by (auto simp: send_kernel_def greedy_send_def)

theorem socket_end_to_end_witness:
  "\<exists>k t' j' r evs. tryReceives sample_recv (length k) sample_receiver (k, []) = (t', j', r) \<and>
     us_log t' = MessageReceived 4 (delivered sample_message) # evs \<and> set evs \<subseteq> {EofReceived 4}"
proof -
  obtain s k r where t: "send_message 1024 greedy_send True sample_message (Some 5) sample_socket [] = (s, k, r)"
    by (metis prod_cases3)
  have "case send_message 1024 greedy_send True sample_message (Some 5) sample_socket [] of (s, k, r) \<Rightarrow> us_sendQueue s = [] \<and> us_open s"
    by code_simp
  then have q: "us_sendQueue s = []" "us_open s" by (simp_all add: t)
  have "us_open sample_socket" by (simp add: sample_socket_def)
  from sending_send [OF sending_new [OF sample_socket_inv(1) this sample_socket_inv(3)] sample_socket_inv(2) t]
  have run: "sending 1024 greedy_send id s k [sample_message]" by simp
  obtain t' j' r' where v: "tryReceives sample_recv (length (fst (k, [] :: item list))) sample_receiver (k, []) = (t', j', r')" by (metis prod_cases3)
  have acc: "\<forall>m \<in> set [sample_message]. acceptable sample_receiver m"
    using sample_receiver_facts(3) by (simp add: sample_messages_def sample_message_def)
  from socket_end_to_end [where out = id and inp = fst, OF run greedy_send_law _ q(2,1) sample_recv_laws _ sample_receiver_facts(1,2) acc v]
  obtain evs where "us_log t' = MessageReceived 4 (delivered sample_message) # evs" "set evs \<subseteq> {EofReceived 4}"
    using sample_receiver_facts(4) by auto
  then show ?thesis using v unfolding fst_conv by blast
qed

end
